(* ===== verification/Prelude.thy ===== *)
theory Prelude
  imports Main "HOL-Library.Word" "HOL-Library.Finite_Map" "HOL-Library.Monad_Syntax"
begin

text \<open>
  Conventions and lemmas shared by the whole development.

  \<^item> A Rust \<open>u32\<close> is a 32-bit word and a \<open>u64\<close> a 64-bit word, so \<open>+\<close> wraps as it does
    in a release build; a \<open>usize\<close> is a natural number.
  \<^item> A \<open>HashMap\<close> is a finite map (\<open>fmap\<close>), a \<open>HashSet\<close> or \<open>BTreeSet\<close> is a set, a
    \<open>Vec\<close>, a slice or a \<open>SmallVec\<close> is a list.
  \<^item> A \<open>Result\<close> is a sum with the error on the left. A panic, or a recursion that does
    not return, is \<open>None\<close> of an option around the result.
  \<^item> A function that takes \<open>&mut x\<close> returns the new value of \<open>x\<close> beside its result.
\<close>

type_synonym u8 = "8 word"
type_synonym u32 = "32 word"
type_synonym u64 = "64 word"

named_theorems sem_simps "evaluation of syntax in an interpretation"
named_theorems vars_simps "variables of a piece of syntax"

subsection \<open>Loops over lists that may panic\<close>

text \<open>\<open>mapM\<close> is \<open>iter().map(f).collect()\<close> for an \<open>f\<close> that may panic.\<close>

fun mapM :: "('a \<Rightarrow> 'b option) \<Rightarrow> 'a list \<Rightarrow> 'b list option" where
  "mapM f [] = Some []"
| "mapM f (x # xs) = do { y \<leftarrow> f x; ys \<leftarrow> mapM f xs; Some (y # ys) }"

text \<open>\<open>mapM_st\<close> is the same loop for an \<open>f\<close> that also updates a state.\<close>

fun mapM_st :: "('a \<Rightarrow> 's \<Rightarrow> ('b \<times> 's) option) \<Rightarrow> 'a list \<Rightarrow> 's \<Rightarrow> ('b list \<times> 's) option" where
  "mapM_st f [] s = Some ([], s)"
| "mapM_st f (x # xs) s = do {
     (y, s1) \<leftarrow> f x s;
     (ys, s2) \<leftarrow> mapM_st f xs s1;
     Some (y # ys, s2) }"

text \<open>\<open>map_st\<close> is a loop that updates every element and cannot panic.\<close>

fun map_st :: "('a \<Rightarrow> 's \<Rightarrow> 'b \<times> 's) \<Rightarrow> 'a list \<Rightarrow> 's \<Rightarrow> 'b list \<times> 's" where
  "map_st f [] s = ([], s)"
| "map_st f (x # xs) s = (let (y, s1) = f x s; (ys, s2) = map_st f xs s1 in (y # ys, s2))"

lemma map_st_append:
  "map_st f (xs @ ys) s =
     (let (xs', s1) = map_st f xs s; (ys', s2) = map_st f ys s1 in (xs' @ ys', s2))"
  by (induction xs arbitrary: s) (auto simp: split_def Let_def)

text \<open>
  \<open>try_each\<close> is \<open>for x in xs { f(x, &mut s)?; }\<close>: the loop stops at the first error.
\<close>

fun try_each :: "('a \<Rightarrow> 's \<Rightarrow> ('e + 's) option) \<Rightarrow> 'a list \<Rightarrow> 's \<Rightarrow> ('e + 's) option" where
  "try_each f [] s = Some (Inr s)"
| "try_each f (x # xs) s = do {
     r \<leftarrow> f x s;
     case r of Inl e \<Rightarrow> Some (Inl e) | Inr s' \<Rightarrow> try_each f xs s' }"

text \<open>\<open>foldM\<close> is \<open>for x in xs { f(x, &mut s) }\<close> for an \<open>f\<close> that may panic.\<close>

fun foldM :: "('a \<Rightarrow> 's \<Rightarrow> 's option) \<Rightarrow> 'a list \<Rightarrow> 's \<Rightarrow> 's option" where
  "foldM f [] s = Some s"
| "foldM f (x # xs) s = do { s' \<leftarrow> f x s; foldM f xs s' }"

lemma foldM_partial_mono [partial_function_mono]:
  assumes "\<And>x s. mono_option (\<lambda>f. B f x s)"
  shows "mono_option (\<lambda>f. foldM (B f) xs s)"
proof (induction xs arbitrary: s)
  case Nil
  show ?case by (simp add: monotone_def option.leq_refl)
next
  case (Cons x xs)
  show ?case unfolding foldM.simps by (rule bind_mono [OF assms Cons])
qed

lemma mapM_partial_mono [partial_function_mono]:
  assumes "\<And>x. mono_option (\<lambda>f. B f x)"
  shows "mono_option (\<lambda>f. mapM (B f) xs)"
proof (induction xs)
  case Nil
  show ?case by (simp add: monotone_def option.leq_refl)
next
  case (Cons x xs)
  show ?case unfolding mapM.simps
    by (rule bind_mono [OF assms], rule bind_mono [OF Cons])
      (simp add: monotone_def option.leq_refl)
qed

lemma mapM_st_partial_mono [partial_function_mono]:
  assumes "\<And>x s. mono_option (\<lambda>f. B f x s)"
  shows "mono_option (\<lambda>f. mapM_st (B f) xs s)"
proof (induction xs arbitrary: s)
  case Nil
  show ?case by (simp add: monotone_def option.leq_refl)
next
  case (Cons x xs)
  show ?case unfolding mapM_st.simps split_def
    by (rule bind_mono [OF assms], rule bind_mono [OF Cons])
      (simp add: monotone_def option.leq_refl)
qed

lemma try_each_partial_mono [partial_function_mono]:
  assumes "\<And>x s. mono_option (\<lambda>f. B f x s)"
  shows "mono_option (\<lambda>f. try_each (B f) xs s)"
proof (induction xs arbitrary: s)
  case Nil
  show ?case by (simp add: monotone_def option.leq_refl)
next
  case (Cons x xs)
  show ?case unfolding try_each.simps
  proof (rule bind_mono [OF assms])
    fix r
    show "mono_option (\<lambda>f. case r of Inl e \<Rightarrow> Some (Inl e) | Inr s' \<Rightarrow> try_each (B f) xs s')"
    proof (cases r)
      case (Inl e)
      then show ?thesis by (simp add: monotone_def option.leq_refl)
    next
      case (Inr s')
      then show ?thesis using Cons [of s'] by simp
    qed
  qed
qed

lemma mapM_cong [fundef_cong]:
  "xs = ys \<Longrightarrow> (\<And>x. x \<in> set ys \<Longrightarrow> f x = g x) \<Longrightarrow> mapM f xs = mapM g ys"
  by (induction ys arbitrary: xs) (auto cong: Option.bind_cong)

lemma mapM_Some_iff:
  "mapM f xs = Some ys \<longleftrightarrow> length xs = length ys \<and> (\<forall>i < length xs. f (xs ! i) = Some (ys ! i))"
proof (induction xs arbitrary: ys)
  case (Cons x xs)
  show ?case
    by (cases ys) (auto simp: Cons bind_eq_Some_conv nth_Cons less_Suc_eq_0_disj split: nat.splits)
qed auto

lemma mapM_map: "(\<And>x. x \<in> set xs \<Longrightarrow> f x = Some (g x)) \<Longrightarrow> mapM f xs = Some (map g xs)"
  by (induction xs) auto

lemma mapM_total: "(\<And>x. x \<in> set xs \<Longrightarrow> \<exists>y. f x = Some y) \<Longrightarrow> \<exists>ys. mapM f xs = Some ys"
  by (induction xs) force+

lemma mapM_SomeD: "mapM f xs = Some ys \<Longrightarrow> x \<in> set xs \<Longrightarrow> \<exists>y \<in> set ys. f x = Some y"
  by (force simp: mapM_Some_iff in_set_conv_nth)

lemma mapM_length: "mapM f xs = Some ys \<Longrightarrow> length ys = length xs"
  by (simp add: mapM_Some_iff)

lemma try_each_Inr_Cons:
  assumes "try_each f (x # xs) s = Some (Inr s')"
  obtains s1 where "f x s = Some (Inr s1)" "try_each f xs s1 = Some (Inr s')"
proof (cases "f x s")
  case (Some r)
  then show thesis using assms that by (cases r) simp_all
qed (use assms in simp)

lemma mapM_st_length: "mapM_st f xs s = Some (ys, s') \<Longrightarrow> length ys = length xs"
  by (induction xs arbitrary: s ys s') (auto simp: bind_eq_Some_conv)

lemma zip_size [termination_simp]:
  "(x, y) \<in> set (zip xs ys) \<Longrightarrow> size x < Suc (size_list size xs)"
  "(x, y) \<in> set (zip xs ys) \<Longrightarrow> size y < Suc (size_list size ys)"
  by (auto dest: set_zip_leftD set_zip_rightD simp: less_Suc_eq_le intro: size_list_estimation')

subsection \<open>Words used as counters and indices\<close>

lemma unat_of_nat_u32: "n < 2 ^ 32 \<Longrightarrow> unat (of_nat n :: u32) = n"
  by (simp add: unat_of_nat take_bit_nat_eq_self_iff)

lemma of_nat_u32_inject: "n < 2 ^ 32 \<Longrightarrow> m < 2 ^ 32 \<Longrightarrow> (of_nat n :: u32) = of_nat m \<longleftrightarrow> n = m"
  by (metis unat_of_nat_u32)

lemma unat_u32_less [simp]: "unat (x :: u32) < 4294967296"
  using unsigned_less [of x] by simp

lemma unat_u64_less [simp]: "unat (x :: u64) < 18446744073709551616"
  using unsigned_less [of x] by simp

subsection \<open>Folds that accumulate a set\<close>

lemma fold_union: "(\<And>x A. x \<in> set xs \<Longrightarrow> f x A = A \<union> g x) \<Longrightarrow> fold f xs A = A \<union> (\<Union>x \<in> set xs. g x)"
  by (induction xs arbitrary: A) auto

lemma sum_list_member_le: "(x :: nat) \<in> set xs \<Longrightarrow> x \<le> sum_list xs"
  by (induction xs) auto

lemma list_all2_ball_iff:
  "list_all2 (\<lambda>x y. P x = Q y) xs ys \<Longrightarrow> (\<forall>x \<in> set xs. P x) = (\<forall>y \<in> set ys. Q y)"
  by (induction rule: list_all2_induct) auto

lemma list_all2_bex_iff:
  "list_all2 (\<lambda>x y. P x = Q y) xs ys \<Longrightarrow> (\<exists>x \<in> set xs. P x) = (\<exists>y \<in> set ys. Q y)"
  by (induction rule: list_all2_induct) auto

end
