(* ===== verification/Terms.thy ===== *)
theory Terms
  imports Prelude
begin

text \<open>
  First-order terms, \<open>crates/mrs-core/src/term.rs\<close>: the data type, its measurements, and
  access to subterms by position.
\<close>

type_synonym SymbolId = u32
type_synonym VarId = u32

datatype Term = Var VarId | App SymbolId "Term list"

definition constant_term :: "SymbolId \<Rightarrow> Term" where
  "constant_term symbol = App symbol []"

fun is_var :: "Term \<Rightarrow> bool" where
  "is_var (Var v) = True"
| "is_var (App f args) = False"

fun is_constant :: "Term \<Rightarrow> bool" where
  "is_constant (App f args) = (args = [])"
| "is_constant (Var v) = False"

fun collect_vars :: "Term \<Rightarrow> VarId set \<Rightarrow> VarId set" where
  "collect_vars (Var v) vars = insert v vars"
| "collect_vars (App f args) vars = fold collect_vars args vars"

definition free_vars :: "Term \<Rightarrow> VarId set" where
  "free_vars t = collect_vars t {}"

fun contains_var :: "Term \<Rightarrow> VarId \<Rightarrow> bool" where
  "contains_var (Var v) var = (v = var)"
| "contains_var (App f args) var = list_ex (\<lambda>a. contains_var a var) args"

fun depth :: "Term \<Rightarrow> nat" where
  "depth (Var v) = 0"
| "depth (App f args) = (if args = [] then 0 else 1 + Max (set (map depth args)))"

fun term_size :: "Term \<Rightarrow> nat" where
  "term_size (Var v) = 1"
| "term_size (App f args) = 1 + sum_list (map term_size args)"

fun subterm_at :: "Term \<Rightarrow> nat list \<Rightarrow> Term option" where
  "subterm_at t [] = Some t"
| "subterm_at (App f args) (p # ps) = (if p < length args then subterm_at (args ! p) ps else None)"
| "subterm_at (Var v) (p # ps) = None"

text \<open>\<open>None\<close> is the panic: a position below a variable or past the last argument.\<close>

fun replace_at :: "Term \<Rightarrow> nat list \<Rightarrow> Term \<Rightarrow> Term option" where
  "replace_at t [] replacement = Some replacement"
| "replace_at (App f args) (p # ps) replacement =
     (if p < length args
      then do { a \<leftarrow> replace_at (args ! p) ps replacement; Some (App f (args[p := a])) }
      else None)"
| "replace_at (Var v) (p # ps) replacement = None"

text \<open>
  \<open>collect_nv_args\<close> is the \<open>for (i, arg) in args.iter().enumerate()\<close> loop of
  \<open>collect_nv_positions\<close>, with the index of its first argument.
\<close>

fun collect_nv_positions :: "Term \<Rightarrow> nat list \<Rightarrow> nat list list \<Rightarrow> nat list list"
and collect_nv_args :: "nat \<Rightarrow> Term list \<Rightarrow> nat list \<Rightarrow> nat list list \<Rightarrow> nat list list" where
  "collect_nv_positions (Var v) path result = result"
| "collect_nv_positions (App f args) path result = collect_nv_args 0 args path (result @ [path])"
| "collect_nv_args i [] path result = result"
| "collect_nv_args i (arg # args) path result =
     collect_nv_args (Suc i) args path (collect_nv_positions arg (path @ [i]) result)"

definition non_variable_positions :: "Term \<Rightarrow> nat list list" where
  "non_variable_positions t = collect_nv_positions t [] []"

subsection \<open>Variables\<close>

fun vars :: "Term \<Rightarrow> VarId set" where
  "vars (Var v) = {v}"
| "vars (App f args) = (\<Union>a \<in> set args. vars a)"

lemma collect_vars_eq [vars_simps]: "collect_vars t A = A \<union> vars t"
proof (induction t arbitrary: A)
  case (App f args)
  then show ?case by (simp add: fold_union [where g = vars])
qed auto

lemma free_vars_eq [vars_simps]: "free_vars t = vars t"
  by (simp add: free_vars_def collect_vars_eq)

lemma contains_var_eq [vars_simps]: "contains_var t v \<longleftrightarrow> v \<in> vars t"
  by (induction t) (auto simp: list_ex_iff)

lemma finite_vars [simp]: "finite (vars t)"
  by (induction t) auto

lemma term_size_pos [simp]: "0 < term_size t"
  by (cases t) auto

lemma term_size_arg: "a \<in> set args \<Longrightarrow> term_size a < term_size (App f args)"
  using sum_list_member_le [of "term_size a" "map term_size args"] by force

lemma depth_arg: "a \<in> set args \<Longrightarrow> depth a < depth (App f args)"
proof -
  assume a: "a \<in> set args"
  then have "depth a \<le> Max (depth ` set args)" by (intro Max_ge) auto
  with a show ?thesis by (auto simp: less_Suc_eq_le)
qed

subsection \<open>Positions\<close>

lemma replace_at_Some_iff: "(\<exists>t'. replace_at t ps r = Some t') \<longleftrightarrow> (\<exists>s. subterm_at t ps = Some s)"
  by (induction t ps r rule: replace_at.induct) (auto simp: bind_eq_Some_conv)

lemma subterm_at_replace_at: "replace_at t ps r = Some t' \<Longrightarrow> subterm_at t' ps = Some r"
  by (induction t ps r arbitrary: t' rule: replace_at.induct)
    (auto simp: bind_eq_Some_conv split: if_splits)

lemma replace_at_self: "subterm_at t ps = Some s \<Longrightarrow> replace_at t ps s = Some t"
  by (induction t ps s rule: replace_at.induct) (auto split: if_splits)

lemma replace_at_parallel:
  assumes "replace_at t (ps @ i # qs) r = Some t'" and "i \<noteq> j"
  shows "subterm_at t' (ps @ j # us) = subterm_at t (ps @ j # us)"
  using assms
proof (induction ps arbitrary: t t')
  case Nil
  then show ?case by (cases t) (auto simp: bind_eq_Some_conv split: if_splits)
next
  case (Cons p ps)
  then show ?case by (cases t) (auto simp: bind_eq_Some_conv split: if_splits)
qed

text \<open>
  The path and the accumulator of \<open>collect_nv_positions\<close> only prefix and collect: the
  positions found are those of the subterms that are applications, each once.
\<close>

definition nv_position :: "Term \<Rightarrow> nat list \<Rightarrow> bool" where
  "nv_position t p \<longleftrightarrow> (\<exists>f args. subterm_at t p = Some (App f args))"

lemma nv_position_simps [simp]:
  "\<not> nv_position (Var v) p"
  "nv_position (App f args) []"
  "nv_position (App f args) (i # p) \<longleftrightarrow> i < length args \<and> nv_position (args ! i) p"
  by (cases p) (auto simp: nv_position_def)

lemma collect_nv_args_spec:
  assumes "\<And>a. a \<in> set args \<Longrightarrow>
    \<exists>P. distinct P \<and> set P = {p. nv_position a p} \<and>
        (\<forall>path result. collect_nv_positions a path result = result @ map ((@) path) P)"
  shows "\<exists>P. distinct P \<and>
      set P = (\<Union>k < length args. (#) (i + k) ` {p. nv_position (args ! k) p}) \<and>
      (\<forall>path result. collect_nv_args i args path result = result @ map ((@) path) P)"
  using assms
proof (induction args arbitrary: i)
  case Nil
  show ?case by (rule exI [of _ "[]"]) simp
next
  case (Cons a args)
  obtain P where P: "distinct P" "set P = {p. nv_position a p}"
    "\<And>path result. collect_nv_positions a path result = result @ map ((@) path) P"
    using Cons.prems by (metis list.set_intros(1))
  obtain Q where Q: "distinct Q"
    "set Q = (\<Union>k < length args. (#) (Suc i + k) ` {p. nv_position (args ! k) p})"
    "\<And>path result. collect_nv_args (Suc i) args path result = result @ map ((@) path) Q"
    using Cons.IH [of "Suc i"] Cons.prems by auto
  let ?R = "map ((#) i) P @ Q"
  have "distinct ?R" using P(1) Q(1) by (auto simp: distinct_map Q(2))
  moreover have "set ?R =
      (\<Union>k < length (a # args). (#) (i + k) ` {p. nv_position ((a # args) ! k) p})"
    by (simp add: P(2) Q(2) lessThan_Suc_eq_insert_0 image_image)
  moreover have "\<forall>path result. collect_nv_args i (a # args) path result = result @ map ((@) path) ?R"
    by (simp add: P(3) Q(3))
  ultimately show ?case by blast
qed

lemma collect_nv_positions_spec:
  "\<exists>P. distinct P \<and> set P = {p. nv_position t p} \<and>
     (\<forall>path result. collect_nv_positions t path result = result @ map ((@) path) P)"
proof (induction t)
  case (Var v)
  show ?case by (rule exI [of _ "[]"]) simp
next
  case (App f args)
  obtain P where P: "distinct P"
    "set P = (\<Union>k < length args. (#) k ` {p. nv_position (args ! k) p})"
    "\<forall>path result. collect_nv_args 0 args path result = result @ map ((@) path) P"
  proof -
    have "\<exists>P. distinct P \<and> set P = {p. nv_position a p} \<and>
        (\<forall>path result. collect_nv_positions a path result = result @ map ((@) path) P)"
      if "a \<in> set args" for a using App that .
    from collect_nv_args_spec [of args 0, OF this] show thesis by (auto intro!: that)
  qed
  have "set ([] # P) = {p. nv_position (App f args) p}"
  proof (intro set_eqI)
    fix p
    show "p \<in> set ([] # P) \<longleftrightarrow> p \<in> {p. nv_position (App f args) p}"
      by (cases p) (auto simp: P(2))
  qed
  moreover have "distinct ([] # P)" using P(1) by (auto simp: P(2))
  moreover have "\<forall>path result. collect_nv_positions (App f args) path result
      = result @ map ((@) path) ([] # P)"
    by (simp add: P(3))
  ultimately show ?case by blast
qed

lemma non_variable_positions_spec:
  "distinct (non_variable_positions t) \<and> set (non_variable_positions t) = {p. nv_position t p}"
proof -
  obtain P where "distinct P" "set P = {p. nv_position t p}"
    "collect_nv_positions t [] [] = [] @ map ((@) []) P"
    using collect_nv_positions_spec by blast
  then show ?thesis by (simp add: non_variable_positions_def map_idI)
qed

lemma replace_at_again: "replace_at t ps r = Some t' \<Longrightarrow> replace_at t' ps s = replace_at t ps s"
  by (induction t ps r arbitrary: t' rule: replace_at.induct)
    (auto simp: bind_eq_Some_conv split: if_splits)

subsection \<open>Properties\<close>

text \<open>
  Replacing the subterm at a valid position does not panic, puts the replacement at that
  position, leaves every position that branches off elsewhere as it was, and can be undone by
  putting the old subterm back.
\<close>

theorem replace_at_laws:
  assumes "subterm_at t (ps @ i # qs) = Some s"
  shows "\<exists>t'. replace_at t (ps @ i # qs) r = Some t' \<and>
    subterm_at t' (ps @ i # qs) = Some r \<and>
    (\<forall>j us. j \<noteq> i \<longrightarrow> subterm_at t' (ps @ j # us) = subterm_at t (ps @ j # us)) \<and>
    replace_at t' (ps @ i # qs) s = Some t"
proof -
  obtain t' where t': "replace_at t (ps @ i # qs) r = Some t'"
    using assms replace_at_Some_iff by blast
  moreover have "replace_at t' (ps @ i # qs) s = Some t"
    using replace_at_again [OF t'] replace_at_self [OF assms] by simp
  moreover have "subterm_at t' (ps @ j # us) = subterm_at t (ps @ j # us)" if "j \<noteq> i" for j us
    using replace_at_parallel [OF t'] that by metis
  ultimately show ?thesis using subterm_at_replace_at by blast
qed

theorem replace_at_laws_witness:
  "\<exists>t'. replace_at (App 1 [Var 0, App 2 [Var 3]]) ([] @ 1 # [0]) (Var 9) = Some t' \<and>
    subterm_at t' ([] @ 1 # [0]) = Some (Var 9) \<and>
    (\<forall>j us. j \<noteq> 1 \<longrightarrow>
       subterm_at t' ([] @ j # us) = subterm_at (App 1 [Var 0, App 2 [Var 3]]) ([] @ j # us)) \<and>
    replace_at t' ([] @ 1 # [0]) (Var 3) = Some (App 1 [Var 0, App 2 [Var 3]])"
  by (rule replace_at_laws [of "App 1 [Var 0, App 2 [Var 3]]" "[]" 1 "[0]" "Var 3" "Var 9"]) simp

text \<open>
  \<open>non_variable_positions\<close> lists every position of a subterm that is an application,
  the root included, and lists each once.
\<close>

theorem non_variable_positions_exact:
  "distinct (non_variable_positions t) \<and>
   set (non_variable_positions t) = {p. \<exists>f args. subterm_at t p = Some (App f args)}"
  using non_variable_positions_spec [of t] by (simp add: nv_position_def)

end
