(* ===== verification/Formulas.thy ===== *)
theory Formulas
  imports Terms
begin

text \<open>
  Atoms and formulas, \<open>crates/mrs-core/src/formula.rs\<close>, and literals,
  \<open>crates/mrs-core/src/clause.rs\<close>. The constructors \<open>True\<close> and \<open>False\<close> of the source
  are \<open>FTrue\<close> and \<open>FFalse\<close> here.
\<close>

datatype Atom = Pred SymbolId "Term list" | Eq Term Term

record Literal =
  positive :: bool
  atom :: Atom

datatype Formula =
    Atom Atom
  | Neg Formula
  | And "Formula list"
  | Or "Formula list"
  | Implies Formula Formula
  | Iff Formula Formula
  | Forall VarId Formula
  | Exists VarId Formula
  | FTrue
  | FFalse

fun atom_collect_vars :: "Atom \<Rightarrow> VarId set \<Rightarrow> VarId set" where
  "atom_collect_vars (Pred p args) vs = fold collect_vars args vs"
| "atom_collect_vars (Eq l r) vs = collect_vars r (collect_vars l vs)"

definition atom_free_vars :: "Atom \<Rightarrow> VarId set" where
  "atom_free_vars a = atom_collect_vars a {}"

text \<open>\<open>Formula::and\<close> and \<open>Formula::or\<close>: a single conjunct or disjunct stands for itself.\<close>

definition mk_and :: "Formula list \<Rightarrow> Formula" where
  "mk_and conjuncts = (if length conjuncts = 1 then hd conjuncts else And conjuncts)"

definition mk_or :: "Formula list \<Rightarrow> Formula" where
  "mk_or disjuncts = (if length disjuncts = 1 then hd disjuncts else Or disjuncts)"

text \<open>
  \<open>collect_free_vars\<close> threads the two sets \<open>free\<close> and \<open>bound\<close>. At a quantifier the
  variable is removed again only if this quantifier inserted it.
\<close>

fun collect_free_vars :: "Formula \<Rightarrow> VarId set \<times> VarId set \<Rightarrow> VarId set \<times> VarId set" where
  "collect_free_vars (Atom a) (free, bound) = (free \<union> {v \<in> atom_free_vars a. v \<notin> bound}, bound)"
| "collect_free_vars (Neg f) fb = collect_free_vars f fb"
| "collect_free_vars (And fs) fb = fold collect_free_vars fs fb"
| "collect_free_vars (Or fs) fb = fold collect_free_vars fs fb"
| "collect_free_vars (Implies a b) fb = collect_free_vars b (collect_free_vars a fb)"
| "collect_free_vars (Iff a b) fb = collect_free_vars b (collect_free_vars a fb)"
| "collect_free_vars (Forall v body) (free, bound) =
     (let inserted = v \<notin> bound; (free', bound') = collect_free_vars body (free, insert v bound)
      in (free', if inserted then bound' - {v} else bound'))"
| "collect_free_vars (Exists v body) (free, bound) =
     (let inserted = v \<notin> bound; (free', bound') = collect_free_vars body (free, insert v bound)
      in (free', if inserted then bound' - {v} else bound'))"
| "collect_free_vars FTrue fb = fb"
| "collect_free_vars FFalse fb = fb"

definition formula_free_vars :: "Formula \<Rightarrow> VarId set" where
  "formula_free_vars f = fst (collect_free_vars f ({}, {}))"

definition is_closed :: "Formula \<Rightarrow> bool" where
  "is_closed f = (formula_free_vars f = {})"

text \<open>Literals.\<close>

definition lit_pos :: "Atom \<Rightarrow> Literal" where
  "lit_pos a = \<lparr>positive = True, atom = a\<rparr>"

definition lit_neg :: "Atom \<Rightarrow> Literal" where
  "lit_neg a = \<lparr>positive = False, atom = a\<rparr>"

definition complement :: "Literal \<Rightarrow> Literal" where
  "complement l = \<lparr>positive = \<not> positive l, atom = atom l\<rparr>"

definition lit_collect_vars :: "Literal \<Rightarrow> VarId set \<Rightarrow> VarId set" where
  "lit_collect_vars l vs = atom_collect_vars (atom l) vs"

subsection \<open>Free variables, as a specification\<close>

fun avars :: "Atom \<Rightarrow> VarId set" where
  "avars (Pred p args) = (\<Union>a \<in> set args. vars a)"
| "avars (Eq l r) = vars l \<union> vars r"

definition lvars :: "Literal \<Rightarrow> VarId set" where
  "lvars l = avars (atom l)"

fun fvars :: "Formula \<Rightarrow> VarId set" where
  "fvars (Atom a) = avars a"
| "fvars (Neg f) = fvars f"
| "fvars (And fs) = (\<Union>f \<in> set fs. fvars f)"
| "fvars (Or fs) = (\<Union>f \<in> set fs. fvars f)"
| "fvars (Implies a b) = fvars a \<union> fvars b"
| "fvars (Iff a b) = fvars a \<union> fvars b"
| "fvars (Forall v f) = fvars f - {v}"
| "fvars (Exists v f) = fvars f - {v}"
| "fvars FTrue = {}"
| "fvars FFalse = {}"

lemma atom_collect_vars_eq [vars_simps]: "atom_collect_vars a A = A \<union> avars a"
  by (cases a) (auto simp: collect_vars_eq fold_union [where g = vars])

lemma atom_free_vars_eq [vars_simps]: "atom_free_vars a = avars a"
  by (simp add: atom_free_vars_def atom_collect_vars_eq)

lemma lit_collect_vars_eq [vars_simps]: "lit_collect_vars l A = A \<union> lvars l"
  by (simp add: lit_collect_vars_def lvars_def atom_collect_vars_eq)

lemma finite_avars [simp]: "finite (avars a)"
  by (cases a) auto

lemma finite_lvars [simp]: "finite (lvars l)"
  by (simp add: lvars_def)

lemma fold_collect_free_vars:
  assumes "\<And>f free bound. f \<in> set fs \<Longrightarrow>
    collect_free_vars f (free, bound) = (free \<union> (fvars f - bound), bound)"
  shows "fold collect_free_vars fs (free, bound) = (free \<union> ((\<Union>f \<in> set fs. fvars f) - bound), bound)"
  using assms by (induction fs arbitrary: free) auto

lemma collect_free_vars_eq: "collect_free_vars f (free, bound) = (free \<union> (fvars f - bound), bound)"
proof (induction f arbitrary: free bound)
  case (Atom a)
  then show ?case by (auto simp: atom_free_vars_eq)
next
  case (And fs)
  then show ?case by (simp add: fold_collect_free_vars)
next
  case (Or fs)
  then show ?case by (simp add: fold_collect_free_vars)
qed (auto simp: Let_def)

lemma formula_free_vars_eq [vars_simps]: "formula_free_vars f = fvars f"
  by (simp add: formula_free_vars_def collect_free_vars_eq)

lemma finite_fvars [simp]: "finite (fvars f)"
  by (induction f) auto

lemma fvars_mk_and [simp]: "fvars (mk_and fs) = (\<Union>f \<in> set fs. fvars f)"
  by (cases fs) (auto simp: mk_and_def)

lemma fvars_mk_or [simp]: "fvars (mk_or fs) = (\<Union>f \<in> set fs. fvars f)"
  by (cases fs) (auto simp: mk_or_def)

end
