(* ===== verification/Semantics.thy ===== *)
theory Semantics
  imports Formulas
begin

text \<open>
  The meaning of terms, formulas and clauses in a first-order structure: the specification
  every transformation and inference of the program is measured against. The source has no
  counterpart of this theory.
\<close>

record 'a interp =
  ifun :: "SymbolId \<Rightarrow> 'a list \<Rightarrow> 'a"
  ipred :: "SymbolId \<Rightarrow> 'a list \<Rightarrow> bool"

fun tval :: "'a interp \<Rightarrow> (VarId \<Rightarrow> 'a) \<Rightarrow> Term \<Rightarrow> 'a" where
  "tval I \<rho> (Var v) = \<rho> v"
| "tval I \<rho> (App f args) = ifun I f (map (tval I \<rho>) args)"

fun aval :: "'a interp \<Rightarrow> (VarId \<Rightarrow> 'a) \<Rightarrow> Atom \<Rightarrow> bool" where
  "aval I \<rho> (Pred p args) = ipred I p (map (tval I \<rho>) args)"
| "aval I \<rho> (Eq l r) = (tval I \<rho> l = tval I \<rho> r)"

definition lval :: "'a interp \<Rightarrow> (VarId \<Rightarrow> 'a) \<Rightarrow> Literal \<Rightarrow> bool" where
  "lval I \<rho> l = (aval I \<rho> (atom l) = positive l)"

fun fval :: "'a interp \<Rightarrow> (VarId \<Rightarrow> 'a) \<Rightarrow> Formula \<Rightarrow> bool" where
  "fval I \<rho> (Atom a) = aval I \<rho> a"
| "fval I \<rho> (Neg f) = (\<not> fval I \<rho> f)"
| "fval I \<rho> (And fs) = (\<forall>f \<in> set fs. fval I \<rho> f)"
| "fval I \<rho> (Or fs) = (\<exists>f \<in> set fs. fval I \<rho> f)"
| "fval I \<rho> (Implies a b) = (fval I \<rho> a \<longrightarrow> fval I \<rho> b)"
| "fval I \<rho> (Iff a b) = (fval I \<rho> a = fval I \<rho> b)"
| "fval I \<rho> (Forall v f) = (\<forall>x. fval I (\<rho>(v := x)) f)"
| "fval I \<rho> (Exists v f) = (\<exists>x. fval I (\<rho>(v := x)) f)"
| "fval I \<rho> FTrue = True"
| "fval I \<rho> FFalse = False"

text \<open>A clause is the disjunction of its literals, universally closed.\<close>

definition lits_hold :: "'a interp \<Rightarrow> (VarId \<Rightarrow> 'a) \<Rightarrow> Literal list \<Rightarrow> bool" where
  "lits_hold I \<rho> ls \<longleftrightarrow> (\<exists>l \<in> set ls. lval I \<rho> l)"

definition lits_valid :: "'a interp \<Rightarrow> Literal list \<Rightarrow> bool" where
  "lits_valid I ls \<longleftrightarrow> (\<forall>\<rho>. lits_hold I \<rho> ls)"

lemma lits_hold_simps [simp]:
  "\<not> lits_hold I \<rho> []"
  "lits_hold I \<rho> (l # ls) \<longleftrightarrow> lval I \<rho> l \<or> lits_hold I \<rho> ls"
  "lits_hold I \<rho> (ls @ ms) \<longleftrightarrow> lits_hold I \<rho> ls \<or> lits_hold I \<rho> ms"
  by (auto simp: lits_hold_def)

lemma lval_simps [simp]:
  "lval I \<rho> (lit_pos a) = aval I \<rho> a"
  "lval I \<rho> (lit_neg a) = (\<not> aval I \<rho> a)"
  "lval I \<rho> (complement l) = (\<not> lval I \<rho> l)"
  by (auto simp: lval_def lit_pos_def lit_neg_def complement_def)

lemma fval_mk_and [simp]: "fval I \<rho> (mk_and fs) = (\<forall>f \<in> set fs. fval I \<rho> f)"
  by (cases fs) (auto simp: mk_and_def)

lemma fval_mk_or [simp]: "fval I \<rho> (mk_or fs) = (\<exists>f \<in> set fs. fval I \<rho> f)"
  by (cases fs) (auto simp: mk_or_def)

subsection \<open>Only the free variables matter\<close>

lemma tval_cong: "(\<And>v. v \<in> vars t \<Longrightarrow> \<rho> v = \<rho>' v) \<Longrightarrow> tval I \<rho> t = tval I \<rho>' t"
proof (induction t)
  case (App f args)
  then have "map (tval I \<rho>) args = map (tval I \<rho>') args" by auto
  then show ?case by (simp only: tval.simps)
qed auto

lemma aval_cong: "(\<And>v. v \<in> avars a \<Longrightarrow> \<rho> v = \<rho>' v) \<Longrightarrow> aval I \<rho> a = aval I \<rho>' a"
proof (cases a)
  case (Pred p args)
  assume *: "\<And>v. v \<in> avars a \<Longrightarrow> \<rho> v = \<rho>' v"
  then have "map (tval I \<rho>) args = map (tval I \<rho>') args"
    using Pred by (auto intro!: tval_cong)
  then show ?thesis using Pred by (simp only: aval.simps)
next
  case (Eq l r)
  assume *: "\<And>v. v \<in> avars a \<Longrightarrow> \<rho> v = \<rho>' v"
  have "tval I \<rho> l = tval I \<rho>' l" "tval I \<rho> r = tval I \<rho>' r"
    using * Eq by (auto intro!: tval_cong)
  then show ?thesis using Eq by (simp only: aval.simps)
qed

lemma lval_cong: "(\<And>v. v \<in> lvars l \<Longrightarrow> \<rho> v = \<rho>' v) \<Longrightarrow> lval I \<rho> l = lval I \<rho>' l"
  by (simp add: lval_def lvars_def aval_cong [of "atom l" \<rho> \<rho>'])

lemma fval_cong: "(\<And>v. v \<in> fvars f \<Longrightarrow> \<rho> v = \<rho>' v) \<Longrightarrow> fval I \<rho> f = fval I \<rho>' f"
proof (induction f arbitrary: \<rho> \<rho>')
  case (Atom a)
  have "aval I \<rho> a = aval I \<rho>' a" by (rule aval_cong) (use Atom in auto)
  then show ?case by simp
next
  case (Neg f)
  then show ?case by (metis fval.simps(2) fvars.simps(2))
next
  case (And fs)
  have "fval I \<rho> f = fval I \<rho>' f" if "f \<in> set fs" for f
    using that And.prems by (intro And.IH) auto
  then show ?case by simp
next
  case (Or fs)
  have "fval I \<rho> f = fval I \<rho>' f" if "f \<in> set fs" for f
    using that Or.prems by (intro Or.IH) auto
  then show ?case by simp
next
  case (Implies a b)
  have "fval I \<rho> a = fval I \<rho>' a" by (rule Implies.IH) (use Implies.prems in auto)
  moreover have "fval I \<rho> b = fval I \<rho>' b" by (rule Implies.IH) (use Implies.prems in auto)
  ultimately show ?case by simp
next
  case (Iff a b)
  have "fval I \<rho> a = fval I \<rho>' a" by (rule Iff.IH) (use Iff.prems in auto)
  moreover have "fval I \<rho> b = fval I \<rho>' b" by (rule Iff.IH) (use Iff.prems in auto)
  ultimately show ?case by simp
next
  case (Forall v f)
  have "fval I (\<rho>(v := x)) f = fval I (\<rho>'(v := x)) f" for x
    by (rule Forall.IH) (use Forall.prems in auto)
  then show ?case by simp
next
  case (Exists v f)
  have "fval I (\<rho>(v := x)) f = fval I (\<rho>'(v := x)) f" for x
    by (rule Exists.IH) (use Exists.prems in auto)
  then show ?case by simp
qed auto

lemma fval_upd_irrelevant: "v \<notin> fvars f \<Longrightarrow> fval I (\<rho>(v := x)) f = fval I \<rho> f"
  by (rule fval_cong) auto

subsection \<open>Instances\<close>

text \<open>
  \<open>Term\<close>-level parallel substitution, used in statements: what an ideal application of a
  substitution computes.
\<close>

fun inst :: "(VarId \<Rightarrow> Term) \<Rightarrow> Term \<Rightarrow> Term" where
  "inst \<theta> (Var v) = \<theta> v"
| "inst \<theta> (App f args) = App f (map (inst \<theta>) args)"

fun inst_atom :: "(VarId \<Rightarrow> Term) \<Rightarrow> Atom \<Rightarrow> Atom" where
  "inst_atom \<theta> (Pred p args) = Pred p (map (inst \<theta>) args)"
| "inst_atom \<theta> (Eq l r) = Eq (inst \<theta> l) (inst \<theta> r)"

definition inst_lit :: "(VarId \<Rightarrow> Term) \<Rightarrow> Literal \<Rightarrow> Literal" where
  "inst_lit \<theta> l = \<lparr>positive = positive l, atom = inst_atom \<theta> (atom l)\<rparr>"

lemma tval_inst [sem_simps]: "tval I \<rho> (inst \<theta> t) = tval I (\<lambda>v. tval I \<rho> (\<theta> v)) t"
proof (induction t)
  case (App f args)
  then have "map (tval I \<rho> \<circ> inst \<theta>) args = map (tval I (\<lambda>v. tval I \<rho> (\<theta> v))) args" by simp
  then show ?case by (simp only: inst.simps tval.simps map_map)
qed simp

lemma aval_inst [sem_simps]: "aval I \<rho> (inst_atom \<theta> a) = aval I (\<lambda>v. tval I \<rho> (\<theta> v)) a"
  by (cases a) (simp_all add: tval_inst comp_def)

lemma lval_inst [sem_simps]: "lval I \<rho> (inst_lit \<theta> l) = lval I (\<lambda>v. tval I \<rho> (\<theta> v)) l"
  by (simp add: lval_def inst_lit_def aval_inst)

lemma inst_cong: "(\<And>v. v \<in> vars t \<Longrightarrow> \<theta> v = \<theta>' v) \<Longrightarrow> inst \<theta> t = inst \<theta>' t"
  by (induction t) auto

lemma inst_Var [simp]: "inst Var t = t"
  by (induction t) (auto simp: map_idI)

lemma inst_inst: "inst \<theta> (inst \<eta> t) = inst (\<lambda>v. inst \<theta> (\<eta> v)) t"
  by (induction t) auto

lemma vars_inst: "vars (inst \<theta> t) = (\<Union>v \<in> vars t. vars (\<theta> v))"
  by (induction t) auto

lemma inst_id_iff: "inst \<theta> t = t \<longleftrightarrow> (\<forall>v \<in> vars t. \<theta> v = Var v)"
proof (induction t)
  case (App f args)
  have "map (inst \<theta>) args = args \<longleftrightarrow> (\<forall>a \<in> set args. inst \<theta> a = a)"
    by (induction args) auto
  with App show ?case by auto
qed auto

lemma size_inst_arg: "a \<in> set ts \<Longrightarrow> term_size (inst \<theta> a) < term_size (inst \<theta> (App f ts))"
  using term_size_arg [of "inst \<theta> a" "map (inst \<theta>) ts" f] by simp

lemma term_size_inst_var: "v \<in> vars t \<Longrightarrow> term_size (\<sigma> v) \<le> term_size (inst \<sigma> t)"
proof (induction t)
  case (App f ts)
  then obtain a where "a \<in> set ts" "term_size (\<sigma> v) \<le> term_size (inst \<sigma> a)" by auto
  then show ?case using size_inst_arg [of a ts \<sigma> f] by simp
qed simp

subsection \<open>Properties\<close>

text \<open>
  \<open>Formula::free_vars\<close>, which threads one set of free and one set of bound variables
  through the traversal and removes a bound variable only at the quantifier that entered it,
  computes the free variables of every formula, so the value of a formula depends on those
  variables only.
\<close>

theorem free_vars_decide_value:
  assumes "\<forall>v \<in> formula_free_vars f. \<rho> v = \<rho>' v"
  shows "formula_free_vars f = fvars f \<and> fval I \<rho> f = fval I \<rho>' f"
  using assms fval_cong [of f \<rho> \<rho>' I] by (simp add: formula_free_vars_eq)

definition bound_and_free :: Formula where
  "bound_and_free = And [Forall 1 (Atom (Eq (Var 1) (Var 0))), Atom (Eq (Var 1) (Var 1))]"

theorem free_vars_decide_value_witness:
  "formula_free_vars bound_and_free = fvars bound_and_free \<and>
   fval \<lparr>ifun = \<lambda>f xs. 0 :: nat, ipred = \<lambda>p xs. False\<rparr> ((\<lambda>_. 0)(7 := 2)) bound_and_free
     = fval \<lparr>ifun = \<lambda>f xs. 0 :: nat, ipred = \<lambda>p xs. False\<rparr> (\<lambda>_. 0) bound_and_free"
  by (rule free_vars_decide_value)
    (simp add: formula_free_vars_def atom_free_vars_def bound_and_free_def)

end
