(* ===== verification/Subst.thy ===== *)
theory Subst
  imports Semantics
begin

text \<open>
  Substitutions on owned terms, \<open>crates/mrs-core/src/subst.rs\<close>: application to terms,
  atoms, literals and formulas with the limits the code has (a nesting depth of 500 and a
  chain of 1000 variables), capture-avoiding renaming, and composition.
\<close>

record Substitution =
  bindings :: "(VarId, Term) fmap"

definition new_subst :: Substitution where
  "new_subst = \<lparr>bindings = fmempty\<rparr>"

definition bind_var_to :: "VarId \<Rightarrow> Term \<Rightarrow> Substitution \<Rightarrow> Substitution" where
  "bind_var_to var t s = s\<lparr>bindings := fmupd var t (bindings s)\<rparr>"

definition singleton :: "VarId \<Rightarrow> Term \<Rightarrow> Substitution" where
  "singleton var t = bind_var_to var t new_subst"

definition lookup :: "Substitution \<Rightarrow> VarId \<Rightarrow> Term option" where
  "lookup s v = fmlookup (bindings s) v"

definition subst_is_empty :: "Substitution \<Rightarrow> bool" where
  "subst_is_empty s = (bindings s = fmempty)"

subsection \<open>Application to terms\<close>

text \<open>How the loop over a chain of variable-to-variable bindings ends.\<close>

datatype chase_end = Unbound VarId bool | Cut | Reached Term

function chase :: "Substitution \<Rightarrow> VarId \<Rightarrow> nat \<Rightarrow> bool \<Rightarrow> chase_end" where
  "chase s current steps changed =
     (case lookup s current of
        None \<Rightarrow> Unbound current changed
      | Some (Var next) \<Rightarrow>
          if steps + 1 > 1000 then Cut else chase s next (steps + 1) True
      | Some (App f args) \<Rightarrow> Reached (App f args))"
  by pat_completeness auto
termination by (relation "measure (\<lambda>(s, current, steps, changed). 1001 - steps)") auto

declare chase.simps [simp del]

abbreviation unwrap_or :: "'a option \<Rightarrow> 'a \<Rightarrow> 'a" where
  "unwrap_or r a \<equiv> (case r of None \<Rightarrow> a | Some a' \<Rightarrow> a')"

text \<open>\<open>None\<close> means that nothing changed, or that a limit was reached.\<close>

function apply_term_opt :: "Substitution \<Rightarrow> Term \<Rightarrow> nat \<Rightarrow> Term option" where
  "apply_term_opt s t d =
     (if d > 500 then None
      else (case t of
        Var start \<Rightarrow>
          (case chase s start 0 False of
             Unbound v changed \<Rightarrow> (if changed then Some (Var v) else None)
           | Cut \<Rightarrow> None
           | Reached t' \<Rightarrow> Some (unwrap_or (apply_term_opt s t' (d + 1)) t'))
      | App f args \<Rightarrow>
          (let rs = map (\<lambda>a. apply_term_opt s a (d + 1)) args
           in if list_all (\<lambda>r. r = None) rs then None
              else Some (App f (map2 (\<lambda>a r. unwrap_or r a) args rs)))))"
  by pat_completeness auto
termination by (relation "measure (\<lambda>(s, t, d). 501 - d)") auto

declare apply_term_opt.simps [simp del]

definition apply_term :: "Substitution \<Rightarrow> Term \<Rightarrow> Term" where
  "apply_term s t = (if bindings s = fmempty then t else unwrap_or (apply_term_opt s t 0) t)"

fun apply_atom :: "Substitution \<Rightarrow> Atom \<Rightarrow> Atom" where
  "apply_atom s (Pred p args) = Pred p (map (apply_term s) args)"
| "apply_atom s (Eq l r) = Eq (apply_term s l) (apply_term s r)"

definition apply_literal :: "Substitution \<Rightarrow> Literal \<Rightarrow> Literal" where
  "apply_literal s l = \<lparr>positive = positive l, atom = apply_atom s (atom l)\<rparr>"

definition captures_var :: "Substitution \<Rightarrow> VarId \<Rightarrow> bool" where
  "captures_var s v = (\<exists>t \<in> fmran' (bindings s). contains_var t v)"

subsection \<open>Application to formulas\<close>

fun collect_all_vars :: "Formula \<Rightarrow> VarId set \<Rightarrow> VarId set" where
  "collect_all_vars (Atom a) vs = atom_collect_vars a vs"
| "collect_all_vars (Neg f) vs = collect_all_vars f vs"
| "collect_all_vars (And fs) vs = fold collect_all_vars fs vs"
| "collect_all_vars (Or fs) vs = fold collect_all_vars fs vs"
| "collect_all_vars (Implies a b) vs = collect_all_vars b (collect_all_vars a vs)"
| "collect_all_vars (Iff a b) vs = collect_all_vars b (collect_all_vars a vs)"
| "collect_all_vars (Forall v f) vs = collect_all_vars f (insert v vs)"
| "collect_all_vars (Exists v f) vs = collect_all_vars f (insert v vs)"
| "collect_all_vars FTrue vs = vs"
| "collect_all_vars FFalse vs = vs"

definition max_var_id :: "Substitution \<Rightarrow> Formula \<Rightarrow> VarId" where
  "max_var_id s f =
     Max (insert 0 (fmdom' (bindings s) \<union> (\<Union>t \<in> fmran' (bindings s). collect_vars t {}) \<union>
                    collect_all_vars f {}))"

fun rename_term :: "Term \<Rightarrow> VarId \<Rightarrow> VarId \<Rightarrow> Term" where
  "rename_term (Var v) old new = (if v = old then Var new else Var v)"
| "rename_term (App f args) old new = App f (map (\<lambda>a. rename_term a old new) args)"

fun rename_atom :: "Atom \<Rightarrow> VarId \<Rightarrow> VarId \<Rightarrow> Atom" where
  "rename_atom (Pred p args) old new = Pred p (map (\<lambda>a. rename_term a old new) args)"
| "rename_atom (Eq l r) old new = Eq (rename_term l old new) (rename_term r old new)"

fun rename_var :: "Formula \<Rightarrow> VarId \<Rightarrow> VarId \<Rightarrow> Formula" where
  "rename_var (Atom a) old new = Atom (rename_atom a old new)"
| "rename_var (Neg f) old new = Neg (rename_var f old new)"
| "rename_var (And fs) old new = And (map (\<lambda>f. rename_var f old new) fs)"
| "rename_var (Or fs) old new = Or (map (\<lambda>f. rename_var f old new) fs)"
| "rename_var (Implies a b) old new = Implies (rename_var a old new) (rename_var b old new)"
| "rename_var (Iff a b) old new = Iff (rename_var a old new) (rename_var b old new)"
| "rename_var (Forall v f) old new =
     (if v = old then Forall v f else Forall v (rename_var f old new))"
| "rename_var (Exists v f) old new =
     (if v = old then Exists v f else Exists v (rename_var f old new))"
| "rename_var FTrue old new = FTrue"
| "rename_var FFalse old new = FFalse"

lemma size_rename_var [simp]: "size (rename_var f old new) = size f"
  by (induction f) (auto intro!: size_list_pointwise [THEN order_antisym] simp: size_list_conv_sum_list
      intro: arg_cong [where f = sum_list])

text \<open>
  \<open>next_var\<close> is threaded through the traversal; \<open>apply_formulas_rec\<close> is the \<open>map\<close> over
  conjuncts or disjuncts.
\<close>

function (sequential) apply_formula_rec :: "Substitution \<Rightarrow> Formula \<Rightarrow> VarId \<Rightarrow> Formula \<times> VarId"
and apply_formulas_rec :: "Substitution \<Rightarrow> Formula list \<Rightarrow> VarId \<Rightarrow> Formula list \<times> VarId" where
  "apply_formula_rec s (Atom a) nv = (Atom (apply_atom s a), nv)"
| "apply_formula_rec s (Neg f) nv = (let (f', nv') = apply_formula_rec s f nv in (Neg f', nv'))"
| "apply_formula_rec s (And fs) nv = (let (fs', nv') = apply_formulas_rec s fs nv in (And fs', nv'))"
| "apply_formula_rec s (Or fs) nv = (let (fs', nv') = apply_formulas_rec s fs nv in (Or fs', nv'))"
| "apply_formula_rec s (Implies a b) nv =
     (let (a', nv1) = apply_formula_rec s a nv; (b', nv2) = apply_formula_rec s b nv1
      in (Implies a' b', nv2))"
| "apply_formula_rec s (Iff a b) nv =
     (let (a', nv1) = apply_formula_rec s a nv; (b', nv2) = apply_formula_rec s b nv1
      in (Iff a' b', nv2))"
| "apply_formula_rec s (Forall v body) nv =
     (if lookup s v \<noteq> None then (Forall v body, nv)
      else if captures_var s v
      then (let (f', nv') = apply_formula_rec s (rename_var body v nv) (nv + 1) in (Forall nv f', nv'))
      else (let (f', nv') = apply_formula_rec s body nv in (Forall v f', nv')))"
| "apply_formula_rec s (Exists v body) nv =
     (if lookup s v \<noteq> None then (Exists v body, nv)
      else if captures_var s v
      then (let (f', nv') = apply_formula_rec s (rename_var body v nv) (nv + 1) in (Exists nv f', nv'))
      else (let (f', nv') = apply_formula_rec s body nv in (Exists v f', nv')))"
| "apply_formula_rec s FTrue nv = (FTrue, nv)"
| "apply_formula_rec s FFalse nv = (FFalse, nv)"
| "apply_formulas_rec s [] nv = ([], nv)"
| "apply_formulas_rec s (f # fs) nv =
     (let (f', nv1) = apply_formula_rec s f nv; (fs', nv2) = apply_formulas_rec s fs nv1
      in (f' # fs', nv2))"
  by pat_completeness auto
termination
  by (relation "measure (\<lambda>x. case x of Inl (s, f, nv) \<Rightarrow> size f | Inr (s, fs, nv) \<Rightarrow> size_list size fs)")
    auto

definition apply_formula :: "Substitution \<Rightarrow> Formula \<Rightarrow> Formula" where
  "apply_formula s f = fst (apply_formula_rec s f (max_var_id s f + 1))"

definition compose :: "Substitution \<Rightarrow> Substitution \<Rightarrow> Substitution" where
  "compose s other =
     \<lparr>bindings = bindings other ++\<^sub>f fmmap (apply_term other) (bindings s)\<rparr>"

subsection \<open>Application respects every solution of the bindings\<close>

text \<open>
  A valuation solves a substitution when each bound variable has the value of the term it
  is bound to. Whatever limit is reached, application never changes the value under such a
  valuation.
\<close>

definition solves :: "'a interp \<Rightarrow> (VarId \<Rightarrow> 'a) \<Rightarrow> Substitution \<Rightarrow> bool" where
  "solves I \<rho> s \<longleftrightarrow> (\<forall>v t. lookup s v = Some t \<longrightarrow> \<rho> v = tval I \<rho> t)"

lemma chase_solves:
  assumes "solves I \<rho> s"
  shows "(chase s v n c = Unbound w c' \<longrightarrow> \<rho> w = \<rho> v) \<and>
         (chase s v n c = Reached t \<longrightarrow> tval I \<rho> t = \<rho> v)"
  using assms
proof (induction s v n c rule: chase.induct)
  case (1 s v n c)
  show ?case
  proof (cases "lookup s v")
    case (Some t')
    then have v: "\<rho> v = tval I \<rho> t'" using 1(2) by (simp add: solves_def)
    show ?thesis
    proof (cases t')
      case (Var nxt)
      then show ?thesis using 1(1) [OF Some Var _ 1(2)] Some v by (subst (1 2) chase.simps) auto
    next
      case (App f args)
      then show ?thesis using Some v by (subst (1 2) chase.simps) auto
    qed
  qed (subst (1 2) chase.simps, simp)
qed

lemma apply_term_opt_solves:
  "solves I \<rho> s \<Longrightarrow> tval I \<rho> (unwrap_or (apply_term_opt s t d) t) = tval I \<rho> t"
proof (induction s t d rule: apply_term_opt.induct)
  case (1 s t d)
  show ?case
  proof (cases "d > 500")
    case True
    then show ?thesis by (simp add: apply_term_opt.simps [of s t d])
  next
    case False
    show ?thesis
    proof (cases t)
      case (Var start)
      then show ?thesis
        using False 1(1) [OF False Var _ 1(3)] chase_solves [OF 1(3), of start 0 False]
        by (auto simp: apply_term_opt.simps [of s "Var start" d] split: chase_end.split)
    next
      case (App f args)
      have arg: "tval I \<rho> (unwrap_or (apply_term_opt s a (d + 1)) a) = tval I \<rho> a"
        if "a \<in> set args" for a using 1(2) [OF False App that 1(3)] .
      let ?g = "\<lambda>a. unwrap_or (apply_term_opt s a (d + 1)) a"
      have "map (tval I \<rho> \<circ> ?g) args = map (tval I \<rho>) args" using arg by simp
      then have "ifun I f (map (tval I \<rho> \<circ> ?g) args) = ifun I f (map (tval I \<rho>) args)"
        by (simp only:)
      then show ?thesis using False App
        by (simp add: apply_term_opt.simps [of s "App f args" d] Let_def zip_map2 zip_same_conv_map comp_def)
    qed
  qed
qed

lemma apply_term_solves [sem_simps]: "solves I \<rho> s \<Longrightarrow> tval I \<rho> (apply_term s t) = tval I \<rho> t"
  by (simp add: apply_term_def apply_term_opt_solves)

lemma apply_atom_solves [sem_simps]: "solves I \<rho> s \<Longrightarrow> aval I \<rho> (apply_atom s a) = aval I \<rho> a"
  by (cases a) (simp_all add: apply_term_solves comp_def)

lemma apply_literal_solves [sem_simps]:
  "solves I \<rho> s \<Longrightarrow> lval I \<rho> (apply_literal s l) = lval I \<rho> l"
  by (simp add: apply_literal_def lval_def apply_atom_solves)

subsection \<open>When application is complete\<close>

text \<open>
  \<open>flat s\<close>: no variable of a bound term is bound itself. \<open>levels_ok s d t\<close>: no bound
  variable occurs in \<open>t\<close> deeper than the nesting limit, counted from \<open>d\<close>.
\<close>

definition as_fun :: "Substitution \<Rightarrow> VarId \<Rightarrow> Term" where
  "as_fun s v = unwrap_or (lookup s v) (Var v)"

definition unbound_in :: "Substitution \<Rightarrow> Term \<Rightarrow> bool" where
  "unbound_in s t \<longleftrightarrow> (\<forall>v \<in> vars t. lookup s v = None)"

definition flat :: "Substitution \<Rightarrow> bool" where
  "flat s \<longleftrightarrow> (\<forall>v t. lookup s v = Some t \<longrightarrow> unbound_in s t)"

fun levels_ok :: "Substitution \<Rightarrow> nat \<Rightarrow> Term \<Rightarrow> bool" where
  "levels_ok s d (Var v) = (lookup s v \<noteq> None \<longrightarrow> d \<le> 500)"
| "levels_ok s d (App f args) = (\<forall>a \<in> set args. levels_ok s (d + 1) a)"

lemma levels_ok_depth: "d + depth t \<le> 500 \<Longrightarrow> levels_ok s d t"
proof (induction t arbitrary: d)
  case (App f args)
  then show ?case using depth_arg by fastforce
qed auto

lemma levels_ok_deep: "\<not> unbound_in s t \<Longrightarrow> levels_ok s d t \<Longrightarrow> d \<le> 500"
proof (induction t arbitrary: d)
  case (App f args)
  then obtain a where "a \<in> set args" "\<not> unbound_in s a" by (auto simp: unbound_in_def)
  then have "d + 1 \<le> 500" using App by (metis levels_ok.simps(2))
  then show ?case by simp
qed (auto simp: unbound_in_def)

lemma unbound_in_args: "unbound_in s (App f args) \<longleftrightarrow> (\<forall>a \<in> set args. unbound_in s a)"
  by (auto simp: unbound_in_def)

lemma apply_term_opt_unbound: "unbound_in s t \<Longrightarrow> apply_term_opt s t d = None"
proof (induction t arbitrary: d)
  case (Var v)
  then show ?case
    by (simp add: unbound_in_def apply_term_opt.simps [of s "Var v"] chase.simps [of s v])
next
  case (App f args)
  then have "list_all (\<lambda>r. r = None) (map (\<lambda>a. apply_term_opt s a (d + 1)) args)"
    by (auto simp: list_all_iff unbound_in_args)
  then show ?case by (subst apply_term_opt.simps) (simp add: Let_def)
qed

lemma inst_as_fun_unbound: "unbound_in s t \<Longrightarrow> inst (as_fun s) t = t"
  by (simp add: inst_id_iff unbound_in_def as_fun_def)

lemma apply_term_opt_flat:
  assumes flat: "flat s"
  shows "levels_ok s d t \<Longrightarrow> unwrap_or (apply_term_opt s t d) t = inst (as_fun s) t"
proof (induction t arbitrary: d)
  case (Var v)
  show ?case
  proof (cases "lookup s v")
    case None
    then show ?thesis by (simp add: apply_term_opt_unbound unbound_in_def as_fun_def)
  next
    case (Some t')
    then have d: "\<not> d > 500" using Var by simp
    have t': "unbound_in s t'" using flat Some by (auto simp: flat_def)
    show ?thesis
    proof (cases t')
      case (Var w)
      then have "lookup s w = None" using t' by (simp add: unbound_in_def)
      then have "chase s v 0 False = Unbound w True"
        using Some Var by (simp add: chase.simps [of s v] chase.simps [of s w])
      then show ?thesis using d Some Var by (simp add: apply_term_opt.simps [of s "Var v"] as_fun_def)
    next
      case (App f args)
      then have "chase s v 0 False = Reached t'" using Some by (simp add: chase.simps [of s v])
      then show ?thesis using d Some t'
        by (simp add: apply_term_opt.simps [of s "Var v" d] as_fun_def apply_term_opt_unbound)
    qed
  qed
next
  case (App f args)
  show ?case
  proof (cases "unbound_in s (App f args)")
    case True
    then show ?thesis by (simp add: apply_term_opt_unbound inst_as_fun_unbound del: inst.simps)
  next
    case False
    then have d: "\<not> d > 500" using levels_ok_deep App.prems by fastforce
    have IH: "unwrap_or (apply_term_opt s a (d + 1)) a = inst (as_fun s) a" if "a \<in> set args" for a
      using App that by simp
    show ?thesis
    proof (cases "list_all (\<lambda>a. apply_term_opt s a (d + 1) = None) args")
      case True
      then have "inst (as_fun s) a = a" if "a \<in> set args" for a
        using IH [OF that] that by (simp add: list_all_iff)
      then show ?thesis using True d
        by (simp add: apply_term_opt.simps [of s "App f args"] Let_def list_all_iff map_idI)
    next
      case False
      then show ?thesis using d IH
        by (auto simp: apply_term_opt.simps [of s "App f args"] Let_def list_all_iff zip_map2
            zip_same_conv_map comp_def)
    qed
  qed
qed

lemma apply_term_flat:
  assumes "flat s" "levels_ok s 0 t"
  shows "apply_term s t = inst (as_fun s) t"
proof (cases "bindings s = fmempty")
  case True
  then have "unbound_in s t" by (simp add: unbound_in_def lookup_def)
  then show ?thesis using True by (simp add: apply_term_def inst_as_fun_unbound)
qed (use assms apply_term_opt_flat in \<open>auto simp: apply_term_def\<close>)

lemma apply_atom_flat:
  assumes "flat s"
  shows "(\<And>t. (case a of Pred p args \<Rightarrow> t \<in> set args | Eq l r \<Rightarrow> t = l \<or> t = r) \<Longrightarrow> levels_ok s 0 t)
    \<Longrightarrow> apply_atom s a = inst_atom (as_fun s) a"
  using assms by (cases a) (auto simp: apply_term_flat)

subsection \<open>Renaming a variable\<close>

fun allvars :: "Formula \<Rightarrow> VarId set" where
  "allvars (Atom a) = avars a"
| "allvars (Neg f) = allvars f"
| "allvars (And fs) = (\<Union>f \<in> set fs. allvars f)"
| "allvars (Or fs) = (\<Union>f \<in> set fs. allvars f)"
| "allvars (Implies a b) = allvars a \<union> allvars b"
| "allvars (Iff a b) = allvars a \<union> allvars b"
| "allvars (Forall v f) = insert v (allvars f)"
| "allvars (Exists v f) = insert v (allvars f)"
| "allvars FTrue = {}"
| "allvars FFalse = {}"

lemma fvars_allvars: "fvars f \<subseteq> allvars f"
  by (induction f) auto

lemma finite_allvars [simp]: "finite (allvars f)"
  by (induction f) auto

lemma collect_all_vars_eq [vars_simps]: "collect_all_vars f A = A \<union> allvars f"
proof (induction f arbitrary: A)
  case (And fs)
  then show ?case by (simp add: fold_union [where g = allvars])
next
  case (Or fs)
  then show ?case by (simp add: fold_union [where g = allvars])
qed (auto simp: atom_collect_vars_eq)

lemma tval_rename_term: "tval I \<rho> (rename_term t old new) = tval I (\<rho>(old := \<rho> new)) t"
proof (induction t)
  case (App f args)
  have "map (tval I \<rho> \<circ> (\<lambda>a. rename_term a old new)) args = map (tval I (\<rho>(old := \<rho> new))) args"
    by (rule map_cong) (simp_all add: App.IH del: fun_upd_apply)
  then show ?case by (simp only: rename_term.simps tval.simps map_map)
qed auto

lemma aval_rename_atom: "aval I \<rho> (rename_atom a old new) = aval I (\<rho>(old := \<rho> new)) a"
  by (cases a) (simp_all add: tval_rename_term comp_def)

lemma fval_rename_var:
  "new \<notin> allvars f \<Longrightarrow> fval I \<rho> (rename_var f old new) = fval I (\<rho>(old := \<rho> new)) f"
proof (induction f arbitrary: \<rho>)
  case (Forall v f)
  have "fval I (\<rho>(v := x)) (rename_var f old new) = fval I (\<rho>(old := \<rho> new, v := x)) f"
    if "v \<noteq> old" for x
  proof -
    have "(\<rho>(v := x))(old := (\<rho>(v := x)) new) = \<rho>(old := \<rho> new, v := x)"
      using Forall.prems that by (auto simp: fun_eq_iff)
    then show ?thesis using Forall.IH [of "\<rho>(v := x)"] Forall.prems by (simp only: allvars.simps) blast
  qed
  then show ?case
    by (cases "v = old") (simp_all only: rename_var.simps fval.simps fun_upd_upd simp_thms if_True if_False)
next
  case (Exists v f)
  have "fval I (\<rho>(v := x)) (rename_var f old new) = fval I (\<rho>(old := \<rho> new, v := x)) f"
    if "v \<noteq> old" for x
  proof -
    have "(\<rho>(v := x))(old := (\<rho>(v := x)) new) = \<rho>(old := \<rho> new, v := x)"
      using Exists.prems that by (auto simp: fun_eq_iff)
    then show ?thesis using Exists.IH [of "\<rho>(v := x)"] Exists.prems by (simp only: allvars.simps) blast
  qed
  then show ?case
    by (cases "v = old") (simp_all only: rename_var.simps fval.simps fun_upd_upd simp_thms if_True if_False)
qed (auto simp: aval_rename_atom)

lemma vars_rename_term: "vars (rename_term t old new) = (\<lambda>v. if v = old then new else v) ` vars t"
  by (induction t) auto

lemma avars_rename_atom: "avars (rename_atom a old new) = (\<lambda>v. if v = old then new else v) ` avars a"
  by (cases a) (auto simp: vars_rename_term)

lemma allvars_rename_var: "allvars (rename_var f old new) \<subseteq> insert new (allvars f)"
  by (induction f) (auto simp: avars_rename_atom)

lemma fvars_rename_var: "fvars (rename_var f old new) \<subseteq> insert new (fvars f - {old})"
  by (induction f) (auto simp: avars_rename_atom)

subsection \<open>Application to formulas avoids capture\<close>

text \<open>
  \<open>quants\<close> counts quantifiers, an upper bound for the fresh variables drawn; \<open>below\<close> says
  that \<open>next_var\<close> is above every variable in sight.
\<close>

fun quants :: "Formula \<Rightarrow> nat" where
  "quants (Neg f) = quants f"
| "quants (And fs) = sum_list (map quants fs)"
| "quants (Or fs) = sum_list (map quants fs)"
| "quants (Implies a b) = quants a + quants b"
| "quants (Iff a b) = quants a + quants b"
| "quants (Forall v f) = Suc (quants f)"
| "quants (Exists v f) = Suc (quants f)"
| "quants _ = 0"

lemma quants_rename_var [simp]: "quants (rename_var f old new) = quants f"
  by (induction f) (auto intro!: arg_cong [where f = sum_list])

definition subst_vars :: "Substitution \<Rightarrow> VarId set" where
  "subst_vars s = fmdom' (bindings s) \<union> (\<Union>t \<in> fmran' (bindings s). vars t)"

lemma subst_varsI: "lookup s v = Some t \<Longrightarrow> v \<in> subst_vars s \<and> vars t \<subseteq> subst_vars s"
  by (fastforce simp: subst_vars_def lookup_def fmlookup_dom'_iff fmlookup_ran'_iff)

lemma solves_upd:
  assumes "solves I \<rho> s" "lookup s v = None" "\<not> captures_var s v"
  shows "solves I (\<rho>(v := x)) s"
  unfolding solves_def
proof (intro allI impI)
  fix w t assume w: "lookup s w = Some t"
  then have "v \<notin> vars t"
    using assms(3) by (auto simp: captures_var_def contains_var_eq lookup_def fmlookup_ran'_iff)
  then have "tval I (\<rho>(v := x)) t = tval I \<rho> t" by (intro tval_cong) auto
  then show "(\<rho>(v := x)) w = tval I (\<rho>(v := x)) t"
    using w assms(1,2) by (auto simp: solves_def)
qed

lemma solves_upd_fresh:
  assumes "solves I \<rho> s" "v \<notin> subst_vars s"
  shows "solves I (\<rho>(v := x)) s"
proof (rule solves_upd [OF assms(1)])
  show "lookup s v = None" using assms(2) subst_varsI by (metis option.exhaust)
  show "\<not> captures_var s v"
    using assms(2) by (auto simp: captures_var_def contains_var_eq subst_vars_def)
qed

definition below :: "Substitution \<Rightarrow> VarId set \<Rightarrow> VarId \<Rightarrow> nat \<Rightarrow> bool" where
  "below s A nv n \<longleftrightarrow> (\<forall>v \<in> A \<union> subst_vars s. v < nv) \<and> unat nv + n < 2 ^ 32"

lemma unat_suc_u32: "unat (nv :: u32) + Suc n < 2 ^ 32 \<Longrightarrow> unat (nv + 1) = Suc (unat nv)"
  by (subst unat_add_lem [THEN iffD1]) simp_all

lemma below_step:
  assumes "below s A nv (Suc n)" "B \<subseteq> insert nv A"
  shows "below s B (nv + 1) n"
proof -
  have n: "unat (nv + 1) = Suc (unat nv)"
    using assms(1) unat_suc_u32 [of nv n] by (simp add: below_def)
  have "v < nv + 1" if "v < nv \<or> v = nv" for v
    using that n by (auto simp: word_less_nat_alt)
  then show ?thesis using assms n by (auto simp: below_def subset_eq)
qed

lemma below_weaken:
  assumes "below s A nv n" "B \<subseteq> A" "nv \<le> nv'" "unat nv' + m \<le> unat nv + n"
  shows "below s B nv' m"
  using assms by (auto simp: below_def intro: order.strict_trans2)

lemma rec_next_var:
  "unat nv + quants f < 2 ^ 32 \<Longrightarrow> nv \<le> snd (apply_formula_rec s f nv) \<and>
     unat (snd (apply_formula_rec s f nv)) \<le> unat nv + quants f"
  "unat nv + sum_list (map quants fs) < 2 ^ 32 \<Longrightarrow> nv \<le> snd (apply_formulas_rec s fs nv) \<and>
     unat (snd (apply_formulas_rec s fs nv)) \<le> unat nv + sum_list (map quants fs)"
proof (induction s f nv and s fs nv rule: apply_formula_rec_apply_formulas_rec.induct)
  case (5 s a b nv)
  then show ?case by (fastforce simp: word_le_nat_alt split: prod.splits)
next
  case (6 s a b nv)
  then show ?case by (fastforce simp: word_le_nat_alt split: prod.splits)
next
  case (7 s v body nv)
  then show ?case
    using unat_suc_u32 [of nv "quants body"]
    by (auto simp: word_le_nat_alt split: prod.splits)
next
  case (8 s v body nv)
  then show ?case
    using unat_suc_u32 [of nv "quants body"]
    by (auto simp: word_le_nat_alt split: prod.splits)
next
  case (12 s f fs nv)
  then show ?case by (fastforce simp: word_le_nat_alt split: prod.splits)
qed (auto simp: word_le_nat_alt split: prod.splits)

lemma below_fresh:
  assumes "below s A nv n"
  shows "nv \<notin> A" "nv \<notin> subst_vars s"
  using assms by (auto simp: below_def)

lemma renamed_body_value:
  assumes "nv \<notin> allvars body" "nv \<noteq> v"
  shows "fval I (\<rho>(nv := x)) (rename_var body v nv) = fval I (\<rho>(v := x)) body"
proof -
  have "fval I (\<rho>(nv := x)) (rename_var body v nv) = fval I (\<rho>(nv := x, v := (\<rho>(nv := x)) nv)) body"
    by (rule fval_rename_var [OF assms(1)])
  also have "\<dots> = fval I (\<rho>(v := x)) body"
    by (rule fval_cong) (use assms fvars_allvars in auto)
  finally show ?thesis .
qed

lemma apply_formula_rec_solves:
  "solves I \<rho> s \<Longrightarrow> below s (allvars f) nv (quants f) \<Longrightarrow>
     fval I \<rho> (fst (apply_formula_rec s f nv)) = fval I \<rho> f"
  "solves I \<rho> s \<Longrightarrow> below s (\<Union>f \<in> set fs. allvars f) nv (sum_list (map quants fs)) \<Longrightarrow>
     list_all2 (\<lambda>f' f. fval I \<rho> f' = fval I \<rho> f) (fst (apply_formulas_rec s fs nv)) fs"
proof (induction s f nv and s fs nv arbitrary: \<rho> and \<rho> rule: apply_formula_rec_apply_formulas_rec.induct)
  case (1 s a nv)
  then show ?case by (simp add: apply_atom_solves)
next
  case (3 s fs nv)
  then have "list_all2 (\<lambda>f' f. fval I \<rho> f' = fval I \<rho> f) (fst (apply_formulas_rec s fs nv)) fs" by simp
  then show ?case
    by (simp add: split_def Let_def list_all2_ball_iff [where P = "fval I \<rho>" and Q = "fval I \<rho>"])
next
  case (4 s fs nv)
  then have "list_all2 (\<lambda>f' f. fval I \<rho> f' = fval I \<rho> f) (fst (apply_formulas_rec s fs nv)) fs" by simp
  then show ?case
    by (simp add: split_def Let_def list_all2_bex_iff [where P = "fval I \<rho>" and Q = "fval I \<rho>"])
next
  case (5 s a b nv)
  have "below s (allvars a) nv (quants a)" using 5(4) by (rule below_weaken) auto
  moreover have "below s (allvars b) (snd (apply_formula_rec s a nv)) (quants b)"
    using 5(4) by (rule below_weaken) (use 5(4) rec_next_var(1) [of nv a s] in \<open>auto simp: below_def\<close>)
  ultimately show ?case using 5
    by (cases "apply_formula_rec s a nv") (simp add: split_def Let_def)
next
  case (6 s a b nv)
  have "below s (allvars a) nv (quants a)" using 6(4) by (rule below_weaken) auto
  moreover have "below s (allvars b) (snd (apply_formula_rec s a nv)) (quants b)"
    using 6(4) by (rule below_weaken) (use 6(4) rec_next_var(1) [of nv a s] in \<open>auto simp: below_def\<close>)
  ultimately show ?case using 6
    by (cases "apply_formula_rec s a nv") (simp add: split_def Let_def)
next
  case (12 s f fs nv)
  have "below s (allvars f) nv (quants f)" using 12(4) by (rule below_weaken) auto
  moreover have "below s (\<Union>f \<in> set fs. allvars f) (snd (apply_formula_rec s f nv)) (sum_list (map quants fs))"
    using 12(4) by (rule below_weaken) (use 12(4) rec_next_var(1) [of nv f s] in \<open>auto simp: below_def\<close>)
  ultimately show ?case using 12
    by (cases "apply_formula_rec s f nv") (simp add: split_def Let_def)
next
  case (7 s v body nv)
  note fresh = below_fresh [OF 7(4)]
  have ren: "fval I (\<rho>(nv := x)) (fst (apply_formula_rec s (rename_var body v nv) (nv + 1)))
      = fval I (\<rho>(v := x)) body" if "lookup s v = None" "captures_var s v" for x
  proof -
    have "below s (allvars (rename_var body v nv)) (nv + 1) (quants (rename_var body v nv))"
      using 7(4) by (intro below_step [where A = "allvars (Forall v body)"])
        (use allvars_rename_var in auto)
    then show ?thesis
      using 7(1) [OF _ that(2) solves_upd_fresh [OF 7(3) fresh(2), of x]] that(1) fresh(1)
        renamed_body_value [of nv body v I \<rho> x] by (simp del: fun_upd_apply)
  qed
  have keep: "fval I (\<rho>(v := x)) (fst (apply_formula_rec s body nv)) = fval I (\<rho>(v := x)) body"
    if "lookup s v = None" "\<not> captures_var s v" for x
    using 7(2) [OF _ that(2) solves_upd [OF 7(3) that, of x]] that(1)
      below_weaken [OF 7(4), of "allvars body" nv "quants body"]
    by (simp add: subset_insertI del: fun_upd_apply)
  show ?case using ren keep by (auto simp: split_def Let_def simp del: fun_upd_apply)
next
  case (8 s v body nv)
  note fresh = below_fresh [OF 8(4)]
  have ren: "fval I (\<rho>(nv := x)) (fst (apply_formula_rec s (rename_var body v nv) (nv + 1)))
      = fval I (\<rho>(v := x)) body" if "lookup s v = None" "captures_var s v" for x
  proof -
    have "below s (allvars (rename_var body v nv)) (nv + 1) (quants (rename_var body v nv))"
      using 8(4) by (intro below_step [where A = "allvars (Exists v body)"])
        (use allvars_rename_var in auto)
    then show ?thesis
      using 8(1) [OF _ that(2) solves_upd_fresh [OF 8(3) fresh(2), of x]] that(1) fresh(1)
        renamed_body_value [of nv body v I \<rho> x] by (simp del: fun_upd_apply)
  qed
  have keep: "fval I (\<rho>(v := x)) (fst (apply_formula_rec s body nv)) = fval I (\<rho>(v := x)) body"
    if "lookup s v = None" "\<not> captures_var s v" for x
    using 8(2) [OF _ that(2) solves_upd [OF 8(3) that, of x]] that(1)
      below_weaken [OF 8(4), of "allvars body" nv "quants body"]
    by (simp add: subset_insertI del: fun_upd_apply)
  show ?case using ren keep by (auto simp: split_def Let_def simp del: fun_upd_apply)
qed (auto simp: split_def Let_def)

lemma max_var_id_bound:
  "v \<in> subst_vars s \<union> allvars f \<Longrightarrow> v \<le> max_var_id s f"
  unfolding max_var_id_def
  by (rule Max_ge) (auto simp: subst_vars_def collect_vars_eq collect_all_vars_eq)

definition vars_fit :: "Substitution \<Rightarrow> Formula \<Rightarrow> bool" where
  "vars_fit s f \<longleftrightarrow> unat (max_var_id s f) + quants f + 1 < 2 ^ 32"

lemma vars_fit_below: "vars_fit s f \<Longrightarrow> below s (allvars f) (max_var_id s f + 1) (quants f)"
proof -
  assume fit: "vars_fit s f"
  then have n: "unat (max_var_id s f + 1) = Suc (unat (max_var_id s f))"
    using unat_suc_u32 [of "max_var_id s f" 0] by (simp add: vars_fit_def)
  have "v < max_var_id s f + 1" if "v \<in> subst_vars s \<union> allvars f" for v
    using max_var_id_bound [OF that] n by (simp add: word_less_nat_alt word_le_nat_alt)
  then show ?thesis using n fit by (auto simp: below_def vars_fit_def)
qed

lemma apply_formula_solves:
  "solves I \<rho> s \<Longrightarrow> vars_fit s f \<Longrightarrow> fval I \<rho> (apply_formula s f) = fval I \<rho> f"
  unfolding apply_formula_def by (intro apply_formula_rec_solves vars_fit_below)

subsection \<open>What application to a formula eliminates\<close>

text \<open>
  \<open>covered s f\<close>: every occurrence of a bound variable in \<open>f\<close> lies within the nesting limit,
  and a quantifier over a bound variable has no other bound variable free in its body (the
  code skips the whole body there).
\<close>

fun atom_terms :: "Atom \<Rightarrow> Term list" where
  "atom_terms (Pred p args) = args"
| "atom_terms (Eq l r) = [l, r]"

fun covered :: "Substitution \<Rightarrow> Formula \<Rightarrow> bool" where
  "covered s (Atom a) = (\<forall>t \<in> set (atom_terms a). levels_ok s 0 t)"
| "covered s (Neg f) = covered s f"
| "covered s (And fs) = (\<forall>f \<in> set fs. covered s f)"
| "covered s (Or fs) = (\<forall>f \<in> set fs. covered s f)"
| "covered s (Implies a b) = (covered s a \<and> covered s b)"
| "covered s (Iff a b) = (covered s a \<and> covered s b)"
| "covered s (Forall v f) =
     (if lookup s v = None then covered s f else \<forall>w \<in> fvars f. w = v \<or> lookup s w = None)"
| "covered s (Exists v f) =
     (if lookup s v = None then covered s f else \<forall>w \<in> fvars f. w = v \<or> lookup s w = None)"
| "covered s FTrue = True"
| "covered s FFalse = True"

lemma levels_ok_rename_term:
  "lookup s old = None \<Longrightarrow> lookup s new = None \<Longrightarrow>
     levels_ok s d (rename_term t old new) = levels_ok s d t"
  by (induction t arbitrary: d) auto

lemma atom_terms_rename [simp]:
  "atom_terms (rename_atom a old new) = map (\<lambda>t. rename_term t old new) (atom_terms a)"
  by (cases a) auto

lemma avars_atom_terms: "avars a = (\<Union>t \<in> set (atom_terms a). vars t)"
  by (cases a) auto

lemma covered_rename_var:
  "lookup s old = None \<Longrightarrow> lookup s new = None \<Longrightarrow> new \<notin> allvars f \<Longrightarrow>
     covered s f \<Longrightarrow> covered s (rename_var f old new)"
proof (induction f)
  case (Forall v f)
  then show ?case by (auto split: if_splits dest!: subsetD [OF fvars_rename_var])
next
  case (Exists v f)
  then show ?case by (auto split: if_splits dest!: subsetD [OF fvars_rename_var])
qed (auto simp: levels_ok_rename_term)

lemma apply_term_eliminates:
  assumes "flat s" "levels_ok s 0 t" "v \<in> vars (apply_term s t)"
  shows "lookup s v = None"
proof -
  obtain w where "v \<in> vars (as_fun s w)"
    using assms(2,3) by (auto simp: apply_term_flat [OF assms(1,2)] vars_inst)
  then show ?thesis using assms(1)
    by (cases "lookup s w") (auto simp: as_fun_def flat_def unbound_in_def)
qed

lemma apply_atom_terms: "atom_terms (apply_atom s a) = map (apply_term s) (atom_terms a)"
  by (cases a) auto

lemma apply_formula_rec_eliminates:
  assumes "flat s"
  shows "covered s f \<Longrightarrow> below s (allvars f) nv (quants f) \<Longrightarrow>
     \<forall>v \<in> fvars (fst (apply_formula_rec s f nv)). lookup s v = None"
  and "\<forall>f \<in> set fs. covered s f \<Longrightarrow> below s (\<Union>f \<in> set fs. allvars f) nv (sum_list (map quants fs)) \<Longrightarrow>
     \<forall>f \<in> set (fst (apply_formulas_rec s fs nv)). \<forall>v \<in> fvars f. lookup s v = None"
  using assms
proof (induction s f nv and s fs nv rule: apply_formula_rec_apply_formulas_rec.induct)
  case (1 s a nv)
  then show ?case by (auto simp: avars_atom_terms apply_atom_terms dest: apply_term_eliminates)
next
  case (5 s a b nv)
  have "below s (allvars a) nv (quants a)" using 5(4) by (rule below_weaken) auto
  moreover have "below s (allvars b) (snd (apply_formula_rec s a nv)) (quants b)"
    using 5(4) by (rule below_weaken) (use 5(4) rec_next_var(1) [of nv a s] in \<open>auto simp: below_def\<close>)
  ultimately show ?case using 5
    by (cases "apply_formula_rec s a nv") (auto simp add: split_def Let_def)
next
  case (6 s a b nv)
  have "below s (allvars a) nv (quants a)" using 6(4) by (rule below_weaken) auto
  moreover have "below s (allvars b) (snd (apply_formula_rec s a nv)) (quants b)"
    using 6(4) by (rule below_weaken) (use 6(4) rec_next_var(1) [of nv a s] in \<open>auto simp: below_def\<close>)
  ultimately show ?case using 6
    by (cases "apply_formula_rec s a nv") (auto simp add: split_def Let_def)
next
  case (12 s f fs nv)
  have "below s (allvars f) nv (quants f)" using 12(4) by (rule below_weaken) auto
  moreover have "below s (\<Union>f \<in> set fs. allvars f) (snd (apply_formula_rec s f nv)) (sum_list (map quants fs))"
    using 12(4) by (rule below_weaken) (use 12(4) rec_next_var(1) [of nv f s] in \<open>auto simp: below_def\<close>)
  ultimately show ?case using 12
    by (cases "apply_formula_rec s f nv") (auto simp add: split_def Let_def)
next
  case (7 s v body nv)
  have nv: "nv \<notin> allvars body" "lookup s nv = None"
    using below_fresh [OF 7(4)] subst_varsI [of s nv] by (auto intro: option.exhaust)
  have step: "below s (allvars (rename_var body v nv)) (nv + 1) (quants (rename_var body v nv))"
    using 7(4) by (intro below_step [where A = "allvars (Forall v body)"])
      (use allvars_rename_var in auto)
  have keep: "below s (allvars body) nv (quants body)"
    using 7(4) by (rule below_weaken) auto
  consider "lookup s v \<noteq> None" | "lookup s v = None" "captures_var s v" | "lookup s v = None" "\<not> captures_var s v"
    by blast
  then show ?case
  proof cases
    case 1
    then show ?thesis using 7(3) by fastforce
  next
    case 2
    then have "covered s (rename_var body v nv)"
      using 7(3) covered_rename_var [OF 2(1) nv(2,1)] by simp
    then show ?thesis using 7(1) [OF _ 2(2) _ step 7(5)] 2 by (simp add: split_def Let_def)
  next
    case 3
    have "covered s body" using 7(3) 3(1) by simp
    then have "\<forall>w \<in> fvars (fst (apply_formula_rec s body nv)). lookup s w = None"
      using 3 keep 7(5) by (intro 7(2)) simp_all
    then show ?thesis using 3 by (simp add: split_def Let_def)
  qed
next
  case (8 s v body nv)
  have nv: "nv \<notin> allvars body" "lookup s nv = None"
    using below_fresh [OF 8(4)] subst_varsI [of s nv] by (auto intro: option.exhaust)
  have step: "below s (allvars (rename_var body v nv)) (nv + 1) (quants (rename_var body v nv))"
    using 8(4) by (intro below_step [where A = "allvars (Exists v body)"])
      (use allvars_rename_var in auto)
  have keep: "below s (allvars body) nv (quants body)"
    using 8(4) by (rule below_weaken) auto
  consider "lookup s v \<noteq> None" | "lookup s v = None" "captures_var s v" | "lookup s v = None" "\<not> captures_var s v"
    by blast
  then show ?case
  proof cases
    case 1
    then show ?thesis using 8(3) by fastforce
  next
    case 2
    then have "covered s (rename_var body v nv)"
      using 8(3) covered_rename_var [OF 2(1) nv(2,1)] by simp
    then show ?thesis using 8(1) [OF _ 2(2) _ step 8(5)] 2 by (simp add: split_def Let_def)
  next
    case 3
    have "covered s body" using 8(3) 3(1) by simp
    then have "\<forall>w \<in> fvars (fst (apply_formula_rec s body nv)). lookup s w = None"
      using 3 keep 8(5) by (intro 8(2)) simp_all
    then show ?thesis using 3 by (simp add: split_def Let_def)
  qed
qed (auto simp: split_def Let_def)

lemma apply_formula_eliminates:
  assumes "flat s" "covered s f" "vars_fit s f" "v \<in> fvars (apply_formula s f)"
  shows "lookup s v = None"
  using apply_formula_rec_eliminates(1) [OF assms(1,2) vars_fit_below [OF assms(3)]] assms(4)
  by (auto simp: apply_formula_def)

lemma flat_solves: "flat s \<Longrightarrow> solves I (\<lambda>v. tval I \<rho> (as_fun s v)) s"
  unfolding solves_def
  by (auto simp: flat_def unbound_in_def as_fun_def intro!: tval_cong)

lemma apply_formula_value:
  assumes "flat s" "covered s f" "vars_fit s f"
  shows "fval I \<rho> (apply_formula s f) = fval I (\<lambda>v. tval I \<rho> (as_fun s v)) f"
proof -
  have "fval I \<rho> (apply_formula s f) = fval I (\<lambda>v. tval I \<rho> (as_fun s v)) (apply_formula s f)"
    by (rule fval_cong) (use apply_formula_eliminates [OF assms] in \<open>simp add: as_fun_def\<close>)
  also have "\<dots> = fval I (\<lambda>v. tval I \<rho> (as_fun s v)) f"
    using assms by (intro apply_formula_solves flat_solves)
  finally show ?thesis .
qed

subsection \<open>Properties\<close>

text \<open>
  C23. Applying a substitution to a formula avoids capture: under every valuation, the result
  has the value that the formula has when each variable is given the value of the term it is
  replaced by. The hypotheses say that no bound term contains a bound variable, that the
  occurrences lie within the limits of the code, and that fresh variables fit in 32 bits.
\<close>

theorem apply_formula_capture_avoiding:
  assumes "flat s" "covered s f" "vars_fit s f"
  shows "fval I \<rho> (apply_formula s f) = fval I (\<lambda>v. tval I \<rho> (as_fun s v)) f"
  by (rule apply_formula_value [OF assms])

text \<open>
  Whatever limit is hit (the nesting depth of 500, the chain of 1000 variables) and
  whatever quantifier is skipped, application never changes the value of a formula under a
  valuation that solves the bindings.
\<close>

theorem apply_formula_keeps_solutions:
  assumes "solves I \<rho> s" "vars_fit s f"
  shows "fval I \<rho> (apply_formula s f) = fval I \<rho> f"
  by (rule apply_formula_solves [OF assms])

text \<open>An example: \<open>X1\<close> in \<open>forall X0. X0 = X1\<close> is replaced by \<open>X0\<close>, which forces a renaming.\<close>

definition capture_subst :: Substitution where
  "capture_subst = singleton 1 (Var 0)"

definition capture_formula :: Formula where
  "capture_formula = Forall 0 (Atom (Eq (Var 0) (Var 1)))"

lemma lookup_capture_subst: "lookup capture_subst v = (if v = 1 then Some (Var 0) else None)"
  by (simp add: capture_subst_def singleton_def lookup_def bind_var_to_def new_subst_def)

lemma capture_hyps:
  "flat capture_subst" "covered capture_subst capture_formula" "vars_fit capture_subst capture_formula"
proof -
  show "flat capture_subst" by (simp add: flat_def unbound_in_def lookup_capture_subst)
  show "covered capture_subst capture_formula"
    by (simp add: capture_formula_def lookup_capture_subst)
  have "fmran' (bindings capture_subst) = {Var 0}" "fmdom' (bindings capture_subst) = {1}"
    by (auto simp: capture_subst_def singleton_def bind_var_to_def new_subst_def fmlookup_ran'_iff
        fmlookup_dom'_iff split: if_split_asm intro!: exI [of _ "1 :: VarId"])
  then show "vars_fit capture_subst capture_formula"
    by (simp add: vars_fit_def max_var_id_def capture_formula_def)
qed

theorem apply_formula_capture_avoiding_witness:
  "\<forall>I x. fval I (\<lambda>_. x) (apply_formula capture_subst capture_formula)
     = fval I (\<lambda>v. tval I (\<lambda>_. x) (as_fun capture_subst v)) capture_formula"
  by (intro allI, rule apply_formula_capture_avoiding [OF capture_hyps])

theorem apply_formula_keeps_solutions_witness:
  "\<forall>I x. fval I (\<lambda>_. x) (apply_formula capture_subst capture_formula)
     = fval I (\<lambda>_. x) capture_formula"
  by (intro allI, rule apply_formula_keeps_solutions [OF _ capture_hyps(3)])
    (simp add: solves_def lookup_capture_subst)

definition two_bindings :: Substitution where
  "two_bindings = bind_var_to 1 (constant_term 8) (bind_var_to 0 (constant_term 7) new_subst)"

lemma lookup_two_bindings:
  "lookup two_bindings v =
     (if v = 1 then Some (constant_term 8) else if v = 0 then Some (constant_term 7) else None)"
  by (simp add: two_bindings_def lookup_def bind_var_to_def new_subst_def)

lemma apply_two_bindings:
  "apply_term two_bindings (Var 0) = constant_term 7"
  "apply_term two_bindings (Var 1) = constant_term 8"
  using apply_term_flat [of two_bindings]
  by (simp_all add: flat_def unbound_in_def lookup_two_bindings constant_term_def as_fun_def)

text \<open>
  At a quantifier over a bound variable the code skips the whole body, so the other
  bindings are dropped there as well: \<open>{X0 -> a, X1 -> b}\<close> leaves \<open>X1\<close> free in
  \<open>forall X0. p(X0, X1)\<close>.
\<close>

theorem shadowing_drops_other_bindings:
  "apply_formula two_bindings (Forall 0 (Atom (Pred 5 [Var 0, Var 1])))
     = Forall 0 (Atom (Pred 5 [Var 0, Var 1])) \<and>
   apply_formula two_bindings (Atom (Pred 5 [Var 0, Var 1]))
     = Atom (Pred 5 [constant_term 7, constant_term 8])"
  by (simp add: apply_formula_def lookup_two_bindings apply_two_bindings)

lemma apply_term_opt_deep:
  "500 < d + n \<Longrightarrow> apply_term_opt s (((\<lambda>t. App f [t]) ^^ n) (Var v)) d = None"
proof (induction n arbitrary: d)
  case 0
  then show ?case by (simp add: apply_term_opt.simps [of s "Var v" d])
next
  case (Suc n)
  then show ?case
    by (simp add: apply_term_opt.simps [of s "App f [((\<lambda>t. App f [t]) ^^ n) (Var v)]" d] Let_def)
qed

text \<open>
  A variable that occurs deeper than 500 levels is not replaced at all: application
  returns the term as it is, although the variable is bound.
\<close>

theorem deep_variable_not_replaced:
  assumes "500 < n"
  shows "lookup (singleton v t) v = Some t \<and>
    apply_term (singleton v t) (((\<lambda>t. App f [t]) ^^ n) (Var v)) = ((\<lambda>t. App f [t]) ^^ n) (Var v)"
  using apply_term_opt_deep [of 0 n "singleton v t" f v] assms
  by (simp add: apply_term_def singleton_def bind_var_to_def new_subst_def lookup_def)

theorem deep_variable_not_replaced_witness:
  "lookup (singleton 0 (constant_term 1)) 0 = Some (constant_term 1) \<and>
    apply_term (singleton 0 (constant_term 1)) (((\<lambda>t. App 2 [t]) ^^ 501) (Var 0))
      = ((\<lambda>t. App 2 [t]) ^^ 501) (Var 0)"
  by (rule deep_variable_not_replaced) simp

end
