(* ===== verification/Witness.thy ===== *)
theory Witness
  imports Subst
begin

text \<open>
  Proof witnesses and the append-only proof arena, \<open>crates/mrs-core/src/witness.rs\<close>.
\<close>

type_synonym ClauseId = u64
type_synonym ProofNodeId = u64

record DemodStepWitness =
  rule_parent :: ProofNodeId
  dsw_lit_idx :: nat
  dsw_term_path :: "nat list"
  dsw_substitution :: "Substitution option"

datatype ProofWitness =
    Input string string
  | Resolution ProofNodeId ProofNodeId nat nat VarId "Substitution option"
  | Factoring ProofNodeId nat nat "Substitution option"
  | EqualityResolution ProofNodeId nat "Substitution option"
  | EqualityFactoring ProofNodeId nat nat "Substitution option"
  | SubsumptionResolution ProofNodeId ProofNodeId nat
  | Condensation ProofNodeId "nat list"
  | Superposition ProofNodeId ProofNodeId nat nat "nat list" bool "Substitution option"
  | Demodulation ProofNodeId "ProofNodeId list" "DemodStepWitness list"
  | AcNormalization ProofNodeId "SymbolId list" "ProofNodeId list"
  | Cnf "Formula option" "ProofNodeId list"
  | Definition SymbolId "Formula option"
  | Skolemization SymbolId VarId "VarId list" "ProofNodeId option"
  | Avatar "ProofNodeId option" "ProofNodeId list" "u32 list"
  | SharedLemma ProofNodeId "SymbolId list"
  | Legacy string "ProofNodeId list"

text \<open>
  \<open>map_parent_ids\<close> takes an \<open>FnMut\<close>, so the mapping threads a state through its calls, in
  the order in which the code visits the references.
\<close>

definition map_option_st :: "('a \<Rightarrow> 's \<Rightarrow> 'b \<times> 's) \<Rightarrow> 'a option \<Rightarrow> 's \<Rightarrow> 'b option \<times> 's" where
  "map_option_st f x s = (case x of None \<Rightarrow> (None, s) | Some a \<Rightarrow> let (b, s') = f a s in (Some b, s'))"

definition map_step :: "(ProofNodeId \<Rightarrow> 's \<Rightarrow> ProofNodeId \<times> 's) \<Rightarrow> DemodStepWitness \<Rightarrow> 's
    \<Rightarrow> DemodStepWitness \<times> 's" where
  "map_step f step s = (let (p, s') = f (rule_parent step) s in (step\<lparr>rule_parent := p\<rparr>, s'))"

fun map_parent_ids :: "(ProofNodeId \<Rightarrow> 's \<Rightarrow> ProofNodeId \<times> 's) \<Rightarrow> ProofWitness \<Rightarrow> 's
    \<Rightarrow> ProofWitness \<times> 's" where
  "map_parent_ids f (Input name role) s = (Input name role, s)"
| "map_parent_ids f (Definition symb df) s = (Definition symb df, s)"
| "map_parent_ids f (Resolution pl pr li ri off u) s =
     (let (pl', s1) = f pl s; (pr', s2) = f pr s1 in (Resolution pl' pr' li ri off u, s2))"
| "map_parent_ids f (Factoring p i j u) s = (let (p', s1) = f p s in (Factoring p' i j u, s1))"
| "map_parent_ids f (EqualityResolution p i u) s =
     (let (p', s1) = f p s in (EqualityResolution p' i u, s1))"
| "map_parent_ids f (EqualityFactoring p i j u) s =
     (let (p', s1) = f p s in (EqualityFactoring p' i j u, s1))"
| "map_parent_ids f (Condensation p is) s = (let (p', s1) = f p s in (Condensation p' is, s1))"
| "map_parent_ids f (SubsumptionResolution t sub i) s =
     (let (t', s1) = f t s; (sub', s2) = f sub s1 in (SubsumptionResolution t' sub' i, s2))"
| "map_parent_ids f (Superposition l r li ri path left u) s =
     (let (l', s1) = f l s; (r', s2) = f r s1 in (Superposition l' r' li ri path left u, s2))"
| "map_parent_ids f (Demodulation t rules steps) s =
     (let (t', s1) = f t s; (rules', s2) = map_st f rules s1; (steps', s3) = map_st (map_step f) steps s2
      in (Demodulation t' rules' steps', s3))"
| "map_parent_ids f (AcNormalization p syms axs) s =
     (let (p', s1) = f p s; (axs', s2) = map_st f axs s1 in (AcNormalization p' syms axs', s2))"
| "map_parent_ids f (Cnf src ps) s = (let (ps', s1) = map_st f ps s in (Cnf src ps', s1))"
| "map_parent_ids f (Legacy rule ps) s = (let (ps', s1) = map_st f ps s in (Legacy rule ps', s1))"
| "map_parent_ids f (Skolemization symb v us p) s =
     (let (p', s1) = map_option_st f p s in (Skolemization symb v us p', s1))"
| "map_parent_ids f (Avatar p roots ctxt) s =
     (let (p', s1) = map_option_st f p s; (roots', s2) = map_st f roots s1
      in (Avatar p' roots' ctxt, s2))"
| "map_parent_ids f (SharedLemma n syms) s = (let (n', s1) = f n s in (SharedLemma n' syms, s1))"

fun parent_ids :: "ProofWitness \<Rightarrow> ProofNodeId list" where
  "parent_ids (Input name role) = []"
| "parent_ids (Definition symb df) = []"
| "parent_ids (Resolution pl pr li ri off u) = [pl, pr]"
| "parent_ids (Factoring p i j u) = [p]"
| "parent_ids (EqualityResolution p i u) = [p]"
| "parent_ids (EqualityFactoring p i j u) = [p]"
| "parent_ids (Condensation p is) = [p]"
| "parent_ids (SubsumptionResolution t sub i) = [t, sub]"
| "parent_ids (Superposition l r li ri path left u) = [l, r]"
| "parent_ids (Demodulation t rules steps) = [t] @ rules @ map rule_parent steps"
| "parent_ids (AcNormalization p syms axs) = [p] @ axs"
| "parent_ids (Cnf src ps) = ps"
| "parent_ids (Legacy rule ps) = ps"
| "parent_ids (Skolemization symb v us p) = (case p of None \<Rightarrow> [] | Some a \<Rightarrow> [a])"
| "parent_ids (Avatar p roots ctxt) = (case p of None \<Rightarrow> [] | Some a \<Rightarrow> [a]) @ roots"
| "parent_ids (SharedLemma n syms) = [n]"

record ProofNode =
  pn_id :: ProofNodeId
  pn_clause_id :: ClauseId
  pn_witness :: ProofWitness
  pn_parents :: "ProofNodeId list"

record ProofArena =
  arena_nodes :: "ProofNode list"
  clause_to_position :: "(ClauseId, nat) fmap"

definition new_arena :: ProofArena where
  "new_arena = \<lparr>arena_nodes = [], clause_to_position = fmempty\<rparr>"

definition arena_alloc :: "ClauseId \<Rightarrow> ProofWitness \<Rightarrow> ProofNodeId list \<Rightarrow> ProofArena
    \<Rightarrow> ProofNodeId \<times> ProofArena" where
  "arena_alloc cid w parents ar =
     (if fmlookup (clause_to_position ar) cid \<noteq> None then (cid, ar)
      else (cid, ar\<lparr>
        clause_to_position := fmupd cid (length (arena_nodes ar)) (clause_to_position ar),
        arena_nodes := arena_nodes ar @
          [\<lparr>pn_id = cid, pn_clause_id = cid, pn_witness = w, pn_parents = parents\<rparr>]\<rparr>))"

definition arena_get :: "ProofArena \<Rightarrow> ProofNodeId \<Rightarrow> ProofNode option" where
  "arena_get ar i = do {
     pos \<leftarrow> fmlookup (clause_to_position ar) i;
     if pos < length (arena_nodes ar) then Some (arena_nodes ar ! pos) else None }"

definition node_for_clause :: "ProofArena \<Rightarrow> ClauseId \<Rightarrow> ProofNodeId option" where
  "node_for_clause ar cid = (if fmlookup (clause_to_position ar) cid \<noteq> None then Some cid else None)"

definition arena_len :: "ProofArena \<Rightarrow> nat" where
  "arena_len ar = length (arena_nodes ar)"

definition arena_is_empty :: "ProofArena \<Rightarrow> bool" where
  "arena_is_empty ar = (arena_nodes ar = [])"

subsection \<open>Renaming the references of a witness\<close>

lemma map_st_steps:
  "map_st f (map rule_parent steps) s =
     (map rule_parent (fst (map_st (map_step f) steps s)), snd (map_st (map_step f) steps s))"
  by (induction steps arbitrary: s) (auto simp: map_step_def split_def Let_def)

lemma parent_ids_map:
  "map_st f (parent_ids w) s = (parent_ids (fst (map_parent_ids f w s)), snd (map_parent_ids f w s))"
  by (cases w)
    (auto simp: split_def Let_def map_st_append map_st_steps map_option_st_def split: option.splits)

subsection \<open>The arena\<close>

text \<open>The index of the arena points at the one node of each clause identifier.\<close>

definition arena_ok :: "ProofArena \<Rightarrow> bool" where
  "arena_ok ar \<longleftrightarrow>
     (\<forall>cid pos. fmlookup (clause_to_position ar) cid = Some pos \<longleftrightarrow>
        pos < length (arena_nodes ar) \<and> pn_clause_id (arena_nodes ar ! pos) = cid) \<and>
     (\<forall>n \<in> set (arena_nodes ar). pn_id n = pn_clause_id n)"

lemma new_arena_ok: "arena_ok new_arena"
  by (simp add: arena_ok_def new_arena_def)

lemma arena_position:
  "arena_ok ar \<Longrightarrow> fmlookup (clause_to_position ar) i = Some pos \<Longrightarrow> pos < length (arena_nodes ar)"
  by (simp add: arena_ok_def)

lemma arena_lookup:
  "arena_ok ar \<Longrightarrow> arena_get ar i = map_option ((!) (arena_nodes ar)) (fmlookup (clause_to_position ar) i)"
  using arena_position [of ar i]
  by (cases "fmlookup (clause_to_position ar) i") (auto simp: arena_get_def)

lemma arena_alloc_ok:
  assumes "arena_ok ar"
  shows "arena_ok (snd (arena_alloc cid w ps ar))"
proof (cases "fmlookup (clause_to_position ar) cid")
  case None
  have old: "fmlookup (clause_to_position ar) c = Some pos \<longleftrightarrow>
      pos < length (arena_nodes ar) \<and> pn_clause_id (arena_nodes ar ! pos) = c" for c pos
    using assms by (simp add: arena_ok_def)
  have "pn_clause_id (arena_nodes ar ! pos) \<noteq> cid" if "pos < length (arena_nodes ar)" for pos
    using old [of cid pos] that None by auto
  then show ?thesis using assms None
    by (auto simp: arena_ok_def arena_alloc_def nth_append less_Suc_eq)
qed (use assms in \<open>simp add: arena_alloc_def\<close>)

lemma arena_get_new: "arena_get new_arena i = None"
  by (simp add: arena_get_def new_arena_def)

lemma arena_get_alloc:
  assumes "arena_ok ar"
  shows "arena_get (snd (arena_alloc cid w ps ar)) i =
     (if i = cid \<and> arena_get ar cid = None
      then Some \<lparr>pn_id = cid, pn_clause_id = cid, pn_witness = w, pn_parents = ps\<rparr>
      else arena_get ar i)"
proof (cases "fmlookup (clause_to_position ar) cid")
  case None
  then show ?thesis
    using arena_position [OF assms, of i] arena_lookup [OF arena_alloc_ok [OF assms], of cid w ps i]
    by (cases "fmlookup (clause_to_position ar) i")
      (auto simp: arena_lookup [OF assms] arena_alloc_def nth_append)
qed (simp add: arena_alloc_def arena_lookup [OF assms])

lemma arena_get_id: "arena_ok ar \<Longrightarrow> arena_get ar i = Some n \<Longrightarrow> pn_clause_id n = i \<and> pn_id n = i"
  by (auto simp: arena_get_def arena_ok_def split: bind_splits if_splits)

text \<open>A history of registrations, oldest first.\<close>

definition alloc_all :: "(ClauseId \<times> ProofWitness \<times> ProofNodeId list) list \<Rightarrow> ProofArena \<Rightarrow> ProofArena" where
  "alloc_all es ar = fold (\<lambda>(cid, w, ps) ar. snd (arena_alloc cid w ps ar)) es ar"

lemma arena_get_alloc_all:
  "arena_ok ar \<Longrightarrow> arena_ok (alloc_all es ar) \<and>
     arena_get (alloc_all es ar) i =
       (case arena_get ar i of Some n \<Rightarrow> Some n
        | None \<Rightarrow> map_option (\<lambda>(cid, w, ps).
            \<lparr>pn_id = cid, pn_clause_id = cid, pn_witness = w, pn_parents = ps\<rparr>)
            (List.find (\<lambda>(cid, w, ps). cid = i) es))"
proof (induction es arbitrary: ar)
  case Nil
  then show ?case by (simp add: alloc_all_def split: option.split)
next
  case (Cons e es)
  obtain cid w ps where e: "e = (cid, w, ps)" by (cases e)
  let ?ar = "snd (arena_alloc cid w ps ar)"
  have "alloc_all (e # es) ar = alloc_all es ?ar" by (simp add: alloc_all_def e)
  then show ?case
    using Cons.IH [OF arena_alloc_ok [OF Cons.prems], of cid w ps]
    by (auto simp: arena_get_alloc [OF Cons.prems] e split: option.splits)
qed

subsection \<open>Properties\<close>

text \<open>
  Renaming the references of a witness visits exactly the references that
  \<open>parent_ids\<close> lists, in the same order and once per occurrence, and changes no other part
  of that list, whatever state the renaming function carries along.
\<close>

theorem map_parent_ids_visits_parents:
  "map_st f (parent_ids w) s = (parent_ids (fst (map_parent_ids f w s)), snd (map_parent_ids f w s))"
  by (rule parent_ids_map)

text \<open>
  The arena is append-only: after any history of registrations the node of a clause
  identifier is the one of its first registration, and an identifier never registered has
  none.
\<close>

theorem arena_keeps_first_derivation:
  "arena_get (alloc_all es new_arena) i =
     map_option (\<lambda>(cid, w, ps).
       \<lparr>pn_id = cid, pn_clause_id = cid, pn_witness = w, pn_parents = ps\<rparr>)
       (List.find (\<lambda>(cid, w, ps). cid = i) es)"
  using arena_get_alloc_all [OF new_arena_ok, of es i]
  by (simp add: arena_get_new)

end
