(* ===== verification/Clauses.thy ===== *)
theory Clauses
  imports Witness
begin

text \<open>
  Clauses, formula steps, clause identifiers and the digest input of AVATAR SAT traces,
  \<open>crates/mrs-core/src/clause.rs\<close>.
\<close>

datatype ClauseSource =
    Input string string
  | Inference string "ClauseId list"
  | Introduced SymbolId "ClauseId list"

record AvatarComponentRec =
  branch_index :: nat
  sat_var :: u32
  literal_indices :: "nat list"

record AvatarSatTrace =
  trace_format :: string
  trace_variables :: u32
  original_ids :: "64 word list"
  cited_indices :: "nat list"
  trace_clauses :: "32 word list list"
  trace_bytes :: "u8 list"
  digest :: "u8 list"

datatype ClauseCertificate =
    AvatarSplit "u32 list" "AvatarComponentRec list"
  | AvatarComponent ClauseId nat u32
  | AvatarBranchRefutation "u32 list"
  | AvatarSatRefutation "ClauseId list" "ClauseId list" "AvatarSatTrace option"
  | SatBackedRefutation "ClauseId list" "AvatarSatTrace option"

record Clause =
  clause_id :: ClauseId
  literals :: "Literal list"
  clause_source :: ClauseSource
  avatar :: "u32 list"
  distance :: u32
  formula :: "Formula option"
  certificate :: "ClauseCertificate option"
  proof_id :: "ProofNodeId option"
  witness :: "ProofWitness option"

definition new_clause :: "ClauseId \<Rightarrow> Literal list \<Rightarrow> ClauseSource \<Rightarrow> Clause" where
  "new_clause cid ls src = \<lparr>clause_id = cid, literals = ls, clause_source = src, avatar = [],
     distance = 1000, formula = None, certificate = None, proof_id = None, witness = None\<rparr>"

definition new_formula_step :: "ClauseId \<Rightarrow> Formula \<Rightarrow> ClauseSource \<Rightarrow> Clause" where
  "new_formula_step cid f src = \<lparr>clause_id = cid, literals = [], clause_source = src, avatar = [],
     distance = 1000, formula = Some f, certificate = None, proof_id = None, witness = None\<rparr>"

definition new_avatar :: "ClauseId \<Rightarrow> Literal list \<Rightarrow> ClauseSource \<Rightarrow> u32 list \<Rightarrow> Clause" where
  "new_avatar cid ls src av = \<lparr>clause_id = cid, literals = ls, clause_source = src,
     avatar = remdups_adj (sort av),
     distance = 1000, formula = None, certificate = None, proof_id = None, witness = None\<rparr>"

definition with_witness :: "ProofNodeId \<Rightarrow> ProofWitness \<Rightarrow> Clause \<Rightarrow> Clause" where
  "with_witness i w c = c\<lparr>proof_id := Some i, witness := Some w\<rparr>"

definition with_distance :: "u32 \<Rightarrow> Clause \<Rightarrow> Clause" where
  "with_distance d c = c\<lparr>distance := d\<rparr>"

text \<open>The two indices of the loop in \<open>avatar_is_subset_of\<close> walk through the two lists.\<close>

fun subset_loop :: "u32 list \<Rightarrow> u32 list \<Rightarrow> bool" where
  "subset_loop (x # xs) (y # ys) =
     (if x < y then False else if x = y then subset_loop xs ys else subset_loop (x # xs) ys)"
| "subset_loop xs ys = (xs = [])"

definition avatar_is_subset_of :: "Clause \<Rightarrow> Clause \<Rightarrow> bool" where
  "avatar_is_subset_of c d = subset_loop (avatar c) (avatar d)"

definition clause_is_empty :: "Clause \<Rightarrow> bool" where
  "clause_is_empty c = (formula c = None \<and> literals c = [])"

definition clause_len :: "Clause \<Rightarrow> nat" where
  "clause_len c = length (literals c)"

definition is_unit :: "Clause \<Rightarrow> bool" where
  "is_unit c = (length (literals c) = 1)"

definition clause_free_vars :: "Clause \<Rightarrow> VarId set" where
  "clause_free_vars c = fold lit_collect_vars (literals c) {}"

fun retain_new :: "Literal list \<Rightarrow> Literal list \<Rightarrow> Literal list" where
  "retain_new seen [] = []"
| "retain_new seen (l # ls) =
     (if l \<in> set seen then retain_new seen ls else l # retain_new (seen @ [l]) ls)"

definition deduplicate :: "Clause \<Rightarrow> Clause" where
  "deduplicate c = c\<lparr>literals := retain_new [] (literals c)\<rparr>"

fun complementary_pair :: "Literal list \<Rightarrow> bool" where
  "complementary_pair [] = False"
| "complementary_pair (l # ls) =
     (list_ex (\<lambda>m. positive l \<noteq> positive m \<and> atom l = atom m) ls \<or> complementary_pair ls)"

definition is_tautology :: "Clause \<Rightarrow> bool" where
  "is_tautology c =
     (list_ex (\<lambda>l. positive l \<and> (case atom l of Eq s t \<Rightarrow> s = t | _ \<Rightarrow> False)) (literals c) \<or>
      complementary_pair (literals c))"

subsection \<open>Formula steps\<close>

record FormulaStep =
  step_id :: ClauseId
  step_formula :: Formula
  step_source :: ClauseSource
  step_certificate :: "ClauseCertificate option"
  step_proof_id :: "ProofNodeId option"
  step_witness :: "ProofWitness option"

datatype NotAFormulaStepError = NotAFormulaStepError ClauseId

definition new_step :: "ClauseId \<Rightarrow> Formula \<Rightarrow> ClauseSource \<Rightarrow> FormulaStep" where
  "new_step cid f src = \<lparr>step_id = cid, step_formula = f, step_source = src,
     step_certificate = None, step_proof_id = None, step_witness = None\<rparr>"

definition step_try_from :: "Clause \<Rightarrow> NotAFormulaStepError + FormulaStep" where
  "step_try_from c = (case formula c of
       Some f \<Rightarrow> Inr \<lparr>step_id = clause_id c, step_formula = f, step_source = clause_source c,
         step_certificate = certificate c, step_proof_id = proof_id c, step_witness = witness c\<rparr>
     | None \<Rightarrow> Inl (NotAFormulaStepError (clause_id c)))"

definition clause_from_step :: "FormulaStep \<Rightarrow> Clause" where
  "clause_from_step s = \<lparr>clause_id = step_id s, literals = [], clause_source = step_source s,
     avatar = [], distance = 1000, formula = Some (step_formula s),
     certificate = step_certificate s, proof_id = step_proof_id s, witness = step_witness s\<rparr>"

subsection \<open>Clause identifiers\<close>

text \<open>
  A generator is its counter; clones of a generator share it, so the operations of all clones
  form one sequence. \<open>fetch_add\<close> wraps, \<open>reserve_at_least\<close> fails on the largest identifier.
\<close>

record ClauseIdGen =
  next_clause :: u64

definition new_gen :: ClauseIdGen where
  "new_gen = \<lparr>next_clause = 0\<rparr>"

definition fork :: "ClauseIdGen \<Rightarrow> ClauseIdGen" where
  "fork g = \<lparr>next_clause = next_clause g\<rparr>"

definition next_id :: "ClauseIdGen \<Rightarrow> ClauseId \<times> ClauseIdGen" where
  "next_id g = (next_clause g, g\<lparr>next_clause := next_clause g + 1\<rparr>)"

definition reserve_at_least :: "ClauseId \<Rightarrow> ClauseIdGen \<Rightarrow> bool \<times> ClauseIdGen" where
  "reserve_at_least bound g =
     (if bound = - 1 then (False, g)
      else (True, g\<lparr>next_clause := max (next_clause g) (bound + 1)\<rparr>))"

subsection \<open>The digest input of a SAT trace\<close>

fun le_bytes :: "nat \<Rightarrow> nat \<Rightarrow> u8 list" where
  "le_bytes 0 n = []"
| "le_bytes (Suc k) n = of_nat (n mod 256) # le_bytes k (n div 256)"

definition put_u64 :: "u8 list \<Rightarrow> nat \<Rightarrow> u8 list" where
  "put_u64 output n = output @ le_bytes 8 n"

definition str_bytes :: "string \<Rightarrow> u8 list" where
  "str_bytes s = map (\<lambda>c. of_nat (of_char c)) s"

definition avatar_sat_trace_digest_input :: "string \<Rightarrow> u32 \<Rightarrow> 64 word list \<Rightarrow> nat list
    \<Rightarrow> 32 word list list \<Rightarrow> u8 list \<Rightarrow> u8 list" where
  "avatar_sat_trace_digest_input fmt nvars ids cited clauses tr =
     (let out = str_bytes ''MRS-AVATAR-SAT-TRACE'' @ [0];
          out = put_u64 out (length fmt) @ str_bytes fmt @ le_bytes 4 (unat nvars);
          out = fold (\<lambda>i out. out @ le_bytes 8 (unat i)) ids (put_u64 out (length ids));
          out = fold (\<lambda>i out. put_u64 out i) cited (put_u64 out (length cited));
          out = fold (\<lambda>c out. fold (\<lambda>l out. out @ le_bytes 4 (unat l)) c (put_u64 out (length c)))
                  clauses (put_u64 out (length clauses))
      in put_u64 out (length tr) @ tr)"

text \<open>SHA-256 is a library function, the parameter \<open>sha256\<close>.\<close>

definition avatar_sat_trace_digest :: "(u8 list \<Rightarrow> u8 list) \<Rightarrow> string \<Rightarrow> u32 \<Rightarrow> 64 word list
    \<Rightarrow> nat list \<Rightarrow> 32 word list list \<Rightarrow> u8 list \<Rightarrow> u8 list" where
  "avatar_sat_trace_digest sha256 fmt nvars ids cited clauses tr =
     sha256 (avatar_sat_trace_digest_input fmt nvars ids cited clauses tr)"

subsection \<open>Literals of a clause\<close>

lemma retain_new_set: "set (retain_new seen ls) = set ls - set seen"
  by (induction seen ls rule: retain_new.induct) auto

lemma retain_new_distinct: "distinct (retain_new seen ls)"
  by (induction seen ls rule: retain_new.induct) (auto simp: retain_new_set)

lemma retain_new_fresh: "distinct ls \<Longrightarrow> set ls \<inter> set seen = {} \<Longrightarrow> retain_new seen ls = ls"
  by (induction seen ls rule: retain_new.induct) auto

lemma lits_hold_cong_set: "set ls = set ms \<Longrightarrow> lits_hold I \<rho> ls = lits_hold I \<rho> ms"
  by (simp add: lits_hold_def)

lemma complementary_pair_iff:
  "complementary_pair ls \<longleftrightarrow>
     (\<exists>l \<in> set ls. \<exists>m \<in> set ls. positive l \<noteq> positive m \<and> atom l = atom m)"
  by (induction ls) (auto simp: list_ex_iff)

lemma eq_refl_iff: "(case a of Eq s t \<Rightarrow> s = t | _ \<Rightarrow> False) \<longleftrightarrow> (\<exists>t. a = Eq t t)"
  by (cases a) auto

lemma is_tautology_iff:
  "is_tautology c \<longleftrightarrow>
     (\<exists>l \<in> set (literals c). positive l \<and> (\<exists>t. atom l = Eq t t)) \<or>
     (\<exists>l \<in> set (literals c). \<exists>m \<in> set (literals c). positive l \<noteq> positive m \<and> atom l = atom m)"
  by (simp only: is_tautology_def complementary_pair_iff list_ex_iff eq_refl_iff)

lemma tautology_valid: "is_tautology c \<Longrightarrow> lits_hold I \<rho> (literals c)"
proof -
  assume "is_tautology c"
  then consider l where "l \<in> set (literals c)" "positive l" "\<exists>t. atom l = Eq t t"
    | l m where "l \<in> set (literals c)" "m \<in> set (literals c)" "positive l \<noteq> positive m" "atom l = atom m"
    unfolding is_tautology_iff by blast
  then show ?thesis
  proof cases
    case 1
    then have "lval I \<rho> l" by (auto simp: lval_def)
    then show ?thesis using 1 by (auto simp: lits_hold_def)
  next
    case 2
    then have "lval I \<rho> l \<or> lval I \<rho> m" by (auto simp: lval_def)
    then show ?thesis using 2 by (auto simp: lits_hold_def)
  qed
qed

text \<open>
  The term structure in which exactly the atoms of negative literals hold falsifies a clause
  that is not a tautology and has no negative equation.
\<close>

definition refuting :: "Literal list \<Rightarrow> Term interp" where
  "refuting ls = \<lparr>ifun = App,
     ipred = \<lambda>p args. \<exists>l \<in> set ls. \<not> positive l \<and> atom l = Pred p args\<rparr>"

lemma tval_refuting [simp]: "tval (refuting ls) Var t = t"
  by (induction t) (auto simp: refuting_def map_idI)

lemma refuting_falsifies:
  assumes "\<not> is_tautology c" "\<forall>l \<in> set (literals c). \<forall>s t. atom l = Eq s t \<longrightarrow> positive l"
  shows "\<not> lits_hold (refuting (literals c)) Var (literals c)"
proof
  assume "lits_hold (refuting (literals c)) Var (literals c)"
  then obtain l where l: "l \<in> set (literals c)" "lval (refuting (literals c)) Var l"
    by (auto simp: lits_hold_def)
  show False
  proof (cases "atom l")
    case (Pred p args)
    then have "positive l \<longleftrightarrow> (\<exists>m \<in> set (literals c). \<not> positive m \<and> atom m = atom l)"
      using l(2) by (simp add: lval_def map_idI refuting_def [of "literals c"] del: tval_refuting)
        (simp add: map_idI refuting_def [symmetric] cong: map_cong)
    then show ?thesis using assms(1) l(1) by (auto simp: is_tautology_iff)
  next
    case (Eq s t)
    then have "positive l" "s = t" using assms(2) l by (auto simp: lval_def)
    then show ?thesis using assms(1) l(1) Eq by (auto simp: is_tautology_iff)
  qed
qed

subsection \<open>Assertions\<close>

lemma subset_loop_iff:
  "sorted_wrt (<) xs \<Longrightarrow> sorted_wrt (<) ys \<Longrightarrow> subset_loop xs ys \<longleftrightarrow> set xs \<subseteq> set ys"
proof (induction xs ys rule: subset_loop.induct)
  case hyp: (1 x xs y ys)
  have "x \<notin> set (y # ys)" if "x < y" using hyp.prems(2) that by auto
  moreover have "y \<notin> set xs" if "x \<le> y" "y < x \<or> x = y" using hyp.prems(1) that by auto
  moreover have "y \<notin> set (x # xs)" if "y < x" using hyp.prems(1) that by auto
  ultimately show ?case using hyp by (cases x y rule: linorder_cases) auto
qed auto

lemma remdups_adj_strict: "sorted xs \<Longrightarrow> sorted_wrt (<) (remdups_adj xs)" for xs :: "'a :: linorder list"
  by (induction xs rule: remdups_adj.induct) (auto simp: order_less_le)

lemma new_avatar_sorted: "sorted_wrt (<) (avatar (new_avatar cid ls src av))"
  by (simp add: new_avatar_def remdups_adj_strict)

subsection \<open>The encoding of a trace\<close>

text \<open>\<open>prefix_code P enc\<close>: what follows an encoded value can be told apart from it.\<close>

definition prefix_code :: "('a \<Rightarrow> bool) \<Rightarrow> ('a \<Rightarrow> u8 list) \<Rightarrow> bool" where
  "prefix_code P enc \<longleftrightarrow>
     (\<forall>x y xs ys. P x \<longrightarrow> P y \<longrightarrow> enc x @ xs = enc y @ ys \<longrightarrow> x = y \<and> xs = ys)"

lemma prefix_codeD:
  "prefix_code P enc \<Longrightarrow> enc x @ xs = enc y @ ys \<Longrightarrow> P x \<Longrightarrow> P y \<Longrightarrow> x = y \<and> xs = ys"
  unfolding prefix_code_def by blast

lemma length_le_bytes [simp]: "length (le_bytes k n) = k"
  by (induction k n rule: le_bytes.induct) auto

lemma le_bytes_inject: "le_bytes k n = le_bytes k m \<Longrightarrow> n < 256 ^ k \<Longrightarrow> m < 256 ^ k \<Longrightarrow> n = m"
proof (induction k arbitrary: n m)
  case (Suc k)
  have "of_nat (n mod 256) = (of_nat (m mod 256) :: u8)" using Suc.prems(1) by simp
  then have "unat (of_nat (n mod 256) :: u8) = unat (of_nat (m mod 256) :: u8)" by simp
  then have "n mod 256 = m mod 256" by (simp add: unat_of_nat take_bit_eq_mod)
  moreover have "n div 256 = m div 256"
    using Suc.prems by (intro Suc.IH) (simp_all add: less_mult_imp_div_less mult.commute)
  ultimately show ?case by (metis mod_mult_div_eq)
qed auto

lemma le_bytes_code: "prefix_code (\<lambda>n. n < 256 ^ k) (le_bytes k)"
  by (simp add: prefix_code_def le_bytes_inject)

lemma word64_code: "prefix_code (\<lambda>_. True) (\<lambda>w :: 64 word. le_bytes 8 (unat w))"
  unfolding prefix_code_def
proof (intro allI impI)
  fix x y :: "64 word" and xs ys
  assume eq: "le_bytes 8 (unat x) @ xs = le_bytes 8 (unat y) @ ys"
  have "unat x = unat y \<and> xs = ys"
    by (rule prefix_codeD [OF le_bytes_code eq])
      (use unsigned_less [of x] unsigned_less [of y] in simp_all)
  then show "x = y \<and> xs = ys" by (auto intro: unsigned_word_eqI)
qed

lemma word32_code: "prefix_code (\<lambda>_. True) (\<lambda>w :: 32 word. le_bytes 4 (unat w))"
  unfolding prefix_code_def
proof (intro allI impI)
  fix x y :: "32 word" and xs ys
  assume eq: "le_bytes 4 (unat x) @ xs = le_bytes 4 (unat y) @ ys"
  have "unat x = unat y \<and> xs = ys"
    by (rule prefix_codeD [OF le_bytes_code eq]) simp_all
  then show "x = y \<and> xs = ys" by (auto intro: unsigned_word_eqI)
qed

lemma byte_of_char_inject: "(of_nat (of_char c) :: u8) = of_nat (of_char d) \<Longrightarrow> c = d"
proof -
  assume "(of_nat (of_char c) :: u8) = of_nat (of_char d)"
  then have "unat (of_nat (of_char c) :: u8) = unat (of_nat (of_char d) :: u8)" by simp
  then have "(of_char c :: nat) = of_char d"
    by (simp add: unat_of_nat take_bit_eq_mod)
  then show ?thesis by simp
qed

lemma concat_code:
  assumes "prefix_code P enc"
  shows "length xs = length ys \<Longrightarrow> \<forall>x \<in> set xs. P x \<Longrightarrow> \<forall>y \<in> set ys. P y \<Longrightarrow>
    concat (map enc xs) @ us = concat (map enc ys) @ vs \<Longrightarrow> xs = ys \<and> us = vs"
proof (induction xs ys rule: list_induct2)
  case (Cons x xs y ys)
  then show ?case using prefix_codeD [OF assms, of x "concat (map enc xs) @ us" y "concat (map enc ys) @ vs"]
    by simp
qed simp

definition enc_list :: "('a \<Rightarrow> u8 list) \<Rightarrow> 'a list \<Rightarrow> u8 list" where
  "enc_list enc xs = le_bytes 8 (length xs) @ concat (map enc xs)"

lemma enc_list_code:
  assumes "prefix_code P enc"
  shows "prefix_code (\<lambda>xs. length xs < 2 ^ 64 \<and> (\<forall>x \<in> set xs. P x)) (enc_list enc)"
  unfolding prefix_code_def
proof (intro allI impI)
  fix xs ys us vs
  assume h: "length xs < 2 ^ 64 \<and> (\<forall>x \<in> set xs. P x)" "length ys < 2 ^ 64 \<and> (\<forall>x \<in> set ys. P x)"
    and eq: "enc_list enc xs @ us = enc_list enc ys @ vs"
  have "length xs = length ys \<and> concat (map enc xs) @ us = concat (map enc ys) @ vs"
    by (rule prefix_codeD [OF le_bytes_code [of 8]]) (use h eq in \<open>simp_all add: enc_list_def\<close>)
  then show "xs = ys \<and> us = vs" using h by (intro concat_code [OF assms]) auto
qed

lemma fold_append_map: "fold (\<lambda>x out. out @ g x) xs out = out @ concat (map g xs)"
  by (induction xs arbitrary: out) auto

lemma digest_input_eq:
  "avatar_sat_trace_digest_input fmt nvars ids cited clauses tr =
     str_bytes ''MRS-AVATAR-SAT-TRACE'' @ [0] @ enc_list (\<lambda>c. [of_nat (of_char c)]) fmt @
     le_bytes 4 (unat nvars) @ enc_list (\<lambda>i. le_bytes 8 (unat i)) ids @ enc_list (le_bytes 8) cited @
     enc_list (enc_list (\<lambda>l. le_bytes 4 (unat l))) clauses @ enc_list (\<lambda>b. [b]) tr"
proof -
  have "(\<lambda>(c :: 32 word list) out. fold (\<lambda>l out. out @ le_bytes 4 (unat l)) c (put_u64 out (length c)))
      = (\<lambda>c out. out @ enc_list (\<lambda>l. le_bytes 4 (unat l)) c)"
    by (simp add: fun_eq_iff fold_append_map put_u64_def enc_list_def)
  then show ?thesis
    by (simp add: avatar_sat_trace_digest_input_def Let_def fold_append_map put_u64_def enc_list_def
        str_bytes_def concat_map_singleton cong: map_cong)
qed

subsection \<open>Histories of generators\<close>

text \<open>
  The counters are shared cells: a clone of a generator holds the cell of the original, so a cell
  stands for all its clones, and \<open>fork\<close> allocates a new cell. \<open>gen_history g es cells\<close>: the calls \<open>es\<close>, latest
  first and in any interleaving, lead from the single generator \<open>g\<close> to \<open>cells\<close>. Every call is possible
  in every state; \<open>next\<close> wraps at the end of the range.
\<close>

datatype gen_event = Handed nat ClauseId | Reserved nat ClauseId bool | Forked nat nat

inductive gen_history :: "ClauseIdGen \<Rightarrow> gen_event list \<Rightarrow> ClauseIdGen list \<Rightarrow> bool" for g where
  start: "gen_history g [] [g]"
| handed: "gen_history g es cells \<Longrightarrow> a < length cells \<Longrightarrow> next_id (cells ! a) = (i, g') \<Longrightarrow>
    gen_history g (Handed a i # es) (cells[a := g'])"
| reserved: "gen_history g es cells \<Longrightarrow> a < length cells \<Longrightarrow> reserve_at_least b (cells ! a) = (ok, g') \<Longrightarrow>
    gen_history g (Reserved a b ok # es) (cells[a := g'])"
| forked: "gen_history g es cells \<Longrightarrow> a < length cells \<Longrightarrow>
    gen_history g (Forked a (length cells) # es) (cells @ [fork (cells ! a)])"

text \<open>
  The line of a cell: what it and, before the fork that made it, its ancestors handed out, latest first;
  and the floors they reserved.
\<close>

fun line_ids :: "gen_event list \<Rightarrow> nat \<Rightarrow> ClauseId list" where
  "line_ids [] a = []"
| "line_ids (Handed c i # es) a = (if c = a then i # line_ids es a else line_ids es a)"
| "line_ids (Reserved c b ok # es) a = line_ids es a"
| "line_ids (Forked p c # es) a = (if c = a then line_ids es p else line_ids es a)"

fun line_floors :: "gen_event list \<Rightarrow> nat \<Rightarrow> ClauseId set" where
  "line_floors [] a = {}"
| "line_floors (Handed c i # es) a = line_floors es a"
| "line_floors (Reserved c b ok # es) a = (if c = a \<and> ok then insert b (line_floors es a) else line_floors es a)"
| "line_floors (Forked p c # es) a = (if c = a then line_floors es p else line_floors es a)"

lemma word_less_plus1: "x \<noteq> - 1 \<Longrightarrow> x < x + 1" for x :: u64
proof -
  assume "x \<noteq> - 1"
  then have "unat x \<noteq> unat (- 1 :: u64)" using unsigned_word_eqI by blast
  then have "unat x \<noteq> 18446744073709551615"
    by (simp add: unsigned_minus_1_eq_mask mask_eq_exp_minus_1)
  then have "unat x + 1 < 18446744073709551616" using unat_u64_less [of x] by linarith
  then have "unat (x + 1) = unat x + 1" by (subst unat_add_lem [THEN iffD1]) simp_all
  then show ?thesis by (simp add: word_less_nat_alt)
qed

definition above_line :: "ClauseIdGen \<Rightarrow> ClauseId list \<Rightarrow> ClauseId set \<Rightarrow> ClauseIdGen \<Rightarrow> bool" where
  "above_line g xs bs h \<longleftrightarrow> sorted_wrt (>) xs \<and> next_clause g \<le> next_clause h \<and>
     (\<forall>i \<in> set xs. next_clause g \<le> i \<and> i < next_clause h) \<and> (\<forall>b \<in> bs. b < next_clause h)"

lemma above_line_next:
  assumes "above_line g xs bs h" "next_id h = (i, h')" "i \<noteq> - 1"
  shows "above_line g (i # xs) bs h'"
proof -
  have "i = next_clause h" "i < next_clause h'" using assms(2,3) by (auto simp: next_id_def word_less_plus1)
  then show ?thesis using assms(1) unfolding above_line_def by force
qed

lemma above_line_reserve:
  assumes "above_line g xs bs h" "reserve_at_least b h = (ok, h')"
  shows "above_line g xs (if ok then insert b bs else bs) h'"
proof (cases ok)
  case True
  then have b: "b \<noteq> - 1" "next_clause h' = max (next_clause h) (b + 1)"
    using assms(2) by (auto simp: reserve_at_least_def split: if_splits)
  then have "b < next_clause h'" using word_less_plus1 [of b] by (auto simp: less_max_iff_disj)
  then show ?thesis using assms(1) b(2) True unfolding above_line_def by (force simp: le_max_iff_disj less_max_iff_disj)
next
  case False
  then have "h' = h" using assms(2) by (auto simp: reserve_at_least_def split: if_splits)
  then show ?thesis using assms(1) False by simp
qed

lemma gen_history_above:
  "gen_history g es cells \<Longrightarrow> a < length cells \<Longrightarrow> - 1 \<notin> set (line_ids es a) \<Longrightarrow>
     above_line g (line_ids es a) (line_floors es a) (cells ! a)"
proof (induction arbitrary: a rule: gen_history.induct)
  case start
  then show ?case by (simp add: above_line_def)
next
  case (handed es cells c i g')
  show ?case
  proof (cases "c = a")
    case True
    then have "above_line g (line_ids es a) (line_floors es a) (cells ! a)" "i \<noteq> - 1" using handed by auto
    then show ?thesis using True handed.hyps(2,3) above_line_next by simp
  qed (use handed in simp)
next
  case (reserved es cells c b ok g')
  show ?case
  proof (cases "c = a")
    case True
    then have "above_line g (line_ids es a) (line_floors es a) (cells ! a)" using reserved by auto
    then show ?thesis using True reserved.hyps(2,3) above_line_reserve by fastforce
  qed (use reserved in simp)
next
  case (forked es cells p)
  show ?case
  proof (cases "a = length cells")
    case True
    then have "above_line g (line_ids es p) (line_floors es p) (cells ! p)" using forked by auto
    then show ?thesis using True by (simp add: nth_append fork_def above_line_def)
  next
    case False
    then have "a < length cells" using forked.prems(1) by simp
    then show ?thesis using False forked by (simp add: nth_append)
  qed
qed

subsection \<open>Properties\<close>

text \<open>
  The tautology test is sound, and it is complete for clauses whose equations are
  positive: it answers yes exactly when every structure and valuation makes the clause true.
\<close>

theorem is_tautology_exact:
  assumes "\<forall>l \<in> set (literals c). \<forall>s t. atom l = Eq s t \<longrightarrow> positive l"
  shows "is_tautology c \<longleftrightarrow> (\<forall>(I :: Term interp) \<rho>. lits_hold I \<rho> (literals c))"
  using tautology_valid refuting_falsifies [OF _ assms] by metis

theorem is_tautology_exact_witness:
  "is_tautology (new_clause 0 [lit_pos (Pred 1 []), lit_neg (Pred 2 []), lit_pos (Eq (Var 0) (Var 0))]
      (Inference ''x'' []))
   \<longleftrightarrow> (\<forall>(I :: Term interp) \<rho>. lits_hold I \<rho> (literals
      (new_clause 0 [lit_pos (Pred 1 []), lit_neg (Pred 2 []), lit_pos (Eq (Var 0) (Var 0))]
        (Inference ''x'' []))))"
  by (rule is_tautology_exact) (simp add: new_clause_def lit_pos_def lit_neg_def)

text \<open>
  On clauses built by \<open>new_avatar\<close>, which sorts the assertions and removes duplicates,
  the merge loop of \<open>avatar_is_subset_of\<close> decides inclusion of the two sets of assertions.
\<close>

theorem avatar_subset_decided:
  "avatar_is_subset_of (new_avatar i ls src av) (new_avatar j ms src' bv) \<longleftrightarrow> set av \<subseteq> set bv"
  using subset_loop_iff [OF new_avatar_sorted [of i ls src av] new_avatar_sorted [of j ms src' bv]]
  by (simp add: avatar_is_subset_of_def new_avatar_def)

text \<open>
  C24. Identifiers are unique along the line of a generator, in any history of calls to \<open>next\<close>,
  \<open>reserve_at_least\<close> and \<open>fork\<close> on any number of generators: what a generator (with its clones) and, before
  the fork that made it, its ancestors handed out is strictly increasing, and what it hands out next lies
  above all of it and above every floor reserved on the line, as long as the largest 64-bit number was
  not handed out on the line, after which the counter starts again at zero. Nothing is claimed between
  a fork and its siblings or its parent: a fork hands out next what its parent does.
\<close>

theorem clause_ids_unique:
  assumes "gen_history g es cells" "a < length cells" "- 1 \<notin> set (line_ids es a)"
  shows "sorted_wrt (>) (line_ids es a) \<and> distinct (line_ids es a) \<and>
    (\<forall>i \<in> set (line_ids es a). next_clause g \<le> i \<and> i < fst (next_id (cells ! a))) \<and>
    (\<forall>b \<in> line_floors es a. b < fst (next_id (cells ! a))) \<and>
    fst (next_id (fork (cells ! a))) = fst (next_id (cells ! a))"
proof -
  have "above_line g (line_ids es a) (line_floors es a) (cells ! a)" by (rule gen_history_above [OF assms])
  moreover have "distinct xs" if "sorted_wrt (>) xs" for xs :: "ClauseId list" using that by (induction xs) auto
  ultimately show ?thesis by (simp add: above_line_def next_id_def fork_def)
qed

text \<open>
  Two forks of a generator that handed out 0 are used side by side: the first hands out 1 and 2, the second
  reserves up to 7 and hands out 8, and the parent hands out 1 again.
\<close>

definition forked_run :: "gen_event list" where
  "forked_run = [Handed 0 1, Handed 2 8, Reserved 2 7 True, Handed 1 2, Handed 1 1, Forked 0 2, Forked 0 1, Handed 0 0]"

lemma forked_run_history:
  "gen_history new_gen forked_run [\<lparr>next_clause = 2\<rparr>, \<lparr>next_clause = 3\<rparr>, \<lparr>next_clause = 9\<rparr>]"
proof -
  let ?g = "\<lambda>n. \<lparr>next_clause = n\<rparr>"
  have "gen_history new_gen [Handed 0 0] [?g 1]"
    using handed [OF start [of new_gen], of 0 0 "?g 1"] by (simp add: new_gen_def next_id_def)
  from forked [OF forked [OF this, of 0], of 0] have "gen_history new_gen [Forked 0 2, Forked 0 1, Handed 0 0] [?g 1, ?g 1, ?g 1]"
    by (simp add: fork_def numeral_2_eq_2)
  from handed [OF handed [OF this, of 1 1 "?g 2"], of 1 2 "?g 3"]
  have "gen_history new_gen [Handed 1 2, Handed 1 1, Forked 0 2, Forked 0 1, Handed 0 0] [?g 1, ?g 3, ?g 1]"
    by (simp add: next_id_def)
  from handed [OF reserved [OF this, of 2 7 True "?g 8"], of 2 8 "?g 9"]
  have "gen_history new_gen [Handed 2 8, Reserved 2 7 True, Handed 1 2, Handed 1 1, Forked 0 2, Forked 0 1, Handed 0 0] [?g 1, ?g 3, ?g 9]"
    by (simp add: next_id_def reserve_at_least_def max_def)
  from handed [OF this, of 0 1 "?g 2"] show ?thesis by (simp add: next_id_def forked_run_def)
qed

theorem clause_ids_unique_witness:
  "line_ids forked_run 2 = [8, 0] \<and> distinct (line_ids forked_run 2) \<and> line_floors forked_run 2 = {7} \<and> (7 :: ClauseId) < 9 \<and>
   line_ids forked_run 0 = [1, 0] \<and> line_ids forked_run 1 = [2, 1, 0]"
proof -
  have l: "line_ids forked_run 2 = [8, 0]" "line_ids forked_run 0 = [1, 0]" "line_ids forked_run 1 = [2, 1, 0]"
    by (simp_all add: forked_run_def)
  then have "- 1 \<notin> set (line_ids forked_run 2)" by simp
  moreover have f: "line_floors forked_run 2 = {7}" by (simp add: forked_run_def)
  ultimately show ?thesis using clause_ids_unique [OF forked_run_history, of 2] l by (simp add: next_id_def)
qed

definition manifest_fits :: "string \<Rightarrow> 64 word list \<Rightarrow> nat list \<Rightarrow> 32 word list list \<Rightarrow> u8 list \<Rightarrow> bool" where
  "manifest_fits fmt ids cited clauses tr \<longleftrightarrow>
     length fmt < 2 ^ 64 \<and> length ids < 2 ^ 64 \<and> length cited < 2 ^ 64 \<and> length clauses < 2 ^ 64 \<and>
     length tr < 2 ^ 64 \<and> (\<forall>i \<in> set cited. i < 2 ^ 64) \<and> (\<forall>c \<in> set clauses. length c < 2 ^ 64)"

text \<open>
  C25. The digest input determines the manifest: two traces whose variable-length fields have
  fewer than \<open>2 ^ 64\<close> entries, and whose indices fit in 64 bits, are hashed over the same bytes
  only if all their fields are equal.
\<close>

theorem digest_input_injective:
  assumes "manifest_fits fmt ids cited clauses tr" "manifest_fits fmt' ids' cited' clauses' tr'"
    and "avatar_sat_trace_digest_input fmt nvars ids cited clauses tr =
      avatar_sat_trace_digest_input fmt' nvars' ids' cited' clauses' tr'"
  shows "fmt = fmt' \<and> nvars = nvars' \<and> ids = ids' \<and> cited = cited' \<and> clauses = clauses' \<and> tr = tr'"
proof -
  have char_code: "prefix_code (\<lambda>_. True) (\<lambda>c :: char. [of_nat (of_char c) :: u8])"
    unfolding prefix_code_def by (auto dest: byte_of_char_inject)
  have byte_code: "prefix_code (\<lambda>_. True) (\<lambda>b :: u8. [b])"
    unfolding prefix_code_def by simp
  have fit: "length fmt < 2 ^ 64 \<and> (\<forall>x \<in> set fmt. True)" "length fmt' < 2 ^ 64 \<and> (\<forall>x \<in> set fmt'. True)"
    "length ids < 2 ^ 64 \<and> (\<forall>x \<in> set ids. True)" "length ids' < 2 ^ 64 \<and> (\<forall>x \<in> set ids'. True)"
    "length cited < 2 ^ 64 \<and> (\<forall>x \<in> set cited. x < 256 ^ 8)"
    "length cited' < 2 ^ 64 \<and> (\<forall>x \<in> set cited'. x < 256 ^ 8)"
    "length clauses < 2 ^ 64 \<and> (\<forall>x \<in> set clauses. length x < 2 ^ 64 \<and> (\<forall>l \<in> set x. True))"
    "length clauses' < 2 ^ 64 \<and> (\<forall>x \<in> set clauses'. length x < 2 ^ 64 \<and> (\<forall>l \<in> set x. True))"
    "length (tr @ []) < 2 ^ 64 \<and> (\<forall>x \<in> set tr. True)" "length tr' < 2 ^ 64 \<and> (\<forall>x \<in> set tr'. True)"
    using assms(1,2) by (simp_all add: manifest_fits_def)
  note code = enc_list_code [OF char_code] word32_code enc_list_code [OF word64_code]
    enc_list_code [OF le_bytes_code] enc_list_code [OF enc_list_code [OF word32_code]]
    enc_list_code [OF byte_code]
  note eq = assms(3) [unfolded digest_input_eq same_append_eq]
  note s1 = prefix_codeD [OF code(1) eq fit(1,2)]
  note s2 = prefix_codeD [OF code(2) conjunct2 [OF s1] TrueI TrueI]
  note s3 = prefix_codeD [OF code(3) conjunct2 [OF s2] fit(3,4)]
  note s4 = prefix_codeD [OF code(4) conjunct2 [OF s3] fit(5,6)]
  note s5 = prefix_codeD [OF code(5) conjunct2 [OF s4] fit(7,8)]
  have "tr = tr' \<and> [] = ([] :: u8 list)"
    by (rule prefix_codeD [OF code(6)]) (use s5 fit(9,10) in simp_all)
  then show ?thesis using s1 s2 s3 s4 s5 by blast
qed

theorem digest_input_injective_witness:
  "''lrat'' = ''lrat'' \<and> (3 :: u32) = 3 \<and> [1, 2 :: 64 word] = [1, 2] \<and> [0 :: nat] = [0] \<and>
   [[1, -2 :: 32 word], []] = [[1, -2], []] \<and> [9 :: u8] = [9]"
  by (rule digest_input_injective [of "''lrat''" "[1, 2]" "[0]" "[[1, -2], []]" "[9]"
        "''lrat''" "[1, 2]" "[0]" "[[1, -2], []]" "[9]"]) (simp_all add: manifest_fits_def)

end
