(* ===== verification/Interner.thy ===== *)
theory Interner
  imports Prelude
begin

text \<open>
  The contract of an interning table with 32-bit identifiers: what the symbol table and the
  term bank promise their clients. \<open>put\<close> enters a key and returns its identifier, \<open>get\<close> reads
  an identifier back, \<open>ok\<close> is the invariant, \<open>used\<close> the number of entries and \<open>admissible\<close>
  says which keys may be entered.
\<close>

locale interner =
  fixes put :: "'k \<Rightarrow> 's \<Rightarrow> 'i \<times> 's"
    and get :: "'i \<Rightarrow> 's \<Rightarrow> 'k option"
    and ok :: "'s \<Rightarrow> bool"
    and used :: "'s \<Rightarrow> nat"
    and admissible :: "'s \<Rightarrow> 'k \<Rightarrow> bool"
  assumes put_ok: "ok s \<Longrightarrow> admissible s k \<Longrightarrow> used s < 2 ^ 32 \<Longrightarrow> ok (snd (put k s))"
    and put_used: "used (snd (put k s)) \<le> Suc (used s)"
    and get_put: "ok s \<Longrightarrow> admissible s k \<Longrightarrow> used s < 2 ^ 32 \<Longrightarrow> get (fst (put k s)) (snd (put k s)) = Some k"
    and put_keeps: "get i s = Some k' \<Longrightarrow> get i (snd (put k s)) = Some k'"
    and put_admissible: "admissible s k' \<Longrightarrow> admissible (snd (put k s)) k'"
    and get_inject: "ok s \<Longrightarrow> get i s = Some k \<Longrightarrow> get j s = Some k \<Longrightarrow> i = j"
begin

text \<open>Entering a list of keys from left to right.\<close>

lemma put_all:
  "ok s \<Longrightarrow> \<forall>k \<in> set ks. admissible s k \<Longrightarrow> used s + length ks \<le> 2 ^ 32 \<Longrightarrow> map_st put ks s = (ids, s') \<Longrightarrow>
     ok s' \<and> used s' \<le> used s + length ks \<and> length ids = length ks \<and>
     (\<forall>n < length ks. get (ids ! n) s' = Some (ks ! n)) \<and>
     (\<forall>i k. get i s = Some k \<longrightarrow> get i s' = Some k)"
proof (induction ks arbitrary: s ids s')
  case Nil
  then show ?case by simp
next
  case (Cons k ks)
  obtain i s1 where 1: "put k s = (i, s1)" by fastforce
  obtain js s2 where 2: "map_st put ks s1 = (js, s2)" by fastforce
  have eq: "ids = i # js" "s' = s2" using Cons.prems(4) 1 2 by simp_all
  have s1: "ok s1" "get i s1 = Some k" "used s1 \<le> Suc (used s)"
    using put_ok [of s k] get_put [of s k] put_used [of k s] Cons.prems(1-3) 1 by simp_all
  have adm: "\<forall>k \<in> set ks. admissible s1 k"
    using put_admissible [of s _ k] Cons.prems(2) 1 by simp
  have IH: "ok s2 \<and> used s2 \<le> used s1 + length ks \<and> length js = length ks \<and>
     (\<forall>n < length ks. get (js ! n) s2 = Some (ks ! n)) \<and>
     (\<forall>i k. get i s1 = Some k \<longrightarrow> get i s2 = Some k)"
    using Cons.IH [OF s1(1) adm _ 2] s1(3) Cons.prems(3) by simp
  have "get i s2 = Some k" using IH s1(2) by blast
  moreover have "\<forall>i k. get i s = Some k \<longrightarrow> get i s2 = Some k"
    using IH put_keeps [of _ s _ k] 1 by simp
  ultimately show ?case using IH s1(3) unfolding eq by (auto simp: nth_Cons split: nat.split)
qed

text \<open>Identifiers of a list of keys are equal exactly where the keys are.\<close>

lemma put_all_ids:
  assumes "ok s" "\<forall>k \<in> set ks. admissible s k" "used s + length ks \<le> 2 ^ 32"
    "map_st put ks s = (ids, s')" "m < length ks" "n < length ks"
  shows "ids ! m = ids ! n \<longleftrightarrow> ks ! m = ks ! n"
proof
  note all = put_all [OF assms(1-4)]
  show "ids ! m = ids ! n" if "ks ! m = ks ! n"
    using get_inject [of s' "ids ! m" "ks ! m" "ids ! n"] all assms(5,6) that by simp
  show "ks ! m = ks ! n" if "ids ! m = ids ! n"
    using all assms(5,6) that by (metis option.inject)
qed

end

end
