(* ===== verification/TermBank.thy ===== *)
theory TermBank
  imports Clauses Interner
begin

text \<open>
  The hash-consing term bank, clauses over term identifiers and substitutions that map
  variables to identifiers, \<open>crates/mrs-core/src/term_bank.rs\<close>. The constructors \<open>Var\<close> and
  \<open>App\<close> of a node are \<open>NVar\<close> and \<open>NApp\<close>, those of an \<open>IdAtom\<close> are \<open>IdPred\<close> and \<open>IdEq\<close>. An
  operation that walks the bank is \<open>None\<close> where an index is out of range or where the walk
  does not end.
\<close>

type_synonym TermId = u32

datatype TermNode = NVar VarId | NApp SymbolId "TermId list"

datatype IdAtom = IdPred SymbolId "TermId list" | IdEq TermId TermId

record IdLiteral =
  id_positive :: bool
  id_atom :: IdAtom

record IdClause =
  idc_id :: ClauseId
  idc_literals :: "IdLiteral list"
  idc_source :: ClauseSource
  idc_avatar :: "u32 list"
  idc_distance :: u32
  idc_formula :: "Formula option"
  idc_certificate :: "ClauseCertificate option"
  idc_proof_id :: "ProofNodeId option"
  idc_witness :: "ProofWitness option"

datatype MaxVarMemo = Unknown | NoVar | MaxVar VarId

record TermBank =
  nodes :: "TermNode list"
  dedup :: "(TermNode, TermId) fmap"
  max_var_memo :: "MaxVarMemo list"

definition new_bank :: TermBank where
  "new_bank = \<lparr>nodes = [], dedup = fmempty, max_var_memo = []\<rparr>"

definition bank_len :: "TermBank \<Rightarrow> nat" where
  "bank_len bank = length (nodes bank)"

definition intern_var :: "VarId \<Rightarrow> TermBank \<Rightarrow> TermId \<times> TermBank" where
  "intern_var v bank = (case fmlookup (dedup bank) (NVar v) of
       Some i \<Rightarrow> (i, bank)
     | None \<Rightarrow> let i = of_nat (length (nodes bank)) in
         (i, bank\<lparr>nodes := nodes bank @ [NVar v], dedup := fmupd (NVar v) i (dedup bank)\<rparr>))"

definition intern_app :: "SymbolId \<Rightarrow> TermId list \<Rightarrow> TermBank \<Rightarrow> TermId \<times> TermBank" where
  "intern_app f args bank = (case fmlookup (dedup bank) (NApp f args) of
       Some i \<Rightarrow> (i, bank)
     | None \<Rightarrow> let i = of_nat (length (nodes bank)) in
         (i, bank\<lparr>nodes := nodes bank @ [NApp f args], dedup := fmupd (NApp f args) i (dedup bank)\<rparr>))"

definition node_at :: "TermBank \<Rightarrow> TermId \<Rightarrow> TermNode option" where
  "node_at bank i = (if unat i < length (nodes bank) then Some (nodes bank ! unat i) else None)"

subsection \<open>Variables of an interned term\<close>

partial_function (option) id_collect_vars :: "TermBank \<Rightarrow> TermId \<Rightarrow> VarId set \<Rightarrow> VarId set option" where
  "id_collect_vars bank i vs = do {
     node \<leftarrow> node_at bank i;
     case node of
       NVar v \<Rightarrow> Some (insert v vs)
     | NApp f args \<Rightarrow> foldM (\<lambda>arg vs. id_collect_vars bank arg vs) args vs }"

fun id_atom_collect_vars :: "TermBank \<Rightarrow> IdAtom \<Rightarrow> VarId set \<Rightarrow> VarId set option" where
  "id_atom_collect_vars bank (IdPred p args) vs = foldM (id_collect_vars bank) args vs"
| "id_atom_collect_vars bank (IdEq l r) vs = do {
     vs \<leftarrow> id_collect_vars bank l vs;
     id_collect_vars bank r vs }"

definition id_literal_collect_vars :: "TermBank \<Rightarrow> IdLiteral \<Rightarrow> VarId set \<Rightarrow> VarId set option" where
  "id_literal_collect_vars bank l vs = id_atom_collect_vars bank (id_atom l) vs"

definition id_clause_free_vars :: "TermBank \<Rightarrow> IdClause \<Rightarrow> VarId set option" where
  "id_clause_free_vars bank c = foldM (id_literal_collect_vars bank) (idc_literals c) {}"

fun memo_value :: "MaxVarMemo \<Rightarrow> VarId option" where
  "memo_value Unknown = None"
| "memo_value NoVar = None"
| "memo_value (MaxVar v) = Some v"

definition best_of :: "VarId option \<Rightarrow> VarId option \<Rightarrow> VarId option" where
  "best_of best r = (case r of None \<Rightarrow> best
     | Some v \<Rightarrow> Some (case best of None \<Rightarrow> v | Some b \<Rightarrow> max b v))"

definition resize_memo :: "nat \<Rightarrow> MaxVarMemo list \<Rightarrow> MaxVarMemo list" where
  "resize_memo n memo = memo @ replicate (n - length memo) Unknown"

partial_function (option) max_var :: "TermId \<Rightarrow> TermBank \<Rightarrow> (VarId option \<times> TermBank) option" where
  "max_var i bank = (
     let bank = (if length (max_var_memo bank) \<le> unat i
                 then bank\<lparr>max_var_memo := resize_memo (unat i + 1) (max_var_memo bank)\<rparr> else bank)
     in case max_var_memo bank ! unat i of
          MaxVar known \<Rightarrow> Some (Some known, bank)
        | NoVar \<Rightarrow> Some (None, bank)
        | Unknown \<Rightarrow> do {
            node \<leftarrow> node_at bank i;
            (computed, bank) \<leftarrow> (case node of
                NVar v \<Rightarrow> Some (MaxVar v, bank)
              | NApp f args \<Rightarrow> do {
                  (best, bank) \<leftarrow> foldM (\<lambda>arg (best, bank). do {
                      (r, bank) \<leftarrow> max_var arg bank;
                      Some (best_of best r, bank) }) args (None, bank);
                  Some (case best of None \<Rightarrow> NoVar | Some v \<Rightarrow> MaxVar v, bank) });
            Some (memo_value computed,
              bank\<lparr>max_var_memo := (max_var_memo bank)[unat i := computed]\<rparr>) })"

definition max_var_list :: "TermId list \<Rightarrow> VarId option \<Rightarrow> TermBank \<Rightarrow> (VarId option \<times> TermBank) option" where
  "max_var_list args best bank =
     foldM (\<lambda>arg (best, bank). do { (r, bank) \<leftarrow> max_var arg bank; Some (best_of best r, bank) })
       args (best, bank)"

fun max_var_atom :: "IdAtom \<Rightarrow> TermBank \<Rightarrow> (VarId option \<times> TermBank) option" where
  "max_var_atom (IdPred p args) bank = max_var_list args None bank"
| "max_var_atom (IdEq l r) bank = max_var_list [l, r] None bank"

definition max_var_clause :: "IdClause \<Rightarrow> TermBank \<Rightarrow> (VarId option \<times> TermBank) option" where
  "max_var_clause c bank =
     foldM (\<lambda>l (best, bank). do { (r, bank) \<leftarrow> max_var_atom (id_atom l) bank; Some (best_of best r, bank) })
       (idc_literals c) (None, bank)"

subsection \<open>Replacing a variable or a subterm\<close>

partial_function (option) substitute_var ::
  "VarId \<Rightarrow> TermId \<Rightarrow> TermId \<Rightarrow> TermBank \<Rightarrow> (TermId \<times> TermBank) option" where
  "substitute_var target replacement i bank = do {
     node \<leftarrow> node_at bank i;
     case node of
       NVar v \<Rightarrow> Some (if v = target then replacement else i, bank)
     | NApp f args \<Rightarrow> do {
         (new_args, bank) \<leftarrow> mapM_st (substitute_var target replacement) args bank;
         Some (if new_args \<noteq> args then intern_app f new_args bank else (i, bank)) } }"

fun substitute_var_atom :: "VarId \<Rightarrow> TermId \<Rightarrow> IdAtom \<Rightarrow> TermBank \<Rightarrow> (IdAtom \<times> TermBank) option" where
  "substitute_var_atom target replacement (IdEq l r) bank = do {
     (l', bank) \<leftarrow> substitute_var target replacement l bank;
     (r', bank) \<leftarrow> substitute_var target replacement r bank;
     Some (IdEq l' r', bank) }"
| "substitute_var_atom target replacement (IdPred p args) bank = do {
     (args', bank) \<leftarrow> mapM_st (substitute_var target replacement) args bank;
     Some (IdPred p args', bank) }"

definition substitute_var_literal ::
  "VarId \<Rightarrow> TermId \<Rightarrow> IdLiteral \<Rightarrow> TermBank \<Rightarrow> (IdLiteral \<times> TermBank) option" where
  "substitute_var_literal target replacement l bank = do {
     (a, bank) \<leftarrow> substitute_var_atom target replacement (id_atom l) bank;
     Some (\<lparr>id_positive = id_positive l, id_atom = a\<rparr>, bank) }"

text \<open>The outer option is the index panic, the inner one the \<open>None\<close> of the code.\<close>

fun id_subterm_at :: "TermBank \<Rightarrow> TermId \<Rightarrow> nat list \<Rightarrow> TermId option option" where
  "id_subterm_at bank i [] = Some (Some i)"
| "id_subterm_at bank i (h # rest) = do {
     node \<leftarrow> node_at bank i;
     case node of
       NVar v \<Rightarrow> Some None
     | NApp f args \<Rightarrow> if h < length args then id_subterm_at bank (args ! h) rest else Some None }"

fun id_replace_at :: "TermId \<Rightarrow> nat list \<Rightarrow> TermId \<Rightarrow> TermBank \<Rightarrow> (TermId \<times> TermBank) option" where
  "id_replace_at i [] r bank = Some (r, bank)"
| "id_replace_at i (h # rest) r bank = do {
     node \<leftarrow> node_at bank i;
     case node of
       NVar v \<Rightarrow> Some (i, bank)
     | NApp f args \<Rightarrow>
         if h < length args then do {
           (a, bank) \<leftarrow> id_replace_at (args ! h) rest r bank;
           Some (intern_app f (args[h := a]) bank) }
         else Some (intern_app f args bank) }"

subsection \<open>Normalisation modulo associativity and commutativity\<close>

text \<open>The stack of \<open>ac_normalize\<close>; its top is the head of the list.\<close>

partial_function (option) ac_leaves ::
  "TermBank \<Rightarrow> SymbolId \<Rightarrow> TermId list \<Rightarrow> TermId list \<Rightarrow> TermId list option" where
  "ac_leaves bank f stack leaves = (case stack of
       [] \<Rightarrow> Some leaves
     | current # rest \<Rightarrow> do {
         node \<leftarrow> node_at bank current;
         case node of
           NApp g cs \<Rightarrow>
             if g = f \<and> 2 \<le> length cs then ac_leaves bank f (cs @ rest) leaves
             else ac_leaves bank f rest (leaves @ [current])
         | NVar v \<Rightarrow> ac_leaves bank f rest (leaves @ [current]) })"

fun ac_rebuild :: "SymbolId \<Rightarrow> TermId list \<Rightarrow> TermId \<Rightarrow> TermBank \<Rightarrow> TermId \<times> TermBank" where
  "ac_rebuild f [] rebuilt bank = (rebuilt, bank)"
| "ac_rebuild f (leaf # ls) rebuilt bank =
     (let (r, bank) = intern_app f [leaf, rebuilt] bank in ac_rebuild f ls r bank)"

partial_function (option) ac_normalize ::
  "SymbolId set \<Rightarrow> TermId \<Rightarrow> TermBank \<Rightarrow> (TermId \<times> TermBank) option" where
  "ac_normalize ac_syms i bank = do {
     node \<leftarrow> node_at bank i;
     case node of
       NVar v \<Rightarrow> Some (i, bank)
     | NApp f args \<Rightarrow> do {
         (norm_args, bank) \<leftarrow> mapM_st (ac_normalize ac_syms) args bank;
         if f \<in> ac_syms \<and> 2 \<le> length norm_args then do {
           leaves \<leftarrow> ac_leaves bank f norm_args [];
           let leaves = sort leaves in
           if leaves = [] then Some (intern_app f [] bank)
           else if length leaves = 1 then Some (hd leaves, bank)
           else Some (ac_rebuild f (tl (rev leaves)) (last leaves) bank) }
         else Some (intern_app f norm_args bank) } }"

subsection \<open>Positions and subterms\<close>

text \<open>
  A deadline is the sequence of answers of the clock, one per check: \<open>True\<close> once the limit is
  reached; the empty sequence stands for no deadline.
\<close>

type_synonym clock = "bool list"

definition expired :: "clock \<Rightarrow> bool" where
  "expired c = (case c of [] \<Rightarrow> False | b # bs \<Rightarrow> b)"

partial_function (option) id_nv_positions ::
  "TermBank \<Rightarrow> TermId \<Rightarrow> nat list \<Rightarrow> nat list list \<Rightarrow> nat list list option" where
  "id_nv_positions bank i path positions = do {
     node \<leftarrow> node_at bank i;
     case node of
       NVar v \<Rightarrow> Some positions
     | NApp f args \<Rightarrow> foldM (\<lambda>(k, arg) positions. id_nv_positions bank arg (path @ [k]) positions)
         (enumerate 0 args) (positions @ [path]) }"

definition id_non_variable_positions :: "TermBank \<Rightarrow> TermId \<Rightarrow> nat list list option" where
  "id_non_variable_positions bank i = id_nv_positions bank i [] []"

partial_function (option) id_nv_positions_until ::
  "TermBank \<Rightarrow> TermId \<Rightarrow> nat list \<Rightarrow> nat list list \<Rightarrow> clock \<Rightarrow> (nat list list option \<times> clock) option"
where
  "id_nv_positions_until bank i path positions c =
     (if expired c then Some (None, tl c)
      else do {
        node \<leftarrow> node_at bank i;
        case node of
          NVar v \<Rightarrow> Some (Some positions, tl c)
        | NApp f args \<Rightarrow> foldM (\<lambda>(k, arg) (r, c). case r of
              None \<Rightarrow> Some (None, c)
            | Some positions \<Rightarrow> id_nv_positions_until bank arg (path @ [k]) positions c)
            (enumerate 0 args) (Some (positions @ [path]), tl c) })"

definition id_non_variable_positions_until ::
  "TermBank \<Rightarrow> TermId \<Rightarrow> clock \<Rightarrow> (nat list list option \<times> clock) option" where
  "id_non_variable_positions_until bank i c = id_nv_positions_until bank i [] [] c"

partial_function (option) collect_non_var_subterms :: "TermBank \<Rightarrow> TermId \<Rightarrow> TermId list \<Rightarrow> TermId list option" where
  "collect_non_var_subterms bank i acc = do {
     node \<leftarrow> node_at bank i;
     case node of
       NVar v \<Rightarrow> Some acc
     | NApp f args \<Rightarrow> foldM (collect_non_var_subterms bank) args (acc @ [i]) }"

definition non_variable_subterms :: "TermBank \<Rightarrow> TermId \<Rightarrow> TermId list option" where
  "non_variable_subterms bank i = collect_non_var_subterms bank i []"

subsection \<open>Conversion from and to owned terms\<close>

partial_function (option) to_legacy :: "TermBank \<Rightarrow> TermId \<Rightarrow> Term option" where
  "to_legacy bank i = do {
     node \<leftarrow> node_at bank i;
     case node of
       NVar v \<Rightarrow> Some (Var v)
     | NApp f args \<Rightarrow> do { ts \<leftarrow> mapM (to_legacy bank) args; Some (App f ts) } }"

fun from_legacy :: "Term \<Rightarrow> TermBank \<Rightarrow> TermId \<times> TermBank"
and from_legacy_args :: "Term list \<Rightarrow> TermBank \<Rightarrow> TermId list \<times> TermBank" where
  "from_legacy (Var v) bank = intern_var v bank"
| "from_legacy (App f args) bank =
     (let (arg_ids, bank) = from_legacy_args args bank in intern_app f arg_ids bank)"
| "from_legacy_args [] bank = ([], bank)"
| "from_legacy_args (a # as) bank =
     (let (i, bank) = from_legacy a bank; (is, bank) = from_legacy_args as bank in (i # is, bank))"

fun atom_to_legacy :: "TermBank \<Rightarrow> IdAtom \<Rightarrow> Atom option" where
  "atom_to_legacy bank (IdPred p args) = do { ts \<leftarrow> mapM (to_legacy bank) args; Some (Pred p ts) }"
| "atom_to_legacy bank (IdEq l r) = do { l \<leftarrow> to_legacy bank l; r \<leftarrow> to_legacy bank r; Some (Eq l r) }"

fun atom_from_legacy :: "Atom \<Rightarrow> TermBank \<Rightarrow> IdAtom \<times> TermBank" where
  "atom_from_legacy (Pred p args) bank =
     (let (is, bank) = from_legacy_args args bank in (IdPred p is, bank))"
| "atom_from_legacy (Eq l r) bank =
     (let (l, bank) = from_legacy l bank; (r, bank) = from_legacy r bank in (IdEq l r, bank))"

definition literal_to_legacy :: "TermBank \<Rightarrow> IdLiteral \<Rightarrow> Literal option" where
  "literal_to_legacy bank l = do {
     a \<leftarrow> atom_to_legacy bank (id_atom l);
     Some \<lparr>positive = id_positive l, atom = a\<rparr> }"

definition literal_from_legacy :: "Literal \<Rightarrow> TermBank \<Rightarrow> IdLiteral \<times> TermBank" where
  "literal_from_legacy l bank =
     (let (a, bank) = atom_from_legacy (atom l) bank in (\<lparr>id_positive = positive l, id_atom = a\<rparr>, bank))"

definition clause_to_legacy :: "TermBank \<Rightarrow> IdClause \<Rightarrow> Clause option" where
  "clause_to_legacy bank c = do {
     ls \<leftarrow> mapM (literal_to_legacy bank) (idc_literals c);
     Some ((new_clause (idc_id c) ls (idc_source c))
       \<lparr>avatar := idc_avatar c, distance := idc_distance c, formula := idc_formula c,
        certificate := idc_certificate c, proof_id := idc_proof_id c, witness := idc_witness c\<rparr>) }"

definition clause_from_legacy :: "Clause \<Rightarrow> TermBank \<Rightarrow> IdClause \<times> TermBank" where
  "clause_from_legacy c bank =
     (let (ls, bank) = map_st literal_from_legacy (literals c) bank in
      (\<lparr>idc_id = clause_id c, idc_literals = ls, idc_source = clause_source c,
        idc_avatar = avatar c, idc_distance = distance c, idc_formula = formula c,
        idc_certificate = certificate c, idc_proof_id = proof_id c, idc_witness = witness c\<rparr>, bank))"

record IdFormulaStep =
  ifs_id :: ClauseId
  ifs_formula :: Formula
  ifs_source :: ClauseSource
  ifs_certificate :: "ClauseCertificate option"
  ifs_proof_id :: "ProofNodeId option"
  ifs_witness :: "ProofWitness option"

definition formula_step_from_legacy :: "FormulaStep \<Rightarrow> TermBank \<Rightarrow> IdFormulaStep \<times> TermBank" where
  "formula_step_from_legacy s bank =
     (\<lparr>ifs_id = step_id s, ifs_formula = step_formula s, ifs_source = step_source s,
       ifs_certificate = step_certificate s, ifs_proof_id = step_proof_id s,
       ifs_witness = step_witness s\<rparr>, bank)"

definition formula_step_to_legacy :: "TermBank \<Rightarrow> IdFormulaStep \<Rightarrow> FormulaStep" where
  "formula_step_to_legacy bank s =
     \<lparr>step_id = ifs_id s, step_formula = ifs_formula s, step_source = ifs_source s,
      step_certificate = ifs_certificate s, step_proof_id = ifs_proof_id s,
      step_witness = ifs_witness s\<rparr>"

subsection \<open>Clauses over identifiers\<close>

datatype FormulaProvenanceError = FormulaProvenanceError ClauseId

text \<open>\<open>SearchClause\<close> and \<open>SearchClauseRef\<close> wrap a clause that passed this check.\<close>

datatype SearchClause = SearchClause IdClause

definition search_clause_try_from :: "IdClause \<Rightarrow> FormulaProvenanceError + SearchClause" where
  "search_clause_try_from c =
     (if idc_formula c \<noteq> None then Inl (FormulaProvenanceError (idc_id c)) else Inr (SearchClause c))"

definition id_new_clause :: "ClauseId \<Rightarrow> IdLiteral list \<Rightarrow> ClauseSource \<Rightarrow> IdClause" where
  "id_new_clause i ls src = \<lparr>idc_id = i, idc_literals = ls, idc_source = src, idc_avatar = [],
     idc_distance = 1000, idc_formula = None, idc_certificate = None, idc_proof_id = None,
     idc_witness = None\<rparr>"

definition id_new_avatar :: "ClauseId \<Rightarrow> IdLiteral list \<Rightarrow> ClauseSource \<Rightarrow> u32 list \<Rightarrow> IdClause" where
  "id_new_avatar i ls src av = \<lparr>idc_id = i, idc_literals = ls, idc_source = src,
     idc_avatar = remdups_adj (sort av), idc_distance = 1000, idc_formula = None,
     idc_certificate = None, idc_proof_id = None, idc_witness = None\<rparr>"

definition id_with_witness :: "ProofNodeId \<Rightarrow> ProofWitness \<Rightarrow> IdClause \<Rightarrow> IdClause" where
  "id_with_witness i w c = c\<lparr>idc_proof_id := Some i, idc_witness := Some w\<rparr>"

definition id_step_try_from :: "IdClause \<Rightarrow> NotAFormulaStepError + IdFormulaStep" where
  "id_step_try_from c = (case idc_formula c of
       Some f \<Rightarrow> Inr \<lparr>ifs_id = idc_id c, ifs_formula = f, ifs_source = idc_source c,
         ifs_certificate = idc_certificate c, ifs_proof_id = idc_proof_id c, ifs_witness = idc_witness c\<rparr>
     | None \<Rightarrow> Inl (NotAFormulaStepError (idc_id c)))"

definition id_clause_from_step :: "IdFormulaStep \<Rightarrow> IdClause" where
  "id_clause_from_step s = \<lparr>idc_id = ifs_id s, idc_literals = [], idc_source = ifs_source s,
     idc_avatar = [], idc_distance = 1000, idc_formula = Some (ifs_formula s),
     idc_certificate = ifs_certificate s, idc_proof_id = ifs_proof_id s, idc_witness = ifs_witness s\<rparr>"

definition id_clause_is_empty :: "IdClause \<Rightarrow> bool" where
  "id_clause_is_empty c = (idc_formula c = None \<and> idc_literals c = [])"

definition id_clause_len :: "IdClause \<Rightarrow> nat" where
  "id_clause_len c = length (idc_literals c)"

fun id_complementary_pair :: "IdLiteral list \<Rightarrow> bool" where
  "id_complementary_pair [] = False"
| "id_complementary_pair (l # ls) =
     (list_ex (\<lambda>m. id_positive l \<noteq> id_positive m \<and> id_atom l = id_atom m) ls \<or> id_complementary_pair ls)"

definition id_is_tautology :: "IdClause \<Rightarrow> bool" where
  "id_is_tautology c =
     (list_ex (\<lambda>l. id_positive l \<and> (case id_atom l of IdEq s t \<Rightarrow> s = t | _ \<Rightarrow> False)) (idc_literals c) \<or>
      id_complementary_pair (idc_literals c))"

fun id_retain_new :: "IdLiteral list \<Rightarrow> IdLiteral list \<Rightarrow> IdLiteral list" where
  "id_retain_new seen [] = []"
| "id_retain_new seen (l # ls) =
     (if l \<in> set seen then id_retain_new seen ls else l # id_retain_new (seen @ [l]) ls)"

definition id_deduplicate :: "IdClause \<Rightarrow> IdClause" where
  "id_deduplicate c = c\<lparr>idc_literals := id_retain_new [] (idc_literals c)\<rparr>"

definition id_avatar_is_subset_of :: "IdClause \<Rightarrow> IdClause \<Rightarrow> bool" where
  "id_avatar_is_subset_of c d = subset_loop (idc_avatar c) (idc_avatar d)"

subsection \<open>Substitutions over identifiers\<close>

record IdSubstitution =
  id_bindings :: "TermId option list"

definition id_new_subst :: IdSubstitution where
  "id_new_subst = \<lparr>id_bindings = []\<rparr>"

definition id_bind :: "VarId \<Rightarrow> TermId \<Rightarrow> IdSubstitution \<Rightarrow> IdSubstitution" where
  "id_bind v i s =
     (let b = id_bindings s; b = b @ replicate (unat v + 1 - length b) None
      in s\<lparr>id_bindings := b[unat v := Some i]\<rparr>)"

definition id_get :: "IdSubstitution \<Rightarrow> VarId \<Rightarrow> TermId option" where
  "id_get s v = (if unat v < length (id_bindings s) then id_bindings s ! unat v else None)"

definition id_subst_is_empty :: "IdSubstitution \<Rightarrow> bool" where
  "id_subst_is_empty s = (id_bindings s = [])"

partial_function (option) id_deref_loop :: "IdSubstitution \<Rightarrow> TermBank \<Rightarrow> TermId \<Rightarrow> TermId option" where
  "id_deref_loop s bank i = do {
     node \<leftarrow> node_at bank i;
     case node of
       NVar v \<Rightarrow> (case id_get s v of Some nxt \<Rightarrow> id_deref_loop s bank nxt | None \<Rightarrow> Some i)
     | NApp f args \<Rightarrow> Some i }"

partial_function (option) id_apply_term ::
  "IdSubstitution \<Rightarrow> TermId \<Rightarrow> TermBank \<Rightarrow> (TermId \<times> TermBank) option" where
  "id_apply_term s i bank =
     (if id_bindings s = [] then Some (i, bank)
      else do {
        i \<leftarrow> id_deref_loop s bank i;
        node \<leftarrow> node_at bank i;
        case node of
          NVar v \<Rightarrow> Some (i, bank)
        | NApp f args \<Rightarrow> do {
            (new_args, bank) \<leftarrow> mapM_st (id_apply_term s) args bank;
            Some (if new_args = args then (i, bank) else intern_app f new_args bank) } })"

fun id_apply_atom :: "IdSubstitution \<Rightarrow> IdAtom \<Rightarrow> TermBank \<Rightarrow> (IdAtom \<times> TermBank) option" where
  "id_apply_atom s (IdPred p args) bank =
     (if id_bindings s = [] then Some (IdPred p args, bank)
      else do { (args', bank) \<leftarrow> mapM_st (id_apply_term s) args bank; Some (IdPred p args', bank) })"
| "id_apply_atom s (IdEq l r) bank =
     (if id_bindings s = [] then Some (IdEq l r, bank)
      else do {
        (l', bank) \<leftarrow> id_apply_term s l bank;
        (r', bank) \<leftarrow> id_apply_term s r bank;
        Some (IdEq l' r', bank) })"

definition id_apply_literal :: "IdSubstitution \<Rightarrow> IdLiteral \<Rightarrow> TermBank \<Rightarrow> (IdLiteral \<times> TermBank) option" where
  "id_apply_literal s l bank = do {
     (a, bank) \<leftarrow> id_apply_atom s (id_atom l) bank;
     Some (\<lparr>id_positive = id_positive l, id_atom = a\<rparr>, bank) }"

definition id_subst_to_legacy :: "IdSubstitution \<Rightarrow> TermBank \<Rightarrow> Substitution option" where
  "id_subst_to_legacy s bank =
     foldM (\<lambda>(v, t) legacy. case t of
         None \<Rightarrow> Some legacy
       | Some i \<Rightarrow> do { t \<leftarrow> to_legacy bank i; Some (bind_var_to (of_nat v) t legacy) })
       (enumerate 0 (id_bindings s)) new_subst"

end
