(* ===== verification/Interning.thy ===== *)
theory Interning
  imports TermBank Semantics
begin

text \<open>
  What the term bank guarantees: the invariant of hash-consing, that an identifier denotes one
  term for ever, and that each operation on identifiers is the operation on the terms they
  denote.
\<close>

section \<open>The invariant\<close>

definition memo_of :: "VarId set \<Rightarrow> MaxVarMemo" where
  "memo_of V = (if V = {} then NoVar else MaxVar (Max V))"

definition nodes_ok :: "TermBank \<Rightarrow> bool" where
  "nodes_ok b \<longleftrightarrow> length (nodes b) \<le> 2 ^ 32 \<and>
     (\<forall>node i. fmlookup (dedup b) node = Some i \<longleftrightarrow> node_at b i = Some node) \<and>
     (\<forall>i f args. node_at b i = Some (NApp f args) \<longrightarrow> (\<forall>a \<in> set args. a < i))"

text \<open>
  What remains of it when the bank is full: an identifier is 32 bits wide, so the nodes after the
  first \<open>2 ^ 32\<close> are out of reach and the identifiers handed out for them denote older nodes.
\<close>

definition nodes_wf :: "TermBank \<Rightarrow> bool" where
  "nodes_wf b \<longleftrightarrow>
     (\<forall>node i. node_at b i = Some node \<longrightarrow> fmlookup (dedup b) node = Some i) \<and>
     (\<forall>node i. fmlookup (dedup b) node = Some i \<longrightarrow> unat i < length (nodes b)) \<and>
     (\<forall>i f args. node_at b i = Some (NApp f args) \<longrightarrow> (\<forall>a \<in> set args. a < i))"

lemma nodes_ok_wf: "nodes_ok b \<Longrightarrow> nodes_wf b"
  unfolding nodes_ok_def nodes_wf_def by (auto simp: node_at_def split: if_splits)

definition memo_ok :: "TermBank \<Rightarrow> bool" where
  "memo_ok b \<longleftrightarrow> (\<forall>i. unat i < length (max_var_memo b) \<longrightarrow> max_var_memo b ! unat i \<noteq> Unknown \<longrightarrow>
     (\<exists>t. to_legacy b i = Some t \<and> max_var_memo b ! unat i = memo_of (vars t)))"

definition bank_ok :: "TermBank \<Rightarrow> bool" where
  "bank_ok b \<longleftrightarrow> nodes_ok b \<and> memo_ok b"

definition extends :: "TermBank \<Rightarrow> TermBank \<Rightarrow> bool" where
  "extends b b' \<longleftrightarrow> (\<exists>ns. nodes b' = nodes b @ ns)"

text \<open>One operation: it keeps the invariant, adds at most \<open>n\<close> nodes and forgets none.\<close>

definition grows :: "TermBank \<Rightarrow> nat \<Rightarrow> TermBank \<Rightarrow> bool" where
  "grows b n b' \<longleftrightarrow> bank_ok b' \<and> extends b b' \<and> length (nodes b') \<le> length (nodes b) + n"

definition room :: "TermBank \<Rightarrow> nat \<Rightarrow> bool" where
  "room b n \<longleftrightarrow> bank_ok b \<and> length (nodes b) + n \<le> 2 ^ 32"

lemma new_bank_ok: "bank_ok new_bank"
  by (simp add: bank_ok_def nodes_ok_def memo_ok_def new_bank_def node_at_def)

lemma extends_refl [simp]: "extends b b"
  by (simp add: extends_def)

lemma extends_trans: "extends a b \<Longrightarrow> extends b c \<Longrightarrow> extends a c"
  by (auto simp: extends_def)

lemma extends_node_at: "extends b b' \<Longrightarrow> node_at b i = Some node \<Longrightarrow> node_at b' i = Some node"
  by (auto simp: extends_def node_at_def nth_append split: if_splits)

lemma grows_refl: "bank_ok b \<Longrightarrow> grows b 0 b"
  by (simp add: grows_def)

lemma grows_trans: "grows a m b \<Longrightarrow> grows b n c \<Longrightarrow> grows a (m + n) c"
  by (auto simp: grows_def intro: extends_trans)

lemma grows_mono: "grows a m b \<Longrightarrow> m \<le> n \<Longrightarrow> grows a n b"
  by (auto simp: grows_def)

lemma room_grows: "room b (m + n) \<Longrightarrow> grows b m b' \<Longrightarrow> room b' n"
  by (auto simp: room_def grows_def)

lemma room_mono: "room b n \<Longrightarrow> m \<le> n \<Longrightarrow> room b m"
  by (auto simp: room_def)

section \<open>Denotation of identifiers\<close>

lemma to_legacy_node:
  "to_legacy b i = (case node_at b i of
     None \<Rightarrow> None
   | Some (NVar v) \<Rightarrow> Some (Var v)
   | Some (NApp f args) \<Rightarrow> map_option (App f) (mapM (to_legacy b) args))"
proof (cases "node_at b i")
  case (Some node)
  then show ?thesis
    by (subst to_legacy.simps) (cases node; cases "\<exists>ts. mapM (to_legacy b) (case node of NApp f args \<Rightarrow> args) = Some ts"; auto)
qed (subst to_legacy.simps, simp)

lemma to_legacy_Var: "to_legacy b i = Some (Var v) \<longleftrightarrow> node_at b i = Some (NVar v)"
  by (simp add: to_legacy_node map_option_case split: option.splits TermNode.splits)

lemma to_legacy_App:
  "to_legacy b i = Some (App f ts) \<longleftrightarrow>
     (\<exists>args. node_at b i = Some (NApp f args) \<and> mapM (to_legacy b) args = Some ts)"
  by (auto simp: to_legacy_node split: option.splits TermNode.splits)

lemma mapM_to_legacyD:
  "mapM (to_legacy b) args = Some ts \<Longrightarrow> length args = length ts \<and>
     (\<forall>n < length ts. to_legacy b (args ! n) = Some (ts ! n))"
  by (simp add: mapM_Some_iff)

lemma to_legacy_cases:
  assumes "to_legacy b i = Some t"
  obtains v where "t = Var v" "node_at b i = Some (NVar v)"
  | f args ts where "t = App f ts" "node_at b i = Some (NApp f args)" "mapM (to_legacy b) args = Some ts"
  using assms by (cases t) (auto simp: to_legacy_Var to_legacy_App)

lemma extends_to_legacy: "extends b b' \<Longrightarrow> to_legacy b i = Some t \<Longrightarrow> to_legacy b' i = Some t"
proof (induction t arbitrary: i)
  case (Var v)
  then show ?case by (auto simp: to_legacy_Var extends_node_at)
next
  case (App f ts)
  then obtain args where args: "node_at b i = Some (NApp f args)" "mapM (to_legacy b) args = Some ts"
    by (auto simp: to_legacy_App)
  then have "mapM (to_legacy b') args = Some ts"
    using App by (auto simp: mapM_Some_iff)
  then show ?case using args(1) App.prems(1) by (auto simp: to_legacy_App extends_node_at)
qed

lemma extends_mapM:
  "extends b b' \<Longrightarrow> mapM (to_legacy b) args = Some ts \<Longrightarrow> mapM (to_legacy b') args = Some ts"
  by (simp add: mapM_Some_iff extends_to_legacy)

lemma node_at_inject:
  "nodes_wf b \<Longrightarrow> node_at b i = Some node \<Longrightarrow> node_at b j = Some node \<Longrightarrow> i = j"
  unfolding nodes_wf_def by (metis option.inject)

lemma to_legacy_inject:
  "nodes_wf b \<Longrightarrow> to_legacy b i = Some t \<Longrightarrow> to_legacy b j = Some t \<Longrightarrow> i = j"
proof (induction t arbitrary: i j)
  case (Var v)
  then show ?case by (auto simp: to_legacy_Var intro: node_at_inject)
next
  case (App f ts)
  then obtain as bs where as: "node_at b i = Some (NApp f as)" "mapM (to_legacy b) as = Some ts"
    and bs: "node_at b j = Some (NApp f bs)" "mapM (to_legacy b) bs = Some ts"
    by (auto simp: to_legacy_App)
  have "as = bs"
  proof (rule nth_equalityI)
    show "length as = length bs" using as(2) bs(2) by (simp add: mapM_Some_iff)
    show "as ! n = bs ! n" if "n < length as" for n
      using that as(2) bs(2) App.IH [of "ts ! n", OF _ App.prems(1)] by (simp add: mapM_Some_iff)
  qed
  then show ?case using as(1) bs(1) App.prems(1) node_at_inject by blast
qed

lemma to_legacy_total:
  "nodes_wf b \<Longrightarrow> unat i < length (nodes b) \<Longrightarrow> \<exists>t. to_legacy b i = Some t"
proof (induction "unat i" arbitrary: i rule: less_induct)
  case less
  show ?case
  proof (cases "nodes b ! unat i")
    case (NVar v)
    then have "to_legacy b i = Some (Var v)" using less.prems by (simp add: to_legacy_Var node_at_def)
    then show ?thesis ..
  next
    case (NApp f args)
    then have node: "node_at b i = Some (NApp f args)" using less.prems by (simp add: node_at_def)
    have "\<exists>t. to_legacy b a = Some t" if "a \<in> set args" for a
    proof (rule less.hyps [OF _ less.prems(1)])
      show "unat a < unat i"
        using that node less.prems(1) by (auto simp: nodes_wf_def word_less_nat_alt)
      then show "unat a < length (nodes b)" using less.prems(2) by simp
    qed
    then obtain ts where "mapM (to_legacy b) args = Some ts" using mapM_total by blast
    then have "to_legacy b i = Some (App f ts)" using node by (auto simp: to_legacy_App)
    then show ?thesis ..
  qed
qed

lemma to_legacy_iff: "nodes_wf b \<Longrightarrow> (\<exists>t. to_legacy b i = Some t) \<longleftrightarrow> unat i < length (nodes b)"
proof
  assume "\<exists>t. to_legacy b i = Some t"
  then have "node_at b i \<noteq> None" by (auto simp: to_legacy_node split: option.splits)
  then show "unat i < length (nodes b)" by (simp add: node_at_def split: if_splits)
qed (rule to_legacy_total)

text \<open>The denotation depends on the nodes only.\<close>

lemma same_nodes_node_at: "nodes b = nodes b' \<Longrightarrow> node_at b = node_at b'"
  by (simp add: node_at_def fun_eq_iff)

lemma same_nodes_to_legacy: "nodes b = nodes b' \<Longrightarrow> to_legacy b i = Some t \<longleftrightarrow> to_legacy b' i = Some t"
proof -
  assume "nodes b = nodes b'"
  then have "extends b b'" "extends b' b" by (simp_all add: extends_def)
  then show ?thesis by (blast intro: extends_to_legacy)
qed

section \<open>Interning\<close>

text \<open>Both interning operations enter a node; its children must already be there.\<close>

definition intern_node :: "TermNode \<Rightarrow> TermBank \<Rightarrow> TermId \<times> TermBank" where
  "intern_node node b = (case fmlookup (dedup b) node of
       Some i \<Rightarrow> (i, b)
     | None \<Rightarrow> let i = of_nat (length (nodes b)) in
         (i, b\<lparr>nodes := nodes b @ [node], dedup := fmupd node i (dedup b)\<rparr>))"

lemma intern_var_node: "intern_var v = intern_node (NVar v)"
  by (simp add: fun_eq_iff intern_var_def intern_node_def)

lemma intern_app_node: "intern_app f args = intern_node (NApp f args)"
  by (simp add: fun_eq_iff intern_app_def intern_node_def)

definition children_in :: "TermBank \<Rightarrow> TermNode \<Rightarrow> bool" where
  "children_in b node \<longleftrightarrow> (case node of NVar v \<Rightarrow> True
     | NApp f args \<Rightarrow> \<forall>a \<in> set args. unat a < length (nodes b))"

lemma intern_node_grows:
  assumes ok: "nodes_ok b" and fits: "length (nodes b) < 2 ^ 32" and ch: "children_in b node"
    and eq: "intern_node node b = (i, b')"
  shows "nodes_ok b' \<and> extends b b' \<and> length (nodes b') \<le> Suc (length (nodes b)) \<and>
    max_var_memo b' = max_var_memo b \<and> node_at b' i = Some node"
proof (cases "fmlookup (dedup b) node")
  case (Some j)
  then show ?thesis using ok eq by (auto simp: intern_node_def nodes_ok_def)
next
  case None
  let ?n = "length (nodes b)"
  have i: "i = of_nat ?n" "unat i = ?n"
    and b': "b' = b\<lparr>nodes := nodes b @ [node], dedup := fmupd node i (dedup b)\<rparr>"
    using eq fits by (auto simp: intern_node_def None Let_def unat_of_nat_u32)
  have old: "fmlookup (dedup b) nd = Some j \<longleftrightarrow> node_at b j = Some nd" for nd j
    using ok by (simp add: nodes_ok_def)
  have at: "node_at b' j = (if j = i then Some node else node_at b j)" for j
  proof -
    have "unat j = ?n \<longleftrightarrow> j = i" using i(2) by (auto intro: unsigned_word_eqI [where 'a = nat])
    then show ?thesis by (auto simp: b' node_at_def nth_append)
  qed
  have lk: "fmlookup (dedup b') nd = (if nd = node then Some i else fmlookup (dedup b) nd)" for nd
    by (simp add: b')
  have "fmlookup (dedup b') nd = Some j \<longleftrightarrow> node_at b' j = Some nd" for nd j
  proof (cases "nd = node")
    case True
    then have "node_at b j \<noteq> Some nd" using None old [of nd j] by simp
    then show ?thesis using True by (auto simp: at lk)
  next
    case False
    have "node_at b i = None" using i(2) by (simp add: node_at_def)
    then show ?thesis using False by (auto simp: at lk old)
  qed
  moreover have "\<forall>a \<in> set args. a < j" if "node_at b' j = Some (NApp f args)" for j f args
  proof (cases "j = i")
    case True
    then have "node = NApp f args" using that at by simp
    then show ?thesis using ch i(2) True by (simp add: children_in_def word_less_nat_alt)
  next
    case False
    then show ?thesis using that at ok unfolding nodes_ok_def by metis
  qed
  ultimately have "nodes_ok b'" using fits by (simp add: nodes_ok_def b')
  moreover have "node_at b' i = Some node" by (simp add: at)
  ultimately show ?thesis by (simp add: extends_def b')
qed

lemma memo_ok_extends:
  "memo_ok b \<Longrightarrow> extends b b' \<Longrightarrow> max_var_memo b' = max_var_memo b \<Longrightarrow> memo_ok b'"
  unfolding memo_ok_def by (metis extends_to_legacy)

lemma intern_node_room:
  assumes "room b (Suc n)" "children_in b node" "intern_node node b = (i, b')"
  shows "grows b 1 b' \<and> room b' n \<and> node_at b' i = Some node"
proof -
  have b: "nodes_ok b" "memo_ok b" "length (nodes b) < 2 ^ 32"
    using assms(1) by (simp_all add: room_def bank_ok_def)
  have "grows b 1 b' \<and> node_at b' i = Some node"
    using intern_node_grows [OF b(1,3) assms(2,3)] memo_ok_extends [OF b(2)]
    by (simp add: grows_def bank_ok_def)
  moreover have "room b (1 + n)" using assms(1) by simp
  ultimately show ?thesis using room_grows by blast
qed

lemma intern_var_room:
  assumes "room b (Suc n)" "intern_var v b = (i, b')"
  shows "grows b 1 b' \<and> room b' n \<and> to_legacy b' i = Some (Var v)"
  using intern_node_room [OF assms(1), of "NVar v" i b'] assms(2)
  by (simp add: intern_var_node children_in_def to_legacy_Var)

lemma mapM_children: "nodes_wf b \<Longrightarrow> mapM (to_legacy b) args = Some ts \<Longrightarrow> children_in b (NApp f args)"
  unfolding children_in_def by (auto dest!: mapM_SomeD simp flip: to_legacy_iff)

lemma intern_app_room:
  assumes "room b (Suc n)" "mapM (to_legacy b) args = Some ts" "intern_app f args b = (i, b')"
  shows "grows b 1 b' \<and> room b' n \<and> to_legacy b' i = Some (App f ts)"
proof -
  have "nodes_wf b" using assms(1) by (simp add: room_def bank_ok_def nodes_ok_wf)
  then have b': "grows b 1 b' \<and> room b' n \<and> node_at b' i = Some (NApp f args)"
    using intern_node_room [OF assms(1), of "NApp f args" i b'] mapM_children assms(2,3)
    by (simp add: intern_app_node)
  then have "mapM (to_legacy b') args = Some ts"
    using extends_mapM assms(2) by (auto simp: grows_def)
  with b' show ?thesis by (auto simp: to_legacy_App)
qed

text \<open>The term bank as a table of nodes.\<close>

interpretation bank: interner intern_node "\<lambda>i b. node_at b i" nodes_ok "\<lambda>b. length (nodes b)" children_in
proof
  fix b node node' i j
  show "nodes_ok b \<Longrightarrow> children_in b node \<Longrightarrow> length (nodes b) < 2 ^ 32 \<Longrightarrow> nodes_ok (snd (intern_node node b))"
    using intern_node_grows by (metis prod.collapse)
  show "length (nodes (snd (intern_node node b))) \<le> Suc (length (nodes b))"
    by (simp add: intern_node_def Let_def split: option.split)
  show "nodes_ok b \<Longrightarrow> children_in b node \<Longrightarrow> length (nodes b) < 2 ^ 32 \<Longrightarrow>
      node_at (snd (intern_node node b)) (fst (intern_node node b)) = Some node"
    using intern_node_grows by (metis prod.collapse)
  have ext: "extends b (snd (intern_node node b))"
    by (simp add: intern_node_def extends_def Let_def split: option.split)
  then show "node_at b i = Some node' \<Longrightarrow> node_at (snd (intern_node node b)) i = Some node'"
    by (rule extends_node_at)
  show "children_in b node' \<Longrightarrow> children_in (snd (intern_node node b)) node'"
    using ext by (fastforce simp: children_in_def extends_def split: TermNode.splits)
  show "nodes_ok b \<Longrightarrow> node_at b i = Some node \<Longrightarrow> node_at b j = Some node \<Longrightarrow> i = j"
    by (rule node_at_inject [OF nodes_ok_wf])
qed

section \<open>Conversion\<close>

text \<open>\<open>from_legacy\<close> enters one node per symbol occurrence at most.\<close>

lemma from_legacy_room:
  "room b (term_size t + n) \<Longrightarrow> from_legacy t b = (i, b') \<Longrightarrow>
     grows b (term_size t) b' \<and> room b' n \<and> to_legacy b' i = Some t"
  "room b (sum_list (map term_size ts) + n) \<Longrightarrow> from_legacy_args ts b = (ids, b') \<Longrightarrow>
     grows b (sum_list (map term_size ts)) b' \<and> room b' n \<and> mapM (to_legacy b') ids = Some ts"
proof (induction t b and ts b arbitrary: n i b' and n ids b' rule: from_legacy_from_legacy_args.induct)
  case (1 v b)
  then show ?case using intern_var_room [of b n v i b'] by simp
next
  case (2 f args b)
  obtain ids b1 where 1: "from_legacy_args args b = (ids, b1)" by fastforce
  have "room b (sum_list (map term_size args) + Suc n)" using 2(2) by (simp add: add.commute)
  then have b1: "grows b (sum_list (map term_size args)) b1" "room b1 (Suc n)"
    "mapM (to_legacy b1) ids = Some args"
    using 2(1) 1 by blast+
  have "intern_app f ids b1 = (i, b')" using 2(3) 1 by simp
  from intern_app_room [OF b1(2,3) this] b1(1) show ?case
    by (auto simp: add.commute dest: grows_trans)
next
  case (3 b)
  then show ?case by (auto simp: grows_refl room_def)
next
  case (4 a as b)
  obtain j b1 where 1: "from_legacy a b = (j, b1)" by fastforce
  obtain js b2 where 2: "from_legacy_args as b1 = (js, b2)" by fastforce
  have eq: "ids = j # js" "b' = b2" using 4(4) 1 2 by simp_all
  have "room b (term_size a + (sum_list (map term_size as) + n))" using 4(3) by (simp add: add.assoc)
  then have b1: "grows b (term_size a) b1" "room b1 (sum_list (map term_size as) + n)"
    "to_legacy b1 j = Some a"
    using 4(1) 1 by blast+
  have b2: "grows b1 (sum_list (map term_size as)) b2" "room b2 n" "mapM (to_legacy b2) js = Some as"
    using 4(2) [OF 1 [symmetric] refl b1(2) 2] by blast+
  have "to_legacy b2 j = Some a" using b1(3) b2(1) extends_to_legacy by (auto simp: grows_def)
  then show ?case using b2 grows_trans [OF b1(1) b2(1)] eq by simp
qed

section \<open>A concrete bank\<close>

text \<open>The bank that holds \<open>f(X3, g(X7))\<close> and its subterms; the examples refer to it.\<close>

definition example_term :: Term where
  "example_term = App 1 [Var 3, App 2 [Var 7]]"

definition example_bank :: TermBank where
  "example_bank = snd (from_legacy example_term new_bank)"

lemma example_bank_nodes:
  "nodes example_bank = [NVar 3, NVar 7, NApp 2 [1], NApp 1 [0, 2]]"
  by (simp add: example_bank_def example_term_def new_bank_def intern_var_def intern_app_def Let_def)

lemma example_bank_ok: "bank_ok example_bank"
proof -
  have "room new_bank (term_size example_term + 0)"
    using new_bank_ok by (simp add: room_def new_bank_def example_term_def)
  from from_legacy_room(1) [OF this] show ?thesis
    unfolding example_bank_def by (metis grows_def prod.collapse)
qed

lemma example_ids:
  "to_legacy example_bank 0 = Some (Var 3)" "to_legacy example_bank 1 = Some (Var 7)"
  "to_legacy example_bank 3 = Some example_term"
  by (simp_all add: to_legacy_node node_at_def example_bank_nodes example_term_def)

section \<open>Properties\<close>

text \<open>
  C15. Hash-consing: interning two owned terms into a bank with enough free identifiers gives
  identifiers that read back as those terms, that are equal exactly when the terms are, and
  every identifier handed out before keeps its term.
\<close>

theorem hash_consing:
  assumes "bank_ok b" "length (nodes b) + term_size t + term_size u \<le> 2 ^ 32"
    and "from_legacy t b = (i, b1)" "from_legacy u b1 = (j, b2)"
  shows "bank_ok b2 \<and> to_legacy b2 i = Some t \<and> to_legacy b2 j = Some u \<and> (i = j \<longleftrightarrow> t = u) \<and>
    (\<forall>k s. to_legacy b k = Some s \<longrightarrow> to_legacy b2 k = Some s)"
proof -
  have "room b (term_size t + term_size u)" using assms(1,2) by (simp add: room_def)
  then have 1: "grows b (term_size t) b1" "room b1 (term_size u + 0)" "to_legacy b1 i = Some t"
    using from_legacy_room(1) [of b t "term_size u" i b1] assms(3) by simp_all
  then have 2: "grows b1 (term_size u) b2" "to_legacy b2 j = Some u"
    using from_legacy_room(1) [OF 1(2) assms(4)] by simp_all
  have ext: "extends b b1" "extends b1 b2" "bank_ok b2" using 1(1) 2(1) by (simp_all add: grows_def)
  have i: "to_legacy b2 i = Some t" by (rule extends_to_legacy [OF ext(2) 1(3)])
  have "i = j \<longleftrightarrow> t = u" using i 2(2) ext(3) to_legacy_inject by (auto simp: bank_ok_def dest: nodes_ok_wf)
  then show ?thesis using i 2(2) ext extends_to_legacy extends_trans by blast
qed

theorem hash_consing_witness:
  "to_legacy (snd (from_legacy (App 1 [Var 0]) (snd (from_legacy (App 1 [Var 0]) new_bank))))
     (fst (from_legacy (App 1 [Var 0]) new_bank)) = Some (App 1 [Var 0]) \<and>
   fst (from_legacy (App 1 [Var 0]) new_bank) =
     fst (from_legacy (App 1 [Var 0]) (snd (from_legacy (App 1 [Var 0]) new_bank)))"
  using hash_consing [OF new_bank_ok _ prod.collapse [symmetric] prod.collapse [symmetric],
    of "App 1 [Var 0]" "App 1 [Var 0]"] by (simp add: new_bank_def)

end
