(* ===== verification/BankOps.thy ===== *)
theory BankOps
  imports Interning
begin

text \<open>
  The operations of the term bank, each proved to be the corresponding operation on the terms
  that the identifiers denote.
\<close>

section \<open>Variables\<close>

lemma foldM_sets:
  "(\<And>x A. x \<in> set xs \<Longrightarrow> f x A = Some (A \<union> g x)) \<Longrightarrow> foldM f xs A = Some (A \<union> (\<Union>x \<in> set xs. g x))"
proof (induction xs arbitrary: A)
  case (Cons x xs)
  have "foldM f (x # xs) A = foldM f xs (A \<union> g x)" using Cons.prems by simp
  also have "\<dots> = Some (A \<union> g x \<union> (\<Union>x \<in> set xs. g x))" using Cons by simp
  finally show ?case by (simp add: Un_assoc)
qed simp

lemma foldM_zip_sets:
  "length xs = length ys \<Longrightarrow> (\<And>n A. n < length xs \<Longrightarrow> f (xs ! n) A = Some (A \<union> g (ys ! n))) \<Longrightarrow>
     foldM f xs A = Some (A \<union> (\<Union>y \<in> set ys. g y))"
proof (induction xs ys arbitrary: A rule: list_induct2)
  case (Cons x xs y ys)
  have "foldM f xs (A \<union> g y) = Some (A \<union> g y \<union> (\<Union>y \<in> set ys. g y))"
    using Cons.prems [of "Suc _"] by (intro Cons.IH) auto
  moreover have "f x A = Some (A \<union> g y)" using Cons.prems [of 0] by simp
  ultimately show ?case by (simp add: Un_assoc)
qed simp

lemma id_collect_vars_eq: "to_legacy b i = Some t \<Longrightarrow> id_collect_vars b i vs = Some (vs \<union> vars t)"
proof (induction t arbitrary: i vs)
  case (Var v)
  then show ?case by (subst id_collect_vars.simps) (simp add: to_legacy_Var)
next
  case (App f ts)
  then obtain args where args: "node_at b i = Some (NApp f args)" "mapM (to_legacy b) args = Some ts"
    by (auto simp: to_legacy_App)
  have "foldM (id_collect_vars b) args vs = Some (vs \<union> (\<Union>t \<in> set ts. vars t))"
    using args(2) App.IH by (intro foldM_zip_sets) (auto simp: mapM_Some_iff)
  then show ?case by (subst id_collect_vars.simps) (simp add: args(1))
qed

definition max_opt :: "VarId set \<Rightarrow> VarId option" where
  "max_opt V = (if V = {} then None else Some (Max V))"

lemma max_opt_empty: "max_opt {} = None"
  by (simp add: max_opt_def)

lemma best_of_max_opt: "finite A \<Longrightarrow> finite B \<Longrightarrow> best_of (max_opt A) (max_opt B) = max_opt (A \<union> B)"
  by (simp add: best_of_def max_opt_def Max_Un)

lemma memo_value_memo_of [simp]: "memo_value (memo_of V) = max_opt V"
  by (simp add: memo_of_def max_opt_def)

lemma memo_of_max_opt [simp]: "(case max_opt V of None \<Rightarrow> NoVar | Some v \<Rightarrow> MaxVar v) = memo_of V"
  by (simp add: memo_of_def max_opt_def)

lemma memo_of_not_Unknown [simp]: "memo_of V \<noteq> Unknown"
  by (simp add: memo_of_def)

text \<open>\<open>max_var\<close> changes the memo table only, and keeps its invariant.\<close>

definition same_terms :: "TermBank \<Rightarrow> TermBank \<Rightarrow> bool" where
  "same_terms b b' \<longleftrightarrow> nodes b' = nodes b \<and> dedup b' = dedup b \<and> (memo_ok b \<longrightarrow> memo_ok b')"

lemma same_terms_refl [simp]: "same_terms b b"
  by (simp add: same_terms_def)

lemma same_terms_trans: "same_terms a b \<Longrightarrow> same_terms b c \<Longrightarrow> same_terms a c"
  by (auto simp: same_terms_def)

lemma same_terms_to_legacy: "same_terms b b' \<Longrightarrow> to_legacy b' i = Some t \<longleftrightarrow> to_legacy b i = Some t"
  unfolding same_terms_def by (intro same_nodes_to_legacy) blast

lemma same_terms_ok: "same_terms b b' \<Longrightarrow> bank_ok b \<Longrightarrow> bank_ok b'"
  using same_nodes_node_at [of b' b] by (simp add: same_terms_def bank_ok_def nodes_ok_def)

lemma resize_same: "same_terms b (b\<lparr>max_var_memo := resize_memo n (max_var_memo b)\<rparr>)"
proof -
  let ?b = "b\<lparr>max_var_memo := resize_memo n (max_var_memo b)\<rparr>"
  have "to_legacy ?b i = Some t \<longleftrightarrow> to_legacy b i = Some t" for i t
    by (rule same_nodes_to_legacy) simp
  then show ?thesis
    by (auto simp: same_terms_def memo_ok_def resize_memo_def nth_append)
qed

lemma store_same:
  assumes "to_legacy b i = Some t"
  shows "same_terms b (b\<lparr>max_var_memo := (max_var_memo b)[unat i := memo_of (vars t)]\<rparr>)"
proof -
  let ?b = "b\<lparr>max_var_memo := (max_var_memo b)[unat i := memo_of (vars t)]\<rparr>"
  have leg: "to_legacy ?b j = Some u \<longleftrightarrow> to_legacy b j = Some u" for j u
    by (rule same_nodes_to_legacy) simp
  have "memo_ok ?b" if "memo_ok b"
    unfolding memo_ok_def
  proof (intro allI impI)
    fix j :: TermId assume j: "unat j < length (max_var_memo ?b)" "max_var_memo ?b ! unat j \<noteq> Unknown"
    show "\<exists>t. to_legacy ?b j = Some t \<and> max_var_memo ?b ! unat j = memo_of (vars t)"
    proof (cases "i = j")
      case True
      then show ?thesis using j assms leg [of i t] by (intro exI [of _ t]) simp
    next
      case False
      then have "unat i \<noteq> unat j" by (auto intro: unsigned_word_eqI [where 'a = nat])
      then show ?thesis using j that by (simp add: leg memo_ok_def)
    qed
  qed
  then show ?thesis by (simp add: same_terms_def)
qed

definition prepare :: "TermId \<Rightarrow> TermBank \<Rightarrow> TermBank" where
  "prepare i bank = (if length (max_var_memo bank) \<le> unat i
     then bank\<lparr>max_var_memo := resize_memo (unat i + 1) (max_var_memo bank)\<rparr> else bank)"

definition max_step :: "TermId \<Rightarrow> VarId option \<times> TermBank \<Rightarrow> (VarId option \<times> TermBank) option" where
  "max_step arg = (\<lambda>(best, bank). do { (r, bank) \<leftarrow> max_var arg bank; Some (best_of best r, bank) })"

definition max_compute :: "TermNode \<Rightarrow> TermBank \<Rightarrow> (MaxVarMemo \<times> TermBank) option" where
  "max_compute node bank = (case node of
       NVar v \<Rightarrow> Some (MaxVar v, bank)
     | NApp f args \<Rightarrow> do {
         (best, bank) \<leftarrow> foldM max_step args (None, bank);
         Some (case best of None \<Rightarrow> NoVar | Some v \<Rightarrow> MaxVar v, bank) })"

lemma max_var_unfold:
  "max_var i b = (case max_var_memo (prepare i b) ! unat i of
       MaxVar known \<Rightarrow> Some (Some known, prepare i b)
     | NoVar \<Rightarrow> Some (None, prepare i b)
     | Unknown \<Rightarrow> do {
         node \<leftarrow> node_at (prepare i b) i;
         (computed, bank) \<leftarrow> max_compute node (prepare i b);
         Some (memo_value computed,
           bank\<lparr>max_var_memo := (max_var_memo bank)[unat i := computed]\<rparr>) })"
  by (subst max_var.simps) (simp only: prepare_def Let_def max_compute_def max_step_def [abs_def])

lemma prepare_same: "same_terms b (prepare i b)" "unat i < length (max_var_memo (prepare i b))"
  using resize_same [of b "unat i + 1"] by (simp_all add: prepare_def resize_memo_def)

lemma max_fold:
  assumes "\<And>n b. n < length ts \<Longrightarrow> memo_ok b \<Longrightarrow> to_legacy b (args ! n) = Some (ts ! n) \<Longrightarrow>
      \<exists>b'. max_var (args ! n) b = Some (max_opt (vars (ts ! n)), b') \<and> same_terms b b'"
    and "mapM (to_legacy b) args = Some ts" "memo_ok b" "finite V"
  shows "\<exists>b'. foldM max_step args (max_opt V, b) = Some (max_opt (V \<union> (\<Union>t \<in> set ts. vars t)), b') \<and>
      same_terms b b'"
  using assms
proof (induction args arbitrary: ts V b)
  case Nil
  then show ?case by simp
next
  case (Cons a args)
  then obtain t us where ts: "ts = t # us" "to_legacy b a = Some t" "mapM (to_legacy b) args = Some us"
    by (auto simp: bind_eq_Some_conv)
  obtain b1 where b1: "max_var a b = Some (max_opt (vars t), b1)" "same_terms b b1"
    using Cons.prems(1) [of 0 b] Cons.prems(3) ts by auto
  have us: "mapM (to_legacy b1) args = Some us"
    using ts(3) same_terms_to_legacy [OF b1(2)] by (simp add: mapM_Some_iff)
  have hyp: "\<exists>b'. max_var (args ! n) b = Some (max_opt (vars (us ! n)), b') \<and> same_terms b b'"
    if "n < length us" "memo_ok b" "to_legacy b (args ! n) = Some (us ! n)" for n b
    using Cons.prems(1) [of "Suc n" b] that ts(1) by simp
  have ok: "memo_ok b1" "finite (V \<union> vars t)"
    using b1(2) Cons.prems(3,4) by (simp_all add: same_terms_def)
  obtain b2 where b2: "foldM max_step args (max_opt (V \<union> vars t), b1)
      = Some (max_opt (V \<union> vars t \<union> (\<Union>t \<in> set us. vars t)), b2)" "same_terms b1 b2"
    using Cons.IH [OF hyp us ok] by blast
  have "max_step a (max_opt V, b) = Some (max_opt (V \<union> vars t), b1)"
    using b1(1) Cons.prems(4) by (simp add: max_step_def best_of_max_opt)
  moreover have "V \<union> vars t \<union> (\<Union>t \<in> set us. vars t) = V \<union> (\<Union>t \<in> set ts. vars t)"
    by (simp add: ts(1) Un_assoc)
  ultimately show ?case using b2 same_terms_trans [OF b1(2) b2(2)] by (intro exI [of _ b2]) simp
qed

lemma max_var_known:
  assumes "max_var_memo (prepare i b) ! unat i \<noteq> Unknown" "memo_ok b" "to_legacy b i = Some t"
  shows "max_var i b = Some (max_opt (vars t), prepare i b)"
proof -
  have "memo_ok (prepare i b)" using prepare_same(1) [of b i] assms(2) by (simp add: same_terms_def)
  moreover have leg: "to_legacy (prepare i b) i = Some u \<longleftrightarrow> to_legacy b i = Some u" for u
    by (rule same_terms_to_legacy [OF prepare_same(1)])
  ultimately obtain u where "to_legacy (prepare i b) i = Some u"
    "max_var_memo (prepare i b) ! unat i = memo_of (vars u)"
    using assms(1) prepare_same(2) [of i b] unfolding memo_ok_def by blast
  then have "max_var_memo (prepare i b) ! unat i = memo_of (vars t)"
    using assms(3) leg by simp
  then show ?thesis by (simp add: max_var_unfold [of i b] memo_of_def max_opt_def)
qed

lemma max_var_unknown:
  assumes "max_var_memo (prepare i b) ! unat i = Unknown" "to_legacy b i = Some t"
    and "node_at b i = Some node" "max_compute node (prepare i b) = Some (memo_of (vars t), b1)"
    and "same_terms (prepare i b) b1"
  shows "\<exists>b'. max_var i b = Some (max_opt (vars t), b') \<and> same_terms b b'"
proof -
  have same: "same_terms b b1" by (rule same_terms_trans [OF prepare_same(1) assms(5)])
  have "node_at (prepare i b) i = Some node"
    using assms(3) fun_cong [OF same_nodes_node_at [of "prepare i b" b], of i] by (simp add: prepare_def)
  then have "max_var i b = Some (max_opt (vars t),
      b1\<lparr>max_var_memo := (max_var_memo b1)[unat i := memo_of (vars t)]\<rparr>)"
    using assms(1,4) by (simp add: max_var_unfold [of i b])
  moreover have "to_legacy b1 i = Some t" using same_terms_to_legacy [OF same] assms(2) by blast
  ultimately show ?thesis using same_terms_trans [OF same store_same] by blast
qed

lemma max_var_eq:
  "memo_ok b \<Longrightarrow> to_legacy b i = Some t \<Longrightarrow>
     \<exists>b'. max_var i b = Some (max_opt (vars t), b') \<and> same_terms b b'"
proof (induction t arbitrary: i b)
  case (Var v)
  show ?case
  proof (cases "max_var_memo (prepare i b) ! unat i = Unknown")
    case True
    have "max_compute (NVar v) (prepare i b) = Some (memo_of (vars (Var v)), prepare i b)"
      by (simp add: max_compute_def memo_of_def)
    from max_var_unknown [OF True Var.prems(2) _ this same_terms_refl] Var.prems(2)
    show ?thesis by (simp add: to_legacy_Var)
  next
    case False
    then show ?thesis using max_var_known [OF False Var.prems] prepare_same(1) by blast
  qed
next
  case (App f ts)
  let ?b = "prepare i b"
  show ?case
  proof (cases "max_var_memo ?b ! unat i = Unknown")
    case True
    obtain args where args: "node_at b i = Some (NApp f args)" "mapM (to_legacy b) args = Some ts"
      using App.prems(2) by (auto simp: to_legacy_App)
    have b: "mapM (to_legacy ?b) args = Some ts" "memo_ok ?b"
      using App.prems(1) args(2) prepare_same(1) [of b i] same_terms_to_legacy [OF prepare_same(1)]
      by (simp_all add: same_terms_def mapM_Some_iff)
    have hyp: "\<exists>b'. max_var (args ! n) b = Some (max_opt (vars (ts ! n)), b') \<and> same_terms b b'"
      if "n < length ts" "memo_ok b" "to_legacy b (args ! n) = Some (ts ! n)" for n b
      using App.IH [of "ts ! n"] that by simp
    obtain b1 where b1: "foldM max_step args (None, ?b) = Some (max_opt (vars (App f ts)), b1)"
      "same_terms ?b b1"
      using max_fold [OF hyp b, of "{}"] by (simp only: max_opt_empty vars.simps Un_empty_left) blast
    then have "max_compute (NApp f args) ?b = Some (memo_of (vars (App f ts)), b1)"
      by (simp add: max_compute_def del: vars.simps)
    from max_var_unknown [OF True App.prems(2) args(1) this b1(2)] show ?thesis .
  next
    case False
    then show ?thesis using max_var_known [OF False App.prems] prepare_same(1) by blast
  qed
qed

section \<open>Rewriting operations\<close>

text \<open>
  \<open>computes f Q t c t'\<close>: in every bank that satisfies \<open>Q\<close> and has room for \<open>c\<close> more nodes,
  \<open>f\<close> maps an identifier of \<open>t\<close> to one of \<open>t'\<close> and adds at most \<open>c\<close> nodes.
\<close>

definition stable :: "(TermBank \<Rightarrow> bool) \<Rightarrow> bool" where
  "stable Q \<longleftrightarrow> (\<forall>b b'. Q b \<longrightarrow> extends b b' \<longrightarrow> Q b')"

definition computes :: "(TermId \<Rightarrow> TermBank \<Rightarrow> (TermId \<times> TermBank) option) \<Rightarrow> (TermBank \<Rightarrow> bool)
    \<Rightarrow> Term \<Rightarrow> nat \<Rightarrow> Term \<Rightarrow> bool" where
  "computes f Q t c t' \<longleftrightarrow> (\<forall>b i n. Q b \<longrightarrow> to_legacy b i = Some t \<longrightarrow> room b (c + n) \<longrightarrow>
     (\<exists>j b'. f i b = Some (j, b') \<and> grows b c b' \<and> room b' n \<and> to_legacy b' j = Some t'))"

lemma computesD:
  assumes "computes f Q t c t'" "Q b" "to_legacy b i = Some t" "room b (c + n)"
  obtains j b' where "f i b = Some (j, b')" "grows b c b'" "room b' n" "to_legacy b' j = Some t'"
  using assms unfolding computes_def by blast

lemma grows_extends: "grows b n b' \<Longrightarrow> extends b b'"
  by (simp add: grows_def)

lemma grows_to_legacy: "grows b n b' \<Longrightarrow> to_legacy b i = Some t \<Longrightarrow> to_legacy b' i = Some t"
  by (rule extends_to_legacy [OF grows_extends])

lemma grows_mapM: "grows b n b' \<Longrightarrow> mapM (to_legacy b) is = Some ts \<Longrightarrow> mapM (to_legacy b') is = Some ts"
  by (rule extends_mapM [OF grows_extends])

lemma computes_list:
  assumes "stable Q"
  shows "\<forall>t \<in> set ts. computes f Q t (c t) (g t) \<Longrightarrow> Q b \<Longrightarrow> mapM (to_legacy b) args = Some ts \<Longrightarrow>
    room b (sum_list (map c ts) + n) \<Longrightarrow>
    \<exists>js b'. mapM_st f args b = Some (js, b') \<and> grows b (sum_list (map c ts)) b' \<and> room b' n \<and>
      mapM (to_legacy b') js = Some (map g ts)"
proof (induction args arbitrary: ts b)
  case Nil
  then show ?case by (auto simp: grows_refl room_def)
next
  case (Cons a args)
  then obtain t us where ts: "ts = t # us" "to_legacy b a = Some t" "mapM (to_legacy b) args = Some us"
    by (auto simp: bind_eq_Some_conv)
  have "room b (c t + (sum_list (map c us) + n))" using Cons.prems(4) ts(1) by (simp add: add.assoc)
  then obtain j b1 where b1: "f a b = Some (j, b1)" "grows b (c t) b1" "room b1 (sum_list (map c us) + n)"
    "to_legacy b1 j = Some (g t)"
    using computesD [where Q = Q and b = b and f = f and t = t] Cons.prems(1,2) ts(1,2)
    by (metis list.set_intros(1))
  have "Q b1" using Cons.prems(2) b1(2) assms grows_extends unfolding stable_def by blast
  then obtain js b2 where b2: "mapM_st f args b1 = Some (js, b2)" "grows b1 (sum_list (map c us)) b2"
    "room b2 n" "mapM (to_legacy b2) js = Some (map g us)"
    using Cons.IH [of us b1] Cons.prems(1) ts grows_mapM [OF b1(2) ts(3)] b1(3) by auto
  then show ?case using b1(1) ts(1) grows_trans [OF b1(2) b2(2)] grows_to_legacy [OF b2(2) b1(4)] by auto
qed

text \<open>An application rebuilt from rewritten arguments, or kept when no argument changed.\<close>

lemma rebuild_app:
  assumes "room b (Suc n)" "mapM (to_legacy b) js = Some us" "node_at b i = Some (NApp f args)"
  obtains k b' where "(if js = args then (i, b) else intern_app f js b) = (k, b')" "grows b 1 b'"
    "room b' n" "to_legacy b' k = Some (App f us)"
proof (cases "js = args")
  case True
  have "grows b 1 b" "room b n" "to_legacy b i = Some (App f us)"
    using assms True by (auto simp: to_legacy_App grows_def room_def)
  then show thesis using that [of i b] True by simp
next
  case False
  obtain k b' where "intern_app f js b = (k, b')" by fastforce
  then show thesis using that [of k b'] False intern_app_room [OF assms(1,2)] by simp
qed

lemma substitute_var_computes:
  "computes (substitute_var v r) (\<lambda>b. to_legacy b r = Some u) t (term_size t) (inst (Var(v := u)) t)"
proof (induction t)
  case (Var w)
  show ?case unfolding computes_def
    by (subst substitute_var.simps) (auto simp: to_legacy_Var grows_def room_def)
next
  case (App f ts)
  let ?Q = "\<lambda>b. to_legacy b r = Some u"
  have stable: "stable ?Q" by (simp add: stable_def extends_to_legacy)
  show ?case unfolding computes_def
  proof (intro allI impI)
    fix b i n assume h: "?Q b" "to_legacy b i = Some (App f ts)" "room b (term_size (App f ts) + n)"
    obtain args where args: "node_at b i = Some (NApp f args)" "mapM (to_legacy b) args = Some ts"
      using h(2) by (auto simp: to_legacy_App)
    obtain js b1 where b1: "mapM_st (substitute_var v r) args b = Some (js, b1)"
      "grows b (sum_list (map term_size ts)) b1" "room b1 (Suc n)"
      "mapM (to_legacy b1) js = Some (map (inst (Var(v := u))) ts)"
      using computes_list [OF stable, of ts "substitute_var v r" term_size "inst (Var(v := u))" b args "Suc n"]
        App h(1,3) args(2) by auto
    obtain k b2 where b2: "(if js = args then (i, b1) else intern_app f js b1) = (k, b2)"
      "grows b1 1 b2" "room b2 n" "to_legacy b2 k = Some (App f (map (inst (Var(v := u))) ts))"
      using rebuild_app [OF b1(3,4)] extends_node_at [OF grows_extends [OF b1(2)] args(1)] by blast
    have "substitute_var v r i b = Some (k, b2)"
      using b1(1) b2(1) by (subst substitute_var.simps) (auto simp: args(1) split: if_splits)
    then show "\<exists>j b'. substitute_var v r i b = Some (j, b') \<and> grows b (term_size (App f ts)) b' \<and>
        room b' n \<and> to_legacy b' j = Some (inst (Var(v := u)) (App f ts))"
      using b2(3,4) grows_trans [OF b1(2) b2(2)] by auto
  qed
qed

section \<open>Positions\<close>

lemma id_subterm_at_eq:
  "to_legacy b i = Some t \<Longrightarrow>
     (case subterm_at t p of
        None \<Rightarrow> id_subterm_at b i p = Some None
      | Some s \<Rightarrow> \<exists>j. id_subterm_at b i p = Some (Some j) \<and> to_legacy b j = Some s)"
proof (induction p arbitrary: i t)
  case (Cons h p)
  show ?case
  proof (cases t)
    case (Var v)
    then show ?thesis using Cons.prems by (simp add: to_legacy_Var)
  next
    case (App f ts)
    then obtain args where "node_at b i = Some (NApp f args)" "length args = length ts"
      "\<And>n. n < length ts \<Longrightarrow> to_legacy b (args ! n) = Some (ts ! n)"
      using Cons.prems by (auto simp: to_legacy_App mapM_Some_iff)
    then show ?thesis
      using Cons.IH [of "args ! h" "ts ! h"] App
      by (cases "h < length ts"; cases "subterm_at (ts ! h) p") simp_all
  qed
qed simp

text \<open>Replacing at a valid position is replacement in the term.\<close>

lemma id_replace_at_computes:
  "replace_at t p u = Some t' \<Longrightarrow>
     computes (\<lambda>i. id_replace_at i p r) (\<lambda>b. to_legacy b r = Some u) t (length p) t'"
proof (induction p arbitrary: t t')
  case Nil
  then show ?case by (auto simp: computes_def grows_def room_def)
next
  case (Cons h p)
  then obtain f ts where t: "t = App f ts" "h < length ts" by (cases t) (auto split: if_splits)
  then obtain a where a: "replace_at (ts ! h) p u = Some a" "t' = App f (ts[h := a])"
    using Cons.prems by (auto simp: bind_eq_Some_conv)
  show ?case unfolding computes_def
  proof (intro allI impI)
    fix b i n assume h: "to_legacy b r = Some u" "to_legacy b i = Some t" "room b (length (h # p) + n)"
    obtain args where args: "node_at b i = Some (NApp f args)" "mapM (to_legacy b) args = Some ts"
      using h(2) t(1) by (auto simp: to_legacy_App)
    then have len: "length args = length ts" "to_legacy b (args ! h) = Some (ts ! h)"
      using t(2) by (auto simp: mapM_Some_iff)
    obtain j b1 where b1: "id_replace_at (args ! h) p r b = Some (j, b1)" "grows b (length p) b1"
      "room b1 (Suc n)" "to_legacy b1 j = Some a"
      using computesD [OF Cons.IH [OF a(1)] h(1) len(2), of "Suc n"] h(3) by auto
    have "mapM (to_legacy b1) (args[h := j]) = Some (ts[h := a])"
      using grows_mapM [OF b1(2) args(2)] b1(4) len(1) t(2)
      by (auto simp: mapM_Some_iff nth_list_update)
    moreover obtain k b2 where k: "intern_app f (args[h := j]) b1 = (k, b2)" by fastforce
    ultimately have b2: "grows b1 1 b2" "room b2 n" "to_legacy b2 k = Some (App f (ts[h := a]))"
      using intern_app_room [OF b1(3)] by blast+
    have "id_replace_at i (h # p) r b = Some (k, b2)"
      using args(1) b1(1) k t(2) len(1) by simp
    then show "\<exists>j b'. id_replace_at i (h # p) r b = Some (j, b') \<and> grows b (length (h # p)) b' \<and>
        room b' n \<and> to_legacy b' j = Some t'"
      using b2 grows_trans [OF b1(2) b2(1)] a(2) by auto
  qed
qed

section \<open>Properties\<close>

text \<open>
  The memoised \<open>TermBank::max_var\<close> is the largest variable of the term: it returns on
  every identifier of a well-formed bank, whatever part of the memo table is filled, adds no
  node and keeps the bank well formed.
\<close>

theorem max_var_memo_correct:
  assumes "bank_ok b" "to_legacy b i = Some t"
  shows "\<exists>b'. max_var i b = Some (if vars t = {} then None else Some (Max (vars t)), b') \<and>
    bank_ok b' \<and> nodes b' = nodes b"
  using max_var_eq [of b i t] assms same_terms_ok unfolding bank_ok_def max_opt_def same_terms_def
  by (metis)

theorem max_var_memo_correct_witness:
  "\<exists>b'. max_var 3 example_bank = Some (Some 7, b') \<and> bank_ok b' \<and> nodes b' = nodes example_bank"
  using max_var_memo_correct [OF example_bank_ok example_ids(3)] by (simp add: example_term_def)

text \<open>
  \<open>TermBank::substitute_var\<close> on identifiers implements substitution on owned terms: it
  returns, the new identifier denotes the term with the variable replaced, and old identifiers
  keep their terms.
\<close>

theorem substitute_var_correct:
  assumes "bank_ok b" "length (nodes b) + term_size t \<le> 2 ^ 32"
    and "to_legacy b i = Some t" "to_legacy b r = Some u"
  shows "\<exists>j b'. substitute_var v r i b = Some (j, b') \<and> bank_ok b' \<and>
    to_legacy b' j = Some (inst (Var(v := u)) t) \<and>
    (\<forall>k s. to_legacy b k = Some s \<longrightarrow> to_legacy b' k = Some s)"
proof -
  have "room b (term_size t + 0)" using assms(1,2) by (simp add: room_def)
  from computesD [OF substitute_var_computes assms(4,3) this] obtain j b' where
    "substitute_var v r i b = Some (j, b')" "grows b (term_size t) b'"
    "to_legacy b' j = Some (inst (Var(v := u)) t)" by metis
  then show ?thesis using grows_to_legacy by (auto simp: grows_def)
qed

theorem substitute_var_correct_witness:
  "\<exists>j b'. substitute_var 7 0 3 example_bank = Some (j, b') \<and> bank_ok b' \<and>
    to_legacy b' j = Some (App 1 [Var 3, App 2 [Var 3]]) \<and>
    (\<forall>k s. to_legacy example_bank k = Some s \<longrightarrow> to_legacy b' k = Some s)"
  using substitute_var_correct [OF example_bank_ok _ example_ids(3,1), of 7]
  by (simp add: example_bank_nodes example_term_def)

text \<open>
  \<open>TermBank::replace_at\<close> refines \<open>Term::replace_at\<close>: where the owned operation succeeds the
  operation on identifiers returns an identifier of its result, and reading the subterm at the
  same position of the new term gives the replacement back.
\<close>

theorem id_replace_at_refines:
  assumes "bank_ok b" "length (nodes b) + length p \<le> 2 ^ 32"
    and "to_legacy b i = Some t" "to_legacy b r = Some u" "replace_at t p u = Some t'"
  shows "\<exists>j b'. id_replace_at i p r b = Some (j, b') \<and> bank_ok b' \<and> to_legacy b' j = Some t' \<and>
    id_subterm_at b' j p = Some (Some r)"
proof -
  have "room b (length p + 0)" using assms(1,2) by (simp add: room_def)
  from computesD [OF id_replace_at_computes [OF assms(5)] assms(4,3) this] obtain j b' where
    j: "id_replace_at i p r b = Some (j, b')" "grows b (length p) b'" "to_legacy b' j = Some t'" by metis
  then have r: "to_legacy b' r = Some u" "bank_ok b'"
    using assms(4) grows_to_legacy by (auto simp: grows_def)
  have "subterm_at t' p = Some u" using subterm_at_replace_at assms(5) by blast
  then obtain k where "id_subterm_at b' j p = Some (Some k)" "to_legacy b' k = Some u"
    using id_subterm_at_eq [OF j(3), of p] by auto
  moreover have "k = r" using calculation(2) r to_legacy_inject by (auto simp: bank_ok_def dest: nodes_ok_wf)
  ultimately show ?thesis using j r(2) by blast
qed


theorem id_replace_at_refines_witness:
  "\<exists>j b'. id_replace_at 3 [1, 0] 0 example_bank = Some (j, b') \<and> bank_ok b' \<and>
    to_legacy b' j = Some (App 1 [Var 3, App 2 [Var 3]]) \<and> id_subterm_at b' j [1, 0] = Some (Some 0)"
  by (rule id_replace_at_refines [OF example_bank_ok _ example_ids(3,1)])
    (simp_all add: example_bank_nodes example_term_def)

end
