(* ===== verification/IdSubst.thy ===== *)
theory IdSubst
  imports BankOps
begin

text \<open>
  Substitutions over identifiers: the ideal substitution a set of bindings stands for, and
  that \<open>IdSubstitution::apply_term\<close> computes it whenever the bindings are acyclic.
\<close>

definition is_id :: "TermBank \<Rightarrow> TermId \<Rightarrow> bool" where
  "is_id b i \<longleftrightarrow> (\<exists>t. to_legacy b i = Some t)"

text \<open>\<open>bound b s v\<close> is the term that \<open>s\<close> binds \<open>v\<close> to.\<close>

definition bound :: "TermBank \<Rightarrow> IdSubstitution \<Rightarrow> VarId \<Rightarrow> Term option" where
  "bound b s v = do { i \<leftarrow> id_get s v; to_legacy b i }"

definition subst_ok :: "TermBank \<Rightarrow> IdSubstitution \<Rightarrow> bool" where
  "subst_ok b s \<longleftrightarrow> (\<forall>v i. id_get s v = Some i \<longrightarrow> is_id b i)"

definition ranked :: "(VarId \<Rightarrow> Term option) \<Rightarrow> (VarId \<Rightarrow> nat) \<Rightarrow> bool" where
  "ranked m r \<longleftrightarrow> (\<forall>v t. m v = Some t \<longrightarrow> (\<forall>w \<in> vars t. r w < r v))"

definition acyclic_binds :: "(VarId \<Rightarrow> Term option) \<Rightarrow> bool" where
  "acyclic_binds m \<longleftrightarrow> (\<exists>r. ranked m r)"

text \<open>A closure replaces every variable by the full expansion of its binding.\<close>

definition closure :: "(VarId \<Rightarrow> Term option) \<Rightarrow> (VarId \<Rightarrow> Term) \<Rightarrow> bool" where
  "closure m \<theta> \<longleftrightarrow> (\<forall>v. \<theta> v = (case m v of None \<Rightarrow> Var v | Some t \<Rightarrow> inst \<theta> t))"

fun expand :: "(VarId \<Rightarrow> Term option) \<Rightarrow> nat \<Rightarrow> VarId \<Rightarrow> Term" where
  "expand m 0 v = Var v"
| "expand m (Suc k) v = (case m v of None \<Rightarrow> Var v | Some t \<Rightarrow> inst (expand m k) t)"

lemma expand_stable:
  "ranked m r \<Longrightarrow> r v < k \<Longrightarrow> expand m k v = expand m (Suc (r v)) v"
proof (induction "r v" arbitrary: v k rule: less_induct)
  case less
  obtain k' where k: "k = Suc k'" "r v \<le> k'" using less.prems(2) by (cases k) auto
  show ?case
  proof (cases "m v")
    case (Some t)
    have "expand m k' w = expand m (r v) w" if "w \<in> vars t" for w
    proof -
      have w: "r w < r v" using less.prems(1) Some that by (auto simp: ranked_def)
      then show ?thesis using less.hyps [OF w less.prems(1)] k(2) by (metis order.strict_trans2)
    qed
    then show ?thesis using Some k(1) by (simp cong: inst_cong)
  qed (simp add: k)
qed

lemma closure_exists: "acyclic_binds m \<Longrightarrow> \<exists>\<theta>. closure m \<theta>"
proof -
  assume "acyclic_binds m"
  then obtain r where r: "ranked m r" by (auto simp: acyclic_binds_def)
  let ?\<theta> = "\<lambda>v. expand m (Suc (r v)) v"
  have "?\<theta> v = (case m v of None \<Rightarrow> Var v | Some t \<Rightarrow> inst ?\<theta> t)" for v
  proof (cases "m v")
    case (Some t)
    have "expand m (r v) w = ?\<theta> w" if "w \<in> vars t" for w
      using expand_stable [OF r, of w "r v"] r Some that by (auto simp: ranked_def)
    then have "inst (expand m (r v)) t = inst ?\<theta> t" by (intro inst_cong)
    then show ?thesis using Some by simp
  qed simp
  then have "closure m ?\<theta>" unfolding closure_def by (rule allI)
  then show ?thesis by (rule exI [of _ ?\<theta>])
qed

lemma closure_unbound: "closure m \<theta> \<Longrightarrow> m v = None \<Longrightarrow> \<theta> v = Var v"
  unfolding closure_def by (metis option.simps(4))

lemma closure_bound: "closure m \<theta> \<Longrightarrow> m v = Some t \<Longrightarrow> \<theta> v = inst \<theta> t"
  unfolding closure_def by (metis option.simps(5))

text \<open>The variables of an expansion are unbound, so expanding twice changes nothing.\<close>

lemma closure_vars:
  assumes "ranked m r" "closure m \<theta>"
  shows "w \<in> vars (\<theta> v) \<Longrightarrow> m w = None"
proof (induction "r v" arbitrary: v rule: less_induct)
  case less
  show ?case
  proof (cases "m v")
    case None
    then show ?thesis using less.prems closure_unbound [OF assms(2)] by auto
  next
    case (Some t)
    then obtain u where "u \<in> vars t" "w \<in> vars (\<theta> u)"
      using less.prems closure_bound [OF assms(2) Some] by (auto simp: vars_inst)
    then show ?thesis using less.hyps [of u] assms(1) Some by (auto simp: ranked_def)
  qed
qed

lemma closure_idem:
  assumes "ranked m r" "closure m \<theta>"
  shows "inst \<theta> (inst \<theta> t) = inst \<theta> t"
proof -
  have "inst \<theta> (\<theta> v) = \<theta> v" for v
    using closure_vars [OF assms] closure_unbound [OF assms(2)] by (simp add: inst_id_iff)
  then show ?thesis by (simp add: inst_inst)
qed

text \<open>
  A solution gives every variable the value of its binding; each solution factors through
  the closure.
\<close>

definition solution :: "(VarId \<Rightarrow> Term option) \<Rightarrow> (VarId \<Rightarrow> Term) \<Rightarrow> bool" where
  "solution m \<sigma> \<longleftrightarrow> (\<forall>v t. m v = Some t \<longrightarrow> \<sigma> v = inst \<sigma> t)"

lemma closure_solution: "closure m \<theta> \<Longrightarrow> solution m \<theta>"
  by (simp add: solution_def closure_bound)

lemma solution_factors:
  assumes "ranked m r" "closure m \<theta>" "solution m \<sigma>"
  shows "inst \<sigma> (\<theta> v) = \<sigma> v"
proof (induction "r v" arbitrary: v rule: less_induct)
  case less
  show ?case
  proof (cases "m v")
    case None
    then show ?thesis using closure_unbound [OF assms(2)] by simp
  next
    case (Some t)
    have "inst \<sigma> (\<theta> w) = \<sigma> w" if "w \<in> vars t" for w
      using less [of w] that assms(1) Some by (auto simp: ranked_def)
    then have "inst \<sigma> (inst \<theta> t) = inst \<sigma> t" by (simp add: inst_inst cong: inst_cong)
    then show ?thesis using closure_bound [OF assms(2) Some] assms(3) Some by (simp add: solution_def)
  qed
qed

lemma solution_factors_term:
  assumes "ranked m r" "closure m \<theta>" "solution m \<sigma>"
  shows "inst \<sigma> (inst \<theta> t) = inst \<sigma> t"
  by (simp add: inst_inst solution_factors [OF assms] cong: inst_cong)

section \<open>Binding a variable\<close>

lemma ranked_bind:
  assumes r: "ranked m r" and th: "closure m \<theta>" and v: "m v = None" and occ: "v \<notin> vars (inst \<theta> t)"
  shows "acyclic_binds (m(v \<mapsto> t))"
proof -
  define K where "K = Suc (Max (insert 0 (r ` vars t)))"
  define r' where "r' x = r x + (if v \<in> vars (\<theta> x) then K else 0)" for x
  have K: "r w < K" if "w \<in> vars t" for w
    using that unfolding K_def by (intro le_imp_less_Suc Max_ge) auto
  have "ranked (m(v \<mapsto> t)) r'"
    unfolding ranked_def
  proof (intro allI impI ballI)
    fix x u w assume x: "(m(v \<mapsto> t)) x = Some u" and w: "w \<in> vars u"
    show "r' w < r' x"
    proof (cases "x = v")
      case True
      then have "w \<in> vars t" using x w by simp
      moreover have "v \<notin> vars (\<theta> w)" using occ calculation by (auto simp: vars_inst)
      moreover have "v \<in> vars (\<theta> v)" using closure_unbound [OF th v] by simp
      ultimately show ?thesis using True K [of w] by (simp add: r'_def)
    next
      case False
      then have mx: "m x = Some u" using x by simp
      have "r w < r x" using r mx w by (auto simp: ranked_def)
      moreover have "v \<in> vars (\<theta> x)" if "v \<in> vars (\<theta> w)"
        using that w closure_bound [OF th mx] by (auto simp: vars_inst)
      ultimately show ?thesis by (simp add: r'_def)
    qed
  qed
  then show ?thesis by (auto simp: acyclic_binds_def)
qed

lemma id_get_bind: "id_get (id_bind v i s) w = (if w = v then Some i else id_get s w)"
proof -
  have "unat w = unat v \<longleftrightarrow> w = v" by (auto intro: unsigned_word_eqI [where 'a = nat])
  then show ?thesis
    by (auto simp: id_get_def id_bind_def Let_def nth_append nth_list_update)
qed

lemma bound_bind: "bound b (id_bind v i s) w = (if w = v then to_legacy b i else bound b s w)"
  by (simp add: bound_def id_get_bind)

lemma id_get_new [simp]: "id_get id_new_subst v = None"
  by (simp add: id_get_def id_new_subst_def)

lemma bound_new [simp]: "bound b id_new_subst = Map.empty"
  by (simp add: bound_def fun_eq_iff)

lemma bound_extends: "subst_ok b s \<Longrightarrow> extends b b' \<Longrightarrow> bound b' s = bound b s"
  unfolding bound_def fun_eq_iff subst_ok_def is_id_def
  by (metis (no_types, lifting) extends_to_legacy bind.bind_lunit bind_eq_None_conv not_None_eq)

lemma subst_ok_extends: "subst_ok b s \<Longrightarrow> extends b b' \<Longrightarrow> subst_ok b' s"
  unfolding subst_ok_def is_id_def by (blast intro: extends_to_legacy)

section \<open>Application\<close>

text \<open>
  Following bindings from an identifier: both loops of the code that do it satisfy this
  equation.
\<close>

definition derefs :: "TermBank \<Rightarrow> IdSubstitution \<Rightarrow> (TermId \<Rightarrow> TermId option) \<Rightarrow> bool" where
  "derefs b s f \<longleftrightarrow> (\<forall>i. f i = do {
     node \<leftarrow> node_at b i;
     case node of
       NVar v \<Rightarrow> (case id_get s v of Some nxt \<Rightarrow> f nxt | None \<Rightarrow> Some i)
     | NApp g args \<Rightarrow> Some i })"

lemma derefs_loop: "derefs b s (id_deref_loop s b)"
  unfolding derefs_def by (intro allI) (rule id_deref_loop.simps)

lemma derefsD: "derefs b s f \<Longrightarrow> f i = do {
     node \<leftarrow> node_at b i;
     case node of
       NVar v \<Rightarrow> (case id_get s v of Some nxt \<Rightarrow> f nxt | None \<Rightarrow> Some i)
     | NApp g args \<Rightarrow> Some i }"
  unfolding derefs_def by (erule spec)

lemma deref_result:
  assumes f: "derefs b s f" and "subst_ok b s" "ranked (bound b s) r"
  shows "to_legacy b i = Some t \<Longrightarrow>
    \<exists>j u. f i = Some j \<and> to_legacy b j = Some u \<and>
      (\<forall>v. u = Var v \<longrightarrow> id_get s v = None) \<and>
      (\<forall>\<sigma>. solution (bound b s) \<sigma> \<longrightarrow> inst \<sigma> u = inst \<sigma> t) \<and>
      (u = t \<or> (\<exists>v. bound b s v = Some u))"
proof (induction "case t of Var v \<Rightarrow> Suc (r v) | App f ts \<Rightarrow> 0" arbitrary: t i rule: less_induct)
  case less
  show ?case
  proof (cases t)
    case (App g ts)
    then obtain args where "node_at b i = Some (NApp g args)" using less.prems by (auto simp: to_legacy_App)
    then have "f i = Some i" by (simp add: derefsD [OF f, of i])
    then show ?thesis using less.prems App by blast
  next
    case (Var v)
    then have node: "node_at b i = Some (NVar v)" using less.prems by (simp add: to_legacy_Var)
    show ?thesis
    proof (cases "id_get s v")
      case None
      then have "f i = Some i" using node by (simp add: derefsD [OF f, of i])
      then show ?thesis using less.prems Var None by blast
    next
      case (Some nxt)
      then obtain u where u: "to_legacy b nxt = Some u" using assms(2) by (auto simp: subst_ok_def is_id_def)
      then have bd: "bound b s v = Some u" using Some by (simp add: bound_def)
      have "f i = f nxt" using node Some by (subst derefsD [OF f]) simp
      moreover have "(case u of Var w \<Rightarrow> Suc (r w) | App f ts \<Rightarrow> 0) < (case t of Var v \<Rightarrow> Suc (r v) | App f ts \<Rightarrow> 0)"
        using assms(3) bd Var by (auto simp: ranked_def split: Term.split)
      moreover have "inst \<sigma> u = inst \<sigma> t" if "solution (bound b s) \<sigma>" for \<sigma>
        using that bd Var by (simp add: solution_def)
      ultimately show ?thesis using less.hyps [OF _ u] bd by metis
    qed
  qed
qed

text \<open>The bank a substitution lives in keeps its bindings, and they stay acyclic.\<close>

definition expands :: "IdSubstitution \<Rightarrow> (VarId \<Rightarrow> Term option) \<Rightarrow> TermBank \<Rightarrow> bool" where
  "expands s m b \<longleftrightarrow> subst_ok b s \<and> bound b s = m"

lemma expands_stable: "stable (expands s m)"
  unfolding stable_def expands_def using bound_extends subst_ok_extends by metis

lemma id_apply_term_computes:
  assumes r: "ranked m r" and th: "closure m \<theta>"
  shows "computes (id_apply_term s) (expands s m) t (term_size (inst \<theta> t)) (inst \<theta> t)"
proof (induction "term_size (inst \<theta> t)" arbitrary: t rule: less_induct)
  case less
  show ?case unfolding computes_def
  proof (intro allI impI)
    fix b i n
    assume e: "expands s m b" and i: "to_legacy b i = Some t" and room: "room b (term_size (inst \<theta> t) + n)"
    have ok: "subst_ok b s" "bound b s = m" using e by (simp_all add: expands_def)
    let ?goal = "\<exists>j b'. id_apply_term s i b = Some (j, b') \<and> grows b (term_size (inst \<theta> t)) b' \<and>
        room b' n \<and> to_legacy b' j = Some (inst \<theta> t)"
    have stay: "grows b k b" "room b n" for k
      using room by (auto simp: grows_def room_def)
    show ?goal
    proof (cases "id_bindings s = []")
      case True
      then have "m = Map.empty" using ok(2) by (auto simp: bound_def id_get_def)
      then have "\<theta> = Var" using th by (auto simp: closure_def)
      then show ?thesis using True i stay by (subst id_apply_term.simps) simp
    next
      case False
      obtain j u where j: "id_deref_loop s b i = Some j" "to_legacy b j = Some u"
        "\<And>v. u = Var v \<Longrightarrow> id_get s v = None" "inst \<theta> u = inst \<theta> t"
        using deref_result [OF derefs_loop ok(1), of r i t] r i closure_solution [OF th] ok(2) by auto
      show ?thesis
      proof (cases u)
        case (Var v)
        then have "m v = None" using j(3) ok(2) by (auto simp: bound_def)
        then have "inst \<theta> t = Var v" using j(4) Var closure_unbound [OF th] by simp
        moreover have "id_apply_term s i b = Some (j, b)"
          using False j(1,2) Var by (subst id_apply_term.simps) (simp add: to_legacy_Var)
        ultimately show ?thesis using stay j(2) Var by simp
      next
        case (App f ts)
        then obtain args where args: "node_at b j = Some (NApp f args)" "mapM (to_legacy b) args = Some ts"
          using j(2) by (auto simp: to_legacy_App)
        have t: "inst \<theta> t = App f (map (inst \<theta>) ts)" using j(4) App by simp
        have IH: "\<forall>a \<in> set ts. computes (id_apply_term s) (expands s m) a (term_size (inst \<theta> a)) (inst \<theta> a)"
        proof
          fix a assume "a \<in> set ts"
          from size_inst_arg [OF this, of \<theta> f] show
            "computes (id_apply_term s) (expands s m) a (term_size (inst \<theta> a)) (inst \<theta> a)"
            using less t by simp
        qed
        have "room b (sum_list (map (\<lambda>a. term_size (inst \<theta> a)) ts) + Suc n)"
          using room t by (simp add: comp_def add.commute)
        from computes_list [OF expands_stable IH e args(2) this] obtain js b1 where
          b1: "mapM_st (id_apply_term s) args b = Some (js, b1)"
            "grows b (sum_list (map (\<lambda>a. term_size (inst \<theta> a)) ts)) b1" "room b1 (Suc n)"
            "mapM (to_legacy b1) js = Some (map (inst \<theta>) ts)" by auto
        obtain k b2 where b2: "(if js = args then (j, b1) else intern_app f js b1) = (k, b2)"
          "grows b1 1 b2" "room b2 n" "to_legacy b2 k = Some (App f (map (inst \<theta>) ts))"
          using rebuild_app [OF b1(3,4)] extends_node_at [OF grows_extends [OF b1(2)] args(1)] by blast
        have "id_apply_term s i b = Some (k, b2)"
          using False j(1) args(1) b1(1) b2(1) by (subst id_apply_term.simps) simp
        then show ?thesis using b2(3,4) grows_trans [OF b1(2) b2(2)] t by (auto simp: comp_def)
      qed
    qed
  qed
qed

end
