(* ===== verification/Symbols.thy ===== *)
theory Symbols
  imports Terms Interner
begin

text \<open>
  Symbol interning, \<open>crates/mrs-core/src/symbol.rs\<close>: the bidirectional table between names
  and \<open>SymbolId\<close>s, and fresh symbols. The invariant \<open>table_ok\<close> says that the two directions
  agree and that the ids fit in their 32 bits.
\<close>

record SymbolTable =
  names :: "string list"
  ids :: "(string, SymbolId) fmap"
  fresh_counters :: "(string, nat) fmap"

definition new_table :: SymbolTable where
  "new_table = \<lparr>names = [], ids = fmempty, fresh_counters = fmempty\<rparr>"

definition intern :: "string \<Rightarrow> SymbolTable \<Rightarrow> SymbolId \<times> SymbolTable" where
  "intern name st =
     (case fmlookup (ids st) name of
        Some e \<Rightarrow> (e, st)
      | None \<Rightarrow> (let sid = of_nat (length (names st))
                 in (sid, st\<lparr>names := names st @ [name], ids := fmupd name sid (ids st)\<rparr>)))"

definition resolve_name :: "string \<Rightarrow> SymbolTable \<Rightarrow> SymbolId option" where
  "resolve_name name st = fmlookup (ids st) name"

text \<open>\<open>None\<close> is the panic of an sid the table did not produce.\<close>

definition resolve :: "SymbolId \<Rightarrow> SymbolTable \<Rightarrow> string option" where
  "resolve sid st = (if unat sid < length (names st) then Some (names st ! unat sid) else None)"

definition table_len :: "SymbolTable \<Rightarrow> nat" where
  "table_len st = length (names st)"

text \<open>Decimal rendering of a counter, as \<open>format!\<close> does.\<close>

fun show_nat :: "nat \<Rightarrow> string" where
  "show_nat n = (if n < 10 then [char_of (48 + n)] else show_nat (n div 10) @ [char_of (48 + n mod 10)])"

declare show_nat.simps [simp del]

definition effective_prefix :: "string \<Rightarrow> string" where
  "effective_prefix base_prefix = (if base_prefix = '''' then ''fresh'' else base_prefix)"

definition fresh_name :: "string \<Rightarrow> nat \<Rightarrow> string" where
  "fresh_name prefix count = prefix @ ''_'' @ show_nat count"

text \<open>
  The \<open>loop\<close> of \<open>fresh_symbol\<close>. It could run forever on a table whose every candidate name
  is taken; \<open>fresh_symbol_returns\<close> below shows that this never happens.
\<close>

partial_function (option) fresh_loop :: "string \<Rightarrow> SymbolTable \<Rightarrow> (SymbolId \<times> SymbolTable) option" where
  "fresh_loop prefix st =
     (let count = (case fmlookup (fresh_counters st) prefix of None \<Rightarrow> 0 | Some c \<Rightarrow> c);
          name = fresh_name prefix count;
          st' = st\<lparr>fresh_counters := fmupd prefix (Suc count) (fresh_counters st)\<rparr>
      in if fmlookup (ids st') name = None then Some (intern name st') else fresh_loop prefix st')"

definition fresh_symbol :: "string \<Rightarrow> SymbolTable \<Rightarrow> (SymbolId \<times> SymbolTable) option" where
  "fresh_symbol base_prefix st = fresh_loop (effective_prefix base_prefix) st"

subsection \<open>The invariant\<close>

definition table_ok :: "SymbolTable \<Rightarrow> bool" where
  "table_ok st \<longleftrightarrow> length (names st) \<le> 2 ^ 32 \<and> distinct (names st) \<and>
     (\<forall>name sid. fmlookup (ids st) name = Some sid \<longleftrightarrow>
        unat sid < length (names st) \<and> names st ! unat sid = name)"

lemma table_okD:
  assumes "table_ok st"
  shows "fmlookup (ids st) name = Some sid \<longleftrightarrow> resolve sid st = Some name"
  using assms by (auto simp: table_ok_def resolve_def)

lemma new_table_ok: "table_ok new_table"
  by (simp add: table_ok_def new_table_def)

lemma resolve_inject:
  assumes "table_ok st" "resolve i st = Some n" "resolve j st = Some n"
  shows "i = j"
  using assms by (metis table_okD option.inject)

lemma lookup_None_iff:
  assumes "table_ok st"
  shows "fmlookup (ids st) name = None \<longleftrightarrow> name \<notin> set (names st)"
proof -
  have "(\<exists>sid. fmlookup (ids st) name = Some sid) \<longleftrightarrow> name \<in> set (names st)"
  proof
    assume "name \<in> set (names st)"
    then obtain i where i: "i < length (names st)" "names st ! i = name"
      by (auto simp: in_set_conv_nth)
    moreover have "i < 2 ^ 32" using i(1) assms by (simp add: table_ok_def)
    ultimately have "fmlookup (ids st) name = Some (of_nat i)"
      using assms by (auto simp: table_ok_def unat_of_nat_u32)
    then show "\<exists>sid. fmlookup (ids st) name = Some sid" ..
  qed (use assms in \<open>force simp: table_ok_def\<close>)
  then show ?thesis by auto
qed

lemma intern_old:
  "fmlookup (ids st) name = Some sid \<Longrightarrow> intern name st = (sid, st)"
  by (simp add: intern_def)

lemma intern_new:
  assumes "fmlookup (ids st) name = None"
  shows "intern name st = (of_nat (length (names st)),
    st\<lparr>names := names st @ [name], ids := fmupd name (of_nat (length (names st))) (ids st)\<rparr>)"
  using assms by (simp add: intern_def Let_def)

lemma intern_names_mono: "length (names st) \<le> length (names (snd (intern name st)))"
  by (simp add: intern_def Let_def split: option.split)

lemma intern_table_ok:
  assumes ok: "table_ok st" and fits: "length (names (snd (intern name st))) \<le> 2 ^ 32"
  shows "table_ok (snd (intern name st))"
proof (cases "fmlookup (ids st) name")
  case None
  then have new: "name \<notin> set (names st)" by (simp add: lookup_None_iff ok)
  let ?n = "length (names st)"
  have n: "unat (of_nat ?n :: u32) = ?n"
    using fits None by (intro unat_of_nat_u32) (simp add: intern_new)
  have eq: "sid = of_nat ?n" if "unat sid = ?n" for sid :: u32
    using that by (metis of_nat_unat ucast_id)
  let ?w = "of_nat ?n :: u32"
  have old: "fmlookup (ids st) nm = Some i \<longleftrightarrow> unat i < ?n \<and> names st ! unat i = nm" for nm i
    using ok by (simp add: table_ok_def)
  have "fmlookup (fmupd name ?w (ids st)) nm = Some i \<longleftrightarrow>
      unat i < Suc ?n \<and> (names st @ [name]) ! unat i = nm" for nm i
  proof (cases "unat i = ?n")
    case True
    then have "i = ?w" by (rule eq)
    then show ?thesis using n old by (auto simp: nth_append)
  next
    case False
    then have "i \<noteq> ?w" using n by auto
    then show ?thesis using False old new by (auto simp: nth_append less_Suc_eq)
  qed
  then show ?thesis using ok new fits by (simp add: table_ok_def intern_new [OF None])
qed (use ok in \<open>simp add: intern_old\<close>)

lemma intern_resolve:
  assumes "table_ok st" and "length (names (snd (intern name st))) \<le> 2 ^ 32"
  shows "resolve (fst (intern name st)) (snd (intern name st)) = Some name"
proof (cases "fmlookup (ids st) name")
  case None
  then show ?thesis using assms by (simp add: intern_new resolve_def unat_of_nat_u32)
next
  case (Some sid)
  then show ?thesis using assms by (simp add: intern_old table_okD [symmetric])
qed

lemma intern_keeps:
  "resolve sid st = Some n \<Longrightarrow> resolve sid (snd (intern name st)) = Some n"
  by (auto simp: intern_def resolve_def Let_def nth_append split: option.splits if_splits)

subsection \<open>Fresh symbols\<close>

definition read_nat :: "string \<Rightarrow> nat" where
  "read_nat s = foldl (\<lambda>a c. 10 * a + (of_char c - 48)) 0 s"

lemma read_show_nat: "read_nat (show_nat n) = n"
proof (induction n rule: show_nat.induct)
  case (1 n)
  have digit: "of_char (char_of (48 + d) :: char) - 48 = d" if "d < 10" for d :: nat
    using that by simp
  show ?case
  proof (cases "n < 10")
    case True
    then show ?thesis using digit [of n] by (simp add: show_nat.simps [of n] read_nat_def)
  next
    case False
    then show ?thesis using 1 digit [of "n mod 10"]
      by (simp add: show_nat.simps [of n] read_nat_def)
  qed
qed

lemma fresh_name_inject [simp]: "fresh_name p m = fresh_name p n \<longleftrightarrow> m = n"
  by (auto simp: fresh_name_def) (metis read_show_nat)

definition counter_of :: "string \<Rightarrow> SymbolTable \<Rightarrow> nat" where
  "counter_of prefix st = (case fmlookup (fresh_counters st) prefix of None \<Rightarrow> 0 | Some c \<Rightarrow> c)"

definition taken :: "string \<Rightarrow> SymbolTable \<Rightarrow> nat set" where
  "taken prefix st = {n. counter_of prefix st \<le> n \<and> fmlookup (ids st) (fresh_name prefix n) \<noteq> None}"

lemma finite_taken: "finite (taken prefix st)"
proof (rule finite_subset)
  show "taken prefix st \<subseteq> fresh_name prefix -` fmdom' (ids st)"
    by (auto simp: taken_def fmlookup_dom'_iff)
  show "finite (fresh_name prefix -` fmdom' (ids st))"
    by (rule finite_vimageI) (simp_all add: inj_def)
qed

text \<open>
  What one call of the loop promises: it returns, the name was free in the table it started
  from, and the counter of its prefix has moved past the count it used.
\<close>

definition fresh_result :: "string \<Rightarrow> SymbolTable \<Rightarrow> SymbolId \<times> SymbolTable \<Rightarrow> bool" where
  "fresh_result prefix st r \<longleftrightarrow> (\<exists>n fc. counter_of prefix st \<le> n \<and>
     fmlookup (ids st) (fresh_name prefix n) = None \<and>
     (\<forall>m. counter_of prefix st \<le> m \<longrightarrow> m < n \<longrightarrow> fmlookup (ids st) (fresh_name prefix m) \<noteq> None) \<and>
     fmlookup fc prefix = Some (Suc n) \<and>
     r = intern (fresh_name prefix n) (st\<lparr>fresh_counters := fc\<rparr>))"

lemma fresh_loop_result: "\<exists>r. fresh_loop prefix st = Some r \<and> fresh_result prefix st r"
proof (induction "card (taken prefix st)" arbitrary: st rule: less_induct)
  case less
  let ?c = "counter_of prefix st"
  let ?st = "st\<lparr>fresh_counters := fmupd prefix (Suc ?c) (fresh_counters st)\<rparr>"
  have loop: "fresh_loop prefix st =
    (if fmlookup (ids st) (fresh_name prefix ?c) = None
     then Some (intern (fresh_name prefix ?c) ?st) else fresh_loop prefix ?st)"
    by (subst fresh_loop.simps) (simp add: Let_def counter_of_def)
  have next_c: "counter_of prefix ?st = Suc ?c" by (simp add: counter_of_def)
  show ?case
  proof (cases "fmlookup (ids st) (fresh_name prefix ?c) = None")
    case True
    then show ?thesis unfolding loop fresh_result_def
      by (auto intro!: exI [of _ ?c] exI [of _ "fmupd prefix (Suc ?c) (fresh_counters st)"])
  next
    case False
    have "taken prefix ?st \<subset> taken prefix st"
    proof
      show "taken prefix ?st \<subseteq> taken prefix st" unfolding taken_def next_c by auto
      have "?c \<in> taken prefix st" "?c \<notin> taken prefix ?st"
        using False unfolding taken_def next_c by auto
      then show "taken prefix ?st \<noteq> taken prefix st" by blast
    qed
    then have "card (taken prefix ?st) < card (taken prefix st)"
      by (rule psubset_card_mono [OF finite_taken])
    from less [OF this] obtain r
      where r: "fresh_loop prefix ?st = Some r" "fresh_result prefix ?st r" by blast
    obtain n fc where n: "Suc ?c \<le> n" "fmlookup (ids st) (fresh_name prefix n) = None"
      "\<And>m. Suc ?c \<le> m \<Longrightarrow> m < n \<Longrightarrow> fmlookup (ids st) (fresh_name prefix m) \<noteq> None"
      "fmlookup fc prefix = Some (Suc n)"
      "r = intern (fresh_name prefix n) (st\<lparr>fresh_counters := fc\<rparr>)"
      using r(2) unfolding fresh_result_def next_c by auto
    have "fmlookup (ids st) (fresh_name prefix m) \<noteq> None" if "?c \<le> m" "m < n" for m
      using that n(3) [of m] False by (cases "m = ?c") auto
    with n have "fresh_result prefix st r"
      unfolding fresh_result_def by (intro exI [of _ n] exI [of _ fc]) auto
    then show ?thesis using r(1) False unfolding loop by (intro exI [of _ r]) auto
  qed
qed

lemma fresh_symbol_result:
  "\<exists>r. fresh_symbol base_prefix st = Some r \<and> fresh_result (effective_prefix base_prefix) st r"
  unfolding fresh_symbol_def by (rule fresh_loop_result)

lemma table_ok_counters [simp]: "table_ok (st\<lparr>fresh_counters := fc\<rparr>) = table_ok st"
  by (simp add: table_ok_def)

lemma resolve_counters [simp]: "resolve i (st\<lparr>fresh_counters := fc\<rparr>) = resolve i st"
  by (simp add: resolve_def)

lemma fresh_symbol_spec:
  assumes ok: "table_ok st" and fits: "length (names st) < 2 ^ 32"
    and fresh: "fresh_symbol base_prefix st = Some (sid, st')"
  shows "table_ok st' \<and> resolve sid st = None \<and>
    (\<exists>n. names st' = names st @ [fresh_name (effective_prefix base_prefix) n] \<and>
         fmlookup (ids st) (fresh_name (effective_prefix base_prefix) n) = None \<and>
         resolve sid st' = Some (fresh_name (effective_prefix base_prefix) n)) \<and>
    sid = of_nat (length (names st))"
proof -
  obtain n fc where n: "fmlookup (ids st) (fresh_name (effective_prefix base_prefix) n) = None"
    and r: "(sid, st') = intern (fresh_name (effective_prefix base_prefix) n) (st\<lparr>fresh_counters := fc\<rparr>)"
    using fresh_symbol_result [of base_prefix st] fresh by (auto simp: fresh_result_def)
  let ?st = "st\<lparr>fresh_counters := fc\<rparr>" and ?name = "fresh_name (effective_prefix base_prefix) n"
  have eq: "intern ?name ?st = (of_nat (length (names st)),
      ?st\<lparr>names := names st @ [?name], ids := fmupd ?name (of_nat (length (names st))) (ids st)\<rparr>)"
    using n by (subst intern_new) simp_all
  have "table_ok (snd (intern ?name ?st))"
    by (rule intern_table_ok) (use ok fits in \<open>simp_all add: eq\<close>)
  moreover have "resolve (fst (intern ?name ?st)) (snd (intern ?name ?st)) = Some ?name"
    by (rule intern_resolve) (use ok fits in \<open>simp_all add: eq\<close>)
  ultimately show ?thesis
    using r fits n eq by (auto simp: resolve_def unat_of_nat_u32 intro!: exI [of _ n])
qed

subsection \<open>Properties\<close>

lemma intern_fits: "length (names st) < 2 ^ 32 \<Longrightarrow> length (names (snd (intern name st))) \<le> 2 ^ 32"
  by (cases "fmlookup (ids st) name") (simp_all add: intern_new intern_old)

interpretation symbols: interner intern "\<lambda>i st. resolve i st" table_ok "\<lambda>st. length (names st)" "\<lambda>_ _. True"
proof
  show "length (names (snd (intern k s))) \<le> Suc (length (names s))" for k s
    by (cases "fmlookup (ids s) k") (simp_all add: intern_new intern_old)
qed (use intern_table_ok intern_fits intern_resolve intern_keeps resolve_inject in auto)

text \<open>
  Interning a list of names keeps the table a bijection between names and identifiers:
  every identifier returned reads back its name, two of them are equal exactly where the names
  are, and every identifier handed out before keeps its name.
\<close>

theorem intern_bijection:
  assumes "table_ok st" and "length (names st) + length ns \<le> 2 ^ 32"
    and "map_st intern ns st = (sids, st')"
  shows "table_ok st' \<and> (\<forall>n < length ns. resolve (sids ! n) st' = Some (ns ! n)) \<and>
    (\<forall>m n. m < length ns \<longrightarrow> n < length ns \<longrightarrow> (sids ! m = sids ! n \<longleftrightarrow> ns ! m = ns ! n)) \<and>
    (\<forall>i name. resolve i st = Some name \<longrightarrow> resolve i st' = Some name)"
  using symbols.put_all [OF assms(1) _ assms(2,3)] symbols.put_all_ids [OF assms(1) _ assms(2,3)]
  by auto

theorem intern_bijection_witness:
  "resolve 1 (snd (map_st intern [''p'', ''q'', ''p''] new_table)) = Some ''q''"
  using intern_bijection [OF new_table_ok, of "[''p'', ''q'', ''p'']" "[0, 1, 0]"
      "snd (map_st intern [''p'', ''q'', ''p''] new_table)"]
  by (auto simp: new_table_def intern_def)

text \<open>
  \<open>fresh_symbol\<close> returns for every table, whatever names it holds: the loop over
  candidate names ends. The symbol is new, its name was free, it is entered at the next
  identifier, and the table stays a bijection.
\<close>

theorem fresh_symbol_new:
  assumes "table_ok st" and "length (names st) < 2 ^ 32"
  shows "\<exists>sid st' n. fresh_symbol base_prefix st = Some (sid, st') \<and> table_ok st' \<and>
    sid = of_nat (length (names st)) \<and> resolve sid st = None \<and>
    fresh_name (effective_prefix base_prefix) n \<notin> set (names st) \<and>
    names st' = names st @ [fresh_name (effective_prefix base_prefix) n]"
proof -
  obtain r where "fresh_symbol base_prefix st = Some r" using fresh_symbol_result by blast
  moreover obtain sid st' where "r = (sid, st')" by fastforce
  ultimately have eq: "fresh_symbol base_prefix st = Some (sid, st')" by simp
  obtain n where "names st' = names st @ [fresh_name (effective_prefix base_prefix) n]"
    "fmlookup (ids st) (fresh_name (effective_prefix base_prefix) n) = None"
    using fresh_symbol_spec [OF assms eq] by blast
  then show ?thesis
    using fresh_symbol_spec [OF assms eq] eq lookup_None_iff [OF assms(1)] by blast
qed

theorem fresh_symbol_new_witness:
  "\<exists>sid st' n. fresh_symbol ''sk'' new_table = Some (sid, st') \<and> table_ok st' \<and>
    sid = of_nat (length (names new_table)) \<and> resolve sid new_table = None \<and>
    fresh_name (effective_prefix ''sk'') n \<notin> set (names new_table) \<and>
    names st' = names new_table @ [fresh_name (effective_prefix ''sk'') n]"
  by (rule fresh_symbol_new [OF new_table_ok]) (simp add: new_table_def)

end
