(* ===== verification/Unify.thy ===== *)
theory Unify
  imports IdSubst Symbols
begin

text \<open>
  Robinson unification on owned terms and on identifiers, with its variants modulo
  commutativity and associativity, \<open>crates/mrs-unify/src/robinson.rs\<close>, and the error type of
  \<open>crates/mrs-unify/src/lib.rs\<close>. A recursive call that does not return is \<open>None\<close>. The code
  throws the substitution away on every error path, so an error carries no state.
\<close>

datatype UnifyError =
    SymbolClash string string
  | ArityMismatch nat nat
  | OccursCheck u32
  | RigidVariable u32
  | BudgetExhausted
  | UnsupportedShape
  | NoAcSubsetMatch

text \<open>The derived \<open>Debug\<close> output of identifiers and terms, which the errors quote.\<close>

definition debug_symbol :: "SymbolId \<Rightarrow> string" where
  "debug_symbol f = ''SymbolId('' @ show_nat (unat f) @ '')''"

definition debug_term_id :: "TermId \<Rightarrow> string" where
  "debug_term_id i = ''TermId('' @ show_nat (unat i) @ '')''"

fun comma_join :: "string list \<Rightarrow> string" where
  "comma_join [] = []"
| "comma_join [s] = s"
| "comma_join (s # ss) = s @ '', '' @ comma_join ss"

fun debug_term :: "Term \<Rightarrow> string" where
  "debug_term (Var v) = ''Var('' @ show_nat (unat v) @ '')''"
| "debug_term (App f args) =
     ''App('' @ debug_symbol f @ '', ['' @ comma_join (map debug_term args) @ ''])''"

definition symbol_clash :: "SymbolId \<Rightarrow> SymbolId \<Rightarrow> UnifyError" where
  "symbol_clash f g = SymbolClash (debug_symbol f) (debug_symbol g)"

section \<open>Owned terms\<close>

definition bind_var :: "VarId \<Rightarrow> Term \<Rightarrow> Substitution \<Rightarrow> UnifyError + Substitution" where
  "bind_var v t s =
     (if t = Var v then Inr s
      else let t = apply_term s t in
        if t = Var v then Inr s
        else if contains_var t v then Inl (OccursCheck v)
        else Inr (bind_var_to v t s))"

partial_function (option) unify_rec ::
  "Term \<Rightarrow> Term \<Rightarrow> Substitution \<Rightarrow> (UnifyError + Substitution) option" where
  "unify_rec s t subst = (
     let s = apply_term subst s; t = apply_term subst t in
     if s = t then Some (Inr subst)
     else case s of
       Var v \<Rightarrow> Some (bind_var v t subst)
     | App f1 args1 \<Rightarrow> (case t of
         Var v \<Rightarrow> Some (bind_var v s subst)
       | App f2 args2 \<Rightarrow>
           if f1 \<noteq> f2 then Some (Inl (symbol_clash f1 f2))
           else if length args1 \<noteq> length args2
           then Some (Inl (ArityMismatch (length args1) (length args2)))
           else try_each (\<lambda>p subst. unify_rec (fst p) (snd p) subst) (zip args1 args2) subst))"

definition unify :: "Term \<Rightarrow> Term \<Rightarrow> (UnifyError + Substitution) option" where
  "unify s t = unify_rec s t new_subst"

partial_function (option) unify_comm_rec ::
  "SymbolId set \<Rightarrow> Term \<Rightarrow> Term \<Rightarrow> Substitution \<Rightarrow> (UnifyError + Substitution) option" where
  "unify_comm_rec comm s t subst = (
     let s = apply_term subst s; t = apply_term subst t in
     if s = t then Some (Inr subst)
     else case s of
       Var v \<Rightarrow> Some (bind_var v t subst)
     | App f1 args1 \<Rightarrow> (case t of
         Var v \<Rightarrow> Some (bind_var v s subst)
       | App f2 args2 \<Rightarrow>
           if f1 \<noteq> f2 then Some (Inl (symbol_clash f1 f2))
           else if length args1 \<noteq> length args2
           then Some (Inl (ArityMismatch (length args1) (length args2)))
           else do {
             normal_ok \<leftarrow> try_each (\<lambda>p subst. unify_comm_rec comm (fst p) (snd p) subst)
                (zip args1 args2) subst;
             case normal_ok of
               Inr subst' \<Rightarrow> Some (Inr subst')
             | Inl e \<Rightarrow>
                 if f1 \<in> comm \<and> length args1 = 2 then do {
                   swap_ok \<leftarrow> try_each (\<lambda>p subst. unify_comm_rec comm (fst p) (snd p) subst)
                      [(args1 ! 0, args2 ! 1), (args1 ! 1, args2 ! 0)] subst;
                   (case swap_ok of Inr subst' \<Rightarrow> Some (Inr subst') | Inl e' \<Rightarrow> Some (Inl e)) }
                 else Some (Inl e) }))"

definition unify_comm :: "SymbolId set \<Rightarrow> Term \<Rightarrow> Term \<Rightarrow> (UnifyError + Substitution) option" where
  "unify_comm comm s t = (if comm = {} then unify s t else unify_comm_rec comm s t new_subst)"

definition bind_term_var_maybe_rigid ::
  "VarId \<Rightarrow> Term \<Rightarrow> Substitution \<Rightarrow> VarId set option \<Rightarrow> UnifyError + Substitution" where
  "bind_term_var_maybe_rigid v t s rigid =
     (case rigid of
        Some vs \<Rightarrow> if v \<in> vs then Inl (RigidVariable v) else bind_var v t s
      | None \<Rightarrow> bind_var v t s)"

partial_function (option) unify_comm_rigid_rec ::
  "SymbolId set \<Rightarrow> VarId set \<Rightarrow> Term \<Rightarrow> Term \<Rightarrow> Substitution \<Rightarrow> (UnifyError + Substitution) option"
where
  "unify_comm_rigid_rec comm rigid s t subst = (
     let s = apply_term subst s; t = apply_term subst t in
     if s = t then Some (Inr subst)
     else case s of
       Var v \<Rightarrow> Some (bind_term_var_maybe_rigid v t subst (Some rigid))
     | App f1 args1 \<Rightarrow> (case t of
         Var v \<Rightarrow> Some (bind_term_var_maybe_rigid v s subst (Some rigid))
       | App f2 args2 \<Rightarrow>
           if f1 \<noteq> f2 then Some (Inl (symbol_clash f1 f2))
           else if length args1 \<noteq> length args2
           then Some (Inl (ArityMismatch (length args1) (length args2)))
           else do {
             normal_ok \<leftarrow> try_each (\<lambda>p subst. unify_comm_rigid_rec comm rigid (fst p) (snd p) subst)
                (zip args1 args2) subst;
             case normal_ok of
               Inr subst' \<Rightarrow> Some (Inr subst')
             | Inl e \<Rightarrow>
                 if f1 \<in> comm \<and> length args1 = 2 then do {
                   swap_ok \<leftarrow> try_each (\<lambda>p subst. unify_comm_rigid_rec comm rigid (fst p) (snd p) subst)
                      [(args1 ! 0, args2 ! 1), (args1 ! 1, args2 ! 0)] subst;
                   (case swap_ok of Inr subst' \<Rightarrow> Some (Inr subst') | Inl e' \<Rightarrow> Some (Inl e)) }
                 else Some (Inl e) }))"

definition unify_comm_rigid ::
  "SymbolId set \<Rightarrow> VarId set \<Rightarrow> Term \<Rightarrow> Term \<Rightarrow> (UnifyError + Substitution) option" where
  "unify_comm_rigid comm rigid s t = unify_comm_rigid_rec comm rigid s t new_subst"

section \<open>Identifiers\<close>

partial_function (option) deref_id :: "TermId \<Rightarrow> IdSubstitution \<Rightarrow> TermBank \<Rightarrow> TermId option" where
  "deref_id t subst bank = do {
     node \<leftarrow> node_at bank t;
     case node of
       NVar v \<Rightarrow> (case id_get subst v of Some nxt \<Rightarrow> deref_id nxt subst bank | None \<Rightarrow> Some t)
     | NApp f args \<Rightarrow> Some t }"

text \<open>\<open>any_of\<close> is \<open>iter().any(f)\<close>, which stops at the first hit, for an \<open>f\<close> that may not return.\<close>

fun any_of :: "('a \<Rightarrow> bool option) \<Rightarrow> 'a list \<Rightarrow> bool option" where
  "any_of f [] = Some False"
| "any_of f (x # xs) = do { b \<leftarrow> f x; if b then Some True else any_of f xs }"

lemma any_of_partial_mono [partial_function_mono]:
  assumes "\<And>x. mono_option (\<lambda>f. B f x)"
  shows "mono_option (\<lambda>f. any_of (B f) xs)"
proof (induction xs)
  case Nil
  show ?case by (simp add: monotone_def option.leq_refl)
next
  case (Cons x xs)
  show ?case unfolding any_of.simps
  proof (rule bind_mono [OF assms])
    fix b
    show "mono_option (\<lambda>f. if b then Some True else any_of (B f) xs)"
      using Cons by (cases b) (simp_all add: monotone_def option.leq_refl)
  qed
qed

partial_function (option) contains_var_id ::
  "TermId \<Rightarrow> VarId \<Rightarrow> IdSubstitution \<Rightarrow> TermBank \<Rightarrow> bool option" where
  "contains_var_id t v subst bank = do {
     t \<leftarrow> deref_id t subst bank;
     node \<leftarrow> node_at bank t;
     case node of
       NVar w \<Rightarrow> Some (w = v)
     | NApp f args \<Rightarrow> any_of (\<lambda>a. contains_var_id a v subst bank) args }"

definition bind_var_maybe_rigid :: "VarId \<Rightarrow> TermId \<Rightarrow> IdSubstitution \<Rightarrow> TermBank \<Rightarrow> VarId set option
    \<Rightarrow> (UnifyError + IdSubstitution) option" where
  "bind_var_maybe_rigid v t subst bank rigid =
     (if (case rigid of Some vs \<Rightarrow> v \<in> vs | None \<Rightarrow> False) then Some (Inl (RigidVariable v))
      else do {
        t \<leftarrow> deref_id t subst bank;
        node \<leftarrow> node_at bank t;
        if node = NVar v then Some (Inr subst)
        else do {
          occurs \<leftarrow> contains_var_id t v subst bank;
          Some (if occurs then Inl (OccursCheck v) else Inr (id_bind v t subst)) } })"

definition bind_var_id :: "VarId \<Rightarrow> TermId \<Rightarrow> IdSubstitution \<Rightarrow> TermBank
    \<Rightarrow> (UnifyError + IdSubstitution) option" where
  "bind_var_id v t subst bank = bind_var_maybe_rigid v t subst bank None"

partial_function (option) unify_rec_id ::
  "TermBank \<Rightarrow> TermId \<Rightarrow> TermId \<Rightarrow> IdSubstitution \<Rightarrow> (UnifyError + IdSubstitution) option" where
  "unify_rec_id bank s t subst = do {
     s \<leftarrow> deref_id s subst bank;
     t \<leftarrow> deref_id t subst bank;
     if s = t then Some (Inr subst)
     else do {
       ns \<leftarrow> node_at bank s;
       nt \<leftarrow> node_at bank t;
       case ns of
         NVar v \<Rightarrow> bind_var_id v t subst bank
       | NApp f1 args1 \<Rightarrow> (case nt of
           NVar v \<Rightarrow> bind_var_id v s subst bank
         | NApp f2 args2 \<Rightarrow>
             if f1 \<noteq> f2 then Some (Inl (symbol_clash f1 f2))
             else if length args1 \<noteq> length args2
             then Some (Inl (ArityMismatch (length args1) (length args2)))
             else try_each (\<lambda>p subst. unify_rec_id bank (fst p) (snd p) subst) (zip args1 args2) subst) } }"

definition unify_id :: "TermId \<Rightarrow> TermId \<Rightarrow> TermBank \<Rightarrow> (UnifyError + IdSubstitution) option" where
  "unify_id s t bank = unify_rec_id bank s t id_new_subst"

section \<open>Associativity and commutativity\<close>

partial_function (option) flatten_loop :: "SymbolId \<Rightarrow> IdSubstitution \<Rightarrow> TermBank \<Rightarrow> SymbolId set
    \<Rightarrow> TermId list \<Rightarrow> TermId list \<Rightarrow> TermId list option" where
  "flatten_loop f subst bank assoc stack result = (case stack of
       [] \<Rightarrow> Some result
     | t # rest \<Rightarrow> do {
         current \<leftarrow> deref_id t subst bank;
         node \<leftarrow> node_at bank current;
         case node of
           NApp g args \<Rightarrow>
             if g = f \<and> f \<in> assoc then flatten_loop f subst bank assoc (args @ rest) result
             else flatten_loop f subst bank assoc rest (result @ [current])
         | NVar v \<Rightarrow> flatten_loop f subst bank assoc rest (result @ [current]) })"

definition flatten_assoc :: "TermId \<Rightarrow> SymbolId \<Rightarrow> IdSubstitution \<Rightarrow> TermBank \<Rightarrow> SymbolId set
    \<Rightarrow> TermId list option" where
  "flatten_assoc t f subst bank assoc = flatten_loop f subst bank assoc [t] []"

partial_function (option) unify_ac_rec_id :: "TermBank \<Rightarrow> SymbolId set \<Rightarrow> SymbolId set \<Rightarrow> VarId set option
    \<Rightarrow> TermId \<Rightarrow> TermId \<Rightarrow> IdSubstitution \<Rightarrow> (UnifyError + IdSubstitution) option" where
  "unify_ac_rec_id bank comm assoc rigid s t subst = do {
     s \<leftarrow> deref_id s subst bank;
     t \<leftarrow> deref_id t subst bank;
     if s = t then Some (Inr subst)
     else do {
       ns \<leftarrow> node_at bank s;
       nt \<leftarrow> node_at bank t;
       case ns of
         NVar v \<Rightarrow> bind_var_maybe_rigid v t subst bank rigid
       | NApp f1 args1 \<Rightarrow> (case nt of
           NVar v \<Rightarrow> bind_var_maybe_rigid v s subst bank rigid
         | NApp f2 args2 \<Rightarrow>
             if f1 \<noteq> f2 then Some (Inl (symbol_clash f1 f2))
             else if f1 \<in> assoc then do {
               flat1 \<leftarrow> flatten_assoc s f1 subst bank assoc;
               flat2 \<leftarrow> flatten_assoc t f2 subst bank assoc;
               if length flat1 \<noteq> length flat2
               then Some (Inl (ArityMismatch (length flat1) (length flat2)))
               else if f1 \<in> comm then do {
                 normal_ok \<leftarrow> try_each (\<lambda>p subst. unify_ac_rec_id bank comm assoc rigid (fst p) (snd p) subst)
                   (zip flat1 flat2) subst;
                 case normal_ok of
                   Inr subst' \<Rightarrow> Some (Inr subst')
                 | Inl e \<Rightarrow> do {
                     rev_ok \<leftarrow> try_each (\<lambda>p subst. unify_ac_rec_id bank comm assoc rigid (fst p) (snd p) subst)
                       (zip flat1 (rev flat2)) subst;
                     (case rev_ok of
                        Inr subst' \<Rightarrow> Some (Inr subst')
                      | Inl e' \<Rightarrow> Some (Inl (SymbolClash ''AC mismatch'' ''AC mismatch''))) } }
               else try_each (\<lambda>p subst. unify_ac_rec_id bank comm assoc rigid (fst p) (snd p) subst)
                   (zip flat1 flat2) subst }
             else if length args1 \<noteq> length args2
             then Some (Inl (ArityMismatch (length args1) (length args2)))
             else do {
               normal_ok \<leftarrow> try_each (\<lambda>p subst. unify_ac_rec_id bank comm assoc rigid (fst p) (snd p) subst)
                 (zip args1 args2) subst;
               case normal_ok of
                 Inr subst' \<Rightarrow> Some (Inr subst')
               | Inl e \<Rightarrow>
                   if f1 \<in> comm \<and> length args1 = 2 then do {
                     swap_ok \<leftarrow> try_each (\<lambda>p subst. unify_ac_rec_id bank comm assoc rigid (fst p) (snd p) subst)
                       [(args1 ! 0, args2 ! 1), (args1 ! 1, args2 ! 0)] subst;
                     (case swap_ok of Inr subst' \<Rightarrow> Some (Inr subst') | Inl e' \<Rightarrow> Some (Inl e)) }
                   else Some (Inl e) }) } }"

definition unify_ac_rigid_id :: "TermId \<Rightarrow> TermId \<Rightarrow> TermBank \<Rightarrow> SymbolId set \<Rightarrow> SymbolId set
    \<Rightarrow> VarId set option \<Rightarrow> (UnifyError + IdSubstitution) option" where
  "unify_ac_rigid_id s t bank comm assoc rigid =
     (if comm = {} \<and> assoc = {} \<and> rigid = None then unify_id s t bank
      else unify_ac_rec_id bank comm assoc rigid s t id_new_subst)"

definition unify_ac_id :: "TermId \<Rightarrow> TermId \<Rightarrow> TermBank \<Rightarrow> SymbolId set \<Rightarrow> SymbolId set
    \<Rightarrow> (UnifyError + IdSubstitution) option" where
  "unify_ac_id s t bank comm assoc = unify_ac_rigid_id s t bank comm assoc None"

end
