(* ===== verification/Unification.thy ===== *)
theory Unification
  imports Unify
begin

text \<open>
  Correctness of unification on identifiers: it always returns; it fails exactly when the two
  terms have no unifier; and the bindings it returns are acyclic and expand to a most general
  unifier.
\<close>

lemma derefs_id: "derefs b s (\<lambda>i. deref_id i s b)"
  unfolding derefs_def by (intro allI) (rule deref_id.simps)

section \<open>States of the algorithm\<close>

text \<open>\<open>V\<close> is a finite set of variables that contains all those of the problem.\<close>

definition good :: "TermBank \<Rightarrow> VarId set \<Rightarrow> IdSubstitution \<Rightarrow> bool" where
  "good b V s \<longleftrightarrow> subst_ok b s \<and> acyclic_binds (bound b s) \<and> dom (bound b s) \<subseteq> V \<and>
     (\<forall>v t. bound b s v = Some t \<longrightarrow> vars t \<subseteq> V)"

text \<open>
  \<open>outcome b V s P r\<close>: on success the solutions of the new bindings are the solutions of the
  old ones that satisfy \<open>P\<close>, on failure there is no such solution.
\<close>

definition outcome :: "TermBank \<Rightarrow> VarId set \<Rightarrow> IdSubstitution \<Rightarrow> ((VarId \<Rightarrow> Term) \<Rightarrow> bool)
    \<Rightarrow> UnifyError + IdSubstitution \<Rightarrow> bool" where
  "outcome b V s P r \<longleftrightarrow> (case r of
     Inr s' \<Rightarrow> good b V s' \<and>
       (\<forall>\<sigma>. solution (bound b s') \<sigma> \<longleftrightarrow> solution (bound b s) \<sigma> \<and> P \<sigma>) \<and>
       (s' = s \<or> dom (bound b s) \<subset> dom (bound b s'))
   | Inl e \<Rightarrow> \<not> (\<exists>\<sigma>. solution (bound b s) \<sigma> \<and> P \<sigma>))"

lemma outcome_same: "good b V s \<Longrightarrow> (\<And>\<sigma>. solution (bound b s) \<sigma> \<Longrightarrow> P \<sigma>) \<Longrightarrow> outcome b V s P (Inr s)"
  by (auto simp: outcome_def)

lemma outcome_fail: "(\<And>\<sigma>. solution (bound b s) \<sigma> \<Longrightarrow> \<not> P \<sigma>) \<Longrightarrow> outcome b V s P (Inl e)"
  by (auto simp: outcome_def)

lemma outcome_cong:
  "(\<And>\<sigma>. solution (bound b s) \<sigma> \<Longrightarrow> P \<sigma> \<longleftrightarrow> Q \<sigma>) \<Longrightarrow> outcome b V s P r \<longleftrightarrow> outcome b V s Q r"
  by (auto simp: outcome_def split: sum.split)

lemma outcome_then:
  assumes "outcome b V s P (Inr s1)" "outcome b V s1 Q r"
  shows "outcome b V s (\<lambda>\<sigma>. P \<sigma> \<and> Q \<sigma>) r"
proof (cases r)
  case (Inr s2)
  have "s1 = s \<or> dom (bound b s) \<subset> dom (bound b s1)" using assms(1) by (simp add: outcome_def)
  moreover have "s2 = s1 \<or> dom (bound b s1) \<subset> dom (bound b s2)"
    using assms(2) Inr by (simp add: outcome_def)
  ultimately have "s2 = s \<or> dom (bound b s) \<subset> dom (bound b s2)" by (metis psubset_trans)
  then show ?thesis using assms Inr by (simp add: outcome_def)
qed (use assms in \<open>simp add: outcome_def\<close>)

lemma outcome_stop:
  "outcome b V s P (Inl e) \<Longrightarrow> outcome b V s (\<lambda>\<sigma>. P \<sigma> \<and> Q \<sigma>) (Inl e)"
  by (auto simp: outcome_def)

definition unbound_count :: "TermBank \<Rightarrow> VarId set \<Rightarrow> IdSubstitution \<Rightarrow> nat" where
  "unbound_count b V s = card (V - dom (bound b s))"

lemma outcome_count:
  assumes "finite V" "outcome b V s P (Inr s')"
  shows "s' = s \<or> unbound_count b V s' < unbound_count b V s"
proof -
  have "unbound_count b V s' < unbound_count b V s" if "dom (bound b s) \<subset> dom (bound b s')"
  proof -
    have "dom (bound b s') \<subseteq> V" using assms(2) by (simp add: outcome_def good_def)
    then have "V - dom (bound b s') \<subset> V - dom (bound b s)" using that by blast
    then show ?thesis unfolding unbound_count_def using assms(1) by (intro psubset_card_mono) auto
  qed
  then show ?thesis using assms(2) by (auto simp: outcome_def)
qed

section \<open>The occurs check and binding\<close>

lemma any_of_map: "(\<And>x. x \<in> set xs \<Longrightarrow> f x = Some (g x)) \<Longrightarrow> any_of f xs = Some (\<exists>x \<in> set xs. g x)"
  by (induction xs) auto

lemma any_of_zip:
  "length xs = length ys \<Longrightarrow> (\<And>n. n < length xs \<Longrightarrow> f (xs ! n) = Some (g (ys ! n))) \<Longrightarrow>
     any_of f xs = Some (\<exists>y \<in> set ys. g y)"
proof (induction xs ys rule: list_induct2)
  case (Cons x xs y ys)
  have "any_of f xs = Some (\<exists>y \<in> set ys. g y)" using Cons.prems [of "Suc _"] by (intro Cons.IH) auto
  moreover have "f x = Some (g y)" using Cons.prems [of 0] by simp
  ultimately show ?case by simp
qed simp

lemma contains_var_id_eq:
  assumes ok: "subst_ok b s" and r: "ranked (bound b s) r" and th: "closure (bound b s) \<theta>"
  shows "to_legacy b i = Some t \<Longrightarrow> contains_var_id i v s b = Some (v \<in> vars (inst \<theta> t))"
proof (induction "term_size (inst \<theta> t)" arbitrary: t i rule: less_induct)
  case less
  obtain j u where j: "deref_id i s b = Some j" "to_legacy b j = Some u"
    "\<And>v. u = Var v \<Longrightarrow> id_get s v = None" "inst \<theta> u = inst \<theta> t"
    using deref_result [OF derefs_id ok r less.prems] closure_solution [OF th] by metis
  show ?case
  proof (cases u)
    case (Var w)
    then have "bound b s w = None" using j(3) by (simp add: bound_def)
    then have "inst \<theta> t = Var w" using j(4) Var closure_unbound [OF th] by simp
    then show ?thesis using j(1,2) Var by (subst contains_var_id.simps) (auto simp: to_legacy_Var)
  next
    case (App f ts)
    then obtain args where args: "node_at b j = Some (NApp f args)" "mapM (to_legacy b) args = Some ts"
      using j(2) by (auto simp: to_legacy_App)
    have t: "inst \<theta> t = App f (map (inst \<theta>) ts)" using j(4) App by simp
    have "any_of (\<lambda>a. contains_var_id a v s b) args = Some (\<exists>t \<in> set ts. v \<in> vars (inst \<theta> t))"
    proof (rule any_of_zip)
      show "length args = length ts" using args(2) by (simp add: mapM_Some_iff)
      show "contains_var_id (args ! n) v s b = Some (v \<in> vars (inst \<theta> (ts ! n)))"
        if "n < length args" for n
      proof (rule less.hyps)
        show "to_legacy b (args ! n) = Some (ts ! n)" using args(2) that by (simp add: mapM_Some_iff)
        show "term_size (inst \<theta> (ts ! n)) < term_size (inst \<theta> t)"
          using size_inst_arg [of "ts ! n" ts \<theta> f] t args(2) that by (simp add: mapM_Some_iff)
      qed
    qed
    then show ?thesis using j(1) args(1) t by (subst contains_var_id.simps) simp
  qed
qed

lemma occurs_no_solution:
  assumes "v \<in> vars (App f ts)"
  shows "\<sigma> v \<noteq> inst \<sigma> (App f ts)"
proof
  assume eq: "\<sigma> v = inst \<sigma> (App f ts)"
  obtain a where a: "a \<in> set ts" "v \<in> vars a" using assms by auto
  have "term_size (\<sigma> v) \<le> term_size (inst \<sigma> a)" by (rule term_size_inst_var [OF a(2)])
  also have "\<dots> < term_size (inst \<sigma> (App f ts))" by (rule size_inst_arg [OF a(1)])
  finally show False using eq by simp
qed

lemma good_bind:
  assumes good: "good b V s" and v: "v \<in> V" "bound b s v = None"
    and t: "to_legacy b i = Some t" "vars t \<subseteq> V"
    and r: "ranked (bound b s) r" and th: "closure (bound b s) \<theta>" and occ: "v \<notin> vars (inst \<theta> t)"
  shows "outcome b V s (\<lambda>\<sigma>. \<sigma> v = inst \<sigma> t) (Inr (id_bind v i s))"
proof -
  let ?s = "id_bind v i s"
  have m: "bound b ?s = (bound b s)(v \<mapsto> t)"
    by (simp add: fun_eq_iff bound_bind t(1))
  have "subst_ok b ?s" using good t(1) by (auto simp: good_def subst_ok_def is_id_def id_get_bind)
  moreover have "acyclic_binds (bound b ?s)" using ranked_bind [OF r th v(2) occ] by (simp add: m)
  moreover have "dom (bound b ?s) \<subseteq> V" using good v(1) by (simp add: m good_def)
  moreover have "\<forall>w u. bound b ?s w = Some u \<longrightarrow> vars u \<subseteq> V" using good t(2) by (simp add: m good_def)
  ultimately have "good b V ?s" by (simp add: good_def)
  moreover have "solution (bound b ?s) \<sigma> \<longleftrightarrow> solution (bound b s) \<sigma> \<and> \<sigma> v = inst \<sigma> t" for \<sigma>
    using v(2) by (auto simp: m solution_def)
  moreover have "dom (bound b s) \<subset> dom (bound b ?s)" using v(2) by (auto simp: m)
  ultimately show ?thesis by (simp add: outcome_def)
qed

lemma bind_var_id_outcome:
  assumes good: "good b V s" and v: "v \<in> V" "bound b s v = None"
    and t: "to_legacy b i = Some t" "vars t \<subseteq> V"
    and r: "ranked (bound b s) r" and th: "closure (bound b s) \<theta>"
  shows "\<exists>x. bind_var_id v i s b = Some x \<and> outcome b V s (\<lambda>\<sigma>. \<sigma> v = inst \<sigma> t) x"
proof -
  have ok: "subst_ok b s" using good by (simp add: good_def)
  obtain j u where j: "deref_id i s b = Some j" "to_legacy b j = Some u"
    "\<And>w. u = Var w \<Longrightarrow> id_get s w = None"
    "\<And>\<sigma>. solution (bound b s) \<sigma> \<Longrightarrow> inst \<sigma> u = inst \<sigma> t"
    "u = t \<or> (\<exists>v. bound b s v = Some u)"
    using deref_result [OF derefs_id ok r t(1)] by metis
  obtain node where node: "node_at b j = Some node" using j(2) by (auto elim: to_legacy_cases)
  have P: "outcome b V s (\<lambda>\<sigma>. \<sigma> v = inst \<sigma> t) x \<longleftrightarrow> outcome b V s (\<lambda>\<sigma>. \<sigma> v = inst \<sigma> u) x" for x
    by (rule outcome_cong) (simp add: j(4))
  have eq_node: "node = NVar v \<longleftrightarrow> u = Var v" using node j(2) by (auto simp: to_legacy_Var elim: to_legacy_cases)
  have occ: "contains_var_id j v s b = Some (v \<in> vars (inst \<theta> u))"
    by (rule contains_var_id_eq [OF ok r th j(2)])
  have body: "bind_var_id v i s b = Some (if node = NVar v then Inr s
      else if v \<in> vars (inst \<theta> u) then Inl (OccursCheck v) else Inr (id_bind v j s))"
    by (simp add: bind_var_id_def bind_var_maybe_rigid_def j(1) node occ)
  consider "u = Var v" | "u \<noteq> Var v" "v \<in> vars (inst \<theta> u)" | "u \<noteq> Var v" "v \<notin> vars (inst \<theta> u)"
    by blast
  then show ?thesis
  proof cases
    case 1
    then have "outcome b V s (\<lambda>\<sigma>. \<sigma> v = inst \<sigma> u) (Inr s)" by (intro outcome_same [OF good]) simp
    then show ?thesis using body eq_node 1 P by simp
  next
    case 2
    obtain f ts where f: "u = App f ts"
    proof (cases u)
      case (Var w)
      then have "\<theta> w = Var w" using j(3) closure_unbound [OF th, of w] by (simp add: bound_def)
      then show thesis using 2 Var by simp
    qed
    have "\<sigma> v \<noteq> inst \<sigma> u" if "solution (bound b s) \<sigma>" for \<sigma>
    proof -
      have "\<sigma> v \<noteq> inst \<sigma> (inst \<theta> u)" using occurs_no_solution [of v f "map (inst \<theta>) ts" \<sigma>] 2(2) f by simp
      then show ?thesis using solution_factors_term [OF r th that, of u] by simp
    qed
    then have "outcome b V s (\<lambda>\<sigma>. \<sigma> v = inst \<sigma> u) (Inl (OccursCheck v))" by (rule outcome_fail)
    then show ?thesis using body eq_node 2 P by simp
  next
    case 3
    have "vars u \<subseteq> V" using j(5) t(2) good unfolding good_def by blast
    then have "outcome b V s (\<lambda>\<sigma>. \<sigma> v = inst \<sigma> u) (Inr (id_bind v j s))"
      by (intro good_bind [OF good v j(2) _ r th 3(2)])
    then show ?thesis using body eq_node 3 P by simp
  qed
qed


section \<open>The main loop\<close>

text \<open>A pair of identifiers that denotes the pair \<open>q\<close> of terms, with variables in \<open>V\<close>.\<close>

definition problem :: "TermBank \<Rightarrow> VarId set \<Rightarrow> TermId \<times> TermId \<Rightarrow> Term \<times> Term \<Rightarrow> bool" where
  "problem b V p q \<longleftrightarrow> to_legacy b (fst p) = Some (fst q) \<and> to_legacy b (snd p) = Some (snd q) \<and>
     vars (fst q) \<subseteq> V \<and> vars (snd q) \<subseteq> V"

definition unifies :: "(VarId \<Rightarrow> Term) \<Rightarrow> Term \<times> Term \<Rightarrow> bool" where
  "unifies \<sigma> q \<longleftrightarrow> inst \<sigma> (fst q) = inst \<sigma> (snd q)"

lemma try_each_outcome:
  assumes V: "finite V"
    and call: "\<And>s' p q. good b V s' \<Longrightarrow> s' = s \<or> unbound_count b V s' < unbound_count b V s \<Longrightarrow>
      q \<in> Q \<Longrightarrow> problem b V p q \<Longrightarrow> \<exists>x. f p s' = Some x \<and> outcome b V s' (\<lambda>\<sigma>. unifies \<sigma> q) x"
  shows "list_all2 (problem b V) ps qs \<Longrightarrow> set qs \<subseteq> Q \<Longrightarrow> good b V s' \<Longrightarrow>
    s' = s \<or> unbound_count b V s' < unbound_count b V s \<Longrightarrow>
    \<exists>x. try_each f ps s' = Some x \<and> outcome b V s' (\<lambda>\<sigma>. \<forall>q \<in> set qs. unifies \<sigma> q) x"
proof (induction ps qs arbitrary: s' rule: list_all2_induct)
  case Nil
  then show ?case by (simp add: outcome_same)
next
  case (Cons p ps q qs)
  obtain x where x: "f p s' = Some x" "outcome b V s' (\<lambda>\<sigma>. unifies \<sigma> q) x"
    using call [OF Cons.prems(2,3) _ Cons.hyps(1)] Cons.prems(1) by auto
  have all: "(\<lambda>\<sigma>. \<forall>r \<in> set (q # qs). unifies \<sigma> r) = (\<lambda>\<sigma>. unifies \<sigma> q \<and> (\<forall>r \<in> set qs. unifies \<sigma> r))"
    by auto
  show ?case
  proof (cases x)
    case (Inl e)
    then show ?thesis using x outcome_stop [of b V s' _ e] unfolding all by auto
  next
    case (Inr s1)
    have s1: "good b V s1" using x(2) Inr by (simp add: outcome_def)
    have "s1 = s \<or> unbound_count b V s1 < unbound_count b V s"
      using outcome_count [OF V x(2) [unfolded Inr]] Cons.prems(3) by auto
    then obtain y where "try_each f ps s1 = Some y" "outcome b V s1 (\<lambda>\<sigma>. \<forall>r \<in> set qs. unifies \<sigma> r) y"
      using Cons.IH [OF _ s1] Cons.prems(1) by auto
    then show ?thesis using x Inr outcome_then [OF x(2) [unfolded Inr]] unfolding all by auto
  qed
qed

lemma unify_rec_id_outcome:
  assumes ok: "nodes_wf b" and V: "finite V"
  shows "good b V s \<Longrightarrow> closure (bound b s) \<theta> \<Longrightarrow> problem b V p q \<Longrightarrow>
    \<exists>x. unify_rec_id b (fst p) (snd p) s = Some x \<and> outcome b V s (\<lambda>\<sigma>. unifies \<sigma> q) x"
proof (induction "(unbound_count b V s, term_size (inst \<theta> (fst q)))" arbitrary: s \<theta> p q
    rule: wf_induct_rule [OF wf_lex_prod [OF wf_less_than wf_less_than]])
  case (1 s \<theta> q p)
  have so: "subst_ok b s" using 1(2) by (simp add: good_def)
  obtain r where r: "ranked (bound b s) r" using 1(2) by (auto simp: good_def acyclic_binds_def)
  have den: "to_legacy b (fst p) = Some (fst q)" "to_legacy b (snd p) = Some (snd q)"
    "vars (fst q) \<subseteq> V" "vars (snd q) \<subseteq> V"
    using 1(4) by (simp_all add: problem_def)
  have bV: "vars t \<subseteq> V" if "bound b s v = Some t" for v t using 1(2) that by (simp add: good_def)
  obtain i t where i: "deref_id (fst p) s b = Some i" "to_legacy b i = Some t"
    "\<And>v. t = Var v \<Longrightarrow> id_get s v = None"
    "\<And>\<sigma>. solution (bound b s) \<sigma> \<Longrightarrow> inst \<sigma> t = inst \<sigma> (fst q)" "vars t \<subseteq> V"
    using deref_result [OF derefs_id so r den(1)] den(3) bV by metis
  obtain j u where j: "deref_id (snd p) s b = Some j" "to_legacy b j = Some u"
    "\<And>v. u = Var v \<Longrightarrow> id_get s v = None"
    "\<And>\<sigma>. solution (bound b s) \<sigma> \<Longrightarrow> inst \<sigma> u = inst \<sigma> (snd q)" "vars u \<subseteq> V"
    using deref_result [OF derefs_id so r den(2)] den(4) bV by metis
  have P: "outcome b V s (\<lambda>\<sigma>. unifies \<sigma> q) x \<longleftrightarrow> outcome b V s (\<lambda>\<sigma>. inst \<sigma> t = inst \<sigma> u) x" for x
    by (rule outcome_cong) (simp add: unifies_def i(4) j(4))
  have ub: "bound b s v = None" if "id_get s v = None" for v using that by (simp add: bound_def)
  show ?case
  proof (cases "i = j")
    case True
    then have "t = u" using i(2) j(2) by simp
    then have "outcome b V s (\<lambda>\<sigma>. inst \<sigma> t = inst \<sigma> u) (Inr s)" by (intro outcome_same [OF 1(2)]) simp
    then show ?thesis using True i(1) j(1) P by (subst unify_rec_id.simps) simp
  next
    case False
    show ?thesis
    proof (cases t)
      case (Var v)
      have "v \<in> V" "bound b s v = None" using i(3,5) Var ub by simp_all
      from bind_var_id_outcome [OF 1(2) this j(2,5) r 1(3)] obtain x where
        "bind_var_id v j s b = Some x" "outcome b V s (\<lambda>\<sigma>. inst \<sigma> t = inst \<sigma> u) x"
        using Var by auto
      moreover obtain nu where "node_at b j = Some nu" using j(2) by (auto elim: to_legacy_cases)
      ultimately show ?thesis using False i(1,2) j(1) Var P
        by (subst unify_rec_id.simps) (simp add: to_legacy_Var)
    next
      case t: (App f ts)
      then obtain as where as: "node_at b i = Some (NApp f as)" "mapM (to_legacy b) as = Some ts"
        using i(2) by (auto simp: to_legacy_App)
      show ?thesis
      proof (cases u)
        case (Var v)
        have "v \<in> V" "bound b s v = None" using j(3,5) Var ub by simp_all
        from bind_var_id_outcome [OF 1(2) this i(2,5) r 1(3)] obtain x where
          "bind_var_id v i s b = Some x" "outcome b V s (\<lambda>\<sigma>. \<sigma> v = inst \<sigma> t) x" by auto
        moreover have "(\<lambda>\<sigma>. inst \<sigma> t = inst \<sigma> u) = (\<lambda>\<sigma>. \<sigma> v = inst \<sigma> t)" using Var by auto
        ultimately show ?thesis using False i(1) j(1,2) Var P as(1)
          by (subst unify_rec_id.simps) (simp add: to_legacy_Var)
      next
        case u: (App g us)
        then obtain bs where bs: "node_at b j = Some (NApp g bs)" "mapM (to_legacy b) bs = Some us"
          using j(2) by (auto simp: to_legacy_App)
        have len: "length as = length ts" "length bs = length us" using as(2) bs(2) by (simp_all add: mapM_Some_iff)
        consider "f \<noteq> g" | "f = g" "length ts \<noteq> length us" | "f = g" "length ts = length us" by blast
        then show ?thesis
        proof cases
          case 1
          then have "outcome b V s (\<lambda>\<sigma>. inst \<sigma> t = inst \<sigma> u) (Inl (symbol_clash f g))"
            by (intro outcome_fail) (simp add: t u)
          then show ?thesis using False i(1) j(1) P as(1) bs(1) 1 by (subst unify_rec_id.simps) simp
        next
          case 2
          then have "outcome b V s (\<lambda>\<sigma>. inst \<sigma> t = inst \<sigma> u) (Inl (ArityMismatch (length as) (length bs)))"
            by (intro outcome_fail) (auto simp: t u dest: map_eq_imp_length_eq)
          then show ?thesis using False i(1) j(1) P as(1) bs(1) 2 len by (subst unify_rec_id.simps) simp
        next
          case 3
          have prs: "list_all2 (problem b V) (zip as bs) (zip ts us)"
            using as(2) bs(2) len 3 i(5) j(5) t u
            by (force simp: list_all2_conv_all_nth problem_def mapM_Some_iff)
          have call: "\<exists>x. unify_rec_id b (fst p') (snd p') s' = Some x \<and>
              outcome b V s' (\<lambda>\<sigma>. unifies \<sigma> q') x"
            if h: "good b V s'" "s' = s \<or> unbound_count b V s' < unbound_count b V s"
              "q' \<in> set (zip ts us)" "problem b V p' q'" for s' p' q'
          proof -
            have arg: "fst q' \<in> set ts" using h(3) set_zip_leftD [of "fst q'" "snd q'" ts us] by simp
            have "inst \<theta> (fst q) = inst \<theta> t" using i(4) closure_solution [OF 1(3)] by simp
            then have smaller: "term_size (inst \<theta> (fst q')) < term_size (inst \<theta> (fst q))"
              using size_inst_arg [OF arg, of \<theta> f] t by simp
            obtain \<theta>' where th': "closure (bound b s') \<theta>'" "s' = s \<longrightarrow> \<theta>' = \<theta>"
              using closure_exists h(1) 1(3) unfolding good_def by metis
            have "((unbound_count b V s', term_size (inst \<theta>' (fst q'))),
                (unbound_count b V s, term_size (inst \<theta> (fst q)))) \<in> less_than <*lex*> less_than"
              using h(2) th'(2) smaller by auto
            from 1(1) [OF this h(1) th'(1) h(4)] show ?thesis .
          qed
          have "\<exists>x. try_each (\<lambda>p. unify_rec_id b (fst p) (snd p)) (zip as bs) s = Some x \<and>
              outcome b V s (\<lambda>\<sigma>. \<forall>q \<in> set (zip ts us). unifies \<sigma> q) x"
            by (rule try_each_outcome [OF V _ prs subset_refl 1(2) disjI1 [OF refl]]) (rule call)
          then obtain x where "try_each (\<lambda>p. unify_rec_id b (fst p) (snd p)) (zip as bs) s = Some x"
            "outcome b V s (\<lambda>\<sigma>. \<forall>q \<in> set (zip ts us). unifies \<sigma> q) x" by blast
          moreover have "(\<lambda>\<sigma>. \<forall>q \<in> set (zip ts us). unifies \<sigma> q) = (\<lambda>\<sigma>. inst \<sigma> t = inst \<sigma> u)"
            using 3 t u by (auto simp: unifies_def fun_eq_iff list_eq_iff_nth_eq set_zip)
          ultimately show ?thesis using False i(1) j(1) P as(1) bs(1) 3 len
            by (subst unify_rec_id.simps) simp
        qed
      qed
    qed
  qed
qed


section \<open>Most general unifiers\<close>

definition problem_vars :: "Term \<Rightarrow> Term \<Rightarrow> VarId set" where
  "problem_vars t u = vars t \<union> vars u"

text \<open>What a successful run returns.\<close>

definition mgu_result :: "TermBank \<Rightarrow> Term \<Rightarrow> Term \<Rightarrow> IdSubstitution \<Rightarrow> bool" where
  "mgu_result b t u s \<longleftrightarrow> (\<exists>r \<theta>. ranked (bound b s) r \<and> closure (bound b s) \<theta> \<and> subst_ok b s \<and>
     inst \<theta> t = inst \<theta> u \<and> (\<forall>x. inst \<theta> (inst \<theta> x) = inst \<theta> x) \<and>
     (\<forall>v. \<theta> v \<noteq> Var v \<longrightarrow> v \<in> vars t \<union> vars u) \<and>
     (\<forall>\<sigma>. inst \<sigma> t = inst \<sigma> u \<longrightarrow> (\<forall>v. inst \<sigma> (\<theta> v) = \<sigma> v)))"

lemma unify_id_result:
  assumes ok: "nodes_wf b" and t: "to_legacy b i = Some t" and u: "to_legacy b j = Some u"
  shows "\<exists>x. unify_id i j b = Some x \<and>
    (case x of Inl e \<Rightarrow> \<forall>\<sigma>. inst \<sigma> t \<noteq> inst \<sigma> u | Inr s \<Rightarrow> mgu_result b t u s)"
proof -
  let ?V = "vars t \<union> vars u"
  have good: "good b ?V id_new_subst"
    by (auto simp: good_def subst_ok_def acyclic_binds_def ranked_def)
  have cl: "closure (bound b id_new_subst) Var" by (simp add: closure_def)
  have pr: "problem b ?V (i, j) (t, u)" using t u by (simp add: problem_def)
  obtain x where x: "unify_rec_id b i j id_new_subst = Some x"
    "outcome b ?V id_new_subst (\<lambda>\<sigma>. unifies \<sigma> (t, u)) x"
    using unify_rec_id_outcome [OF ok _ good cl pr] by auto
  have new: "solution (bound b id_new_subst) \<sigma>" for \<sigma> by (simp add: solution_def)
  show ?thesis
  proof (cases x)
    case (Inl e)
    then show ?thesis using x new by (simp add: unify_id_def outcome_def unifies_def)
  next
    case (Inr s)
    then have s: "good b ?V s" and sol: "solution (bound b s) \<sigma> \<longleftrightarrow> inst \<sigma> t = inst \<sigma> u" for \<sigma>
      using x(2) new by (simp_all add: outcome_def unifies_def)
    obtain r where r: "ranked (bound b s) r" using s by (auto simp: good_def acyclic_binds_def)
    obtain \<theta> where th: "closure (bound b s) \<theta>" using closure_exists [of "bound b s"] s by (auto simp: good_def)
    have "\<theta> v = Var v" if "v \<notin> ?V" for v
      using that s closure_unbound [OF th, of v] by (auto simp: good_def dom_def)
    then have "mgu_result b t u s"
      unfolding mgu_result_def
      using r th s sol [of \<theta>] closure_solution [OF th] closure_idem [OF r th]
        solution_factors [OF r th] sol
      by (intro exI [of _ r] exI [of _ \<theta>]) (auto simp: good_def)
    then show ?thesis using x(1) Inr by (simp add: unify_id_def)
  qed
qed

section \<open>Properties\<close>

text \<open>
  C4. Unification of identifiers always returns. It fails exactly on terms without a unifier,
  and the substitution it returns on success has no cyclic bindings, no depth limit, and
  describes an idempotent most general unifier over the variables of the two terms.
\<close>

theorem unify_id_decides:
  assumes "bank_ok b" "to_legacy b i = Some t" "to_legacy b j = Some u"
  shows "\<exists>x. unify_id i j b = Some x \<and>
    (case x of
       Inl e \<Rightarrow> \<forall>\<sigma>. inst \<sigma> t \<noteq> inst \<sigma> u
     | Inr s \<Rightarrow> mgu_result b t u s)"
  using unify_id_result assms by (simp add: bank_ok_def nodes_ok_wf)

theorem unify_id_decides_witness:
  "\<exists>x. unify_id 0 3 example_bank = Some x \<and>
    (case x of
       Inl e \<Rightarrow> \<forall>\<sigma>. inst \<sigma> (Var 3) \<noteq> inst \<sigma> example_term
     | Inr s \<Rightarrow> mgu_result example_bank (Var 3) example_term s)"
  by (rule unify_id_decides [OF example_bank_ok example_ids(1,3)])

text \<open>
  Unifying two identifiers and then applying the result to both gives the same identifier,
  in a well-formed bank that keeps every old identifier: the pair \<open>unify_id\<close>,
  \<open>IdSubstitution::apply_term\<close> really makes terms equal, without the depth limit of the
  owned-term version.
\<close>

theorem unify_id_then_apply:
  assumes "bank_ok b" "to_legacy b i = Some t" "to_legacy b j = Some u"
    and "unify_id i j b = Some (Inr s)"
  shows "\<exists>\<theta>. (\<forall>\<sigma>. inst \<sigma> t = inst \<sigma> u \<longrightarrow> (\<forall>v. inst \<sigma> (\<theta> v) = \<sigma> v)) \<and>
    (length (nodes b) + term_size (inst \<theta> t) + term_size (inst \<theta> u) \<le> 2 ^ 32 \<longrightarrow>
      (\<exists>k b1 b2. id_apply_term s i b = Some (k, b1) \<and> id_apply_term s j b1 = Some (k, b2) \<and>
        bank_ok b2 \<and> to_legacy b2 k = Some (inst \<theta> t)))"
proof -
  have "mgu_result b t u s" using unify_id_result [of b i t j u] assms by (auto simp: bank_ok_def dest: nodes_ok_wf)
  then obtain r \<theta> where r: "ranked (bound b s) r" "closure (bound b s) \<theta>" "subst_ok b s"
    "inst \<theta> t = inst \<theta> u" and mg: "\<forall>\<sigma>. inst \<sigma> t = inst \<sigma> u \<longrightarrow> (\<forall>v. inst \<sigma> (\<theta> v) = \<sigma> v)"
    by (auto simp: mgu_result_def)
  have "\<exists>k b1 b2. id_apply_term s i b = Some (k, b1) \<and> id_apply_term s j b1 = Some (k, b2) \<and>
      bank_ok b2 \<and> to_legacy b2 k = Some (inst \<theta> t)"
    if fits: "length (nodes b) + term_size (inst \<theta> t) + term_size (inst \<theta> u) \<le> 2 ^ 32"
  proof -
    note comp = computesD [OF id_apply_term_computes [OF r(1,2)]]
    have e: "expands s (bound b s) b" using r(3) by (simp add: expands_def)
    have "room b (term_size (inst \<theta> t) + term_size (inst \<theta> u))"
      using fits assms(1) by (simp add: room_def)
    from comp [OF e assms(2) this] obtain k b1 where k: "id_apply_term s i b = Some (k, b1)"
      "grows b (term_size (inst \<theta> t)) b1" "room b1 (term_size (inst \<theta> u) + 0)"
      "to_legacy b1 k = Some (inst \<theta> t)" by auto
    have e1: "expands s (bound b s) b1" "to_legacy b1 j = Some u"
      using expands_stable e k(2) assms(3) grows_extends grows_to_legacy unfolding stable_def by blast+
    from comp [OF e1 k(3)] obtain l b2 where l: "id_apply_term s j b1 = Some (l, b2)"
      "grows b1 (term_size (inst \<theta> u)) b2" "to_legacy b2 l = Some (inst \<theta> u)" by metis
    have "to_legacy b2 k = Some (inst \<theta> t)" using k(4) l(2) grows_to_legacy by blast
    moreover have "bank_ok b2" using l(2) by (simp add: grows_def)
    ultimately have "l = k" using l(3) r(4) to_legacy_inject by (auto simp: bank_ok_def dest: nodes_ok_wf)
    then show ?thesis using k(1) l(1) \<open>to_legacy b2 k = _\<close> \<open>bank_ok b2\<close> by blast
  qed
  then show ?thesis using mg by blast
qed

theorem unify_id_then_apply_witness:
  "\<exists>s \<theta>. unify_id 0 1 example_bank = Some (Inr s) \<and>
    (length (nodes example_bank) + term_size (inst \<theta> (Var 3)) + term_size (inst \<theta> (Var 7)) \<le> 2 ^ 32 \<longrightarrow>
      (\<exists>k b1 b2. id_apply_term s 0 example_bank = Some (k, b1) \<and> id_apply_term s 1 b1 = Some (k, b2) \<and>
        bank_ok b2 \<and> to_legacy b2 k = Some (inst \<theta> (Var 3))))"
proof -
  have "\<exists>s. unify_id 0 1 example_bank = Some (Inr s)"
    by (simp add: unify_id_def unify_rec_id.simps [of _ 0] deref_id.simps [of 0] deref_id.simps [of 1]
      contains_var_id.simps [of 1] bind_var_id_def bind_var_maybe_rigid_def
      node_at_def example_bank_nodes id_get_def id_new_subst_def)
  then show ?thesis using unify_id_then_apply [OF example_bank_ok example_ids(1,2)] by blast
qed

end
