(* ===== verification/Robinson.thy ===== *)
theory Robinson
  imports Unify
begin

text \<open>
  Correctness of unification on owned terms, within and beyond the limits of substitution
  application.
\<close>

section \<open>Bindings without long variable chains\<close>

text \<open>
  \<open>chains s N\<close>: the chains of variable-to-variable bindings are acyclic and no longer than
  \<open>N\<close>.
\<close>

definition chain_len :: "Substitution \<Rightarrow> (VarId \<Rightarrow> nat) \<Rightarrow> bool" where
  "chain_len s len \<longleftrightarrow> (\<forall>x y. lookup s x = Some (Var y) \<longrightarrow> len y < len x) \<and>
     (\<forall>x. (\<nexists>y. lookup s x = Some (Var y)) \<longrightarrow> len x = 0)"

definition chains :: "Substitution \<Rightarrow> nat \<Rightarrow> bool" where
  "chains s N \<longleftrightarrow> (\<exists>len. chain_len s len \<and> (\<forall>x. len x \<le> N))"

lemma lookup_bind [simp]: "lookup (bind_var_to v t s) w = (if w = v then Some t else lookup s w)"
  by (simp add: lookup_def bind_var_to_def)

lemma lookup_new [simp]: "lookup new_subst v = None"
  by (simp add: lookup_def new_subst_def)

lemma chase_no_cut:
  "chain_len s len \<Longrightarrow> n + len v \<le> 1000 \<Longrightarrow> chase s v n c \<noteq> Cut"
proof (induction s v n c rule: chase.induct)
  case (1 s v n c)
  show ?case
  proof (cases "lookup s v")
    case None
    then show ?thesis by (simp add: chase.simps [of s v])
  next
    case (Some t)
    show ?thesis
    proof (cases t)
      case (Var w)
      then have "len w < len v" using Some 1(2) by (simp add: chain_len_def)
      then have "n + 1 + len w \<le> 1000" "\<not> 1000 < n + 1" using 1(3) by simp_all
      then show ?thesis using 1(1) [OF Some Var _ 1(2)] Some Var by (simp add: chase.simps [of s v])
    next
      case (App f ts)
      then show ?thesis using Some by (simp add: chase.simps [of s v])
    qed
  qed
qed

lemma chase_Unbound: "chase s v n c = Unbound w c' \<Longrightarrow> lookup s w = None"
proof (induction s v n c rule: chase.induct)
  case (1 s v n c)
  show ?case
  proof (cases "lookup s v")
    case None
    then show ?thesis using 1(2) by (simp add: chase.simps [of s v])
  next
    case (Some t)
    then show ?thesis using 1 by (cases t) (auto simp: chase.simps [of s v] split: if_splits)
  qed
qed

lemma chase_changed: "chase s v n True = Unbound w c \<Longrightarrow> c"
proof (induction s v n "True" rule: chase.induct)
  case (1 s v n)
  show ?case
  proof (cases "lookup s v")
    case None
    then show ?thesis using 1(2) by (simp add: chase.simps [of s v])
  next
    case (Some t)
    then show ?thesis using 1 by (cases t) (auto simp: chase.simps [of s v] split: if_splits)
  qed
qed

lemma chase_unchanged: "chase s v n False = Unbound w False \<Longrightarrow> w = v"
  by (auto simp: chase.simps [of s v] split: option.splits Term.splits if_splits dest: chase_changed)

lemma chase_Reached_App:
  "chase s v n c = Reached t \<Longrightarrow> \<exists>f ts. t = App f ts"
proof (induction s v n c rule: chase.induct)
  case (1 s v n c)
  show ?case
  proof (cases "lookup s v")
    case None
    then show ?thesis using 1(2) by (simp add: chase.simps [of s v])
  next
    case (Some t)
    then show ?thesis using 1 by (cases t) (auto simp: chase.simps [of s v] split: if_splits)
  qed
qed

lemma chase_Reached_vars:
  "chase s v n c = Reached t \<Longrightarrow> \<exists>w. lookup s w = Some t"
proof (induction s v n c rule: chase.induct)
  case (1 s v n c)
  show ?case
  proof (cases "lookup s v")
    case None
    then show ?thesis using 1(2) by (simp add: chase.simps [of s v])
  next
    case (Some t)
    then show ?thesis using 1 by (cases t) (auto simp: chase.simps [of s v] split: if_splits)
  qed
qed

lemma chase_Unbound_vars:
  "chase s v n c = Unbound w c' \<Longrightarrow> w = v \<or> (\<exists>x. lookup s x = Some (Var w))"
proof (induction s v n c rule: chase.induct)
  case (1 s v n c)
  show ?case
  proof (cases "lookup s v")
    case None
    then show ?thesis using 1(2) by (simp add: chase.simps [of s v])
  next
    case (Some t)
    then show ?thesis using 1 by (cases t) (auto simp: chase.simps [of s v] split: if_splits)
  qed
qed

section \<open>The invariant\<close>

text \<open>
  All variables lie in \<open>V\<close>, which has at most 1000 elements, so no chain of bindings is cut,
  and no variable is bound to a term that contains it.
\<close>

definition binding_inv :: "VarId set \<Rightarrow> Substitution \<Rightarrow> bool" where
  "binding_inv V s \<longleftrightarrow> finite V \<and> card V \<le> 1000 \<and> {v. lookup s v \<noteq> None} \<subseteq> V \<and>
     (\<forall>v t. lookup s v = Some t \<longrightarrow> vars t \<subseteq> V \<and> v \<notin> vars t) \<and> chains s (card {v. lookup s v \<noteq> None})"

lemma new_binding_inv: "finite V \<Longrightarrow> card V \<le> 1000 \<Longrightarrow> binding_inv V new_subst"
  by (auto simp: binding_inv_def chains_def chain_len_def intro!: exI [of _ "\<lambda>_. 0"])

lemma inv_no_cut:
  assumes "binding_inv V s"
  shows "chase s v 0 c \<noteq> Cut"
proof -
  obtain len where len: "chain_len s len" "len v \<le> card {v. lookup s v \<noteq> None}"
    using assms by (auto simp: binding_inv_def chains_def)
  have "card {v. lookup s v \<noteq> None} \<le> card V"
    using assms by (intro card_mono) (auto simp: binding_inv_def)
  then have "0 + len v \<le> 1000" using len(2) assms by (simp add: binding_inv_def)
  then show ?thesis by (rule chase_no_cut [OF len(1)])
qed

lemma apply_term_opt_vars:
  "\<forall>v t. lookup s v = Some t \<longrightarrow> vars t \<subseteq> V \<Longrightarrow> vars t \<subseteq> V \<Longrightarrow>
     vars (unwrap_or (apply_term_opt s t d) t) \<subseteq> V"
proof (induction s t d rule: apply_term_opt.induct)
  case (1 s t d)
  show ?case
  proof (cases "d > 500")
    case True
    then show ?thesis using 1(4) by (simp add: apply_term_opt.simps [of s t d])
  next
    case False
    show ?thesis
    proof (cases t)
      case (Var v)
      show ?thesis
      proof (cases "chase s v 0 False")
        case (Unbound w c)
        have "w \<in> V" using chase_Unbound_vars [OF Unbound] 1(3,4) Var by fastforce
        then show ?thesis using False Var Unbound 1(4)
          by (simp add: apply_term_opt.simps [of s "Var v" d])
      next
        case Cut
        then show ?thesis using False Var 1(4) by (simp add: apply_term_opt.simps [of s "Var v" d])
      next
        case (Reached u)
        then have "vars u \<subseteq> V" using chase_Reached_vars [OF Reached] 1(3) by blast
        then show ?thesis using 1(1) [OF False Var Reached 1(3)] False Var Reached
          by (simp add: apply_term_opt.simps [of s "Var v" d])
      qed
    next
      case (App f args)
      have "vars (unwrap_or (apply_term_opt s a (d + 1)) a) \<subseteq> V" if "a \<in> set args" for a
        using 1(2) [OF False App that 1(3)] 1(4) App that by auto
      then show ?thesis using False App 1(4)
        by (auto simp: apply_term_opt.simps [of s "App f args" d] Let_def zip_map2 zip_same_conv_map)
    qed
  qed
qed

lemma apply_term_vars: "binding_inv V s \<Longrightarrow> vars t \<subseteq> V \<Longrightarrow> vars (apply_term s t) \<subseteq> V"
  using apply_term_opt_vars [of s V t 0] by (auto simp: apply_term_def binding_inv_def)

lemma apply_term_Var:
  assumes "binding_inv V s" "apply_term s t = Var v"
  shows "lookup s v = None"
proof (cases t)
  case (Var w)
  show ?thesis
  proof (cases "bindings s = fmempty")
    case False
    then have eq: "unwrap_or (apply_term_opt s (Var w) 0) (Var w) = Var v"
      using assms(2) Var by (simp add: apply_term_def)
    show ?thesis
    proof (cases "chase s w 0 False")
      case (Unbound x c)
      then show ?thesis
        using eq chase_Unbound [OF Unbound] chase_unchanged
        by (cases c) (auto simp: apply_term_opt.simps [of s "Var w" 0])
    next
      case Cut
      then show ?thesis using inv_no_cut [OF assms(1)] by blast
    next
      case (Reached u)
      then obtain f ts where u: "u = App f ts" using chase_Reached_App by blast
      have "\<exists>us. unwrap_or (apply_term_opt s (App f ts) 1) (App f ts) = App f us"
        by (simp add: apply_term_opt.simps [of s "App f ts"] Let_def)
      then show ?thesis using eq Reached u by (auto simp: apply_term_opt.simps [of s "Var w" 0])
    qed
  qed (simp add: lookup_def)
next
  case (App f args)
  then show ?thesis using assms(2)
    by (auto simp: apply_term_def apply_term_opt.simps [of s "App f args"] Let_def split: if_splits)
qed

section \<open>Binding\<close>

lemma chains_bind:
  assumes "chains s N" "lookup s v = None" "t \<noteq> Var v" "\<And>w. t = Var w \<Longrightarrow> lookup s w = None"
  shows "chains (bind_var_to v t s) (Suc N)"
proof (cases t)
  case (App f ts)
  obtain len where len: "chain_len s len" "\<And>x. len x \<le> N" using assms(1) by (auto simp: chains_def)
  have "chain_len (bind_var_to v t s) len"
    unfolding chain_len_def
  proof (intro conjI allI impI)
    show "len y < len x" if "lookup (bind_var_to v t s) x = Some (Var y)" for x y
      using that len(1) App by (simp add: chain_len_def split: if_splits)
    show "len x = 0" if "\<nexists>y. lookup (bind_var_to v t s) x = Some (Var y)" for x
      using that len(1) assms(2) by (cases "x = v") (simp_all add: chain_len_def)
  qed
  then show ?thesis unfolding chains_def using len(2) le_SucI by blast
next
  case (Var w)
  define E where "E = {(x, y). lookup s x = Some (Var y)}"
  obtain len where len: "\<And>x y. lookup s x = Some (Var y) \<Longrightarrow> len y < len x"
    "\<And>x. \<nexists>y. lookup s x = Some (Var y) \<Longrightarrow> len x = 0" "\<And>x. len x \<le> N"
    using assms(1) by (auto simp: chains_def chain_len_def)
  define len' where "len' x = len x + (if (x, v) \<in> E\<^sup>* then 1 else 0)" for x
  have w: "lookup s w = None" "w \<noteq> v" using assms(3,4) Var by auto
  have out: "x = y" if "(x, y) \<in> E\<^sup>*" "lookup s x = None" for x y
    using that by (auto simp: E_def elim: converse_rtranclE)
  have nw: "(w, v) \<notin> E\<^sup>*" using out [of w v] w by blast
  have "len' y < len' x" if "lookup (bind_var_to v t s) x = Some (Var y)" for x y
  proof (cases "x = v")
    case True
    then have "y = w" using that Var by simp
    then show ?thesis using True nw len(2) [of w] w(1) by (simp add: len'_def)
  next
    case False
    then have xy: "lookup s x = Some (Var y)" using that by simp
    then have "(x, y) \<in> E" by (simp add: E_def)
    then have "(x, v) \<in> E\<^sup>*" if "(y, v) \<in> E\<^sup>*" using that by (rule converse_rtrancl_into_rtrancl)
    then show ?thesis using len(1) [OF xy] by (auto simp: len'_def)
  qed
  moreover have "len' x = 0" if "\<nexists>y. lookup (bind_var_to v t s) x = Some (Var y)" for x
  proof -
    have "x \<noteq> v" using that Var by auto
    moreover from this have none: "\<nexists>y. lookup s x = Some (Var y)" using that by auto
    then have "(x, v) \<notin> E\<^sup>*" using \<open>x \<noteq> v\<close> by (auto simp: E_def elim: converse_rtranclE)
    ultimately show ?thesis using len(2) [OF none] by (simp add: len'_def)
  qed
  moreover have "len' x \<le> Suc N" for x using len(3) [of x] by (simp add: len'_def)
  ultimately show ?thesis unfolding chains_def chain_len_def by blast
qed

lemma bind_var_sound:
  assumes inv: "binding_inv V s" and v: "v \<in> V" "lookup s v = None" and t: "vars t \<subseteq> V"
    and res: "bind_var v t s = Inr s'"
  shows "binding_inv V s' \<and> (\<forall>I \<rho>. solves I \<rho> s' \<longrightarrow> solves I \<rho> s \<and> \<rho> v = tval I \<rho> t)"
proof (cases "t = Var v \<or> apply_term s t = Var v")
  case True
  then have "s' = s" using res by (auto simp: bind_var_def Let_def split: if_splits)
  moreover have "\<rho> v = tval I \<rho> t" if "solves I \<rho> s" for I \<rho>
    using True apply_term_solves [OF that, of t] by auto
  ultimately show ?thesis using inv by blast
next
  case False
  let ?t = "apply_term s t"
  have occ: "v \<notin> vars ?t" and s': "s' = bind_var_to v ?t s"
    using res False by (simp_all add: bind_var_def Let_def contains_var_eq split: if_splits)
  have tV: "vars ?t \<subseteq> V" by (rule apply_term_vars [OF inv t])
  have dom: "{w. lookup s' w \<noteq> None} = insert v {w. lookup s w \<noteq> None}" by (auto simp: s')
  have "finite {w. lookup s w \<noteq> None}"
    using inv by (auto simp: binding_inv_def intro: finite_subset)
  then have card: "card {w. lookup s' w \<noteq> None} = Suc (card {w. lookup s w \<noteq> None})"
    unfolding dom using v(2) by simp
  have "chains (bind_var_to v ?t s) (Suc (card {w. lookup s w \<noteq> None}))"
    using inv v(2) False apply_term_Var [OF inv] by (intro chains_bind) (auto simp: binding_inv_def)
  then have "chains s' (card {w. lookup s' w \<noteq> None})" unfolding card by (simp add: s')
  then have "binding_inv V s'"
    using inv v tV occ unfolding binding_inv_def dom by (simp add: s')
  moreover have "solves I \<rho> s \<and> \<rho> v = tval I \<rho> t" if "solves I \<rho> s'" for I \<rho>
  proof -
    have all: "\<rho> w = tval I \<rho> u" if "lookup s' w = Some u" for w u
      using \<open>solves I \<rho> s'\<close> that by (simp add: solves_def)
    have s: "solves I \<rho> s" unfolding solves_def
    proof (intro allI impI)
      fix w u assume "lookup s w = Some u"
      then show "\<rho> w = tval I \<rho> u" using all [of w u] v(2) by (cases "w = v") (simp_all add: s')
    qed
    moreover have "\<rho> v = tval I \<rho> ?t" by (rule all) (simp add: s')
    ultimately show ?thesis using apply_term_solves [OF s] by simp
  qed
  ultimately show ?thesis by blast
qed

section \<open>Soundness\<close>

text \<open>
  \<open>comm_interp I comm\<close>: the symbols of \<open>comm\<close> are commutative in \<open>I\<close>. \<open>entails V comm s P s'\<close>
  says that \<open>s'\<close> keeps the invariant and that its solutions solve \<open>s\<close> and satisfy \<open>P\<close>.
\<close>

definition comm_interp :: "'a interp \<Rightarrow> SymbolId set \<Rightarrow> bool" where
  "comm_interp I comm \<longleftrightarrow> (\<forall>f \<in> comm. \<forall>x y. ifun I f [x, y] = ifun I f [y, x])"

definition entails :: "VarId set \<Rightarrow> SymbolId set \<Rightarrow> Substitution \<Rightarrow>
    ('a interp \<Rightarrow> (VarId \<Rightarrow> 'a) \<Rightarrow> bool) \<Rightarrow> Substitution \<Rightarrow> bool" where
  "entails V comm s P s' \<longleftrightarrow> binding_inv V s' \<and>
     (\<forall>I \<rho>. comm_interp I comm \<longrightarrow> solves I \<rho> s' \<longrightarrow> solves I \<rho> s \<and> P I \<rho>)"

lemma entailsI:
  "binding_inv V s' \<Longrightarrow>
     (\<And>I \<rho>. comm_interp I comm \<Longrightarrow> solves I \<rho> s' \<Longrightarrow> solves I \<rho> s \<and> P I \<rho>) \<Longrightarrow> entails V comm s P s'"
  by (simp add: entails_def)

lemma entails_inv: "entails V comm s P s' \<Longrightarrow> binding_inv V s'"
  by (simp add: entails_def)

lemma entailsD:
  "entails V comm s P s' \<Longrightarrow> comm_interp I comm \<Longrightarrow> solves I \<rho> s' \<Longrightarrow> solves I \<rho> s \<and> P I \<rho>"
  by (simp add: entails_def)

definition same_value :: "Term \<times> Term \<Rightarrow> 'a interp \<Rightarrow> (VarId \<Rightarrow> 'a) \<Rightarrow> bool" where
  "same_value p I \<rho> \<longleftrightarrow> tval I \<rho> (fst p) = tval I \<rho> (snd p)"

definition pair_in :: "VarId set \<Rightarrow> Term \<times> Term \<Rightarrow> bool" where
  "pair_in V p \<longleftrightarrow> vars (fst p) \<subseteq> V \<and> vars (snd p) \<subseteq> V"

lemma try_each_entails:
  fixes comm :: "SymbolId set"
  assumes call: "\<And>p s s'. p \<in> set ps \<Longrightarrow> f p s = Some (Inr s') \<Longrightarrow> binding_inv V s \<Longrightarrow>
      entails V comm s (same_value p :: 'a interp \<Rightarrow> _) s'"
  shows "try_each f ps s = Some (Inr s') \<Longrightarrow> binding_inv V s \<Longrightarrow>
    entails V comm s (\<lambda>(I :: 'a interp) \<rho>. \<forall>p \<in> set ps. same_value p I \<rho>) s'"
  using call
proof (induction ps arbitrary: s)
  case Nil
  then show ?case by (simp add: entails_def)
next
  case (Cons p ps)
  obtain s1 where s1: "f p s = Some (Inr s1)" "try_each f ps s1 = Some (Inr s')"
    using Cons.prems(1) by (rule try_each_Inr_Cons)
  have e1: "entails V comm s (same_value p :: 'a interp \<Rightarrow> _) s1"
    using Cons.prems(3) [OF _ s1(1) Cons.prems(2)] by simp
  have e2: "entails V comm s1 (\<lambda>(I :: 'a interp) \<rho>. \<forall>p \<in> set ps. same_value p I \<rho>) s'"
  proof (rule Cons.IH [OF s1(2) entails_inv [OF e1]])
    show "entails V comm s (same_value q :: 'a interp \<Rightarrow> _) s'"
      if "q \<in> set ps" "f q s = Some (Inr s')" "binding_inv V s" for q s s'
      by (rule Cons.prems(3)) (use that in simp_all)
  qed
  show ?case
  proof (rule entailsI [OF entails_inv [OF e2]])
    fix I :: "'a interp" and \<rho> assume h: "comm_interp I comm" "solves I \<rho> s'"
    then have "solves I \<rho> s1" "\<forall>p \<in> set ps. same_value p I \<rho>" using entailsD [OF e2] by simp_all
    then show "solves I \<rho> s \<and> (\<forall>q \<in> set (p # ps). same_value q I \<rho>)"
      using entailsD [OF e1 h(1)] by simp
  qed
qed

lemma app_same_value:
  assumes "length ts = length us" "\<forall>p \<in> set (zip ts us). same_value p I \<rho>"
  shows "tval I \<rho> (App f ts) = tval I \<rho> (App f us)"
proof -
  have "map (tval I \<rho>) ts = map (tval I \<rho>) us"
    using assms by (auto simp: same_value_def list_eq_iff_nth_eq set_zip)
  then show ?thesis by (simp only: tval.simps)
qed

lemma swapped_same_value:
  assumes "length ts = 2" "length us = 2" "f \<in> comm" "comm_interp I comm"
    "\<forall>p \<in> set [(ts ! 0, us ! 1), (ts ! 1, us ! 0)]. same_value p I \<rho>"
  shows "tval I \<rho> (App f ts) = tval I \<rho> (App f us)"
proof -
  obtain a b c d where "ts = [a, b]" "us = [c, d]"
    using assms(1,2) by (auto simp: numeral_2_eq_2 length_Suc_conv)
  then show ?thesis using assms(3-5) by (simp add: same_value_def comm_interp_def)
qed

text \<open>One step of each variant, after the substitution has been applied to both terms.\<close>

lemma entails_applied:
  assumes "entails V comm s (same_value (apply_term s t, apply_term s u) :: 'a interp \<Rightarrow> _) s'"
  shows "entails V comm s (same_value (t, u) :: 'a interp \<Rightarrow> _) s'"
proof (rule entailsI [OF entails_inv [OF assms]])
  fix I :: "'a interp" and \<rho> assume h: "comm_interp I comm" "solves I \<rho> s'"
  then have "solves I \<rho> s" "same_value (apply_term s t, apply_term s u) I \<rho>"
    using entailsD [OF assms] by simp_all
  then show "solves I \<rho> s \<and> same_value (t, u) I \<rho>" by (simp add: same_value_def apply_term_solves)
qed

lemma pair_in_zip:
  "pair_in V (App f ts, App g us) \<Longrightarrow> p \<in> set (zip ts us) \<Longrightarrow> pair_in V p"
  using set_zip_leftD [of "fst p" "snd p" ts us] set_zip_rightD [of "fst p" "snd p" ts us]
  by (auto simp: pair_in_def)

lemma pair_in_swap:
  assumes "pair_in V (App f ts, App g us)" "length ts = 2" "length us = 2"
    "p \<in> set [(ts ! 0, us ! 1), (ts ! 1, us ! 0)]"
  shows "pair_in V p"
proof -
  obtain a b c d where "ts = [a, b]" "us = [c, d]"
    using assms(2,3) by (auto simp: numeral_2_eq_2 length_Suc_conv)
  then show ?thesis using assms(1,4) by (auto simp: pair_in_def)
qed

text \<open>A call that succeeds on variables or equal terms.\<close>

lemma bind_entails:
  assumes "binding_inv V s" "lookup s v = None" "pair_in V (Var v, t)" "bind_var v t s = Inr s'"
  shows "entails V comm s (same_value (Var v, t) :: 'a interp \<Rightarrow> _) s'"
    "entails V comm s (same_value (t, Var v) :: 'a interp \<Rightarrow> _) s'"
proof -
  have "v \<in> V" "vars t \<subseteq> V" using assms(3) by (simp_all add: pair_in_def)
  then have "binding_inv V s' \<and>
      (\<forall>(I :: 'a interp) \<rho>. solves I \<rho> s' \<longrightarrow> solves I \<rho> s \<and> \<rho> v = tval I \<rho> t)"
    by (intro bind_var_sound [OF assms(1) _ assms(2) _ assms(4)])
  then show "entails V comm s (same_value (Var v, t) :: 'a interp \<Rightarrow> _) s'"
    "entails V comm s (same_value (t, Var v) :: 'a interp \<Rightarrow> _) s'"
    by (auto simp: entails_def same_value_def)
qed

lemma loop_entails:
  fixes comm :: "SymbolId set"
  assumes call: "\<And>p s s'. f p s = Some (Inr s') \<Longrightarrow> binding_inv V s \<Longrightarrow> pair_in V p \<Longrightarrow>
      entails V comm s (same_value p :: 'a interp \<Rightarrow> _) s'"
    and loop: "try_each f ps s = Some (Inr s')" and inv: "binding_inv V s"
    and ps: "\<And>p. p \<in> set ps \<Longrightarrow> pair_in V p"
    and val: "\<And>(I :: 'a interp) \<rho>. comm_interp I comm \<Longrightarrow> \<forall>p \<in> set ps. same_value p I \<rho> \<Longrightarrow> P I \<rho>"
  shows "entails V comm s P s'"
proof -
  have e: "entails V comm s (\<lambda>(I :: 'a interp) \<rho>. \<forall>p \<in> set ps. same_value p I \<rho>) s'"
    by (rule try_each_entails [OF call loop inv]) (use ps in simp_all)
  show ?thesis
    by (rule entailsI [OF entails_inv [OF e]]) (use entailsD [OF e] val in blast)
qed

lemma args_entails:
  fixes comm :: "SymbolId set"
  assumes "\<And>p s s'. f p s = Some (Inr s') \<Longrightarrow> binding_inv V s \<Longrightarrow> pair_in V p \<Longrightarrow>
      entails V comm s (same_value p :: 'a interp \<Rightarrow> _) s'"
    and "try_each f (zip ts us) s = Some (Inr s')" "binding_inv V s"
    and "pair_in V (App g ts, App g us)" "length ts = length us"
  shows "entails V comm s (same_value (App g ts, App g us) :: 'a interp \<Rightarrow> _) s'"
proof (rule loop_entails [OF assms(1-3)])
  show "same_value (App g ts, App g us) I \<rho>" if "\<forall>p \<in> set (zip ts us). same_value p I \<rho>"
    for I :: "'a interp" and \<rho>
    using app_same_value [OF assms(5) that] by (simp add: same_value_def)
qed (use pair_in_zip assms(4) in blast)+

lemma swapped_entails:
  fixes comm :: "SymbolId set"
  assumes "\<And>p s s'. f p s = Some (Inr s') \<Longrightarrow> binding_inv V s \<Longrightarrow> pair_in V p \<Longrightarrow>
      entails V comm s (same_value p :: 'a interp \<Rightarrow> _) s'"
    and "try_each f [(ts ! 0, us ! 1), (ts ! 1, us ! 0)] s = Some (Inr s')" "binding_inv V s"
    and "pair_in V (App g ts, App g us)" "length ts = 2" "length us = 2" "g \<in> comm"
  shows "entails V comm s (same_value (App g ts, App g us) :: 'a interp \<Rightarrow> _) s'"
proof (rule loop_entails [OF assms(1-3)])
  show "same_value (App g ts, App g us) I \<rho>"
    if "comm_interp I comm" "\<forall>p \<in> set [(ts ! 0, us ! 1), (ts ! 1, us ! 0)]. same_value p I \<rho>"
    for I :: "'a interp" and \<rho>
    using swapped_same_value [OF assms(5-7) that] by (simp add: same_value_def)
qed (use pair_in_swap [OF assms(4-6)] in blast)+

text \<open>
  The step shared by the variants: the substituted terms are equal, one of them is a variable
  that gets bound, or both are applications whose arguments are unified in one of two orders.
\<close>

lemma step_entails:
  fixes comm :: "SymbolId set"
  assumes call: "\<And>p s s'. f p s = Some (Inr s') \<Longrightarrow> binding_inv V s \<Longrightarrow> pair_in V p \<Longrightarrow>
      entails V comm s (same_value p :: 'a interp \<Rightarrow> _) s'"
    and inv: "binding_inv V s" and tu: "pair_in V (t, u)"
    and step: "apply_term s t = apply_term s u \<and> s' = s \<or>
      (\<exists>v. apply_term s t = Var v \<and> bind_var v (apply_term s u) s = Inr s') \<or>
      (\<exists>v. apply_term s u = Var v \<and> bind_var v (apply_term s t) s = Inr s') \<or>
      (\<exists>g ts us. apply_term s t = App g ts \<and> apply_term s u = App g us \<and> length ts = length us \<and>
        (try_each f (zip ts us) s = Some (Inr s') \<or>
         g \<in> comm \<and> length ts = 2 \<and> try_each f [(ts ! 0, us ! 1), (ts ! 1, us ! 0)] s = Some (Inr s')))"
  shows "entails V comm s (same_value (t, u) :: 'a interp \<Rightarrow> _) s'"
proof (rule entails_applied)
  have in_V: "pair_in V (apply_term s t, apply_term s u)"
    using tu apply_term_vars [OF inv] by (simp add: pair_in_def)
  note vb = apply_term_Var [OF inv]
  from step show "entails V comm s (same_value (apply_term s t, apply_term s u) :: 'a interp \<Rightarrow> _) s'"
  proof (elim disjE exE conjE)
    assume "apply_term s t = apply_term s u" "s' = s"
    then show ?thesis using inv by (simp add: entails_def same_value_def)
  next
    fix v assume v: "apply_term s t = Var v" "bind_var v (apply_term s u) s = Inr s'"
    show ?thesis using bind_entails(1) [OF inv vb [OF v(1)] _ v(2)] in_V v(1) by simp
  next
    fix v assume v: "apply_term s u = Var v" "bind_var v (apply_term s t) s = Inr s'"
    show ?thesis using bind_entails(2) [OF inv vb [OF v(1)] _ v(2)] in_V v(1) by (simp add: pair_in_def)
  next
    fix g ts us assume a: "apply_term s t = App g ts" "apply_term s u = App g us"
      "length ts = length us" "try_each f (zip ts us) s = Some (Inr s')"
    show ?thesis using args_entails [OF call a(4) inv _ a(3), of g] in_V a(1,2) by simp
  next
    fix g ts us assume a: "apply_term s t = App g ts" "apply_term s u = App g us"
      "length ts = length us" "g \<in> comm" "length ts = 2"
      "try_each f [(ts ! 0, us ! 1), (ts ! 1, us ! 0)] s = Some (Inr s')"
    show ?thesis using swapped_entails [OF call a(6) inv _ a(5) _ a(4)] in_V a(1-3,5) by simp
  qed
qed

lemma unify_rec_sound:
  assumes "unify_rec t u s = Some r"
  shows "\<forall>s'. r = Inr s' \<longrightarrow> binding_inv V s \<longrightarrow> pair_in V (t, u) \<longrightarrow>
     entails V {} s (same_value (t, u) :: 'a interp \<Rightarrow> _) s'"
proof (rule unify_rec.raw_induct [OF _ assms])
  fix f t u s r
  assume IH: "\<And>t u s r. f t u s = Some r \<Longrightarrow> \<forall>s'. r = Inr s' \<longrightarrow> binding_inv V s \<longrightarrow>
      pair_in V (t, u) \<longrightarrow> entails V {} s (same_value (t, u) :: 'a interp \<Rightarrow> _) s'"
    and body: "(let s' = apply_term s t; t' = apply_term s u
     in if s' = t' then Some (Inr s)
        else case s' of Var v \<Rightarrow> Some (bind_var v t' s)
             | App f1 args1 \<Rightarrow> (case t' of Var v \<Rightarrow> Some (bind_var v s' s)
                 | App f2 args2 \<Rightarrow>
                     if f1 \<noteq> f2 then Some (Inl (symbol_clash f1 f2))
                     else if length args1 \<noteq> length args2
                     then Some (Inl (ArityMismatch (length args1) (length args2)))
                     else try_each (\<lambda>p subst. f (fst p) (snd p) subst) (zip args1 args2) s)) = Some r"
  show "\<forall>s'. r = Inr s' \<longrightarrow> binding_inv V s \<longrightarrow> pair_in V (t, u) \<longrightarrow>
      entails V {} s (same_value (t, u) :: 'a interp \<Rightarrow> _) s'"
  proof (intro allI impI)
    fix s' assume h: "r = Inr s'" "binding_inv V s" "pair_in V (t, u)"
    show "entails V {} s (same_value (t, u) :: 'a interp \<Rightarrow> _) s'"
    proof (rule step_entails [OF _ h(2,3), where f = "\<lambda>p. f (fst p) (snd p)"])
      show "entails V {} s (same_value p :: 'a interp \<Rightarrow> _) s'"
        if "f (fst p) (snd p) s = Some (Inr s')" "binding_inv V s" "pair_in V p" for p s s'
        using IH that by (metis prod.collapse)
    qed (use body h(1) in \<open>auto simp: Let_def split: if_splits Term.splits\<close>)
  qed
qed

lemma try_then_swap:
  "(do { r \<leftarrow> A; case r of Inr x \<Rightarrow> Some (Inr x)
       | Inl e \<Rightarrow> if c then do { r' \<leftarrow> B; (case r' of Inr x \<Rightarrow> Some (Inr x) | Inl e' \<Rightarrow> Some (Inl e)) }
           else Some (Inl e) }) = Some (Inr x)
   \<longleftrightarrow> A = Some (Inr x) \<or> (\<exists>e. A = Some (Inl e)) \<and> c \<and> B = Some (Inr x)"
proof (cases A)
  case (Some r)
  then show ?thesis by (cases r; cases B) (auto split: sum.split)
qed simp

lemma unify_comm_rec_sound:
  assumes "unify_comm_rec comm t u s = Some r"
  shows "\<forall>s'. r = Inr s' \<longrightarrow> binding_inv V s \<longrightarrow> pair_in V (t, u) \<longrightarrow>
     entails V comm s (same_value (t, u) :: 'a interp \<Rightarrow> _) s'"
proof (rule unify_comm_rec.raw_induct [OF _ assms], goal_cases)
  case (1 f comm t u s r)
  show ?case
  proof (intro allI impI)
    fix s' assume h: "r = Inr s'" "binding_inv V s" "pair_in V (t, u)"
    show "entails V comm s (same_value (t, u) :: 'a interp \<Rightarrow> _) s'"
    proof (rule step_entails [OF _ h(2,3), where f = "\<lambda>p. f comm (fst p) (snd p)"])
      show "entails V comm s (same_value p :: 'a interp \<Rightarrow> _) s'"
        if "f comm (fst p) (snd p) s = Some (Inr s')" "binding_inv V s" "pair_in V p" for p s s'
        using 1(1) that by (metis prod.collapse)
    qed (use 1(2) h(1) in \<open>auto simp: Let_def try_then_swap simp del: try_each.simps split: if_splits Term.splits\<close>)
  qed
qed

lemma rigid_bind: "bind_term_var_maybe_rigid v t s rigid = Inr s' \<Longrightarrow> bind_var v t s = Inr s'"
  by (auto simp: bind_term_var_maybe_rigid_def split: option.splits if_splits)

lemma unify_comm_rigid_rec_sound:
  assumes "unify_comm_rigid_rec comm rigid t u s = Some r"
  shows "\<forall>s'. r = Inr s' \<longrightarrow> binding_inv V s \<longrightarrow> pair_in V (t, u) \<longrightarrow>
     entails V comm s (same_value (t, u) :: 'a interp \<Rightarrow> _) s'"
proof (rule unify_comm_rigid_rec.raw_induct [OF _ assms], goal_cases)
  case (1 f comm rigid t u s r)
  show ?case
  proof (intro allI impI)
    fix s' assume h: "r = Inr s'" "binding_inv V s" "pair_in V (t, u)"
    show "entails V comm s (same_value (t, u) :: 'a interp \<Rightarrow> _) s'"
    proof (rule step_entails [OF _ h(2,3), where f = "\<lambda>p. f comm rigid (fst p) (snd p)"])
      show "entails V comm s (same_value p :: 'a interp \<Rightarrow> _) s'"
        if "f comm rigid (fst p) (snd p) s = Some (Inr s')" "binding_inv V s" "pair_in V p" for p s s'
        using 1(1) that by (metis prod.collapse)
    qed (use 1(2) h(1) in \<open>auto simp: Let_def try_then_swap simp del: try_each.simps
        split: if_splits Term.splits dest!: rigid_bind\<close>)
  qed
qed

section \<open>Completeness\<close>

text \<open>
  The structure of terms: a valuation in it is a substitution, and evaluation is its
  application.
\<close>

definition herbrand :: "Term interp" where
  "herbrand = \<lparr>ifun = App, ipred = \<lambda>p args. False\<rparr>"

lemma tval_herbrand [simp]: "tval herbrand \<sigma> t = inst \<sigma> t"
  by (induction t) (auto simp: herbrand_def)

lemma bind_var_complete:
  assumes s: "solves herbrand \<sigma> s" and v: "\<sigma> v = inst \<sigma> t"
  shows "\<exists>s'. bind_var v t s = Inr s' \<and> solves herbrand \<sigma> s'"
proof -
  let ?t = "apply_term s t"
  have t: "\<sigma> v = inst \<sigma> ?t" using apply_term_solves [OF s, of t] v by simp
  have "v \<notin> vars ?t" if ne: "?t \<noteq> Var v"
  proof
    assume occ: "v \<in> vars ?t"
    obtain f ts where f: "?t = App f ts" using ne occ by (cases ?t) auto
    obtain a where a: "a \<in> set ts" "v \<in> vars a" using f occ by auto
    have "term_size (\<sigma> v) \<le> term_size (inst \<sigma> a)" using term_size_inst_var [OF a(2)] .
    also have "\<dots> < term_size (inst \<sigma> ?t)" using size_inst_arg [OF a(1)] f by simp
    finally show False using t by simp
  qed
  moreover have "solves herbrand \<sigma> (bind_var_to v ?t s)"
    using s t by (auto simp: solves_def)
  ultimately show ?thesis using s by (auto simp: bind_var_def Let_def contains_var_eq)
qed

lemma try_each_complete:
  assumes "\<And>p s. p \<in> set ps \<Longrightarrow> solves herbrand \<sigma> s \<Longrightarrow> \<exists>s'. f p s = Some (Inr s') \<and> solves herbrand \<sigma> s'"
  shows "solves herbrand \<sigma> s \<Longrightarrow> \<exists>s'. try_each f ps s = Some (Inr s') \<and> solves herbrand \<sigma> s'"
  using assms
proof (induction ps arbitrary: s)
  case (Cons p ps)
  obtain s1 where "f p s = Some (Inr s1)" "solves herbrand \<sigma> s1" using Cons.prems by force
  then show ?case using Cons.IH [of s1] Cons.prems(2) by simp
qed simp

lemma unify_rec_complete:
  "solves herbrand \<sigma> s \<Longrightarrow> inst \<sigma> t = inst \<sigma> u \<Longrightarrow>
     \<exists>s'. unify_rec t u s = Some (Inr s') \<and> solves herbrand \<sigma> s'"
proof (induction "term_size (inst \<sigma> t)" arbitrary: t u s rule: less_induct)
  case less
  let ?t = "apply_term s t" and ?u = "apply_term s u"
  have eq: "inst \<sigma> ?t = inst \<sigma> t" "inst \<sigma> ?u = inst \<sigma> u"
    using apply_term_solves [OF less.prems(1)] by simp_all
  show ?case
  proof (cases "?t = ?u")
    case True
    then show ?thesis using less.prems(1) by (subst unify_rec.simps) (simp add: Let_def)
  next
    case ne: False
    show ?thesis
    proof (cases ?t)
      case (Var v)
      then obtain s' where "bind_var v ?u s = Inr s'" "solves herbrand \<sigma> s'"
        using bind_var_complete [OF less.prems(1), of v ?u] eq less.prems(2) by auto
      then show ?thesis using ne Var by (subst unify_rec.simps) (simp add: Let_def)
    next
      case t: (App f ts)
      show ?thesis
      proof (cases ?u)
        case (Var v)
        then obtain s' where "bind_var v ?t s = Inr s'" "solves herbrand \<sigma> s'"
          using bind_var_complete [OF less.prems(1), of v ?t] eq less.prems(2) by auto
        then show ?thesis using ne Var t by (subst unify_rec.simps) (simp add: Let_def)
      next
        case u: (App g us)
        have "inst \<sigma> ?t = inst \<sigma> ?u" using eq less.prems(2) by simp
        then have same: "f = g" "map (inst \<sigma>) ts = map (inst \<sigma>) us" by (simp_all add: t u)
        then have len: "length ts = length us" by (auto dest: map_eq_imp_length_eq)
        have "\<exists>s'. try_each (\<lambda>p. unify_rec (fst p) (snd p)) (zip ts us) s = Some (Inr s') \<and> solves herbrand \<sigma> s'"
        proof (rule try_each_complete [OF _ less.prems(1)])
          have smaller: "term_size (inst \<sigma> a) < term_size (inst \<sigma> t)" if "a \<in> set ts" for a
            using size_inst_arg [OF that] eq(1) t by metis
          fix p s assume p: "p \<in> set (zip ts us)" "solves herbrand \<sigma> s"
          obtain n where n: "n < length ts" "p = (ts ! n, us ! n)" using p(1) by (auto simp: set_zip)
          have "term_size (inst \<sigma> (ts ! n)) < term_size (inst \<sigma> t)"
            using smaller n(1) by simp
          moreover have "inst \<sigma> (ts ! n) = inst \<sigma> (us ! n)"
            using same(2) n(1) len by (metis nth_map)
          ultimately show "\<exists>s'. unify_rec (fst p) (snd p) s = Some (Inr s') \<and> solves herbrand \<sigma> s'"
            using less.hyps [of "ts ! n" s "us ! n"] p(2) n(2) by simp
        qed
        then show ?thesis using ne t u same(1) len by (subst unify_rec.simps) (simp add: Let_def)
      qed
    qed
  qed
qed

section \<open>Properties\<close>

text \<open>
  A substitution that some unifier solves has no cycle: along a binding to an application the size of
  the value goes down, along one to a variable the length of the chain of variables.
\<close>

lemma solved_acyclic:
  assumes "solves herbrand \<sigma> s" "binding_inv V s"
  shows "acyclic_binds (lookup s)"
proof -
  obtain len where len: "chain_len s len" "\<And>x. len x \<le> card {v. lookup s v \<noteq> None}"
    using assms(2) by (auto simp: binding_inv_def chains_def)
  have "card {v. lookup s v \<noteq> None} \<le> card V" using assms(2) by (intro card_mono) (auto simp: binding_inv_def)
  then have bound: "len x < 1001" for x using len(2) [of x] assms(2) by (simp add: binding_inv_def)
  define r where "r v = term_size (\<sigma> v) * 1001 + len v" for v
  have "r w < r v" if b: "lookup s v = Some t" "w \<in> vars t" for v t w
  proof (cases t)
    case (Var x)
    then have "\<sigma> v = \<sigma> w" "len w < len v"
      using b assms(1) len(1) by (auto simp: solves_def chain_len_def)
    then show ?thesis by (simp add: r_def)
  next
    case (App f ts)
    then obtain a where a: "a \<in> set ts" "w \<in> vars a" using b(2) by auto
    have "term_size (\<sigma> w) \<le> term_size (inst \<sigma> a)" using a(2) by (rule term_size_inst_var)
    also have "\<dots> < term_size (inst \<sigma> t)" using size_inst_arg [OF a(1)] App by simp
    also have "inst \<sigma> t = \<sigma> v" using b(1) assms(1) by (simp add: solves_def)
    finally show ?thesis using bound [of w] by (simp add: r_def)
  qed
  then show ?thesis unfolding acyclic_binds_def ranked_def by blast
qed

lemma acyclic_solved: "acyclic_binds (lookup s) \<Longrightarrow> \<exists>\<sigma>. solves herbrand \<sigma> s"
  using closure_exists closure_solution unfolding solution_def solves_def tval_herbrand by blast

lemma unify_solution:
  assumes "card (vars t \<union> vars u) \<le> 1000" "unify t u = Some (Inr s)"
  shows "binding_inv (vars t \<union> vars u) s \<and> (\<forall>(I :: 'a interp) \<rho>. solves I \<rho> s \<longrightarrow> tval I \<rho> t = tval I \<rho> u)"
proof -
  have "binding_inv (vars t \<union> vars u) new_subst" using assms(1) by (intro new_binding_inv) simp
  moreover have "pair_in (vars t \<union> vars u) (t, u)" by (simp add: pair_in_def)
  ultimately have e: "entails (vars t \<union> vars u) {} new_subst (same_value (t, u) :: 'a interp \<Rightarrow> _) s"
    using assms(2) unfolding unify_def by (blast intro: unify_rec_sound [rule_format])
  have "tval I \<rho> t = tval I \<rho> u" if "solves I \<rho> s" for I :: "'a interp" and \<rho>
    using entailsD [OF e, of I \<rho>] that by (simp add: comm_interp_def same_value_def)
  then show ?thesis using e by (simp add: entails_def)
qed

lemma unify_complete: "inst \<sigma> t = inst \<sigma> u \<Longrightarrow> \<exists>s. unify t u = Some (Inr s) \<and> solves herbrand \<sigma> s"
  using unify_rec_complete [of \<sigma> new_subst t u] by (simp add: unify_def solves_def)

text \<open>
  C19. Within 1000 variables \<open>robinson::unify\<close> decides unifiability up to cycles among its bindings:
  two terms have a unifier if and only if the call returns a substitution and that substitution is
  acyclic, and then every unifier solves it. Every solution of a returned substitution, in any
  interpretation, gives both terms the same value, and no returned binding takes a variable to a
  term that contains it: the occurs check is made at every binding. For two terms without a unifier the call reports
  an error, or returns a cyclic substitution, as the limit on the depth of the occurs check allows;
  that it returns at all is claimed of unifiable terms only.
\<close>

theorem unify_decides:
  fixes I :: "'a interp"
  assumes few: "card (vars t \<union> vars u) \<le> 1000"
  shows "((\<exists>\<sigma>. inst \<sigma> t = inst \<sigma> u) \<longleftrightarrow> (\<exists>s. unify t u = Some (Inr s) \<and> acyclic_binds (lookup s))) \<and>
    (inst \<sigma> t = inst \<sigma> u \<longrightarrow> (\<exists>s. unify t u = Some (Inr s) \<and> solves herbrand \<sigma> s)) \<and>
    (unify t u = Some (Inr s) \<longrightarrow> (solves I \<rho> s \<longrightarrow> tval I \<rho> t = tval I \<rho> u) \<and>
       (\<forall>v t'. lookup s v = Some t' \<longrightarrow> v \<notin> vars t'))"
proof (intro conjI impI)
  show "\<forall>v t'. lookup s v = Some t' \<longrightarrow> v \<notin> vars t'" if "unify t u = Some (Inr s)"
    using unify_solution [OF few that] unfolding binding_inv_def by blast
  show "\<exists>s. unify t u = Some (Inr s) \<and> solves herbrand \<sigma> s" if "inst \<sigma> t = inst \<sigma> u"
    using that by (rule unify_complete)
  show "tval I \<rho> t = tval I \<rho> u" if "unify t u = Some (Inr s)" "solves I \<rho> s"
    using unify_solution [OF few that(1)] that(2) by blast
  show "(\<exists>\<sigma>. inst \<sigma> t = inst \<sigma> u) \<longleftrightarrow> (\<exists>s. unify t u = Some (Inr s) \<and> acyclic_binds (lookup s))"
  proof
    assume "\<exists>\<sigma>. inst \<sigma> t = inst \<sigma> u"
    then obtain \<sigma> s where s: "unify t u = Some (Inr s)" "solves herbrand \<sigma> s" using unify_complete by blast
    have "acyclic_binds (lookup s)" using solved_acyclic [OF s(2)] unify_solution [OF few s(1)] by blast
    with s(1) show "\<exists>s. unify t u = Some (Inr s) \<and> acyclic_binds (lookup s)" by blast
  next
    assume "\<exists>s. unify t u = Some (Inr s) \<and> acyclic_binds (lookup s)"
    then obtain s \<sigma> where "unify t u = Some (Inr s)" "solves herbrand \<sigma> s" using acyclic_solved by blast
    then have "tval herbrand \<sigma> t = tval herbrand \<sigma> u" using unify_solution [OF few] by blast
    then show "\<exists>\<sigma>. inst \<sigma> t = inst \<sigma> u" by auto
  qed
qed

theorem unify_decides_witness:
  "(\<exists>s. unify (App 7 [Var 1]) (App 7 [App 8 []]) = Some (Inr s) \<and> acyclic_binds (lookup s)) \<and>
   \<not> (\<exists>s. unify (App 7 []) (App 8 []) = Some (Inr s) \<and> acyclic_binds (lookup s))"
proof
  have "inst (\<lambda>_. App 8 []) (App 7 [Var 1]) = inst (\<lambda>_. App 8 []) (App 7 [App 8 []])" by simp
  then show "\<exists>s. unify (App 7 [Var 1]) (App 7 [App 8 []]) = Some (Inr s) \<and> acyclic_binds (lookup s)"
    by (intro unify_decides [THEN conjunct1, THEN iffD1, of "App 7 [Var 1]" "App 7 [App 8 []]"] exI) simp_all
  show "\<not> (\<exists>s. unify (App 7 []) (App 8 []) = Some (Inr s) \<and> acyclic_binds (lookup s))"
    using unify_decides [THEN conjunct1, of "App 7 []" "App 8 []"] by simp
qed

text \<open>
  Unification modulo commutativity is sound, with and without rigid variables: every
  solution of the returned substitution gives the two terms the same value in each
  interpretation in which the declared symbols are commutative.
\<close>

theorem unify_comm_sound:
  fixes I :: "'a interp"
  assumes few: "card (vars t \<union> vars u) \<le> 1000" and comm: "comm_interp I comm" and s: "solves I \<rho> s"
    and r: "unify_comm comm t u = Some (Inr s) \<or> unify_comm_rigid comm rigid t u = Some (Inr s)"
  shows "tval I \<rho> t = tval I \<rho> u"
proof -
  let ?V = "vars t \<union> vars u"
  have inv: "binding_inv ?V new_subst" "pair_in ?V (t, u)"
    using few by (simp_all add: new_binding_inv pair_in_def)
  have "unify_rec t u new_subst = Some (Inr s) \<or> unify_comm_rec comm t u new_subst = Some (Inr s) \<or>
      unify_comm_rigid_rec comm rigid t u new_subst = Some (Inr s)"
    using r by (auto simp: unify_comm_def unify_comm_rigid_def unify_def split: if_splits)
  then have "entails ?V {} new_subst (same_value (t, u) :: 'a interp \<Rightarrow> _) s \<or>
      entails ?V comm new_subst (same_value (t, u) :: 'a interp \<Rightarrow> _) s"
    using inv by (blast intro: unify_rec_sound [rule_format] unify_comm_rec_sound [rule_format]
      unify_comm_rigid_rec_sound [rule_format])
  moreover have "comm_interp I {}" by (simp add: comm_interp_def)
  ultimately have "same_value (t, u) I \<rho>" using comm s by (auto dest: entailsD)
  then show ?thesis by (simp add: same_value_def)
qed

theorem unify_comm_sound_witness:
  "\<exists>s. unify_comm {7} (App 7 [App 1 [], App 2 []]) (App 7 [App 2 [], App 1 []]) = Some (Inr s) \<and>
    tval \<lparr>ifun = \<lambda>f. sum_list, ipred = \<lambda>p args. False\<rparr> (\<lambda>_. 0 :: nat) (App 7 [App 1 [], App 2 []])
      = tval \<lparr>ifun = \<lambda>f. sum_list, ipred = \<lambda>p args. False\<rparr> (\<lambda>_. 0) (App 7 [App 2 [], App 1 []])"
proof -
  have "apply_term new_subst t = t" for t by (simp add: apply_term_def new_subst_def)
  then have "unify_comm {7} (App 7 [App 1 [], App 2 []]) (App 7 [App 2 [], App 1 []]) = Some (Inr new_subst)"
    by (simp add: unify_comm_def unify_comm_rec.simps [of _ "App 7 _"] unify_comm_rec.simps [of _ "App 1 _"]
      unify_comm_rec.simps [of _ "App 2 _"] Let_def)
  moreover have "solves I \<rho> new_subst" for I :: "nat interp" and \<rho> by (simp add: solves_def)
  ultimately show ?thesis
    using unify_comm_sound [of "App 7 [App 1 [], App 2 []]" "App 7 [App 2 [], App 1 []]"
      "\<lparr>ifun = \<lambda>f. sum_list, ipred = \<lambda>p args. False\<rparr>" "{7}" "\<lambda>_. 0" new_subst "{}"]
    by (simp add: comm_interp_def)
qed

text \<open>
  C26. Past the depth limit the occurs check misses cycles: \<open>h(X, Y)\<close> and
  \<open>h(f(Y), g(...g(X)...))\<close> with more than 500 \<open>g\<close> have no unifier, and the call reports one.
\<close>

theorem occurs_check_misses_deep_cycle:
  assumes "500 < n"
  shows "(\<exists>s. unify (App h [Var 5, Var 4]) (App h [App f [Var 4], ((\<lambda>t. App g [t]) ^^ n) (Var 5)])
      = Some (Inr s)) \<and>
    inst \<sigma> (App h [Var 5, Var 4]) \<noteq> inst \<sigma> (App h [App f [Var 4], ((\<lambda>t. App g [t]) ^^ n) (Var 5)])"
proof
  let ?d = "((\<lambda>t. App g [t]) ^^ n) (Var 5)"
  obtain m where n: "n = Suc m" using assms by (cases n) auto
  have deep: "apply_term s ?d = ?d" for s
    using apply_term_opt_deep [of 0 n s g 5] assms by (simp add: apply_term_def)
  have new: "apply_term new_subst t = t" for t by (simp add: apply_term_def new_subst_def)
  let ?s = "bind_var_to 5 (App f [Var 4]) new_subst"
  have four: "apply_term ?s (Var 4) = Var 4"
    by (simp add: apply_term_def apply_term_opt.simps [of _ "Var 4"] chase.simps [of _ 4])
  have vars: "vars ?d = {5}" by (induction n) auto
  have big: "?d \<noteq> Var 4" by (simp add: n)
  have "bind_var 5 (App f [Var 4]) new_subst = Inr ?s"
    by (simp add: bind_var_def Let_def new contains_var_eq)
  then have one: "unify_rec (Var 5) (App f [Var 4]) new_subst = Some (Inr ?s)"
    by (subst unify_rec.simps) (simp add: Let_def new)
  have "bind_var 4 ?d ?s = Inr (bind_var_to 4 ?d ?s)"
    using big by (simp add: bind_var_def Let_def deep contains_var_eq vars)
  then have two: "unify_rec (Var 4) ?d ?s = Some (Inr (bind_var_to 4 ?d ?s))"
    by (subst unify_rec.simps) (simp add: Let_def four deep big [symmetric])
  have "unify (App h [Var 5, Var 4]) (App h [App f [Var 4], ?d]) = Some (Inr (bind_var_to 4 ?d ?s))"
    unfolding unify_def by (subst unify_rec.simps) (simp add: Let_def new one two del: funpow.simps)
  then show "\<exists>s. unify (App h [Var 5, Var 4]) (App h [App f [Var 4], ?d]) = Some (Inr s)" by blast
next
  have deep: "term_size (\<sigma> 5) \<le> term_size (inst \<sigma> (((\<lambda>t. App g [t]) ^^ n) (Var 5)))"
    by (intro term_size_inst_var) (induction n, auto)
  show "inst \<sigma> (App h [Var 5, Var 4]) \<noteq> inst \<sigma> (App h [App f [Var 4], ((\<lambda>t. App g [t]) ^^ n) (Var 5)])"
  proof
    assume "inst \<sigma> (App h [Var 5, Var 4]) = inst \<sigma> (App h [App f [Var 4], ((\<lambda>t. App g [t]) ^^ n) (Var 5)])"
    then have "\<sigma> 5 = App f [\<sigma> 4]" "\<sigma> 4 = inst \<sigma> (((\<lambda>t. App g [t]) ^^ n) (Var 5))" by simp_all
    then show False using deep size_inst_arg [of "Var 4" "[Var 4]" \<sigma> f] by simp
  qed
qed


theorem occurs_check_misses_deep_cycle_witness:
  "\<exists>s. unify (App 1 [Var 5, Var 4]) (App 1 [App 2 [Var 4], ((\<lambda>t. App 3 [t]) ^^ 501) (Var 5)])
    = Some (Inr s)"
  by (rule occurs_check_misses_deep_cycle [THEN conjunct1]) simp

end
