(* ===== verification/AcUnify.thy ===== *)
theory AcUnify
  imports Unification Robinson
begin

text \<open>
  Unification on identifiers modulo associative and commutative symbols: it always returns, its
  bindings are acyclic, and in every structure where the symbols are associative and commutative
  the bindings make the two terms equal.
\<close>

section \<open>Valuations that solve bindings\<close>

definition sol :: "'a interp \<Rightarrow> (VarId \<Rightarrow> 'a) \<Rightarrow> (VarId \<Rightarrow> Term option) \<Rightarrow> bool" where
  "sol I \<rho> m \<longleftrightarrow> (\<forall>v t. m v = Some t \<longrightarrow> \<rho> v = tval I \<rho> t)"

lemma sol_empty [simp]: "sol I \<rho> Map.empty"
  by (simp add: sol_def)

lemma sol_bind: "m v = None \<Longrightarrow> sol I \<rho> (m(v \<mapsto> t)) \<longleftrightarrow> sol I \<rho> m \<and> \<rho> v = tval I \<rho> t"
  by (auto simp: sol_def)

lemma sol_closure:
  assumes "ranked m r" "closure m \<theta>" "sol I \<rho> m"
  shows "tval I \<rho> (inst \<theta> t) = tval I \<rho> t"
proof -
  have "tval I \<rho> (\<theta> v) = \<rho> v" for v
  proof (induction "r v" arbitrary: v rule: less_induct)
    case less
    show ?case
    proof (cases "m v")
      case None
      then show ?thesis using closure_unbound [OF assms(2)] by simp
    next
      case (Some u)
      have "tval I \<rho> (\<theta> w) = \<rho> w" if "w \<in> vars u" for w
        using less [of w] that assms(1) Some by (auto simp: ranked_def)
      then have "tval I \<rho> (inst \<theta> u) = tval I \<rho> u" by (simp add: tval_inst cong: tval_cong)
      then show ?thesis using closure_bound [OF assms(2) Some] assms(3) Some by (simp add: sol_def)
    qed
  qed
  then show ?thesis by (simp add: tval_inst)
qed

text \<open>Every valuation can be moved to one that solves acyclic bindings.\<close>

lemma closure_sol:
  assumes "closure m \<theta>"
  shows "sol I (\<lambda>v. tval I \<rho> (\<theta> v)) m"
  using closure_bound [OF assms] by (simp add: sol_def tval_inst)

section \<open>Associative and commutative structures\<close>

definition ac_interp :: "'a interp \<Rightarrow> SymbolId set \<Rightarrow> SymbolId set \<Rightarrow> bool" where
  "ac_interp I comm assoc \<longleftrightarrow> comm_interp I comm \<and>
     (\<forall>f \<in> assoc. \<forall>x y z. ifun I f [ifun I f [x, y], z] = ifun I f [x, ifun I f [y, z]])"

text \<open>Associative symbols are applied to two arguments.\<close>

fun binary :: "SymbolId set \<Rightarrow> Term \<Rightarrow> bool" where
  "binary A (Var v) = True"
| "binary A (App f ts) = ((f \<in> A \<longrightarrow> length ts = 2) \<and> (\<forall>t \<in> set ts. binary A t))"

text \<open>The value of a flattened application.\<close>

fun joined :: "'a interp \<Rightarrow> SymbolId \<Rightarrow> 'a list \<Rightarrow> 'a" where
  "joined I f [] = undefined"
| "joined I f [x] = x"
| "joined I f (x # xs) = ifun I f [x, joined I f xs]"

lemma joined_Cons: "xs \<noteq> [] \<Longrightarrow> joined I f (x # xs) = ifun I f [x, joined I f xs]"
  by (cases xs) auto

lemma joined_append:
  assumes "ac_interp I C A" "f \<in> A" "xs \<noteq> []" "ys \<noteq> []"
  shows "joined I f (xs @ ys) = ifun I f [joined I f xs, joined I f ys]"
  using assms(3)
proof (induction xs)
  case (Cons x xs)
  then show ?case
  proof (cases "xs = []")
    case False
    then show ?thesis using Cons assms(1,2,4) by (simp add: joined_Cons ac_interp_def)
  qed (use assms(4) in \<open>simp add: joined_Cons\<close>)
qed simp

lemma joined_split:
  assumes "ac_interp I C A" "f \<in> A"
  shows "joined I f (xs @ ifun I f [a, b] # ys) = joined I f (xs @ a # b # ys)"
proof -
  have "joined I f (ifun I f [a, b] # ys) = joined I f (a # b # ys)"
    using assms by (cases "ys = []") (simp_all add: joined_Cons ac_interp_def)
  then show ?thesis using joined_append [OF assms, of xs] by (cases "xs = []") simp_all
qed

lemma joined_rev:
  assumes "ac_interp I C A" "f \<in> A" "f \<in> C" "xs \<noteq> []"
  shows "joined I f (rev xs) = joined I f xs"
  using assms(4)
proof (induction xs)
  case (Cons x xs)
  show ?case
  proof (cases "xs = []")
    case False
    have "joined I f (rev (x # xs)) = ifun I f [joined I f (rev xs), x]"
      using joined_append [OF assms(1,2), of "rev xs" "[x]"] False by simp
    also have "\<dots> = ifun I f [x, joined I f xs]"
      using Cons.IH False assms(1,3) by (simp add: ac_interp_def comm_interp_def)
    finally show ?thesis using False by (simp add: joined_Cons)
  qed simp
qed simp

section \<open>States and outcomes\<close>

definition ac_good :: "SymbolId set \<Rightarrow> TermBank \<Rightarrow> VarId set \<Rightarrow> IdSubstitution \<Rightarrow> bool" where
  "ac_good D b V s \<longleftrightarrow> good b V s \<and> (\<forall>v t. bound b s v = Some t \<longrightarrow> binary D t)"

text \<open>The values are related only where the associative symbols are among those applied to two arguments.\<close>

definition ac_ok :: "SymbolId set \<Rightarrow> 'a interp \<Rightarrow> SymbolId set \<Rightarrow> SymbolId set \<Rightarrow> bool" where
  "ac_ok D I C A \<longleftrightarrow> ac_interp I C A \<and> A \<subseteq> D"

lemma ac_okD: "ac_ok D I C A \<Longrightarrow> ac_interp I C A" "ac_ok D I C A \<Longrightarrow> f \<in> A \<Longrightarrow> f \<in> D"
  by (auto simp: ac_ok_def)

definition ac_outcome :: "SymbolId set \<Rightarrow> SymbolId set \<Rightarrow> SymbolId set \<Rightarrow> TermBank \<Rightarrow> VarId set \<Rightarrow> IdSubstitution
    \<Rightarrow> ('a interp \<Rightarrow> (VarId \<Rightarrow> 'a) \<Rightarrow> bool) \<Rightarrow> UnifyError + IdSubstitution \<Rightarrow> bool" where
  "ac_outcome D C A b V s P r \<longleftrightarrow> (case r of
     Inl e \<Rightarrow> True
   | Inr s' \<Rightarrow> ac_good D b V s' \<and> (s' = s \<or> dom (bound b s) \<subset> dom (bound b s')) \<and>
       (\<forall>I \<rho>. ac_ok D I C A \<longrightarrow> sol I \<rho> (bound b s') \<longrightarrow> sol I \<rho> (bound b s) \<and> P I \<rho>))"

lemma ac_outcome_Inl [simp]: "ac_outcome D C A b V s P (Inl e)"
  by (simp add: ac_outcome_def)

lemma ac_outcome_same:
  "ac_good D b V s \<Longrightarrow> (\<And>I \<rho>. ac_ok D I C A \<Longrightarrow> sol I \<rho> (bound b s) \<Longrightarrow> P I \<rho>) \<Longrightarrow> ac_outcome D C A b V s P (Inr s)"
  by (simp add: ac_outcome_def)

lemma ac_outcome_imp:
  "ac_outcome D C A b V s P r \<Longrightarrow>
     (\<And>I \<rho>. ac_ok D I C A \<Longrightarrow> sol I \<rho> (bound b s) \<Longrightarrow> P I \<rho> \<Longrightarrow> Q I \<rho>) \<Longrightarrow> ac_outcome D C A b V s Q r"
  unfolding ac_outcome_def by (cases r) simp_all

lemma ac_outcome_then:
  assumes "ac_outcome D C A b V s P (Inr s1)" "ac_outcome D C A b V s1 Q r"
  shows "ac_outcome D C A b V s (\<lambda>I \<rho>. P I \<rho> \<and> Q I \<rho>) r"
proof (cases r)
  case (Inr s2)
  have "s1 = s \<or> dom (bound b s) \<subset> dom (bound b s1)" using assms(1) by (simp add: ac_outcome_def)
  moreover have "s2 = s1 \<or> dom (bound b s1) \<subset> dom (bound b s2)"
    using assms(2) Inr by (simp add: ac_outcome_def)
  ultimately have "s2 = s \<or> dom (bound b s) \<subset> dom (bound b s2)" by (metis psubset_trans)
  then show ?thesis using assms Inr by (simp add: ac_outcome_def)
qed simp

lemma ac_outcome_count:
  assumes "finite V" "ac_outcome D C A b V s P (Inr s')"
  shows "s' = s \<or> unbound_count b V s' < unbound_count b V s"
proof -
  have "unbound_count b V s' < unbound_count b V s" if "dom (bound b s) \<subset> dom (bound b s')"
  proof -
    have "dom (bound b s') \<subseteq> V" using assms(2) by (simp add: ac_outcome_def ac_good_def good_def)
    then have "V - dom (bound b s') \<subset> V - dom (bound b s)" using that by blast
    then show ?thesis unfolding unbound_count_def using assms(1) by (intro psubset_card_mono) auto
  qed
  then show ?thesis using assms(2) by (auto simp: ac_outcome_def)
qed

definition ac_problem :: "SymbolId set \<Rightarrow> TermBank \<Rightarrow> VarId set \<Rightarrow> TermId \<times> TermId \<Rightarrow> Term \<times> Term \<Rightarrow> bool" where
  "ac_problem D b V p q \<longleftrightarrow> problem b V p q \<and> binary D (fst q) \<and> binary D (snd q)"

text \<open>A single identifier that denotes a term of the problem.\<close>

definition ac_term :: "SymbolId set \<Rightarrow> TermBank \<Rightarrow> VarId set \<Rightarrow> TermId \<Rightarrow> Term \<Rightarrow> bool" where
  "ac_term D b V i t \<longleftrightarrow> to_legacy b i = Some t \<and> vars t \<subseteq> V \<and> binary D t"

lemma ac_problem_iff: "ac_problem D b V (i, j) (t, u) \<longleftrightarrow> ac_term D b V i t \<and> ac_term D b V j u"
  by (auto simp: ac_problem_def problem_def ac_term_def)

lemma ac_term_App:
  assumes "ac_term D b V i (App f ts)"
  obtains args where "node_at b i = Some (NApp f args)" "list_all2 (ac_term D b V) args ts"
  using assms
  by (force simp: ac_term_def to_legacy_App mapM_Some_iff list_all2_conv_all_nth UN_subset_iff)

lemma ac_deref:
  assumes g: "ac_good D b V s" and t: "ac_term D b V i t"
    and r: "ranked (bound b s) r" and th: "closure (bound b s) \<theta>"
  obtains j u where "deref_id i s b = Some j" "ac_term D b V j u" "inst \<theta> u = inst \<theta> t"
    "\<forall>v. u = Var v \<longrightarrow> bound b s v = None"
    "\<forall>(I :: 'a interp) \<rho>. sol I \<rho> (bound b s) \<longrightarrow> tval I \<rho> u = tval I \<rho> t"
proof -
  have ok: "subst_ok b s" using g by (simp add: ac_good_def good_def)
  obtain j u where j: "deref_id i s b = Some j" "to_legacy b j = Some u"
    "\<And>w. u = Var w \<Longrightarrow> id_get s w = None"
    "\<And>\<sigma>. solution (bound b s) \<sigma> \<Longrightarrow> inst \<sigma> u = inst \<sigma> t"
    "u = t \<or> (\<exists>v. bound b s v = Some u)"
    using deref_result [OF derefs_id ok r, of i t] t by (auto simp: ac_term_def)
  have "inst \<theta> u = inst \<theta> t" using j(4) closure_solution [OF th] by blast
  moreover have "tval I \<rho> u = tval I \<rho> t" if "sol I \<rho> (bound b s)" for I :: "'a interp" and \<rho>
    using sol_closure [OF r th that] calculation by metis
  moreover have "ac_term D b V j u"
    using j(2,5) t g unfolding ac_term_def ac_good_def good_def by blast
  ultimately show thesis using that j(1,3) by (simp add: bound_def)
qed

section \<open>Binding and flattening\<close>

lemma ac_bind:
  assumes g: "ac_good D b V s" and v: "v \<in> V" "bound b s v = None" and t: "ac_term D b V i t"
    and r: "ranked (bound b s) r" and th: "closure (bound b s) \<theta>"
  shows "\<exists>x. bind_var_maybe_rigid v i s b rigid = Some x \<and>
    ac_outcome D C A b V s (\<lambda>(I :: 'a interp) \<rho>. \<rho> v = tval I \<rho> t) x"
proof (cases "case rigid of Some vs \<Rightarrow> v \<in> vs | None \<Rightarrow> False")
  case True
  then show ?thesis by (intro exI [of _ "Inl (RigidVariable v)"]) (simp add: bind_var_maybe_rigid_def)
next
  case False
  then have call: "bind_var_maybe_rigid v i s b rigid = bind_var_id v i s b"
    by (simp add: bind_var_maybe_rigid_def bind_var_id_def)
  have good: "good b V s" using g by (simp add: ac_good_def)
  obtain x where x: "bind_var_id v i s b = Some x" "outcome b V s (\<lambda>\<sigma>. \<sigma> v = inst \<sigma> t) x"
    using bind_var_id_outcome [OF good v _ _ r th, of i t] t by (auto simp: ac_term_def)
  obtain j u where j: "deref_id i s b = Some j" "ac_term D b V j u" "inst \<theta> u = inst \<theta> t"
    "\<forall>(I :: 'a interp) \<rho>. sol I \<rho> (bound b s) \<longrightarrow> tval I \<rho> u = tval I \<rho> t"
    by (rule ac_deref [OF g t r th]) blast
  have node: "node_at b j = Some (NVar v) \<longleftrightarrow> u = Var v" using j(2) to_legacy_Var [of b j v] by (auto simp: ac_term_def)
  have "ac_outcome D C A b V s (\<lambda>(I :: 'a interp) \<rho>. \<rho> v = tval I \<rho> t) x"
  proof (cases x)
    case (Inr s')
    show ?thesis
    proof (cases "u = Var v")
      case True
      then have "s' = s" using x(1) Inr j(1) node by (simp add: bind_var_id_def bind_var_maybe_rigid_def)
      moreover have "\<rho> v = tval I \<rho> t" if "sol I \<rho> (bound b s)" for I :: "'a interp" and \<rho>
        using j(4) that True by simp
      ultimately show ?thesis using g Inr by (auto intro: ac_outcome_same)
    next
      case False
      then have "s' = id_bind v j s" using x(1) Inr j(1) node
        by (auto simp: bind_var_id_def bind_var_maybe_rigid_def bind_eq_Some_conv split: if_splits)
      then have m: "bound b s' = (bound b s)(v \<mapsto> u)" using j(2) by (simp add: fun_eq_iff bound_bind ac_term_def)
      then have "ac_good D b V s'" using x(2) Inr g j(2) by (auto simp: outcome_def ac_good_def ac_term_def split: if_splits)
      moreover have "dom (bound b s) \<subset> dom (bound b s')" using v(2) by (auto simp: m)
      ultimately show ?thesis using Inr j(4) v(2) by (simp add: ac_outcome_def m sol_bind)
    qed
  qed simp
  then show ?thesis using call x(1) by auto
qed

text \<open>The stack and the result of the flattening loop together keep the value.\<close>

lemma flatten_loop_flat:
  assumes g: "ac_good D b V s" and r: "ranked (bound b s) r" and th: "closure (bound b s) \<theta>" and f: "f \<in> A"
    and small: "\<And>t. t \<in> set ts \<Longrightarrow> term_size (inst \<theta> t) \<le> n"
  shows "list_all2 (ac_term D b V) stack ts \<Longrightarrow> \<exists>out us. flatten_loop f s b A stack result = Some (result @ out) \<and>
    list_all2 (ac_term D b V) out us \<and> (A \<subseteq> D \<longrightarrow> stack \<noteq> [] \<longrightarrow> out \<noteq> []) \<and>
    (\<forall>u \<in> set us. term_size (inst \<theta> u) \<le> n) \<and>
    (\<forall>(I :: 'a interp) \<rho> pre. ac_ok D I C A \<longrightarrow> sol I \<rho> (bound b s) \<longrightarrow>
       joined I f (pre @ map (tval I \<rho>) us) = joined I f (pre @ map (tval I \<rho>) ts))"
  using small
proof (induction "sum_list (map (\<lambda>t. term_size (inst \<theta> t)) ts)" arbitrary: stack ts result rule: less_induct)
  case less
  show ?case
  proof (cases stack)
    case Nil
    then show ?thesis using less.prems by (intro exI [of _ "[]"]) (simp add: flatten_loop.simps [of f s b A "[]"])
  next
    case (Cons i rest)
    then obtain t ts' where ts: "ts = t # ts'" "ac_term D b V i t" "list_all2 (ac_term D b V) rest ts'"
      using less.prems(1) by (auto simp: list_all2_Cons1)
    obtain j u where j: "deref_id i s b = Some j" "ac_term D b V j u" "inst \<theta> u = inst \<theta> t"
      "\<forall>(I :: 'a interp) \<rho>. sol I \<rho> (bound b s) \<longrightarrow> tval I \<rho> u = tval I \<rho> t"
      by (rule ac_deref [OF g ts(2) r th]) blast
    show ?thesis
    proof (cases "\<exists>as. u = App f as")
      case True
      then obtain as where u: "u = App f as" by blast
      obtain args where args: "node_at b j = Some (NApp f args)" "list_all2 (ac_term D b V) args as"
        by (rule ac_term_App [OF j(2) [unfolded u]])
      have xy: "\<exists>x y. as = [x, y]" if "A \<subseteq> D"
        using j(2) f that by (auto simp: u ac_term_def numeral_2_eq_2 length_Suc_conv)
      have size: "term_size (inst \<theta> t) = Suc (sum_list (map (\<lambda>t. term_size (inst \<theta> t)) as))"
        using j(3) u by (simp flip: j(3) add: comp_def)
      have arg: "term_size (inst \<theta> a) \<le> n" if "a \<in> set as" for a
      proof -
        have "term_size (inst \<theta> a) < term_size (inst \<theta> t)"
          using size_inst_arg [OF that, of \<theta> f] unfolding j(3) [symmetric] u .
        then show ?thesis using less.prems(2) [of t] ts(1) by simp
      qed
      have "list_all2 (ac_term D b V) (args @ rest) (as @ ts')" using args(2) ts(3) by (rule list_all2_appendI)
      moreover have "sum_list (map (\<lambda>t. term_size (inst \<theta> t)) (as @ ts')) < sum_list (map (\<lambda>t. term_size (inst \<theta> t)) ts)"
        using size ts(1) by simp
      moreover have "\<And>t'. t' \<in> set (as @ ts') \<Longrightarrow> term_size (inst \<theta> t') \<le> n"
        using less.prems(2) ts(1) arg by auto
      ultimately obtain out us where o: "flatten_loop f s b A (args @ rest) result = Some (result @ out)"
        "list_all2 (ac_term D b V) out us" "A \<subseteq> D \<longrightarrow> args @ rest \<noteq> [] \<longrightarrow> out \<noteq> []" "\<forall>u \<in> set us. term_size (inst \<theta> u) \<le> n"
        "\<forall>(I :: 'a interp) \<rho> pre. ac_ok D I C A \<longrightarrow> sol I \<rho> (bound b s) \<longrightarrow>
          joined I f (pre @ map (tval I \<rho>) us) = joined I f (pre @ map (tval I \<rho>) (as @ ts'))"
        using less.hyps [of "as @ ts'" "args @ rest" result] by blast
      have "flatten_loop f s b A stack result = Some (result @ out)"
        using Cons j(1) args(1) f o(1) by (simp add: flatten_loop.simps [of f s b A "_ # _"])
      moreover have "args @ rest \<noteq> []" if "A \<subseteq> D" using args(2) xy [OF that] by auto
      moreover have "joined I f (pre @ map (tval I \<rho>) (as @ ts')) = joined I f (pre @ map (tval I \<rho>) ts)"
        if "ac_ok D I C A" "sol I \<rho> (bound b s)" for I :: "'a interp" and \<rho> pre
      proof -
        have "A \<subseteq> D" using that(1) by (simp add: ac_ok_def)
        from xy [OF this] obtain x y where "as = [x, y]" by blast
        then show ?thesis
          using joined_split [OF ac_okD(1) [OF that(1)] f, of pre "tval I \<rho> x" "tval I \<rho> y" "map (tval I \<rho>) ts'"]
            j(4) that(2) by (simp add: ts(1) u)
      qed
      ultimately show ?thesis using o(2-5) by (intro exI [of _ out] exI [of _ us]) auto
    next
      case False
      obtain node where node: "node_at b j = Some node" using j(2) by (auto simp: ac_term_def elim: to_legacy_cases)
      have "flatten_loop f s b A stack result = flatten_loop f s b A rest (result @ [j])"
        using Cons j(1,2) node False
        by (cases node) (auto simp: flatten_loop.simps [of f s b A "_ # _"] ac_term_def to_legacy_node bind_eq_Some_conv)
      moreover have "sum_list (map (\<lambda>t. term_size (inst \<theta> t)) ts') < sum_list (map (\<lambda>t. term_size (inst \<theta> t)) ts)"
        using ts(1) by (cases "inst \<theta> t") auto
      then obtain out us where o: "flatten_loop f s b A rest (result @ [j]) = Some ((result @ [j]) @ out)"
        "list_all2 (ac_term D b V) out us" "\<forall>u \<in> set us. term_size (inst \<theta> u) \<le> n"
        "\<forall>(I :: 'a interp) \<rho> pre. ac_ok D I C A \<longrightarrow> sol I \<rho> (bound b s) \<longrightarrow>
          joined I f (pre @ map (tval I \<rho>) us) = joined I f (pre @ map (tval I \<rho>) ts')"
        using less.hyps [of ts' rest "result @ [j]"] ts less.prems(2) by auto
      moreover have "joined I f (pre @ map (tval I \<rho>) (u # us)) = joined I f (pre @ map (tval I \<rho>) ts)"
        if "ac_ok D I C A" "sol I \<rho> (bound b s)" for I :: "'a interp" and \<rho> pre
        using o(4) [rule_format, OF that, of "pre @ [tval I \<rho> t]"] j(4) that(2) by (simp add: ts(1))
      moreover have "term_size (inst \<theta> u) \<le> n" using less.prems(2) [of t] ts(1) j(3) by simp
      ultimately show ?thesis using j(2) by (intro exI [of _ "j # out"] exI [of _ "u # us"]) auto
    qed
  qed
qed

section \<open>The main loop\<close>

definition same_vals :: "Term \<times> Term \<Rightarrow> 'a interp \<Rightarrow> (VarId \<Rightarrow> 'a) \<Rightarrow> bool" where
  "same_vals q I \<rho> \<longleftrightarrow> tval I \<rho> (fst q) = tval I \<rho> (snd q)"

lemma ac_try_each:
  assumes V: "finite V"
    and call: "\<And>s' p q. ac_good D b V s' \<Longrightarrow> s' = s \<or> unbound_count b V s' < unbound_count b V s \<Longrightarrow>
      q \<in> Q \<Longrightarrow> ac_problem D b V p q \<Longrightarrow>
      \<exists>x. f p s' = Some x \<and> ac_outcome D C A b V s' (same_vals q :: 'a interp \<Rightarrow> (VarId \<Rightarrow> 'a) \<Rightarrow> bool) x"
  shows "list_all2 (ac_problem D b V) ps qs \<Longrightarrow> set qs \<subseteq> Q \<Longrightarrow> ac_good D b V s' \<Longrightarrow>
    s' = s \<or> unbound_count b V s' < unbound_count b V s \<Longrightarrow>
    \<exists>x. try_each f ps s' = Some x \<and> ac_outcome D C A b V s' (\<lambda>(I :: 'a interp) \<rho>. \<forall>q \<in> set qs. same_vals q I \<rho>) x"
proof (induction ps qs arbitrary: s' rule: list_all2_induct)
  case Nil
  then show ?case by (simp add: ac_outcome_same)
next
  case (Cons p ps q qs)
  obtain x where x: "f p s' = Some x"
    "ac_outcome D C A b V s' (same_vals q :: 'a interp \<Rightarrow> (VarId \<Rightarrow> 'a) \<Rightarrow> bool) x"
    using call [OF Cons.prems(2,3) _ Cons.hyps(1)] Cons.prems(1) by auto
  show ?case
  proof (cases x)
    case (Inl e)
    then show ?thesis using x by simp
  next
    case (Inr s1)
    have s1: "ac_good D b V s1" using x(2) Inr by (simp add: ac_outcome_def)
    have "s1 = s \<or> unbound_count b V s1 < unbound_count b V s"
      using ac_outcome_count [OF V x(2) [unfolded Inr]] Cons.prems(3) by auto
    then obtain y where "try_each f ps s1 = Some y"
      "ac_outcome D C A b V s1 (\<lambda>(I :: 'a interp) \<rho>. \<forall>q \<in> set qs. same_vals q I \<rho>) y"
      using Cons.IH [OF _ s1] Cons.prems(1) by auto
    then show ?thesis using x Inr ac_outcome_then [OF x(2) [unfolded Inr]] by auto
  qed
qed

lemma ac_problems_zip:
  "list_all2 (ac_term D b V) is ts \<Longrightarrow> list_all2 (ac_term D b V) js us \<Longrightarrow> length ts = length us \<Longrightarrow>
     list_all2 (ac_problem D b V) (zip is js) (zip ts us)"
  by (auto simp: list_all2_conv_all_nth ac_problem_iff)

lemma zip_same_vals:
  "length ts = length us \<Longrightarrow> \<forall>q \<in> set (zip ts us). same_vals q I \<rho> \<Longrightarrow> map (tval I \<rho>) ts = map (tval I \<rho>) us"
  by (auto simp: same_vals_def set_zip list_eq_iff_nth_eq)

lemma unify_ac_rec_id_outcome:
  fixes TY :: "'a itself"
  assumes V: "finite V"
  shows "ac_good D b V s \<Longrightarrow> closure (bound b s) \<theta> \<Longrightarrow> ac_problem D b V p q \<Longrightarrow>
    \<exists>x. unify_ac_rec_id b C A rigid (fst p) (snd p) s = Some x \<and>
      ac_outcome D C A b V s (same_vals q :: 'a interp \<Rightarrow> (VarId \<Rightarrow> 'a) \<Rightarrow> bool) x"
proof (induction "(unbound_count b V s, term_size (inst \<theta> (fst q)))" arbitrary: s \<theta> p q
    rule: wf_induct_rule [OF wf_lex_prod [OF wf_less_than wf_less_than]])
  case (1 s \<theta> q p)
  note g = 1(2) and th = 1(3)
  let ?call = "\<lambda>p s. unify_ac_rec_id b C A rigid (fst p) (snd p) s"
  obtain r where r: "ranked (bound b s) r" using g by (auto simp: ac_good_def good_def acyclic_binds_def)
  have den: "ac_term D b V (fst p) (fst q)" "ac_term D b V (snd p) (snd q)"
    using 1(4) ac_problem_iff [of D b V "fst p" "snd p" "fst q" "snd q"] by simp_all
  obtain i t where i: "deref_id (fst p) s b = Some i" "ac_term D b V i t" "inst \<theta> t = inst \<theta> (fst q)"
    "\<forall>v. t = Var v \<longrightarrow> bound b s v = None"
    "\<forall>(I :: 'a interp) \<rho>. sol I \<rho> (bound b s) \<longrightarrow> tval I \<rho> t = tval I \<rho> (fst q)"
    by (rule ac_deref [OF g den(1) r th]) blast
  obtain j u where j: "deref_id (snd p) s b = Some j" "ac_term D b V j u" "inst \<theta> u = inst \<theta> (snd q)"
    "\<forall>v. u = Var v \<longrightarrow> bound b s v = None"
    "\<forall>(I :: 'a interp) \<rho>. sol I \<rho> (bound b s) \<longrightarrow> tval I \<rho> u = tval I \<rho> (snd q)"
    by (rule ac_deref [OF g den(2) r th]) blast
  define P where "P = (\<lambda>(I :: 'a interp) \<rho>. tval I \<rho> t = tval I \<rho> u)"
  have fin: ?case if "unify_ac_rec_id b C A rigid (fst p) (snd p) s = Some x" "ac_outcome D C A b V s P x" for x
    using that i(5) j(5) by (auto intro!: ac_outcome_imp [OF that(2)] simp: same_vals_def P_def)
  have call: "\<exists>x. ?call p' s' = Some x \<and> ac_outcome D C A b V s' (same_vals q' :: 'a interp \<Rightarrow> (VarId \<Rightarrow> 'a) \<Rightarrow> bool) x"
    if h: "ac_good D b V s'" "s' = s \<or> unbound_count b V s' < unbound_count b V s"
      "term_size (inst \<theta> (fst q')) < term_size (inst \<theta> (fst q))" "ac_problem D b V p' q'" for s' p' q'
  proof -
    obtain \<theta>' where th': "closure (bound b s') \<theta>'" "s' = s \<longrightarrow> \<theta>' = \<theta>"
      using closure_exists h(1) th unfolding ac_good_def good_def by metis
    have "((unbound_count b V s', term_size (inst \<theta>' (fst q'))),
        (unbound_count b V s, term_size (inst \<theta> (fst q)))) \<in> less_than <*lex*> less_than"
      using h(2) th'(2) h(3) by auto
    from 1(1) [OF this h(1) th'(1) h(4)] show ?thesis .
  qed
  have loop: "\<exists>x. try_each ?call (zip as bs) s = Some x \<and>
      ac_outcome D C A b V s (\<lambda>(I :: 'a interp) \<rho>. map (tval I \<rho>) ts = map (tval I \<rho>) us) x"
    if h: "list_all2 (ac_term D b V) as ts" "list_all2 (ac_term D b V) bs us" "length ts = length us"
      "\<forall>x \<in> set ts. term_size (inst \<theta> x) < term_size (inst \<theta> (fst q))" for as bs ts us
  proof -
    have "\<exists>x. try_each ?call (zip as bs) s = Some x \<and>
        ac_outcome D C A b V s (\<lambda>(I :: 'a interp) \<rho>. \<forall>q \<in> set (zip ts us). same_vals q I \<rho>) x"
      (is "\<exists>x. ?try x \<and> ?outcome x")
    proof (rule ac_try_each [OF V _ ac_problems_zip [OF h(1-3)] subset_refl g disjI1 [OF refl]])
      fix s' p' q' assume *: "ac_good D b V s'" "s' = s \<or> unbound_count b V s' < unbound_count b V s"
        "q' \<in> set (zip ts us)" "ac_problem D b V p' q'"
      have "fst q' \<in> set ts" using *(3) set_zip_leftD [of "fst q'" "snd q'" ts us] by simp
      then show "\<exists>x. ?call p' s' = Some x \<and> ac_outcome D C A b V s' (same_vals q' :: 'a interp \<Rightarrow> (VarId \<Rightarrow> 'a) \<Rightarrow> bool) x"
        using call [OF *(1,2) _ *(4)] h(4) by blast
    qed
    then obtain x where x: "?try x" "?outcome x" by blast
    have "ac_outcome D C A b V s (\<lambda>(I :: 'a interp) \<rho>. map (tval I \<rho>) ts = map (tval I \<rho>) us) x"
      by (rule ac_outcome_imp [OF x(2)]) (rule zip_same_vals [OF h(3)])
    then show ?thesis using x(1) by blast
  qed
  show ?case
  proof (cases "i = j")
    case True
    then have "t = u" using i(2) j(2) by (simp add: ac_term_def)
    then have "ac_outcome D C A b V s P (Inr s)" by (intro ac_outcome_same [OF g]) (simp add: P_def)
    then show ?thesis using True i(1) j(1) by (intro fin) (subst unify_ac_rec_id.simps, simp)
  next
    case ij: False
    obtain nj where nj: "node_at b j = Some nj" using j(2) by (auto simp: ac_term_def elim: to_legacy_cases)
    show ?thesis
    proof (cases t)
      case (Var v)
      have "v \<in> V" "bound b s v = None" using i(2,4) Var by (simp_all add: ac_term_def)
      from ac_bind [OF g this j(2) r th, of rigid C] obtain x where
        "bind_var_maybe_rigid v j s b rigid = Some x" "ac_outcome D C A b V s P x"
        using Var by (auto simp: P_def)
      moreover have "node_at b i = Some (NVar v)" using i(2) Var by (simp add: ac_term_def to_legacy_Var)
      ultimately show ?thesis using ij i(1) j(1) nj by (intro fin) (subst unify_ac_rec_id.simps, simp)
    next
      case t: (App f ts)
      obtain as where as: "node_at b i = Some (NApp f as)" "list_all2 (ac_term D b V) as ts"
        by (rule ac_term_App [OF i(2) [unfolded t]])
      show ?thesis
      proof (cases u)
        case (Var v)
        have "v \<in> V" "bound b s v = None" using j(2,4) Var by (simp_all add: ac_term_def)
        from ac_bind [OF g this i(2) r th, of rigid C] obtain x where
          x: "bind_var_maybe_rigid v i s b rigid = Some x"
          "ac_outcome D C A b V s (\<lambda>(I :: 'a interp) \<rho>. \<rho> v = tval I \<rho> t) x" by auto
        have "ac_outcome D C A b V s P x" by (rule ac_outcome_imp [OF x(2)]) (simp add: P_def Var)
        moreover have "node_at b j = Some (NVar v)" using j(2) Var by (simp add: ac_term_def to_legacy_Var)
        ultimately show ?thesis using ij i(1) j(1) as(1) x(1) by (intro fin) (subst unify_ac_rec_id.simps, simp)
      next
        case u: (App h us)
        obtain bs where bs: "node_at b j = Some (NApp h bs)" "list_all2 (ac_term D b V) bs us"
          by (rule ac_term_App [OF j(2) [unfolded u]])
        have len: "length as = length ts" "length bs = length us" using as(2) bs(2) by (simp_all add: list_all2_lengthD)
        have small: "\<forall>x \<in> set ts. term_size (inst \<theta> x) < term_size (inst \<theta> (fst q))"
          unfolding i(3) [symmetric] t by (intro ballI size_inst_arg)
        have di: "deref_id i s b = Some i" "deref_id j s b = Some j"
          using as(1) bs(1) by (simp_all add: deref_id.simps [of i] deref_id.simps [of j])
        consider "f \<noteq> h" | "f = h" "f \<in> A" | "f = h" "f \<notin> A" "length ts \<noteq> length us"
          | "f = h" "f \<notin> A" "length ts = length us" by blast
        then show ?thesis
        proof cases
          case 1
          then show ?thesis using ij i(1) j(1) as(1) bs(1)
            by (intro fin [of "Inl (symbol_clash f h)"]) (subst unify_ac_rec_id.simps, simp_all)
        next
          case 2
          have two: "length ts = 2" "length us = 2" if "A \<subseteq> D" using i(2) j(2) t u 2 that by (auto simp: ac_term_def)
          have two': "A \<subseteq> D \<longrightarrow> length ts = 2" "A \<subseteq> D \<longrightarrow> length us = 2" using two by blast+
          have pos: "0 < term_size x" for x by (cases x) simp_all
          have pair: "tval I \<rho> (App f xs) = joined I f (map (tval I \<rho>) xs)" if "length xs = 2" for I :: "'a interp" and \<rho> xs
            using that by (auto simp: numeral_2_eq_2 length_Suc_conv)
          have flat: "\<exists>out vs. flatten_assoc k f s b A = Some out \<and> list_all2 (ac_term D b V) out vs \<and> (A \<subseteq> D \<longrightarrow> out \<noteq> []) \<and>
              (\<forall>v \<in> set vs. term_size (inst \<theta> v) < m) \<and>
              (\<forall>(I :: 'a interp) \<rho>. ac_ok D I C A \<longrightarrow> sol I \<rho> (bound b s) \<longrightarrow>
                 joined I f (map (tval I \<rho>) vs) = joined I f (map (tval I \<rho>) xs))"
            if k: "deref_id k s b = Some k" "node_at b k = Some (NApp f ks)" "list_all2 (ac_term D b V) ks xs"
              "A \<subseteq> D \<longrightarrow> length xs = 2" "\<forall>x \<in> set xs. term_size (inst \<theta> x) < m" "0 < m" for k ks xs m
          proof -
            have call1: "flatten_assoc k f s b A = flatten_loop f s b A ks []"
              using k(1,2) 2(2) by (simp add: flatten_assoc_def flatten_loop.simps [of f s b A "[k]"])
            have ne: "ks \<noteq> []" if "A \<subseteq> D" using k(3,4) that by auto
            have "term_size (inst \<theta> x) \<le> m - 1" if "x \<in> set xs" for x using k(5) that by fastforce
            from flatten_loop_flat [OF g r th 2(2) this k(3), of "[]" C] obtain out vs where
              o: "flatten_loop f s b A ks [] = Some ([] @ out)" "list_all2 (ac_term D b V) out vs" "A \<subseteq> D \<longrightarrow> ks \<noteq> [] \<longrightarrow> out \<noteq> []"
              "\<forall>v \<in> set vs. term_size (inst \<theta> v) \<le> m - 1"
              "\<forall>(I :: 'a interp) \<rho> pre. ac_ok D I C A \<longrightarrow> sol I \<rho> (bound b s) \<longrightarrow>
                joined I f (pre @ map (tval I \<rho>) vs) = joined I f (pre @ map (tval I \<rho>) xs)" by blast
            have "\<forall>v \<in> set vs. term_size (inst \<theta> v) < m" using o(4) k(6) by fastforce
            moreover have "joined I f (map (tval I \<rho>) vs) = joined I f (map (tval I \<rho>) xs)"
              if "ac_ok D I C A" "sol I \<rho> (bound b s)" for I :: "'a interp" and \<rho>
              using o(5) [rule_format, OF that, of "[]"] by simp
            ultimately show ?thesis using call1 o(1-3) ne by auto
          qed
          obtain fs vs where fs: "flatten_assoc i f s b A = Some fs" "list_all2 (ac_term D b V) fs vs" "A \<subseteq> D \<longrightarrow> fs \<noteq> []"
            "\<forall>v \<in> set vs. term_size (inst \<theta> v) < term_size (inst \<theta> (fst q))"
            "\<forall>(I :: 'a interp) \<rho>. ac_ok D I C A \<longrightarrow> sol I \<rho> (bound b s) \<longrightarrow>
               joined I f (map (tval I \<rho>) vs) = joined I f (map (tval I \<rho>) ts)"
            using flat [OF di(1) as two'(1) small pos] by blast
          have small_us: "\<forall>x \<in> set us. term_size (inst \<theta> x) < Suc (Max (term_size ` inst \<theta> ` set us))"
            by (simp add: less_Suc_eq_le)
          obtain gs ws where gs: "flatten_assoc j f s b A = Some gs" "list_all2 (ac_term D b V) gs ws" "A \<subseteq> D \<longrightarrow> gs \<noteq> []"
            "\<forall>(I :: 'a interp) \<rho>. ac_ok D I C A \<longrightarrow> sol I \<rho> (bound b s) \<longrightarrow>
               joined I f (map (tval I \<rho>) ws) = joined I f (map (tval I \<rho>) us)"
            using flat [OF di(2) bs [folded 2(1)] two'(2) small_us zero_less_Suc] by blast
          have P: "P I \<rho>" if "ac_ok D I C A" "sol I \<rho> (bound b s)"
            "joined I f (map (tval I \<rho>) vs) = joined I f (map (tval I \<rho>) ws)" for I \<rho>
            using that fs(5) gs(4) pair [OF two(1)] pair [OF two(2)] ac_ok_def [of D I C A] by (simp add: P_def t u 2(1) [symmetric] del: tval.simps)
          have lens: "length fs = length vs" "length gs = length ws"
            using fs(2) gs(2) by (simp_all add: list_all2_lengthD)
          show ?thesis
          proof (cases "length fs = length gs")
            case False
            then show ?thesis using ij i(1) j(1) as(1) bs(1) 2 fs(1) gs(1)
              by (intro fin [of "Inl (ArityMismatch (length fs) (length gs))"]) (subst unify_ac_rec_id.simps, simp_all)
          next
            case same: True
            obtain x where x: "try_each ?call (zip fs gs) s = Some x"
              "ac_outcome D C A b V s (\<lambda>(I :: 'a interp) \<rho>. map (tval I \<rho>) vs = map (tval I \<rho>) ws) x"
              using loop [OF fs(2) gs(2) _ fs(4)] same lens by auto
            have x': "ac_outcome D C A b V s P x" by (rule ac_outcome_imp [OF x(2)]) (simp add: P)
            have "list_all2 (ac_term D b V) (rev gs) (rev ws)" using gs(2) by simp
            from loop [OF fs(2) this _ fs(4)] obtain y where y: "try_each ?call (zip fs (rev gs)) s = Some y"
              "ac_outcome D C A b V s (\<lambda>(I :: 'a interp) \<rho>. map (tval I \<rho>) vs = map (tval I \<rho>) (rev ws)) y"
              using same lens by auto
            have y': "ac_outcome D C A b V s P y" if "f \<in> C"
            proof (rule ac_outcome_imp [OF y(2)])
              fix I :: "'a interp" and \<rho>
              assume *: "ac_ok D I C A" "sol I \<rho> (bound b s)" "map (tval I \<rho>) vs = map (tval I \<rho>) (rev ws)"
              have "joined I f (rev (map (tval I \<rho>) ws)) = joined I f (map (tval I \<rho>) ws)"
                by (rule joined_rev [OF ac_okD(1) [OF *(1)] 2(2) that]) (use gs(3) lens *(1) in \<open>auto simp: ac_ok_def\<close>)
              then show "P I \<rho>" using P [OF *(1,2)] *(3) by (simp add: rev_map)
            qed
            show ?thesis
            proof (cases "f \<in> C")
              case True
              let ?clash = "SymbolClash ''AC mismatch'' ''AC mismatch''"
              define z where "z = (case x of Inr s' \<Rightarrow> Inr s' | Inl e \<Rightarrow> (case y of Inr s' \<Rightarrow> Inr s' | Inl e' \<Rightarrow> Inl ?clash))"
              have "ac_outcome D C A b V s P z" using x' y' [OF True] by (auto simp: z_def split: sum.split)
              moreover have "unify_ac_rec_id b C A rigid (fst p) (snd p) s = Some z"
                using ij i(1) j(1) as(1) bs(1) 2 fs(1) gs(1) same x(1) y(1) True
                by (subst unify_ac_rec_id.simps) (cases x; cases y; simp add: z_def)
              ultimately show ?thesis by (rule fin [rotated])
            next
              case False
              then show ?thesis using ij i(1) j(1) as(1) bs(1) 2 fs(1) gs(1) same x(1) x'
                by (intro fin [of x]) (subst unify_ac_rec_id.simps, simp_all)
            qed
          qed
        next
          case 3
          then show ?thesis using ij i(1) j(1) as(1) bs(1) len
            by (intro fin [of "Inl (ArityMismatch (length as) (length bs))"]) (subst unify_ac_rec_id.simps, simp_all)
        next
          case 4
          obtain x where x: "try_each ?call (zip as bs) s = Some x"
            "ac_outcome D C A b V s (\<lambda>(I :: 'a interp) \<rho>. map (tval I \<rho>) ts = map (tval I \<rho>) us) x"
            using loop [OF as(2) bs(2) 4(3) small] by blast
          have x': "ac_outcome D C A b V s P x"
            by (rule ac_outcome_imp [OF x(2)]) (simp add: P_def t u 4(1) del: map_eq_conv)
          show ?thesis
          proof (cases "f \<in> C \<and> length as = 2")
            case False
            then show ?thesis using ij i(1) j(1) as(1) bs(1) 4 len x(1) x'
              by (intro fin [of x]) (subst unify_ac_rec_id.simps, auto split: sum.split)
          next
            case True
            then obtain a1 a2 b1 b2 t1 t2 u1 u2 where e: "as = [a1, a2]" "bs = [b1, b2]" "ts = [t1, t2]" "us = [u1, u2]"
              using len 4(3) by (auto simp: numeral_2_eq_2 length_Suc_conv)
            have "list_all2 (ac_term D b V) [b2, b1] [u2, u1]" using bs(2) e by simp
            from loop [OF as(2) this _ small] obtain y where y: "try_each ?call [(a1, b2), (a2, b1)] s = Some y"
              "ac_outcome D C A b V s (\<lambda>(I :: 'a interp) \<rho>. map (tval I \<rho>) ts = map (tval I \<rho>) [u2, u1]) y"
              using e by auto
            have y': "ac_outcome D C A b V s P y"
              by (rule ac_outcome_imp [OF y(2)]) (use True e in \<open>simp add: P_def t u 4(1) ac_ok_def ac_interp_def comm_interp_def\<close>)
            show ?thesis
            proof (cases x)
              case (Inr s')
              then show ?thesis using ij i(1) j(1) as(1) bs(1) 4 len x(1) x'
                by (intro fin [of x]) (subst unify_ac_rec_id.simps, simp_all)
            next
              case (Inl err)
              show ?thesis
              proof (cases y)
                case (Inr s')
                then show ?thesis using ij i(1) j(1) as(1) bs(1) 4 len x(1) y y' Inl True e
                  by (intro fin [of y]) (subst unify_ac_rec_id.simps, simp_all)
              next
                case (Inl err')
                then show ?thesis using ij i(1) j(1) as(1) bs(1) 4 len x(1) x' y(1) \<open>x = Inl err\<close> True e
                  by (intro fin [of x]) (subst unify_ac_rec_id.simps, simp_all)
              qed
            qed
          qed
        qed
      qed
    qed
  qed
qed


section \<open>The entry points\<close>

text \<open>What a successful run returns: acyclic bindings whose closure unifies in every structure.\<close>

definition ac_unifier :: "'a itself \<Rightarrow> SymbolId set \<Rightarrow> SymbolId set \<Rightarrow> TermBank \<Rightarrow> Term \<Rightarrow> Term \<Rightarrow> IdSubstitution \<Rightarrow> bool" where
  "ac_unifier TY C A b t u s \<longleftrightarrow> (\<exists>r \<theta>. ranked (bound b s) r \<and> closure (bound b s) \<theta> \<and> subst_ok b s \<and>
     (\<forall>v. \<theta> v \<noteq> Var v \<longrightarrow> v \<in> vars t \<union> vars u) \<and>
     (\<forall>(I :: 'a interp) \<rho>. ac_interp I C A \<longrightarrow> binary A t \<longrightarrow> binary A u \<longrightarrow>
        tval I \<rho> (inst \<theta> t) = tval I \<rho> (inst \<theta> u)))"

lemma binary_empty [simp]: "binary {} t"
  by (induction t) simp_all

lemma unify_ac_rec_id_top:
  fixes TY :: "'a itself"
  assumes t: "to_legacy b i = Some t" and u: "to_legacy b j = Some u"
  shows "\<exists>x. unify_ac_rec_id b C A rigid i j id_new_subst = Some x \<and>
    (case x of Inl e \<Rightarrow> True | Inr s \<Rightarrow> ac_unifier TY C A b t u s)"
proof -
  let ?V = "vars t \<union> vars u"
  define D where "D = (if binary A t \<and> binary A u then A else {})"
  have g: "ac_good D b ?V id_new_subst"
    by (simp add: ac_good_def good_def subst_ok_def acyclic_binds_def ranked_def)
  have "closure (bound b id_new_subst) Var" by (simp add: closure_def)
  moreover have "ac_problem D b ?V (i, j) (t, u)" using t u by (auto simp: ac_problem_def problem_def D_def)
  ultimately obtain x where x: "unify_ac_rec_id b C A rigid i j id_new_subst = Some x"
    "ac_outcome D C A b ?V id_new_subst (same_vals (t, u) :: 'a interp \<Rightarrow> (VarId \<Rightarrow> 'a) \<Rightarrow> bool) x"
    using unify_ac_rec_id_outcome [OF _ g, where \<theta> = Var and p = "(i, j)" and q = "(t, u)" and A = A and C = C
      and rigid = rigid and 'a = 'a] by auto
  have "ac_unifier TY C A b t u s" if s: "x = Inr s" for s
  proof -
    from x(2) s have gs: "ac_good D b ?V s"
      and val: "\<And>(I :: 'a interp) \<rho>. ac_ok D I C A \<Longrightarrow> sol I \<rho> (bound b s) \<Longrightarrow> tval I \<rho> t = tval I \<rho> u"
      by (auto simp: ac_outcome_def same_vals_def)
    obtain r \<theta> where r: "ranked (bound b s) r" "closure (bound b s) \<theta>"
      using gs closure_exists unfolding ac_good_def good_def acyclic_binds_def by metis
    have "v \<in> ?V" if "\<theta> v \<noteq> Var v" for v
      using closure_unbound [OF r(2), of v] that gs by (auto simp: ac_good_def good_def)
    moreover have "tval I \<rho> (inst \<theta> t) = tval I \<rho> (inst \<theta> u)"
      if "ac_interp I C A" "binary A t" "binary A u" for I :: "'a interp" and \<rho>
      using val [OF _ closure_sol [OF r(2)]] that by (simp add: tval_inst ac_ok_def D_def)
    ultimately show ?thesis using r gs unfolding ac_unifier_def ac_good_def good_def by blast
  qed
  then show ?thesis using x(1) by (auto split: sum.split)
qed

lemma unify_ac_rigid_id_result:
  fixes TY :: "'a itself"
  assumes "nodes_wf b" "to_legacy b i = Some t" "to_legacy b j = Some u"
  shows "\<exists>x. unify_ac_rigid_id i j b C A rigid = Some x \<and>
    (case x of Inl e \<Rightarrow> True | Inr s \<Rightarrow> ac_unifier TY C A b t u s)"
proof (cases "C = {} \<and> A = {} \<and> rigid = None")
  case True
  have "ac_unifier TY C A b t u s" if "mgu_result b t u s" for s
    using that unfolding mgu_result_def ac_unifier_def by metis
  moreover obtain x where "unify_id i j b = Some x" "case x of Inl e \<Rightarrow> \<forall>\<sigma>. inst \<sigma> t \<noteq> inst \<sigma> u | Inr s \<Rightarrow> mgu_result b t u s"
    using unify_id_result [OF assms] by auto
  ultimately show ?thesis using True by (cases x) (auto simp: unify_ac_rigid_id_def)
next
  case False
  then show ?thesis using unify_ac_rec_id_top [OF assms(2,3), of C A rigid TY]
    unfolding unify_ac_rigid_id_def if_not_P [OF False] by blast
qed

text \<open>
  C14. Unification modulo associative and commutative symbols on term identifiers
  (\<open>unify_ac_rigid_id\<close>) always returns, and when it succeeds its bindings are acyclic and bind
  only variables of the two terms. When the two terms apply every associative symbol to exactly two
  arguments, the bindings make them equal in every structure in which the declared symbols are
  associative and commutative. Applications of an associative symbol to another number of arguments
  are flattened like the binary ones, and then nothing is claimed about the value.
\<close>

theorem unify_ac_rigid_id_sound:
  assumes "bank_ok b" "to_legacy b i = Some t" "to_legacy b j = Some u"
  shows "\<exists>x. unify_ac_rigid_id i j b C A rigid = Some x \<and>
    (case x of
       Inl e \<Rightarrow> True
     | Inr s \<Rightarrow> \<exists>r \<theta>. ranked (bound b s) r \<and> closure (bound b s) \<theta> \<and>
         (\<forall>v. \<theta> v \<noteq> Var v \<longrightarrow> v \<in> vars t \<union> vars u) \<and>
         (binary A t \<and> binary A u \<longrightarrow>
           (\<forall>(I :: 'a interp) \<rho>. ac_interp I C A \<longrightarrow> tval I \<rho> (inst \<theta> t) = tval I \<rho> (inst \<theta> u))))"
proof -
  have "nodes_wf b" using assms(1) by (simp add: bank_ok_def nodes_ok_wf)
  from unify_ac_rigid_id_result [OF this assms(2,3), of C A rigid "TYPE('a)"] obtain x where
    x: "unify_ac_rigid_id i j b C A rigid = Some x" "case x of Inl e \<Rightarrow> True | Inr s \<Rightarrow> ac_unifier TYPE('a) C A b t u s"
    by blast
  then show ?thesis by (cases x) (simp_all add: ac_unifier_def, blast)
qed

text \<open>The sums of two constants and a variable, in both orders, over one symbol.\<close>

definition left_sum :: Term where "left_sum = App 1 [App 1 [App 2 [], App 3 []], Var 4]"
definition right_sum :: Term where "right_sum = App 1 [Var 5, App 1 [App 3 [], App 2 []]]"

definition ac_bank :: TermBank where
  "ac_bank = snd (from_legacy (App 9 [left_sum, right_sum]) new_bank)"

lemma ac_bank_nodes:
  "nodes ac_bank = [NApp 2 [], NApp 3 [], NApp 1 [0, 1], NVar 4, NApp 1 [2, 3], NVar 5, NApp 1 [1, 0],
    NApp 1 [5, 6], NApp 9 [4, 7]]"
  by (simp add: ac_bank_def left_sum_def right_sum_def new_bank_def intern_var_def intern_app_def Let_def)

lemma ac_bank_ok: "bank_ok ac_bank"
proof -
  have "room new_bank (term_size (App 9 [left_sum, right_sum]) + 0)"
    using new_bank_ok by (simp add: room_def new_bank_def left_sum_def right_sum_def)
  from from_legacy_room(1) [OF this] show ?thesis
    unfolding ac_bank_def by (metis grows_def prod.collapse)
qed

lemma ac_bank_ids: "to_legacy ac_bank 4 = Some left_sum" "to_legacy ac_bank 7 = Some right_sum"
  by (simp_all add: to_legacy_node node_at_def ac_bank_nodes left_sum_def right_sum_def)

theorem unify_ac_rigid_id_sound_witness:
  "\<exists>x. unify_ac_rigid_id 4 7 ac_bank {1} {1} (Some {4}) = Some x \<and>
    (case x of
       Inl e \<Rightarrow> True
     | Inr s \<Rightarrow> \<exists>r \<theta>. ranked (bound ac_bank s) r \<and> closure (bound ac_bank s) \<theta> \<and>
         (\<forall>v. \<theta> v \<noteq> Var v \<longrightarrow> v \<in> vars left_sum \<union> vars right_sum) \<and>
         (binary {1} left_sum \<and> binary {1} right_sum) \<and>
         (\<forall>(I :: int interp) \<rho>. ac_interp I {1} {1} \<longrightarrow>
            tval I \<rho> (inst \<theta> left_sum) = tval I \<rho> (inst \<theta> right_sum)))"
proof -
  have bin: "binary {1} left_sum \<and> binary {1} right_sum" by (simp add: left_sum_def right_sum_def)
  from unify_ac_rigid_id_sound [OF ac_bank_ok ac_bank_ids, of "{1}" "{1}" "Some {4}", where 'a = int] obtain x where
    x: "unify_ac_rigid_id 4 7 ac_bank {1} {1} (Some {4}) = Some x"
    "case x of Inl e \<Rightarrow> True
     | Inr s \<Rightarrow> \<exists>r \<theta>. ranked (bound ac_bank s) r \<and> closure (bound ac_bank s) \<theta> \<and>
         (\<forall>v. \<theta> v \<noteq> Var v \<longrightarrow> v \<in> vars left_sum \<union> vars right_sum) \<and>
         (binary {1} left_sum \<and> binary {1} right_sum \<longrightarrow>
           (\<forall>(I :: int interp) \<rho>. ac_interp I {1} {1} \<longrightarrow>
              tval I \<rho> (inst \<theta> left_sum) = tval I \<rho> (inst \<theta> right_sum)))" by blast
  then show ?thesis using bin by (intro exI [of _ x]) (cases x, simp_all)
qed

text \<open>
  \<open>flatten_assoc\<close> does not look at the number of arguments: \<open>f(f(a))\<close> and \<open>f(a)\<close>, with \<open>f\<close> applied to one
  argument, unify with no binding at all, and differ in a structure in which the binary \<open>f\<close> is
  associative and commutative.
\<close>

definition unary_bank :: TermBank where
  "unary_bank = snd (from_legacy (App 1 [App 1 [App 2 []]]) new_bank)"

lemma unary_bank_nodes: "nodes unary_bank = [NApp 2 [], NApp 1 [0], NApp 1 [1]]"
  by (simp add: unary_bank_def new_bank_def intern_app_def Let_def)

lemma unary_application_flattened:
  "unify_ac_rigid_id 2 1 unary_bank {1} {1} None = Some (Inr id_new_subst) \<and>
   to_legacy unary_bank 2 = Some (App 1 [App 1 [App 2 []]]) \<and> to_legacy unary_bank 1 = Some (App 1 [App 2 []]) \<and>
   (\<exists>I :: nat interp. ac_interp I {1} {1} \<and> (\<forall>\<rho>. tval I \<rho> (App 1 [App 1 [App 2 []]]) \<noteq> tval I \<rho> (App 1 [App 2 []])))"
proof (intro conjI)
  have nodes: "node_at unary_bank 0 = Some (NApp 2 [])" "node_at unary_bank 1 = Some (NApp 1 [0])"
    "node_at unary_bank 2 = Some (NApp 1 [1])" by (simp_all add: node_at_def unary_bank_nodes)
  have deref: "deref_id i id_new_subst unary_bank = Some i" if "i = 0 \<or> i = 1 \<or> i = 2" for i
    using that nodes by (subst deref_id.simps) (auto simp: id_new_subst_def)
  have loop: "flatten_loop 1 id_new_subst unary_bank {1} [] r = Some r"
    "flatten_loop 1 id_new_subst unary_bank {1} [0] r = Some (r @ [0])" for r
    by (subst flatten_loop.simps, simp) (subst flatten_loop.simps, simp add: deref nodes, subst flatten_loop.simps, simp)
  have one: "flatten_loop 1 id_new_subst unary_bank {1} [1] [] = Some [0]"
    by (subst flatten_loop.simps) (simp add: deref nodes loop)
  have two: "flatten_loop 1 id_new_subst unary_bank {1} [2] [] = Some [0]"
    by (subst flatten_loop.simps) (simp add: deref nodes one)
  have same: "unify_ac_rec_id unary_bank {1} {1} None 0 0 id_new_subst = Some (Inr id_new_subst)"
    by (subst unify_ac_rec_id.simps) (simp add: deref)
  have "unify_ac_rec_id unary_bank {1} {1} None 2 1 id_new_subst = Some (Inr id_new_subst)"
    by (subst unify_ac_rec_id.simps) (simp add: deref nodes flatten_assoc_def one two same)
  then show "unify_ac_rigid_id 2 1 unary_bank {1} {1} None = Some (Inr id_new_subst)"
    by (simp add: unify_ac_rigid_id_def)
  show "to_legacy unary_bank 2 = Some (App 1 [App 1 [App 2 []]])" "to_legacy unary_bank 1 = Some (App 1 [App 2 []])"
    by (simp_all add: to_legacy_node nodes)
  show "\<exists>I :: nat interp. ac_interp I {1} {1} \<and> (\<forall>\<rho>. tval I \<rho> (App 1 [App 1 [App 2 []]]) \<noteq> tval I \<rho> (App 1 [App 2 []]))"
    by (intro exI [of _ "\<lparr>ifun = \<lambda>f xs. if length xs = 1 then hd xs + 1 else sum_list xs, ipred = \<lambda>p xs. False\<rparr>"])
      (simp add: ac_interp_def comm_interp_def)
qed

end
