(* ===== verification/Loops.thy ===== *)
theory Loops
  imports Prelude
begin

text \<open>
  Loops of total functions with an early return, and rewriting a list in place.
\<close>

text \<open>\<open>try_fold\<close> is \<open>for x in xs { f(x, &mut s)?; }\<close> for an \<open>f\<close> that always returns.\<close>

fun try_fold :: "('a \<Rightarrow> 's \<Rightarrow> 'e + 's) \<Rightarrow> 'a list \<Rightarrow> 's \<Rightarrow> 'e + 's" where
  "try_fold f [] s = Inr s"
| "try_fold f (x # xs) s = (case f x s of Inl e \<Rightarrow> Inl e | Inr s' \<Rightarrow> try_fold f xs s')"

lemma try_fold_cong [fundef_cong]:
  "xs = ys \<Longrightarrow> s = t \<Longrightarrow> (\<And>x s. x \<in> set ys \<Longrightarrow> f x s = g x s) \<Longrightarrow> try_fold f xs s = try_fold g ys t"
  by (induction ys arbitrary: xs s t) (auto split: sum.split)

lemma foldM_cong [fundef_cong]:
  "xs = ys \<Longrightarrow> s = t \<Longrightarrow> (\<And>x s. x \<in> set ys \<Longrightarrow> f x s = g x s) \<Longrightarrow> foldM f xs s = foldM g ys t"
proof (induction ys arbitrary: xs s t)
  case (Cons y ys)
  have "foldM f ys = foldM g ys" using Cons by (intro ext) simp
  then show ?case using Cons.prems by simp
qed simp

lemma map_st_cong [fundef_cong]:
  "xs = ys \<Longrightarrow> s = t \<Longrightarrow> (\<And>x s. x \<in> set ys \<Longrightarrow> f x s = g x s) \<Longrightarrow> map_st f xs s = map_st g ys t"
  by (induction ys arbitrary: xs s t) (auto simp: split_def Let_def)

lemma mapM_st_cong [fundef_cong]:
  "xs = ys \<Longrightarrow> s = t \<Longrightarrow> (\<And>x s. x \<in> set ys \<Longrightarrow> f x s = g x s) \<Longrightarrow> mapM_st f xs s = mapM_st g ys t"
proof (induction ys arbitrary: xs s t)
  case (Cons y ys)
  have "mapM_st f ys = mapM_st g ys" using Cons by (intro ext) simp
  then show ?case using Cons.prems by simp
qed simp

end
