(* ===== verification/BankTotal.thy ===== *)
theory BankTotal
  imports AcUnify Loops
begin

text \<open>
  The operations of the term bank return whatever the size of the bank: identifiers are 32 bits
  wide, so a bank with more than \<open>2 ^ 32\<close> nodes hands out identifiers of older nodes, but every
  identifier still denotes a term of lower rank and every walk ends. As long as the bank is not
  full the result is the one the operation computes on terms.
\<close>

section \<open>Banks that may be full\<close>

definition intact :: "TermBank \<Rightarrow> bool" where
  "intact b \<longleftrightarrow> length (nodes b) \<le> 2 ^ 32"

definition sane :: "TermBank \<Rightarrow> bool" where
  "sane b \<longleftrightarrow> nodes_wf b \<and> memo_ok b \<and> (intact b \<longrightarrow> nodes_ok b)"

text \<open>
  \<open>means d b i x\<close>: what is stored is valid, and it denotes \<open>x\<close> unless the bank is full; \<open>d\<close> reads
  identifiers, atoms or literals back.
\<close>

definition means :: "(TermBank \<Rightarrow> 'i \<Rightarrow> 't option) \<Rightarrow> TermBank \<Rightarrow> 'i \<Rightarrow> 't \<Rightarrow> bool" where
  "means d b i x \<longleftrightarrow> (\<exists>y. d b i = Some y) \<and> (intact b \<longrightarrow> d b i = Some x)"

abbreviation den :: "TermBank \<Rightarrow> TermId \<Rightarrow> Term \<Rightarrow> bool" where
  "den \<equiv> means to_legacy"

definition persistent :: "(TermBank \<Rightarrow> 'i \<Rightarrow> 't option) \<Rightarrow> bool" where
  "persistent d \<longleftrightarrow> (\<forall>b b' i x. extends b b' \<longrightarrow> d b i = Some x \<longrightarrow> d b' i = Some x)"

lemma persistent_to_legacy: "persistent to_legacy"
  by (simp add: persistent_def extends_to_legacy)

definition becomes :: "TermBank \<Rightarrow> TermBank \<Rightarrow> bool" where
  "becomes b b' \<longleftrightarrow> sane b' \<and> extends b b'"

lemma sane_bank_ok: "sane b \<Longrightarrow> intact b \<Longrightarrow> bank_ok b"
  by (simp add: sane_def bank_ok_def)

lemma bank_ok_sane: "bank_ok b \<Longrightarrow> sane b"
  by (simp add: sane_def bank_ok_def nodes_ok_wf)

lemma bank_ok_intact: "bank_ok b \<Longrightarrow> intact b"
  by (simp add: bank_ok_def nodes_ok_def intact_def)

lemma sane_wf: "sane b \<Longrightarrow> nodes_wf b"
  by (simp add: sane_def)

lemma sane_id: "sane b \<Longrightarrow> is_id b i \<longleftrightarrow> unat i < length (nodes b)"
  by (simp add: is_id_def to_legacy_iff sane_wf)

lemma extends_intact: "extends b b' \<Longrightarrow> intact b' \<Longrightarrow> intact b"
  by (auto simp: extends_def intact_def)

lemma becomes_sane: "becomes b b' \<Longrightarrow> sane b'"
  by (simp add: becomes_def)

lemma becomes_extends: "becomes b b' \<Longrightarrow> extends b b'"
  by (simp add: becomes_def)

lemma becomes_refl: "sane b \<Longrightarrow> becomes b b"
  by (simp add: becomes_def)

lemma becomes_trans [trans]: "becomes a b \<Longrightarrow> becomes b c \<Longrightarrow> becomes a c"
  by (auto simp: becomes_def intro: extends_trans)

lemma becomes_intact: "becomes b b' \<Longrightarrow> intact b' \<Longrightarrow> intact b"
  by (auto simp: becomes_def intro: extends_intact)

lemma is_id_extends: "extends b b' \<Longrightarrow> is_id b i \<Longrightarrow> is_id b' i"
  by (auto simp: is_id_def intro: extends_to_legacy)

lemma meansI: "d b i = Some x \<Longrightarrow> means d b i x"
  by (simp add: means_def)

lemma means_intact: "means d b i x \<Longrightarrow> intact b \<Longrightarrow> d b i = Some x"
  by (simp add: means_def)

lemma means_becomes: "persistent d \<Longrightarrow> becomes b b' \<Longrightarrow> means d b i x \<Longrightarrow> means d b' i x"
  unfolding means_def becomes_def persistent_def by (metis extends_intact)

lemma all_means_becomes:
  "persistent d \<Longrightarrow> becomes b b' \<Longrightarrow> list_all2 (means d b) is xs \<Longrightarrow> list_all2 (means d b') is xs"
  by (erule list_all2_mono) (rule means_becomes)

lemmas den_becomes = means_becomes [OF persistent_to_legacy]
lemmas dens_becomes = all_means_becomes [OF persistent_to_legacy]

lemma mapM_list_all2: "mapM f xs = Some ys \<longleftrightarrow> list_all2 (\<lambda>x y. f x = Some y) xs ys"
  by (simp add: mapM_Some_iff list_all2_conv_all_nth)

lemma all_means_intact: "list_all2 (means d b) is xs \<Longrightarrow> intact b \<Longrightarrow> mapM (d b) is = Some xs"
  unfolding mapM_list_all2 by (erule list_all2_mono) (rule means_intact)

lemma all_meansI: "mapM (d b) is = Some xs \<Longrightarrow> list_all2 (means d b) is xs"
  unfolding mapM_list_all2 by (erule list_all2_mono) (rule meansI)

lemma all_means_exact:
  assumes "list_all2 (means d b) is xs"
  obtains ys where "mapM (d b) is = Some ys" "intact b \<longrightarrow> ys = xs"
proof -
  have "\<exists>y. d b i = Some y" if "i \<in> set is" for i
    using assms that by (auto simp: list_all2_conv_all_nth in_set_conv_nth means_def)
  then obtain ys where "mapM (d b) is = Some ys" using mapM_total by blast
  then show thesis using that all_means_intact [OF assms] by fastforce
qed

lemma persistent_mapM: "persistent d \<Longrightarrow> extends b b' \<Longrightarrow> mapM (d b) is = Some xs \<Longrightarrow> mapM (d b') is = Some xs"
  unfolding mapM_list_all2 by (erule list_all2_mono) (simp add: persistent_def)

lemma dens_ids: "list_all2 (den b) is ts \<Longrightarrow> i \<in> set is \<Longrightarrow> is_id b i"
  by (auto simp: list_all2_conv_all_nth in_set_conv_nth means_def is_id_def)

section \<open>Interning\<close>

lemma intern_node_becomes:
  assumes ok: "sane b" and ch: "children_in b node" and eq: "intern_node node b = (i, b')"
  shows "becomes b b' \<and> is_id b' i \<and> (intact b' \<longrightarrow> node_at b' i = Some node)"
proof (cases "fmlookup (dedup b) node")
  case (Some j)
  then have b: "b' = b" "i = j" using eq by (simp_all add: intern_node_def)
  have "unat j < length (nodes b)" using ok Some by (auto simp: sane_def nodes_wf_def)
  then have "is_id b j" using ok by (simp add: sane_id)
  moreover have "intact b \<Longrightarrow> node_at b j = Some node"
    using ok Some by (simp add: sane_def nodes_ok_def)
  ultimately show ?thesis using b ok by (simp add: becomes_refl)
next
  case None
  show ?thesis
  proof (cases "length (nodes b) < 2 ^ 32")
    case True
    then have "nodes_ok b" using ok by (simp add: sane_def intact_def)
    from intern_node_grows [OF this True ch eq] have
      g: "nodes_ok b'" "extends b b'" "max_var_memo b' = max_var_memo b" "node_at b' i = Some node" by auto
    then have "sane b'" using ok memo_ok_extends by (auto simp: sane_def nodes_ok_wf)
    moreover from this g(4) have "is_id b' i" by (simp add: sane_id node_at_def split: if_splits)
    ultimately show ?thesis using g by (simp add: becomes_def)
  next
    case False
    have b': "b' = b\<lparr>nodes := nodes b @ [node], dedup := fmupd node i (dedup b)\<rparr>"
      using eq by (auto simp: intern_node_def None Let_def)
    have small: "unat (j :: TermId) < length (nodes b)" for j
      by (rule less_le_trans [OF unat_u32_less]) (use False in simp)
    have at: "node_at b' j = node_at b j" for j
      using small [of j] by (simp add: b' node_at_def nth_append)
    have wf: "nodes_wf b" using ok by (simp add: sane_def)
    then have "fmlookup (dedup b) nd = Some j \<or> nd \<noteq> node" if "node_at b j = Some nd" for nd j
      using that by (auto simp: nodes_wf_def)
    then have "nodes_wf b'" using wf None small
      unfolding nodes_wf_def at by (auto simp: b' intro: less_SucI)
    moreover have ext: "extends b b'" by (simp add: b' extends_def)
    moreover have "memo_ok b'" using ok memo_ok_extends [OF _ ext] by (simp add: sane_def b')
    moreover have "\<not> intact b'" using False by (simp add: intact_def b')
    ultimately have "becomes b b'" by (simp add: becomes_def sane_def)
    moreover have "unat i < length (nodes b')" using small [of i] by (simp add: b')
    ultimately show ?thesis using \<open>\<not> intact b'\<close> by (simp add: sane_id becomes_def)
  qed
qed

lemma intern_var_becomes:
  assumes "sane b" "intern_var v b = (i, b')"
  shows "becomes b b' \<and> den b' i (Var v)"
  using intern_node_becomes [OF assms(1), of "NVar v" i b'] assms(2)
  by (auto simp: intern_var_node children_in_def to_legacy_Var means_def is_id_def)

lemma intern_app_becomes:
  assumes "sane b" "list_all2 (den b) is ts" "intern_app f is b = (i, b')"
  shows "becomes b b' \<and> den b' i (App f ts)"
proof -
  have "children_in b (NApp f is)"
    using dens_ids [OF assms(2)] assms(1) by (auto simp: children_in_def sane_id)
  from intern_node_becomes [OF assms(1) this] assms(3) have
    b': "becomes b b'" "is_id b' i" "intact b' \<Longrightarrow> node_at b' i = Some (NApp f is)"
    by (auto simp: intern_app_node)
  moreover have "mapM (to_legacy b') is = Some ts" if "intact b'"
    using all_means_intact [OF dens_becomes [OF b'(1) assms(2)] that] .
  ultimately show ?thesis by (auto simp: means_def is_id_def to_legacy_App)
qed

section \<open>Rewriting\<close>

text \<open>
  \<open>maps_as d f Q x y\<close>: in every bank that satisfies \<open>Q\<close>, \<open>f\<close> maps what denotes \<open>x\<close> to what
  denotes \<open>y\<close> unless the bank is full.
\<close>

definition maps_as :: "(TermBank \<Rightarrow> 'i \<Rightarrow> 't option) \<Rightarrow> ('i \<Rightarrow> TermBank \<Rightarrow> ('i \<times> TermBank) option)
    \<Rightarrow> (TermBank \<Rightarrow> bool) \<Rightarrow> 't \<Rightarrow> 't \<Rightarrow> bool" where
  "maps_as d f Q x y \<longleftrightarrow> (\<forall>b i. Q b \<longrightarrow> sane b \<longrightarrow> d b i = Some x \<longrightarrow>
     (\<exists>j b'. f i b = Some (j, b') \<and> becomes b b' \<and> means d b' j y))"

abbreviation "maps_to \<equiv> maps_as to_legacy"

lemma maps_asD:
  assumes "maps_as d f Q x y" "Q b" "sane b" "d b i = Some x"
  obtains j b' where "f i b = Some (j, b')" "becomes b b'" "means d b' j y"
  using assms unfolding maps_as_def by blast

lemma maps_as_list:
  assumes "stable Q" "persistent d"
  shows "\<forall>x \<in> set xs. maps_as d f Q x (g x) \<Longrightarrow> Q b \<Longrightarrow> sane b \<Longrightarrow> mapM (d b) is = Some xs \<Longrightarrow>
    \<exists>js b'. mapM_st f is b = Some (js, b') \<and> becomes b b' \<and> list_all2 (means d b') js (map g xs)"
proof (induction "is" arbitrary: xs b)
  case Nil
  then show ?case by (auto simp: becomes_refl)
next
  case (Cons i "is")
  then obtain x ys where xs: "xs = x # ys" "d b i = Some x" "mapM (d b) is = Some ys"
    by (auto simp: bind_eq_Some_conv)
  obtain j b1 where b1: "f i b = Some (j, b1)" "becomes b b1" "means d b1 j (g x)"
    using maps_asD [of d f Q x "g x" b i] Cons.prems(1-3) xs(1,2) by auto
  have "Q b1" using Cons.prems(2) b1(2) assms(1) becomes_extends unfolding stable_def by blast
  then obtain js b2 where b2: "mapM_st f is b1 = Some (js, b2)" "becomes b1 b2"
    "list_all2 (means d b2) js (map g ys)"
    using Cons.IH [of ys b1] Cons.prems(1) xs persistent_mapM [OF assms(2) becomes_extends [OF b1(2)] xs(3)]
      becomes_sane [OF b1(2)] by auto
  then show ?case using b1(1) xs(1) becomes_trans [OF b1(2) b2(2)] means_becomes [OF assms(2) b2(2) b1(3)] by auto
qed

lemmas maps_to_list = maps_as_list [OF _ persistent_to_legacy]

lemma rebuild_app_becomes:
  assumes "sane b" "list_all2 (den b) js us" "node_at b i = Some (NApp f args)"
  obtains k b' where "(if js = args then (i, b) else intern_app f js b) = (k, b')" "becomes b b'"
    "den b' k (App f us)"
proof (cases "js = args")
  case True
  have "is_id b i" using assms(1,3) by (simp add: sane_id node_at_def split: if_splits)
  moreover have "intact b \<Longrightarrow> to_legacy b i = Some (App f us)"
    using assms(3) True all_means_intact [OF assms(2)] by (simp add: to_legacy_App)
  ultimately show thesis using that [of i b] True assms(1) by (simp add: becomes_refl means_def is_id_def)
next
  case False
  obtain k b' where "intern_app f js b = (k, b')" by fastforce
  then show thesis using that [of k b'] False intern_app_becomes [OF assms(1,2)] by simp
qed

lemma id_apply_term_maps:
  assumes r: "ranked m r" and th: "closure m \<theta>"
  shows "maps_to (id_apply_term s) (expands s m) t (inst \<theta> t)"
proof (induction "term_size (inst \<theta> t)" arbitrary: t rule: less_induct)
  case less
  show ?case unfolding maps_as_def
  proof (intro allI impI)
    fix b i
    assume e: "expands s m b" and sane: "sane b" and i: "to_legacy b i = Some t"
    have ok: "subst_ok b s" "bound b s = m" using e by (simp_all add: expands_def)
    show "\<exists>j b'. id_apply_term s i b = Some (j, b') \<and> becomes b b' \<and> den b' j (inst \<theta> t)"
    proof (cases "id_bindings s = []")
      case True
      then have "m = Map.empty" using ok(2) by (auto simp: bound_def id_get_def)
      then have "\<theta> = Var" using th by (auto simp: closure_def)
      then show ?thesis using True meansI [where d = to_legacy, OF i] becomes_refl [OF sane]
        by (subst id_apply_term.simps) simp
    next
      case False
      obtain j u where j: "id_deref_loop s b i = Some j" "to_legacy b j = Some u"
        "\<And>v. u = Var v \<Longrightarrow> id_get s v = None" "inst \<theta> u = inst \<theta> t"
        using deref_result [OF derefs_loop ok(1), of r i t] r i closure_solution [OF th] ok(2) by auto
      show ?thesis
      proof (cases u)
        case (Var v)
        then have "m v = None" using j(3) ok(2) by (auto simp: bound_def)
        then have "inst \<theta> t = Var v" using j(4) Var closure_unbound [OF th] by simp
        moreover have "id_apply_term s i b = Some (j, b)"
          using False j(1,2) Var by (subst id_apply_term.simps) (simp add: to_legacy_Var)
        ultimately show ?thesis using becomes_refl [OF sane] meansI [where d = to_legacy, OF j(2)] Var by simp
      next
        case (App f ts)
        then obtain args where args: "node_at b j = Some (NApp f args)" "mapM (to_legacy b) args = Some ts"
          using j(2) by (auto simp: to_legacy_App)
        have t: "inst \<theta> t = App f (map (inst \<theta>) ts)" using j(4) App by simp
        have IH: "\<forall>a \<in> set ts. maps_to (id_apply_term s) (expands s m) a (inst \<theta> a)"
        proof
          fix a assume "a \<in> set ts"
          from size_inst_arg [OF this, of \<theta> f] show "maps_to (id_apply_term s) (expands s m) a (inst \<theta> a)"
            using less t by simp
        qed
        from maps_to_list [OF expands_stable IH e sane args(2)] obtain js b1 where
          b1: "mapM_st (id_apply_term s) args b = Some (js, b1)" "becomes b b1"
            "list_all2 (den b1) js (map (inst \<theta>) ts)" by blast
        obtain k b2 where b2: "(if js = args then (j, b1) else intern_app f js b1) = (k, b2)"
          "becomes b1 b2" "den b2 k (App f (map (inst \<theta>) ts))"
          using rebuild_app_becomes [OF becomes_sane [OF b1(2)] b1(3)]
            extends_node_at [OF becomes_extends [OF b1(2)] args(1)] by blast
        have "id_apply_term s i b = Some (k, b2)"
          using False j(1) args(1) b1(1) b2(1) by (subst id_apply_term.simps) simp
        then show ?thesis using b2(3) becomes_trans [OF b1(2) b2(2)] t by auto
      qed
    qed
  qed
qed

lemma atom_to_legacy_cases:
  assumes "atom_to_legacy b a = Some A"
  obtains p args ts where "a = IdPred p args" "A = Pred p ts" "mapM (to_legacy b) args = Some ts"
  | l r t u where "a = IdEq l r" "A = Eq t u" "to_legacy b l = Some t" "to_legacy b r = Some u"
  using assms by (cases a) (auto simp: bind_eq_Some_conv)

lemma persistent_atom: "persistent atom_to_legacy"
  unfolding persistent_def by (auto elim!: atom_to_legacy_cases intro: extends_to_legacy extends_mapM simp: bind_eq_Some_conv)

lemma literal_to_legacy_iff:
  "literal_to_legacy b l = Some L \<longleftrightarrow> id_positive l = positive L \<and> atom_to_legacy b (id_atom l) = Some (atom L)"
  by (cases L) (auto simp: literal_to_legacy_def bind_eq_Some_conv)

lemma persistent_literal: "persistent literal_to_legacy"
  using persistent_atom unfolding persistent_def literal_to_legacy_iff by blast

lemma means_literal:
  "means literal_to_legacy b l L \<longleftrightarrow> means atom_to_legacy b (id_atom l) (atom L) \<and> (intact b \<longrightarrow> id_positive l = positive L)"
  unfolding means_def literal_to_legacy_iff
  by (auto intro: exI [of _ "\<lparr>positive = id_positive l, atom = x\<rparr>" for x])

lemma means_IdEq: "den b l t \<Longrightarrow> den b r u \<Longrightarrow> means atom_to_legacy b (IdEq l r) (Eq t u)"
  by (auto simp: means_def)

lemma means_IdPred: "list_all2 (den b) args ts \<Longrightarrow> means atom_to_legacy b (IdPred p args) (Pred p ts)"
  by (erule all_means_exact) (auto simp: means_def)

lemma id_apply_atom_maps:
  assumes r: "ranked m r" and th: "closure m \<theta>"
  shows "maps_as atom_to_legacy (id_apply_atom s) (expands s m) A (inst_atom \<theta> A)"
  unfolding maps_as_def
proof (intro allI impI)
  fix b and a :: IdAtom
  assume e: "expands s m b" and sane: "sane b" and a: "atom_to_legacy b a = Some A"
  note arg = id_apply_term_maps [OF r th]
  show "\<exists>j b'. id_apply_atom s a b = Some (j, b') \<and> becomes b b' \<and> means atom_to_legacy b' j (inst_atom \<theta> A)"
  proof (cases "id_bindings s = []")
    case True
    then have "m = Map.empty" using e by (auto simp: expands_def bound_def id_get_def)
    then have "\<theta> = Var" using th by (auto simp: closure_def)
    then have "inst_atom \<theta> A = A" by (cases A) (simp_all add: map_idI)
    then show ?thesis using True a becomes_refl [OF sane] meansI [where d = atom_to_legacy, OF a]
      by (cases a) simp_all
  next
    case False
    from a show ?thesis
    proof (cases rule: atom_to_legacy_cases)
      case (1 p args ts)
      have "\<forall>t \<in> set ts. maps_to (id_apply_term s) (expands s m) t (inst \<theta> t)" using arg by blast
      from maps_to_list [OF expands_stable this e sane 1(3)] show ?thesis
        using 1(1,2) False by (auto intro: means_IdPred)
    next
      case (2 l r t u)
      obtain j b1 where 3: "id_apply_term s l b = Some (j, b1)" "becomes b b1" "den b1 j (inst \<theta> t)"
        by (rule maps_asD [OF arg e sane 2(3)])
      have b1: "expands s m b1" "to_legacy b1 r = Some u"
        using e 2(4) becomes_extends [OF 3(2)] expands_stable extends_to_legacy unfolding stable_def by blast+
      obtain k b2 where 4: "id_apply_term s r b1 = Some (k, b2)" "becomes b1 b2" "den b2 k (inst \<theta> u)"
        by (rule maps_asD [OF arg b1(1) becomes_sane [OF 3(2)] b1(2)])
      show ?thesis using 2(1,2) False 3(1) 4(1) becomes_trans [OF 3(2) 4(2)] den_becomes [OF 4(2) 3(3)] 4(3)
        by (auto intro: means_IdEq)
    qed
  qed
qed

lemma id_apply_literal_maps:
  assumes "ranked m r" "closure m \<theta>"
  shows "maps_as literal_to_legacy (id_apply_literal s) (expands s m) L (inst_lit \<theta> L)"
  unfolding maps_as_def
proof (intro allI impI)
  fix b and l :: IdLiteral
  assume "expands s m b" "sane b" "literal_to_legacy b l = Some L"
  then obtain a b' where "id_apply_atom s (id_atom l) b = Some (a, b')" "becomes b b'"
    "means atom_to_legacy b' a (inst_atom \<theta> (atom L))" "id_positive l = positive L"
    using id_apply_atom_maps [OF assms] maps_asD unfolding literal_to_legacy_iff by metis
  then show "\<exists>j b'. id_apply_literal s l b = Some (j, b') \<and> becomes b b' \<and>
      means literal_to_legacy b' j (inst_lit \<theta> L)"
    by (simp add: id_apply_literal_def means_literal inst_lit_def)
qed

end
