(* ===== verification/Cells.thy ===== *)
theory Cells
  imports BankTotal
begin

text \<open>
  The flat form of terms that the discrimination trees of \<open>crates/mrs-index\<close> are built on: the type
  \<open>Cell\<close>, flattening with variables numbered in the order of their first occurrence, and the search
  for the end of a subterm, all in \<open>dtree.rs\<close>. The constructors \<open>Sym\<close> and \<open>Var\<close> of the source carry
  the prefix \<open>Cell\<close> here; a \<open>BTreeMap\<close> is the list of its entries in ascending order of their keys.
\<close>

section \<open>Cells\<close>

type_synonym u8 = "8 word"

datatype Cell = CellSym SymbolId u8 | CellVar VarId

instantiation Cell :: linorder
begin

text \<open>The derived order: constructors first, then their fields.\<close>

fun less_Cell :: "Cell \<Rightarrow> Cell \<Rightarrow> bool" where
  "CellSym f n < CellSym g m \<longleftrightarrow> f < g \<or> f = g \<and> n < m"
| "CellSym f n < CellVar v \<longleftrightarrow> True"
| "CellVar v < CellSym f n \<longleftrightarrow> False"
| "CellVar v < CellVar w \<longleftrightarrow> v < w"

definition less_eq_Cell :: "Cell \<Rightarrow> Cell \<Rightarrow> bool" where
  "less_eq_Cell c d \<longleftrightarrow> c < d \<or> c = d"

instance
proof
  fix c d e :: Cell
  show "(c < d) = (c \<le> d \<and> \<not> d \<le> c)" by (cases c; cases d) (auto simp: less_eq_Cell_def)
  show "c \<le> c" by (simp add: less_eq_Cell_def)
  show "c \<le> d \<Longrightarrow> d \<le> e \<Longrightarrow> c \<le> e" by (cases c; cases d; cases e) (auto simp: less_eq_Cell_def)
  show "c \<le> d \<Longrightarrow> d \<le> c \<Longrightarrow> c = d" by (cases c; cases d) (auto simp: less_eq_Cell_def)
  show "c \<le> d \<or> d \<le> c" by (cases c; cases d) (auto simp: less_eq_Cell_def)
qed

end

definition is_var_cell :: "Cell \<Rightarrow> bool" where
  "is_var_cell c = (case c of CellVar v \<Rightarrow> True | CellSym f n \<Rightarrow> False)"

lemma is_var_cell_simps [simp]: "is_var_cell (CellVar v)" "\<not> is_var_cell (CellSym f n)"
  by (simp_all add: is_var_cell_def)

section \<open>Ordered maps\<close>

type_synonym ('k, 'v) btree = "('k \<times> 'v) list"

definition bt_ok :: "('k :: linorder, 'v) btree \<Rightarrow> bool" where
  "bt_ok m = sorted_wrt (<) (map fst m)"

fun bt_insert :: "'k :: linorder \<Rightarrow> 'v \<Rightarrow> ('k, 'v) btree \<Rightarrow> ('k, 'v) btree" where
  "bt_insert k v [] = [(k, v)]"
| "bt_insert k v ((k', v') # m) =
     (if k < k' then (k, v) # (k', v') # m else if k = k' then (k, v) # m else (k', v') # bt_insert k v m)"

definition bt_remove :: "'k \<Rightarrow> ('k, 'v) btree \<Rightarrow> ('k, 'v) btree" where
  "bt_remove k m = filter (\<lambda>p. fst p \<noteq> k) m"

text \<open>\<open>range(k..)\<close>\<close>

definition bt_from :: "'k :: linorder \<Rightarrow> ('k, 'v) btree \<Rightarrow> ('k, 'v) btree" where
  "bt_from k m = dropWhile (\<lambda>p. fst p < k) m"

lemma bt_ok_Cons: "bt_ok ((k, v) # m) \<longleftrightarrow> (\<forall>k' \<in> fst ` set m. k < k') \<and> bt_ok m"
  by (auto simp: bt_ok_def)

lemma bt_ok_distinct: "bt_ok m \<Longrightarrow> distinct (map fst m)"
  by (simp add: bt_ok_def strict_sorted_iff)

lemma bt_get_iff: "bt_ok m \<Longrightarrow> map_of m k = Some v \<longleftrightarrow> (k, v) \<in> set m"
  using bt_ok_distinct by fastforce

lemma bt_insert_both:
  "bt_ok m \<Longrightarrow> bt_ok (bt_insert k v m) \<and> set (bt_insert k v m) = insert (k, v) {p \<in> set m. fst p \<noteq> k}"
proof (induction m)
  case Nil
  show ?case by (simp add: bt_ok_def)
next
  case (Cons p m)
  obtain k' v' where p: "p = (k', v')" by fastforce
  have m: "bt_ok m" "\<forall>x \<in> set m. k' < fst x" using Cons.prems p by (auto simp: bt_ok_Cons)
  show ?case
  proof (cases k k' rule: linorder_cases)
    case less
    then have "\<forall>x \<in> set (p # m). k < fst x" using m(2) p by (auto intro: less_trans)
    moreover from this have "{x \<in> set (p # m). fst x \<noteq> k} = set (p # m)" by force
    moreover have "bt_insert k v (p # m) = (k, v) # p # m" using less p by simp
    moreover have "bt_ok ((k, v) # p # m)" using Cons.prems calculation(1) unfolding bt_ok_Cons by blast
    ultimately show ?thesis by (simp only: list.set(2))
  next
    case equal
    then have "{x \<in> set m. fst x \<noteq> k} = set m" using m(2) by auto
    then show ?thesis using equal p m by (auto simp: bt_ok_Cons)
  next
    case greater
    then have r: "bt_insert k v (p # m) = p # bt_insert k v m" using p by (auto dest: less_asym)
    have "bt_ok (p # bt_insert k v m)" using Cons.IH m greater p by (auto simp: bt_ok_Cons)
    moreover have "set (p # bt_insert k v m) = insert (k, v) {x \<in> set (p # m). fst x \<noteq> k}"
      using Cons.IH m(1) greater p by auto
    ultimately show ?thesis unfolding r by simp
  qed
qed

lemmas bt_insert_ok = bt_insert_both [THEN conjunct1] and bt_insert_set = bt_insert_both [THEN conjunct2]

lemma bt_remove_ok: "bt_ok m \<Longrightarrow> bt_ok (bt_remove k m)"
  by (induction m) (auto simp: bt_remove_def bt_ok_Cons)

lemma bt_remove_set: "set (bt_remove k m) = {p \<in> set m. fst p \<noteq> k}"
  by (simp add: bt_remove_def)

lemma bt_from_set: "bt_ok m \<Longrightarrow> set (bt_from k m) = {p \<in> set m. k \<le> fst p}"
proof (induction m)
  case (Cons p m)
  have m: "bt_ok m" "\<forall>x \<in> set m. fst p < fst x" using Cons.prems by (cases p; auto simp: bt_ok_Cons)+
  show ?case
  proof (cases "fst p < k")
    case True
    then show ?thesis using Cons.IH m(1) by (auto simp: bt_from_def)
  next
    case False
    then have "\<forall>x \<in> set (p # m). k \<le> fst x" using m(2) by (fastforce simp: not_less)
    then have "{x \<in> set (p # m). k \<le> fst x} = set (p # m)" by blast
    then show ?thesis using False by (simp add: bt_from_def del: list.set)
  qed
qed (simp add: bt_from_def)

section \<open>Flattening\<close>

type_synonym flat_state = "Cell list \<times> (VarId, VarId) fmap \<times> VarId"

definition flatten_var :: "VarId \<Rightarrow> flat_state \<Rightarrow> flat_state" where
  "flatten_var v = (\<lambda>(cells, var_map, next_var).
     case fmlookup var_map v of
       Some n \<Rightarrow> (cells @ [CellVar n], var_map, next_var)
     | None \<Rightarrow> (cells @ [CellVar next_var], fmupd v next_var var_map, next_var + 1))"

definition flatten_sym :: "SymbolId \<Rightarrow> nat \<Rightarrow> flat_state \<Rightarrow> flat_state" where
  "flatten_sym f n = (\<lambda>(cells, st). (cells @ [CellSym f (of_nat n)], st))"

fun flatten_into :: "Term \<Rightarrow> flat_state \<Rightarrow> flat_state" where
  "flatten_into (Var v) st = flatten_var v st"
| "flatten_into (App f args) st = fold flatten_into args (flatten_sym f (length args) st)"

definition flat_start :: flat_state where
  "flat_start = ([], fmempty, 0)"

definition flatten :: "Term \<Rightarrow> Cell list" where
  "flatten t = fst (flatten_into t flat_start)"

partial_function (option) flatten_into_id :: "TermBank \<Rightarrow> TermId \<Rightarrow> flat_state \<Rightarrow> flat_state option" where
  "flatten_into_id bank i st = do {
     node \<leftarrow> node_at bank i;
     case node of
       NVar v \<Rightarrow> Some (flatten_var v st)
     | NApp f args \<Rightarrow> foldM (flatten_into_id bank) args (flatten_sym f (length args) st) }"

definition flatten_id :: "TermId \<Rightarrow> TermBank \<Rightarrow> Cell list option" where
  "flatten_id i bank = map_option fst (flatten_into_id bank i flat_start)"

text \<open>An equation is \<open>unreachable!()\<close>.\<close>

definition flatten_atom_id :: "IdAtom \<Rightarrow> TermBank \<Rightarrow> Cell list option" where
  "flatten_atom_id a bank = (case a of
     IdPred p args \<Rightarrow> map_option fst (foldM (flatten_into_id bank) args (flatten_sym p (length args) flat_start))
   | IdEq l r \<Rightarrow> None)"

text \<open>
  The rest of the list after \<open>n\<close> subterms; \<open>None\<close> is the index out of range. The loop of
  \<open>skip_in_flat\<close> over the arguments is the addition.
\<close>

fun skip_many :: "nat \<Rightarrow> Cell list \<Rightarrow> Cell list option" where
  "skip_many 0 q = Some q"
| "skip_many (Suc n) [] = None"
| "skip_many (Suc n) (CellVar v # q) = skip_many n q"
| "skip_many (Suc n) (CellSym f m # q) = skip_many (unat m + n) q"

definition skip_in_flat :: "Cell list \<Rightarrow> Cell list option" where
  "skip_in_flat q = skip_many 1 q"

text \<open>\<open>&query[q..skip]\<close>\<close>

definition subterm_cells :: "Cell list \<Rightarrow> Cell list \<Rightarrow> Cell list" where
  "subterm_cells q q' = take (length q - length q') q"

lemma skip_many_add: "skip_many (n + m) q = skip_many n q \<bind> skip_many m"
proof (induction n q rule: skip_many.induct)
  case (4 n f k q)
  then show ?case by (simp add: add.assoc)
qed simp_all

lemma skip_in_flat_Sym: "skip_in_flat (CellSym f n # q) = skip_many (unat n) q"
  by (simp add: skip_in_flat_def)

lemma skip_many_Suc: "skip_many (Suc n) q = skip_in_flat q \<bind> skip_many n"
  using skip_many_add [of 1 n q] by (simp add: skip_in_flat_def)

section \<open>Flattening in one step\<close>

text \<open>The flat form of a term whose variables are numbered by \<open>r\<close>.\<close>

fun cells :: "(VarId \<Rightarrow> VarId) \<Rightarrow> Term \<Rightarrow> Cell list" where
  "cells r (Var v) = [CellVar (r v)]"
| "cells r (App f args) = CellSym f (of_nat (length args)) # concat (map (cells r) args)"

abbreviation cells_list :: "(VarId \<Rightarrow> VarId) \<Rightarrow> Term list \<Rightarrow> Cell list" where
  "cells_list r ts \<equiv> concat (map (cells r) ts)"

text \<open>Arities fit in eight bits.\<close>

fun narrow :: "Term \<Rightarrow> bool" where
  "narrow (Var v) = True"
| "narrow (App f args) = (length args < 256 \<and> list_all narrow args)"

lemma unat_arity: "n < 256 \<Longrightarrow> unat (of_nat n :: u8) = n"
  by (simp add: unat_of_nat take_bit_nat_eq_self_iff)

lemma cells_cong: "(\<And>v. v \<in> vars t \<Longrightarrow> r v = r' v) \<Longrightarrow> cells r t = cells r' t"
proof (induction t)
  case (App f ts)
  then have m: "map (cells r) ts = map (cells r') ts" by (auto intro!: map_cong)
  show ?case by (simp only: cells.simps m)
qed simp

lemma cells_inst_Var: "cells r (inst (\<lambda>v. Var (h v)) t) = cells (\<lambda>v. r (h v)) t"
proof (induction t)
  case (App f ts)
  then have m: "map (\<lambda>x. cells r (inst (\<lambda>v. Var (h v)) x)) ts = map (cells (\<lambda>v. r (h v))) ts" by simp
  show ?case by (simp only: cells.simps inst.simps length_map map_map comp_def m)
qed simp

lemma skip_cells_list: "list_all narrow ts \<Longrightarrow> skip_many (length ts + n) (cells_list r ts @ q) = skip_many n q"
proof (induction "sum_list (map term_size ts)" arbitrary: ts n rule: less_induct)
  case less
  show ?case
  proof (cases ts)
    case (Cons t us)
    show ?thesis
    proof (cases t)
      case (Var v)
      then show ?thesis using less.hyps [of us n] less.prems Cons by simp
    next
      case (App f args)
      have "sum_list (map term_size (args @ us)) < sum_list (map term_size ts)" using Cons App by simp
      then have "skip_many (length (args @ us) + n) (cells_list r (args @ us) @ q) = skip_many n q"
        using less.prems Cons App by (intro less.hyps) simp_all
      then show ?thesis using less.prems Cons App by (simp add: unat_arity add.assoc)
    qed
  qed simp
qed

lemma skip_cells: "narrow t \<Longrightarrow> skip_in_flat (cells r t @ q) = Some q"
  using skip_cells_list [of "[t]" 0 r q] by (simp add: skip_in_flat_def)

lemma subterm_cells_append [simp]: "subterm_cells (p @ q) q = p"
  by (simp add: subterm_cells_def)

lemma cells_list_inject:
  assumes "inj_on r V"
  shows "list_all narrow ts \<Longrightarrow> list_all narrow us \<Longrightarrow> \<Union> (vars ` set ts) \<subseteq> V \<Longrightarrow> \<Union> (vars ` set us) \<subseteq> V \<Longrightarrow>
    cells_list r ts = cells_list r us \<Longrightarrow> ts = us"
proof (induction "sum_list (map term_size ts)" arbitrary: ts us rule: less_induct)
  case less
  show ?case
  proof (cases ts)
    case Nil
    then show ?thesis using less.prems(5) by (cases us; cases "hd us") auto
  next
    case (Cons t ts')
    then obtain u us' where us: "us = u # us'" using less.prems(5) by (cases us; cases t) auto
    show ?thesis
    proof (cases t)
      case (Var v)
      then obtain w where u: "u = Var w" "r v = r w" "cells_list r ts' = cells_list r us'"
        using less.prems(5) Cons us by (cases u) auto
      then have "v = w" using assms less.prems(3,4) Cons us Var by (auto dest: inj_onD)
      moreover have "ts' = us'" using less.hyps [of ts' us'] less.prems Cons us u Var by simp
      ultimately show ?thesis using Cons us Var u by simp
    next
      case (App f args)
      then obtain bs where u: "u = App f bs" "(of_nat (length args) :: u8) = of_nat (length bs)"
        "cells_list r (args @ ts') = cells_list r (bs @ us')"
        using less.prems(5) Cons us by (cases u) auto
      have len: "length args = length bs"
      proof -
        have "length args < 256" "length bs < 256" using less.prems(1,2) Cons us App u(1) by simp_all
        then show ?thesis using u(2) unat_arity by metis
      qed
      have "sum_list (map term_size (args @ ts')) < sum_list (map term_size ts)" using Cons App by simp
      then have "args @ ts' = bs @ us'"
        using less.prems Cons us App u by (intro less.hyps) auto
      then show ?thesis using len Cons us App u(1) by simp
    qed
  qed
qed

lemma cells_inject:
  "inj_on r (vars t \<union> vars u) \<Longrightarrow> narrow t \<Longrightarrow> narrow u \<Longrightarrow> cells r t = cells r u \<Longrightarrow> t = u"
  using cells_list_inject [of r "vars t \<union> vars u" "[t]" "[u]"] by simp

section \<open>Flattening numbers the variables\<close>

definition numbering :: "(VarId, VarId) fmap \<Rightarrow> VarId \<Rightarrow> bool" where
  "numbering m n \<longleftrightarrow> n = of_nat (card (fset (fmdom m))) \<and>
     inj_on (\<lambda>v. the (fmlookup m v)) (fset (fmdom m)) \<and>
     (\<forall>v k. fmlookup m v = Some k \<longrightarrow> unat k < card (fset (fmdom m)))"

definition follows :: "(VarId \<Rightarrow> VarId) \<Rightarrow> (VarId, VarId) fmap \<Rightarrow> bool" where
  "follows r m \<longleftrightarrow> (\<forall>v k. fmlookup m v = Some k \<longrightarrow> r v = k)"

text \<open>\<open>st\<close> grows by the flat form of \<open>ts\<close>, with variables numbered as in the later map.\<close>

definition flattens :: "VarId set \<Rightarrow> ((VarId \<Rightarrow> VarId) \<Rightarrow> Cell list) \<Rightarrow> flat_state \<Rightarrow> flat_state \<Rightarrow> bool" where
  "flattens V p st st' \<longleftrightarrow> (case st of (c, m, n) \<Rightarrow> case st' of (c', m', n') \<Rightarrow>
     numbering m n \<longrightarrow> numbering m' n' \<and> fset (fmdom m') = fset (fmdom m) \<union> V \<and> m \<subseteq>\<^sub>f m' \<and>
       (\<forall>r. follows r m' \<longrightarrow> c' = c @ p r))"

lemma fmsubset_same [simp]: "m \<subseteq>\<^sub>f m"
  by (simp add: fmsubset.rep_eq)

lemma flattens_var: "flattens {v} (\<lambda>r. cells r (Var v)) st (flatten_var v st)"
proof -
  obtain c m n where st: "st = (c, m, n)" by (cases st)
  show ?thesis
  proof (cases "fmlookup m v")
    case (Some k)
    then have "v |\<in>| fmdom m" by (rule fmdomI)
    then show ?thesis using Some by (auto simp: st flattens_def flatten_var_def follows_def)
  next
    case None
    have fresh: "v \<notin> fset (fmdom m)" using None by (simp add: fmdom_notI fmdom_notD)
    define D where "D = fset (fmdom m)"
    have D: "finite D" "v \<notin> D" using fresh by (simp_all add: D_def)
    show ?thesis
    proof (cases "numbering m n")
      case True
      have card: "card D < 2 ^ 32"
      proof -
        have "card (insert v D) \<le> card (UNIV :: u32 set)" by (rule card_mono) simp_all
        then show ?thesis using D by (simp add: card_word)
      qed
      have n: "n = of_nat (card D)" and unat_n: "unat n = card D"
        using True card by (simp_all add: numbering_def D_def unat_of_nat_u32)
      have low: "unat k < card D" if "fmlookup m w = Some k" for w k
        using True that by (simp add: numbering_def D_def)
      have dom: "\<exists>k. fmlookup m w = Some k" if "w \<in> D" for w using that by (auto simp: D_def fmlookup_dom_iff)
      have "numbering (fmupd v n m) (n + 1)"
        unfolding numbering_def
      proof (intro conjI allI impI)
        show "n + 1 = of_nat (card (fset (fmdom (fmupd v n m))))" using D n by (simp add: D_def)
        have "inj_on (\<lambda>w. the (fmlookup m w)) D" using True by (simp add: numbering_def D_def)
        moreover have "the (fmlookup m w) \<noteq> n" if "w \<in> D" for w
          using dom [OF that] low unat_n by (metis less_irrefl option.sel)
        ultimately have "inj_on (\<lambda>w. the (fmlookup (fmupd v n m) w)) (insert v D)"
          using D(2) by (auto simp: inj_on_def)
        then show "inj_on (\<lambda>w. the (fmlookup (fmupd v n m) w)) (fset (fmdom (fmupd v n m)))" by (simp add: D_def)
        fix w k assume "fmlookup (fmupd v n m) w = Some k"
        then show "unat k < card (fset (fmdom (fmupd v n m)))"
          using D low unat_n by (auto simp: D_def split: if_splits intro: less_SucI)
      qed
      moreover have "m \<subseteq>\<^sub>f fmupd v n m" using None by (auto simp: fmsubset.rep_eq map_le_def dom_def)
      ultimately show ?thesis using None by (simp add: st flattens_def flatten_var_def follows_def)
    qed (simp add: st flattens_def)
  qed
qed

lemma flattens_trans: "flattens V p st st' \<Longrightarrow> flattens W q st' st'' \<Longrightarrow> flattens (V \<union> W) (\<lambda>r. p r @ q r) st st''"
proof -
  assume a: "flattens V p st st'" "flattens W q st' st''"
  obtain c m n c' m' n' c'' m'' n'' where s: "st = (c, m, n)" "st' = (c', m', n')" "st'' = (c'', m'', n'')"
    by (cases st; cases st'; cases st'')
  have "follows r m'" if "follows r m''" "m' \<subseteq>\<^sub>f m''" for r
    using that by (auto simp: follows_def fmsubset_alt_def fmpred_iff)
  then show ?thesis using a unfolding s flattens_def by (auto simp: Un_assoc fmsubset_alt_def fmpred_iff)
qed

lemma flattens_sym: "flattens {} (\<lambda>r. [CellSym f (of_nat n)]) st (flatten_sym f n st)"
  by (cases st) (simp add: flattens_def flatten_sym_def)

lemma flattens_fold:
  assumes "\<And>t st. t \<in> set ts \<Longrightarrow> flattens (vars t) (\<lambda>r. cells r t) st (g t st)"
  shows "flattens (\<Union> (vars ` set ts)) (\<lambda>r. cells_list r ts) st (fold g ts st)"
  using assms
proof (induction ts arbitrary: st)
  case Nil
  show ?case by (cases st) (simp add: flattens_def)
next
  case (Cons t ts)
  have "flattens (vars t \<union> \<Union> (vars ` set ts)) (\<lambda>r. cells r t @ cells_list r ts) st (fold g ts (g t st))"
    by (rule flattens_trans [of _ _ _ "g t st"]) (rule Cons.prems, simp, rule Cons.IH, rule Cons.prems, simp)
  then show ?case by simp
qed

lemma flatten_into_flattens: "flattens (vars t) (\<lambda>r. cells r t) st (flatten_into t st)"
proof (induction t arbitrary: st)
  case (App f ts)
  have "flattens ({} \<union> \<Union> (vars ` set ts)) (\<lambda>r. [CellSym f (of_nat (length ts))] @ cells_list r ts) st
      (fold flatten_into ts (flatten_sym f (length ts) st))"
    by (rule flattens_trans [OF flattens_sym flattens_fold]) (rule App.IH)
  then show ?case by simp
qed (simp add: flattens_var [simplified])

lemma flattens_start:
  assumes "flattens V p flat_start st"
  obtains r where "inj_on r V" "fst st = p r"
proof -
  obtain c m n where st: "st = (c, m, n)" by (cases st)
  have num: "numbering m n" and V: "fset (fmdom m) = V" and c: "\<And>r. follows r m \<Longrightarrow> c = p r"
    using assms by (auto simp: flattens_def flat_start_def st numbering_def)
  have "follows (\<lambda>v. the (fmlookup m v)) m" by (simp add: follows_def)
  moreover have "inj_on (\<lambda>v. the (fmlookup m v)) V" using num V by (simp add: numbering_def)
  ultimately show thesis using c that st by simp
qed

lemma flatten_cells:
  obtains r where "inj_on r (vars t)" "flatten t = cells r t"
  using flattens_start [OF flatten_into_flattens [of t flat_start]] by (auto simp: flatten_def)

section \<open>Flattening of identifiers\<close>

lemma foldM_fold:
  assumes "list_all2 (\<lambda>x y. \<forall>s. f x s = Some (g y s)) xs ys"
  shows "foldM f xs s = Some (fold g ys s)"
  using assms by (induction arbitrary: s rule: list_all2_induct) simp_all

lemma flatten_into_id_eq: "to_legacy b i = Some t \<Longrightarrow> flatten_into_id b i st = Some (flatten_into t st)"
proof (induction t arbitrary: i st)
  case (Var v)
  then show ?case by (subst flatten_into_id.simps) (simp add: to_legacy_Var)
next
  case (App f ts)
  then obtain args where args: "node_at b i = Some (NApp f args)" "mapM (to_legacy b) args = Some ts"
    by (auto simp: to_legacy_App)
  then have "list_all2 (\<lambda>i t. \<forall>st. flatten_into_id b i st = Some (flatten_into t st)) args ts"
    using App.IH by (auto simp: mapM_Some_iff list_all2_conv_all_nth)
  moreover have "length args = length ts" using args(2) by (simp add: mapM_Some_iff)
  ultimately show ?case by (subst flatten_into_id.simps) (simp add: args(1) foldM_fold)
qed

lemma flatten_id_eq: "to_legacy b i = Some t \<Longrightarrow> flatten_id i b = Some (flatten t)"
  by (simp add: flatten_id_def flatten_into_id_eq flatten_def)

text \<open>A predicate atom has the flat form of an application.\<close>

lemma flatten_atom_id_eq:
  "atom_to_legacy b a = Some (Pred p ts) \<Longrightarrow> flatten_atom_id a b = Some (flatten (App p ts))"
proof -
  assume "atom_to_legacy b a = Some (Pred p ts)"
  then obtain args where a: "a = IdPred p args" "mapM (to_legacy b) args = Some ts"
    by (rule atom_to_legacy_cases) auto
  have "list_all2 (\<lambda>i t. \<forall>st. flatten_into_id b i st = Some (flatten_into t st)) args ts"
    using a(2) flatten_into_id_eq by (auto simp: mapM_Some_iff list_all2_conv_all_nth)
  moreover have "length args = length ts" using a(2) by (simp add: mapM_Some_iff)
  ultimately show ?thesis by (simp add: flatten_atom_id_def a(1) foldM_fold flatten_def)
qed


end
