(* ===== verification/CellMatch.thy ===== *)
theory CellMatch
  imports Cells
begin

text \<open>
  What the trees of \<open>crates/mrs-index\<close> search for, on one stored path: the path generalises the flat
  query, and the path may unify with it. The first is exactly the existence of a matching
  substitution, the second is implied by the existence of a unifier.
\<close>

type_synonym cell_binds = "VarId \<Rightarrow> Cell list option"

section \<open>Generalisation\<close>

fun gen_match :: "Cell list \<Rightarrow> Cell list \<Rightarrow> cell_binds \<Rightarrow> bool" where
  "gen_match [] q B = (q = [])"
| "gen_match (CellSym f n # p) q B = (case q of CellSym g m # q' \<Rightarrow> f = g \<and> n = m \<and> gen_match p q' B | _ \<Rightarrow> False)"
| "gen_match (CellVar v # p) q B = (case skip_in_flat q of
     None \<Rightarrow> False
   | Some q' \<Rightarrow> (case B v of
       Some b \<Rightarrow> b = subterm_cells q q' \<and> gen_match p q' B
     | None \<Rightarrow> gen_match p q' (B(v \<mapsto> subterm_cells q q'))))"

lemma cells_not_Nil [simp]: "cells r t \<noteq> []"
  by (cases t) simp_all

lemma skip_in_flat_Nil [simp]: "skip_in_flat [] = None"
  by (simp add: skip_in_flat_def)

lemma gen_match_iff:
  assumes r: "inj_on r V"
  shows "list_all narrow ss \<Longrightarrow> list_all narrow ts \<Longrightarrow> \<Union> (vars ` set ts) \<subseteq> V \<Longrightarrow>
    (\<And>v u. U v = Some u \<Longrightarrow> narrow u \<and> vars u \<subseteq> V) \<Longrightarrow>
    gen_match (cells_list id ss) (cells_list r ts) (\<lambda>v. map_option (cells r) (U v)) \<longleftrightarrow>
      (\<exists>\<theta>. (\<forall>v u. U v = Some u \<longrightarrow> \<theta> v = u) \<and> map (inst \<theta>) ss = ts)"
proof (induction "sum_list (map term_size ss)" arbitrary: ss ts U rule: less_induct)
  case less
  show ?case
  proof (cases ss)
    case Nil
    have "\<exists>\<theta>. \<forall>v u. U v = Some u \<longrightarrow> \<theta> v = u" by (intro exI [where x = "\<lambda>v. the (U v)"]) simp
    then show ?thesis using Nil by (cases ts) auto
  next
    case (Cons s ss')
    show ?thesis
    proof (cases ts)
      case Nil
      then show ?thesis using Cons by (cases s) simp_all
    next
      case ts: (Cons t ts')
      show ?thesis
      proof (cases s)
        case (Var v)
        have skip: "skip_in_flat (cells_list r ts) = Some (cells_list r ts')"
          "subterm_cells (cells_list r ts) (cells_list r ts') = cells r t"
          using less.prems(2) ts skip_cells by simp_all
        have smaller: "sum_list (map term_size ss') < sum_list (map term_size ss)" using Cons Var by simp
        show ?thesis
        proof (cases "U v")
          case None
          have upd: "(\<lambda>w. map_option (cells r) (U w))(v \<mapsto> cells r t) = (\<lambda>w. map_option (cells r) ((U(v \<mapsto> t)) w))" by auto
          have "gen_match (cells_list id ss) (cells_list r ts) (\<lambda>v. map_option (cells r) (U v)) \<longleftrightarrow>
              gen_match (cells_list id ss') (cells_list r ts') ((\<lambda>w. map_option (cells r) (U w))(v \<mapsto> cells r t))"
            using Cons Var ts None skip by (simp del: fun_upd_apply)
          also have "\<dots> \<longleftrightarrow> (\<exists>\<theta>. (\<forall>w u. (U(v \<mapsto> t)) w = Some u \<longrightarrow> \<theta> w = u) \<and> map (inst \<theta>) ss' = ts')"
            unfolding upd
          proof (rule less.hyps [OF smaller])
            fix w u assume "(U(v \<mapsto> t)) w = Some u"
            then show "narrow u \<and> vars u \<subseteq> V" using less.prems ts by (auto split: if_splits)
          qed (use less.prems Cons ts in auto)
          also have "\<dots> \<longleftrightarrow> (\<exists>\<theta>. (\<forall>v u. U v = Some u \<longrightarrow> \<theta> v = u) \<and> map (inst \<theta>) ss = ts)"
            using None Cons Var ts by (intro iff_exI) auto
          finally show ?thesis .
        next
          case (Some u)
          have "cells r u = cells r t \<longleftrightarrow> u = t"
          proof
            assume "cells r u = cells r t"
            moreover have "inj_on r (vars u \<union> vars t)"
              using less.prems(3,4) Some ts by (intro inj_on_subset [OF r]) auto
            ultimately show "u = t" using cells_inject less.prems(2,4) Some ts by auto
          qed simp
          then have "gen_match (cells_list id ss) (cells_list r ts) (\<lambda>v. map_option (cells r) (U v)) \<longleftrightarrow>
              u = t \<and> (\<exists>\<theta>. (\<forall>w u. U w = Some u \<longrightarrow> \<theta> w = u) \<and> map (inst \<theta>) ss' = ts')"
            using less.hyps [OF smaller, of ts' U] less.prems Cons Var ts Some skip by simp
          then show ?thesis using Some Cons Var ts by auto
        qed
      next
        case (App f as)
        show ?thesis
        proof (cases t)
          case (Var w)
          then show ?thesis using Cons ts App by simp
        next
          case t: (App g bs)
          have arity: "(of_nat (length as) :: u8) = of_nat (length bs) \<longleftrightarrow> length as = length bs"
          proof -
            have "length as < 256" "length bs < 256" using less.prems(1,2) Cons ts App t by simp_all
            then show ?thesis using unat_arity by metis
          qed
          have "sum_list (map term_size (as @ ss')) < sum_list (map term_size ss)" using Cons App by simp
          then have "gen_match (cells_list id (as @ ss')) (cells_list r (bs @ ts')) (\<lambda>v. map_option (cells r) (U v)) \<longleftrightarrow>
              (\<exists>\<theta>. (\<forall>v u. U v = Some u \<longrightarrow> \<theta> v = u) \<and> map (inst \<theta>) (as @ ss') = bs @ ts')"
            using less.prems Cons ts App t by (intro less.hyps) auto
          moreover have "map (inst \<theta>) ss = ts \<longleftrightarrow>
              f = g \<and> length as = length bs \<and> map (inst \<theta>) (as @ ss') = bs @ ts'" for \<theta>
            using Cons ts App t by (auto simp: append_eq_append_conv)
          moreover have "gen_match (cells_list id ss) (cells_list r ts) (\<lambda>v. map_option (cells r) (U v)) \<longleftrightarrow>
              f = g \<and> length as = length bs \<and>
              gen_match (cells_list id (as @ ss')) (cells_list r (bs @ ts')) (\<lambda>v. map_option (cells r) (U v))"
            using Cons ts App t arity by simp
          ultimately show ?thesis by blast
        qed
      qed
    qed
  qed
qed

lemma inst_renamed:
  assumes "inj_on r (vars s)"
  shows "(\<exists>\<theta>. inst \<theta> (inst (\<lambda>v. Var (r v)) s) = t) \<longleftrightarrow> (\<exists>\<sigma>. inst \<sigma> s = t)"
proof
  assume "\<exists>\<theta>. inst \<theta> (inst (\<lambda>v. Var (r v)) s) = t"
  then show "\<exists>\<sigma>. inst \<sigma> s = t" by (auto simp: inst_inst)
next
  assume "\<exists>\<sigma>. inst \<sigma> s = t"
  then obtain \<sigma> where \<sigma>: "inst \<sigma> s = t" by blast
  have "inst (\<lambda>v. \<sigma> (the_inv_into (vars s) r v)) (inst (\<lambda>v. Var (r v)) s) = inst \<sigma> s"
    unfolding inst_inst by (rule inst_cong) (simp add: the_inv_into_f_f [OF assms])
  then show "\<exists>\<theta>. inst \<theta> (inst (\<lambda>v. Var (r v)) s) = t" using \<sigma> by blast
qed

lemma narrow_inst_Var: "narrow (inst (\<lambda>v. Var (r v)) s) = narrow s"
  by (induction s) (auto simp: list_all_iff)

theorem flat_generalises:
  assumes "narrow s" "narrow t"
  shows "gen_match (flatten s) (flatten t) Map.empty \<longleftrightarrow> (\<exists>\<sigma>. inst \<sigma> s = t)"
proof -
  obtain r where r: "inj_on r (vars s)" "flatten s = cells r s" by (rule flatten_cells)
  obtain r' where r': "inj_on r' (vars t)" "flatten t = cells r' t" by (rule flatten_cells)
  have "cells r s = cells id (inst (\<lambda>v. Var (r v)) s)" by (simp add: cells_inst_Var)
  then show ?thesis
    using gen_match_iff [OF r'(1), of "[inst (\<lambda>v. Var (r v)) s]" "[t]" Map.empty] assms
    by (simp add: r(2) r'(2) narrow_inst_Var inst_renamed [OF r(1)])
qed

section \<open>Unification\<close>

definition has_var_cell :: "Cell list \<Rightarrow> bool" where
  "has_var_cell q = list_ex is_var_cell q"

text \<open>Bound parts of the query are compared only when both are ground.\<close>

definition may_equal :: "Cell list \<Rightarrow> Cell list \<Rightarrow> bool" where
  "may_equal a b \<longleftrightarrow> has_var_cell a \<or> has_var_cell b \<or> a = b"

lemma skip_many_length: "skip_many n q = Some q' \<Longrightarrow> length q' \<le> length q"
  by (induction n q rule: skip_many.induct) (auto simp: le_Suc_eq)

function unify_match :: "Cell list \<Rightarrow> Cell list \<Rightarrow> cell_binds \<Rightarrow> bool" where
  "unify_match [] q B = (q = [])"
| "unify_match (c # p) [] B = False"
| "unify_match (CellSym f n # p) (CellSym g m # q) B = (f = g \<and> n = m \<and> unify_match p q B)"
| "unify_match (CellSym f n # p) (CellVar w # q) B =
     (case skip_many (unat n) p of None \<Rightarrow> False | Some p' \<Rightarrow> unify_match p' q B)"
| "unify_match (CellVar v # p) (c # q) B = (case skip_in_flat (c # q) of
     None \<Rightarrow> False
   | Some q' \<Rightarrow> (case B v of
       Some b \<Rightarrow> may_equal b (subterm_cells (c # q) q') \<and> unify_match p q' B
     | None \<Rightarrow> unify_match p q' (B(v \<mapsto> subterm_cells (c # q) q'))))"
  by pat_completeness auto

termination
  by (relation "measure (\<lambda>(p, q, B). length p)") (auto dest: skip_many_length)

lemma has_var_cells: "has_var_cell (cells r t) \<longleftrightarrow> vars t \<noteq> {}"
proof (induction t)
  case (App f ts)
  have "has_var_cell (cells r (App f ts)) \<longleftrightarrow> (\<exists>t \<in> set ts. has_var_cell (cells r t))"
    by (auto simp: has_var_cell_def list_ex_iff)
  then show ?case using App by auto
qed (simp add: has_var_cell_def)

lemma inst_ground: "vars t = {} \<Longrightarrow> inst \<theta> t = t"
  by (simp add: inst_id_iff)

text \<open>A solution of the two sides of an equation that share no variable.\<close>

lemma unify_match_complete:
  "list_all narrow ss \<Longrightarrow> list_all narrow ts \<Longrightarrow> map (inst \<sigma>) ss = map (inst \<tau>) ts \<Longrightarrow>
   (\<And>v u. U v = Some u \<Longrightarrow> \<sigma> v = inst \<tau> u) \<Longrightarrow>
   unify_match (cells_list id ss) (cells_list r ts) (\<lambda>v. map_option (cells r) (U v))"
proof (induction "sum_list (map term_size ss) + sum_list (map term_size ts)" arbitrary: ss ts U rule: less_induct)
  case less
  show ?case
  proof (cases ss)
    case Nil
    then show ?thesis using less.prems(3) by simp
  next
    case (Cons s ss')
    then obtain t ts' where ts: "ts = t # ts'" using less.prems(3) by (cases ts) auto
    have eq: "inst \<sigma> s = inst \<tau> t" "map (inst \<sigma>) ss' = map (inst \<tau>) ts'" using less.prems(3) Cons ts by simp_all
    have smaller: "sum_list (map term_size ss') + sum_list (map term_size ts') <
        sum_list (map term_size ss) + sum_list (map term_size ts)"
      using Cons ts term_size_pos [of s] by simp
    show ?thesis
    proof (cases s)
      case (Var v)
      have skip: "skip_in_flat (cells r t @ cells_list r ts') = Some (cells_list r ts')"
        using less.prems(2) ts skip_cells by simp
      obtain c q where q: "cells r t @ cells_list r ts' = c # q" by (cases "cells r t") auto
      have sub: "subterm_cells (c # q) (cells_list r ts') = cells r t" unfolding q [symmetric] by simp
      show ?thesis
      proof (cases "U v")
        case None
        have "(\<lambda>w. map_option (cells r) (U w))(v \<mapsto> cells r t) = (\<lambda>w. map_option (cells r) ((U(v \<mapsto> t)) w))" by auto
        moreover have "unify_match (cells_list id ss') (cells_list r ts') (\<lambda>w. map_option (cells r) ((U(v \<mapsto> t)) w))"
          using less.prems Cons ts eq Var by (intro less.hyps [OF smaller]) (auto split: if_splits)
        ultimately show ?thesis using None Cons ts Var q skip sub by simp
      next
        case (Some u)
        have "may_equal (cells r u) (cells r t)"
        proof (cases "vars u = {} \<and> vars t = {}")
          case True
          then have "u = t" using less.prems(4) [OF Some] eq(1) Var by (simp add: inst_ground)
          then show ?thesis by (simp add: may_equal_def)
        qed (auto simp: may_equal_def has_var_cells)
        moreover have "unify_match (cells_list id ss') (cells_list r ts') (\<lambda>w. map_option (cells r) (U w))"
          using less.prems Cons ts eq by (intro less.hyps [OF smaller]) auto
        ultimately show ?thesis using Some Cons ts Var q skip sub by simp
      qed
    next
      case (App f as)
      show ?thesis
      proof (cases t)
        case (Var w)
        have "skip_many (unat (of_nat (length as) :: u8)) (cells_list id (as @ ss')) = Some (cells_list id ss')"
          using less.prems(1) Cons App skip_cells_list [of as 0] by (simp add: unat_arity)
        moreover have "unify_match (cells_list id ss') (cells_list r ts') (\<lambda>w. map_option (cells r) (U w))"
          using less.prems Cons ts eq by (intro less.hyps [OF smaller]) auto
        ultimately show ?thesis using Cons ts App Var by simp
      next
        case t: (App g bs)
        have "f = g" "map (inst \<sigma>) as = map (inst \<tau>) bs" using eq(1) App t by simp_all
        moreover from this(2) have "length as = length bs" by (rule map_eq_imp_length_eq)
        moreover have "unify_match (cells_list id (as @ ss')) (cells_list r (bs @ ts')) (\<lambda>w. map_option (cells r) (U w))"
          using less.prems Cons ts App t eq calculation by (intro less.hyps) auto
        ultimately show ?thesis using Cons ts App t by simp
      qed
    qed
  qed
qed

theorem flat_unifies:
  assumes "narrow s" "narrow t" "inst \<sigma> s = inst \<tau> t"
  shows "unify_match (flatten s) (flatten t) Map.empty"
proof -
  obtain r where r: "inj_on r (vars s)" "flatten s = cells r s" by (rule flatten_cells)
  obtain r' where r': "inj_on r' (vars t)" "flatten t = cells r' t" by (rule flatten_cells)
  obtain \<theta> where \<theta>: "inst \<theta> (inst (\<lambda>v. Var (r v)) s) = inst \<tau> t" using inst_renamed [OF r(1)] assms(3) by blast
  have "cells r s = cells id (inst (\<lambda>v. Var (r v)) s)" by (simp add: cells_inst_Var)
  then show ?thesis
    using unify_match_complete [of "[inst (\<lambda>v. Var (r v)) s]" "[t]" \<theta> \<tau> Map.empty r'] assms(1,2) \<theta>
    by (simp add: r(2) r'(2) narrow_inst_Var)
qed

end
