(* ===== verification/STree.thy ===== *)
theory STree
  imports CellMatch
begin

text \<open>
  The path-compressed discrimination tree that indexes rewrite rules and literals,
  \<open>crates/mrs-index/src/stree.rs\<close>. An edge carries its first cell as the key of the node and the
  rest of its cells beside the child. The bindings of stored variables are restored when a branch
  has been searched, so the functions below only pass them down; a binding is the part of the query
  itself, not its range.
\<close>

section \<open>The tree\<close>

datatype 'v STreeId = STree (st_children: "(Cell, Cell list \<times> 'v STreeId) btree") (st_leaves: "'v list") (has_var_root: bool)

definition st_new :: "'v STreeId" where
  "st_new = STree [] [] False"

definition st_leaf :: "'v \<Rightarrow> 'v STreeId" where
  "st_leaf v = STree [] [v] False"

definition st_is_empty :: "'v STreeId \<Rightarrow> bool" where
  "st_is_empty t \<longleftrightarrow> st_leaves t = [] \<and> st_children t = []"

lemma child_size:
  "(c, e, ch) \<in> set cs \<Longrightarrow> size ch \<le> size_list (size_prod (\<lambda>x. 0) (size_prod (\<lambda>x. 0) size)) cs"
  by (induction cs) auto

fun common_prefix_len :: "Cell list \<Rightarrow> Cell list \<Rightarrow> nat" where
  "common_prefix_len (x # xs) (y # ys) = (if x = y then Suc (common_prefix_len xs ys) else 0)"
| "common_prefix_len xs ys = 0"

text \<open>The edge \<open>first, edge_rest\<close> with its child split after \<open>k\<close> cells of \<open>edge_rest\<close>.\<close>

definition split_edge :: "nat \<Rightarrow> Cell list \<Rightarrow> Cell list \<Rightarrow> 'v STreeId \<Rightarrow> 'v \<Rightarrow> 'v STreeId" where
  "split_edge k new_rest edge_rest child value =
     (let old = bt_insert (edge_rest ! k) (drop (k + 1) edge_rest, child) [] in
      if k < length new_rest
      then STree (bt_insert (new_rest ! k) (drop (k + 1) new_rest, st_leaf value) old) [] False
      else STree old [value] False)"

function insert_flat :: "Cell list \<Rightarrow> 'v \<Rightarrow> 'v STreeId \<Rightarrow> 'v STreeId" where
  "insert_flat [] value (STree cs ls r) = STree cs (if value \<in> set ls then ls else ls @ [value]) r"
| "insert_flat (first # new_rest) value (STree cs ls r) =
     (case map_of cs first of
        None \<Rightarrow> STree (bt_insert first (new_rest, st_leaf value) cs) ls r
      | Some (edge_rest, child) \<Rightarrow>
          let k = common_prefix_len new_rest edge_rest in
          if k = length edge_rest
          then STree (bt_insert first (edge_rest, insert_flat (drop k new_rest) value child) cs) ls r
          else STree (bt_insert first (take k edge_rest, split_edge k new_rest edge_rest child value) cs) ls r)"
  by pat_completeness auto

termination
  by (relation "measure (\<lambda>(p, v, t). length p)") auto

definition note_root_cell :: "Cell list \<Rightarrow> 'v STreeId \<Rightarrow> 'v STreeId" where
  "note_root_cell fl t = (case fl of
     c # _ \<Rightarrow> if is_var_cell c then STree (st_children t) (st_leaves t) True else t
   | [] \<Rightarrow> t)"

definition st_insert :: "TermId \<Rightarrow> TermBank \<Rightarrow> 'v \<Rightarrow> 'v STreeId \<Rightarrow> 'v STreeId option" where
  "st_insert i bank value t = do {
     fl \<leftarrow> flatten_id i bank;
     Some (insert_flat fl value (note_root_cell fl t)) }"

definition st_insert_atom :: "IdAtom \<Rightarrow> TermBank \<Rightarrow> 'v \<Rightarrow> 'v STreeId \<Rightarrow> 'v STreeId option" where
  "st_insert_atom a bank value t = do {
     fl \<leftarrow> flatten_atom_id a bank;
     Some (insert_flat fl value (note_root_cell fl t)) }"

function remove_flat :: "Cell list \<Rightarrow> 'v \<Rightarrow> 'v STreeId \<Rightarrow> bool \<times> 'v STreeId" where
  "remove_flat [] value (STree cs ls r) =
     (let ls' = filter (\<lambda>v. v \<noteq> value) ls in (length ls' < length ls, STree cs ls' r))"
| "remove_flat (first # fl) value (STree cs ls r) =
     (case map_of cs first of
        None \<Rightarrow> (False, STree cs ls r)
      | Some (edge_rest, child) \<Rightarrow>
          let k = length edge_rest in
          if length fl < k then (False, STree cs ls r)
          else if take k fl \<noteq> edge_rest then (False, STree cs ls r)
          else (case remove_flat (drop k fl) value child of (removed, child) \<Rightarrow>
            (removed, STree (if removed \<and> st_is_empty child then bt_remove first cs
               else bt_insert first (edge_rest, child) cs) ls r)))"
  by pat_completeness auto

termination
  by (relation "measure (\<lambda>(p, v, t). length p)") auto

definition st_remove :: "TermId \<Rightarrow> TermBank \<Rightarrow> 'v \<Rightarrow> 'v STreeId \<Rightarrow> (bool \<times> 'v STreeId) option" where
  "st_remove i bank value t = do { fl \<leftarrow> flatten_id i bank; Some (remove_flat fl value t) }"

definition st_remove_atom :: "IdAtom \<Rightarrow> TermBank \<Rightarrow> 'v \<Rightarrow> 'v STreeId \<Rightarrow> (bool \<times> 'v STreeId) option" where
  "st_remove_atom a bank value t = do { fl \<leftarrow> flatten_atom_id a bank; Some (remove_flat fl value t) }"

section \<open>Retrieval of generalisations\<close>

text \<open>The results of a loop over children, in order.\<close>

definition collect :: "('a \<Rightarrow> 'v list option) \<Rightarrow> 'a list \<Rightarrow> 'v list option" where
  "collect f xs = map_option concat (mapM f xs)"

lemma collect_cong [fundef_cong]: "xs = ys \<Longrightarrow> (\<And>x. x \<in> set ys \<Longrightarrow> f x = g x) \<Longrightarrow> collect f xs = collect g ys"
  by (simp add: collect_def cong: mapM_cong)

lemma set_bt_from: "x \<in> set (bt_from k m) \<Longrightarrow> x \<in> set m"
  by (simp add: bt_from_def set_dropWhileD)

text \<open>\<open>edge\<close> is what is left of the edge from the position \<open>e\<close> on.\<close>

function gen_flat :: "'v STreeId \<Rightarrow> Cell list \<Rightarrow> cell_binds \<Rightarrow> 'v list option"
and gen_walk_edge :: "Cell list \<Rightarrow> 'v STreeId \<Rightarrow> Cell list \<Rightarrow> cell_binds \<Rightarrow> 'v list option" where
  "gen_flat (STree cs ls r) [] B = Some ls"
| "gen_flat (STree cs ls r) (qc # q) B = do {
     exact \<leftarrow> (if is_var_cell qc then Some []
       else case map_of cs qc of
         None \<Rightarrow> Some []
       | Some (edge_rest, child) \<Rightarrow> gen_walk_edge (qc # edge_rest) child (qc # q) B);
     vars \<leftarrow> collect (\<lambda>(first, edge_rest, child). gen_walk_edge (first # edge_rest) child (qc # q) B)
       (bt_from (CellVar 0) cs);
     Some (exact @ vars) }"
| "gen_walk_edge [] child q B = gen_flat child q B"
| "gen_walk_edge (sc # edge) child [] B = Some []"
| "gen_walk_edge (CellSym sf sn # edge) child (CellSym qf qn # q) B =
     (if sf = qf \<and> sn = qn then gen_walk_edge edge child q B else Some [])"
| "gen_walk_edge (CellSym sf sn # edge) child (CellVar w # q) B = Some []"
| "gen_walk_edge (CellVar v # edge) child (qc # q) B = do {
     q' \<leftarrow> skip_in_flat (qc # q);
     let subterm = subterm_cells (qc # q) q';
     case B v of
       Some b \<Rightarrow> if b = subterm then gen_walk_edge edge child q' B else Some []
     | None \<Rightarrow> gen_walk_edge edge child q' (B(v \<mapsto> subterm)) }"
  by pat_completeness auto

termination
  by (relation "measures [\<lambda>x. case x of Inl (t, q, B) \<Rightarrow> 2 * size t | Inr (e, ch, q, B) \<Rightarrow> 2 * size ch + 1,
      \<lambda>x. case x of Inl y \<Rightarrow> 0 | Inr (e, ch, q, B) \<Rightarrow> length e]")
    (auto dest!: child_size [OF set_bt_from] child_size [OF map_of_SomeD])

definition can_generalize_root :: "TermId \<Rightarrow> TermBank \<Rightarrow> 'v STreeId \<Rightarrow> bool option" where
  "can_generalize_root i bank t =
     (if st_children t = [] then Some False
      else if has_var_root t then Some True
      else do {
        node \<leftarrow> node_at bank i;
        Some (case node of
          NVar v \<Rightarrow> False
        | NApp f args \<Rightarrow> map_of (st_children t) (CellSym f (of_nat (length args))) \<noteq> None) })"

definition st_get_generalizations :: "TermId \<Rightarrow> TermBank \<Rightarrow> 'v STreeId \<Rightarrow> 'v list option" where
  "st_get_generalizations i bank t = do {
     possible \<leftarrow> can_generalize_root i bank t;
     if \<not> possible then Some []
     else do { fl \<leftarrow> flatten_id i bank; gen_flat t fl Map.empty } }"

section \<open>Retrieval of unification candidates\<close>

function unify_flat :: "'v STreeId \<Rightarrow> Cell list \<Rightarrow> cell_binds \<Rightarrow> 'v list option"
and skip_stored :: "'v STreeId \<Rightarrow> nat \<Rightarrow> Cell list \<Rightarrow> cell_binds \<Rightarrow> 'v list option"
and unify_walk_edge :: "Cell list \<Rightarrow> 'v STreeId \<Rightarrow> Cell list \<Rightarrow> cell_binds \<Rightarrow> 'v list option"
and skip_walk_edge :: "Cell list \<Rightarrow> 'v STreeId \<Rightarrow> nat \<Rightarrow> Cell list \<Rightarrow> cell_binds \<Rightarrow> 'v list option" where
  "unify_flat (STree cs ls r) q B =
     (if q = [] then Some ls
      else collect (\<lambda>(first, edge_rest, child). unify_walk_edge (first # edge_rest) child q B) cs)"
| "skip_stored (STree cs ls r) remaining q B =
     (if remaining = 0 then unify_flat (STree cs ls r) q B
      else collect (\<lambda>(first, edge_rest, child). skip_walk_edge (first # edge_rest) child remaining q B) cs)"
| "unify_walk_edge [] child q B = unify_flat child q B"
| "unify_walk_edge (sc # edge) child [] B = Some []"
| "unify_walk_edge (CellSym sf sn # edge) child (CellSym qf qn # q) B =
     (if sf = qf \<and> sn = qn then unify_walk_edge edge child q B else Some [])"
| "unify_walk_edge (CellSym sf sn # edge) child (CellVar w # q) B = skip_walk_edge edge child (unat sn) q B"
| "unify_walk_edge (CellVar v # edge) child (qc # q) B = do {
     q' \<leftarrow> (if is_var_cell qc then Some q else skip_in_flat (qc # q));
     let subterm = subterm_cells (qc # q) q';
     case B v of
       Some b \<Rightarrow> if may_equal b subterm then unify_walk_edge edge child q' B else Some []
     | None \<Rightarrow> unify_walk_edge edge child q' (B(v \<mapsto> subterm)) }"
| "skip_walk_edge edge child 0 q B = unify_walk_edge edge child q B"
| "skip_walk_edge [] child (Suc n) q B = skip_stored child (Suc n) q B"
| "skip_walk_edge (CellVar v # edge) child (Suc n) q B = skip_walk_edge edge child n q B"
| "skip_walk_edge (CellSym f m # edge) child (Suc n) q B = skip_walk_edge edge child (n + unat m) q B"
  by pat_completeness auto

termination
  by (relation "measures [\<lambda>x. case x of
        Inl (Inl (t, q, B)) \<Rightarrow> 3 * size t
      | Inl (Inr (t, n, q, B)) \<Rightarrow> 3 * size t + 1
      | Inr (Inl (e, ch, q, B)) \<Rightarrow> 3 * size ch + 2
      | Inr (Inr (e, ch, n, q, B)) \<Rightarrow> 3 * size ch + 2,
      \<lambda>x. case x of Inr (Inl (e, ch, q, B)) \<Rightarrow> 2 * length e | Inr (Inr (e, ch, n, q, B)) \<Rightarrow> 2 * length e + 1 | _ \<Rightarrow> 0]")
    (auto dest!: child_size)

definition st_get_unifications :: "TermId \<Rightarrow> TermBank \<Rightarrow> 'v STreeId \<Rightarrow> 'v list option" where
  "st_get_unifications i bank t = do { fl \<leftarrow> flatten_id i bank; unify_flat t fl Map.empty }"

definition st_get_unifications_atom :: "IdAtom \<Rightarrow> TermBank \<Rightarrow> 'v STreeId \<Rightarrow> 'v list option" where
  "st_get_unifications_atom a bank t = do { fl \<leftarrow> flatten_atom_id a bank; unify_flat t fl Map.empty }"

section \<open>What a tree holds\<close>

text \<open>\<open>st_has t p v\<close>: the value \<open>v\<close> is stored under the path \<open>p\<close>.\<close>

function st_has :: "'v STreeId \<Rightarrow> Cell list \<Rightarrow> 'v \<Rightarrow> bool" where
  "st_has (STree cs ls r) [] v = (v \<in> set ls)"
| "st_has (STree cs ls r) (c # p) v = (case map_of cs c of
     None \<Rightarrow> False
   | Some (e, ch) \<Rightarrow> take (length e) p = e \<and> st_has ch (drop (length e) p) v)"
  by pat_completeness auto

termination
  by (relation "measure (\<lambda>(t, p, v). length p)") auto

text \<open>Keys ascend, values are stored once, and no child is empty.\<close>

fun tree_ok :: "'v STreeId \<Rightarrow> bool" where
  "tree_ok (STree cs ls r) \<longleftrightarrow> bt_ok cs \<and> distinct ls \<and>
     (\<forall>x \<in> set cs. tree_ok (snd (snd x)) \<and> \<not> st_is_empty (snd (snd x)))"

lemma map_of_bt_insert: "map_of (bt_insert k v m) = (map_of m)(k \<mapsto> v)"
  by (induction m) (auto simp: fun_eq_iff)

lemma map_of_bt_remove: "map_of (bt_remove k m) = (map_of m)(k := None)"
  by (induction m) (auto simp: bt_remove_def fun_eq_iff)

lemma st_has_empty: "st_is_empty t \<Longrightarrow> \<not> st_has t p v"
  by (cases t; cases p) (simp_all add: st_is_empty_def)

lemma st_has_leaf [simp]: "st_has (st_leaf v) p w \<longleftrightarrow> p = [] \<and> w = v"
  by (cases p) (simp_all add: st_leaf_def)

lemma common_prefix_len_take:
  "take (common_prefix_len xs ys) xs = take (common_prefix_len xs ys) ys"
  "common_prefix_len xs ys \<le> length xs" "common_prefix_len xs ys \<le> length ys"
  by (induction xs ys rule: common_prefix_len.induct) auto

lemma common_prefix_len_differ:
  "common_prefix_len xs ys < length xs \<Longrightarrow> common_prefix_len xs ys < length ys \<Longrightarrow>
     xs ! common_prefix_len xs ys \<noteq> ys ! common_prefix_len xs ys"
  by (induction xs ys rule: common_prefix_len.induct) (auto split: if_splits)

lemma take_drop_prefix: "k \<le> length e \<Longrightarrow> take (length e) p = e \<longleftrightarrow> take k p = take k e \<and> take (length e - k) (drop k p) = drop k e"
proof -
  assume k: "k \<le> length e"
  have "take (length e) p = take k p @ take (length e - k) (drop k p)" using k by (metis le_add_diff_inverse take_add)
  moreover have "e = take k e @ drop k e" by simp
  moreover have "length (take k p) = length (take k e)" if "take (length e) p = e"
    using that k by (metis length_take min.absorb2 min.absorb4 min_def order_trans)
  ultimately show ?thesis by (metis append_eq_append_conv append_take_drop_id)
qed

lemma st_has_split:
  assumes k: "k < length e" "k \<le> length n" "k < length n \<Longrightarrow> n ! k \<noteq> e ! k"
  shows "st_has (split_edge k n e child value) p w \<longleftrightarrow>
    take (length e - k) p = drop k e \<and> st_has child (drop (length e - k) p) w \<or> p = drop k n \<and> w = value"
proof -
  have e: "drop k e = e ! k # drop (k + 1) e" using k(1) by (simp add: Cons_nth_drop_Suc)
  have old: "(case (if c = e ! k then Some (drop (k + 1) e, child) else None) of None \<Rightarrow> False
      | Some (f, ch) \<Rightarrow> take (length f) q = f \<and> st_has ch (drop (length f) q) w) \<longleftrightarrow>
      take (length e - k) (c # q) = drop k e \<and> st_has child (drop (length e - k) (c # q)) w" for c q
  proof -
    have "length e - k = Suc (length e - (k + 1))" using k(1) by simp
    then show ?thesis using k(1) unfolding e by simp
  qed
  show ?thesis
  proof (cases "k < length n")
    case True
    then have n: "drop k n = n ! k # drop (k + 1) n" by (simp add: Cons_nth_drop_Suc)
    show ?thesis
    proof (cases p)
      case Nil
      then show ?thesis using True k(1) n e by (simp add: split_edge_def)
    next
      case (Cons c q)
      show ?thesis
      proof (cases "c = n ! k")
        case c: True
        then have "take (length e - k) p \<noteq> drop k e" using k(1,3) True Cons unfolding e by (auto simp: take_Cons')
        then show ?thesis using c True Cons n
          by (auto simp: split_edge_def map_of_bt_insert)
      next
        case False
        then show ?thesis using True Cons n old [where c = c and q = q] k(3)
          by (cases "c = e ! k") (simp_all add: split_edge_def map_of_bt_insert)
      qed
    qed
  next
    case False
    then have n: "drop k n = []" using k(2) by simp
    show ?thesis
    proof (cases p)
      case Nil
      then show ?thesis using False k(1) n e by (simp add: split_edge_def)
    next
      case (Cons c q)
      then show ?thesis using False n old [where c = c and q = q]
        by (cases "c = e ! k") (simp_all add: split_edge_def)
    qed
  qed
qed

lemma st_has_insert: "st_has (insert_flat p v t) q w \<longleftrightarrow> st_has t q w \<or> q = p \<and> w = v"
proof (induction p v t arbitrary: q rule: insert_flat.induct)
  case (1 v cs ls r)
  show ?case by (cases q) auto
next
  case (2 first n v cs ls r)
  show ?case
  proof (cases q)
    case Nil
    then show ?thesis by (auto simp: Let_def split: option.split prod.split)
  next
    case (Cons c q')
    show ?thesis
    proof (cases "map_of cs first")
      case None
      then show ?thesis using Cons by (auto simp: map_of_bt_insert)
    next
      case (Some x)
      obtain e ch where x: "x = (e, ch)" by fastforce
      define k where "k = common_prefix_len n e"
      have k: "take k n = take k e" "k \<le> length n" "k \<le> length e" "k < length n \<Longrightarrow> k < length e \<Longrightarrow> n ! k \<noteq> e ! k"
        unfolding k_def using common_prefix_len_take common_prefix_len_differ by blast+
      show ?thesis
      proof (cases "c = first")
        case False
        then show ?thesis using Some Cons x by (simp add: Let_def map_of_bt_insert k_def)
      next
        case c: True
        have same: "take k q' = take k e \<and> drop k q' = drop k n \<longleftrightarrow> q' = n"
          using k(1) by (metis append_take_drop_id)
        show ?thesis
        proof (cases "k = length e")
          case True
          have "st_has (insert_flat (first # n) v (STree cs ls r)) q w \<longleftrightarrow>
              take k q' = take k e \<and> (st_has ch (drop k q') w \<or> drop k q' = drop k n \<and> w = v)"
            using "2.IH" [OF Some x [symmetric] k_def True, of "drop k q'"] Some Cons x c True by (simp add: map_of_bt_insert k_def)
          also have "\<dots> \<longleftrightarrow> st_has (STree cs ls r) q w \<or> q = first # n \<and> w = v"
            using Some Cons x c True same by auto
          finally show ?thesis .
        next
          case False
          then have "st_has (insert_flat (first # n) v (STree cs ls r)) q w \<longleftrightarrow>
              take k q' = take k e \<and> st_has (split_edge k n e ch v) (drop k q') w"
            using Some Cons x c k(3) by (simp add: map_of_bt_insert Let_def k_def [symmetric])
          also have "\<dots> \<longleftrightarrow> take k q' = take k e \<and> (take (length e - k) (drop k q') = drop k e \<and>
              st_has ch (drop (length e) q') w \<or> drop k q' = drop k n \<and> w = v)"
            using False k st_has_split [of k e n ch v "drop k q'" w] by simp
          also have "\<dots> \<longleftrightarrow> st_has (STree cs ls r) q w \<or> q = first # n \<and> w = v"
            using Some Cons x c same take_drop_prefix [OF k(3), of q'] by auto
          finally show ?thesis .
        qed
      qed
    qed
  qed
qed


lemma insert_flat_ok: "tree_ok t \<Longrightarrow> tree_ok (insert_flat p v t) \<and> \<not> st_is_empty (insert_flat p v t)"
proof (induction p v t rule: insert_flat.induct)
  case (1 v cs ls r)
  then show ?case by (auto simp: st_is_empty_def)
next
  case (2 first n v cs ls r)
  have cs: "bt_ok cs" "distinct ls" "\<forall>x \<in> set cs. tree_ok (snd (snd x)) \<and> \<not> st_is_empty (snd (snd x))"
    using "2.prems" by auto
  have leaf: "tree_ok (st_leaf v)" "\<not> st_is_empty (st_leaf v)" by (simp_all add: st_leaf_def st_is_empty_def bt_ok_def)
  have put: "tree_ok (STree (bt_insert first (e, ch) cs) ls r) \<and> \<not> st_is_empty (STree (bt_insert first (e, ch) cs) ls r)"
    if "tree_ok ch" "\<not> st_is_empty ch" for e ch
  proof -
    have "set (bt_insert first (e, ch) cs) = insert (first, e, ch) {p \<in> set cs. fst p \<noteq> first}"
      using bt_insert_set [OF cs(1)] .
    moreover from this have "bt_insert first (e, ch) cs \<noteq> []" by force
    ultimately show ?thesis using that cs bt_insert_ok [OF cs(1)] by (auto simp: st_is_empty_def)
  qed
  show ?case
  proof (cases "map_of cs first")
    case None
    then show ?thesis using put leaf by simp
  next
    case (Some x)
    obtain e ch where x: "x = (e, ch)" by fastforce
    define k where "k = common_prefix_len n e"
    have "(first, e, ch) \<in> set cs" using Some x map_of_SomeD by fastforce
    then have ch: "tree_ok ch" "\<not> st_is_empty ch" using cs(3) by fastforce+
    show ?thesis
    proof (cases "k = length e")
      case True
      then have r: "insert_flat (first # n) v (STree cs ls r) = STree (bt_insert first (e, insert_flat (drop k n) v ch) cs) ls r"
        using Some x by (simp add: k_def)
      show ?thesis unfolding r using "2.IH" [OF Some x [symmetric] k_def True ch(1)] by (intro put) blast+
    next
      case False
      have "k \<le> length e" "k < length n \<Longrightarrow> k < length e \<Longrightarrow> n ! k \<noteq> e ! k"
        unfolding k_def using common_prefix_len_take common_prefix_len_differ by blast+
      then have "tree_ok (split_edge k n e ch v)" "\<not> st_is_empty (split_edge k n e ch v)"
        using False ch leaf by (auto simp: split_edge_def st_is_empty_def bt_ok_def Let_def)
      then show ?thesis using put False Some x by (simp add: k_def Let_def)
    qed
  qed
qed

lemma remove_flat_same: "remove_flat p v t = (False, t') \<Longrightarrow> st_is_empty t' \<Longrightarrow> st_is_empty t"
proof (cases t)
  case (STree cs ls r)
  assume a: "remove_flat p v t = (False, t')" "st_is_empty t'"
  show ?thesis
  proof (cases p)
    case Nil
    have "filter (\<lambda>x. x \<noteq> v) ls = [] \<Longrightarrow> \<not> 0 < length ls \<Longrightarrow> ls = []" by simp
    then show ?thesis using a STree Nil by (auto simp: Let_def st_is_empty_def)
  next
    case (Cons c q)
    have "bt_insert c x cs \<noteq> []" for x by (cases cs) (auto split: if_splits)
    then show ?thesis using a STree Cons by (auto simp: Let_def st_is_empty_def split: option.splits if_splits prod.splits)
  qed
qed

lemma remove_flat_correct:
  "tree_ok t \<Longrightarrow> remove_flat p v t = (removed, t') \<Longrightarrow>
     tree_ok t' \<and> (removed \<longleftrightarrow> st_has t p v) \<and> (\<forall>q w. st_has t' q w \<longleftrightarrow> st_has t q w \<and> \<not> (q = p \<and> w = v))"
proof (induction p v t arbitrary: removed t' rule: remove_flat.induct)
  case (1 v cs ls r)
  have "length (filter (\<lambda>x. x \<noteq> v) ls) < length ls \<longleftrightarrow> v \<in> set ls"
  proof
    assume less: "length (filter (\<lambda>x. x \<noteq> v) ls) < length ls"
    show "v \<in> set ls"
    proof (rule ccontr)
      assume "v \<notin> set ls"
      then have "filter (\<lambda>x. x \<noteq> v) ls = ls" by (auto simp: filter_id_conv)
      then show False using less by simp
    qed
  qed (rule length_filter_less, simp_all)
  moreover have "st_has (STree cs (filter (\<lambda>x. x \<noteq> v) ls) r) q w \<longleftrightarrow> st_has (STree cs ls r) q w \<and> \<not> (q = [] \<and> w = v)" for q w
    by (cases q) auto
  ultimately show ?case using 1 by (auto simp: Let_def)
next
  case (2 first n v cs ls r)
  have cs: "bt_ok cs" "distinct ls" "\<forall>x \<in> set cs. tree_ok (snd (snd x)) \<and> \<not> st_is_empty (snd (snd x))"
    using "2.prems" by auto
  show ?case
  proof (cases "map_of cs first")
    case None
    then show ?thesis using "2.prems" by (auto split: if_splits)
  next
    case (Some x)
    obtain e ch where x: "x = (e, ch)" by fastforce
    have "(first, e, ch) \<in> set cs" using Some x map_of_SomeD by fastforce
    then have ch: "tree_ok ch" "\<not> st_is_empty ch" using cs(3) by fastforce+
    show ?thesis
    proof (cases "take (length e) n = e")
      case False
      then have "removed = False" "t' = STree cs ls r" using "2.prems" Some x by (auto simp: Let_def split: if_splits)
      then show ?thesis using "2.prems" False Some x by auto
    next
      case True
      then have len: "\<not> length n < length e" by (metis length_take min.absorb_iff2 not_less)
      obtain rem ch' where rc: "remove_flat (drop (length e) n) v ch = (rem, ch')" by fastforce
      have IH: "tree_ok ch'" "rem \<longleftrightarrow> st_has ch (drop (length e) n) v"
        "\<And>q w. st_has ch' q w \<longleftrightarrow> st_has ch q w \<and> \<not> (q = drop (length e) n \<and> w = v)"
        using "2.IH" [OF Some x [symmetric] refl len _ ch(1) rc] True by auto
      have res: "removed = rem" "t' = STree (if rem \<and> st_is_empty ch' then bt_remove first cs else bt_insert first (e, ch') cs) ls r"
        using "2.prems"(2) Some x len True rc by (auto simp: Let_def)
      have same: "take (length e) q = e \<and> drop (length e) q = drop (length e) n \<longleftrightarrow> q = n" for q
        using True by (metis append_take_drop_id)
      have has: "st_has t' q w \<longleftrightarrow> st_has (STree cs ls r) q w \<and> \<not> (q = first # n \<and> w = v)" for q w
      proof (cases q)
        case (Cons c q')
        show ?thesis
        proof (cases "c = first")
          case True
          have "st_has t' q w \<longleftrightarrow> take (length e) q' = e \<and> st_has ch' (drop (length e) q') w"
            using Cons True st_has_empty [of ch'] unfolding res by (simp add: map_of_bt_insert map_of_bt_remove)
          then show ?thesis using Cons True Some x IH(3) same [of q'] by auto
        next
          case False
          then show ?thesis using Cons unfolding res by (simp add: map_of_bt_insert map_of_bt_remove)
        qed
      qed (simp add: res)
      have "\<not> st_is_empty ch'" if "\<not> (rem \<and> st_is_empty ch')"
      proof (cases rem)
        case False
        then have "remove_flat (drop (length e) n) v ch = (False, ch')" using rc by simp
        from remove_flat_same [OF this] show ?thesis using ch(2) by blast
      qed (use that in blast)
      then have "tree_ok t'"
        using cs IH(1) bt_insert_ok [OF cs(1)] bt_remove_ok [OF cs(1)] unfolding res
        by (auto simp: bt_insert_set [OF cs(1)] bt_remove_set)
      then show ?thesis using has IH(2) res(1) Some x True by simp
    qed
  qed
qed


section \<open>Retrieval is exact on paths\<close>

text \<open>Flat queries in which no subterm ends too early.\<close>

definition wf_query :: "Cell list \<Rightarrow> bool" where
  "wf_query q \<longleftrightarrow> (\<exists>r ts. q = cells_list r ts)"

lemma wf_query_Sym: "wf_query (CellSym f n # q) \<Longrightarrow> wf_query q"
proof -
  assume "wf_query (CellSym f n # q)"
  then obtain r ts where ts: "CellSym f n # q = cells_list r ts" by (auto simp: wf_query_def)
  then obtain t us where us: "ts = t # us" by (cases ts) auto
  then obtain args where "q = cells_list r (args @ us)" using ts by (cases t) auto
  then show ?thesis unfolding wf_query_def by (intro exI [of _ r] exI [of _ "args @ us"])
qed

text \<open>An arity that does not fit eight bits is stored too small, so a skip stops early but never fails.\<close>

lemma skip_stops: "n \<le> length ts \<Longrightarrow> \<exists>us. skip_many n (cells_list r ts) = Some (cells_list r us)"
proof (induction "sum_list (map term_size ts)" arbitrary: ts n rule: less_induct)
  case less
  show ?case
  proof (cases n)
    case (Suc m)
    then obtain t us where ts: "ts = t # us" "m \<le> length us" using less.prems by (cases ts) auto
    show ?thesis
    proof (cases t)
      case (Var v)
      then show ?thesis using less.hyps [of us m] ts Suc by simp
    next
      case (App f args)
      have "unat (of_nat (length args) :: u8) \<le> length args" by (simp add: unat_of_nat take_bit_nat_less_eq_self)
      then have "\<exists>vs. skip_many (unat (of_nat (length args) :: u8) + m) (cells_list r (args @ us)) = Some (cells_list r vs)"
        using ts App by (intro less.hyps) simp_all
      then show ?thesis using ts App Suc by simp
    qed
  qed auto
qed

lemma wf_query_skip:
  assumes "wf_query (c # q)"
  obtains q' where "skip_in_flat (c # q) = Some q'" "wf_query q'"
proof -
  obtain r ts where ts: "c # q = cells_list r ts" using assms by (auto simp: wf_query_def)
  then have "1 \<le> length ts" by (cases ts) auto
  then obtain us where "skip_in_flat (c # q) = Some (cells_list r us)"
    using skip_stops [of 1 ts r] ts by (auto simp: skip_in_flat_def)
  moreover have "wf_query (cells_list r us)" unfolding wf_query_def by blast
  ultimately show thesis by (rule that)
qed

lemma collect_total:
  assumes "\<And>x. x \<in> set xs \<Longrightarrow> \<exists>vs. f x = Some vs \<and> set vs = S x"
  shows "\<exists>vs. collect f xs = Some vs \<and> set vs = (\<Union>x \<in> set xs. S x)"
  using assms
proof (induction xs)
  case (Cons x xs)
  obtain vs where "f x = Some vs" "set vs = S x" using Cons.prems by auto
  moreover obtain ws where "collect f xs = Some ws" "set ws = (\<Union>x \<in> set xs. S x)" using Cons by auto
  ultimately show ?case by (auto simp: collect_def)
qed (simp add: collect_def)

definition yields_on :: "('v list) option \<Rightarrow> 'v STreeId \<Rightarrow> (Cell list \<Rightarrow> bool) \<Rightarrow> bool" where
  "yields_on res t P \<longleftrightarrow> (\<exists>vs. res = Some vs \<and> set vs = {v. \<exists>p. st_has t p v \<and> P p})"

lemma yields_on_none: "(\<And>p. \<not> P p) \<Longrightarrow> yields_on (Some []) t P"
  by (simp add: yields_on_def)

lemma yields_on_cong: "yields_on res t P \<Longrightarrow> (\<And>p. P p \<longleftrightarrow> Q p) \<Longrightarrow> yields_on res t Q"
  by (simp add: yields_on_def)

text \<open>The paths of a node are those of its edges.\<close>

lemma node_paths:
  assumes "bt_ok cs" "q \<noteq> []" "\<And>p. P p \<Longrightarrow> p \<noteq> []"
  shows "{v. \<exists>p. st_has (STree cs ls r) p v \<and> P p} =
    (\<Union>(c, e, ch) \<in> set cs. {v. \<exists>p. st_has ch p v \<and> P (c # e @ p)})"
proof (intro equalityI subsetI)
  fix v assume "v \<in> {v. \<exists>p. st_has (STree cs ls r) p v \<and> P p}"
  then obtain p where p: "st_has (STree cs ls r) p v" "P p" by blast
  then obtain c p' where cp: "p = c # p'" using assms(3) by (cases p) auto
  then obtain e ch where e: "map_of cs c = Some (e, ch)" "take (length e) p' = e" "st_has ch (drop (length e) p') v"
    using p(1) by (auto split: option.splits)
  have "(c, e, ch) \<in> set cs" using e(1) by (rule map_of_SomeD)
  moreover have "P (c # e @ drop (length e) p')" using p(2) cp e(2) by (metis append_take_drop_id)
  ultimately show "v \<in> (\<Union>(c, e, ch) \<in> set cs. {v. \<exists>p. st_has ch p v \<and> P (c # e @ p)})" using e(3) by blast
next
  fix v assume "v \<in> (\<Union>(c, e, ch) \<in> set cs. {v. \<exists>p. st_has ch p v \<and> P (c # e @ p)})"
  then obtain c e ch p where h: "(c, e, ch) \<in> set cs" "st_has ch p v" "P (c # e @ p)" by blast
  then have "map_of cs c = Some (e, ch)" using bt_get_iff [OF assms(1)] by blast
  then have "st_has (STree cs ls r) (c # e @ p) v" using h(2) by simp
  then show "v \<in> {v. \<exists>p. st_has (STree cs ls r) p v \<and> P p}" using h(3) by blast
qed

lemma tree_ok_child: "tree_ok (STree cs ls r) \<Longrightarrow> (c, e, ch) \<in> set cs \<Longrightarrow> tree_ok ch"
  by fastforce

lemma var_key: "CellVar 0 \<le> c \<longleftrightarrow> is_var_cell c"
  by (cases c) (auto simp: less_eq_Cell_def word_neq_0_conv)

lemma gen_retrieval:
  fixes t ch :: "'v STreeId"
  shows "tree_ok t \<Longrightarrow> wf_query q \<Longrightarrow> yields_on (gen_flat t q B) t (\<lambda>p. gen_match p q B)"
  "tree_ok ch \<Longrightarrow> wf_query q \<Longrightarrow> yields_on (gen_walk_edge e ch q B) ch (\<lambda>p. gen_match (e @ p) q B)"
proof (induction t q B and e ch q B rule: gen_flat_gen_walk_edge.induct)
  case (1 cs ls r B)
  have "{v. \<exists>p. st_has (STree cs ls r) p v \<and> gen_match p [] B} = set ls"
  proof -
    have "gen_match p [] B \<longleftrightarrow> p = []" for p
      by (cases p rule: list.exhaust; cases "hd p") auto
    then show ?thesis by auto
  qed
  then show ?case by (simp add: yields_on_def)
next
  case (2 cs ls r qc q B)
  let ?q = "qc # q"
  let ?P = "\<lambda>p. gen_match p ?q B"
  let ?S = "\<lambda>(c, e, ch). {v. \<exists>p. st_has ch p v \<and> ?P (c # e @ p)}"
  have cs: "bt_ok cs" using "2.prems"(1) by simp
  obtain exact where exact: "(if is_var_cell qc then Some [] else case map_of cs qc of
      None \<Rightarrow> Some [] | Some (e, ch) \<Rightarrow> gen_walk_edge (qc # e) ch ?q B) = Some exact"
    "set exact = (\<Union>x \<in> {x \<in> set cs. \<not> is_var_cell (fst x)}. ?S x)"
  proof -
    have other: "?S x = {}" if "\<not> is_var_cell (fst x)" "fst x \<noteq> qc" for x
      using that by (cases x; cases "fst x"; cases qc) auto
    show thesis
    proof (cases "is_var_cell qc")
      case True
      then have "(\<Union>x \<in> {x \<in> set cs. \<not> is_var_cell (fst x)}. ?S x) = {}" using other by blast
      then show thesis using that [of "[]"] True by simp
    next
      case False
      show thesis
      proof (cases "map_of cs qc")
        case None
        then have "fst x \<noteq> qc" if "x \<in> set cs" for x using that by (metis map_of_eq_None_iff image_eqI)
        then have "(\<Union>x \<in> {x \<in> set cs. \<not> is_var_cell (fst x)}. ?S x) = {}" using other by blast
        then show thesis using that [of "[]"] False None by simp
      next
        case (Some y)
        obtain e ch where y: "y = (e, ch)" by fastforce
        have m: "(qc, e, ch) \<in> set cs" using Some y map_of_SomeD by fastforce
        have only: "x = (qc, e, ch)" if "x \<in> set cs" "fst x = qc" for x
          using that m bt_ok_distinct [OF cs] by (metis bt_get_iff cs option.inject prod.collapse)
        have "(\<Union>x \<in> {x \<in> set cs. \<not> is_var_cell (fst x)}. ?S x) = ?S (qc, e, ch)"
        proof (intro equalityI UN_least)
          fix x assume x: "x \<in> {x \<in> set cs. \<not> is_var_cell (fst x)}"
          show "?S x \<subseteq> ?S (qc, e, ch)"
          proof (cases "fst x = qc")
            case True
            then have "x = (qc, e, ch)" using only x by blast
            then show ?thesis by simp
          next
            case False
            then have "?S x = {}" using other x by blast
            then show ?thesis by blast
          qed
        next
          have "(qc, e, ch) \<in> {x \<in> set cs. \<not> is_var_cell (fst x)}" using m False by simp
          then show "?S (qc, e, ch) \<subseteq> (\<Union>x \<in> {x \<in> set cs. \<not> is_var_cell (fst x)}. ?S x)" by (rule UN_upper)
        qed
        moreover have "yields_on (gen_walk_edge (qc # e) ch ?q B) ch (\<lambda>p. gen_match ((qc # e) @ p) ?q B)"
          using "2.IH"(1) [OF False Some y [symmetric]] tree_ok_child [OF "2.prems"(1) m] "2.prems"(2) by blast
        ultimately show thesis using that False Some y by (auto simp: yields_on_def)
      qed
    qed
  qed
  have "\<exists>vs. collect (\<lambda>(c, e, ch). gen_walk_edge (c # e) ch ?q B) (bt_from (CellVar 0) cs) = Some vs \<and>
      set vs = (\<Union>x \<in> set (bt_from (CellVar 0) cs). ?S x)"
  proof (rule collect_total)
    fix x assume x: "x \<in> set (bt_from (CellVar 0) cs)"
    obtain c e ch where c: "x = (c, e, ch)" by (cases x)
    have "tree_ok ch" using tree_ok_child [OF "2.prems"(1)] set_bt_from x c by blast
    then show "\<exists>vs. (case x of (c, e, ch) \<Rightarrow> gen_walk_edge (c # e) ch ?q B) = Some vs \<and> set vs = ?S x"
      using "2.IH"(2) [OF exact(1), of "(c, e, ch)" c "(e, ch)" e ch] x c "2.prems"(2) by (auto simp: yields_on_def)
  qed
  then obtain vs where vs: "collect (\<lambda>(c, e, ch). gen_walk_edge (c # e) ch ?q B) (bt_from (CellVar 0) cs) = Some vs"
    "set vs = (\<Union>x \<in> {x \<in> set cs. is_var_cell (fst x)}. ?S x)"
    unfolding bt_from_set [OF cs] var_key by blast
  have "{v. \<exists>p. st_has (STree cs ls r) p v \<and> ?P p} = (\<Union>x \<in> set cs. ?S x)"
    using cs by (rule node_paths [of _ ?q]) auto
  also have "set cs = {x \<in> set cs. \<not> is_var_cell (fst x)} \<union> {x \<in> set cs. is_var_cell (fst x)}" by blast
  also have "(\<Union>x \<in> \<dots>. ?S x) = set (exact @ vs)" by (simp only: UN_Un set_append exact(2) vs(2))
  finally have "{v. \<exists>p. st_has (STree cs ls r) p v \<and> ?P p} = set (exact @ vs)" .
  then show ?case using exact(1) vs(1) by (simp add: yields_on_def)
next
  case (3 child q B)
  then show ?case by simp
next
  case (4 sc edge child B)
  show ?case by (cases sc) (simp_all add: yields_on_none)
next
  case (5 sf sn edge child qf qn q B)
  then show ?case using wf_query_Sym by (auto intro!: yields_on_none)
next
  case (6 sf sn edge child w q B)
  show ?case by (simp add: yields_on_none)
next
  case (7 v edge child qc q B)
  obtain q' where q': "skip_in_flat (qc # q) = Some q'" "wf_query q'" using wf_query_skip [OF "7.prems"(2)] .
  show ?case
  proof (cases "B v")
    case None
    then show ?thesis using "7.IH"(1) [OF q'(1) refl None "7.prems"(1) q'(2)] q'(1)
      by (simp add: Let_def del: fun_upd_apply)
  next
    case (Some b)
    then show ?thesis using "7.IH"(2) [OF q'(1) refl Some _ "7.prems"(1) q'(2)] q'(1)
      by (auto simp: Let_def intro!: yields_on_none)
  qed
qed


definition unify_after :: "nat \<Rightarrow> Cell list \<Rightarrow> Cell list \<Rightarrow> cell_binds \<Rightarrow> bool" where
  "unify_after n p q B \<longleftrightarrow> (\<exists>p'. skip_many n p = Some p' \<and> unify_match p' q B)"

lemma unify_after_simps [simp]:
  "unify_after 0 p q B = unify_match p q B"
  "\<not> unify_after (Suc n) [] q B"
  "unify_after (Suc n) (CellVar v # p) q B = unify_after n p q B"
  "unify_after (Suc n) (CellSym f m # p) q B = unify_after (n + unat m) p q B"
  by (simp_all add: unify_after_def add.commute)

lemma unify_match_after: "unify_match (CellSym f n # p) (CellVar w # q) B = unify_after (unat n) p q B"
  by (simp add: unify_after_def split: option.split)

lemma node_yields:
  assumes "bt_ok cs" "\<And>p. P p \<Longrightarrow> p \<noteq> []"
    "\<And>c e ch. (c, e, ch) \<in> set cs \<Longrightarrow> yields_on (f (c, e, ch)) ch (\<lambda>p. P (c # e @ p))"
  shows "yields_on (collect f cs) (STree cs ls r) P"
proof -
  let ?S = "\<lambda>(c, e, ch). {v. \<exists>p. st_has ch p v \<and> P (c # e @ p)}"
  have "\<exists>vs. collect f cs = Some vs \<and> set vs = (\<Union>x \<in> set cs. ?S x)"
  proof (rule collect_total)
    fix x assume x: "x \<in> set cs"
    obtain c e ch where c: "x = (c, e, ch)" by (cases x)
    show "\<exists>vs. f x = Some vs \<and> set vs = ?S x" using assms(3) [of c e ch] x c by (simp add: yields_on_def)
  qed
  moreover have "{v. \<exists>p. st_has (STree cs ls r) p v \<and> P p} = (\<Union>x \<in> set cs. ?S x)"
    using node_paths [of cs "[CellVar 0]" P ls r] assms(1,2) by auto
  ultimately show ?thesis by (simp add: yields_on_def)
qed

lemma unify_retrieval:
  fixes t ch :: "'v STreeId"
  shows "tree_ok t \<Longrightarrow> wf_query q \<Longrightarrow> yields_on (unify_flat t q B) t (\<lambda>p. unify_match p q B)"
    "tree_ok t \<Longrightarrow> wf_query q \<Longrightarrow> yields_on (skip_stored t n q B) t (\<lambda>p. unify_after n p q B)"
    "tree_ok ch \<Longrightarrow> wf_query q \<Longrightarrow> yields_on (unify_walk_edge e ch q B) ch (\<lambda>p. unify_match (e @ p) q B)"
    "tree_ok ch \<Longrightarrow> wf_query q \<Longrightarrow> yields_on (skip_walk_edge e ch n q B) ch (\<lambda>p. unify_after n (e @ p) q B)"
proof (induction t q B and t n q B and e ch q B and e ch n q B
    rule: unify_flat_skip_stored_unify_walk_edge_skip_walk_edge.induct)
  case (1 cs ls r q B)
  show ?case
  proof (cases "q = []")
    case True
    have "unify_match p [] B \<longleftrightarrow> p = []" for p by (cases p) auto
    then show ?thesis using True by (simp add: yields_on_def)
  next
    case False
    have "yields_on (collect (\<lambda>(c, e, ch). unify_walk_edge (c # e) ch q B) cs) (STree cs ls r) (\<lambda>p. unify_match p q B)"
    proof (rule node_yields)
      fix c e ch assume m: "(c, e, ch) \<in> set cs"
      show "yields_on (case (c, e, ch) of (c, e, ch) \<Rightarrow> unify_walk_edge (c # e) ch q B) ch (\<lambda>p. unify_match (c # e @ p) q B)"
        using "1.IH" [OF False m refl refl tree_ok_child [OF "1.prems"(1) m] "1.prems"(2)] by simp
    qed (use "1.prems" False in auto)
    then show ?thesis using False by simp
  qed
next
  case (2 cs ls r n q B)
  show ?case
  proof (cases "n = 0")
    case True
    then show ?thesis using "2.IH"(1) [OF True "2.prems"] by simp
  next
    case False
    have "yields_on (collect (\<lambda>(c, e, ch). skip_walk_edge (c # e) ch n q B) cs) (STree cs ls r) (\<lambda>p. unify_after n p q B)"
    proof (rule node_yields)
      fix c e ch assume m: "(c, e, ch) \<in> set cs"
      show "yields_on (case (c, e, ch) of (c, e, ch) \<Rightarrow> skip_walk_edge (c # e) ch n q B) ch (\<lambda>p. unify_after n (c # e @ p) q B)"
        using "2.IH"(2) [OF False m refl refl tree_ok_child [OF "2.prems"(1) m] "2.prems"(2)] by simp
    next
      fix p assume "unify_after n p q B"
      then show "p \<noteq> []" using False by (cases n) auto
    qed (use "2.prems" in simp)
    then show ?thesis using False by simp
  qed
next
  case (3 child q B)
  then show ?case by simp
next
  case (4 sc edge child B)
  show ?case by (simp add: yields_on_none)
next
  case (5 sf sn edge child qf qn q B)
  then show ?case using wf_query_Sym by (auto intro!: yields_on_none)
next
  case (6 sf sn edge child w q B)
  obtain q' where "skip_in_flat (CellVar w # q) = Some q'" "wf_query q'" using wf_query_skip [OF "6.prems"(2)] .
  then have "wf_query q" by (simp add: skip_in_flat_def)
  then show ?case using "6.IH" [OF "6.prems"(1)] by (simp add: unify_match_after del: unify_match.simps)
next
  case (7 v edge child qc q B)
  obtain q' where q': "skip_in_flat (qc # q) = Some q'" "wf_query q'" using wf_query_skip [OF "7.prems"(2)] .
  have skip: "(if is_var_cell qc then Some q else skip_in_flat (qc # q)) = Some q'"
    using q'(1) by (cases qc) (simp_all add: skip_in_flat_def)
  show ?case
  proof (cases "B v")
    case None
    then show ?thesis using "7.IH"(1) [OF skip refl None "7.prems"(1) q'(2)] q'(1) skip
      by (simp add: Let_def del: fun_upd_apply)
  next
    case (Some b)
    then show ?thesis using "7.IH"(2) [OF skip refl Some _ "7.prems"(1) q'(2)] q'(1) skip
      by (auto simp: Let_def simp del: if_split intro!: yields_on_none)
  qed
next
  case (8 edge child q B)
  then show ?case by simp
next
  case (9 child n q B)
  then show ?case by simp
next
  case (10 v edge child n q B)
  then show ?case by simp
next
  case (11 f m edge child n q B)
  then show ?case by simp
qed


section \<open>The index of terms\<close>

text \<open>
  \<open>indexes t C\<close>: the tree holds exactly the pairs of \<open>C\<close>, each under the flat form of its term, and
  the flag of the root is set when a variable is stored at the root.
\<close>

definition indexes :: "'v STreeId \<Rightarrow> (Term \<times> 'v) set \<Rightarrow> bool" where
  "indexes t C \<longleftrightarrow> tree_ok t \<and> (\<forall>p v. st_has t p v \<longleftrightarrow> (\<exists>s. (s, v) \<in> C \<and> p = flatten s)) \<and>
     (\<forall>v x. (Var v, x) \<in> C \<longrightarrow> has_var_root t)"

lemma flatten_not_Nil [simp]: "flatten t \<noteq> []"
  using flatten_cells [of t] by (metis cells_not_Nil)

lemma flatten_Var: "flatten (Var v) = [CellVar 0]"
  by (simp add: flatten_def flat_start_def flatten_var_def)

lemma flatten_App: "\<exists>q. flatten (App f ts) = CellSym f (of_nat (length ts)) # q"
  using flatten_cells [of "App f ts"] by (metis cells.simps(2))

lemma st_has_note [simp]: "st_has (note_root_cell fl t) p v = st_has t p v"
proof (cases t)
  case (STree cs ls r)
  then show ?thesis by (cases p) (auto simp: note_root_cell_def split: list.split)
qed

lemma tree_ok_note [simp]: "tree_ok (note_root_cell fl t) = tree_ok t"
  by (cases t) (auto simp: note_root_cell_def split: list.split)

lemma has_var_root_insert: "has_var_root (insert_flat p v t) = has_var_root t"
  by (cases t; cases p) (auto simp: Let_def split: option.split)

lemma indexes_new: "indexes st_new {}"
proof -
  have "\<not> st_has st_new p v" for p :: "Cell list" and v :: 'a by (rule st_has_empty) (simp add: st_is_empty_def st_new_def)
  then show ?thesis by (simp add: indexes_def st_new_def bt_ok_def)
qed

lemma indexes_insert_flat:
  assumes "indexes t C"
  shows "indexes (insert_flat (flatten s) v (note_root_cell (flatten s) t)) (insert (s, v) C)" (is "indexes ?t _")
proof -
  have "tree_ok ?t" using insert_flat_ok [of "note_root_cell (flatten s) t"] assms by (simp add: indexes_def)
  moreover have "st_has ?t p w \<longleftrightarrow> (\<exists>u. (u, w) \<in> insert (s, v) C \<and> p = flatten u)" for p w
    using assms by (auto simp: st_has_insert indexes_def)
  moreover have "has_var_root ?t" if "(Var x, w) \<in> insert (s, v) C" for x w
    using that assms
    by (cases t) (auto simp: indexes_def has_var_root_insert flatten_Var note_root_cell_def split: list.split)
  ultimately show ?thesis unfolding indexes_def by blast
qed

lemma indexes_insert:
  assumes "indexes t C" "to_legacy b i = Some s"
  shows "\<exists>t'. st_insert i b v t = Some t' \<and> indexes t' (insert (s, v) C)"
  using indexes_insert_flat [OF assms(1)] by (simp add: st_insert_def flatten_id_eq [OF assms(2)])

lemma has_var_root_remove: "remove_flat p v t = (removed, t') \<Longrightarrow> has_var_root t' = has_var_root t"
  by (cases t; cases p) (auto simp: Let_def split: option.splits if_splits prod.splits)

lemma indexes_remove_flat:
  assumes "indexes t C" "remove_flat (flatten s) v t = (removed, t')"
  shows "indexes t' {(u, w) \<in> C. \<not> (flatten u = flatten s \<and> w = v)} \<and>
    (removed \<longleftrightarrow> (\<exists>u. (u, v) \<in> C \<and> flatten u = flatten s))"
proof -
  have "tree_ok t" using assms(1) by (simp add: indexes_def)
  note rc = remove_flat_correct [OF this assms(2)]
  have has: "st_has t p w \<longleftrightarrow> (\<exists>u. (u, w) \<in> C \<and> p = flatten u)" for p w using assms(1) by (simp add: indexes_def)
  have "indexes t' {(u, w) \<in> C. \<not> (flatten u = flatten s \<and> w = v)}"
    unfolding indexes_def
  proof (intro conjI allI impI)
    show "tree_ok t'" using rc by blast
    show "st_has t' p w \<longleftrightarrow> (\<exists>u. (u, w) \<in> {(u, w) \<in> C. \<not> (flatten u = flatten s \<and> w = v)} \<and> p = flatten u)" for p w
      using rc has by auto
    show "(Var x, w) \<in> {(u, w) \<in> C. \<not> (flatten u = flatten s \<and> w = v)} \<Longrightarrow> has_var_root t'" for x w
      using assms(1) has_var_root_remove [OF assms(2)] by (auto simp: indexes_def)
  qed
  moreover have "removed \<longleftrightarrow> (\<exists>u. (u, v) \<in> C \<and> flatten u = flatten s)" using rc has by auto
  ultimately show ?thesis by blast
qed

lemma indexes_remove:
  assumes "indexes t C" "to_legacy b i = Some s"
  shows "\<exists>t' removed. st_remove i b v t = Some (removed, t') \<and> indexes t' {(u, w) \<in> C. \<not> (flatten u = flatten s \<and> w = v)} \<and>
    (removed \<longleftrightarrow> (\<exists>u. (u, v) \<in> C \<and> flatten u = flatten s))"
proof -
  obtain removed t' where r: "remove_flat (flatten s) v t = (removed, t')" by fastforce
  show ?thesis using indexes_remove_flat [OF assms(1) r] by (simp add: st_remove_def flatten_id_eq [OF assms(2)] r)
qed

lemma wf_query_flatten: "wf_query (flatten t)"
proof -
  obtain r where "flatten t = cells r t" by (rule flatten_cells)
  then show ?thesis unfolding wf_query_def by (intro exI [of _ r] exI [of _ "[t]"]) simp
qed

lemma root_dispatch:
  assumes "indexes t C" "to_legacy b i = Some u" "(s, v) \<in> C" "inst \<sigma> s = u" "narrow s"
  shows "can_generalize_root i b t = Some True"
proof -
  have has: "st_has t (flatten s) v" using assms(1,3) by (auto simp: indexes_def)
  obtain cs ls r where t: "t = STree cs ls r" by (cases t)
  obtain c q where q: "flatten s = c # q" by (cases "flatten s") auto
  have c: "map_of cs c \<noteq> None" using has t q by (auto split: option.splits)
  then have "cs \<noteq> []" by auto
  show ?thesis
  proof (cases s)
    case (Var x)
    then have "r" using assms(1,3) t by (auto simp: indexes_def)
    then show ?thesis using \<open>cs \<noteq> []\<close> t by (simp add: can_generalize_root_def)
  next
    case (App f ts)
    then have "c = CellSym f (of_nat (length ts))" using q flatten_App [of f ts] by auto
    moreover obtain args where "node_at b i = Some (NApp f args)" "length args = length ts"
      using assms(2,4) App by (auto simp: to_legacy_App mapM_Some_iff)
    ultimately show ?thesis using c t \<open>cs \<noteq> []\<close> by (simp add: can_generalize_root_def)
  qed
qed

lemma root_dispatch_total: "to_legacy b i = Some u \<Longrightarrow> \<exists>r. can_generalize_root i b t = Some r"
  by (cases u) (auto simp: can_generalize_root_def to_legacy_Var to_legacy_App)


section \<open>Properties\<close>

text \<open>
  C34. The substitution tree implements a set of pairs of a term and a value: the new tree holds the
  empty set, insertion adds a pair, and removal deletes the value from all terms that are equal to
  the given one up to the names of variables, and says whether there was any.
\<close>

theorem stree_refines_set:
  assumes "indexes t C" "to_legacy b i = Some s"
  shows "indexes st_new ({} :: (Term \<times> 'v) set) \<and>
    (\<exists>t'. st_insert i b v t = Some t' \<and> indexes t' (insert (s, v) C)) \<and>
    (\<exists>t' removed. st_remove i b v t = Some (removed, t') \<and>
       indexes t' {(u, w) \<in> C. \<not> (flatten u = flatten s \<and> w = v)} \<and>
       (removed \<longleftrightarrow> (\<exists>u. (u, v) \<in> C \<and> flatten u = flatten s)))"
  using indexes_new indexes_insert [OF assms] indexes_remove [OF assms] by blast

lemma small_index:
  obtains t where "indexes t {(App 2 [Var 7], 10 :: nat), (example_term, 11)}"
    "\<exists>t1. st_insert 3 example_bank 11 st_new = Some t1 \<and> st_insert 2 example_bank 10 t1 = Some t"
proof -
  have 2: "to_legacy example_bank 2 = Some (App 2 [Var 7])"
    by (simp add: to_legacy_node node_at_def example_bank_nodes)
  obtain t1 :: "nat STreeId" where t1: "st_insert 3 example_bank 11 st_new = Some t1" "indexes t1 {(example_term, 11)}"
    using indexes_insert [OF indexes_new example_ids(3), of 11] by auto
  obtain t where t: "st_insert 2 example_bank 10 t1 = Some t" "indexes t {(App 2 [Var 7], 10), (example_term, 11)}"
    using indexes_insert [OF t1(2) 2, of 10] by auto
  then show thesis using t1 that by blast
qed

theorem stree_refines_set_witness:
  "\<exists>t t' :: nat STreeId. indexes t {(App 2 [Var 7], 10), (example_term, 11)} \<and>
     st_remove 3 example_bank 12 t = Some (False, t')"
proof -
  obtain t :: "nat STreeId" where t: "indexes t {(App 2 [Var 7], 10), (example_term, 11)}" by (rule small_index)
  from stree_refines_set [OF t example_ids(3), of 12] show ?thesis using t by auto
qed

text \<open>Retrieval always returns, and returns stored values only, whatever the arities.\<close>

lemma generalizations_total:
  assumes "tree_ok t" "to_legacy b i = Some u"
  shows "\<exists>vs. st_get_generalizations i b t = Some vs \<and> (\<forall>v \<in> set vs. \<exists>p. st_has t p v)"
proof -
  obtain r where r: "can_generalize_root i b t = Some r" using root_dispatch_total [OF assms(2)] by blast
  from gen_retrieval(1) [OF assms(1) wf_query_flatten, of u Map.empty]
  obtain vs where "gen_flat t (flatten u) Map.empty = Some vs"
    "set vs = {v. \<exists>p. st_has t p v \<and> gen_match p (flatten u) Map.empty}" by (auto simp: yields_on_def)
  then show ?thesis using r flatten_id_eq [OF assms(2)] by (cases r) (auto simp: st_get_generalizations_def)
qed

text \<open>
  C35. Retrieval of generalisations is exact: for terms whose symbols have fewer than 256 arguments,
  \<open>get_generalizations\<close> returns, and its results are the values stored with a term of which the
  query is an instance; the dispatch on the root loses nothing.
\<close>

theorem generalizations_exact:
  assumes "indexes t C" "to_legacy b i = Some u" "narrow u" "\<forall>(s, v) \<in> C. narrow s"
  shows "\<exists>vs. st_get_generalizations i b t = Some vs \<and> set vs = {v. \<exists>s \<sigma>. (s, v) \<in> C \<and> inst \<sigma> s = u}"
proof -
  obtain r where r: "can_generalize_root i b t = Some r" using root_dispatch_total [OF assms(2)] by blast
  show ?thesis
  proof (cases r)
    case False
    then have "{v. \<exists>s \<sigma>. (s, v) \<in> C \<and> inst \<sigma> s = u} = {}" using root_dispatch [OF assms(1,2)] r assms(4) by fastforce
    then show ?thesis using r False by (simp add: st_get_generalizations_def)
  next
    case True
    have "tree_ok t" using assms(1) by (simp add: indexes_def)
    from gen_retrieval(1) [OF this wf_query_flatten, of u Map.empty]
    obtain vs where vs: "gen_flat t (flatten u) Map.empty = Some vs"
      "set vs = {v. \<exists>p. st_has t p v \<and> gen_match p (flatten u) Map.empty}" by (auto simp: yields_on_def)
    have "(\<exists>p. st_has t p v \<and> gen_match p (flatten u) Map.empty) \<longleftrightarrow> (\<exists>s. (s, v) \<in> C \<and> (\<exists>\<sigma>. inst \<sigma> s = u))" for v
    proof -
      have "gen_match (flatten s) (flatten u) Map.empty \<longleftrightarrow> (\<exists>\<sigma>. inst \<sigma> s = u)" if "(s, v) \<in> C" for s
        using assms(3,4) that by (intro flat_generalises) auto
      moreover have "st_has t p v \<longleftrightarrow> (\<exists>s. (s, v) \<in> C \<and> p = flatten s)" for p using assms(1) by (simp add: indexes_def)
      ultimately show ?thesis by auto
    qed
    then show ?thesis using vs r True by (simp add: st_get_generalizations_def flatten_id_eq [OF assms(2)])
  qed
qed

theorem generalizations_exact_witness:
  "\<exists>t vs. indexes t {(App 2 [Var 7], 10 :: nat), (example_term, 11)} \<and>
     st_get_generalizations 2 example_bank t = Some vs \<and> set vs = {10}"
proof -
  obtain t where t: "indexes t {(App 2 [Var 7], 10 :: nat), (example_term, 11)}" by (rule small_index)
  have 2: "to_legacy example_bank 2 = Some (App 2 [Var 7])"
    by (simp add: to_legacy_node node_at_def example_bank_nodes)
  have n: "\<forall>(s, v :: nat) \<in> {(App 2 [Var 7], 10), (example_term, 11)}. narrow s" "narrow (App 2 [Var 7])"
    by (simp_all add: example_term_def)
  have "{v. \<exists>s \<sigma>. (s, v) \<in> {(App 2 [Var 7], 10 :: nat), (example_term, 11)} \<and> inst \<sigma> s = App 2 [Var 7]} = {10}"
    by (auto simp: example_term_def intro!: exI [of _ Var])
  then show ?thesis using generalizations_exact [OF t 2 n(2,1)] t by auto
qed

text \<open>The cells of a query find every value stored with a term that unifies with it, and stored values only.\<close>

lemma unify_flat_complete:
  assumes "indexes t C" "narrow u" "\<forall>(s, v) \<in> C. narrow s"
  shows "\<exists>vs. unify_flat t (flatten u) Map.empty = Some vs \<and>
    {v. \<exists>s \<sigma> \<tau>. (s, v) \<in> C \<and> inst \<sigma> s = inst \<tau> u} \<subseteq> set vs \<and> set vs \<subseteq> snd ` C"
proof -
  have "tree_ok t" using assms(1) by (simp add: indexes_def)
  from unify_retrieval(1) [OF this wf_query_flatten, of u Map.empty]
  obtain vs where vs: "unify_flat t (flatten u) Map.empty = Some vs"
    "set vs = {v. \<exists>p. st_has t p v \<and> unify_match p (flatten u) Map.empty}" by (auto simp: yields_on_def)
  have "{v. \<exists>s \<sigma> \<tau>. (s, v) \<in> C \<and> inst \<sigma> s = inst \<tau> u} \<subseteq> set vs"
  proof
    fix v assume "v \<in> {v. \<exists>s \<sigma> \<tau>. (s, v) \<in> C \<and> inst \<sigma> s = inst \<tau> u}"
    then obtain s \<sigma> \<tau> where s: "(s, v) \<in> C" "inst \<sigma> s = inst \<tau> u" by blast
    then have "unify_match (flatten s) (flatten u) Map.empty" using assms(2,3) by (intro flat_unifies) auto
    then show "v \<in> set vs" using s(1) assms(1) unfolding vs(2) by (auto simp: indexes_def)
  qed
  moreover have "set vs \<subseteq> snd ` C"
  proof
    fix v assume "v \<in> set vs"
    then obtain p where "st_has t p v" unfolding vs(2) by blast
    then obtain s where "(s, v) \<in> C" using assms(1) unfolding indexes_def by blast
    then show "v \<in> snd ` C" by force
  qed
  ultimately show ?thesis using vs(1) by blast
qed

text \<open>
  C36. Retrieval of unification candidates misses nothing: for terms whose symbols have fewer than 256
  arguments, \<open>get_unifications\<close> returns, every value stored with a term that unifies with the query,
  apart from it, is among its results, and its results are stored values.
\<close>

theorem unifications_complete:
  assumes "indexes t C" "to_legacy b i = Some u" "narrow u" "\<forall>(s, v) \<in> C. narrow s"
  shows "\<exists>vs. st_get_unifications i b t = Some vs \<and>
    {v. \<exists>s \<sigma> \<tau>. (s, v) \<in> C \<and> inst \<sigma> s = inst \<tau> u} \<subseteq> set vs \<and> set vs \<subseteq> snd ` C"
  using unify_flat_complete [OF assms(1,3,4)] by (simp add: st_get_unifications_def flatten_id_eq [OF assms(2)])

theorem unifications_complete_witness:
  "\<exists>t vs. indexes t {(App 2 [Var 7], 10 :: nat), (example_term, 11)} \<and>
     st_get_unifications 1 example_bank t = Some vs \<and> set vs = {10, 11}"
proof -
  obtain t where t: "indexes t {(App 2 [Var 7], 10 :: nat), (example_term, 11)}" by (rule small_index)
  have n: "\<forall>(s, v :: nat) \<in> {(App 2 [Var 7], 10), (example_term, 11)}. narrow s" "narrow (Var 7)"
    by (simp_all add: example_term_def)
  have "inst Var (App 2 [Var 7]) = inst (Var(7 := App 2 [Var 7])) (Var 7)"
    "inst Var example_term = inst (Var(7 := example_term)) (Var 7)" by simp_all
  then have "{10, 11} \<subseteq> {v. \<exists>s \<sigma> \<tau>. (s, v) \<in> {(App 2 [Var 7], 10 :: nat), (example_term, 11)} \<and> inst \<sigma> s = inst \<tau> (Var 7)}"
    by blast
  then obtain vs where vs: "st_get_unifications 1 example_bank t = Some vs"
    "{10, 11} \<subseteq> set vs" "set vs \<subseteq> snd ` {(App 2 [Var 7], 10 :: nat), (example_term, 11)}"
    using unifications_complete [OF t example_ids(2) n(2,1)] subset_trans by (elim exE conjE) blast
  from vs(2,3) have "set vs = {10, 11}" unfolding image_insert snd_conv image_empty by (rule subset_antisym [rotated])
  then show ?thesis using t vs(1) by blast
qed

definition wide_pattern :: Term where
  "wide_pattern = App 1 [Var 0, App 2 []]"

definition wide_query :: Term where
  "wide_query = App 1 [App 3 (replicate 256 (App 2 [])), App 2 []]"

text \<open>
  C39. Arities are stored in eight bits: with a symbol of 256 arguments the tree takes its applications
  for constants, and \<open>get_generalizations\<close> misses a stored term of which the query is an instance.
\<close>

theorem wide_arity_missed:
  "\<exists>b i j t. to_legacy b i = Some wide_pattern \<and> to_legacy b j = Some wide_query \<and>
     (\<exists>\<sigma>. inst \<sigma> wide_pattern = wide_query) \<and>
     st_insert i b (0 :: nat) st_new = Some t \<and> st_get_generalizations j b t = Some []"
proof -
  have size: "term_size wide_pattern + term_size wide_query < 1000"
    by (simp add: wide_pattern_def wide_query_def sum_list_replicate)
  obtain i b1 j b where 1: "from_legacy wide_pattern new_bank = (i, b1)" "from_legacy wide_query b1 = (j, b)" by fastforce
  have "room new_bank (term_size wide_pattern + term_size wide_query)"
    using new_bank_ok size by (simp add: room_def new_bank_def)
  then have g: "room b1 (term_size wide_query + 0)" "to_legacy b1 i = Some wide_pattern"
    using from_legacy_room(1) 1(1) by (simp, blast)+
  then have b: "to_legacy b j = Some wide_query" "to_legacy b i = Some wide_pattern"
    using from_legacy_room(1) [OF g(1) 1(2)] extends_to_legacy by (auto simp: grows_def)
  have flat_p: "flatten wide_pattern = [CellSym 1 2, CellVar 0, CellSym 2 0]"
    by (simp add: flatten_def wide_pattern_def flat_start_def flatten_var_def flatten_sym_def)
  have pow: "(flatten_into (App 2 []) ^^ n) (c, m) = (c @ replicate n (CellSym 2 0), m)" for n c m
    by (induction n arbitrary: c) (simp_all add: flatten_sym_def replicate_append_same)
  have wraps: "(256 :: u8) = 0" by simp
  have flat_q: "flatten wide_query = [CellSym 1 2, CellSym 3 0] @ replicate 256 (CellSym 2 0) @ [CellSym 2 0]"
    by (simp add: flatten_def wide_query_def flat_start_def flatten_sym_def fold_replicate pow wraps del: flatten_into.simps(2)) (simp add: flatten_sym_def fold_replicate pow wraps)
  have "inst (Var(0 := App 3 (replicate 256 (App 2 [])))) wide_pattern = wide_query"
    by (simp add: wide_pattern_def wide_query_def)
  moreover have "st_insert i b (0 :: nat) st_new = Some (STree [(CellSym 1 2, [CellVar 0, CellSym 2 0], st_leaf 0)] [] False)"
    by (simp add: st_insert_def flatten_id_eq [OF b(2)] flat_p st_new_def note_root_cell_def)
  moreover obtain r where "can_generalize_root j b (STree [(CellSym 1 2, [CellVar 0, CellSym 2 0], st_leaf (0 :: nat))] [] False) = Some r"
    using root_dispatch_total [OF b(1)] by blast
  moreover have "gen_flat (STree [(CellSym 1 2, [CellVar 0, CellSym 2 0], st_leaf (0 :: nat))] [] False)
      (CellSym 1 2 # CellSym 3 0 # replicate 256 (CellSym 2 0) @ [CellSym 2 0]) Map.empty = Some []"
  proof -
    have "replicate 256 (CellSym 2 0) @ [CellSym 2 0] = CellSym 2 0 # CellSym 2 0 # replicate 255 (CellSym 2 0)"
      by (simp only: replicate_append_same replicate_Suc [symmetric]) simp
    then show ?thesis
      by (simp add: skip_in_flat_def bt_from_def less_eq_Cell_def collect_def st_leaf_def)
  qed
  ultimately show ?thesis using b flat_q
    by (intro exI conjI) (auto simp: st_get_generalizations_def flatten_id_eq [OF b(1)])
qed


end
