(* ===== verification/Rename.thy ===== *)
theory Rename
  imports BankTotal
begin

text \<open>
  Standardising clauses apart by adding an offset to every variable,
  \<open>crates/mrs-calculus/src/rename.rs\<close>. The functions on owned terms carry the names
  \<open>offset_*\<close>, those on identifiers \<open>offset_*_id\<close>; the additions wrap at 32 bits.
\<close>

definition clause_max_var :: "Clause \<Rightarrow> VarId" where
  "clause_max_var c = (let vs = clause_free_vars c in if vs = {} then 0 else Max vs + 1)"

definition clause_max_var_id :: "IdClause \<Rightarrow> TermBank \<Rightarrow> (VarId \<times> TermBank) option" where
  "clause_max_var_id c bank = do {
     (m, bank) \<leftarrow> max_var_clause c bank;
     Some (case m of None \<Rightarrow> 0 | Some v \<Rightarrow> v + 1, bank) }"

definition is_ground_id :: "IdClause \<Rightarrow> TermBank \<Rightarrow> (bool \<times> TermBank) option" where
  "is_ground_id c bank = do { (m, bank) \<leftarrow> max_var_clause c bank; Some (m = None, bank) }"

fun offset_term :: "Term \<Rightarrow> VarId \<Rightarrow> Term" where
  "offset_term (Var v) offset = Var (v + offset)"
| "offset_term (App f args) offset = App f (map (\<lambda>a. offset_term a offset) args)"

definition offset_literal :: "Literal \<Rightarrow> VarId \<Rightarrow> Literal" where
  "offset_literal lit offset = \<lparr>positive = positive lit, atom = (case atom lit of
       Pred p args \<Rightarrow> Pred p (map (\<lambda>a. offset_term a offset) args)
     | Eq l r \<Rightarrow> Eq (offset_term l offset) (offset_term r offset))\<rparr>"

definition rename_clause :: "Clause \<Rightarrow> VarId \<Rightarrow> Clause" where
  "rename_clause c offset =
     (if offset = 0 then c
      else new_avatar (clause_id c) (map (\<lambda>l. offset_literal l offset) (literals c)) (clause_source c) (avatar c))"

partial_function (option) offset_term_id :: "VarId \<Rightarrow> TermId \<Rightarrow> TermBank \<Rightarrow> (TermId \<times> TermBank) option" where
  "offset_term_id offset i bank = do {
     node \<leftarrow> node_at bank i;
     case node of
       NVar v \<Rightarrow> Some (intern_var (v + offset) bank)
     | NApp f args \<Rightarrow> do {
         (new_args, bank) \<leftarrow> mapM_st (offset_term_id offset) args bank;
         Some (intern_app f new_args bank) } }"

fun offset_atom_id :: "VarId \<Rightarrow> IdAtom \<Rightarrow> TermBank \<Rightarrow> (IdAtom \<times> TermBank) option" where
  "offset_atom_id offset (IdPred p args) bank = do {
     (new_args, bank) \<leftarrow> mapM_st (offset_term_id offset) args bank;
     Some (IdPred p new_args, bank) }"
| "offset_atom_id offset (IdEq l r) bank = do {
     (l, bank) \<leftarrow> offset_term_id offset l bank;
     (r, bank) \<leftarrow> offset_term_id offset r bank;
     Some (IdEq l r, bank) }"

definition offset_literal_id :: "VarId \<Rightarrow> IdLiteral \<Rightarrow> TermBank \<Rightarrow> (IdLiteral \<times> TermBank) option" where
  "offset_literal_id offset lit bank = do {
     (a, bank) \<leftarrow> offset_atom_id offset (id_atom lit) bank;
     Some (\<lparr>id_positive = id_positive lit, id_atom = a\<rparr>, bank) }"

definition rename_clause_id :: "IdClause \<Rightarrow> VarId \<Rightarrow> TermBank \<Rightarrow> (IdClause \<times> TermBank) option" where
  "rename_clause_id c offset bank =
     (if offset = 0 then Some (c, bank)
      else do {
        (lits, bank) \<leftarrow> mapM_st (offset_literal_id offset) (idc_literals c) bank;
        Some (id_new_avatar (idc_id c) lits (idc_source c) (idc_avatar c), bank) })"

section \<open>Renaming is substitution\<close>

abbreviation shifted :: "VarId \<Rightarrow> VarId \<Rightarrow> Term" where
  "shifted offset \<equiv> \<lambda>v. Var (v + offset)"

lemma offset_term_inst: "offset_term t k = inst (shifted k) t"
  by (induction t) simp_all

lemma offset_literal_inst: "offset_literal l k = inst_lit (shifted k) l"
  by (simp add: offset_literal_def inst_lit_def offset_term_inst split: Atom.split)

lemma inst_lit_Var [simp]: "inst_lit Var l = l"
proof -
  have "inst_atom Var a = a" for a by (cases a) (simp_all add: map_idI)
  then show ?thesis by (simp add: inst_lit_def)
qed

lemma rename_clause_lits: "literals (rename_clause c k) = map (inst_lit (shifted k)) (literals c)"
  by (auto simp: rename_clause_def new_avatar_def offset_literal_inst map_idI)

lemma offset_term_id_maps: "maps_to (offset_term_id k) (\<lambda>b. True) t (inst (shifted k) t)"
proof (induction t)
  case (Var v)
  show ?case unfolding maps_as_def
  proof (intro allI impI)
    fix b i assume "sane b" and i: "to_legacy b i = Some (Var v)"
    obtain j b' where j: "intern_var (v + k) b = (j, b')" by fastforce
    then have "offset_term_id k i b = Some (j, b')"
      using i by (subst offset_term_id.simps) (simp add: to_legacy_Var)
    then show "\<exists>j b'. offset_term_id k i b = Some (j, b') \<and> becomes b b' \<and> den b' j (inst (shifted k) (Var v))"
      using intern_var_becomes [OF \<open>sane b\<close> j] by simp
  qed
next
  case (App f ts)
  show ?case unfolding maps_as_def
  proof (intro allI impI)
    fix b i assume sane: "sane b" and "to_legacy b i = Some (App f ts)"
    then obtain args where args: "node_at b i = Some (NApp f args)" "mapM (to_legacy b) args = Some ts"
      by (auto simp: to_legacy_App)
    have st: "stable (\<lambda>b. True)" by (simp add: stable_def)
    have "\<forall>t \<in> set ts. maps_to (offset_term_id k) (\<lambda>b. True) t (inst (shifted k) t)" using App by blast
    from maps_to_list [OF st this TrueI sane args(2)] obtain js b1 where
      b1: "mapM_st (offset_term_id k) args b = Some (js, b1)" "becomes b b1"
      "list_all2 (den b1) js (map (inst (shifted k)) ts)" by blast
    obtain j b2 where j: "intern_app f js b1 = (j, b2)" by fastforce
    then have "offset_term_id k i b = Some (j, b2)"
      using args(1) b1(1) by (subst offset_term_id.simps) simp
    then show "\<exists>j b'. offset_term_id k i b = Some (j, b') \<and> becomes b b' \<and> den b' j (inst (shifted k) (App f ts))"
      using intern_app_becomes [OF becomes_sane [OF b1(2)] b1(3) j] becomes_trans [OF b1(2)] by auto
  qed
qed

lemma offset_atom_id_maps: "maps_as atom_to_legacy (offset_atom_id k) (\<lambda>b. True) A (inst_atom (shifted k) A)"
  unfolding maps_as_def
proof (intro allI impI)
  fix b and a :: IdAtom
  assume sane: "sane b" and a: "atom_to_legacy b a = Some A"
  have st: "stable (\<lambda>b. True)" by (simp add: stable_def)
  from a show "\<exists>j b'. offset_atom_id k a b = Some (j, b') \<and> becomes b b' \<and>
      means atom_to_legacy b' j (inst_atom (shifted k) A)"
  proof (cases rule: atom_to_legacy_cases)
    case (1 p args ts)
    have "\<forall>t \<in> set ts. maps_to (offset_term_id k) (\<lambda>b. True) t (inst (shifted k) t)"
      using offset_term_id_maps by blast
    from maps_to_list [OF st this TrueI sane 1(3)] show ?thesis
      using 1(1,2) by (auto intro: means_IdPred)
  next
    case (2 l r t u)
    obtain j b1 where 3: "offset_term_id k l b = Some (j, b1)" "becomes b b1" "den b1 j (inst (shifted k) t)"
      by (rule maps_asD [OF offset_term_id_maps TrueI sane 2(3)])
    obtain j' b2 where 4: "offset_term_id k r b1 = Some (j', b2)" "becomes b1 b2" "den b2 j' (inst (shifted k) u)"
      by (rule maps_asD [OF offset_term_id_maps TrueI becomes_sane [OF 3(2)]
          extends_to_legacy [OF becomes_extends [OF 3(2)] 2(4)]])
    show ?thesis using 2(1,2) 3(1) 4(1) becomes_trans [OF 3(2) 4(2)] den_becomes [OF 4(2) 3(3)] 4(3)
      by (auto intro: means_IdEq)
  qed
qed

lemma offset_literal_id_maps:
  "maps_as literal_to_legacy (offset_literal_id k) (\<lambda>b. True) L (inst_lit (shifted k) L)"
  unfolding maps_as_def
proof (intro allI impI)
  fix b and l :: IdLiteral
  assume sane: "sane b" and "literal_to_legacy b l = Some L"
  then have l: "id_positive l = positive L" "atom_to_legacy b (id_atom l) = Some (atom L)"
    by (simp_all add: literal_to_legacy_iff)
  obtain a b' where "offset_atom_id k (id_atom l) b = Some (a, b')" "becomes b b'"
    "means atom_to_legacy b' a (inst_atom (shifted k) (atom L))"
    by (rule maps_asD [OF offset_atom_id_maps TrueI sane l(2)])
  with l(1) show "\<exists>j b'. offset_literal_id k l b = Some (j, b') \<and> becomes b b' \<and>
      means literal_to_legacy b' j (inst_lit (shifted k) L)"
    by (simp add: offset_literal_id_def means_literal inst_lit_def)
qed

text \<open>The literals of a clause over identifiers, as owned literals.\<close>

abbreviation lits_of :: "TermBank \<Rightarrow> IdLiteral list \<Rightarrow> Literal list option" where
  "lits_of b ls \<equiv> mapM (literal_to_legacy b) ls"

abbreviation lits_mean :: "TermBank \<Rightarrow> IdLiteral list \<Rightarrow> Literal list \<Rightarrow> bool" where
  "lits_mean b ls Ls \<equiv> list_all2 (means literal_to_legacy b) ls Ls"

lemma rename_clause_id_maps:
  assumes "sane b" "lits_of b (idc_literals c) = Some Ls"
  obtains c' b' where "rename_clause_id c k b = Some (c', b')" "becomes b b'"
    "lits_mean b' (idc_literals c') (map (inst_lit (shifted k)) Ls)"
    "idc_id c' = idc_id c" "idc_source c' = idc_source c" "set (idc_avatar c') = set (idc_avatar c)"
proof (cases "k = 0")
  case True
  then show thesis using that [of c b] assms becomes_refl all_meansI [where d = literal_to_legacy, OF assms(2)]
    by (simp add: rename_clause_id_def map_idI)
next
  case False
  have "\<forall>L \<in> set Ls. maps_as literal_to_legacy (offset_literal_id k) (\<lambda>b. True) L (inst_lit (shifted k) L)"
    using offset_literal_id_maps by blast
  from maps_as_list [OF _ persistent_literal this TrueI assms] obtain ls b' where
    "mapM_st (offset_literal_id k) (idc_literals c) b = Some (ls, b')" "becomes b b'"
    "lits_mean b' ls (map (inst_lit (shifted k)) Ls)" by (auto simp: stable_def)
  then show thesis using that False by (simp add: rename_clause_id_def id_new_avatar_def id_new_clause_def)
qed

section \<open>The offset\<close>

definition lits_vars :: "Literal list \<Rightarrow> VarId set" where
  "lits_vars Ls = (\<Union>l \<in> set Ls. lvars l)"

lemma finite_lits_vars [simp]: "finite (lits_vars Ls)"
  by (simp add: lits_vars_def lvars_def)

lemma same_terms_becomes: "same_terms b b' \<Longrightarrow> sane b \<Longrightarrow> becomes b b'"
  using same_nodes_node_at [of b' b]
  by (simp add: same_terms_def becomes_def sane_def nodes_ok_def nodes_wf_def extends_def intact_def)

lemma max_var_list_eq:
  assumes "memo_ok b" "mapM (to_legacy b) args = Some ts"
  shows "\<exists>b'. max_var_list args None b = Some (max_opt (\<Union>t \<in> set ts. vars t), b') \<and> same_terms b b'"
proof -
  have hyp: "\<exists>b'. max_var (args ! n) b = Some (max_opt (vars (ts ! n)), b') \<and> same_terms b b'"
    if "n < length ts" "memo_ok b" "to_legacy b (args ! n) = Some (ts ! n)" for n b
    using max_var_eq that by blast
  have step: "max_step = (\<lambda>arg (best, bank). do { (r, bank) \<leftarrow> max_var arg bank; Some (best_of best r, bank) })"
    by (simp add: max_step_def fun_eq_iff split_def)
  have "\<exists>b'. foldM max_step args (max_opt {}, b) = Some (max_opt ({} \<union> (\<Union>t \<in> set ts. vars t)), b') \<and> same_terms b b'"
    by (rule max_fold [OF hyp assms(2,1) finite.emptyI])
  then show ?thesis unfolding max_var_list_def step [symmetric] max_opt_empty by simp
qed

lemma max_var_atom_eq:
  assumes "memo_ok b" "atom_to_legacy b a = Some A"
  shows "\<exists>b'. max_var_atom a b = Some (max_opt (avars A), b') \<and> same_terms b b'"
  using assms(2)
proof (cases rule: atom_to_legacy_cases)
  case (1 p args ts)
  then show ?thesis using max_var_list_eq [OF assms(1)] by simp
next
  case (2 l r t u)
  then show ?thesis using max_var_list_eq [OF assms(1), of "[l, r]" "[t, u]"] by simp
qed

lemma max_var_clause_eq:
  assumes "memo_ok b" "lits_of b (idc_literals c) = Some Ls"
  shows "\<exists>b'. max_var_clause c b = Some (max_opt (lits_vars Ls), b') \<and> same_terms b b'"
proof -
  let ?step = "\<lambda>l (best, bank). do { (r, bank) \<leftarrow> max_var_atom (id_atom l) bank; Some (best_of best r, bank) }"
  have "\<exists>b'. foldM ?step ls (max_opt V, b) = Some (max_opt (V \<union> lits_vars Ls), b') \<and> same_terms b b'"
    if "memo_ok b" "lits_of b ls = Some Ls" "finite V" for ls V
    using that
  proof (induction ls arbitrary: Ls V b)
    case Nil
    then show ?case by (simp add: lits_vars_def)
  next
    case (Cons l ls)
    then obtain L Ms where Ls: "Ls = L # Ms" "literal_to_legacy b l = Some L" "lits_of b ls = Some Ms"
      by (auto simp: bind_eq_Some_conv)
    obtain b1 where b1: "max_var_atom (id_atom l) b = Some (max_opt (lvars L), b1)" "same_terms b b1"
      using max_var_atom_eq [OF Cons.prems(1)] Ls(2) by (auto simp: literal_to_legacy_iff lvars_def)
    have "lits_of b1 ls = Some Ms"
      by (rule persistent_mapM [OF persistent_literal _ Ls(3)]) (use b1(2) in \<open>simp add: same_terms_def extends_def\<close>)
    moreover have "memo_ok b1" "finite (V \<union> lvars L)"
      using b1(2) Cons.prems(1,3) by (simp_all add: same_terms_def lvars_def)
    ultimately obtain b2 where b2: "foldM ?step ls (max_opt (V \<union> lvars L), b1) =
        Some (max_opt (V \<union> lvars L \<union> lits_vars Ms), b2)" "same_terms b1 b2"
      using Cons.IH by blast
    have "V \<union> lvars L \<union> lits_vars Ms = V \<union> lits_vars Ls" by (simp add: Ls(1) lits_vars_def Un_assoc)
    then show ?case using b1(1) b2 same_terms_trans [OF b1(2) b2(2)] Cons.prems(3)
      by (simp add: best_of_max_opt lvars_def)
  qed
  from this [OF assms, of "{}"] show ?thesis by (simp add: max_var_clause_def max_opt_empty)
qed

definition offset_for :: "Literal list \<Rightarrow> VarId" where
  "offset_for Ls = (if lits_vars Ls = {} then 0 else Max (lits_vars Ls) + 1)"

lemma clause_max_var_id_eq:
  assumes "sane b" "lits_of b (idc_literals c) = Some Ls"
  obtains b' where "clause_max_var_id c b = Some (offset_for Ls, b')" "becomes b b'"
  using max_var_clause_eq [OF _ assms(2)] assms(1) same_terms_becomes
  by (auto simp: clause_max_var_id_def sane_def offset_for_def max_opt_def)

lemma u32_less_plus1: "x \<noteq> - 1 \<Longrightarrow> x < x + 1" for x :: u32
proof -
  assume "x \<noteq> - 1"
  then have "unat x \<noteq> unat (- 1 :: u32)" using unsigned_word_eqI by blast
  then have "unat x \<noteq> 4294967295"
    by (simp add: unsigned_minus_1_eq_mask mask_eq_exp_minus_1)
  then have "unat x + 1 < 4294967296" using unat_u32_less [of x] by linarith
  then show ?thesis by (simp add: word_less_nat_alt unat_word_ariths)
qed

lemma offset_for_above:
  assumes "v \<in> lits_vars Ls" "lits_vars Ls \<subseteq> {..< - 1}"
  shows "v < offset_for Ls"
proof -
  have "v \<le> Max (lits_vars Ls)" using assms(1) by simp
  moreover have "Max (lits_vars Ls) \<in> lits_vars Ls" using assms(1) by (intro Max_in) auto
  then have "Max (lits_vars Ls) < - 1" using assms(2) by blast
  ultimately have "v < Max (lits_vars Ls) + 1"
    using u32_less_plus1 by (metis le_less_trans less_irrefl)
  then show ?thesis using assms(1) by (auto simp: offset_for_def)
qed

section \<open>Standardising apart\<close>

lemma lits_hold_inst:
  "lits_hold I \<rho> (map (inst_lit \<theta>) Ls) \<longleftrightarrow> lits_hold I (\<lambda>v. tval I \<rho> (\<theta> v)) Ls"
  by (simp add: lits_hold_def lval_inst)

lemma lits_valid_inst: "lits_valid I Ls \<Longrightarrow> lits_valid I (map (inst_lit \<theta>) Ls)"
  by (simp add: lits_valid_def lits_hold_inst)

lemma lits_valid_shifted: "lits_valid I (map (inst_lit (shifted k)) Ls) \<longleftrightarrow> lits_valid I Ls"
proof
  assume h: "lits_valid I (map (inst_lit (shifted k)) Ls)"
  have "lits_hold I \<rho> Ls" for \<rho>
    using h [unfolded lits_valid_def lits_hold_inst, rule_format, of "\<lambda>v. \<rho> (v - k)"] by simp
  then show "lits_valid I Ls" by (simp add: lits_valid_def)
qed (rule lits_valid_inst)

lemma lits_vars_shifted: "lits_vars (map (inst_lit (shifted k)) Ls) = (\<lambda>v. v + k) ` lits_vars Ls"
proof -
  have arg: "vars (inst (shifted k) t) = (\<lambda>v. v + k) ` vars t" for t
    by (auto simp: vars_inst)
  have "avars (inst_atom (shifted k) a) = (\<lambda>v. v + k) ` avars a" for a
    by (cases a) (simp_all add: arg image_UN image_Un)
  then show ?thesis by (simp add: lits_vars_def lvars_def inst_lit_def image_UN)
qed

lemma offset_apart:
  assumes "\<forall>v \<in> lits_vars Ls. \<forall>w \<in> lits_vars Ms. unat v + unat w + 1 < 2 ^ 32"
  shows "lits_vars Ls \<inter> lits_vars (map (inst_lit (shifted (offset_for Ls))) Ms) = {}"
proof -
  have "v \<noteq> w + offset_for Ls" if v: "v \<in> lits_vars Ls" and w: "w \<in> lits_vars Ms" for v w
  proof -
    let ?m = "Max (lits_vars Ls)"
    have m: "v \<le> ?m" "?m \<in> lits_vars Ls" using v by (auto intro: Max_in)
    then have "unat w + (unat ?m + 1) < 4294967296" using assms w by fastforce
    moreover have "offset_for Ls = ?m + 1" using v by (auto simp: offset_for_def)
    ultimately have "unat (w + offset_for Ls) = unat w + (unat ?m + 1)" by (simp add: unat_word_ariths)
    moreover have "unat v \<le> unat ?m" using m(1) by (simp add: word_le_nat_alt)
    ultimately show ?thesis by auto
  qed
  then show ?thesis by (auto simp: lits_vars_shifted)
qed

text \<open>
  C18. Standardising two clauses apart on identifiers (\<open>max_var_id\<close>, \<open>rename_clause_id\<close>) always
  returns. Unless the bank is full, the renamed clause has the same models as before, the first
  clause keeps its literals, and the two have no variable in common as long as no variable number
  overflows 32 bits.
\<close>

theorem rename_apart:
  assumes "bank_ok b" "lits_of b (idc_literals c1) = Some Ls" "lits_of b (idc_literals c2) = Some Ms"
    and "\<forall>v \<in> lits_vars Ls. \<forall>w \<in> lits_vars Ms. unat v + unat w + 1 < 2 ^ 32"
  shows "\<exists>k b1 c2' b2. clause_max_var_id c1 b = Some (k, b1) \<and> rename_clause_id c2 k b1 = Some (c2', b2) \<and>
    idc_id c2' = idc_id c2 \<and> idc_source c2' = idc_source c2 \<and> set (idc_avatar c2') = set (idc_avatar c2) \<and>
    (length (nodes b2) \<le> 2 ^ 32 \<longrightarrow> bank_ok b2 \<and> lits_of b2 (idc_literals c1) = Some Ls \<and>
      (\<exists>Ms'. lits_of b2 (idc_literals c2') = Some Ms' \<and> lits_vars Ls \<inter> lits_vars Ms' = {} \<and>
        (\<forall>I :: 'a interp. lits_valid I Ms' \<longleftrightarrow> lits_valid I Ms)))"
proof -
  obtain b1 where b1: "clause_max_var_id c1 b = Some (offset_for Ls, b1)" "becomes b b1"
    using clause_max_var_id_eq [OF bank_ok_sane [OF assms(1)] assms(2)] .
  have "lits_of b1 (idc_literals c2) = Some Ms"
    by (rule persistent_mapM [OF persistent_literal becomes_extends [OF b1(2)] assms(3)])
  from rename_clause_id_maps [OF becomes_sane [OF b1(2)] this, of "offset_for Ls"] obtain c2' b2 where
    r: "rename_clause_id c2 (offset_for Ls) b1 = Some (c2', b2)" "becomes b1 b2"
      "lits_mean b2 (idc_literals c2') (map (inst_lit (shifted (offset_for Ls))) Ms)"
      "idc_id c2' = idc_id c2" "idc_source c2' = idc_source c2" "set (idc_avatar c2') = set (idc_avatar c2)" .
  have "lits_of b2 (idc_literals c1) = Some Ls"
    using persistent_mapM [OF persistent_literal becomes_extends [OF becomes_trans [OF b1(2) r(2)]] assms(2)] .
  moreover have "bank_ok b2" "lits_of b2 (idc_literals c2') = Some (map (inst_lit (shifted (offset_for Ls))) Ms)"
    if "intact b2" using sane_bank_ok [OF becomes_sane [OF r(2)] that] all_means_intact [OF r(3) that] .
  ultimately show ?thesis
    using b1(1) r(1,4-6) offset_apart [OF assms(4)] lits_valid_shifted unfolding intact_def by blast
qed

text \<open>The clause \<open>p(f(X3, g(X7)), X7)\<close> in the example bank, against itself.\<close>

definition example_clause :: IdClause where
  "example_clause = id_new_clause 4 [\<lparr>id_positive = True, id_atom = IdPred 5 [3, 1]\<rparr>] (Input ''ex'' ''axiom'')"

definition example_lits :: "Literal list" where
  "example_lits = [\<lparr>positive = True, atom = Pred 5 [example_term, Var 7]\<rparr>]"

lemma example_clause_lits: "lits_of example_bank (idc_literals example_clause) = Some example_lits"
  by (simp add: example_clause_def example_lits_def id_new_clause_def literal_to_legacy_def example_ids)

lemma example_lits_vars: "lits_vars example_lits = {3, 7}"
  by (auto simp: lits_vars_def example_lits_def lvars_def example_term_def)

theorem rename_apart_witness:
  "\<exists>k b1 c2' b2. clause_max_var_id example_clause example_bank = Some (k, b1) \<and>
    rename_clause_id example_clause k b1 = Some (c2', b2) \<and>
    idc_id c2' = idc_id example_clause \<and> idc_source c2' = idc_source example_clause \<and>
    set (idc_avatar c2') = set (idc_avatar example_clause) \<and>
    (length (nodes b2) \<le> 2 ^ 32 \<longrightarrow> bank_ok b2 \<and> lits_of b2 (idc_literals example_clause) = Some example_lits \<and>
      (\<exists>Ms'. lits_of b2 (idc_literals c2') = Some Ms' \<and> lits_vars example_lits \<inter> lits_vars Ms' = {} \<and>
        (\<forall>I :: int interp. lits_valid I Ms' \<longleftrightarrow> lits_valid I example_lits)))"
  by (rule rename_apart [OF example_bank_ok example_clause_lits example_clause_lits])
    (simp add: example_lits_vars)

end
