(* ===== verification/Inference.thy ===== *)
theory Inference
  imports Rename
begin

text \<open>
  What the inference rules of \<open>crates/mrs-calculus\<close> share: the loops over literals with an early
  return, the literals of a conclusion, and the invariant of the list of conclusions.
\<close>

type_synonym infer = "IdClause list \<times> TermBank \<times> ClauseIdGen \<times> clock"

text \<open>
  \<open>for (k, lit) in literals.iter().enumerate() { if k != i { lits.push(mgu.apply_literal(lit)) } }\<close>,
  where \<open>skip\<close> holds the indices left out.
\<close>

definition apply_rest :: "IdSubstitution \<Rightarrow> nat set \<Rightarrow> IdLiteral list \<Rightarrow> IdLiteral list \<times> TermBank
    \<Rightarrow> (IdLiteral list \<times> TermBank) option" where
  "apply_rest s skip ls = foldM (\<lambda>(k, l) (acc, bank).
     if k \<in> skip then Some (acc, bank)
     else do { (l', bank) \<leftarrow> id_apply_literal s l bank; Some (acc @ [l'], bank) }) (enumerate 0 ls)"

text \<open>A \<open>return\<close> inside the loops leaves the state on the left.\<close>

definition finish :: "'s + 's \<Rightarrow> 's" where
  "finish r = (case r of Inl s \<Rightarrow> s | Inr s \<Rightarrow> s)"

lemma finish_simps [simp]: "finish (Inl s) = s" "finish (Inr s) = s"
  by (simp_all add: finish_def)

lemma try_each_inv:
  assumes "\<And>x s. x \<in> set xs \<Longrightarrow> Q s \<Longrightarrow> \<exists>r. f x s = Some r \<and> Q (finish r)"
  shows "Q s \<Longrightarrow> \<exists>r. try_each f xs s = Some r \<and> Q (finish r)"
  using assms
proof (induction xs arbitrary: s)
  case (Cons x xs)
  obtain r where r: "f x s = Some r" "Q (finish r)" using Cons.prems by auto
  show ?case
  proof (cases r)
    case (Inr s')
    then show ?thesis using Cons.IH [of s'] Cons.prems(2) r by auto
  qed (use r in auto)
qed simp

section \<open>The literals that remain\<close>

definition rest :: "nat set \<Rightarrow> 'a list \<Rightarrow> 'a list" where
  "rest skip xs = map snd (filter (\<lambda>p. fst p \<notin> skip) (enumerate 0 xs))"

lemma set_rest: "set (rest skip xs) = {xs ! k | k. k < length xs \<and> k \<notin> skip}"
  by (force simp: rest_def in_set_enumerate_eq image_def)

lemma lits_hold_rest:
  assumes "lits_hold I \<rho> Ls"
  obtains i where "i \<in> skip" "i < length Ls" "lval I \<rho> (Ls ! i)" | "lits_hold I \<rho> (rest skip Ls)"
proof -
  obtain k where "k < length Ls" "lval I \<rho> (Ls ! k)" using assms by (auto simp: lits_hold_def in_set_conv_nth)
  then show thesis using that unfolding lits_hold_def set_rest by (cases "k \<in> skip") auto
qed

lemma apply_rest_eq:
  assumes r: "ranked m r" and th: "closure m \<theta>"
    and e: "expands s m b" and sane: "sane b" and ls: "lits_of b ls = Some Ls" and acc: "lits_mean b acc Ms"
  obtains acc' b' where "apply_rest s skip ls (acc, b) = Some (acc', b')" "becomes b b'"
    "lits_mean b' acc' (Ms @ map (inst_lit \<theta>) (rest skip Ls))"
proof -
  let ?step = "\<lambda>(k, l) (acc, bank). if k \<in> skip then Some (acc, bank)
     else do { (l', bank) \<leftarrow> id_apply_literal s l bank; Some (acc @ [l'], bank) }"
  let ?rest = "\<lambda>n Ls. map snd (filter (\<lambda>p. fst p \<notin> skip) (enumerate n Ls))"
  have "\<exists>acc' b'. foldM ?step (enumerate n ls) (acc, b) = Some (acc', b') \<and> becomes b b' \<and>
      lits_mean b' acc' (Ms @ map (inst_lit \<theta>) (?rest n Ls))" for n
    using e sane ls acc
  proof (induction ls arbitrary: n b Ls acc Ms)
    case Nil
    then show ?case by (simp add: becomes_refl)
  next
    case (Cons l ls)
    then obtain L Ls' where Ls: "Ls = L # Ls'" "literal_to_legacy b l = Some L" "lits_of b ls = Some Ls'"
      by (auto simp: bind_eq_Some_conv)
    show ?case
    proof (cases "n \<in> skip")
      case True
      then show ?thesis using Cons.IH [OF Cons.prems(1,2) Ls(3) Cons.prems(4)] Ls(1) by simp
    next
      case False
      obtain l' b1 where b1: "id_apply_literal s l b = Some (l', b1)" "becomes b b1"
        "means literal_to_legacy b1 l' (inst_lit \<theta> L)"
        by (rule maps_asD [OF id_apply_literal_maps [OF r th] Cons.prems(1,2) Ls(2)])
      have "expands s m b1"
        using Cons.prems(1) becomes_extends [OF b1(2)] expands_stable unfolding stable_def by blast
      moreover have "lits_of b1 ls = Some Ls'"
        by (rule persistent_mapM [OF persistent_literal becomes_extends [OF b1(2)] Ls(3)])
      moreover have "lits_mean b1 (acc @ [l']) (Ms @ [inst_lit \<theta> L])"
        using all_means_becomes [OF persistent_literal b1(2) Cons.prems(4)] b1(3)
        by (intro list_all2_appendI) auto
      ultimately obtain acc' b' where "foldM ?step (enumerate (Suc n) ls) (acc @ [l'], b1) = Some (acc', b')"
        "becomes b1 b'" "lits_mean b' acc' ((Ms @ [inst_lit \<theta> L]) @ map (inst_lit \<theta>) (?rest (Suc n) Ls'))"
        using Cons.IH becomes_sane [OF b1(2)] by blast
      then show ?thesis using False b1(1) becomes_trans [OF b1(2)] Ls(1) by (auto intro!: exI [of _ acc'] exI [of _ b'])
    qed
  qed
  from this [of 0] show thesis using that unfolding apply_rest_def rest_def by blast
qed

section \<open>The list of conclusions\<close>

text \<open>Identifiers are taken from the generator one after the other.\<close>

definition numbered :: "ClauseIdGen \<Rightarrow> IdClause list \<Rightarrow> ClauseIdGen \<Rightarrow> bool" where
  "numbered g0 cs g \<longleftrightarrow> next_clause g = next_clause g0 + of_nat (length cs) \<and>
     (\<forall>n < length cs. idc_id (cs ! n) = next_clause g0 + of_nat n)"

text \<open>
  \<open>concluded P b cs\<close>: every clause has readable literals, which satisfy \<open>P\<close> unless the bank is
  full.
\<close>

definition concluded :: "(IdClause \<Rightarrow> Literal list \<Rightarrow> bool) \<Rightarrow> TermBank \<Rightarrow> IdClause list \<Rightarrow> bool" where
  "concluded P b cs \<longleftrightarrow> (\<forall>c \<in> set cs. \<exists>Ls. lits_of b (idc_literals c) = Some Ls \<and> (intact b \<longrightarrow> P c Ls))"

definition infer_inv :: "(IdClause \<Rightarrow> Literal list \<Rightarrow> bool) \<Rightarrow> TermBank \<Rightarrow> ClauseIdGen \<Rightarrow> infer \<Rightarrow> bool" where
  "infer_inv P b0 g0 st \<longleftrightarrow> (case st of (cs, b, g, clk) \<Rightarrow>
     becomes b0 b \<and> concluded P b cs \<and> numbered g0 cs g)"

lemma concluded_becomes: "concluded P b cs \<Longrightarrow> becomes b b' \<Longrightarrow> concluded P b' cs"
  unfolding concluded_def using persistent_mapM [OF persistent_literal] becomes_extends becomes_intact by metis

lemma infer_inv_start: "sane b \<Longrightarrow> infer_inv P b g ([], b, g, clk)"
  by (simp add: infer_inv_def becomes_refl concluded_def numbered_def)

lemma infer_inv_clock: "infer_inv P b0 g0 (cs, b, g, clk) \<Longrightarrow> infer_inv P b0 g0 (cs, b, g, clk')"
  by (simp add: infer_inv_def)

lemma infer_inv_bank: "infer_inv P b0 g0 (cs, b, g, clk) \<Longrightarrow> becomes b b' \<Longrightarrow> infer_inv P b0 g0 (cs, b', g, clk')"
  by (auto simp: infer_inv_def intro: becomes_trans concluded_becomes)

lemma infer_inv_push:
  assumes "infer_inv P b0 g0 (cs, b, g, clk)" "becomes b b'" "lits_mean b' (idc_literals c) Ls"
    and "intact b' \<Longrightarrow> P c Ls" "next_id g = (idc_id c, g')"
  shows "infer_inv P b0 g0 (cs @ [c], b', g', clk')"
proof -
  obtain Ms where "lits_of b' (idc_literals c) = Some Ms" "intact b' \<longrightarrow> Ms = Ls"
    by (rule all_means_exact [OF assms(3)])
  then have "concluded P b' (cs @ [c])"
    using assms(1,2,4) concluded_becomes by (fastforce simp: concluded_def infer_inv_def)
  moreover have "numbered g0 (cs @ [c]) g'"
    using assms(1,5) by (auto simp: infer_inv_def numbered_def next_id_def nth_append less_Suc_eq)
  ultimately show ?thesis using assms(1,2) by (auto simp: infer_inv_def intro: becomes_trans)
qed

text \<open>What a rule returns.\<close>

definition returns :: "(IdClause \<Rightarrow> Literal list \<Rightarrow> bool) \<Rightarrow> TermBank \<Rightarrow> ClauseIdGen \<Rightarrow> infer option \<Rightarrow> bool" where
  "returns P b g res \<longleftrightarrow> (\<exists>st. res = Some st \<and> infer_inv P b g st)"

lemma returns_finish:
  assumes "\<exists>r. loop = Some r \<and> infer_inv P b g (finish r)"
  shows "returns P b g (do { r \<leftarrow> loop; Some (finish r) })"
proof -
  obtain r where "loop = Some r" "infer_inv P b g (finish r)" using assms by blast
  then show ?thesis unfolding returns_def by (metis bind.bind_lunit)
qed

lemma infer_inv_base: "becomes b0 b1 \<Longrightarrow> infer_inv P b1 g st \<Longrightarrow> infer_inv P b0 g st"
  by (auto simp: infer_inv_def intro: becomes_trans)

text \<open>
  \<open>derives R parents prems c Ls\<close>: the clause names its parents and carries their assertions, and
  its literals hold in every structure that satisfies the premises and what its rule assumes.
\<close>

definition derives :: "(string \<Rightarrow> 'a interp \<Rightarrow> bool) \<Rightarrow> IdClause list \<Rightarrow> Literal list list
    \<Rightarrow> IdClause \<Rightarrow> Literal list \<Rightarrow> bool" where
  "derives R parents prems c Ls \<longleftrightarrow> (\<exists>rule. idc_source c = Inference rule (map idc_id parents) \<and>
     set (idc_avatar c) = (\<Union>p \<in> set parents. set (idc_avatar p)) \<and>
     (\<forall>I :: 'a interp. R rule I \<longrightarrow> (\<forall>Ms \<in> set prems. lits_valid I Ms) \<longrightarrow> lits_valid I Ls))"

lemma lits_nth:
  assumes "lits_of b ls = Some Ls" "(i, l) \<in> set (enumerate 0 ls)"
  shows "i < length Ls \<and> id_positive l = positive (Ls ! i) \<and> atom_to_legacy b (id_atom l) = Some (atom (Ls ! i))"
  using assms by (auto simp: in_set_enumerate_eq mapM_Some_iff literal_to_legacy_iff)

section \<open>Unifiers\<close>

text \<open>A unifier in a bank, with the ideal substitution it stands for.\<close>

definition stands_for :: "TermBank \<Rightarrow> IdSubstitution \<Rightarrow> (VarId \<Rightarrow> Term) \<Rightarrow> bool" where
  "stands_for b s \<theta> \<longleftrightarrow> (\<exists>r. ranked (bound b s) r) \<and> closure (bound b s) \<theta> \<and> subst_ok b s"

lemma stands_for_rest:
  assumes "stands_for b0 s \<theta>" "becomes b0 b" "sane b" "lits_of b ls = Some Ls" "lits_mean b acc Ms"
  obtains acc' b' where "apply_rest s skip ls (acc, b) = Some (acc', b')" "becomes b b'"
    "lits_mean b' acc' (Ms @ map (inst_lit \<theta>) (rest skip Ls))"
proof -
  obtain r where r: "ranked (bound b0 s) r" "closure (bound b0 s) \<theta>" "subst_ok b0 s"
    using assms(1) by (auto simp: stands_for_def)
  have "expands s (bound b0 s) b"
    using r(3) becomes_extends [OF assms(2)] expands_stable [of s "bound b0 s"]
    unfolding stable_def expands_def by blast
  from apply_rest_eq [OF r(1,2) this assms(3-5)] that show thesis by blast
qed

lemma unify_id_stands:
  assumes "sane b" "to_legacy b i = Some t" "to_legacy b j = Some u"
  obtains e where "unify_id i j b = Some (Inl e)"
  | s \<theta> where "unify_id i j b = Some (Inr s)" "stands_for b s \<theta>" "inst \<theta> t = inst \<theta> u"
proof -
  obtain x where x: "unify_id i j b = Some x" "case x of Inl e \<Rightarrow> \<forall>\<sigma>. inst \<sigma> t \<noteq> inst \<sigma> u | Inr s \<Rightarrow> mgu_result b t u s"
    using unify_id_result [OF sane_wf [OF assms(1)] assms(2,3)] by blast
  show thesis
  proof (cases x)
    case (Inr s)
    then obtain r \<theta> where "ranked (bound b s) r" "closure (bound b s) \<theta>" "subst_ok b s" "inst \<theta> t = inst \<theta> u"
      using x(2) by (auto simp: mgu_result_def)
    then show thesis using that(2) [of s \<theta>] x(1) Inr by (auto simp: stands_for_def)
  qed (use that(1) x(1) in blast)
qed

text \<open>A conclusion from one parent: the literals in \<open>acc\<close> and the instances of the remaining ones.\<close>

lemma single_pushed:
  assumes inv: "infer_inv (derives R [c] [Ls]) b0 g0 (cs, b, g, clk)" and b': "becomes b b'"
    and ls: "lits_of b0 (idc_literals c) = Some Ls" and st: "stands_for b1 s \<theta>" "becomes b1 b'"
    and acc: "lits_mean b' acc Ms"
    and sound: "\<And>I. intact b' \<Longrightarrow> R rule I \<Longrightarrow> lits_valid I Ls \<Longrightarrow> lits_valid I (Ms @ map (inst_lit \<theta>) (rest skip Ls))"
    and c': "\<And>lits. idc_literals (c' lits) = lits" "\<And>lits. idc_id (c' lits) = fst (next_id g)"
      "\<And>lits. idc_source (c' lits) = Inference rule [idc_id c]" "\<And>lits. set (idc_avatar (c' lits)) = set (idc_avatar c)"
  obtains lits b2 where "apply_rest s skip (idc_literals c) (acc, b') = Some (lits, b2)"
    "infer_inv (derives R [c] [Ls]) b0 g0 (cs @ [c' lits], b2, snd (next_id g), clk')"
proof -
  have b0: "becomes b0 b'" using inv b' by (auto simp: infer_inv_def intro: becomes_trans)
  have "sane b'" using b' becomes_sane by blast
  obtain lits b2 where 1: "apply_rest s skip (idc_literals c) (acc, b') = Some (lits, b2)" "becomes b' b2"
    "lits_mean b2 lits (Ms @ map (inst_lit \<theta>) (rest skip Ls))"
    by (rule stands_for_rest [OF st \<open>sane b'\<close> persistent_mapM [OF persistent_literal becomes_extends [OF b0] ls] acc])
  have "derives R [c] [Ls] (c' lits) (Ms @ map (inst_lit \<theta>) (rest skip Ls))" if "intact b2"
    using sound becomes_intact [OF 1(2) that] by (simp add: derives_def c')
  then have "infer_inv (derives R [c] [Ls]) b0 g0 (cs @ [c' lits], b2, snd (next_id g), clk')"
    using 1(3) by (intro infer_inv_push [OF inv becomes_trans [OF b' 1(2)], where Ls = "Ms @ map (inst_lit \<theta>) (rest skip Ls)"])
      (simp_all add: c')
  then show thesis using that 1(1) by blast
qed

end
