(* ===== verification/Resolution.thy ===== *)
theory Resolution
  imports Inference
begin

text \<open>
  Binary resolution, \<open>crates/mrs-calculus/src/resolution.rs\<close>, on owned clauses and on clauses
  over identifiers. A resolvent on identifiers is a consequence of its parents, modulo the
  associativity and commutativity that the rule name \<open>ac_resolution\<close> announces.
\<close>

fun atom_to_term :: "Atom \<Rightarrow> Term option" where
  "atom_to_term (Pred p args) = Some (App p args)"
| "atom_to_term (Eq l r) = None"

fun atom_to_term_id :: "IdAtom \<Rightarrow> TermBank \<Rightarrow> TermId option \<times> TermBank" where
  "atom_to_term_id (IdPred p args) bank = (let (i, bank) = intern_app p args bank in (Some i, bank))"
| "atom_to_term_id (IdEq l r) bank = (None, bank)"

definition selected :: "nat list option \<Rightarrow> nat \<Rightarrow> bool" where
  "selected sel i \<longleftrightarrow> (case sel of None \<Rightarrow> True | Some s \<Rightarrow> i \<in> set s)"

definition parent_node :: "ProofNodeId option \<Rightarrow> ClauseId \<Rightarrow> ProofNodeId" where
  "parent_node p i = (case p of Some n \<Rightarrow> n | None \<Rightarrow> i)"

section \<open>Owned clauses\<close>

definition resolve_pair :: "Clause \<Rightarrow> Clause \<Rightarrow> Clause \<Rightarrow> VarId \<Rightarrow> SymbolId set \<Rightarrow> nat list option
    \<Rightarrow> nat \<times> Literal \<Rightarrow> nat \<times> Literal \<Rightarrow> Clause list \<times> ClauseIdGen \<Rightarrow> (Clause list \<times> ClauseIdGen) option" where
  "resolve_pair c1 c2 c2r offset comm sel2 = (\<lambda>(i, l1) (j, l2) (resolvents, gen).
     if \<not> selected sel2 j \<or> positive l1 = positive l2 then Some (resolvents, gen)
     else case (atom_to_term (atom l1), atom_to_term (atom l2)) of
       (Some t1, Some t2) \<Rightarrow> do {
         r \<leftarrow> unify t1 t2;
         found \<leftarrow> (case r of
             Inr mgu \<Rightarrow> Some (Some (mgu, False))
           | Inl e \<Rightarrow> do {
               r \<leftarrow> unify_comm comm t1 t2;
               Some (case r of Inr mgu \<Rightarrow> Some (mgu, True) | Inl e \<Rightarrow> None) });
         case found of
           None \<Rightarrow> Some (resolvents, gen)
         | Some (mgu, used_ac) \<Rightarrow>
             let lits = map (apply_literal mgu) (rest {i} (literals c1)) @ map (apply_literal mgu) (rest {j} (literals c2r));
                 (cid, gen) = next_id gen;
                 resolvent = (new_avatar cid lits
                   (Inference (if used_ac then ''ac_resolution'' else ''resolution'') [clause_id c1, clause_id c2])
                   (avatar c1 @ avatar c2))\<lparr>witness := Some (ProofWitness.Resolution
                     (parent_node (proof_id c1) (clause_id c1)) (parent_node (proof_id c2) (clause_id c2))
                     i j offset (Some mgu))\<rparr>
             in Some (resolvents @ [resolvent], gen) }
     | _ \<Rightarrow> Some (resolvents, gen))"

definition resolve_selected :: "Clause \<Rightarrow> Clause \<Rightarrow> ClauseIdGen \<Rightarrow> nat list option \<Rightarrow> nat list option
    \<Rightarrow> SymbolId set \<Rightarrow> (Clause list \<times> ClauseIdGen) option" where
  "resolve_selected c1 c2 gen sel1 sel2 comm =
     (let offset = clause_max_var c1; c2r = rename_clause c2 offset
      in foldM (\<lambda>(i, l1) st.
           if \<not> selected sel1 i then Some st
           else foldM (resolve_pair c1 c2 c2r offset comm sel2 (i, l1)) (enumerate 0 (literals c2r)) st)
         (enumerate 0 (literals c1)) ([], gen))"

definition resolve_clauses :: "Clause \<Rightarrow> Clause \<Rightarrow> ClauseIdGen \<Rightarrow> (Clause list \<times> ClauseIdGen) option" where
  "resolve_clauses c1 c2 gen = resolve_selected c1 c2 gen None None {}"

section \<open>Clauses over identifiers\<close>

definition resolve_pair_id :: "IdClause \<Rightarrow> IdClause \<Rightarrow> IdClause \<Rightarrow> VarId \<Rightarrow> SymbolId set \<Rightarrow> SymbolId set
    \<Rightarrow> nat list option \<Rightarrow> nat \<times> IdLiteral \<Rightarrow> nat \<times> IdLiteral \<Rightarrow> infer \<Rightarrow> (infer + infer) option" where
  "resolve_pair_id c1 c2 c2r offset comm assoc sel2 = (\<lambda>(i, l1) (j, l2) (resolvents, bank, gen, clk).
     if expired clk then Some (Inl (resolvents, bank, gen, tl clk))
     else if \<not> selected sel2 j \<or> id_positive l1 = id_positive l2 then Some (Inr (resolvents, bank, gen, tl clk))
     else case atom_to_term_id (id_atom l1) bank of
       (None, bank) \<Rightarrow> Some (Inr (resolvents, bank, gen, tl clk))
     | (Some t1, bank) \<Rightarrow> (case atom_to_term_id (id_atom l2) bank of
         (None, bank) \<Rightarrow> Some (Inr (resolvents, bank, gen, tl clk))
       | (Some t2, bank) \<Rightarrow> do {
           r \<leftarrow> unify_id t1 t2 bank;
           found \<leftarrow> (case r of
               Inr mgu \<Rightarrow> Some (Some (mgu, False))
             | Inl e \<Rightarrow> do {
                 r \<leftarrow> unify_ac_id t1 t2 bank comm assoc;
                 Some (case r of Inr mgu \<Rightarrow> Some (mgu, True) | Inl e \<Rightarrow> None) });
           case found of
             None \<Rightarrow> Some (Inr (resolvents, bank, gen, tl clk))
           | Some (mgu, used_ac) \<Rightarrow> do {
               (lits, bank) \<leftarrow> apply_rest mgu {i} (idc_literals c1) ([], bank);
               (lits, bank) \<leftarrow> apply_rest mgu {j} (idc_literals c2r) (lits, bank);
               let (cid, gen) = next_id gen;
                   resolvent = (id_new_avatar cid lits
                     (Inference (if used_ac then ''ac_resolution'' else ''resolution'') [idc_id c1, idc_id c2])
                     (idc_avatar c1 @ idc_avatar c2))\<lparr>idc_witness := Some (ProofWitness.Resolution
                       (parent_node (idc_proof_id c1) (idc_id c1)) (parent_node (idc_proof_id c2) (idc_id c2))
                       i j offset None)\<rparr>
               in Some (Inr (resolvents @ [resolvent], bank, gen, tl clk)) } }))"

definition resolve_left_id :: "IdClause \<Rightarrow> IdClause \<Rightarrow> IdClause \<Rightarrow> VarId \<Rightarrow> SymbolId set \<Rightarrow> SymbolId set
    \<Rightarrow> nat list option \<Rightarrow> nat list option \<Rightarrow> nat \<times> IdLiteral \<Rightarrow> infer \<Rightarrow> (infer + infer) option" where
  "resolve_left_id c1 c2 c2r offset comm assoc sel1 sel2 = (\<lambda>(i, l1) (resolvents, bank, gen, clk).
     if expired clk then Some (Inl (resolvents, bank, gen, tl clk))
     else if \<not> selected sel1 i then Some (Inr (resolvents, bank, gen, tl clk))
     else try_each (resolve_pair_id c1 c2 c2r offset comm assoc sel2 (i, l1)) (enumerate 0 (idc_literals c2r))
            (resolvents, bank, gen, tl clk))"

definition resolve_selected_id_until :: "IdClause \<Rightarrow> IdClause \<Rightarrow> TermBank \<Rightarrow> ClauseIdGen \<Rightarrow> nat list option
    \<Rightarrow> nat list option \<Rightarrow> SymbolId set \<Rightarrow> SymbolId set \<Rightarrow> clock \<Rightarrow> infer option" where
  "resolve_selected_id_until c1 c2 bank gen sel1 sel2 comm assoc deadline = do {
     (offset, bank) \<leftarrow> clause_max_var_id c1 bank;
     (c2r, bank) \<leftarrow> rename_clause_id c2 offset bank;
     r \<leftarrow> try_each (resolve_left_id c1 c2 c2r offset comm assoc sel1 sel2) (enumerate 0 (idc_literals c1))
       ([], bank, gen, deadline);
     Some (finish r) }"

definition resolve_selected_id :: "IdClause \<Rightarrow> IdClause \<Rightarrow> TermBank \<Rightarrow> ClauseIdGen \<Rightarrow> nat list option
    \<Rightarrow> nat list option \<Rightarrow> SymbolId set \<Rightarrow> SymbolId set \<Rightarrow> infer option" where
  "resolve_selected_id c1 c2 bank gen sel1 sel2 comm assoc =
     resolve_selected_id_until c1 c2 bank gen sel1 sel2 comm assoc []"

definition resolve_id :: "IdClause \<Rightarrow> IdClause \<Rightarrow> TermBank \<Rightarrow> ClauseIdGen \<Rightarrow> SymbolId set \<Rightarrow> SymbolId set
    \<Rightarrow> infer option" where
  "resolve_id c1 c2 bank gen comm assoc = resolve_selected_id c1 c2 bank gen None None comm assoc"

section \<open>Atoms as terms\<close>

lemma atom_to_term_id_becomes:
  assumes "sane b" "atom_to_legacy b a = Some A"
  obtains b' where "atom_to_term_id a b = (None, b')" "becomes b b'"
  | i p ts t b' where "atom_to_term_id a b = (Some i, b')" "becomes b b'" "A = Pred p ts"
      "to_legacy b' i = Some t" "intact b' \<longrightarrow> t = App p ts"
  using assms(2)
proof (cases rule: atom_to_legacy_cases)
  case (1 p args ts)
  obtain i b' where i: "intern_app p args b = (i, b')" by fastforce
  from intern_app_becomes [OF assms(1) all_meansI [where d = to_legacy, OF 1(3)] i]
  have b': "becomes b b'" "den b' i (App p ts)" by blast+
  then show thesis using that(2) [of i b' p ts] i 1 by (auto simp: means_def)
next
  case (2 l r t u)
  then show thesis using that(1) [of b] becomes_refl [OF assms(1)] by simp
qed

text \<open>
  A predicate symbol shares its number space with the functions. Reading an application of it as
  the list of its arguments gives a structure in which a unifier of the terms unifies the atoms.
\<close>

definition reading_atoms :: "'a interp \<Rightarrow> SymbolId \<Rightarrow> ('a \<times> 'a list option) interp" where
  "reading_atoms I p = \<lparr>ifun = \<lambda>f xs. (ifun I f (map fst xs), if f = p then Some (map fst xs) else None),
     ipred = \<lambda>q xs. True\<rparr>"

lemma ifun_reading: "ifun (reading_atoms I p) f xs =
    (ifun I f (map fst xs), if f = p then Some (map fst xs) else None)"
  by (simp add: reading_atoms_def)

lemma fst_reading: "fst (tval (reading_atoms I p) \<rho> t) = tval I (\<lambda>v. fst (\<rho> v)) t"
proof (induction t)
  case (App f ts)
  then have "map (fst \<circ> tval (reading_atoms I p) \<rho>) ts = map (tval I (\<lambda>v. fst (\<rho> v))) ts" by simp
  then show ?case by (simp only: tval.simps ifun_reading map_map fst_conv)
qed simp

lemma reading_App:
  "tval (reading_atoms I p) \<rho> (App q ts) =
     (tval I (\<lambda>v. fst (\<rho> v)) (App q ts), if q = p then Some (map (tval I (\<lambda>v. fst (\<rho> v))) ts) else None)"
proof -
  have "map (fst \<circ> tval (reading_atoms I p) \<rho>) ts = map (tval I (\<lambda>v. fst (\<rho> v))) ts"
    by (simp add: fst_reading)
  then show ?thesis by (simp only: tval.simps ifun_reading map_map)
qed

lemma ac_reading: "ac_interp I C A \<Longrightarrow> p \<notin> C \<union> A \<Longrightarrow> ac_interp (reading_atoms I p) C A"
  by (auto simp: ac_interp_def comm_interp_def ifun_reading)

lemma reading_atoms_same:
  assumes "\<And>\<rho>. tval (reading_atoms I p) \<rho> (App p ts) = tval (reading_atoms I p) \<rho> (App q us)"
  shows "aval I \<rho> (Pred p ts) \<longleftrightarrow> aval I \<rho> (Pred q us)"
  using assms [of "\<lambda>v. (\<rho> v, None)"] by (simp add: reading_App del: tval.simps split: if_splits)

section \<open>Soundness\<close>

text \<open>Clauses that use the associative and commutative symbols as binary function symbols.\<close>

definition ac_lit :: "SymbolId set \<Rightarrow> SymbolId set \<Rightarrow> Literal \<Rightarrow> bool" where
  "ac_lit C A l \<longleftrightarrow> (case atom l of
     Pred p ts \<Rightarrow> p \<notin> C \<union> A \<and> (\<forall>t \<in> set ts. binary A t)
   | Eq l r \<Rightarrow> binary A l \<and> binary A r)"

lemma binary_shifted [simp]: "binary A (inst (shifted k) t) = binary A t"
  by (induction t) auto

lemma ac_lit_shifted [simp]: "ac_lit C A (inst_lit (shifted k) l) = ac_lit C A l"
  by (auto simp: ac_lit_def inst_lit_def split: Atom.split)

text \<open>A resolvent follows from the clauses it was made from.\<close>

lemma resolvent_holds:
  assumes "lits_valid I Ls" "lits_valid I Ms" "i < length Ls" "j < length Ms"
    and "positive (Ls ! i) \<noteq> positive (Ms ! j)"
    and "\<And>\<rho>. aval I \<rho> (inst_atom \<theta> (atom (Ls ! i))) \<longleftrightarrow> aval I \<rho> (inst_atom \<theta> (atom (Ms ! j)))"
  shows "lits_valid I (map (inst_lit \<theta>) (rest {i} Ls) @ map (inst_lit \<theta>) (rest {j} Ms))"
  unfolding lits_valid_def
proof
  fix \<rho>
  let ?\<rho> = "\<lambda>v. tval I \<rho> (\<theta> v)"
  have "lits_hold I ?\<rho> Ls" "lits_hold I ?\<rho> Ms" using assms(1,2) by (simp_all add: lits_valid_def)
  moreover have "\<not> (lval I ?\<rho> (Ls ! i) \<and> lval I ?\<rho> (Ms ! j))"
    using assms(5) assms(6) [of \<rho>] by (auto simp: lval_def aval_inst)
  ultimately have "lits_hold I ?\<rho> (rest {i} Ls) \<or> lits_hold I ?\<rho> (rest {j} Ms)"
    by (metis lits_hold_rest singletonD)
  then show "lits_hold I \<rho> (map (inst_lit \<theta>) (rest {i} Ls) @ map (inst_lit \<theta>) (rest {j} Ms))"
    by (simp add: lits_hold_inst)
qed

text \<open>
  The rule \<open>ac_resolution\<close> assumes that the declared symbols are associative and commutative, and that
  the literals of the parents use them as binary function symbols.
\<close>

definition resolution_in :: "SymbolId set \<Rightarrow> SymbolId set \<Rightarrow> Literal set \<Rightarrow> string \<Rightarrow> 'a interp \<Rightarrow> bool" where
  "resolution_in C A S rule I \<longleftrightarrow> (rule = ''ac_resolution'' \<longrightarrow> ac_interp I C A \<and> (\<forall>l \<in> S. ac_lit C A l))"

lemma resolvent_pushed:
  fixes c1 c2 and R :: "string \<Rightarrow> 'a interp \<Rightarrow> bool" and pl pr off
  defines "resolvent lits cid rule i j \<equiv> (id_new_avatar cid lits (Inference rule [idc_id c1, idc_id c2])
      (idc_avatar c1 @ idc_avatar c2))\<lparr>idc_witness := Some (ProofWitness.Resolution pl pr i j off None)\<rparr>"
  assumes inv: "infer_inv (derives R [c1, c2] [Ls, Ms0]) b0 g0 (cs, b, g, clk)" and b': "becomes b b'"
    and ls: "lits_of b0 (idc_literals c1) = Some Ls" "lits_of b0 (idc_literals c2r) = Some Ms"
    and st: "stands_for b' s \<theta>"
    and sound: "\<And>I. intact b' \<Longrightarrow> R rule I \<Longrightarrow> lits_valid I Ls \<Longrightarrow> lits_valid I Ms0 \<Longrightarrow>
      lits_valid I (map (inst_lit \<theta>) (rest {i} Ls) @ map (inst_lit \<theta>) (rest {j} Ms))"
  obtains ms b1 lits b2 where "apply_rest s {i} (idc_literals c1) ([], b') = Some (ms, b1)"
    "apply_rest s {j} (idc_literals c2r) (ms, b1) = Some (lits, b2)"
    "infer_inv (derives R [c1, c2] [Ls, Ms0]) b0 g0
       (cs @ [resolvent lits (fst (next_id g)) rule i j], b2, snd (next_id g), clk')"
proof -
  have b0: "becomes b0 b'" using inv b' by (auto simp: infer_inv_def intro: becomes_trans)
  have "sane b'" using b' becomes_sane by blast
  obtain ms b1 where 1: "apply_rest s {i} (idc_literals c1) ([], b') = Some (ms, b1)" "becomes b' b1"
    "lits_mean b1 ms ([] @ map (inst_lit \<theta>) (rest {i} Ls))"
    by (rule stands_for_rest [OF st becomes_refl [OF \<open>sane b'\<close>] \<open>sane b'\<close>
        persistent_mapM [OF persistent_literal becomes_extends [OF b0] ls(1)] list_all2_Nil [THEN iffD2, OF refl]])
  obtain lits b2 where 2: "apply_rest s {j} (idc_literals c2r) (ms, b1) = Some (lits, b2)" "becomes b1 b2"
    "lits_mean b2 lits (([] @ map (inst_lit \<theta>) (rest {i} Ls)) @ map (inst_lit \<theta>) (rest {j} Ms))"
    by (rule stands_for_rest [OF st 1(2) becomes_sane [OF 1(2)]
        persistent_mapM [OF persistent_literal becomes_extends [OF becomes_trans [OF b0 1(2)]] ls(2)] 1(3)])
  have b2: "becomes b b2" using becomes_trans [OF b' becomes_trans [OF 1(2) 2(2)]] .
  have "intact b'" if "intact b2" using that becomes_intact [OF becomes_trans [OF 1(2) 2(2)]] by blast
  then have "derives R [c1, c2] [Ls, Ms0] (resolvent lits (fst (next_id g)) rule i j)
      (([] @ map (inst_lit \<theta>) (rest {i} Ls)) @ map (inst_lit \<theta>) (rest {j} Ms))" if "intact b2"
    using sound that by (auto simp: derives_def resolvent_def id_new_avatar_def)
  then have "infer_inv (derives R [c1, c2] [Ls, Ms0]) b0 g0
      (cs @ [resolvent lits (fst (next_id g)) rule i j], b2, snd (next_id g), clk')"
    using 2(3) by (intro infer_inv_push [OF inv b2, where Ls = "([] @ map (inst_lit \<theta>) (rest {i} Ls)) @ map (inst_lit \<theta>) (rest {j} Ms)"])
      (simp_all add: resolvent_def id_new_avatar_def)
  then show thesis using that 1(1) 2(1) by blast
qed

text \<open>What the loops need to know of the two clauses in the bank they start from.\<close>

definition resolvable :: "'a itself \<Rightarrow> SymbolId set \<Rightarrow> SymbolId set \<Rightarrow> TermBank \<Rightarrow> IdLiteral list \<Rightarrow> IdLiteral list
    \<Rightarrow> Literal list \<Rightarrow> Literal list \<Rightarrow> Literal list \<Rightarrow> bool" where
  "resolvable TY C A b ls ms Ls Ms Ms0 \<longleftrightarrow> lits_of b ls = Some Ls \<and> lits_of b ms = Some Ms \<and>
     (intact b \<longrightarrow> ((\<forall>l \<in> set Ms0. ac_lit C A l) \<longrightarrow> (\<forall>l \<in> set Ms. ac_lit C A l)) \<and> (\<forall>I :: 'a interp. lits_valid I Ms0 \<longrightarrow> lits_valid I Ms))"

lemma resolve_pair_id_inv:
  fixes C A Ls Ms0
  defines "R \<equiv> resolution_in C A (set Ls \<union> set Ms0) :: string \<Rightarrow> 'a interp \<Rightarrow> bool"
  assumes lits: "resolvable TYPE('a) C A b0 (idc_literals c1) (idc_literals c2r) Ls Ms Ms0"
    and i: "(i, l1) \<in> set (enumerate 0 (idc_literals c1))" and j: "(j, l2) \<in> set (enumerate 0 (idc_literals c2r))"
    and inv: "infer_inv (derives R [c1, c2] [Ls, Ms0]) b0 g0 st"
  shows "\<exists>r. resolve_pair_id c1 c2 c2r off C A sel2 (i, l1) (j, l2) st = Some r \<and>
    infer_inv (derives R [c1, c2] [Ls, Ms0]) b0 g0 (finish r)"
proof -
  obtain cs b g clk where st: "st = (cs, b, g, clk)" by (cases st) auto
  note inv = inv [unfolded st]
  have ls: "lits_of b0 (idc_literals c1) = Some Ls" "lits_of b0 (idc_literals c2r) = Some Ms"
    using lits by (simp_all add: resolvable_def)
  have b0: "becomes b0 b" "sane b" using inv by (auto simp: infer_inv_def becomes_sane)
  show ?thesis
  proof (cases "expired clk \<or> \<not> selected sel2 j \<or> id_positive l1 = id_positive l2")
    case True
    then show ?thesis using infer_inv_clock [OF inv] by (auto simp: st resolve_pair_id_def)
  next
    case go: False
    have li: "i < length Ls" "id_positive l1 = positive (Ls ! i)" "atom_to_legacy b (id_atom l1) = Some (atom (Ls ! i))"
      using lits_nth [OF persistent_mapM [OF persistent_literal becomes_extends [OF b0(1)] ls(1)] i] by blast+
    have lj: "j < length Ms" "id_positive l2 = positive (Ms ! j)" "atom_to_legacy b (id_atom l2) = Some (atom (Ms ! j))"
      using lits_nth [OF persistent_mapM [OF persistent_literal becomes_extends [OF b0(1)] ls(2)] j] by blast+
    show ?thesis
    proof (rule atom_to_term_id_becomes [OF b0(2) li(3)])
      fix b1 assume b1: "atom_to_term_id (id_atom l1) b = (None, b1)" "becomes b b1"
      then show ?thesis using go infer_inv_bank [OF inv b1(2)] by (simp add: st resolve_pair_id_def)
    next
      fix t1 p ts T1 b1 assume b1: "atom_to_term_id (id_atom l1) b = (Some t1, b1)" "becomes b b1"
        "atom (Ls ! i) = Pred p ts" "to_legacy b1 t1 = Some T1" "intact b1 \<longrightarrow> T1 = App p ts"
      have lj1: "atom_to_legacy b1 (id_atom l2) = Some (atom (Ms ! j))"
        using persistent_atom becomes_extends [OF b1(2)] lj(3) unfolding persistent_def by blast
      show ?thesis
      proof (rule atom_to_term_id_becomes [OF becomes_sane [OF b1(2)] lj1])
        fix b2 assume b2: "atom_to_term_id (id_atom l2) b1 = (None, b2)" "becomes b1 b2"
        then show ?thesis using go b1(1) infer_inv_bank [OF inv becomes_trans [OF b1(2) b2(2)]]
          by (simp add: st resolve_pair_id_def)
      next
        fix t2 q us T2 b2 assume b2: "atom_to_term_id (id_atom l2) b1 = (Some t2, b2)" "becomes b1 b2"
          "atom (Ms ! j) = Pred q us" "to_legacy b2 t2 = Some T2" "intact b2 \<longrightarrow> T2 = App q us"
        have bb: "becomes b b2" using becomes_trans [OF b1(2) b2(2)] .
        have T1: "to_legacy b2 t1 = Some T1" using extends_to_legacy [OF becomes_extends [OF b2(2)] b1(4)] .
        have exact: "T1 = App p ts \<and> T2 = App q us" if "intact b2"
          using b1(5) b2(5) becomes_intact [OF b2(2) that] that by blast
        have intact: "intact b0" if "intact b2" using becomes_intact [OF becomes_trans [OF b0(1) bb] that] .
        have valid: "lits_valid I Ms" if "intact b2" "lits_valid I Ms0" for I :: "'a interp"
          using lits intact [OF that(1)] that(2) by (auto simp: resolvable_def)
        have ac: "p \<notin> C \<union> A" "binary A (App p ts)" "binary A (App q us)"
          if "intact b2" "\<forall>l \<in> set Ls \<union> set Ms0. ac_lit C A l"
        proof -
          have "ac_lit C A (Ls ! i)" "ac_lit C A (Ms ! j)"
            using lits li(1) lj(1) intact [OF that(1)] that(2) by (auto simp: resolvable_def)
          then show "p \<notin> C \<union> A" "binary A (App p ts)" "binary A (App q us)"
            by (auto simp: ac_lit_def b1(3) b2(3))
        qed
        have sound: "lits_valid I (map (inst_lit \<theta>) (rest {i} Ls) @ map (inst_lit \<theta>) (rest {j} Ms))"
          if "intact b2" "lits_valid I Ls" "lits_valid I Ms0"
            "\<And>\<rho>. aval I \<rho> (Pred p (map (inst \<theta>) ts)) \<longleftrightarrow> aval I \<rho> (Pred q (map (inst \<theta>) us))" for I :: "'a interp" and \<theta>
          using resolvent_holds [OF that(2) valid [OF that(1,3)] li(1) lj(1), of \<theta>] go li(2) lj(2) that(4)
          by (simp add: b1(3) b2(3) del: aval.simps)
        have push: ?thesis if found: "unify_id t1 t2 b2 = Some x" "case x of Inr mgu \<Rightarrow> mgu = s \<and> \<not> used
              | Inl e \<Rightarrow> unify_ac_id t1 t2 b2 C A = Some (Inr s) \<and> used"
          and st': "stands_for b2 s \<theta>"
          and same: "\<And>I \<rho>. intact b2 \<Longrightarrow> R (if used then ''ac_resolution'' else ''resolution'') I \<Longrightarrow>
            aval I \<rho> (Pred p (map (inst \<theta>) ts)) \<longleftrightarrow> aval I \<rho> (Pred q (map (inst \<theta>) us))" for x s \<theta> used
        proof (rule resolvent_pushed [OF inv bb ls st', where i = i and j = j and off = off and clk' = "tl clk"
              and rule = "if used then ''ac_resolution'' else ''resolution''"
              and pl = "parent_node (idc_proof_id c1) (idc_id c1)" and pr = "parent_node (idc_proof_id c2) (idc_id c2)"])
          fix I assume "intact b2" "R (if used then ''ac_resolution'' else ''resolution'') I" "lits_valid I Ls" "lits_valid I Ms0"
          then show "lits_valid I (map (inst_lit \<theta>) (rest {i} Ls) @ map (inst_lit \<theta>) (rest {j} Ms))"
            using sound same by blast
        next
          fix ms b3 lits b4
          assume "apply_rest s {i} (idc_literals c1) ([], b2) = Some (ms, b3)"
            "apply_rest s {j} (idc_literals c2r) (ms, b3) = Some (lits, b4)"
            "infer_inv (derives R [c1, c2] [Ls, Ms0]) b0 g0 (cs @ [(id_new_avatar (fst (next_id g)) lits
               (Inference (if used then ''ac_resolution'' else ''resolution'') [idc_id c1, idc_id c2])
               (idc_avatar c1 @ idc_avatar c2))\<lparr>idc_witness := Some (ProofWitness.Resolution
               (parent_node (idc_proof_id c1) (idc_id c1)) (parent_node (idc_proof_id c2) (idc_id c2)) i j off None)\<rparr>],
               b4, snd (next_id g), tl clk)"
          then show ?thesis using go b1(1) b2(1) found
            by (cases x) (auto simp: st resolve_pair_id_def split_def Let_def)
        qed
        show ?thesis
        proof (rule unify_id_stands [OF becomes_sane [OF bb] T1 b2(4)])
          fix s \<theta> assume u: "unify_id t1 t2 b2 = Some (Inr s)" "stands_for b2 s \<theta>" "inst \<theta> T1 = inst \<theta> T2"
          show ?thesis
          proof (rule push [OF u(1) _ u(2), of False])
            fix I :: "'a interp" and \<rho> assume "intact b2"
            then have "p = q" "map (inst \<theta>) ts = map (inst \<theta>) us" using u(3) exact by auto
            then show "aval I \<rho> (Pred p (map (inst \<theta>) ts)) \<longleftrightarrow> aval I \<rho> (Pred q (map (inst \<theta>) us))" by (simp del: map_map map_eq_conv)
          qed simp
        next
          fix e assume u: "unify_id t1 t2 b2 = Some (Inl e)"
          obtain y where y: "unify_ac_id t1 t2 b2 C A = Some y"
            "case y of Inl e \<Rightarrow> True | Inr s \<Rightarrow> ac_unifier TYPE('a \<times> 'a list option) C A b2 T1 T2 s"
            using unify_ac_rigid_id_result [OF sane_wf [OF becomes_sane [OF bb]] T1 b2(4), of C A None "TYPE('a \<times> 'a list option)"]
            unfolding unify_ac_id_def by blast
          show ?thesis
          proof (cases y)
            case (Inl e')
            then show ?thesis using go b1(1) b2(1) u y(1) infer_inv_bank [OF inv bb, of "tl clk"]
              by (simp add: st resolve_pair_id_def)
          next
            case (Inr s)
            then obtain r \<theta> where s: "ranked (bound b2 s) r" "closure (bound b2 s) \<theta>" "subst_ok b2 s"
              "\<And>(I :: ('a \<times> 'a list option) interp) \<rho>. ac_interp I C A \<Longrightarrow> binary A T1 \<Longrightarrow> binary A T2 \<Longrightarrow>
                 tval I \<rho> (inst \<theta> T1) = tval I \<rho> (inst \<theta> T2)"
              using y(2) by (auto simp: ac_unifier_def)
            have "stands_for b2 s \<theta>" using s(1-3) by (auto simp: stands_for_def)
            then show ?thesis
            proof (rule push [OF u, of s True, rotated])
              fix I :: "'a interp" and \<rho> assume h: "intact b2" "R (if True then ''ac_resolution'' else ''resolution'') I"
              have "ac_interp I C A" and lits_ac: "\<forall>l \<in> set Ls \<union> set Ms0. ac_lit C A l"
                using h(2) unfolding R_def resolution_in_def by simp_all
              then have "ac_interp (reading_atoms I p) C A" using ac_reading ac(1) [OF h(1) lits_ac] by blast
              then show "aval I \<rho> (Pred p (map (inst \<theta>) ts)) \<longleftrightarrow> aval I \<rho> (Pred q (map (inst \<theta>) us))"
                using s(4) exact [OF h(1)] ac(2,3) [OF h(1) lits_ac] by (intro reading_atoms_same) (simp flip: inst.simps)
            qed (use y(1) Inr in simp)
          qed
        qed
      qed
    qed
  qed
qed

lemma resolve_left_id_inv:
  fixes C A Ls Ms0
  defines "R \<equiv> resolution_in C A (set Ls \<union> set Ms0) :: string \<Rightarrow> 'a interp \<Rightarrow> bool"
  assumes lits: "resolvable TYPE('a) C A b0 (idc_literals c1) (idc_literals c2r) Ls Ms Ms0"
    and i: "(i, l1) \<in> set (enumerate 0 (idc_literals c1))"
    and inv: "infer_inv (derives R [c1, c2] [Ls, Ms0]) b0 g0 st"
  shows "\<exists>r. resolve_left_id c1 c2 c2r off C A sel1 sel2 (i, l1) st = Some r \<and>
    infer_inv (derives R [c1, c2] [Ls, Ms0]) b0 g0 (finish r)"
proof -
  obtain cs b g clk where st: "st = (cs, b, g, clk)" by (cases st) auto
  have pair: "\<exists>r. resolve_pair_id c1 c2 c2r off C A sel2 (i, l1) jl st' = Some r \<and>
      infer_inv (derives R [c1, c2] [Ls, Ms0]) b0 g0 (finish r)"
    if "jl \<in> set (enumerate 0 (idc_literals c2r))" "infer_inv (derives R [c1, c2] [Ls, Ms0]) b0 g0 st'" for jl st'
    using resolve_pair_id_inv [OF lits i] that unfolding R_def by (cases jl) blast
  have "\<exists>r. try_each (resolve_pair_id c1 c2 c2r off C A sel2 (i, l1)) (enumerate 0 (idc_literals c2r)) (cs, b, g, tl clk) = Some r \<and>
      infer_inv (derives R [c1, c2] [Ls, Ms0]) b0 g0 (finish r)"
    using pair infer_inv_clock [OF inv [unfolded st]] by (rule try_each_inv)
  then show ?thesis using infer_inv_clock [OF inv [unfolded st]] by (simp add: st resolve_left_id_def)
qed

lemma resolve_selected_id_until_returns:
  fixes C A Ls Ms
  defines "R \<equiv> resolution_in C A (set Ls \<union> set Ms) :: string \<Rightarrow> 'a interp \<Rightarrow> bool"
  assumes sane: "sane b" and ls: "lits_of b (idc_literals c1) = Some Ls" and ms: "lits_of b (idc_literals c2) = Some Ms"
  shows "returns (derives R [c1, c2] [Ls, Ms]) b g (resolve_selected_id_until c1 c2 b g sel1 sel2 C A deadline)"
proof -
  obtain b1 where b1: "clause_max_var_id c1 b = Some (offset_for Ls, b1)" "becomes b b1"
    by (rule clause_max_var_id_eq [OF sane ls])
  let ?k = "offset_for Ls"
  obtain c2r b2 where b2: "rename_clause_id c2 ?k b1 = Some (c2r, b2)" "becomes b1 b2"
    "lits_mean b2 (idc_literals c2r) (map (inst_lit (shifted ?k)) Ms)"
    by (rule rename_clause_id_maps [OF becomes_sane [OF b1(2)]
        persistent_mapM [OF persistent_literal becomes_extends [OF b1(2)] ms]])
  obtain Ms' where Ms': "lits_of b2 (idc_literals c2r) = Some Ms'" "intact b2 \<longrightarrow> Ms' = map (inst_lit (shifted ?k)) Ms"
    by (rule all_means_exact [OF b2(3)])
  have bb: "becomes b b2" using becomes_trans [OF b1(2) b2(2)] .
  have lits: "resolvable TYPE('a) C A b2 (idc_literals c1) (idc_literals c2r) Ls Ms' Ms"
    using persistent_mapM [OF persistent_literal becomes_extends [OF bb] ls] Ms'
    by (auto simp: resolvable_def lits_valid_shifted)
  have "\<exists>r. try_each (resolve_left_id c1 c2 c2r ?k C A sel1 sel2) (enumerate 0 (idc_literals c1)) ([], b2, g, deadline) = Some r \<and>
      infer_inv (derives R [c1, c2] [Ls, Ms]) b2 g (finish r)"
  proof (rule try_each_inv)
    show "infer_inv (derives R [c1, c2] [Ls, Ms]) b2 g ([], b2, g, deadline)"
      by (rule infer_inv_start [OF becomes_sane [OF bb]])
    show "\<exists>r. resolve_left_id c1 c2 c2r ?k C A sel1 sel2 il st = Some r \<and>
        infer_inv (derives R [c1, c2] [Ls, Ms]) b2 g (finish r)"
      if "il \<in> set (enumerate 0 (idc_literals c1))" "infer_inv (derives R [c1, c2] [Ls, Ms]) b2 g st" for il st
      using resolve_left_id_inv [OF lits] that unfolding R_def by (cases il) blast
  qed
  then obtain r where r: "try_each (resolve_left_id c1 c2 c2r ?k C A sel1 sel2) (enumerate 0 (idc_literals c1)) ([], b2, g, deadline) = Some r"
      "infer_inv (derives R [c1, c2] [Ls, Ms]) b2 g (finish r)" by blast
  have "resolve_selected_id_until c1 c2 b g sel1 sel2 C A deadline = Some (finish r)"
    using b1(1) b2(1) r(1) by (simp add: resolve_selected_id_until_def)
  then show ?thesis using infer_inv_base [OF bb r(2)] by (auto simp: returns_def)
qed

text \<open>
  C3. Resolution on identifiers (\<open>resolve_selected_id_until\<close>) always returns, whatever the
  selection, the deadline and the size of the bank. Its resolvents carry consecutive fresh
  identifiers, name their two parents and collect their AVATAR assertions. Unless the bank is
  full, each resolvent of the rule \<open>resolution\<close> holds in every structure in which both parents hold. A
  resolvent of the rule \<open>ac_resolution\<close> does so in the structures in which the declared symbols are
  associative and commutative, provided that the literals of the parents apply every associative
  symbol to exactly two arguments and use no declared symbol as a predicate.
\<close>

theorem resolution_sound:
  assumes "bank_ok b" "lits_of b (idc_literals c1) = Some Ls" "lits_of b (idc_literals c2) = Some Ms"
  shows "\<exists>rs b' g' clk'. resolve_selected_id_until c1 c2 b g sel1 sel2 C A deadline = Some (rs, b', g', clk') \<and>
    next_clause g' = next_clause g + of_nat (length rs) \<and>
    (\<forall>n < length rs. idc_id (rs ! n) = next_clause g + of_nat n) \<and>
    (length (nodes b') \<le> 2 ^ 32 \<longrightarrow> bank_ok b' \<and>
      (\<forall>c \<in> set rs. \<exists>Rs rule. lits_of b' (idc_literals c) = Some Rs \<and>
         idc_source c = Inference rule [idc_id c1, idc_id c2] \<and>
         set (idc_avatar c) = set (idc_avatar c1) \<union> set (idc_avatar c2) \<and>
         (\<forall>I :: 'a interp. (rule = ''ac_resolution'' \<longrightarrow> ac_interp I C A \<and> (\<forall>l \<in> set Ls \<union> set Ms. ac_lit C A l)) \<longrightarrow>
            lits_valid I Ls \<longrightarrow> lits_valid I Ms \<longrightarrow> lits_valid I Rs)))"
proof -
  from resolve_selected_id_until_returns [OF bank_ok_sane [OF assms(1)] assms(2,3), where 'a = 'a and g = g and ?sel1.0 = sel1
      and ?sel2.0 = sel2 and deadline = deadline and C = C and A = A]
  obtain rs b' g' clk' where r: "resolve_selected_id_until c1 c2 b g sel1 sel2 C A deadline = Some (rs, b', g', clk')"
    "becomes b b'" "numbered g rs g'"
    "concluded (derives (resolution_in C A (set Ls \<union> set Ms) :: string \<Rightarrow> 'a interp \<Rightarrow> bool) [c1, c2] [Ls, Ms]) b' rs"
    by (auto simp: returns_def infer_inv_def)
  have "\<exists>Rs rule. lits_of b' (idc_literals c) = Some Rs \<and>
         idc_source c = Inference rule [idc_id c1, idc_id c2] \<and>
         set (idc_avatar c) = set (idc_avatar c1) \<union> set (idc_avatar c2) \<and>
         (\<forall>I :: 'a interp. (rule = ''ac_resolution'' \<longrightarrow> ac_interp I C A \<and> (\<forall>l \<in> set Ls \<union> set Ms. ac_lit C A l)) \<longrightarrow>
            lits_valid I Ls \<longrightarrow> lits_valid I Ms \<longrightarrow> lits_valid I Rs)" if "intact b'" "c \<in> set rs" for c
    using r(4) that unfolding concluded_def derives_def resolution_in_def by fastforce
  then show ?thesis using r(1,3) sane_bank_ok [OF becomes_sane [OF r(2)]]
    by (auto simp: numbered_def intact_def)
qed

text \<open>The clause \<open>\<not> p(X3, X7)\<close>, which resolves with the example clause.\<close>

definition example_goal :: IdClause where
  "example_goal = id_new_clause 5 [\<lparr>id_positive = False, id_atom = IdPred 5 [0, 1]\<rparr>] (Input ''goal'' ''negated_conjecture'')"

definition example_goal_lits :: "Literal list" where
  "example_goal_lits = [\<lparr>positive = False, atom = Pred 5 [Var 3, Var 7]\<rparr>]"

lemma example_goal_lits: "lits_of example_bank (idc_literals example_goal) = Some example_goal_lits"
  by (simp add: example_goal_def example_goal_lits_def id_new_clause_def literal_to_legacy_def example_ids)

theorem resolution_sound_witness:
  "\<exists>rs b' g' clk'. resolve_selected_id_until example_clause example_goal example_bank new_gen None (Some [0]) {9} {9} [False]
      = Some (rs, b', g', clk') \<and>
    next_clause g' = next_clause new_gen + of_nat (length rs) \<and>
    (length (nodes b') \<le> 2 ^ 32 \<longrightarrow>
      (\<forall>c \<in> set rs. \<exists>Rs. lits_of b' (idc_literals c) = Some Rs \<and>
         (\<forall>I :: int interp. ac_interp I {9} {9} \<longrightarrow>
            lits_valid I example_lits \<longrightarrow> lits_valid I example_goal_lits \<longrightarrow> lits_valid I Rs)))"
proof -
  have ac: "\<forall>l \<in> set example_lits \<union> set example_goal_lits. ac_lit {9} {9} l"
    by (simp add: example_lits_def example_goal_lits_def ac_lit_def example_term_def)
  from resolution_sound [OF example_bank_ok example_clause_lits example_goal_lits, where 'a = int and g = new_gen and ?sel1.0 = None
      and ?sel2.0 = "Some [0]" and C = "{9}" and A = "{9}" and deadline = "[False]"]
  show ?thesis using ac by (elim exE conjE) (intro exI conjI, assumption, assumption, metis)
qed

section \<open>Owned clauses with deep terms\<close>

definition tower :: "nat \<Rightarrow> Term" where
  "tower n = ((\<lambda>t. App 4 [t]) ^^ n) (Var 0)"

definition fact_clause :: Clause where
  "fact_clause = new_clause 0 [\<lparr>positive = True, atom = Pred 1 [App 2 []]\<rparr>] (Input ''c0'' ''axiom'')"

definition deep_rule :: "nat \<Rightarrow> Clause" where
  "deep_rule n = new_clause 1 [\<lparr>positive = False, atom = Pred 1 [Var 0]\<rparr>, \<lparr>positive = True, atom = Pred 3 [tower n]\<rparr>]
     (Input ''c1'' ''axiom'')"

lemma apply_term_tower: "500 < n \<Longrightarrow> apply_term s (tower n) = tower n"
  using apply_term_opt_deep [of 0 n s 4 0] by (simp add: apply_term_def tower_def)

lemma unify_fact: "unify (App 1 [App 2 []]) (App 1 [Var 0]) = Some (Inr (bind_var_to 0 (App 2 []) new_subst))"
proof -
  have new: "apply_term new_subst t = t" for t by (simp add: apply_term_def new_subst_def)
  have "bind_var 0 (App 2 []) new_subst = Inr (bind_var_to 0 (App 2 []) new_subst)"
    by (simp add: bind_var_def Let_def new contains_var_eq)
  then have "unify_rec (App 2 []) (Var 0) new_subst = Some (Inr (bind_var_to 0 (App 2 []) new_subst))"
    by (subst unify_rec.simps) (simp add: Let_def new)
  then show ?thesis unfolding unify_def by (subst unify_rec.simps) (simp add: Let_def new)
qed

lemma tval_tower: "(\<And>x. ifun I 4 [x] = x) \<Longrightarrow> tval I \<rho> (tower n) = \<rho> 0"
  unfolding tower_def by (induction n) simp_all

text \<open>
  C30. Resolution on owned clauses is unsound on deep terms: from \<open>p(a)\<close> and
  \<open>\<not> p(X) \<or> q(f(...f(X)...))\<close> with more than 500 \<open>f\<close> it concludes \<open>q(f(...f(X)...))\<close> for every
  \<open>X\<close>, because the application of the unifier stops at depth 500.
\<close>

theorem deep_resolvent_unsound:
  assumes "500 < n"
  shows "\<exists>r g. resolve_clauses fact_clause (deep_rule n) new_gen = Some ([r], g) \<and>
    literals r = [\<lparr>positive = True, atom = Pred 3 [tower n]\<rparr>] \<and>
    (\<exists>I :: bool interp. lits_valid I (literals fact_clause) \<and> lits_valid I (literals (deep_rule n)) \<and>
       \<not> lits_valid I (literals r))"
proof -
  have "clause_max_var fact_clause = 0"
    by (simp add: clause_max_var_def clause_free_vars_def fact_clause_def new_clause_def lit_collect_vars_def Let_def)
  then have "\<exists>r g. resolve_clauses fact_clause (deep_rule n) new_gen = Some ([r], g) \<and>
    literals r = [\<lparr>positive = True, atom = Pred 3 [tower n]\<rparr>]"
    by (simp add: resolve_clauses_def resolve_selected_def rename_clause_def fact_clause_def deep_rule_def
      new_clause_def resolve_pair_def selected_def unify_fact Let_def split_def rest_def new_avatar_def
      apply_literal_def apply_term_tower [OF assms])
  moreover let ?I = "\<lparr>ifun = \<lambda>f xs. xs = [] \<or> hd xs, ipred = \<lambda>p xs. hd xs\<rparr>"
  have "lits_valid ?I (literals fact_clause)" "lits_valid ?I (literals (deep_rule n))"
    "\<not> lits_valid ?I [\<lparr>positive = True, atom = Pred 3 [tower n]\<rparr>]"
    by (auto simp: lits_valid_def fact_clause_def deep_rule_def new_clause_def lval_def tval_tower)
  ultimately show ?thesis by metis
qed

theorem deep_resolvent_unsound_witness:
  "\<exists>r g. resolve_clauses fact_clause (deep_rule 501) new_gen = Some ([r], g) \<and>
    literals r = [\<lparr>positive = True, atom = Pred 3 [tower 501]\<rparr>] \<and>
    (\<exists>I :: bool interp. lits_valid I (literals fact_clause) \<and> lits_valid I (literals (deep_rule 501)) \<and>
       \<not> lits_valid I (literals r))"
  by (rule deep_resolvent_unsound) simp

end
