(* ===== verification/Subsumption.thy ===== *)
theory Subsumption
  imports Resolution Loops
begin

text \<open>
  Subsumption, condensation and subsumption resolution on owned clauses,
  \<open>crates/mrs-calculus/src/subsumption.rs\<close>. A matcher changes its substitution in place and
  answers whether it succeeded; its callers drop the substitution when it did not, so here it
  returns the substitution on success and \<open>None\<close> for \<open>false\<close>.
\<close>

section \<open>Applying a substitution\<close>

fun apply_subst_flat :: "Substitution \<Rightarrow> Term \<Rightarrow> Term" where
  "apply_subst_flat s (Var v) = (case lookup s v of Some t \<Rightarrow> t | None \<Rightarrow> Var v)"
| "apply_subst_flat s (App f args) = App f (map (apply_subst_flat s) args)"

text \<open>The loop of \<open>apply_subst_chain\<close> with its set of variables seen.\<close>

function chain_loop :: "Substitution \<Rightarrow> Term \<Rightarrow> VarId set \<Rightarrow> Term" where
  "chain_loop s (Var v) seen =
     (if v \<in> seen then Var v
      else case lookup s v of None \<Rightarrow> Var v | Some t \<Rightarrow> chain_loop s t (insert v seen))"
| "chain_loop s (App f args) seen = apply_subst_flat s (App f args)"
  by pat_completeness auto

termination
proof (relation "measure (\<lambda>(s, t, seen). card (fset (fmdom (bindings s)) - seen))", goal_cases)
  case (2 s v seen t)
  then have "v \<in> fset (fmdom (bindings s)) - seen" by (auto simp: lookup_def intro: fmdomI)
  moreover have "fset (fmdom (bindings s)) - insert v seen = (fset (fmdom (bindings s)) - seen) - {v}" by blast
  ultimately have "card (fset (fmdom (bindings s)) - insert v seen) < card (fset (fmdom (bindings s)) - seen)"
    by (simp only: card_Diff1_less finite_Diff finite_fset)
  then show ?case by simp
qed simp

definition apply_subst_chain :: "Substitution \<Rightarrow> Term \<Rightarrow> Term" where
  "apply_subst_chain s t = chain_loop s t {}"

section \<open>Matching\<close>

function match_single_term :: "VarId \<Rightarrow> Term \<Rightarrow> Term \<Rightarrow> Substitution \<Rightarrow> Substitution option" where
  "match_single_term min_bindable (Var v) target s =
     (case lookup s v of
        Some b \<Rightarrow> if b = target then Some s else None
      | None \<Rightarrow>
          if v < min_bindable then (if Var v = target then Some s else None)
          else let resolved = apply_subst_chain s target in
            if resolved = Var v then Some s
            else if contains_var resolved v then None
            else Some (bind_var_to v resolved s))"
| "match_single_term min_bindable (App f1 args1) target s =
     (case target of
        App f2 args2 \<Rightarrow>
          if f1 \<noteq> f2 \<or> length args1 \<noteq> length args2 then None
          else foldM (\<lambda>(a1, a2) s. match_single_term min_bindable (apply_subst_flat s a1) a2 s) (zip args1 args2) s
      | Var v \<Rightarrow> None)"
  by pat_completeness auto

termination
proof (relation "measure (\<lambda>(m, p, t, s). term_size t)", goal_cases)
  case (2 m f1 args1 target s f2 args2 p s' a1 a2)
  then have "a2 \<in> set args2" by (auto dest: set_zip_rightD)
  then show ?case using 2 term_size_arg by auto
qed simp

declare match_single_term.simps [simp del]

fun match_atoms :: "VarId \<Rightarrow> Atom \<Rightarrow> Atom \<Rightarrow> Substitution \<Rightarrow> Substitution option" where
  "match_atoms min_bindable (Pred p1 args1) (Pred p2 args2) s =
     (if p1 \<noteq> p2 \<or> length args1 \<noteq> length args2 then None
      else foldM (\<lambda>(a1, a2) s. match_single_term min_bindable (apply_subst_flat s a1) a2 s) (zip args1 args2) s)"
| "match_atoms min_bindable (Eq l1 r1) (Eq l2 r2) s =
     (let side = (\<lambda>a b s. match_single_term min_bindable (apply_subst_flat s a) b s) in
      case do { s \<leftarrow> side l1 l2 s; side r1 r2 s } of
        Some s' \<Rightarrow> Some s'
      | None \<Rightarrow> do { s \<leftarrow> side l1 r2 s; side r1 l2 s })"
| "match_atoms min_bindable _ _ s = None"

fun match_literals :: "VarId \<Rightarrow> Literal list \<Rightarrow> Literal list \<Rightarrow> Substitution \<Rightarrow> bool" where
  "match_literals min_bindable [] targets s = True"
| "match_literals min_bindable (l # ls) targets s =
     (\<exists>target \<in> set targets. positive l = positive target \<and>
        (case match_atoms min_bindable (atom l) (atom target) s of
           Some extended \<Rightarrow> match_literals min_bindable ls targets extended
         | None \<Rightarrow> False))"

section \<open>The three tests\<close>

definition subsumes :: "Clause \<Rightarrow> Clause \<Rightarrow> bool" where
  "subsumes c1 c2 =
     (if length (literals c2) < length (literals c1) then False
      else if clause_is_empty c1 then True
      else let offset = clause_max_var c2
        in match_literals offset (literals (rename_clause c1 offset)) (literals c2) new_subst)"

definition flipped :: "nat \<Rightarrow> Literal list \<Rightarrow> Literal list" where
  "flipped i ls = map (\<lambda>(j, l). if i = j then l\<lparr>positive := \<not> positive l\<rparr> else l) (enumerate 0 ls)"

definition subsumption_resolution :: "Clause \<Rightarrow> Clause \<Rightarrow> nat option" where
  "subsumption_resolution active target =
     (if length (literals target) < length (literals active) then None
      else if clause_is_empty active then None
      else let offset = clause_max_var target; ls = literals (rename_clause active offset)
        in find (\<lambda>i. match_literals offset ls (flipped i (literals target)) new_subst) [0..<length (literals target)])"

text \<open>One pair of literals; the early return of \<open>condense\<close> is on the left.\<close>

definition condense_pair :: "Clause \<Rightarrow> nat \<times> nat \<Rightarrow> ClauseIdGen \<Rightarrow> (Clause \<times> ClauseIdGen) + ClauseIdGen" where
  "condense_pair c = (\<lambda>(i, j) gen.
     let lit_i = literals c ! i; lit_j = literals c ! j in
     if i = j \<or> positive lit_i \<noteq> positive lit_j then Inr gen
     else case match_atoms 0 (atom lit_i) (atom lit_j) new_subst of
       None \<Rightarrow> Inr gen
     | Some sigma \<Rightarrow>
         let (cid, gen) = next_id gen;
             derived = (new_avatar cid (map (apply_literal sigma) (rest {i} (literals c)))
                 (Inference ''condensation'' [clause_id c]) (avatar c))
               \<lparr>witness := Some (ProofWitness.Condensation (parent_node (proof_id c) (clause_id c))
                  (filter (\<lambda>k. k \<noteq> i) [0..<length (literals c)]))\<rparr>;
             condensed = deduplicate derived
         in if length (literals condensed) < length (literals c) \<and> subsumes condensed c then Inl (condensed, gen)
            else Inr gen)"

definition condense :: "Clause \<Rightarrow> ClauseIdGen \<Rightarrow> Clause option \<times> ClauseIdGen" where
  "condense c gen =
     (case try_fold (condense_pair c) (List.product [0..<length (literals c)] [0..<length (literals c)]) gen of
        Inl (condensed, gen) \<Rightarrow> (Some condensed, gen)
      | Inr gen \<Rightarrow> (None, gen))"

section \<open>Matching is sound\<close>

lemma apply_subst_flat_inst: "apply_subst_flat s t = inst (as_fun s) t"
  by (induction t) (simp_all add: as_fun_def split: option.split)

text \<open>
  \<open>matcher K s\<close>: the variables from \<open>K\<close> on may be bound, and the variables of what they are bound to
  are smaller; \<open>below K t\<close>: so are those of the target.
\<close>

definition below :: "VarId \<Rightarrow> Term \<Rightarrow> bool" where
  "below K t \<longleftrightarrow> (\<forall>v \<in> vars t. v < K)"

definition matcher :: "VarId \<Rightarrow> Substitution \<Rightarrow> bool" where
  "matcher K s \<longleftrightarrow> (\<forall>v t. lookup s v = Some t \<longrightarrow> K \<le> v \<and> below K t)"

definition extended :: "Substitution \<Rightarrow> Substitution \<Rightarrow> bool" where
  "extended s s' \<longleftrightarrow> (\<forall>v t. lookup s v = Some t \<longrightarrow> lookup s' v = Some t)"

lemma matcher_below: "matcher K s \<Longrightarrow> below K t \<Longrightarrow> inst (as_fun s) t = t"
  by (force simp: inst_id_iff below_def matcher_def as_fun_def split: option.split)

lemma chain_below: "matcher K s \<Longrightarrow> below K t \<Longrightarrow> apply_subst_chain s t = t"
  using matcher_below [of K s t]
  by (cases t) (auto simp: apply_subst_chain_def apply_subst_flat_inst as_fun_def split: option.splits)

lemma extended_refl: "extended s s"
  by (simp add: extended_def)

lemma extended_trans: "extended a b \<Longrightarrow> extended b c \<Longrightarrow> extended a c"
  by (simp add: extended_def)

lemma extended_inst:
  assumes "matcher K s" "matcher K s'" "extended s s'"
  shows "inst (as_fun s') (inst (as_fun s) t) = inst (as_fun s') t"
proof -
  have "inst (as_fun s') (as_fun s v) = as_fun s' v" for v
  proof (cases "lookup s v")
    case (Some u)
    then have "below K u" using assms(1) by (auto simp: matcher_def)
    moreover have "lookup s' v = Some u" using Some assms(3) by (simp add: extended_def)
    ultimately show ?thesis using Some matcher_below [OF assms(2)] by (simp add: as_fun_def)
  qed (simp add: as_fun_def)
  then show ?thesis by (simp add: inst_inst)
qed

lemma extended_keeps:
  assumes "matcher K s'" "extended s s'" "matcher K s" "inst (as_fun s) p = t" "below K t"
  shows "inst (as_fun s') p = t"
  using extended_inst [OF assms(3,1,2), of p] assms(4) matcher_below [OF assms(1,5)] by simp

text \<open>\<open>matches K s p t s'\<close>: a match of \<open>p\<close> with \<open>t\<close> extended the substitution correctly.\<close>

definition fitted :: "VarId \<Rightarrow> Substitution \<Rightarrow> (Substitution \<Rightarrow> bool) \<Rightarrow> Substitution \<Rightarrow> bool" where
  "fitted K s P s' \<longleftrightarrow> matcher K s' \<and> extended s s' \<and> (\<forall>s''. matcher K s'' \<longrightarrow> extended s' s'' \<longrightarrow> P s'')"

lemma fitted_same: "matcher K s \<Longrightarrow> (\<And>s'. matcher K s' \<Longrightarrow> extended s s' \<Longrightarrow> P s') \<Longrightarrow> fitted K s P s"
  by (simp add: fitted_def extended_refl)

lemma fitted_then: "fitted K s P s1 \<Longrightarrow> fitted K s1 Q s2 \<Longrightarrow> fitted K s (\<lambda>s. P s \<and> Q s) s2"
  by (auto simp: fitted_def intro: extended_trans)

lemma fitted_imp: "fitted K s P s' \<Longrightarrow> (\<And>s'. matcher K s' \<Longrightarrow> P s' \<Longrightarrow> Q s') \<Longrightarrow> fitted K s Q s'"
  by (simp add: fitted_def)

lemma zip_images: "\<forall>(a, b) \<in> set (zip xs ys). f a = b \<Longrightarrow> length xs = length ys \<Longrightarrow> map f xs = ys"
  by (rule nth_equalityI) (fastforce simp: set_zip)+

lemma fitted_flat:
  assumes f: "fitted K r (\<lambda>s. inst (as_fun s) (apply_subst_flat r a) = b) r'" and r: "matcher K r"
  shows "fitted K r (\<lambda>s. inst (as_fun s) a = b) r'"
  unfolding fitted_def
proof (intro conjI allI impI)
  fix r'' assume r'': "matcher K r''" "extended r' r''"
  have "extended r r''" using f r''(2) extended_trans by (auto simp: fitted_def)
  then show "inst (as_fun r'') a = b"
    using f r'' extended_inst [OF r r''(1)] by (auto simp: fitted_def apply_subst_flat_inst)
qed (use f in \<open>auto simp: fitted_def\<close>)

lemma foldM_fitted:
  assumes "\<And>a b s s'. (a, b) \<in> set ps \<Longrightarrow> matcher K s \<Longrightarrow> f (a, b) s = Some s' \<Longrightarrow>
      fitted K s (\<lambda>s. inst (as_fun s) a = b) s'"
  shows "matcher K s \<Longrightarrow> foldM f ps s = Some s' \<Longrightarrow> fitted K s (\<lambda>s. \<forall>(a, b) \<in> set ps. inst (as_fun s) a = b) s'"
  using assms
proof (induction ps arbitrary: s)
  case Nil
  then show ?case by (simp add: fitted_same)
next
  case (Cons p ps)
  obtain a b where p: "p = (a, b)" by fastforce
  obtain s1 where s1: "f (a, b) s = Some s1" "foldM f ps s1 = Some s'"
    using Cons.prems(2) p by (auto simp: bind_eq_Some_conv)
  have 1: "fitted K s (\<lambda>s. inst (as_fun s) a = b) s1" using Cons.prems(1,3) p s1(1) by simp
  then have "matcher K s1" by (simp add: fitted_def)
  then have "fitted K s1 (\<lambda>s. \<forall>(a, b) \<in> set ps. inst (as_fun s) a = b) s'" using Cons s1(2) by simp
  from fitted_then [OF 1 this] show ?case by (rule fitted_imp) (simp add: p)
qed

lemma match_single_term_fitted:
  "matcher K s \<Longrightarrow> below K t \<Longrightarrow> match_single_term K p t s = Some s' \<Longrightarrow> fitted K s (\<lambda>s. inst (as_fun s) p = t) s'"
proof (induction K p t s arbitrary: s' rule: match_single_term.induct)
  case (1 K v t s)
  show ?case
  proof (cases "lookup s v")
    case (Some b)
    then have "s' = s" "b = t" using "1.prems"(3) by (auto simp: match_single_term.simps split: if_splits)
    then show ?thesis using Some "1.prems"(1) by (auto simp: extended_def as_fun_def intro!: fitted_same)
  next
    case None
    show ?thesis
    proof (cases "v < K")
      case True
      then have "s' = s" "Var v = t" using None "1.prems"(3) by (auto simp: match_single_term.simps split: if_splits)
      then show ?thesis using matcher_below "1.prems"(1,2) by (auto intro!: fitted_same)
    next
      case False
      have "\<not> v \<in> vars t" using False "1.prems"(2) by (auto simp: below_def)
      then have s': "s' = bind_var_to v t s"
        using None False "1.prems"(3) chain_below [OF "1.prems"(1,2)] by (auto simp: match_single_term.simps contains_var_eq split: if_splits)
      have "matcher K s'" using "1.prems"(1,2) False by (auto simp: s' matcher_def lookup_def bind_var_to_def)
      moreover have "extended s s'" using None by (auto simp: s' extended_def lookup_def bind_var_to_def)
      ultimately show ?thesis unfolding fitted_def by (auto simp: extended_def s' as_fun_def lookup_def bind_var_to_def)
    qed
  qed
next
  case (2 K f1 args1 t s)
  then obtain f2 args2 where t: "t = App f2 args2" by (cases t) (auto simp: match_single_term.simps)
  then have h: "f1 = f2" "length args1 = length args2"
    "foldM (\<lambda>(a1, a2) s. match_single_term K (apply_subst_flat s a1) a2 s) (zip args1 args2) s = Some s'"
    using "2.prems"(3) by (auto simp: match_single_term.simps split: if_splits)
  have "fitted K s (\<lambda>s. \<forall>(a, b) \<in> set (zip args1 args2). inst (as_fun s) a = b) s'"
  proof (rule foldM_fitted [OF _ "2.prems"(1) h(3)])
    fix a b r r' assume ab: "(a, b) \<in> set (zip args1 args2)" and r: "matcher K r"
      and m: "(case (a, b) of (a1, a2) \<Rightarrow> \<lambda>s. match_single_term K (apply_subst_flat s a1) a2 s) r = Some r'"
    have "below K b" using ab "2.prems"(2) t by (auto simp: below_def dest: set_zip_rightD)
    then have "fitted K r (\<lambda>s. inst (as_fun s) (apply_subst_flat r a) = b) r'"
      using "2.IH" [OF t _ ab refl r] h(1,2) m by simp
    then show "fitted K r (\<lambda>s. inst (as_fun s) a = b) r'" using r by (rule fitted_flat)
  qed
  then show ?case
  proof (rule fitted_imp)
    fix s' assume "\<forall>(a, b) \<in> set (zip args1 args2). inst (as_fun s') a = b"
    then have "map (inst (as_fun s')) args1 = args2" using h(2) by (rule zip_images)
    then show "inst (as_fun s') (App f1 args1) = t" using h(1) t by simp
  qed
qed

section \<open>Atoms, literals and clauses\<close>

text \<open>Equal up to the direction of an equation.\<close>

definition same_atom :: "Atom \<Rightarrow> Atom \<Rightarrow> bool" where
  "same_atom a b \<longleftrightarrow> a = b \<or> (\<exists>l r. a = Eq l r \<and> b = Eq r l)"

definition same_lit :: "Literal \<Rightarrow> Literal \<Rightarrow> bool" where
  "same_lit l m \<longleftrightarrow> positive l = positive m \<and> same_atom (atom l) (atom m)"

lemma same_lit_value: "same_lit l m \<Longrightarrow> lval I \<rho> l = lval I \<rho> m"
  by (auto simp: same_lit_def same_atom_def lval_def)

lemma match_args_fitted:
  assumes "matcher K s" "\<forall>b \<in> set bs. below K b" "length as = length bs"
    and m: "foldM (\<lambda>(a1, a2) s. match_single_term K (apply_subst_flat s a1) a2 s) (zip as bs) s = Some s'"
  shows "fitted K s (\<lambda>s. map (inst (as_fun s)) as = bs) s'"
proof -
  have step: "fitted K r (\<lambda>s. inst (as_fun s) a = b) r'"
    if "(a, b) \<in> set (zip as bs)" "matcher K r"
      "(case (a, b) of (a1, a2) \<Rightarrow> \<lambda>s. match_single_term K (apply_subst_flat s a1) a2 s) r = Some r'" for a b r r'
  proof (rule fitted_flat [OF match_single_term_fitted])
    show "below K b" using that(1) assms(2) by (auto dest: set_zip_rightD)
  qed (use that in simp_all)
  have "fitted K s (\<lambda>s. \<forall>(a, b) \<in> set (zip as bs). inst (as_fun s) a = b) s'"
    by (rule foldM_fitted [OF step assms(1) m])
  then show ?thesis
    by (rule fitted_imp) (use assms(3) zip_images in blast)
qed

lemma match_atoms_fitted:
  assumes "matcher K s" "\<forall>v \<in> avars B. v < K" "match_atoms K A B s = Some s'"
  shows "fitted K s (\<lambda>s. same_atom (inst_atom (as_fun s) A) B) s'"
proof -
  have side: "fitted K r (\<lambda>s. inst (as_fun s) a = b) r'"
    if "matcher K r" "below K b" "match_single_term K (apply_subst_flat r a) b r = Some r'" for a b r r'
    by (rule fitted_flat [OF match_single_term_fitted [OF that] that(1)])
  have both: "fitted K s (\<lambda>s. inst (as_fun s) a = c \<and> inst (as_fun s) b = d) s'"
    if "do { s \<leftarrow> match_single_term K (apply_subst_flat s a) c s; match_single_term K (apply_subst_flat s b) d s } = Some s'"
      "below K c" "below K d" for a b c d
  proof -
    note m = that(1)
    obtain s1 where s1: "match_single_term K (apply_subst_flat s a) c s = Some s1"
      "match_single_term K (apply_subst_flat s1 b) d s1 = Some s'"
      using m by (cases "match_single_term K (apply_subst_flat s a) c s") auto
    have f: "fitted K s (\<lambda>s. inst (as_fun s) a = c) s1" by (rule side [OF assms(1) that(2) s1(1)])
    then have "matcher K s1" by (simp add: fitted_def)
    from fitted_then [OF f side [OF this that(3) s1(2)]] show ?thesis .
  qed
  show ?thesis
  proof (cases A; cases B)
    fix p as q bs assume [simp]: "A = Pred p as" "B = Pred q bs"
    have "p = q" "length as = length bs" using assms(3) by (auto split: if_splits)
    moreover have "fitted K s (\<lambda>s. map (inst (as_fun s)) as = bs) s'"
      using assms calculation by (intro match_args_fitted) (auto simp: below_def)
    ultimately show ?thesis by (auto intro: fitted_imp simp: same_atom_def)
  next
    fix l r t u assume [simp]: "A = Eq l r" "B = Eq t u"
    have tu: "below K t" "below K u" using assms(2) by (simp_all add: below_def)
    consider "do { s \<leftarrow> match_single_term K (apply_subst_flat s l) t s; match_single_term K (apply_subst_flat s r) u s } = Some s'"
      | "do { s \<leftarrow> match_single_term K (apply_subst_flat s l) u s; match_single_term K (apply_subst_flat s r) t s } = Some s'"
      using assms(3) by (auto simp: Let_def split: option.splits)
    then show ?thesis
    proof cases
      case 1
      show ?thesis by (rule fitted_imp [OF both [OF 1 tu]]) (simp add: same_atom_def)
    next
      case 2
      show ?thesis by (rule fitted_imp [OF both [OF 2 tu(2,1)]]) (simp add: same_atom_def)
    qed
  qed (use assms(3) in auto)
qed

definition covered_by :: "Literal list \<Rightarrow> (VarId \<Rightarrow> Term) \<Rightarrow> Literal list \<Rightarrow> bool" where
  "covered_by ls \<sigma> ms \<longleftrightarrow> (\<forall>l \<in> set ls. \<exists>m \<in> set ms. same_lit (inst_lit \<sigma> l) m)"

lemma covered_by_valid: "covered_by ls \<sigma> ms \<Longrightarrow> lits_valid I ls \<Longrightarrow> lits_valid I ms"
proof -
  assume c: "covered_by ls \<sigma> ms" and v: "lits_valid I ls"
  have "lits_valid I (map (inst_lit \<sigma>) ls)" using v by (rule lits_valid_inst)
  moreover have "\<exists>m \<in> set ms. lval I \<rho> m" if "l \<in> set ls" "lval I \<rho> (inst_lit \<sigma> l)" for l \<rho>
    using c that same_lit_value unfolding covered_by_def by blast
  ultimately show ?thesis by (fastforce simp: lits_valid_def lits_hold_def)
qed

lemma match_literals_covered:
  assumes "\<forall>v \<in> lits_vars ms. v < K"
  shows "matcher K s \<Longrightarrow> match_literals K ls ms s \<Longrightarrow> \<exists>s'. fitted K s (\<lambda>s. covered_by ls (as_fun s) ms) s'"
proof (induction ls arbitrary: s)
  case Nil
  then show ?case by (auto simp: covered_by_def intro: fitted_same)
next
  case (Cons l ls)
  obtain m s1 where m: "m \<in> set ms" "positive l = positive m" "match_atoms K (atom l) (atom m) s = Some s1"
    "match_literals K ls ms s1"
    using Cons.prems(2) by (auto split: option.splits)
  have "\<forall>v \<in> avars (atom m). v < K" using assms m(1) by (auto simp: lits_vars_def lvars_def)
  then have f: "fitted K s (\<lambda>s. same_atom (inst_atom (as_fun s) (atom l)) (atom m)) s1"
    using match_atoms_fitted [OF Cons.prems(1) _ m(3)] by blast
  then have "matcher K s1" by (simp add: fitted_def)
  then obtain s' where s': "fitted K s1 (\<lambda>s. covered_by ls (as_fun s) ms) s'" using Cons.IH m(4) by blast
  have "fitted K s (\<lambda>s. covered_by (l # ls) (as_fun s) ms) s'"
    by (rule fitted_imp [OF fitted_then [OF f s']])
      (use m in \<open>auto simp: covered_by_def same_lit_def inst_lit_def\<close>)
  then show ?case by blast
qed

lemma matcher_new: "matcher K new_subst"
  by (simp add: matcher_def lookup_def new_subst_def)

lemma clause_max_var_lits: "clause_max_var c = offset_for (literals c)"
proof -
  have "clause_free_vars c = lits_vars (literals c)"
    by (simp add: clause_free_vars_def lits_vars_def fold_union [where g = lvars] lit_collect_vars_eq)
  then show ?thesis by (simp add: clause_max_var_def offset_for_def Let_def)
qed


section \<open>Matching is complete\<close>

text \<open>\<open>\<sigma>\<close> is a match that agrees with what has been bound so far.\<close>

definition continues :: "VarId \<Rightarrow> (VarId \<Rightarrow> Term) \<Rightarrow> Substitution \<Rightarrow> bool" where
  "continues K \<sigma> s \<longleftrightarrow> (\<forall>v < K. \<sigma> v = Var v) \<and> (\<forall>v t. lookup s v = Some t \<longrightarrow> \<sigma> v = t)"

lemma continues_below: "continues K \<sigma> s \<Longrightarrow> below K t \<Longrightarrow> inst \<sigma> t = t"
  by (auto simp: inst_id_iff below_def continues_def)

lemma continues_flat:
  assumes "continues K \<sigma> s" "matcher K s"
  shows "inst \<sigma> (apply_subst_flat s t) = inst \<sigma> t"
proof -
  have "inst \<sigma> (as_fun s v) = \<sigma> v" for v
  proof (cases "lookup s v")
    case (Some u)
    then have "below K u" "\<sigma> v = u" using assms by (auto simp: matcher_def continues_def)
    then show ?thesis using Some continues_below [OF assms(1)] by (simp add: as_fun_def)
  qed (simp add: as_fun_def)
  then show ?thesis by (simp add: apply_subst_flat_inst inst_inst)
qed

lemma foldM_continues:
  assumes "\<And>a r. a \<in> set as \<Longrightarrow> matcher K r \<Longrightarrow> continues K \<sigma> r \<Longrightarrow>
      \<exists>r'. f (a, inst \<sigma> a) r = Some r' \<and> matcher K r' \<and> continues K \<sigma> r'"
  shows "matcher K r \<Longrightarrow> continues K \<sigma> r \<Longrightarrow>
    \<exists>r'. foldM f (zip as (map (inst \<sigma>) as)) r = Some r' \<and> matcher K r' \<and> continues K \<sigma> r'"
  using assms
proof (induction as arbitrary: r)
  case (Cons a as)
  obtain r1 where "f (a, inst \<sigma> a) r = Some r1" "matcher K r1" "continues K \<sigma> r1"
    using Cons.prems by fastforce
  then show ?case using Cons.IH [of r1] Cons.prems(3) by simp
qed simp

lemma match_single_term_complete:
  "matcher K s \<Longrightarrow> below K t \<Longrightarrow> continues K \<sigma> s \<Longrightarrow> inst \<sigma> p = t \<Longrightarrow>
   \<exists>s'. match_single_term K p t s = Some s' \<and> continues K \<sigma> s'"
proof (induction K p t s rule: match_single_term.induct)
  case (1 K v t s)
  show ?case
  proof (cases "lookup s v")
    case (Some b)
    then show ?thesis using "1.prems" by (auto simp: match_single_term.simps continues_def)
  next
    case None
    show ?thesis
    proof (cases "v < K")
      case True
      then show ?thesis using None "1.prems" by (auto simp: match_single_term.simps continues_def)
    next
      case False
      have "v \<notin> vars t" using False "1.prems"(2) by (auto simp: below_def)
      then have "match_single_term K (Var v) t s = Some (bind_var_to v t s)"
        using None False chain_below [OF "1.prems"(1,2)] by (auto simp: match_single_term.simps contains_var_eq)
      then show ?thesis using "1.prems"(3,4) by (auto simp: continues_def lookup_def bind_var_to_def)
    qed
  qed
next
  case (2 K f1 args1 t s)
  let ?step = "\<lambda>(a1, a2) s. match_single_term K (apply_subst_flat s a1) a2 s"
  have t: "t = App f1 (map (inst \<sigma>) args1)" using "2.prems"(4) by simp
  have "\<exists>s'. foldM ?step (zip args1 (map (inst \<sigma>) args1)) s = Some s' \<and> matcher K s' \<and> continues K \<sigma> s'"
  proof (rule foldM_continues [OF _ "2.prems"(1,3)])
    fix a r assume a: "a \<in> set args1" and r: "matcher K r" "continues K \<sigma> r"
    have ps: "(a, inst \<sigma> a) \<in> set (zip args1 (map (inst \<sigma>) args1))" using a by (simp add: zip_map2 zip_same_conv_map)
    have b: "below K (inst \<sigma> a)" using "2.prems"(2) a t by (auto simp: below_def)
    obtain r' where r': "match_single_term K (apply_subst_flat r a) (inst \<sigma> a) r = Some r'" "continues K \<sigma> r'"
      using "2.IH" [OF t _ ps refl r(1) b r(2) continues_flat [OF r(2,1)]] by auto
    then show "\<exists>r'. ?step (a, inst \<sigma> a) r = Some r' \<and> matcher K r' \<and> continues K \<sigma> r'"
      using match_single_term_fitted [OF r(1) b r'(1)] by (simp add: fitted_def)
  qed
  then show ?case by (auto simp add: match_single_term.simps t)
qed


lemma match_predicates_complete:
  assumes "matcher K s" "\<forall>v \<in> avars (inst_atom \<sigma> A). v < K" "continues K \<sigma> s" "A = Pred p args"
  shows "\<exists>s'. match_atoms K A (inst_atom \<sigma> A) s = Some s' \<and> matcher K s' \<and> continues K \<sigma> s'"
proof -
  let ?step = "\<lambda>(a1, a2) s. match_single_term K (apply_subst_flat s a1) a2 s"
  have "\<exists>s'. foldM ?step (zip args (map (inst \<sigma>) args)) s = Some s' \<and> matcher K s' \<and> continues K \<sigma> s'"
  proof (rule foldM_continues [OF _ assms(1,3)])
    fix a r assume a: "a \<in> set args" and r: "matcher K r" "continues K \<sigma> r"
    have b: "below K (inst \<sigma> a)" using assms(2,4) a by (auto simp: below_def)
    show "\<exists>r'. ?step (a, inst \<sigma> a) r = Some r' \<and> matcher K r' \<and> continues K \<sigma> r'"
      using match_single_term_complete [OF r(1) b r(2) continues_flat [OF r(2,1)]]
        match_single_term_fitted [OF r(1) b] by (fastforce simp: fitted_def)
  qed
  then show ?thesis using assms(4) by simp
qed

lemma match_literals_complete:
  assumes "\<forall>v \<in> lits_vars ms. v < K" "\<forall>l \<in> set ls. \<exists>p args. atom l = Pred p args"
    "\<forall>l \<in> set ls. inst_lit \<sigma> l \<in> set ms"
  shows "matcher K s \<Longrightarrow> continues K \<sigma> s \<Longrightarrow> match_literals K ls ms s"
  using assms(2,3)
proof (induction ls arbitrary: s)
  case (Cons l ls)
  let ?m = "inst_lit \<sigma> l"
  have m: "?m \<in> set ms" "atom ?m = inst_atom \<sigma> (atom l)" "positive ?m = positive l"
    using Cons.prems(4) by (simp_all add: inst_lit_def)
  obtain p args where l: "atom l = Pred p args" using Cons.prems(3) by auto
  have "\<forall>v \<in> avars (inst_atom \<sigma> (atom l)). v < K" using m(1,2) assms(1) by (force simp: lits_vars_def lvars_def)
  then obtain s' where s': "match_atoms K (atom l) (inst_atom \<sigma> (atom l)) s = Some s'" "matcher K s'" "continues K \<sigma> s'"
    using match_predicates_complete [OF Cons.prems(1) _ Cons.prems(2) l] by blast
  then have "match_literals K ls ms s'" using Cons.IH [of s'] Cons.prems by simp
  then show ?case using s'(1) m by (auto intro!: bexI [of _ ?m])
qed simp


lemma inst_lit_inst_lit: "inst_lit \<theta> (inst_lit \<eta> l) = inst_lit (\<lambda>v. inst \<theta> (\<eta> v)) l"
proof -
  have "inst_atom \<theta> (inst_atom \<eta> a) = inst_atom (\<lambda>v. inst \<theta> (\<eta> v)) a" for a by (cases a) (simp_all add: inst_inst)
  then show ?thesis by (simp add: inst_lit_def)
qed

lemma inst_lit_cong: "(\<And>v. v \<in> lvars l \<Longrightarrow> \<theta> v = \<eta> v) \<Longrightarrow> inst_lit \<theta> l = inst_lit \<eta> l"
proof -
  assume h: "\<And>v. v \<in> lvars l \<Longrightarrow> \<theta> v = \<eta> v"
  have "inst_atom \<theta> (atom l) = inst_atom \<eta> (atom l)"
    using h by (cases "atom l") (auto simp: lvars_def intro: inst_cong)
  then show ?thesis by (simp add: inst_lit_def)
qed

lemma covered_by_shifted:
  "covered_by (map (inst_lit (shifted k)) ls) \<sigma> ms \<Longrightarrow> covered_by ls (\<lambda>v. inst \<sigma> (shifted k v)) ms"
  by (simp add: covered_by_def inst_lit_inst_lit)

lemma matched_covered:
  assumes "match_literals K (literals (rename_clause c k)) ms new_subst" "\<forall>v \<in> lits_vars ms. v < K"
  shows "\<exists>\<sigma>. covered_by (literals c) \<sigma> ms"
  using match_literals_covered [OF assms(2) matcher_new assms(1)] covered_by_shifted matcher_new extended_refl
  unfolding rename_clause_lits fitted_def by blast

lemma subsumes_covered:
  assumes "subsumes c1 c2" "lits_vars (literals c2) \<subseteq> {..< - 1}"
  shows "\<exists>\<sigma>. covered_by (literals c1) \<sigma> (literals c2)"
proof (cases "literals c1 = []")
  case False
  have "\<forall>v \<in> lits_vars (literals c2). v < offset_for (literals c2)" using offset_for_above assms(2) by blast
  then show ?thesis
    using assms(1) False matched_covered
    by (auto simp: subsumes_def clause_is_empty_def Let_def clause_max_var_lits split: if_splits)
qed (simp add: covered_by_def)

section \<open>What the tests decide\<close>

text \<open>
  C10. Forward and backward subsumption are sound: when \<open>subsumes c1 c2\<close> answers true, some
  substitution maps every literal of \<open>c1\<close> to a literal of \<open>c2\<close>, up to the direction of equations, so
  every structure in which \<open>c1\<close> is valid makes \<open>c2\<close> valid too and \<open>c2\<close> may be deleted. The
  hypothesis excludes the last variable number, at which the offset of the renaming wraps to zero.
\<close>

theorem subsumes_sound:
  assumes "subsumes c1 c2" "lits_vars (literals c2) \<subseteq> {..< - 1}"
  shows "(\<exists>\<sigma>. covered_by (literals c1) \<sigma> (literals c2)) \<and>
    (lits_valid I (literals c1) \<longrightarrow> lits_valid I (literals c2))"
  using subsumes_covered [OF assms] covered_by_valid by blast

definition general_clause :: Clause where
  "general_clause = new_clause 1 [\<lparr>positive = True, atom = Pred 7 [Var 0, Var 1]\<rparr>] (Input ''general'' ''axiom'')"

definition special_clause :: Clause where
  "special_clause = new_clause 2 [\<lparr>positive = False, atom = Pred 8 [Var 0]\<rparr>,
     \<lparr>positive = True, atom = Pred 7 [App 3 [Var 0], Var 0]\<rparr>] (Input ''special'' ''axiom'')"

lemma small_numbers: "0 < (- 1 :: u32)" "1 < (- 1 :: u32)"
  by code_simp+

lemma special_vars: "lits_vars (literals special_clause) = {0}"
  by (auto simp: special_clause_def new_clause_def lits_vars_def lvars_def)

lemma general_subsumes: "subsumes general_clause special_clause"
proof -
  have "clause_max_var special_clause = 1" by (simp add: clause_max_var_lits offset_for_def special_vars)
  then show ?thesis
    by (simp add: subsumes_def clause_is_empty_def rename_clause_def new_avatar_def general_clause_def special_clause_def new_clause_def
      offset_literal_def match_single_term.simps lookup_def bind_var_to_def new_subst_def apply_subst_chain_def Let_def)
qed

definition always_true :: "bool interp" where
  "always_true = \<lparr>ifun = \<lambda>f xs. True, ipred = \<lambda>p xs. True\<rparr>"

theorem subsumes_sound_witness:
  "(\<exists>\<sigma>. covered_by (literals general_clause) \<sigma> (literals special_clause)) \<and>
    lits_valid always_true (literals special_clause)"
proof -
  have "lits_vars (literals special_clause) \<subseteq> {..< - 1}" by (simp add: special_vars small_numbers)
  from subsumes_sound [OF general_subsumes this, of always_true] show ?thesis
    by (simp add: general_clause_def new_clause_def lits_valid_def lval_def always_true_def)
qed

text \<open>
  C11. On clauses without equations the subsumption test is exact: it answers true if and only if
  \<open>c1\<close> is not longer than \<open>c2\<close> and some substitution maps every literal of \<open>c1\<close> to some literal of \<open>c2\<close>,
  whatever the order of the literals, so the backtracking search misses nothing. Several literals may
  be mapped to the same one, so this is inclusion as sets, not as multisets as the documentation of the
  function says: \<open>p(X) | p(Y)\<close> subsumes \<open>p(a) | q\<close>, and it fails on \<open>p(a)\<close> by its length only. The
  hypotheses on variables say that the renaming apart does not overflow the variable numbers.
\<close>

theorem subsumes_exact:
  assumes "lits_vars (literals c2) \<subseteq> {..< - 1}"
    "\<forall>v \<in> lits_vars (literals c1). offset_for (literals c2) \<le> v + offset_for (literals c2)"
    "\<forall>l \<in> set (literals c1). \<exists>p args. atom l = Pred p args"
  shows "subsumes c1 c2 \<longleftrightarrow> length (literals c1) \<le> length (literals c2) \<and>
    (\<exists>\<sigma>. \<forall>l \<in> set (literals c1). inst_lit \<sigma> l \<in> set (literals c2))"
proof
  assume s: "subsumes c1 c2"
  obtain \<sigma> where \<sigma>: "covered_by (literals c1) \<sigma> (literals c2)"
    using subsumes_covered [OF s assms(1)] by blast
  have "inst_lit \<sigma> l \<in> set (literals c2)" if "l \<in> set (literals c1)" for l
  proof -
    have "\<exists>m \<in> set (literals c2). same_lit (inst_lit \<sigma> l) m" using \<sigma> that by (auto simp: covered_by_def)
    then obtain m where m: "m \<in> set (literals c2)" "same_lit (inst_lit \<sigma> l) m" by blast
    have "\<exists>p args. atom l = Pred p args" using assms(3) that by blast
    then have "inst_lit \<sigma> l = m"
      using m(2) by (cases l; cases m) (auto simp: same_lit_def same_atom_def inst_lit_def)
    then show ?thesis using m(1) by simp
  qed
  then show "length (literals c1) \<le> length (literals c2) \<and>
      (\<exists>\<sigma>. \<forall>l \<in> set (literals c1). inst_lit \<sigma> l \<in> set (literals c2))"
    using s by (auto simp: subsumes_def clause_is_empty_def split: if_splits)
next
  let ?K = "offset_for (literals c2)"
  assume h: "length (literals c1) \<le> length (literals c2) \<and>
      (\<exists>\<sigma>. \<forall>l \<in> set (literals c1). inst_lit \<sigma> l \<in> set (literals c2))"
  then obtain \<sigma> where \<sigma>: "\<forall>l \<in> set (literals c1). inst_lit \<sigma> l \<in> set (literals c2)" by blast
  define \<eta> where "\<eta> v = (if v < ?K then Var v else \<sigma> (v - ?K))" for v
  have "inst_lit \<eta> (inst_lit (shifted ?K) l) = inst_lit \<sigma> l" if "l \<in> set (literals c1)" for l
    unfolding inst_lit_inst_lit
  proof (rule inst_lit_cong)
    fix v assume "v \<in> lvars l"
    then have "\<not> v + ?K < ?K" using assms(2) that by (force simp: lits_vars_def)
    then show "inst \<eta> (shifted ?K v) = \<sigma> v" by (simp add: \<eta>_def)
  qed
  then have i: "\<forall>l \<in> set (literals (rename_clause c1 ?K)). inst_lit \<eta> l \<in> set (literals c2)"
    using \<sigma> by (simp add: rename_clause_lits)
  have p: "\<forall>l \<in> set (literals (rename_clause c1 ?K)). \<exists>p args. atom l = Pred p args"
    using assms(3) by (fastforce simp: rename_clause_lits inst_lit_def)
  have "\<forall>v \<in> lits_vars (literals c2). v < ?K" using offset_for_above assms(1) by blast
  moreover have "continues ?K \<eta> new_subst" by (simp add: continues_def \<eta>_def lookup_def new_subst_def)
  ultimately have "match_literals ?K (literals (rename_clause c1 ?K)) (literals c2) new_subst"
    using match_literals_complete [OF _ p i matcher_new] by blast
  then show "subsumes c1 c2" using h by (auto simp: subsumes_def clause_is_empty_def Let_def clause_max_var_lits)
qed


definition special_unit :: Clause where
  "special_unit = new_clause 3 [\<lparr>positive = True, atom = Pred 7 [App 3 [Var 0], Var 0]\<rparr>] (Input ''unit'' ''axiom'')"

lemma offset_from_one: "offset_for (literals special_unit) = 1" "offset_for (literals special_clause) = 1"
  by (simp_all add: offset_for_def special_vars) (simp add: special_unit_def new_clause_def lits_vars_def lvars_def)

theorem subsumes_exact_witness:
  "subsumes general_clause special_clause \<and> \<not> subsumes special_unit general_clause"
proof
  have general: "lits_vars (literals general_clause) = {0, 1}"
    by (auto simp: general_clause_def new_clause_def lits_vars_def lvars_def)
  show "subsumes general_clause special_clause"
  proof (rule subsumes_exact [THEN iffD2])
    have "\<forall>l \<in> set (literals general_clause).
        inst_lit (Var(0 := App 3 [Var 0], 1 := Var 0)) l \<in> set (literals special_clause)"
      by (simp add: general_clause_def special_clause_def new_clause_def inst_lit_def)
    then show "length (literals general_clause) \<le> length (literals special_clause) \<and>
        (\<exists>\<sigma>. \<forall>l \<in> set (literals general_clause). inst_lit \<sigma> l \<in> set (literals special_clause))"
      by (auto simp: general_clause_def special_clause_def new_clause_def)
    show "\<forall>l \<in> set (literals general_clause). \<exists>p args. atom l = Pred p args"
      by (simp add: general_clause_def new_clause_def)
  qed (simp_all add: special_vars small_numbers general offset_from_one word_le_nat_alt)
  have "lits_vars (literals special_unit) = {0}"
    by (auto simp: special_unit_def new_clause_def lits_vars_def lvars_def)
  moreover have "offset_for (literals general_clause) = 2"
    by (simp add: offset_for_def general)
  moreover have "\<not> (\<forall>l \<in> set (literals special_unit). inst_lit \<sigma> l \<in> set (literals general_clause))" for \<sigma>
    by (simp add: general_clause_def special_unit_def new_clause_def inst_lit_def)
  ultimately show "\<not> subsumes special_unit general_clause"
    using subsumes_exact [of general_clause special_unit] general small_numbers
    by (simp add: special_unit_def new_clause_def)
qed

text \<open>
  With equations the search may miss a match: of the two directions of an equation it keeps the
  first that matches, also when only the other lets the remaining literals match.
\<close>

definition eq_general :: Clause where
  "eq_general = new_clause 4 [\<lparr>positive = True, atom = Eq (Var 0) (Var 1)\<rparr>, \<lparr>positive = True, atom = Pred 7 [Var 0]\<rparr>]
     (Input ''eq'' ''axiom'')"

definition eq_special :: Clause where
  "eq_special = new_clause 5 [\<lparr>positive = True, atom = Eq (App 1 []) (App 2 [])\<rparr>,
     \<lparr>positive = True, atom = Pred 7 [App 2 []]\<rparr>] (Input ''eq'' ''axiom'')"

lemma eq_offset: "clause_max_var eq_special = 0"
  by (simp add: clause_max_var_lits offset_for_def lits_vars_def lvars_def eq_special_def new_clause_def)

lemmas run_match = subsumes_def clause_is_empty_def rename_clause_def new_clause_def match_single_term.simps lookup_def
  bind_var_to_def new_subst_def apply_subst_chain_def Let_def

lemma subsumes_keeps_first_direction:
  "covered_by (literals eq_general) (Var(0 := App 2 [], 1 := App 1 [])) (literals eq_special) \<and>
   \<not> subsumes eq_general eq_special"
proof
  show "covered_by (literals eq_general) (Var(0 := App 2 [], 1 := App 1 [])) (literals eq_special)"
    by (simp add: covered_by_def eq_general_def eq_special_def new_clause_def inst_lit_def same_lit_def same_atom_def)
  show "\<not> subsumes eq_general eq_special"
    by (simp add: subsumes_def clause_is_empty_def eq_offset) (simp add: run_match eq_general_def eq_special_def)
qed

text \<open>The literals matched need not be different ones: the test is on sets, not on multisets.\<close>

definition doubled_clause :: Clause where
  "doubled_clause = new_clause 6 [\<lparr>positive = True, atom = Pred 7 [Var 0]\<rparr>, \<lparr>positive = True, atom = Pred 7 [Var 1]\<rparr>]
     (Input ''double'' ''axiom'')"

lemma subsumes_not_injective:
  "subsumes doubled_clause eq_special \<and>
   \<not> (\<exists>\<sigma>. distinct (map (inst_lit \<sigma>) (literals doubled_clause)) \<and>
       covered_by (literals doubled_clause) \<sigma> (literals eq_special))"
proof
  show "subsumes doubled_clause eq_special"
    by (simp add: subsumes_def clause_is_empty_def eq_offset) (simp add: run_match doubled_clause_def eq_special_def)
  show "\<not> (\<exists>\<sigma>. distinct (map (inst_lit \<sigma>) (literals doubled_clause)) \<and>
      covered_by (literals doubled_clause) \<sigma> (literals eq_special))"
    by (auto simp: covered_by_def doubled_clause_def eq_special_def new_clause_def inst_lit_def same_lit_def same_atom_def)
qed

section \<open>Subsumption resolution\<close>

lemma set_flipped:
  "set (flipped i ls) = (\<lambda>j. if i = j then (ls ! j)\<lparr>positive := \<not> positive (ls ! j)\<rparr> else ls ! j) ` {..<length ls}"
proof -
  have "enumerate 0 ls = map (\<lambda>j. (j, ls ! j)) [0..<length ls]"
    by (rule nth_equalityI) (simp_all add: nth_enumerate_eq)
  then show ?thesis by (simp add: flipped_def image_image atLeast0LessThan)
qed

lemma lits_vars_flipped: "lits_vars (flipped i ls) = lits_vars ls"
proof -
  have "(\<Union>l \<in> set (flipped i ls). lvars l) = (\<Union>j \<in> {..<length ls}. lvars (ls ! j))"
    unfolding set_flipped image_image by (rule SUP_cong) (simp_all add: lvars_def)
  also have "\<dots> = (\<Union>l \<in> set ls. lvars l)" by (force simp: in_set_conv_nth)
  finally show ?thesis by (simp add: lits_vars_def)
qed

lemma flipped_rest:
  assumes "lits_hold I \<rho> (flipped i ls)" "lits_hold I \<rho> ls"
  shows "lits_hold I \<rho> (rest {i} ls)"
proof -
  obtain j where j: "j < length ls" "lval I \<rho> (if i = j then (ls ! j)\<lparr>positive := \<not> positive (ls ! j)\<rparr> else ls ! j)"
    using assms(1) unfolding lits_hold_def set_flipped by blast
  show ?thesis
  proof (cases "i = j")
    case True
    then have "\<not> lval I \<rho> (ls ! i)" using j by (simp add: lval_def)
    then show ?thesis using assms(2) by (metis lits_hold_rest singletonD)
  next
    case False
    then show ?thesis using j unfolding lits_hold_def set_rest by auto
  qed
qed

lemma rest_holds: "lits_hold I \<rho> (rest {i} ls) \<Longrightarrow> lits_hold I \<rho> ls"
  unfolding lits_hold_def set_rest by auto

text \<open>The literals of a formula step match every target.\<close>

lemma formula_step_resolves:
  assumes "formula active \<noteq> None" "literals active = []" "literals target \<noteq> []"
  shows "subsumption_resolution active target = Some 0"
proof -
  have "literals (rename_clause active k) = []" for k using assms(2) by (simp add: rename_clause_lits)
  moreover obtain n where "length (literals target) = Suc n" using assms(3) by (cases "literals target") auto
  ultimately show ?thesis
    using assms(1,2) by (simp add: subsumption_resolution_def clause_is_empty_def Let_def upt_conv_Cons del: upt_Suc)
qed

lemma removed_literal_redundant:
  assumes "subsumption_resolution active target = Some i" "lits_vars (literals target) \<subseteq> {..< - 1}"
  shows "i < length (literals target) \<and>
    (lits_valid I (literals active) \<longrightarrow>
      (lits_valid I (literals target) \<longleftrightarrow> lits_valid I (rest {i} (literals target))))"
proof -
  let ?K = "offset_for (literals target)"
  have "\<forall>v \<in> lits_vars (flipped i (literals target)). v < ?K"
    using offset_for_above assms(2) unfolding lits_vars_flipped by blast
  moreover have i: "i < length (literals target)"
    and "match_literals ?K (literals (rename_clause active ?K)) (flipped i (literals target)) new_subst"
    using assms(1) by (auto simp: subsumption_resolution_def Let_def clause_max_var_lits find_Some_iff split: if_splits)
  ultimately obtain \<sigma> where "covered_by (literals active) \<sigma> (flipped i (literals target))"
    using matched_covered by blast
  then have "lits_valid I (literals active) \<longrightarrow> lits_valid I (flipped i (literals target))"
    using covered_by_valid by blast
  then show ?thesis using i flipped_rest rest_holds unfolding lits_valid_def by blast
qed

text \<open>
  C21. Subsumption resolution is sound and loses nothing: when \<open>subsumption_resolution\<close> answers
  \<open>Some i\<close>, the target has a literal \<open>i\<close>, and in every structure in which the disjunction of the literals of
  the active clause is valid the target is valid if and only if it is without that literal. For a clause
  of the search this disjunction is the clause. A formula step has no literals, so nothing follows from
  it, but \<open>is_empty\<close> does not count it as empty: the code then removes the first literal of any
  target with literals, which the second part states. The hypothesis excludes the last variable
  number, at which the offset of the renaming wraps to zero.
\<close>

theorem subsumption_resolution_sound:
  assumes "lits_vars (literals target) \<subseteq> {..< - 1}"
  shows "(subsumption_resolution active target = Some i \<longrightarrow> i < length (literals target) \<and>
      (lits_valid I (literals active) \<longrightarrow>
        (lits_valid I (literals target) \<longleftrightarrow> lits_valid I (rest {i} (literals target))))) \<and>
    (formula active \<noteq> None \<longrightarrow> literals active = [] \<longrightarrow> literals target \<noteq> [] \<longrightarrow>
      subsumption_resolution active target = Some 0)"
  using removed_literal_redundant [OF _ assms] formula_step_resolves by blast

definition unit_fact :: Clause where
  "unit_fact = new_clause 7 [\<lparr>positive = True, atom = Pred 8 [Var 4]\<rparr>] (Input ''fact'' ''axiom'')"

theorem subsumption_resolution_sound_witness:
  "(0 :: nat) < length (literals special_clause) \<and>
    (lits_valid always_true (literals special_clause) \<longleftrightarrow> lits_valid always_true (rest {0} (literals special_clause))) \<and>
    subsumption_resolution (new_formula_step 9 (And []) (Input ''step'' ''axiom'')) special_clause = Some 0"
proof -
  have "clause_max_var special_clause = 1" by (simp add: clause_max_var_lits offset_from_one)
  then have s: "subsumption_resolution unit_fact special_clause = Some 0"
    by (simp add: subsumption_resolution_def flipped_def run_match new_avatar_def offset_literal_def unit_fact_def
      special_clause_def upt_conv_Cons)
  have "lits_valid always_true (literals unit_fact)"
    by (simp add: unit_fact_def new_clause_def lits_valid_def lval_def always_true_def)
  moreover have "lits_vars (literals special_clause) \<subseteq> {..< - 1}" by (simp add: special_vars small_numbers)
  ultimately show ?thesis
    using subsumption_resolution_sound [of special_clause unit_fact 0 always_true] s
      subsumption_resolution_sound [of special_clause "new_formula_step 9 (And []) (Input ''step'' ''axiom'')" 0 always_true]
    by (simp add: special_clause_def new_formula_step_def new_clause_def)
qed

section \<open>Condensation\<close>

text \<open>What \<open>condense\<close> returns is shorter than the clause and passes the subsumption test against it.\<close>

lemma condense_result:
  assumes "condense c gen = (Some d, gen')"
  shows "length (literals d) < length (literals c) \<and> subsumes d c"
proof -
  have "try_fold (condense_pair c) ps g = Inl (d, g') \<Longrightarrow> length (literals d) < length (literals c) \<and> subsumes d c" for ps g g'
  proof (induction ps arbitrary: g)
    case (Cons p ps)
    show ?case
    proof (cases "condense_pair c p g")
      case (Inl r)
      then show ?thesis using Cons.prems
        by (auto simp: condense_pair_def Let_def split: if_splits option.splits prod.splits)
    qed (use Cons in auto)
  qed simp
  then show ?thesis using assms by (auto simp: condense_def split: sum.splits prod.splits)
qed

end
