(* ===== verification/Ordering.thy ===== *)
theory Ordering
  imports BankTotal "HOL-Library.Multiset"
begin

text \<open>
  The term orderings of \<open>crates/mrs-calculus/src/ordering.rs\<close>: the Knuth-Bendix ordering on owned
  terms and on identifiers, and the lexicographic path ordering on identifiers with its memo and
  step budget. Both have a variant that compares the arguments of associative and commutative
  symbols as multisets. The thread-local budget is a state that is passed along.
\<close>

record SymbolConfig =
  precedence :: "u32 list"
  weights :: "u32 list"
  w0 :: u32

definition default_config :: SymbolConfig where
  "default_config = \<lparr>precedence = [], weights = [], w0 = 1\<rparr>"

definition symbol_weight :: "SymbolConfig \<Rightarrow> SymbolId \<Rightarrow> u32" where
  "symbol_weight cfg s = (if unat s < length (weights cfg) then weights cfg ! unat s else w0 cfg)"

definition symbol_precedence :: "SymbolConfig \<Rightarrow> SymbolId \<Rightarrow> u32" where
  "symbol_precedence cfg s = (if unat s < length (precedence cfg) then precedence cfg ! unat s else s)"

datatype TermComparison = Greater | Less | Equal | Incomparable

text \<open>\<open>KBO\<close> and \<open>LPO\<close> have the same fields.\<close>

record OrderParams =
  config :: SymbolConfig
  ac_symbols :: "SymbolId set option"

text \<open>The thread-local limit and whether it ran out.\<close>

record LpoBudget =
  lpo_limit :: nat
  lpo_expired :: bool

section \<open>Flattening and cancelling\<close>

text \<open>The stack has its top at the head.\<close>

partial_function (option) flat_args_id :: "TermBank \<Rightarrow> SymbolId \<Rightarrow> TermId list \<Rightarrow> TermId list \<Rightarrow> TermId list option" where
  "flat_args_id bank f stack acc = (case stack of
     [] \<Rightarrow> Some acc
   | cur # stack \<Rightarrow> do {
       node \<leftarrow> node_at bank cur;
       case node of
         NVar v \<Rightarrow> flat_args_id bank f stack (acc @ [cur])
       | NApp g args \<Rightarrow> if g = f then flat_args_id bank f (rev args @ stack) acc
           else flat_args_id bank f stack (acc @ [cur]) })"

function flat_args :: "SymbolId \<Rightarrow> Term list \<Rightarrow> Term list \<Rightarrow> Term list" where
  "flat_args f [] acc = acc"
| "flat_args f (Var v # stack) acc = flat_args f stack (acc @ [Var v])"
| "flat_args f (App g args # stack) acc =
     (if g = f then flat_args f (rev args @ stack) acc else flat_args f stack (acc @ [App g args]))"
  by pat_completeness auto

termination
  by (relation "measure (\<lambda>(f, stack, acc). sum_list (map term_size stack))") (auto simp: sum_list_rev rev_map [symmetric])

definition swap_remove :: "nat \<Rightarrow> 'a list \<Rightarrow> 'a list" where
  "swap_remove i xs = butlast (xs[i := last xs])"

fun index_of :: "('a \<Rightarrow> bool) \<Rightarrow> 'a list \<Rightarrow> nat option" where
  "index_of p [] = None"
| "index_of p (x # xs) = (if p x then Some 0 else map_option Suc (index_of p xs))"

text \<open>Elements that occur on both sides are removed in pairs.\<close>

function cancel :: "('a \<Rightarrow> 'a \<Rightarrow> bool) \<Rightarrow> 'a list \<Rightarrow> 'a list \<Rightarrow> nat \<Rightarrow> 'a list \<times> 'a list" where
  "cancel eq s t i =
     (if i < length s
      then (case index_of (\<lambda>x. eq x (s ! i)) t of
          Some j \<Rightarrow> cancel eq (swap_remove i s) (swap_remove j t) i
        | None \<Rightarrow> cancel eq s t (i + 1))
      else (s, t))"
  by pat_completeness auto

termination
  by (relation "measure (\<lambda>(eq, s, t, i). length s - i)") (auto simp: swap_remove_def)

declare cancel.simps [simp del]

section \<open>The Knuth-Bendix ordering\<close>

type_synonym var_counts = "(VarId, 32 word) fmap"

definition count_of :: "var_counts \<Rightarrow> VarId \<Rightarrow> 32 word" where
  "count_of counts v = (case fmlookup counts v of Some n \<Rightarrow> n | None \<Rightarrow> 0)"

definition count_var :: "VarId \<Rightarrow> var_counts \<Rightarrow> var_counts" where
  "count_var v counts = fmupd v (count_of counts v + 1) counts"

text \<open>\<open>covers s t\<close>: \<open>t.iter().all(|(v, ct)| s.get(v).unwrap_or(0) >= ct)\<close>, a signed comparison.\<close>

definition covers :: "var_counts \<Rightarrow> var_counts \<Rightarrow> bool" where
  "covers s t \<longleftrightarrow> fmpred (\<lambda>v ct. sint ct \<le> sint (count_of s v)) t"

fun kbo_weight :: "SymbolConfig \<Rightarrow> Term \<Rightarrow> u32" where
  "kbo_weight cfg (Var v) = w0 cfg"
| "kbo_weight cfg (App f args) = symbol_weight cfg f + sum_list (map (kbo_weight cfg) args)"

fun collect_var_counts :: "Term \<Rightarrow> var_counts \<Rightarrow> var_counts" where
  "collect_var_counts (Var v) counts = count_var v counts"
| "collect_var_counts (App f args) counts = fold collect_var_counts args counts"

definition var_counts :: "Term \<Rightarrow> var_counts" where
  "var_counts t = collect_var_counts t fmempty"

text \<open>How a comparison of the first differing arguments decides.\<close>

fun guarded :: "bool \<Rightarrow> bool \<Rightarrow> TermComparison \<Rightarrow> TermComparison" where
  "guarded s_ge t_ge Greater = (if s_ge then Greater else Incomparable)"
| "guarded s_ge t_ge Less = (if t_ge then Less else Incomparable)"
| "guarded s_ge t_ge r = r"

fun lex_compare :: "('a \<Rightarrow> 'b \<Rightarrow> TermComparison) \<Rightarrow> ('a \<times> 'b) list \<Rightarrow> TermComparison" where
  "lex_compare cmp [] = Equal"
| "lex_compare cmp ((a, b) # ps) = (case cmp a b of Equal \<Rightarrow> lex_compare cmp ps | r \<Rightarrow> r)"

lemma lex_compare_cong [fundef_cong]:
  "ps = qs \<Longrightarrow> (\<And>a b. (a, b) \<in> set qs \<Longrightarrow> f a b = g a b) \<Longrightarrow> lex_compare f ps = lex_compare g qs"
  by (induction qs arbitrary: ps) (auto split: TermComparison.split)

text \<open>The comparison of what remains of two flattened argument lists.\<close>

definition multiset_compare :: "('a \<Rightarrow> 'a \<Rightarrow> TermComparison) \<Rightarrow> bool \<Rightarrow> bool \<Rightarrow> 'a list \<Rightarrow> 'a list \<Rightarrow> TermComparison" where
  "multiset_compare cmp s_ge t_ge ss ts =
     (if ss = [] \<and> ts = [] then Equal
      else if ss = [] then (if t_ge then Less else Incomparable)
      else if ts = [] then (if s_ge then Greater else Incomparable)
      else let s_gt_t = (\<forall>t \<in> set ts. \<exists>s \<in> set ss. cmp s t = Greater);
               t_gt_s = (\<forall>s \<in> set ss. \<exists>t \<in> set ts. cmp t s = Greater)
        in if s_gt_t \<and> \<not> t_gt_s \<and> s_ge then Greater
           else if t_gt_s \<and> \<not> s_gt_t \<and> t_ge then Less
           else Incomparable)"

lemma multiset_compare_cong [fundef_cong]:
  "a = a' \<Longrightarrow> b = b' \<Longrightarrow> ss = ss' \<Longrightarrow> ts = ts' \<Longrightarrow>
   (\<And>s t. s \<in> set ss' \<Longrightarrow> t \<in> set ts' \<Longrightarrow> f s t = g s t) \<Longrightarrow>
   (\<And>s t. s \<in> set ss' \<Longrightarrow> t \<in> set ts' \<Longrightarrow> f t s = g t s) \<Longrightarrow>
   multiset_compare f a b ss ts = multiset_compare g a' b' ss' ts'"
  by (simp add: multiset_compare_def cong: ball_cong bex_cong)

lemma swap_remove_subset: "set (swap_remove i xs) \<subseteq> set xs"
proof -
  have "set (xs[i := last xs]) \<subseteq> set xs" if "xs \<noteq> []" using set_update_subset_insert [of xs i "last xs"] that by auto
  then show ?thesis by (cases "xs = []") (auto simp: swap_remove_def dest: in_set_butlastD)
qed

lemma cancel_subset: "cancel eq s t i = (s', t') \<Longrightarrow> set s' \<subseteq> set s \<and> set t' \<subseteq> set t"
proof (induction eq s t i arbitrary: s' t' rule: cancel.induct)
  case (1 eq s t i)
  then show ?case using swap_remove_subset
    by (subst (asm) (3) cancel.simps) (fastforce split: if_splits option.splits)
qed

lemma flat_args_member:
  "x \<in> set (flat_args f stack acc) \<Longrightarrow> x \<in> set acc \<or> (\<exists>y \<in> set stack. term_size x \<le> term_size y)"
proof (induction f stack acc rule: flat_args.induct)
  case (3 f g args stack acc)
  show ?case
  proof (cases "g = f")
    case True
    then have "x \<in> set acc \<or> (\<exists>y \<in> set (rev args @ stack). term_size x \<le> term_size y)" using 3 by simp
    then show ?thesis using term_size_arg [of _ args g] by fastforce
  qed (use 3 in auto)
qed auto

lemma flat_args_smaller: "x \<in> set (flat_args f [App f args] []) \<Longrightarrow> term_size x < term_size (App f args)"
  using flat_args_member [of x f "rev args" "[]"] term_size_arg [of _ args f] by fastforce

function kbo_compare :: "bool \<Rightarrow> OrderParams \<Rightarrow> Term \<Rightarrow> Term \<Rightarrow> TermComparison" where
  "kbo_compare spent kbo s t =
     (if spent then Incomparable
      else if s = t then Equal
      else let s_counts = var_counts s; t_counts = var_counts t;
               s_ge = covers s_counts t_counts; t_ge = covers t_counts s_counts;
               ws = kbo_weight (config kbo) s; wt = kbo_weight (config kbo) t
      in if wt < ws \<and> s_ge then Greater
         else if ws < wt \<and> t_ge then Less
         else if ws \<noteq> wt then Incomparable
         else (case s of
             Var x \<Rightarrow> Incomparable
           | App f1 args1 \<Rightarrow> (case t of
               Var y \<Rightarrow> Incomparable
             | App f2 args2 \<Rightarrow>
                 if f1 \<noteq> f2 then
                   (let prec1 = symbol_precedence (config kbo) f1; prec2 = symbol_precedence (config kbo) f2
                    in if s_ge \<and> prec2 < prec1 then Greater
                       else if t_ge \<and> prec1 < prec2 then Less else Incomparable)
                 else if (case ac_symbols kbo of Some ac \<Rightarrow> f1 \<in> ac | None \<Rightarrow> False) then
                   (case cancel (=) (flat_args f1 [App f1 args1] []) (flat_args f1 [App f1 args2] []) 0 of
                      (ss, ts) \<Rightarrow> multiset_compare (kbo_compare spent kbo) s_ge t_ge ss ts)
                 else (case lex_compare (kbo_compare spent kbo) (zip args1 args2) of
                     Equal \<Rightarrow> Incomparable
                   | r \<Rightarrow> guarded s_ge t_ge r))))"
  by pat_completeness auto

termination
proof (relation "measure (\<lambda>(e, k, s, t). term_size s + term_size t)", goal_cases)
  case 1
  then show ?case by simp
next
  case (2 e k s t sc tc sg tg ws wt f1 args1 f2 args2 ss ts a b)
  then have "a \<in> set (flat_args f1 [App f1 args1] [])" "b \<in> set (flat_args f1 [App f1 args2] [])"
    using cancel_subset [of "(=)" "flat_args f1 [App f1 args1] []" "flat_args f1 [App f1 args2] []" 0 ss ts] by auto
  then have "term_size a < term_size s" "term_size b < term_size t"
    using flat_args_smaller 2 by (metis, metis)
  then show ?case by simp
next
  case (3 e k s t sc tc sg tg ws wt f1 args1 f2 args2 ss ts a b)
  then have "a \<in> set (flat_args f1 [App f1 args1] [])" "b \<in> set (flat_args f1 [App f1 args2] [])"
    using cancel_subset [of "(=)" "flat_args f1 [App f1 args1] []" "flat_args f1 [App f1 args2] []" 0 ss ts] by auto
  then have "term_size a < term_size s" "term_size b < term_size t"
    using flat_args_smaller 3 by (metis, metis)
  then show ?case by simp
next
  case (4 e k s t sc tc sg tg ws wt f1 args1 f2 args2 a b)
  then have "a \<in> set args1" "b \<in> set args2" by (auto dest: set_zip_leftD set_zip_rightD)
  then show ?case using 4 term_size_arg [of a args1 f1] term_size_arg [of b args2 f2] by simp
qed

declare kbo_compare.simps [simp del]

subsection \<open>On identifiers\<close>

text \<open>Short-circuit loops over a list, for a test that may not return.\<close>

fun anyM :: "('a \<Rightarrow> bool option) \<Rightarrow> 'a list \<Rightarrow> bool option" where
  "anyM p [] = Some False"
| "anyM p (x # xs) = do { r \<leftarrow> p x; if r then Some True else anyM p xs }"

definition allM :: "('a \<Rightarrow> bool option) \<Rightarrow> 'a list \<Rightarrow> bool option" where
  "allM p xs = do { r \<leftarrow> anyM (\<lambda>x. do { b \<leftarrow> p x; Some (\<not> b) }) xs; Some (\<not> r) }"

fun lex_compareM :: "('a \<Rightarrow> 'b \<Rightarrow> TermComparison option) \<Rightarrow> ('a \<times> 'b) list \<Rightarrow> TermComparison option" where
  "lex_compareM cmp [] = Some Equal"
| "lex_compareM cmp (p # ps) = do {
     r \<leftarrow> cmp (fst p) (snd p);
     if r = Equal then lex_compareM cmp ps else Some r }"

definition multiset_compareM :: "('a \<Rightarrow> 'a \<Rightarrow> TermComparison option) \<Rightarrow> bool \<Rightarrow> bool \<Rightarrow> 'a list \<Rightarrow> 'a list \<Rightarrow> TermComparison option" where
  "multiset_compareM cmp s_ge t_ge ss ts =
     (if ss = [] \<and> ts = [] then Some Equal
      else if ss = [] then Some (if t_ge then Less else Incomparable)
      else if ts = [] then Some (if s_ge then Greater else Incomparable)
      else do {
        s_gt_t \<leftarrow> allM (\<lambda>t. anyM (\<lambda>s. do { r \<leftarrow> cmp s t; Some (r = Greater) }) ss) ts;
        t_gt_s \<leftarrow> allM (\<lambda>s. anyM (\<lambda>t. do { r \<leftarrow> cmp t s; Some (r = Greater) }) ts) ss;
        Some (if s_gt_t \<and> \<not> t_gt_s \<and> s_ge then Greater
          else if t_gt_s \<and> \<not> s_gt_t \<and> t_ge then Less
          else Incomparable) })"

lemma const_mono: "mono_option (\<lambda>f. c)"
  by (simp add: monotone_def option.leq_refl)

lemma if_mono: "mono_option A \<Longrightarrow> mono_option B \<Longrightarrow> mono_option (\<lambda>f. if c then A f else B f)"
  by (cases c) simp_all

lemma anyM_mono [partial_function_mono]:
  assumes "\<And>x. mono_option (\<lambda>f. B f x)"
  shows "mono_option (\<lambda>f. anyM (B f) xs)"
proof (induction xs)
  case (Cons x xs)
  then show ?case unfolding anyM.simps by (intro bind_mono assms if_mono const_mono)
qed (simp add: const_mono)

lemma allM_mono [partial_function_mono]:
  assumes "\<And>x. mono_option (\<lambda>f. B f x)"
  shows "mono_option (\<lambda>f. allM (B f) xs)"
  unfolding allM_def by (intro bind_mono anyM_mono assms const_mono)

lemma lex_compareM_mono [partial_function_mono]:
  assumes "\<And>x y. mono_option (\<lambda>f. B f x y)"
  shows "mono_option (\<lambda>f. lex_compareM (B f) ps)"
proof (induction ps)
  case (Cons p ps)
  then show ?case unfolding lex_compareM.simps by (intro bind_mono assms if_mono const_mono)
qed (simp add: const_mono)

lemma multiset_compareM_mono [partial_function_mono]:
  assumes "\<And>x y. mono_option (\<lambda>f. B f x y)"
  shows "mono_option (\<lambda>f. multiset_compareM (B f) a b ss ts)"
  unfolding multiset_compareM_def by (intro if_mono bind_mono allM_mono anyM_mono assms const_mono)

partial_function (option) kbo_weight_id :: "SymbolConfig \<Rightarrow> TermBank \<Rightarrow> TermId \<Rightarrow> u32 option" where
  "kbo_weight_id cfg bank i = do {
     node \<leftarrow> node_at bank i;
     case node of
       NVar v \<Rightarrow> Some (w0 cfg)
     | NApp f args \<Rightarrow> do { ws \<leftarrow> mapM (kbo_weight_id cfg bank) args; Some (symbol_weight cfg f + sum_list ws) } }"

partial_function (option) collect_var_counts_id :: "TermBank \<Rightarrow> TermId \<Rightarrow> var_counts \<Rightarrow> var_counts option" where
  "collect_var_counts_id bank i counts = do {
     node \<leftarrow> node_at bank i;
     case node of
       NVar v \<Rightarrow> Some (count_var v counts)
     | NApp f args \<Rightarrow> foldM (collect_var_counts_id bank) args counts }"

definition var_counts_id :: "TermBank \<Rightarrow> TermId \<Rightarrow> var_counts option" where
  "var_counts_id bank i = collect_var_counts_id bank i fmempty"

partial_function (option) kbo_compare_id :: "bool \<Rightarrow> OrderParams \<Rightarrow> TermBank \<Rightarrow> TermId \<Rightarrow> TermId \<Rightarrow> TermComparison option" where
  "kbo_compare_id spent kbo bank s t =
     (if spent then Some Incomparable
      else if s = t then Some Equal
      else do {
        s_counts \<leftarrow> var_counts_id bank s;
        t_counts \<leftarrow> var_counts_id bank t;
        let s_ge = covers s_counts t_counts; t_ge = covers t_counts s_counts in do {
          ws \<leftarrow> kbo_weight_id (config kbo) bank s;
          wt \<leftarrow> kbo_weight_id (config kbo) bank t;
          if wt < ws \<and> s_ge then Some Greater
          else if ws < wt \<and> t_ge then Some Less
          else if ws \<noteq> wt then Some Incomparable
          else do {
            ns \<leftarrow> node_at bank s;
            nt \<leftarrow> node_at bank t;
            case ns of
              NVar x \<Rightarrow> Some Incomparable
            | NApp f1 args1 \<Rightarrow> (case nt of
                NVar y \<Rightarrow> Some Incomparable
              | NApp f2 args2 \<Rightarrow>
                  if f1 \<noteq> f2 then
                    (let prec1 = symbol_precedence (config kbo) f1; prec2 = symbol_precedence (config kbo) f2
                     in Some (if s_ge \<and> prec2 < prec1 then Greater
                        else if t_ge \<and> prec1 < prec2 then Less else Incomparable))
                  else if (case ac_symbols kbo of Some ac \<Rightarrow> f1 \<in> ac | None \<Rightarrow> False) then do {
                    flat1 \<leftarrow> flat_args_id bank f1 [s] [];
                    flat2 \<leftarrow> flat_args_id bank f2 [t] [];
                    let remaining = cancel (=) flat1 flat2 0
                    in multiset_compareM (kbo_compare_id spent kbo bank) s_ge t_ge (fst remaining) (snd remaining) }
                  else do {
                    r \<leftarrow> lex_compareM (kbo_compare_id spent kbo bank) (zip args1 args2);
                    Some (guarded s_ge t_ge r) }) } } })"

section \<open>The two versions agree\<close>

abbreviation reads :: "TermBank \<Rightarrow> TermId list \<Rightarrow> Term list \<Rightarrow> bool" where
  "reads b \<equiv> list_all2 (\<lambda>i t. to_legacy b i = Some t)"

lemma flat_args_id_reads:
  "reads b stack S \<Longrightarrow> reads b acc A \<Longrightarrow> \<exists>js. flat_args_id b f stack acc = Some js \<and> reads b js (flat_args f S A)"
proof (induction f S A arbitrary: stack acc rule: flat_args.induct)
  case (1 f A)
  then show ?case by (subst flat_args_id.simps) simp
next
  case (2 f v S A)
  then obtain i st where st: "stack = i # st" "to_legacy b i = Some (Var v)" "reads b st S"
    by (auto simp: list_all2_Cons2)
  have "reads b (acc @ [i]) (A @ [Var v])" using 2(3) st(2) by (auto intro: list_all2_appendI)
  from 2(1) [OF st(3) this] show ?case
    using st(1,2) by (subst flat_args_id.simps) (simp add: to_legacy_Var)
next
  case (3 f g ts S A)
  then obtain i st where st: "stack = i # st" "to_legacy b i = Some (App g ts)" "reads b st S"
    by (auto simp: list_all2_Cons2)
  then obtain args where args: "node_at b i = Some (NApp g args)" "reads b args ts"
    by (auto simp: to_legacy_App mapM_list_all2)
  show ?case
  proof (cases "g = f")
    case True
    have "reads b (rev args @ st) (rev ts @ S)" using args(2) st(3) by (auto intro: list_all2_appendI)
    from 3(1) [OF True this 3(4)] show ?thesis using st(1) args(1) True by (subst flat_args_id.simps) simp
  next
    case False
    have "reads b (acc @ [i]) (A @ [App g ts])" using 3(4) st(2) by (auto intro: list_all2_appendI)
    from 3(2) [OF False st(3) this] show ?thesis using st(1) args(1) False by (subst flat_args_id.simps) simp
  qed
qed

lemma index_of_rel:
  "list_all2 R xs ys \<Longrightarrow> (\<And>x y. R x y \<Longrightarrow> p x = q y) \<Longrightarrow> index_of p xs = index_of q ys"
  by (induction rule: list_all2_induct) auto

lemma index_of_less: "index_of p xs = Some j \<Longrightarrow> j < length xs \<and> p (xs ! j)"
  by (induction xs arbitrary: j) (auto split: if_splits)

lemma list_all2_last: "list_all2 R xs ys \<Longrightarrow> xs \<noteq> [] \<Longrightarrow> R (last xs) (last ys)"
  by (induction rule: list_all2_induct) (auto dest: list_all2_lengthD)

lemma swap_remove_rel:
  assumes "list_all2 R xs ys" "i < length xs"
  shows "list_all2 R (swap_remove i xs) (swap_remove i ys)"
proof -
  have "list_all2 R (xs[i := last xs]) (ys[i := last ys])"
    using assms list_all2_last [OF assms(1)] by (cases "xs = []") (auto intro: list_all2_update_cong)
  then show ?thesis using list_all2_lengthD [OF assms(1)]
    unfolding swap_remove_def butlast_conv_take by (simp add: list_all2_takeI)
qed

lemma cancel_stop: "\<not> i < length s \<Longrightarrow> cancel eq s t i = (s, t)"
  by (subst cancel.simps) simp

lemma cancel_skip: "i < length s \<Longrightarrow> index_of (\<lambda>x. eq x (s ! i)) t = None \<Longrightarrow> cancel eq s t i = cancel eq s t (i + 1)"
  by (subst cancel.simps) simp

lemma cancel_pair: "i < length s \<Longrightarrow> index_of (\<lambda>x. eq x (s ! i)) t = Some j \<Longrightarrow>
    cancel eq s t i = cancel eq (swap_remove i s) (swap_remove j t) i"
  by (subst cancel.simps) simp

lemma cancel_rel:
  assumes "\<And>x y X Y. R x X \<Longrightarrow> R y Y \<Longrightarrow> eq x y = EQ X Y"
  shows "list_all2 R s S \<Longrightarrow> list_all2 R t T \<Longrightarrow>
    list_all2 R (fst (cancel eq s t i)) (fst (cancel EQ S T i)) \<and>
    list_all2 R (snd (cancel eq s t i)) (snd (cancel EQ S T i))"
  using assms
proof (induction eq s t i arbitrary: S T rule: cancel.induct)
  case (1 eq s t i)
  note R = 1(5)
  show ?case
  proof (cases "i < length s")
    case True
    then have i: "i < length S" "R (s ! i) (S ! i)" using 1(3) by (auto simp: list_all2_conv_all_nth)
    have same: "index_of (\<lambda>x. eq x (s ! i)) t = index_of (\<lambda>x. EQ x (S ! i)) T"
      by (rule index_of_rel [OF 1(4)]) (rule R [OF _ i(2)])
    show ?thesis
    proof (cases "index_of (\<lambda>x. eq x (s ! i)) t")
      case None
      then have none: "index_of (\<lambda>x. EQ x (S ! i)) T = None" using same by simp
      from 1(1) [OF True None 1(3,4) R] show ?thesis
        unfolding cancel_skip [of i s eq t, OF True None] cancel_skip [of i S EQ T, OF i(1) none] by blast
    next
      case (Some j)
      then have "j < length t" using index_of_less by blast
      note IH = 1(2) [OF True Some swap_remove_rel [OF 1(3) True] swap_remove_rel [OF 1(4) this] R]
      have some: "index_of (\<lambda>x. EQ x (S ! i)) T = Some j" using same Some by simp
      from IH show ?thesis
        unfolding cancel_pair [of i s eq t, OF True Some] cancel_pair [of i S EQ T, OF i(1) some] by blast
    qed
  next
    case False
    then have "\<not> i < length S" using 1(3) by (auto dest: list_all2_lengthD)
    then show ?thesis using 1(3,4) False by (simp add: cancel_stop)
  qed
qed

lemma anyM_exact: "(\<And>x. x \<in> set xs \<Longrightarrow> p x = Some (q x)) \<Longrightarrow> anyM p xs = Some (\<exists>x \<in> set xs. q x)"
  by (induction xs) auto

lemma allM_exact: "(\<And>x. x \<in> set xs \<Longrightarrow> p x = Some (q x)) \<Longrightarrow> allM p xs = Some (\<forall>x \<in> set xs. q x)"
  using anyM_exact [of xs "\<lambda>x. do { b \<leftarrow> p x; Some (\<not> b) }" "\<lambda>x. \<not> q x"] by (simp add: allM_def)

lemma lex_compareM_rel:
  "list_all2 (\<lambda>(x, y) (X, Y). cmp x y = Some (cmp' X Y)) ps qs \<Longrightarrow> lex_compareM cmp ps = Some (lex_compare cmp' qs)"
  by (induction rule: list_all2_induct) (auto split: TermComparison.split)

lemma multiset_compareM_exact:
  assumes "\<And>x y. x \<in> set ss \<Longrightarrow> y \<in> set ts \<Longrightarrow> cmp x y = Some (cmp' x y) \<and> cmp y x = Some (cmp' y x)"
  shows "multiset_compareM cmp a b ss ts = Some (multiset_compare cmp' a b ss ts)"
proof -
  have "allM (\<lambda>t. anyM (\<lambda>s. do { r \<leftarrow> cmp s t; Some (r = Greater) }) ss) ts =
      Some (\<forall>t \<in> set ts. \<exists>s \<in> set ss. cmp' s t = Greater)"
    by (intro allM_exact anyM_exact) (simp add: assms)
  moreover have "allM (\<lambda>s. anyM (\<lambda>t. do { r \<leftarrow> cmp t s; Some (r = Greater) }) ts) ss =
      Some (\<forall>s \<in> set ss. \<exists>t \<in> set ts. cmp' t s = Greater)"
    by (intro allM_exact anyM_exact) (simp add: assms)
  ultimately show ?thesis
    unfolding multiset_compareM_def multiset_compare_def by (simp only: bind.bind_lunit Let_def if_distrib [of Some])
qed

lemma lex_compare_rel:
  "list_all2 R ps qs \<Longrightarrow> (\<And>a b c d. R (a, b) (c, d) \<Longrightarrow> f a b = g c d) \<Longrightarrow> lex_compare f ps = lex_compare g qs"
  by (induction rule: list_all2_induct) (auto split: TermComparison.split)

lemma multiset_compare_rel:
  assumes "list_all2 R ss us" "list_all2 R ts vs"
    and "\<And>s u t v. R s u \<Longrightarrow> R t v \<Longrightarrow> f s t = g u v"
  shows "multiset_compare f a b ss ts = multiset_compare g a b us vs"
proof -
  have "ss = [] \<longleftrightarrow> us = []" "ts = [] \<longleftrightarrow> vs = []" using assms(1,2) by auto
  moreover have "(\<forall>t \<in> set ts. \<exists>s \<in> set ss. f s t = Greater) \<longleftrightarrow> (\<forall>v \<in> set vs. \<exists>u \<in> set us. g u v = Greater)"
    by (intro list_all2_ball_iff [OF list_all2_mono [OF assms(2)]] list_all2_bex_iff [OF list_all2_mono [OF assms(1)]])
      (simp add: assms(3))
  moreover have "(\<forall>s \<in> set ss. \<exists>t \<in> set ts. f t s = Greater) \<longleftrightarrow> (\<forall>u \<in> set us. \<exists>v \<in> set vs. g v u = Greater)"
    by (intro list_all2_ball_iff [OF list_all2_mono [OF assms(1)]] list_all2_bex_iff [OF list_all2_mono [OF assms(2)]])
      (simp add: assms(3))
  ultimately show ?thesis unfolding multiset_compare_def by (simp only:)
qed

lemma kbo_weight_id_exact: "to_legacy b i = Some t \<Longrightarrow> kbo_weight_id cfg b i = Some (kbo_weight cfg t)"
proof (induction t arbitrary: i)
  case (Var v)
  then show ?case by (subst kbo_weight_id.simps) (simp add: to_legacy_Var)
next
  case (App f ts)
  then obtain args where args: "node_at b i = Some (NApp f args)" "reads b args ts"
    by (auto simp: to_legacy_App mapM_list_all2)
  have "list_all2 (\<lambda>x y. kbo_weight_id cfg b x = Some y) args (map (kbo_weight cfg) ts)"
    using args(2) App.IH by (auto simp: list_all2_conv_all_nth)
  then show ?case using args(1) by (subst kbo_weight_id.simps) (simp add: mapM_list_all2 [symmetric])
qed

lemma collect_var_counts_id_exact:
  "to_legacy b i = Some t \<Longrightarrow> collect_var_counts_id b i counts = Some (collect_var_counts t counts)"
proof (induction t arbitrary: i counts)
  case (Var v)
  then show ?case by (subst collect_var_counts_id.simps) (simp add: to_legacy_Var)
next
  case (App f ts)
  then obtain args where args: "node_at b i = Some (NApp f args)" "reads b args ts"
    by (auto simp: to_legacy_App mapM_list_all2)
  have "foldM (collect_var_counts_id b) args counts = Some (fold collect_var_counts ts counts)" for counts
    using args(2) App.IH
  proof (induction arbitrary: counts rule: list_all2_induct)
    case (Cons x xs y ys)
    have "collect_var_counts_id b x counts = Some (collect_var_counts y counts)"
      using Cons.hyps(1) Cons.prems by simp
    moreover have "foldM (collect_var_counts_id b) xs counts = Some (fold collect_var_counts ys counts)" for counts
      using Cons.IH Cons.prems by simp
    ultimately show ?case by simp
  qed simp
  then show ?case using args(1) by (subst collect_var_counts_id.simps) simp
qed

lemma var_counts_id_exact: "to_legacy b i = Some t \<Longrightarrow> var_counts_id b i = Some (var_counts t)"
  by (simp add: var_counts_id_def var_counts_def collect_var_counts_id_exact)

text \<open>Terms in which every symbol has one number of arguments.\<close>

fun consistent :: "(SymbolId \<Rightarrow> nat) \<Rightarrow> Term \<Rightarrow> bool" where
  "consistent ar (Var v) \<longleftrightarrow> True"
| "consistent ar (App f ts) \<longleftrightarrow> length ts = ar f \<and> (\<forall>t \<in> set ts. consistent ar t)"

lemma guarded_Equal: "guarded a b r = Equal \<Longrightarrow> r = Equal"
  by (cases r) (auto split: if_splits)

lemma kbo_compare_refl: "kbo_compare spent kbo s s = (if spent then Incomparable else Equal)"
  by (subst kbo_compare.simps) simp

lemma lex_compare_Equal: "lex_compare f ps = Equal \<longleftrightarrow> (\<forall>(a, b) \<in> set ps. f a b = Equal)"
  by (induction ps) (auto split: TermComparison.splits)

lemma kbo_compare_Equal:
  assumes "ac_symbols kbo = None" "kbo_compare spent kbo s t = Equal"
  shows "s = t"
proof (rule ccontr)
  assume "s \<noteq> t"
  then show False using assms(2)
    by (subst (asm) kbo_compare.simps)
      (auto simp: Let_def assms(1) split: if_splits Term.splits TermComparison.splits dest: guarded_Equal)
qed

lemma kbo_compare_id_exact:
  assumes wf: "nodes_wf b" and ac: "ac_symbols kbo = None"
  shows "to_legacy b i = Some s \<Longrightarrow> to_legacy b j = Some t \<Longrightarrow> consistent ar s \<Longrightarrow> consistent ar t \<Longrightarrow>
    kbo_compare_id spent kbo b i j = Some (kbo_compare spent kbo s t)"
proof (induction "term_size s + term_size t" arbitrary: i j s t rule: less_induct)
  case less
  have same: "i = j \<longleftrightarrow> s = t" using less.prems(1,2) to_legacy_inject [OF wf] by auto
  note exact = var_counts_id_exact [OF less.prems(1)] var_counts_id_exact [OF less.prems(2)]
    kbo_weight_id_exact [OF less.prems(1)] kbo_weight_id_exact [OF less.prems(2)]
  show ?case
  proof (cases s)
    case (Var v)
    then have "node_at b i = Some (NVar v)" using less.prems(1) by (simp add: to_legacy_Var)
    moreover obtain nt where "node_at b j = Some nt" using less.prems(2) by (metis to_legacy_cases)
    ultimately show ?thesis using Var
      by (subst kbo_compare_id.simps, subst kbo_compare.simps) (simp add: Let_def exact same split: TermNode.split)
  next
    case s: (App f ts)
    then obtain as where n: "node_at b i = Some (NApp f as)" "reads b as ts"
      using less.prems(1) by (auto simp: to_legacy_App mapM_list_all2)
    show ?thesis
    proof (cases t)
      case (Var v)
      then have "node_at b j = Some (NVar v)" using less.prems(2) by (simp add: to_legacy_Var)
      then show ?thesis using Var s n
        by (subst kbo_compare_id.simps, subst kbo_compare.simps) (simp add: Let_def exact same)
    next
      case t: (App g us)
      then obtain bs where m: "node_at b j = Some (NApp g bs)" "reads b bs us"
        using less.prems(2) by (auto simp: to_legacy_App mapM_list_all2)
      show ?thesis
      proof (cases "g = f \<and> s \<noteq> t")
        case False
        then consider "g \<noteq> f" | "s = t" by blast
        then show ?thesis
        proof cases
          case 1
          then show ?thesis using s t n(1) m(1)
            by (subst kbo_compare_id.simps, subst kbo_compare.simps) (simp add: Let_def exact same)
        next
          case 2
          then show ?thesis
            by (subst kbo_compare_id.simps, subst kbo_compare.simps) (simp add: same)
        qed
      next
        case True
        then have len: "length ts = length us" using less.prems(3,4) s t by simp
        have "kbo_compare_id spent kbo b (as ! k) (bs ! k) = Some (kbo_compare spent kbo (ts ! k) (us ! k))"
          if "k < length ts" for k
          using that n(2) m(2) less.prems(3,4) s t len term_size_arg [of "ts ! k" ts f] term_size_arg [of "us ! k" us g]
          by (intro less.hyps) (auto simp: list_all2_conv_all_nth)
        then have "list_all2 (\<lambda>(x, y) (X, Y). kbo_compare_id spent kbo b x y = Some (kbo_compare spent kbo X Y))
            (zip as bs) (zip ts us)"
          using n(2) m(2) len by (auto simp: list_all2_conv_all_nth)
        note lex = lex_compareM_rel [OF this]
        have "lex_compare (kbo_compare spent kbo) (zip ts us) \<noteq> Equal"
        proof
          assume "lex_compare (kbo_compare spent kbo) (zip ts us) = Equal"
          then have "ts ! k = us ! k" if "k < length ts" for k
            using that len kbo_compare_Equal [OF ac, of spent "ts ! k" "us ! k"]
            by (auto simp: lex_compare_Equal set_zip)
          then have "ts = us" using len by (simp add: list_eq_iff_nth_eq)
          then show False using True s t by auto
        qed
        then have "(case lex_compare (kbo_compare spent kbo) (zip ts us) of Equal \<Rightarrow> Incomparable | r \<Rightarrow> guarded x y r) =
            guarded x y (lex_compare (kbo_compare spent kbo) (zip ts us))" for x y
          by (simp split: TermComparison.split)
        note lex = lex this
        show ?thesis
        proof (cases spent)
          case True
          then show ?thesis by (subst kbo_compare_id.simps, subst kbo_compare.simps) simp
        next
          case go: False
          show ?thesis using True s t n(1) m(1) lex go
            by (subst kbo_compare_id.simps, subst kbo_compare.simps) (simp add: Let_def exact same ac)
        qed
      qed
    qed
  qed
qed

section \<open>Comparing in the other direction\<close>

fun opposite :: "TermComparison \<Rightarrow> TermComparison" where
  "opposite Greater = Less"
| "opposite Less = Greater"
| "opposite Equal = Equal"
| "opposite Incomparable = Incomparable"

lemma mset_swap_remove: "i < length xs \<Longrightarrow> mset (swap_remove i xs) = mset xs - {#xs ! i#}"
proof -
  assume i: "i < length xs"
  let ?ys = "xs[i := last xs]"
  have "xs \<noteq> []" using i by auto
  then have "last ?ys = last xs" by (simp add: last_list_update)
  then have "mset ?ys = add_mset (last xs) (mset (butlast ?ys))"
    using i by (metis append_butlast_last_id list.size(3) length_list_update mset_append mset_single_iff not_less0
        union_mset_add_mset_right add.right_neutral mset.simps(1) mset.simps(2))
  moreover have "mset ?ys = add_mset (last xs) (mset xs - {#xs ! i#})" using i by (simp add: mset_update)
  ultimately show ?thesis by (simp add: swap_remove_def)
qed

lemma cancel_mset:
  "i \<le> length s \<Longrightarrow> set (take i s) \<inter> set t = {} \<Longrightarrow>
   mset (fst (cancel (=) s t i)) = mset s - mset t \<and> mset (snd (cancel (=) s t i)) = mset t - mset s"
proof (induction "(=) :: 'a \<Rightarrow> 'a \<Rightarrow> bool" s t i rule: cancel.induct)
  case (1 s t i)
  show ?case
  proof (cases "i < length s")
    case True
    show ?thesis
    proof (cases "index_of (\<lambda>x. x = s ! i) t")
      case None
      have "s ! i \<notin> set t" using None by (induction t) (auto split: if_splits)
      then have "set (take (i + 1) s) \<inter> set t = {}" using True 1(4) by (simp add: take_Suc_conv_app_nth)
      then show ?thesis using 1(1) [OF True None] True cancel_skip [of i s "(=)" t, OF True None] by simp
    next
      case (Some j)
      then have j: "j < length t" "t ! j = s ! i" using index_of_less by blast+
      have len: "i \<le> length (swap_remove i s)" using True by (simp add: swap_remove_def)
      have "take i (swap_remove i s) = take i s"
        using True by (intro nth_equalityI) (simp_all add: swap_remove_def nth_butlast)
      then have "set (take i (swap_remove i s)) \<inter> set (swap_remove j t) = {}"
        using 1(4) swap_remove_subset [of j t] by auto
      note IH = 1(2) [OF True Some len this]
      have m: "s ! i \<in># mset t" using j by (metis nth_mem_mset)
      show ?thesis using IH m True j
        by (simp add: cancel_pair [of i s "(=)" t, OF True Some] mset_swap_remove)
    qed
  next
    case False
    then have "set s \<inter> set t = {}" using 1(3,4) by simp
    then have "x \<notin> set s \<or> x \<notin> set t" for x by blast
    then have "mset s - mset t = mset s" "mset t - mset s = mset t"
      by (auto intro!: multiset_eqI simp: count_mset count_list_0_iff [symmetric]) (metis count_list_0_iff diff_0_eq_0 diff_zero)+
    then show ?thesis using False by (simp add: cancel_stop)
  qed
qed

lemma multiset_compare_opposite:
  assumes "set us = set ss" "set vs = set ts"
  shows "multiset_compare cmp b a vs us = opposite (multiset_compare cmp a b ss ts)"
proof -
  have "us = [] \<longleftrightarrow> ss = []" "vs = [] \<longleftrightarrow> ts = []" using assms by (metis set_empty)+
  then show ?thesis unfolding multiset_compare_def assms Let_def by (simp only: if_distrib [of opposite] opposite.simps) argo
qed

lemma lex_compare_opposite:
  "(\<And>x y. (x, y) \<in> set ps \<Longrightarrow> f y x = opposite (f x y)) \<Longrightarrow>
   lex_compare f (map (\<lambda>(x, y). (y, x)) ps) = opposite (lex_compare f ps)"
  by (induction ps) (auto split: TermComparison.split)

lemma guarded_opposite: "guarded a b (opposite r) = opposite (guarded b a r)"
  by (cases r) auto

lemma opposite_Equal [simp]: "opposite r = Equal \<longleftrightarrow> r = Equal"
  by (cases r) auto

text \<open>What is decided before and after the weights are known to be equal.\<close>

definition by_weight :: "u32 \<Rightarrow> u32 \<Rightarrow> bool \<Rightarrow> bool \<Rightarrow> TermComparison \<Rightarrow> TermComparison" where
  "by_weight ws wt s_ge t_ge r =
     (if wt < ws \<and> s_ge then Greater else if ws < wt \<and> t_ge then Less else if ws \<noteq> wt then Incomparable else r)"

definition same_weight :: "OrderParams \<Rightarrow> bool \<Rightarrow> bool \<Rightarrow> Term \<Rightarrow> Term \<Rightarrow> TermComparison" where
  "same_weight kbo s_ge t_ge s t = (case (s, t) of
     (App f ss, App g ts) \<Rightarrow>
       if f \<noteq> g then (let p = symbol_precedence (config kbo) f; q = symbol_precedence (config kbo) g
         in if s_ge \<and> q < p then Greater else if t_ge \<and> p < q then Less else Incomparable)
       else if (case ac_symbols kbo of Some ac \<Rightarrow> f \<in> ac | None \<Rightarrow> False) then
         (let c = cancel (=) (flat_args f [s] []) (flat_args f [t] []) 0
          in multiset_compare (kbo_compare False kbo) s_ge t_ge (fst c) (snd c))
       else (let r = lex_compare (kbo_compare False kbo) (zip ss ts)
         in if r = Equal then Incomparable else guarded s_ge t_ge r)
   | _ \<Rightarrow> Incomparable)"

lemma kbo_compare_steps:
  "kbo_compare spent kbo s t = (if spent then Incomparable else if s = t then Equal
     else let s_ge = covers (var_counts s) (var_counts t); t_ge = covers (var_counts t) (var_counts s)
       in by_weight (kbo_weight (config kbo) s) (kbo_weight (config kbo) t) s_ge t_ge (same_weight kbo s_ge t_ge s t))"
proof (cases spent)
  case False
  then show ?thesis
    by (subst kbo_compare.simps)
      (simp add: Let_def by_weight_def same_weight_def split_def split: Term.split TermComparison.split)
qed (simp add: kbo_compare.simps)

lemma by_weight_opposite: "by_weight wt ws b a (opposite r) = opposite (by_weight ws wt a b r)"
  by (auto simp: by_weight_def)

text \<open>
  C22. The Knuth-Bendix comparison of two terms is the opposite of the comparison in the other
  direction, for every configuration, with and without associative and commutative symbols and
  also where weights or counts overflow.
\<close>

theorem kbo_compare_opposite:
  "kbo_compare spent kbo t s = opposite (kbo_compare spent kbo s t)"
proof (induction "term_size s + term_size t" arbitrary: s t rule: less_induct)
  case less
  let ?cmp = "kbo_compare False kbo"
  have "same_weight kbo b a t s = opposite (same_weight kbo a b s t)" if "\<not> spent" for a b
  proof (cases "\<exists>f ts us. s = App f ts \<and> t = App f us")
    case False
    then show ?thesis by (auto simp: same_weight_def Let_def split: Term.split)
  next
    case True
    then obtain f ts us where st: "s = App f ts" "t = App f us" by blast
    have "?cmp y x = opposite (?cmp x y)" if "(x, y) \<in> set (zip ts us)" for x y
    proof -
      have "x \<in> set ts" "y \<in> set us" using that by (auto dest: set_zip_leftD set_zip_rightD)
      then show ?thesis using term_size_arg [of x ts f] term_size_arg [of y us f] st \<open>\<not> spent\<close> less.hyps [of x y]
        by simp
    qed
    then have lex: "lex_compare ?cmp (zip us ts) = opposite (lex_compare ?cmp (zip ts us))"
      using lex_compare_opposite [of "zip ts us" ?cmp] zip_commute [of us ts] by simp
    let ?c = "cancel (=) (flat_args f [s] []) (flat_args f [t] []) 0"
      and ?d = "cancel (=) (flat_args f [t] []) (flat_args f [s] []) 0"
    have "mset (fst ?d) = mset (snd ?c)" "mset (snd ?d) = mset (fst ?c)"
      by (simp_all add: cancel_mset)
    then have "set (fst ?d) = set (snd ?c)" "set (snd ?d) = set (fst ?c)" by (metis set_mset_mset)+
    then have "multiset_compare ?cmp b a (fst ?d) (snd ?d) = opposite (multiset_compare ?cmp a b (fst ?c) (snd ?c))"
      by (intro multiset_compare_opposite)
    then show ?thesis using lex guarded_opposite st by (simp add: same_weight_def Let_def)
  qed
  then show ?case by (simp add: kbo_compare_steps [of spent] Let_def by_weight_opposite)
qed

end
