(* ===== verification/Fvi.thy ===== *)
theory Fvi
  imports Subsumption Cells Ordering "HOL-Library.Multiset"
begin

unbundle bit_operations_syntax

text \<open>
  Feature vectors of clauses and the tree that is searched with them,
  \<open>crates/mrs-index/src/fvi.rs\<close>. The children of an inner node are kept in ascending order of their
  feature values and found by binary search; here they are an ordered map. The array of 64 counters
  is a list of that length.
\<close>

section \<open>Feature vectors\<close>

type_synonym u16 = "16 word"

record FeatureVector =
  num_lits :: u32
  pos_lits :: u32
  neg_lits :: u32
  sym_counts :: "u16 list"

definition fv_default :: FeatureVector where
  "fv_default = \<lparr>num_lits = 0, pos_lits = 0, neg_lits = 0, sym_counts = replicate 64 0\<rparr>"

definition bucket :: "SymbolId \<Rightarrow> nat" where
  "bucket s = unat (s AND 63)"

definition sat_inc :: "u16 \<Rightarrow> u16" where
  "sat_inc n = (if n = - 1 then n else n + 1)"

definition increment :: "SymbolId \<Rightarrow> FeatureVector \<Rightarrow> FeatureVector" where
  "increment s fv = fv\<lparr>sym_counts := (sym_counts fv)[bucket s := sat_inc (sym_counts fv ! bucket s)]\<rparr>"

definition get_count :: "FeatureVector \<Rightarrow> SymbolId \<Rightarrow> u16" where
  "get_count fv s = sym_counts fv ! bucket s"

fun count_term :: "Term \<Rightarrow> FeatureVector \<Rightarrow> FeatureVector" where
  "count_term (Var v) fv = fv"
| "count_term (App f args) fv = fold count_term args (increment f fv)"

definition count_literal :: "Literal \<Rightarrow> FeatureVector \<Rightarrow> FeatureVector" where
  "count_literal l fv =
     (let fv = (if positive l then fv\<lparr>pos_lits := pos_lits fv + 1\<rparr> else fv\<lparr>neg_lits := neg_lits fv + 1\<rparr>) in
      case atom l of
        Pred p args \<Rightarrow> fold count_term args (increment p fv)
      | Eq s t \<Rightarrow> count_term t (count_term s fv))"

definition from_clause :: "Clause \<Rightarrow> FeatureVector" where
  "from_clause c = fold count_literal (literals c) (fv_default\<lparr>num_lits := of_nat (length (literals c))\<rparr>)"

partial_function (option) count_term_id :: "TermBank \<Rightarrow> TermId \<Rightarrow> FeatureVector \<Rightarrow> FeatureVector option" where
  "count_term_id bank i fv = do {
     node \<leftarrow> node_at bank i;
     case node of
       NVar v \<Rightarrow> Some fv
     | NApp f args \<Rightarrow> foldM (count_term_id bank) args (increment f fv) }"

definition count_literal_id :: "TermBank \<Rightarrow> IdLiteral \<Rightarrow> FeatureVector \<Rightarrow> FeatureVector option" where
  "count_literal_id bank l fv =
     (let fv = (if id_positive l then fv\<lparr>pos_lits := pos_lits fv + 1\<rparr> else fv\<lparr>neg_lits := neg_lits fv + 1\<rparr>) in
      case id_atom l of
        IdPred p args \<Rightarrow> foldM (count_term_id bank) args (increment p fv)
      | IdEq s t \<Rightarrow> do { fv \<leftarrow> count_term_id bank s fv; count_term_id bank t fv })"

definition from_id_clause :: "IdClause \<Rightarrow> TermBank \<Rightarrow> FeatureVector option" where
  "from_id_clause c bank = foldM (count_literal_id bank) (idc_literals c)
     (fv_default\<lparr>num_lits := of_nat (length (idc_literals c))\<rparr>)"

definition sym_counts_le :: "FeatureVector \<Rightarrow> FeatureVector \<Rightarrow> bool" where
  "sym_counts_le fv other = (\<not> fold (\<lambda>i any. any \<or> sym_counts other ! i < sym_counts fv ! i) [0..<64] False)"

definition can_subsume :: "FeatureVector \<Rightarrow> FeatureVector \<Rightarrow> bool" where
  "can_subsume fv other \<longleftrightarrow> \<not> num_lits other < num_lits fv \<and> \<not> pos_lits other < pos_lits fv \<and>
     \<not> neg_lits other < neg_lits fv \<and> sym_counts_le fv other"

definition can_subsumption_resolve :: "FeatureVector \<Rightarrow> FeatureVector \<Rightarrow> bool" where
  "can_subsumption_resolve fv other \<longleftrightarrow> \<not> num_lits other < num_lits fv \<and> \<not> pos_lits other + 1 < pos_lits fv \<and>
     \<not> neg_lits other + 1 < neg_lits fv \<and> sym_counts_le fv other"

text \<open>\<open>n.min(u16::MAX as u32) as u16\<close>\<close>

definition clamp16 :: "u32 \<Rightarrow> u16" where
  "clamp16 n = ucast (min n 65535)"

definition get_feature :: "FeatureVector \<Rightarrow> nat \<Rightarrow> u16" where
  "get_feature fv dim =
     (if dim = 0 then clamp16 (num_lits fv)
      else if dim = 1 then clamp16 (pos_lits fv)
      else if dim = 2 then clamp16 (neg_lits fv)
      else if dim < 67 then sym_counts fv ! (dim - 3) else 0)"

section \<open>The feature vector tree\<close>

definition LEAF_CAPACITY :: nat where
  "LEAF_CAPACITY = 8"

definition MAX_DEPTH :: nat where
  "MAX_DEPTH = 67"

datatype 'v FvtNode = FvLeaf "('v \<times> FeatureVector) list" | FvInternal "(u16, 'v FvtNode) btree"

definition fvt_node_is_empty :: "'v FvtNode \<Rightarrow> bool" where
  "fvt_node_is_empty n = (case n of FvLeaf items \<Rightarrow> items = [] | FvInternal children \<Rightarrow> children = [])"

lemma fv_child_size: "(k, n) \<in> set cs \<Longrightarrow> size n \<le> size_list (size_prod (\<lambda>x. 0) size) cs"
  by (induction cs) auto

text \<open>One step of the loops over children: a search for the feature value, and an insertion below it.\<close>

definition fv_put :: "('v \<Rightarrow> FeatureVector \<Rightarrow> 'v FvtNode \<Rightarrow> 'v FvtNode) \<Rightarrow> nat \<Rightarrow> 'v \<times> FeatureVector
    \<Rightarrow> (u16, 'v FvtNode) btree \<Rightarrow> (u16, 'v FvtNode) btree" where
  "fv_put ins dep = (\<lambda>(val, fv) children. let k = get_feature fv dep in
     case map_of children k of
       Some child \<Rightarrow> bt_insert k (ins val fv child) children
     | None \<Rightarrow> bt_insert k (ins val fv (FvLeaf [])) children)"

lemma fv_put_cong [fundef_cong]:
  assumes "dep = dep'" "p = p'" "children = children'"
    "\<And>v f n. n = FvLeaf [] \<or> n \<in> snd ` set children' \<Longrightarrow> ins v f n = ins' v f n"
  shows "fv_put ins dep p children = fv_put ins' dep' p' children'"
proof -
  obtain v f where p: "p' = (v, f)" by fastforce
  have "ins v f (FvLeaf []) = ins' v f (FvLeaf [])" using assms(4) by blast
  moreover have "ins v f n = ins' v f n" if "map_of children' k = Some n" for k n
  proof -
    have "(k, n) \<in> set children'" using that by (rule map_of_SomeD)
    then have "n \<in> snd ` set children'" by force
    then show ?thesis using assms(4) by blast
  qed
  ultimately show ?thesis unfolding assms(1-3) p fv_put_def Let_def by (auto split: option.split)
qed

definition is_internal :: "'v FvtNode \<Rightarrow> nat" where
  "is_internal n = (case n of FvLeaf items \<Rightarrow> 0 | FvInternal children \<Rightarrow> 1)"

lemma smaller_child:
  "n = FvLeaf [] \<or> n \<in> snd ` set children \<Longrightarrow> 2 * size n + is_internal n < 2 * size (FvInternal children) + 1"
proof -
  assume n: "n = FvLeaf [] \<or> n \<in> snd ` set children"
  have i: "is_internal n \<le> 1" by (simp add: is_internal_def split: FvtNode.split)
  show ?thesis
  proof (cases "n = FvLeaf []")
    case False
    then obtain k where "(k, n) \<in> set children" using n by force
    from fv_child_size [OF this] i show ?thesis by simp
  qed (simp add: is_internal_def)
qed

function fvt_insert_rec :: "nat \<Rightarrow> 'v \<Rightarrow> FeatureVector \<Rightarrow> 'v FvtNode \<Rightarrow> 'v FvtNode" where
  "fvt_insert_rec dep val fv (FvLeaf items) =
     (if length items < LEAF_CAPACITY \<or> MAX_DEPTH \<le> dep then FvLeaf (items @ [(val, fv)])
      else if list_all (\<lambda>p. snd p = fv) items then FvLeaf (items @ [(val, fv)])
      else FvInternal (fold (fv_put (fvt_insert_rec (dep + 1)) dep) (items @ [(val, fv)]) []))"
| "fvt_insert_rec dep val fv (FvInternal children) =
     FvInternal (fv_put (fvt_insert_rec (dep + 1)) dep (val, fv) children)"
  by pat_completeness auto

termination
proof (relation "measures [\<lambda>(d, v, f, n). MAX_DEPTH - d, \<lambda>(d, v, f, n). 2 * size n + is_internal n]", goal_cases)
  case (3 dep val fv children v f n)
  then show ?case using smaller_child [of n children] by (auto simp: is_internal_def)
qed auto

record 'v FeatureVectorTree =
  fvt_root :: "'v FvtNode"
  fvt_len :: nat

definition fvt_new :: "'v FeatureVectorTree" where
  "fvt_new = \<lparr>fvt_root = FvLeaf [], fvt_len = 0\<rparr>"

definition fvt_clear :: "'v FeatureVectorTree \<Rightarrow> 'v FeatureVectorTree" where
  "fvt_clear t = t\<lparr>fvt_root := FvLeaf [], fvt_len := 0\<rparr>"

definition fvt_is_empty :: "'v FeatureVectorTree \<Rightarrow> bool" where
  "fvt_is_empty t = (fvt_len t = 0)"

definition fvt_insert :: "'v \<Rightarrow> FeatureVector \<Rightarrow> 'v FeatureVectorTree \<Rightarrow> 'v FeatureVectorTree" where
  "fvt_insert val fv t = t\<lparr>fvt_root := fvt_insert_rec 0 val fv (fvt_root t), fvt_len := fvt_len t + 1\<rparr>"

text \<open>\<open>swap_remove\<close> of the first item with the value.\<close>

function fvt_remove_rec :: "nat \<Rightarrow> 'v \<Rightarrow> FeatureVector \<Rightarrow> 'v FvtNode \<Rightarrow> bool \<times> 'v FvtNode" where
  "fvt_remove_rec dep val fv (FvLeaf items) =
     (case find (\<lambda>i. fst (items ! i) = val) [0..<length items] of
        Some i \<Rightarrow> (True, FvLeaf (swap_remove i items))
      | None \<Rightarrow> (False, FvLeaf items))"
| "fvt_remove_rec dep val fv (FvInternal children) =
     (let k = get_feature fv dep in
      case map_of children k of
        Some child \<Rightarrow> (case fvt_remove_rec (dep + 1) val fv child of (removed, child) \<Rightarrow>
          (removed, FvInternal (if fvt_node_is_empty child then bt_remove k children else bt_insert k child children)))
      | None \<Rightarrow> (False, FvInternal children))"
  by pat_completeness auto

termination
  by (relation "measure (\<lambda>(d, v, f, n). size n)") (auto dest!: fv_child_size [OF map_of_SomeD])

text \<open>An underflow of the counter is a panic.\<close>

definition fvt_remove :: "'v \<Rightarrow> FeatureVector \<Rightarrow> 'v FeatureVectorTree \<Rightarrow> (bool \<times> 'v FeatureVectorTree) option" where
  "fvt_remove val fv t = (case fvt_remove_rec 0 val fv (fvt_root t) of (removed, root) \<Rightarrow>
     if \<not> removed then Some (False, t\<lparr>fvt_root := root\<rparr>)
     else if fvt_len t = 0 then None
     else Some (True, t\<lparr>fvt_root := root, fvt_len := fvt_len t - 1\<rparr>))"

section \<open>Queries\<close>

text \<open>
  The four queries differ in the test at the leaves and in the children they visit: those up to a
  largest feature value, or those from a smallest one on.
\<close>

definition up_to :: "u16 \<Rightarrow> (u16, 'n) btree \<Rightarrow> (u16, 'n) btree" where
  "up_to k children = takeWhile (\<lambda>c. \<not> k < fst c) children"

lemma up_to_child_size: "c \<in> set (up_to k m) \<Longrightarrow> size (snd c) \<le> size_list (size_prod (\<lambda>x. 0) size) m"
  using fv_child_size [of "fst c" "snd c" m] by (auto simp: up_to_def dest: set_takeWhileD)

lemma bt_from_child_size: "c \<in> set (bt_from k m) \<Longrightarrow> size (snd c) \<le> size_list (size_prod (\<lambda>x. 0) size) m"
  using fv_child_size [of "fst c" "snd c" m] by (auto simp: bt_from_def dest: set_dropWhileD)

function query_subsumers_rec :: "'v FvtNode \<Rightarrow> nat \<Rightarrow> FeatureVector \<Rightarrow> 'v list" where
  "query_subsumers_rec (FvLeaf items) dep target = map fst (filter (\<lambda>(v, fv). can_subsume fv target) items)"
| "query_subsumers_rec (FvInternal children) dep target =
     concat (map (\<lambda>c. query_subsumers_rec (snd c) (dep + 1) target) (up_to (get_feature target dep) children))"
  by pat_completeness auto

termination
  by (relation "measure (\<lambda>(n, d, t). size n)") (auto dest!: up_to_child_size)

definition query_subsumers :: "FeatureVector \<Rightarrow> 'v FeatureVectorTree \<Rightarrow> 'v list" where
  "query_subsumers target t = query_subsumers_rec (fvt_root t) 0 target"

function query_subsumed_rec :: "'v FvtNode \<Rightarrow> nat \<Rightarrow> FeatureVector \<Rightarrow> 'v list" where
  "query_subsumed_rec (FvLeaf items) dep subsumer = map fst (filter (\<lambda>(v, fv). can_subsume subsumer fv) items)"
| "query_subsumed_rec (FvInternal children) dep subsumer =
     concat (map (\<lambda>c. query_subsumed_rec (snd c) (dep + 1) subsumer) (bt_from (get_feature subsumer dep) children))"
  by pat_completeness auto

termination
  by (relation "measure (\<lambda>(n, d, t). size n)") (auto dest!: bt_from_child_size)

definition query_subsumed :: "FeatureVector \<Rightarrow> 'v FeatureVectorTree \<Rightarrow> 'v list" where
  "query_subsumed subsumer t = query_subsumed_rec (fvt_root t) 0 subsumer"

definition sat_succ32 :: "u32 \<Rightarrow> u32" where
  "sat_succ32 n = (if n = - 1 then n else n + 1)"

definition sat_pred32 :: "u32 \<Rightarrow> u32" where
  "sat_pred32 n = (if n = 0 then 0 else n - 1)"

definition resolution_max :: "FeatureVector \<Rightarrow> nat \<Rightarrow> u16" where
  "resolution_max target dep =
     (if dep = 0 then clamp16 (num_lits target)
      else if dep = 1 then clamp16 (sat_succ32 (pos_lits target))
      else if dep = 2 then clamp16 (sat_succ32 (neg_lits target))
      else if dep < 67 then sym_counts target ! (dep - 3) else - 1)"

function query_subsumption_resolution_rec :: "'v FvtNode \<Rightarrow> nat \<Rightarrow> FeatureVector \<Rightarrow> 'v list" where
  "query_subsumption_resolution_rec (FvLeaf items) dep target =
     map fst (filter (\<lambda>(v, fv). can_subsumption_resolve fv target) items)"
| "query_subsumption_resolution_rec (FvInternal children) dep target =
     concat (map (\<lambda>c. query_subsumption_resolution_rec (snd c) (dep + 1) target) (up_to (resolution_max target dep) children))"
  by pat_completeness auto

termination
  by (relation "measure (\<lambda>(n, d, t). size n)") (auto dest!: up_to_child_size)

definition query_subsumption_resolution :: "FeatureVector \<Rightarrow> 'v FeatureVectorTree \<Rightarrow> 'v list" where
  "query_subsumption_resolution target t = query_subsumption_resolution_rec (fvt_root t) 0 target"

text \<open>The casts of the two counters do not clamp.\<close>

definition resolution_min :: "FeatureVector \<Rightarrow> nat \<Rightarrow> u16" where
  "resolution_min simplifier dep =
     (if dep = 0 then clamp16 (num_lits simplifier)
      else if dep = 1 then ucast (sat_pred32 (pos_lits simplifier))
      else if dep = 2 then ucast (sat_pred32 (neg_lits simplifier))
      else if dep < 67 then sym_counts simplifier ! (dep - 3) else 0)"

function query_backward_subsumption_resolution_rec :: "'v FvtNode \<Rightarrow> nat \<Rightarrow> FeatureVector \<Rightarrow> 'v list" where
  "query_backward_subsumption_resolution_rec (FvLeaf items) dep simplifier =
     map fst (filter (\<lambda>(v, fv). can_subsumption_resolve simplifier fv) items)"
| "query_backward_subsumption_resolution_rec (FvInternal children) dep simplifier =
     concat (map (\<lambda>c. query_backward_subsumption_resolution_rec (snd c) (dep + 1) simplifier)
       (bt_from (resolution_min simplifier dep) children))"
  by pat_completeness auto

termination
  by (relation "measure (\<lambda>(n, d, t). size n)") (auto dest!: bt_from_child_size)

definition query_backward_subsumption_resolution :: "FeatureVector \<Rightarrow> 'v FeatureVectorTree \<Rightarrow> 'v list" where
  "query_backward_subsumption_resolution simplifier t = query_backward_subsumption_resolution_rec (fvt_root t) 0 simplifier"

section \<open>What the tree holds\<close>

fun fv_items :: "'v FvtNode \<Rightarrow> ('v \<times> FeatureVector) multiset" where
  "fv_items (FvLeaf items) = mset items"
| "fv_items (FvInternal children) = sum_list (map (\<lambda>c. fv_items (snd c)) children)"

text \<open>The children of a node at depth \<open>d\<close> are the items with equal features \<open>d\<close>.\<close>

fun fv_ok :: "nat \<Rightarrow> 'v FvtNode \<Rightarrow> bool" where
  "fv_ok d (FvLeaf items) = True"
| "fv_ok d (FvInternal children) \<longleftrightarrow> bt_ok children \<and>
     (\<forall>c \<in> set children. fv_ok (d + 1) (snd c) \<and> (\<forall>x \<in># fv_items (snd c). get_feature (snd x) d = fst c))"

abbreviation child_items :: "(u16, 'v FvtNode) btree \<Rightarrow> ('v \<times> FeatureVector) multiset" where
  "child_items children \<equiv> sum_list (map (\<lambda>c. fv_items (snd c)) children)"

lemma child_items_replace:
  "map_of cs k = Some n \<Longrightarrow> bt_ok cs \<Longrightarrow> child_items (bt_insert k n' cs) + fv_items n = child_items cs + fv_items n'"
proof (induction cs)
  case (Cons c cs)
  obtain k' m where c: "c = (k', m)" by fastforce
  show ?case
  proof (cases "k = k'")
    case False
    then have "(k, n) \<in> set cs" using Cons.prems(1) c map_of_SomeD by (auto split: if_splits)
    then have "k' < k" using Cons.prems(2) c by (auto simp: bt_ok_Cons)
    then have "\<not> k < k'" by auto
    then show ?thesis using Cons False c by (auto simp: bt_ok_Cons add.assoc)
  qed (use Cons.prems c in \<open>simp add: add_ac\<close>)
qed simp

lemma child_items_new: "map_of cs k = None \<Longrightarrow> child_items (bt_insert k n cs) = child_items cs + fv_items n"
  by (induction cs) (auto simp: add_ac)

text \<open>A step that is right for the children is right for the list of children.\<close>

lemma fv_put_items:
  assumes "\<And>n. n = FvLeaf [] \<or> n \<in> snd ` set cs \<Longrightarrow> fv_ok (d + 1) n \<Longrightarrow>
      fv_items (ins v f n) = add_mset (v, f) (fv_items n) \<and> fv_ok (d + 1) (ins v f n)"
    and ok: "fv_ok d (FvInternal cs)"
  shows "child_items (fv_put ins d (v, f) cs) = add_mset (v, f) (child_items cs) \<and>
    fv_ok d (FvInternal (fv_put ins d (v, f) cs))"
proof -
  let ?k = "get_feature f d"
  have cs: "bt_ok cs" "\<And>c. c \<in> set cs \<Longrightarrow> fv_ok (d + 1) (snd c) \<and> (\<forall>x \<in># fv_items (snd c). get_feature (snd x) d = fst c)"
    using ok by auto
  obtain n where n: "n = FvLeaf [] \<and> map_of cs ?k = None \<or> map_of cs ?k = Some n"
    by (cases "map_of cs ?k") auto
  have mem: "(?k, n) \<in> set cs" if "map_of cs ?k = Some n" using that by (rule map_of_SomeD)
  have old: "fv_ok (d + 1) n" "\<forall>x \<in># fv_items n. get_feature (snd x) d = ?k"
    using n cs(2) [of "(?k, n)"] mem by auto
  have "n = FvLeaf [] \<or> n \<in> snd ` set cs" using n mem by force
  then have new: "fv_items (ins v f n) = add_mset (v, f) (fv_items n)" "fv_ok (d + 1) (ins v f n)"
    using assms(1) old(1) by blast+
  have put: "fv_put ins d (v, f) cs = bt_insert ?k (ins v f n) cs"
    using n by (auto simp: fv_put_def Let_def)
  have "child_items (bt_insert ?k (ins v f n) cs) = add_mset (v, f) (child_items cs)"
  proof (cases "map_of cs ?k")
    case None
    then show ?thesis using n new(1) by (simp add: child_items_new)
  next
    case (Some m)
    then have "child_items (bt_insert ?k (ins v f n) cs) + fv_items n = add_mset (v, f) (child_items cs) + fv_items n"
      using n new(1) child_items_replace [OF _ cs(1)] by auto
    then show ?thesis by (simp only: add_right_cancel)
  qed
  moreover have "fv_ok d (FvInternal (bt_insert ?k (ins v f n) cs))"
    using cs new old(2) bt_insert_ok [OF cs(1)] by (auto simp: bt_insert_set [OF cs(1)])
  ultimately show ?thesis unfolding put by blast
qed

lemma fvt_insert_rec_items:
  "fv_ok d n \<Longrightarrow> fv_items (fvt_insert_rec d v f n) = add_mset (v, f) (fv_items n) \<and> fv_ok d (fvt_insert_rec d v f n)"
proof (induction d v f n rule: fvt_insert_rec.induct)
  case (1 d v f items)
  show ?case
  proof (cases "(length items < LEAF_CAPACITY \<or> MAX_DEPTH \<le> d) \<or> list_all (\<lambda>p. snd p = f) items")
    case False
    then have no: "\<not> (length items < LEAF_CAPACITY \<or> MAX_DEPTH \<le> d)" "\<not> list_all (\<lambda>p. snd p = f) items" by blast+
    have step: "child_items (fv_put (fvt_insert_rec (d + 1)) d x cs) = add_mset x (child_items cs) \<and>
        fv_ok d (FvInternal (fv_put (fvt_insert_rec (d + 1)) d x cs))"
      if "x \<in> set (items @ [(v, f)])" "fv_ok d (FvInternal cs)" for x cs
    proof -
      obtain w g where x: "x = (w, g)" by fastforce
      show ?thesis unfolding x
        by (rule fv_put_items [OF _ that(2)]) (rule "1.IH" [OF no that(1)])
    qed
    have "child_items (fold (fv_put (fvt_insert_rec (d + 1)) d) xs cs) = mset xs + child_items cs \<and>
        fv_ok d (FvInternal (fold (fv_put (fvt_insert_rec (d + 1)) d) xs cs))"
      if "set xs \<subseteq> set (items @ [(v, f)])" "fv_ok d (FvInternal cs)" for xs cs
      using that
    proof (induction xs arbitrary: cs)
      case (Cons x xs)
      let ?cs = "fv_put (fvt_insert_rec (d + 1)) d x cs"
      have s: "child_items ?cs = add_mset x (child_items cs)" "fv_ok d (FvInternal ?cs)"
        using step [of x cs] Cons.prems by (simp_all del: fv_ok.simps)
      have "set xs \<subseteq> set (items @ [(v, f)])" using Cons.prems(1) by simp
      from Cons.IH [OF this s(2)] s(1) show ?case by (simp del: fv_ok.simps)
    qed simp
    from this [of "items @ [(v, f)]" "[]"] show ?thesis using no by (simp add: bt_ok_def)
  next
    case True
    then have "fvt_insert_rec d v f (FvLeaf items) = FvLeaf (items @ [(v, f)])" by auto
    then show ?thesis by simp
  qed
next
  case (2 d v f cs)
  have "child_items (fv_put (fvt_insert_rec (d + 1)) d (v, f) cs) = add_mset (v, f) (child_items cs) \<and>
      fv_ok d (FvInternal (fv_put (fvt_insert_rec (d + 1)) d (v, f) cs))"
    by (rule fv_put_items [OF _ "2.prems"]) (rule "2.IH")
  then show ?case by (simp del: fv_ok.simps)
qed

text \<open>Values are stored once.\<close>

definition once :: "('v \<times> FeatureVector) multiset \<Rightarrow> bool" where
  "once M \<longleftrightarrow> (\<forall>v f. (v, f) \<in># M \<longrightarrow> filter_mset (\<lambda>x. fst x = v) M = {#(v, f)#})"

lemma child_items_split: "c \<in> set cs \<Longrightarrow> \<exists>N. child_items cs = fv_items (snd c) + N"
  by (auto simp: in_set_conv_decomp add_ac)


lemma child_items_remove:
  "map_of cs k = Some n \<Longrightarrow> bt_ok cs \<Longrightarrow> child_items (bt_remove k cs) + fv_items n = child_items cs"
proof (induction cs)
  case (Cons c cs)
  obtain k' m where c: "c = (k', m)" by fastforce
  show ?case
  proof (cases "k = k'")
    case True
    then have "\<forall>x \<in> set cs. fst x \<noteq> k" using Cons.prems(2) c by (auto simp: bt_ok_Cons)
    then have "bt_remove k cs = cs" by (simp add: bt_remove_def filter_id_conv)
    then show ?thesis using True Cons.prems(1) c by (simp add: bt_remove_def add.commute)
  next
    case False
    then have "bt_remove k (c # cs) = c # bt_remove k cs" using c by (simp add: bt_remove_def)
    moreover have "child_items (bt_remove k cs) + fv_items n = child_items cs"
      using Cons False c by (simp add: bt_ok_Cons)
    ultimately show ?thesis by (simp add: add.assoc)
  qed
qed simp

text \<open>
  What a removal does whatever is stored: it takes out one pair with the given value, which need not
  carry the given vector, and leaves the tree as it is only if the given pair is not stored.
\<close>

definition takes_out :: "bool \<Rightarrow> 'v \<Rightarrow> FeatureVector \<Rightarrow> ('v \<times> FeatureVector) multiset \<Rightarrow> ('v \<times> FeatureVector) multiset \<Rightarrow> bool" where
  "takes_out removed v f M M' \<longleftrightarrow>
     (if removed then \<exists>g. (v, g) \<in># M \<and> M' = M - {#(v, g)#} else M' = M \<and> (v, f) \<notin># M)"

lemma takes_out_part: "takes_out True v f M M' \<Longrightarrow> takes_out True v f (M + N) (M' + N)"
  by (auto simp: takes_out_def)

lemma takes_out_sub: "takes_out removed v f M M' \<Longrightarrow> x \<in># M' \<Longrightarrow> x \<in># M"
  by (auto simp: takes_out_def dest: in_diffD split: if_splits)

lemma fvt_remove_rec_takes:
  "fv_ok d n \<Longrightarrow> fvt_remove_rec d v f n = (removed, n') \<Longrightarrow> fv_ok d n' \<and> takes_out removed v f (fv_items n) (fv_items n')"
proof (induction d v f n arbitrary: removed n' rule: fvt_remove_rec.induct)
  case (1 d v f items)
  show ?case
  proof (cases "find (\<lambda>i. fst (items ! i) = v) [0..<length items]")
    case None
    then have "\<forall>i < length items. fst (items ! i) \<noteq> v" by (auto simp: find_None_iff)
    then have "(v, f) \<notin> set items" by (force simp: in_set_conv_nth)
    then show ?thesis using None "1.prems"(2) by (auto simp: takes_out_def)
  next
    case (Some i)
    then have i: "i < length items" "items ! i = (v, snd (items ! i))" by (auto simp: find_Some_iff prod_eq_iff)
    then have "(v, snd (items ! i)) \<in># mset items" by (metis nth_mem set_mset_mset)
    moreover have "n' = FvLeaf (swap_remove i items)" "removed" using Some "1.prems"(2) by auto
    moreover have "mset (swap_remove i items) = mset items - {#(v, snd (items ! i))#}"
      using i by (metis mset_swap_remove)
    ultimately show ?thesis by (auto simp: takes_out_def)
  qed
next
  case (2 d v f cs)
  have cs: "bt_ok cs" "\<And>c. c \<in> set cs \<Longrightarrow> fv_ok (d + 1) (snd c) \<and> (\<forall>x \<in># fv_items (snd c). get_feature (snd x) d = fst c)"
    using "2.prems"(1) by auto
  let ?k = "get_feature f d"
  show ?case
  proof (cases "map_of cs ?k")
    case None
    have "(v, f) \<notin># fv_items (snd c)" if "c \<in> set cs" for c
    proof
      assume "(v, f) \<in># fv_items (snd c)"
      then have "fst c = ?k" using cs(2) [OF that] by fastforce
      then show False using None that by (metis domIff dom_map_of_conv_image_fst imageI)
    qed
    then have "(v, f) \<notin># child_items cs" by (induction cs) auto
    then show ?thesis using None "2.prems" by (auto simp: takes_out_def)
  next
    case (Some child)
    then have mem: "(?k, child) \<in> set cs" by (rule map_of_SomeD)
    obtain r child' where r: "fvt_remove_rec (d + 1) v f child = (r, child')" by fastforce
    have t: "fv_ok (d + 1) child'" "takes_out r v f (fv_items child) (fv_items child')"
      using "2.IH" [OF refl Some _ r] cs(2) [OF mem] by auto
    have n': "removed = r" "n' = FvInternal (if fvt_node_is_empty child' then bt_remove ?k cs else bt_insert ?k child' cs)"
      using "2.prems"(2) Some r by (simp_all add: Let_def)
    obtain N where N: "child_items cs = fv_items child + N" using child_items_split [OF mem] by auto
    have "child_items (bt_insert ?k child' cs) + fv_items child = child_items cs + fv_items child'"
      by (rule child_items_replace [OF Some cs(1)])
    also have "\<dots> = (N + fv_items child') + fv_items child" using N by (simp add: add_ac)
    finally have put: "child_items (bt_insert ?k child' cs) = N + fv_items child'" by (simp only: add_right_cancel)
    have "child_items (bt_remove ?k cs) + fv_items child = N + fv_items child"
      using child_items_remove [OF Some cs(1)] N by (simp add: add_ac)
    then have drop: "child_items (bt_remove ?k cs) = N" by (simp only: add_right_cancel)
    have empty: "fv_items child' = {#}" if "fvt_node_is_empty child'"
      using that by (auto simp: fvt_node_is_empty_def split: FvtNode.splits)
    have items: "fv_items n' = N + fv_items child'" using n'(2) put drop empty by simp
    have other: "(v, f) \<in># child_items cs \<Longrightarrow> (v, f) \<in># fv_items child"
    proof -
      assume "(v, f) \<in># child_items cs"
      then have "\<exists>c \<in> set cs. (v, f) \<in># fv_items (snd c)" by (induction cs) auto
      then obtain c where c: "c \<in> set cs" "(v, f) \<in># fv_items (snd c)" by blast
      then have "fst c = ?k" using cs(2) [OF c(1)] by fastforce
      then have "snd c = child" using c(1) Some bt_get_iff [OF cs(1)] by (metis option.inject prod.collapse)
      then show ?thesis using c(2) by simp
    qed
    have "takes_out r v f (child_items cs) (N + fv_items child')"
    proof (cases r)
      case True
      then show ?thesis using takes_out_part [of v f "fv_items child" "fv_items child'" N] t(2) N by (simp add: add.commute)
    next
      case False
      then show ?thesis using t(2) N other by (auto simp: takes_out_def add.commute)
    qed
    moreover have "fv_ok d n'"
      using n'(2) cs t(1) takes_out_sub [OF t(2)] cs(2) [OF mem] bt_insert_ok [OF cs(1)] bt_remove_ok
      by (auto simp: bt_insert_set [OF cs(1)] bt_remove_set)
    ultimately show ?thesis using n'(1) items by simp
  qed
qed

section \<open>Pruning loses nothing\<close>

text \<open>
  The contract that the four queries share: leaves are filtered by a test, and the children that are
  visited include all in which an item passes it.
\<close>

locale fvt_query =
  fixes query :: "'v FvtNode \<Rightarrow> nat \<Rightarrow> FeatureVector \<Rightarrow> 'v list"
    and test :: "FeatureVector \<Rightarrow> FeatureVector \<Rightarrow> bool"
    and visited :: "FeatureVector \<Rightarrow> nat \<Rightarrow> (u16, 'v FvtNode) btree \<Rightarrow> (u16, 'v FvtNode) btree"
  assumes query_leaf: "query (FvLeaf items) d t = map fst (filter (\<lambda>(v, f). test f t) items)"
    and query_internal: "query (FvInternal cs) d t = concat (map (\<lambda>c. query (snd c) (d + 1) t) (visited t d cs))"
    and visited_sub: "set (visited t d cs) \<subseteq> set cs"
    and visited_all: "bt_ok cs \<Longrightarrow> c \<in> set cs \<Longrightarrow> test f t \<Longrightarrow> get_feature f d = fst c \<Longrightarrow> c \<in> set (visited t d cs)"
begin

lemma query_exact: "fv_ok d n \<Longrightarrow> set (query n d t) = {v. \<exists>f. (v, f) \<in># fv_items n \<and> test f t}"
proof (induction n arbitrary: d)
  case (FvLeaf items)
  show ?case by (force simp: query_leaf)
next
  case (FvInternal cs)
  have items: "x \<in># child_items cs \<longleftrightarrow> (\<exists>c \<in> set cs. x \<in># fv_items (snd c))" for x by (induction cs) auto
  have cs: "bt_ok cs" "\<And>c. c \<in> set cs \<Longrightarrow> fv_ok (d + 1) (snd c) \<and> (\<forall>x \<in># fv_items (snd c). get_feature (snd x) d = fst c)"
    using FvInternal.prems by auto
  have IH: "set (query (snd c) (d + 1) t) = {v. \<exists>f. (v, f) \<in># fv_items (snd c) \<and> test f t}" if "c \<in> set cs" for c
    using FvInternal.IH [of c "snd c" "d + 1"] cs(2) [OF that] that by (cases c) auto
  show ?case
  proof (intro equalityI subsetI)
    fix v assume "v \<in> set (query (FvInternal cs) d t)"
    then obtain c where c: "c \<in> set (visited t d cs)" "v \<in> set (query (snd c) (d + 1) t)"
      unfolding query_internal set_concat set_map by blast
    then have "c \<in> set cs" using visited_sub by blast
    note c = this c(2)
    then show "v \<in> {v. \<exists>f. (v, f) \<in># fv_items (FvInternal cs) \<and> test f t}" using IH [OF c(1)] items by auto
  next
    fix v assume "v \<in> {v. \<exists>f. (v, f) \<in># fv_items (FvInternal cs) \<and> test f t}"
    then obtain f c where f: "test f t" "c \<in> set cs" "(v, f) \<in># fv_items (snd c)" using items by auto
    have "get_feature f d = fst c" using cs(2) [OF f(2)] f(3) by fastforce
    then have "c \<in> set (visited t d cs)" using visited_all cs(1) f(1,2) by blast
    then show "v \<in> set (query (FvInternal cs) d t)" using IH [OF f(2)] f by (auto simp: query_internal)
  qed
qed

end

lemma up_to_set: "bt_ok m \<Longrightarrow> set (up_to k m) = {c \<in> set m. fst c \<le> k}"
proof (induction m)
  case (Cons p m)
  have m: "bt_ok m" "\<forall>x \<in> set m. fst p < fst x" using Cons.prems by (cases p; auto simp: bt_ok_Cons)+
  show ?case
  proof (cases "k < fst p")
    case True
    then have "\<forall>x \<in> set (p # m). \<not> fst x \<le> k" using m(2) by (auto simp: not_le intro: less_trans)
    then have none: "{x \<in> set (p # m). fst x \<le> k} = {}" by blast
    have "up_to k (p # m) = []" using True by (simp add: up_to_def)
    then show ?thesis unfolding none by simp
  next
    case False
    then show ?thesis using Cons.IH m(1) by (auto simp: up_to_def not_less)
  qed
qed (simp add: up_to_def)

lemma up_to_sub: "set (up_to k m) \<subseteq> set m"
  by (auto simp: up_to_def dest: set_takeWhileD)

lemma bt_from_sub: "set (bt_from k m) \<subseteq> set m"
  by (auto simp: bt_from_def dest: set_dropWhileD)

lemma sym_counts_le_iff: "sym_counts_le f g \<longleftrightarrow> (\<forall>i < 64. sym_counts f ! i \<le> sym_counts g ! i)"
proof -
  have "fold (\<lambda>i any. any \<or> P i) xs a \<longleftrightarrow> a \<or> (\<exists>i \<in> set xs. P i)" for P :: "nat \<Rightarrow> bool" and xs a
    by (induction xs arbitrary: a) auto
  then show ?thesis by (auto simp: sym_counts_le_def not_less)
qed

lemma unat_clamp16: "unat (clamp16 n) = min (unat n) 65535"
proof -
  have "unat (min n 65535) < 2 ^ 16" by (auto simp: min_def word_le_nat_alt)
  then have "unat (ucast (min n 65535) :: u16) = unat (min n 65535)" by (simp add: unsigned_ucast_eq take_bit_nat_eq_self_iff)
  then show ?thesis by (simp add: clamp16_def min_def word_le_nat_alt)
qed

lemma clamp16_mono: "a \<le> b \<Longrightarrow> clamp16 a \<le> clamp16 b"
  by (simp add: word_le_nat_alt unat_clamp16)

lemma get_feature_mono: "can_subsume f t \<Longrightarrow> get_feature f d \<le> get_feature t d"
  by (auto simp: can_subsume_def get_feature_def sym_counts_le_iff not_less intro: clamp16_mono)

lemma counted_up: "\<not> b + 1 < a \<Longrightarrow> a \<le> sat_succ32 b" for a b :: u32
proof -
  assume h: "\<not> b + 1 < a"
  show ?thesis
  proof (cases "b = - 1")
    case True
    then show ?thesis by (simp add: sat_succ32_def)
  qed (use h in \<open>simp add: sat_succ32_def not_less\<close>)
qed

lemma resolution_max_bound: "can_subsumption_resolve f t \<Longrightarrow> get_feature f d \<le> resolution_max t d"
  by (auto simp: can_subsumption_resolve_def get_feature_def resolution_max_def sym_counts_le_iff not_less
      intro!: clamp16_mono counted_up)

lemma cast_pred_bound:
  fixes a b :: u32
  assumes "\<not> b + 1 < a"
  shows "ucast (sat_pred32 a) \<le> clamp16 b"
proof (cases "a = 0")
  case True
  then show ?thesis by (simp add: sat_pred32_def)
next
  case False
  have le: "unat (a - 1) \<le> unat b"
  proof (cases "b = - 1")
    case True
    then show ?thesis using assms False by (simp add: word_neq_0_conv)
  next
    case b: False
    then have "unat (b + 1) = unat b + 1" by (metis add.commute add_eq_0_iff unatSuc Suc_eq_plus1)
    moreover have "unat a \<le> unat (b + 1)" using assms by (simp add: not_less word_le_nat_alt)
    moreover have "unat (a - 1) = unat a - 1" using False by (metis unat_minus_one)
    ultimately show ?thesis by simp
  qed
  have "unat (ucast (a - 1) :: u16) \<le> unat (a - 1)" by (simp add: unsigned_ucast_eq take_bit_nat_less_eq_self)
  moreover have "unat (ucast (a - 1) :: u16) < 2 ^ 16" using unsigned_less [of "ucast (a - 1) :: u16"] by simp
  then have "unat (ucast (a - 1) :: u16) \<le> 65535" by simp
  ultimately have "unat (ucast (a - 1) :: u16) \<le> min (unat b) 65535" using le by simp
  then show ?thesis using False by (simp add: sat_pred32_def word_le_nat_alt unat_clamp16)
qed

lemma resolution_min_bound: "can_subsumption_resolve t f \<Longrightarrow> resolution_min t d \<le> get_feature f d"
  by (auto simp: can_subsumption_resolve_def get_feature_def resolution_min_def sym_counts_le_iff not_less
      intro!: clamp16_mono cast_pred_bound)

interpretation subsumers: fvt_query query_subsumers_rec can_subsume "\<lambda>t d. up_to (get_feature t d)"
proof
  show "c \<in> set (up_to (get_feature t d) cs)"
    if "bt_ok cs" "c \<in> set cs" "can_subsume f t" "get_feature f d = fst c" for cs :: "(u16, 'v FvtNode) btree" and c f t d
    using that get_feature_mono [OF that(3), of d] by (simp add: up_to_set)
qed (simp_all add: up_to_sub)

interpretation subsumed: fvt_query query_subsumed_rec "\<lambda>f t. can_subsume t f" "\<lambda>t d. bt_from (get_feature t d)"
proof
  show "c \<in> set (bt_from (get_feature t d) cs)"
    if "bt_ok cs" "c \<in> set cs" "can_subsume t f" "get_feature f d = fst c" for cs :: "(u16, 'v FvtNode) btree" and c f t d
    using that get_feature_mono [OF that(3), of d] by (simp add: bt_from_set)
qed (simp_all add: bt_from_sub)

interpretation resolvers: fvt_query query_subsumption_resolution_rec can_subsumption_resolve "\<lambda>t d. up_to (resolution_max t d)"
proof
  show "c \<in> set (up_to (resolution_max t d) cs)"
    if "bt_ok cs" "c \<in> set cs" "can_subsumption_resolve f t" "get_feature f d = fst c"
    for cs :: "(u16, 'v FvtNode) btree" and c f t d
    using that resolution_max_bound [OF that(3), of d] by (simp add: up_to_set)
qed (simp_all add: up_to_sub)

interpretation resolved: fvt_query query_backward_subsumption_resolution_rec "\<lambda>f t. can_subsumption_resolve t f"
  "\<lambda>t d. bt_from (resolution_min t d)"
proof
  show "c \<in> set (bt_from (resolution_min t d) cs)"
    if "bt_ok cs" "c \<in> set cs" "can_subsumption_resolve t f" "get_feature f d = fst c"
    for cs :: "(u16, 'v FvtNode) btree" and c f t d
    using that resolution_min_bound [OF that(3), of d] by (simp add: bt_from_set)
qed (simp_all add: bt_from_sub)


section \<open>Feature vectors bound subsumption\<close>

text \<open>Occurrences of the symbols of one bucket.\<close>

fun occ :: "nat \<Rightarrow> Term \<Rightarrow> nat" where
  "occ i (Var v) = 0"
| "occ i (App f args) = (if bucket f = i then 1 else 0) + sum_list (map (occ i) args)"

definition occ_lit :: "nat \<Rightarrow> Literal \<Rightarrow> nat" where
  "occ_lit i l = (case atom l of
     Pred p args \<Rightarrow> occ i (App p args)
   | Eq s t \<Rightarrow> occ i s + occ i t)"

definition sat16 :: "nat \<Rightarrow> u16" where
  "sat16 n = of_nat (min n 65535)"

lemma unat_sat16: "unat (sat16 n) = min n 65535"
  by (simp add: sat16_def unat_of_nat take_bit_nat_eq_self_iff)

lemma sat16_mono: "a \<le> b \<Longrightarrow> sat16 a \<le> sat16 b"
  by (simp add: word_le_nat_alt unat_sat16)

lemma unat_u16_max: "unat (- 1 :: u16) = 65535"
  by (simp add: unsigned_minus_1_eq_mask mask_eq_exp_minus_1)

lemma sat_inc_sat16: "sat_inc (sat16 n) = sat16 (n + 1)"
proof (cases "n < 65535")
  case True
  then have "unat (sat16 n) \<noteq> unat (- 1 :: u16)" using unat_u16_max by (simp add: unat_sat16)
  then have "sat16 n \<noteq> - 1" by force
  then show ?thesis using True by (simp add: sat_inc_def sat16_def)
next
  case False
  then have "sat16 n = - 1" "sat16 (n + 1) = - 1" by (simp_all add: sat16_def)
  then show ?thesis by (simp add: sat_inc_def)
qed

lemma bucket_less: "bucket s < 64"
proof -
  have "s AND 63 \<le> 63" by (rule word_and_le1)
  then have "unat (s AND 63) \<le> unat (63 :: u32)" by (simp only: word_le_nat_alt)
  then show ?thesis by (simp add: bucket_def)
qed

definition counts :: "(nat \<Rightarrow> nat) \<Rightarrow> FeatureVector \<Rightarrow> bool" where
  "counts N f \<longleftrightarrow> sym_counts f = map (\<lambda>i. sat16 (N i)) [0..<64]"

lemma counts_increment: "counts N f \<Longrightarrow> counts (\<lambda>i. N i + (if bucket s = i then 1 else 0)) (increment s f)"
  using bucket_less [of s] by (auto simp: counts_def increment_def sat_inc_sat16 list_eq_iff_nth_eq nth_list_update)

lemma counts_term: "counts N f \<Longrightarrow> counts (\<lambda>i. N i + occ i t) (count_term t f)"
proof (induction t arbitrary: N f)
  case (App g ts)
  have "counts (\<lambda>i. N i + sum_list (map (occ i) us)) (fold count_term us f)" if "set us \<subseteq> set ts" "counts N f" for us N f
    using that
  proof (induction us arbitrary: N f)
    case (Cons u us)
    have "counts (\<lambda>i. N i + occ i u) (count_term u f)" using App.IH Cons.prems by auto
    then show ?case using Cons.IH [of "\<lambda>i. N i + occ i u"] Cons.prems(1) by (simp add: add.assoc)
  qed simp
  from this [OF order_refl counts_increment [OF App.prems, of g]] show ?case by (simp add: add.assoc)
qed simp

lemma fold_count_keeps:
  "num_lits (fold count_term ts f) = num_lits f \<and> pos_lits (fold count_term ts f) = pos_lits f \<and>
   neg_lits (fold count_term ts f) = neg_lits f"
proof -
  have one: "num_lits (count_term t f) = num_lits f \<and> pos_lits (count_term t f) = pos_lits f \<and>
      neg_lits (count_term t f) = neg_lits f" for t f
  proof (induction t arbitrary: f)
    case (App g ts)
    have "num_lits (fold count_term us f) = num_lits f \<and> pos_lits (fold count_term us f) = pos_lits f \<and>
        neg_lits (fold count_term us f) = neg_lits f" if "set us \<subseteq> set ts" for us f
      using that App.IH by (induction us arbitrary: f) auto
    from this [OF order_refl] show ?case by (simp add: increment_def)
  qed simp
  show ?thesis using one by (induction ts arbitrary: f) auto
qed

lemma count_literal_counts:
  assumes "counts N f"
  shows "counts (\<lambda>i. N i + occ_lit i l) (count_literal l f) \<and> num_lits (count_literal l f) = num_lits f \<and>
    pos_lits (count_literal l f) = pos_lits f + (if positive l then 1 else 0) \<and>
    neg_lits (count_literal l f) = neg_lits f + (if positive l then 0 else 1)"
proof -
  define g where "g = (if positive l then f\<lparr>pos_lits := pos_lits f + 1\<rparr> else f\<lparr>neg_lits := neg_lits f + 1\<rparr>)"
  have g: "counts N g" using assms by (simp add: g_def counts_def)
  show ?thesis
  proof (cases "atom l")
    case (Pred p ts)
    have "counts (\<lambda>i. N i + occ i (App p ts)) (count_term (App p ts) g)" by (rule counts_term [OF g])
    then show ?thesis using Pred fold_count_keeps [of ts "increment p g"]
      by (simp add: count_literal_def occ_lit_def g_def [symmetric]) (simp add: g_def increment_def)
  next
    case (Eq s t)
    have "counts (\<lambda>i. N i + occ i s + occ i t) (count_term t (count_term s g))" by (intro counts_term g)
    then show ?thesis using Eq fold_count_keeps [of "[s, t]" g]
      by (simp add: count_literal_def occ_lit_def g_def [symmetric] add.assoc) (simp add: g_def)
  qed
qed

lemma from_clause_counts:
  "counts (\<lambda>i. sum_list (map (occ_lit i) (literals c))) (from_clause c) \<and>
   num_lits (from_clause c) = of_nat (length (literals c)) \<and>
   pos_lits (from_clause c) = of_nat (length (filter positive (literals c))) \<and>
   neg_lits (from_clause c) = of_nat (length (filter (\<lambda>l. \<not> positive l) (literals c)))"
proof -
  have "counts (\<lambda>i. N i + sum_list (map (occ_lit i) ls)) (fold count_literal ls f) \<and> num_lits (fold count_literal ls f) = num_lits f \<and>
      pos_lits (fold count_literal ls f) = pos_lits f + of_nat (length (filter positive ls)) \<and>
      neg_lits (fold count_literal ls f) = neg_lits f + of_nat (length (filter (\<lambda>l. \<not> positive l) ls))"
    if "counts N f" for ls N f
    using that
  proof (induction ls arbitrary: N f)
    case (Cons l ls)
    show ?case using count_literal_counts [OF Cons.prems, of l] Cons.IH [of "\<lambda>i. N i + occ_lit i l" "count_literal l f"]
      by (simp add: add.assoc)
  qed simp
  moreover have "counts (\<lambda>i. 0) (fv_default\<lparr>num_lits := n\<rparr>)" for n
    by (simp add: counts_def fv_default_def sat16_def list_eq_iff_nth_eq)
  ultimately show ?thesis unfolding from_clause_def by (fastforce simp: fv_default_def)
qed


lemma occ_inst: "occ i t \<le> occ i (inst \<sigma> t)"
proof (induction t)
  case (App f ts)
  have "sum_list (map (occ i) ts) \<le> sum_list (map (\<lambda>u. occ i (inst \<sigma> u)) ts)"
    by (intro sum_list_mono App.IH)
  then show ?case by (simp add: comp_def)
qed simp

lemma occ_lit_inst: "occ_lit i l \<le> occ_lit i (inst_lit \<sigma> l)"
proof (cases "atom l")
  case (Pred p ts)
  then show ?thesis using occ_inst [of i "App p ts" \<sigma>] by (simp add: occ_lit_def inst_lit_def)
next
  case (Eq s t)
  then show ?thesis using occ_inst [of i s \<sigma>] occ_inst [of i t \<sigma>] by (simp add: occ_lit_def inst_lit_def)
qed

lemma same_lit_occ: "same_lit l m \<Longrightarrow> occ_lit i l = occ_lit i m"
  by (auto simp: same_lit_def same_atom_def occ_lit_def)

lemma same_lit_sign: "same_lit l m \<Longrightarrow> positive l = positive m"
  by (simp add: same_lit_def)

lemma part_sum: "mset ms \<subseteq># mset ns \<Longrightarrow> sum_list (map h ms) \<le> (sum_list (map h ns) :: nat)"
proof -
  assume "mset ms \<subseteq># mset ns"
  then obtain R where "mset ns = mset ms + R" by (metis subset_mset.le_iff_add)
  then have "sum_mset (image_mset h (mset ns)) = sum_mset (image_mset h (mset ms)) + sum_mset (image_mset h R)" by simp
  then show ?thesis by (simp flip: mset_map add: sum_mset_sum_list)
qed

lemma part_length: "mset ms \<subseteq># mset ns \<Longrightarrow> length (filter P ms) \<le> length (filter P ns)"
  by (metis mset_filter size_mset size_mset_mono multiset_filter_mono)

lemma instances_occ:
  "list_all2 same_lit (map (inst_lit \<sigma>) ls) ms \<Longrightarrow> sum_list (map (occ_lit i) ls) \<le> sum_list (map (occ_lit i) ms)"
proof (induction ls arbitrary: ms)
  case (Cons l ls)
  then obtain m ms' where "ms = m # ms'" "same_lit (inst_lit \<sigma> l) m" "list_all2 same_lit (map (inst_lit \<sigma>) ls) ms'"
    by (auto simp: list_all2_Cons1)
  then show ?case using Cons.IH occ_lit_inst [of i l \<sigma>] same_lit_occ [of "inst_lit \<sigma> l" m i] by (simp add: add_mono)
qed simp

lemma instances_signs:
  "list_all2 same_lit (map (inst_lit \<sigma>) ls) ms \<Longrightarrow>
   length (filter positive ls) = length (filter positive ms) \<and>
   length (filter (\<lambda>l. \<not> positive l) ls) = length (filter (\<lambda>l. \<not> positive l) ms)"
proof (induction ls arbitrary: ms)
  case (Cons l ls)
  then obtain m ms' where "ms = m # ms'" "same_lit (inst_lit \<sigma> l) m" "list_all2 same_lit (map (inst_lit \<sigma>) ls) ms'"
    by (auto simp: list_all2_Cons1)
  moreover have "positive l = positive m" using same_lit_sign [OF calculation(2)] by (simp add: inst_lit_def)
  ultimately show ?case using Cons.IH by simp
qed simp

lemma of_nat_mono32: "m \<le> n \<Longrightarrow> n < 2 ^ 32 \<Longrightarrow> (of_nat m :: u32) \<le> of_nat n"
  by (simp add: word_le_nat_alt unat_of_nat take_bit_nat_eq_self_iff)

text \<open>
  C37. The feature vector is a sound filter for multiset subsumption: when different literals of
  \<open>c1\<close> are sent by \<open>\<sigma>\<close> to different literals of \<open>c2\<close> (an equation possibly turned round), the
  vectors of the two clauses pass \<open>can_subsume\<close>, whatever symbols share a bucket and whichever
  counters are saturated; only the number of literals must fit 32 bits.
\<close>

theorem feature_filter:
  assumes "list_all2 same_lit (map (inst_lit \<sigma>) (literals c1)) ms" "mset ms \<subseteq># mset (literals c2)"
    "length (literals c2) < 2 ^ 32"
  shows "can_subsume (from_clause c1) (from_clause c2)"
proof -
  note f1 = from_clause_counts [of c1] and f2 = from_clause_counts [of c2]
  have le: "length (filter P ms) \<le> length (filter P (literals c2))" for P using assms(2) by (rule part_length)
  have small: "length (filter P (literals c2)) < 2 ^ 32" for P
    using assms(3) length_filter_le [of P "literals c2"] by linarith
  have len: "length (literals c1) = length ms" using assms(1) by (auto dest: list_all2_lengthD)
  have "(of_nat (length (literals c1)) :: u32) \<le> of_nat (length (literals c2))"
    using le [of "\<lambda>_. True"] len assms(3) by (intro of_nat_mono32) simp_all
  moreover have "(of_nat (length (filter positive (literals c1))) :: u32) \<le> of_nat (length (filter positive (literals c2)))"
    using le [of positive] instances_signs [OF assms(1)] small by (intro of_nat_mono32) simp_all
  moreover have "(of_nat (length (filter (\<lambda>l. \<not> positive l) (literals c1))) :: u32) \<le>
      of_nat (length (filter (\<lambda>l. \<not> positive l) (literals c2)))"
    using le [of "\<lambda>l. \<not> positive l"] instances_signs [OF assms(1)] small by (intro of_nat_mono32) simp_all
  moreover have "sum_list (map (occ_lit i) (literals c1)) \<le> sum_list (map (occ_lit i) (literals c2))" for i
    using instances_occ [OF assms(1), of i] part_sum [OF assms(2), of "occ_lit i"] by linarith
  then have "sym_counts_le (from_clause c1) (from_clause c2)"
    using f1 f2 by (simp add: sym_counts_le_iff counts_def sat16_mono)
  ultimately show ?thesis using f1 f2 by (simp add: can_subsume_def not_less)
qed

theorem feature_filter_witness:
  "can_subsume (from_clause general_clause) (from_clause special_clause)"
  by (rule feature_filter [of "Var(0 := App 3 [Var 0], 1 := Var 0)" _ "[literals special_clause ! 1]"])
    (simp_all add: general_clause_def special_clause_def new_clause_def inst_lit_def same_lit_def same_atom_def)

text \<open>
  The filter loses clauses that the subsumption test accepts: the test sends two literals to the
  same one, and the vectors count both. The comment at the head of the file promises a comparison
  without false negatives for every subsuming clause.
\<close>

theorem feature_filter_loses:
  "subsumes doubled_clause eq_special \<and> \<not> can_subsume (from_clause doubled_clause) (from_clause eq_special)"
proof
  show "subsumes doubled_clause eq_special" using subsumes_not_injective by blast
  show "\<not> can_subsume (from_clause doubled_clause) (from_clause eq_special)" by code_simp
qed


section \<open>The vector of a stored clause\<close>

lemma count_term_id_eq: "to_legacy b i = Some t \<Longrightarrow> count_term_id b i f = Some (count_term t f)"
proof (induction t arbitrary: i f)
  case (Var v)
  then show ?case by (subst count_term_id.simps) (simp add: to_legacy_Var)
next
  case (App g ts)
  then obtain args where args: "node_at b i = Some (NApp g args)" "mapM (to_legacy b) args = Some ts"
    by (auto simp: to_legacy_App)
  have "foldM (count_term_id b) args (increment g f) = Some (fold count_term ts (increment g f))"
    using args(2) App.IH by (intro foldM_fold) (auto simp: mapM_Some_iff list_all2_conv_all_nth)
  then show ?case by (subst count_term_id.simps) (simp add: args(1))
qed

lemma count_literal_id_eq:
  assumes "literal_to_legacy b l = Some l'"
  shows "count_literal_id b l f = Some (count_literal l' f)"
proof (cases "id_atom l")
  case (IdPred p args)
  then obtain ts where ts: "mapM (to_legacy b) args = Some ts" "l' = \<lparr>positive = id_positive l, atom = Pred p ts\<rparr>"
    using assms by (auto simp: literal_to_legacy_def bind_eq_Some_conv)
  have "foldM (count_term_id b) args g = Some (fold count_term ts g)" for g
    using ts(1) count_term_id_eq by (intro foldM_fold) (auto simp: mapM_Some_iff list_all2_conv_all_nth)
  then show ?thesis by (simp add: count_literal_id_def count_literal_def IdPred ts(2))
next
  case (IdEq s t)
  then obtain s' t' where "to_legacy b s = Some s'" "to_legacy b t = Some t'"
      "l' = \<lparr>positive = id_positive l, atom = Eq s' t'\<rparr>"
    using assms by (auto simp: literal_to_legacy_def bind_eq_Some_conv)
  then show ?thesis using IdEq count_term_id_eq by (simp add: count_literal_id_def count_literal_def)
qed

text \<open>
  \<open>FeatureVector::from_id_clause\<close> returns on every clause of the bank that can be read, and
  gives the vector of the owned clause.
\<close>

theorem from_id_clause_refines:
  assumes "clause_to_legacy b c = Some c'"
  shows "from_id_clause c b = Some (from_clause c')"
proof -
  obtain ls where ls: "mapM (literal_to_legacy b) (idc_literals c) = Some ls" "literals c' = ls"
    using assms by (auto simp: clause_to_legacy_def new_clause_def bind_eq_Some_conv)
  then have "length (idc_literals c) = length ls" by (simp add: mapM_Some_iff)
  moreover have "foldM (count_literal_id b) (idc_literals c) f = Some (fold count_literal ls f)" for f
    using ls(1) count_literal_id_eq by (intro foldM_fold) (auto simp: mapM_Some_iff list_all2_conv_all_nth)
  ultimately show ?thesis by (simp add: from_id_clause_def from_clause_def ls(2))
qed

section \<open>The tree is a multiset\<close>

definition fvt_holds :: "'v FeatureVectorTree \<Rightarrow> ('v \<times> FeatureVector) multiset \<Rightarrow> bool" where
  "fvt_holds t M \<longleftrightarrow> fv_ok 0 (fvt_root t) \<and> fv_items (fvt_root t) = M \<and> fvt_len t = size M"

lemma fvt_holds_new: "fvt_holds fvt_new {#}"
  by (simp add: fvt_holds_def fvt_new_def)

lemma fvt_holds_insert: "fvt_holds t M \<Longrightarrow> fvt_holds (fvt_insert v f t) (add_mset (v, f) M)"
  using fvt_insert_rec_items [of 0 "fvt_root t" v f] by (simp add: fvt_holds_def fvt_insert_def)

lemma fvt_holds_takes:
  assumes "fvt_holds t M"
  shows "\<exists>removed t' M'. fvt_remove v f t = Some (removed, t') \<and> fvt_holds t' M' \<and> takes_out removed v f M M'"
proof -
  obtain r n where n: "fvt_remove_rec 0 v f (fvt_root t) = (r, n)" by fastforce
  have h: "fv_ok 0 n" "takes_out r v f M (fv_items n)" "fvt_len t = size M"
    using fvt_remove_rec_takes [OF _ n] assms by (auto simp: fvt_holds_def)
  show ?thesis
  proof (cases r)
    case True
    then obtain g where g: "(v, g) \<in># M" "fv_items n = M - {#(v, g)#}" using h(2) by (auto simp: takes_out_def)
    then have "fvt_len t \<noteq> 0" "fvt_len t - 1 = size (fv_items n)" using h(3) by (auto simp: size_Diff_singleton)
    then have "fvt_remove v f t = Some (True, t\<lparr>fvt_root := n, fvt_len := fvt_len t - 1\<rparr>)"
      "fvt_holds (t\<lparr>fvt_root := n, fvt_len := fvt_len t - 1\<rparr>) (fv_items n)"
      using n h(1) True by (simp_all add: fvt_remove_def fvt_holds_def)
    moreover have "takes_out True v f M (fv_items n)" using h(2) True by simp
    ultimately show ?thesis by blast
  next
    case False
    then have "fv_items n = M" using h(2) by (simp add: takes_out_def)
    then have "fvt_remove v f t = Some (False, t\<lparr>fvt_root := n\<rparr>)" "fvt_holds (t\<lparr>fvt_root := n\<rparr>) (fv_items n)"
      using n h(1,3) False by (simp_all add: fvt_remove_def fvt_holds_def)
    moreover have "takes_out False v f M (fv_items n)" using h(2) False by simp
    ultimately show ?thesis by blast
  qed
qed

lemma fvt_holds_remove:
  assumes "fvt_holds t M" "once M" "(v, f) \<in># M"
  shows "\<exists>t'. fvt_remove v f t = Some (True, t') \<and> fvt_holds t' (M - {#(v, f)#})"
proof -
  obtain r t' M' where t': "fvt_remove v f t = Some (r, t')" "fvt_holds t' M'" "takes_out r v f M M'"
    using fvt_holds_takes [OF assms(1)] by blast
  then obtain g where g: "r" "(v, g) \<in># M" "M' = M - {#(v, g)#}" using assms(3) by (auto simp: takes_out_def split: if_splits)
  have "{#(v, g)#} = {#(v, f)#}" using assms(2,3) g(2) unfolding once_def by metis
  then show ?thesis using t' g by simp
qed

text \<open>
  C38. \<open>FeatureVectorTree\<close> implements a multiset of values with their vectors. Insertion adds a pair.
  Removal always returns and never underflows the counter; when it answers true it has taken out one
  pair with the given value, and when it answers false it has changed nothing and the given pair was not
  stored. The pair taken out may carry another vector than the given one, unless every value is stored
  once, when removal of a stored pair takes out exactly this pair. Each of the four queries returns
  exactly the values whose vectors pass its test: splitting a leaf, pruning by feature ranges and the
  unclamped casts of the backward query lose nothing.
\<close>

theorem fvt_refines:
  assumes "fvt_holds t M"
  shows "fvt_holds (fvt_insert v f t) (add_mset (v, f) M) \<and>
    (\<exists>removed t' M'. fvt_remove v f t = Some (removed, t') \<and> fvt_holds t' M' \<and>
       (if removed then \<exists>g. (v, g) \<in># M \<and> M' = M - {#(v, g)#} else M' = M \<and> (v, f) \<notin># M)) \<and>
    (once M \<and> (v, f) \<in># M \<longrightarrow> (\<exists>t'. fvt_remove v f t = Some (True, t') \<and> fvt_holds t' (M - {#(v, f)#}))) \<and>
    set (query_subsumers q t) = {w. \<exists>g. (w, g) \<in># M \<and> can_subsume g q} \<and>
    set (query_subsumed q t) = {w. \<exists>g. (w, g) \<in># M \<and> can_subsume q g} \<and>
    set (query_subsumption_resolution q t) = {w. \<exists>g. (w, g) \<in># M \<and> can_subsumption_resolve g q} \<and>
    set (query_backward_subsumption_resolution q t) = {w. \<exists>g. (w, g) \<in># M \<and> can_subsumption_resolve q g}"
proof (intro conjI)
  show "fvt_holds (fvt_insert v f t) (add_mset (v, f) M)" by (rule fvt_holds_insert [OF assms])
  show "\<exists>removed t' M'. fvt_remove v f t = Some (removed, t') \<and> fvt_holds t' M' \<and>
       (if removed then \<exists>g. (v, g) \<in># M \<and> M' = M - {#(v, g)#} else M' = M \<and> (v, f) \<notin># M)"
    using fvt_holds_takes [OF assms] unfolding takes_out_def .
  show "once M \<and> (v, f) \<in># M \<longrightarrow> (\<exists>t'. fvt_remove v f t = Some (True, t') \<and> fvt_holds t' (M - {#(v, f)#}))"
    using fvt_holds_remove [OF assms] by blast
  have ok: "fv_ok 0 (fvt_root t)" "fv_items (fvt_root t) = M" using assms by (simp_all add: fvt_holds_def)
  show "set (query_subsumers q t) = {w. \<exists>g. (w, g) \<in># M \<and> can_subsume g q}"
    using subsumers.query_exact [OF ok(1)] ok(2) by (simp add: query_subsumers_def)
  show "set (query_subsumed q t) = {w. \<exists>g. (w, g) \<in># M \<and> can_subsume q g}"
    using subsumed.query_exact [OF ok(1)] ok(2) by (simp add: query_subsumed_def)
  show "set (query_subsumption_resolution q t) = {w. \<exists>g. (w, g) \<in># M \<and> can_subsumption_resolve g q}"
    using resolvers.query_exact [OF ok(1)] ok(2) by (simp add: query_subsumption_resolution_def)
  show "set (query_backward_subsumption_resolution q t) = {w. \<exists>g. (w, g) \<in># M \<and> can_subsumption_resolve q g}"
    using resolved.query_exact [OF ok(1)] ok(2) by (simp add: query_backward_subsumption_resolution_def)
qed

text \<open>Nine vectors, one more than a leaf holds.\<close>

definition vec :: "nat \<Rightarrow> FeatureVector" where
  "vec n = fv_default\<lparr>num_lits := of_nat n\<rparr>"

definition sample_tree :: "nat FeatureVectorTree" where
  "sample_tree = fold (\<lambda>n. fvt_insert n (vec n)) [0, 1, 2, 3, 4, 5, 6, 7, 8] fvt_new"

definition sample_items :: "(nat \<times> FeatureVector) multiset" where
  "sample_items = image_mset (\<lambda>n. (n, vec n)) (mset [0, 1, 2, 3, 4, 5, 6, 7, 8])"

lemma sample_holds: "fvt_holds sample_tree sample_items"
proof -
  have "fvt_holds (fold (\<lambda>n. fvt_insert n (vec n)) ns t) (M + image_mset (\<lambda>n. (n, vec n)) (mset ns))"
    if "fvt_holds t M" for ns t M
    using that
  proof (induction ns arbitrary: t M)
    case (Cons n ns)
    from Cons.IH [OF fvt_holds_insert [OF Cons.prems, of n "vec n"]] show ?case by simp
  qed simp
  from this [OF fvt_holds_new, of "[0, 1, 2, 3, 4, 5, 6, 7, 8]"] show ?thesis
    unfolding sample_tree_def sample_items_def by (simp only: add_0_left)
qed

lemma sample_once: "once sample_items"
  by (auto simp: once_def sample_items_def)

lemma vec_subsume: "can_subsume (vec m) (vec n) \<longleftrightarrow> (of_nat m :: u32) \<le> of_nat n"
  by (simp add: can_subsume_def vec_def not_less sym_counts_le_iff)

theorem fvt_refines_witness:
  "set (query_subsumers (vec 2) sample_tree) = {0, 1, 2} \<and>
   (\<exists>t'. fvt_remove 5 (vec 5) sample_tree = Some (True, t') \<and> fvt_holds t' (sample_items - {#(5, vec 5)#}))"
proof
  note r = fvt_refines [OF sample_holds]
  have "set (query_subsumers (vec 2) sample_tree) = {w. \<exists>g. (w, g) \<in># sample_items \<and> can_subsume g (vec 2)}"
    using r by blast
  also have "\<dots> = {0, 1, 2}" by (auto simp: sample_items_def vec_subsume)
  finally show "set (query_subsumers (vec 2) sample_tree) = {0, 1, 2}" .
  have "(5, vec 5) \<in># sample_items" by (simp add: sample_items_def)
  then show "\<exists>t'. fvt_remove 5 (vec 5) sample_tree = Some (True, t') \<and> fvt_holds t' (sample_items - {#(5, vec 5)#})"
    using r sample_once by blast
qed

text \<open>
  The vector given to a removal only leads to a leaf, and there the value alone decides: a pair with
  another vector is taken out, where the documentation speaks of removal by value and vector.
\<close>

lemma removal_ignores_vector:
  "vec 1 \<noteq> vec 2 \<and> fvt_remove 7 (vec 2) (fvt_insert (7 :: nat) (vec 1) fvt_new) = Some (True, fvt_new)"
proof -
  have "num_lits (vec 1) \<noteq> num_lits (vec 2)" by (simp add: vec_def)
  then show ?thesis
    by (auto simp: fvt_insert_def fvt_new_def fvt_remove_def swap_remove_def LEAF_CAPACITY_def)
qed

text \<open>A clause of two literals stored in the bank of the examples.\<close>

definition sample_stored :: IdClause where
  "sample_stored = id_new_clause 1 [\<lparr>id_positive = True, id_atom = IdPred 7 [3]\<rparr>, \<lparr>id_positive = False, id_atom = IdEq 0 3\<rparr>]
     (Input ''stored'' ''axiom'')"

theorem from_id_clause_refines_witness:
  "from_id_clause sample_stored example_bank =
     Some (from_clause (new_clause 1 [\<lparr>positive = True, atom = Pred 7 [example_term]\<rparr>,
       \<lparr>positive = False, atom = Eq (Var 3) example_term\<rparr>] (Input ''stored'' ''axiom'')))"
  by (rule from_id_clause_refines)
    (simp add: clause_to_legacy_def literal_to_legacy_def sample_stored_def id_new_clause_def new_clause_def example_ids)

end
