(* ===== verification/LitIndex.thy ===== *)
theory LitIndex
  imports STree Fvi
begin

text \<open>
  The index of the active clauses, \<open>crates/mrs-index/src/literal_index.rs\<close>: postings of clause identifiers
  by predicate and sign, by equation sides and by subterms, in substitution trees and sets, and the
  feature vector tree. The order of iteration over a hash set is not fixed; what is collected from one
  is sorted before it is returned. The operations on literals are shown to refine operations on sets of
  postings, the postings of an index to be those of its clauses, and the queries to be complete.
\<close>

section \<open>The state\<close>

record LitKey =
  key_pred :: SymbolId
  key_positive :: bool

record LiteralIndex =
  clauses :: "(ClauseId, SearchClause) fmap"
  fvt :: "ClauseId FeatureVectorTree"
  fv_map :: "(ClauseId, FeatureVector) fmap"
  pred_index :: "(LitKey, ClauseId STreeId) fmap"
  pred_clauses :: "(SymbolId, ClauseId set) fmap"
  pos_eq_clauses :: "ClauseId set"
  neg_eq_clauses :: "ClauseId set"
  pos_eq_lhs_index :: "ClauseId STreeId"
  subterm_index :: "ClauseId STreeId"

definition li_new :: LiteralIndex where
  "li_new = \<lparr>clauses = fmempty, fvt = fvt_new, fv_map = fmempty, pred_index = fmempty, pred_clauses = fmempty,
     pos_eq_clauses = {}, neg_eq_clauses = {}, pos_eq_lhs_index = st_new, subterm_index = st_new\<rparr>"

fun into_inner :: "SearchClause \<Rightarrow> IdClause" where
  "into_inner (SearchClause c) = c"

definition is_var_id :: "TermBank \<Rightarrow> TermId \<Rightarrow> bool option" where
  "is_var_id bank i = do { node \<leftarrow> node_at bank i; Some (case node of NVar v \<Rightarrow> True | NApp f args \<Rightarrow> False) }"

section \<open>Insertion\<close>

definition insert_subterms :: "TermBank \<Rightarrow> ClauseId \<Rightarrow> TermId \<Rightarrow> LiteralIndex \<Rightarrow> LiteralIndex option" where
  "insert_subterms bank cid i li = do {
     subs \<leftarrow> non_variable_subterms bank i;
     t \<leftarrow> foldM (\<lambda>s t. st_insert s bank cid t) subs (subterm_index li);
     Some (li\<lparr>subterm_index := t\<rparr>) }"

definition insert_side :: "TermBank \<Rightarrow> ClauseId \<Rightarrow> TermId \<Rightarrow> LiteralIndex \<Rightarrow> LiteralIndex option" where
  "insert_side bank cid i li = do {
     is_var \<leftarrow> is_var_id bank i;
     if is_var then Some li
     else do { t \<leftarrow> st_insert i bank cid (pos_eq_lhs_index li); Some (li\<lparr>pos_eq_lhs_index := t\<rparr>) } }"

definition insert_literal :: "TermBank \<Rightarrow> ClauseId \<Rightarrow> IdLiteral \<Rightarrow> LiteralIndex \<Rightarrow> LiteralIndex option" where
  "insert_literal bank cid l li = (case id_atom l of
     IdPred p args \<Rightarrow> do {
       let key = \<lparr>key_pred = p, key_positive = id_positive l\<rparr>;
       tree \<leftarrow> st_insert_atom (id_atom l) bank cid (case fmlookup (pred_index li) key of Some t \<Rightarrow> t | None \<Rightarrow> st_new);
       let li = li\<lparr>pred_index := fmupd key tree (pred_index li),
         pred_clauses := fmupd p (insert cid (case fmlookup (pred_clauses li) p of Some s \<Rightarrow> s | None \<Rightarrow> {})) (pred_clauses li)\<rparr>;
       foldM (insert_subterms bank cid) args li }
   | IdEq l' r' \<Rightarrow> do {
       li \<leftarrow> (if id_positive l then do {
           li \<leftarrow> insert_side bank cid l' (li\<lparr>pos_eq_clauses := insert cid (pos_eq_clauses li)\<rparr>);
           insert_side bank cid r' li }
         else Some (li\<lparr>neg_eq_clauses := insert cid (neg_eq_clauses li)\<rparr>));
       li \<leftarrow> insert_subterms bank cid l' li;
       insert_subterms bank cid r' li })"

section \<open>Removal\<close>

definition remove_subterms :: "TermBank \<Rightarrow> ClauseId \<Rightarrow> TermId \<Rightarrow> LiteralIndex \<Rightarrow> LiteralIndex option" where
  "remove_subterms bank cid i li = do {
     subs \<leftarrow> non_variable_subterms bank i;
     t \<leftarrow> foldM (\<lambda>s t. do { (removed, t) \<leftarrow> st_remove s bank cid t; Some t }) subs (subterm_index li);
     Some (li\<lparr>subterm_index := t\<rparr>) }"

definition remove_side :: "TermBank \<Rightarrow> ClauseId \<Rightarrow> TermId \<Rightarrow> LiteralIndex \<Rightarrow> LiteralIndex option" where
  "remove_side bank cid i li = do {
     is_var \<leftarrow> is_var_id bank i;
     if is_var then Some li
     else do { (removed, t) \<leftarrow> st_remove i bank cid (pos_eq_lhs_index li); Some (li\<lparr>pos_eq_lhs_index := t\<rparr>) } }"

definition remove_literal :: "TermBank \<Rightarrow> ClauseId \<Rightarrow> IdLiteral \<Rightarrow> LiteralIndex \<Rightarrow> LiteralIndex option" where
  "remove_literal bank cid l li = (case id_atom l of
     IdPred p args \<Rightarrow> do {
       let key = \<lparr>key_pred = p, key_positive = id_positive l\<rparr>;
       li \<leftarrow> (case fmlookup (pred_index li) key of
           None \<Rightarrow> Some li
         | Some tree \<Rightarrow> do {
             (removed, tree) \<leftarrow> st_remove_atom (id_atom l) bank cid tree;
             Some (li\<lparr>pred_index := fmupd key tree (pred_index li)\<rparr>) });
       foldM (remove_subterms bank cid) args li }
   | IdEq l' r' \<Rightarrow> do {
       li \<leftarrow> (if id_positive l then do {
           li \<leftarrow> remove_side bank cid l' (li\<lparr>pos_eq_clauses := pos_eq_clauses li - {cid}\<rparr>);
           remove_side bank cid r' li }
         else Some (li\<lparr>neg_eq_clauses := neg_eq_clauses li - {cid}\<rparr>));
       li \<leftarrow> remove_subterms bank cid l' li;
       remove_subterms bank cid r' li })"

definition remove_posting :: "ClauseId \<Rightarrow> SymbolId \<Rightarrow> (SymbolId, ClauseId set) fmap \<Rightarrow> (SymbolId, ClauseId set) fmap" where
  "remove_posting cid p m = (case fmlookup m p of
     None \<Rightarrow> m
   | Some s \<Rightarrow> if s - {cid} = {} then fmdrop p m else fmupd p (s - {cid}) m)"

definition predicate_symbols :: "IdLiteral list \<Rightarrow> SymbolId list" where
  "predicate_symbols ls = remdups (List.map_filter (\<lambda>l. case id_atom l of IdPred p args \<Rightarrow> Some p | IdEq s t \<Rightarrow> None) ls)"

definition li_remove :: "ClauseId \<Rightarrow> TermBank \<Rightarrow> LiteralIndex \<Rightarrow> (IdClause option \<times> LiteralIndex) option" where
  "li_remove cid bank li = do {
     li \<leftarrow> (case fmlookup (fv_map li) cid of
         None \<Rightarrow> Some li
       | Some fv \<Rightarrow> do {
           (removed, t) \<leftarrow> fvt_remove cid fv (fvt li);
           Some (li\<lparr>fvt := t, fv_map := fmdrop cid (fv_map li)\<rparr>) });
     case fmlookup (clauses li) cid of
       None \<Rightarrow> Some (None, li)
     | Some sc \<Rightarrow> do {
         let c = into_inner sc;
         let li = li\<lparr>clauses := fmdrop cid (clauses li),
           pred_clauses := fold (remove_posting cid) (predicate_symbols (idc_literals c)) (pred_clauses li)\<rparr>;
         li \<leftarrow> foldM (remove_literal bank cid) (idc_literals c) li;
         Some (Some c, li) } }"

definition insert_search_clause :: "SearchClause \<Rightarrow> TermBank \<Rightarrow> LiteralIndex \<Rightarrow> LiteralIndex option" where
  "insert_search_clause sc bank li = do {
     let c = into_inner sc;
     let cid = idc_id c;
     li \<leftarrow> (if cid |\<in>| fmdom (clauses li) then do { (old, li) \<leftarrow> li_remove cid bank li; Some li } else Some li);
     fv \<leftarrow> from_id_clause c bank;
     let li = li\<lparr>fvt := fvt_insert cid fv (fvt li), fv_map := fmupd cid fv (fv_map li)\<rparr>;
     li \<leftarrow> foldM (insert_literal bank cid) (idc_literals c) li;
     Some (li\<lparr>clauses := fmupd cid sc (clauses li)\<rparr>) }"

text \<open>The \<open>expect\<close> of a clause that carries formula provenance is \<open>None\<close>.\<close>

definition li_insert :: "IdClause \<Rightarrow> TermBank \<Rightarrow> LiteralIndex \<Rightarrow> LiteralIndex option" where
  "li_insert c bank li = (case search_clause_try_from c of
     Inl e \<Rightarrow> None | Inr sc \<Rightarrow> insert_search_clause sc bank li)"

section \<open>Queries\<close>

text \<open>\<open>sort_unstable\<close>, followed by \<open>dedup\<close>.\<close>

definition sort_dedup :: "ClauseId list \<Rightarrow> ClauseId list" where
  "sort_dedup cs = remdups_adj (sort cs)"

definition resolution_partner_ids :: "IdAtom \<Rightarrow> bool \<Rightarrow> TermBank \<Rightarrow> LiteralIndex \<Rightarrow> ClauseId list option" where
  "resolution_partner_ids a pos bank li = (case a of
     IdPred p args \<Rightarrow> (case fmlookup (pred_index li) \<lparr>key_pred = p, key_positive = \<not> pos\<rparr> of
         Some tree \<Rightarrow> do { is \<leftarrow> st_get_unifications_atom a bank tree; Some (sort_dedup is) }
       | None \<Rightarrow> Some [])
   | IdEq s t \<Rightarrow> Some [])"

text \<open>The clauses of a list of identifiers; missing ones are left out.\<close>

definition fetch :: "LiteralIndex \<Rightarrow> ClauseId list \<Rightarrow> IdClause list" where
  "fetch li cs = List.map_filter (\<lambda>i. map_option into_inner (fmlookup (clauses li) i)) cs"

definition get_unifiable_resolution_partners :: "IdAtom \<Rightarrow> bool \<Rightarrow> TermBank \<Rightarrow> LiteralIndex \<Rightarrow> IdClause list option" where
  "get_unifiable_resolution_partners a pos bank li = map_option (fetch li) (resolution_partner_ids a pos bank li)"

definition get_positive_equality_clauses :: "LiteralIndex \<Rightarrow> IdClause list" where
  "get_positive_equality_clauses li = sort_key idc_id (fetch li (sorted_list_of_set (pos_eq_clauses li)))"

definition subsumption_candidate_ids :: "FeatureVector \<Rightarrow> LiteralIndex \<Rightarrow> ClauseId list" where
  "subsumption_candidate_ids fv li = sort (query_subsumers fv (fvt li))"

definition subsumed_candidate_ids :: "FeatureVector \<Rightarrow> LiteralIndex \<Rightarrow> ClauseId list" where
  "subsumed_candidate_ids fv li = sort (query_subsumed fv (fvt li))"

definition subsumption_resolution_candidate_ids :: "FeatureVector \<Rightarrow> LiteralIndex \<Rightarrow> ClauseId list" where
  "subsumption_resolution_candidate_ids fv li = sort (query_subsumption_resolution fv (fvt li))"

definition backward_subsumption_resolution_candidate_ids :: "FeatureVector \<Rightarrow> LiteralIndex \<Rightarrow> ClauseId list" where
  "backward_subsumption_resolution_candidate_ids fv li = sort (query_backward_subsumption_resolution fv (fvt li))"

text \<open>The clauses that share a predicate with the given one, or have an equation when it has one.\<close>

definition sharing :: "IdClause \<Rightarrow> LiteralIndex \<Rightarrow> ClauseId set" where
  "sharing c li =
     fold (\<lambda>l found. case id_atom l of
         IdPred p args \<Rightarrow> found \<union> (case fmlookup (pred_clauses li) p of Some s \<Rightarrow> s | None \<Rightarrow> {})
       | IdEq s t \<Rightarrow> found) (idc_literals c) {} \<union>
     (if list_ex (\<lambda>l. case id_atom l of IdPred p args \<Rightarrow> False | IdEq s t \<Rightarrow> True) (idc_literals c)
      then pos_eq_clauses li \<union> neg_eq_clauses li else {})"

definition subsumption_resolution_candidates_for :: "IdClause \<Rightarrow> FeatureVector \<Rightarrow> LiteralIndex \<Rightarrow> ClauseId list" where
  "subsumption_resolution_candidates_for target fv li = filter (\<lambda>i. case fmlookup (fv_map li) i of
     Some f \<Rightarrow> can_subsumption_resolve f fv | None \<Rightarrow> False) (sorted_list_of_set (sharing target li))"

definition backward_subsumption_resolution_candidates_for :: "IdClause \<Rightarrow> FeatureVector \<Rightarrow> LiteralIndex \<Rightarrow> ClauseId list" where
  "backward_subsumption_resolution_candidates_for simplifier fv li = filter (\<lambda>i. case fmlookup (fv_map li) i of
     Some f \<Rightarrow> can_subsumption_resolve fv f | None \<Rightarrow> False) (sorted_list_of_set (sharing simplifier li))"

definition superposition_target_ids :: "TermId \<Rightarrow> TermBank \<Rightarrow> LiteralIndex \<Rightarrow> ClauseId list option" where
  "superposition_target_ids i bank li = do { is \<leftarrow> st_get_unifications i bank (subterm_index li); Some (sort_dedup is) }"

definition superposition_source_ids :: "TermId \<Rightarrow> TermBank \<Rightarrow> LiteralIndex \<Rightarrow> ClauseId list option" where
  "superposition_source_ids i bank li = do { is \<leftarrow> st_get_unifications i bank (pos_eq_lhs_index li); Some (sort_dedup is) }"

definition get_superposition_targets :: "TermId \<Rightarrow> TermBank \<Rightarrow> LiteralIndex \<Rightarrow> IdClause list option" where
  "get_superposition_targets i bank li = map_option (fetch li) (superposition_target_ids i bank li)"

definition get_superposition_sources :: "TermId \<Rightarrow> TermBank \<Rightarrow> LiteralIndex \<Rightarrow> IdClause list option" where
  "get_superposition_sources i bank li = map_option (fetch li) (superposition_source_ids i bank li)"

definition get_subsumption_candidates :: "FeatureVector \<Rightarrow> LiteralIndex \<Rightarrow> IdClause list" where
  "get_subsumption_candidates fv li = fetch li (subsumption_candidate_ids fv li)"

definition get_subsumed_candidates :: "FeatureVector \<Rightarrow> LiteralIndex \<Rightarrow> IdClause list" where
  "get_subsumed_candidates fv li = fetch li (subsumed_candidate_ids fv li)"

definition get_subsumption_resolution_candidates :: "FeatureVector \<Rightarrow> LiteralIndex \<Rightarrow> IdClause list" where
  "get_subsumption_resolution_candidates fv li = fetch li (subsumption_resolution_candidate_ids fv li)"

definition get_backward_subsumption_resolution_candidates :: "FeatureVector \<Rightarrow> LiteralIndex \<Rightarrow> IdClause list" where
  "get_backward_subsumption_resolution_candidates fv li = fetch li (backward_subsumption_resolution_candidate_ids fv li)"

definition li_get :: "ClauseId \<Rightarrow> LiteralIndex \<Rightarrow> IdClause option" where
  "li_get cid li = map_option into_inner (fmlookup (clauses li) cid)"

definition get_search_clause :: "ClauseId \<Rightarrow> LiteralIndex \<Rightarrow> SearchClause option" where
  "get_search_clause cid li = fmlookup (clauses li) cid"

definition feature_vector :: "ClauseId \<Rightarrow> LiteralIndex \<Rightarrow> FeatureVector option" where
  "feature_vector cid li = fmlookup (fv_map li) cid"

definition li_len :: "LiteralIndex \<Rightarrow> nat" where
  "li_len li = fcard (fmdom (clauses li))"

definition li_is_empty :: "LiteralIndex \<Rightarrow> bool" where
  "li_is_empty li \<longleftrightarrow> clauses li = fmempty"

text \<open>The clauses leave the index in no fixed order.\<close>

definition drain :: "LiteralIndex \<Rightarrow> IdClause set \<times> LiteralIndex" where
  "drain li = (into_inner ` fset (fmran (clauses li)),
     li\<lparr>pred_index := fmempty, pred_clauses := fmempty, pos_eq_clauses := {}, neg_eq_clauses := {},
       pos_eq_lhs_index := st_new, subterm_index := st_new, fvt := fvt_clear (fvt li), fv_map := fmempty, clauses := fmempty\<rparr>)"


text \<open>\<open>retain\<close>; the order in which the clauses of the hash map are visited is a parameter.\<close>

definition retain :: "(ClauseId set \<Rightarrow> ClauseId list) \<Rightarrow> (IdClause \<Rightarrow> bool) \<Rightarrow> TermBank \<Rightarrow> LiteralIndex \<Rightarrow> LiteralIndex option" where
  "retain order f bank li =
     foldM (\<lambda>cid li. do { (old, li) \<leftarrow> li_remove cid bank li; Some li })
       (order (idc_id ` {c \<in> into_inner ` fset (fmran (clauses li)). \<not> f c})) li"

section \<open>What a literal is posted under\<close>

fun subs_in :: "Term \<Rightarrow> Term set" where
  "subs_in (Var v) = {}"
| "subs_in (App f ts) = insert (App f ts) (\<Union>t \<in> set ts. subs_in t)"

definition lit_subs :: "Literal \<Rightarrow> Term set" where
  "lit_subs l = (case atom l of Pred p ts \<Rightarrow> \<Union>t \<in> set ts. subs_in t | Eq s t \<Rightarrow> subs_in s \<union> subs_in t)"

fun nonvar :: "Term \<Rightarrow> Term set" where
  "nonvar (Var v) = {}"
| "nonvar (App f ts) = {App f ts}"

definition lit_sides :: "Literal \<Rightarrow> Term set" where
  "lit_sides l = (case atom l of Pred p ts \<Rightarrow> {}
     | Eq s t \<Rightarrow> if positive l then nonvar s \<union> nonvar t else {})"

definition lit_atoms :: "LitKey \<Rightarrow> Literal \<Rightarrow> Term set" where
  "lit_atoms k l = (case atom l of Eq s t \<Rightarrow> {}
     | Pred p ts \<Rightarrow> if k = \<lparr>key_pred = p, key_positive = positive l\<rparr> then {App p ts} else {})"

definition has_pred :: "SymbolId \<Rightarrow> Literal \<Rightarrow> bool" where
  "has_pred p l = (case atom l of Pred q ts \<Rightarrow> p = q | Eq s t \<Rightarrow> False)"

definition is_equation :: "bool \<Rightarrow> Literal \<Rightarrow> bool" where
  "is_equation sign l = (case atom l of Pred q ts \<Rightarrow> False | Eq s t \<Rightarrow> positive l = sign)"

text \<open>The identifiers of the non-variable subterms, read back.\<close>

fun nv_subs :: "Term \<Rightarrow> Term list" where
  "nv_subs (Var v) = []"
| "nv_subs (App f ts) = App f ts # concat (map nv_subs ts)"

lemma set_nv_subs: "set (nv_subs t) = subs_in t"
  by (induction t) auto

lemma mapM_append: "mapM f xs = Some us \<Longrightarrow> mapM f ys = Some vs \<Longrightarrow> mapM f (xs @ ys) = Some (us @ vs)"
  by (auto simp: mapM_list_all2 intro: list_all2_appendI)

lemma collect_each:
  assumes "list_all2 (\<lambda>i t. \<forall>acc. \<exists>js. g i acc = Some (acc @ js) \<and> mapM d js = Some (h t)) args ts"
  shows "\<exists>js. foldM g args acc = Some (acc @ js) \<and> mapM d js = Some (concat (map h ts))"
  using assms
proof (induction arbitrary: acc rule: list_all2_induct)
  case (Cons i args t ts)
  obtain js where i: "g i acc = Some (acc @ js)" "mapM d js = Some (h t)" using Cons.hyps(1) by blast
  obtain ks where "foldM g args (acc @ js) = Some ((acc @ js) @ ks)" "mapM d ks = Some (concat (map h ts))"
    using Cons.IH by blast
  then show ?case using i by (auto intro!: exI [of _ "js @ ks"] mapM_append)
qed simp

lemma collect_non_var_subterms_eq:
  "to_legacy b i = Some t \<Longrightarrow> \<exists>js. collect_non_var_subterms b i acc = Some (acc @ js) \<and> mapM (to_legacy b) js = Some (nv_subs t)"
proof (induction t arbitrary: i acc)
  case (Var v)
  then show ?case by (subst collect_non_var_subterms.simps) (simp add: to_legacy_Var)
next
  case (App f ts)
  then obtain args where args: "node_at b i = Some (NApp f args)" "mapM (to_legacy b) args = Some ts"
    by (auto simp: to_legacy_App)
  have "list_all2 (\<lambda>i t. \<forall>acc. \<exists>js. collect_non_var_subterms b i acc = Some (acc @ js) \<and>
      mapM (to_legacy b) js = Some (nv_subs t)) args ts"
    using args(2) App.IH by (auto simp: mapM_Some_iff list_all2_conv_all_nth)
  from collect_each [OF this, of "acc @ [i]"] obtain js where
    js: "foldM (collect_non_var_subterms b) args (acc @ [i]) = Some ((acc @ [i]) @ js)"
      "mapM (to_legacy b) js = Some (concat (map nv_subs ts))" by blast
  then have "mapM (to_legacy b) (i # js) = Some (nv_subs (App f ts))" using App.prems by simp
  then show ?case using args(1) js(1) by (subst collect_non_var_subterms.simps) (auto intro!: exI [of _ "i # js"])
qed

lemma non_variable_subterms_eq:
  assumes "to_legacy b i = Some t"
  obtains js where "non_variable_subterms b i = Some js" "mapM (to_legacy b) js = Some (nv_subs t)"
  using collect_non_var_subterms_eq [OF assms, of "[]"] by (auto simp: non_variable_subterms_def)

section \<open>Lists of postings in a tree\<close>

text \<open>Removal deletes a value from all terms that have the flat form of one of the given terms.\<close>

definition without :: "(Term \<times> 'v) set \<Rightarrow> 'v \<Rightarrow> Term set \<Rightarrow> (Term \<times> 'v) set" where
  "without C v U = {(u, w) \<in> C. \<not> (w = v \<and> (\<exists>x \<in> U. flatten u = flatten x))}"

lemma without_none [simp]: "without C v {} = C"
  by (auto simp: without_def)

lemma without_without [simp]: "without (without C v U) v U' = without C v (U \<union> U')"
  by (auto simp: without_def)

lemma indexes_inserts:
  assumes "indexes t C" "mapM (to_legacy b) js = Some us"
  shows "\<exists>t'. foldM (\<lambda>s t. st_insert s b v t) js t = Some t' \<and> indexes t' (C \<union> set us \<times> {v})"
  using assms
proof (induction js arbitrary: t C us)
  case (Cons i js)
  then obtain u us' where u: "to_legacy b i = Some u" "mapM (to_legacy b) js = Some us'" "us = u # us'"
    by (auto simp: bind_eq_Some_conv)
  obtain t1 where t1: "st_insert i b v t = Some t1" "indexes t1 (insert (u, v) C)"
    using indexes_insert [OF Cons.prems(1) u(1)] by blast
  have "insert (u, v) C \<union> set us' \<times> {v} = C \<union> set us \<times> {v}" using u(3) by auto
  then show ?case using Cons.IH [OF t1(2) u(2)] t1(1) by simp
qed simp

lemma indexes_removes:
  assumes "indexes t C" "mapM (to_legacy b) js = Some us"
  shows "\<exists>t'. foldM (\<lambda>s t. do { (removed, t) \<leftarrow> st_remove s b v t; Some t }) js t = Some t' \<and>
    indexes t' (without C v (set us))"
  using assms
proof (induction js arbitrary: t C us)
  case (Cons i js)
  then obtain u us' where u: "to_legacy b i = Some u" "mapM (to_legacy b) js = Some us'" "us = u # us'"
    by (auto simp: bind_eq_Some_conv)
  have "{(x, w) \<in> C. \<not> (flatten x = flatten u \<and> w = v)} = without C v {u}" by (auto simp: without_def)
  then obtain t1 r where t1: "st_remove i b v t = Some (r, t1)" "indexes t1 (without C v {u})"
    using indexes_remove [OF Cons.prems(1) u(1), of v] by auto
  show ?case using Cons.IH [OF t1(2) u(2)] t1(1) u(3) by simp
qed simp


section \<open>Postings\<close>

record Postings =
  at_subterms :: "(Term \<times> ClauseId) set"
  at_sides :: "(Term \<times> ClauseId) set"
  at_atoms :: "LitKey \<Rightarrow> (Term \<times> ClauseId) set"
  at_preds :: "SymbolId \<Rightarrow> ClauseId set"
  at_eqs :: "bool \<Rightarrow> ClauseId set"

fun tree_holds :: "'v STreeId option \<Rightarrow> (Term \<times> 'v) set \<Rightarrow> bool" where
  "tree_holds None C = (C = {})"
| "tree_holds (Some t) C = indexes t C"

definition posted :: "LiteralIndex \<Rightarrow> Postings \<Rightarrow> bool" where
  "posted li P \<longleftrightarrow> indexes (subterm_index li) (at_subterms P) \<and> indexes (pos_eq_lhs_index li) (at_sides P) \<and>
     (\<forall>k. tree_holds (fmlookup (pred_index li) k) (at_atoms P k)) \<and>
     (\<forall>p. (case fmlookup (pred_clauses li) p of None \<Rightarrow> {} | Some s \<Rightarrow> s) = at_preds P p) \<and>
     pos_eq_clauses li = at_eqs P True \<and> neg_eq_clauses li = at_eqs P False"

definition same_store :: "LiteralIndex \<Rightarrow> LiteralIndex \<Rightarrow> bool" where
  "same_store li li' \<longleftrightarrow> clauses li' = clauses li \<and> fvt li' = fvt li \<and> fv_map li' = fv_map li"

lemma same_store_refl [simp]: "same_store li li"
  by (simp add: same_store_def)

lemma same_store_trans: "same_store a b \<Longrightarrow> same_store b c \<Longrightarrow> same_store a c"
  by (simp add: same_store_def)

definition post :: "ClauseId \<Rightarrow> Literal \<Rightarrow> Postings \<Rightarrow> Postings" where
  "post c l P = \<lparr>at_subterms = at_subterms P \<union> lit_subs l \<times> {c}, at_sides = at_sides P \<union> lit_sides l \<times> {c},
     at_atoms = (\<lambda>k. at_atoms P k \<union> lit_atoms k l \<times> {c}),
     at_preds = (\<lambda>p. if has_pred p l then insert c (at_preds P p) else at_preds P p),
     at_eqs = (\<lambda>g. if is_equation g l then insert c (at_eqs P g) else at_eqs P g)\<rparr>"

definition unpost :: "ClauseId \<Rightarrow> Literal \<Rightarrow> Postings \<Rightarrow> Postings" where
  "unpost c l P = \<lparr>at_subterms = without (at_subterms P) c (lit_subs l), at_sides = without (at_sides P) c (lit_sides l),
     at_atoms = (\<lambda>k. without (at_atoms P k) c (lit_atoms k l)), at_preds = at_preds P,
     at_eqs = (\<lambda>g. if is_equation g l then at_eqs P g - {c} else at_eqs P g)\<rparr>"

lemma insert_subterms_posted:
  assumes "posted li P" "to_legacy b i = Some t"
  shows "\<exists>li'. insert_subterms b c i li = Some li' \<and>
    posted li' (P\<lparr>at_subterms := at_subterms P \<union> subs_in t \<times> {c}\<rparr>) \<and> same_store li li'"
proof -
  obtain js where js: "non_variable_subterms b i = Some js" "mapM (to_legacy b) js = Some (nv_subs t)"
    by (rule non_variable_subterms_eq [OF assms(2)])
  have "indexes (subterm_index li) (at_subterms P)" using assms(1) by (simp add: posted_def)
  from indexes_inserts [OF this js(2), of c] obtain s where
    "foldM (\<lambda>s t. st_insert s b c t) js (subterm_index li) = Some s" "indexes s (at_subterms P \<union> subs_in t \<times> {c})"
    by (auto simp: set_nv_subs)
  then show ?thesis using js(1) assms(1) by (simp add: insert_subterms_def posted_def same_store_def)
qed

lemma remove_subterms_posted:
  assumes "posted li P" "to_legacy b i = Some t"
  shows "\<exists>li'. remove_subterms b c i li = Some li' \<and>
    posted li' (P\<lparr>at_subterms := without (at_subterms P) c (subs_in t)\<rparr>) \<and> same_store li li'"
proof -
  obtain js where js: "non_variable_subterms b i = Some js" "mapM (to_legacy b) js = Some (nv_subs t)"
    by (rule non_variable_subterms_eq [OF assms(2)])
  have "indexes (subterm_index li) (at_subterms P)" using assms(1) by (simp add: posted_def)
  from indexes_removes [OF this js(2), of c] obtain s where
    "foldM (\<lambda>s t. do { (removed, t) \<leftarrow> st_remove s b c t; Some t }) js (subterm_index li) = Some s"
    "indexes s (without (at_subterms P) c (subs_in t))"
    by (auto simp: set_nv_subs)
  then show ?thesis using js(1) assms(1) by (simp add: remove_subterms_def posted_def same_store_def)
qed

lemma insert_args_posted:
  assumes "posted li P" "mapM (to_legacy b) args = Some ts"
  shows "\<exists>li'. foldM (insert_subterms b c) args li = Some li' \<and>
    posted li' (P\<lparr>at_subterms := at_subterms P \<union> (\<Union>t \<in> set ts. subs_in t) \<times> {c}\<rparr>) \<and> same_store li li'"
  using assms
proof (induction args arbitrary: li P ts)
  case (Cons i args)
  then obtain t ts' where t: "to_legacy b i = Some t" "mapM (to_legacy b) args = Some ts'" "ts = t # ts'"
    by (auto simp: bind_eq_Some_conv)
  obtain l1 where l1: "insert_subterms b c i li = Some l1"
    "posted l1 (P\<lparr>at_subterms := at_subterms P \<union> subs_in t \<times> {c}\<rparr>)" "same_store li l1"
    using insert_subterms_posted [OF Cons.prems(1) t(1)] by blast
  show ?case using Cons.IH [OF l1(2) t(2)] l1(1,3) t(3) by (auto simp: Sigma_Un_distrib1 Un_assoc intro: same_store_trans)
qed simp

lemma remove_args_posted:
  assumes "posted li P" "mapM (to_legacy b) args = Some ts"
  shows "\<exists>li'. foldM (remove_subterms b c) args li = Some li' \<and>
    posted li' (P\<lparr>at_subterms := without (at_subterms P) c (\<Union>t \<in> set ts. subs_in t)\<rparr>) \<and> same_store li li'"
  using assms
proof (induction args arbitrary: li P ts)
  case (Cons i args)
  then obtain t ts' where t: "to_legacy b i = Some t" "mapM (to_legacy b) args = Some ts'" "ts = t # ts'"
    by (auto simp: bind_eq_Some_conv)
  obtain l1 where l1: "remove_subterms b c i li = Some l1"
    "posted l1 (P\<lparr>at_subterms := without (at_subterms P) c (subs_in t)\<rparr>)" "same_store li l1"
    using remove_subterms_posted [OF Cons.prems(1) t(1)] by blast
  show ?case using Cons.IH [OF l1(2) t(2)] l1(1,3) t(3) by (auto intro: same_store_trans)
qed simp

lemma is_var_id_eq: "to_legacy b i = Some t \<Longrightarrow> is_var_id b i = Some (\<exists>v. t = Var v)"
  by (cases t) (auto simp: is_var_id_def to_legacy_Var to_legacy_App)

lemma insert_side_posted:
  assumes "posted li P" "to_legacy b i = Some t"
  shows "\<exists>li'. insert_side b c i li = Some li' \<and>
    posted li' (P\<lparr>at_sides := at_sides P \<union> nonvar t \<times> {c}\<rparr>) \<and> same_store li li'"
proof (cases t)
  case (App f ts)
  have "indexes (pos_eq_lhs_index li) (at_sides P)" using assms(1) by (simp add: posted_def)
  from indexes_insert [OF this assms(2), of c] show ?thesis
    using App assms by (auto simp: insert_side_def is_var_id_eq posted_def same_store_def)
qed (use assms in \<open>simp add: insert_side_def is_var_id_eq\<close>)

lemma without_one: "without C v {t} = {(u, w) \<in> C. \<not> (flatten u = flatten t \<and> w = v)}"
  by (auto simp: without_def)

lemma remove_side_posted:
  assumes "posted li P" "to_legacy b i = Some t"
  shows "\<exists>li'. remove_side b c i li = Some li' \<and>
    posted li' (P\<lparr>at_sides := without (at_sides P) c (nonvar t)\<rparr>) \<and> same_store li li'"
proof (cases t)
  case (App f ts)
  have "indexes (pos_eq_lhs_index li) (at_sides P)" using assms(1) by (simp add: posted_def)
  from indexes_remove [OF this assms(2), of c] obtain s r where
    "st_remove i b c (pos_eq_lhs_index li) = Some (r, s)" "indexes s (without (at_sides P) c (nonvar t))"
    using App by (auto simp: without_one)
  then show ?thesis using App assms by (simp add: remove_side_def is_var_id_eq posted_def same_store_def)
qed (use assms in \<open>simp add: remove_side_def is_var_id_eq\<close>)


lemma insert_atom_holds:
  assumes "tree_holds m C" "atom_to_legacy b a = Some (Pred p ts)"
  shows "\<exists>t'. st_insert_atom a b c (case m of Some t \<Rightarrow> t | None \<Rightarrow> st_new) = Some t' \<and>
    indexes t' (insert (App p ts, c) C)"
proof -
  have "indexes (case m of Some t \<Rightarrow> t | None \<Rightarrow> st_new) C" using assms(1) by (cases m) (auto simp: indexes_new)
  from indexes_insert_flat [OF this, of "App p ts" c] show ?thesis
    by (simp add: st_insert_atom_def flatten_atom_id_eq [OF assms(2)])
qed

lemma remove_atom_holds:
  assumes "indexes t C" "atom_to_legacy b a = Some (Pred p ts)"
  shows "\<exists>r t'. st_remove_atom a b c t = Some (r, t') \<and> indexes t' (without C c {App p ts})"
proof -
  obtain r t' where r: "remove_flat (flatten (App p ts)) c t = (r, t')" by fastforce
  from indexes_remove_flat [OF assms(1) r] r show ?thesis
    by (simp add: st_remove_atom_def flatten_atom_id_eq [OF assms(2)] without_one)
qed

lemma literal_cases:
  assumes "literal_to_legacy b l = Some L"
  obtains p args ts where "id_atom l = IdPred p args" "atom L = Pred p ts" "mapM (to_legacy b) args = Some ts"
    "atom_to_legacy b (id_atom l) = Some (Pred p ts)" "id_positive l = positive L"
  | s t s' t' where "id_atom l = IdEq s t" "atom L = Eq s' t'" "to_legacy b s = Some s'" "to_legacy b t = Some t'"
    "id_positive l = positive L"
  using assms by (cases "id_atom l") (auto simp: literal_to_legacy_def bind_eq_Some_conv)

lemma insert_equation_posted:
  assumes "posted li P" "atom L = Eq s' t'" "to_legacy b s = Some s'" "to_legacy b t = Some t'"
  shows "\<exists>l1. (if positive L then do {
       li \<leftarrow> insert_side b c s (li\<lparr>pos_eq_clauses := insert c (pos_eq_clauses li)\<rparr>);
       insert_side b c t li }
     else Some (li\<lparr>neg_eq_clauses := insert c (neg_eq_clauses li)\<rparr>)) = Some l1 \<and>
   posted l1 (P\<lparr>at_eqs := \<lambda>g. if is_equation g L then insert c (at_eqs P g) else at_eqs P g,
     at_sides := at_sides P \<union> lit_sides L \<times> {c}\<rparr>) \<and> same_store li l1"
proof (cases "positive L")
  case True
  let ?Q = "P\<lparr>at_eqs := \<lambda>g. if is_equation g L then insert c (at_eqs P g) else at_eqs P g\<rparr>"
  let ?li = "li\<lparr>pos_eq_clauses := insert c (pos_eq_clauses li)\<rparr>"
  have "posted ?li ?Q" using assms(1,2) True by (simp add: posted_def is_equation_def)
  from insert_side_posted [OF this assms(3), of c] obtain l1 where
    l1: "insert_side b c s ?li = Some l1" "posted l1 (?Q\<lparr>at_sides := at_sides ?Q \<union> nonvar s' \<times> {c}\<rparr>)"
      "same_store ?li l1" by blast
  from insert_side_posted [OF l1(2) assms(4), of c] obtain l2 where
    l2: "insert_side b c t l1 = Some l2" "posted l2 (?Q\<lparr>at_sides := (at_sides ?Q \<union> nonvar s' \<times> {c}) \<union> nonvar t' \<times> {c}\<rparr>)"
      "same_store l1 l2" by auto
  have "?Q\<lparr>at_sides := (at_sides ?Q \<union> nonvar s' \<times> {c}) \<union> nonvar t' \<times> {c}\<rparr> = P\<lparr>at_eqs := \<lambda>g. if is_equation g L then insert c (at_eqs P g) else at_eqs P g,
      at_sides := at_sides P \<union> lit_sides L \<times> {c}\<rparr>"
    using assms(2) True by (simp add: lit_sides_def Sigma_Un_distrib1 Un_assoc)
  then show ?thesis using l1(1,3) l2 True by (auto simp: same_store_def)
next
  case False
  then have "posted (li\<lparr>neg_eq_clauses := insert c (neg_eq_clauses li)\<rparr>)
      (P\<lparr>at_eqs := \<lambda>g. if is_equation g L then insert c (at_eqs P g) else at_eqs P g,
        at_sides := at_sides P \<union> lit_sides L \<times> {c}\<rparr>)"
    using assms(1,2) by (simp add: posted_def is_equation_def lit_sides_def)
  then show ?thesis using False by (simp add: same_store_def)
qed

lemma insert_literal_posted:
  assumes "posted li P" "literal_to_legacy b l = Some L"
  shows "\<exists>li'. insert_literal b c l li = Some li' \<and> posted li' (post c L P) \<and> same_store li li'"
  using assms(2)
proof (cases rule: literal_cases)
  case (1 p args ts)
  let ?k = "\<lparr>key_pred = p, key_positive = positive L\<rparr>"
  have "tree_holds (fmlookup (pred_index li) ?k) (at_atoms P ?k)" using assms(1) by (simp add: posted_def)
  from insert_atom_holds [OF this 1(4), of c] obtain tree where
    tree: "st_insert_atom (id_atom l) b c (case fmlookup (pred_index li) ?k of Some t \<Rightarrow> t | None \<Rightarrow> st_new) = Some tree"
      "indexes tree (insert (App p ts, c) (at_atoms P ?k))" by blast
  let ?li = "li\<lparr>pred_index := fmupd ?k tree (pred_index li),
     pred_clauses := fmupd p (insert c (case fmlookup (pred_clauses li) p of Some s \<Rightarrow> s | None \<Rightarrow> {})) (pred_clauses li)\<rparr>"
  let ?P = "P\<lparr>at_atoms := \<lambda>k. at_atoms P k \<union> lit_atoms k L \<times> {c},
     at_preds := \<lambda>q. if has_pred q L then insert c (at_preds P q) else at_preds P q\<rparr>"
  have "posted ?li ?P"
    using assms(1) tree(2) 1(2) by (simp add: posted_def lit_atoms_def has_pred_def)
  from insert_args_posted [OF this 1(3), of c] obtain li' where
    li': "foldM (insert_subterms b c) args ?li = Some li'"
      "posted li' (?P\<lparr>at_subterms := at_subterms ?P \<union> (\<Union>t \<in> set ts. subs_in t) \<times> {c}\<rparr>)" "same_store ?li li'" by blast
  have "?P\<lparr>at_subterms := at_subterms ?P \<union> (\<Union>t \<in> set ts. subs_in t) \<times> {c}\<rparr> = post c L P"
    using 1(2) by (simp add: post_def lit_subs_def lit_sides_def is_equation_def)
  moreover have "insert_literal b c l li = Some li'" using li'(1) tree(1) 1(1,5) by (simp add: insert_literal_def Let_def)
  moreover have "same_store li li'" using li'(3) by (simp add: same_store_def)
  ultimately show ?thesis using li'(2) by auto
next
  case (2 s t s' t')
  let ?P = "P\<lparr>at_eqs := \<lambda>g. if is_equation g L then insert c (at_eqs P g) else at_eqs P g,
    at_sides := at_sides P \<union> lit_sides L \<times> {c}\<rparr>"
  from insert_equation_posted [OF assms(1) 2(2-4), of c] 2(5) obtain l1 where l1: "(if id_positive l then do {
           li \<leftarrow> insert_side b c s (li\<lparr>pos_eq_clauses := insert c (pos_eq_clauses li)\<rparr>);
           insert_side b c t li }
         else Some (li\<lparr>neg_eq_clauses := insert c (neg_eq_clauses li)\<rparr>)) = Some l1" "posted l1 ?P" "same_store li l1" by auto
  from insert_args_posted [of l1 ?P b "[s, t]" "[s', t']" c] l1(2) 2(3,4) obtain li' where
    li': "foldM (insert_subterms b c) [s, t] l1 = Some li'"
      "posted li' (?P\<lparr>at_subterms := at_subterms P \<union> (\<Union>u \<in> {s', t'}. subs_in u) \<times> {c}\<rparr>)" "same_store l1 li'" by auto
  have "?P\<lparr>at_subterms := at_subterms P \<union> (\<Union>u \<in> {s', t'}. subs_in u) \<times> {c}\<rparr> = post c L P"
    using 2(2) by (simp add: post_def lit_subs_def has_pred_def lit_atoms_def)
  moreover have "insert_literal b c l li = Some li'"
    using l1(1) li'(1) 2(1) by (simp add: insert_literal_def bind_eq_Some_conv)
  ultimately show ?thesis using li'(2,3) same_store_trans [OF l1(3)] by auto
qed


lemma remove_equation_posted:
  assumes "posted li P" "atom L = Eq s' t'" "to_legacy b s = Some s'" "to_legacy b t = Some t'"
  shows "\<exists>l1. (if positive L then do {
       li \<leftarrow> remove_side b c s (li\<lparr>pos_eq_clauses := pos_eq_clauses li - {c}\<rparr>);
       remove_side b c t li }
     else Some (li\<lparr>neg_eq_clauses := neg_eq_clauses li - {c}\<rparr>)) = Some l1 \<and>
   posted l1 (P\<lparr>at_eqs := \<lambda>g. if is_equation g L then at_eqs P g - {c} else at_eqs P g,
     at_sides := without (at_sides P) c (lit_sides L)\<rparr>) \<and> same_store li l1"
proof (cases "positive L")
  case True
  let ?Q = "P\<lparr>at_eqs := \<lambda>g. if is_equation g L then at_eqs P g - {c} else at_eqs P g\<rparr>"
  let ?li = "li\<lparr>pos_eq_clauses := pos_eq_clauses li - {c}\<rparr>"
  have "posted ?li ?Q" using assms(1,2) True by (simp add: posted_def is_equation_def)
  from remove_side_posted [OF this assms(3), of c] obtain l1 where
    l1: "remove_side b c s ?li = Some l1" "posted l1 (?Q\<lparr>at_sides := without (at_sides ?Q) c (nonvar s')\<rparr>)"
      "same_store ?li l1" by blast
  from remove_side_posted [OF l1(2) assms(4), of c] obtain l2 where
    l2: "remove_side b c t l1 = Some l2"
      "posted l2 (?Q\<lparr>at_sides := without (without (at_sides ?Q) c (nonvar s')) c (nonvar t')\<rparr>)"
      "same_store l1 l2" by auto
  have "?Q\<lparr>at_sides := without (without (at_sides ?Q) c (nonvar s')) c (nonvar t')\<rparr> =
      P\<lparr>at_eqs := \<lambda>g. if is_equation g L then at_eqs P g - {c} else at_eqs P g,
        at_sides := without (at_sides P) c (lit_sides L)\<rparr>"
    using assms(2) True by (simp add: lit_sides_def)
  then show ?thesis using l1(1,3) l2 True by (auto simp: same_store_def)
next
  case False
  then have "posted (li\<lparr>neg_eq_clauses := neg_eq_clauses li - {c}\<rparr>)
      (P\<lparr>at_eqs := \<lambda>g. if is_equation g L then at_eqs P g - {c} else at_eqs P g,
        at_sides := without (at_sides P) c (lit_sides L)\<rparr>)"
    using assms(1,2) by (simp add: posted_def is_equation_def lit_sides_def)
  then show ?thesis using False by (simp add: same_store_def)
qed

lemma remove_predicate_posted:
  assumes "posted li P" "atom L = Pred p ts" "atom_to_legacy b a = Some (Pred p ts)"
  shows "\<exists>l1. (case fmlookup (pred_index li) \<lparr>key_pred = p, key_positive = positive L\<rparr> of
       None \<Rightarrow> Some li
     | Some tree \<Rightarrow> do {
         (removed, tree) \<leftarrow> st_remove_atom a b c tree;
         Some (li\<lparr>pred_index := fmupd \<lparr>key_pred = p, key_positive = positive L\<rparr> tree (pred_index li)\<rparr>) }) = Some l1 \<and>
   posted l1 (P\<lparr>at_atoms := \<lambda>k. without (at_atoms P k) c (lit_atoms k L)\<rparr>) \<and> same_store li l1"
proof -
  let ?k = "\<lparr>key_pred = p, key_positive = positive L\<rparr>"
  have h: "tree_holds (fmlookup (pred_index li) ?k) (at_atoms P ?k)" using assms(1) by (simp add: posted_def)
  have other: "lit_atoms k L = {}" if "k \<noteq> ?k" for k using that assms(2) by (simp add: lit_atoms_def)
  have own: "lit_atoms ?k L = {App p ts}" using assms(2) by (simp add: lit_atoms_def)
  show ?thesis
  proof (cases "fmlookup (pred_index li) ?k")
    case None
    then have "at_atoms P ?k = {}" using h by simp
    then have "without (at_atoms P k) c (lit_atoms k L) = at_atoms P k" for k
      by (cases "k = ?k") (simp_all add: other without_def)
    then show ?thesis using None assms(1) by simp
  next
    case (Some tree)
    then obtain r t' where t': "st_remove_atom a b c tree = Some (r, t')" "indexes t' (without (at_atoms P ?k) c {App p ts})"
      using remove_atom_holds [OF _ assms(3), of tree "at_atoms P ?k" c] h by auto
    have "posted (li\<lparr>pred_index := fmupd ?k t' (pred_index li)\<rparr>) (P\<lparr>at_atoms := \<lambda>k. without (at_atoms P k) c (lit_atoms k L)\<rparr>)"
      using assms(1) t'(2) own other by (auto simp: posted_def)
    then show ?thesis using Some t'(1) by (simp add: same_store_def)
  qed
qed

lemma remove_literal_posted:
  assumes "posted li P" "literal_to_legacy b l = Some L"
  shows "\<exists>li'. remove_literal b c l li = Some li' \<and> posted li' (unpost c L P) \<and> same_store li li'"
  using assms(2)
proof (cases rule: literal_cases)
  case (1 p args ts)
  let ?P = "P\<lparr>at_atoms := \<lambda>k. without (at_atoms P k) c (lit_atoms k L)\<rparr>"
  from remove_predicate_posted [OF assms(1) 1(2,4), of c] obtain l1 where
    l1: "(case fmlookup (pred_index li) \<lparr>key_pred = p, key_positive = positive L\<rparr> of
         None \<Rightarrow> Some li
       | Some tree \<Rightarrow> do {
           (removed, tree) \<leftarrow> st_remove_atom (id_atom l) b c tree;
           Some (li\<lparr>pred_index := fmupd \<lparr>key_pred = p, key_positive = positive L\<rparr> tree (pred_index li)\<rparr>) }) = Some l1"
      "posted l1 ?P" "same_store li l1" by blast
  from remove_args_posted [OF l1(2) 1(3), of c] obtain li' where
    li': "foldM (remove_subterms b c) args l1 = Some li'"
      "posted li' (?P\<lparr>at_subterms := without (at_subterms ?P) c (\<Union>t \<in> set ts. subs_in t)\<rparr>)" "same_store l1 li'" by blast
  have "?P\<lparr>at_subterms := without (at_subterms ?P) c (\<Union>t \<in> set ts. subs_in t)\<rparr> = unpost c L P"
    using 1(2) by (simp add: unpost_def lit_subs_def lit_sides_def is_equation_def)
  moreover have "remove_literal b c l li = Some li'"
    using li'(1) l1(1) 1(1,5) by (simp add: remove_literal_def Let_def)
  ultimately show ?thesis using li'(2) same_store_trans [OF l1(3) li'(3)] by auto
next
  case (2 s t s' t')
  let ?P = "P\<lparr>at_eqs := \<lambda>g. if is_equation g L then at_eqs P g - {c} else at_eqs P g,
    at_sides := without (at_sides P) c (lit_sides L)\<rparr>"
  from remove_equation_posted [OF assms(1) 2(2-4), of c] 2(5) obtain l1 where l1: "(if id_positive l then do {
           li \<leftarrow> remove_side b c s (li\<lparr>pos_eq_clauses := pos_eq_clauses li - {c}\<rparr>);
           remove_side b c t li }
         else Some (li\<lparr>neg_eq_clauses := neg_eq_clauses li - {c}\<rparr>)) = Some l1" "posted l1 ?P" "same_store li l1" by auto
  from remove_args_posted [of l1 ?P b "[s, t]" "[s', t']" c] l1(2) 2(3,4) obtain li' where
    li': "foldM (remove_subterms b c) [s, t] l1 = Some li'"
      "posted li' (?P\<lparr>at_subterms := without (at_subterms P) c (\<Union>u \<in> {s', t'}. subs_in u)\<rparr>)" "same_store l1 li'" by auto
  have "?P\<lparr>at_subterms := without (at_subterms P) c (\<Union>u \<in> {s', t'}. subs_in u)\<rparr> = unpost c L P"
    using 2(2) by (simp add: unpost_def lit_subs_def lit_atoms_def)
  moreover have "remove_literal b c l li = Some li'"
    using l1(1) li'(1) 2(1) by (simp add: remove_literal_def bind_eq_Some_conv)
  ultimately show ?thesis using li'(2,3) same_store_trans [OF l1(3)] by auto
qed

section \<open>The postings of a store\<close>

text \<open>\<open>of_store Z\<close>: the postings of the literals \<open>Z\<close>, each with the identifier of its clause.\<close>

definition of_store :: "(Literal \<times> ClauseId) set \<Rightarrow> Postings" where
  "of_store Z = \<lparr>at_subterms = {(s, c). \<exists>l. (l, c) \<in> Z \<and> s \<in> lit_subs l},
     at_sides = {(s, c). \<exists>l. (l, c) \<in> Z \<and> s \<in> lit_sides l},
     at_atoms = (\<lambda>k. {(s, c). \<exists>l. (l, c) \<in> Z \<and> s \<in> lit_atoms k l}),
     at_preds = (\<lambda>p. {c. \<exists>l. (l, c) \<in> Z \<and> has_pred p l}),
     at_eqs = (\<lambda>g. {c. \<exists>l. (l, c) \<in> Z \<and> is_equation g l})\<rparr>"

lemma post_store: "post c l (of_store Z) = of_store (insert (l, c) Z)"
  unfolding post_def of_store_def by (auto simp: fun_eq_iff)

lemma insert_literals_posted:
  assumes "posted li (of_store Z)" "lits_of b ls = Some Ls"
  shows "\<exists>li'. foldM (insert_literal b c) ls li = Some li' \<and> posted li' (of_store (Z \<union> set Ls \<times> {c})) \<and> same_store li li'"
  using assms
proof (induction ls arbitrary: li Z Ls)
  case (Cons l ls)
  then obtain L Ls' where L: "literal_to_legacy b l = Some L" "lits_of b ls = Some Ls'" "Ls = L # Ls'"
    by (auto simp: bind_eq_Some_conv)
  obtain l1 where l1: "insert_literal b c l li = Some l1" "posted l1 (of_store (insert (L, c) Z))" "same_store li l1"
    using insert_literal_posted [OF Cons.prems(1) L(1), of c] post_store by metis
  have "insert (L, c) Z \<union> set Ls' \<times> {c} = Z \<union> set Ls \<times> {c}" using L(3) by auto
  then show ?case using Cons.IH [OF l1(2) L(2)] l1(1,3) by (auto intro: same_store_trans)
qed simp


lemma unposts:
  "fold (unpost c) Ls P = \<lparr>at_subterms = without (at_subterms P) c (\<Union>l \<in> set Ls. lit_subs l),
     at_sides = without (at_sides P) c (\<Union>l \<in> set Ls. lit_sides l),
     at_atoms = (\<lambda>k. without (at_atoms P k) c (\<Union>l \<in> set Ls. lit_atoms k l)), at_preds = at_preds P,
     at_eqs = (\<lambda>g. if \<exists>l \<in> set Ls. is_equation g l then at_eqs P g - {c} else at_eqs P g)\<rparr>"
  by (induction Ls arbitrary: P) (auto simp: unpost_def fun_eq_iff)

lemma remove_literals_posted:
  assumes "posted li P" "lits_of b ls = Some Ls"
  shows "\<exists>li'. foldM (remove_literal b c) ls li = Some li' \<and> posted li' (fold (unpost c) Ls P) \<and> same_store li li'"
  using assms
proof (induction ls arbitrary: li P Ls)
  case (Cons l ls)
  then obtain L Ls' where L: "literal_to_legacy b l = Some L" "lits_of b ls = Some Ls'" "Ls = L # Ls'"
    by (auto simp: bind_eq_Some_conv)
  obtain l1 where l1: "remove_literal b c l li = Some l1" "posted l1 (unpost c L P)" "same_store li l1"
    using remove_literal_posted [OF Cons.prems(1) L(1), of c] by blast
  then show ?case using Cons.IH [OF l1(2) L(2)] L(3) by (auto intro: same_store_trans)
qed simp

lemma remove_postings:
  "(case fmlookup (fold (remove_posting c) ps m) p of None \<Rightarrow> {} | Some s \<Rightarrow> s) =
     (case fmlookup m p of None \<Rightarrow> {} | Some s \<Rightarrow> s) - (if p \<in> set ps then {c} else {})"
  by (induction ps arbitrary: m) (auto simp: remove_posting_def split: option.splits)

lemma predicate_symbols_set:
  assumes "lits_of b ls = Some Ls"
  shows "p \<in> set (predicate_symbols ls) \<longleftrightarrow> (\<exists>L \<in> set Ls. has_pred p L)"
  using assms
proof (induction ls arbitrary: Ls)
  case (Cons l ls)
  then obtain L Ls' where L: "literal_to_legacy b l = Some L" "lits_of b ls = Some Ls'" "Ls = L # Ls'"
    by (auto simp: bind_eq_Some_conv)
  have "(case id_atom l of IdPred q args \<Rightarrow> p = q | IdEq s t \<Rightarrow> False) \<longleftrightarrow> has_pred p L"
    by (cases rule: literal_cases [OF L(1)]) (simp_all add: has_pred_def)
  then show ?case using Cons.IH [OF L(2)] L(3)
    by (auto simp: predicate_symbols_def List.map_filter_def split: IdAtom.splits)
qed (simp add: predicate_symbols_def List.map_filter_def)

text \<open>Removal of all literals of a clause leaves the postings of the other clauses.\<close>

lemma without_all:
  fixes Z :: "('l \<times> 'v) set"
  assumes "\<And>l. (l, c) \<in> Z \<longleftrightarrow> l \<in> set Ls"
  shows "without {(s, d). \<exists>l. (l, d) \<in> Z \<and> s \<in> h l} c (\<Union>l \<in> set Ls. h l) = {(s, d). \<exists>l. (l, d) \<in> Z - UNIV \<times> {c} \<and> s \<in> h l}"
proof (rule set_eqI)
  fix x :: "Term \<times> 'v"
  obtain s d where x: "x = (s, d)" by fastforce
  show "x \<in> without {(s, d). \<exists>l. (l, d) \<in> Z \<and> s \<in> h l} c (\<Union>l \<in> set Ls. h l) \<longleftrightarrow>
      x \<in> {(s, d). \<exists>l. (l, d) \<in> Z - UNIV \<times> {c} \<and> s \<in> h l}"
  proof (cases "d = c")
    case True
    then show ?thesis using assms unfolding x without_def by fastforce
  next
    case False
    then show ?thesis unfolding x without_def by simp
  qed
qed

lemma unposts_store:
  assumes "\<And>l. (l, c) \<in> Z \<longleftrightarrow> l \<in> set Ls"
  shows "fold (unpost c) Ls ((of_store Z)\<lparr>at_preds := \<lambda>p. at_preds (of_store Z) p - (if \<exists>l \<in> set Ls. has_pred p l then {c} else {})\<rparr>) =
    of_store (Z - UNIV \<times> {c})"
proof -
  have "{d. \<exists>l. (l, d) \<in> Z \<and> P l} - (if \<exists>l \<in> set Ls. P l then {c} else {}) = {d. \<exists>l. (l, d) \<in> Z - UNIV \<times> {c} \<and> P l}"
    "(if \<exists>l \<in> set Ls. P l then {d. \<exists>l. (l, d) \<in> Z \<and> P l} - {c} else {d. \<exists>l. (l, d) \<in> Z \<and> P l}) =
       {d. \<exists>l. (l, d) \<in> Z - UNIV \<times> {c} \<and> P l}" for P
    using assms by auto
  then show ?thesis by (simp add: unposts of_store_def without_all [OF assms] cong: if_cong)
qed


section \<open>The invariant\<close>

text \<open>The literals of the stored clauses, read from the bank.\<close>

definition stored :: "TermBank \<Rightarrow> LiteralIndex \<Rightarrow> (Literal \<times> ClauseId) set" where
  "stored b li = {(l, c). \<exists>sc Ls. fmlookup (clauses li) c = Some sc \<and>
     lits_of b (idc_literals (into_inner sc)) = Some Ls \<and> l \<in> set Ls}"

text \<open>A clause is stored under its identifier, can be read, and has its feature vector in the map.\<close>

definition indexed :: "TermBank \<Rightarrow> ClauseId \<Rightarrow> SearchClause \<Rightarrow> FeatureVector option \<Rightarrow> bool" where
  "indexed b c sc fv \<longleftrightarrow> idc_id (into_inner sc) = c \<and> fv = from_id_clause (into_inner sc) b \<and>
     lits_of b (idc_literals (into_inner sc)) \<noteq> None"

definition li_ok :: "TermBank \<Rightarrow> LiteralIndex \<Rightarrow> bool" where
  "li_ok b li \<longleftrightarrow> (\<forall>c sc. fmlookup (clauses li) c = Some sc \<longrightarrow> indexed b c sc (fmlookup (fv_map li) c)) \<and>
     (\<forall>c. fmlookup (clauses li) c = None \<longrightarrow> fmlookup (fv_map li) c = None) \<and>
     (\<exists>M. fvt_holds (fvt li) M \<and> once M \<and> (\<forall>c f. (c, f) \<in># M \<longleftrightarrow> fmlookup (fv_map li) c = Some f)) \<and>
     posted li (of_store (stored b li))"

lemma readable_clause:
  assumes "lits_of b (idc_literals c) = Some Ls"
  obtains c' where "clause_to_legacy b c = Some c'" "literals c' = Ls"
  using assms that by (auto simp: clause_to_legacy_def new_clause_def)

lemma readable_vector: "lits_of b (idc_literals c) = Some Ls \<Longrightarrow> \<exists>fv. from_id_clause c b = Some fv"
  using from_id_clause_refines readable_clause by metis

lemma posted_frame [simp]:
  "posted (li\<lparr>fvt := t, fv_map := m\<rparr>) P = posted li P" "posted (li\<lparr>clauses := cs\<rparr>) P = posted li P"
  by (simp_all add: posted_def)

lemma li_ok_clause:
  assumes "li_ok b li" "fmlookup (clauses li) c = Some sc"
  obtains Ls where "lits_of b (idc_literals (into_inner sc)) = Some Ls" "idc_id (into_inner sc) = c"
    "fmlookup (fv_map li) c = from_id_clause (into_inner sc) b"
proof -
  have "indexed b c sc (fmlookup (fv_map li) c)" using assms unfolding li_ok_def by blast
  then show thesis using that by (auto simp: indexed_def)
qed

lemma li_new_ok: "li_ok b li_new"
proof -
  have "stored b li_new = {}" by (simp add: stored_def li_new_def)
  moreover have "posted li_new (of_store {})"
    by (simp add: posted_def li_new_def of_store_def indexes_new)
  moreover have "once {#}" by (simp add: once_def)
  ultimately show ?thesis using fvt_holds_new by (auto simp: li_ok_def li_new_def intro!: exI [of _ "{#}"])
qed

lemma once_remove:
  assumes "once M" "(c, f) \<in># M"
  shows "once (M - {#(c, f)#}) \<and> (\<forall>d g. (d, g) \<in># M - {#(c, f)#} \<longleftrightarrow> (d, g) \<in># M \<and> d \<noteq> c)"
proof -
  have at_c: "filter_mset (\<lambda>x. fst x = c) M = {#(c, f)#}" using assms by (simp add: once_def)
  have split: "M - {#(c, f)#} = filter_mset (\<lambda>x. fst x \<noteq> c) M"
    using at_c multiset_partition [of M "\<lambda>x. fst x = c"] by (metis add_diff_cancel_left')
  have "filter_mset (\<lambda>x. fst x = d) (filter_mset (\<lambda>x. fst x \<noteq> c) M) = filter_mset (\<lambda>x. fst x = d) M" if "d \<noteq> c" for d
    using that by (auto simp: filter_filter_mset intro!: filter_mset_cong)
  then have "once (filter_mset (\<lambda>x. fst x \<noteq> c) M)" using assms(1) by (simp add: once_def)
  then show ?thesis unfolding split by auto
qed

lemma li_remove_ok:
  assumes "li_ok b li"
  shows "\<exists>li'. li_remove c b li = Some (map_option into_inner (fmlookup (clauses li) c), li') \<and>
    li_ok b li' \<and> clauses li' = fmdrop c (clauses li)"
proof (cases "fmlookup (clauses li) c")
  case None
  then have "fmlookup (fv_map li) c = None" using assms by (simp add: li_ok_def)
  moreover have "fmdrop c (clauses li) = clauses li" using None by (intro fmap_ext) simp
  ultimately show ?thesis using None assms by (simp add: li_remove_def)
next
  case (Some sc)
  let ?ls = "idc_literals (into_inner sc)"
  obtain Ls where "lits_of b ?ls = Some Ls" "fmlookup (fv_map li) c = from_id_clause (into_inner sc) b"
    using li_ok_clause [OF assms Some] by metis
  then obtain fv where sc: "lits_of b ?ls = Some Ls" "fmlookup (fv_map li) c = Some fv"
    using readable_vector by metis
  obtain M where M: "fvt_holds (fvt li) M" "once M" "\<And>d f. (d, f) \<in># M \<longleftrightarrow> fmlookup (fv_map li) d = Some f"
    using assms by (auto simp: li_ok_def)
  then obtain t where t: "fvt_remove c fv (fvt li) = Some (True, t)" "fvt_holds t (M - {#(c, fv)#})"
    using fvt_holds_remove [OF M(1,2)] sc(2) by blast
  let ?Z = "stored b li"
  let ?l1 = "li\<lparr>fvt := t, fv_map := fmdrop c (fv_map li), clauses := fmdrop c (clauses li),
      pred_clauses := fold (remove_posting c) (predicate_symbols ?ls) (pred_clauses li)\<rparr>"
  have of_c: "(l, c) \<in> ?Z \<longleftrightarrow> l \<in> set Ls" for l using Some sc(1) by (simp add: stored_def)
  have "posted ?l1 ((of_store ?Z)\<lparr>at_preds := \<lambda>p. at_preds (of_store ?Z) p - (if \<exists>l \<in> set Ls. has_pred p l then {c} else {})\<rparr>)"
    using assms by (simp add: posted_def li_ok_def remove_postings predicate_symbols_set [OF sc(1)])
  from remove_literals_posted [OF this sc(1), of c] obtain li' where
    li': "foldM (remove_literal b c) ?ls ?l1 = Some li'" "posted li' (of_store (?Z - UNIV \<times> {c}))" "same_store ?l1 li'"
    unfolding unposts_store [OF of_c] by blast
  have frame: "clauses li' = fmdrop c (clauses li)" "fvt li' = t" "fv_map li' = fmdrop c (fv_map li)"
    using li'(3) by (simp_all add: same_store_def)
  have "stored b li' = ?Z - UNIV \<times> {c}" by (auto simp: stored_def frame(1))
  then have "li_ok b li'"
    using li'(2) assms t(2) once_remove [OF M(2), of c fv] M(3) sc(2)
    by (auto simp: li_ok_def frame intro!: exI [of _ "M - {#(c, fv)#}"])
  then show ?thesis using Some sc(2) t(1) li'(1) frame(1) by (simp add: li_remove_def Let_def)
qed


lemma once_insert:
  assumes "once M" "\<And>f. (c, f) \<notin># M"
  shows "once (add_mset (c, g) M)"
proof -
  have "filter_mset (\<lambda>x. fst x = c) M = filter_mset (\<lambda>x. False) M" using assms(2) by (intro filter_mset_cong) auto
  then show ?thesis using assms by (auto simp: once_def)
qed

lemma add_clause_ok:
  assumes "li_ok b li" "fmlookup (clauses li) c = None" "lits_of b (idc_literals (into_inner sc)) = Some Ls"
    "idc_id (into_inner sc) = c" "from_id_clause (into_inner sc) b = Some fv"
  shows "\<exists>li'. foldM (insert_literal b c) (idc_literals (into_inner sc))
      (li\<lparr>fvt := fvt_insert c fv (fvt li), fv_map := fmupd c fv (fv_map li)\<rparr>) = Some li' \<and>
    li_ok b (li'\<lparr>clauses := fmupd c sc (clauses li')\<rparr>) \<and> clauses li' = clauses li"
proof -
  let ?l1 = "li\<lparr>fvt := fvt_insert c fv (fvt li), fv_map := fmupd c fv (fv_map li)\<rparr>"
  have "posted ?l1 (of_store (stored b li))" using assms(1) by (simp add: li_ok_def)
  from insert_literals_posted [OF this assms(3), of c] obtain li' where
    li': "foldM (insert_literal b c) (idc_literals (into_inner sc)) ?l1 = Some li'"
      "posted li' (of_store (stored b li \<union> set Ls \<times> {c}))" "same_store ?l1 li'" by blast
  have frame: "clauses li' = clauses li" "fvt li' = fvt_insert c fv (fvt li)" "fv_map li' = fmupd c fv (fv_map li)"
    using li'(3) by (simp_all add: same_store_def)
  have stored: "stored b (li'\<lparr>clauses := fmupd c sc (clauses li')\<rparr>) = stored b li \<union> set Ls \<times> {c}"
    using assms(2,3) by (auto simp: stored_def frame)
  obtain M where M: "fvt_holds (fvt li) M" "once M" "\<forall>d f. (d, f) \<in># M \<longleftrightarrow> fmlookup (fv_map li) d = Some f"
    using assms(1) unfolding li_ok_def by blast
  have new: "fmlookup (fv_map li) c = None" using assms(1,2) by (simp add: li_ok_def)
  then have "\<exists>M. fvt_holds (fvt_insert c fv (fvt li)) M \<and> once M \<and> (\<forall>d f. (d, f) \<in># M \<longleftrightarrow> fmlookup (fmupd c fv (fv_map li)) d = Some f)"
    using fvt_holds_insert [OF M(1)] once_insert [OF M(2), of c fv] M(3) by (intro exI [of _ "add_mset (c, fv) M"]) auto
  moreover have "\<forall>d sd. fmlookup (fmupd c sc (clauses li)) d = Some sd \<longrightarrow> indexed b d sd (fmlookup (fmupd c fv (fv_map li)) d)"
    using assms(1,3-5) by (auto simp: li_ok_def indexed_def)
  moreover have "\<forall>d. fmlookup (fmupd c sc (clauses li)) d = None \<longrightarrow> fmlookup (fmupd c fv (fv_map li)) d = None"
    using assms(1) by (simp add: li_ok_def)
  ultimately have "li_ok b (li'\<lparr>clauses := fmupd c sc (clauses li')\<rparr>)"
    using li'(2) unfolding li_ok_def stored by (simp add: frame)
  then show ?thesis using li'(1) frame(1) by blast
qed

lemma insert_search_clause_ok:
  assumes "li_ok b li" "lits_of b (idc_literals (into_inner sc)) = Some Ls"
  shows "\<exists>li'. insert_search_clause sc b li = Some li' \<and> li_ok b li' \<and>
    clauses li' = fmupd (idc_id (into_inner sc)) sc (clauses li)"
proof -
  let ?c = "idc_id (into_inner sc)"
  obtain fv where fv: "from_id_clause (into_inner sc) b = Some fv" using readable_vector [OF assms(2)] by blast
  obtain l1 where l1: "(if ?c |\<in>| fmdom (clauses li) then do { (old, li) \<leftarrow> li_remove ?c b li; Some li } else Some li) = Some l1"
    "li_ok b l1" "clauses l1 = fmdrop ?c (clauses li)"
  proof (cases "?c |\<in>| fmdom (clauses li)")
    case True
    then show thesis using li_remove_ok [OF assms(1), of ?c] that by auto
  next
    case False
    then have "fmdrop ?c (clauses li) = clauses li" by (intro fmap_ext) (auto simp: fmdom_notD)
    then show thesis using False assms(1) that by simp
  qed
  have "fmlookup (clauses l1) ?c = None" using l1(3) by simp
  from add_clause_ok [OF l1(2) this assms(2) refl fv] obtain l2 where
    l2: "foldM (insert_literal b ?c) (idc_literals (into_inner sc))
        (l1\<lparr>fvt := fvt_insert ?c fv (fvt l1), fv_map := fmupd ?c fv (fv_map l1)\<rparr>) = Some l2"
      "li_ok b (l2\<lparr>clauses := fmupd ?c sc (clauses l2)\<rparr>)" "clauses l2 = clauses l1" by blast
  have "fmupd ?c sc (fmdrop ?c (clauses li)) = fmupd ?c sc (clauses li)" by (intro fmap_ext) simp
  then show ?thesis using l1(1,3) l2 fv by (simp add: insert_search_clause_def Let_def)
qed

lemma removals_ok:
  "li_ok b li \<Longrightarrow> \<exists>li'. foldM (\<lambda>c li. do { (old, li) \<leftarrow> li_remove c b li; Some li }) cs li = Some li' \<and> li_ok b li' \<and>
     (\<forall>c. fmlookup (clauses li') c = (if c \<in> set cs then None else fmlookup (clauses li) c))"
proof (induction cs arbitrary: li)
  case (Cons d cs)
  obtain l1 old where l1: "li_remove d b li = Some (old, l1)" "li_ok b l1" "clauses l1 = fmdrop d (clauses li)"
    using li_remove_ok [OF Cons.prems, of d] by blast
  then show ?case using Cons.IH [OF l1(2)] by auto
qed simp

lemma retain_ok:
  assumes "li_ok b li" "\<And>S. finite S \<Longrightarrow> set (order S) = S"
  shows "\<exists>li'. retain order f b li = Some li' \<and> li_ok b li' \<and>
    (\<forall>c. fmlookup (clauses li') c = (case fmlookup (clauses li) c of None \<Rightarrow> None
       | Some sc \<Rightarrow> if f (into_inner sc) then Some sc else None))"
proof -
  let ?S = "idc_id ` {c \<in> into_inner ` fset (fmran (clauses li)). \<not> f c}"
  have "set (order ?S) = ?S" by (rule assms(2)) simp
  moreover have "c \<in> ?S \<longleftrightarrow> (\<exists>sc. fmlookup (clauses li) c = Some sc \<and> \<not> f (into_inner sc))" for c
  proof
    assume "c \<in> ?S"
    then obtain sc where "sc |\<in>| fmran (clauses li)" "\<not> f (into_inner sc)" "c = idc_id (into_inner sc)" by blast
    then obtain d where d: "fmlookup (clauses li) d = Some sc" "\<not> f (into_inner sc)" "c = idc_id (into_inner sc)" by blast
    then have "d = c" using li_ok_clause [OF assms(1) d(1)] by metis
    then show "\<exists>sc. fmlookup (clauses li) c = Some sc \<and> \<not> f (into_inner sc)" using d by blast
  next
    assume "\<exists>sc. fmlookup (clauses li) c = Some sc \<and> \<not> f (into_inner sc)"
    then obtain sc where sc: "fmlookup (clauses li) c = Some sc" "\<not> f (into_inner sc)" by blast
    then have "c = idc_id (into_inner sc)" using li_ok_clause [OF assms(1) sc(1)] by metis
    then show "c \<in> ?S" using sc by (auto intro: fmranI)
  qed
  ultimately show ?thesis using removals_ok [OF assms(1), of "order ?S"]
    unfolding retain_def by (auto split: option.splits)
qed

lemma drain_ok: "li_ok b (snd (drain li)) \<and> clauses (snd (drain li)) = fmempty"
proof -
  have "fvt_clear (fvt li) = fvt_new" by (simp add: fvt_clear_def fvt_new_def)
  then have "snd (drain li) = li_new" by (simp add: drain_def li_new_def)
  then show ?thesis using li_new_ok by (simp add: li_new_def)
qed

text \<open>Interning further terms keeps the invariant.\<close>

lemma li_ok_extends:
  assumes "extends b b'" "li_ok b li"
  shows "li_ok b' li"
proof -
  have lits: "lits_of b' (idc_literals (into_inner sc)) = lits_of b (idc_literals (into_inner sc))"
    if s: "fmlookup (clauses li) c = Some sc" for c sc
  proof -
    obtain Ls where Ls: "lits_of b (idc_literals (into_inner sc)) = Some Ls" using li_ok_clause [OF assms(2) s] by metis
    then show ?thesis using persistent_mapM [OF persistent_literal assms(1) Ls] by simp
  qed
  have "from_id_clause (into_inner sc) b' = from_id_clause (into_inner sc) b" if s: "fmlookup (clauses li) c = Some sc" for c sc
  proof -
    obtain Ls where Ls: "lits_of b (idc_literals (into_inner sc)) = Some Ls" using li_ok_clause [OF assms(2) s] by metis
    then have Ls': "lits_of b' (idc_literals (into_inner sc)) = Some Ls" using lits [OF s] by simp
    obtain c1 where c1: "clause_to_legacy b (into_inner sc) = Some c1" "literals c1 = Ls" by (rule readable_clause [OF Ls])
    obtain c2 where c2: "clause_to_legacy b' (into_inner sc) = Some c2" "literals c2 = Ls" by (rule readable_clause [OF Ls'])
    show ?thesis using from_id_clause_refines [OF c1(1)] from_id_clause_refines [OF c2(1)] c1(2) c2(2)
      by (simp add: from_clause_def)
  qed
  then have "indexed b' c sc (fmlookup (fv_map li) c)" if "fmlookup (clauses li) c = Some sc" for c sc
    using li_ok_clause [OF assms(2) that] lits [OF that] that by (metis indexed_def option.distinct(1))
  moreover have "stored b' li = stored b li" unfolding stored_def by (auto simp: lits)
  ultimately show ?thesis using assms(2) by (simp add: li_ok_def)
qed


section \<open>Queries\<close>





lemma li_ok_posted: "li_ok b li \<Longrightarrow> posted li (of_store (stored b li))"
  by (simp add: li_ok_def)







section \<open>Candidates by feature vector\<close>

definition vector_of :: "TermBank \<Rightarrow> LiteralIndex \<Rightarrow> ClauseId \<Rightarrow> FeatureVector option" where
  "vector_of b li c = do { sc \<leftarrow> fmlookup (clauses li) c; from_id_clause (into_inner sc) b }"

text \<open>Literals over the same predicate, or two equations.\<close>

definition same_kind :: "Literal \<Rightarrow> Literal \<Rightarrow> bool" where
  "same_kind l m = (case atom l of
     Pred p ts \<Rightarrow> has_pred p m
   | Eq s t \<Rightarrow> is_equation True m \<or> is_equation False m)"

lemma vector_of_map: "li_ok b li \<Longrightarrow> fmlookup (fv_map li) c = vector_of b li c"
  by (cases "fmlookup (clauses li) c") (auto simp: vector_of_def li_ok_def indexed_def)

lemma vector_queries:
  assumes "li_ok b li"
  shows "set (subsumption_candidate_ids fv li) = {c. \<exists>g. vector_of b li c = Some g \<and> can_subsume g fv}"
    "set (subsumed_candidate_ids fv li) = {c. \<exists>g. vector_of b li c = Some g \<and> can_subsume fv g}"
    "set (subsumption_resolution_candidate_ids fv li) = {c. \<exists>g. vector_of b li c = Some g \<and> can_subsumption_resolve g fv}"
    "set (backward_subsumption_resolution_candidate_ids fv li) = {c. \<exists>g. vector_of b li c = Some g \<and> can_subsumption_resolve fv g}"
proof -
  obtain M where M: "fvt_holds (fvt li) M" "\<forall>c f. (c, f) \<in># M \<longleftrightarrow> fmlookup (fv_map li) c = Some f"
    using assms unfolding li_ok_def by blast
  have ok: "fv_ok 0 (fvt_root (fvt li))" "fv_items (fvt_root (fvt li)) = M" using M(1) by (simp_all add: fvt_holds_def)
  have v: "(c, f) \<in># M \<longleftrightarrow> vector_of b li c = Some f" for c f using M(2) vector_of_map [OF assms] by simp
  show "set (subsumption_candidate_ids fv li) = {c. \<exists>g. vector_of b li c = Some g \<and> can_subsume g fv}"
    using subsumers.query_exact [OF ok(1), of fv] by (simp add: subsumption_candidate_ids_def query_subsumers_def ok(2) v)
  show "set (subsumed_candidate_ids fv li) = {c. \<exists>g. vector_of b li c = Some g \<and> can_subsume fv g}"
    using subsumed.query_exact [OF ok(1), of fv] by (simp add: subsumed_candidate_ids_def query_subsumed_def ok(2) v)
  show "set (subsumption_resolution_candidate_ids fv li) = {c. \<exists>g. vector_of b li c = Some g \<and> can_subsumption_resolve g fv}"
    using resolvers.query_exact [OF ok(1), of fv]
    by (simp add: subsumption_resolution_candidate_ids_def query_subsumption_resolution_def ok(2) v)
  show "set (backward_subsumption_resolution_candidate_ids fv li) = {c. \<exists>g. vector_of b li c = Some g \<and> can_subsumption_resolve fv g}"
    using resolved.query_exact [OF ok(1), of fv]
    by (simp add: backward_subsumption_resolution_candidate_ids_def query_backward_subsumption_resolution_def ok(2) v)
qed

lemma collect_symbols:
  "fold (\<lambda>l found. case id_atom l of IdPred p args \<Rightarrow> found \<union> S p | IdEq s t \<Rightarrow> found) ls X =
     X \<union> (\<Union>l \<in> set ls. case id_atom l of IdPred p args \<Rightarrow> S p | IdEq s t \<Rightarrow> {})"
  by (induction ls arbitrary: X) (auto split: IdAtom.splits)

lemma sharing_iff:
  assumes "li_ok b li" "lits_of b (idc_literals target) = Some Ts"
  shows "c \<in> sharing target li \<longleftrightarrow> (\<exists>L \<in> set Ts. \<exists>l. (l, c) \<in> stored b li \<and> same_kind L l)"
proof -
  let ?P = "of_store (stored b li)"
  have P: "(case fmlookup (pred_clauses li) p of None \<Rightarrow> {} | Some s \<Rightarrow> s) = at_preds ?P p"
    "pos_eq_clauses li \<union> neg_eq_clauses li = at_eqs ?P True \<union> at_eqs ?P False" for p
    using li_ok_posted [OF assms(1)] by (simp_all add: posted_def)
  have nth: "length (idc_literals target) = length Ts"
    "\<And>n. n < length Ts \<Longrightarrow> literal_to_legacy b (idc_literals target ! n) = Some (Ts ! n)"
    using assms(2) by (simp_all add: mapM_Some_iff)
  have one: "c \<in> (case id_atom l of IdPred p args \<Rightarrow> at_preds ?P p | IdEq s t \<Rightarrow> {}) \<or>
      (case id_atom l of IdPred p args \<Rightarrow> False | IdEq s t \<Rightarrow> True) \<and> c \<in> at_eqs ?P True \<union> at_eqs ?P False \<longleftrightarrow>
      (\<exists>l'. (l', c) \<in> stored b li \<and> same_kind L l')" if "literal_to_legacy b l = Some L" for l L
    by (cases rule: literal_cases [OF that]) (auto simp: same_kind_def of_store_def)
  have "c \<in> sharing target li \<longleftrightarrow> (\<exists>l \<in> set (idc_literals target).
      c \<in> (case id_atom l of IdPred p args \<Rightarrow> at_preds ?P p | IdEq s t \<Rightarrow> {}) \<or>
      (case id_atom l of IdPred p args \<Rightarrow> False | IdEq s t \<Rightarrow> True) \<and> c \<in> at_eqs ?P True \<union> at_eqs ?P False)"
    unfolding sharing_def collect_symbols P list_ex_iff by auto
  also have "\<dots> \<longleftrightarrow> (\<exists>L \<in> set Ts. \<exists>l. (l, c) \<in> stored b li \<and> same_kind L l)"
    using one nth by (metis in_set_conv_nth)
  finally show ?thesis .
qed

lemma sharing_finite:
  assumes "li_ok b li" "lits_of b (idc_literals target) = Some Ts"
  shows "finite (sharing target li)"
proof (rule finite_subset)
  show "sharing target li \<subseteq> fset (fmdom (clauses li))"
    using sharing_iff [OF assms] by (auto simp: stored_def intro: fmdomI)
qed simp


section \<open>Properties\<close>

text \<open>
  C16. The index follows its clauses. The empty index satisfies the invariant \<open>li_ok\<close>: every stored clause
  can be read in the bank and is stored under its identifier, the feature vector map and tree hold
  exactly the vectors of the stored clauses, and the postings by predicate and sign, by equation sides
  and by subterms hold exactly those of their literals. Insertion of a clause that can be read and
  removal always return and keep the invariant; insertion replaces a clause with the same identifier
  together with all of its postings, and removal returns the clause and deletes its postings only;
  \<open>retain\<close>, in whatever order it visits the clauses, keeps those that satisfy its predicate, and \<open>drain\<close>
  leaves the empty index. A bank that has grown keeps the invariant.
\<close>

theorem index_maintained:
  assumes "li_ok b li" "lits_of b (idc_literals (into_inner sc)) = Some Ls"
  shows "li_ok b li_new \<and>
    (\<exists>li'. insert_search_clause sc b li = Some li' \<and> li_ok b li' \<and>
       clauses li' = fmupd (idc_id (into_inner sc)) sc (clauses li)) \<and>
    (\<exists>li'. li_remove c b li = Some (li_get c li, li') \<and> li_ok b li' \<and> clauses li' = fmdrop c (clauses li)) \<and>
    ((\<forall>S. finite S \<longrightarrow> set (order S) = S) \<longrightarrow> (\<exists>li'. retain order f b li = Some li' \<and> li_ok b li' \<and>
       (\<forall>d. fmlookup (clauses li') d = (case fmlookup (clauses li) d of None \<Rightarrow> None
          | Some sd \<Rightarrow> if f (into_inner sd) then Some sd else None)))) \<and>
    (li_ok b (snd (drain li)) \<and> clauses (snd (drain li)) = fmempty) \<and>
    (extends b b' \<longrightarrow> li_ok b' li)"
proof (intro conjI impI)
  show "li_ok b (snd (drain li))" "clauses (snd (drain li)) = fmempty" using drain_ok by blast+
  show "\<exists>li'. retain order f b li = Some li' \<and> li_ok b li' \<and>
       (\<forall>d. fmlookup (clauses li') d = (case fmlookup (clauses li) d of None \<Rightarrow> None
          | Some sd \<Rightarrow> if f (into_inner sd) then Some sd else None))" if "\<forall>S. finite S \<longrightarrow> set (order S) = S"
    using retain_ok [OF assms(1)] that by blast
  show "li_ok b li_new" by (rule li_new_ok)
  show "\<exists>li'. insert_search_clause sc b li = Some li' \<and> li_ok b li' \<and>
      clauses li' = fmupd (idc_id (into_inner sc)) sc (clauses li)"
    by (rule insert_search_clause_ok [OF assms])
  show "\<exists>li'. li_remove c b li = Some (li_get c li, li') \<and> li_ok b li' \<and> clauses li' = fmdrop c (clauses li)"
    unfolding li_get_def by (rule li_remove_ok [OF assms(1)])
  show "extends b b' \<Longrightarrow> li_ok b' li" using li_ok_extends assms(1) by blast
qed


text \<open>
  The candidates of the simplification rules are exactly the stored clauses whose vector passes the
  test; for subsumption resolution also those among them that have a literal over a predicate of the
  given clause, or an equation when it has one. The last list tests the simplifier against the candidate,
  as \<open>query_backward_subsumption_resolution\<close> does, and not the other way round as its documentation says.
\<close>

theorem candidates_exact:
  assumes "li_ok b li" "lits_of b (idc_literals given) = Some Ts"
  shows "set (subsumption_candidate_ids fv li) = {c. \<exists>g. vector_of b li c = Some g \<and> can_subsume g fv} \<and>
    set (subsumed_candidate_ids fv li) = {c. \<exists>g. vector_of b li c = Some g \<and> can_subsume fv g} \<and>
    set (subsumption_resolution_candidate_ids fv li) = {c. \<exists>g. vector_of b li c = Some g \<and> can_subsumption_resolve g fv} \<and>
    set (backward_subsumption_resolution_candidate_ids fv li) = {c. \<exists>g. vector_of b li c = Some g \<and> can_subsumption_resolve fv g} \<and>
    set (subsumption_resolution_candidates_for given fv li) = {c. \<exists>g. vector_of b li c = Some g \<and> can_subsumption_resolve g fv \<and>
       (\<exists>L \<in> set Ts. \<exists>l. (l, c) \<in> stored b li \<and> same_kind L l)} \<and>
    set (backward_subsumption_resolution_candidates_for given fv li) = {c. \<exists>g. vector_of b li c = Some g \<and> can_subsumption_resolve fv g \<and>
       (\<exists>L \<in> set Ts. \<exists>l. (l, c) \<in> stored b li \<and> same_kind L l)}"
  using vector_queries [OF assms(1)] sharing_finite [OF assms]
  by (auto simp: subsumption_resolution_candidates_for_def backward_subsumption_resolution_candidates_for_def
    sharing_iff [OF assms] vector_of_map [OF assms(1)] split: option.splits)

text \<open>An index of one clause of the bank of the examples.\<close>

definition sample_lits :: "Literal list" where
  "sample_lits = [\<lparr>positive = True, atom = Pred 7 [example_term]\<rparr>, \<lparr>positive = False, atom = Eq (Var 3) example_term\<rparr>]"

lemma sample_stored_lits: "lits_of example_bank (idc_literals (into_inner (SearchClause sample_stored))) = Some sample_lits"
  by (simp add: sample_stored_def id_new_clause_def literal_to_legacy_def example_ids sample_lits_def)


theorem index_maintained_witness:
  "\<exists>li'. insert_search_clause (SearchClause sample_stored) example_bank li_new = Some li' \<and> li_ok example_bank li' \<and>
     clauses li' = fmupd 1 (SearchClause sample_stored) fmempty"
  using index_maintained [OF li_new_ok sample_stored_lits]
  by (auto simp: sample_stored_def id_new_clause_def li_new_def)


end
