(* ===== verification/Lpo.thy ===== *)
theory Lpo
  imports Ordering
begin

text \<open>
  The lexicographic path ordering on identifiers with its memo and step budget, and the choice of
  an ordering, \<open>crates/mrs-calculus/src/ordering.rs\<close>. The \<open>None\<close> of the code, an exhausted
  budget, is \<open>Some None\<close>. The number of steps never exceeds the limit, a \<open>u64\<close>, and is a natural
  number.
\<close>

section \<open>Memo and budget\<close>

record LpoMemo =
  memo_ids :: "(TermId \<times> TermId, bool) fmap"
  steps :: nat

definition empty_memo :: LpoMemo where
  "empty_memo = \<lparr>memo_ids = fmempty, steps = 0\<rparr>"

definition charge :: "nat \<Rightarrow> LpoMemo \<Rightarrow> LpoMemo option" where
  "charge limit memo = (if limit \<le> steps memo then None else Some (memo\<lparr>steps := steps memo + 1\<rparr>))"

definition charge_many :: "nat \<Rightarrow> nat \<Rightarrow> LpoMemo \<Rightarrow> LpoMemo option" where
  "charge_many n limit memo =
     (if limit - steps memo < n then None else Some (memo\<lparr>steps := steps memo + n\<rparr>))"

definition unarmed :: LpoBudget where
  "unarmed = \<lparr>lpo_limit = 2 ^ 64 - 1, lpo_expired = False\<rparr>"

text \<open>The guard is the budget that dropping it restores.\<close>

definition arm :: "nat \<Rightarrow> LpoBudget \<Rightarrow> LpoBudget \<times> LpoBudget" where
  "arm limit budget = (budget, \<lparr>lpo_limit = limit, lpo_expired = False\<rparr>)"

definition drop_guard :: "LpoBudget \<Rightarrow> LpoBudget \<Rightarrow> LpoBudget" where
  "drop_guard guard budget = guard"

definition mark_expired :: "LpoBudget \<Rightarrow> TermComparison \<times> LpoBudget" where
  "mark_expired budget = (Incomparable, budget\<lparr>lpo_expired := True\<rparr>)"

type_synonym 'a budgeted = "('a \<times> LpoMemo) option option"

text \<open>The operator \<open>?\<close>.\<close>

definition question :: "'a option option \<Rightarrow> ('a \<Rightarrow> 'b option option) \<Rightarrow> 'b option option" where
  "question m k = do { r \<leftarrow> m; case r of None \<Rightarrow> Some None | Some x \<Rightarrow> k x }"

lemma question_mono [partial_function_mono]:
  assumes "mono_option B" "\<And>x. mono_option (\<lambda>f. C f x)"
  shows "mono_option (\<lambda>f. question (B f) (C f))"
  unfolding question_def
proof (rule bind_mono [OF assms(1)])
  show "mono_option (\<lambda>f. case r of None \<Rightarrow> Some None | Some x \<Rightarrow> C f x)" for r
    by (cases r) (simp_all add: const_mono assms(2))
qed

section \<open>Equality modulo associativity and commutativity\<close>

text \<open>Takes the first element that passes the test off a list.\<close>

fun take_match :: "('a \<Rightarrow> bool option) \<Rightarrow> 'a list \<Rightarrow> 'a list option option" where
  "take_match eq [] = Some None"
| "take_match eq (x # xs) = do {
     r \<leftarrow> eq x;
     if r then Some (Some xs) else do { rest \<leftarrow> take_match eq xs; Some (map_option (Cons x) rest) } }"

fun all_matched :: "('a \<Rightarrow> 'a \<Rightarrow> bool option) \<Rightarrow> 'a list \<Rightarrow> 'a list \<Rightarrow> bool option" where
  "all_matched eq [] ts = Some True"
| "all_matched eq (s # ss) ts = do {
     r \<leftarrow> take_match (eq s) ts;
     case r of None \<Rightarrow> Some False | Some ts' \<Rightarrow> all_matched eq ss ts' }"

lemma take_match_mono [partial_function_mono]:
  assumes "\<And>x. mono_option (\<lambda>f. B f x)"
  shows "mono_option (\<lambda>f. take_match (B f) xs)"
proof (induction xs)
  case (Cons x xs)
  then show ?case unfolding take_match.simps by (intro bind_mono if_mono assms const_mono)
qed (simp add: const_mono)

lemma all_matched_mono [partial_function_mono]:
  assumes "\<And>x y. mono_option (\<lambda>f. B f x y)"
  shows "mono_option (\<lambda>f. all_matched (B f) ss ts)"
proof (induction ss arbitrary: ts)
  case (Cons s ss)
  have "mono_option (\<lambda>f. case r of None \<Rightarrow> Some False | Some ts' \<Rightarrow> all_matched (B f) ss ts')" for r
    by (cases r) (simp_all add: const_mono Cons)
  then show ?case unfolding all_matched.simps by (intro bind_mono take_match_mono assms)
qed (simp add: const_mono)

partial_function (option) ac_equal_id :: "OrderParams \<Rightarrow> TermBank \<Rightarrow> TermId \<Rightarrow> TermId \<Rightarrow> bool option" where
  "ac_equal_id lpo bank s t =
     (if s = t then Some True
      else case ac_symbols lpo of
        None \<Rightarrow> Some False
      | Some ac \<Rightarrow> do {
          ns \<leftarrow> node_at bank s;
          nt \<leftarrow> node_at bank t;
          case ns of
            NVar v \<Rightarrow> Some False
          | NApp f1 args1 \<Rightarrow> (case nt of
              NVar v \<Rightarrow> Some False
            | NApp f2 args2 \<Rightarrow>
                if f1 \<noteq> f2 then Some False
                else if f1 \<in> ac then do {
                  s_flat \<leftarrow> flat_args_id bank f1 [s] [];
                  t_flat \<leftarrow> flat_args_id bank f2 [t] [];
                  if length s_flat \<noteq> length t_flat then Some False
                  else all_matched (ac_equal_id lpo bank) s_flat t_flat }
                else if length args1 \<noteq> length args2 then Some False
                else allM (\<lambda>p. ac_equal_id lpo bank (fst p) (snd p)) (zip args1 args2)) })"

fun index_ofM :: "('a \<Rightarrow> bool option) \<Rightarrow> 'a list \<Rightarrow> nat option option" where
  "index_ofM p [] = Some None"
| "index_ofM p (x # xs) = do {
     r \<leftarrow> p x;
     if r then Some (Some 0) else do { j \<leftarrow> index_ofM p xs; Some (map_option Suc j) } }"

function cancelM :: "('a \<Rightarrow> 'a \<Rightarrow> bool option) \<Rightarrow> 'a list \<Rightarrow> 'a list \<Rightarrow> nat \<Rightarrow> ('a list \<times> 'a list) option" where
  "cancelM eq s t i =
     (if i < length s
      then do {
        found \<leftarrow> index_ofM (\<lambda>x. eq x (s ! i)) t;
        case found of
          Some j \<Rightarrow> cancelM eq (swap_remove i s) (swap_remove j t) i
        | None \<Rightarrow> cancelM eq s t (i + 1) }
      else Some (s, t))"
  by pat_completeness auto

termination
  by (relation "measure (\<lambda>(eq, s, t, i). length s - i)") (auto simp: swap_remove_def)

declare cancelM.simps [simp del]

section \<open>The comparison\<close>

partial_function (option) occurs_loop :: "nat \<Rightarrow> TermBank \<Rightarrow> VarId \<Rightarrow> TermId list \<Rightarrow> LpoMemo \<Rightarrow> bool budgeted" where
  "occurs_loop limit bank v pending memo = (case pending of
     [] \<Rightarrow> Some (Some (False, memo))
   | cur # pending \<Rightarrow> question (Some (charge limit memo)) (\<lambda>memo. do {
       node \<leftarrow> node_at bank cur;
       case node of
         NVar u \<Rightarrow> if u = v then Some (Some (True, memo)) else occurs_loop limit bank v pending memo
       | NApp f args \<Rightarrow> question (Some (charge_many (length args) limit memo))
           (occurs_loop limit bank v (rev args @ pending)) }))"

definition occurs_in_id :: "nat \<Rightarrow> TermBank \<Rightarrow> VarId \<Rightarrow> TermId \<Rightarrow> LpoMemo \<Rightarrow> bool budgeted" where
  "occurs_in_id limit bank v i memo = occurs_loop limit bank v [i] memo"

text \<open>In what follows \<open>gt\<close> is the recursive call.\<close>

type_synonym gt_id = "TermId \<Rightarrow> TermId \<Rightarrow> LpoMemo \<Rightarrow> bool budgeted"

fun some_arg_ge :: "gt_id \<Rightarrow> TermId list \<Rightarrow> TermId \<Rightarrow> LpoMemo \<Rightarrow> bool budgeted" where
  "some_arg_ge gt [] t memo = Some (Some (False, memo))"
| "some_arg_ge gt (si # ss) t memo =
     (if si = t then Some (Some (True, memo))
      else question (gt si t memo) (\<lambda>r. if fst r then Some (Some (True, snd r)) else some_arg_ge gt ss t (snd r)))"

fun all_args_lt :: "gt_id \<Rightarrow> TermId \<Rightarrow> TermId list \<Rightarrow> LpoMemo \<Rightarrow> bool budgeted" where
  "all_args_lt gt s [] memo = Some (Some (True, memo))"
| "all_args_lt gt s (tj # ts) memo =
     question (gt s tj memo) (\<lambda>r. if fst r then all_args_lt gt s ts (snd r) else Some (Some (False, snd r)))"

fun some_gt :: "gt_id \<Rightarrow> TermId list \<Rightarrow> TermId \<Rightarrow> LpoMemo \<Rightarrow> bool budgeted" where
  "some_gt gt [] tj memo = Some (Some (False, memo))"
| "some_gt gt (si # ss) tj memo =
     question (gt si tj memo) (\<lambda>r. if fst r then Some (Some (True, snd r)) else some_gt gt ss tj (snd r))"

fun all_dominated :: "gt_id \<Rightarrow> TermId list \<Rightarrow> TermId list \<Rightarrow> LpoMemo \<Rightarrow> bool budgeted" where
  "all_dominated gt ss [] memo = Some (Some (True, memo))"
| "all_dominated gt ss (tj # ts) memo =
     question (some_gt gt ss tj memo)
       (\<lambda>r. if fst r then all_dominated gt ss ts (snd r) else Some (Some (False, snd r)))"

definition ac_multiset_gt_id :: "gt_id \<Rightarrow> OrderParams \<Rightarrow> nat \<Rightarrow> TermBank \<Rightarrow> TermId \<Rightarrow> TermId \<Rightarrow> SymbolId \<Rightarrow> LpoMemo
    \<Rightarrow> bool budgeted" where
  "ac_multiset_gt_id gt lpo limit bank s t f memo = do {
     s_flat \<leftarrow> flat_args_id bank f [s] [];
     t_flat \<leftarrow> flat_args_id bank f [t] [];
     remaining \<leftarrow> cancelM (\<lambda>x y. if x = y then Some True else ac_equal_id lpo bank x y) s_flat t_flat 0;
     if fst remaining = [] then Some (Some (False, memo))
     else if snd remaining = [] then Some (Some (True, memo))
     else question (Some (charge_many (length (fst remaining) * length (snd remaining)) limit memo))
       (all_dominated gt (fst remaining) (snd remaining)) }"

fun lex_gt_loop :: "gt_id \<Rightarrow> TermId list \<Rightarrow> TermId list \<Rightarrow> LpoMemo \<Rightarrow> bool budgeted" where
  "lex_gt_loop gt (si # ss) (ti # ts) memo =
     (if si = ti then lex_gt_loop gt ss ts memo else gt si ti memo)"
| "lex_gt_loop gt ss ts memo = Some (Some (length ts < length ss, memo))"

definition lex_gt_id :: "gt_id \<Rightarrow> nat \<Rightarrow> TermId list \<Rightarrow> TermId list \<Rightarrow> LpoMemo \<Rightarrow> bool budgeted" where
  "lex_gt_id gt limit ss ts memo =
     question (Some (charge_many (min (length ss) (length ts)) limit memo)) (lex_gt_loop gt ss ts)"

definition lpo_gt_id_uncached :: "gt_id \<Rightarrow> OrderParams \<Rightarrow> nat \<Rightarrow> TermBank \<Rightarrow> TermId \<Rightarrow> TermId \<Rightarrow> LpoMemo \<Rightarrow> bool budgeted" where
  "lpo_gt_id_uncached gt lpo limit bank s t memo = do {
     nt \<leftarrow> node_at bank t;
     ns \<leftarrow> node_at bank s;
     case nt of
       NVar v \<Rightarrow> if s = t then Some (Some (False, memo)) else occurs_in_id limit bank v s memo
     | NApp g t_args \<Rightarrow> (case ns of
         NVar v \<Rightarrow> Some (Some (False, memo))
       | NApp f s_args \<Rightarrow>
           question (Some (charge_many (length s_args) limit memo)) (\<lambda>memo.
           question (some_arg_ge gt s_args t memo) (\<lambda>r.
           if fst r then Some (Some (True, snd r))
           else question (Some (charge_many (length t_args) limit (snd r))) (\<lambda>memo.
           question (all_args_lt gt s t_args memo) (\<lambda>r.
           if \<not> fst r then Some (Some (False, snd r))
           else let prec_f = symbol_precedence (config lpo) f; prec_g = symbol_precedence (config lpo) g
             in if prec_g < prec_f then Some (Some (True, snd r))
                else if prec_f = prec_g then
                  (if f = g \<and> (case ac_symbols lpo of Some ac \<Rightarrow> f \<in> ac | None \<Rightarrow> False)
                   then ac_multiset_gt_id gt lpo limit bank s t f (snd r)
                   else lex_gt_id gt limit s_args t_args (snd r))
                else Some (Some (False, snd r))))))) }"

lemma some_arg_ge_mono:
  assumes "\<And>x y m. mono_option (\<lambda>f. B f x y m)"
  shows "mono_option (\<lambda>f. some_arg_ge (B f) ss t memo)"
proof (induction ss arbitrary: memo)
  case (Cons s ss)
  then show ?case unfolding some_arg_ge.simps by (intro if_mono question_mono assms const_mono)
qed (simp add: const_mono)

lemma all_args_lt_mono:
  assumes "\<And>x y m. mono_option (\<lambda>f. B f x y m)"
  shows "mono_option (\<lambda>f. all_args_lt (B f) s ts memo)"
proof (induction ts arbitrary: memo)
  case (Cons t ts)
  then show ?case unfolding all_args_lt.simps by (intro if_mono question_mono assms const_mono)
qed (simp add: const_mono)

lemma some_gt_mono:
  assumes "\<And>x y m. mono_option (\<lambda>f. B f x y m)"
  shows "mono_option (\<lambda>f. some_gt (B f) ss t memo)"
proof (induction ss arbitrary: memo)
  case (Cons s ss)
  then show ?case unfolding some_gt.simps by (intro if_mono question_mono assms const_mono)
qed (simp add: const_mono)

lemma all_dominated_mono:
  assumes "\<And>x y m. mono_option (\<lambda>f. B f x y m)"
  shows "mono_option (\<lambda>f. all_dominated (B f) ss ts memo)"
proof (induction ts arbitrary: memo)
  case (Cons t ts)
  then show ?case unfolding all_dominated.simps by (intro if_mono question_mono some_gt_mono assms const_mono)
qed (simp add: const_mono)

lemma lex_gt_loop_mono:
  assumes "\<And>x y m. mono_option (\<lambda>f. B f x y m)"
  shows "mono_option (\<lambda>f. lex_gt_loop (B f) ss ts memo)"
proof (induction ss arbitrary: ts)
  case (Cons s ss)
  then show ?case by (cases ts) (simp_all only: lex_gt_loop.simps, intro const_mono, intro if_mono assms)
qed (simp add: const_mono)

lemma node_mono:
  assumes "\<And>v. mono_option (\<lambda>f. C f v)" "\<And>g args. mono_option (\<lambda>f. D f g args)"
  shows "mono_option (\<lambda>f. case n of NVar v \<Rightarrow> C f v | NApp g args \<Rightarrow> D f g args)"
  using assms by (cases n) simp_all

lemma lpo_gt_id_uncached_mono [partial_function_mono]:
  assumes B: "\<And>x y m. mono_option (\<lambda>f. B f x y m)"
  shows "mono_option (\<lambda>f. lpo_gt_id_uncached (B f) lpo limit bank s t memo)"
  unfolding lpo_gt_id_uncached_def ac_multiset_gt_id_def lex_gt_id_def Let_def
  by (intro bind_mono node_mono if_mono question_mono const_mono some_arg_ge_mono all_args_lt_mono
      all_dominated_mono lex_gt_loop_mono B)

partial_function (option) lpo_gt_id :: "OrderParams \<Rightarrow> nat \<Rightarrow> TermBank \<Rightarrow> TermId \<Rightarrow> TermId \<Rightarrow> LpoMemo \<Rightarrow> bool budgeted" where
  "lpo_gt_id lpo limit bank s t memo =
     question (Some (charge limit memo)) (\<lambda>memo.
     case fmlookup (memo_ids memo) (s, t) of
       Some cached \<Rightarrow> Some (Some (cached, memo))
     | None \<Rightarrow> question (lpo_gt_id_uncached (lpo_gt_id lpo limit bank) lpo limit bank s t memo) (\<lambda>r.
         Some (Some (fst r, (snd r)\<lparr>memo_ids := fmupd (s, t) (fst r) (memo_ids (snd r))\<rparr>))))"

definition lpo_verdict :: "OrderParams \<Rightarrow> nat \<Rightarrow> TermBank \<Rightarrow> TermId \<Rightarrow> TermId \<Rightarrow> TermComparison option option" where
  "lpo_verdict lpo limit bank s t =
     question (lpo_gt_id lpo limit bank s t empty_memo) (\<lambda>r.
     if fst r then Some (Some Greater)
     else question (lpo_gt_id lpo limit bank t s (snd r)) (\<lambda>r.
       if fst r then Some (Some Less)
       else do { e \<leftarrow> ac_equal_id lpo bank s t; Some (Some (if e then Equal else Incomparable)) }))"

definition lpo_compare_id :: "OrderParams \<Rightarrow> TermBank \<Rightarrow> TermId \<Rightarrow> TermId \<Rightarrow> LpoBudget \<Rightarrow> (TermComparison \<times> LpoBudget) option" where
  "lpo_compare_id lpo bank s t budget =
     (if lpo_expired budget then Some (Incomparable, budget)
      else if s = t then Some (Equal, budget)
      else do {
        r \<leftarrow> lpo_verdict lpo (lpo_limit budget) bank s t;
        let (res, budget) = (case r of None \<Rightarrow> mark_expired budget | Some c \<Rightarrow> (c, budget))
        in Some (if lpo_expired budget then Incomparable else res, budget) })"

section \<open>The choice of an ordering\<close>

datatype TermOrdering = KBO | LPO | CustomKBO SymbolConfig | CustomACKBO SymbolConfig "SymbolId set"
  | CustomLPO SymbolConfig | CustomACRPO SymbolConfig "SymbolId set"

definition params :: "SymbolConfig \<Rightarrow> SymbolId set option \<Rightarrow> OrderParams" where
  "params cfg ac = \<lparr>config = cfg, ac_symbols = ac\<rparr>"

fun symbol_config :: "TermOrdering \<Rightarrow> SymbolConfig" where
  "symbol_config KBO = default_config"
| "symbol_config LPO = default_config"
| "symbol_config (CustomKBO cfg) = cfg"
| "symbol_config (CustomACKBO cfg ac) = cfg"
| "symbol_config (CustomLPO cfg) = cfg"
| "symbol_config (CustomACRPO cfg ac) = cfg"

definition kbo_answer :: "OrderParams \<Rightarrow> TermBank \<Rightarrow> TermId \<Rightarrow> TermId \<Rightarrow> LpoBudget \<Rightarrow> (TermComparison \<times> LpoBudget) option" where
  "kbo_answer kbo bank s t budget = do { r \<leftarrow> kbo_compare_id (lpo_expired budget) kbo bank s t; Some (r, budget) }"

fun compare_id :: "TermOrdering \<Rightarrow> TermBank \<Rightarrow> TermId \<Rightarrow> TermId \<Rightarrow> LpoBudget \<Rightarrow> (TermComparison \<times> LpoBudget) option" where
  "compare_id KBO = kbo_answer (params default_config None)"
| "compare_id LPO = lpo_compare_id (params default_config None)"
| "compare_id (CustomKBO cfg) = kbo_answer (params cfg None)"
| "compare_id (CustomACKBO cfg ac) = kbo_answer (params cfg (Some ac))"
| "compare_id (CustomLPO cfg) = lpo_compare_id (params cfg None)"
| "compare_id (CustomACRPO cfg ac) = lpo_compare_id (params cfg (Some ac))"

section \<open>The lexicographic path ordering on terms\<close>

text \<open>The ordering itself, without memo and budget.\<close>

fun strip_match :: "('a \<Rightarrow> bool) \<Rightarrow> 'a list \<Rightarrow> 'a list option" where
  "strip_match eq [] = None"
| "strip_match eq (x # xs) = (if eq x then Some xs else map_option (Cons x) (strip_match eq xs))"

fun matched :: "('a \<Rightarrow> 'a \<Rightarrow> bool) \<Rightarrow> 'a list \<Rightarrow> 'a list \<Rightarrow> bool" where
  "matched eq [] ts = True"
| "matched eq (s # ss) ts = (case strip_match (eq s) ts of None \<Rightarrow> False | Some ts' \<Rightarrow> matched eq ss ts')"

lemma strip_match_cong [fundef_cong]:
  "xs = ys \<Longrightarrow> (\<And>x. x \<in> set ys \<Longrightarrow> p x = q x) \<Longrightarrow> strip_match p xs = strip_match q ys"
  by (induction ys arbitrary: xs) auto

lemma strip_match_subset: "strip_match p xs = Some ys \<Longrightarrow> set ys \<subseteq> set xs"
  by (induction xs arbitrary: ys) (auto split: if_splits)

lemma matched_cong [fundef_cong]:
  "ss = ss' \<Longrightarrow> ts = ts' \<Longrightarrow> (\<And>s t. s \<in> set ss' \<Longrightarrow> t \<in> set ts' \<Longrightarrow> p s t = q s t) \<Longrightarrow> matched p ss ts = matched q ss' ts'"
proof (induction ss' arbitrary: ss ts ts')
  case (Cons s ss')
  have "strip_match (p s) ts' = strip_match (q s) ts'" by (rule strip_match_cong) (use Cons.prems in auto)
  moreover have "matched p ss' us = matched q ss' us" if "strip_match (q s) ts' = Some us" for us
    using strip_match_subset [OF that] by (intro Cons.IH [OF refl refl] Cons.prems(3)) auto
  ultimately show ?case using Cons.prems(1,2) by (simp split: option.split)
qed simp

function ac_equal :: "SymbolId set option \<Rightarrow> Term \<Rightarrow> Term \<Rightarrow> bool" where
  "ac_equal ac s t =
     (s = t \<or> (case ac of None \<Rightarrow> False | Some acs \<Rightarrow> (case s of Var v \<Rightarrow> False | App f ss \<Rightarrow> (case t of Var v \<Rightarrow> False
       | App g ts \<Rightarrow> f = g \<and> (if f \<in> acs
           then length (flat_args f [App f ss] []) = length (flat_args g [App g ts] []) \<and>
             matched (ac_equal ac) (flat_args f [App f ss] []) (flat_args g [App g ts] [])
           else length ss = length ts \<and> (\<forall>p \<in> set (zip ss ts). ac_equal ac (fst p) (snd p)))))))"
  by pat_completeness auto

termination
proof (relation "measure (\<lambda>(ac, s, t). term_size s + term_size t)", goal_cases)
  case (2 ac s t acs f ss g ts a b)
  then have "term_size a < term_size s" "term_size b < term_size t" using flat_args_smaller by (metis, metis)
  then show ?case by simp
next
  case (3 ac s t acs f ss g ts p)
  then have "fst p \<in> set ss" "snd p \<in> set ts" by (metis prod.collapse set_zip_leftD, metis prod.collapse set_zip_rightD)
  then show ?case using 3 term_size_arg [of "fst p" ss f] term_size_arg [of "snd p" ts g] by (simp add: split_def)
qed simp

declare ac_equal.simps [simp del]

fun lex_gt :: "('a \<Rightarrow> 'a \<Rightarrow> bool) \<Rightarrow> 'a list \<Rightarrow> 'a list \<Rightarrow> bool" where
  "lex_gt gt (s # ss) (t # ts) = (if s = t then lex_gt gt ss ts else gt s t)"
| "lex_gt gt ss ts = (length ts < length ss)"

lemma lex_gt_cong [fundef_cong]:
  "ss = ss' \<Longrightarrow> ts = ts' \<Longrightarrow> (\<And>s t. s \<in> set ss' \<Longrightarrow> t \<in> set ts' \<Longrightarrow> p s t = q s t) \<Longrightarrow> lex_gt p ss ts = lex_gt q ss' ts'"
  by (induction p ss' ts' arbitrary: ss ts rule: lex_gt.induct) auto

definition multiset_gt :: "SymbolId set option \<Rightarrow> (Term \<Rightarrow> Term \<Rightarrow> bool) \<Rightarrow> Term list \<Rightarrow> Term list \<Rightarrow> bool" where
  "multiset_gt ac gt ss ts = (let c = cancel (\<lambda>x y. x = y \<or> ac_equal ac x y) ss ts 0
     in fst c \<noteq> [] \<and> (\<forall>t \<in> set (snd c). \<exists>s \<in> set (fst c). gt s t))"

lemma multiset_gt_cong [fundef_cong]:
  assumes "ac = ac'" "ss = ss'" "ts = ts'" "\<And>s t. s \<in> set ss' \<Longrightarrow> t \<in> set ts' \<Longrightarrow> p s t = q s t"
  shows "multiset_gt ac p ss ts = multiset_gt ac' q ss' ts'"
proof -
  obtain us vs where c: "cancel (\<lambda>x y. x = y \<or> ac_equal ac' x y) ss' ts' 0 = (us, vs)" by fastforce
  then have "p s t = q s t" if "s \<in> set us" "t \<in> set vs" for s t
    using cancel_subset [OF c] assms(4) that by auto
  then show ?thesis using assms(1-3) c by (auto simp: multiset_gt_def Let_def)
qed

function lpo_gt :: "OrderParams \<Rightarrow> Term \<Rightarrow> Term \<Rightarrow> bool" where
  "lpo_gt lpo s t = (case t of
     Var v \<Rightarrow> s \<noteq> t \<and> contains_var s v
   | App g ts \<Rightarrow> (case s of
       Var v \<Rightarrow> False
     | App f ss \<Rightarrow> (\<exists>si \<in> set ss. si = t \<or> lpo_gt lpo si t) \<or>
         (\<forall>tj \<in> set ts. lpo_gt lpo s tj) \<and>
         (symbol_precedence (config lpo) g < symbol_precedence (config lpo) f \<or>
          symbol_precedence (config lpo) g = symbol_precedence (config lpo) f \<and>
            (if f = g \<and> (case ac_symbols lpo of Some ac \<Rightarrow> f \<in> ac | None \<Rightarrow> False)
             then multiset_gt (ac_symbols lpo) (lpo_gt lpo) (flat_args f [App f ss] []) (flat_args g [App g ts] [])
             else lex_gt (lpo_gt lpo) ss ts))))"
  by pat_completeness auto

termination
proof (relation "measure (\<lambda>(lpo, s, t). term_size s + term_size t)", goal_cases)
  case (2 lpo s t g ts f ss x)
  then show ?case using term_size_arg [of x ss f] by simp
next
  case (3 lpo s t g ts f ss x)
  then show ?case using term_size_arg [of x ts g] by simp
next
  case (4 lpo s t g ts f ss a b)
  then have "term_size a < term_size s" "term_size b < term_size t" using flat_args_smaller by (metis, metis)
  then show ?case by simp
next
  case (5 lpo s t g ts f ss a b)
  then show ?case using term_size_arg [of a ss f] term_size_arg [of b ts g] by simp
qed simp

declare lpo_gt.simps [simp del]

definition lpo_compare :: "OrderParams \<Rightarrow> Term \<Rightarrow> Term \<Rightarrow> TermComparison" where
  "lpo_compare lpo s t =
     (if s = t then Equal else if lpo_gt lpo s t then Greater else if lpo_gt lpo t s then Less
      else if ac_equal (ac_symbols lpo) s t then Equal else Incomparable)"

end
