(* ===== verification/LpoExact.thy ===== *)
theory LpoExact
  imports Lpo
begin

text \<open>
  The comparison on identifiers computes the lexicographic path ordering unless its budget runs
  out: the memo holds results of the ordering only, and every loop returns.
\<close>

section \<open>Equality modulo associativity and commutativity\<close>

lemma take_match_rel:
  "list_all2 R xs ys \<Longrightarrow> (\<And>x y. R x y \<Longrightarrow> y \<in> set ys \<Longrightarrow> eq x = Some (EQ y)) \<Longrightarrow>
   \<exists>r. take_match eq xs = Some r \<and> rel_option (list_all2 R) r (strip_match EQ ys)"
proof (induction rule: list_all2_induct)
  case (Cons x xs y ys)
  then obtain r where "take_match eq xs = Some r" "rel_option (list_all2 R) r (strip_match EQ ys)" by auto
  then show ?case using Cons by (auto simp: option.rel_map elim: option.rel_mono_strong)
qed simp

lemma all_matched_rel:
  "list_all2 R xs ys \<Longrightarrow> list_all2 R us vs \<Longrightarrow>
   (\<And>x y u v. R x y \<Longrightarrow> y \<in> set ys \<Longrightarrow> R u v \<Longrightarrow> v \<in> set vs \<Longrightarrow> eq x u = Some (EQ y v)) \<Longrightarrow>
   all_matched eq xs us = Some (matched EQ ys vs)"
proof (induction arbitrary: us vs rule: list_all2_induct)
  case (Cons x xs y ys)
  obtain r where r: "take_match (eq x) us = Some r" "rel_option (list_all2 R) r (strip_match (EQ y) vs)"
    using take_match_rel [OF Cons.prems(1), of "eq x" "EQ y"] Cons.prems(2) Cons.hyps(1) by auto
  show ?case
  proof (cases "strip_match (EQ y) vs")
    case None
    then show ?thesis using r by simp
  next
    case (Some vs')
    then obtain us' where us': "r = Some us'" "list_all2 R us' vs'" using r(2) by (auto simp: option_rel_Some2)
    have "all_matched eq xs us' = Some (matched EQ ys vs')"
      using strip_match_subset [OF Some] by (intro Cons.IH us'(2) Cons.prems(2)) auto
    then show ?thesis using r(1) us'(1) Some by simp
  qed
qed simp

lemma anyM_rel:
  "list_all2 R xs ys \<Longrightarrow> (\<And>x y. R x y \<Longrightarrow> y \<in> set ys \<Longrightarrow> p x = Some (q y)) \<Longrightarrow> anyM p xs = Some (\<exists>y \<in> set ys. q y)"
  by (induction rule: list_all2_induct) auto

lemma allM_rel:
  "list_all2 R xs ys \<Longrightarrow> (\<And>x y. R x y \<Longrightarrow> y \<in> set ys \<Longrightarrow> p x = Some (q y)) \<Longrightarrow> allM p xs = Some (\<forall>y \<in> set ys. q y)"
  using anyM_rel [of R xs ys "\<lambda>x. do { b \<leftarrow> p x; Some (\<not> b) }" "\<lambda>y. \<not> q y"] by (auto simp: allM_def)

lemma flat_args_reads:
  assumes "to_legacy b i = Some s"
  obtains js where "flat_args_id b f [i] [] = Some js" "reads b js (flat_args f [s] [])"
  using flat_args_id_reads [of b "[i]" "[s]" "[]" "[]" f] assms by auto

lemma ac_equal_id_exact:
  assumes wf: "nodes_wf b"
  shows "to_legacy b i = Some s \<Longrightarrow> to_legacy b j = Some t \<Longrightarrow>
    ac_equal_id lpo b i j = Some (ac_equal (ac_symbols lpo) s t)"
proof (induction "term_size s + term_size t" arbitrary: i j s t rule: less_induct)
  case less
  have same: "i = j \<longleftrightarrow> s = t" using less.prems to_legacy_inject [OF wf] by auto
  show ?case
  proof (cases "s = t \<or> ac_symbols lpo = None")
    case True
    then show ?thesis using same by (subst ac_equal_id.simps, subst ac_equal.simps) auto
  next
    case False
    then obtain ac where ac: "ac_symbols lpo = Some ac" "s \<noteq> t" "i \<noteq> j" using same by auto
    obtain ni nj where n: "node_at b i = Some ni" "node_at b j = Some nj"
      using less.prems by (metis to_legacy_cases)
    show ?thesis
    proof (cases "\<exists>f ss ts. s = App f ss \<and> t = App f ts")
      case False
      with n less.prems ac show ?thesis
        by (subst ac_equal_id.simps, subst ac_equal.simps)
          (cases ni; cases nj; auto simp: to_legacy_node split: Term.split)
    next
      case True
      then obtain f ss ts where st: "s = App f ss" "t = App f ts" by blast
      obtain as bs where args: "node_at b i = Some (NApp f as)" "reads b as ss"
          "node_at b j = Some (NApp f bs)" "reads b bs ts"
        using less.prems st by (auto simp: to_legacy_App mapM_list_all2)
      obtain ks js where flats: "flat_args_id b f [i] [] = Some ks" "reads b ks (flat_args f [s] [])"
          "flat_args_id b f [j] [] = Some js" "reads b js (flat_args f [t] [])"
        using flat_args_reads [OF less.prems(1)] flat_args_reads [OF less.prems(2)] by metis
      have "all_matched (ac_equal_id lpo b) ks js =
          Some (matched (ac_equal (Some ac)) (flat_args f [s] []) (flat_args f [t] []))"
      proof (rule all_matched_rel [OF flats(2,4)])
        fix x y X Y assume "to_legacy b x = Some X" "X \<in> set (flat_args f [s] [])"
          "to_legacy b y = Some Y" "Y \<in> set (flat_args f [t] [])"
        then show "ac_equal_id lpo b x y = Some (ac_equal (Some ac) X Y)"
          using less.hyps [of X Y x y] flat_args_smaller [of X f ss] flat_args_smaller [of Y f ts] st ac(1) by simp
      qed
      moreover have "allM (\<lambda>p. ac_equal_id lpo b (fst p) (snd p)) (zip as bs) =
          Some (\<forall>p \<in> set (zip ss ts). ac_equal (Some ac) (fst p) (snd p))" if "length ss = length ts"
      proof (rule allM_rel)
        show "list_all2 (\<lambda>p q. to_legacy b (fst p) = Some (fst q) \<and> to_legacy b (snd p) = Some (snd q))
            (zip as bs) (zip ss ts)"
          using args(2,4) that by (auto simp: list_all2_conv_all_nth)
        fix p q assume "to_legacy b (fst p) = Some (fst q) \<and> to_legacy b (snd p) = Some (snd q)" "q \<in> set (zip ss ts)"
        moreover from this(2) have "fst q \<in> set ss" "snd q \<in> set ts"
          by (metis prod.collapse set_zip_leftD, metis prod.collapse set_zip_rightD)
        ultimately show "ac_equal_id lpo b (fst p) (snd p) = Some (ac_equal (Some ac) (fst q) (snd q))"
          using less.hyps [of "fst q" "snd q" "fst p" "snd p"] term_size_arg [of "fst q" ss f]
            term_size_arg [of "snd q" ts f] st ac(1) by simp
      qed
      ultimately show ?thesis using ac st args(1,3) flats list_all2_lengthD [OF flats(2)] list_all2_lengthD [OF flats(4)]
          list_all2_lengthD [OF args(2)] list_all2_lengthD [OF args(4)]
        by (subst ac_equal_id.simps, subst ac_equal.simps) simp
    qed
  qed
qed

lemma index_ofM_rel:
  "list_all2 R xs ys \<Longrightarrow> (\<And>x y. R x y \<Longrightarrow> p x = Some (q y)) \<Longrightarrow> index_ofM p xs = Some (index_of q ys)"
  by (induction rule: list_all2_induct) auto

lemma cancelM_rel:
  assumes "\<And>x y X Y. R x X \<Longrightarrow> R y Y \<Longrightarrow> eq x y = Some (EQ X Y)"
  shows "list_all2 R s S \<Longrightarrow> list_all2 R t T \<Longrightarrow> \<exists>r. cancelM eq s t i = Some r \<and>
    list_all2 R (fst r) (fst (cancel EQ S T i)) \<and> list_all2 R (snd r) (snd (cancel EQ S T i))"
  using assms
proof (induction EQ S T i arbitrary: s t rule: cancel.induct)
  case (1 EQ S T i)
  note R = 1(5)
  show ?case
  proof (cases "i < length S")
    case True
    then have i: "i < length s" "R (s ! i) (S ! i)" using 1(3) by (auto simp: list_all2_conv_all_nth)
    have found: "index_ofM (\<lambda>x. eq x (s ! i)) t = Some (index_of (\<lambda>x. EQ x (S ! i)) T)"
      by (rule index_ofM_rel [OF 1(4)]) (rule R [OF _ i(2)])
    show ?thesis
    proof (cases "index_of (\<lambda>x. EQ x (S ! i)) T")
      case None
      then have "cancelM eq s t i = cancelM eq s t (i + 1)" using i(1) found by (subst cancelM.simps) simp
      then show ?thesis using 1(1) [OF True None 1(3,4) R] cancel_skip [of i S EQ T, OF True None] by simp
    next
      case (Some j)
      then have "j < length t" using index_of_less 1(4) by (metis list_all2_lengthD)
      note IH = 1(2) [OF True Some swap_remove_rel [OF 1(3) i(1)] swap_remove_rel [OF 1(4) this] R]
      have "cancelM eq s t i = cancelM eq (swap_remove i s) (swap_remove j t) i"
        using i(1) found Some by (subst cancelM.simps) simp
      then show ?thesis using IH cancel_pair [of i S EQ T, OF True Some] by simp
    qed
  next
    case False
    then have "\<not> i < length s" using 1(3) by (auto dest: list_all2_lengthD)
    then show ?thesis using 1(3,4) False by (subst cancelM.simps) (simp add: cancel_stop)
  qed
qed

section \<open>Results that may be missing\<close>

text \<open>The memo holds results of the ordering.\<close>

definition sound_memo :: "OrderParams \<Rightarrow> TermBank \<Rightarrow> LpoMemo \<Rightarrow> bool" where
  "sound_memo lpo b memo \<longleftrightarrow> (\<forall>i j r. fmlookup (memo_ids memo) (i, j) = Some r \<longrightarrow>
     (\<exists>s t. to_legacy b i = Some s \<and> to_legacy b j = Some t \<and> r = lpo_gt lpo s t))"

text \<open>A computation returns, and unless the budget ran out it returns \<open>v\<close>.\<close>

definition answers :: "OrderParams \<Rightarrow> TermBank \<Rightarrow> bool budgeted \<Rightarrow> bool \<Rightarrow> bool" where
  "answers lpo b res v \<longleftrightarrow> res = Some None \<or> (\<exists>m. res = Some (Some (v, m)) \<and> sound_memo lpo b m)"

lemma answersI: "sound_memo lpo b m \<Longrightarrow> v = w \<Longrightarrow> answers lpo b (Some (Some (v, m))) w"
  by (simp add: answers_def)

lemma answers_question:
  assumes "answers lpo b res v" "\<And>m. sound_memo lpo b m \<Longrightarrow> answers lpo b (k (v, m)) w"
  shows "answers lpo b (question res k) w"
proof (cases "res = Some None")
  case False
  then obtain m where "res = Some (Some (v, m))" "sound_memo lpo b m" using assms(1) by (auto simp: answers_def)
  then show ?thesis using assms(2) by (simp add: question_def)
qed (simp add: answers_def question_def)

lemma answers_charge:
  assumes "sound_memo lpo b m" "\<And>m. sound_memo lpo b m \<Longrightarrow> answers lpo b (k m) w"
  shows "answers lpo b (question (Some (charge limit m)) k) w"
    "answers lpo b (question (Some (charge_many n limit m)) k) w"
  using assms(2) [of "m\<lparr>steps := steps m + 1\<rparr>"] assms(2) [of "m\<lparr>steps := steps m + n\<rparr>"] assms(1)
  by (auto simp: question_def charge_def charge_many_def answers_def sound_memo_def)

text \<open>The recursive call is right for a pair of identifiers.\<close>

definition right :: "OrderParams \<Rightarrow> TermBank \<Rightarrow> gt_id \<Rightarrow> TermId \<times> Term \<Rightarrow> TermId \<times> Term \<Rightarrow> bool" where
  "right lpo b gt = (\<lambda>(i, s) (j, t). \<forall>m. sound_memo lpo b m \<longrightarrow> answers lpo b (gt i j m) (lpo_gt lpo s t))"

lemma right_good: "right lpo b gt (i, s) (j, t) \<Longrightarrow> sound_memo lpo b m \<Longrightarrow> answers lpo b (gt i j m) (lpo_gt lpo s t)"
  by (simp add: right_def)

lemma some_arg_ge_answers:
  "list_all2 (\<lambda>i s. (i = j \<longleftrightarrow> s = t) \<and> right lpo b gt (i, s) (j, t)) ks ss \<Longrightarrow> sound_memo lpo b m \<Longrightarrow>
   answers lpo b (some_arg_ge gt ks j m) (\<exists>s \<in> set ss. s = t \<or> lpo_gt lpo s t)"
proof (induction arbitrary: m rule: list_all2_induct)
  case (Cons i ks s ss)
  show ?case
  proof (cases "i = j")
    case False
    have "answers lpo b (question (gt i j m) (\<lambda>r. if fst r then Some (Some (True, snd r)) else some_arg_ge gt ks j (snd r)))
        (\<exists>s \<in> set (s # ss). s = t \<or> lpo_gt lpo s t)"
      by (rule answers_question [OF right_good [OF conjunct2 [OF Cons.hyps(1)] Cons.prems]])
        (use False Cons in \<open>auto intro: answersI\<close>)
    then show ?thesis using False by simp
  qed (use Cons in \<open>auto intro: answersI\<close>)
qed (simp add: answersI)

lemma all_args_lt_answers:
  "list_all2 (\<lambda>j t. right lpo b gt (i, s) (j, t)) js ts \<Longrightarrow> sound_memo lpo b m \<Longrightarrow>
   answers lpo b (all_args_lt gt i js m) (\<forall>t \<in> set ts. lpo_gt lpo s t)"
proof (induction arbitrary: m rule: list_all2_induct)
  case (Cons j js t ts)
  show ?case unfolding all_args_lt.simps
    by (rule answers_question [OF right_good [OF Cons.hyps(1) Cons.prems]])
      (use Cons in \<open>auto intro: answersI\<close>)
qed (simp add: answersI)

lemma some_gt_answers:
  "list_all2 (\<lambda>i s. right lpo b gt (i, s) (j, t)) ks ss \<Longrightarrow> sound_memo lpo b m \<Longrightarrow>
   answers lpo b (some_gt gt ks j m) (\<exists>s \<in> set ss. lpo_gt lpo s t)"
proof (induction arbitrary: m rule: list_all2_induct)
  case (Cons j js t ts)
  show ?case unfolding some_gt.simps
    by (rule answers_question [OF right_good [OF Cons.hyps(1) Cons.prems]])
      (use Cons in \<open>auto intro: answersI\<close>)
qed (simp add: answersI)

lemma all_dominated_answers:
  "list_all2 (\<lambda>j t. list_all2 (\<lambda>i s. right lpo b gt (i, s) (j, t)) ks ss) js ts \<Longrightarrow> sound_memo lpo b m \<Longrightarrow>
   answers lpo b (all_dominated gt ks js m) (\<forall>t \<in> set ts. \<exists>s \<in> set ss. lpo_gt lpo s t)"
proof (induction arbitrary: m rule: list_all2_induct)
  case (Cons j js t ts)
  show ?case unfolding all_dominated.simps
    by (rule answers_question [OF some_gt_answers [OF Cons.hyps(1) Cons.prems]])
      (use Cons in \<open>auto intro: answersI\<close>)
qed (simp add: answersI)

lemma lex_gt_loop_answers:
  "reads b ks ss \<Longrightarrow> reads b js ts \<Longrightarrow> nodes_wf b \<Longrightarrow>
   (\<And>i s j t. to_legacy b i = Some s \<Longrightarrow> to_legacy b j = Some t \<Longrightarrow> s \<in> set ss \<Longrightarrow> t \<in> set ts \<Longrightarrow> right lpo b gt (i, s) (j, t)) \<Longrightarrow>
   sound_memo lpo b m \<Longrightarrow> answers lpo b (lex_gt_loop gt ks js m) (lex_gt (lpo_gt lpo) ss ts)"
proof (induction "lpo_gt lpo" ss ts arbitrary: ks js rule: lex_gt.induct [case_names both short long])
  case (both s ss t ts)
  then obtain i ks' j js' where eq: "ks = i # ks'" "js = j # js'" "to_legacy b i = Some s" "to_legacy b j = Some t"
    "reads b ks' ss" "reads b js' ts" by (auto simp: list_all2_Cons2)
  then have "i = j \<longleftrightarrow> s = t" using to_legacy_inject [OF both(4)] by auto
  then show ?case using both eq by (auto intro: right_good)
next
  case (short ts)
  then show ?case by (auto simp: answersI)
next
  case (long ss)
  then show ?case by (cases ks; cases ss) (auto simp: answersI)
qed

lemma occurs_loop_answers:
  "reads b ks ss \<Longrightarrow> sound_memo lpo b m \<Longrightarrow> answers lpo b (occurs_loop limit b v ks m) (\<exists>s \<in> set ss. contains_var s v)"
proof (induction "sum_list (map term_size ss)" arbitrary: ks ss m rule: less_induct)
  case less
  show ?case
  proof (cases ss)
    case Nil
    then show ?thesis using less.prems by (subst occurs_loop.simps) (simp add: answersI)
  next
    case (Cons s ss')
    then obtain i ks' where i: "ks = i # ks'" "to_legacy b i = Some s" "reads b ks' ss'"
      using less.prems(1) by (auto simp: list_all2_Cons2)
    show ?thesis
    proof (cases s)
      case (Var u)
      then have n: "node_at b i = Some (NVar u)" using i(2) by (simp add: to_legacy_Var)
      have IH: "answers lpo b (occurs_loop limit b v ks' m) (\<exists>s \<in> set ss'. contains_var s v)" if "sound_memo lpo b m" for m
        using less.hyps [OF _ i(3) that] Cons by simp
      have "answers lpo b (occurs_loop limit b v (i # ks') m) (\<exists>s \<in> set ss. contains_var s v)"
        by (subst occurs_loop.simps, simp only: list.case, rule answers_charge(1) [OF less.prems(2)])
          (use n IH Cons Var in \<open>auto intro: answersI\<close>)
      then show ?thesis using i(1) by simp
    next
      case (App f ts)
      then obtain args where n: "node_at b i = Some (NApp f args)" "reads b args ts"
        using i(2) by (auto simp: to_legacy_App mapM_list_all2)
      have "reads b (rev args @ ks') (rev ts @ ss')" using n(2) i(3) by (auto intro: list_all2_appendI)
      then have IH: "answers lpo b (occurs_loop limit b v (rev args @ ks') m) (\<exists>s \<in> set (rev ts @ ss'). contains_var s v)"
        if "sound_memo lpo b m" for m
        using that Cons App by (intro less.hyps) (simp_all add: sum_list_rev rev_map [symmetric])
      have "answers lpo b (occurs_loop limit b v (i # ks') m) (\<exists>s \<in> set ss. contains_var s v)"
      proof (subst occurs_loop.simps, simp only: list.case, rule answers_charge(1) [OF less.prems(2)])
        fix m assume "sound_memo lpo b m"
        from answers_charge(2) [OF this IH] show "answers lpo b (do { node \<leftarrow> node_at b i; case node of
            NVar u \<Rightarrow> if u = v then Some (Some (True, m)) else occurs_loop limit b v ks' m
          | NApp f args \<Rightarrow> question (Some (charge_many (length args) limit m)) (occurs_loop limit b v (rev args @ ks')) })
          (\<exists>s \<in> set ss. contains_var s v)"
          using n(1) Cons App by (simp add: bex_Un list_ex_iff)
      qed
      then show ?thesis using i(1) by simp
    qed
  qed
qed

section \<open>The comparison\<close>

lemma lpo_gt_Var: "lpo_gt lpo s (Var v) \<longleftrightarrow> s \<noteq> Var v \<and> contains_var s v"
  by (subst lpo_gt.simps) simp

lemma lpo_gt_Var_App: "\<not> lpo_gt lpo (Var v) (App g ts)"
  by (subst lpo_gt.simps) simp

lemma ac_multiset_gt_id_answers:
  assumes wf: "nodes_wf b" and sound_memo: "sound_memo lpo b m" and i: "to_legacy b i = Some (App f ss)" and j: "to_legacy b j = Some (App f ts)"
    and gt: "\<And>k s l t. to_legacy b k = Some s \<Longrightarrow> to_legacy b l = Some t \<Longrightarrow>
      term_size s < term_size (App f ss) \<Longrightarrow> term_size t < term_size (App f ts) \<Longrightarrow> right lpo b gt (k, s) (l, t)"
  shows "answers lpo b (ac_multiset_gt_id gt lpo limit b i j f m)
    (multiset_gt (ac_symbols lpo) (lpo_gt lpo) (flat_args f [App f ss] []) (flat_args f [App f ts] []))"
proof -
  obtain ks js where flats: "flat_args_id b f [i] [] = Some ks" "reads b ks (flat_args f [App f ss] [])"
      "flat_args_id b f [j] [] = Some js" "reads b js (flat_args f [App f ts] [])"
    using flat_args_reads [OF i] flat_args_reads [OF j] by metis
  let ?EQ = "\<lambda>x y. x = y \<or> ac_equal (ac_symbols lpo) x y"
  let ?eq = "\<lambda>x y. if x = y then Some True else ac_equal_id lpo b x y"
  let ?c = "cancel ?EQ (flat_args f [App f ss] []) (flat_args f [App f ts] []) 0"
  have eq: "?eq x y = Some (?EQ X Y)" if "to_legacy b x = Some X" "to_legacy b y = Some Y" for x y X Y
    using that ac_equal_id_exact [OF wf that, of lpo] to_legacy_inject [OF wf] by auto
  from cancelM_rel [where eq = ?eq and EQ = ?EQ, OF eq flats(2,4), of 0] obtain r where r: "cancelM ?eq ks js 0 = Some r"
    "reads b (fst r) (fst ?c)" "reads b (snd r) (snd ?c)" by blast
  have sub: "set (fst ?c) \<subseteq> set (flat_args f [App f ss] [])" "set (snd ?c) \<subseteq> set (flat_args f [App f ts] [])"
    using cancel_subset [of ?EQ "flat_args f [App f ss] []" "flat_args f [App f ts] []" 0 "fst ?c" "snd ?c"]
    by (simp_all only: prod.collapse)
  have small: "term_size s < term_size (App f ss)" "term_size t < term_size (App f ts)"
    if "s \<in> set (fst ?c)" "t \<in> set (snd ?c)" for s t
    by (rule flat_args_smaller [OF subsetD [OF sub(1) that(1)]], rule flat_args_smaller [OF subsetD [OF sub(2) that(2)]])
  have "list_all2 (\<lambda>j t. list_all2 (\<lambda>i s. right lpo b gt (i, s) (j, t)) (fst r) (fst ?c)) (snd r) (snd ?c)"
    by (intro list.rel_mono_strong [OF r(3)] list.rel_mono_strong [OF r(2)] gt small)
  then have dom: "answers lpo b (all_dominated gt (fst r) (snd r) m) (\<forall>t \<in> set (snd ?c). \<exists>s \<in> set (fst ?c). lpo_gt lpo s t)"
    if "sound_memo lpo b m" for m using that by (rule all_dominated_answers)
  have empty: "fst r = [] \<longleftrightarrow> fst ?c = []" "snd r = [] \<longleftrightarrow> snd ?c = []" using r(2,3) by auto
  show ?thesis
  proof (cases "fst r = [] \<or> snd r = []")
    case True
    then show ?thesis using flats(1,3) r(1) sound_memo empty by (auto simp: ac_multiset_gt_id_def multiset_gt_def Let_def answersI)
  next
    case False
    have "answers lpo b (question (Some (charge_many (length (fst r) * length (snd r)) limit m)) (all_dominated gt (fst r) (snd r)))
        (\<forall>t \<in> set (snd ?c). \<exists>s \<in> set (fst ?c). lpo_gt lpo s t)"
      by (rule answers_charge(2) [OF sound_memo dom])
    then show ?thesis using False flats(1,3) r(1) empty by (simp add: ac_multiset_gt_id_def multiset_gt_def Let_def)
  qed
qed

lemma lpo_gt_id_uncached_answers:
  assumes wf: "nodes_wf b" and sound_memo: "sound_memo lpo b m" and i: "to_legacy b i = Some s" and j: "to_legacy b j = Some t"
    and gt: "\<And>k u l v. to_legacy b k = Some u \<Longrightarrow> to_legacy b l = Some v \<Longrightarrow>
      term_size u + term_size v < term_size s + term_size t \<Longrightarrow> right lpo b gt (k, u) (l, v)"
  shows "answers lpo b (lpo_gt_id_uncached gt lpo limit b i j m) (lpo_gt lpo s t)"
proof -
  have same: "k = l \<longleftrightarrow> u = v" if "to_legacy b k = Some u" "to_legacy b l = Some v" for k l u v
    using that to_legacy_inject [OF wf] by auto
  obtain ni where ni: "node_at b i = Some ni" using i by (metis to_legacy_cases)
  show ?thesis
  proof (cases t)
    case (Var v)
    have "answers lpo b (occurs_in_id limit b v i m) (contains_var s v)"
      using occurs_loop_answers [of b "[i]" "[s]" lpo m limit v] i sound_memo by (simp add: occurs_in_id_def)
    then show ?thesis using Var i j sound_memo ni same [OF i j]
      by (auto simp: lpo_gt_id_uncached_def to_legacy_Var lpo_gt_Var intro: answersI)
  next
    case t: (App g ts)
    then obtain bs where nj: "node_at b j = Some (NApp g bs)" "reads b bs ts"
      using j by (auto simp: to_legacy_App mapM_list_all2)
    show ?thesis
    proof (cases s)
      case (Var v)
      then show ?thesis using i sound_memo nj t
        by (simp add: lpo_gt_id_uncached_def to_legacy_Var lpo_gt_Var_App answersI)
    next
      case s: (App f ss)
      then obtain as where ni: "node_at b i = Some (NApp f as)" "reads b as ss"
        using i by (auto simp: to_legacy_App mapM_list_all2)
      have sub: "list_all2 (\<lambda>k u. (k = j \<longleftrightarrow> u = t) \<and> right lpo b gt (k, u) (j, t)) as ss"
        using ni(2) s gt same j unfolding list_all2_conv_all_nth
        by (metis add_less_mono1 nth_mem term_size_arg)
      have all: "list_all2 (\<lambda>l u. right lpo b gt (i, s) (l, u)) bs ts"
        using nj(2) t gt i unfolding list_all2_conv_all_nth
        by (metis add_less_cancel_left nth_mem term_size_arg)
      have mult: "answers lpo b (ac_multiset_gt_id gt lpo limit b i j f m)
          (multiset_gt (ac_symbols lpo) (lpo_gt lpo) (flat_args f [App f ss] []) (flat_args g [App g ts] []))"
        if "sound_memo lpo b m" "f = g" for m
      proof -
        have "to_legacy b i = Some (App f ss)" "to_legacy b j = Some (App f ts)" using i j s t that(2) by simp_all
        from ac_multiset_gt_id_answers [OF wf that(1) this] show ?thesis
          using gt s t that(2) by (simp add: add_less_mono)
      qed
      have lex: "answers lpo b (lex_gt_id gt limit as bs m) (lex_gt (lpo_gt lpo) ss ts)" if "sound_memo lpo b m" for m
        unfolding lex_gt_id_def
      proof (rule answers_charge(2) [OF that], rule lex_gt_loop_answers [OF ni(2) nj(2) wf])
        fix k u l v assume "to_legacy b k = Some u" "to_legacy b l = Some v" "u \<in> set ss" "v \<in> set ts"
        then show "right lpo b gt (k, u) (l, v)"
          using s t term_size_arg [of u ss f] term_size_arg [of v ts g] by (intro gt) simp_all
      qed
      let ?p = "symbol_precedence (config lpo)"
      define tie where "tie m = (if ?p g < ?p f then Some (Some (True, m))
        else if ?p f = ?p g then
          (if f = g \<and> (case ac_symbols lpo of Some ac \<Rightarrow> f \<in> ac | None \<Rightarrow> False)
           then ac_multiset_gt_id gt lpo limit b i j f m else lex_gt_id gt limit as bs m)
        else Some (Some (False, m)))" for m
      define TIE where "TIE \<longleftrightarrow> ?p g < ?p f \<or> ?p g = ?p f \<and>
        (if f = g \<and> (case ac_symbols lpo of Some ac \<Rightarrow> f \<in> ac | None \<Rightarrow> False)
         then multiset_gt (ac_symbols lpo) (lpo_gt lpo) (flat_args f [App f ss] []) (flat_args g [App g ts] [])
         else lex_gt (lpo_gt lpo) ss ts)"
      have tie: "answers lpo b (tie m) TIE" if "sound_memo lpo b m" for m
        using mult [OF that] lex [OF that] that by (auto simp: tie_def TIE_def intro: answersI)
      define above where "above m = question (all_args_lt gt i bs m)
        (\<lambda>r. if \<not> fst r then Some (Some (False, snd r)) else tie (snd r))" for m
      have above: "answers lpo b (above m) ((\<forall>u \<in> set ts. lpo_gt lpo s u) \<and> TIE)" if "sound_memo lpo b m" for m
        unfolding above_def
        by (rule answers_question [OF all_args_lt_answers [OF all that]]) (use tie in \<open>auto intro: answersI\<close>)
      have "answers lpo b (question (some_arg_ge gt as j m) (\<lambda>r. if fst r then Some (Some (True, snd r))
            else question (Some (charge_many (length bs) limit (snd r))) above)) (lpo_gt lpo s t)" if "sound_memo lpo b m" for m
      proof (rule answers_question [OF some_arg_ge_answers [OF sub that]])
        fix m assume "sound_memo lpo b m"
        have "lpo_gt lpo s t \<longleftrightarrow> (\<exists>u \<in> set ss. u = t \<or> lpo_gt lpo u t) \<or> (\<forall>u \<in> set ts. lpo_gt lpo s u) \<and> TIE"
          unfolding TIE_def using s t by (subst lpo_gt.simps) simp
        then show "answers lpo b (if fst (\<exists>u \<in> set ss. u = t \<or> lpo_gt lpo u t, m)
            then Some (Some (True, snd (\<exists>u \<in> set ss. u = t \<or> lpo_gt lpo u t, m)))
            else question (Some (charge_many (length bs) limit (snd (\<exists>u \<in> set ss. u = t \<or> lpo_gt lpo u t, m)))) above)
          (lpo_gt lpo s t)"
          using answers_charge(2) [OF \<open>sound_memo lpo b m\<close> above] \<open>sound_memo lpo b m\<close> by (auto intro: answersI)
      qed
      from answers_charge(2) [OF sound_memo this] show ?thesis
        using ni(1) nj(1) unfolding lpo_gt_id_uncached_def above_def tie_def Let_def by simp
    qed
  qed
qed

lemma lpo_gt_id_answers:
  assumes wf: "nodes_wf b"
  shows "to_legacy b i = Some s \<Longrightarrow> to_legacy b j = Some t \<Longrightarrow> sound_memo lpo b m \<Longrightarrow>
    answers lpo b (lpo_gt_id lpo limit b i j m) (lpo_gt lpo s t)"
proof (induction "term_size s + term_size t" arbitrary: i j s t m rule: less_induct)
  case less
  show ?case
  proof (subst lpo_gt_id.simps, rule answers_charge(1) [OF less.prems(3)])
    fix m assume sound_memo: "sound_memo lpo b m"
    show "answers lpo b (case fmlookup (memo_ids m) (i, j) of Some cached \<Rightarrow> Some (Some (cached, m))
       | None \<Rightarrow> question (lpo_gt_id_uncached (lpo_gt_id lpo limit b) lpo limit b i j m) (\<lambda>r.
           Some (Some (fst r, (snd r)\<lparr>memo_ids := fmupd (i, j) (fst r) (memo_ids (snd r))\<rparr>)))) (lpo_gt lpo s t)"
    proof (cases "fmlookup (memo_ids m) (i, j)")
      case (Some r)
      then obtain u v where "to_legacy b i = Some u" "to_legacy b j = Some v" "r = lpo_gt lpo u v"
        using sound_memo unfolding sound_memo_def by blast
      then have "r = lpo_gt lpo s t" using less.prems(1,2) by simp
      then show ?thesis using sound_memo Some by (simp add: answersI)
    next
      case None
      have "right lpo b (lpo_gt_id lpo limit b) (k, u) (l, v)"
        if "to_legacy b k = Some u" "to_legacy b l = Some v" "term_size u + term_size v < term_size s + term_size t" for k u l v
        using less.hyps [OF that(3) that(1,2)] by (simp add: right_def)
      note unc = lpo_gt_id_uncached_answers [OF wf sound_memo less.prems(1,2) this]
      have "answers lpo b (question (lpo_gt_id_uncached (lpo_gt_id lpo limit b) lpo limit b i j m) (\<lambda>r.
           Some (Some (fst r, (snd r)\<lparr>memo_ids := fmupd (i, j) (fst r) (memo_ids (snd r))\<rparr>)))) (lpo_gt lpo s t)"
        by (rule answers_question [OF unc]) (use less.prems(1,2) in \<open>auto simp: answers_def sound_memo_def\<close>)
      then show ?thesis using None by simp
    qed
  qed
qed

lemma lpo_compare_id_shared:
  assumes "nodes_wf b" "to_legacy b i = Some s" "to_legacy b j = Some t" "\<not> lpo_expired budget"
  shows "lpo_compare_id lpo b i j budget = Some (lpo_compare lpo s t, budget) \<or>
    lpo_compare_id lpo b i j budget = Some (Incomparable, budget\<lparr>lpo_expired := True\<rparr>)"
proof -
  have same: "i = j \<longleftrightarrow> s = t" using assms to_legacy_inject by auto
  have "lpo_verdict lpo (lpo_limit budget) b i j = Some None \<or>
      lpo_verdict lpo (lpo_limit budget) b i j = Some (Some (lpo_compare lpo s t))" if "s \<noteq> t"
  proof -
    have "sound_memo lpo b empty_memo" by (simp add: sound_memo_def empty_memo_def)
    from lpo_gt_id_answers [OF assms(1-3) this] consider
      "lpo_gt_id lpo (lpo_limit budget) b i j empty_memo = Some None"
      | m where "lpo_gt_id lpo (lpo_limit budget) b i j empty_memo = Some (Some (lpo_gt lpo s t, m))" "sound_memo lpo b m"
      unfolding answers_def by blast
    then show ?thesis
    proof cases
      case (2 m)
      from lpo_gt_id_answers [OF assms(1,3,2) 2(2), of "lpo_limit budget"] show ?thesis
        using 2 that ac_equal_id_exact [OF assms(1-3), of lpo]
        by (auto simp: lpo_verdict_def question_def answers_def lpo_compare_def)
    qed (simp add: lpo_verdict_def question_def)
  qed
  then show ?thesis using assms(4) same
    by (auto simp: lpo_compare_id_def lpo_compare_def mark_expired_def Let_def)
qed

section \<open>Every comparison returns\<close>

lemma anyM_total: "(\<And>x. x \<in> set xs \<Longrightarrow> \<exists>r. p x = Some r) \<Longrightarrow> \<exists>r. anyM p xs = Some r"
  by (induction xs) force+

lemma allM_total: "(\<And>x. x \<in> set xs \<Longrightarrow> \<exists>r. p x = Some r) \<Longrightarrow> \<exists>r. allM p xs = Some r"
  using anyM_total [of xs "\<lambda>x. do { b \<leftarrow> p x; Some (\<not> b) }"] by (force simp: allM_def)

lemma lex_compareM_total: "(\<And>x y. (x, y) \<in> set ps \<Longrightarrow> \<exists>r. f x y = Some r) \<Longrightarrow> \<exists>r. lex_compareM f ps = Some r"
  by (induction ps) force+

lemma multiset_compareM_total:
  assumes "\<And>x y. x \<in> set ss \<Longrightarrow> y \<in> set ts \<Longrightarrow> (\<exists>r. f x y = Some r) \<and> (\<exists>r. f y x = Some r)"
  shows "\<exists>r. multiset_compareM f a b ss ts = Some r"
proof -
  have "\<exists>r. allM (\<lambda>t. anyM (\<lambda>s. do { r \<leftarrow> f s t; Some (r = Greater) }) ss) ts = Some r"
    "\<exists>r. allM (\<lambda>s. anyM (\<lambda>t. do { r \<leftarrow> f t s; Some (r = Greater) }) ts) ss = Some r"
    using assms by (intro allM_total anyM_total; fastforce)+
  then show ?thesis by (auto simp: multiset_compareM_def)
qed

lemma reads_member: "reads b ks ss \<Longrightarrow> k \<in> set ks \<Longrightarrow> \<exists>s \<in> set ss. to_legacy b k = Some s"
  by (fastforce simp: list_all2_conv_all_nth in_set_conv_nth)

lemma kbo_compare_id_total:
  "to_legacy b i = Some s \<Longrightarrow> to_legacy b j = Some t \<Longrightarrow> \<exists>r. kbo_compare_id spent kbo b i j = Some r"
proof (induction "term_size s + term_size t" arbitrary: i j s t rule: less_induct)
  case less
  note exact = var_counts_id_exact [OF less.prems(1)] var_counts_id_exact [OF less.prems(2)]
    kbo_weight_id_exact [OF less.prems(1)] kbo_weight_id_exact [OF less.prems(2)]
  obtain ni nj where n: "node_at b i = Some ni" "node_at b j = Some nj"
    using less.prems by (metis to_legacy_cases)
  show ?case
  proof (cases "\<exists>f as bs. ni = NApp f as \<and> nj = NApp f bs")
    case False
    then show ?thesis using n
      by (subst kbo_compare_id.simps) (cases ni; cases nj; simp add: exact Let_def)
  next
    case True
    then obtain f as bs where f: "ni = NApp f as" "nj = NApp f bs" by blast
    then obtain ss ts where st: "s = App f ss" "reads b as ss" "t = App f ts" "reads b bs ts"
      using n less.prems by (auto simp: to_legacy_node mapM_list_all2)
    have IH: "\<exists>r. kbo_compare_id spent kbo b k l = Some r"
      if "to_legacy b k = Some u" "to_legacy b l = Some v" "term_size u + term_size v < term_size s + term_size t" for k l u v
      using less.hyps [OF that(3) that(1,2)] .
    have "\<exists>r. lex_compareM (kbo_compare_id spent kbo b) (zip as bs) = Some r"
    proof (rule lex_compareM_total)
      fix x y assume "(x, y) \<in> set (zip as bs)"
      then obtain u v where "to_legacy b x = Some u" "u \<in> set ss" "to_legacy b y = Some v" "v \<in> set ts"
        using reads_member st(2,4) by (meson set_zip_leftD set_zip_rightD)
      then show "\<exists>r. kbo_compare_id spent kbo b x y = Some r"
        using IH [of x u y v] term_size_arg [of u ss f] term_size_arg [of v ts f] st(1,3) by simp
    qed
    moreover obtain ks js where flats: "flat_args_id b f [i] [] = Some ks" "reads b ks (flat_args f [s] [])"
        "flat_args_id b f [j] [] = Some js" "reads b js (flat_args f [t] [])"
      using flat_args_reads [OF less.prems(1)] flat_args_reads [OF less.prems(2)] by metis
    have "\<exists>r. multiset_compareM (kbo_compare_id spent kbo b) x y (fst (cancel (=) ks js 0)) (snd (cancel (=) ks js 0)) = Some r" for x y
    proof (rule multiset_compareM_total)
      fix k l assume "k \<in> set (fst (cancel (=) ks js 0))" "l \<in> set (snd (cancel (=) ks js 0))"
      then have "k \<in> set ks" "l \<in> set js"
        using cancel_subset [of "(=)" ks js 0 "fst (cancel (=) ks js 0)" "snd (cancel (=) ks js 0)"] by auto
      then obtain u v where "to_legacy b k = Some u" "u \<in> set (flat_args f [s] [])"
          "to_legacy b l = Some v" "v \<in> set (flat_args f [t] [])"
        using reads_member flats(2,4) by meson
      then show "(\<exists>r. kbo_compare_id spent kbo b k l = Some r) \<and> (\<exists>r. kbo_compare_id spent kbo b l k = Some r)"
        using IH [of k u l v] IH [of l v k u] flat_args_smaller [of u f ss] flat_args_smaller [of v f ts] st(1,3) by simp
    qed
    ultimately show ?thesis using n f flats(1,3)
      by (subst kbo_compare_id.simps) (auto simp: exact Let_def)
  qed
qed

lemma lpo_compare_id_total:
  assumes "nodes_wf b" "to_legacy b i = Some s" "to_legacy b j = Some t"
  shows "\<exists>r. lpo_compare_id lpo b i j budget = Some r"
proof (cases "lpo_expired budget")
  case False
  from lpo_compare_id_shared [OF assms this] show ?thesis by blast
qed (simp add: lpo_compare_id_def)

lemma compare_id_total:
  assumes "nodes_wf b" "is_id b i" "is_id b j"
  obtains r budget' where "compare_id ord b i j budget = Some (r, budget')"
proof -
  obtain s t where st: "to_legacy b i = Some s" "to_legacy b j = Some t" using assms(2,3) by (auto simp: is_id_def)
  have "\<exists>r. kbo_answer kbo b i j budget = Some r" for kbo
    using kbo_compare_id_total [OF st, of "lpo_expired budget" kbo] by (auto simp: kbo_answer_def)
  then have "\<exists>r. compare_id ord b i j budget = Some r"
    using lpo_compare_id_total [OF assms(1) st] by (cases ord) simp_all
  then show thesis using that by (auto simp: split_paired_Ex)
qed

section \<open>Properties\<close>

text \<open>
  C8. The lexicographic path ordering on identifiers always returns. Unless its step budget runs
  out, which it then records and which makes every later comparison incomparable, its answer is
  the one of the ordering on the terms the identifiers denote, whatever the memo has kept.
\<close>

theorem lpo_compare_id_exact:
  assumes "nodes_wf b" "to_legacy b i = Some s" "to_legacy b j = Some t" "\<not> lpo_expired budget"
  shows "lpo_compare_id lpo b i j budget = Some (lpo_compare lpo s t, budget) \<or>
    lpo_compare_id lpo b i j budget = Some (Incomparable, budget\<lparr>lpo_expired := True\<rparr>)"
  using lpo_compare_id_shared [OF assms] .

theorem lpo_compare_id_exact_witness:
  "lpo_compare_id (params default_config None) example_bank 3 1 unarmed
     \<in> {Some (Greater, unarmed), Some (Incomparable, unarmed\<lparr>lpo_expired := True\<rparr>)}"
proof -
  have "lpo_compare (params default_config None) example_term (Var 7) = Greater"
    by (simp add: lpo_compare_def example_term_def lpo_gt_Var)
  then show ?thesis
    using lpo_compare_id_exact [of example_bank 3 example_term 1 "Var 7" unarmed "params default_config None"]
      example_bank_ok example_ids by (auto simp: bank_ok_def nodes_ok_wf unarmed_def)
qed

text \<open>
  C40. Without associative and commutative symbols the two versions of the Knuth-Bendix comparison,
  on identifiers and on owned terms, give the same answer, for terms in which every symbol has one
  number of arguments.
\<close>

theorem kbo_versions_agree:
  assumes "nodes_wf b" "ac_symbols kbo = None" "to_legacy b i = Some s" "to_legacy b j = Some t"
    and "consistent ar s" "consistent ar t"
  shows "kbo_compare_id spent kbo b i j = Some (kbo_compare spent kbo s t)"
  using kbo_compare_id_exact [OF assms] .

theorem kbo_versions_agree_witness:
  "kbo_compare_id False (params default_config None) example_bank 3 1 =
     Some (kbo_compare False (params default_config None) example_term (Var 7))"
proof -
  have "consistent (\<lambda>f. if f = 1 then 2 else 1) example_term" by (simp add: example_term_def)
  then show ?thesis
    using kbo_versions_agree [of example_bank "params default_config None" 3 example_term 1 "Var 7"
        "\<lambda>f. if f = 1 then 2 else 1" False] example_bank_ok example_ids
    by (simp add: bank_ok_def nodes_ok_wf params_def)
qed

text \<open>
  With them the versions differ: \<open>g(f(a, b))\<close> and \<open>g(f(b, a))\<close>, for an associative and commutative
  \<open>f\<close>, are equal on identifiers and incomparable as owned terms.
\<close>

definition ac_pair :: "Term \<times> Term" where
  "ac_pair = (App 2 [App 1 [App 3 [], App 4 []]], App 2 [App 1 [App 4 [], App 3 []]])"

definition ac_pair_ids :: "TermId \<times> TermId \<times> TermBank" where
  "ac_pair_ids = (let (i, b) = from_legacy (fst ac_pair) new_bank; (j, b) = from_legacy (snd ac_pair) b in (i, j, b))"

lemma ac_pair_ids_eq: "fst ac_pair_ids = 3 \<and> fst (snd ac_pair_ids) = 5 \<and>
    nodes (snd (snd ac_pair_ids)) = [NApp 3 [], NApp 4 [], NApp 1 [0, 1], NApp 2 [2], NApp 1 [1, 0], NApp 2 [4]]"
  by (simp add: ac_pair_ids_def ac_pair_def new_bank_def intern_app_def Let_def split_def)

text \<open>
  Below another symbol, terms that are equal modulo an associative and commutative symbol are
  equal for \<open>compare_id\<close> and incomparable for \<open>compare\<close>.
\<close>

theorem kbo_versions_differ:
  "let kbo = params default_config (Some {1}); (i, j, b) = ac_pair_ids in
     kbo_compare_id False kbo b i j = Some Equal \<and>
     kbo_compare False kbo (fst ac_pair) (snd ac_pair) = Incomparable"
proof -
  obtain b where b: "ac_pair_ids = (3, 5, b)"
    and n: "nodes b = [NApp 3 [], NApp 4 [], NApp 1 [0, 1], NApp 2 [2], NApp 1 [1, 0], NApp 2 [4]]"
    using ac_pair_ids_eq by (metis prod.collapse)
  define kbo where "kbo = params default_config (Some {1})"
  have at: "node_at b 0 = Some (NApp 3 [])" "node_at b 1 = Some (NApp 4 [])" "node_at b 2 = Some (NApp 1 [0, 1])"
    "node_at b 3 = Some (NApp 2 [2])" "node_at b 4 = Some (NApp 1 [1, 0])" "node_at b 5 = Some (NApp 2 [4])"
    by (simp_all add: node_at_def n)
  then have t: "to_legacy b 2 = Some (App 1 [App 3 [], App 4 []])" "to_legacy b 4 = Some (App 1 [App 4 [], App 3 []])"
    "to_legacy b 3 = Some (fst ac_pair)" "to_legacy b 5 = Some (snd ac_pair)"
    by (simp_all add: to_legacy_node ac_pair_def)
  note exact = t [THEN kbo_weight_id_exact] t [THEN var_counts_id_exact]
  have cfg: "config kbo = \<lparr>precedence = [], weights = [], w0 = 1\<rparr>" "ac_symbols kbo = Some {1}"
    by (simp_all add: kbo_def params_def default_config_def)
  have flats: "flat_args_id b 1 [2] [] = Some [1, 0]" "flat_args_id b 1 [4] [] = Some [0, 1]"
    by (subst flat_args_id.simps, simp add: at)+
  have none: "cancel (=) [1, 0 :: TermId] [0, 1] 0 = ([], [])"
    by (subst cancel.simps, simp add: swap_remove_def)+
  have owned_none: "cancel (=) [App 4 [], App 3 []] [App 3 [], App 4 []] 0 = ([], [])"
    by (subst cancel.simps, simp add: swap_remove_def)+
  have inner: "kbo_compare_id False kbo b 2 4 = Some Equal"
    by (subst kbo_compare_id.simps)
      (simp add: exact at cfg flats none multiset_compareM_def Let_def ac_pair_def symbol_weight_def)
  have id: "kbo_compare_id False kbo b 3 5 = Some Equal"
    by (subst kbo_compare_id.simps)
      (simp add: exact at cfg inner Let_def ac_pair_def symbol_weight_def)
  have owned: "kbo_compare False kbo (fst ac_pair) (snd ac_pair) = Incomparable"
  proof -
    have "same_weight kbo x y (App 1 [App 3 [], App 4 []]) (App 1 [App 4 [], App 3 []]) = Equal" for x y
      by (simp add: same_weight_def cfg owned_none multiset_compare_def)
    then have inner: "kbo_compare False kbo (App 1 [App 3 [], App 4 []]) (App 1 [App 4 [], App 3 []]) = Equal"
      by (simp add: kbo_compare_steps by_weight_def cfg symbol_weight_def Let_def)
    then have "same_weight kbo x y (fst ac_pair) (snd ac_pair) = Incomparable" for x y
      by (simp add: same_weight_def cfg ac_pair_def)
    then show ?thesis by (simp add: kbo_compare_steps by_weight_def cfg symbol_weight_def Let_def ac_pair_def)
  qed
  show ?thesis unfolding b using id owned by (simp add: kbo_def)
qed

end
