(* ===== verification/LitSelect.thy ===== *)
theory LitSelect
  imports Rename LpoExact
begin

text \<open>
  Literal selection, \<open>crates/mrs-calculus/src/literal_selection.rs\<close>: the literals of a clause that take
  part in inferences, on owned clauses and on identifiers, and the restriction to literals that are
  maximal in the term ordering.
\<close>

section \<open>Weights\<close>

datatype LiteralSelection = All | AllNegative | MaxNegative | MaxNegativeOrMaxPositive

text \<open>Sums of \<open>u32\<close> wrap.\<close>

fun term_weight :: "Term \<Rightarrow> u32" where
  "term_weight (Var v) = 1"
| "term_weight (App f args) = 1 + sum_list (map term_weight args)"

definition literal_weight :: "Literal \<Rightarrow> u32" where
  "literal_weight l = (case atom l of
     Pred p args \<Rightarrow> 1 + sum_list (map term_weight args)
   | Eq s t \<Rightarrow> term_weight s + term_weight t)"

partial_function (option) id_term_weight :: "TermBank \<Rightarrow> TermId \<Rightarrow> u32 option" where
  "id_term_weight bank i = do {
     node \<leftarrow> node_at bank i;
     case node of
       NVar v \<Rightarrow> Some 1
     | NApp f args \<Rightarrow> do { ws \<leftarrow> mapM (id_term_weight bank) args; Some (1 + sum_list ws) } }"

definition id_literal_weight :: "TermBank \<Rightarrow> IdLiteral \<Rightarrow> u32 option" where
  "id_literal_weight bank l = (case id_atom l of
     IdPred p args \<Rightarrow> do { ws \<leftarrow> mapM (id_term_weight bank) args; Some (1 + sum_list ws) }
   | IdEq s t \<Rightarrow> do { a \<leftarrow> id_term_weight bank s; b \<leftarrow> id_term_weight bank t; Some (a + b) })"

section \<open>Selection\<close>

text \<open>\<open>Iterator::max_by_key\<close>: the last of the elements with the largest key.\<close>

definition max_by_key :: "('a \<Rightarrow> 'k::linorder) \<Rightarrow> 'a list \<Rightarrow> 'a option" where
  "max_by_key key xs = fold (\<lambda>x best. case best of
     None \<Rightarrow> Some x | Some b \<Rightarrow> if key x < key b then Some b else Some x) xs None"

definition neg_indices :: "bool list \<Rightarrow> nat list" where
  "neg_indices signs = filter (\<lambda>i. \<not> signs ! i) [0..<length signs]"

text \<open>\<open>None\<close> is the \<open>unwrap\<close> of an empty maximum.\<close>

definition selected_literals :: "Clause \<Rightarrow> LiteralSelection \<Rightarrow> nat list option" where
  "selected_literals c strategy =
     (let n = length (literals c); neg = neg_indices (map positive (literals c));
          weight = (\<lambda>i. literal_weight (literals c ! i)) in
      case strategy of
        All \<Rightarrow> Some [0..<n]
      | AllNegative \<Rightarrow> Some (if neg = [] then [0..<n] else neg)
      | MaxNegative \<Rightarrow> if neg = [] then Some [0..<n] else do { best \<leftarrow> max_by_key weight neg; Some [best] }
      | MaxNegativeOrMaxPositive \<Rightarrow>
          if neg = [] then
            let max_weight = fold max (map weight [0..<n]) 0
            in Some (filter (\<lambda>i. weight i = max_weight) [0..<n])
          else do { best \<leftarrow> max_by_key weight neg; Some [best] })"

definition selected_literals_id :: "IdClause \<Rightarrow> LiteralSelection \<Rightarrow> TermBank \<Rightarrow> nat list option" where
  "selected_literals_id c strategy bank =
     (let n = length (idc_literals c); neg = neg_indices (map id_positive (idc_literals c));
          weights = mapM (\<lambda>i. id_literal_weight bank (idc_literals c ! i)) in
      case strategy of
        All \<Rightarrow> Some [0..<n]
      | AllNegative \<Rightarrow> Some (if neg = [] then [0..<n] else neg)
      | MaxNegative \<Rightarrow> if neg = [] then Some [0..<n]
          else do { ws \<leftarrow> weights neg; best \<leftarrow> max_by_key snd (zip neg ws); Some [fst best] }
      | MaxNegativeOrMaxPositive \<Rightarrow>
          if neg = [] then do {
            ws \<leftarrow> weights [0..<n];
            let max_w = fold max ws 0;
            Some (map fst (filter (\<lambda>p. snd p = max_w) (zip [0..<n] ws))) }
          else do { ws \<leftarrow> weights neg; best \<leftarrow> max_by_key snd (zip neg ws); Some [fst best] })"

section \<open>Restriction to maximal literals\<close>

text \<open>\<open>Iterator::any\<close> with a test that uses up the budget of the ordering; it stops at the first hit.\<close>

fun any_m :: "('a \<Rightarrow> 's \<Rightarrow> (bool \<times> 's) option) \<Rightarrow> 'a list \<Rightarrow> 's \<Rightarrow> (bool \<times> 's) option" where
  "any_m P [] s = Some (False, s)"
| "any_m P (x # xs) s = do { (r, s) \<leftarrow> P x s; if r then Some (True, s) else any_m P xs s }"

fun filter_m :: "('a \<Rightarrow> 's \<Rightarrow> (bool \<times> 's) option) \<Rightarrow> 'a list \<Rightarrow> 's \<Rightarrow> ('a list \<times> 's) option" where
  "filter_m P [] s = Some ([], s)"
| "filter_m P (x # xs) s = do { (r, s) \<leftarrow> P x s; (ys, s) \<leftarrow> filter_m P xs s; Some (if r then x # ys else ys, s) }"

definition is_positive_predicate :: "IdLiteral \<Rightarrow> bool" where
  "is_positive_predicate l \<longleftrightarrow> id_positive l \<and> (case id_atom l of IdPred p args \<Rightarrow> True | IdEq s t \<Rightarrow> False)"

definition intern_atom :: "IdLiteral \<Rightarrow> TermBank \<Rightarrow> (TermId \<times> TermBank) option" where
  "intern_atom l bank = (case id_atom l of IdPred p args \<Rightarrow> Some (intern_app p args bank) | IdEq s t \<Rightarrow> None)"

definition restrict_to_maximal_id :: "IdClause \<Rightarrow> nat list \<Rightarrow> TermOrdering \<Rightarrow> TermBank \<Rightarrow> LpoBudget
    \<Rightarrow> (nat list \<times> TermBank \<times> LpoBudget) option" where
  "restrict_to_maximal_id c base ord bank lpo =
     (let n = length (idc_literals c) in
      if n \<le> 1 then Some (base, bank, lpo)
      else if \<not> list_all is_positive_predicate (idc_literals c) then Some (base, bank, lpo)
      else do {
        (atoms, bank) \<leftarrow> mapM_st intern_atom (idc_literals c) bank;
        (maximal, lpo) \<leftarrow> filter_m (\<lambda>i lpo. do {
          (beaten, lpo) \<leftarrow> any_m (\<lambda>j lpo.
            if j = i then Some (False, lpo)
            else do {
              (r, lpo) \<leftarrow> compare_id ord bank (atoms ! j) (atoms ! i) lpo;
              Some (r = Greater, lpo) }) [0..<n] lpo;
          Some (\<not> beaten, lpo) }) [0..<n] lpo;
        Some (if maximal = [] then base else maximal, bank, lpo) })"

section \<open>The heaviest literal\<close>

lemma max_by_key_snoc:
  "max_by_key key (xs @ [x]) = (case max_by_key key xs of None \<Rightarrow> Some x | Some b \<Rightarrow> if key x < key b then Some b else Some x)"
  by (simp add: max_by_key_def)

lemma max_by_key_spec:
  "xs \<noteq> [] \<Longrightarrow> sorted_wrt (<) xs \<Longrightarrow> \<exists>m. max_by_key key xs = Some m \<and> m \<in> set xs \<and>
     (\<forall>x \<in> set xs. key x \<le> key m \<and> (key x = key m \<longrightarrow> x \<le> m))" for xs :: "nat list"
proof (induction xs rule: rev_induct)
  case (snoc x xs)
  show ?case
  proof (cases "xs = []")
    case True
    then show ?thesis by (simp add: max_by_key_def)
  next
    case False
    then obtain m where m: "max_by_key key xs = Some m" "m \<in> set xs"
      "\<forall>y \<in> set xs. key y \<le> key m \<and> (key y = key m \<longrightarrow> y \<le> m)"
      using snoc.IH snoc.prems(2) by (auto simp: sorted_wrt_append)
    have less: "\<forall>y \<in> set xs. y < x" using snoc.prems(2) by (auto simp: sorted_wrt_append)
    show ?thesis
    proof (cases "key x < key m")
      case True
      then show ?thesis using m by (auto simp: max_by_key_snoc)
    next
      case False
      then have "\<forall>y \<in> set xs. key y \<le> key x" using m(3) by force
      then show ?thesis using False m(1) less by (auto simp: max_by_key_snoc less_imp_le)
    qed
  qed
qed simp

lemma max_by_key_zip:
  "max_by_key snd (zip is (map w is)) = map_option (\<lambda>i. (i, w i)) (max_by_key w is)"
proof (induction "is" rule: rev_induct)
  case (snoc i "is")
  then show ?case by (auto simp: max_by_key_snoc split: option.split)
qed (simp add: max_by_key_def)

lemma fold_max: "fold max ws a = Max (set (a # ws))" for ws :: "'a::linorder list"
  by (rule Max.set_eq_fold [symmetric])

lemma neg_indices_props:
  "sorted_wrt (<) (neg_indices signs)" "set (neg_indices signs) = {i. i < length signs \<and> \<not> signs ! i}"
  by (auto simp: neg_indices_def sorted_wrt_filter)

lemma heaviest_exists:
  assumes "n \<noteq> 0"
  shows "filter (\<lambda>i. weight i = fold max (map weight [0..<n]) (0 :: u32)) [0..<n] \<noteq> []"
proof -
  let ?m = "fold max (map weight [0..<n]) 0"
  have m: "?m = Max (set (0 # map weight [0..<n]))" by (rule fold_max)
  have "?m \<in> set (0 # map weight [0..<n])" unfolding m by (rule Max_in) simp_all
  then have "?m = 0 \<or> ?m \<in> weight ` {0..<n}" by (simp only: set_map set_upt list.set insert_iff)
  moreover have "weight 0 \<le> ?m" unfolding m using assms by (intro Max_ge) auto
  then have "?m = 0 \<Longrightarrow> weight 0 = ?m" by (simp only: word_le_0_iff)
  ultimately obtain i where "i < n" "weight i = ?m" using assms by fastforce
  then have "i \<in> set (filter (\<lambda>i. weight i = ?m) [0..<n])" by (simp only: set_filter set_upt mem_Collect_eq atLeastLessThan_iff) simp
  then show ?thesis by force
qed

section \<open>The versions agree\<close>

lemma id_term_weight_eq: "to_legacy b i = Some t \<Longrightarrow> id_term_weight b i = Some (term_weight t)"
proof (induction t arbitrary: i)
  case (Var v)
  then show ?case by (subst id_term_weight.simps) (simp add: to_legacy_Var)
next
  case (App f ts)
  then obtain args where args: "node_at b i = Some (NApp f args)" "mapM (to_legacy b) args = Some ts"
    by (auto simp: to_legacy_App)
  have "mapM (id_term_weight b) args = Some (map term_weight ts)"
    using args(2) App.IH by (auto simp: mapM_Some_iff)
  then show ?case by (subst id_term_weight.simps) (simp add: args(1))
qed

lemma id_literal_weight_eq:
  assumes "literal_to_legacy b l = Some L"
  shows "id_literal_weight b l = Some (literal_weight L)"
proof -
  have "atom_to_legacy b (id_atom l) = Some (atom L)" using assms by (simp add: literal_to_legacy_iff)
  then show ?thesis
  proof (cases rule: atom_to_legacy_cases)
    case (1 p args ts)
    have "mapM (id_term_weight b) args = Some (map term_weight ts)"
      using 1(3) id_term_weight_eq by (auto simp: mapM_Some_iff)
    then show ?thesis using 1(1,2) by (simp add: id_literal_weight_def literal_weight_def)
  next
    case (2 l r t u)
    then show ?thesis using id_term_weight_eq by (simp add: id_literal_weight_def literal_weight_def)
  qed
qed

section \<open>Properties\<close>

text \<open>The last of the heaviest negative literals.\<close>

definition heaviest_negative :: "Clause \<Rightarrow> nat \<Rightarrow> bool" where
  "heaviest_negative c i \<longleftrightarrow> \<not> positive (literals c ! i) \<and>
     (\<forall>j < length (literals c). \<not> positive (literals c ! j) \<longrightarrow>
        literal_weight (literals c ! j) \<le> literal_weight (literals c ! i) \<and>
        (literal_weight (literals c ! j) = literal_weight (literals c ! i) \<longrightarrow> j \<le> i))"

lemma heaviest_filter:
  fixes weight :: "nat \<Rightarrow> u32"
  shows "set (filter (\<lambda>i. weight i = fold max (map weight [0..<n]) 0) [0..<n]) = {i. i < n \<and> (\<forall>j < n. weight j \<le> weight i)}"
proof -
  let ?m = "fold max (map weight [0..<n]) 0"
  have m: "?m = Max (set (0 # map weight [0..<n]))" by (rule fold_max)
  have upper: "weight j \<le> ?m" if "j < n" for j unfolding m using that by (intro Max_ge) auto
  have "weight i = ?m \<longleftrightarrow> (\<forall>j < n. weight j \<le> weight i)" if i: "i < n" for i
  proof
    assume "\<forall>j < n. weight j \<le> weight i"
    then have "?m \<le> weight i" unfolding m by (intro Max.boundedI) auto
    then show "weight i = ?m" using upper [OF i] by (rule order_antisym [rotated])
  qed (use upper in simp)
  then show ?thesis unfolding set_filter set_upt by (intro Collect_cong) (simp only: atLeastLessThan_iff le0 simp_thms cong: conj_cong)
qed

text \<open>
  C32. Selection always returns the indices of the eligible literals, in ascending order. \<open>All\<close> selects every
  literal. When a literal is negative, \<open>AllNegative\<close> selects the negative literals and the other two
  strategies select the last of the heaviest negative ones only. When no literal is negative,
  \<open>AllNegative\<close> and \<open>MaxNegative\<close> select every literal, and \<open>MaxNegativeOrMaxPositive\<close> selects all
  literals of the largest weight, not one of them as its documentation says. Only the empty clause
  has an empty selection.
\<close>

theorem selection_correct:
  "\<exists>sel. selected_literals c strategy = Some sel \<and> sorted_wrt (<) sel \<and> (sel = [] \<longleftrightarrow> literals c = []) \<and>
    set sel = {i. i < length (literals c) \<and>
      (if \<exists>l \<in> set (literals c). \<not> positive l
       then (case strategy of
           All \<Rightarrow> True
         | AllNegative \<Rightarrow> \<not> positive (literals c ! i)
         | MaxNegative \<Rightarrow> heaviest_negative c i
         | MaxNegativeOrMaxPositive \<Rightarrow> heaviest_negative c i)
       else strategy = MaxNegativeOrMaxPositive \<longrightarrow>
         (\<forall>j < length (literals c). literal_weight (literals c ! j) \<le> literal_weight (literals c ! i)))}"
proof -
  let ?n = "length (literals c)" and ?neg = "neg_indices (map positive (literals c))"
    and ?w = "\<lambda>i. literal_weight (literals c ! i)"
  have neg: "set ?neg = {i. i < ?n \<and> \<not> positive (literals c ! i)}" "sorted_wrt (<) ?neg"
    by (simp_all add: neg_indices_props cong: conj_cong)
  show ?thesis
  proof (cases "?neg = []")
    case True
    then have pos: "\<not> (\<exists>l \<in> set (literals c). \<not> positive l)" using neg(1) by (auto simp: in_set_conv_nth)
    show ?thesis
    proof (cases "strategy = MaxNegativeOrMaxPositive")
      case max: True
      let ?sel = "filter (\<lambda>i. ?w i = fold max (map ?w [0..<?n]) 0) [0..<?n]"
      have "set ?sel = {i. i < ?n \<and> (\<forall>j < ?n. ?w j \<le> ?w i)}" by (rule heaviest_filter)
      moreover have "?sel = [] \<longleftrightarrow> literals c = []" using heaviest_exists [of ?n ?w] by auto
      moreover have "selected_literals c strategy = Some ?sel" using max True by (simp add: selected_literals_def Let_def)
      moreover have "sorted_wrt (<) ?sel" by (rule sorted_wrt_filter) simp
      ultimately show ?thesis using pos max by (intro exI [of _ ?sel]) (simp only: if_False simp_thms)
    next
      case False
      then have "selected_literals c strategy = Some [0..<?n]"
        using True by (cases strategy) (simp_all add: selected_literals_def Let_def)
      then show ?thesis using False pos by (intro exI [of _ "[0..<?n]"]) (auto simp: atLeast0LessThan)
    qed
  next
    case False
    then obtain k where k: "k < ?n" "\<not> positive (literals c ! k)" using neg(1) by (metis (mono_tags, lifting) equals0I mem_Collect_eq set_empty)
    then have ex: "\<exists>l \<in> set (literals c). \<not> positive l" using nth_mem by blast
    obtain m where m: "max_by_key ?w ?neg = Some m" "m \<in> set ?neg"
      "\<forall>x \<in> set ?neg. ?w x \<le> ?w m \<and> (?w x = ?w m \<longrightarrow> x \<le> m)"
      using max_by_key_spec [OF False neg(2), of ?w] by blast
    have "heaviest_negative c m" "m < ?n" using m(2,3) neg(1) by (simp_all add: heaviest_negative_def)
    moreover have "i = m" if "i < ?n" "heaviest_negative c i" for i
      using that m(2,3) neg(1) unfolding heaviest_negative_def by (simp add: order_antisym)
    ultimately have one: "{i. i < ?n \<and> heaviest_negative c i} = {m}" by blast
    show ?thesis
    proof (cases strategy)
      case MaxNegative
      then have "selected_literals c strategy = Some [m]" using False m(1) by (simp add: selected_literals_def Let_def)
      then show ?thesis unfolding if_P [OF ex] using MaxNegative k(1) by (intro exI [of _ "[m]"]) (auto simp: one)
    next
      case MaxNegativeOrMaxPositive
      then have "selected_literals c strategy = Some [m]" using False m(1) by (simp add: selected_literals_def Let_def)
      then show ?thesis unfolding if_P [OF ex] using MaxNegativeOrMaxPositive k(1) by (intro exI [of _ "[m]"]) (auto simp: one)
    next
      case All
      then show ?thesis unfolding if_P [OF ex] by (intro exI [of _ "[0..<?n]"]) (auto simp: selected_literals_def Let_def)
    next
      case AllNegative
      then have "selected_literals c strategy = Some ?neg" using False by (simp add: selected_literals_def Let_def)
      moreover have "literals c \<noteq> []" using k(1) by auto
      ultimately show ?thesis unfolding if_P [OF ex] by (intro exI [of _ ?neg]) (simp add: AllNegative False neg)
    qed
  qed
qed

text \<open>
  Selection on identifiers returns on every clause that can be read, and selects the literals that
  selection on owned clauses selects.
\<close>

theorem selected_literals_id_refines:
  assumes "lits_of b (idc_literals c) = Some (literals c')"
  shows "selected_literals_id c strategy b = selected_literals c' strategy"
proof -
  let ?n = "length (literals c')" and ?w = "\<lambda>i. literal_weight (literals c' ! i)"
  have len: "length (idc_literals c) = ?n" and nth: "\<And>i. i < ?n \<Longrightarrow> literal_to_legacy b (idc_literals c ! i) = Some (literals c' ! i)"
    using assms by (simp_all add: mapM_Some_iff)
  have signs: "map id_positive (idc_literals c) = map positive (literals c')"
    using len nth by (auto simp: list_eq_iff_nth_eq literal_to_legacy_iff)
  have weights: "mapM (\<lambda>i. id_literal_weight b (idc_literals c ! i)) is = Some (map ?w is)" if "set is \<subseteq> {..<?n}" for "is"
    using that nth id_literal_weight_eq by (intro mapM_map) auto
  have neg: "set (neg_indices (map positive (literals c'))) \<subseteq> {..<?n}" by (auto simp: neg_indices_props)
  have zip_filter: "map fst (filter (\<lambda>p. snd p = m) (zip is (map ?w is))) = filter (\<lambda>i. ?w i = m) is" for m "is"
    by (induction "is") auto
  have best: "(do { best \<leftarrow> map_option (\<lambda>i. (i, ?w i)) x; Some [fst best] }) = (do { best \<leftarrow> x; Some [best] })" for x
    by (cases x) simp_all
  show ?thesis
    by (cases strategy) (simp_all add: selected_literals_id_def selected_literals_def Let_def len signs weights [OF neg]
      weights [of "[0..<?n]"] max_by_key_zip zip_filter best atLeast0LessThan)
qed

section \<open>Maximal literals\<close>

definition atom_term :: "Literal \<Rightarrow> Term" where
  "atom_term l = (case atom l of Pred p args \<Rightarrow> App p args | Eq s t \<Rightarrow> Var 0)"

lemma any_m_total: "(\<And>x s. x \<in> set xs \<Longrightarrow> \<exists>r s'. P x s = Some (r, s')) \<Longrightarrow> \<exists>r s'. any_m P xs s = Some (r, s')"
proof (induction xs arbitrary: s)
  case (Cons x xs)
  obtain r s' where "P x s = Some (r, s')" using Cons.prems [of x s] by auto
  then show ?case using Cons.IH [of s'] Cons.prems by (cases r) auto
qed auto

lemma filter_m_total:
  "(\<And>x s. x \<in> set xs \<Longrightarrow> \<exists>r s'. P x s = Some (r, s')) \<Longrightarrow>
    \<exists>ys s'. filter_m P xs s = Some (ys, s') \<and> set ys \<subseteq> set xs \<and> (sorted_wrt (<) xs \<longrightarrow> sorted_wrt (<) ys)"
  for xs :: "nat list"
proof (induction xs arbitrary: s)
  case (Cons x xs)
  obtain r s1 where 1: "P x s = Some (r, s1)" using Cons.prems [of x s] by auto
  obtain ys s2 where 2: "filter_m P xs s1 = Some (ys, s2)" "set ys \<subseteq> set xs" "sorted_wrt (<) xs \<longrightarrow> sorted_wrt (<) ys"
    using Cons.IH [of s1] Cons.prems by auto
  then show ?case using 1 by (cases r) auto
qed simp

text \<open>Tests that use up no budget.\<close>

lemma any_m_pure: "(\<And>x. x \<in> set xs \<Longrightarrow> P x s = Some (p x, s)) \<Longrightarrow> any_m P xs s = Some (\<exists>x \<in> set xs. p x, s)"
  by (induction xs) auto

lemma filter_m_pure: "(\<And>x. x \<in> set xs \<Longrightarrow> P x s = Some (p x, s)) \<Longrightarrow> filter_m P xs s = Some (filter p xs, s)"
  by (induction xs) auto

lemma intern_atoms:
  "sane b \<Longrightarrow> lits_of b ls = Some Ls \<Longrightarrow> list_all is_positive_predicate ls \<Longrightarrow>
    \<exists>is b'. mapM_st intern_atom ls b = Some (is, b') \<and> becomes b b' \<and> list_all2 (den b') is (map atom_term Ls)"
proof (induction ls arbitrary: b Ls)
  case Nil
  then show ?case by (auto simp: becomes_refl)
next
  case (Cons l ls)
  obtain L Ks where Ls: "Ls = L # Ks" "literal_to_legacy b l = Some L" "lits_of b ls = Some Ks"
    using Cons.prems(2) by (auto simp: bind_eq_Some_conv)
  obtain p args where l: "id_atom l = IdPred p args"
    using Cons.prems(3) by (auto simp: is_positive_predicate_def split: IdAtom.splits)
  then obtain ts where ts: "mapM (to_legacy b) args = Some ts" "atom L = Pred p ts"
    using Ls(2) by (auto simp: literal_to_legacy_iff bind_eq_Some_conv)
  obtain i b1 where i: "intern_app p args b = (i, b1)" by fastforce
  have b1: "becomes b b1" "den b1 i (App p ts)"
    using intern_app_becomes [OF Cons.prems(1) all_meansI [where d = to_legacy, OF ts(1)] i] by blast+
  have "lits_of b1 ls = Some Ks" by (rule persistent_mapM [OF persistent_literal becomes_extends [OF b1(1)] Ls(3)])
  then obtain "is" b2 where "mapM_st intern_atom ls b1 = Some (is, b2)" "becomes b1 b2" "list_all2 (den b2) is (map atom_term Ks)"
    using Cons.IH [OF becomes_sane [OF b1(1)]] Cons.prems(3) by auto
  moreover have "intern_atom l b = Some (i, b1)" "atom_term L = App p ts"
    using i l ts(2) by (simp_all add: intern_atom_def atom_term_def)
  ultimately show ?case using Ls(1) b1 becomes_trans [OF b1(1)] den_becomes [of b1 b2 i "App p ts"] by auto
qed

lemma all_positive_predicates:
  assumes "lits_of b ls = Some Ls"
  shows "list_all is_positive_predicate ls \<longleftrightarrow> (\<forall>L \<in> set Ls. positive L \<and> (\<exists>p args. atom L = Pred p args))"
proof -
  have "is_positive_predicate l \<longleftrightarrow> positive L \<and> (\<exists>p args. atom L = Pred p args)" if "literal_to_legacy b l = Some L" for l L
  proof -
    have "id_positive l = positive L" "atom_to_legacy b (id_atom l) = Some (atom L)" using that by (simp_all add: literal_to_legacy_iff)
    from this(2) show ?thesis using \<open>id_positive l = positive L\<close>
      by (cases rule: atom_to_legacy_cases) (auto simp: is_positive_predicate_def)
  qed
  then have "\<forall>i < length Ls. is_positive_predicate (ls ! i) \<longleftrightarrow> positive (Ls ! i) \<and> (\<exists>p args. atom (Ls ! i) = Pred p args)"
    using assms by (simp add: mapM_Some_iff)
  moreover have "length ls = length Ls" using assms by (simp add: mapM_Some_iff)
  ultimately show ?thesis by (simp add: list_all_length all_set_conv_all_nth)
qed

definition kbo_of :: "TermOrdering \<Rightarrow> OrderParams option" where
  "kbo_of ord = (case ord of KBO \<Rightarrow> Some (params default_config None) | CustomKBO cfg \<Rightarrow> Some (params cfg None) | _ \<Rightarrow> None)"

text \<open>
  C33. \<open>restrict_to_maximal_id\<close> always returns. It gives the selection back unchanged for a clause with at most
  one literal, a negative one or an equation; otherwise it selects, in ascending order, literals of
  the clause, and at least one unless the given selection is returned. With a Knuth-Bendix ordering
  without associative and commutative symbols it selects exactly the literals whose atom is below
  no other atom, whatever the given selection was, while the bank is not full and every symbol has
  one number of arguments.
\<close>

theorem restrict_to_maximal_correct:
  assumes "sane bank" "lits_of bank (idc_literals c) = Some Ls"
  shows "\<exists>sel bank' lpo'. restrict_to_maximal_id c base ord bank lpo = Some (sel, bank', lpo') \<and> becomes bank bank' \<and>
    (if length Ls \<le> 1 \<or> (\<exists>L \<in> set Ls. \<not> positive L \<or> (\<exists>s t. atom L = Eq s t)) then sel = base
     else (sel = base \<or> sel \<noteq> [] \<and> sorted_wrt (<) sel \<and> set sel \<subseteq> {..<length Ls}) \<and>
       (\<forall>kbo ar. kbo_of ord = Some kbo \<longrightarrow> intact bank' \<longrightarrow> (\<forall>L \<in> set Ls. consistent ar (atom_term L)) \<longrightarrow>
         (let maximal = filter (\<lambda>i. \<forall>j < length Ls. j \<noteq> i \<longrightarrow>
            kbo_compare (lpo_expired lpo) kbo (atom_term (Ls ! j)) (atom_term (Ls ! i)) \<noteq> Greater) [0..<length Ls]
          in sel = (if maximal = [] then base else maximal))))"
proof -
  let ?n = "length Ls"
  have len: "length (idc_literals c) = ?n" using assms(2) by (simp add: mapM_Some_iff)
  have shape: "list_all is_positive_predicate (idc_literals c) \<longleftrightarrow> \<not> (\<exists>L \<in> set Ls. \<not> positive L \<or> (\<exists>s t. atom L = Eq s t))"
    unfolding all_positive_predicates [OF assms(2)] by (metis Atom.exhaust Atom.distinct(1))
  show ?thesis
  proof (cases "length Ls \<le> 1 \<or> (\<exists>L \<in> set Ls. \<not> positive L \<or> (\<exists>s t. atom L = Eq s t))")
    case True
    then have "restrict_to_maximal_id c base ord bank lpo = Some (base, bank, lpo)"
      using shape len by (auto simp: restrict_to_maximal_id_def Let_def)
    then show ?thesis using True becomes_refl [OF assms(1)] by simp
  next
    case False
    then have pos: "list_all is_positive_predicate (idc_literals c)" using shape by blast
    obtain atoms b where atoms: "mapM_st intern_atom (idc_literals c) bank = Some (atoms, b)" "becomes bank b"
      "list_all2 (den b) atoms (map atom_term Ls)"
      using intern_atoms [OF assms pos] by blast
    define P where "P = (\<lambda>i lpo. do {
      (beaten, lpo) \<leftarrow> any_m (\<lambda>j lpo.
        if j = i then Some (False, lpo)
        else do { (r, lpo) \<leftarrow> compare_id ord b (atoms ! j) (atoms ! i) lpo; Some (r = Greater, lpo) }) [0..<?n] lpo;
      Some (\<not> beaten, lpo) })"
    have restrict: "restrict_to_maximal_id c base ord bank lpo = do {
        (maximal, lpo) \<leftarrow> filter_m P [0..<?n] lpo;
        Some (if maximal = [] then base else maximal, b, lpo) }"
      using False pos len atoms(1) by (auto simp: restrict_to_maximal_id_def Let_def P_def)
    have den: "den b (atoms ! i) (atom_term (Ls ! i))" if "i < ?n" for i
      using list_all2_nthD2 [OF atoms(3), of i] that by simp
    have "\<exists>r s'. P i s = Some (r, s')" if "i \<in> set [0..<?n]" for i s
    proof -
      have "\<exists>r s'. (if j = i then Some (False, s)
          else do { (r, lpo) \<leftarrow> compare_id ord b (atoms ! j) (atoms ! i) s; Some (r = Greater, lpo) }) = Some (r, s')"
        if "j \<in> set [0..<?n]" for j s
      proof -
        have "is_id b (atoms ! j)" "is_id b (atoms ! i)" using den that \<open>i \<in> set [0..<?n]\<close> by (auto simp: means_def is_id_def)
        then obtain r s' where "compare_id ord b (atoms ! j) (atoms ! i) s = Some (r, s')"
          by (rule compare_id_total [OF sane_wf [OF becomes_sane [OF atoms(2)]]])
        then show ?thesis by (cases "j = i") auto
      qed
      then have "\<exists>r s'. any_m (\<lambda>j lpo.
          if j = i then Some (False, lpo)
          else do { (r, lpo) \<leftarrow> compare_id ord b (atoms ! j) (atoms ! i) lpo; Some (r = Greater, lpo) }) [0..<?n] s = Some (r, s')"
        by (rule any_m_total)
      then show ?thesis by (auto simp: P_def)
    qed
    then have "\<exists>ys s'. filter_m P [0..<?n] lpo = Some (ys, s') \<and> set ys \<subseteq> set [0..<?n] \<and>
        (sorted_wrt (<) [0..<?n] \<longrightarrow> sorted_wrt (<) ys)"
      by (rule filter_m_total)
    then obtain sel lpo' where
      sel: "filter_m P [0..<?n] lpo = Some (sel, lpo')" "set sel \<subseteq> {..<?n}" "sorted_wrt (<) sel"
      by (auto simp: atLeast0LessThan)
    have exact: "sel = filter (\<lambda>i. \<forall>j < ?n. j \<noteq> i \<longrightarrow>
        kbo_compare (lpo_expired lpo) kbo (atom_term (Ls ! j)) (atom_term (Ls ! i)) \<noteq> Greater) [0..<?n]"
      if kbo: "kbo_of ord = Some kbo" and full: "intact b" and ar: "\<forall>L \<in> set Ls. consistent ar (atom_term L)" for kbo ar
    proof -
      have ac: "ac_symbols kbo = None" and ord: "compare_id ord = kbo_answer kbo"
        using kbo by (auto simp: kbo_of_def params_def split: TermOrdering.splits)
      have cmp: "compare_id ord b (atoms ! j) (atoms ! i) lpo =
          Some (kbo_compare (lpo_expired lpo) kbo (atom_term (Ls ! j)) (atom_term (Ls ! i)), lpo)" if "i < ?n" "j < ?n" for i j
      proof -
        have "to_legacy b (atoms ! i) = Some (atom_term (Ls ! i))" "to_legacy b (atoms ! j) = Some (atom_term (Ls ! j))"
          by (rule means_intact [OF den [OF that(1)] full], rule means_intact [OF den [OF that(2)] full])
        moreover have "nodes_wf b" by (rule sane_wf [OF becomes_sane [OF atoms(2)]])
        moreover have "consistent ar (atom_term (Ls ! i))" "consistent ar (atom_term (Ls ! j))" using ar that by simp_all
        ultimately have "kbo_compare_id (lpo_expired lpo) kbo b (atoms ! j) (atoms ! i) =
            Some (kbo_compare (lpo_expired lpo) kbo (atom_term (Ls ! j)) (atom_term (Ls ! i)))"
          using kbo_compare_id_exact [OF _ ac] by blast
        then show ?thesis unfolding ord by (simp add: kbo_answer_def)
      qed
      have "P i lpo = Some (\<forall>j < ?n. j \<noteq> i \<longrightarrow>
          kbo_compare (lpo_expired lpo) kbo (atom_term (Ls ! j)) (atom_term (Ls ! i)) \<noteq> Greater, lpo)"
        if i: "i \<in> set [0..<?n]" for i
      proof -
        have "any_m (\<lambda>j lpo.
            if j = i then Some (False, lpo)
            else do { (r, lpo) \<leftarrow> compare_id ord b (atoms ! j) (atoms ! i) lpo; Some (r = Greater, lpo) }) [0..<?n] lpo =
          Some (\<exists>j \<in> set [0..<?n]. j \<noteq> i \<and>
            kbo_compare (lpo_expired lpo) kbo (atom_term (Ls ! j)) (atom_term (Ls ! i)) = Greater, lpo)"
          using cmp i by (intro any_m_pure) auto
        then show ?thesis by (auto simp: P_def)
      qed
      then have "filter_m P [0..<?n] lpo = Some (filter (\<lambda>i. \<forall>j < ?n. j \<noteq> i \<longrightarrow>
          kbo_compare (lpo_expired lpo) kbo (atom_term (Ls ! j)) (atom_term (Ls ! i)) \<noteq> Greater) [0..<?n], lpo)"
        by (rule filter_m_pure)
      then show ?thesis using sel(1) by simp
    qed
    show ?thesis using False restrict sel atoms(2) exact by (auto simp: Let_def)
  qed
qed

text \<open>Two positive literals in the bank of the examples.\<close>

definition select_example :: IdClause where
  "select_example = id_new_clause 4 [\<lparr>id_positive = True, id_atom = IdPred 9 [3]\<rparr>, \<lparr>id_positive = True, id_atom = IdPred 9 [1]\<rparr>]
     (Input ''select'' ''axiom'')"

definition select_lits :: "Literal list" where
  "select_lits = [\<lparr>positive = True, atom = Pred 9 [example_term]\<rparr>, \<lparr>positive = True, atom = Pred 9 [Var 7]\<rparr>]"

lemma select_example_lits: "lits_of example_bank (idc_literals select_example) = Some select_lits"
  by (simp add: select_example_def id_new_clause_def literal_to_legacy_def example_ids select_lits_def)

text \<open>Two positive literals of the same weight: both are selected.\<close>

definition tied_clause :: Clause where
  "tied_clause = new_clause 5 [\<lparr>positive = True, atom = Pred 9 [Var 1]\<rparr>, \<lparr>positive = True, atom = Pred 8 [Var 2]\<rparr>]
     (Input ''tie'' ''axiom'')"

theorem selection_correct_witness:
  "selected_literals tied_clause MaxNegativeOrMaxPositive = Some [0, 1]"
proof -
  have n: "length (literals tied_clause) = 2" and pos: "\<not> (\<exists>l \<in> set (literals tied_clause). \<not> positive l)"
    by (simp_all add: tied_clause_def new_clause_def)
  have w: "literal_weight (literals tied_clause ! i) = 2" if "i < 2" for i
    using that by (cases i) (simp_all add: tied_clause_def new_clause_def literal_weight_def)
  obtain sel where sel: "selected_literals tied_clause MaxNegativeOrMaxPositive = Some sel" "sorted_wrt (<) sel"
    "set sel = {i. i < 2 \<and> (\<forall>j < 2. literal_weight (literals tied_clause ! j) \<le> literal_weight (literals tied_clause ! i))}"
    using selection_correct [of tied_clause MaxNegativeOrMaxPositive] unfolding if_not_P [OF pos] n by blast
  have "set sel = {0, 1}" unfolding sel(3) using w by auto
  then have "sel = [0, 1]" using sel(2) strict_sorted_equal [of "[0, 1]" sel] by simp
  then show ?thesis using sel(1) by simp
qed

theorem selected_literals_id_refines_witness:
  "selected_literals_id select_example MaxNegativeOrMaxPositive example_bank =
     selected_literals (new_clause 4 select_lits (Input ''select'' ''axiom'')) MaxNegativeOrMaxPositive"
  by (rule selected_literals_id_refines) (simp add: select_example_lits new_clause_def)

theorem restrict_to_maximal_correct_witness:
  "\<exists>sel bank' lpo'. restrict_to_maximal_id select_example [1] KBO example_bank unarmed = Some (sel, bank', lpo') \<and>
    becomes example_bank bank' \<and>
    (\<forall>kbo ar. kbo_of KBO = Some kbo \<longrightarrow> intact bank' \<longrightarrow> (\<forall>L \<in> set select_lits. consistent ar (atom_term L)) \<longrightarrow>
       (let maximal = filter (\<lambda>i. \<forall>j < length select_lits. j \<noteq> i \<longrightarrow>
          kbo_compare (lpo_expired unarmed) kbo (atom_term (select_lits ! j)) (atom_term (select_lits ! i)) \<noteq> Greater) [0..<length select_lits]
        in sel = (if maximal = [] then [1] else maximal)))"
proof -
  have "\<not> (length select_lits \<le> 1 \<or> (\<exists>L \<in> set select_lits. \<not> positive L \<or> (\<exists>s t. atom L = Eq s t)))"
    by (simp add: select_lits_def)
  with restrict_to_maximal_correct [OF bank_ok_sane [OF example_bank_ok] select_example_lits, of "[1]" KBO unarmed]
  show ?thesis by (simp only: if_False) blast
qed

end
