(* ===== verification/Matching.thy ===== *)
theory Matching
  imports Loops Unify
begin

text \<open>
  One-way matching, \<open>crates/mrs-unify/src/matching.rs\<close>: only variables of the pattern are
  bound. On owned terms and on identifiers.
\<close>

section \<open>The code\<close>

definition bound_clash :: "VarId \<Rightarrow> string \<Rightarrow> UnifyError" where
  "bound_clash v found = SymbolClash (''X'' @ show_nat (unat v) @ '' (bound)'') found"

definition variable_clash :: "SymbolId \<Rightarrow> UnifyError" where
  "variable_clash f = SymbolClash (debug_symbol f) ''variable''"

fun match_rec :: "Term \<Rightarrow> Term \<Rightarrow> Substitution \<Rightarrow> UnifyError + Substitution" where
  "match_rec (Var v) target s =
     (case lookup s v of
        Some b \<Rightarrow> if b = target then Inr s else Inl (bound_clash v (debug_term target))
      | None \<Rightarrow> Inr (bind_var_to v target s))"
| "match_rec (App f1 args1) target s =
     (case target of
        App f2 args2 \<Rightarrow>
          if f1 \<noteq> f2 then Inl (symbol_clash f1 f2)
          else if length args1 \<noteq> length args2 then Inl (ArityMismatch (length args1) (length args2))
          else try_fold (\<lambda>(a1, a2) s. match_rec a1 a2 s) (zip args1 args2) s
      | Var w \<Rightarrow> Inl (variable_clash f1))"

definition match_term :: "Term \<Rightarrow> Term \<Rightarrow> UnifyError + Substitution" where
  "match_term pattern target = match_rec pattern target new_subst"

partial_function (option) match_rec_id ::
  "TermBank \<Rightarrow> TermId \<Rightarrow> TermId \<Rightarrow> IdSubstitution \<Rightarrow> (UnifyError + IdSubstitution) option" where
  "match_rec_id bank pattern target s = do {
     np \<leftarrow> node_at bank pattern;
     case np of
       NVar v \<Rightarrow> Some (case id_get s v of
           Some b \<Rightarrow> if b = target then Inr s else Inl (bound_clash v (debug_term_id target))
         | None \<Rightarrow> Inr (id_bind v target s))
     | NApp f1 args1 \<Rightarrow> do {
         nt \<leftarrow> node_at bank target;
         case nt of
           NApp f2 args2 \<Rightarrow>
             if f1 \<noteq> f2 then Some (Inl (symbol_clash f1 f2))
             else if length args1 \<noteq> length args2
             then Some (Inl (ArityMismatch (length args1) (length args2)))
             else try_each (\<lambda>p s. match_rec_id bank (fst p) (snd p) s) (zip args1 args2) s
         | NVar w \<Rightarrow> Some (Inl (variable_clash f1)) } }"

definition match_term_id :: "TermId \<Rightarrow> TermId \<Rightarrow> TermBank \<Rightarrow> (UnifyError + IdSubstitution) option" where
  "match_term_id pattern target bank = match_rec_id bank pattern target id_new_subst"

section \<open>Matching solves its problem exactly\<close>

text \<open>
  \<open>fit s \<sigma>\<close>: the bindings collected so far are those of \<open>\<sigma>\<close>. A run turns the substitutions
  that fit into those that also solve the problem \<open>P\<close>, and never loses the last of them on
  success.
\<close>

definition matched :: "('s \<Rightarrow> (VarId \<Rightarrow> Term) \<Rightarrow> bool) \<Rightarrow> ((VarId \<Rightarrow> Term) \<Rightarrow> bool) \<Rightarrow> 's \<Rightarrow> 'e + 's \<Rightarrow> bool" where
  "matched fit P s r \<longleftrightarrow> (case r of
     Inl e \<Rightarrow> \<forall>\<sigma>. fit s \<sigma> \<longrightarrow> \<not> P \<sigma>
   | Inr s' \<Rightarrow> (\<forall>\<sigma>. fit s' \<sigma> \<longleftrightarrow> fit s \<sigma> \<and> P \<sigma>) \<and> ((\<exists>\<sigma>. fit s \<sigma>) \<longrightarrow> (\<exists>\<sigma>. fit s' \<sigma>)))"

lemma matched_Inl [simp]: "matched fit P s (Inl e) \<longleftrightarrow> (\<forall>\<sigma>. fit s \<sigma> \<longrightarrow> \<not> P \<sigma>)"
  by (simp add: matched_def)

lemma matched_Inr:
  "matched fit P s (Inr s') \<longleftrightarrow>
     (\<forall>\<sigma>. fit s' \<sigma> \<longleftrightarrow> fit s \<sigma> \<and> P \<sigma>) \<and> ((\<exists>\<sigma>. fit s \<sigma>) \<longrightarrow> (\<exists>\<sigma>. fit s' \<sigma>))"
  by (simp add: matched_def)

lemma matched_same: "(\<And>\<sigma>. fit s \<sigma> \<Longrightarrow> P \<sigma>) \<Longrightarrow> matched fit P s (Inr s)"
  by (auto simp: matched_Inr)

lemma matched_then:
  "matched fit P s (Inr s1) \<Longrightarrow> matched fit Q s1 r \<Longrightarrow> matched fit (\<lambda>\<sigma>. P \<sigma> \<and> Q \<sigma>) s r"
  by (cases r) (auto simp: matched_Inr)

text \<open>Storing a new binding.\<close>

lemma matched_bind:
  assumes "\<And>\<sigma>. fit s' \<sigma> \<longleftrightarrow> fit s \<sigma> \<and> \<sigma> v = t" "\<And>\<sigma>. fit s \<sigma> \<Longrightarrow> fit s (\<sigma>(v := t))"
  shows "matched fit (\<lambda>\<sigma>. \<sigma> v = t) s (Inr s')"
proof -
  have "\<exists>\<sigma>. fit s' \<sigma>" if "fit s \<sigma>" for \<sigma> using assms that by (intro exI [of _ "\<sigma>(v := t)"]) simp
  then show ?thesis using assms(1) by (auto simp: matched_Inr)
qed

definition fits :: "Substitution \<Rightarrow> (VarId \<Rightarrow> Term) \<Rightarrow> bool" where
  "fits s \<sigma> \<longleftrightarrow> (\<forall>v t. lookup s v = Some t \<longrightarrow> \<sigma> v = t)"

lemma fits_new [simp]: "fits new_subst \<sigma>"
  by (simp add: fits_def lookup_def new_subst_def)

lemma fits_bind: "lookup s v = None \<Longrightarrow> fits (bind_var_to v t s) \<sigma> \<longleftrightarrow> fits s \<sigma> \<and> \<sigma> v = t"
  by (auto simp: fits_def lookup_def bind_var_to_def)

lemma try_fold_matched:
  assumes "\<And>p s. p \<in> set ps \<Longrightarrow> matched fit (P p) s (f p s)"
  shows "matched fit (\<lambda>\<sigma>. \<forall>p \<in> set ps. P p \<sigma>) s (try_fold f ps s)"
  using assms
proof (induction ps arbitrary: s)
  case (Cons p ps)
  show ?case
  proof (cases "f p s")
    case (Inl e)
    then show ?thesis using Cons.prems [of p s] by simp
  next
    case (Inr s1)
    then show ?thesis
      using matched_then [of fit "P p" s s1 "\<lambda>\<sigma>. \<forall>p \<in> set ps. P p \<sigma>" "try_fold f ps s1"]
        Cons.prems [of p s] Cons.IH [of s1] Cons.prems by simp
  qed
qed (simp add: matched_same)

lemma inst_args_iff:
  "length ts = length us \<Longrightarrow>
     inst \<sigma> (App f ts) = App f us \<longleftrightarrow> (\<forall>p \<in> set (zip ts us). inst \<sigma> (fst p) = snd p)"
  by (auto simp: list_eq_iff_nth_eq set_zip)

lemma match_rec_matched: "matched fits (\<lambda>\<sigma>. inst \<sigma> p = t) s (match_rec p t s)"
proof (induction p t s rule: match_rec.induct)
  case (1 v target s)
  have "matched fits (\<lambda>\<sigma>. \<sigma> v = target) s (Inr (bind_var_to v target s))" if "lookup s v = None"
    by (rule matched_bind) (use that in \<open>auto simp: fits_bind\<close>, auto simp: fits_def)
  moreover have "matched fits (\<lambda>\<sigma>. \<sigma> v = target) s (Inr s)" if "lookup s v = Some target"
    by (rule matched_same) (use that in \<open>simp add: fits_def\<close>)
  moreover have "\<sigma> v \<noteq> target" if "lookup s v = Some b" "b \<noteq> target" "fits s \<sigma>" for b \<sigma>
    using that by (simp add: fits_def)
  ultimately show ?case by (auto split: option.split)
next
  case (2 f1 args1 target s)
  show ?case
  proof (cases target)
    case (App f2 args2)
    show ?thesis
    proof (cases "f1 = f2 \<and> length args1 = length args2")
      case True
      have "matched fits (\<lambda>\<sigma>. \<forall>p \<in> set (zip args1 args2). inst \<sigma> (fst p) = snd p) s
          (try_fold (\<lambda>(a1, a2) s. match_rec a1 a2 s) (zip args1 args2) s)"
        by (rule try_fold_matched) (use 2 True App in \<open>auto split: prod.splits\<close>)
      then show ?thesis using True App inst_args_iff [of args1 args2] by simp
    next
      case False
      then show ?thesis using App by (auto dest: map_eq_imp_length_eq)
    qed
  qed simp
qed

section \<open>Matching of identifiers\<close>

definition fits_id :: "TermBank \<Rightarrow> IdSubstitution \<Rightarrow> (VarId \<Rightarrow> Term) \<Rightarrow> bool" where
  "fits_id b s \<sigma> \<longleftrightarrow> (\<forall>v i. id_get s v = Some i \<longrightarrow> to_legacy b i = Some (\<sigma> v))"

lemma fits_id_new [simp]: "fits_id b id_new_subst \<sigma>"
  by (simp add: fits_id_def)

lemma fits_id_bind:
  "id_get s v = None \<Longrightarrow> to_legacy b i = Some t \<Longrightarrow>
     fits_id b (id_bind v i s) \<sigma> \<longleftrightarrow> fits_id b s \<sigma> \<and> \<sigma> v = t"
  by (auto simp: fits_id_def id_get_bind)

lemma try_each_matched:
  assumes "list_all2 (\<lambda>p q. \<forall>s. \<exists>r. f p s = Some r \<and> matched fit (P q) s r) ps qs"
  shows "\<exists>r. try_each f ps s = Some r \<and> matched fit (\<lambda>\<sigma>. \<forall>q \<in> set qs. P q \<sigma>) s r"
  using assms
proof (induction ps qs arbitrary: s rule: list_all2_induct)
  case (Cons p ps q qs)
  obtain r where r: "f p s = Some r" "matched fit (P q) s r" using Cons(1) by blast
  show ?case
  proof (cases r)
    case (Inl e)
    then show ?thesis using r by simp
  next
    case (Inr s1)
    obtain r1 where "try_each f ps s1 = Some r1" "matched fit (\<lambda>\<sigma>. \<forall>q \<in> set qs. P q \<sigma>) s1 r1"
      using Cons.IH by blast
    then show ?thesis using r Inr matched_then [of fit "P q" s s1] by simp
  qed
qed (simp add: matched_same)

lemma match_rec_id_matched:
  assumes ok: "nodes_wf b"
  shows "to_legacy b i = Some p \<Longrightarrow> to_legacy b j = Some t \<Longrightarrow>
    \<exists>r. match_rec_id b i j s = Some r \<and> matched (fits_id b) (\<lambda>\<sigma>. inst \<sigma> p = t) s r"
proof (induction p arbitrary: i j t s)
  case (Var v)
  show ?case
  proof (cases "id_get s v")
    case None
    then have "matched (fits_id b) (\<lambda>\<sigma>. \<sigma> v = t) s (Inr (id_bind v j s))"
      by (intro matched_bind) (use Var.prems(2) in \<open>auto simp: fits_id_bind\<close>, auto simp: fits_id_def)
    then show ?thesis using Var None by (subst match_rec_id.simps) (simp add: to_legacy_Var)
  next
    case (Some k)
    have "\<sigma> v = t \<longleftrightarrow> k = j" if "fits_id b s \<sigma>" for \<sigma>
      using that Some Var.prems(2) to_legacy_inject [OF ok, of k t j] by (auto simp: fits_id_def)
    then show ?thesis using Var Some
      by (subst match_rec_id.simps) (auto simp: to_legacy_Var intro: matched_same)
  qed
next
  case (App f ts)
  then obtain as where as: "node_at b i = Some (NApp f as)" "mapM (to_legacy b) as = Some ts"
    by (auto simp: to_legacy_App)
  show ?case
  proof (cases t)
    case (Var w)
    then show ?thesis using App.prems(2) as by (subst match_rec_id.simps) (simp add: to_legacy_Var)
  next
    case t: (App g us)
    then obtain bs where bs: "node_at b j = Some (NApp g bs)" "mapM (to_legacy b) bs = Some us"
      using App.prems(2) by (auto simp: to_legacy_App)
    have len: "length as = length ts" "length bs = length us" using as(2) bs(2) by (simp_all add: mapM_Some_iff)
    show ?thesis
    proof (cases "f = g \<and> length ts = length us")
      case False
      then have "inst \<sigma> (App f ts) \<noteq> t" for \<sigma> using t by (auto dest: map_eq_imp_length_eq)
      then show ?thesis using False as(1) bs(1) len by (subst match_rec_id.simps) auto
    next
      case True
      have "list_all2 (\<lambda>p q. \<forall>s. \<exists>r. match_rec_id b (fst p) (snd p) s = Some r \<and>
          matched (fits_id b) (\<lambda>\<sigma>. inst \<sigma> (fst q) = snd q) s r) (zip as bs) (zip ts us)"
        using App.IH as(2) bs(2) len True by (auto simp: list_all2_conv_all_nth mapM_Some_iff)
      from try_each_matched [OF this] obtain r where
        "try_each (\<lambda>p. match_rec_id b (fst p) (snd p)) (zip as bs) s = Some r"
        "matched (fits_id b) (\<lambda>\<sigma>. \<forall>q \<in> set (zip ts us). inst \<sigma> (fst q) = snd q) s r" by blast
      then show ?thesis using as(1) bs(1) len True t inst_args_iff [of ts us]
        by (subst match_rec_id.simps) simp
    qed
  qed
qed

section \<open>Properties\<close>

text \<open>
  \<open>match_term\<close> decides one-way matching: it fails exactly when no substitution maps the
  pattern to the target, and the substitutions that extend the bindings it returns are exactly
  the ones that do.
\<close>

theorem match_term_exact:
  "case match_term p t of
     Inl e \<Rightarrow> \<forall>\<sigma>. inst \<sigma> p \<noteq> t
   | Inr s \<Rightarrow> (\<forall>\<sigma>. (\<forall>v u. lookup s v = Some u \<longrightarrow> \<sigma> v = u) \<longleftrightarrow> inst \<sigma> p = t) \<and> (\<exists>\<sigma>. inst \<sigma> p = t)"
  using match_rec_matched [of p t new_subst]
  by (cases "match_rec p t new_subst") (auto simp: match_term_def matched_Inr simp flip: fits_def)

theorem match_term_exact_witness:
  "case match_term (App 1 [Var 0]) (App 1 [App 2 []]) of
     Inl e \<Rightarrow> \<forall>\<sigma>. inst \<sigma> (App 1 [Var 0]) \<noteq> App 1 [App 2 []]
   | Inr s \<Rightarrow> (\<forall>\<sigma>. (\<forall>v u. lookup s v = Some u \<longrightarrow> \<sigma> v = u) \<longleftrightarrow> inst \<sigma> (App 1 [Var 0]) = App 1 [App 2 []]) \<and>
       (\<exists>\<sigma>. inst \<sigma> (App 1 [Var 0]) = App 1 [App 2 []])"
  by (rule match_term_exact)

text \<open>
  C27. \<open>match_term_id\<close> always returns on identifiers of a well-formed bank and answers the same
  question: comparing identifiers decides consistency because the bank shares equal terms.
\<close>

theorem match_term_id_exact:
  assumes "bank_ok b" "to_legacy b i = Some p" "to_legacy b j = Some t"
  shows "\<exists>r. match_term_id i j b = Some r \<and>
    (case r of
       Inl e \<Rightarrow> \<forall>\<sigma>. inst \<sigma> p \<noteq> t
     | Inr s \<Rightarrow> (\<forall>\<sigma>. (\<forall>v k. id_get s v = Some k \<longrightarrow> to_legacy b k = Some (\<sigma> v)) \<longleftrightarrow> inst \<sigma> p = t) \<and>
         (\<exists>\<sigma>. inst \<sigma> p = t))"
proof -
  have "nodes_wf b" using assms(1) by (simp add: bank_ok_def nodes_ok_wf)
  from match_rec_id_matched [OF this assms(2,3)] obtain r where
    r: "match_term_id i j b = Some r" "matched (fits_id b) (\<lambda>\<sigma>. inst \<sigma> p = t) id_new_subst r"
    unfolding match_term_id_def by blast
  then show ?thesis by (cases r) (auto simp: matched_Inr simp flip: fits_id_def)
qed

theorem match_term_id_exact_witness:
  "\<exists>r. match_term_id 0 3 example_bank = Some r \<and>
    (case r of
       Inl e \<Rightarrow> \<forall>\<sigma>. inst \<sigma> (Var 3) \<noteq> example_term
     | Inr s \<Rightarrow> (\<forall>\<sigma>. (\<forall>v k. id_get s v = Some k \<longrightarrow> to_legacy example_bank k = Some (\<sigma> v)) \<longleftrightarrow>
           inst \<sigma> (Var 3) = example_term) \<and> (\<exists>\<sigma>. inst \<sigma> (Var 3) = example_term))"
  by (rule match_term_id_exact [OF example_bank_ok example_ids(1,3)])

end
