(* ===== verification/Demod.thy ===== *)
theory Demod
  imports STree Resolution Matching
begin

text \<open>
  Demodulation: rewriting a clause with unit equations, on identifiers,
  \<open>crates/mrs-calculus/src/demodulation.rs\<close>. The rules are values of the substitution tree: the side to
  be matched, the side to replace it with, and the unit clause they come from. The path buffer is
  passed as a value: every call leaves it as it was.
\<close>

section \<open>The memo of irreducible terms\<close>

record DemodMemo =
  memo_entries :: "(TermId, u64) fmap"
  generation :: u64
  lookups :: u64
  hits :: u64
  records :: u64
  evictions :: u64

definition MAX_MEMO_ENTRIES :: nat where
  "MAX_MEMO_ENTRIES = 400000"

definition demod_memo_new :: DemodMemo where
  "demod_memo_new = \<lparr>memo_entries = fmempty, generation = 0, lookups = 0, hits = 0, records = 0, evictions = 0\<rparr>"

definition root_key :: "TermId \<Rightarrow> TermBank \<Rightarrow> (SymbolId \<times> u8) option option" where
  "root_key i bank = do {
     node \<leftarrow> node_at bank i;
     Some (case node of NVar v \<Rightarrow> None | NApp f args \<Rightarrow> Some (f, of_nat (length args))) }"

definition is_irreducible :: "TermId \<Rightarrow> TermBank \<Rightarrow> DemodMemo \<Rightarrow> (bool \<times> DemodMemo) option" where
  "is_irreducible i bank m = do {
     key \<leftarrow> root_key i bank;
     Some (case key of
         None \<Rightarrow> (True, m)
       | Some k \<Rightarrow>
           let hit = (fmlookup (memo_entries m) i = Some (generation m));
               m = m\<lparr>lookups := lookups m + 1\<rparr>
           in (hit, if hit then m\<lparr>hits := hits m + 1\<rparr> else m)) }"

definition record_irreducible :: "TermId \<Rightarrow> TermBank \<Rightarrow> DemodMemo \<Rightarrow> DemodMemo option" where
  "record_irreducible i bank m = do {
     key \<leftarrow> root_key i bank;
     Some (case key of
         None \<Rightarrow> m
       | Some k \<Rightarrow>
           let m = (if MAX_MEMO_ENTRIES \<le> fcard (fmdom (memo_entries m))
                    then m\<lparr>memo_entries := fmempty, evictions := evictions m + 1\<rparr> else m)
           in m\<lparr>memo_entries := fmupd i (generation m) (memo_entries m), records := records m + 1\<rparr>) }"

definition invalidate :: "TermId \<Rightarrow> TermBank \<Rightarrow> DemodMemo \<Rightarrow> DemodMemo option" where
  "invalidate i bank m = do {
     key \<leftarrow> root_key i bank;
     Some (if key = None then m
       else if generation m \<noteq> - 1 then m\<lparr>generation := generation m + 1\<rparr>
       else m\<lparr>memo_entries := fmempty, generation := 0\<rparr>) }"

definition demod_stats :: "DemodMemo \<Rightarrow> u64 \<times> u64 \<times> u64 \<times> u64" where
  "demod_stats m = (lookups m, hits m, records m, evictions m)"

section \<open>Rewriting a term\<close>

type_synonym rule = "TermId \<times> TermId \<times> ClauseId"

record rules =
  target_avatar :: "u32 list"
  demod_index :: "rule STreeId"
  clause_store :: "(ClauseId, IdClause) fmap"

text \<open>What the functions change through their \<open>&mut\<close> arguments, and the clock.\<close>

record rewriting =
  rw_bank :: TermBank
  used_unit_ids :: "ClauseId list"
  rw_steps :: "DemodStepWitness list"
  rw_memo :: "DemodMemo option"
  rw_clock :: clock

abbreviation late :: "rewriting \<Rightarrow> bool" where
  "late st \<equiv> expired (rw_clock st)"

definition tick :: "rewriting \<Rightarrow> rewriting" where
  "tick st = st\<lparr>rw_clock := tl (rw_clock st)\<rparr>"

definition proof_node_id_of :: "(ClauseId, IdClause) fmap \<Rightarrow> ClauseId \<Rightarrow> ProofNodeId" where
  "proof_node_id_of store u = (case fmlookup store u of
     Some c \<Rightarrow> parent_node (idc_proof_id c) u
   | None \<Rightarrow> parent_node None u)"

partial_function (option) apply_matching_subst_id :: "IdSubstitution \<Rightarrow> TermId \<Rightarrow> TermBank \<Rightarrow> (TermId \<times> TermBank) option" where
  "apply_matching_subst_id sigma i bank = do {
     node \<leftarrow> node_at bank i;
     case node of
       NVar v \<Rightarrow> Some (case id_get sigma v of Some t \<Rightarrow> (t, bank) | None \<Rightarrow> (i, bank))
     | NApp f args \<Rightarrow> do {
         (new_args, bank) \<leftarrow> mapM_st (apply_matching_subst_id sigma) args bank;
         Some (intern_app f new_args bank) } }"

text \<open>The loop over the rules that the index returns, up to the first that matches.\<close>

fun find_rule :: "rules \<Rightarrow> TermId \<Rightarrow> TermBank \<Rightarrow> rule list \<Rightarrow> (IdSubstitution \<times> TermId \<times> ClauseId) option option" where
  "find_rule R i bank [] = Some None"
| "find_rule R i bank ((from_id, to_id, unit_id) # others) =
     (case fmlookup (clause_store R) unit_id of
        None \<Rightarrow> find_rule R i bank others
      | Some rule_clause \<Rightarrow>
          if \<not> list_all (\<lambda>a. a \<in> set (target_avatar R)) (idc_avatar rule_clause) then find_rule R i bank others
          else do {
            m \<leftarrow> match_term_id from_id i bank;
            case m of
              Inl e \<Rightarrow> find_rule R i bank others
            | Inr sigma \<Rightarrow> Some (Some (sigma, to_id, unit_id)) })"

definition rewrite_root :: "rules \<Rightarrow> nat \<Rightarrow> nat list \<Rightarrow> IdSubstitution \<times> TermId \<times> ClauseId \<Rightarrow> rewriting
    \<Rightarrow> (TermId \<times> rewriting) option" where
  "rewrite_root R k path = (\<lambda>(sigma, to_id, unit_id) st. do {
     (j, bank) \<leftarrow> apply_matching_subst_id sigma to_id (rw_bank st);
     Some (j, st\<lparr>rw_bank := bank,
       used_unit_ids := (if unit_id \<in> set (used_unit_ids st) then used_unit_ids st else used_unit_ids st @ [unit_id]),
       rw_steps := rw_steps st @ [\<lparr>rule_parent = proof_node_id_of (clause_store R) unit_id, dsw_lit_idx = k,
         dsw_term_path = path, dsw_substitution = None\<rparr>]\<rparr>) })"

definition ask_memo :: "TermId \<Rightarrow> rewriting \<Rightarrow> (bool \<times> rewriting) option" where
  "ask_memo i st = (case rw_memo st of
     None \<Rightarrow> Some (False, st)
   | Some m \<Rightarrow> do { (known, m) \<leftarrow> is_irreducible i (rw_bank st) m; Some (known, st\<lparr>rw_memo := Some m\<rparr>) })"

definition remember :: "TermId \<Rightarrow> rewriting \<Rightarrow> rewriting option" where
  "remember i st = (if late st then Some (tick st)
     else case rw_memo st of
       None \<Rightarrow> Some (tick st)
     | Some m \<Rightarrow> do { m \<leftarrow> record_irreducible i (rw_bank st) m; Some ((tick st)\<lparr>rw_memo := Some m\<rparr>) })"

text \<open>The argument list with the rewritten arguments in place.\<close>

definition put_args :: "(nat \<times> TermId) list \<Rightarrow> TermId list \<Rightarrow> TermId list" where
  "put_args changes args = fold (\<lambda>(n, a) as. as[n := a]) changes args"

partial_function (option) rewrite_term_id_until :: "rules \<Rightarrow> nat \<Rightarrow> TermId \<Rightarrow> nat list \<Rightarrow> rewriting
    \<Rightarrow> ((TermId \<times> bool) \<times> rewriting) option" where
  "rewrite_term_id_until R k i path st =
     (if late st then Some ((i, False), tick st)
      else do {
        (known, st) \<leftarrow> ask_memo i (tick st);
        if known then Some ((i, False), st)
        else do {
          candidates \<leftarrow> st_get_generalizations i (rw_bank st) (demod_index R);
          applied \<leftarrow> find_rule R i (rw_bank st) candidates;
          case applied of
            Some r \<Rightarrow> do { (j, st) \<leftarrow> rewrite_root R k path r st; Some ((j, True), st) }
          | None \<Rightarrow> do {
              node \<leftarrow> node_at (rw_bank st) i;
              case node of
                NVar v \<Rightarrow> do { st \<leftarrow> remember i st; Some ((i, False), st) }
              | NApp f args \<Rightarrow> do {
                  (stopped, changes, st) \<leftarrow> foldM (\<lambda>p s.
                    if fst s then Some s
                    else if late (snd (snd s)) then Some (True, fst (snd s), tick (snd (snd s)))
                    else do {
                      ((a, ch), st) \<leftarrow> rewrite_term_id_until R k (snd p) (path @ [fst p]) (tick (snd (snd s)));
                      Some (False, if ch then fst (snd s) @ [(fst p, a)] else fst (snd s), st) })
                    (enumerate 0 args) (False, [], st);
                  if changes = [] then do { st \<leftarrow> remember i st; Some ((i, False), st) }
                  else let (j, bank) = intern_app f (put_args changes args) (rw_bank st)
                    in Some ((j, True), st\<lparr>rw_bank := bank\<rparr>) } } } })"

section \<open>Rewriting a clause\<close>

definition rewrite_literal_id_until :: "rules \<Rightarrow> nat \<Rightarrow> IdLiteral \<Rightarrow> rewriting \<Rightarrow> (bool \<times> IdLiteral \<times> rewriting) option" where
  "rewrite_literal_id_until R k l st = do {
     (changed, new_atom, st) \<leftarrow> (case id_atom l of
       IdPred p args \<Rightarrow> do {
         (rs, st) \<leftarrow> mapM_st (\<lambda>(n, a) st. rewrite_term_id_until R k a [n] st) (enumerate 0 args) st;
         Some (list_ex snd rs, IdPred p (map fst rs), st) }
     | IdEq l r \<Rightarrow> do {
         ((new_l, ch_l), st) \<leftarrow> rewrite_term_id_until R k l [0] st;
         ((new_r, ch_r), st) \<leftarrow> rewrite_term_id_until R k r [1] st;
         Some (ch_l \<or> ch_r, IdEq new_l new_r, st) });
     Some (changed, if changed then l\<lparr>id_atom := new_atom\<rparr> else l, st) }"

text \<open>
  One pass over the literals; past the deadline the rest stays as it is. The literals done so far
  and whether one of them changed are kept in front.
\<close>

definition rewrite_pass :: "rules \<Rightarrow> IdLiteral list \<Rightarrow> rewriting \<Rightarrow> (bool \<times> IdLiteral list \<times> rewriting) option" where
  "rewrite_pass R ls st = do {
     (stopped, changed, out, st) \<leftarrow> foldM (\<lambda>(k, l) (stopped, changed, out, st).
       if stopped then Some (True, changed, out @ [l], st)
       else if late st then Some (True, changed, out @ [l], tick st)
       else do {
         (ch, l, st) \<leftarrow> rewrite_literal_id_until R k l (tick st);
         Some (False, changed \<or> ch, out @ [l], st) }) (enumerate 0 ls) (False, False, [], st);
     Some (changed, out, st) }"

fun rewrite_passes :: "rules \<Rightarrow> nat \<Rightarrow> bool \<Rightarrow> IdLiteral list \<Rightarrow> rewriting \<Rightarrow> (bool \<times> IdLiteral list \<times> rewriting) option" where
  "rewrite_passes R 0 changed ls st = Some (changed, ls, st)"
| "rewrite_passes R (Suc passes) changed ls st =
     (if late st then Some (changed, ls, tick st)
      else do {
        (ch, ls, st) \<leftarrow> rewrite_pass R ls (tick st);
        if ch then rewrite_passes R passes True ls st else Some (changed, ls, st) })"

definition unique :: "'a list \<Rightarrow> 'a list" where
  "unique ps = fold (\<lambda>p seen. if p \<in> set seen then seen else seen @ [p]) ps []"

definition demodulate_id_until :: "IdClause \<Rightarrow> TermBank \<Rightarrow> rule STreeId \<Rightarrow> (ClauseId, IdClause) fmap \<Rightarrow> ClauseIdGen
    \<Rightarrow> DemodMemo option \<Rightarrow> clock \<Rightarrow> (IdClause option \<times> TermBank \<times> ClauseIdGen \<times> DemodMemo option \<times> clock) option" where
  "demodulate_id_until c bank index store gen memo clk = do {
     let unsplit = (idc_avatar c = []);
     let R = \<lparr>target_avatar = idc_avatar c, demod_index = index, clause_store = store\<rparr>;
     (changed, ls, st) \<leftarrow> rewrite_passes R 100 False (idc_literals c)
       \<lparr>rw_bank = bank, used_unit_ids = [], rw_steps = [], rw_memo = (if unsplit then memo else None), rw_clock = clk\<rparr>;
     let memo = (if unsplit then rw_memo st else memo);
     if \<not> changed then Some (None, rw_bank st, gen, memo, rw_clock st)
     else
       let (cid, gen) = next_id gen;
           derived = (id_new_avatar cid ls (Inference ''demodulation'' (unique (idc_id c # used_unit_ids st))) (idc_avatar c))
             \<lparr>idc_witness := Some (ProofWitness.Demodulation (parent_node (idc_proof_id c) (idc_id c))
                (map (proof_node_id_of store) (used_unit_ids st)) (rw_steps st))\<rparr>
       in Some (Some derived, rw_bank st, gen, memo, rw_clock st) }"

definition demodulate_id :: "IdClause \<Rightarrow> TermBank \<Rightarrow> rule STreeId \<Rightarrow> (ClauseId, IdClause) fmap \<Rightarrow> ClauseIdGen
    \<Rightarrow> DemodMemo option \<Rightarrow> (IdClause option \<times> TermBank \<times> ClauseIdGen \<times> DemodMemo option) option" where
  "demodulate_id c bank index store gen memo = do {
     (res, bank, gen, memo, clk) \<leftarrow> demodulate_id_until c bank index store gen memo [];
     Some (res, bank, gen, memo) }"

end
