(* ===== verification/DemodSound.thy ===== *)
theory DemodSound
  imports Demod
begin

text \<open>
  Demodulation always returns, and its conclusion is equivalent to the clause in every structure in
  which the unit clauses that it cites are valid.
\<close>

section \<open>Rules and runs\<close>

text \<open>
  The two sides of a rule are identifiers of the bank, and the clause it names, when it is stored, is
  the equation of the two sides in either direction.
\<close>

definition rule_ok :: "TermBank \<Rightarrow> (ClauseId, IdClause) fmap \<Rightarrow> rule \<Rightarrow> bool" where
  "rule_ok b store = (\<lambda>(from_id, to_id, u). \<exists>s t. to_legacy b from_id = Some s \<and> to_legacy b to_id = Some t \<and>
     (\<forall>c. fmlookup store u = Some c \<longrightarrow>
        (\<exists>L. lits_of b (idc_literals c) = Some [L] \<and> positive L \<and> (atom L = Eq s t \<or> atom L = Eq t s))))"

definition rules_ok :: "TermBank \<Rightarrow> rules \<Rightarrow> bool" where
  "rules_ok b R \<longleftrightarrow> tree_ok (demod_index R) \<and> (\<forall>p v. st_has (demod_index R) p v \<longrightarrow> rule_ok b (clause_store R) v)"

definition usable :: "rules \<Rightarrow> ClauseId \<Rightarrow> bool" where
  "usable R u \<longleftrightarrow> (\<exists>c. fmlookup (clause_store R) u = Some c \<and> set (idc_avatar c) \<subseteq> set (target_avatar R))"

text \<open>The stored clauses of a set of identifiers are valid.\<close>

definition units_valid :: "TermBank \<Rightarrow> (ClauseId, IdClause) fmap \<Rightarrow> ClauseId set \<Rightarrow> 'a interp \<Rightarrow> bool" where
  "units_valid b store U I \<longleftrightarrow> (\<forall>u \<in> U. \<forall>c Ls. fmlookup store u = Some c \<longrightarrow>
     lits_of b (idc_literals c) = Some Ls \<longrightarrow> lits_valid I Ls)"

lemma units_valid_sub: "units_valid b store U I \<Longrightarrow> V \<subseteq> U \<Longrightarrow> units_valid b store V I"
  by (auto simp: units_valid_def)

text \<open>What holds of the state throughout, and between a state and a later one.\<close>

definition run :: "TermBank \<Rightarrow> rules \<Rightarrow> rewriting \<Rightarrow> bool" where
  "run b0 R st \<longleftrightarrow> rules_ok b0 R \<and> becomes b0 (rw_bank st) \<and> distinct (used_unit_ids st) \<and>
     (\<forall>u \<in> set (used_unit_ids st). usable R u)"

definition goes_on :: "rewriting \<Rightarrow> rewriting \<Rightarrow> bool" where
  "goes_on st st' \<longleftrightarrow> extends (rw_bank st) (rw_bank st') \<and> set (used_unit_ids st) \<subseteq> set (used_unit_ids st')"

text \<open>Something holds if the units used so far are valid, unless the bank is full.\<close>

definition agreed :: "TermBank \<Rightarrow> rules \<Rightarrow> 'a interp \<Rightarrow> rewriting \<Rightarrow> bool \<Rightarrow> bool" where
  "agreed b0 R I st P \<longleftrightarrow> (intact (rw_bank st) \<longrightarrow>
     units_valid b0 (clause_store R) (set (used_unit_ids st)) I \<longrightarrow> P)"

lemma agreed_on: "agreed b0 R I st P \<Longrightarrow> goes_on st st' \<Longrightarrow> agreed b0 R I st' P"
  unfolding agreed_def goes_on_def using units_valid_sub extends_intact by metis

lemma agreed_imp: "agreed b0 R I st P \<Longrightarrow> (P \<Longrightarrow> Q) \<Longrightarrow> agreed b0 R I st Q"
  by (auto simp: agreed_def)

lemma agreed_both: "agreed b0 R I st P \<Longrightarrow> agreed b0 R I st Q \<Longrightarrow> (P \<Longrightarrow> Q \<Longrightarrow> T) \<Longrightarrow> agreed b0 R I st T"
  by (auto simp: agreed_def)

lemma agreed_always: "P \<Longrightarrow> agreed b0 R I st P"
  by (simp add: agreed_def)

lemma goes_on_refl: "goes_on st st"
  by (simp add: goes_on_def extends_def)

lemma goes_on_trans: "goes_on a b \<Longrightarrow> goes_on b c \<Longrightarrow> goes_on a c"
  by (auto simp: goes_on_def intro: extends_trans)

lemma goes_on_reads: "goes_on st st' \<Longrightarrow> to_legacy (rw_bank st) i = Some t \<Longrightarrow> to_legacy (rw_bank st') i = Some t"
  using extends_to_legacy by (auto simp: goes_on_def)

lemma goes_on_reads_all: "goes_on st st' \<Longrightarrow> mapM (to_legacy (rw_bank st)) is = Some ts \<Longrightarrow> mapM (to_legacy (rw_bank st')) is = Some ts"
  unfolding goes_on_def using persistent_mapM [OF persistent_to_legacy] by blast

lemma run_sane: "run b0 R st \<Longrightarrow> sane (rw_bank st)"
  using becomes_sane by (auto simp: run_def)

text \<open>Steps that change the clock and the memo only.\<close>

definition same_state :: "rewriting \<Rightarrow> rewriting \<Rightarrow> bool" where
  "same_state st st' \<longleftrightarrow> rw_bank st' = rw_bank st \<and> used_unit_ids st' = used_unit_ids st"

lemma same_state_run: "same_state st st' \<Longrightarrow> run b0 R st \<Longrightarrow> run b0 R st'"
  by (simp add: same_state_def run_def)

lemma same_state_on: "same_state st st' \<Longrightarrow> goes_on st st'"
  by (simp add: same_state_def goes_on_def extends_def)

lemma tick_same [simp]: "same_state st (tick st)"
  by (simp add: same_state_def tick_def)

lemma root_key_total: "to_legacy b i = Some t \<Longrightarrow> \<exists>k. root_key i b = Some k"
  by (cases t) (auto simp: root_key_def to_legacy_Var to_legacy_App)

lemma ask_memo_total:
  assumes "to_legacy (rw_bank st) i = Some t"
  obtains known st' where "ask_memo i st = Some (known, st')" "same_state st st'"
proof -
  obtain k where "root_key i (rw_bank st) = Some k" using root_key_total [OF assms] by blast
  then have "\<exists>known st'. ask_memo i st = Some (known, st') \<and> same_state st st'"
    by (auto simp: ask_memo_def is_irreducible_def same_state_def Let_def split: option.split)
  then show thesis using that by blast
qed

lemma remember_total:
  assumes "to_legacy (rw_bank st) i = Some t"
  obtains st' where "remember i st = Some st'" "same_state st st'"
proof -
  obtain k where "root_key i (rw_bank st) = Some k" using root_key_total [OF assms] by blast
  then have "\<exists>st'. remember i st = Some st' \<and> same_state st st'"
    by (auto simp: remember_def record_irreducible_def same_state_def tick_def split: option.split)
  then show thesis using that by blast
qed

section \<open>Applying a rule\<close>

definition carries :: "IdSubstitution \<Rightarrow> (VarId \<Rightarrow> Term) \<Rightarrow> TermBank \<Rightarrow> bool" where
  "carries sigma \<theta> b \<longleftrightarrow> (\<forall>v. case id_get sigma v of
     Some k \<Rightarrow> to_legacy b k = Some (\<theta> v) | None \<Rightarrow> \<theta> v = Var v)"

lemma carries_stable: "stable (carries sigma \<theta>)"
  unfolding stable_def carries_def by (fastforce intro: extends_to_legacy split: option.splits)

lemma apply_matching_maps: "maps_to (apply_matching_subst_id sigma) (carries sigma \<theta>) t (inst \<theta> t)"
proof (induction t)
  case (Var v)
  show ?case unfolding maps_as_def
  proof (intro allI impI)
    fix b i assume c: "carries sigma \<theta> b" and "sane b" and i: "to_legacy b i = Some (Var v)"
    then have "apply_matching_subst_id sigma i b =
        Some (case id_get sigma v of Some t \<Rightarrow> (t, b) | None \<Rightarrow> (i, b))"
      by (subst apply_matching_subst_id.simps) (simp add: to_legacy_Var)
    moreover have "case id_get sigma v of Some k \<Rightarrow> to_legacy b k = Some (\<theta> v) | None \<Rightarrow> \<theta> v = Var v"
      using c by (simp add: carries_def)
    ultimately show "\<exists>j b'. apply_matching_subst_id sigma i b = Some (j, b') \<and> becomes b b' \<and> den b' j (inst \<theta> (Var v))"
      using becomes_refl [OF \<open>sane b\<close>] i by (auto intro: meansI split: option.splits)
  qed
next
  case (App f ts)
  show ?case unfolding maps_as_def
  proof (intro allI impI)
    fix b i assume c: "carries sigma \<theta> b" and sane: "sane b" and "to_legacy b i = Some (App f ts)"
    then obtain args where args: "node_at b i = Some (NApp f args)" "mapM (to_legacy b) args = Some ts"
      by (auto simp: to_legacy_App)
    have "\<forall>t \<in> set ts. maps_to (apply_matching_subst_id sigma) (carries sigma \<theta>) t (inst \<theta> t)" using App by blast
    from maps_to_list [OF carries_stable this c sane args(2)] obtain js b1 where
      b1: "mapM_st (apply_matching_subst_id sigma) args b = Some (js, b1)" "becomes b b1"
      "list_all2 (den b1) js (map (inst \<theta>) ts)" by blast
    obtain j b2 where j: "intern_app f js b1 = (j, b2)" by fastforce
    then have "apply_matching_subst_id sigma i b = Some (j, b2)"
      using args(1) b1(1) by (subst apply_matching_subst_id.simps) simp
    then show "\<exists>j b'. apply_matching_subst_id sigma i b = Some (j, b') \<and> becomes b b' \<and> den b' j (inst \<theta> (App f ts))"
      using intern_app_becomes [OF becomes_sane [OF b1(2)] b1(3) j] becomes_trans [OF b1(2)] by auto
  qed
qed

lemma match_carries:
  assumes "sane b" "to_legacy b i = Some s" "to_legacy b j = Some t"
  obtains e where "match_term_id i j b = Some (Inl e)"
  | sigma \<theta> where "match_term_id i j b = Some (Inr sigma)" "carries sigma \<theta> b" "inst \<theta> s = t"
proof -
  obtain r where r: "match_term_id i j b = Some r" "matched (fits_id b) (\<lambda>\<sigma>. inst \<sigma> s = t) id_new_subst r"
    using match_rec_id_matched [OF sane_wf [OF assms(1)] assms(2,3)] unfolding match_term_id_def by blast
  show thesis
  proof (cases r)
    case (Inr sigma)
    then have fit: "\<And>\<sigma>. fits_id b sigma \<sigma> \<longleftrightarrow> inst \<sigma> s = t" "\<exists>\<sigma>. fits_id b sigma \<sigma>"
      using r(2) by (auto simp: matched_Inr)
    then obtain \<sigma> where \<sigma>: "fits_id b sigma \<sigma>" by blast
    define \<theta> where "\<theta> v = (case id_get sigma v of Some k \<Rightarrow> \<sigma> v | None \<Rightarrow> Var v)" for v
    have "fits_id b sigma \<theta>" using \<sigma> by (simp add: fits_id_def \<theta>_def)
    moreover have "carries sigma \<theta> b" using \<sigma> by (simp add: carries_def fits_id_def \<theta>_def split: option.split)
    ultimately show thesis using that(2) r(1) Inr fit(1) by blast
  qed (use that(1) r(1) in blast)
qed

text \<open>What the loop over the candidates finds.\<close>

definition applies :: "TermBank \<Rightarrow> rules \<Rightarrow> TermBank \<Rightarrow> Term \<Rightarrow> IdSubstitution \<times> TermId \<times> ClauseId \<Rightarrow> bool" where
  "applies b0 R b t = (\<lambda>(sigma, to_id, u). \<exists>from_id s \<theta>. rule_ok b0 (clause_store R) (from_id, to_id, u) \<and> usable R u \<and>
     to_legacy b0 from_id = Some s \<and> carries sigma \<theta> b \<and> inst \<theta> s = t)"

lemma find_rule_total:
  assumes "becomes b0 b" "to_legacy b i = Some t" "\<forall>r \<in> set rs. rule_ok b0 (clause_store R) r"
  shows "\<exists>res. find_rule R i b rs = Some res \<and> (\<forall>x. res = Some x \<longrightarrow> applies b0 R b t x)"
  using assms(3)
proof (induction rs)
  case (Cons r rs)
  obtain from_id to_id u where r: "r = (from_id, to_id, u)" by (cases r)
  have IH: "\<exists>res. find_rule R i b rs = Some res \<and> (\<forall>x. res = Some x \<longrightarrow> applies b0 R b t x)" using Cons by simp
  show ?case
  proof (cases "usable R u")
    case True
    then obtain c where c: "fmlookup (clause_store R) u = Some c" "set (idc_avatar c) \<subseteq> set (target_avatar R)"
      by (auto simp: usable_def)
    then have av: "list_all (\<lambda>a. a \<in> set (target_avatar R)) (idc_avatar c)" by (auto simp: list_all_iff)
    have ok: "rule_ok b0 (clause_store R) (from_id, to_id, u)" using Cons.prems r by simp
    then obtain s where s: "to_legacy b0 from_id = Some s" by (auto simp: rule_ok_def)
    from becomes_sane [OF assms(1)] extends_to_legacy [OF becomes_extends [OF assms(1)] s] assms(2) show ?thesis
    proof (cases rule: match_carries)
      case (1 e)
      then show ?thesis using IH r c(1) av by simp
    next
      case (2 sigma \<theta>)
      then have "find_rule R i b (r # rs) = Some (Some (sigma, to_id, u))" using r c(1) av by simp
      moreover have "applies b0 R b t (sigma, to_id, u)" using ok True s 2(2,3) by (auto simp: applies_def)
      ultimately show ?thesis by simp
    qed
  next
    case False
    then have "find_rule R i b (r # rs) = find_rule R i b rs"
      using r by (auto simp: usable_def list_all_iff split: option.split)
    then show ?thesis using IH by simp
  qed
qed simp

text \<open>The value of a rewritten term.\<close>

lemma rewrite_root_sound:
  fixes I :: "'a interp"
  assumes run: "run b0 R st" and x: "applies b0 R (rw_bank st) t x"
  obtains j y st' where "rewrite_root R k path x st = Some (j, st')" "run b0 R st'" "goes_on st st'"
    "to_legacy (rw_bank st') j = Some y" "agreed b0 R I st' (\<forall>\<rho>. tval I \<rho> y = tval I \<rho> t)"
proof -
  obtain sigma to_id u where xs: "x = (sigma, to_id, u)" by (cases x)
  then obtain from_id s \<theta> where a: "rule_ok b0 (clause_store R) (from_id, to_id, u)" "usable R u"
    "to_legacy b0 from_id = Some s" "carries sigma \<theta> (rw_bank st)" "inst \<theta> s = t"
    using x by (auto simp: applies_def)
  then obtain t2 where t2: "to_legacy b0 to_id = Some t2"
    "\<And>c. fmlookup (clause_store R) u = Some c \<Longrightarrow>
      \<exists>L. lits_of b0 (idc_literals c) = Some [L] \<and> positive L \<and> (atom L = Eq s t2 \<or> atom L = Eq t2 s)"
    by (auto simp: rule_ok_def)
  have b: "becomes b0 (rw_bank st)" "sane (rw_bank st)" using run run_sane by (auto simp: run_def)
  have to_id: "to_legacy (rw_bank st) to_id = Some t2" by (rule extends_to_legacy [OF becomes_extends [OF b(1)] t2(1)])
  obtain j b' where j: "apply_matching_subst_id sigma to_id (rw_bank st) = Some (j, b')" "becomes (rw_bank st) b'"
      "den b' j (inst \<theta> t2)"
    by (rule maps_asD [OF apply_matching_maps a(4) b(2) to_id])
  define st' where "st' = st\<lparr>rw_bank := b',
    used_unit_ids := (if u \<in> set (used_unit_ids st) then used_unit_ids st else used_unit_ids st @ [u]),
    rw_steps := rw_steps st @ [\<lparr>rule_parent = proof_node_id_of (clause_store R) u, dsw_lit_idx = k,
      dsw_term_path = path, dsw_substitution = None\<rparr>]\<rparr>"
  obtain y where y: "to_legacy b' j = Some y" "intact b' \<longrightarrow> y = inst \<theta> t2" using j(3) by (auto simp: means_def)
  have used: "set (used_unit_ids st') = insert u (set (used_unit_ids st))" by (auto simp: st'_def)
  have "rewrite_root R k path x st = Some (j, st')" by (simp add: rewrite_root_def xs j(1) st'_def)
  moreover have "run b0 R st'"
    using run a(2) becomes_trans [OF b(1) j(2)] by (auto simp: run_def st'_def)
  moreover have "goes_on st st'" using used becomes_extends [OF j(2)] by (auto simp: goes_on_def st'_def)
  moreover have "to_legacy (rw_bank st') j = Some y" using y(1) by (simp add: st'_def)
  moreover have "agreed b0 R I st' (\<forall>\<rho>. tval I \<rho> y = tval I \<rho> t)"
    unfolding agreed_def
  proof (intro impI allI)
    fix \<rho>
    assume full: "intact (rw_bank st')" and units: "units_valid b0 (clause_store R) (set (used_unit_ids st')) I"
    obtain c where c: "fmlookup (clause_store R) u = Some c" using a(2) by (auto simp: usable_def)
    then obtain L where L: "lits_of b0 (idc_literals c) = Some [L]" "positive L" "atom L = Eq s t2 \<or> atom L = Eq t2 s"
      using t2(2) by blast
    have "lits_valid I [L]" using units c L(1) used by (simp add: units_valid_def)
    then have "tval I \<rho>' s = tval I \<rho>' t2" for \<rho>' using L(2,3) by (auto simp: lits_valid_def lval_def)
    then show "tval I \<rho> y = tval I \<rho> t" using y(2) full a(5) by (auto simp: st'_def sem_simps simp flip: a(5))
  qed
  ultimately show thesis by (rule that)
qed

section \<open>Rewriting a term\<close>

definition rewritten :: "TermBank \<Rightarrow> rules \<Rightarrow> 'a interp \<Rightarrow> rewriting \<Rightarrow> TermId \<Rightarrow> Term
    \<Rightarrow> ((TermId \<times> bool) \<times> rewriting) option \<Rightarrow> bool" where
  "rewritten b0 R I st i t res \<longleftrightarrow> (\<exists>j ch st' y. res = Some ((j, ch), st') \<and> run b0 R st' \<and> goes_on st st' \<and>
     to_legacy (rw_bank st') j = Some y \<and> agreed b0 R I st' (\<forall>\<rho>. tval I \<rho> y = tval I \<rho> t) \<and> (\<not> ch \<longrightarrow> j = i))"

lemma rewritten_not:
  assumes "run b0 R st'" "goes_on st st'" "to_legacy (rw_bank st) i = Some t"
  shows "rewritten b0 R I st i t (Some ((i, False), st'))"
  using assms goes_on_reads unfolding rewritten_def by (auto intro: agreed_always)

lemma rewritten_remember:
  assumes "run b0 R st'" "goes_on st st'" "to_legacy (rw_bank st) i = Some t"
  shows "rewritten b0 R I st i t (do { st \<leftarrow> remember i st'; Some ((i, False), st) })"
proof -
  obtain st2 where "remember i st' = Some st2" "same_state st' st2"
    by (rule remember_total [OF goes_on_reads [OF assms(2,3)]])
  then show ?thesis
    using rewritten_not [OF same_state_run [OF _ assms(1)] goes_on_trans [OF assms(2) same_state_on] assms(3)] by simp
qed

lemma foldM_inv:
  assumes "\<And>x s. x \<in> set xs \<Longrightarrow> Q s \<Longrightarrow> \<exists>s'. f x s = Some s' \<and> Q s'"
  shows "Q s \<Longrightarrow> \<exists>s'. foldM f xs s = Some s' \<and> Q s'"
  using assms
proof (induction xs arbitrary: s)
  case (Cons x xs)
  obtain s1 where "f x s = Some s1" "Q s1" using Cons.prems(2) [of x s] Cons.prems(1) by auto
  then show ?case using Cons.IH [of s1] Cons.prems(2) by simp
qed simp

lemma length_fold_update: "length (fold (\<lambda>(n, a) as. as[n := a]) changes args) = length args"
  by (induction changes arbitrary: args) auto

lemma rewrite_args:
  assumes step: "\<And>a t path st. t \<in> set ts \<Longrightarrow> run b0 R st \<Longrightarrow> to_legacy (rw_bank st) a = Some t \<Longrightarrow>
      rewritten b0 R I st a t (recur a path st)"
    and start: "run b0 R st0" "mapM (to_legacy (rw_bank st0)) args = Some ts"
  obtains stopped changes st ys where "foldM (\<lambda>p s.
      if fst s then Some s
      else if late (snd (snd s)) then Some (True, fst (snd s), tick (snd (snd s)))
      else do {
        ((a, ch), st) \<leftarrow> recur (snd p) (path @ [fst p]) (tick (snd (snd s)));
        Some (False, if ch then fst (snd s) @ [(fst p, a)] else fst (snd s), st) })
      (enumerate 0 args) (False, [], st0) = Some (stopped, changes, st)"
    "run b0 R st" "goes_on st0 st" "mapM (to_legacy (rw_bank st)) (put_args changes args) = Some ys"
    "agreed b0 R I st (\<forall>\<rho>. map (tval I \<rho>) ys = map (tval I \<rho>) ts)"
proof -
  let ?Q = "\<lambda>(stopped :: bool, changes, st). run b0 R st \<and> goes_on st0 st \<and>
     (\<exists>ys. mapM (to_legacy (rw_bank st)) (put_args changes args) = Some ys \<and>
       agreed b0 R I st (\<forall>\<rho>. map (tval I \<rho>) ys = map (tval I \<rho>) ts))"
  have "\<exists>s'. foldM (\<lambda>p s.
      if fst s then Some s
      else if late (snd (snd s)) then Some (True, fst (snd s), tick (snd (snd s)))
      else do {
        ((a, ch), st) \<leftarrow> recur (snd p) (path @ [fst p]) (tick (snd (snd s)));
        Some (False, if ch then fst (snd s) @ [(fst p, a)] else fst (snd s), st) })
      (enumerate 0 args) (False, [], st0) = Some s' \<and> ?Q s'"
  proof (rule foldM_inv)
    show "?Q (False, [], st0)"
      using start goes_on_refl [of st0] by (auto simp: put_args_def intro: agreed_always)
    fix p s assume p: "p \<in> set (enumerate 0 args)" and q: "?Q s"
    obtain n a where "p = (n, a)" by fastforce
    then have na: "p = (n, a)" "n < length args" "a = args ! n" using p by (auto simp: in_set_enumerate_eq)
    obtain stopped changes st where s: "s = (stopped, changes, st)" by (cases s)
    then obtain ys where ys: "run b0 R st" "goes_on st0 st" "mapM (to_legacy (rw_bank st)) (put_args changes args) = Some ys"
      "agreed b0 R I st (\<forall>\<rho>. map (tval I \<rho>) ys = map (tval I \<rho>) ts)" using q by auto
    have t: "run b0 R (tick st)" "goes_on st0 (tick st)" "goes_on st (tick st)"
      using same_state_run [OF tick_same ys(1)] same_state_on [OF tick_same] goes_on_trans [OF ys(2)] by blast+
    have len: "length args = length ts" using start(2) by (simp add: mapM_Some_iff)
    have "to_legacy (rw_bank st0) a = Some (ts ! n)" using start(2) na by (simp add: mapM_Some_iff)
    then have "to_legacy (rw_bank (tick st)) a = Some (ts ! n)" using goes_on_reads [OF t(2)] by blast
    then obtain j ch st' y where r: "recur a (path @ [n]) (tick st) = Some ((j, ch), st')" "run b0 R st'" "goes_on (tick st) st'"
      "to_legacy (rw_bank st') j = Some y" "agreed b0 R I st' (\<forall>\<rho>. tval I \<rho> y = tval I \<rho> (ts ! n))"
      using step [of "ts ! n" "tick st" a "path @ [n]"] t(1) na(2) len unfolding rewritten_def by auto
    have on: "goes_on st st'" "goes_on st0 st'" using t r(3) goes_on_trans by blast+
    note ys' = goes_on_reads_all [OF on(1) ys(3)] agreed_on [OF ys(4) on(1)]
    have put: "put_args (changes @ [(n, j)]) args = (put_args changes args)[n := j]" by (simp add: put_args_def)
    have ys_len: "length ys = length ts" using ys(3) len by (auto simp: mapM_Some_iff put_args_def length_fold_update)
    show "\<exists>s'. (if fst s then Some s
      else if late (snd (snd s)) then Some (True, fst (snd s), tick (snd (snd s)))
      else do {
        ((a, ch), st) \<leftarrow> recur (snd p) (path @ [fst p]) (tick (snd (snd s)));
        Some (False, if ch then fst (snd s) @ [(fst p, a)] else fst (snd s), st) }) = Some s' \<and> ?Q s'"
    proof (cases "stopped \<or> late st")
      case True
      then show ?thesis using ys t s goes_on_reads_all [OF t(3) ys(3)] agreed_on [OF ys(4) t(3)] by auto
    next
      case False
      show ?thesis
      proof (cases ch)
        case True
        have "mapM (to_legacy (rw_bank st')) (put_args (changes @ [(n, j)]) args) = Some (ys[n := y])"
          using ys'(1) r(4) na(2) len ys_len unfolding put by (auto simp: mapM_Some_iff nth_list_update)
        moreover have "agreed b0 R I st' (\<forall>\<rho>. map (tval I \<rho>) (ys[n := y]) = map (tval I \<rho>) ts)"
        proof (rule agreed_both [OF ys'(2) r(5)])
          assume eq: "\<forall>\<rho>. map (tval I \<rho>) ys = map (tval I \<rho>) ts" "\<forall>\<rho>. tval I \<rho> y = tval I \<rho> (ts ! n)"
          have "map (tval I \<rho>) (ys[n := y]) = (map (tval I \<rho>) ts)[n := tval I \<rho> (ts ! n)]" for \<rho>
            using eq by (simp add: map_update)
          also have "\<dots> \<rho> = map (tval I \<rho>) ts" for \<rho>
            using na(2) len by (simp flip: map_update)
          finally show "\<forall>\<rho>. map (tval I \<rho>) (ys[n := y]) = map (tval I \<rho>) ts" by blast
        qed
        ultimately show ?thesis using False True r(1,2) on(2) s na(1) by auto
      next
        case f: False
        then show ?thesis using False r(1,2) on(2) s na(1) ys' by auto
      qed
    qed
  qed
  then show thesis using that by auto
qed

text \<open>The part before the descent.\<close>

lemma rewrite_here:
  fixes I :: "'a interp"
  assumes start: "run b0 R st" "to_legacy (rw_bank st) i = Some t"
    and below: "\<And>st1. run b0 R st1 \<Longrightarrow> goes_on st st1 \<Longrightarrow> rewritten b0 R I st i t (descend st1)"
  shows "rewritten b0 R I st i t
    (if late st then Some ((i, False), tick st)
     else do {
       (known, st) \<leftarrow> ask_memo i (tick st);
       if known then Some ((i, False), st)
       else do {
         candidates \<leftarrow> st_get_generalizations i (rw_bank st) (demod_index R);
         applied \<leftarrow> find_rule R i (rw_bank st) candidates;
         case applied of
           Some r \<Rightarrow> do { (j, st) \<leftarrow> rewrite_root R k path r st; Some ((j, True), st) }
         | None \<Rightarrow> descend st } })"
proof -
  have t: "run b0 R (tick st)" "goes_on st (tick st)"
    using same_state_run [OF tick_same start(1)] same_state_on [OF tick_same] by blast+
  obtain known st1 where ask: "ask_memo i (tick st) = Some (known, st1)" "same_state (tick st) st1"
    by (rule ask_memo_total [OF goes_on_reads [OF t(2) start(2)]])
  have st1: "run b0 R st1" "goes_on st st1"
    using same_state_run [OF ask(2) t(1)] goes_on_trans [OF t(2) same_state_on [OF ask(2)]] by blast+
  have i1: "to_legacy (rw_bank st1) i = Some t" by (rule goes_on_reads [OF st1(2) start(2)])
  show ?thesis
  proof (cases "late st \<or> known")
    case True
    then show ?thesis using rewritten_not [OF t start(2)] rewritten_not [OF st1 start(2)] ask(1) by auto
  next
    case False
    have R: "tree_ok (demod_index R)" "\<forall>p v. st_has (demod_index R) p v \<longrightarrow> rule_ok b0 (clause_store R) v"
      using st1(1) by (simp_all add: run_def rules_ok_def)
    obtain vs where vs: "st_get_generalizations i (rw_bank st1) (demod_index R) = Some vs"
      "\<forall>v \<in> set vs. rule_ok b0 (clause_store R) v"
      using generalizations_total [OF R(1) i1] R(2) by blast
    obtain res where res: "find_rule R i (rw_bank st1) vs = Some res" "\<forall>x. res = Some x \<longrightarrow> applies b0 R (rw_bank st1) t x"
      using find_rule_total [OF _ i1 vs(2)] st1(1) by (auto simp: run_def)
    show ?thesis
    proof (cases res)
      case None
      then show ?thesis using False ask(1) vs(1) res(1) below [OF st1] by simp
    next
      case (Some x)
      then have "applies b0 R (rw_bank st1) t x" using res(2) by simp
      then obtain j y st2 where r: "rewrite_root R k path x st1 = Some (j, st2)" "run b0 R st2" "goes_on st1 st2"
        "to_legacy (rw_bank st2) j = Some y" "agreed b0 R I st2 (\<forall>\<rho>. tval I \<rho> y = tval I \<rho> t)"
        by (rule rewrite_root_sound [OF st1(1)])
      then have "rewritten b0 R I st i t (Some ((j, True), st2))"
        unfolding rewritten_def using goes_on_trans [OF st1(2)] by auto
      then show ?thesis using False ask(1) vs(1) res(1) Some r(1) by simp
    qed
  qed
qed

lemma rewrite_term_sound:
  fixes I :: "'a interp"
  assumes "run b0 R st" "to_legacy (rw_bank st) i = Some t"
  shows "rewritten b0 R I st i t (rewrite_term_id_until R k i path st)"
  using assms
proof (induction t arbitrary: i path st)
  case (Var v)
  show ?case
    unfolding rewrite_term_id_until.simps [of R k i path st]
  proof (rule rewrite_here [OF Var.prems])
    fix st1 assume st1: "run b0 R st1" "goes_on st st1"
    have "node_at (rw_bank st1) i = Some (NVar v)"
      using goes_on_reads [OF st1(2) Var.prems(2)] by (simp add: to_legacy_Var)
    then show "rewritten b0 R I st i (Var v) (do {
        node \<leftarrow> node_at (rw_bank st1) i;
        case node of
          NVar v \<Rightarrow> do { st \<leftarrow> remember i st1; Some ((i, False), st) }
        | NApp f args \<Rightarrow> do {
            (stopped, changes, st) \<leftarrow> foldM (\<lambda>p s.
              if fst s then Some s
              else if late (snd (snd s)) then Some (True, fst (snd s), tick (snd (snd s)))
              else do {
                ((a, ch), st) \<leftarrow> rewrite_term_id_until R k (snd p) (path @ [fst p]) (tick (snd (snd s)));
                Some (False, if ch then fst (snd s) @ [(fst p, a)] else fst (snd s), st) })
              (enumerate 0 args) (False, [], st1);
            if changes = [] then do { st \<leftarrow> remember i st; Some ((i, False), st) }
            else let (j, bank) = intern_app f (put_args changes args) (rw_bank st)
              in Some ((j, True), st\<lparr>rw_bank := bank\<rparr>) } })"
      using rewritten_remember [OF st1 Var.prems(2)] by simp
  qed
next
  case (App f ts)
  show ?case
    unfolding rewrite_term_id_until.simps [of R k i path st]
  proof (rule rewrite_here [OF App.prems])
    fix st1 assume st1: "run b0 R st1" "goes_on st st1"
    obtain args where args: "node_at (rw_bank st1) i = Some (NApp f args)" "mapM (to_legacy (rw_bank st1)) args = Some ts"
      using goes_on_reads [OF st1(2) App.prems(2)] by (auto simp: to_legacy_App)
    obtain stopped changes st2 ys where loop: "foldM (\<lambda>p s.
        if fst s then Some s
        else if late (snd (snd s)) then Some (True, fst (snd s), tick (snd (snd s)))
        else do {
          ((a, ch), st) \<leftarrow> rewrite_term_id_until R k (snd p) (path @ [fst p]) (tick (snd (snd s)));
          Some (False, if ch then fst (snd s) @ [(fst p, a)] else fst (snd s), st) })
        (enumerate 0 args) (False, [], st1) = Some (stopped, changes, st2)"
      "run b0 R st2" "goes_on st1 st2" "mapM (to_legacy (rw_bank st2)) (put_args changes args) = Some ys"
      "agreed b0 R I st2 (\<forall>\<rho>. map (tval I \<rho>) ys = map (tval I \<rho>) ts)"
      by (rule rewrite_args [OF App.IH st1(1) args(2)])
    have on: "goes_on st st2" by (rule goes_on_trans [OF st1(2) loop(3)])
    show "rewritten b0 R I st i (App f ts) (do {
        node \<leftarrow> node_at (rw_bank st1) i;
        case node of
          NVar v \<Rightarrow> do { st \<leftarrow> remember i st1; Some ((i, False), st) }
        | NApp f args \<Rightarrow> do {
            (stopped, changes, st) \<leftarrow> foldM (\<lambda>p s.
              if fst s then Some s
              else if late (snd (snd s)) then Some (True, fst (snd s), tick (snd (snd s)))
              else do {
                ((a, ch), st) \<leftarrow> rewrite_term_id_until R k (snd p) (path @ [fst p]) (tick (snd (snd s)));
                Some (False, if ch then fst (snd s) @ [(fst p, a)] else fst (snd s), st) })
              (enumerate 0 args) (False, [], st1);
            if changes = [] then do { st \<leftarrow> remember i st; Some ((i, False), st) }
            else let (j, bank) = intern_app f (put_args changes args) (rw_bank st)
              in Some ((j, True), st\<lparr>rw_bank := bank\<rparr>) } })"
    proof (cases "changes = []")
      case True
      then show ?thesis using args(1) loop(1) rewritten_remember [OF loop(2) on App.prems(2)] by simp
    next
      case False
      obtain j b' where j: "intern_app f (put_args changes args) (rw_bank st2) = (j, b')" by fastforce
      have b': "becomes (rw_bank st2) b'" "den b' j (App f ys)"
        using intern_app_becomes [OF run_sane [OF loop(2)] all_meansI [where d = to_legacy, OF loop(4)] j] by blast+
      obtain y where y: "to_legacy b' j = Some y" "intact b' \<longrightarrow> y = App f ys" using b'(2) by (auto simp: means_def)
      let ?st = "st2\<lparr>rw_bank := b'\<rparr>"
      have on': "goes_on st2 ?st" using becomes_extends [OF b'(1)] by (simp add: goes_on_def)
      have "run b0 R ?st" using loop(2) becomes_trans [OF _ b'(1)] by (auto simp: run_def)
      moreover have "agreed b0 R I ?st (\<forall>\<rho>. tval I \<rho> y = tval I \<rho> (App f ts))"
        using agreed_on [OF loop(5) on'] y(2) by (auto simp: agreed_def)
      ultimately have "rewritten b0 R I st i (App f ts) (Some ((j, True), ?st))"
        unfolding rewritten_def using goes_on_trans [OF on on'] y(1) by auto
      then show ?thesis using args(1) loop(1) False j by simp
    qed
  qed
qed

section \<open>Rewriting a clause\<close>

lemma rewrite_each_argument:
  fixes I :: "'a interp"
  shows "run b0 R st \<Longrightarrow> mapM (to_legacy (rw_bank st)) args = Some ts \<Longrightarrow>
    \<exists>rs st' ys. mapM_st (\<lambda>(n, a) st. rewrite_term_id_until R k a [n] st) (enumerate m args) st = Some (rs, st') \<and>
      run b0 R st' \<and> goes_on st st' \<and> mapM (to_legacy (rw_bank st')) (map fst rs) = Some ys \<and>
      agreed b0 R I st' (\<forall>\<rho>. map (tval I \<rho>) ys = map (tval I \<rho>) ts)"
proof (induction args arbitrary: ts m st)
  case Nil
  then show ?case using goes_on_refl by (auto intro: agreed_always)
next
  case (Cons a args)
  obtain t us where ts: "ts = t # us" "to_legacy (rw_bank st) a = Some t" "mapM (to_legacy (rw_bank st)) args = Some us"
    using Cons.prems(2) by (auto simp: bind_eq_Some_conv)
  obtain j ch st1 y where 1: "rewrite_term_id_until R k a [m] st = Some ((j, ch), st1)" "run b0 R st1" "goes_on st st1"
    "to_legacy (rw_bank st1) j = Some y" "agreed b0 R I st1 (\<forall>\<rho>. tval I \<rho> y = tval I \<rho> t)"
    using rewrite_term_sound [OF Cons.prems(1) ts(2), of I k "[m]"] unfolding rewritten_def by blast
  obtain rs st2 ys where 2: "mapM_st (\<lambda>(n, a) st. rewrite_term_id_until R k a [n] st) (enumerate (Suc m) args) st1 = Some (rs, st2)"
    "run b0 R st2" "goes_on st1 st2" "mapM (to_legacy (rw_bank st2)) (map fst rs) = Some ys"
    "agreed b0 R I st2 (\<forall>\<rho>. map (tval I \<rho>) ys = map (tval I \<rho>) us)"
    using Cons.IH [OF 1(2) goes_on_reads_all [OF 1(3) ts(3)]] by blast
  have "agreed b0 R I st2 (\<forall>\<rho>. map (tval I \<rho>) (y # ys) = map (tval I \<rho>) ts)"
    by (rule agreed_both [OF agreed_on [OF 1(5) 2(3)] 2(5)]) (simp add: ts(1))
  then show ?case using 1(1) 2 goes_on_trans [OF 1(3) 2(3)] goes_on_reads [OF 2(3) 1(4)] by auto
qed

lemma rewrite_literal_sound:
  fixes I :: "'a interp"
  assumes run: "run b0 R st" and l: "literal_to_legacy (rw_bank st) l = Some L"
  obtains ch l' st' M where "rewrite_literal_id_until R k l st = Some (ch, l', st')" "run b0 R st'" "goes_on st st'"
    "literal_to_legacy (rw_bank st') l' = Some M" "agreed b0 R I st' (\<forall>\<rho>. lval I \<rho> M = lval I \<rho> L)"
proof -
  have L: "id_positive l = positive L" "atom_to_legacy (rw_bank st) (id_atom l) = Some (atom L)"
    using l by (simp_all add: literal_to_legacy_iff)
  have kept: "literal_to_legacy (rw_bank st') l = Some L" if "goes_on st st'" for st'
    using that l persistent_literal unfolding goes_on_def persistent_def by blast
  have "\<exists>ch A st' B. (case id_atom l of
       IdPred p args \<Rightarrow> do {
         (rs, st) \<leftarrow> mapM_st (\<lambda>(n, a) st. rewrite_term_id_until R k a [n] st) (enumerate 0 args) st;
         Some (list_ex snd rs, IdPred p (map fst rs), st) }
     | IdEq l r \<Rightarrow> do {
         ((new_l, ch_l), st) \<leftarrow> rewrite_term_id_until R k l [0] st;
         ((new_r, ch_r), st) \<leftarrow> rewrite_term_id_until R k r [1] st;
         Some (ch_l \<or> ch_r, IdEq new_l new_r, st) }) = Some (ch, A, st') \<and> run b0 R st' \<and> goes_on st st' \<and>
     atom_to_legacy (rw_bank st') A = Some B \<and> agreed b0 R I st' (\<forall>\<rho>. aval I \<rho> B = aval I \<rho> (atom L))"
    using L(2)
  proof (cases rule: atom_to_legacy_cases)
    case (1 p args ts)
    obtain rs st' ys where r: "mapM_st (\<lambda>(n, a) st. rewrite_term_id_until R k a [n] st) (enumerate 0 args) st = Some (rs, st')"
      "run b0 R st'" "goes_on st st'" "mapM (to_legacy (rw_bank st')) (map fst rs) = Some ys"
      "agreed b0 R I st' (\<forall>\<rho>. map (tval I \<rho>) ys = map (tval I \<rho>) ts)"
      using rewrite_each_argument [OF run 1(3)] by blast
    have "agreed b0 R I st' (\<forall>\<rho>. aval I \<rho> (Pred p ys) = aval I \<rho> (atom L))"
      by (rule agreed_imp [OF r(5)]) (simp add: 1(2))
    then show ?thesis using 1(1) r by auto
  next
    case (2 i j t u)
    obtain i' chi st1 t' where i: "rewrite_term_id_until R k i [0] st = Some ((i', chi), st1)" "run b0 R st1" "goes_on st st1"
      "to_legacy (rw_bank st1) i' = Some t'" "agreed b0 R I st1 (\<forall>\<rho>. tval I \<rho> t' = tval I \<rho> t)"
      using rewrite_term_sound [OF run 2(3), of I k "[0]"] unfolding rewritten_def by blast
    obtain j' chj st2 u' where j: "rewrite_term_id_until R k j [1] st1 = Some ((j', chj), st2)" "run b0 R st2" "goes_on st1 st2"
      "to_legacy (rw_bank st2) j' = Some u'" "agreed b0 R I st2 (\<forall>\<rho>. tval I \<rho> u' = tval I \<rho> u)"
      using rewrite_term_sound [OF i(2) goes_on_reads [OF i(3) 2(4)], of I k "[1]"] unfolding rewritten_def by blast
    have "agreed b0 R I st2 (\<forall>\<rho>. aval I \<rho> (Eq t' u') = aval I \<rho> (atom L))"
      by (rule agreed_both [OF agreed_on [OF i(5) j(3)] j(5)]) (simp add: 2(2))
    then show ?thesis using 2(1) i(1) j(1,2,4) goes_on_trans [OF i(3) j(3)] goes_on_reads [OF j(3) i(4)] by auto
  qed
  then obtain ch A st' B where res: "rewrite_literal_id_until R k l st = Some (ch, if ch then l\<lparr>id_atom := A\<rparr> else l, st')"
    "run b0 R st'" "goes_on st st'" "atom_to_legacy (rw_bank st') A = Some B"
    "agreed b0 R I st' (\<forall>\<rho>. aval I \<rho> B = aval I \<rho> (atom L))"
    unfolding rewrite_literal_id_until_def by fastforce
  show thesis
  proof (cases ch)
    case True
    have "agreed b0 R I st' (\<forall>\<rho>. lval I \<rho> \<lparr>positive = positive L, atom = B\<rparr> = lval I \<rho> L)"
      by (rule agreed_imp [OF res(5)]) (simp add: lval_def)
    moreover have "literal_to_legacy (rw_bank st') (l\<lparr>id_atom := A\<rparr>) = Some \<lparr>positive = positive L, atom = B\<rparr>"
      using res(4) L(1) by (simp add: literal_to_legacy_iff)
    ultimately show thesis using that res(1-3) True by simp
  next
    case False
    then show thesis using that [of False l st' L] res(1-3) kept [OF res(3)] by (simp add: agreed_always)
  qed
qed

lemma goes_on_lits: "goes_on st st' \<Longrightarrow> lits_of (rw_bank st) ls = Some Ls \<Longrightarrow> lits_of (rw_bank st') ls = Some Ls"
  unfolding goes_on_def using persistent_mapM [OF persistent_literal] by blast

lemma goes_on_lit: "goes_on st st' \<Longrightarrow> literal_to_legacy (rw_bank st) l = Some L \<Longrightarrow> literal_to_legacy (rw_bank st') l = Some L"
  using persistent_literal unfolding goes_on_def persistent_def by blast

lemma rewrite_pass_loop:
  fixes I :: "'a interp"
  shows "run b0 R st \<Longrightarrow> lits_of (rw_bank st) ls = Some Ls \<Longrightarrow>
    \<exists>stopped' changed' ls' st' Ms. foldM (\<lambda>(k, l) (stopped, changed, out, st).
       if stopped then Some (True, changed, out @ [l], st)
       else if late st then Some (True, changed, out @ [l], tick st)
       else do {
         (ch, l, st) \<leftarrow> rewrite_literal_id_until R k l (tick st);
         Some (False, changed \<or> ch, out @ [l], st) }) (enumerate m ls) (stopped, changed, out, st) =
       Some (stopped', changed', out @ ls', st') \<and>
      run b0 R st' \<and> goes_on st st' \<and> lits_of (rw_bank st') ls' = Some Ms \<and>
      agreed b0 R I st' (\<forall>\<rho>. map (lval I \<rho>) Ms = map (lval I \<rho>) Ls)"
proof (induction ls arbitrary: Ls m stopped changed out st)
  case Nil
  then show ?case using goes_on_refl by (auto intro: agreed_always)
next
  case (Cons l ls)
  obtain L Ks where Ls: "Ls = L # Ks" "literal_to_legacy (rw_bank st) l = Some L" "lits_of (rw_bank st) ls = Some Ks"
    using Cons.prems(2) by (auto simp: bind_eq_Some_conv)
  let ?f = "\<lambda>(k, l) (stopped, changed, out, st).
       if stopped then Some (True, changed, out @ [l], st)
       else if late st then Some (True, changed, out @ [l], tick st)
       else do {
         (ch, l, st) \<leftarrow> rewrite_literal_id_until R k l (tick st);
         Some (False, changed \<or> ch, out @ [l], st) }"
  obtain stopped1 changed1 l' st1 M where 1: "?f (m, l) (stopped, changed, out, st) = Some (stopped1, changed1, out @ [l'], st1)"
    "run b0 R st1" "goes_on st st1" "literal_to_legacy (rw_bank st1) l' = Some M"
    "agreed b0 R I st1 (\<forall>\<rho>. lval I \<rho> M = lval I \<rho> L)"
  proof -
    have t: "run b0 R (tick st)" "goes_on st (tick st)" "rw_bank (tick st) = rw_bank st"
      using same_state_run [OF tick_same Cons.prems(1)] same_state_on [OF tick_same] by (simp_all add: tick_def)
    show thesis
    proof (cases "stopped \<or> late st")
      case True
      show thesis
      proof (cases stopped)
        case True
        then show thesis using that [of True changed l st L] Cons.prems(1) Ls(2) goes_on_refl by (simp add: agreed_always)
      next
        case False
        then show thesis using \<open>stopped \<or> late st\<close> that [of True changed l "tick st" L] t Ls(2) by (simp add: agreed_always)
      qed
    next
      case False
      have "literal_to_legacy (rw_bank (tick st)) l = Some L" using Ls(2) t(3) by simp
      then obtain ch l' st' M where "rewrite_literal_id_until R m l (tick st) = Some (ch, l', st')" "run b0 R st'"
        "goes_on (tick st) st'" "literal_to_legacy (rw_bank st') l' = Some M"
        "agreed b0 R I st' (\<forall>\<rho>. lval I \<rho> M = lval I \<rho> L)" by (rule rewrite_literal_sound [OF t(1)])
      then show thesis using that [of False "changed \<or> ch" l' st' M] False goes_on_trans [OF t(2)] by simp
    qed
  qed
  obtain stopped2 changed2 ls' st2 Ms where 2: "foldM ?f (enumerate (Suc m) ls) (stopped1, changed1, out @ [l'], st1) =
      Some (stopped2, changed2, (out @ [l']) @ ls', st2)" "run b0 R st2" "goes_on st1 st2"
    "lits_of (rw_bank st2) ls' = Some Ms" "agreed b0 R I st2 (\<forall>\<rho>. map (lval I \<rho>) Ms = map (lval I \<rho>) Ks)"
    using Cons.IH [OF 1(2) goes_on_lits [OF 1(3) Ls(3)]] by blast
  have "foldM ?f (enumerate m (l # ls)) (stopped, changed, out, st) = Some (stopped2, changed2, out @ (l' # ls'), st2)"
    using 1(1) 2(1) by simp
  moreover have "lits_of (rw_bank st2) (l' # ls') = Some (M # Ms)"
    using 2(4) goes_on_lit [OF 2(3) 1(4)] by simp
  moreover have "agreed b0 R I st2 (\<forall>\<rho>. map (lval I \<rho>) (M # Ms) = map (lval I \<rho>) Ls)"
    by (rule agreed_both [OF agreed_on [OF 1(5) 2(3)] 2(5)]) (simp add: Ls(1))
  ultimately show ?case using 2(2) goes_on_trans [OF 1(3) 2(3)] by blast
qed

lemma rewrite_pass_sound:
  fixes I :: "'a interp"
  assumes "run b0 R st" "lits_of (rw_bank st) ls = Some Ls"
  obtains ch ls' st' Ms where "rewrite_pass R ls st = Some (ch, ls', st')" "run b0 R st'" "goes_on st st'"
    "lits_of (rw_bank st') ls' = Some Ms" "agreed b0 R I st' (\<forall>\<rho>. map (lval I \<rho>) Ms = map (lval I \<rho>) Ls)"
  using rewrite_pass_loop [OF assms, of 0 False False "[]" I] that unfolding rewrite_pass_def by fastforce

lemma rewrite_passes_sound:
  fixes I :: "'a interp"
  shows "run b0 R st \<Longrightarrow> lits_of (rw_bank st) ls = Some Ls \<Longrightarrow>
    \<exists>ch ls' st' Ms. rewrite_passes R n changed ls st = Some (ch, ls', st') \<and> run b0 R st' \<and> goes_on st st' \<and>
      lits_of (rw_bank st') ls' = Some Ms \<and> agreed b0 R I st' (\<forall>\<rho>. map (lval I \<rho>) Ms = map (lval I \<rho>) Ls)"
proof (induction n arbitrary: changed ls Ls st)
  case 0
  then show ?case using goes_on_refl by (auto intro: agreed_always)
next
  case (Suc n)
  have t: "run b0 R (tick st)" "goes_on st (tick st)"
    using same_state_run [OF tick_same Suc.prems(1)] same_state_on [OF tick_same] by blast+
  note ls = goes_on_lits [OF t(2) Suc.prems(2)]
  obtain ch ls' st1 Ks where 1: "rewrite_pass R ls (tick st) = Some (ch, ls', st1)" "run b0 R st1" "goes_on (tick st) st1"
    "lits_of (rw_bank st1) ls' = Some Ks" "agreed b0 R I st1 (\<forall>\<rho>. map (lval I \<rho>) Ks = map (lval I \<rho>) Ls)"
    by (rule rewrite_pass_sound [OF t(1) ls])
  obtain ch2 ls2 st2 Ms where 2: "rewrite_passes R n True ls' st1 = Some (ch2, ls2, st2)" "run b0 R st2" "goes_on st1 st2"
    "lits_of (rw_bank st2) ls2 = Some Ms" "agreed b0 R I st2 (\<forall>\<rho>. map (lval I \<rho>) Ms = map (lval I \<rho>) Ks)"
    using Suc.IH [OF 1(2,4)] by blast
  have on: "goes_on st st1" "goes_on st st2" using t(2) 1(3) 2(3) goes_on_trans by blast+
  have "agreed b0 R I st2 (\<forall>\<rho>. map (lval I \<rho>) Ms = map (lval I \<rho>) Ls)"
    by (rule agreed_both [OF agreed_on [OF 1(5) 2(3)] 2(5)]) simp
  moreover have "agreed b0 R I (tick st) (\<forall>\<rho>. map (lval I \<rho>) Ls = map (lval I \<rho>) Ls)" by (rule agreed_always) simp
  ultimately show ?case using t ls 1 2 on by (cases "late st"; cases ch) auto
qed

section \<open>Properties\<close>

lemma rules_ok_indexes:
  assumes "indexes (demod_index R) C" "\<forall>(s, r) \<in> C. rule_ok b (clause_store R) r"
  shows "rules_ok b R"
  using assms by (fastforce simp: rules_ok_def indexes_def)

text \<open>
  C9. Demodulation always returns, whatever the memo, the deadline and the rules (cyclic rules too). When
  it rewrites nothing the generator is unchanged. Otherwise the conclusion has the next identifier and
  the assertions of the clause, it cites the clause and unit clauses of the store whose assertions
  are among those of the clause, and in every structure in which the cited units are valid it holds
  under exactly the same valuations as the clause, so the clause may be deleted. The rules of the
  index are equations of the store, in either direction.
\<close>

theorem demodulation_sound:
  assumes "sane bank" "lits_of bank (idc_literals c) = Some Ls"
    and "indexes index C" "\<forall>(s, r) \<in> C. rule_ok bank store r"
  shows "\<exists>res bank' gen' memo' clk'. demodulate_id_until c bank index store gen memo clk = Some (res, bank', gen', memo', clk') \<and>
    becomes bank bank' \<and>
    (case res of
       None \<Rightarrow> gen' = gen
     | Some d \<Rightarrow> \<exists>units Ms. next_id gen = (idc_id d, gen') \<and> set (idc_avatar d) = set (idc_avatar c) \<and>
         idc_source d = Inference ''demodulation'' (unique (idc_id c # units)) \<and>
         (\<forall>u \<in> set units. \<exists>rule. fmlookup store u = Some rule \<and> set (idc_avatar rule) \<subseteq> set (idc_avatar c)) \<and>
         lits_of bank' (idc_literals d) = Some Ms \<and>
         (intact bank' \<longrightarrow> (\<forall>(I :: 'a interp) \<rho>. units_valid bank store (set units) I \<longrightarrow>
            (lits_hold I \<rho> Ms \<longleftrightarrow> lits_hold I \<rho> Ls))))"
proof -
  define R where "R = \<lparr>target_avatar = idc_avatar c, demod_index = index, clause_store = store\<rparr>"
  define st where "st = \<lparr>rw_bank = bank, used_unit_ids = [], rw_steps = [], rw_memo = (if idc_avatar c = [] then memo else None),
    rw_clock = clk\<rparr>"
  have run: "run bank R st" using rules_ok_indexes [of R C bank] assms(3,4) becomes_refl [OF assms(1)]
    by (simp add: run_def R_def st_def)
  have ls: "lits_of (rw_bank st) (idc_literals c) = Some Ls" using assms(2) by (simp add: st_def)
  note sound = rewrite_passes_sound [OF run ls, of 100 False]
  then obtain ch ls' st' Ms where res: "rewrite_passes R 100 False (idc_literals c) st = Some (ch, ls', st')"
    "run bank R st'" "lits_of (rw_bank st') ls' = Some Ms" by blast
  have same: "lits_hold I \<rho> Ms \<longleftrightarrow> lits_hold I \<rho> Ls"
    if "intact (rw_bank st')" "units_valid bank store (set (used_unit_ids st')) I" for I :: "'a interp" and \<rho>
  proof -
    have "map (lval I \<rho>) Ms = map (lval I \<rho>) Ls"
      using sound [of I] res(1,3) that by (auto simp: agreed_def R_def)
    then have "(\<exists>x \<in> set (map (lval I \<rho>) Ms). x) \<longleftrightarrow> (\<exists>x \<in> set (map (lval I \<rho>) Ls). x)" by simp
    then show ?thesis by (simp add: lits_hold_def)
  qed
  have b': "becomes bank (rw_bank st')" "\<forall>u \<in> set (used_unit_ids st'). \<exists>rule. fmlookup store u = Some rule \<and>
      set (idc_avatar rule) \<subseteq> set (idc_avatar c)"
    using res(2) by (simp_all add: run_def usable_def R_def)
  show ?thesis
  proof (cases ch)
    case False
    then show ?thesis using res(1) b'(1)
      by (simp add: demodulate_id_until_def Let_def R_def [symmetric] st_def [symmetric])
  next
    case True
    obtain cid gen' where g: "next_id gen = (cid, gen')" by fastforce
    define d where "d = (id_new_avatar cid ls' (Inference ''demodulation'' (unique (idc_id c # used_unit_ids st'))) (idc_avatar c))
      \<lparr>idc_witness := Some (ProofWitness.Demodulation (parent_node (idc_proof_id c) (idc_id c))
         (map (proof_node_id_of store) (used_unit_ids st')) (rw_steps st'))\<rparr>"
    have d: "idc_id d = cid" "set (idc_avatar d) = set (idc_avatar c)" "idc_literals d = ls'"
      "idc_source d = Inference ''demodulation'' (unique (idc_id c # used_unit_ids st'))"
      by (simp_all add: d_def id_new_avatar_def)
    have "demodulate_id_until c bank index store gen memo clk =
        Some (Some d, rw_bank st', gen', if idc_avatar c = [] then rw_memo st' else memo, rw_clock st')"
      using True res(1) g by (simp add: demodulate_id_until_def Let_def R_def [symmetric] st_def [symmetric] d_def)
    then show ?thesis using b' g d res(3) same by auto
  qed
qed

text \<open>The unit equation \<open>App 2 [Var 7] = Var 7\<close> as a rule, and a clause it rewrites.\<close>

definition example_unit :: IdClause where
  "example_unit = id_new_clause 5 [\<lparr>id_positive = True, id_atom = IdEq 2 1\<rparr>] (Input ''unit'' ''axiom'')"

definition example_target :: IdClause where
  "example_target = id_new_clause 6 [\<lparr>id_positive = True, id_atom = IdPred 9 [3]\<rparr>] (Input ''target'' ''axiom'')"

definition example_rules :: "rule STreeId" where
  "example_rules = the (st_insert 2 example_bank (2, 1, 5) st_new)"

definition example_store :: "(ClauseId, IdClause) fmap" where
  "example_store = fmupd 5 example_unit fmempty"

lemma example_id_2: "to_legacy example_bank 2 = Some (App 2 [Var 7])"
  by (simp add: to_legacy_node node_at_def example_bank_nodes)

lemma example_rules_hold: "indexes example_rules {(App 2 [Var 7], (2, 1, 5))}"
  using indexes_insert [OF indexes_new example_id_2, of "(2, 1, 5) :: rule"] by (auto simp: example_rules_def)

lemma example_rule_ok: "rule_ok example_bank example_store (2, 1, 5)"
  by (simp add: rule_ok_def example_id_2 example_ids example_store_def example_unit_def id_new_clause_def literal_to_legacy_def)

theorem demodulation_sound_witness:
  "\<exists>res bank' gen' memo' clk'. demodulate_id_until example_target example_bank example_rules example_store
      new_gen (Some demod_memo_new) [] = Some (res, bank', gen', memo', clk') \<and>
    becomes example_bank bank' \<and>
    (case res of
       None \<Rightarrow> gen' = new_gen
     | Some d \<Rightarrow> \<exists>units Ms. next_id new_gen = (idc_id d, gen') \<and> set (idc_avatar d) = set (idc_avatar example_target) \<and>
         idc_source d = Inference ''demodulation'' (unique (idc_id example_target # units)) \<and>
         (\<forall>u \<in> set units. \<exists>rule. fmlookup example_store u = Some rule \<and> set (idc_avatar rule) \<subseteq> set (idc_avatar example_target)) \<and>
         lits_of bank' (idc_literals d) = Some Ms \<and>
         (intact bank' \<longrightarrow> (\<forall>(I :: bool interp) \<rho>. units_valid example_bank example_store (set units) I \<longrightarrow>
            (lits_hold I \<rho> Ms \<longleftrightarrow> lits_hold I \<rho> [\<lparr>positive = True, atom = Pred 9 [example_term]\<rparr>]))))"
  by (rule demodulation_sound [OF bank_ok_sane [OF example_bank_ok] _ example_rules_hold])
    (simp_all add: example_rule_ok example_target_def id_new_clause_def literal_to_legacy_def example_ids)

end
