(* ===== verification/DemodCache.thy ===== *)
theory DemodCache
  imports DemodSound
begin

text \<open>
  The memo of irreducible terms: while its current entries are right, demodulation with the memo does
  what it does without, and invalidation makes every memo right for any set of rules.
\<close>

section \<open>Irreducible terms\<close>

definition none_applies :: "rules \<Rightarrow> TermBank \<Rightarrow> TermId \<Rightarrow> bool" where
  "none_applies R b i \<longleftrightarrow> (\<exists>rs. st_get_generalizations i b (demod_index R) = Some rs \<and> find_rule R i b rs = Some None)"

text \<open>No rule applies at any position of the term.\<close>

inductive irreducible :: "rules \<Rightarrow> TermBank \<Rightarrow> TermId \<Rightarrow> bool" for R b where
  variable: "node_at b i = Some (NVar v) \<Longrightarrow> none_applies R b i \<Longrightarrow> irreducible R b i"
| application: "node_at b i = Some (NApp f args) \<Longrightarrow> none_applies R b i \<Longrightarrow> (\<And>a. a \<in> set args \<Longrightarrow> irreducible R b a) \<Longrightarrow>
    irreducible R b i"

definition memo_right :: "rules \<Rightarrow> TermBank \<Rightarrow> DemodMemo \<Rightarrow> bool" where
  "memo_right R b m \<longleftrightarrow> (\<forall>i. fmlookup (memo_entries m) i = Some (generation m) \<longrightarrow> irreducible R b i)"

text \<open>Entries are not younger than the memo.\<close>

definition memo_aged :: "DemodMemo \<Rightarrow> bool" where
  "memo_aged m \<longleftrightarrow> (\<forall>i g. fmlookup (memo_entries m) i = Some g \<longrightarrow> g \<le> generation m)"

section \<open>A larger bank\<close>

lemma candidates_on:
  assumes "to_legacy b i = Some t" "extends b b'"
  shows "st_get_generalizations i b' idx = st_get_generalizations i b idx"
proof -
  obtain node where "node_at b i = Some node" using assms(1) by (cases t) (auto simp: to_legacy_Var to_legacy_App)
  then have root: "can_generalize_root i b' idx = can_generalize_root i b idx"
    using extends_node_at [OF assms(2)] by (simp add: can_generalize_root_def)
  have flat: "flatten_id i b' = flatten_id i b"
    using flatten_id_eq [OF assms(1)] flatten_id_eq [OF extends_to_legacy [OF assms(2,1)]] by simp
  show ?thesis by (simp only: st_get_generalizations_def root flat)
qed

lemma find_none_on:
  assumes b: "becomes b0 b" "becomes b b'" and i: "to_legacy b i = Some t"
  shows "\<forall>r \<in> set rs. rule_ok b0 (clause_store R) r \<Longrightarrow> find_rule R i b rs = Some None \<Longrightarrow> find_rule R i b' rs = Some None"
proof (induction rs)
  case (Cons r rs)
  obtain from_id to_id u where r: "r = (from_id, to_id, u)" by (cases r)
  have IH: "find_rule R i b rs = Some None \<Longrightarrow> find_rule R i b' rs = Some None" using Cons by simp
  show ?case
  proof (cases "usable R u")
    case False
    then have "find_rule R i x (r # rs) = find_rule R i x rs" for x
      using r by (auto simp: usable_def list_all_iff split: option.split)
    then show ?thesis using IH Cons.prems(2) by simp
  next
    case True
    then obtain c where c: "fmlookup (clause_store R) u = Some c" "set (idc_avatar c) \<subseteq> set (target_avatar R)"
      by (auto simp: usable_def)
    then have av: "list_all (\<lambda>a. a \<in> set (target_avatar R)) (idc_avatar c)" by (auto simp: list_all_iff)
    obtain s where "to_legacy b0 from_id = Some s" using Cons.prems(1) r by (auto simp: rule_ok_def)
    then have s: "to_legacy b from_id = Some s" using extends_to_legacy becomes_extends [OF b(1)] by blast
    note s' = extends_to_legacy [OF becomes_extends [OF b(2)] s] and i' = extends_to_legacy [OF becomes_extends [OF b(2)] i]
    from becomes_sane [OF b(1)] s i show ?thesis
    proof (cases rule: match_carries)
      case (1 e)
      then have none: "\<forall>\<sigma>. inst \<sigma> s \<noteq> t"
        using match_rec_id_matched [OF sane_wf [OF becomes_sane [OF b(1)]] s i, of id_new_subst]
        by (auto simp: match_term_id_def)
      have rest: "find_rule R i b rs = Some None" using Cons.prems(2) r c(1) av 1 by simp
      from becomes_sane [OF b(2)] s' i' show ?thesis
      proof (cases rule: match_carries)
        case (1 e')
        then show ?thesis using IH [OF rest] r c(1) av by simp
      qed (use none in blast)
    next
      case (2 sigma \<theta>)
      then show ?thesis using Cons.prems(2) r c(1) av by simp
    qed
  qed
qed simp

lemma rules_found:
  assumes "rules_ok b0 R" "to_legacy b i = Some t" "st_get_generalizations i b (demod_index R) = Some rs"
  shows "\<forall>r \<in> set rs. rule_ok b0 (clause_store R) r"
proof -
  have R: "tree_ok (demod_index R)" "\<forall>p v. st_has (demod_index R) p v \<longrightarrow> rule_ok b0 (clause_store R) v"
    using assms(1) by (simp_all add: rules_ok_def)
  show ?thesis using generalizations_total [OF R(1) assms(2)] assms(3) R(2) by fastforce
qed

lemma none_applies_on:
  assumes "rules_ok b0 R" "becomes b0 b" "becomes b b'" "to_legacy b i = Some t" "none_applies R b i"
  shows "none_applies R b' i"
proof -
  obtain rs where rs: "st_get_generalizations i b (demod_index R) = Some rs" "find_rule R i b rs = Some None"
    using assms(5) by (auto simp: none_applies_def)
  have "find_rule R i b' rs = Some None"
    by (rule find_none_on [OF assms(2-4) rules_found [OF assms(1,4) rs(1)] rs(2)])
  then show ?thesis using rs(1) candidates_on [OF assms(4) becomes_extends [OF assms(3)], of "demod_index R"]
    by (simp add: none_applies_def)
qed

lemma irreducible_on:
  assumes "rules_ok b0 R" "becomes b0 b" "becomes b b'"
  shows "irreducible R b i \<Longrightarrow> irreducible R b' i"
proof (induction rule: irreducible.induct)
  case (variable i v)
  have "to_legacy b i = Some (Var v)" using variable(1) by (simp add: to_legacy_Var)
  from none_applies_on [OF assms this variable(2)] show ?case
    using irreducible.variable extends_node_at [OF becomes_extends [OF assms(3)] variable(1)] by blast
next
  case (application i f args)
  have "is_id b i" using application(1) becomes_sane [OF assms(2)] by (simp add: sane_id node_at_def split: if_splits)
  then obtain t where "to_legacy b i = Some t" by (auto simp: is_id_def)
  from none_applies_on [OF assms this application(2)] show ?case
    using irreducible.application extends_node_at [OF becomes_extends [OF assms(3)] application(1)] application(4) by blast
qed

lemma memo_right_on:
  "rules_ok b0 R \<Longrightarrow> becomes b0 b \<Longrightarrow> becomes b b' \<Longrightarrow> memo_right R b m \<Longrightarrow> memo_right R b' m"
  using irreducible_on unfolding memo_right_def by blast

section \<open>Irreducible terms are left alone\<close>

lemma no_late [simp]: "rw_clock st = [] \<Longrightarrow> \<not> late st" "\<not> expired []"
  by (simp_all add: expired_def)

lemma no_tick [simp]: "rw_clock st = [] \<Longrightarrow> tick st = st"
  by (cases st) (simp add: tick_def)

lemma loop_unchanged:
  assumes "rw_clock st = []" "\<And>a path. a \<in> set args \<Longrightarrow> recur a path st = Some ((a, False), st)"
  shows "foldM (\<lambda>p s.
      if fst s then Some s
      else if late (snd (snd s)) then Some (True, fst (snd s), tick (snd (snd s)))
      else do {
        ((a, ch), st) \<leftarrow> recur (snd p) (path @ [fst p]) (tick (snd (snd s)));
        Some (False, if ch then fst (snd s) @ [(fst p, a)] else fst (snd s), st) })
      (enumerate m args) (False, [], st) = Some (False, [], st)"
  using assms(2) by (induction args arbitrary: m) (simp_all add: assms(1))

lemma irreducible_unchanged:
  assumes "rw_memo st = None" "rw_clock st = []"
  shows "irreducible R (rw_bank st) i \<Longrightarrow> rewrite_term_id_until R k i path st = Some ((i, False), st)"
proof (induction arbitrary: path rule: irreducible.induct)
  case (variable i v)
  then show ?case using assms
    by (subst rewrite_term_id_until.simps) (auto simp: none_applies_def ask_memo_def remember_def)
next
  case (application i f args)
  note loop = loop_unchanged [where recur = "\<lambda>a path st. rewrite_term_id_until R k a path st", OF assms(2) application(4)]
  from application(1,2) show ?case using assms loop
    by (subst rewrite_term_id_until.simps) (auto simp: none_applies_def ask_memo_def remember_def)
qed

section \<open>The two runs go together\<close>

definition plain :: "rewriting \<Rightarrow> rewriting" where
  "plain st = st\<lparr>rw_memo := None\<rparr>"

lemma plain_simps [simp]:
  "rw_bank (plain st) = rw_bank st" "used_unit_ids (plain st) = used_unit_ids st" "rw_steps (plain st) = rw_steps st"
  "rw_memo (plain st) = None" "rw_clock (plain st) = rw_clock st"
  by (simp_all add: plain_def)

definition linked :: "TermBank \<Rightarrow> rules \<Rightarrow> rewriting \<Rightarrow> bool" where
  "linked b0 R st \<longleftrightarrow> run b0 R st \<and> rw_clock st = [] \<and> \<not> has_var_root (demod_index R) \<and>
     (\<exists>m. rw_memo st = Some m \<and> memo_right R (rw_bank st) m)"

lemma linked_irreducible:
  "linked b0 R st \<Longrightarrow> linked b0 R st' \<Longrightarrow> goes_on st st' \<Longrightarrow> irreducible R (rw_bank st) i \<Longrightarrow> irreducible R (rw_bank st') i"
  using irreducible_on [of b0 R "rw_bank st" "rw_bank st'" i] unfolding linked_def run_def goes_on_def becomes_def by blast

lemma linked_on:
  assumes "linked b0 R st" "run b0 R st'" "goes_on st st'" "rw_memo st' = rw_memo st" "rw_clock st' = []"
  shows "linked b0 R st'"
proof -
  have "becomes (rw_bank st) (rw_bank st')" "becomes b0 (rw_bank st)" "rules_ok b0 R"
    using assms(1-3) by (auto simp: linked_def run_def goes_on_def becomes_def)
  then show ?thesis using assms memo_right_on unfolding linked_def by metis
qed

lemma linked_memo:
  "linked b0 R st \<Longrightarrow> memo_right R (rw_bank st) m \<Longrightarrow> linked b0 R (st\<lparr>rw_memo := Some m\<rparr>)"
  by (simp add: linked_def run_def)

text \<open>\<open>twin\<close>: both runs give the same, and what did not change is irreducible.\<close>

definition twin :: "TermBank \<Rightarrow> rules \<Rightarrow> rewriting \<Rightarrow> TermId \<Rightarrow> ((TermId \<times> bool) \<times> rewriting) option
    \<Rightarrow> ((TermId \<times> bool) \<times> rewriting) option \<Rightarrow> bool" where
  "twin b0 R st i res res' \<longleftrightarrow> (\<exists>j ch st'. res = Some ((j, ch), st') \<and> res' = Some ((j, ch), plain st') \<and> linked b0 R st' \<and>
     goes_on st st' \<and> (\<not> ch \<longrightarrow> irreducible R (rw_bank st') i))"

lemma remember_twin:
  assumes "linked b0 R st1" "goes_on st st1" "irreducible R (rw_bank st1) i" "to_legacy (rw_bank st1) i = Some t"
  shows "twin b0 R st i (do { st \<leftarrow> remember i st1; Some ((i, False), st) })
    (do { st \<leftarrow> remember i (plain st1); Some ((i, False), st) })"
proof -
  obtain m where m: "rw_memo st1 = Some m" "memo_right R (rw_bank st1) m" "rw_clock st1 = []"
    using assms(1) by (auto simp: linked_def)
  obtain key where key: "root_key i (rw_bank st1) = Some key" using root_key_total [OF assms(4)] by blast
  then obtain m' where m': "record_irreducible i (rw_bank st1) m = Some m'" "memo_right R (rw_bank st1) m'"
    using m(2) assms(3) by (auto simp: record_irreducible_def memo_right_def Let_def split: option.split)
  have "remember i st1 = Some (st1\<lparr>rw_memo := Some m'\<rparr>)" using m m'(1) by (simp add: remember_def)
  moreover have "remember i (plain st1) = Some (plain (st1\<lparr>rw_memo := Some m'\<rparr>))"
    using m by (simp add: remember_def plain_def)
  ultimately show ?thesis using linked_memo [OF assms(1) m'(2)] assms(2,3)
    by (auto simp: twin_def goes_on_def)
qed

lemma ask_memo_cases:
  assumes "linked b0 R st" "node_at (rw_bank st) i = Some (NApp f args)"
  obtains st1 where "ask_memo i st = Some (True, st1)" "irreducible R (rw_bank st) i"
    "linked b0 R st1" "goes_on st st1" "plain st1 = plain st"
  | st1 where "ask_memo i st = Some (False, st1)" "linked b0 R st1" "goes_on st st1" "plain st1 = plain st"
proof -
  obtain m where m: "rw_memo st = Some m" "memo_right R (rw_bank st) m" using assms(1) by (auto simp: linked_def)
  define hit where "hit \<longleftrightarrow> fmlookup (memo_entries m) i = Some (generation m)"
  define m' where "m' = (if hit then m\<lparr>lookups := lookups m + 1, hits := hits m + 1\<rparr> else m\<lparr>lookups := lookups m + 1\<rparr>)"
  have ask: "ask_memo i st = Some (hit, st\<lparr>rw_memo := Some m'\<rparr>)"
    using m(1) assms(2) by (simp add: ask_memo_def is_irreducible_def root_key_def hit_def [symmetric] m'_def Let_def)
  have "memo_right R (rw_bank st) m'" using m(2) by (simp add: memo_right_def m'_def)
  then have l: "linked b0 R (st\<lparr>rw_memo := Some m'\<rparr>)" "goes_on st (st\<lparr>rw_memo := Some m'\<rparr>)"
    "plain (st\<lparr>rw_memo := Some m'\<rparr>) = plain st"
    using linked_memo [OF assms(1)] goes_on_refl [of st] by (simp_all add: goes_on_def plain_def)
  show thesis
  proof (cases hit)
    case True
    then have "irreducible R (rw_bank st) i" using m(2) by (simp add: hit_def memo_right_def)
    then show thesis using that(1) ask l True by simp
  qed (use that(2) ask l in simp)
qed

lemma variable_none:
  assumes "linked b0 R st" "node_at (rw_bank st) i = Some (NVar v)"
  shows "st_get_generalizations i (rw_bank st) (demod_index R) = Some []"
  using assms by (simp add: st_get_generalizations_def can_generalize_root_def linked_def)

lemma rewrite_root_plain:
  assumes "linked b0 R st" "applies b0 R (rw_bank st) t x"
  obtains j st' where "rewrite_root R k path x st = Some (j, st')" "rewrite_root R k path x (plain st) = Some (j, plain st')"
    "linked b0 R st'" "goes_on st st'"
proof -
  have run: "run b0 R st" using assms(1) by (simp add: linked_def)
  obtain j y st' where r: "rewrite_root R k path x st = Some (j, st')" "run b0 R st'" "goes_on st st'"
    by (rule rewrite_root_sound [OF run assms(2)])
  obtain sigma to_id u where x: "x = (sigma, to_id, u)" by (cases x)
  have "rw_memo st' = rw_memo st \<and> rw_clock st' = rw_clock st \<and> rewrite_root R k path x (plain st) = Some (j, plain st')"
    using r(1) by (auto simp: rewrite_root_def x bind_eq_Some_conv plain_def)
  then show thesis using that r linked_on [OF assms(1) r(2,3)] assms(1) by (auto simp: linked_def)
qed

lemma args_twin:
  assumes step: "\<forall>a t path st. t \<in> set ts \<longrightarrow> linked b0 R st \<longrightarrow> to_legacy (rw_bank st) a = Some t \<longrightarrow>
      twin b0 R st a (recur a path st) (recur a path (plain st))"
  shows "linked b0 R st \<Longrightarrow> mapM (to_legacy (rw_bank st)) args = Some us \<Longrightarrow> set us \<subseteq> set ts \<Longrightarrow>
    \<exists>changes' st'.
      foldM (\<lambda>p s.
        if fst s then Some s
        else if late (snd (snd s)) then Some (True, fst (snd s), tick (snd (snd s)))
        else do {
          ((a, ch), st) \<leftarrow> recur (snd p) (path @ [fst p]) (tick (snd (snd s)));
          Some (False, if ch then fst (snd s) @ [(fst p, a)] else fst (snd s), st) })
        (enumerate m args) (False, changes, st) = Some (False, changes @ changes', st') \<and>
      foldM (\<lambda>p s.
        if fst s then Some s
        else if late (snd (snd s)) then Some (True, fst (snd s), tick (snd (snd s)))
        else do {
          ((a, ch), st) \<leftarrow> recur (snd p) (path @ [fst p]) (tick (snd (snd s)));
          Some (False, if ch then fst (snd s) @ [(fst p, a)] else fst (snd s), st) })
        (enumerate m args) (False, changes, plain st) = Some (False, changes @ changes', plain st') \<and>
      linked b0 R st' \<and> goes_on st st' \<and> (changes' = [] \<longrightarrow> (\<forall>a \<in> set args. irreducible R (rw_bank st') a))"
proof (induction args arbitrary: us m changes st)
  case Nil
  then show ?case using goes_on_refl by auto
next
  case (Cons a args)
  obtain t vs where us: "us = t # vs" "to_legacy (rw_bank st) a = Some t" "mapM (to_legacy (rw_bank st)) args = Some vs"
    using Cons.prems(2) by (auto simp: bind_eq_Some_conv)
  then obtain j ch st1 where 1: "recur a (path @ [m]) st = Some ((j, ch), st1)" "recur a (path @ [m]) (plain st) = Some ((j, ch), plain st1)"
    "linked b0 R st1" "goes_on st st1" "\<not> ch \<longrightarrow> irreducible R (rw_bank st1) a"
    using step [rule_format, of t st a "path @ [m]"] Cons.prems(1,3) unfolding twin_def by auto
  have clock: "rw_clock st = []" using Cons.prems(1) by (simp add: linked_def)
  have "set vs \<subseteq> set ts" using Cons.prems(3) us(1) by simp
  then obtain ch2 st2 where 2: "foldM (\<lambda>p s.
        if fst s then Some s
        else if late (snd (snd s)) then Some (True, fst (snd s), tick (snd (snd s)))
        else do {
          ((a, ch), st) \<leftarrow> recur (snd p) (path @ [fst p]) (tick (snd (snd s)));
          Some (False, if ch then fst (snd s) @ [(fst p, a)] else fst (snd s), st) })
        (enumerate (Suc m) args) (False, if ch then changes @ [(m, j)] else changes, st1) =
          Some (False, (if ch then changes @ [(m, j)] else changes) @ ch2, st2)"
      "foldM (\<lambda>p s.
        if fst s then Some s
        else if late (snd (snd s)) then Some (True, fst (snd s), tick (snd (snd s)))
        else do {
          ((a, ch), st) \<leftarrow> recur (snd p) (path @ [fst p]) (tick (snd (snd s)));
          Some (False, if ch then fst (snd s) @ [(fst p, a)] else fst (snd s), st) })
        (enumerate (Suc m) args) (False, if ch then changes @ [(m, j)] else changes, plain st1) =
          Some (False, (if ch then changes @ [(m, j)] else changes) @ ch2, plain st2)"
      "linked b0 R st2" "goes_on st1 st2" "ch2 = [] \<longrightarrow> (\<forall>a \<in> set args. irreducible R (rw_bank st2) a)"
    using Cons.IH [OF 1(3) goes_on_reads_all [OF 1(4) us(3)]] by blast
  have "\<not> ch \<longrightarrow> irreducible R (rw_bank st2) a" using 1(5) linked_irreducible [OF 1(3) 2(3,4)] by blast
  then show ?case
    using 1(1,2) 2 goes_on_trans [OF 1(4) 2(4)] clock
    by (intro exI [of _ "(if ch then [(m, j)] else []) @ ch2"] exI [of _ st2]) auto
qed

text \<open>The part after the memo was asked.\<close>

lemma walk_twin:
  fixes path :: "nat list" and k :: nat
  assumes st: "linked b0 R st1" "goes_on st st1" "node_at (rw_bank st1) i = Some (NApp f args)"
    "mapM (to_legacy (rw_bank st1)) args = Some ts"
    and step: "\<And>a t path st. t \<in> set ts \<Longrightarrow> linked b0 R st \<Longrightarrow> to_legacy (rw_bank st) a = Some t \<Longrightarrow>
      twin b0 R st a (rewrite_term_id_until R k a path st) (rewrite_term_id_until R k a path (plain st))"
  defines "walk \<equiv> \<lambda>st. do {
      candidates \<leftarrow> st_get_generalizations i (rw_bank st) (demod_index R);
      applied \<leftarrow> find_rule R i (rw_bank st) candidates;
      case applied of
        Some r \<Rightarrow> do { (j, st) \<leftarrow> rewrite_root R k path r st; Some ((j, True), st) }
      | None \<Rightarrow> do {
          node \<leftarrow> node_at (rw_bank st) i;
          case node of
            NVar v \<Rightarrow> do { st \<leftarrow> remember i st; Some ((i, False), st) }
          | NApp f args \<Rightarrow> do {
              (stopped, changes, st) \<leftarrow> foldM (\<lambda>p s.
                if fst s then Some s
                else if late (snd (snd s)) then Some (True, fst (snd s), tick (snd (snd s)))
                else do {
                  ((a, ch), st) \<leftarrow> rewrite_term_id_until R k (snd p) (path @ [fst p]) (tick (snd (snd s)));
                  Some (False, if ch then fst (snd s) @ [(fst p, a)] else fst (snd s), st) })
                (enumerate 0 args) (False, [], st);
              if changes = [] then do { st \<leftarrow> remember i st; Some ((i, False), st) }
              else let (j, bank) = intern_app f (put_args changes args) (rw_bank st)
                in Some ((j, True), st\<lparr>rw_bank := bank\<rparr>) } } }"
  shows "twin b0 R st i (walk st1) (walk (plain st1))"
proof -
  have i1: "to_legacy (rw_bank st1) i = Some (App f ts)" using st(3,4) by (simp add: to_legacy_App)
  have run: "run b0 R st1" using st(1) by (simp add: linked_def)
  then have R: "tree_ok (demod_index R)" "rules_ok b0 R" "becomes b0 (rw_bank st1)" by (simp_all add: run_def rules_ok_def)
  obtain rs where rs: "st_get_generalizations i (rw_bank st1) (demod_index R) = Some rs"
    using generalizations_total [OF R(1) i1] by blast
  obtain res where res: "find_rule R i (rw_bank st1) rs = Some res" "\<forall>x. res = Some x \<longrightarrow> applies b0 R (rw_bank st1) (App f ts) x"
    using find_rule_total [OF R(3) i1 rules_found [OF R(2) i1 rs]] by blast
  show ?thesis
  proof (cases res)
    case (Some x)
    have "applies b0 R (rw_bank st1) (App f ts) x" using res(2) Some by simp
    then obtain j st2 where "rewrite_root R k path x st1 = Some (j, st2)" "rewrite_root R k path x (plain st1) = Some (j, plain st2)"
      "linked b0 R st2" "goes_on st1 st2" by (rule rewrite_root_plain [OF st(1)])
    then show ?thesis using rs res(1) Some goes_on_trans [OF st(2)] by (auto simp: walk_def twin_def)
  next
    case None
    have step': "\<forall>a t path st. t \<in> set ts \<longrightarrow> linked b0 R st \<longrightarrow> to_legacy (rw_bank st) a = Some t \<longrightarrow>
        twin b0 R st a (rewrite_term_id_until R k a path st) (rewrite_term_id_until R k a path (plain st))"
      using step by blast
    obtain changes st2 where loop: "foldM (\<lambda>p s.
        if fst s then Some s
        else if late (snd (snd s)) then Some (True, fst (snd s), tick (snd (snd s)))
        else do {
          ((a, ch), st) \<leftarrow> rewrite_term_id_until R k (snd p) (path @ [fst p]) (tick (snd (snd s)));
          Some (False, if ch then fst (snd s) @ [(fst p, a)] else fst (snd s), st) })
        (enumerate 0 args) (False, [], st1) = Some (False, changes, st2)"
      "foldM (\<lambda>p s.
        if fst s then Some s
        else if late (snd (snd s)) then Some (True, fst (snd s), tick (snd (snd s)))
        else do {
          ((a, ch), st) \<leftarrow> rewrite_term_id_until R k (snd p) (path @ [fst p]) (tick (snd (snd s)));
          Some (False, if ch then fst (snd s) @ [(fst p, a)] else fst (snd s), st) })
        (enumerate 0 args) (False, [], plain st1) = Some (False, changes, plain st2)"
      "linked b0 R st2" "goes_on st1 st2" "changes = [] \<longrightarrow> (\<forall>a \<in> set args. irreducible R (rw_bank st2) a)"
      using args_twin [of ts b0 R "\<lambda>a path st. rewrite_term_id_until R k a path st" st1 args ts path 0 "[]", OF step' st(1,4) order_refl]
      unfolding append_Nil by (elim exE conjE) (rule that; assumption)
    have on: "goes_on st st2" by (rule goes_on_trans [OF st(2) loop(4)])
    have walk: "walk s = (if changes = [] then do { st \<leftarrow> remember i s'; Some ((i, False), st) }
        else let (j, bank) = intern_app f (put_args changes args) (rw_bank s')
          in Some ((j, True), s'\<lparr>rw_bank := bank\<rparr>))"
      if "s = st1 \<and> s' = st2 \<or> s = plain st1 \<and> s' = plain st2" for s s'
      using that rs res(1) None st(3) loop(1,2) by (auto simp: walk_def)
    show ?thesis
    proof (cases "changes = []")
      case True
      have node: "node_at (rw_bank st2) i = Some (NApp f args)"
        using extends_node_at [OF _ st(3)] loop(4) by (simp add: goes_on_def)
      have "becomes (rw_bank st1) (rw_bank st2)" using loop(3,4) by (auto simp: linked_def run_def goes_on_def becomes_def)
      from none_applies_on [OF R(2,3) this i1] have "none_applies R (rw_bank st2) i"
        using rs res(1) None by (simp add: none_applies_def)
      then have "irreducible R (rw_bank st2) i" using irreducible.application [OF node] loop(5) True by blast
      then show ?thesis
        using remember_twin [OF loop(3) on _ goes_on_reads [OF loop(4) i1]] True walk [of st1 st2] walk [of "plain st1" "plain st2"]
        by simp
    next
      case False
      obtain j b' where j: "intern_app f (put_args changes args) (rw_bank st2) = (j, b')" by fastforce
      have w: "walk st1 = Some ((j, True), st2\<lparr>rw_bank := b'\<rparr>)" "walk (plain st1) = Some ((j, True), plain (st2\<lparr>rw_bank := b'\<rparr>))"
        using False walk [of st1 st2] walk [of "plain st1" "plain st2"] j by (simp_all add: plain_def)
      obtain ys where "mapM (to_legacy (rw_bank st2)) (put_args changes args) = Some ys"
        by (rule rewrite_args [where recur = "\<lambda>a path st. rewrite_term_id_until R k a path st" and path = path
              and I = "undefined :: bool interp", OF rewrite_term_sound run st(4)]) (use loop(1) in auto)
      then have "becomes (rw_bank st2) b'"
        using intern_app_becomes [OF run_sane all_meansI [where d = to_legacy] j] loop(3) by (auto simp: linked_def)
      then have on': "goes_on st2 (st2\<lparr>rw_bank := b'\<rparr>)" and run': "run b0 R (st2\<lparr>rw_bank := b'\<rparr>)"
        using loop(3) becomes_trans [of b0 "rw_bank st2" b'] by (auto simp: goes_on_def linked_def run_def becomes_extends)
      have "linked b0 R (st2\<lparr>rw_bank := b'\<rparr>)"
        by (rule linked_on [OF loop(3) run' on']) (use loop(3) in \<open>simp_all add: linked_def\<close>)
      then show ?thesis unfolding w twin_def using goes_on_trans [OF on on']
        by (intro exI [of _ j] exI [of _ True] exI [of _ "st2\<lparr>rw_bank := b'\<rparr>"]) simp
    qed
  qed
qed

lemma rewrite_term_twin:
  "linked b0 R st \<Longrightarrow> to_legacy (rw_bank st) i = Some t \<Longrightarrow>
    twin b0 R st i (rewrite_term_id_until R k i path st) (rewrite_term_id_until R k i path (plain st))"
proof (induction t arbitrary: i path st)
  case (Var v)
  have clock: "rw_clock st = []" and node: "node_at (rw_bank st) i = Some (NVar v)"
    using Var by (simp_all add: linked_def to_legacy_Var)
  obtain m where m: "rw_memo st = Some m" using Var(1) by (auto simp: linked_def)
  have none: "st_get_generalizations i (rw_bank st) (demod_index R) = Some []" by (rule variable_none [OF Var(1) node])
  have "ask_memo i st = Some (True, st)" using m node by (simp add: ask_memo_def is_irreducible_def root_key_def)
  then have "rewrite_term_id_until R k i path st = Some ((i, False), st)"
    using clock by (subst rewrite_term_id_until.simps) simp
  moreover have "rewrite_term_id_until R k i path (plain st) = Some ((i, False), plain st)"
    using clock none node by (subst rewrite_term_id_until.simps) (simp add: ask_memo_def remember_def)
  moreover have "irreducible R (rw_bank st) i"
    using irreducible.variable [OF node] none by (simp add: none_applies_def)
  ultimately show ?case using Var(1) goes_on_refl by (auto simp: twin_def)
next
  case (App f ts)
  have clock: "rw_clock st = []" using App.prems(1) by (simp add: linked_def)
  obtain args where args: "node_at (rw_bank st) i = Some (NApp f args)" "mapM (to_legacy (rw_bank st)) args = Some ts"
    using App.prems(2) by (auto simp: to_legacy_App)
  have no_memo: "ask_memo i (plain st) = Some (False, plain st)" by (simp add: ask_memo_def)
  from App.prems(1) args(1) show ?case
  proof (cases rule: ask_memo_cases)
    case (1 st1)
    have "rewrite_term_id_until R k i path st = Some ((i, False), st1)"
      using clock 1(1) by (subst rewrite_term_id_until.simps) simp
    moreover have "rewrite_term_id_until R k i path (plain st) = Some ((i, False), plain st)"
      using clock 1(2) by (intro irreducible_unchanged) simp_all
    ultimately show ?thesis
      using 1(3-5) linked_irreducible [OF App.prems(1) 1(3,4,2)] by (auto simp: twin_def)
  next
    case (2 st1)
    have bank: "node_at (rw_bank st1) i = Some (NApp f args)" "mapM (to_legacy (rw_bank st1)) args = Some ts"
      using args goes_on_reads_all [OF 2(3)] extends_node_at 2(3) by (auto simp: goes_on_def)
    note w = walk_twin [OF 2(2,3) bank App.IH]
    show ?thesis
      unfolding rewrite_term_id_until.simps [of R k i path st] rewrite_term_id_until.simps [of R k i path "plain st"]
      using w [where path = path] clock 2(1) no_memo 2(4) by simp
  qed
qed

section \<open>Clauses\<close>

lemma each_argument_twin:
  "linked b0 R st \<Longrightarrow> mapM (to_legacy (rw_bank st)) args = Some ts \<Longrightarrow>
    \<exists>rs st'. mapM_st (\<lambda>(n, a) st. rewrite_term_id_until R k a [n] st) (enumerate m args) st = Some (rs, st') \<and>
      mapM_st (\<lambda>(n, a) st. rewrite_term_id_until R k a [n] st) (enumerate m args) (plain st) = Some (rs, plain st') \<and>
      linked b0 R st' \<and> goes_on st st'"
proof (induction args arbitrary: ts m st)
  case Nil
  then show ?case using goes_on_refl by auto
next
  case (Cons a args)
  obtain t us where ts: "to_legacy (rw_bank st) a = Some t" "mapM (to_legacy (rw_bank st)) args = Some us"
    using Cons.prems(2) by (auto simp: bind_eq_Some_conv)
  obtain j ch st1 where 1: "rewrite_term_id_until R k a [m] st = Some ((j, ch), st1)"
    "rewrite_term_id_until R k a [m] (plain st) = Some ((j, ch), plain st1)" "linked b0 R st1" "goes_on st st1"
    using rewrite_term_twin [OF Cons.prems(1) ts(1), of k "[m]"] unfolding twin_def by blast
  obtain rs st2 where "mapM_st (\<lambda>(n, a) st. rewrite_term_id_until R k a [n] st) (enumerate (Suc m) args) st1 = Some (rs, st2)"
    "mapM_st (\<lambda>(n, a) st. rewrite_term_id_until R k a [n] st) (enumerate (Suc m) args) (plain st1) = Some (rs, plain st2)"
    "linked b0 R st2" "goes_on st1 st2"
    using Cons.IH [OF 1(3) goes_on_reads_all [OF 1(4) ts(2)]] by blast
  then show ?case using 1 goes_on_trans [OF 1(4)] by auto
qed

lemma literal_twin:
  assumes "linked b0 R st" "literal_to_legacy (rw_bank st) l = Some L"
  obtains ch l' st' where "rewrite_literal_id_until R k l st = Some (ch, l', st')"
    "rewrite_literal_id_until R k l (plain st) = Some (ch, l', plain st')" "linked b0 R st'" "goes_on st st'"
proof -
  have "atom_to_legacy (rw_bank st) (id_atom l) = Some (atom L)" using assms(2) by (simp add: literal_to_legacy_iff)
  then show thesis
  proof (cases rule: atom_to_legacy_cases)
    case (1 p args ts)
    obtain rs st' where "mapM_st (\<lambda>(n, a) st. rewrite_term_id_until R k a [n] st) (enumerate 0 args) st = Some (rs, st')"
      "mapM_st (\<lambda>(n, a) st. rewrite_term_id_until R k a [n] st) (enumerate 0 args) (plain st) = Some (rs, plain st')"
      "linked b0 R st'" "goes_on st st'" using each_argument_twin [OF assms(1) 1(3)] by blast
    then show thesis using that 1(1) by (simp add: rewrite_literal_id_until_def)
  next
    case (2 i j t u)
    obtain i' ch1 st1 where i: "rewrite_term_id_until R k i [0] st = Some ((i', ch1), st1)"
      "rewrite_term_id_until R k i [0] (plain st) = Some ((i', ch1), plain st1)" "linked b0 R st1" "goes_on st st1"
      using rewrite_term_twin [OF assms(1) 2(3), of k "[0]"] unfolding twin_def by blast
    obtain j' ch2 st2 where j: "rewrite_term_id_until R k j [1] st1 = Some ((j', ch2), st2)"
      "rewrite_term_id_until R k j [1] (plain st1) = Some ((j', ch2), plain st2)" "linked b0 R st2" "goes_on st1 st2"
      using rewrite_term_twin [OF i(3) goes_on_reads [OF i(4) 2(4)], of k "[1]"] unfolding twin_def by blast
    show thesis using that i(1,2) j 2(1) goes_on_trans [OF i(4) j(4)] by (simp add: rewrite_literal_id_until_def)
  qed
qed

lemma pass_loop_twin:
  "linked b0 R st \<Longrightarrow> lits_of (rw_bank st) ls = Some Ls \<Longrightarrow>
    \<exists>changed' ls' st'. foldM (\<lambda>(k, l) (stopped, changed, out, st).
       if stopped then Some (True, changed, out @ [l], st)
       else if late st then Some (True, changed, out @ [l], tick st)
       else do {
         (ch, l, st) \<leftarrow> rewrite_literal_id_until R k l (tick st);
         Some (False, changed \<or> ch, out @ [l], st) }) (enumerate m ls) (False, changed, out, st) =
       Some (False, changed', ls', st') \<and>
      foldM (\<lambda>(k, l) (stopped, changed, out, st).
       if stopped then Some (True, changed, out @ [l], st)
       else if late st then Some (True, changed, out @ [l], tick st)
       else do {
         (ch, l, st) \<leftarrow> rewrite_literal_id_until R k l (tick st);
         Some (False, changed \<or> ch, out @ [l], st) }) (enumerate m ls) (False, changed, out, plain st) =
       Some (False, changed', ls', plain st') \<and> linked b0 R st' \<and> goes_on st st'"
proof (induction ls arbitrary: Ls m changed out st)
  case Nil
  then show ?case using goes_on_refl by auto
next
  case (Cons l ls)
  obtain L Ks where Ls: "literal_to_legacy (rw_bank st) l = Some L" "lits_of (rw_bank st) ls = Some Ks"
    using Cons.prems(2) by (auto simp: bind_eq_Some_conv)
  have clock: "rw_clock st = []" using Cons.prems(1) by (simp add: linked_def)
  obtain ch l' st1 where 1: "rewrite_literal_id_until R m l st = Some (ch, l', st1)"
    "rewrite_literal_id_until R m l (plain st) = Some (ch, l', plain st1)" "linked b0 R st1" "goes_on st st1"
    by (rule literal_twin [OF Cons.prems(1) Ls(1)])
  from Cons.IH [OF 1(3) goes_on_lits [OF 1(4) Ls(2)], of "Suc m" "changed \<or> ch" "out @ [l']"] goes_on_trans [OF 1(4)]
  show ?case using 1(1,2) clock by auto
qed

lemma passes_twin:
  "linked b0 R st \<Longrightarrow> lits_of (rw_bank st) ls = Some Ls \<Longrightarrow>
    \<exists>ch ls' st'. rewrite_passes R n changed ls st = Some (ch, ls', st') \<and>
      rewrite_passes R n changed ls (plain st) = Some (ch, ls', plain st') \<and> linked b0 R st' \<and> goes_on st st'"
proof (induction n arbitrary: changed ls Ls st)
  case 0
  then show ?case using goes_on_refl by auto
next
  case (Suc n)
  have clock: "rw_clock st = []" and run: "run b0 R st" using Suc.prems(1) by (simp_all add: linked_def)
  obtain ch ls' st1 where 1: "rewrite_pass R ls st = Some (ch, ls', st1)" "rewrite_pass R ls (plain st) = Some (ch, ls', plain st1)"
    "linked b0 R st1" "goes_on st st1"
    using pass_loop_twin [OF Suc.prems, of 0 False "[]"] by (auto simp: rewrite_pass_def)
  obtain Ms where "lits_of (rw_bank st1) ls' = Some Ms"
    by (rule rewrite_pass_sound [OF run Suc.prems(2), of "undefined :: bool interp"]) (use 1(1) in auto)
  from Suc.IH [OF 1(3) this, of True] obtain ch2 ls2 st2 where
    "rewrite_passes R n True ls' st1 = Some (ch2, ls2, st2)" "rewrite_passes R n True ls' (plain st1) = Some (ch2, ls2, plain st2)"
    "linked b0 R st2" "goes_on st1 st2" by blast
  then show ?case using 1 clock goes_on_trans [OF 1(4)] by (cases ch) auto
qed

section \<open>Properties\<close>

text \<open>
  C31. The memo of irreducible terms does not change what demodulation does: when every current entry is
  right for the rules and the index has no variable at a root, a run with the memo returns the
  same clause, the same bank, generator and witness as a run without it, and leaves the memo right
  for the new bank.
\<close>

theorem memo_transparent:
  assumes "sane bank" "lits_of bank (idc_literals c) = Some Ls" "idc_avatar c = []"
    and "indexes index C" "\<forall>(s, r) \<in> C. rule_ok bank store r" "\<not> has_var_root index"
    and "memo_right \<lparr>target_avatar = [], demod_index = index, clause_store = store\<rparr> bank m"
  shows "\<exists>res bank' gen' m'. demodulate_id c bank index store gen (Some m) = Some (res, bank', gen', Some m') \<and>
    demodulate_id c bank index store gen None = Some (res, bank', gen', None) \<and>
    memo_right \<lparr>target_avatar = [], demod_index = index, clause_store = store\<rparr> bank' m'"
proof -
  define R where "R = \<lparr>target_avatar = idc_avatar c, demod_index = index, clause_store = store\<rparr>"
  define st where "st = \<lparr>rw_bank = bank, used_unit_ids = [], rw_steps = [], rw_memo = Some m, rw_clock = []\<rparr>"
  have R: "R = \<lparr>target_avatar = [], demod_index = index, clause_store = store\<rparr>" using assms(3) by (simp add: R_def)
  have "run bank R st" using rules_ok_indexes [of R C bank] assms(4,5) becomes_refl [OF assms(1)]
    by (simp add: run_def R_def st_def)
  then have "linked bank R st" using assms(6,7) R by (simp add: linked_def st_def)
  moreover have "lits_of (rw_bank st) (idc_literals c) = Some Ls" using assms(2) by (simp add: st_def)
  ultimately obtain ch ls' st' where res: "rewrite_passes R 100 False (idc_literals c) st = Some (ch, ls', st')"
    "rewrite_passes R 100 False (idc_literals c) (plain st) = Some (ch, ls', plain st')" "linked bank R st'"
    using passes_twin by blast
  obtain m' where m': "rw_memo st' = Some m'" "memo_right R (rw_bank st') m'" using res(3) by (auto simp: linked_def)
  obtain cid gen' where g: "next_id gen = (cid, gen')" by fastforce
  have "plain st = \<lparr>rw_bank = bank, used_unit_ids = [], rw_steps = [], rw_memo = None, rw_clock = []\<rparr>"
    by (simp add: plain_def st_def)
  then show ?thesis using res(1,2) m' assms(3) g
    by (cases ch) (simp_all add: demodulate_id_def demodulate_id_until_def Let_def R_def [symmetric] st_def [symmetric] R [symmetric])
qed

text \<open>
  Invalidation after a change of the rules: with entries that are not younger than the generation,
  the memo after \<open>invalidate\<close> has no current entry, so it is right for every set of rules and every
  bank, also when the counter wraps; and the operations keep entries from being younger.
\<close>

theorem invalidate_forgets:
  assumes "memo_aged m" "to_legacy bank i = Some (App f ts)"
  shows "\<exists>m'. invalidate i bank m = Some m' \<and> memo_aged m' \<and> (\<forall>R b. memo_right R b m') \<and>
    (\<exists>m''. record_irreducible i bank m = Some m'' \<and> memo_aged m'') \<and>
    (\<exists>known m''. is_irreducible i bank m = Some (known, m'') \<and> memo_aged m'')"
proof -
  obtain args where "node_at bank i = Some (NApp f args)" using assms(2) by (auto simp: to_legacy_App)
  then have key: "root_key i bank = Some (Some (f, of_nat (length args)))" by (simp add: root_key_def)
  have fresh: "g \<le> generation m + 1 \<and> g \<noteq> generation m + 1" if "fmlookup (memo_entries m) j = Some g" "generation m \<noteq> - 1" for j g
  proof -
    have "g \<le> generation m" using assms(1) that(1) by (auto simp: memo_aged_def)
    moreover have "generation m < generation m + 1" using that(2) by (rule word_less_plus1)
    ultimately show ?thesis by auto
  qed
  define m' where "m' = (if generation m \<noteq> - 1 then m\<lparr>generation := generation m + 1\<rparr> else m\<lparr>memo_entries := fmempty, generation := 0\<rparr>)"
  have "invalidate i bank m = Some m'" using key by (simp add: invalidate_def m'_def)
  moreover have "memo_aged m'" using fresh by (auto simp: memo_aged_def m'_def)
  moreover have "memo_right R b m'" for R b using fresh by (auto simp: memo_right_def m'_def)
  moreover have "\<exists>m''. record_irreducible i bank m = Some m'' \<and> memo_aged m''"
    using key assms(1) by (auto simp: record_irreducible_def memo_aged_def Let_def)
  moreover have "\<exists>known m''. is_irreducible i bank m = Some (known, m'') \<and> memo_aged m''"
    using key assms(1) by (auto simp: is_irreducible_def memo_aged_def Let_def)
  ultimately show ?thesis by blast
qed

text \<open>Storing a side that is not a variable keeps variables away from the root.\<close>

lemma insert_no_var_root:
  assumes "to_legacy b i = Some (App f ts)" "st_insert i b v idx = Some idx'"
  shows "has_var_root idx' = has_var_root idx"
proof -
  obtain q where "flatten (App f ts) = CellSym f (of_nat (length ts)) # q" using flatten_App by blast
  then show ?thesis using assms(2)
    by (auto simp: st_insert_def flatten_id_eq [OF assms(1)] note_root_cell_def has_var_root_insert)
qed

lemma example_rules_root: "\<not> has_var_root example_rules"
proof -
  obtain t where t: "st_insert 2 example_bank ((2, 1, 5) :: rule) st_new = Some t"
    using indexes_insert [OF indexes_new example_id_2, of "(2, 1, 5) :: rule"] by auto
  have "has_var_root t = has_var_root (st_new :: rule STreeId)" by (rule insert_no_var_root [OF example_id_2 t])
  moreover have "example_rules = t" unfolding example_rules_def t by simp
  moreover have "\<not> has_var_root (st_new :: rule STreeId)" by (simp add: st_new_def)
  ultimately show ?thesis by simp
qed

theorem memo_transparent_witness:
  "\<exists>res bank' gen' m'. demodulate_id example_target example_bank example_rules example_store new_gen (Some demod_memo_new) =
      Some (res, bank', gen', Some m') \<and>
    demodulate_id example_target example_bank example_rules example_store new_gen None = Some (res, bank', gen', None) \<and>
    memo_right \<lparr>target_avatar = [], demod_index = example_rules, clause_store = example_store\<rparr> bank' m'"
proof (rule memo_transparent [OF bank_ok_sane [OF example_bank_ok] _ _ example_rules_hold _ example_rules_root])
  show "lits_of example_bank (idc_literals example_target) = Some [\<lparr>positive = True, atom = Pred 9 [example_term]\<rparr>]"
    by (simp add: example_target_def id_new_clause_def literal_to_legacy_def example_ids)
  show "idc_avatar example_target = []" by (simp add: example_target_def id_new_clause_def)
  show "\<forall>(s, r) \<in> {(App 2 [Var 7], (2, 1, 5))}. rule_ok example_bank example_store r" by (simp add: example_rule_ok)
  show "memo_right \<lparr>target_avatar = [], demod_index = example_rules, clause_store = example_store\<rparr> example_bank demod_memo_new"
    by (simp add: memo_right_def demod_memo_new_def)
qed

theorem invalidate_forgets_witness:
  "\<exists>m'. invalidate 3 example_bank (demod_memo_new\<lparr>memo_entries := fmupd 3 0 fmempty\<rparr>) = Some m' \<and> memo_aged m' \<and>
    (\<forall>R b. memo_right R b m')"
proof -
  have "memo_aged (demod_memo_new\<lparr>memo_entries := fmupd 3 0 fmempty\<rparr>)" by (auto simp: memo_aged_def demod_memo_new_def)
  from invalidate_forgets [OF this example_ids(3) [unfolded example_term_def]] show ?thesis by blast
qed

end
