(* ===== verification/AcSubset.thy ===== *)
theory AcSubset
  imports Unify Loops
begin

text \<open>
  Matching into a part of the arguments of an associative and commutative application,
  \<open>crates/mrs-unify/src/ac_subset.rs\<close>. The state is the bank and what remains of the budget. The
  substitution is returned on success only: every caller restores the one it saved, or drops it,
  when a match fails.
\<close>

type_synonym match_state = "TermBank \<times> u32"

type_synonym 'a matching = "((UnifyError + 'a) \<times> match_state) option"

type_synonym matcher = "TermId \<Rightarrow> TermId \<Rightarrow> IdSubstitution \<Rightarrow> match_state \<Rightarrow> IdSubstitution matching"

definition consume :: "u32 \<Rightarrow> u32 option" where
  "consume remaining = (if remaining = 0 then None else Some (remaining - 1))"

text \<open>\<open>if !budget.consume() { return Err(BudgetExhausted) }\<close>\<close>

definition charged :: "match_state \<Rightarrow> (match_state \<Rightarrow> 'a matching) \<Rightarrow> 'a matching" where
  "charged st k = (case consume (snd st) of
     None \<Rightarrow> Some (Inl BudgetExhausted, st)
   | Some left \<Rightarrow> k (fst st, left))"

text \<open>The operator \<open>?\<close>.\<close>

definition and_then :: "'a matching \<Rightarrow> ('a \<Rightarrow> match_state \<Rightarrow> 'b matching) \<Rightarrow> 'b matching" where
  "and_then m k = do { (r, st) \<leftarrow> m; case r of Inl e \<Rightarrow> Some (Inl e, st) | Inr x \<Rightarrow> k x st }"

record AcSubsetMatch =
  match_subst :: IdSubstitution
  consumed :: "nat list"

definition consumed_len :: "AcSubsetMatch \<Rightarrow> nat" where
  "consumed_len m = length (consumed m)"

fun fatal :: "UnifyError \<Rightarrow> bool" where
  "fatal BudgetExhausted = True"
| "fatal UnsupportedShape = True"
| "fatal _ = False"

section \<open>Flattening\<close>

partial_function (option) flatten_ac_loop :: "SymbolId \<Rightarrow> IdSubstitution \<Rightarrow> TermBank \<Rightarrow> TermId list \<Rightarrow> TermId list
    \<Rightarrow> TermId list option" where
  "flatten_ac_loop f subst bank stack result = (case stack of
     [] \<Rightarrow> Some result
   | t # stack \<Rightarrow> do {
       current \<leftarrow> deref_id t subst bank;
       node \<leftarrow> node_at bank current;
       case node of
         NVar v \<Rightarrow> flatten_ac_loop f subst bank stack (result @ [current])
       | NApp g args \<Rightarrow>
           if g = f \<and> 2 \<le> length args then flatten_ac_loop f subst bank (args @ stack) result
           else flatten_ac_loop f subst bank stack (result @ [current]) })"

definition flatten_ac :: "TermId \<Rightarrow> SymbolId \<Rightarrow> IdSubstitution \<Rightarrow> TermBank \<Rightarrow> TermId list option" where
  "flatten_ac t f subst bank = flatten_ac_loop f subst bank [t] []"

text \<open>The list is not empty; \<open>rebuild_assoc_segment\<close> and \<open>rebuild_ac_term\<close> are the same function.\<close>

fun rebuild_ac_term :: "TermId list \<Rightarrow> SymbolId \<Rightarrow> TermBank \<Rightarrow> (TermId \<times> TermBank) option" where
  "rebuild_ac_term [] f bank = None"
| "rebuild_ac_term [t] f bank = Some (t, bank)"
| "rebuild_ac_term (t # ts) f bank = do {
     (rebuilt, bank) \<leftarrow> rebuild_ac_term ts f bank;
     Some (intern_app f [t, rebuilt] bank) }"

section \<open>Loops that try candidates\<close>

text \<open>Candidates are tried until one succeeds or an error stops the search; otherwise the last error remains.\<close>

fun try_candidates :: "(UnifyError \<Rightarrow> bool) \<Rightarrow> ('c \<Rightarrow> match_state \<Rightarrow> 'a matching) \<Rightarrow> UnifyError \<Rightarrow> 'c list \<Rightarrow> match_state \<Rightarrow> 'a matching" where
  "try_candidates stop f last_err [] st = Some (Inl last_err, st)"
| "try_candidates stop f last_err (c # cs) st = do {
     (r, st) \<leftarrow> f c st;
     case r of
       Inr x \<Rightarrow> Some (Inr x, st)
     | Inl e \<Rightarrow> if stop e then Some (Inl e, st) else try_candidates stop f e cs st }"

definition no_match :: "(UnifyError \<Rightarrow> bool) \<Rightarrow> 'a matching \<Rightarrow> 'a matching" where
  "no_match stop m = do { (r, st) \<leftarrow> m;
     Some (case r of Inl e \<Rightarrow> Inl (if stop e then e else NoAcSubsetMatch) | Inr x \<Rightarrow> Inr x, st) }"

definition free_indices :: "bool list \<Rightarrow> nat list" where
  "free_indices used = filter (\<lambda>c. \<not> used ! c) [0..<length used]"

fun enumerate_pairs :: "matcher \<Rightarrow> TermId list \<Rightarrow> TermId list \<Rightarrow> bool list \<Rightarrow> nat list \<Rightarrow> IdSubstitution \<Rightarrow> match_state
    \<Rightarrow> (IdSubstitution \<times> nat list) matching" where
  "enumerate_pairs me target [] used chosen subst st = Some (Inr (subst, chosen), st)"
| "enumerate_pairs me target (p # ps) used chosen subst st =
     no_match fatal (try_candidates fatal (\<lambda>c st. charged st (\<lambda>st.
         and_then (me p (target ! c) subst st)
           (enumerate_pairs me target ps (used[c := True]) (chosen @ [c]))))
       NoAcSubsetMatch (free_indices used) st)"

fun match_flat_permutations :: "matcher \<Rightarrow> TermId list \<Rightarrow> TermId list \<Rightarrow> bool list \<Rightarrow> IdSubstitution \<Rightarrow> match_state
    \<Rightarrow> IdSubstitution matching" where
  "match_flat_permutations me right [] used subst st = Some (Inr subst, st)"
| "match_flat_permutations me right (l # ls) used subst st =
     try_candidates fatal (\<lambda>c st. charged st (\<lambda>st.
         and_then (me l (right ! c) subst st) (match_flat_permutations me right ls (used[c := True]))))
       NoAcSubsetMatch (free_indices used) st"

fun match_assoc_sequences :: "(UnifyError \<Rightarrow> bool) \<Rightarrow> matcher \<Rightarrow> SymbolId \<Rightarrow> TermId list \<Rightarrow> TermId list \<Rightarrow> IdSubstitution \<Rightarrow> match_state
    \<Rightarrow> IdSubstitution matching" where
  "match_assoc_sequences stop me f [] target subst st = charged st (\<lambda>st.
     Some (if target = [] then Inr subst else Inl NoAcSubsetMatch, st))"
| "match_assoc_sequences stop me f (p # ps) target subst st = charged st (\<lambda>st.
     if length target \<le> length ps then Some (Inl NoAcSubsetMatch, st)
     else do {
       current \<leftarrow> deref_id p subst (fst st);
       node \<leftarrow> node_at (fst st) current;
       case node of
         NVar v \<Rightarrow> no_match stop (try_candidates stop (\<lambda>len st. charged st (\<lambda>st. do {
             (segment, bank) \<leftarrow> rebuild_ac_term (take len target) f (fst st);
             and_then (me current segment subst (bank, snd st)) (match_assoc_sequences stop me f ps (drop len target)) }))
           NoAcSubsetMatch [1..<Suc (length target - length ps)] st)
       | NApp g args \<Rightarrow> and_then (me current (hd target) subst st) (match_assoc_sequences stop me f ps (tl target)) })"

text \<open>\<open>for (left, right) in .. { match_element(left, right)?; }\<close>\<close>

fun match_pairs :: "matcher \<Rightarrow> (TermId \<times> TermId) list \<Rightarrow> IdSubstitution \<Rightarrow> match_state \<Rightarrow> IdSubstitution matching" where
  "match_pairs me [] subst st = Some (Inr subst, st)"
| "match_pairs me (p # ps) subst st = and_then (me (fst p) (snd p) subst st) (match_pairs me ps)"

subsection \<open>Monotonicity\<close>

lemma matching_const: "mono_option (\<lambda>f. c)"
  by (simp add: monotone_def option.leq_refl)

lemma matching_if: "mono_option A \<Longrightarrow> mono_option B \<Longrightarrow> mono_option (\<lambda>f. if c then A f else B f)"
  by (cases c) simp_all

lemma matching_node:
  assumes "\<And>v. mono_option (\<lambda>f. C f v)" "\<And>g args. mono_option (\<lambda>f. D f g args)"
  shows "mono_option (\<lambda>f. case n of NVar v \<Rightarrow> C f v | NApp g args \<Rightarrow> D f g args)"
  using assms by (cases n) simp_all

lemma matching_sum:
  assumes "\<And>e. mono_option (\<lambda>f. C f e)" "\<And>x. mono_option (\<lambda>f. D f x)"
  shows "mono_option (\<lambda>f. case r of Inl e \<Rightarrow> C f e | Inr x \<Rightarrow> D f x)"
  using assms by (cases r) simp_all

lemma charged_mono: "(\<And>st. mono_option (\<lambda>f. B f st)) \<Longrightarrow> mono_option (\<lambda>f. charged st (B f))"
  by (cases "consume (snd st)") (simp_all add: charged_def matching_const)

lemma and_then_mono:
  assumes "mono_option B" "\<And>x st. mono_option (\<lambda>f. C f x st)"
  shows "mono_option (\<lambda>f. and_then (B f) (C f))"
  unfolding and_then_def split_def by (intro bind_mono assms matching_sum matching_const)

lemma no_match_mono: "mono_option B \<Longrightarrow> mono_option (\<lambda>f. no_match stop (B f))"
  unfolding no_match_def split_def by (intro bind_mono matching_const)

lemma try_candidates_mono:
  assumes "\<And>c st. mono_option (\<lambda>f. B f c st)"
  shows "mono_option (\<lambda>f. try_candidates stop (B f) e cs st)"
proof (induction cs arbitrary: e st)
  case (Cons c cs)
  then show ?case unfolding try_candidates.simps split_def
    by (intro bind_mono assms matching_sum matching_if matching_const)
qed (simp add: matching_const)

lemma match_pairs_mono:
  assumes "\<And>p t s st. mono_option (\<lambda>f. B f p t s st)"
  shows "mono_option (\<lambda>f. match_pairs (B f) ps s st)"
proof (induction ps arbitrary: s st)
  case (Cons p ps)
  then show ?case unfolding match_pairs.simps by (intro and_then_mono assms)
qed (simp add: matching_const)

lemma match_flat_permutations_mono:
  assumes "\<And>p t s st. mono_option (\<lambda>f. B f p t s st)"
  shows "mono_option (\<lambda>f. match_flat_permutations (B f) right ls used s st)"
proof (induction ls arbitrary: used s st)
  case (Cons l ls)
  then show ?case unfolding match_flat_permutations.simps
    by (intro try_candidates_mono charged_mono and_then_mono assms)
qed (simp add: matching_const)

lemma match_assoc_sequences_mono:
  assumes "\<And>p t s st. mono_option (\<lambda>f. B f p t s st)"
  shows "mono_option (\<lambda>f. match_assoc_sequences stop (B f) g ps ts s st)"
proof (induction ps arbitrary: ts s st)
  case (Cons p ps)
  then show ?case unfolding match_assoc_sequences.simps split_def
    by (intro try_candidates_mono charged_mono and_then_mono no_match_mono bind_mono matching_if matching_node
        matching_const assms)
qed (simp add: matching_const)

section \<open>Matching\<close>

text \<open>
  One call, with the recursive call as the argument \<open>me\<close>. Superposition has a second matcher of
  this form: the arguments \<open>stop\<close> and \<open>mismatch\<close> say which errors end a search and which error
  a failed comparison of arguments gives.
\<close>

definition element_step :: "(UnifyError \<Rightarrow> bool) \<Rightarrow> (UnifyError \<Rightarrow> UnifyError) \<Rightarrow> matcher \<Rightarrow> SymbolId set \<Rightarrow> SymbolId set \<Rightarrow> VarId set option \<Rightarrow> TermId \<Rightarrow> TermId
    \<Rightarrow> IdSubstitution \<Rightarrow> match_state \<Rightarrow> IdSubstitution matching" where
  "element_step stop mismatch me comm assoc rigid pattern target subst st = charged st (\<lambda>st. do {
     let bank = fst st;
     pattern \<leftarrow> deref_id pattern subst bank;
     target \<leftarrow> deref_id target subst bank;
     if pattern = target then Some (Inr subst, st)
     else do {
       np \<leftarrow> node_at bank pattern;
       nt \<leftarrow> node_at bank target;
       case np of
         NVar v \<Rightarrow>
           if (case rigid of Some vs \<Rightarrow> v \<in> vs | None \<Rightarrow> False) then Some (Inl (RigidVariable v), st)
           else do {
             occurs \<leftarrow> contains_var_id target v subst bank;
             Some (if occurs then Inl (OccursCheck v) else Inr (id_bind v target subst), st) }
       | NApp f1 args1 \<Rightarrow> (case nt of
           NVar v \<Rightarrow> Some (Inl (RigidVariable v), st)
         | NApp f2 args2 \<Rightarrow>
             if f1 \<noteq> f2 then Some (Inl (symbol_clash f1 f2), st)
             else if f1 \<in> assoc then do {
               left_flat \<leftarrow> flatten_ac pattern f1 subst bank;
               right_flat \<leftarrow> flatten_ac target f1 subst bank;
               if length left_flat = length right_flat \<and> f1 \<in> comm
               then match_flat_permutations me right_flat left_flat
                 (replicate (length right_flat) False) subst st
               else match_assoc_sequences stop me f1 left_flat right_flat subst st }
             else if length args1 \<noteq> length args2
             then Some (Inl (ArityMismatch (length args1) (length args2)), st)
             else do {
               (positional, st) \<leftarrow> match_pairs me (zip args1 args2) subst st;
               case positional of
                 Inr subst' \<Rightarrow> Some (Inr subst', st)
               | Inl e \<Rightarrow>
                   if f1 \<in> comm \<and> length args1 = 2 then do {
                     (swapped, st) \<leftarrow> match_pairs me
                       [(args1 ! 0, args2 ! 1), (args1 ! 1, args2 ! 0)] subst st;
                     Some (case swapped of Inr subst' \<Rightarrow> Inr subst'
                       | Inl e \<Rightarrow> Inl (mismatch e), st) }
                   else Some (Inl (mismatch e), st) }) } })"

lemma element_step_mono [partial_function_mono]:
  assumes "\<And>p t s st. mono_option (\<lambda>f. B f p t s st)"
  shows "mono_option (\<lambda>f. element_step stop mismatch (B f) comm assoc rigid p t s st)"
  unfolding element_step_def split_def Let_def
  by (intro charged_mono bind_mono matching_if matching_node matching_sum matching_const
      match_pairs_mono match_flat_permutations_mono match_assoc_sequences_mono assms)

partial_function (option) match_element :: "SymbolId set \<Rightarrow> SymbolId set \<Rightarrow> VarId set option \<Rightarrow> matcher" where
  "match_element comm assoc rigid pattern target subst st =
     element_step fatal (\<lambda>e. SymbolClash ''element mismatch'' ''element mismatch'') (match_element comm assoc rigid) comm assoc rigid pattern target subst st"

text \<open>\<open>None\<close> of the outer option is a walk that does not end or an index out of range.\<close>

definition match_ac_subset_rigid_id :: "TermId \<Rightarrow> TermId \<Rightarrow> TermBank \<Rightarrow> SymbolId set \<Rightarrow> SymbolId set
    \<Rightarrow> VarId set option \<Rightarrow> u32 \<Rightarrow> AcSubsetMatch matching" where
  "match_ac_subset_rigid_id pattern target bank comm assoc rigid budget = do {
     let st = (bank, budget);
     nt \<leftarrow> node_at bank target;
     case nt of
       NVar v \<Rightarrow> Some (Inl UnsupportedShape, st)
     | NApp f args \<Rightarrow>
         if f \<notin> comm \<or> f \<notin> assoc then Some (Inl UnsupportedShape, st)
         else do {
           target_args \<leftarrow> flatten_ac target f id_new_subst bank;
           if length target_args < 2 then Some (Inl UnsupportedShape, st)
           else do {
             np \<leftarrow> node_at bank pattern;
             case np of
               NVar v \<Rightarrow> Some (Inl UnsupportedShape, st)
             | NApp g gargs \<Rightarrow>
                 if g \<noteq> f then Some (Inl UnsupportedShape, st)
                 else do {
                   pattern_args \<leftarrow> flatten_ac pattern f id_new_subst bank;
                   if length target_args < length pattern_args
                   then Some (Inl (ArityMismatch (length pattern_args) (length target_args)), st)
                   else if length pattern_args < 2 then Some (Inl UnsupportedShape, st)
                   else and_then (enumerate_pairs (match_element comm assoc rigid) target_args pattern_args
                       (replicate (length target_args) False) [] id_new_subst st)
                     (\<lambda>found st. if snd found = [] then Some (Inl UnsupportedShape, st)
                       else Some (Inr \<lparr>match_subst = fst found, consumed = sort (snd found)\<rparr>, st)) } } } }"

end
