(* ===== verification/Superposition.thy ===== *)
theory Superposition
  imports Inference Resolution Lpo AcSubset
begin

text \<open>
  Superposition on clauses over identifiers, \<open>crates/mrs-calculus/src/superposition.rs\<close>: the
  positions of a literal, the three ways to fit an equation to a subterm (unification, matching a
  part of the arguments of an associative and commutative symbol, matching a segment of the
  arguments of an associative symbol) and the loops of the rule.
\<close>

definition AC_SUBSET_MATCH_BUDGET :: u32 where
  "AC_SUBSET_MATCH_BUDGET = 4096"

section \<open>Rewriting a part of the arguments\<close>

text \<open>The arguments that the indices do not consume, and the indices that were not met.\<close>

fun unconsumed :: "nat \<Rightarrow> nat list \<Rightarrow> 'a list \<Rightarrow> 'a list \<times> nat list" where
  "unconsumed i cs [] = ([], cs)"
| "unconsumed i [] (x # xs) = (let (kept, left) = unconsumed (i + 1) [] xs in (x # kept, left))"
| "unconsumed i (c # cs) (x # xs) =
     (if c = i then unconsumed (i + 1) cs xs
      else let (kept, left) = unconsumed (i + 1) (c # cs) xs in (x # kept, left))"

definition ac_subset_replacement :: "TermId \<Rightarrow> TermId \<Rightarrow> TermId \<Rightarrow> SymbolId set \<Rightarrow> SymbolId set \<Rightarrow> VarId set
    \<Rightarrow> match_state \<Rightarrow> (IdSubstitution \<times> TermId) matching" where
  "ac_subset_replacement from_id to subterm comm assoc target_vars st = do {
     node \<leftarrow> node_at (fst st) subterm;
     case node of
       NVar v \<Rightarrow> Some (Inl UnsupportedShape, st)
     | NApp f subargs \<Rightarrow>
         if f \<notin> comm \<or> f \<notin> assoc then Some (Inl UnsupportedShape, st)
         else and_then (match_ac_subset_rigid_id from_id subterm (fst st) comm assoc (Some target_vars) (snd st))
           (\<lambda>found st. do {
             args \<leftarrow> flatten_ac subterm f (match_subst found) (fst st);
             if length args < 2 then Some (Inl UnsupportedShape, st)
             else let (kept, left) = unconsumed 0 (consumed found) args in
               if left \<noteq> [] then Some (Inl UnsupportedShape, st)
               else do {
                 (replacement, bank) \<leftarrow> rebuild_ac_term (kept @ [to]) f (fst st);
                 Some (Inr (match_subst found, replacement), (bank, snd st)) } }) }"

section \<open>Rewriting a segment of the arguments\<close>

definition exhausted :: "UnifyError \<Rightarrow> bool" where
  "exhausted e \<longleftrightarrow> e = BudgetExhausted"

partial_function (option) assoc_unify_element :: "SymbolId set \<Rightarrow> VarId set \<Rightarrow> matcher" where
  "assoc_unify_element assoc rigid pattern target subst st =
     element_step exhausted (\<lambda>e. e) (assoc_unify_element assoc rigid) {} assoc (Some rigid) pattern target subst st"

definition assoc_match_sequence :: "SymbolId set \<Rightarrow> VarId set \<Rightarrow> SymbolId \<Rightarrow> TermId list \<Rightarrow> TermId list
    \<Rightarrow> IdSubstitution \<Rightarrow> match_state \<Rightarrow> IdSubstitution matching" where
  "assoc_match_sequence assoc rigid = match_assoc_sequences exhausted (assoc_unify_element assoc rigid)"

definition segments :: "nat \<Rightarrow> (nat \<times> nat) list" where
  "segments n = concat (map (\<lambda>start. map (Pair start) [start + 2..<n + 1]) [0..<n])"

definition assoc_replacement :: "TermId \<Rightarrow> TermId \<Rightarrow> TermId \<Rightarrow> SymbolId set \<Rightarrow> VarId set \<Rightarrow> match_state
    \<Rightarrow> (IdSubstitution \<times> TermId) matching" where
  "assoc_replacement from_id to subterm assoc target_vars st = do {
     node \<leftarrow> node_at (fst st) subterm;
     case node of
       NVar v \<Rightarrow> Some (Inl UnsupportedShape, st)
     | NApp f subargs \<Rightarrow>
         if f \<notin> assoc then Some (Inl UnsupportedShape, st)
         else do {
           source \<leftarrow> flatten_ac from_id f id_new_subst (fst st);
           target \<leftarrow> flatten_ac subterm f id_new_subst (fst st);
           if length source < 2 then Some (Inl UnsupportedShape, st)
           else try_candidates exhausted (\<lambda>(start, stop) st. charged st (\<lambda>st.
             and_then (assoc_match_sequence assoc target_vars f source (drop start (take stop target)) id_new_subst st)
               (\<lambda>candidate st.
                 if start = 0 \<and> stop = length target then Some (Inr (candidate, to), st)
                 else do {
                   (replacement, bank) \<leftarrow> rebuild_ac_term (take start target @ [to] @ drop stop target) f (fst st);
                   Some (Inr (candidate, replacement), (bank, snd st)) })))
             NoAcSubsetMatch (segments (length target)) st } }"

section \<open>Positions of a literal\<close>

text \<open>The deadline is checked before each argument; its expiry is the inner \<open>None\<close>.\<close>

fun argument_positions :: "TermBank \<Rightarrow> (nat \<times> TermId) list \<Rightarrow> clock
    \<Rightarrow> ((nat \<times> TermId \<times> nat list list) list option \<times> clock) option" where
  "argument_positions bank [] clk = Some (Some [], clk)"
| "argument_positions bank ((i, arg) # args) clk =
     (if expired clk then Some (None, tl clk)
      else do {
        (ps, clk) \<leftarrow> id_non_variable_positions_until bank arg (tl clk);
        case ps of
          None \<Rightarrow> Some (None, clk)
        | Some ps \<Rightarrow> do {
            (rest, clk) \<leftarrow> argument_positions bank args clk;
            Some (map_option (Cons (i, arg, ps)) rest, clk) } })"

definition literal_term_positions_id :: "IdLiteral \<Rightarrow> TermBank \<Rightarrow> clock
    \<Rightarrow> ((nat \<times> TermId \<times> nat list list) list option \<times> clock) option" where
  "literal_term_positions_id lit bank clk = (case id_atom lit of
     IdPred p args \<Rightarrow> argument_positions bank (enumerate 0 args) clk
   | IdEq l r \<Rightarrow> do {
       (left, clk) \<leftarrow> id_non_variable_positions_until bank l clk;
       case left of
         None \<Rightarrow> Some (None, clk)
       | Some left \<Rightarrow> do {
           (right, clk) \<leftarrow> id_non_variable_positions_until bank r clk;
           Some (map_option (\<lambda>right. [(0, l, left), (1, r, right)]) right, clk) } })"

text \<open>The index is one of the literal, so \<open>new_args[arg_idx] = replacement\<close> does not panic.\<close>

definition rebuild_literal_id :: "IdLiteral \<Rightarrow> nat \<Rightarrow> TermId \<Rightarrow> IdLiteral" where
  "rebuild_literal_id lit arg_idx replacement = \<lparr>id_positive = id_positive lit,
     id_atom = (case id_atom lit of
         IdPred p args \<Rightarrow> IdPred p (args[arg_idx := replacement])
       | IdEq l r \<Rightarrow> if arg_idx = 0 then IdEq replacement r else IdEq l replacement)\<rparr>"

section \<open>The rule\<close>

text \<open>The unifier and the term that takes the place of the subterm, not yet instantiated.\<close>

definition fit :: "TermId \<Rightarrow> TermId \<Rightarrow> TermId \<Rightarrow> SymbolId set \<Rightarrow> SymbolId set \<Rightarrow> VarId set \<Rightarrow> match_state
    \<Rightarrow> ((IdSubstitution \<times> TermId) option \<times> match_state) option" where
  "fit from_id to subterm comm assoc target_vars st = do {
     nf \<leftarrow> node_at (fst st) from_id;
     ns \<leftarrow> node_at (fst st) subterm;
     let assoc_only_root = (case (nf, ns) of
         (NApp f fargs, NApp g gargs) \<Rightarrow> f \<in> assoc \<and> g = f \<and> f \<notin> comm | _ \<Rightarrow> False);
     r \<leftarrow> unify_id from_id subterm (fst st);
     case r of
       Inr sigma \<Rightarrow> Some (Some (sigma, to), st)
     | Inl e \<Rightarrow>
         if assoc_only_root then do {
           (r, st) \<leftarrow> assoc_replacement from_id to subterm assoc target_vars st;
           case r of
             Inr found \<Rightarrow> Some (Some found, st)
           | Inl e \<Rightarrow> do {
               r \<leftarrow> unify_ac_rigid_id from_id subterm (fst st) comm assoc (Some target_vars);
               Some (case r of Inr sigma \<Rightarrow> Some (sigma, to) | Inl e \<Rightarrow> None, st) } }
         else do {
           r \<leftarrow> unify_ac_rigid_id from_id subterm (fst st) comm assoc (Some target_vars);
           case r of
             Inr sigma \<Rightarrow> Some (Some (sigma, to), st)
           | Inl e \<Rightarrow> do {
               (r, st) \<leftarrow> ac_subset_replacement from_id to subterm comm assoc target_vars st;
               case r of
                 Inr found \<Rightarrow> Some (Some found, st)
               | Inl e \<Rightarrow> do {
                   (r, st) \<leftarrow> assoc_replacement from_id to subterm assoc target_vars st;
                   Some (case r of Inr found \<Rightarrow> Some found | Inl e \<Rightarrow> None, st) } } } }"

text \<open>The conclusions with the bank, the generator and the clock; the matching budget; the ordering's budget.\<close>

type_synonym sup_state = "infer \<times> u32 \<times> LpoBudget"

definition superpose_at :: "IdClause \<Rightarrow> IdClause \<Rightarrow> nat \<Rightarrow> TermId \<Rightarrow> TermId \<Rightarrow> bool \<Rightarrow> TermOrdering \<Rightarrow> SymbolId set
    \<Rightarrow> SymbolId set \<Rightarrow> VarId set \<Rightarrow> nat \<Rightarrow> IdLiteral \<Rightarrow> nat \<Rightarrow> TermId \<Rightarrow> nat list \<Rightarrow> sup_state
    \<Rightarrow> (sup_state + sup_state) option" where
  "superpose_at c1 c2 i from_id to is_left ord comm assoc target_vars j target_lit arg_idx base pos =
     (\<lambda>((results, bank, gen, clk), budget, lpo).
     if expired clk then Some (Inl ((results, bank, gen, tl clk), budget, lpo))
     else do {
       sub \<leftarrow> id_subterm_at bank base pos;
       case sub of
         None \<Rightarrow> Some (Inr ((results, bank, gen, tl clk), budget, lpo))
       | Some subterm \<Rightarrow> do {
           (found, bank, budget) \<leftarrow> fit from_id to subterm comm assoc target_vars (bank, budget);
           case found of
             None \<Rightarrow> Some (Inr ((results, bank, gen, tl clk), budget, lpo))
           | Some (sigma, replacement) \<Rightarrow> do {
               (from_s, bank) \<leftarrow> id_apply_term sigma from_id bank;
               (to_s, bank) \<leftarrow> id_apply_term sigma to bank;
               (comp, lpo) \<leftarrow> compare_id ord bank from_s to_s lpo;
               if lpo_expired lpo then Some (Inl ((results, bank, gen, tl clk), budget, lpo))
               else if comp = Less \<or> comp = Equal then Some (Inr ((results, bank, gen, tl clk), budget, lpo))
               else do {
                 (replaced, bank) \<leftarrow> id_replace_at base pos replacement bank;
                 (lit, bank) \<leftarrow> id_apply_literal sigma (rebuild_literal_id target_lit arg_idx replaced) bank;
                 (lits, bank) \<leftarrow> apply_rest sigma {i} (idc_literals c1) ([], bank);
                 (lits, bank) \<leftarrow> apply_rest sigma {j} (idc_literals c2) (lits, bank);
                 let (cid, gen) = next_id gen;
                     derived = (id_new_avatar cid (lits @ [lit]) (Inference ''superposition'' [idc_id c1, idc_id c2])
                       (idc_avatar c1 @ idc_avatar c2))\<lparr>idc_witness := Some (ProofWitness.Superposition
                         (parent_node (idc_proof_id c1) (idc_id c1)) (parent_node (idc_proof_id c2) (idc_id c2))
                         i j pos is_left None)\<rparr>
                 in Some (Inr ((results @ [derived], bank, gen, tl clk), budget, lpo)) } } } })"

definition superpose_literal :: "IdClause \<Rightarrow> IdClause \<Rightarrow> nat \<Rightarrow> TermId \<Rightarrow> TermId \<Rightarrow> bool \<Rightarrow> TermOrdering
    \<Rightarrow> nat list option \<Rightarrow> SymbolId set \<Rightarrow> SymbolId set \<Rightarrow> VarId set \<Rightarrow> nat \<times> IdLiteral \<Rightarrow> sup_state
    \<Rightarrow> (sup_state + sup_state) option" where
  "superpose_literal c1 c2 i from_id to is_left ord sel comm assoc target_vars =
     (\<lambda>(j, target_lit) ((results, bank, gen, clk), budget, lpo).
     if expired clk then Some (Inl ((results, bank, gen, tl clk), budget, lpo))
     else if \<not> selected sel j then Some (Inr ((results, bank, gen, tl clk), budget, lpo))
     else do {
       (positions, clk) \<leftarrow> literal_term_positions_id target_lit bank (tl clk);
       case positions of
         None \<Rightarrow> Some (Inl ((results, bank, gen, clk), budget, lpo))
       | Some positions \<Rightarrow>
           try_each (\<lambda>(arg_idx, base, ps).
             try_each (superpose_at c1 c2 i from_id to is_left ord comm assoc target_vars j target_lit arg_idx base) ps)
             positions ((results, bank, gen, clk), budget, lpo) })"

definition superpose_with_id :: "IdClause \<Rightarrow> IdClause \<Rightarrow> nat \<Rightarrow> TermId \<Rightarrow> TermId \<Rightarrow> bool \<Rightarrow> TermOrdering
    \<Rightarrow> nat list option \<Rightarrow> SymbolId set \<Rightarrow> SymbolId set \<Rightarrow> sup_state \<Rightarrow> sup_state option" where
  "superpose_with_id c1 c2 i from_id to is_left ord sel comm assoc st = do {
     target_vars \<leftarrow> foldM (id_literal_collect_vars (fst (snd (fst st)))) (idc_literals c2) {};
     r \<leftarrow> try_each (superpose_literal c1 c2 i from_id to is_left ord sel comm assoc target_vars)
       (enumerate 0 (idc_literals c2)) st;
     Some (finish r) }"

definition superpose_orientation :: "IdClause \<Rightarrow> IdClause \<Rightarrow> nat \<Rightarrow> TermOrdering \<Rightarrow> nat list option \<Rightarrow> SymbolId set
    \<Rightarrow> SymbolId set \<Rightarrow> TermId \<times> TermId \<times> bool \<Rightarrow> sup_state \<Rightarrow> (sup_state + sup_state) option" where
  "superpose_orientation c1 c2 i ord sel comm assoc = (\<lambda>(from_id, to, is_left) ((results, bank, gen, clk), budget, lpo).
     if expired clk then Some (Inl ((results, bank, gen, tl clk), budget, lpo))
     else do {
       node \<leftarrow> node_at bank from_id;
       case node of
         NVar v \<Rightarrow> Some (Inr ((results, bank, gen, tl clk), budget, lpo))
       | NApp f args \<Rightarrow> do {
           st \<leftarrow> superpose_with_id c1 c2 i from_id to is_left ord sel comm assoc ((results, bank, gen, tl clk), budget, lpo);
           Some (Inr st) } })"

definition superpose_equation :: "IdClause \<Rightarrow> IdClause \<Rightarrow> TermOrdering \<Rightarrow> nat list option \<Rightarrow> SymbolId set
    \<Rightarrow> SymbolId set \<Rightarrow> nat \<times> IdLiteral \<Rightarrow> sup_state \<Rightarrow> (sup_state + sup_state) option" where
  "superpose_equation c1 c2 ord sel comm assoc = (\<lambda>(i, eq_lit) ((results, bank, gen, clk), budget, lpo).
     if expired clk then Some (Inl ((results, bank, gen, tl clk), budget, lpo))
     else if \<not> id_positive eq_lit then Some (Inr ((results, bank, gen, tl clk), budget, lpo))
     else case id_atom eq_lit of
       IdPred p args \<Rightarrow> Some (Inr ((results, bank, gen, tl clk), budget, lpo))
     | IdEq l r \<Rightarrow> try_each (superpose_orientation c1 c2 i ord sel comm assoc) [(l, r, True), (r, l, False)]
         ((results, bank, gen, tl clk), budget, lpo))"

definition superpose_selected_id_until_budgeted :: "IdClause \<Rightarrow> IdClause \<Rightarrow> TermBank \<Rightarrow> TermOrdering \<Rightarrow> ClauseIdGen
    \<Rightarrow> nat list option \<Rightarrow> SymbolId set \<Rightarrow> SymbolId set \<Rightarrow> u32 \<Rightarrow> clock \<Rightarrow> LpoBudget \<Rightarrow> sup_state option" where
  "superpose_selected_id_until_budgeted c1 c2 bank ord gen sel comm assoc budget deadline lpo = do {
     (offset, bank) \<leftarrow> clause_max_var_id c1 bank;
     (c2r, bank) \<leftarrow> rename_clause_id c2 offset bank;
     r \<leftarrow> try_each (superpose_equation c1 c2r ord sel comm assoc) (enumerate 0 (idc_literals c1))
       (([], bank, gen, deadline), budget, lpo);
     Some (finish r) }"

definition superpose_selected_id_until :: "IdClause \<Rightarrow> IdClause \<Rightarrow> TermBank \<Rightarrow> TermOrdering \<Rightarrow> ClauseIdGen
    \<Rightarrow> nat list option \<Rightarrow> SymbolId set \<Rightarrow> SymbolId set \<Rightarrow> clock \<Rightarrow> LpoBudget \<Rightarrow> sup_state option" where
  "superpose_selected_id_until c1 c2 bank ord gen sel comm assoc deadline lpo =
     superpose_selected_id_until_budgeted c1 c2 bank ord gen sel comm assoc AC_SUBSET_MATCH_BUDGET deadline lpo"

definition superpose_selected_id :: "IdClause \<Rightarrow> IdClause \<Rightarrow> TermBank \<Rightarrow> TermOrdering \<Rightarrow> ClauseIdGen
    \<Rightarrow> nat list option \<Rightarrow> SymbolId set \<Rightarrow> SymbolId set \<Rightarrow> LpoBudget \<Rightarrow> sup_state option" where
  "superpose_selected_id c1 c2 bank ord gen sel comm assoc lpo =
     superpose_selected_id_until c1 c2 bank ord gen sel comm assoc [] lpo"

definition superpose_id :: "IdClause \<Rightarrow> IdClause \<Rightarrow> TermBank \<Rightarrow> TermOrdering \<Rightarrow> ClauseIdGen \<Rightarrow> SymbolId set
    \<Rightarrow> SymbolId set \<Rightarrow> LpoBudget \<Rightarrow> sup_state option" where
  "superpose_id c1 c2 bank ord gen comm assoc lpo = superpose_selected_id c1 c2 bank ord gen None comm assoc lpo"

end
