(* ===== verification/AcMatch.thy ===== *)
theory AcMatch
  imports AcSubset BankTotal "HOL-Library.Multiset"
begin

text \<open>
  Matching modulo associative and commutative symbols always returns, whatever budget it is given,
  and its bindings are acyclic; in structures where the symbols have the declared laws they make
  the pattern equal to the part of the target that it was matched with.
\<close>

section \<open>States\<close>

text \<open>Only while the bank is not full do rebuilt terms denote what they should.\<close>

definition cap :: "SymbolId set \<Rightarrow> TermBank \<Rightarrow> SymbolId set" where
  "cap D b = (if intact b then D else {})"

abbreviation tm :: "SymbolId set \<Rightarrow> TermBank \<Rightarrow> TermId \<Rightarrow> Term \<Rightarrow> bool" where
  "tm D b \<equiv> ac_term (cap D b) b UNIV"

abbreviation sg :: "SymbolId set \<Rightarrow> TermBank \<Rightarrow> IdSubstitution \<Rightarrow> bool" where
  "sg D b \<equiv> ac_good (cap D b) b UNIV"

lemma binary_mono: "binary D t \<Longrightarrow> E \<subseteq> D \<Longrightarrow> binary E t"
  by (induction t) auto

lemma binary_none [simp]: "binary {} t"
  by (induction t) simp_all

lemma cap_becomes: "becomes b b' \<Longrightarrow> cap D b' \<subseteq> cap D b"
  using becomes_intact by (auto simp: cap_def)

lemma ac_ok_becomes: "ac_ok (cap D b') I C A \<Longrightarrow> becomes b b' \<Longrightarrow> ac_ok (cap D b) I C A"
  using cap_becomes unfolding ac_ok_def by blast

lemma tm_becomes: "tm D b i t \<Longrightarrow> becomes b b' \<Longrightarrow> tm D b' i t"
  using cap_becomes [of b b' D] by (auto simp: ac_term_def becomes_def intro: extends_to_legacy binary_mono)

lemma tms_becomes: "list_all2 (tm D b) is ts \<Longrightarrow> becomes b b' \<Longrightarrow> list_all2 (tm D b') is ts"
  by (erule list_all2_mono) (rule tm_becomes)

lemma sg_subst_ok: "sg D b s \<Longrightarrow> subst_ok b s"
  by (simp add: ac_good_def good_def)

lemma sg_bound: "sg D b s \<Longrightarrow> becomes b b' \<Longrightarrow> bound b' s = bound b s"
  by (simp add: ac_good_def good_def becomes_def bound_extends)

lemma sg_becomes:
  assumes "sg D b s" "becomes b b'"
  shows "sg D b' s"
proof -
  have "binary (cap D b') t" if "bound b s v = Some t" for v t
    using that assms(1) binary_mono [OF _ cap_becomes [OF assms(2)]] by (auto simp: ac_good_def)
  then show ?thesis using assms sg_bound [OF assms] subst_ok_extends [of b s b']
    by (auto simp: ac_good_def good_def becomes_def)
qed

lemma sg_new: "sg D b id_new_subst"
  by (simp add: ac_good_def good_def subst_ok_def acyclic_binds_def ranked_def)

lemma sg_closure:
  assumes "sg D b s"
  obtains r \<theta> where "ranked (bound b s) r" "closure (bound b s) \<theta>"
  using assms closure_exists unfolding ac_good_def good_def acyclic_binds_def by blast

text \<open>A computation returns; if it succeeds, its result satisfies \<open>Q\<close> in the bank it leaves.\<close>

definition yields :: "(TermBank \<Rightarrow> 'b \<Rightarrow> bool) \<Rightarrow> match_state \<Rightarrow> 'b matching \<Rightarrow> bool" where
  "yields Q st m \<longleftrightarrow> (\<exists>r st'. m = Some (r, st') \<and> becomes (fst st) (fst st') \<and> snd st' \<le> snd st \<and>
     (\<forall>x. r = Inr x \<longrightarrow> Q (fst st') x))"

definition later :: "match_state \<Rightarrow> match_state \<Rightarrow> bool" where
  "later st st' \<longleftrightarrow> becomes (fst st) (fst st') \<and> snd st' \<le> snd st"

lemma later_refl: "sane (fst st) \<Longrightarrow> later st st"
  by (simp add: later_def becomes_refl)

lemma later_trans [trans]: "later a b \<Longrightarrow> later b c \<Longrightarrow> later a c"
  by (auto simp: later_def intro: becomes_trans)

lemma later_sane: "later a b \<Longrightarrow> sane (fst b)"
  by (auto simp: later_def dest: becomes_sane)

lemma yieldsI: "later st st' \<Longrightarrow> (\<And>x. r = Inr x \<Longrightarrow> Q (fst st') x) \<Longrightarrow> yields Q st (Some (r, st'))"
  by (simp add: yields_def later_def)

lemma yieldsE:
  assumes "yields Q st m"
  obtains e st' where "m = Some (Inl e, st')" "later st st'"
  | x st' where "m = Some (Inr x, st')" "later st st'" "Q (fst st') x"
proof -
  obtain r st' where r: "m = Some (r, st')" "later st st'" "\<forall>x. r = Inr x \<longrightarrow> Q (fst st') x"
    using assms unfolding yields_def later_def by blast
  then show thesis using that by (cases r) auto
qed

lemma yields_later: "later a b \<Longrightarrow> yields Q b m \<Longrightarrow> yields Q a m"
  by (erule yieldsE) (auto simp: yields_def later_def intro: becomes_trans)

lemma yields_imp:
  assumes "yields Q st m" "\<And>st' x. later st st' \<Longrightarrow> Q (fst st') x \<Longrightarrow> R (fst st') x"
  shows "yields R st m"
  using assms(1)
proof (cases rule: yieldsE)
  case (2 x st')
  then show ?thesis using assms(2) by (simp add: yields_def later_def)
qed (simp add: yields_def later_def)

lemma yields_and_then:
  assumes "yields Q st m" "\<And>x st'. later st st' \<Longrightarrow> Q (fst st') x \<Longrightarrow> yields R st' (k x st')"
  shows "yields R st (and_then m k)"
  using assms(1)
proof (cases rule: yieldsE)
  case (1 e st')
  then show ?thesis by (simp add: and_then_def yields_def later_def)
next
  case (2 x st')
  then show ?thesis using yields_later [OF 2(2) assms(2) [OF 2(2,3)]] by (simp add: and_then_def)
qed

lemma yields_charged:
  assumes "sane (fst st)" "\<And>n. n < snd st \<Longrightarrow> yields Q (fst st, n) (k (fst st, n))"
  shows "yields Q st (charged st k)"
proof (cases "snd st = 0")
  case False
  then have "snd st - 1 < snd st" by (metis measure_unat word_less_nat_alt)
  then show ?thesis using yields_later [OF _ assms(2)] assms(1) False
    by (simp add: charged_def consume_def later_def becomes_refl)
qed (use assms(1) in \<open>simp add: charged_def consume_def yields_def becomes_refl\<close>)

lemma yields_no_match: "yields Q st m \<Longrightarrow> yields Q st (no_match stop m)"
  by (erule yieldsE) (auto simp: no_match_def yields_def later_def)

lemma yields_try_candidates:
  assumes "\<And>c st'. c \<in> set cs \<Longrightarrow> later st st' \<Longrightarrow> yields Q st' (f c st')"
  shows "sane (fst st) \<Longrightarrow> yields Q st (try_candidates stop f e cs st)"
  using assms
proof (induction cs arbitrary: e st)
  case Nil
  then show ?case by (auto intro!: yieldsI later_refl)
next
  case (Cons c cs)
  have "yields Q st (f c st)" using Cons.prems later_refl by simp
  then show ?case
  proof (cases rule: yieldsE)
    case (1 e st')
    have "yields Q st' (try_candidates stop f e cs st')" for e
      using Cons.IH [of st'] Cons.prems(2) later_sane [OF 1(2)] later_trans [OF 1(2)] by simp
    from yields_later [OF 1(2) this] show ?thesis using 1 by (auto intro!: yieldsI)
  next
    case (2 x st')
    then show ?thesis by (auto intro!: yieldsI)
  qed
qed

section \<open>What a match establishes\<close>

text \<open>Variables in \<open>R\<close> are never bound.\<close>

definition refines :: "VarId set \<Rightarrow> SymbolId set \<Rightarrow> SymbolId set \<Rightarrow> SymbolId set \<Rightarrow> ('a interp \<Rightarrow> (VarId \<Rightarrow> 'a) \<Rightarrow> bool)
    \<Rightarrow> IdSubstitution \<Rightarrow> TermBank \<Rightarrow> IdSubstitution \<Rightarrow> bool" where
  "refines R D C A P s b s' \<longleftrightarrow> sg D b s' \<and> (\<forall>v \<in> R. id_get s v = None \<longrightarrow> id_get s' v = None) \<and>
     (\<forall>I \<rho>. ac_ok (cap D b) I C A \<longrightarrow> sol I \<rho> (bound b s') \<longrightarrow> sol I \<rho> (bound b s) \<and> P I \<rho>)"

lemma refines_sg: "refines R D C A P s b s' \<Longrightarrow> sg D b s'"
  by (simp add: refines_def)

lemma refines_same:
  "sg D b s \<Longrightarrow> (\<And>I \<rho>. ac_ok (cap D b) I C A \<Longrightarrow> sol I \<rho> (bound b s) \<Longrightarrow> P I \<rho>) \<Longrightarrow> refines R D C A P s b s"
  by (simp add: refines_def)

lemma refines_imp:
  "refines R D C A P s b s' \<Longrightarrow> (\<And>I \<rho>. ac_ok (cap D b) I C A \<Longrightarrow> sol I \<rho> (bound b s) \<Longrightarrow> P I \<rho> \<Longrightarrow> Q I \<rho>) \<Longrightarrow>
   refines R D C A Q s b s'"
  by (simp add: refines_def)

lemma refines_trans:
  assumes "sg D b s" "refines R D C A P s b s1" "becomes b b'" "refines R D C A Q s1 b' s2"
  shows "refines R D C A (\<lambda>I \<rho>. P I \<rho> \<and> Q I \<rho>) s b' s2"
  using assms ac_ok_becomes [OF _ assms(3)] sg_bound [OF assms(1,3)] sg_bound [OF refines_sg [OF assms(2)] assms(3)]
  by (simp add: refines_def) blast

lemma yields_chain:
  assumes s: "sg D (fst st) s" and m: "yields (refines R D C A P s) st m"
    and k: "\<And>s1 st'. later st st' \<Longrightarrow> sg D (fst st') s1 \<Longrightarrow> yields (refines R D C A Q s1) st' (k s1 st')"
    and T: "\<And>I \<rho>. ac_ok (cap D (fst st)) I C A \<Longrightarrow> sol I \<rho> (bound (fst st) s) \<Longrightarrow> P I \<rho> \<Longrightarrow> Q I \<rho> \<Longrightarrow> T I \<rho>"
  shows "yields (refines R D C A T s) st (and_then m k)"
proof (rule yields_and_then [OF m])
  fix s1 st' assume st': "later st st'" and s1: "refines R D C A P s (fst st') s1"
  show "yields (refines R D C A T s) st' (k s1 st')"
  proof (rule yields_imp [OF k [OF st' refines_sg [OF s1]]])
    fix st2 s2 assume st2: "later st' st2" and s2: "refines R D C A Q s1 (fst st2) s2"
    have b: "becomes (fst st) (fst st')" "becomes (fst st') (fst st2)" using st' st2 by (simp_all add: later_def)
    then have all: "becomes (fst st) (fst st2)" by (rule becomes_trans)
    show "refines R D C A T s (fst st2) s2"
    proof (rule refines_imp [OF refines_trans [OF sg_becomes [OF s b(1)] s1 b(2) s2]])
      fix I \<rho> assume "ac_ok (cap D (fst st2)) I C A" "sol I \<rho> (bound (fst st2) s)" "P I \<rho> \<and> Q I \<rho>"
      then show "T I \<rho>" using T ac_ok_becomes [OF _ all] sg_bound [OF s all] by metis
    qed
  qed
qed

text \<open>The recursive call does what it should with a budget of at most \<open>n\<close>.\<close>

definition me_ok :: "'a itself \<Rightarrow> VarId set \<Rightarrow> SymbolId set \<Rightarrow> SymbolId set \<Rightarrow> SymbolId set \<Rightarrow> matcher \<Rightarrow> u32 \<Rightarrow> bool" where
  "me_ok TY R D C A me n \<longleftrightarrow> (\<forall>st p q t u s. snd st \<le> n \<longrightarrow> sane (fst st) \<longrightarrow> tm D (fst st) p t \<longrightarrow>
     tm D (fst st) q u \<longrightarrow> sg D (fst st) s \<longrightarrow>
     yields (refines R D C A (\<lambda>(I :: 'a interp) \<rho>. tval I \<rho> t = tval I \<rho> u) s) st (me p q s st))"

lemma me_okD:
  "me_ok TYPE('a) R D C A me n \<Longrightarrow> later st0 st \<Longrightarrow> snd st0 \<le> n \<Longrightarrow> tm D (fst st) p t \<Longrightarrow> tm D (fst st) q u \<Longrightarrow>
   sg D (fst st) s \<Longrightarrow> yields (refines R D C A (\<lambda>(I :: 'a interp) \<rho>. tval I \<rho> t = tval I \<rho> u) s) st (me p q s st)"
  unfolding me_ok_def later_def by (blast intro: order_trans dest: becomes_sane)

lemma match_pairs_yields:
  assumes me: "me_ok TYPE('a) R D C A me n"
  shows "later st0 st \<Longrightarrow> snd st0 \<le> n \<Longrightarrow> sg D (fst st) s \<Longrightarrow>
    list_all2 (\<lambda>p q. tm D (fst st) (fst p) (fst q) \<and> tm D (fst st) (snd p) (snd q)) ps qs \<Longrightarrow>
    yields (refines R D C A (\<lambda>(I :: 'a interp) \<rho>. \<forall>q \<in> set qs. tval I \<rho> (fst q) = tval I \<rho> (snd q)) s) st (match_pairs me ps s st)"
proof (induction ps arbitrary: st s qs)
  case Nil
  then show ?case by (auto intro!: yieldsI later_refl refines_same dest: later_sane)
next
  case (Cons p ps)
  then obtain q qs' where qs: "qs = q # qs'" "tm D (fst st) (fst p) (fst q)" "tm D (fst st) (snd p) (snd q)"
    "list_all2 (\<lambda>p q. tm D (fst st) (fst p) (fst q) \<and> tm D (fst st) (snd p) (snd q)) ps qs'"
    by (auto simp: list_all2_Cons1)
  show ?case unfolding match_pairs.simps
  proof (rule yields_chain [OF Cons.prems(3) me_okD [OF me Cons.prems(1,2) qs(2,3) Cons.prems(3)]])
    fix s1 st' assume st': "later st st'" and s1: "sg D (fst st') s1"
    have "list_all2 (\<lambda>p q. tm D (fst st') (fst p) (fst q) \<and> tm D (fst st') (snd p) (snd q)) ps qs'"
      using qs(4) by (rule list_all2_mono) (use st' in \<open>auto simp: later_def intro: tm_becomes\<close>)
    from Cons.IH [OF later_trans [OF Cons.prems(1) st'] Cons.prems(2) s1 this]
    show "yields (refines R D C A (\<lambda>(I :: 'a interp) \<rho>. \<forall>q \<in> set qs'. tval I \<rho> (fst q) = tval I \<rho> (snd q)) s1) st' (match_pairs me ps s1 st')" .
  qed (simp add: qs(1))
qed

section \<open>Flattening and rebuilding\<close>

lemma flatten_ac_loop_flat:
  assumes g: "ac_good D b V s" and r: "ranked (bound b s) r" and th: "closure (bound b s) \<theta>"
  shows "list_all2 (ac_term D b V) stack ts \<Longrightarrow> \<exists>out us. flatten_ac_loop f s b stack result = Some (result @ out) \<and>
    list_all2 (ac_term D b V) out us \<and> (stack \<noteq> [] \<longrightarrow> out \<noteq> []) \<and>
    (\<forall>(I :: 'a interp) \<rho> pre. ac_ok D I C A \<longrightarrow> f \<in> A \<longrightarrow> sol I \<rho> (bound b s) \<longrightarrow>
       joined I f (pre @ map (tval I \<rho>) us) = joined I f (pre @ map (tval I \<rho>) ts))"
proof (induction "sum_list (map (\<lambda>t. term_size (inst \<theta> t)) ts)" arbitrary: stack ts result rule: less_induct)
  case less
  show ?case
  proof (cases stack)
    case Nil
    then show ?thesis using less.prems by (intro exI [of _ "[]"]) (simp add: flatten_ac_loop.simps [of f s b "[]"])
  next
    case (Cons i rest)
    then obtain t ts' where ts: "ts = t # ts'" "ac_term D b V i t" "list_all2 (ac_term D b V) rest ts'"
      using less.prems(1) by (auto simp: list_all2_Cons1)
    obtain j u where j: "deref_id i s b = Some j" "ac_term D b V j u" "inst \<theta> u = inst \<theta> t"
      "\<forall>(I :: 'a interp) \<rho>. sol I \<rho> (bound b s) \<longrightarrow> tval I \<rho> u = tval I \<rho> t"
      by (rule ac_deref [OF g ts(2) r th]) blast
    show ?thesis
    proof (cases "\<exists>as. u = App f as \<and> 2 \<le> length as")
      case True
      then obtain as where u: "u = App f as" "2 \<le> length as" by blast
      obtain args where args: "node_at b j = Some (NApp f args)" "list_all2 (ac_term D b V) args as"
        by (rule ac_term_App [OF j(2) [unfolded u(1)]])
      have size: "term_size (inst \<theta> t) = Suc (sum_list (map (\<lambda>t. term_size (inst \<theta> t)) as))"
        using u(1) by (simp flip: j(3) add: comp_def)
      have "list_all2 (ac_term D b V) (args @ rest) (as @ ts')" using args(2) ts(3) by (rule list_all2_appendI)
      moreover have "sum_list (map (\<lambda>t. term_size (inst \<theta> t)) (as @ ts')) < sum_list (map (\<lambda>t. term_size (inst \<theta> t)) ts)"
        using size ts(1) by simp
      ultimately obtain out us where o: "flatten_ac_loop f s b (args @ rest) result = Some (result @ out)"
        "list_all2 (ac_term D b V) out us" "args @ rest \<noteq> [] \<longrightarrow> out \<noteq> []"
        "\<forall>(I :: 'a interp) \<rho> pre. ac_ok D I C A \<longrightarrow> f \<in> A \<longrightarrow> sol I \<rho> (bound b s) \<longrightarrow>
          joined I f (pre @ map (tval I \<rho>) us) = joined I f (pre @ map (tval I \<rho>) (as @ ts'))"
        using less.hyps [of "as @ ts'" "args @ rest" result] by blast
      have len: "length args = length as" using args(2) by (rule list_all2_lengthD)
      have "flatten_ac_loop f s b stack result = Some (result @ out)"
        using Cons j(1) args(1) u(2) len o(1) by (simp add: flatten_ac_loop.simps [of f s b "_ # _"])
      moreover have "args @ rest \<noteq> []" using len u(2) by auto
      moreover have "joined I f (pre @ map (tval I \<rho>) (as @ ts')) = joined I f (pre @ map (tval I \<rho>) ts)"
        if "ac_ok D I C A" "f \<in> A" "sol I \<rho> (bound b s)" for I :: "'a interp" and \<rho> pre
      proof -
        have "length as = 2" using j(2) ac_okD(2) [OF that(1,2)] by (simp add: u(1) ac_term_def)
        then obtain x y where "as = [x, y]" by (auto simp: numeral_2_eq_2 length_Suc_conv)
        then show ?thesis
          using joined_split [OF ac_okD(1) [OF that(1)] that(2), of pre "tval I \<rho> x" "tval I \<rho> y" "map (tval I \<rho>) ts'"]
            j(4) that(3) by (simp add: ts(1) u(1))
      qed
      ultimately show ?thesis using o(2-4) by (intro exI [of _ out] exI [of _ us]) auto
    next
      case False
      obtain node where node: "node_at b j = Some node" using j(2) by (auto simp: ac_term_def elim: to_legacy_cases)
      have "flatten_ac_loop f s b stack result = flatten_ac_loop f s b rest (result @ [j])"
        using Cons j(1,2) node False
        by (cases node) (auto simp: flatten_ac_loop.simps [of f s b "_ # _"] ac_term_def to_legacy_node dest: mapM_length)
      moreover have "sum_list (map (\<lambda>t. term_size (inst \<theta> t)) ts') < sum_list (map (\<lambda>t. term_size (inst \<theta> t)) ts)"
        using ts(1) by (cases "inst \<theta> t") auto
      then obtain out us where o: "flatten_ac_loop f s b rest (result @ [j]) = Some ((result @ [j]) @ out)"
        "list_all2 (ac_term D b V) out us"
        "\<forall>(I :: 'a interp) \<rho> pre. ac_ok D I C A \<longrightarrow> f \<in> A \<longrightarrow> sol I \<rho> (bound b s) \<longrightarrow>
          joined I f (pre @ map (tval I \<rho>) us) = joined I f (pre @ map (tval I \<rho>) ts')"
        using less.hyps [of ts' rest "result @ [j]"] ts by auto
      moreover have "joined I f (pre @ map (tval I \<rho>) (u # us)) = joined I f (pre @ map (tval I \<rho>) ts)"
        if "ac_ok D I C A" "f \<in> A" "sol I \<rho> (bound b s)" for I :: "'a interp" and \<rho> pre
        using o(3) [rule_format, OF that, of "pre @ [tval I \<rho> t]"] j(4) that(3) by (simp add: ts(1))
      ultimately show ?thesis using j(2) by (intro exI [of _ "j # out"] exI [of _ "u # us"]) auto
    qed
  qed
qed

lemma flatten_ac_flat:
  assumes "sg D b s" "tm D b i t"
  obtains ks us where "flatten_ac i f s b = Some ks" "list_all2 (tm D b) ks us" "ks \<noteq> []"
    "\<And>(I :: 'a interp) \<rho>. ac_ok (cap D b) I C A \<Longrightarrow> f \<in> A \<Longrightarrow> sol I \<rho> (bound b s) \<Longrightarrow>
       joined I f (map (tval I \<rho>) us) = tval I \<rho> t"
proof -
  obtain r \<theta> where r: "ranked (bound b s) r" "closure (bound b s) \<theta>" by (rule sg_closure [OF assms(1)])
  obtain out us where "flatten_ac_loop f s b [i] [] = Some out" "list_all2 (tm D b) out us" "out \<noteq> []"
    "\<forall>(I :: 'a interp) \<rho> pre. ac_ok (cap D b) I C A \<longrightarrow> f \<in> A \<longrightarrow> sol I \<rho> (bound b s) \<longrightarrow>
       joined I f (pre @ map (tval I \<rho>) us) = joined I f (pre @ [tval I \<rho> t])"
    using flatten_ac_loop_flat [OF assms(1) r, of "[i]" "[t]" f "[]" C A] assms(2) by auto
  then show thesis using that [of out us] unfolding flatten_ac_def by (metis append_Nil joined.simps(2))
qed

lemma rebuild_ac_term_yields:
  assumes "list_all2 (tm D b) ks us" "ks \<noteq> []" "sane b"
  obtains k b' w where "rebuild_ac_term ks f b = Some (k, b')" "becomes b b'" "tm D b' k w"
    "\<And>(I :: 'a interp) \<rho>. ac_ok (cap D b') I C A \<Longrightarrow> f \<in> A \<Longrightarrow> tval I \<rho> w = joined I f (map (tval I \<rho>) us)"
proof -
  have "\<exists>k b' w. rebuild_ac_term ks f b = Some (k, b') \<and> becomes b b' \<and> tm D b' k w \<and>
    (\<forall>(I :: 'a interp) \<rho>. ac_ok (cap D b') I C A \<longrightarrow> f \<in> A \<longrightarrow> tval I \<rho> w = joined I f (map (tval I \<rho>) us))"
    using assms
  proof (induction ks f b arbitrary: us rule: rebuild_ac_term.induct)
    case (1 f b)
    then show ?case by simp
  next
    case (2 i f b)
    then obtain u where "us = [u]" "tm D b i u" by (auto simp: list_all2_Cons1)
    then show ?case using becomes_refl [OF 2(3)] by auto
  next
    case (3 i j ks f b)
    then obtain u us' where us: "us = u # us'" "tm D b i u" "list_all2 (tm D b) (j # ks) us'"
      by (auto simp: list_all2_Cons1)
    obtain k b1 w where IH: "rebuild_ac_term (j # ks) f b = Some (k, b1)" "becomes b b1" "tm D b1 k w"
      "\<And>(I :: 'a interp) \<rho>. ac_ok (cap D b1) I C A \<Longrightarrow> f \<in> A \<Longrightarrow> tval I \<rho> w = joined I f (map (tval I \<rho>) us')"
      using 3(1) [OF us(3) list.simps(3) 3(4)] by blast
    obtain l b2 where l: "intern_app f [i, k] b1 = (l, b2)" by fastforce
    have "list_all2 (den b1) [i, k] [u, w]"
      using tm_becomes [OF us(2) IH(2)] IH(3) by (simp add: ac_term_def means_def)
    from intern_app_becomes [OF becomes_sane [OF IH(2)] this l]
    have b2: "becomes b1 b2" "den b2 l (App f [u, w])" by simp_all
    obtain v where v: "to_legacy b2 l = Some v" "intact b2 \<longrightarrow> v = App f [u, w]"
      using b2(2) by (auto simp: means_def)
    have "tm D b2 l v"
    proof (cases "intact b2")
      case True
      then have "cap D b2 = cap D b1" using becomes_intact [OF b2(1)] by (simp add: cap_def)
      then show ?thesis using v True IH(3) tm_becomes [OF us(2) IH(2)] by (auto simp: ac_term_def)
    qed (simp add: ac_term_def cap_def v(1))
    moreover have "tval I \<rho> v = joined I f (map (tval I \<rho>) us)" if "ac_ok (cap D b2) I C A" "f \<in> A" for I :: "'a interp" and \<rho>
    proof -
      have "intact b2" using that by (auto simp: ac_ok_def cap_def split: if_splits)
      moreover have "us' \<noteq> []" using us(3) by auto
      ultimately show ?thesis using v(2) IH(4) [OF ac_ok_becomes [OF that(1) b2(1)] that(2)]
        by (simp add: us(1) joined_Cons)
    qed
    ultimately show ?case using IH(1) l becomes_trans [OF IH(2) b2(1)] by auto
  qed
  then show thesis using that by blast
qed

lemma joined_mset:
  assumes "ac_interp I C A" "f \<in> A" "f \<in> C"
  shows "mset xs = mset ys \<Longrightarrow> joined I f xs = joined I f ys"
proof (induction xs arbitrary: ys)
  case (Cons x xs)
  then obtain as bs where ys: "ys = as @ x # bs" by (metis list.set_intros(1) mset_eq_setD split_list)
  then have IH: "joined I f xs = joined I f (as @ bs)" using Cons by simp
  have comm: "ifun I f [a, b] = ifun I f [b, a]" for a b
    using assms(1,3) by (simp add: ac_interp_def comm_interp_def)
  have ass: "ifun I f [ifun I f [a, b], c] = ifun I f [a, ifun I f [b, c]]" for a b c
    using assms(1,2) by (simp add: ac_interp_def)
  show ?case
  proof (cases "as = []")
    case True
    then have "xs = [] \<longleftrightarrow> bs = []" using Cons.prems ys by auto
    then show ?thesis using IH True ys by (cases "bs = []") (simp_all add: joined_Cons)
  next
    case False
    then have "xs \<noteq> []" using Cons.prems ys by auto
    have "joined I f ys = ifun I f [joined I f as, joined I f (x # bs)]"
      using joined_append [OF assms(1,2) False, of "x # bs"] ys by simp
    also have "\<dots> = ifun I f [x, joined I f (as @ bs)]"
    proof (cases "bs = []")
      case True
      then show ?thesis using comm by simp
    next
      case nonempty: False
      then show ?thesis using joined_append [OF assms(1,2) False nonempty]
        by (simp add: joined_Cons) (metis comm ass)
    qed
    finally show ?thesis using IH \<open>xs \<noteq> []\<close> by (simp add: joined_Cons)
  qed
qed simp

section \<open>The searches\<close>

abbreviation unused :: "bool list \<Rightarrow> 'b list \<Rightarrow> 'b list" where
  "unused used xs \<equiv> map (\<lambda>c. xs ! c) (free_indices used)"

lemma mset_unused:
  assumes "c \<in> set (free_indices used)"
  shows "mset (unused used xs) = add_mset (xs ! c) (mset (unused (used[c := True]) xs))"
proof -
  have c: "c < length used" "\<not> used ! c" using assms by (auto simp: free_indices_def)
  have free: "mset (free_indices u) = mset_set {k. k < length u \<and> \<not> u ! k}" for u
    by (simp add: free_indices_def flip: mset_set_upto_eq_mset_upto)
  have "{k. k < length used \<and> \<not> used ! k} = insert c {k. k < length (used[c := True]) \<and> \<not> used[c := True] ! k}"
    using c by (auto simp: nth_list_update split: if_splits)
  moreover have "c \<notin> {k. k < length (used[c := True]) \<and> \<not> used[c := True] ! k}" using c by simp
  ultimately have "mset (free_indices used) = add_mset c (mset (free_indices (used[c := True])))"
    unfolding free by (simp del: length_list_update)
  then show ?thesis by simp
qed

lemma free_indices_size:
  assumes "c \<in> set (free_indices used)"
  shows "length (free_indices used) = Suc (length (free_indices (used[c := True])))"
  using arg_cong [OF mset_unused [OF assms, of "[]"], of size] by simp

lemma match_flat_permutations_yields:
  assumes me: "me_ok TYPE('a) R D C A me n"
  shows "later st0 st \<Longrightarrow> snd st0 \<le> n \<Longrightarrow> sg D (fst st) s \<Longrightarrow> list_all2 (tm D (fst st)) ls ts \<Longrightarrow>
    list_all2 (tm D (fst st)) right us \<Longrightarrow> length used = length right \<Longrightarrow> length (free_indices used) = length ls \<Longrightarrow>
    yields (refines R D C A (\<lambda>(I :: 'a interp) \<rho>. mset (map (tval I \<rho>) ts) = mset (map (tval I \<rho>) (unused used us))) s) st
      (match_flat_permutations me right ls used s st)"
proof (induction ls arbitrary: st s ts used)
  case Nil
  then show ?case by (auto intro!: yieldsI later_refl refines_same dest: later_sane)
next
  case (Cons l ls)
  then obtain t ts' where ts: "ts = t # ts'" "tm D (fst st) l t" "list_all2 (tm D (fst st)) ls ts'"
    by (auto simp: list_all2_Cons1)
  show ?case unfolding match_flat_permutations.simps
  proof (rule yields_try_candidates, rule yields_charged)
    fix c st1 m assume c: "c \<in> set (free_indices used)" and st1: "later st st1" and m: "m < snd st1"
    let ?st = "(fst st1, m)"
    have st2: "later st ?st" using st1 m by (auto simp: later_def)
    then have b2: "becomes (fst st) (fst ?st)" by (simp add: later_def)
    have c_less: "c < length right" using c Cons.prems(6) by (auto simp: free_indices_def)
    then have u: "tm D (fst ?st) (right ! c) (us ! c)"
      using tms_becomes [OF Cons.prems(5) b2] by (auto simp: list_all2_conv_all_nth)
    have s: "sg D (fst ?st) s" by (rule sg_becomes [OF Cons.prems(3) b2])
    show "yields (refines R D C A (\<lambda>(I :: 'a interp) \<rho>. mset (map (tval I \<rho>) ts) = mset (map (tval I \<rho>) (unused used us))) s) ?st
        (and_then (me l (right ! c) s ?st) (match_flat_permutations me right ls (used[c := True])))"
    proof (rule yields_chain [OF s me_okD [OF me later_trans [OF Cons.prems(1) st2] Cons.prems(2) tm_becomes [OF ts(2) b2] u s]])
      fix s1 st' assume st': "later ?st st'" and s1: "sg D (fst st') s1"
      have all: "later st st'" using later_trans [OF st2 st'] .
      then have b: "becomes (fst st) (fst st')" by (simp add: later_def)
      show "yields (refines R D C A (\<lambda>(I :: 'a interp) \<rho>. mset (map (tval I \<rho>) ts') = mset (map (tval I \<rho>) (unused (used[c := True]) us))) s1) st'
          (match_flat_permutations me right ls (used[c := True]) s1 st')"
        using Cons.IH [OF later_trans [OF Cons.prems(1) all] Cons.prems(2) s1 tms_becomes [OF ts(3) b] tms_becomes [OF Cons.prems(5) b]]
          Cons.prems(6,7) free_indices_size [OF c] by simp
    next
      fix I :: "'a interp" and \<rho> assume "tval I \<rho> t = tval I \<rho> (us ! c)"
        "mset (map (tval I \<rho>) ts') = mset (map (tval I \<rho>) (unused (used[c := True]) us))"
      then show "mset (map (tval I \<rho>) ts) = mset (map (tval I \<rho>) (unused used us))"
        using arg_cong [OF mset_unused [OF c, of us], of "image_mset (tval I \<rho>)"] by (simp add: ts(1) multiset.map_comp comp_def)
    qed
  qed (use Cons.prems(1) later_sane in \<open>auto intro: later_sane\<close>)
qed

text \<open>The target arguments with the indices in \<open>new\<close> have the values of the pattern arguments.\<close>

definition paired :: "'a itself \<Rightarrow> VarId set \<Rightarrow> SymbolId set \<Rightarrow> SymbolId set \<Rightarrow> SymbolId set \<Rightarrow> Term list \<Rightarrow> Term list \<Rightarrow> nat list
    \<Rightarrow> bool list \<Rightarrow> IdSubstitution \<Rightarrow> TermBank \<Rightarrow> IdSubstitution \<times> nat list \<Rightarrow> bool" where
  "paired TY R D C A ts us chosen used s b x \<longleftrightarrow> (\<exists>new. snd x = chosen @ new \<and> distinct new \<and> set new \<subseteq> set (free_indices used) \<and>
     length new = length ts \<and>
     refines R D C A (\<lambda>(I :: 'a interp) \<rho>. map (tval I \<rho>) ts = map (\<lambda>c. tval I \<rho> (us ! c)) new) s b (fst x))"

lemma enumerate_pairs_yields:
  assumes me: "me_ok TYPE('a) R D C A me n"
  shows "later st0 st \<Longrightarrow> snd st0 \<le> n \<Longrightarrow> sg D (fst st) s \<Longrightarrow> list_all2 (tm D (fst st)) ps ts \<Longrightarrow>
    list_all2 (tm D (fst st)) target us \<Longrightarrow> length used = length target \<Longrightarrow>
    yields (paired TYPE('a) R D C A ts us chosen used s) st (enumerate_pairs me target ps used chosen s st)"
proof (induction ps arbitrary: st s ts used chosen)
  case Nil
  then show ?case by (auto simp: paired_def intro!: yieldsI later_refl refines_same dest: later_sane)
next
  case (Cons p ps)
  then obtain t ts' where ts: "ts = t # ts'" "tm D (fst st) p t" "list_all2 (tm D (fst st)) ps ts'"
    by (auto simp: list_all2_Cons1)
  show ?case unfolding enumerate_pairs.simps
  proof (rule yields_no_match, rule yields_try_candidates, rule yields_charged)
    fix c st1 m assume c: "c \<in> set (free_indices used)" and st1: "later st st1" and m: "m < snd st1"
    let ?st = "(fst st1, m)"
    have st2: "later st ?st" using st1 m by (auto simp: later_def)
    then have b2: "becomes (fst st) (fst ?st)" by (simp add: later_def)
    have c_less: "c < length target" using c Cons.prems(6) by (auto simp: free_indices_def)
    then have u: "tm D (fst ?st) (target ! c) (us ! c)"
      using tms_becomes [OF Cons.prems(5) b2] by (auto simp: list_all2_conv_all_nth)
    have s: "sg D (fst ?st) s" by (rule sg_becomes [OF Cons.prems(3) b2])
    show "yields (paired TYPE('a) R D C A ts us chosen used s) ?st
        (and_then (me p (target ! c) s ?st) (enumerate_pairs me target ps (used[c := True]) (chosen @ [c])))"
    proof (rule yields_and_then [OF me_okD [OF me later_trans [OF Cons.prems(1) st2] Cons.prems(2) tm_becomes [OF ts(2) b2] u s]])
      fix s1 st' assume st': "later ?st st'"
        and r1: "refines R D C A (\<lambda>(I :: 'a interp) \<rho>. tval I \<rho> t = tval I \<rho> (us ! c)) s (fst st') s1"
      have all: "later st st'" using later_trans [OF st2 st'] .
      then have b: "becomes (fst st) (fst st')" by (simp add: later_def)
      have "yields (paired TYPE('a) R D C A ts' us (chosen @ [c]) (used[c := True]) s1) st'
          (enumerate_pairs me target ps (used[c := True]) (chosen @ [c]) s1 st')"
        using Cons.IH [OF later_trans [OF Cons.prems(1) all] Cons.prems(2) refines_sg [OF r1] tms_becomes [OF ts(3) b] tms_becomes [OF Cons.prems(5) b]]
          Cons.prems(6) by simp
      then show "yields (paired TYPE('a) R D C A ts us chosen used s) st'
          (enumerate_pairs me target ps (used[c := True]) (chosen @ [c]) s1 st')"
      proof (rule yields_imp)
        fix st3 x assume st3: "later st' st3" and "paired TYPE('a) R D C A ts' us (chosen @ [c]) (used[c := True]) s1 (fst st3) x"
        then obtain new where new: "snd x = (chosen @ [c]) @ new" "distinct new" "set new \<subseteq> set (free_indices (used[c := True]))"
          "length new = length ts'"
          "refines R D C A (\<lambda>(I :: 'a interp) \<rho>. map (tval I \<rho>) ts' = map (\<lambda>c. tval I \<rho> (us ! c)) new) s1 (fst st3) (fst x)"
          unfolding paired_def by blast
        have "becomes (fst st') (fst st3)" using st3 by (simp add: later_def)
        from refines_trans [OF sg_becomes [OF Cons.prems(3) b] r1 this new(5)]
        have "refines R D C A (\<lambda>(I :: 'a interp) \<rho>. map (tval I \<rho>) ts = map (\<lambda>c. tval I \<rho> (us ! c)) (c # new)) s (fst st3) (fst x)"
          by (rule refines_imp) (simp add: ts(1))
        moreover have "c \<notin> set new" "set new \<subseteq> set (free_indices used)"
          using new(3) c by (auto simp: free_indices_def nth_list_update split: if_splits)
        ultimately show "paired TYPE('a) R D C A ts us chosen used s (fst st3) x"
          using new(1,2,4) c unfolding paired_def by (intro exI [of _ "c # new"]) (simp add: ts(1))
      qed
    qed
  qed (use Cons.prems(1) in \<open>auto intro: later_sane\<close>)
qed

lemma joined_parts:
  assumes "ac_interp I C A" "f \<in> A" "x = joined I f (take k ys)" "take k ys \<noteq> []"
    and "xs = [] \<longleftrightarrow> drop k ys = []" "joined I f xs = joined I f (drop k ys)"
  shows "joined I f (x # xs) = joined I f ys"
proof (cases "drop k ys = []")
  case True
  then show ?thesis using assms by simp
next
  case False
  then have "joined I f ys = ifun I f [joined I f (take k ys), joined I f (drop k ys)]"
    using joined_append [OF assms(1,2,4) False] by simp
  then show ?thesis using assms False by (simp add: joined_Cons)
qed

lemma match_assoc_sequences_yields:
  assumes me: "me_ok TYPE('a) R D C A me n" and f: "f \<in> A"
  shows "later st0 st \<Longrightarrow> snd st0 \<le> n \<Longrightarrow> sg D (fst st) s \<Longrightarrow> list_all2 (tm D (fst st)) ps ts \<Longrightarrow>
    list_all2 (tm D (fst st)) target us \<Longrightarrow>
    yields (refines R D C A (\<lambda>(I :: 'a interp) \<rho>. (ts = [] \<longleftrightarrow> us = []) \<and>
      joined I f (map (tval I \<rho>) ts) = joined I f (map (tval I \<rho>) us)) s) st
      (match_assoc_sequences stop me f ps target s st)"
proof (induction ps arbitrary: st s ts target us)
  case Nil
  show ?case unfolding match_assoc_sequences.simps
  proof (rule yields_charged)
    show "sane (fst st)" using Nil.prems(1) by (rule later_sane)
    fix m assume "m < snd st"
    show "yields (refines R D C A (\<lambda>(I :: 'a interp) \<rho>. (ts = [] \<longleftrightarrow> us = []) \<and>
      joined I f (map (tval I \<rho>) ts) = joined I f (map (tval I \<rho>) us)) s) (fst st, m)
      (Some (if target = [] then Inr s else Inl NoAcSubsetMatch, fst st, m))"
      using Nil.prems by (auto intro!: yieldsI later_refl refines_same dest: later_sane)
  qed
next
  case (Cons p ps)
  then obtain t ts' where ts: "ts = t # ts'" "tm D (fst st) p t" "list_all2 (tm D (fst st)) ps ts'"
    by (auto simp: list_all2_Cons1)
  let ?P = "\<lambda>(I :: 'a interp) \<rho>. (ts = [] \<longleftrightarrow> us = []) \<and> joined I f (map (tval I \<rho>) ts) = joined I f (map (tval I \<rho>) us)"
  have sane: "sane (fst st)" using Cons.prems(1) by (rule later_sane)
  obtain r \<theta> where r: "ranked (bound (fst st) s) r" "closure (bound (fst st) s) \<theta>" by (rule sg_closure [OF Cons.prems(3)])
  obtain cur u where cur: "deref_id p s (fst st) = Some cur" "tm D (fst st) cur u"
    "\<forall>(I :: 'a interp) \<rho>. sol I \<rho> (bound (fst st) s) \<longrightarrow> tval I \<rho> u = tval I \<rho> t"
    by (rule ac_deref [OF Cons.prems(3) ts(2) r]) blast
  obtain node where node: "node_at (fst st) cur = Some node" using cur(2) by (auto simp: ac_term_def elim: to_legacy_cases)
  text \<open>One element of the pattern takes the first \<open>k\<close> elements of the target.\<close>
  have step: "yields (refines R D C A ?P s) st' (and_then (me cur seg s st') (match_assoc_sequences stop me f ps (drop k target)))"
    if st': "later st st'" and seg: "tm D (fst st') seg w" and k: "take k target \<noteq> []"
      and w: "\<And>(I :: 'a interp) \<rho>. ac_ok (cap D (fst st')) I C A \<Longrightarrow> tval I \<rho> w = joined I f (map (tval I \<rho>) (take k us))"
    for st' seg w k
  proof -
    have b: "becomes (fst st) (fst st')" using st' by (simp add: later_def)
    have s: "sg D (fst st') s" by (rule sg_becomes [OF Cons.prems(3) b])
    show ?thesis
    proof (rule yields_chain [OF s me_okD [OF me later_trans [OF Cons.prems(1) st'] Cons.prems(2) tm_becomes [OF cur(2) b] seg s]])
      fix s1 st2 assume st2: "later st' st2" and s1: "sg D (fst st2) s1"
      have all: "later st st2" using later_trans [OF st' st2] .
      then have b2: "becomes (fst st) (fst st2)" by (simp add: later_def)
      show "yields (refines R D C A (\<lambda>(I :: 'a interp) \<rho>. (ts' = [] \<longleftrightarrow> drop k us = []) \<and>
          joined I f (map (tval I \<rho>) ts') = joined I f (map (tval I \<rho>) (drop k us))) s1) st2
        (match_assoc_sequences stop me f ps (drop k target) s1 st2)"
        using Cons.IH [OF later_trans [OF Cons.prems(1) all] Cons.prems(2) s1 tms_becomes [OF ts(3) b2]
            list_all2_dropI [OF tms_becomes [OF Cons.prems(5) b2]]] .
    next
      fix I :: "'a interp" and \<rho>
      assume h: "ac_ok (cap D (fst st')) I C A" "sol I \<rho> (bound (fst st') s)" "tval I \<rho> u = tval I \<rho> w"
        "(ts' = [] \<longleftrightarrow> drop k us = []) \<and> joined I f (map (tval I \<rho>) ts') = joined I f (map (tval I \<rho>) (drop k us))"
      have "tval I \<rho> t = tval I \<rho> w" using h(2,3) cur(3) sg_bound [OF Cons.prems(3) b] by simp
      moreover have ne: "take k us \<noteq> []" using k list_all2_lengthD [OF Cons.prems(5)] by auto
      ultimately have "joined I f (tval I \<rho> t # map (tval I \<rho>) ts') = joined I f (map (tval I \<rho>) us)"
        using w [OF h(1)] h(4) by (intro joined_parts [OF ac_okD(1) [OF h(1)] f, of _ k]) (simp_all add: take_map drop_map)
      then show "?P I \<rho>" using ne by (auto simp: ts(1))
    qed
  qed
  show ?case unfolding match_assoc_sequences.simps
  proof (rule yields_charged [OF sane])
    fix m assume m: "m < snd st"
    let ?st = "(fst st, m)"
    have st1: "later st ?st" using m sane by (simp add: later_def becomes_refl)
    show "yields (refines R D C A ?P s) ?st (if length target \<le> length ps then Some (Inl NoAcSubsetMatch, ?st)
     else do {
       current \<leftarrow> deref_id p s (fst ?st);
       node \<leftarrow> node_at (fst ?st) current;
       case node of
         NVar v \<Rightarrow> no_match stop (try_candidates stop (\<lambda>len st. charged st (\<lambda>st. do {
             (segment, bank) \<leftarrow> rebuild_ac_term (take len target) f (fst st);
             and_then (me current segment s (bank, snd st)) (match_assoc_sequences stop me f ps (drop len target)) }))
           NoAcSubsetMatch [1..<Suc (length target - length ps)] ?st)
       | NApp g args \<Rightarrow> and_then (me current (hd target) s ?st) (match_assoc_sequences stop me f ps (tl target)) })"
    proof (cases "length target \<le> length ps")
      case True
      then show ?thesis using sane by (auto intro!: yieldsI later_refl)
    next
      case False
      then have target: "target \<noteq> []" by auto
      show ?thesis
      proof (cases node)
        case (NApp g args)
        have "tm D (fst ?st) (hd target) (hd us)" "us \<noteq> []"
          using Cons.prems(5) target by (cases target; cases us; simp)+
        then have "yields (refines R D C A ?P s) ?st (and_then (me cur (hd target) s ?st) (match_assoc_sequences stop me f ps (drop 1 target)))"
          using target by (intro step [OF st1]) (simp_all add: take_Suc)
        then show ?thesis using cur(1) node NApp False by (simp add: drop_Suc)
      next
        case (NVar v)
        have "yields (refines R D C A ?P s) ?st (try_candidates stop (\<lambda>len st. charged st (\<lambda>st. do {
             (segment, bank) \<leftarrow> rebuild_ac_term (take len target) f (fst st);
             and_then (me cur segment s (bank, snd st)) (match_assoc_sequences stop me f ps (drop len target)) }))
           NoAcSubsetMatch [1..<Suc (length target - length ps)] ?st)"
        proof (rule yields_try_candidates, rule yields_charged)
          fix len st2 m' assume len: "len \<in> set [1..<Suc (length target - length ps)]" and st2: "later ?st st2" and m': "m' < snd st2"
          have st3: "later st (fst st2, m')" using st1 st2 m' by (auto simp: later_def intro: becomes_trans)
          have ne: "take len target \<noteq> []" using len target by auto
          have "becomes (fst st) (fst st2)" "sane (fst st2)" using st3 later_sane [OF st3] by (simp_all add: later_def)
          then obtain seg b w where seg: "rebuild_ac_term (take len target) f (fst st2) = Some (seg, b)" "becomes (fst st2) b" "tm D b seg w"
            "\<And>(I :: 'a interp) \<rho>. ac_ok (cap D b) I C A \<Longrightarrow> f \<in> A \<Longrightarrow> tval I \<rho> w = joined I f (map (tval I \<rho>) (take len us))"
            using rebuild_ac_term_yields [OF list_all2_takeI [OF tms_becomes [OF Cons.prems(5)]] ne, where 'a = 'a] by metis
          have st4: "later (fst st2, m') (b, m')" using seg(2) by (simp add: later_def)
          have "yields (refines R D C A ?P s) (b, m') (and_then (me cur seg s (b, m')) (match_assoc_sequences stop me f ps (drop len target)))"
            using seg(3,4) f ne by (intro step [OF later_trans [OF st3 st4]]) simp_all
          from yields_later [OF st4 this]
          show "yields (refines R D C A ?P s) (fst st2, m') (do {
             (segment, bank) \<leftarrow> rebuild_ac_term (take len target) f (fst (fst st2, m'));
             and_then (me cur segment s (bank, snd (fst st2, m'))) (match_assoc_sequences stop me f ps (drop len target)) })"
            using seg(1) by simp
        qed (use sane in \<open>auto intro: later_sane\<close>)
        from yields_no_match [OF this] show ?thesis using cur(1) node NVar False by simp
      qed
    qed
  qed
qed

section \<open>One call\<close>

definition rigid_vars :: "VarId set option \<Rightarrow> VarId set" where
  "rigid_vars rigid = (case rigid of Some vs \<Rightarrow> vs | None \<Rightarrow> {})"

lemma bind_refines:
  assumes "bind_var_maybe_rigid v j s b rigid = Some (Inr s')" "ac_outcome (cap D b) C A b UNIV s P (Inr s')"
  shows "refines (rigid_vars rigid) D C A P s b s'"
proof -
  have "s' = s \<or> (\<exists>k. s' = id_bind v k s \<and> v \<notin> rigid_vars rigid)"
    using assms(1) by (auto simp: bind_var_maybe_rigid_def rigid_vars_def bind_eq_Some_conv split: if_splits option.splits)
  then have "\<forall>w \<in> rigid_vars rigid. id_get s w = None \<longrightarrow> id_get s' w = None" by (auto simp: id_get_bind)
  then show ?thesis using assms(2) by (simp add: ac_outcome_def refines_def)
qed

lemma deref_fixed:
  "node_at b j = Some n \<Longrightarrow> (\<And>v. n = NVar v \<Longrightarrow> id_get s v = None) \<Longrightarrow> deref_id j s b = Some j"
  by (subst deref_id.simps) (cases n; simp)

lemma element_step_yields:
  fixes D C A :: "SymbolId set"
  assumes me: "\<And>n. n < snd st \<Longrightarrow> me_ok TYPE('a) (rigid_vars rigid) D C A me n"
    and sane: "sane (fst st)" and p: "tm D (fst st) p t0" and q: "tm D (fst st) q u0" and s: "sg D (fst st) s"
  shows "yields (refines (rigid_vars rigid) D C A (\<lambda>(I :: 'a interp) \<rho>. tval I \<rho> t0 = tval I \<rho> u0) s) st (element_step stop mismatch me C A rigid p q s st)"
  unfolding element_step_def
proof (rule yields_charged [OF sane])
  fix n assume n: "n < snd st"
  let ?b = "fst st" and ?st = "(fst st, n)"
  obtain r \<theta> where r: "ranked (bound ?b s) r" "closure (bound ?b s) \<theta>" by (rule sg_closure [OF s])
  obtain i t where i: "deref_id p s ?b = Some i" "tm D ?b i t" "\<forall>v. t = Var v \<longrightarrow> bound ?b s v = None"
    "\<forall>(I :: 'a interp) \<rho>. sol I \<rho> (bound ?b s) \<longrightarrow> tval I \<rho> t = tval I \<rho> t0"
    by (rule ac_deref [OF s p r]) blast
  obtain j u where j: "deref_id q s ?b = Some j" "tm D ?b j u" "\<forall>v. u = Var v \<longrightarrow> bound ?b s v = None"
    "\<forall>(I :: 'a interp) \<rho>. sol I \<rho> (bound ?b s) \<longrightarrow> tval I \<rho> u = tval I \<rho> u0"
    by (rule ac_deref [OF s q r]) blast
  let ?Q = "refines (rigid_vars rigid) D C A (\<lambda>(I :: 'a interp) \<rho>. tval I \<rho> t0 = tval I \<rho> u0) s"
  have fin: "yields ?Q ?st m" if "yields (refines (rigid_vars rigid) D C A (\<lambda>(I :: 'a interp) \<rho>. tval I \<rho> t = tval I \<rho> u) s) ?st m" for m
  proof (rule yields_imp [OF that])
    fix st' s' assume "later ?st st'" and s': "refines (rigid_vars rigid) D C A (\<lambda>(I :: 'a interp) \<rho>. tval I \<rho> t = tval I \<rho> u) s (fst st') s'"
    then have "bound (fst st') s = bound ?b s" using sg_bound [OF s] by (simp add: later_def)
    then show "?Q (fst st') s'" using i(4) j(4) by (intro refines_imp [OF s']) simp
  qed
  have here: "yields ?Q ?st (Some (Inl e, ?st))" for e using sane by (auto intro!: yieldsI later_refl)
  obtain ni nj where node: "node_at ?b i = Some ni" "node_at ?b j = Some nj"
    using i(2) j(2) by (metis ac_term_def to_legacy_cases)
  note me = me [OF n]
  have refl: "later ?st ?st" "snd ?st \<le> n" using sane by (simp_all add: later_refl)
  let ?call = "do {
     let bank = fst ?st;
     pattern \<leftarrow> deref_id p s bank;
     target \<leftarrow> deref_id q s bank;
     if pattern = target then Some (Inr s, ?st)
     else do {
       np \<leftarrow> node_at bank pattern;
       nt \<leftarrow> node_at bank target;
       case np of
         NVar v \<Rightarrow>
           if (case rigid of Some vs \<Rightarrow> v \<in> vs | None \<Rightarrow> False) then Some (Inl (RigidVariable v), ?st)
           else do {
             occurs \<leftarrow> contains_var_id target v s bank;
             Some (if occurs then Inl (OccursCheck v) else Inr (id_bind v target s), ?st) }
       | NApp f1 args1 \<Rightarrow> (case nt of
           NVar v \<Rightarrow> Some (Inl (RigidVariable v), ?st)
         | NApp f2 args2 \<Rightarrow>
             if f1 \<noteq> f2 then Some (Inl (symbol_clash f1 f2), ?st)
             else if f1 \<in> A then do {
               left_flat \<leftarrow> flatten_ac pattern f1 s bank;
               right_flat \<leftarrow> flatten_ac target f1 s bank;
               if length left_flat = length right_flat \<and> f1 \<in> C
               then match_flat_permutations me right_flat left_flat (replicate (length right_flat) False) s ?st
               else match_assoc_sequences stop me f1 left_flat right_flat s ?st }
             else if length args1 \<noteq> length args2
             then Some (Inl (ArityMismatch (length args1) (length args2)), ?st)
             else do {
               (positional, st) \<leftarrow> match_pairs me (zip args1 args2) s ?st;
               case positional of
                 Inr subst' \<Rightarrow> Some (Inr subst', st)
               | Inl e \<Rightarrow>
                   if f1 \<in> C \<and> length args1 = 2 then do {
                     (swapped, st) \<leftarrow> match_pairs me [(args1 ! 0, args2 ! 1), (args1 ! 1, args2 ! 0)] s st;
                     Some (case swapped of Inr subst' \<Rightarrow> Inr subst'
                       | Inl e \<Rightarrow> Inl (mismatch e), st) }
                   else Some (Inl (mismatch e), st) }) } }"
  show "yields ?Q ?st ?call"
  proof (cases "i = j")
    case True
    then have "t = u" using i(2) j(2) by (simp add: ac_term_def)
    then have "yields (refines (rigid_vars rigid) D C A (\<lambda>(I :: 'a interp) \<rho>. tval I \<rho> t = tval I \<rho> u) s) ?st (Some (Inr s, ?st))"
      using s sane by (auto intro!: yieldsI later_refl refines_same)
    from fin [OF this] show ?thesis using i(1) j(1) True by (simp add: Let_def)
  next
    case ij: False
    show ?thesis
    proof (cases ni)
      case (NVar v)
      then have t: "t = Var v" using i(2) node(1) by (simp add: ac_term_def to_legacy_node)
      have "nj \<noteq> NVar v" using node NVar ij node_at_inject [OF sane_wf [OF sane]] by blast
      moreover have "deref_id j s ?b = Some j"
      proof (rule deref_fixed [OF node(2)])
        fix w assume "nj = NVar w"
        then have "u = Var w" using j(2) node(2) by (simp add: ac_term_def to_legacy_node)
        then show "id_get s w = None" using j(3) sg_subst_ok [OF s]
          by (cases "id_get s w") (fastforce simp: bound_def subst_ok_def is_id_def)+
      qed
      ultimately have call: "?call = do { x \<leftarrow> bind_var_maybe_rigid v j s ?b rigid; Some (x, ?st) }"
        using i(1) j(1) ij node NVar by (auto simp: bind_var_maybe_rigid_def Let_def)
      have free: "bound ?b s v = None" using i(3) t by blast
      obtain x where x: "bind_var_maybe_rigid v j s ?b rigid = Some x"
        "ac_outcome (cap D ?b) C A ?b UNIV s (\<lambda>(I :: 'a interp) \<rho>. \<rho> v = tval I \<rho> u) x"
        using ac_bind [where C = C and A = A and rigid = rigid and 'a = 'a, OF s UNIV_I free j(2) r] by (elim exE conjE)
      have "yields (refines (rigid_vars rigid) D C A (\<lambda>(I :: 'a interp) \<rho>. tval I \<rho> t = tval I \<rho> u) s) ?st (Some (x, ?st))"
        using x sane t by (auto intro!: yieldsI later_refl bind_refines)
      from fin [OF this] show ?thesis using call x(1) by simp
    next
      case f: (NApp f as)
      show ?thesis
      proof (cases nj)
        case (NVar v)
        then show ?thesis using i(1) j(1) ij node f here by (simp add: Let_def)
      next
        case g: (NApp g bs)
        obtain ts where t: "t = App f ts" "list_all2 (tm D ?b) as ts"
          using i(2) node(1) f by (auto simp: ac_term_def to_legacy_node mapM_list_all2 list_all2_conv_all_nth)
        obtain us where u: "u = App g us" "list_all2 (tm D ?b) bs us"
          using j(2) node(2) g by (auto simp: ac_term_def to_legacy_node mapM_list_all2 list_all2_conv_all_nth)
        show ?thesis
        proof (cases "g = f")
          case False
          then show ?thesis using i(1) j(1) ij node f g here by (simp add: Let_def)
        next
          case gf: True
          show ?thesis
          proof (cases "f \<in> A")
            case fA: True
            obtain ks ls where ks: "flatten_ac i f s ?b = Some ks" "list_all2 (tm D ?b) ks ls"
              "\<And>(I :: 'a interp) \<rho>. ac_ok (cap D ?b) I C A \<Longrightarrow> f \<in> A \<Longrightarrow> sol I \<rho> (bound ?b s) \<Longrightarrow>
                joined I f (map (tval I \<rho>) ls) = tval I \<rho> t"
              by (rule flatten_ac_flat [OF s i(2), where C = C and A = A]) blast
            obtain js ms where js: "flatten_ac j f s ?b = Some js" "list_all2 (tm D ?b) js ms"
              "\<And>(I :: 'a interp) \<rho>. ac_ok (cap D ?b) I C A \<Longrightarrow> f \<in> A \<Longrightarrow> sol I \<rho> (bound ?b s) \<Longrightarrow>
                joined I f (map (tval I \<rho>) ms) = tval I \<rho> u"
              by (rule flatten_ac_flat [OF s j(2), where C = C and A = A]) blast
            have eq: "yields ?Q ?st m" if m: "yields (refines (rigid_vars rigid) D C A (\<lambda>(I :: 'a interp) \<rho>.
                ac_ok (cap D ?b) I C A \<longrightarrow> joined I f (map (tval I \<rho>) ls) = joined I f (map (tval I \<rho>) ms)) s) ?st m" for m
            proof (rule fin, rule yields_imp [OF m])
              fix st' s' assume st': "later ?st st'" and s': "refines (rigid_vars rigid) D C A (\<lambda>(I :: 'a interp) \<rho>. ac_ok (cap D ?b) I C A \<longrightarrow>
                joined I f (map (tval I \<rho>) ls) = joined I f (map (tval I \<rho>) ms)) s (fst st') s'"
              have b: "becomes ?b (fst st')" using st' by (simp add: later_def)
              show "refines (rigid_vars rigid) D C A (\<lambda>(I :: 'a interp) \<rho>. tval I \<rho> t = tval I \<rho> u) s (fst st') s'"
              proof (rule refines_imp [OF s'])
                fix I :: "'a interp" and \<rho>
                assume h: "ac_ok (cap D (fst st')) I C A" "sol I \<rho> (bound (fst st') s)"
                  "ac_ok (cap D ?b) I C A \<longrightarrow> joined I f (map (tval I \<rho>) ls) = joined I f (map (tval I \<rho>) ms)"
                have ok: "ac_ok (cap D ?b) I C A" by (rule ac_ok_becomes [OF h(1) b])
                moreover have "sol I \<rho> (bound ?b s)" using h(2) sg_bound [OF s b] by simp
                ultimately show "tval I \<rho> t = tval I \<rho> u" using ks(3) [OF ok fA] js(3) [OF ok fA] h(3) by simp
              qed
            qed
            show ?thesis
            proof (cases "length ks = length js \<and> f \<in> C")
              case True
              have "free_indices (replicate (length js) False) = [0..<length js]"
                by (auto simp: free_indices_def intro: filter_True)
              then have "yields (refines (rigid_vars rigid) D C A (\<lambda>(I :: 'a interp) \<rho>. mset (map (tval I \<rho>) ls) =
                  mset (map (tval I \<rho>) (map ((!) ms) [0..<length js]))) s) ?st
                (match_flat_permutations me js ks (replicate (length js) False) s ?st)"
                using match_flat_permutations_yields [OF me refl, where ls = ks and ts = ls and right = js and us = ms
                    and used = "replicate (length js) False" and s = s] s ks(2) js(2) True by simp
              moreover have "map ((!) ms) [0..<length js] = ms"
                using list_all2_lengthD [OF js(2)] by (simp add: map_nth)
              ultimately have "yields (refines (rigid_vars rigid) D C A (\<lambda>(I :: 'a interp) \<rho>. mset (map (tval I \<rho>) ls) = mset (map (tval I \<rho>) ms)) s) ?st
                (match_flat_permutations me js ks (replicate (length js) False) s ?st)" by simp
              then have "yields ?Q ?st (match_flat_permutations me js ks (replicate (length js) False) s ?st)"
                by (intro eq, elim yields_imp) (auto intro!: joined_mset ac_okD(1) fA simp: True elim!: refines_imp)
              then show ?thesis using i(1) j(1) ij node f g gf fA ks(1) js(1) True by (simp add: Let_def)
            next
              case False
              have "yields (refines (rigid_vars rigid) D C A (\<lambda>(I :: 'a interp) \<rho>. (ls = [] \<longleftrightarrow> ms = []) \<and>
                  joined I f (map (tval I \<rho>) ls) = joined I f (map (tval I \<rho>) ms)) s) ?st
                (match_assoc_sequences stop me f ks js s ?st)"
                using match_assoc_sequences_yields [OF me fA refl, where s = s and ps = ks and target = js] s ks(2) js(2) by simp
              then have "yields ?Q ?st (match_assoc_sequences stop me f ks js s ?st)"
                by (intro eq, elim yields_imp) (auto elim!: refines_imp)
              then show ?thesis using i(1) j(1) ij node f g gf fA ks(1) js(1) False by (auto simp: Let_def)
            qed
          next
            case fA: False
            show ?thesis
            proof (cases "length as = length bs")
              case False
              then show ?thesis using i(1) j(1) ij node f g gf fA here by (simp add: Let_def)
            next
              case len: True
              have args: "list_all2 (\<lambda>p q. tm D ?b (fst p) (fst q) \<and> tm D ?b (snd p) (snd q)) (zip as bs) (zip ts us)"
                using t(2) u(2) len by (auto simp: list_all2_conv_all_nth)
              have lens: "length ts = length us" using list_all2_lengthD [OF t(2)] list_all2_lengthD [OF u(2)] len by simp
              have zip_eq: "map (tval I \<rho>) ts = map (tval I \<rho>) us"
                if "\<forall>q \<in> set (zip ts us). tval I \<rho> (fst q) = tval I \<rho> (snd q)" for I :: "'a interp" and \<rho>
                using that lens by (auto simp: list_eq_iff_nth_eq set_zip)
              have pos: "yields (refines (rigid_vars rigid) D C A (\<lambda>(I :: 'a interp) \<rho>. \<forall>q \<in> set (zip ts us). tval I \<rho> (fst q) = tval I \<rho> (snd q)) s) ?st
                (match_pairs me (zip as bs) s ?st)"
                using match_pairs_yields [OF me refl, where s = s and ps = "zip as bs" and qs = "zip ts us"] s args by simp
              then have pos: "yields ?Q ?st (match_pairs me (zip as bs) s ?st)"
                by (intro fin, elim yields_imp) (auto elim!: refines_imp simp: t(1) u(1) gf dest: zip_eq)
              show ?thesis
              proof (cases rule: yieldsE [OF pos])
                case (2 s' st')
                then show ?thesis using i(1) j(1) ij node f g gf fA len by (auto simp: Let_def intro!: yieldsI)
              next
                case (1 e st')
                show ?thesis
                proof (cases "f \<in> C \<and> length as = 2")
                  case False
                  then show ?thesis using i(1) j(1) ij node f g gf fA len 1 by (auto simp: Let_def intro!: yieldsI)
                next
                  case True
                  then obtain a1 a2 b1 b2 where ab: "as = [a1, a2]" "bs = [b1, b2]"
                    using len by (auto simp: numeral_2_eq_2 length_Suc_conv)
                  then obtain t1 t2 u1 u2 where tu: "ts = [t1, t2]" "us = [u1, u2]" "tm D ?b a1 t1" "tm D ?b a2 t2"
                      "tm D ?b b1 u1" "tm D ?b b2 u2"
                    using t(2) u(2) by (auto simp: list_all2_Cons1)
                  have b: "becomes ?b (fst st')" using 1(2) by (simp add: later_def)
                  have "later ?st st'" "snd ?st \<le> n" using 1(2) by simp_all
                  from match_pairs_yields [OF me this sg_becomes [OF s b],
                      where ps = "[(a1, b2), (a2, b1)]" and qs = "[(t1, u2), (t2, u1)]"]
                  have "yields (refines (rigid_vars rigid) D C A (\<lambda>(I :: 'a interp) \<rho>. tval I \<rho> t1 = tval I \<rho> u2 \<and> tval I \<rho> t2 = tval I \<rho> u1) s) st'
                    (match_pairs me [(a1, b2), (a2, b1)] s st')"
                    using tu(3-6) b by (simp add: tm_becomes)
                  moreover have "tval I \<rho> t = tval I \<rho> u" if "ac_interp I C A" "tval I \<rho> t1 = tval I \<rho> u2" "tval I \<rho> t2 = tval I \<rho> u1"
                    for I :: "'a interp" and \<rho>
                    using that True by (simp add: t(1) u(1) gf tu(1,2) ac_interp_def comm_interp_def)
                  ultimately have "yields (refines (rigid_vars rigid) D C A (\<lambda>(I :: 'a interp) \<rho>. tval I \<rho> t = tval I \<rho> u) s) st'
                    (match_pairs me [(a1, b2), (a2, b1)] s st')"
                    by (elim yields_imp) (auto elim!: refines_imp dest: ac_okD(1))
                  from yields_later [OF 1(2) this] have sw: "yields ?Q ?st (match_pairs me [(a1, b2), (a2, b1)] s st')" by (rule fin)
                  then show ?thesis using i(1) j(1) ij node f g gf fA len 1(1) True ab
                    by (cases rule: yieldsE [OF sw]) (auto simp: Let_def intro!: yieldsI)
                qed
              qed
            qed
          qed
        qed
      qed
    qed
  qed
qed

lemma match_element_ok: "me_ok TYPE('a) (rigid_vars rigid) D C A (match_element C A rigid) n"
proof (induction "unat n" arbitrary: n rule: less_induct)
  case less
  show ?case unfolding me_ok_def
  proof (intro allI impI)
    fix st :: match_state and p q t u s
    assume h: "snd st \<le> n" "sane (fst st)" "tm D (fst st) p t" "tm D (fst st) q u" "sg D (fst st) s"
    have "me_ok TYPE('a) (rigid_vars rigid) D C A (match_element C A rigid) m" if "m < snd st" for m
      using that h(1) by (intro less) (auto simp: word_less_nat_alt word_le_nat_alt)
    from element_step_yields [OF this h(2-5)]
    show "yields (refines (rigid_vars rigid) D C A (\<lambda>(I :: 'a interp) \<rho>. tval I \<rho> t = tval I \<rho> u) s) st
        (match_element C A rigid p q s st)"
      by (subst match_element.simps)
  qed
qed

section \<open>Matching a part of the arguments\<close>

lemma flatten_rigid:
  assumes free: "\<forall>v \<in> R. id_get s v = None" and ext: "extends b b'"
  shows "list_all2 (\<lambda>i t. to_legacy b i = Some t) stack ts \<Longrightarrow> (\<Union>t \<in> set ts. vars t) \<subseteq> R \<Longrightarrow>
    flatten_ac_loop f s b' stack acc = flatten_ac_loop f id_new_subst b stack acc"
proof (induction "sum_list (map term_size ts)" arbitrary: stack ts acc rule: less_induct)
  case less
  show ?case
  proof (cases stack)
    case Nil
    then show ?thesis by (subst (1 2) flatten_ac_loop.simps) simp
  next
    case (Cons i rest)
    then obtain t ts' where ts: "ts = t # ts'" "to_legacy b i = Some t" "list_all2 (\<lambda>i t. to_legacy b i = Some t) rest ts'"
      using less.prems(1) by (auto simp: list_all2_Cons1)
    obtain n where n: "node_at b i = Some n" using ts(2) by (auto elim: to_legacy_cases)
    then have n': "node_at b' i = Some n" using ext by (rule extends_node_at [rotated])
    have "id_get s v = None" if "n = NVar v" for v
      using that n ts(1,2) less.prems(2) free by (auto simp: to_legacy_node)
    then have d: "deref_id i s b' = Some i" "deref_id i id_new_subst b = Some i"
      using deref_fixed n n' id_get_new by blast+
    show ?thesis
    proof (cases n)
      case (NVar v)
      have "flatten_ac_loop f s b' rest (acc @ [i]) = flatten_ac_loop f id_new_subst b rest (acc @ [i])"
        using less.prems(2) ts by (intro less.hyps) auto
      then show ?thesis using Cons d n n' NVar by (subst (1 2) flatten_ac_loop.simps) simp
    next
      case (NApp g args)
      then obtain us where us: "t = App g us" "list_all2 (\<lambda>i t. to_legacy b i = Some t) args us"
        using n ts(2) by (auto simp: to_legacy_node mapM_list_all2)
      show ?thesis
      proof (cases "g = f \<and> 2 \<le> length args")
        case True
        have "flatten_ac_loop f s b' (args @ rest) acc = flatten_ac_loop f id_new_subst b (args @ rest) acc"
          using less.prems(2) ts us by (intro less.hyps [of "us @ ts'"]) (auto intro: list_all2_appendI)
        then show ?thesis using Cons d n n' NApp True by (subst (1 2) flatten_ac_loop.simps) simp
      next
        case False
        have "flatten_ac_loop f s b' rest (acc @ [i]) = flatten_ac_loop f id_new_subst b rest (acc @ [i])"
          using less.prems(2) ts by (intro less.hyps) auto
        then show ?thesis using Cons d n n' NApp False by (subst (1 2) flatten_ac_loop.simps) auto
      qed
    qed
  qed
qed

text \<open>
  What a match of a part of the arguments means: the consumed arguments of the target have together
  the value of the pattern.
\<close>

definition part_matched :: "'a itself \<Rightarrow> VarId set \<Rightarrow> SymbolId set \<Rightarrow> SymbolId set \<Rightarrow> SymbolId set \<Rightarrow> TermBank
    \<Rightarrow> SymbolId \<Rightarrow> TermId \<Rightarrow> Term \<Rightarrow> TermBank \<Rightarrow> AcSubsetMatch \<Rightarrow> bool" where
  "part_matched TY R D C A b f q t b' x \<longleftrightarrow> (\<exists>ks us. flatten_ac q f id_new_subst b = Some ks \<and>
     list_all2 (tm D b) ks us \<and> sorted (consumed x) \<and> distinct (consumed x) \<and> consumed x \<noteq> [] \<and>
     set (consumed x) \<subseteq> {..<length ks} \<and>
     refines R D C A (\<lambda>(I :: 'a interp) \<rho>. joined I f (map (\<lambda>c. tval I \<rho> (us ! c)) (consumed x)) = tval I \<rho> t)
       id_new_subst b' (match_subst x))"

lemma match_ac_subset_rigid_id_yields:
  assumes sane: "sane b" and p: "tm D b p t" and q: "tm D b q u"
    and node: "node_at b q = Some (NApp f args)"
  shows "yields (part_matched TYPE('a) (rigid_vars rigid) D C A b f q t) (b, n)
    (match_ac_subset_rigid_id p q b C A rigid n)"
proof -
  let ?R = "rigid_vars rigid"
  have err: "yields Q (b, n) (Some (Inl e, (b, n)))" for Q :: "TermBank \<Rightarrow> AcSubsetMatch \<Rightarrow> bool" and e
    using sane by (auto intro!: yieldsI later_refl)
  obtain ks us where ks: "flatten_ac q f id_new_subst b = Some ks" "list_all2 (tm D b) ks us"
    by (rule flatten_ac_flat [OF sg_new q]) blast
  obtain np where np: "node_at b p = Some np" using p by (auto simp: ac_term_def elim: to_legacy_cases)
  show ?thesis
  proof (cases "f \<in> C \<and> f \<in> A \<and> 2 \<le> length ks \<and> (\<exists>as. np = NApp f as)")
    case False
    then show ?thesis using err ks(1) np node
      by (cases np) (auto simp: match_ac_subset_rigid_id_def Let_def)
  next
    case True
    then obtain as where f: "f \<in> C" "f \<in> A" "2 \<le> length ks" "np = NApp f as" by blast
    obtain js ts where js: "flatten_ac p f id_new_subst b = Some js" "list_all2 (tm D b) js ts" "js \<noteq> []"
      "\<And>(I :: 'a interp) \<rho>. ac_ok (cap D b) I C A \<Longrightarrow> f \<in> A \<Longrightarrow> sol I \<rho> (bound b id_new_subst) \<Longrightarrow>
        joined I f (map (tval I \<rho>) ts) = tval I \<rho> t"
      by (rule flatten_ac_flat [OF sg_new p, where C = C and A = A]) blast
    have "yields (part_matched TYPE('a) ?R D C A b f q t) (b, n)
      (and_then (enumerate_pairs (match_element C A rigid) ks js (replicate (length ks) False) [] id_new_subst (b, n))
        (\<lambda>found st. if snd found = [] then Some (Inl UnsupportedShape, st)
           else Some (Inr \<lparr>match_subst = fst found, consumed = sort (snd found)\<rparr>, st)))"
    proof (rule yields_and_then)
      show "yields (paired TYPE('a) ?R D C A ts us [] (replicate (length ks) False) id_new_subst) (b, n)
          (enumerate_pairs (match_element C A rigid) ks js (replicate (length ks) False) [] id_new_subst (b, n))"
        using enumerate_pairs_yields [OF match_element_ok [where 'a = 'a] later_refl order_refl, of "(b, n)"] sane sg_new js(2) ks(2) by simp
      fix x st' assume st': "later (b, n) st'"
        and "paired TYPE('a) ?R D C A ts us [] (replicate (length ks) False) id_new_subst (fst st') x"
      then obtain new where new: "snd x = new" "distinct new" "set new \<subseteq> set (free_indices (replicate (length ks) False))"
        "length new = length ts"
        "refines ?R D C A (\<lambda>(I :: 'a interp) \<rho>. map (tval I \<rho>) ts = map (\<lambda>c. tval I \<rho> (us ! c)) new) id_new_subst (fst st') (fst x)"
        by (auto simp: paired_def)
      have b: "becomes b (fst st')" using st' by (simp add: later_def)
      have "refines ?R D C A (\<lambda>(I :: 'a interp) \<rho>. joined I f (map (\<lambda>c. tval I \<rho> (us ! c)) (sort new)) = tval I \<rho> t)
          id_new_subst (fst st') (fst x)"
      proof (rule refines_imp [OF new(5)])
        fix I :: "'a interp" and \<rho>
        assume ok: "ac_ok (cap D (fst st')) I C A" and eq: "map (tval I \<rho>) ts = map (\<lambda>c. tval I \<rho> (us ! c)) new"
        have "joined I f (map (\<lambda>c. tval I \<rho> (us ! c)) (sort new)) = joined I f (map (\<lambda>c. tval I \<rho> (us ! c)) new)"
          by (rule joined_mset [OF ac_okD(1) [OF ok] f(2,1)]) simp
        moreover have "joined I f (map (tval I \<rho>) ts) = tval I \<rho> t"
          by (rule js(4) [OF ac_ok_becomes [OF ok b] f(2)]) simp
        ultimately show "joined I f (map (\<lambda>c. tval I \<rho> (us ! c)) (sort new)) = tval I \<rho> t" by (simp only: eq)
      qed
      moreover have "new \<noteq> []" using new(4) js(2,3) by auto
      moreover have "set new \<subseteq> {..<length ks}" using new(3) by (auto simp: free_indices_def)
      ultimately have "part_matched TYPE('a) ?R D C A b f q t (fst st') \<lparr>match_subst = fst x, consumed = sort new\<rparr>"
        using new(2) ks unfolding part_matched_def by (intro exI [of _ ks] exI [of _ us]) (simp add: set_empty [symmetric] del: set_empty)
      then show "yields (part_matched TYPE('a) ?R D C A b f q t) st' (if snd x = [] then Some (Inl UnsupportedShape, st')
           else Some (Inr \<lparr>match_subst = fst x, consumed = sort (snd x)\<rparr>, st'))"
        using new(1) later_sane [OF st'] by (auto intro!: yieldsI later_refl)
    qed
    then show ?thesis using f ks(1) js(1) np node err
      by (auto simp: match_ac_subset_rigid_id_def Let_def)
  qed
qed

end
