(* ===== verification/SupSound.thy ===== *)
theory SupSound
  imports Superposition AcMatch LpoExact
begin

text \<open>
  Superposition on identifiers returns and its conclusions follow from the parents in every
  structure in which the declared symbols have their laws.
\<close>

section \<open>Fitting an equation to a subterm\<close>

text \<open>
  The equation \<open>t = u\<close> fits the subterm \<open>v\<close> with a substitution and a replacement: where the instance of
  the equation holds, the instances of the subterm and of the replacement have the same value.
\<close>

definition fits_eq :: "'a itself \<Rightarrow> SymbolId set \<Rightarrow> SymbolId set \<Rightarrow> Term \<Rightarrow> Term \<Rightarrow> Term \<Rightarrow> TermBank \<Rightarrow> IdSubstitution \<times> TermId \<Rightarrow> bool" where
  "fits_eq TY C A t u v b x \<longleftrightarrow> (\<exists>\<theta> w. stands_for b (fst x) \<theta> \<and> to_legacy b (snd x) = Some w \<and>
     (\<forall>(I :: 'a interp) \<rho>. ac_ok (cap A b) I C A \<longrightarrow> tval I \<rho> (inst \<theta> t) = tval I \<rho> (inst \<theta> u) \<longrightarrow>
        tval I \<rho> (inst \<theta> v) = tval I \<rho> (inst \<theta> w)))"

lemma fits_whole:
  assumes "stands_for b s \<theta>" "to_legacy b k = Some u"
    and "\<And>(I :: 'a interp) \<rho>. ac_ok (cap A b) I C A \<Longrightarrow> tval I \<rho> (inst \<theta> t) = tval I \<rho> (inst \<theta> v)"
  shows "fits_eq TYPE('a) C A t u v b (s, k)"
  using assms unfolding fits_eq_def by fastforce

lemma fits_solved:
  assumes "sg A b s" "to_legacy b k = Some w"
    and "\<And>(I :: 'a interp) \<rho>. ac_ok (cap A b) I C A \<Longrightarrow> sol I \<rho> (bound b s) \<Longrightarrow> tval I \<rho> t = tval I \<rho> u \<Longrightarrow>
      tval I \<rho> v = tval I \<rho> w"
  shows "fits_eq TYPE('a) C A t u v b (s, k)"
proof -
  obtain r \<theta> where r: "ranked (bound b s) r" "closure (bound b s) \<theta>" by (rule sg_closure [OF assms(1)])
  then have "stands_for b s \<theta>" using sg_subst_ok [OF assms(1)] by (auto simp: stands_for_def)
  moreover have "sol I (\<lambda>v. tval I \<rho> (\<theta> v)) (bound b s)" for I :: "'a interp" and \<rho> by (rule closure_sol [OF r(2)])
  ultimately show ?thesis using assms(2,3) unfolding fits_eq_def tval_inst by auto
qed

lemma assoc_unify_element_ok: "me_ok TYPE('a) R D {} A (assoc_unify_element A R) n"
proof (induction "unat n" arbitrary: n rule: less_induct)
  case less
  show ?case unfolding me_ok_def
  proof (intro allI impI)
    fix st :: match_state and p q t u s
    assume h: "snd st \<le> n" "sane (fst st)" "tm D (fst st) p t" "tm D (fst st) q u" "sg D (fst st) s"
    have "me_ok TYPE('a) (rigid_vars (Some R)) D {} A (assoc_unify_element A R) m" if "m < snd st" for m
      unfolding rigid_vars_def option.case
      using that h(1) by (intro less) (auto simp: word_less_nat_alt word_le_nat_alt)
    from element_step_yields [OF this h(2-5), of exhausted "\<lambda>e. e"]
    show "yields (refines R D {} A (\<lambda>(I :: 'a interp) \<rho>. tval I \<rho> t = tval I \<rho> u) s) st
        (assoc_unify_element A R p q s st)"
      by (subst assoc_unify_element.simps) (simp add: rigid_vars_def)
  qed
qed

subsection \<open>A part of the arguments\<close>

lemma joined_middle:
  assumes "ac_interp I C A" "f \<in> A" "ys \<noteq> []"
  shows "joined I f (xs @ joined I f ys # zs) = joined I f (xs @ ys @ zs)"
proof (induction xs)
  case Nil
  then show ?case using joined_append [OF assms(1-3), of zs] by (cases "zs = []") (simp_all add: joined_Cons)
next
  case (Cons x xs)
  then show ?case using assms(3) by (simp add: joined_Cons)
qed

lemma unconsumed_parts:
  "sorted cs \<Longrightarrow> distinct cs \<Longrightarrow> \<forall>c \<in> set cs. i \<le> c \<Longrightarrow> unconsumed i cs xs = (kept, []) \<Longrightarrow>
   mset xs = mset kept + mset (map (\<lambda>c. xs ! (c - i)) cs)"
proof (induction i cs xs arbitrary: kept rule: unconsumed.induct)
  case (2 i x xs)
  then show ?case by (auto split: prod.splits)
next
  case (3 i c cs x xs)
  have shift: "mset (map (\<lambda>c. xs ! (c - Suc i)) ds) = mset (map (\<lambda>c. (x # xs) ! (c - i)) ds)"
    if "\<forall>d \<in> set ds. i < d" for ds
    using that by (intro arg_cong [where f = mset] map_cong) (auto simp: nth_Cons')
  show ?case
  proof (cases "c = i")
    case True
    then have *: "\<forall>d \<in> set cs. i < d" using "3.prems"(1-3) by (fastforce simp: order_less_le)
    have "mset xs = mset kept + mset (map (\<lambda>c. xs ! (c - (i + 1))) cs)"
      using 3 True * by (intro "3.IH"(1)) auto
    then show ?thesis using True shift [OF *] by simp
  next
    case False
    then have *: "\<forall>d \<in> set (c # cs). i < d" using "3.prems"(1,3) by fastforce
    obtain kept' where k: "unconsumed (i + 1) (c # cs) xs = (kept', [])" "kept = x # kept'"
      using "3.prems"(4) False by (auto split: prod.splits)
    have "mset xs = mset kept' + mset (map (\<lambda>c. xs ! (c - (i + 1))) (c # cs))"
      using 3 False * k(1) by (intro "3.IH"(2)) auto
    then show ?thesis using k(2) shift [OF *] by (simp only: add_Suc_right Suc_eq_plus1 [symmetric]) simp
  qed
qed auto

lemma unconsumed_map: "unconsumed i cs (map f xs) = (map f (fst (unconsumed i cs xs)), snd (unconsumed i cs xs))"
  by (induction i cs xs rule: unconsumed.induct) (auto split: prod.splits)

lemma unconsumed_rel: "list_all2 P xs ys \<Longrightarrow> list_all2 P (fst (unconsumed i cs xs)) (fst (unconsumed i cs ys)) \<and>
    snd (unconsumed i cs xs) = snd (unconsumed i cs ys)"
proof (induction i cs xs arbitrary: ys rule: unconsumed.induct)
  case (3 i c cs x xs)
  then show ?case by (cases "c = i") (auto simp: list_all2_Cons1 split_def Let_def)
qed (auto simp: list_all2_Cons1 split_def Let_def)

lemma tms_unique: "list_all2 (tm D b) ks us \<Longrightarrow> list_all2 (tm D b) ks vs \<Longrightarrow> us = vs"
  by (auto simp: list_all2_conv_all_nth ac_term_def intro!: nth_equalityI)

lemma tms_legacy: "list_all2 (tm D b) ks us \<Longrightarrow> list_all2 (\<lambda>i t. to_legacy b i = Some t) ks us"
  by (erule list_all2_mono) (simp add: ac_term_def)

lemma yields_error: "sane (fst st) \<Longrightarrow> yields Q st (Some (Inl e, st))"
  by (auto intro!: yieldsI later_refl)

lemma ac_subset_replacement_fits:
  assumes sane: "sane (fst st)" and t: "tm A (fst st) from_id t" and u: "tm A (fst st) to u"
    and v: "tm A (fst st) sub v" and R: "vars v \<subseteq> R"
  shows "yields (fits_eq TYPE('a) C A t u v) st (ac_subset_replacement from_id to sub C A R st)"
proof -
  let ?b = "fst st"
  obtain n where n: "node_at ?b sub = Some n" using v by (auto simp: ac_term_def elim: to_legacy_cases)
  show ?thesis
  proof (cases "\<exists>f args. n = NApp f args \<and> f \<in> C \<and> f \<in> A")
    case False
    then show ?thesis using n yields_error [OF sane] by (cases n) (auto simp: ac_subset_replacement_def)
  next
    case True
    then obtain f args where f: "n = NApp f args" "f \<in> C" "f \<in> A" by blast
    obtain ks us where ks: "flatten_ac sub f id_new_subst ?b = Some ks" "list_all2 (tm A ?b) ks us"
      "\<And>(I :: 'a interp) \<rho>. ac_ok (cap A ?b) I C A \<Longrightarrow> joined I f (map (tval I \<rho>) us) = tval I \<rho> v"
      by (rule flatten_ac_flat [OF sg_new v, where C = C and A = A and f = f]) (auto simp: f(3))
    have "yields (fits_eq TYPE('a) C A t u v) st
      (and_then (match_ac_subset_rigid_id from_id sub ?b C A (Some R) (snd st)) (\<lambda>found st. do {
         args \<leftarrow> flatten_ac sub f (match_subst found) (fst st);
         if length args < 2 then Some (Inl UnsupportedShape, st)
         else let (kept, left) = unconsumed 0 (consumed found) args in
           if left \<noteq> [] then Some (Inl UnsupportedShape, st)
           else do {
             (replacement, bank) \<leftarrow> rebuild_ac_term (kept @ [to]) f (fst st);
             Some (Inr (match_subst found, replacement), (bank, snd st)) } }))" (is "yields ?Q st (and_then ?m ?k)")
    proof (rule yields_and_then)
      show "yields (part_matched TYPE('a) R A C A ?b f sub t) st ?m"
        using match_ac_subset_rigid_id_yields [OF sane t v, of f args "Some R" C A "snd st"] n f(1) by (simp add: rigid_vars_def)
      fix x st' assume st': "later st st'" and "part_matched TYPE('a) R A C A ?b f sub t (fst st') x"
      then obtain us' where us': "list_all2 (tm A ?b) ks us'" and c: "sorted (consumed x)" "distinct (consumed x)"
          "set (consumed x) \<subseteq> {..<length ks}" "consumed x \<noteq> []"
        and x: "refines R A C A (\<lambda>(I :: 'a interp) \<rho>. joined I f (map (\<lambda>c. tval I \<rho> (us' ! c)) (consumed x)) = tval I \<rho> t)
          id_new_subst (fst st') (match_subst x)"
        unfolding part_matched_def using ks(1) by auto
      have [simp]: "us' = us" using tms_unique [OF us' ks(2)] .
      have b: "becomes ?b (fst st')" "sane (fst st')" using st' by (auto simp: later_def becomes_sane)
      have flat: "flatten_ac sub f (match_subst x) (fst st') = Some ks"
        using flatten_rigid [OF _ becomes_extends [OF b(1)], of R "match_subst x" "[sub]" "[v]" f "[]"] x R v ks(1)
        by (auto simp: flatten_ac_def refines_def ac_term_def)
      obtain kept left where kept: "unconsumed 0 (consumed x) ks = (kept, left)" by fastforce
      show "yields ?Q st' (?k x st')"
      proof (cases "length ks < 2 \<or> left \<noteq> []")
        case True
        then show ?thesis using flat kept yields_error [OF b(2)] by (auto simp: Let_def)
      next
        case False
        obtain kus where kus: "unconsumed 0 (consumed x) us = (kus, [])" "list_all2 (tm A (fst st')) kept kus"
          using unconsumed_rel [OF tms_becomes [OF ks(2) b(1)], of 0 "consumed x"] kept False
          by (cases "unconsumed 0 (consumed x) us") auto
        have parts: "mset us = mset kus + mset (map (\<lambda>c. us ! c) (consumed x))"
          using unconsumed_parts [OF c(1,2) _ kus(1)] by simp
        have "list_all2 (tm A (fst st')) (kept @ [to]) (kus @ [u])"
          using kus(2) tm_becomes [OF u b(1)] by (simp add: list_all2_appendI)
        then obtain k b2 w where w: "rebuild_ac_term (kept @ [to]) f (fst st') = Some (k, b2)" "becomes (fst st') b2" "tm A b2 k w"
          "\<And>(I :: 'a interp) \<rho>. ac_ok (cap A b2) I C A \<Longrightarrow> tval I \<rho> w = joined I f (map (tval I \<rho>) (kus @ [u]))"
          by (rule rebuild_ac_term_yields [where C = C and A = A and f = f, OF _ _ b(2)]) (auto simp: f(3))
        have "fits_eq TYPE('a) C A t u v b2 (match_subst x, k)"
        proof (rule fits_solved)
          show "sg A b2 (match_subst x)" by (rule sg_becomes [OF refines_sg [OF x] w(2)])
          show "to_legacy b2 k = Some w" using w(3) by (simp add: ac_term_def)
          fix I :: "'a interp" and \<rho>
          assume ok: "ac_ok (cap A b2) I C A" and sol: "sol I \<rho> (bound b2 (match_subst x))" and eq: "tval I \<rho> t = tval I \<rho> u"
          have "ac_ok (cap A (fst st')) I C A" using ac_ok_becomes [OF ok w(2)] .
          then have part: "joined I f (map (tval I \<rho>) (map (\<lambda>c. us ! c) (consumed x))) = tval I \<rho> t"
            using x sol sg_bound [OF refines_sg [OF x] w(2)] by (simp add: refines_def comp_def)
          have "tval I \<rho> v = joined I f (map (tval I \<rho>) us)"
            using ks(3) [OF ac_ok_becomes [OF ok becomes_trans [OF b(1) w(2)]]] by simp
          also have "\<dots> = joined I f (map (tval I \<rho>) kus @ map (tval I \<rho>) (map (\<lambda>c. us ! c) (consumed x)) @ [])"
            by (intro joined_mset [OF ac_okD(1) [OF ok] f(3,2)]) (simp only: mset_map mset_append parts image_mset_union append_Nil2)
          also have "\<dots> = joined I f (map (tval I \<rho>) kus @ [tval I \<rho> t])"
            using joined_middle [OF ac_okD(1) [OF ok] f(3), of "map (tval I \<rho>) (map (\<lambda>c. us ! c) (consumed x))" "map (tval I \<rho>) kus" "[]"]
              c(4) part by simp
          also have "\<dots> = tval I \<rho> w" using w(4) [OF ok] eq by simp
          finally show "tval I \<rho> v = tval I \<rho> w" .
        qed
        then show ?thesis using flat kept False w(1,2) by (auto simp: Let_def intro!: yieldsI simp: later_def)
      qed
    qed
    then show ?thesis using n f by (simp add: ac_subset_replacement_def)
  qed
qed

subsection \<open>A segment of the arguments\<close>

lemma segments_bounds: "(start, stop) \<in> set (segments n) \<longleftrightarrow> start + 2 \<le> stop \<and> stop \<le> n"
  by (fastforce simp: segments_def)

lemma ac_ok_assoc: "ac_ok D I C A \<Longrightarrow> ac_ok D I {} A"
  by (simp add: ac_ok_def ac_interp_def comm_interp_def)

lemma assoc_replacement_fits:
  assumes sane: "sane (fst st)" and t: "tm A (fst st) from_id t" and u: "tm A (fst st) to u"
    and v: "tm A (fst st) sub v"
  shows "yields (fits_eq TYPE('a) C A t u v) st (assoc_replacement from_id to sub A R st)"
proof -
  let ?b = "fst st"
  obtain n where n: "node_at ?b sub = Some n" using v by (auto simp: ac_term_def elim: to_legacy_cases)
  show ?thesis
  proof (cases "\<exists>f args. n = NApp f args \<and> f \<in> A")
    case False
    then show ?thesis using n yields_error [OF sane] by (cases n) (auto simp: assoc_replacement_def)
  next
    case True
    then obtain f args where f: "n = NApp f args" "f \<in> A" by blast
    obtain js ts where js: "flatten_ac from_id f id_new_subst ?b = Some js" "list_all2 (tm A ?b) js ts"
      "\<And>(I :: 'a interp) \<rho>. ac_ok (cap A ?b) I {} A \<Longrightarrow> joined I f (map (tval I \<rho>) ts) = tval I \<rho> t"
      by (rule flatten_ac_flat [OF sg_new t, where C = "{}" and A = A and f = f]) (auto simp: f(2))
    obtain ks us where ks: "flatten_ac sub f id_new_subst ?b = Some ks" "list_all2 (tm A ?b) ks us"
      "\<And>(I :: 'a interp) \<rho>. ac_ok (cap A ?b) I {} A \<Longrightarrow> joined I f (map (tval I \<rho>) us) = tval I \<rho> v"
      by (rule flatten_ac_flat [OF sg_new v, where C = "{}" and A = A and f = f]) (auto simp: f(2))
    let ?step = "\<lambda>(start, stop) st. charged st (\<lambda>st.
      and_then (assoc_match_sequence A R f js (drop start (take stop ks)) id_new_subst st)
        (\<lambda>candidate st.
          if start = 0 \<and> stop = length ks then Some (Inr (candidate, to), st)
          else do {
            (replacement, bank) \<leftarrow> rebuild_ac_term (take start ks @ [to] @ drop stop ks) f (fst st);
            Some (Inr (candidate, replacement), (bank, snd st)) }))"
    have step: "yields (fits_eq TYPE('a) C A t u v) st' (?step c st')"
      if c: "c \<in> set (segments (length ks))" and st': "later st st'" for c st'
    proof -
      obtain start stop where "c = (start, stop)" by fastforce
      then have ss: "c = (start, stop)" "start + 2 \<le> stop" "stop \<le> length ks" using c segments_bounds by simp_all
      let ?us = "drop start (take stop us)"
      have len: "length ks = length us" using ks(2) list_all2_lengthD by blast
      have "take start us @ ?us = take stop us"
        using append_take_drop_id [of start "take stop us"] ss(2) by (simp add: min_def)
      then have us: "us = take start us @ ?us @ drop stop us" "?us \<noteq> []"
        using ss len append_take_drop_id [of stop us] by (metis append_assoc, auto)
      have ok1: "sane (fst st')" using later_sane [OF st'] .
      show ?thesis unfolding ss(1) split
      proof (rule yields_charged [OF ok1], rule yields_and_then)
        fix m assume "m < snd st'"
        let ?st = "(fst st', m)"
        have b: "becomes ?b (fst st')" using st' by (simp add: later_def)
        show "yields (refines R A {} A (\<lambda>(I :: 'a interp) \<rho>. (ts = [] \<longleftrightarrow> ?us = []) \<and>
            joined I f (map (tval I \<rho>) ts) = joined I f (map (tval I \<rho>) ?us)) id_new_subst) ?st
            (assoc_match_sequence A R f js (drop start (take stop ks)) id_new_subst ?st)"
          unfolding assoc_match_sequence_def
          using match_assoc_sequences_yields [where 'a = 'a and st0 = ?st and st = ?st and ps = js and ts = ts
              and target = "drop start (take stop ks)" and us = ?us and stop = exhausted and s = id_new_subst,
              OF assoc_unify_element_ok [where 'a = 'a and n = m] f(2)] later_refl [of ?st] sg_new tms_becomes [OF js(2) b]
            list_all2_dropI [OF list_all2_takeI [OF tms_becomes [OF ks(2) b]]] ok1
          by simp
        fix x st2
        assume st2: "later ?st st2" and x: "refines R A {} A (\<lambda>(I :: 'a interp) \<rho>. (ts = [] \<longleftrightarrow> ?us = []) \<and>
            joined I f (map (tval I \<rho>) ts) = joined I f (map (tval I \<rho>) ?us)) id_new_subst (fst st2) x"
        have b2: "becomes ?b (fst st2)" "sane (fst st2)" using st2 b by (auto simp: later_def intro: becomes_trans becomes_sane)
        have eq: "joined I f (map (tval I \<rho>) ?us) = tval I \<rho> t \<and> joined I f (map (tval I \<rho>) us) = tval I \<rho> v"
          if "ac_ok (cap A b3) I C A" "becomes (fst st2) b3" "sol I \<rho> (bound b3 x)" for I :: "'a interp" and \<rho> b3
        proof -
          have "ac_ok (cap A (fst st2)) I {} A" using ac_ok_assoc [OF ac_ok_becomes [OF that(1,2)]] .
          moreover have "ac_ok (cap A ?b) I {} A"
            using ac_ok_assoc [OF ac_ok_becomes [OF that(1) becomes_trans [OF b2(1) that(2)]]] .
          ultimately show ?thesis using x that(3) sg_bound [OF refines_sg [OF x] that(2)] js(3) ks(3) by (auto simp: refines_def)
        qed
        show "yields (fits_eq TYPE('a) C A t u v) st2 (if start = 0 \<and> stop = length ks then Some (Inr (x, to), st2)
          else do {
            (replacement, bank) \<leftarrow> rebuild_ac_term (take start ks @ [to] @ drop stop ks) f (fst st2);
            Some (Inr (x, replacement), (bank, snd st2)) })"
        proof (cases "start = 0 \<and> stop = length ks")
          case True
          then have "?us = us" using len by simp
          then have "tval I \<rho> v = tval I \<rho> t" if "ac_ok (cap A (fst st2)) I C A" "sol I \<rho> (bound (fst st2) x)" for I :: "'a interp" and \<rho>
            using eq [OF that(1) becomes_refl [OF b2(2)] that(2)] by (metis (no_types))
          then have "fits_eq TYPE('a) C A t u v (fst st2) (x, to)"
            using refines_sg [OF x] tm_becomes [OF u b2(1)]
            by (intro fits_solved [where w = u]) (simp_all add: ac_term_def)
          then show ?thesis using True b2(2) by (auto intro!: yieldsI later_refl)
        next
          case False
          let ?ws = "take start us @ [u] @ drop stop us"
          have "list_all2 (tm A (fst st2)) (take start ks @ [to] @ drop stop ks) ?ws"
            using tms_becomes [OF ks(2) b2(1)] tm_becomes [OF u b2(1)]
            by (intro list_all2_appendI list_all2_takeI list_all2_dropI) simp_all
          then obtain k b3 w where w: "rebuild_ac_term (take start ks @ [to] @ drop stop ks) f (fst st2) = Some (k, b3)"
            "becomes (fst st2) b3" "tm A b3 k w"
            "\<And>(I :: 'a interp) \<rho>. ac_ok (cap A b3) I C A \<Longrightarrow> tval I \<rho> w = joined I f (map (tval I \<rho>) ?ws)"
            by (rule rebuild_ac_term_yields [where C = C and A = A and f = f, OF _ _ b2(2)]) (auto simp: f(2))
          have "fits_eq TYPE('a) C A t u v b3 (x, k)"
          proof (rule fits_solved [OF sg_becomes [OF refines_sg [OF x] w(2)]])
            show "to_legacy b3 k = Some w" using w(3) by (simp add: ac_term_def)
            fix I :: "'a interp" and \<rho>
            assume ok: "ac_ok (cap A b3) I C A" and "sol I \<rho> (bound b3 x)" and tu: "tval I \<rho> t = tval I \<rho> u"
            note eq = eq [OF ok w(2) this(2)]
            let ?g = "map (tval I \<rho>)"
            have "tval I \<rho> v = joined I f (?g us)" using eq by (rule conjunct2 [THEN HOL.sym])
            also have "?g us = ?g (take start us @ ?us @ drop stop us)" by (rule arg_cong [OF us(1)])
            also have "\<dots> = ?g (take start us) @ ?g ?us @ ?g (drop stop us)" by (simp only: map_append)
            also have "joined I f \<dots> = joined I f (?g (take start us) @ joined I f (?g ?us) # ?g (drop stop us))"
              by (rule joined_middle [OF ac_okD(1) [OF ok] f(2), THEN HOL.sym]) (simp only: map_is_Nil_conv us(2) not_False_eq_True)
            also have "joined I f (?g ?us) = tval I \<rho> t" using eq by (rule conjunct1)
            finally show "tval I \<rho> v = tval I \<rho> w" using w(4) [OF ok] tu by simp
          qed
          then show ?thesis using False w(1,2) by (auto intro!: yieldsI simp: later_def)
        qed
      qed
    qed
    have "yields (fits_eq TYPE('a) C A t u v) st (try_candidates exhausted ?step NoAcSubsetMatch (segments (length ks)) st)"
      by (rule yields_try_candidates [OF step sane])
    then show ?thesis using n f js(1) ks(1)
      by (cases "length js < 2") (simp_all add: assoc_replacement_def yields_error [OF sane])
  qed
qed

section \<open>The choice of a way to fit\<close>

lemma unifier_fits:
  assumes "ac_unifier TYPE('a) C A b t v s" "to_legacy b k = Some u" "binary (cap A b) t" "binary (cap A b) v"
  shows "fits_eq TYPE('a) C A t u v b (s, k)"
proof -
  obtain r \<theta> where r: "ranked (bound b s) r" "closure (bound b s) \<theta>" "subst_ok b s"
    "\<And>(I :: 'a interp) \<rho>. ac_interp I C A \<Longrightarrow> binary A t \<Longrightarrow> binary A v \<Longrightarrow> tval I \<rho> (inst \<theta> t) = tval I \<rho> (inst \<theta> v)"
    using assms(1) by (auto simp: ac_unifier_def)
  show ?thesis
  proof (rule fits_whole)
    show "stands_for b s \<theta>" using r(1-3) by (auto simp: stands_for_def)
    fix I :: "'a interp" and \<rho> assume "ac_ok (cap A b) I C A"
    then show "tval I \<rho> (inst \<theta> t) = tval I \<rho> (inst \<theta> v)"
      using r(4) assms(3,4) binary_mono by (auto simp: ac_ok_def)
  qed (rule assms(2))
qed

lemma fit_fits:
  assumes sane: "sane (fst st)" and t: "tm A (fst st) from_id t" and u: "tm A (fst st) to u"
    and v: "tm A (fst st) sub v" and R: "vars v \<subseteq> R"
  obtains r st' where "fit from_id to sub C A R st = Some (r, st')" "later st st'"
    "\<And>x. r = Some x \<Longrightarrow> fits_eq TYPE('a) C A t u v (fst st') x"
proof -
  have leg: "to_legacy (fst st) from_id = Some t" "to_legacy (fst st) to = Some u" "to_legacy (fst st) sub = Some v"
    using t u v by (simp_all add: ac_term_def)
  then obtain nf ns where n: "node_at (fst st) from_id = Some nf" "node_at (fst st) sub = Some ns"
    by (metis to_legacy_cases)
  have ac: "\<exists>x. unify_ac_rigid_id from_id sub (fst st') C A (Some R) = Some x \<and>
      (\<forall>s. x = Inr s \<longrightarrow> fits_eq TYPE('a) C A t u v (fst st') (s, to))" if "later st st'" for st'
  proof -
    have b: "becomes (fst st) (fst st')" using that by (simp add: later_def)
    note terms = tm_becomes [OF t b] tm_becomes [OF u b] tm_becomes [OF v b]
    obtain x where "unify_ac_rigid_id from_id sub (fst st') C A (Some R) = Some x"
      "case x of Inl e \<Rightarrow> True | Inr s \<Rightarrow> ac_unifier TYPE('a) C A (fst st') t v s"
      using unify_ac_rigid_id_result [OF sane_wf [OF becomes_sane [OF b]], of from_id t sub v C A "Some R" "TYPE('a)"] terms
      by (auto simp: ac_term_def)
    then show ?thesis using unifier_fits terms by (auto simp: ac_term_def)
  qed
  have seg: "yields (fits_eq TYPE('a) C A t u v) st' (assoc_replacement from_id to sub A R st')" if "later st st'" for st'
  proof -
    have b: "becomes (fst st) (fst st')" using that by (simp add: later_def)
    show ?thesis by (rule assoc_replacement_fits [OF becomes_sane [OF b] tm_becomes [OF t b] tm_becomes [OF u b] tm_becomes [OF v b]])
  qed
  have part: "yields (fits_eq TYPE('a) C A t u v) st (ac_subset_replacement from_id to sub C A R st)"
    by (rule ac_subset_replacement_fits [OF sane t u v R])
  let ?Q = "\<lambda>r st'. fit from_id to sub C A R st = Some (r, st') \<and> later st st' \<and>
    (\<forall>x. r = Some x \<longrightarrow> fits_eq TYPE('a) C A t u v (fst st') x)"
  let ?only = "(case (nf, ns) of (NApp f fargs, NApp g gargs) \<Rightarrow> f \<in> A \<and> g = f \<and> f \<notin> C | _ \<Rightarrow> False)"
  have "\<exists>r st'. ?Q r st'"
  proof (rule unify_id_stands [OF sane leg(1,3)])
    fix s \<theta> assume "unify_id from_id sub (fst st) = Some (Inr s)" "stands_for (fst st) s \<theta>" "inst \<theta> t = inst \<theta> v"
    then have "?Q (Some (s, to)) st"
      using n fits_whole [where 'a = 'a and s = s and b = "fst st" and C = C and A = A and t = t and v = v and \<theta> = \<theta>] leg(2) later_refl [OF sane] by (simp add: fit_def)
    then show ?thesis by blast
  next
    fix e assume e: "unify_id from_id sub (fst st) = Some (Inl e)"
    show ?thesis
    proof (cases ?only)
      case True
      from seg [OF later_refl [OF sane]] show ?thesis
      proof (cases rule: yieldsE)
        case (1 e' st')
        obtain x where x: "unify_ac_rigid_id from_id sub (fst st') C A (Some R) = Some x"
          "\<forall>s. x = Inr s \<longrightarrow> fits_eq TYPE('a) C A t u v (fst st') (s, to)" using ac [OF 1(2)] by blast
        then have "?Q (case x of Inr s \<Rightarrow> Some (s, to) | Inl e \<Rightarrow> None) st'"
          using n e True 1 by (cases x) (simp_all add: fit_def)
        then show ?thesis by blast
      next
        case (2 x st')
        then have "?Q (Some x) st'" using n e True by (simp add: fit_def)
        then show ?thesis by blast
      qed
    next
      case False
      obtain x where x: "unify_ac_rigid_id from_id sub (fst st) C A (Some R) = Some x"
        "\<forall>s. x = Inr s \<longrightarrow> fits_eq TYPE('a) C A t u v (fst st) (s, to)" using ac [OF later_refl [OF sane]] by blast
      show ?thesis
      proof (cases x)
        case (Inr s)
        then have "?Q (Some (s, to)) st" using n e False x later_refl [OF sane] by (simp add: fit_def)
        then show ?thesis by blast
      next
        case (Inl e1)
        from part show ?thesis
        proof (cases rule: yieldsE)
          case (2 y st')
          then have "?Q (Some y) st'" using n e False x(1) Inl by (simp add: fit_def)
          then show ?thesis by blast
        next
          case (1 e2 st1)
          from seg [OF 1(2)] show ?thesis
          proof (cases rule: yieldsE)
            case 3: (1 e3 st')
            then have "?Q None st'" using n e False x(1) Inl 1 later_trans [OF 1(2)] by (simp add: fit_def)
            then show ?thesis by blast
          next
            case 3: (2 y st')
            then have "?Q (Some y) st'" using n e False x(1) Inl 1 later_trans [OF 1(2)] by (simp add: fit_def)
            then show ?thesis by blast
          qed
        qed
      qed
    qed
  qed
  then show thesis using that by blast
qed

section \<open>Rewriting a literal\<close>

fun arg_of :: "nat \<Rightarrow> Atom \<Rightarrow> Term option" where
  "arg_of i (Pred p ts) = (if i < length ts then Some (ts ! i) else None)"
| "arg_of i (Eq l r) = (if i = 0 then Some l else if i = 1 then Some r else None)"

fun put_arg :: "nat \<Rightarrow> Term \<Rightarrow> Atom \<Rightarrow> Atom" where
  "put_arg i t (Pred p ts) = Pred p (ts[i := t])"
| "put_arg i t (Eq l r) = (if i = 0 then Eq t r else Eq l t)"

lemma map_put_same: "f y = f (xs ! i) \<Longrightarrow> map f (xs[i := y]) = map f xs"
  by (metis list_update_id map_update)

lemma aval_put_arg: "arg_of i A = Some t \<Longrightarrow> tval I \<rho> t' = tval I \<rho> t \<Longrightarrow> aval I \<rho> (put_arg i t' A) = aval I \<rho> A"
  by (cases A) (auto simp: map_put_same split: if_splits)

lemma tval_replace_at:
  "subterm_at t ps = Some v \<Longrightarrow> replace_at t ps w = Some t' \<Longrightarrow> tval I \<rho> v = tval I \<rho> w \<Longrightarrow> tval I \<rho> t' = tval I \<rho> t"
proof (induction t ps w arbitrary: t' rule: replace_at.induct)
  case (2 f args p ps w)
  then have p: "p < length args" "subterm_at (args ! p) ps = Some v" by (auto split: if_splits)
  then obtain a where a: "replace_at (args ! p) ps w = Some a" "t' = App f (args[p := a])"
    using 2 by (auto simp: bind_eq_Some_conv)
  have "tval I \<rho> a = tval I \<rho> (args ! p)" using 2 p a(1) by blast
  then show ?case using a(2) by (simp add: map_put_same)
qed auto

lemma binary_subterm: "subterm_at t ps = Some v \<Longrightarrow> binary A t \<Longrightarrow> binary A v"
proof (induction t arbitrary: ps)
  case (App f ts)
  then show ?case by (cases ps) (auto split: if_splits dest: nth_mem)
qed (case_tac ps; simp)

lemma vars_subterm: "subterm_at t ps = Some v \<Longrightarrow> vars v \<subseteq> vars t"
proof (induction t arbitrary: ps)
  case (App f ts)
  show ?case
  proof (cases ps)
    case (Cons p qs)
    then have "p < length ts" "subterm_at (ts ! p) qs = Some v" using App.prems by (auto split: if_splits)
    then show ?thesis using App.IH [OF nth_mem] by fastforce
  qed (use App.prems in simp)
qed (case_tac ps; simp)

lemma id_replace_at_becomes:
  "sane b \<Longrightarrow> to_legacy b i = Some t \<Longrightarrow> to_legacy b r = Some w \<Longrightarrow> replace_at t ps w = Some t' \<Longrightarrow>
   \<exists>k b'. id_replace_at i ps r b = Some (k, b') \<and> becomes b b' \<and> den b' k t'"
proof (induction ps arbitrary: i t t')
  case Nil
  then show ?case by (auto simp: becomes_refl meansI)
next
  case (Cons p ps)
  then obtain f ts where t: "t = App f ts" "p < length ts" by (cases t) (auto split: if_splits)
  then obtain a where a: "replace_at (ts ! p) ps w = Some a" "t' = App f (ts[p := a])"
    using Cons.prems by (auto simp: bind_eq_Some_conv)
  obtain args where args: "node_at b i = Some (NApp f args)" "mapM (to_legacy b) args = Some ts"
    using Cons.prems(2) t(1) by (auto simp: to_legacy_App)
  then have len: "length args = length ts" "to_legacy b (args ! p) = Some (ts ! p)" using t(2) by (auto simp: mapM_Some_iff)
  obtain k b1 where b1: "id_replace_at (args ! p) ps r b = Some (k, b1)" "becomes b b1" "den b1 k a"
    using Cons.IH [OF Cons.prems(1) len(2) Cons.prems(3) a(1)] by blast
  have "list_all2 (den b1) (args[p := k]) (ts[p := a])"
    using dens_becomes [OF b1(2) all_meansI [where d = to_legacy, OF args(2)]] b1(3) by (rule list_all2_update_cong)
  moreover obtain j b2 where j: "intern_app f (args[p := k]) b1 = (j, b2)" by fastforce
  ultimately have "becomes b1 b2" "den b2 j (App f (ts[p := a]))"
    using intern_app_becomes [OF becomes_sane [OF b1(2)]] by blast+
  then show ?case using args(1) b1(1,2) j t(2) len(1) a(2) becomes_trans by auto
qed

lemma rebuild_literal_reads:
  assumes "literal_to_legacy b l = Some L" "to_legacy b k = Some t"
  shows "literal_to_legacy b (rebuild_literal_id l i k) = Some \<lparr>positive = positive L, atom = put_arg i t (atom L)\<rparr>"
proof -
  have l: "id_positive l = positive L" "atom_to_legacy b (id_atom l) = Some (atom L)" using assms(1) by (simp_all add: literal_to_legacy_iff)
  show ?thesis
  proof (rule atom_to_legacy_cases [OF l(2)])
    fix p args ts assume h: "id_atom l = IdPred p args" "atom L = Pred p ts" "mapM (to_legacy b) args = Some ts"
    have "mapM (to_legacy b) (args[i := k]) = Some (ts[i := t])"
      using h(3) assms(2) unfolding mapM_list_all2 by (rule list_all2_update_cong)
    then show ?thesis using l(1) h(1,2) by (simp add: rebuild_literal_id_def literal_to_legacy_def)
  qed (use assms(2) l(1) in \<open>auto simp: rebuild_literal_id_def literal_to_legacy_def\<close>)
qed

lemma stands_for_expands: "stands_for b0 s \<theta> \<Longrightarrow> becomes b0 b \<Longrightarrow> expands s (bound b0 s) b"
  using becomes_extends expands_stable [of s "bound b0 s"] unfolding stands_for_def stable_def expands_def by blast

lemma stands_for_term:
  assumes "stands_for b0 s \<theta>" "becomes b0 b" "to_legacy b i = Some t"
  obtains j b' where "id_apply_term s i b = Some (j, b')" "becomes b b'" "den b' j (inst \<theta> t)"
proof -
  obtain r where r: "ranked (bound b0 s) r" "closure (bound b0 s) \<theta>" using assms(1) by (auto simp: stands_for_def)
  from maps_asD [OF id_apply_term_maps [OF r] stands_for_expands [OF assms(1,2)] becomes_sane [OF assms(2)] assms(3)] that
  show thesis by blast
qed

lemma stands_for_literal:
  assumes "stands_for b0 s \<theta>" "becomes b0 b" "literal_to_legacy b i = Some L"
  obtains j b' where "id_apply_literal s i b = Some (j, b')" "becomes b b'" "means literal_to_legacy b' j (inst_lit \<theta> L)"
proof -
  obtain r where r: "ranked (bound b0 s) r" "closure (bound b0 s) \<theta>" using assms(1) by (auto simp: stands_for_def)
  from maps_asD [OF id_apply_literal_maps [OF r] stands_for_expands [OF assms(1,2)] becomes_sane [OF assms(2)] assms(3)] that
  show thesis by blast
qed

section \<open>Positions and variables of a literal\<close>

lemma foldM_total: "(\<And>x s. x \<in> set xs \<Longrightarrow> \<exists>s'. f x s = Some s') \<Longrightarrow> \<exists>s'. foldM f xs s = Some s'"
proof (induction xs arbitrary: s)
  case (Cons x xs)
  obtain s' where "f x s = Some s'" using Cons.prems by force
  then show ?case using Cons by simp
qed simp

lemma id_nv_positions_until_total: "to_legacy b i = Some t \<Longrightarrow> \<exists>r. id_nv_positions_until b i path ps c = Some r"
proof (induction t arbitrary: i path ps c)
  case (Var v)
  then show ?case by (subst id_nv_positions_until.simps) (simp add: to_legacy_Var)
next
  case (App f ts)
  then obtain args where args: "node_at b i = Some (NApp f args)" "mapM (to_legacy b) args = Some ts"
    by (auto simp: to_legacy_App)
  have "\<exists>s'. foldM (\<lambda>(k, arg) (r, c). case r of None \<Rightarrow> Some (None, c)
      | Some positions \<Rightarrow> id_nv_positions_until b arg (path @ [k]) positions c) (enumerate 0 args) s = Some s'" for s
  proof (rule foldM_total)
    fix x and s' :: "nat list list option \<times> clock" assume "x \<in> set (enumerate 0 args)"
    then have "x = (fst x, args ! fst x)" "fst x < length args" by (auto simp: in_set_enumerate_eq prod_eq_iff)
    then obtain k where "x = (k, args ! k)" "k < length args" by blast
    then have k: "x = (k, args ! k)" "k < length ts" "to_legacy b (args ! k) = Some (ts ! k)"
      using args(2) by (auto simp: mapM_Some_iff)
    obtain r c where "s' = (r, c)" by fastforce
    then show "\<exists>s''. (case x of (k, arg) \<Rightarrow> \<lambda>(r, c). case r of None \<Rightarrow> Some (None, c)
      | Some positions \<Rightarrow> id_nv_positions_until b arg (path @ [k]) positions c) s' = Some s''"
      using App.IH [OF nth_mem [OF k(2)] k(3)] k(1) by (auto split: option.split)
  qed
  then show ?case using args(1) by (subst id_nv_positions_until.simps) simp
qed

text \<open>The index of a position and the identifier at it.\<close>

definition argument_at :: "IdAtom \<Rightarrow> nat \<Rightarrow> TermId \<Rightarrow> bool" where
  "argument_at a i base \<longleftrightarrow> (case a of IdPred p args \<Rightarrow> i < length args \<and> base = args ! i
     | IdEq l r \<Rightarrow> i = 0 \<and> base = l \<or> i = 1 \<and> base = r)"

lemma argument_positions_total:
  assumes "\<And>i a. (i, a) \<in> set args \<Longrightarrow> is_id b a"
  shows "\<exists>r clk'. argument_positions b args clk = Some (r, clk') \<and>
    (\<forall>ps. r = Some ps \<longrightarrow> (\<forall>(i, base, p) \<in> set ps. (i, base) \<in> set args))"
  using assms
proof (induction args arbitrary: clk)
  case (Cons x args)
  obtain i a where x: "x = (i, a)" by fastforce
  then obtain t where "to_legacy b a = Some t" using Cons.prems by (auto simp: is_id_def)
  then obtain r clk1 where 1: "id_non_variable_positions_until b a (tl clk) = Some (r, clk1)"
    using id_nv_positions_until_total unfolding id_non_variable_positions_until_def by (metis surj_pair)
  obtain r2 clk2 where 2: "argument_positions b args clk1 = Some (r2, clk2)"
    "\<forall>ps. r2 = Some ps \<longrightarrow> (\<forall>(i, base, p) \<in> set ps. (i, base) \<in> set args)"
    using Cons.IH [of clk1] Cons.prems by auto
  then show ?case using x 1 by (cases r) auto
qed simp

lemma literal_term_positions_total:
  assumes "literal_to_legacy b l = Some L"
  obtains r clk' where "literal_term_positions_id l b clk = Some (r, clk')"
    "\<And>ps i base p. r = Some ps \<Longrightarrow> (i, base, p) \<in> set ps \<Longrightarrow> argument_at (id_atom l) i base"
proof -
  have "atom_to_legacy b (id_atom l) = Some (atom L)" using assms by (simp add: literal_to_legacy_iff)
  then show thesis
  proof (rule atom_to_legacy_cases)
    fix p args ts assume h: "id_atom l = IdPred p args" "atom L = Pred p ts" "mapM (to_legacy b) args = Some ts"
    have "is_id b a" if "(i, a) \<in> set (enumerate 0 args)" for i a
      using h(3) that by (auto simp: in_set_enumerate_eq mapM_Some_iff is_id_def)
    then obtain r clk' where r: "argument_positions b (enumerate 0 args) clk = Some (r, clk')"
      "\<forall>ps. r = Some ps \<longrightarrow> (\<forall>(i, base, p) \<in> set ps. (i, base) \<in> set (enumerate 0 args))"
      using argument_positions_total [of "enumerate 0 args" b clk] by blast
    show thesis
    proof (rule that)
      show "literal_term_positions_id l b clk = Some (r, clk')" using r(1) by (simp add: literal_term_positions_id_def h(1))
      fix ps i base p assume "r = Some ps" "(i, base, p) \<in> set ps"
      then have "(i, base) \<in> set (enumerate 0 args)" using r(2) by blast
      then show "argument_at (id_atom l) i base" by (auto simp: h(1) argument_at_def in_set_enumerate_eq)
    qed
  next
    fix i j t u assume h: "id_atom l = IdEq i j" "atom L = Eq t u" "to_legacy b i = Some t" "to_legacy b j = Some u"
    obtain r clk1 where 1: "id_non_variable_positions_until b i clk = Some (r, clk1)"
      using id_nv_positions_until_total [OF h(3)] unfolding id_non_variable_positions_until_def by (metis surj_pair)
    obtain r2 clk2 where 2: "id_non_variable_positions_until b j clk1 = Some (r2, clk2)"
      using id_nv_positions_until_total [OF h(4)] unfolding id_non_variable_positions_until_def by (metis surj_pair)
    show thesis
    proof (cases r)
      case None
      then show thesis using that [of None clk1] h(1) 1 by (simp add: literal_term_positions_id_def)
    next
      case (Some left)
      show thesis
      proof (rule that)
        show "literal_term_positions_id l b clk = Some (map_option (\<lambda>right. [(0, i, left), (1, j, right)]) r2, clk2)"
          using h(1) 1 2 Some by (simp add: literal_term_positions_id_def)
      qed (auto simp: h(1) argument_at_def)
    qed
  qed
qed

lemma argument_at_reads:
  assumes "literal_to_legacy b l = Some L" "argument_at (id_atom l) i base"
  obtains t where "to_legacy b base = Some t" "arg_of i (atom L) = Some t"
proof -
  have "atom_to_legacy b (id_atom l) = Some (atom L)" using assms(1) by (simp add: literal_to_legacy_iff)
  then show thesis
    by (rule atom_to_legacy_cases) (use that assms(2) in \<open>auto simp: argument_at_def mapM_Some_iff\<close>)
qed

lemma literal_collect_vars_eq:
  assumes "literal_to_legacy b l = Some L"
  shows "id_literal_collect_vars b l vs = Some (vs \<union> lvars L)"
proof -
  have "atom_to_legacy b (id_atom l) = Some (atom L)" using assms by (simp add: literal_to_legacy_iff)
  then show ?thesis
  proof (rule atom_to_legacy_cases)
    fix p args ts assume h: "id_atom l = IdPred p args" "atom L = Pred p ts" "mapM (to_legacy b) args = Some ts"
    have "foldM (id_collect_vars b) args vs = Some (vs \<union> (\<Union>t \<in> set ts. vars t))"
      using h(3) by (induction args arbitrary: ts vs) (auto simp: bind_eq_Some_conv id_collect_vars_eq Un_assoc)
    then show ?thesis using h(1,2) by (simp add: id_literal_collect_vars_def lvars_def)
  qed (auto simp: id_literal_collect_vars_def lvars_def id_collect_vars_eq Un_assoc)
qed

lemma literals_collect_vars_eq:
  "lits_of b ls = Some Ls \<Longrightarrow> foldM (id_literal_collect_vars b) ls vs = Some (vs \<union> lits_vars Ls)"
  by (induction ls arbitrary: Ls vs) (auto simp: bind_eq_Some_conv literal_collect_vars_eq lits_vars_def Un_assoc)

lemma arg_vars: "arg_of i (atom L) = Some t \<Longrightarrow> L \<in> set Ls \<Longrightarrow> vars t \<subseteq> lits_vars Ls"
  by (cases "atom L") (force simp: lits_vars_def lvars_def split: if_splits)+

section \<open>The conclusions\<close>

text \<open>The terms of the literals apply associative symbols to two arguments.\<close>

definition binary_lit :: "SymbolId set \<Rightarrow> Literal \<Rightarrow> bool" where
  "binary_lit A l \<longleftrightarrow> (case atom l of Pred p ts \<Rightarrow> \<forall>t \<in> set ts. binary A t | Eq l r \<Rightarrow> binary A l \<and> binary A r)"

lemma binary_lit_shifted [simp]: "binary_lit A (inst_lit (shifted k) l) = binary_lit A l"
  by (auto simp: binary_lit_def inst_lit_def split: Atom.split)

lemma binary_arg: "binary_lit A L \<Longrightarrow> arg_of i (atom L) = Some t \<Longrightarrow> binary A t"
  by (cases "atom L") (auto simp: binary_lit_def split: if_splits)

lemma superposed_holds:
  assumes "lits_valid I Ls" "lits_valid I Ms" "i < length Ls" "j < length Ms"
    and eq: "\<And>\<rho>. lval I \<rho> (Ls ! i) \<longleftrightarrow> tval I \<rho> t = tval I \<rho> u"
    and rewrite: "\<And>\<rho>. tval I \<rho> (inst \<theta> t) = tval I \<rho> (inst \<theta> u) \<Longrightarrow> lval I \<rho> (inst_lit \<theta> (Ms ! j)) \<Longrightarrow> lval I \<rho> (inst_lit \<theta> L)"
  shows "lits_valid I ((map (inst_lit \<theta>) (rest {i} Ls) @ map (inst_lit \<theta>) (rest {j} Ms)) @ [inst_lit \<theta> L])"
  unfolding lits_valid_def
proof
  fix \<rho>
  let ?\<rho> = "\<lambda>v. tval I \<rho> (\<theta> v)"
  have "lits_hold I ?\<rho> Ls" "lits_hold I ?\<rho> Ms" using assms(1,2) by (simp_all add: lits_valid_def)
  then have "lval I ?\<rho> (Ls ! i) \<or> lits_hold I ?\<rho> (rest {i} Ls)" "lval I ?\<rho> (Ms ! j) \<or> lits_hold I ?\<rho> (rest {j} Ms)"
    by (metis lits_hold_rest singletonD)+
  moreover have "lval I ?\<rho> (Ls ! i) \<Longrightarrow> lval I ?\<rho> (Ms ! j) \<Longrightarrow> lval I \<rho> (inst_lit \<theta> L)"
    using eq [of ?\<rho>] rewrite [of \<rho>] by (simp add: tval_inst lval_inst)
  ultimately show "lits_hold I \<rho> ((map (inst_lit \<theta>) (rest {i} Ls) @ map (inst_lit \<theta>) (rest {j} Ms)) @ [inst_lit \<theta> L])"
    by (auto simp: lits_hold_inst)
qed

definition superposition_in :: "SymbolId set \<Rightarrow> SymbolId set \<Rightarrow> string \<Rightarrow> 'a interp \<Rightarrow> bool" where
  "superposition_in C A rule I \<longleftrightarrow> ac_interp I C A"

text \<open>What the loops need to know of the two clauses in the bank they start from.\<close>

definition superposable :: "'a itself \<Rightarrow> SymbolId set \<Rightarrow> TermBank \<Rightarrow> IdClause \<Rightarrow> IdClause \<Rightarrow> IdClause
    \<Rightarrow> Literal list \<Rightarrow> Literal list \<Rightarrow> Literal list \<Rightarrow> bool" where
  "superposable TY A b c1 c2 c2r Ls Ms Ms0 \<longleftrightarrow> lits_of b (idc_literals c1) = Some Ls \<and> lits_of b (idc_literals c2r) = Some Ms \<and>
     idc_id c2r = idc_id c2 \<and> set (idc_avatar c2r) = set (idc_avatar c2) \<and>
     (intact b \<longrightarrow> (\<forall>l \<in> set Ls \<union> set Ms. binary_lit A l) \<and> (\<forall>I :: 'a interp. lits_valid I Ms0 \<longrightarrow> lits_valid I Ms))"

definition sup_inv :: "'a itself \<Rightarrow> SymbolId set \<Rightarrow> SymbolId set \<Rightarrow> IdClause \<Rightarrow> IdClause \<Rightarrow> Literal list \<Rightarrow> Literal list
    \<Rightarrow> TermBank \<Rightarrow> ClauseIdGen \<Rightarrow> sup_state \<Rightarrow> bool" where
  "sup_inv TY C A c1 c2 Ls Ms0 b0 g0 st \<longleftrightarrow>
     infer_inv (derives (superposition_in C A :: string \<Rightarrow> 'a interp \<Rightarrow> bool) [c1, c2] [Ls, Ms0]) b0 g0 (fst st)"

lemma lits_hold_append [simp]: "lits_hold I \<rho> (Ls @ Ms) \<longleftrightarrow> lits_hold I \<rho> Ls \<or> lits_hold I \<rho> Ms"
  by (auto simp: lits_hold_def)

lemma superpose_at_inv:
  assumes par: "superposable TYPE('a) A b0 c1 c2 c2r Ls Ms Ms0"
    and i: "i < length Ls" "to_legacy b0 from_id = Some t" "to_legacy b0 to = Some u"
      "Ls ! i = \<lparr>positive = True, atom = Eq t u\<rparr> \<or> Ls ! i = \<lparr>positive = True, atom = Eq u t\<rparr>"
    and j: "(j, l) \<in> set (enumerate 0 (idc_literals c2r))" "argument_at (id_atom l) n base"
    and R: "R = lits_vars Ms"
    and inv: "sup_inv TYPE('a) C A c1 c2 Ls Ms0 b0 g0 st"
  shows "\<exists>r. superpose_at c1 c2r i from_id to lr ord C A R j l n base pos st = Some r \<and>
    sup_inv TYPE('a) C A c1 c2 Ls Ms0 b0 g0 (finish r)"
proof -
  obtain cs b g clk budget lpo where st: "st = ((cs, b, g, clk), budget, lpo)" by (cases st) auto
  let ?P = "derives (superposition_in C A :: string \<Rightarrow> 'a interp \<Rightarrow> bool) [c1, c2] [Ls, Ms0]"
  have inv: "infer_inv ?P b0 g0 (cs, b, g, clk)" using inv by (simp add: st sup_inv_def)
  then have b: "becomes b0 b" "sane b" by (auto simp: infer_inv_def becomes_sane)
  have lits: "lits_of b0 (idc_literals c1) = Some Ls" "lits_of b0 (idc_literals c2r) = Some Ms"
    using par by (simp_all add: superposable_def)
  have keep: "to_legacy b' k = Some x" if "to_legacy b0 k = Some x" "becomes b0 b'" for k x b'
    using extends_to_legacy [OF becomes_extends [OF that(2)] that(1)] .
  have jl: "j < length Ms" "literal_to_legacy b0 l = Some (Ms ! j)"
    using lits(2) j(1) by (auto simp: mapM_Some_iff in_set_enumerate_eq)
  obtain T where T: "to_legacy b0 base = Some T" "arg_of n (atom (Ms ! j)) = Some T"
    by (rule argument_at_reads [OF jl(2) j(2)])
  have here: "sup_inv TYPE('a) C A c1 c2 Ls Ms0 b0 g0 ((cs, b', g, clk'), budget', lpo')" if "becomes b b'" for b' clk' budget' lpo'
    using infer_inv_bank [OF inv that] by (simp add: sup_inv_def)
  note stay = here [OF becomes_refl [OF b(2)]]
  show ?thesis
  proof (cases "expired clk")
    case True
    then show ?thesis using stay by (simp add: st superpose_at_def)
  next
    case go: False
    show ?thesis
    proof (cases "subterm_at T pos")
      case None
      then have "id_subterm_at b base pos = Some None" using id_subterm_at_eq [OF keep [OF T(1) b(1)], of pos] by simp
      then show ?thesis using go stay by (simp add: st superpose_at_def)
    next
      case (Some v)
      obtain sub where sub: "id_subterm_at b base pos = Some (Some sub)" "to_legacy b sub = Some v"
        using id_subterm_at_eq [OF keep [OF T(1) b(1)], of pos] Some by auto
      have bin: "binary_lit A l" if "intact b" "l \<in> set Ls \<union> set Ms" for l
        using par that becomes_intact [OF b(1)] by (auto simp: superposable_def)
      have "binary A t \<and> binary A u" if "intact b"
      proof -
        have "binary_lit A (Ls ! i)" using bin [OF that] i(1) by simp
        then show ?thesis using i(4) by (auto simp: binary_lit_def)
      qed
      moreover have "binary A v" if "intact b"
        using binary_subterm [OF Some binary_arg [OF bin [OF that] T(2)]] jl(1) by simp
      ultimately have tms: "tm A b from_id t" "tm A b to u" "tm A b sub v"
        using keep [OF i(2) b(1)] keep [OF i(3) b(1)] sub(2) by (simp_all add: ac_term_def cap_def)
      have vR: "vars v \<subseteq> R" using vars_subterm [OF Some] arg_vars [OF T(2) nth_mem [OF jl(1)]] R by blast
      obtain r st1 where r: "fit from_id to sub C A R (b, budget) = Some (r, st1)" "later (b, budget) st1"
        "\<And>x. r = Some x \<Longrightarrow> fits_eq TYPE('a) C A t u v (fst st1) x"
        by (rule fit_fits [where st = "(b, budget)" and C = C and A = A and t = t and u = u and v = v
              and from_id = from_id and to = to and sub = sub and R = R and 'a = 'a]) (simp_all add: b(2) tms vR)
      obtain b1 budget1 where st1: "st1 = (b1, budget1)" by fastforce
      have b1: "becomes b b1" using r(2) by (simp add: st1 later_def)
      have bb1: "becomes b0 b1" using becomes_trans [OF b(1) b1] .
      show ?thesis
      proof (cases r)
        case None
        then show ?thesis using go sub(1) r(1) here [OF b1] by (simp add: st st1 superpose_at_def)
      next
        case (Some x)
        obtain s k where x: "x = (s, k)" by fastforce
        obtain \<theta> w where w: "stands_for b1 s \<theta>" "to_legacy b1 k = Some w"
          "\<And>(I :: 'a interp) \<rho>. ac_ok (cap A b1) I C A \<Longrightarrow> tval I \<rho> (inst \<theta> t) = tval I \<rho> (inst \<theta> u) \<Longrightarrow>
            tval I \<rho> (inst \<theta> v) = tval I \<rho> (inst \<theta> w)"
          using r(3) [OF Some] by (auto simp: fits_eq_def st1 x)
        obtain i1 b2 where b2: "id_apply_term s from_id b1 = Some (i1, b2)" "becomes b1 b2" "den b2 i1 (inst \<theta> t)"
          by (rule stands_for_term [OF w(1) becomes_refl [OF becomes_sane [OF b1]] keep [OF i(2) bb1]])
        obtain i2 b3 where b3: "id_apply_term s to b2 = Some (i2, b3)" "becomes b2 b3" "den b3 i2 (inst \<theta> u)"
          by (rule stands_for_term [OF w(1) b2(2) keep [OF i(3) becomes_trans [OF bb1 b2(2)]]])
        have bb3: "becomes b1 b3" using becomes_trans [OF b2(2) b3(2)] .
        have "is_id b3 i1" "is_id b3 i2"
          using den_becomes [OF b3(2) b2(3)] b3(3) by (auto simp: means_def is_id_def)
        then obtain cmp lpo' where cmp: "compare_id ord b3 i1 i2 lpo = Some (cmp, lpo')"
          by (rule compare_id_total [OF sane_wf [OF becomes_sane [OF bb3]]])
        have start: "id_subterm_at b base pos = Some (Some sub)" "fit from_id to sub C A R (b, budget) = Some (Some (s, k), b1, budget1)"
          using sub(1) r(1) Some x st1 by simp_all
        show ?thesis
        proof (cases "lpo_expired lpo' \<or> cmp = Less \<or> cmp = Equal")
          case True
          then show ?thesis using go start b2(1) b3(1) cmp here [OF becomes_trans [OF b1 bb3]]
            by (cases "lpo_expired lpo'") (auto simp: st superpose_at_def)
        next
          case False
          obtain T' where T': "replace_at T pos w = Some T'" using \<open>subterm_at T pos = Some v\<close> replace_at_Some_iff by metis
          have bb: "becomes b0 b3" using becomes_trans [OF bb1 bb3] .
          obtain k1 b4 where b4: "id_replace_at base pos k b3 = Some (k1, b4)" "becomes b3 b4" "den b4 k1 T'"
            using id_replace_at_becomes [OF becomes_sane [OF bb3] keep [OF T(1) bb] extends_to_legacy [OF becomes_extends [OF bb3] w(2)] T'] by blast
          obtain T2 where T2: "to_legacy b4 k1 = Some T2" "intact b4 \<longrightarrow> T2 = T'" using b4(3) by (auto simp: means_def)
          let ?L = "\<lparr>positive = positive (Ms ! j), atom = put_arg n T2 (atom (Ms ! j))\<rparr>"
          have bb4: "becomes b0 b4" using becomes_trans [OF bb b4(2)] .
          have "literal_to_legacy b4 l = Some (Ms ! j)"
            using persistent_literal becomes_extends [OF bb4] jl(2) unfolding persistent_def by blast
          from rebuild_literal_reads [OF this T2(1), of n]
          obtain l' b5 where b5: "id_apply_literal s (rebuild_literal_id l n k1) b4 = Some (l', b5)" "becomes b4 b5"
            "means literal_to_legacy b5 l' (inst_lit \<theta> ?L)"
            by (rule stands_for_literal [OF w(1) becomes_trans [OF bb3 b4(2)]])
          have bb5: "becomes b1 b5" "becomes b0 b5" using becomes_trans [OF bb3 becomes_trans [OF b4(2) b5(2)]] becomes_trans [OF bb4 b5(2)] by blast+
          obtain ms b6 where b6: "apply_rest s {i} (idc_literals c1) ([], b5) = Some (ms, b6)" "becomes b5 b6"
            "lits_mean b6 ms ([] @ map (inst_lit \<theta>) (rest {i} Ls))"
            by (rule stands_for_rest [OF w(1) bb5(1) becomes_sane [OF bb5(1)]
                persistent_mapM [OF persistent_literal becomes_extends [OF bb5(2)] lits(1)] list_all2_Nil [THEN iffD2, OF refl]])
          obtain ns b7 where b7: "apply_rest s {j} (idc_literals c2r) (ms, b6) = Some (ns, b7)" "becomes b6 b7"
            "lits_mean b7 ns (([] @ map (inst_lit \<theta>) (rest {i} Ls)) @ map (inst_lit \<theta>) (rest {j} Ms))"
            by (rule stands_for_rest [OF w(1) becomes_trans [OF bb5(1) b6(2)] becomes_sane [OF b6(2)]
                persistent_mapM [OF persistent_literal becomes_extends [OF becomes_trans [OF bb5(2) b6(2)]] lits(2)] b6(3)])
          have bb7: "becomes b5 b7" using becomes_trans [OF b6(2) b7(2)] .
          let ?Rs = "(map (inst_lit \<theta>) (rest {i} Ls) @ map (inst_lit \<theta>) (rest {j} Ms)) @ [inst_lit \<theta> ?L]"
          let ?c = "(id_new_avatar (fst (next_id g)) (ns @ [l']) (Inference ''superposition'' [idc_id c1, idc_id c2r])
             (idc_avatar c1 @ idc_avatar c2r))\<lparr>idc_witness := Some (ProofWitness.Superposition
               (parent_node (idc_proof_id c1) (idc_id c1)) (parent_node (idc_proof_id c2r) (idc_id c2r)) i j pos lr None)\<rparr>"
          have all: "becomes b b7" using becomes_trans [OF b1 becomes_trans [OF bb5(1) bb7]] .
          have "infer_inv ?P b0 g0 (cs @ [?c], b7, snd (next_id g), tl clk)"
          proof (rule infer_inv_push [OF inv all])
            show "lits_mean b7 (idc_literals ?c) ?Rs"
              using list_all2_appendI [OF b7(3), of "[l']" "[inst_lit \<theta> ?L]"] means_becomes [OF persistent_literal bb7 b5(3)]
              by (simp add: id_new_avatar_def)
            show "next_id g = (idc_id ?c, snd (next_id g))" by (simp add: id_new_avatar_def)
            assume full: "intact b7"
            have "intact b4" using becomes_intact [OF becomes_trans [OF b5(2) bb7] full] .
            then have [simp]: "T2 = T'" and "intact b1" "intact b0"
              using T2(2) becomes_intact [OF becomes_trans [OF bb3 b4(2)]] becomes_intact [OF bb4] by blast+
            have "lits_valid I ?Rs" if "ac_interp I C A" "lits_valid I Ls" "lits_valid I Ms0" for I :: "'a interp"
            proof (rule superposed_holds [OF that(2) _ i(1) jl(1)])
              show "lits_valid I Ms" using par that(3) \<open>intact b0\<close> by (simp add: superposable_def)
              show "lval I \<rho> (Ls ! i) \<longleftrightarrow> tval I \<rho> t = tval I \<rho> u" for \<rho> using i(4) by (auto simp: lval_def)
              show "lval I \<rho> (inst_lit \<theta> ?L)"
                if "tval I \<rho> (inst \<theta> t) = tval I \<rho> (inst \<theta> u)" "lval I \<rho> (inst_lit \<theta> (Ms ! j))" for \<rho>
              proof -
                have "ac_ok (cap A b1) I C A" using \<open>ac_interp I C A\<close> \<open>intact b1\<close> by (simp add: ac_ok_def cap_def)
                from w(3) [OF this that(1)] have "tval I (\<lambda>v. tval I \<rho> (\<theta> v)) v = tval I (\<lambda>v. tval I \<rho> (\<theta> v)) w" by (simp add: tval_inst)
                from aval_put_arg [OF T(2) tval_replace_at [OF \<open>subterm_at T pos = Some v\<close> T' this]] that(2)
                show ?thesis by (simp add: lval_def inst_lit_def aval_inst)
              qed
            qed
            then show "?P ?c ?Rs" using par by (simp add: derives_def superposition_in_def superposable_def id_new_avatar_def)
          qed
          then have "sup_inv TYPE('a) C A c1 c2 Ls Ms0 b0 g0 ((cs @ [?c], b7, snd (next_id g), tl clk), budget1, lpo')" by (simp add: sup_inv_def)
          moreover have "superpose_at c1 c2r i from_id to lr ord C A R j l n base pos st = Some (Inr ((cs @ [?c], b7, snd (next_id g), tl clk), budget1, lpo'))"
            using go start b2(1) b3(1) cmp False b4(1) b5(1) b6(1) b7(1) by (simp add: st superpose_at_def split_def Let_def)
          ultimately show ?thesis by simp
        qed
      qed
    qed
  qed
qed

section \<open>The loops\<close>

lemma sup_inv_clock: "sup_inv TY C A c1 c2 Ls Ms0 b0 g0 ((cs, b, g, clk), budget, lpo) \<Longrightarrow>
    sup_inv TY C A c1 c2 Ls Ms0 b0 g0 ((cs, b, g, clk'), budget, lpo)"
  by (simp add: sup_inv_def infer_inv_clock)

lemma superpose_literal_inv:
  assumes par: "superposable TYPE('a) A b0 c1 c2 c2r Ls Ms Ms0"
    and i: "i < length Ls" "to_legacy b0 from_id = Some t" "to_legacy b0 to = Some u"
      "Ls ! i = \<lparr>positive = True, atom = Eq t u\<rparr> \<or> Ls ! i = \<lparr>positive = True, atom = Eq u t\<rparr>"
    and j: "jl \<in> set (enumerate 0 (idc_literals c2r))"
    and inv: "sup_inv TYPE('a) C A c1 c2 Ls Ms0 b0 g0 st"
  shows "\<exists>r. superpose_literal c1 c2r i from_id to lr ord sel C A (lits_vars Ms) jl st = Some r \<and>
    sup_inv TYPE('a) C A c1 c2 Ls Ms0 b0 g0 (finish r)"
proof -
  obtain cs b g clk budget lpo where st: "st = ((cs, b, g, clk), budget, lpo)" by (cases st) auto
  obtain j l where jl: "jl = (j, l)" by fastforce
  note inv' = sup_inv_clock [OF inv [unfolded st]]
  show ?thesis
  proof (cases "expired clk \<or> \<not> selected sel j")
    case True
    then show ?thesis using inv' by (auto simp: st jl superpose_literal_def)
  next
    case False
    have "becomes b0 b" using inv by (simp add: st sup_inv_def infer_inv_def)
    moreover have "literal_to_legacy b0 l = Some (Ms ! j)"
      using par j by (auto simp: jl superposable_def mapM_Some_iff in_set_enumerate_eq)
    ultimately have "literal_to_legacy b l = Some (Ms ! j)"
      using persistent_literal becomes_extends unfolding persistent_def by blast
    then obtain r clk1 where r: "literal_term_positions_id l b (tl clk) = Some (r, clk1)"
      "\<And>ps n base p. r = Some ps \<Longrightarrow> (n, base, p) \<in> set ps \<Longrightarrow> argument_at (id_atom l) n base"
      by (rule literal_term_positions_total [where clk = "tl clk"]) blast
    show ?thesis
    proof (cases r)
      case None
      then show ?thesis using False r(1) inv' by (simp add: st jl superpose_literal_def)
    next
      case (Some ps)
      let ?step = "\<lambda>(n, base, ps). try_each (superpose_at c1 c2r i from_id to lr ord C A (lits_vars Ms) j l n base) ps"
      have "\<exists>r. try_each ?step ps ((cs, b, g, clk1), budget, lpo) = Some r \<and> sup_inv TYPE('a) C A c1 c2 Ls Ms0 b0 g0 (finish r)"
      proof (rule try_each_inv [where Q = "sup_inv TYPE('a) C A c1 c2 Ls Ms0 b0 g0"])
        show "sup_inv TYPE('a) C A c1 c2 Ls Ms0 b0 g0 ((cs, b, g, clk1), budget, lpo)" by (rule inv')
        fix x s assume x: "x \<in> set ps" and s: "sup_inv TYPE('a) C A c1 c2 Ls Ms0 b0 g0 s"
        obtain n base qs where x': "x = (n, base, qs)" by (cases x) auto
        have at: "argument_at (id_atom l) n base" using r(2) [OF Some] x x' by blast
        have "\<exists>r. try_each (superpose_at c1 c2r i from_id to lr ord C A (lits_vars Ms) j l n base) qs s = Some r \<and>
            sup_inv TYPE('a) C A c1 c2 Ls Ms0 b0 g0 (finish r)"
          by (rule try_each_inv [OF superpose_at_inv [OF par i j [unfolded jl] at refl] s])
        then show "\<exists>r. ?step x s = Some r \<and> sup_inv TYPE('a) C A c1 c2 Ls Ms0 b0 g0 (finish r)" by (simp add: x')
      qed
      then show ?thesis using False r(1) Some by (simp add: st jl superpose_literal_def)
    qed
  qed
qed

lemma superpose_with_id_inv:
  assumes par: "superposable TYPE('a) A b0 c1 c2 c2r Ls Ms Ms0"
    and i: "i < length Ls" "to_legacy b0 from_id = Some t" "to_legacy b0 to = Some u"
      "Ls ! i = \<lparr>positive = True, atom = Eq t u\<rparr> \<or> Ls ! i = \<lparr>positive = True, atom = Eq u t\<rparr>"
    and inv: "sup_inv TYPE('a) C A c1 c2 Ls Ms0 b0 g0 st"
  shows "\<exists>st'. superpose_with_id c1 c2r i from_id to lr ord sel C A st = Some st' \<and>
    sup_inv TYPE('a) C A c1 c2 Ls Ms0 b0 g0 st'"
proof -
  let ?b = "fst (snd (fst st))"
  have "becomes b0 ?b" using inv by (cases st) (auto simp: sup_inv_def infer_inv_def)
  then have "lits_of ?b (idc_literals c2r) = Some Ms"
    using par persistent_mapM [OF persistent_literal becomes_extends] by (auto simp: superposable_def)
  then have vs: "foldM (id_literal_collect_vars ?b) (idc_literals c2r) {} = Some (lits_vars Ms)"
    using literals_collect_vars_eq [of ?b _ Ms "{}"] by simp
  have "\<exists>r. try_each (superpose_literal c1 c2r i from_id to lr ord sel C A (lits_vars Ms)) (enumerate 0 (idc_literals c2r)) st = Some r \<and>
      sup_inv TYPE('a) C A c1 c2 Ls Ms0 b0 g0 (finish r)"
    by (rule try_each_inv [OF superpose_literal_inv [OF par i] inv])
  then obtain r where "try_each (superpose_literal c1 c2r i from_id to lr ord sel C A (lits_vars Ms)) (enumerate 0 (idc_literals c2r)) st = Some r"
    "sup_inv TYPE('a) C A c1 c2 Ls Ms0 b0 g0 (finish r)" by blast
  then show ?thesis using vs by (intro exI [of _ "finish r"]) (simp add: superpose_with_id_def)
qed

lemma superpose_equation_inv:
  assumes par: "superposable TYPE('a) A b0 c1 c2 c2r Ls Ms Ms0"
    and il: "il \<in> set (enumerate 0 (idc_literals c1))"
    and inv: "sup_inv TYPE('a) C A c1 c2 Ls Ms0 b0 g0 st"
  shows "\<exists>r. superpose_equation c1 c2r ord sel C A il st = Some r \<and>
    sup_inv TYPE('a) C A c1 c2 Ls Ms0 b0 g0 (finish r)"
proof -
  obtain cs b g clk budget lpo where st: "st = ((cs, b, g, clk), budget, lpo)" by (cases st) auto
  obtain i e where ie: "il = (i, e)" by fastforce
  note inv' = sup_inv_clock [OF inv [unfolded st]]
  have "lits_of b0 (idc_literals c1) = Some Ls" using par by (simp add: superposable_def)
  note e = lits_nth [OF this il [unfolded ie]]
  show ?thesis
  proof (cases "expired clk \<or> \<not> id_positive e \<or> (\<exists>p args. id_atom e = IdPred p args)")
    case True
    then show ?thesis using inv' by (cases "id_atom e") (auto simp: st ie superpose_equation_def)
  next
    case False
    then obtain l r where lr: "id_atom e = IdEq l r" by (cases "id_atom e") auto
    obtain t u where tu: "to_legacy b0 l = Some t" "to_legacy b0 r = Some u" "atom (Ls ! i) = Eq t u"
      using e lr by (auto simp: bind_eq_Some_conv)
    have eq: "Ls ! i = \<lparr>positive = True, atom = Eq t u\<rparr>" using e tu(3) False by (cases "Ls ! i") simp
    have "\<exists>res. try_each (superpose_orientation c1 c2r i ord sel C A) [(l, r, True), (r, l, False)] ((cs, b, g, tl clk), budget, lpo) = Some res \<and>
        sup_inv TYPE('a) C A c1 c2 Ls Ms0 b0 g0 (finish res)"
    proof (rule try_each_inv [where Q = "sup_inv TYPE('a) C A c1 c2 Ls Ms0 b0 g0"])
      show "sup_inv TYPE('a) C A c1 c2 Ls Ms0 b0 g0 ((cs, b, g, tl clk), budget, lpo)" by (rule inv')
      fix x s assume x: "x \<in> set [(l, r, True), (r, l, False)]" and s: "sup_inv TYPE('a) C A c1 c2 Ls Ms0 b0 g0 s"
      obtain cs' b' g' clk' budget' lpo' where s': "s = ((cs', b', g', clk'), budget', lpo')" by (cases s) auto
      obtain from_id to d where d: "x = (from_id, to, d)" by (cases x) auto
      obtain t' u' where t': "to_legacy b0 from_id = Some t'" "to_legacy b0 to = Some u'"
        "Ls ! i = \<lparr>positive = True, atom = Eq t' u'\<rparr> \<or> Ls ! i = \<lparr>positive = True, atom = Eq u' t'\<rparr>"
        using x d tu(1,2) eq by auto
      have "becomes b0 b'" using s by (simp add: s' sup_inv_def infer_inv_def)
      from extends_to_legacy [OF becomes_extends [OF this] t'(1)]
      obtain n where n: "node_at b' from_id = Some n" by (auto elim: to_legacy_cases)
      note s1 = sup_inv_clock [OF s [unfolded s']]
      obtain st' where "superpose_with_id c1 c2r i from_id to d ord sel C A ((cs', b', g', tl clk'), budget', lpo') = Some st'"
        "sup_inv TYPE('a) C A c1 c2 Ls Ms0 b0 g0 st'"
        using superpose_with_id_inv [OF par _ t' s1] e by blast
      then show "\<exists>r. superpose_orientation c1 c2r i ord sel C A x s = Some r \<and> sup_inv TYPE('a) C A c1 c2 Ls Ms0 b0 g0 (finish r)"
        using n s1 by (cases n) (auto simp: superpose_orientation_def d s')
    qed
    then show ?thesis using False lr by (simp add: st ie superpose_equation_def)
  qed
qed

lemma rename_clause_id_same: "rename_clause_id c k b = Some (c', b') \<Longrightarrow> idc_id c' = idc_id c \<and> set (idc_avatar c') = set (idc_avatar c)"
  by (auto simp: rename_clause_id_def id_new_avatar_def bind_eq_Some_conv split: if_splits)

lemma superpose_returns:
  assumes sane: "sane b" and ls: "lits_of b (idc_literals c1) = Some Ls" and ms: "lits_of b (idc_literals c2) = Some Ms"
    and bin: "\<forall>l \<in> set Ls \<union> set Ms. binary_lit A l"
  obtains st where "superpose_selected_id_until_budgeted c1 c2 b ord g sel C A budget deadline lpo = Some st"
    "sup_inv TYPE('a) C A c1 c2 Ls Ms b g st"
proof -
  obtain b1 where b1: "clause_max_var_id c1 b = Some (offset_for Ls, b1)" "becomes b b1"
    by (rule clause_max_var_id_eq [OF sane ls])
  let ?k = "offset_for Ls"
  obtain c2r b2 where b2: "rename_clause_id c2 ?k b1 = Some (c2r, b2)" "becomes b1 b2"
    "lits_mean b2 (idc_literals c2r) (map (inst_lit (shifted ?k)) Ms)"
    by (rule rename_clause_id_maps [OF becomes_sane [OF b1(2)]
        persistent_mapM [OF persistent_literal becomes_extends [OF b1(2)] ms]])
  obtain Ms' where Ms': "lits_of b2 (idc_literals c2r) = Some Ms'" "intact b2 \<longrightarrow> Ms' = map (inst_lit (shifted ?k)) Ms"
    by (rule all_means_exact [OF b2(3)])
  have bb: "becomes b b2" using becomes_trans [OF b1(2) b2(2)] .
  have par: "superposable TYPE('a) A b2 c1 c2 c2r Ls Ms' Ms"
    using persistent_mapM [OF persistent_literal becomes_extends [OF bb] ls] Ms' bin rename_clause_id_same [OF b2(1)]
    by (auto simp: superposable_def lits_valid_shifted)
  have "\<exists>r. try_each (superpose_equation c1 c2r ord sel C A) (enumerate 0 (idc_literals c1)) (([], b2, g, deadline), budget, lpo) = Some r \<and>
      sup_inv TYPE('a) C A c1 c2 Ls Ms b2 g (finish r)"
  proof (rule try_each_inv [OF superpose_equation_inv [OF par]])
    show "sup_inv TYPE('a) C A c1 c2 Ls Ms b2 g (([], b2, g, deadline), budget, lpo)"
      unfolding sup_inv_def fst_conv by (rule infer_inv_start [OF becomes_sane [OF bb]])
  qed
  then obtain r where r: "try_each (superpose_equation c1 c2r ord sel C A) (enumerate 0 (idc_literals c1)) (([], b2, g, deadline), budget, lpo) = Some r"
    "sup_inv TYPE('a) C A c1 c2 Ls Ms b2 g (finish r)" by blast
  show thesis
  proof (rule that)
    show "superpose_selected_id_until_budgeted c1 c2 b ord g sel C A budget deadline lpo = Some (finish r)"
      using b1(1) b2(1) r(1) by (simp add: superpose_selected_id_until_budgeted_def)
    show "sup_inv TYPE('a) C A c1 c2 Ls Ms b g (finish r)" using r(2) infer_inv_base [OF bb] by (simp add: sup_inv_def)
  qed
qed

section \<open>Properties\<close>

text \<open>
  C2. Superposition on identifiers (\<open>superpose_selected_id_until_budgeted\<close>) always returns, whatever the
  ordering, the selection, the deadline, the matching budget, the budget of the ordering and the size
  of the bank. Its conclusions carry consecutive fresh identifiers, name their two parents and collect their
  AVATAR assertions. Unless the bank is full, each conclusion holds in every structure in which both parents
  hold and the declared symbols are associative and commutative; associative symbols are applied to two arguments.
\<close>

theorem superposition_sound:
  assumes "bank_ok b" "lits_of b (idc_literals c1) = Some Ls" "lits_of b (idc_literals c2) = Some Ms"
    and "\<forall>l \<in> set Ls \<union> set Ms. binary_lit A l"
  shows "\<exists>rs b' g' clk' rest. superpose_selected_id_until_budgeted c1 c2 b ord g sel C A budget deadline lpo = Some ((rs, b', g', clk'), rest) \<and>
    next_clause g' = next_clause g + of_nat (length rs) \<and>
    (\<forall>n < length rs. idc_id (rs ! n) = next_clause g + of_nat n) \<and>
    (length (nodes b') \<le> 2 ^ 32 \<longrightarrow> bank_ok b' \<and>
      (\<forall>c \<in> set rs. \<exists>Rs rule. lits_of b' (idc_literals c) = Some Rs \<and>
         idc_source c = Inference rule [idc_id c1, idc_id c2] \<and>
         set (idc_avatar c) = set (idc_avatar c1) \<union> set (idc_avatar c2) \<and>
         (\<forall>I :: 'a interp. ac_interp I C A \<longrightarrow> lits_valid I Ls \<longrightarrow> lits_valid I Ms \<longrightarrow> lits_valid I Rs)))"
proof -
  obtain st where st: "superpose_selected_id_until_budgeted c1 c2 b ord g sel C A budget deadline lpo = Some st"
    "sup_inv TYPE('a) C A c1 c2 Ls Ms b g st" by (rule superpose_returns [OF bank_ok_sane [OF assms(1)] assms(2-4)])
  obtain rs b' g' clk' rest where eq: "st = ((rs, b', g', clk'), rest)" by (cases st) auto
  have inv: "becomes b b'" "numbered g rs g'"
    "concluded (derives (superposition_in C A :: string \<Rightarrow> 'a interp \<Rightarrow> bool) [c1, c2] [Ls, Ms]) b' rs"
    using st(2) by (simp_all add: eq sup_inv_def infer_inv_def)
  have "\<exists>Rs rule. lits_of b' (idc_literals c) = Some Rs \<and>
         idc_source c = Inference rule [idc_id c1, idc_id c2] \<and>
         set (idc_avatar c) = set (idc_avatar c1) \<union> set (idc_avatar c2) \<and>
         (\<forall>I :: 'a interp. ac_interp I C A \<longrightarrow> lits_valid I Ls \<longrightarrow> lits_valid I Ms \<longrightarrow> lits_valid I Rs)"
    if "intact b'" "c \<in> set rs" for c
    using inv(3) that unfolding concluded_def derives_def superposition_in_def by fastforce
  then show ?thesis using st(1) inv(2) sane_bank_ok [OF becomes_sane [OF inv(1)]]
    by (auto simp: eq numbered_def intact_def)
qed

text \<open>The equation \<open>f(X3, g(X7)) = X7\<close>, which rewrites the example clause.\<close>

definition example_equation :: IdClause where
  "example_equation = id_new_clause 6 [\<lparr>id_positive = True, id_atom = IdEq 3 1\<rparr>] (Input ''eq'' ''axiom'')"

definition example_equation_lits :: "Literal list" where
  "example_equation_lits = [\<lparr>positive = True, atom = Eq example_term (Var 7)\<rparr>]"

lemma example_equation_lits: "lits_of example_bank (idc_literals example_equation) = Some example_equation_lits"
  by (simp add: example_equation_def example_equation_lits_def id_new_clause_def literal_to_legacy_def example_ids)

theorem superposition_sound_witness:
  "\<exists>rs b' g' clk' rest. superpose_selected_id_until_budgeted example_equation example_clause example_bank KBO new_gen None {1} {1} 10 [] unarmed
      = Some ((rs, b', g', clk'), rest) \<and>
    next_clause g' = next_clause new_gen + of_nat (length rs) \<and>
    (\<forall>n < length rs. idc_id (rs ! n) = next_clause new_gen + of_nat n) \<and>
    (length (nodes b') \<le> 2 ^ 32 \<longrightarrow> bank_ok b' \<and>
      (\<forall>c \<in> set rs. \<exists>Rs rule. lits_of b' (idc_literals c) = Some Rs \<and>
         idc_source c = Inference rule [idc_id example_equation, idc_id example_clause] \<and>
         set (idc_avatar c) = set (idc_avatar example_equation) \<union> set (idc_avatar example_clause) \<and>
         (\<forall>I :: int interp. ac_interp I {1} {1} \<longrightarrow> lits_valid I example_equation_lits \<longrightarrow> lits_valid I example_lits \<longrightarrow>
            lits_valid I Rs)))"
  by (rule superposition_sound [OF example_bank_ok example_equation_lits example_clause_lits])
    (simp add: example_equation_lits_def example_lits_def binary_lit_def example_term_def)

end
