(* ===== verification/Factoring.thy ===== *)
theory Factoring
  imports Resolution
begin

text \<open>
  Factoring, \<open>crates/mrs-calculus/src/factoring.rs\<close>, and equality resolution with its eager
  variant, \<open>crates/mrs-calculus/src/equality.rs\<close>: the rules with one parent that need no term
  ordering.
\<close>

section \<open>Factoring\<close>

definition factor_pair :: "Clause \<Rightarrow> nat \<Rightarrow> nat \<Rightarrow> Clause list \<times> ClauseIdGen \<Rightarrow> (Clause list \<times> ClauseIdGen) option" where
  "factor_pair c i j = (\<lambda>(factors, gen).
     let l1 = literals c ! i; l2 = literals c ! j in
     if positive l1 \<noteq> positive l2 then Some (factors, gen)
     else case (atom_to_term (atom l1), atom_to_term (atom l2)) of
       (Some t1, Some t2) \<Rightarrow> do {
         r \<leftarrow> unify t1 t2;
         case r of
           Inl e \<Rightarrow> Some (factors, gen)
         | Inr mgu \<Rightarrow>
             let lits = map (apply_literal mgu) (rest {j} (literals c));
                 (cid, gen) = next_id gen;
                 derived = (new_avatar cid lits (Inference ''factoring'' [clause_id c]) (avatar c))
                   \<lparr>witness := Some (ProofWitness.Factoring (parent_node (proof_id c) (clause_id c)) i j (Some mgu))\<rparr>
             in Some (factors @ [derived], gen) }
     | _ \<Rightarrow> Some (factors, gen))"

definition factor :: "Clause \<Rightarrow> ClauseIdGen \<Rightarrow> (Clause list \<times> ClauseIdGen) option" where
  "factor c gen =
     foldM (\<lambda>i. foldM (factor_pair c i) [i + 1 ..< length (literals c)]) [0 ..< length (literals c)] ([], gen)"

definition factor_pair_id :: "IdClause \<Rightarrow> nat \<Rightarrow> nat \<Rightarrow> infer \<Rightarrow> (infer + infer) option" where
  "factor_pair_id c i j = (\<lambda>(factors, bank, gen, clk).
     if expired clk then Some (Inl (factors, bank, gen, tl clk))
     else let l1 = idc_literals c ! i; l2 = idc_literals c ! j in
     if id_positive l1 \<noteq> id_positive l2 then Some (Inr (factors, bank, gen, tl clk))
     else case atom_to_term_id (id_atom l1) bank of
       (None, bank) \<Rightarrow> Some (Inr (factors, bank, gen, tl clk))
     | (Some t1, bank) \<Rightarrow> (case atom_to_term_id (id_atom l2) bank of
         (None, bank) \<Rightarrow> Some (Inr (factors, bank, gen, tl clk))
       | (Some t2, bank) \<Rightarrow> do {
           r \<leftarrow> unify_id t1 t2 bank;
           case r of
             Inl e \<Rightarrow> Some (Inr (factors, bank, gen, tl clk))
           | Inr mgu \<Rightarrow> do {
               (lits, bank) \<leftarrow> apply_rest mgu {j} (idc_literals c) ([], bank);
               let (cid, gen) = next_id gen;
                   derived = (id_new_avatar cid lits (Inference ''factoring'' [idc_id c]) (idc_avatar c))
                     \<lparr>idc_witness := Some (ProofWitness.Factoring (parent_node (idc_proof_id c) (idc_id c)) i j None)\<rparr>
               in Some (Inr (factors @ [derived], bank, gen, tl clk)) } }))"

definition factor_id_until :: "IdClause \<Rightarrow> TermBank \<Rightarrow> ClauseIdGen \<Rightarrow> clock \<Rightarrow> infer option" where
  "factor_id_until c bank gen deadline = do {
     r \<leftarrow> try_each (\<lambda>i (factors, bank, gen, clk).
            if expired clk then Some (Inl (factors, bank, gen, tl clk))
            else try_each (factor_pair_id c i) [i + 1 ..< length (idc_literals c)] (factors, bank, gen, tl clk))
          [0 ..< length (idc_literals c)] ([], bank, gen, deadline);
     Some (finish r) }"

definition factor_id :: "IdClause \<Rightarrow> TermBank \<Rightarrow> ClauseIdGen \<Rightarrow> infer option" where
  "factor_id c bank gen = factor_id_until c bank gen []"

section \<open>Equality resolution\<close>

definition equality_resolve :: "Clause \<Rightarrow> ClauseIdGen \<Rightarrow> (Clause list \<times> ClauseIdGen) option" where
  "equality_resolve c gen = foldM (\<lambda>(i, lit) (results, gen).
     if positive lit then Some (results, gen)
     else case atom lit of
       Pred p ts \<Rightarrow> Some (results, gen)
     | Eq s t \<Rightarrow> do {
         r \<leftarrow> unify s t;
         case r of
           Inl e \<Rightarrow> Some (results, gen)
         | Inr sigma \<Rightarrow>
             let lits = map (apply_literal sigma) (rest {i} (literals c));
                 (cid, gen) = next_id gen;
                 derived = (new_avatar cid lits (Inference ''equality_resolution'' [clause_id c]) (avatar c))
                   \<lparr>witness := Some (ProofWitness.EqualityResolution (parent_node (proof_id c) (clause_id c)) i (Some sigma))\<rparr>
             in Some (results @ [derived], gen) })
     (enumerate 0 (literals c)) ([], gen)"

definition equality_resolve_lit_id :: "IdClause \<Rightarrow> nat \<times> IdLiteral \<Rightarrow> infer \<Rightarrow> (infer + infer) option" where
  "equality_resolve_lit_id c = (\<lambda>(i, lit) (results, bank, gen, clk).
     if expired clk then Some (Inl (results, bank, gen, tl clk))
     else if id_positive lit then Some (Inr (results, bank, gen, tl clk))
     else case id_atom lit of
       IdPred p args \<Rightarrow> Some (Inr (results, bank, gen, tl clk))
     | IdEq s t \<Rightarrow> do {
         r \<leftarrow> unify_id s t bank;
         case r of
           Inl e \<Rightarrow> Some (Inr (results, bank, gen, tl clk))
         | Inr sigma \<Rightarrow> do {
             (lits, bank) \<leftarrow> apply_rest sigma {i} (idc_literals c) ([], bank);
             let (cid, gen) = next_id gen;
                 derived = (id_new_avatar cid lits (Inference ''equality_resolution'' [idc_id c]) (idc_avatar c))
                   \<lparr>idc_witness := Some (ProofWitness.EqualityResolution (parent_node (idc_proof_id c) (idc_id c)) i None)\<rparr>
             in Some (Inr (results @ [derived], bank, gen, tl clk)) } })"

definition equality_resolve_id_until :: "IdClause \<Rightarrow> TermBank \<Rightarrow> ClauseIdGen \<Rightarrow> clock \<Rightarrow> infer option" where
  "equality_resolve_id_until c bank gen deadline = do {
     r \<leftarrow> try_each (equality_resolve_lit_id c) (enumerate 0 (idc_literals c)) ([], bank, gen, deadline);
     Some (finish r) }"

definition equality_resolve_id :: "IdClause \<Rightarrow> TermBank \<Rightarrow> ClauseIdGen \<Rightarrow> infer option" where
  "equality_resolve_id c bank gen = equality_resolve_id_until c bank gen []"

section \<open>Soundness\<close>

definition anywhere :: "string \<Rightarrow> 'a interp \<Rightarrow> bool" where
  "anywhere rule I = True"

lemma instance_without:
  assumes "lits_valid I Ls" "\<And>\<rho>. lval I (\<lambda>v. tval I \<rho> (\<theta> v)) (Ls ! j) \<Longrightarrow>
      lits_hold I (\<lambda>v. tval I \<rho> (\<theta> v)) (rest {j} Ls) \<or> lits_hold I \<rho> Ms"
  shows "lits_valid I (Ms @ map (inst_lit \<theta>) (rest {j} Ls))"
  unfolding lits_valid_def
proof
  fix \<rho>
  have "lits_hold I (\<lambda>v. tval I \<rho> (\<theta> v)) Ls" using assms(1) by (simp add: lits_valid_def)
  then show "lits_hold I \<rho> (Ms @ map (inst_lit \<theta>) (rest {j} Ls))"
    using assms(2) [of \<rho>] by (auto simp: lits_hold_inst elim!: lits_hold_rest [where skip = "{j}"])
qed

lemma factor_pair_id_inv:
  assumes ls: "lits_of b0 (idc_literals c) = Some Ls" and ij: "i < j" "j < length (idc_literals c)"
    and inv: "infer_inv (derives (anywhere :: string \<Rightarrow> 'a interp \<Rightarrow> bool) [c] [Ls]) b0 g0 st"
  shows "\<exists>r. factor_pair_id c i j st = Some r \<and>
    infer_inv (derives (anywhere :: string \<Rightarrow> 'a interp \<Rightarrow> bool) [c] [Ls]) b0 g0 (finish r)"
proof -
  let ?P = "derives (anywhere :: string \<Rightarrow> 'a interp \<Rightarrow> bool) [c] [Ls]"
  obtain cs b g clk where st: "st = (cs, b, g, clk)" by (cases st) auto
  note inv = inv [unfolded st]
  have b0: "becomes b0 b" "sane b" using inv by (auto simp: infer_inv_def becomes_sane)
  let ?l1 = "idc_literals c ! i" and ?l2 = "idc_literals c ! j"
  show ?thesis
  proof (cases "expired clk \<or> id_positive ?l1 \<noteq> id_positive ?l2")
    case True
    then show ?thesis using infer_inv_clock [OF inv] by (auto simp: st factor_pair_id_def Let_def)
  next
    case go: False
    have lsb: "lits_of b (idc_literals c) = Some Ls"
      by (rule persistent_mapM [OF persistent_literal becomes_extends [OF b0(1)] ls])
    have at: "positive (Ls ! k) = id_positive (idc_literals c ! k)"
      "atom_to_legacy b (id_atom (idc_literals c ! k)) = Some (atom (Ls ! k))" "k < length Ls"
      if "k < length (idc_literals c)" for k
      using lits_nth [OF lsb, of k "idc_literals c ! k"] that by (auto simp: in_set_enumerate_eq)
    note li = at [OF less_trans [OF ij]] and lj = at [OF ij(2)]
    show ?thesis
    proof (rule atom_to_term_id_becomes [OF b0(2) li(2)])
      fix b1 assume "atom_to_term_id (id_atom ?l1) b = (None, b1)" "becomes b b1"
      then show ?thesis using go infer_inv_bank [OF inv] by (simp add: st factor_pair_id_def)
    next
      fix t1 p ts T1 b1 assume b1: "atom_to_term_id (id_atom ?l1) b = (Some t1, b1)" "becomes b b1"
        "atom (Ls ! i) = Pred p ts" "to_legacy b1 t1 = Some T1" "intact b1 \<longrightarrow> T1 = App p ts"
      have lj1: "atom_to_legacy b1 (id_atom ?l2) = Some (atom (Ls ! j))"
        using persistent_atom becomes_extends [OF b1(2)] lj(2) unfolding persistent_def by blast
      show ?thesis
      proof (rule atom_to_term_id_becomes [OF becomes_sane [OF b1(2)] lj1])
        fix b2 assume "atom_to_term_id (id_atom ?l2) b1 = (None, b2)" "becomes b1 b2"
        then show ?thesis using go b1(1) infer_inv_bank [OF inv becomes_trans [OF b1(2)]]
          by (simp add: st factor_pair_id_def)
      next
        fix t2 q us T2 b2 assume b2: "atom_to_term_id (id_atom ?l2) b1 = (Some t2, b2)" "becomes b1 b2"
          "atom (Ls ! j) = Pred q us" "to_legacy b2 t2 = Some T2" "intact b2 \<longrightarrow> T2 = App q us"
        have bb: "becomes b b2" using becomes_trans [OF b1(2) b2(2)] .
        have T1: "to_legacy b2 t1 = Some T1" using extends_to_legacy [OF becomes_extends [OF b2(2)] b1(4)] .
        show ?thesis
        proof (rule unify_id_stands [OF becomes_sane [OF bb] T1 b2(4)])
          fix e assume "unify_id t1 t2 b2 = Some (Inl e)"
          then show ?thesis using go b1(1) b2(1) infer_inv_bank [OF inv bb] by (simp add: st factor_pair_id_def)
        next
          fix s \<theta> assume u: "unify_id t1 t2 b2 = Some (Inr s)" "stands_for b2 s \<theta>" "inst \<theta> T1 = inst \<theta> T2"
          have sound: "lits_valid I ([] @ map (inst_lit \<theta>) (rest {j} Ls))"
            if "intact b2" "lits_valid I Ls" for I :: "'a interp"
          proof (rule instance_without [OF that(2)])
            fix \<rho>
            have "intact b1" using becomes_intact [OF b2(2) that(1)] .
            then have "p = q" "map (inst \<theta>) ts = map (inst \<theta>) us" using u(3) b1(5) b2(5) that(1) by auto
            then have "inst_lit \<theta> (Ls ! i) = inst_lit \<theta> (Ls ! j)" using go li(1) lj(1) by (simp add: inst_lit_def b1(3) b2(3))
            then have "lval I (\<lambda>v. tval I \<rho> (\<theta> v)) (Ls ! i) = lval I (\<lambda>v. tval I \<rho> (\<theta> v)) (Ls ! j)"
              by (metis lval_inst)
            moreover have "Ls ! i \<in> set (rest {j} Ls)" using ij li(3) by (auto simp: set_rest)
            ultimately show "lval I (\<lambda>v. tval I \<rho> (\<theta> v)) (Ls ! j) \<Longrightarrow>
                lits_hold I (\<lambda>v. tval I \<rho> (\<theta> v)) (rest {j} Ls) \<or> lits_hold I \<rho> []"
              unfolding lits_hold_def by blast
          qed
          show ?thesis
          proof (rule single_pushed [OF inv bb ls u(2) becomes_refl [OF becomes_sane [OF bb]]
                list_all2_Nil [THEN iffD2, OF refl] sound, where rule = "''factoring''" and clk' = "tl clk"
                and c' = "\<lambda>lits. (id_new_avatar (fst (next_id g)) lits (Inference ''factoring'' [idc_id c]) (idc_avatar c))
                  \<lparr>idc_witness := Some (ProofWitness.Factoring (parent_node (idc_proof_id c) (idc_id c)) i j None)\<rparr>"])
            fix lits b4
            assume "apply_rest s {j} (idc_literals c) ([], b2) = Some (lits, b4)"
              "infer_inv ?P b0 g0 (cs @ [(id_new_avatar (fst (next_id g)) lits (Inference ''factoring'' [idc_id c]) (idc_avatar c))
                \<lparr>idc_witness := Some (ProofWitness.Factoring (parent_node (idc_proof_id c) (idc_id c)) i j None)\<rparr>],
                b4, snd (next_id g), tl clk)"
            then show ?thesis using go b1(1) b2(1) u(1)
              by (simp add: st factor_pair_id_def split_def Let_def)
          qed (simp_all add: id_new_avatar_def)
        qed
      qed
    qed
  qed
qed

lemma factor_id_until_returns:
  assumes sane: "sane b" and ls: "lits_of b (idc_literals c) = Some Ls"
  shows "returns (derives (anywhere :: string \<Rightarrow> 'a interp \<Rightarrow> bool) [c] [Ls]) b g (factor_id_until c b g deadline)"
proof -
  let ?Q = "infer_inv (derives (anywhere :: string \<Rightarrow> 'a interp \<Rightarrow> bool) [c] [Ls]) b g"
  let ?row = "\<lambda>i (factors, bank, gen, clk). if expired clk then Some (Inl (factors, bank, gen, tl clk))
            else try_each (factor_pair_id c i) [i + 1 ..< length (idc_literals c)] (factors, bank, gen, tl clk)"
  have row: "\<exists>r. ?row i st = Some r \<and> ?Q (finish r)" if "?Q st" for i st
  proof -
    obtain cs b' g' clk where st: "st = (cs, b', g', clk)" by (cases st) auto
    have "?Q (cs, b', g', tl clk)" using that st infer_inv_clock by blast
    then have "\<exists>r. try_each (factor_pair_id c i) [i + 1 ..< length (idc_literals c)] (cs, b', g', tl clk) = Some r \<and> ?Q (finish r)"
      by (rule try_each_inv [rotated]) (rule factor_pair_id_inv [OF ls], auto)
    then show ?thesis using that infer_inv_clock by (auto simp: st)
  qed
  have "\<exists>r. try_each ?row [0 ..< length (idc_literals c)] ([], b, g, deadline) = Some r \<and> ?Q (finish r)"
    by (rule try_each_inv [OF row infer_inv_start [OF sane]])
  then show ?thesis unfolding factor_id_until_def by (rule returns_finish)
qed

lemma equality_resolve_lit_id_inv:
  assumes ls: "lits_of b0 (idc_literals c) = Some Ls" and i: "(i, lit) \<in> set (enumerate 0 (idc_literals c))"
    and inv: "infer_inv (derives (anywhere :: string \<Rightarrow> 'a interp \<Rightarrow> bool) [c] [Ls]) b0 g0 st"
  shows "\<exists>r. equality_resolve_lit_id c (i, lit) st = Some r \<and>
    infer_inv (derives (anywhere :: string \<Rightarrow> 'a interp \<Rightarrow> bool) [c] [Ls]) b0 g0 (finish r)"
proof -
  let ?P = "derives (anywhere :: string \<Rightarrow> 'a interp \<Rightarrow> bool) [c] [Ls]"
  obtain cs b g clk where st: "st = (cs, b, g, clk)" by (cases st) auto
  note inv = inv [unfolded st]
  have b0: "becomes b0 b" "sane b" using inv by (auto simp: infer_inv_def becomes_sane)
  have li: "i < length Ls" "id_positive lit = positive (Ls ! i)" "atom_to_legacy b (id_atom lit) = Some (atom (Ls ! i))"
    using lits_nth [OF persistent_mapM [OF persistent_literal becomes_extends [OF b0(1)] ls] i] by blast+
  show ?thesis
  proof (cases "expired clk \<or> id_positive lit \<or> (\<exists>p args. id_atom lit = IdPred p args)")
    case True
    then show ?thesis using infer_inv_clock [OF inv] by (auto simp: st equality_resolve_lit_id_def)
  next
    case go: False
    then obtain s t where st': "id_atom lit = IdEq s t" by (cases "id_atom lit") auto
    then obtain S T where ST: "atom (Ls ! i) = Eq S T" "to_legacy b s = Some S" "to_legacy b t = Some T"
      using li(3) by (auto simp: bind_eq_Some_conv dest: sym)
    show ?thesis
    proof (rule unify_id_stands [OF b0(2) ST(2,3)])
      fix e assume "unify_id s t b = Some (Inl e)"
      then show ?thesis using go st' infer_inv_clock [OF inv] by (simp add: st equality_resolve_lit_id_def)
    next
      fix u \<theta> assume u: "unify_id s t b = Some (Inr u)" "stands_for b u \<theta>" "inst \<theta> S = inst \<theta> T"
      have sound: "lits_valid I ([] @ map (inst_lit \<theta>) (rest {i} Ls))" if "lits_valid I Ls" for I :: "'a interp"
      proof (rule instance_without [OF that])
        fix \<rho>
        have "tval I (\<lambda>v. tval I \<rho> (\<theta> v)) S = tval I (\<lambda>v. tval I \<rho> (\<theta> v)) T" using u(3) by (metis tval_inst)
        then show "lval I (\<lambda>v. tval I \<rho> (\<theta> v)) (Ls ! i) \<Longrightarrow> lits_hold I (\<lambda>v. tval I \<rho> (\<theta> v)) (rest {i} Ls) \<or> lits_hold I \<rho> []"
          using go li(2) by (simp add: lval_def ST(1))
      qed
      show ?thesis
      proof (rule single_pushed [OF inv becomes_refl [OF b0(2)] ls u(2) becomes_refl [OF b0(2)]
            list_all2_Nil [THEN iffD2, OF refl] sound, where rule = "''equality_resolution''" and clk' = "tl clk"
            and c' = "\<lambda>lits. (id_new_avatar (fst (next_id g)) lits (Inference ''equality_resolution'' [idc_id c]) (idc_avatar c))
              \<lparr>idc_witness := Some (ProofWitness.EqualityResolution (parent_node (idc_proof_id c) (idc_id c)) i None)\<rparr>"])
        fix lits b4
        assume "apply_rest u {i} (idc_literals c) ([], b) = Some (lits, b4)"
          "infer_inv ?P b0 g0 (cs @ [(id_new_avatar (fst (next_id g)) lits (Inference ''equality_resolution'' [idc_id c]) (idc_avatar c))
            \<lparr>idc_witness := Some (ProofWitness.EqualityResolution (parent_node (idc_proof_id c) (idc_id c)) i None)\<rparr>],
            b4, snd (next_id g), tl clk)"
        then show ?thesis using go st' u(1)
          by (simp add: st equality_resolve_lit_id_def split_def Let_def)
      qed (simp_all add: id_new_avatar_def)
    qed
  qed
qed

lemma equality_resolve_id_until_returns:
  assumes "sane b" "lits_of b (idc_literals c) = Some Ls"
  shows "returns (derives (anywhere :: string \<Rightarrow> 'a interp \<Rightarrow> bool) [c] [Ls]) b g (equality_resolve_id_until c b g deadline)"
proof -
  let ?Q = "infer_inv (derives (anywhere :: string \<Rightarrow> 'a interp \<Rightarrow> bool) [c] [Ls]) b g"
  have "\<exists>r. try_each (equality_resolve_lit_id c) (enumerate 0 (idc_literals c)) ([], b, g, deadline) = Some r \<and> ?Q (finish r)"
  proof (rule try_each_inv)
    show "?Q ([], b, g, deadline)" by (rule infer_inv_start [OF assms(1)])
    show "\<exists>r. equality_resolve_lit_id c il st = Some r \<and> ?Q (finish r)"
      if "il \<in> set (enumerate 0 (idc_literals c))" "?Q st" for il st
      using equality_resolve_lit_id_inv [OF assms(2)] that by (cases il) blast
  qed
  then show ?thesis unfolding equality_resolve_id_until_def by (rule returns_finish)
qed

text \<open>What a rule with one parent guarantees, unfolded.\<close>

lemma returns_single:
  assumes "returns (derives (anywhere :: string \<Rightarrow> 'a interp \<Rightarrow> bool) [c] [Ls]) b g res"
  shows "\<exists>cs b' g' clk'. res = Some (cs, b', g', clk') \<and>
    next_clause g' = next_clause g + of_nat (length cs) \<and> (\<forall>n < length cs. idc_id (cs ! n) = next_clause g + of_nat n) \<and>
    (length (nodes b') \<le> 2 ^ 32 \<longrightarrow> bank_ok b' \<and>
      (\<forall>d \<in> set cs. \<exists>Ds rule. lits_of b' (idc_literals d) = Some Ds \<and> idc_source d = Inference rule [idc_id c] \<and>
         set (idc_avatar d) = set (idc_avatar c) \<and> (\<forall>I :: 'a interp. lits_valid I Ls \<longrightarrow> lits_valid I Ds)))"
proof -
  obtain cs b' g' clk' where r: "res = Some (cs, b', g', clk')" "becomes b b'" "numbered g cs g'"
    "concluded (derives (anywhere :: string \<Rightarrow> 'a interp \<Rightarrow> bool) [c] [Ls]) b' cs"
    using assms by (auto simp: returns_def infer_inv_def)
  have "\<exists>Ds rule. lits_of b' (idc_literals d) = Some Ds \<and> idc_source d = Inference rule [idc_id c] \<and>
      set (idc_avatar d) = set (idc_avatar c) \<and> (\<forall>I :: 'a interp. lits_valid I Ls \<longrightarrow> lits_valid I Ds)"
    if "intact b'" "d \<in> set cs" for d
    using r(4) that unfolding concluded_def derives_def anywhere_def by fastforce
  then show ?thesis using r(1,3) sane_bank_ok [OF becomes_sane [OF r(2)]]
    by (auto simp: numbered_def intact_def)
qed

text \<open>
  C5. Factoring on identifiers always returns, with consecutive fresh identifiers, and each factor
  keeps the AVATAR assertions of its parent and, unless the bank is full, follows from it.
\<close>

theorem factoring_sound:
  assumes "bank_ok b" "lits_of b (idc_literals c) = Some Ls"
  shows "\<exists>cs b' g' clk'. factor_id_until c b g deadline = Some (cs, b', g', clk') \<and>
    next_clause g' = next_clause g + of_nat (length cs) \<and> (\<forall>n < length cs. idc_id (cs ! n) = next_clause g + of_nat n) \<and>
    (length (nodes b') \<le> 2 ^ 32 \<longrightarrow> bank_ok b' \<and>
      (\<forall>d \<in> set cs. \<exists>Ds rule. lits_of b' (idc_literals d) = Some Ds \<and> idc_source d = Inference rule [idc_id c] \<and>
         set (idc_avatar d) = set (idc_avatar c) \<and> (\<forall>I :: 'a interp. lits_valid I Ls \<longrightarrow> lits_valid I Ds)))"
  by (rule returns_single [OF factor_id_until_returns [OF bank_ok_sane [OF assms(1)] assms(2)]])

text \<open>The clause \<open>p(X3, X7) \<or> p(X7, X3) \<or> X3 \<noteq> X7\<close> in the example bank.\<close>

definition example_factor :: IdClause where
  "example_factor = id_new_clause 6 [\<lparr>id_positive = True, id_atom = IdPred 5 [0, 1]\<rparr>,
     \<lparr>id_positive = True, id_atom = IdPred 5 [1, 0]\<rparr>, \<lparr>id_positive = False, id_atom = IdEq 0 1\<rparr>] (Input ''ex'' ''axiom'')"

definition example_factor_lits :: "Literal list" where
  "example_factor_lits = [\<lparr>positive = True, atom = Pred 5 [Var 3, Var 7]\<rparr>,
     \<lparr>positive = True, atom = Pred 5 [Var 7, Var 3]\<rparr>, \<lparr>positive = False, atom = Eq (Var 3) (Var 7)\<rparr>]"

lemma example_factor_lits: "lits_of example_bank (idc_literals example_factor) = Some example_factor_lits"
  by (simp add: example_factor_def example_factor_lits_def id_new_clause_def literal_to_legacy_def example_ids)

theorem factoring_sound_witness:
  "\<exists>cs b' g' clk'. factor_id_until example_factor example_bank new_gen [] = Some (cs, b', g', clk') \<and>
    next_clause g' = next_clause new_gen + of_nat (length cs) \<and> (\<forall>n < length cs. idc_id (cs ! n) = next_clause new_gen + of_nat n) \<and>
    (length (nodes b') \<le> 2 ^ 32 \<longrightarrow> bank_ok b' \<and>
      (\<forall>d \<in> set cs. \<exists>Ds rule. lits_of b' (idc_literals d) = Some Ds \<and> idc_source d = Inference rule [idc_id example_factor] \<and>
         set (idc_avatar d) = set (idc_avatar example_factor) \<and>
         (\<forall>I :: int interp. lits_valid I example_factor_lits \<longrightarrow> lits_valid I Ds)))"
  by (rule factoring_sound [OF example_bank_ok example_factor_lits])

text \<open>
  C6. Equality resolution on identifiers always returns, with consecutive fresh identifiers, and
  each conclusion keeps the AVATAR assertions of its parent and, unless the bank is full, follows
  from it.
\<close>

theorem equality_resolution_sound:
  assumes "bank_ok b" "lits_of b (idc_literals c) = Some Ls"
  shows "\<exists>cs b' g' clk'. equality_resolve_id_until c b g deadline = Some (cs, b', g', clk') \<and>
    next_clause g' = next_clause g + of_nat (length cs) \<and> (\<forall>n < length cs. idc_id (cs ! n) = next_clause g + of_nat n) \<and>
    (length (nodes b') \<le> 2 ^ 32 \<longrightarrow> bank_ok b' \<and>
      (\<forall>d \<in> set cs. \<exists>Ds rule. lits_of b' (idc_literals d) = Some Ds \<and> idc_source d = Inference rule [idc_id c] \<and>
         set (idc_avatar d) = set (idc_avatar c) \<and> (\<forall>I :: 'a interp. lits_valid I Ls \<longrightarrow> lits_valid I Ds)))"
  by (rule returns_single [OF equality_resolve_id_until_returns [OF bank_ok_sane [OF assms(1)] assms(2)]])

theorem equality_resolution_sound_witness:
  "\<exists>cs b' g' clk'. equality_resolve_id_until example_factor example_bank new_gen [False, False, False] = Some (cs, b', g', clk') \<and>
    next_clause g' = next_clause new_gen + of_nat (length cs) \<and> (\<forall>n < length cs. idc_id (cs ! n) = next_clause new_gen + of_nat n) \<and>
    (length (nodes b') \<le> 2 ^ 32 \<longrightarrow> bank_ok b' \<and>
      (\<forall>d \<in> set cs. \<exists>Ds rule. lits_of b' (idc_literals d) = Some Ds \<and> idc_source d = Inference rule [idc_id example_factor] \<and>
         set (idc_avatar d) = set (idc_avatar example_factor) \<and>
         (\<forall>I :: int interp. lits_valid I example_factor_lits \<longrightarrow> lits_valid I Ds)))"
  by (rule equality_resolution_sound [OF example_bank_ok example_factor_lits])

end
