(* ===== verification/EqFactor.thy ===== *)
theory EqFactor
  imports SupSound Factoring
begin

text \<open>
  Equality factoring on identifiers, \<open>crates/mrs-calculus/src/equality.rs\<close>: of two positive
  equations whose left sides unify, in any orientation, the second becomes a disequation.
\<close>

section \<open>The rule\<close>

text \<open>The conclusions with the bank, the generator and the clock; the ordering's budget.\<close>

type_synonym factor_state = "infer \<times> LpoBudget"

definition equality_factor_at :: "IdClause \<Rightarrow> TermOrdering \<Rightarrow> nat \<Rightarrow> nat \<Rightarrow> IdLiteral \<Rightarrow> TermId \<times> TermId \<times> TermId \<times> TermId
    \<Rightarrow> factor_state \<Rightarrow> (factor_state + factor_state) option" where
  "equality_factor_at c ord i j lit1 = (\<lambda>(left1, right1, left2, right2) ((results, bank, gen, clk), lpo). do {
     r \<leftarrow> unify_id left1 left2 bank;
     case r of
       Inl e \<Rightarrow> Some (Inr ((results, bank, gen, clk), lpo))
     | Inr sigma \<Rightarrow> do {
         (l1s, bank) \<leftarrow> id_apply_term sigma left1 bank;
         (r1s, bank) \<leftarrow> id_apply_term sigma right1 bank;
         (comp, lpo) \<leftarrow> compare_id ord bank l1s r1s lpo;
         if lpo_expired lpo then Some (Inl ((results, bank, gen, clk), lpo))
         else if comp = Less \<or> comp = Equal then Some (Inr ((results, bank, gen, clk), lpo))
         else do {
           (lit, bank) \<leftarrow> id_apply_literal sigma lit1 bank;
           (r1, bank) \<leftarrow> id_apply_term sigma right1 bank;
           (r2, bank) \<leftarrow> id_apply_term sigma right2 bank;
           (lits, bank) \<leftarrow> apply_rest sigma {i, j} (idc_literals c) ([lit, \<lparr>id_positive = False, id_atom = IdEq r1 r2\<rparr>], bank);
           let (cid, gen) = next_id gen;
               derived = (id_new_avatar cid lits (Inference ''equality_factoring'' [idc_id c]) (idc_avatar c))
                 \<lparr>idc_witness := Some (ProofWitness.EqualityFactoring (parent_node (idc_proof_id c) (idc_id c)) i j None)\<rparr>
           in Some (Inr ((results @ [derived], bank, gen, clk), lpo)) } } })"

definition equality_factor_second :: "IdClause \<Rightarrow> TermOrdering \<Rightarrow> nat \<Rightarrow> IdLiteral \<Rightarrow> TermId \<Rightarrow> TermId \<Rightarrow> nat \<times> IdLiteral
    \<Rightarrow> factor_state \<Rightarrow> (factor_state + factor_state) option" where
  "equality_factor_second c ord i lit1 s t = (\<lambda>(j, lit2) ((results, bank, gen, clk), lpo).
     if expired clk then Some (Inl ((results, bank, gen, tl clk), lpo))
     else if j \<le> i \<or> \<not> id_positive lit2 then Some (Inr ((results, bank, gen, tl clk), lpo))
     else case id_atom lit2 of
       IdPred p args \<Rightarrow> Some (Inr ((results, bank, gen, tl clk), lpo))
     | IdEq s2 t2 \<Rightarrow> try_each (equality_factor_at c ord i j lit1)
         [(s, t, s2, t2), (s, t, t2, s2), (t, s, s2, t2), (t, s, t2, s2)] ((results, bank, gen, tl clk), lpo))"

definition equality_factor_first :: "IdClause \<Rightarrow> TermOrdering \<Rightarrow> nat \<times> IdLiteral
    \<Rightarrow> factor_state \<Rightarrow> (factor_state + factor_state) option" where
  "equality_factor_first c ord = (\<lambda>(i, lit1) ((results, bank, gen, clk), lpo).
     if expired clk then Some (Inl ((results, bank, gen, tl clk), lpo))
     else if \<not> id_positive lit1 then Some (Inr ((results, bank, gen, tl clk), lpo))
     else case id_atom lit1 of
       IdPred p args \<Rightarrow> Some (Inr ((results, bank, gen, tl clk), lpo))
     | IdEq s t \<Rightarrow> try_each (equality_factor_second c ord i lit1 s t) (enumerate 0 (idc_literals c))
         ((results, bank, gen, tl clk), lpo))"

definition equality_factor_id_until :: "IdClause \<Rightarrow> TermBank \<Rightarrow> TermOrdering \<Rightarrow> ClauseIdGen \<Rightarrow> clock \<Rightarrow> LpoBudget
    \<Rightarrow> factor_state option" where
  "equality_factor_id_until c bank ord gen deadline lpo = do {
     r \<leftarrow> try_each (equality_factor_first c ord) (enumerate 0 (idc_literals c)) (([], bank, gen, deadline), lpo);
     Some (finish r) }"

definition equality_factor_id :: "IdClause \<Rightarrow> TermBank \<Rightarrow> TermOrdering \<Rightarrow> ClauseIdGen \<Rightarrow> LpoBudget \<Rightarrow> factor_state option" where
  "equality_factor_id c bank ord gen lpo = equality_factor_id_until c bank ord gen [] lpo"

section \<open>Soundness\<close>

definition factor_inv :: "'a itself \<Rightarrow> IdClause \<Rightarrow> Literal list \<Rightarrow> TermBank \<Rightarrow> ClauseIdGen \<Rightarrow> factor_state \<Rightarrow> bool" where
  "factor_inv TY c Ls b0 g0 st \<longleftrightarrow> infer_inv (derives (anywhere :: string \<Rightarrow> 'a interp \<Rightarrow> bool) [c] [Ls]) b0 g0 (fst st)"

lemma factor_inv_clock: "factor_inv TY c Ls b0 g0 ((cs, b, g, clk), lpo) \<Longrightarrow> factor_inv TY c Ls b0 g0 ((cs, b, g, clk'), lpo')"
  by (simp add: factor_inv_def infer_inv_clock)

text \<open>An equation of the clause, read in one of its two orientations.\<close>

definition oriented :: "Literal \<Rightarrow> Term \<Rightarrow> Term \<Rightarrow> bool" where
  "oriented L t u \<longleftrightarrow> L = \<lparr>positive = True, atom = Eq t u\<rparr> \<or> L = \<lparr>positive = True, atom = Eq u t\<rparr>"

lemma oriented_value: "oriented L t u \<Longrightarrow> lval I \<rho> L \<longleftrightarrow> tval I \<rho> t = tval I \<rho> u"
  by (auto simp: oriented_def lval_def)

lemma equality_factor_holds:
  assumes "lits_valid I Ls" "oriented (Ls ! i) l1 r1" "oriented (Ls ! j) l2 r2" "inst \<theta> l1 = inst \<theta> l2"
  shows "lits_valid I ([inst_lit \<theta> (Ls ! i), \<lparr>positive = False, atom = Eq (inst \<theta> r1) (inst \<theta> r2)\<rparr>] @ map (inst_lit \<theta>) (rest {i, j} Ls))"
  unfolding lits_valid_def
proof
  fix \<rho>
  let ?\<rho> = "\<lambda>v. tval I \<rho> (\<theta> v)"
  have l: "tval I ?\<rho> l1 = tval I ?\<rho> l2" using assms(4) by (metis tval_inst)
  have "lits_hold I ?\<rho> Ls" using assms(1) by (simp add: lits_valid_def)
  then consider "lval I ?\<rho> (Ls ! i)" | "lval I ?\<rho> (Ls ! j)" | "lits_hold I ?\<rho> (rest {i, j} Ls)"
    by (rule lits_hold_rest [where skip = "{i, j}"]) auto
  then show "lits_hold I \<rho> ([inst_lit \<theta> (Ls ! i), \<lparr>positive = False, atom = Eq (inst \<theta> r1) (inst \<theta> r2)\<rparr>] @ map (inst_lit \<theta>) (rest {i, j} Ls))"
  proof cases
    case 2
    then have "tval I ?\<rho> r1 = tval I ?\<rho> r2 \<Longrightarrow> lval I ?\<rho> (Ls ! i)"
      using l oriented_value [OF assms(2)] oriented_value [OF assms(3)] by metis
    then show ?thesis by (auto simp: lits_hold_def lval_inst lval_def [of _ _ "\<lparr>positive = False, atom = A\<rparr>" for A] tval_inst)
  qed (auto simp: lits_hold_def lval_inst)
qed

lemma equality_factor_at_inv:
  assumes ls: "lits_of b0 (idc_literals c) = Some Ls" and lit1: "literal_to_legacy b0 lit1 = Some (Ls ! i)"
    and ids: "to_legacy b0 left1 = Some l1" "to_legacy b0 right1 = Some r1" "to_legacy b0 left2 = Some l2" "to_legacy b0 right2 = Some r2"
    and eq: "oriented (Ls ! i) l1 r1" "oriented (Ls ! j) l2 r2"
    and inv: "factor_inv TYPE('a) c Ls b0 g0 st"
  shows "\<exists>r. equality_factor_at c ord i j lit1 (left1, right1, left2, right2) st = Some r \<and> factor_inv TYPE('a) c Ls b0 g0 (finish r)"
proof -
  obtain cs b g clk lpo where st: "st = ((cs, b, g, clk), lpo)" by (cases st) auto
  let ?P = "derives (anywhere :: string \<Rightarrow> 'a interp \<Rightarrow> bool) [c] [Ls]"
  have inv: "infer_inv ?P b0 g0 (cs, b, g, clk)" using inv by (simp add: st factor_inv_def)
  then have b: "becomes b0 b" "sane b" by (auto simp: infer_inv_def becomes_sane)
  have keep: "to_legacy b' k = Some x" if "to_legacy b0 k = Some x" "becomes b b'" for k x b'
    using extends_to_legacy [OF becomes_extends [OF becomes_trans [OF b(1) that(2)]] that(1)] .
  note now = keep [OF _ becomes_refl [OF b(2)]]
  have here: "factor_inv TYPE('a) c Ls b0 g0 ((cs, b', g, clk), lpo')" if "becomes b b'" for b' lpo'
    using infer_inv_bank [OF inv that] by (simp add: factor_inv_def)
  show ?thesis
  proof (rule unify_id_stands [OF b(2) now [OF ids(1)] now [OF ids(3)]])
    fix e assume "unify_id left1 left2 b = Some (Inl e)"
    then show ?thesis using here [OF becomes_refl [OF b(2)]] by (simp add: st equality_factor_at_def)
  next
    fix s \<theta> assume u: "unify_id left1 left2 b = Some (Inr s)" "stands_for b s \<theta>" "inst \<theta> l1 = inst \<theta> l2"
    obtain i1 b1 where b1: "id_apply_term s left1 b = Some (i1, b1)" "becomes b b1" "den b1 i1 (inst \<theta> l1)"
      by (rule stands_for_term [OF u(2) becomes_refl [OF b(2)] now [OF ids(1)]])
    obtain i2 b2 where b2: "id_apply_term s right1 b1 = Some (i2, b2)" "becomes b1 b2" "den b2 i2 (inst \<theta> r1)"
      by (rule stands_for_term [OF u(2) b1(2) keep [OF ids(2) b1(2)]])
    have bb2: "becomes b b2" using becomes_trans [OF b1(2) b2(2)] .
    have "is_id b2 i1" "is_id b2 i2" using den_becomes [OF b2(2) b1(3)] b2(3) by (auto simp: means_def is_id_def)
    then obtain cmp lpo' where cmp: "compare_id ord b2 i1 i2 lpo = Some (cmp, lpo')"
      by (rule compare_id_total [OF sane_wf [OF becomes_sane [OF bb2]]])
    show ?thesis
    proof (cases "lpo_expired lpo' \<or> cmp = Less \<or> cmp = Equal")
      case True
      then show ?thesis using u(1) b1(1) b2(1) cmp here [OF bb2]
        by (cases "lpo_expired lpo'") (auto simp: st equality_factor_at_def)
    next
      case False
      have "literal_to_legacy b2 lit1 = Some (Ls ! i)"
        using persistent_literal becomes_extends [OF becomes_trans [OF b(1) bb2]] lit1 unfolding persistent_def by blast
      then obtain l' b3 where b3: "id_apply_literal s lit1 b2 = Some (l', b3)" "becomes b2 b3" "means literal_to_legacy b3 l' (inst_lit \<theta> (Ls ! i))"
        by (rule stands_for_literal [OF u(2) bb2])
      have bb3: "becomes b b3" using becomes_trans [OF bb2 b3(2)] .
      obtain i3 b4 where b4: "id_apply_term s right1 b3 = Some (i3, b4)" "becomes b3 b4" "den b4 i3 (inst \<theta> r1)"
        by (rule stands_for_term [OF u(2) bb3 keep [OF ids(2) bb3]])
      have bb4: "becomes b b4" using becomes_trans [OF bb3 b4(2)] .
      obtain i4 b5 where b5: "id_apply_term s right2 b4 = Some (i4, b5)" "becomes b4 b5" "den b5 i4 (inst \<theta> r2)"
        by (rule stands_for_term [OF u(2) bb4 keep [OF ids(4) bb4]])
      have bb5: "becomes b b5" using becomes_trans [OF bb4 b5(2)] .
      let ?d = "\<lparr>id_positive = False, id_atom = IdEq i3 i4\<rparr>"
      let ?new = "[inst_lit \<theta> (Ls ! i), \<lparr>positive = False, atom = Eq (inst \<theta> r1) (inst \<theta> r2)\<rparr>]"
      have "means literal_to_legacy b5 ?d \<lparr>positive = False, atom = Eq (inst \<theta> r1) (inst \<theta> r2)\<rparr>"
        using means_IdEq [OF den_becomes [OF b5(2) b4(3)] b5(3)] by (simp add: means_literal)
      then have acc: "lits_mean b5 [l', ?d] ?new"
        using means_becomes [OF persistent_literal becomes_trans [OF b4(2) b5(2)] b3(3)] by simp
      let ?c' = "\<lambda>lits. (id_new_avatar (fst (next_id g)) lits (Inference ''equality_factoring'' [idc_id c]) (idc_avatar c))
        \<lparr>idc_witness := Some (ProofWitness.EqualityFactoring (parent_node (idc_proof_id c) (idc_id c)) i j None)\<rparr>"
      obtain lits b6 where "apply_rest s {i, j} (idc_literals c) ([l', ?d], b5) = Some (lits, b6)"
        "infer_inv ?P b0 g0 (cs @ [?c' lits], b6, snd (next_id g), clk)"
      proof (rule single_pushed [OF inv bb5 ls u(2) bb5 acc, where c' = ?c' and skip = "{i, j}" and clk' = clk and rule = "''equality_factoring''"])
        show "lits_valid I (?new @ map (inst_lit \<theta>) (rest {i, j} Ls))" if "lits_valid I Ls" for I :: "'a interp"
          by (rule equality_factor_holds [OF that eq u(3)])
      qed (simp_all add: id_new_avatar_def)
      then show ?thesis using False u(1) b1(1) b2(1) cmp b3(1) b4(1) b5(1)
        by (simp add: st equality_factor_at_def factor_inv_def split_def Let_def)
    qed
  qed
qed

lemma equation_reads:
  assumes "lits_of b (idc_literals c) = Some Ls" "(i, l) \<in> set (enumerate 0 (idc_literals c))" "id_positive l" "id_atom l = IdEq x y"
  obtains t u where "to_legacy b x = Some t" "to_legacy b y = Some u" "Ls ! i = \<lparr>positive = True, atom = Eq t u\<rparr>"
    "literal_to_legacy b l = Some (Ls ! i)"
proof -
  note l = lits_nth [OF assms(1,2)]
  then obtain t u where "to_legacy b x = Some t" "to_legacy b y = Some u" "atom (Ls ! i) = Eq t u"
    using assms(4) by (auto simp: bind_eq_Some_conv)
  then show thesis using that l assms(3) by (cases "Ls ! i") (simp add: literal_to_legacy_iff)
qed

lemma equality_factor_second_inv:
  assumes ls: "lits_of b0 (idc_literals c) = Some Ls" and lit1: "literal_to_legacy b0 lit1 = Some (Ls ! i)"
    and st': "to_legacy b0 x = Some t" "to_legacy b0 y = Some u" "Ls ! i = \<lparr>positive = True, atom = Eq t u\<rparr>"
    and j: "jl \<in> set (enumerate 0 (idc_literals c))" and inv: "factor_inv TYPE('a) c Ls b0 g0 st"
  shows "\<exists>r. equality_factor_second c ord i lit1 x y jl st = Some r \<and> factor_inv TYPE('a) c Ls b0 g0 (finish r)"
proof -
  obtain cs b g clk lpo where st: "st = ((cs, b, g, clk), lpo)" by (cases st) auto
  obtain j l where jl: "jl = (j, l)" by fastforce
  note inv' = factor_inv_clock [OF inv [unfolded st]]
  show ?thesis
  proof (cases "expired clk \<or> j \<le> i \<or> \<not> id_positive l \<or> (\<exists>p args. id_atom l = IdPred p args)")
    case True
    then show ?thesis using inv' by (cases "id_atom l") (auto simp: st jl equality_factor_second_def)
  next
    case False
    then obtain x2 y2 where l: "id_atom l = IdEq x2 y2" by (cases "id_atom l") auto
    obtain t2 u2 where t2: "to_legacy b0 x2 = Some t2" "to_legacy b0 y2 = Some u2" "Ls ! j = \<lparr>positive = True, atom = Eq t2 u2\<rparr>"
      by (rule equation_reads [OF ls j [unfolded jl] _ l]) (use False in simp)
    let ?four = "[(x, y, x2, y2), (x, y, y2, x2), (y, x, x2, y2), (y, x, y2, x2)]"
    have "\<exists>r. try_each (equality_factor_at c ord i j lit1) ?four ((cs, b, g, tl clk), lpo) = Some r \<and> factor_inv TYPE('a) c Ls b0 g0 (finish r)"
    proof (rule try_each_inv [where Q = "factor_inv TYPE('a) c Ls b0 g0"])
      show "factor_inv TYPE('a) c Ls b0 g0 ((cs, b, g, tl clk), lpo)" by (rule inv')
      fix q s assume q: "q \<in> set ?four" and s: "factor_inv TYPE('a) c Ls b0 g0 s"
      obtain left1 right1 left2 right2 where q': "q = (left1, right1, left2, right2)" by (cases q) auto
      have "\<exists>l1 r1. to_legacy b0 left1 = Some l1 \<and> to_legacy b0 right1 = Some r1 \<and> oriented (Ls ! i) l1 r1"
        "\<exists>l2 r2. to_legacy b0 left2 = Some l2 \<and> to_legacy b0 right2 = Some r2 \<and> oriented (Ls ! j) l2 r2"
        using q st' t2 by (auto simp: q' oriented_def)
      then show "\<exists>r. equality_factor_at c ord i j lit1 q s = Some r \<and> factor_inv TYPE('a) c Ls b0 g0 (finish r)"
        using equality_factor_at_inv [OF ls lit1 _ _ _ _ _ _ s] unfolding q' by blast
    qed
    then show ?thesis using False l by (simp add: st jl equality_factor_second_def)
  qed
qed

lemma equality_factor_first_inv:
  assumes ls: "lits_of b0 (idc_literals c) = Some Ls"
    and i: "il \<in> set (enumerate 0 (idc_literals c))" and inv: "factor_inv TYPE('a) c Ls b0 g0 st"
  shows "\<exists>r. equality_factor_first c ord il st = Some r \<and> factor_inv TYPE('a) c Ls b0 g0 (finish r)"
proof -
  obtain cs b g clk lpo where st: "st = ((cs, b, g, clk), lpo)" by (cases st) auto
  obtain i l where il: "il = (i, l)" by fastforce
  note inv' = factor_inv_clock [OF inv [unfolded st]]
  show ?thesis
  proof (cases "expired clk \<or> \<not> id_positive l \<or> (\<exists>p args. id_atom l = IdPred p args)")
    case True
    then show ?thesis using inv' by (cases "id_atom l") (auto simp: st il equality_factor_first_def)
  next
    case False
    then obtain x y where l: "id_atom l = IdEq x y" by (cases "id_atom l") auto
    obtain t u where t: "to_legacy b0 x = Some t" "to_legacy b0 y = Some u" "Ls ! i = \<lparr>positive = True, atom = Eq t u\<rparr>"
      "literal_to_legacy b0 l = Some (Ls ! i)"
      by (rule equation_reads [OF ls i [unfolded il] _ l]) (use False in simp)
    have "\<exists>r. try_each (equality_factor_second c ord i l x y) (enumerate 0 (idc_literals c)) ((cs, b, g, tl clk), lpo) = Some r \<and>
        factor_inv TYPE('a) c Ls b0 g0 (finish r)"
      by (rule try_each_inv [OF equality_factor_second_inv [OF ls t(4,1,2,3)] inv'])
    then show ?thesis using False l by (simp add: st il equality_factor_first_def)
  qed
qed

section \<open>Properties\<close>

text \<open>
  C7. Equality factoring on identifiers always returns, whatever the ordering, the deadline and the budget of
  the ordering, with consecutive fresh identifiers. Each conclusion keeps the AVATAR assertions of its parent
  and, unless the bank is full, follows from it.
\<close>

theorem equality_factoring_sound:
  assumes "bank_ok b" "lits_of b (idc_literals c) = Some Ls"
  shows "\<exists>cs b' g' clk' lpo'. equality_factor_id_until c b ord g deadline lpo = Some ((cs, b', g', clk'), lpo') \<and>
    next_clause g' = next_clause g + of_nat (length cs) \<and> (\<forall>n < length cs. idc_id (cs ! n) = next_clause g + of_nat n) \<and>
    (length (nodes b') \<le> 2 ^ 32 \<longrightarrow> bank_ok b' \<and>
      (\<forall>d \<in> set cs. \<exists>Ds rule. lits_of b' (idc_literals d) = Some Ds \<and> idc_source d = Inference rule [idc_id c] \<and>
         set (idc_avatar d) = set (idc_avatar c) \<and> (\<forall>I :: 'a interp. lits_valid I Ls \<longrightarrow> lits_valid I Ds)))"
proof -
  have start: "factor_inv TYPE('a) c Ls b g (([], b, g, deadline), lpo)"
    unfolding factor_inv_def fst_conv by (rule infer_inv_start [OF bank_ok_sane [OF assms(1)]])
  have "\<exists>r. try_each (equality_factor_first c ord) (enumerate 0 (idc_literals c)) (([], b, g, deadline), lpo) = Some r \<and>
      factor_inv TYPE('a) c Ls b g (finish r)"
    by (rule try_each_inv [OF equality_factor_first_inv [OF assms(2)] start])
  then obtain st lpo' where st: "equality_factor_id_until c b ord g deadline lpo = Some (st, lpo')" "factor_inv TYPE('a) c Ls b g (st, lpo')"
    unfolding equality_factor_id_until_def by (metis bind.bind_lunit surj_pair)
  then have "returns (derives (anywhere :: string \<Rightarrow> 'a interp \<Rightarrow> bool) [c] [Ls]) b g (Some st)"
    by (simp add: returns_def factor_inv_def)
  from returns_single [OF this] show ?thesis using st(1) by auto
qed

text \<open>The clause \<open>f(X3, g(X7)) = X7 \<or> f(X3, g(X7)) = X3\<close>.\<close>

definition example_equations :: IdClause where
  "example_equations = id_new_clause 8 [\<lparr>id_positive = True, id_atom = IdEq 3 1\<rparr>, \<lparr>id_positive = True, id_atom = IdEq 3 0\<rparr>]
     (Input ''eqs'' ''axiom'')"

definition example_equations_lits :: "Literal list" where
  "example_equations_lits = [\<lparr>positive = True, atom = Eq example_term (Var 7)\<rparr>, \<lparr>positive = True, atom = Eq example_term (Var 3)\<rparr>]"

lemma example_equations_lits: "lits_of example_bank (idc_literals example_equations) = Some example_equations_lits"
  by (simp add: example_equations_def example_equations_lits_def id_new_clause_def literal_to_legacy_def example_ids)

theorem equality_factoring_sound_witness:
  "\<exists>cs b' g' clk' lpo'. equality_factor_id_until example_equations example_bank LPO new_gen [False, False, False] unarmed = Some ((cs, b', g', clk'), lpo') \<and>
    next_clause g' = next_clause new_gen + of_nat (length cs) \<and> (\<forall>n < length cs. idc_id (cs ! n) = next_clause new_gen + of_nat n) \<and>
    (length (nodes b') \<le> 2 ^ 32 \<longrightarrow> bank_ok b' \<and>
      (\<forall>d \<in> set cs. \<exists>Ds rule. lits_of b' (idc_literals d) = Some Ds \<and> idc_source d = Inference rule [idc_id example_equations] \<and>
         set (idc_avatar d) = set (idc_avatar example_equations) \<and>
         (\<forall>I :: int interp. lits_valid I example_equations_lits \<longrightarrow> lits_valid I Ds)))"
  by (rule equality_factoring_sound [OF example_bank_ok example_equations_lits])

end
