(* ===== verification/Nnf.thy ===== *)
theory Nnf
  imports Loops Semantics
begin

text \<open>
  Negation normal form, \<open>crates/mrs-cnf/src/nnf.rs\<close>: the memoised conversion and the bounded
  one, both measured against the plain recursion \<open>plain_nnf\<close>.
\<close>

section \<open>The code\<close>

type_synonym nnf_cache = "(Formula \<times> bool, Formula) fmap"

function nnf :: "Formula \<Rightarrow> bool \<Rightarrow> nnf_cache \<Rightarrow> Formula \<times> nnf_cache" where
  "nnf f negated cache =
     (case fmlookup cache (f, negated) of
        Some res \<Rightarrow> (res, cache)
      | None \<Rightarrow>
          let (res, cache) =
            (case f of
               Atom a \<Rightarrow> (if negated then Neg (Atom a) else Atom a, cache)
             | FTrue \<Rightarrow> (if negated then FFalse else FTrue, cache)
             | FFalse \<Rightarrow> (if negated then FTrue else FFalse, cache)
             | Neg inner \<Rightarrow> nnf inner (\<not> negated) cache
             | And cs \<Rightarrow>
                 if negated then (let (ds, cache) = map_st (\<lambda>c. nnf c True) cs cache in (mk_or ds, cache))
                 else (let (ds, cache) = map_st (\<lambda>c. nnf c False) cs cache in (mk_and ds, cache))
             | Or cs \<Rightarrow>
                 if negated then (let (ds, cache) = map_st (\<lambda>c. nnf c True) cs cache in (mk_and ds, cache))
                 else (let (ds, cache) = map_st (\<lambda>c. nnf c False) cs cache in (mk_or ds, cache))
             | Implies a b \<Rightarrow>
                 if negated then
                   (let (a', cache) = nnf a False cache; (b', cache) = nnf b True cache
                    in (mk_and [a', b'], cache))
                 else
                   (let (a', cache) = nnf a True cache; (b', cache) = nnf b False cache
                    in (mk_or [a', b'], cache))
             | Iff a b \<Rightarrow>
                 if negated then
                   (let (a1, cache) = nnf a False cache; (b1, cache) = nnf b False cache;
                        (a2, cache) = nnf a True cache; (b2, cache) = nnf b True cache
                    in (mk_and [mk_or [a1, b1], mk_or [a2, b2]], cache))
                 else
                   (let (a1, cache) = nnf a True cache; (b1, cache) = nnf b False cache;
                        (a2, cache) = nnf a False cache; (b2, cache) = nnf b True cache
                    in (mk_and [mk_or [a1, b1], mk_or [a2, b2]], cache))
             | Forall v body \<Rightarrow>
                 if negated then (let (g, cache) = nnf body True cache in (Exists v g, cache))
                 else (let (g, cache) = nnf body False cache in (Forall v g, cache))
             | Exists v body \<Rightarrow>
                 if negated then (let (g, cache) = nnf body True cache in (Forall v g, cache))
                 else (let (g, cache) = nnf body False cache in (Exists v g, cache)))
          in (res, fmupd (f, negated) res cache))"
  by pat_completeness auto
termination
  by (relation "measure (\<lambda>(f, n, c). size f)") (auto simp: less_Suc_eq_le size_list_estimation')

definition to_nnf :: "Formula \<Rightarrow> Formula" where
  "to_nnf f = fst (nnf f False fmempty)"

text \<open>
  \<open>to_nnf_bounded\<close>: the inner function \<open>visit\<close> threads the count of charged nodes, and \<open>make\<close>
  charges a generated node. A \<open>usize\<close> counter that stays below the budget never overflows, so
  \<open>checked_add\<close> fails only where the comparison with the budget does.
\<close>

definition charge :: "nat \<Rightarrow> nat \<Rightarrow> nat option" where
  "charge max_nodes nodes = (if nodes + 1 \<le> max_nodes then Some (nodes + 1) else None)"

definition make :: "nat \<Rightarrow> Formula \<Rightarrow> nat \<Rightarrow> (Formula \<times> nat) option" where
  "make max_nodes node nodes = do { nodes \<leftarrow> charge max_nodes nodes; Some (node, nodes) }"

function visit :: "nat \<Rightarrow> nat \<Rightarrow> Formula \<Rightarrow> bool \<Rightarrow> nat \<Rightarrow> nat \<Rightarrow> (Formula \<times> nat) option" where
  "visit max_nodes max_depth f negated d nodes =
     (if d > max_depth then None
      else do {
        nodes \<leftarrow> charge max_nodes nodes;
        case f of
          Atom a \<Rightarrow> if negated then make max_nodes (Neg (Atom a)) nodes else Some (Atom a, nodes)
        | FTrue \<Rightarrow> Some (if negated then FFalse else FTrue, nodes)
        | FFalse \<Rightarrow> Some (if negated then FTrue else FFalse, nodes)
        | Neg inner \<Rightarrow> visit max_nodes max_depth inner (\<not> negated) (d + 1) nodes
        | And parts \<Rightarrow> do {
            (converted, nodes) \<leftarrow>
              mapM_st (\<lambda>part nodes. visit max_nodes max_depth part negated (d + 1) nodes) parts nodes;
            make max_nodes (if \<not> negated then mk_and converted else mk_or converted) nodes }
        | Or parts \<Rightarrow> do {
            (converted, nodes) \<leftarrow>
              mapM_st (\<lambda>part nodes. visit max_nodes max_depth part negated (d + 1) nodes) parts nodes;
            make max_nodes (if negated then mk_and converted else mk_or converted) nodes }
        | Implies l r \<Rightarrow>
            if negated then do {
              (l', nodes) \<leftarrow> visit max_nodes max_depth l False (d + 1) nodes;
              (r', nodes) \<leftarrow> visit max_nodes max_depth r True (d + 1) nodes;
              make max_nodes (mk_and [l', r']) nodes }
            else do {
              (l', nodes) \<leftarrow> visit max_nodes max_depth l True (d + 1) nodes;
              (r', nodes) \<leftarrow> visit max_nodes max_depth r False (d + 1) nodes;
              make max_nodes (mk_or [l', r']) nodes }
        | Iff l r \<Rightarrow> do {
            (l1, nodes) \<leftarrow> visit max_nodes max_depth l (\<not> negated) (d + 1) nodes;
            (r1, nodes) \<leftarrow> visit max_nodes max_depth r False (d + 1) nodes;
            (first, nodes) \<leftarrow> make max_nodes (mk_or [l1, r1]) nodes;
            (l2, nodes) \<leftarrow> visit max_nodes max_depth l negated (d + 1) nodes;
            (r2, nodes) \<leftarrow> visit max_nodes max_depth r True (d + 1) nodes;
            (second, nodes) \<leftarrow> make max_nodes (mk_or [l2, r2]) nodes;
            make max_nodes (mk_and [first, second]) nodes }
        | Forall v body \<Rightarrow> do {
            (body, nodes) \<leftarrow> visit max_nodes max_depth body negated (d + 1) nodes;
            make max_nodes (if \<not> negated then Forall v body else Exists v body) nodes }
        | Exists v body \<Rightarrow> do {
            (body, nodes) \<leftarrow> visit max_nodes max_depth body negated (d + 1) nodes;
            make max_nodes (if negated then Forall v body else Exists v body) nodes } })"
  by pat_completeness auto
termination
  by (relation "measure (\<lambda>(mn, md, f, n, d, k). size f)") (auto simp: less_Suc_eq_le size_list_estimation')

definition to_nnf_bounded :: "Formula \<Rightarrow> nat \<Rightarrow> nat \<Rightarrow> Formula option" where
  "to_nnf_bounded f max_nodes max_depth = map_option fst (visit max_nodes max_depth f False 0 0)"

declare nnf.simps [simp del] visit.simps [simp del]

section \<open>The plain recursion\<close>

fun plain_nnf :: "Formula \<Rightarrow> bool \<Rightarrow> Formula" where
  "plain_nnf (Atom a) n = (if n then Neg (Atom a) else Atom a)"
| "plain_nnf FTrue n = (if n then FFalse else FTrue)"
| "plain_nnf FFalse n = (if n then FTrue else FFalse)"
| "plain_nnf (Neg f) n = plain_nnf f (\<not> n)"
| "plain_nnf (And fs) n = (if n then mk_or else mk_and) (map (\<lambda>f. plain_nnf f n) fs)"
| "plain_nnf (Or fs) n = (if n then mk_and else mk_or) (map (\<lambda>f. plain_nnf f n) fs)"
| "plain_nnf (Implies a b) n = (if n then mk_and else mk_or) [plain_nnf a (\<not> n), plain_nnf b n]"
| "plain_nnf (Iff a b) n =
     mk_and [mk_or [plain_nnf a (\<not> n), plain_nnf b False], mk_or [plain_nnf a n, plain_nnf b True]]"
| "plain_nnf (Forall v f) n = (if n then Exists v (plain_nnf f n) else Forall v (plain_nnf f n))"
| "plain_nnf (Exists v f) n = (if n then Forall v (plain_nnf f n) else Exists v (plain_nnf f n))"

text \<open>Negations on atoms only, no implications and no equivalences.\<close>

fun is_nnf :: "Formula \<Rightarrow> bool" where
  "is_nnf (Neg f) = (case f of Atom a \<Rightarrow> True | _ \<Rightarrow> False)"
| "is_nnf (And fs) = list_all is_nnf fs"
| "is_nnf (Or fs) = list_all is_nnf fs"
| "is_nnf (Implies a b) = False"
| "is_nnf (Iff a b) = False"
| "is_nnf (Forall v f) = is_nnf f"
| "is_nnf (Exists v f) = is_nnf f"
| "is_nnf _ = True"

lemma is_nnf_mk [simp]:
  "is_nnf (mk_and fs) = list_all is_nnf fs" "is_nnf (mk_or fs) = list_all is_nnf fs"
  by (cases fs; auto simp: mk_and_def mk_or_def)+

lemma plain_nnf_is_nnf: "is_nnf (plain_nnf f n)"
  by (induction f n rule: plain_nnf.induct) (auto simp: list_all_iff)

lemma plain_nnf_fval: "fval I \<rho> (plain_nnf f n) = (fval I \<rho> f \<noteq> n)"
  by (induction f n arbitrary: \<rho> rule: plain_nnf.induct) auto

lemma plain_nnf_fvars: "fvars (plain_nnf f n) = fvars f"
  by (induction f n rule: plain_nnf.induct) auto

section \<open>The cache is transparent\<close>

definition cache_ok :: "nnf_cache \<Rightarrow> bool" where
  "cache_ok cache \<longleftrightarrow> (\<forall>f n g. fmlookup cache (f, n) = Some g \<longrightarrow> g = plain_nnf f n)"

lemma map_st_plain:
  assumes "\<And>x s. x \<in> set xs \<Longrightarrow> P s \<Longrightarrow> fst (f x s) = g x \<and> P (snd (f x s))" "P s"
  shows "fst (map_st f xs s) = map g xs \<and> P (snd (map_st f xs s))"
  using assms by (induction xs arbitrary: s) (auto simp: split_def Let_def)

lemma cache_ok_lookup: "cache_ok cache \<Longrightarrow> fmlookup cache (f, n) = Some g \<Longrightarrow> g = plain_nnf f n"
  by (simp add: cache_ok_def)

lemma cache_ok_upd: "cache_ok cache \<Longrightarrow> cache_ok (fmupd (f, n) (plain_nnf f n) cache)"
  by (simp add: cache_ok_def)

lemma nnf_plain: "cache_ok cache \<Longrightarrow> fst (nnf f n cache) = plain_nnf f n \<and> cache_ok (snd (nnf f n cache))"
proof (induction f arbitrary: n cache)
  case (And fs)
  have parts: "fst (map_st (\<lambda>f. nnf f m) fs cache) = map (\<lambda>f. plain_nnf f m) fs \<and>
      cache_ok (snd (map_st (\<lambda>f. nnf f m) fs cache))" for m
    by (rule map_st_plain) (use And in auto)
  show ?case
    using And.prems parts cache_ok_lookup [OF And.prems, of "And fs" n] cache_ok_upd [of _ "And fs" n]
    by (cases "fmlookup cache (And fs, n)"; cases n) (simp_all add: nnf.simps [of "And fs"] split_def Let_def)
next
  case (Or fs)
  have parts: "fst (map_st (\<lambda>f. nnf f m) fs cache) = map (\<lambda>f. plain_nnf f m) fs \<and>
      cache_ok (snd (map_st (\<lambda>f. nnf f m) fs cache))" for m
    by (rule map_st_plain) (use Or in auto)
  show ?case
    using Or.prems parts cache_ok_lookup [OF Or.prems, of "Or fs" n] cache_ok_upd [of _ "Or fs" n]
    by (cases "fmlookup cache (Or fs, n)"; cases n) (simp_all add: nnf.simps [of "Or fs"] split_def Let_def)
next
  case (Atom a)
  then show ?case using cache_ok_lookup [of cache "Atom a" n] cache_ok_upd [of _ "Atom a" n]
    by (cases "fmlookup cache (Atom a, n)") (simp_all add: nnf.simps [of "Atom a"])
next
  case (Neg f)
  then show ?case using cache_ok_lookup [of cache "Neg f" n] cache_ok_upd [of _ "Neg f" n]
    by (cases "fmlookup cache (Neg f, n)") (simp_all add: nnf.simps [of "Neg f"] split_def Let_def)
next
  case (Implies a b)
  then show ?case using cache_ok_lookup [of cache "Implies a b" n] cache_ok_upd [of _ "Implies a b" n]
    by (cases "fmlookup cache (Implies a b, n)"; cases n)
      (simp_all add: nnf.simps [of "Implies a b"] split_def Let_def)
next
  case (Iff a b)
  then show ?case using cache_ok_lookup [of cache "Iff a b" n] cache_ok_upd [of _ "Iff a b" n]
    by (cases "fmlookup cache (Iff a b, n)"; cases n)
      (simp_all add: nnf.simps [of "Iff a b"] split_def Let_def)
next
  case (Forall v f)
  then show ?case using cache_ok_lookup [of cache "Forall v f" n] cache_ok_upd [of _ "Forall v f" n]
    by (cases "fmlookup cache (Forall v f, n)"; cases n)
      (simp_all add: nnf.simps [of "Forall v f"] split_def Let_def)
next
  case (Exists v f)
  then show ?case using cache_ok_lookup [of cache "Exists v f" n] cache_ok_upd [of _ "Exists v f" n]
    by (cases "fmlookup cache (Exists v f, n)"; cases n)
      (simp_all add: nnf.simps [of "Exists v f"] split_def Let_def)
next
  case FTrue
  then show ?case using cache_ok_lookup [of cache FTrue n] cache_ok_upd [of _ FTrue n]
    by (cases "fmlookup cache (FTrue, n)") (simp_all add: nnf.simps [of FTrue])
next
  case FFalse
  then show ?case using cache_ok_lookup [of cache FFalse n] cache_ok_upd [of _ FFalse n]
    by (cases "fmlookup cache (FFalse, n)") (simp_all add: nnf.simps [of FFalse])
qed

lemma to_nnf_plain: "to_nnf f = plain_nnf f False"
  using nnf_plain [of fmempty f False] by (simp add: to_nnf_def cache_ok_def)

section \<open>The budget\<close>

text \<open>Number of connectives, quantifiers, atoms and constants of a formula.\<close>

fun fnodes :: "Formula \<Rightarrow> nat" where
  "fnodes (Neg f) = Suc (fnodes f)"
| "fnodes (And fs) = Suc (sum_list (map fnodes fs))"
| "fnodes (Or fs) = Suc (sum_list (map fnodes fs))"
| "fnodes (Implies a b) = Suc (fnodes a + fnodes b)"
| "fnodes (Iff a b) = Suc (fnodes a + fnodes b)"
| "fnodes (Forall v f) = Suc (fnodes f)"
| "fnodes (Exists v f) = Suc (fnodes f)"
| "fnodes _ = 1"

lemma fnodes_mk:
  "fnodes (mk_and fs) \<le> Suc (sum_list (map fnodes fs))" "fnodes (mk_or fs) \<le> Suc (sum_list (map fnodes fs))"
  by (cases fs; simp add: mk_and_def mk_or_def)+

lemma make_Some: "make mn g k = Some (g', k') \<longleftrightarrow> g' = g \<and> k' = Suc k \<and> k' \<le> mn"
  by (auto simp: make_def charge_def)

lemma charge_Some: "charge mn k = Some k' \<longleftrightarrow> k' = Suc k \<and> k' \<le> mn"
  by (auto simp: charge_def)

text \<open>A successful call computes the plain result and charges at least its nodes.\<close>

definition charged :: "nat \<Rightarrow> Formula \<Rightarrow> nat \<Rightarrow> Formula \<Rightarrow> nat \<Rightarrow> bool" where
  "charged mn f k g k' \<longleftrightarrow> g = f \<and> k + fnodes g \<le> k' \<and> k' \<le> mn"

lemma charged_mapM_st:
  assumes "\<And>x k g k'. x \<in> set xs \<Longrightarrow> f x k = Some (g, k') \<Longrightarrow> charged mn (h x) k g k'" "k \<le> mn"
  shows "mapM_st f xs k = Some (gs, k') \<Longrightarrow>
    gs = map h xs \<and> k + sum_list (map fnodes gs) \<le> k' \<and> k' \<le> mn"
  using assms
proof (induction xs arbitrary: gs k)
  case (Cons x xs)
  obtain y k1 ys where 1: "f x k = Some (y, k1)" "mapM_st f xs k1 = Some (ys, k')" "gs = y # ys"
    using Cons.prems(1) by (auto simp: bind_eq_Some_conv)
  have w: "y = h x" "k + fnodes y \<le> k1" "k1 \<le> mn"
    using Cons.prems(2) [OF _ 1(1)] by (auto simp: charged_def)
  have "ys = map h xs \<and> k1 + sum_list (map fnodes ys) \<le> k' \<and> k' \<le> mn"
    by (rule Cons.IH [OF 1(2)]) (use Cons.prems(2) w(3) in auto)
  then show ?case unfolding 1(3) using w by auto
qed simp

lemma charged_make:
  "make mn f k = Some (g, k') \<Longrightarrow> fnodes f \<le> Suc m \<Longrightarrow> k0 + m \<le> k \<Longrightarrow> charged mn f k0 g k'"
  by (auto simp: make_Some charged_def)

lemma charged_make_list:
  assumes "make mn (if c then mk_and gs else mk_or gs) k = Some (g, k')" "k0 + sum_list (map fnodes gs) \<le> k"
  shows "charged mn (if c then mk_and gs else mk_or gs) k0 g k'"
  using assms fnodes_mk [of gs] by (auto simp: make_Some charged_def)

lemma charged_weaken: "charged mn f (Suc k) g k' \<Longrightarrow> charged mn f k g k'"
  by (auto simp: charged_def)

lemma visit_charged: "visit mn md f n d k = Some (g, k') \<Longrightarrow> charged mn (plain_nnf f n) k g k'"
proof (induction f arbitrary: n d k g k')
  case (And fs)
  obtain gs k1 where 1: "mapM_st (\<lambda>part. visit mn md part n (Suc d)) fs (Suc k) = Some (gs, k1)"
    "make mn (if \<not> n then mk_and gs else mk_or gs) k1 = Some (g, k')" "Suc k \<le> mn"
    using And.prems
    by (cases n) (auto simp: visit.simps [of mn md "And fs"] bind_eq_Some_conv charge_Some split: if_splits)
  have "gs = map (\<lambda>f. plain_nnf f n) fs \<and> Suc k + sum_list (map fnodes gs) \<le> k1 \<and> k1 \<le> mn"
    by (rule charged_mapM_st [OF _ 1(3,1)]) (rule And.IH)
  then show ?case using charged_make_list [OF 1(2), of k] by (cases n) auto
next
  case (Or fs)
  obtain gs k1 where 1: "mapM_st (\<lambda>part. visit mn md part n (Suc d)) fs (Suc k) = Some (gs, k1)"
    "make mn (if n then mk_and gs else mk_or gs) k1 = Some (g, k')" "Suc k \<le> mn"
    using Or.prems
    by (cases n) (auto simp: visit.simps [of mn md "Or fs"] bind_eq_Some_conv charge_Some split: if_splits)
  have "gs = map (\<lambda>f. plain_nnf f n) fs \<and> Suc k + sum_list (map fnodes gs) \<le> k1 \<and> k1 \<le> mn"
    by (rule charged_mapM_st [OF _ 1(3,1)]) (rule Or.IH)
  then show ?case using charged_make_list [OF 1(2), of k] by (cases n) auto
next
  case (Implies a b)
  obtain a' k1 b' k2 where 1: "visit mn md a (\<not> n) (Suc d) (Suc k) = Some (a', k1)"
    "visit mn md b n (Suc d) k1 = Some (b', k2)"
    "make mn (if n then mk_and [a', b'] else mk_or [a', b']) k2 = Some (g, k')"
    using Implies.prems
    by (cases n) (auto simp: visit.simps [of mn md "Implies a b"] bind_eq_Some_conv charge_Some split: if_splits)
  show ?case
    using Implies.IH(1) [OF 1(1)] Implies.IH(2) [OF 1(2)] charged_make_list [OF 1(3), of k]
    by (cases n) (auto simp: charged_def)
next
  case (Iff a b)
  obtain a1 k1 b1 k2 k3 a2 k4 b2 k5 k6 where 1:
    "visit mn md a (\<not> n) (Suc d) (Suc k) = Some (a1, k1)" "visit mn md b False (Suc d) k1 = Some (b1, k2)"
    "make mn (mk_or [a1, b1]) k2 = Some (mk_or [a1, b1], k3)"
    "visit mn md a n (Suc d) k3 = Some (a2, k4)" "visit mn md b True (Suc d) k4 = Some (b2, k5)"
    "make mn (mk_or [a2, b2]) k5 = Some (mk_or [a2, b2], k6)"
    "make mn (mk_and [mk_or [a1, b1], mk_or [a2, b2]]) k6 = Some (g, k')"
    using Iff.prems
    by (auto simp: visit.simps [of mn md "Iff a b"] bind_eq_Some_conv charge_Some make_Some split: if_splits)
  show ?case
    using Iff.IH(1) [OF 1(1)] Iff.IH(2) [OF 1(2)] Iff.IH(1) [OF 1(4)] Iff.IH(2) [OF 1(5)] 1(3,6,7)
    by (auto simp: charged_def make_Some mk_and_def mk_or_def)
next
  case (Forall v f)
  obtain h k1 where 1: "visit mn md f n (Suc d) (Suc k) = Some (h, k1)"
    "make mn (if n then Exists v h else Forall v h) k1 = Some (g, k')"
    using Forall.prems
    by (cases n) (auto simp: visit.simps [of mn md "Forall v f"] bind_eq_Some_conv charge_Some split: if_splits)
  show ?case using Forall.IH [OF 1(1)] 1(2) by (cases n) (auto simp: charged_def make_Some)
next
  case (Exists v f)
  obtain h k1 where 1: "visit mn md f n (Suc d) (Suc k) = Some (h, k1)"
    "make mn (if n then Forall v h else Exists v h) k1 = Some (g, k')"
    using Exists.prems
    by (cases n) (auto simp: visit.simps [of mn md "Exists v f"] bind_eq_Some_conv charge_Some split: if_splits)
  show ?case using Exists.IH [OF 1(1)] 1(2) by (cases n) (auto simp: charged_def make_Some)
next
  case (Neg f)
  have "visit mn md f (\<not> n) (Suc d) (Suc k) = Some (g, k')"
    using Neg.prems
    by (auto simp: visit.simps [of mn md "Neg f"] bind_eq_Some_conv charge_Some split: if_splits)
  then show ?case using Neg.IH by (auto intro: charged_weaken)
qed (auto simp: visit.simps [of mn md "Atom _"] visit.simps [of mn md FTrue] visit.simps [of mn md FFalse]
    bind_eq_Some_conv charge_Some make_Some charged_def split: if_splits)

section \<open>Properties\<close>

text \<open>
  C28. \<open>to_nnf\<close> returns a formula in negation normal form with the same free variables and the
  same value in every structure, and its cache never changes the answer: the result is that of
  the recursion without a cache.
\<close>

theorem to_nnf_correct:
  "is_nnf (to_nnf f) \<and> fvars (to_nnf f) = fvars f \<and> fval I \<rho> (to_nnf f) = fval I \<rho> f \<and>
    to_nnf f = plain_nnf f False"
  by (simp add: to_nnf_plain plain_nnf_is_nnf plain_nnf_fvars plain_nnf_fval)

text \<open>
  \<open>to_nnf_bounded\<close> agrees with \<open>to_nnf\<close> whenever it answers, and its answer has at most
  \<open>max_nodes\<close> nodes: the exponential growth of nested equivalences is cut off.
\<close>

theorem to_nnf_bounded_refines:
  assumes "to_nnf_bounded f max_nodes max_depth = Some g"
  shows "g = to_nnf f \<and> fnodes g \<le> max_nodes"
  using assms visit_charged [of max_nodes max_depth f False 0 0]
  by (auto simp: to_nnf_bounded_def to_nnf_plain charged_def)

theorem to_nnf_bounded_refines_witness:
  "And [Or [Neg (Atom (Pred 1 [])), FTrue], Or [Atom (Pred 1 []), FFalse]] = to_nnf (Iff (Atom (Pred 1 [])) FTrue) \<and>
    fnodes (And [Or [Neg (Atom (Pred 1 [])), FTrue], Or [Atom (Pred 1 []), FFalse]]) \<le> 9"
  by (rule to_nnf_bounded_refines [of _ 9 1])
    (simp add: to_nnf_bounded_def visit.simps [of _ _ "Iff _ _"] visit.simps [of _ _ "Atom _"]
      visit.simps [of _ _ FTrue] make_def charge_def mk_and_def mk_or_def)

end
