(* ===== verification/Cnf.thy ===== *)
theory Cnf
  imports Nnf Clauses
begin

text \<open>
  Conjunctive normal form by distribution, \<open>crates/mrs-cnf/src/cnf.rs\<close>, the extraction of
  clauses, \<open>flatten.rs\<close>, and their simplification, \<open>simplify.rs\<close>.
\<close>

section \<open>Distribution\<close>

text \<open>
  The loops that splice a nested conjunction (disjunction) into the list that is being built:
  \<open>if let Formula::And(inner) = f { flat.extend(inner) } else { flat.push(f) }\<close>.
\<close>

definition and_parts :: "Formula \<Rightarrow> Formula list" where
  "and_parts f = (case f of And inner \<Rightarrow> inner | _ \<Rightarrow> [f])"

definition or_parts :: "Formula \<Rightarrow> Formula list" where
  "or_parts f = (case f of Or inner \<Rightarrow> inner | _ \<Rightarrow> [f])"

fun flatten_connectives :: "Formula \<Rightarrow> Formula" where
  "flatten_connectives (And cs) = And (concat (map (\<lambda>c. and_parts (flatten_connectives c)) cs))"
| "flatten_connectives (Or ds) = Or (concat (map (\<lambda>d. or_parts (flatten_connectives d)) ds))"
| "flatten_connectives (Neg inner) = Neg (flatten_connectives inner)"
| "flatten_connectives f = f"

fun distribute_or_pair :: "Formula \<Rightarrow> Formula \<Rightarrow> Formula" where
  "distribute_or_pair (And cs) b = And (concat (map (\<lambda>c. and_parts (distribute_or_pair c b)) cs))"
| "distribute_or_pair a (And cs) = And (concat (map (\<lambda>c. and_parts (distribute_or_pair a c)) cs))"
| "distribute_or_pair a b = Or (or_parts a @ or_parts b)"

fun distribute_or_list :: "Formula list \<Rightarrow> Formula" where
  "distribute_or_list [] = FFalse"
| "distribute_or_list [d] = d"
| "distribute_or_list (d # ds) = distribute_or_pair d (distribute_or_list ds)"

fun distribute :: "Formula \<Rightarrow> Formula" where
  "distribute (And cs) = And (concat (map (\<lambda>c. and_parts (distribute c)) cs))"
| "distribute (Or ds) = distribute_or_list (map distribute ds)"
| "distribute f = f"

definition to_cnf :: "Formula \<Rightarrow> Formula" where
  "to_cnf f = distribute (flatten_connectives f)"

section \<open>Extraction of clauses\<close>

text \<open>
  \<open>collect_literals\<close> extends the list of literals and answers whether the disjunction contains
  \<open>$true\<close>; a formula that is no disjunction of literals makes it panic.
\<close>

fun collect_literals :: "Formula \<Rightarrow> Literal list \<Rightarrow> (bool \<times> Literal list) option"
and collect_disjuncts :: "Formula list \<Rightarrow> Literal list \<Rightarrow> (bool \<times> Literal list) option" where
  "collect_literals (Or disjuncts) lits = collect_disjuncts disjuncts lits"
| "collect_literals (Atom a) lits = Some (False, lits @ [lit_pos a])"
| "collect_literals (Neg inner) lits =
     (case inner of Atom a \<Rightarrow> Some (False, lits @ [lit_neg a]) | _ \<Rightarrow> None)"
| "collect_literals FTrue lits = Some (True, lits)"
| "collect_literals FFalse lits = Some (False, lits)"
| "collect_literals _ lits = None"
| "collect_disjuncts [] lits = Some (False, lits)"
| "collect_disjuncts (d # ds) lits = do {
     (tautology, lits) \<leftarrow> collect_literals d lits;
     if tautology then Some (True, lits) else collect_disjuncts ds lits }"

definition extract_literals :: "Formula \<Rightarrow> Literal list option option" where
  "extract_literals f = do {
     (tautology, lits) \<leftarrow> collect_literals f [];
     Some (if tautology then None else Some lits) }"

definition push_clause :: "Literal list \<Rightarrow> ClauseSource \<Rightarrow> ClauseIdGen \<times> Clause list \<Rightarrow> ClauseIdGen \<times> Clause list" where
  "push_clause lits source = (\<lambda>(id_gen, clauses).
     let (i, id_gen) = next_id id_gen in (id_gen, clauses @ [new_avatar i lits source []]))"

fun extract_rec :: "Formula \<Rightarrow> ClauseSource \<Rightarrow> ClauseIdGen \<times> Clause list
    \<Rightarrow> (ClauseIdGen \<times> Clause list) option" where
  "extract_rec (And conjuncts) source st = foldM (\<lambda>c st. extract_rec c source st) conjuncts st"
| "extract_rec FTrue source st = Some st"
| "extract_rec FFalse source st = Some (push_clause [] source st)"
| "extract_rec f source st = do {
     r \<leftarrow> extract_literals f;
     Some (case r of Some lits \<Rightarrow> push_clause lits source st | None \<Rightarrow> st) }"

definition extract_clauses :: "Formula \<Rightarrow> ClauseIdGen \<Rightarrow> ClauseSource \<Rightarrow> (Clause list \<times> ClauseIdGen) option" where
  "extract_clauses f id_gen source = do {
     (id_gen, clauses) \<leftarrow> extract_rec f source (id_gen, []);
     Some (clauses, id_gen) }"

section \<open>Simplification\<close>

fun unique_literals :: "Literal set \<Rightarrow> Literal list \<Rightarrow> Literal list" where
  "unique_literals seen [] = []"
| "unique_literals seen (l # ls) =
     (if l \<in> seen then unique_literals seen ls else l # unique_literals (insert l seen) ls)"

definition remove_duplicate_literals :: "Clause \<Rightarrow> Clause" where
  "remove_duplicate_literals c =
     (let unique_lits = unique_literals {} (literals c)
      in if length unique_lits = length (literals c) then c
         else new_avatar (clause_id c) unique_lits (clause_source c) (avatar c))"

definition simplify_clauses :: "Clause list \<Rightarrow> Clause list" where
  "simplify_clauses clauses = map remove_duplicate_literals (filter (\<lambda>c. \<not> is_tautology c) clauses)"

section \<open>Distribution preserves the value\<close>

lemma and_parts_fval [simp]: "(\<forall>g \<in> set (and_parts f). fval I \<rho> g) = fval I \<rho> f"
  by (simp add: and_parts_def split: Formula.split)

lemma or_parts_fval [simp]: "(\<exists>g \<in> set (or_parts f). fval I \<rho> g) = fval I \<rho> f"
  by (simp add: or_parts_def split: Formula.split)

lemma flatten_fval: "fval I \<rho> (flatten_connectives f) = fval I \<rho> f"
  by (induction f arbitrary: \<rho>) (simp_all add: bex_UN flip: Bex_def)

lemma distribute_or_pair_fval: "fval I \<rho> (distribute_or_pair a b) = (fval I \<rho> a \<or> fval I \<rho> b)"
  by (induction a b rule: distribute_or_pair.induct) (auto simp: bex_Un)

lemma distribute_or_list_fval: "fval I \<rho> (distribute_or_list ds) = (\<exists>d \<in> set ds. fval I \<rho> d)"
  by (induction ds rule: distribute_or_list.induct) (simp_all add: distribute_or_pair_fval)

lemma distribute_fval: "fval I \<rho> (distribute f) = fval I \<rho> f"
  by (induction f rule: distribute.induct) (simp_all add: distribute_or_list_fval)

lemma to_cnf_fval: "fval I \<rho> (to_cnf f) = fval I \<rho> f"
  by (simp add: to_cnf_def distribute_fval flatten_fval)

section \<open>The shape of the result\<close>

fun is_part :: "Formula \<Rightarrow> bool" where
  "is_part (Atom a) = True"
| "is_part (Neg f) = (case f of Atom a \<Rightarrow> True | _ \<Rightarrow> False)"
| "is_part FTrue = True"
| "is_part FFalse = True"
| "is_part _ = False"

fun is_disj :: "Formula \<Rightarrow> bool" where
  "is_disj (Or ds) = list_all is_part ds"
| "is_disj f = is_part f"

fun is_cnf :: "Formula \<Rightarrow> bool" where
  "is_cnf (And cs) = list_all is_disj cs"
| "is_cnf f = is_disj f"

text \<open>Negation normal form without quantifiers.\<close>

fun is_matrix :: "Formula \<Rightarrow> bool" where
  "is_matrix (And fs) = list_all is_matrix fs"
| "is_matrix (Or fs) = list_all is_matrix fs"
| "is_matrix f = is_part f"

lemma is_cnf_and_parts: "is_cnf f \<Longrightarrow> g \<in> set (and_parts f) \<Longrightarrow> is_disj g"
  by (cases f) (auto simp: and_parts_def list_all_iff)

lemma is_disj_or_parts: "is_disj f \<Longrightarrow> g \<in> set (or_parts f) \<Longrightarrow> is_part g"
  by (cases f) (auto simp: or_parts_def list_all_iff)

lemma is_disj_not_And: "is_disj f \<Longrightarrow> is_cnf f"
  by (cases f) auto

lemma is_cnf_And: "(\<And>g. g \<in> set gs \<Longrightarrow> is_cnf g) \<Longrightarrow> is_cnf (And (concat (map and_parts gs)))"
  using is_cnf_and_parts by (auto simp: list_all_iff)

lemma is_matrix_and_parts: "is_matrix f \<Longrightarrow> g \<in> set (and_parts f) \<Longrightarrow> is_matrix g"
  by (cases f) (auto simp: and_parts_def list_all_iff)

lemma is_matrix_or_parts: "is_matrix f \<Longrightarrow> g \<in> set (or_parts f) \<Longrightarrow> is_matrix g"
  by (cases f) (auto simp: or_parts_def list_all_iff)

lemma flatten_is_matrix: "is_matrix f \<Longrightarrow> is_matrix (flatten_connectives f)"
proof (induction f)
  case (Neg f)
  then show ?case by (cases f) auto
qed (auto simp: list_all_iff dest: is_matrix_and_parts is_matrix_or_parts)

lemma distribute_or_pair_disj:
  "is_disj a \<Longrightarrow> is_disj b \<Longrightarrow> distribute_or_pair a b = Or (or_parts a @ or_parts b)"
  "is_disj a \<Longrightarrow> distribute_or_pair a (And cs) = And (concat (map and_parts (map (distribute_or_pair a) cs)))"
  by (cases a; cases b; simp add: comp_def)+

lemma distribute_disj_is_cnf: "is_disj a \<Longrightarrow> is_cnf b \<Longrightarrow> is_cnf (distribute_or_pair a b)"
proof -
  assume a: "is_disj a" and b: "is_cnf b"
  have disj: "is_cnf (distribute_or_pair a c)" if "is_disj c" for c
    using distribute_or_pair_disj(1) [OF a that] is_disj_or_parts a that by (auto simp: list_all_iff)
  show ?thesis
  proof (cases "\<exists>cs. b = And cs")
    case True
    then obtain cs where cs: "b = And cs" "\<forall>c \<in> set cs. is_disj c" using b by (auto simp: list_all_iff)
    show ?thesis unfolding cs(1) distribute_or_pair_disj(2) [OF a]
      by (rule is_cnf_And) (use cs(2) disj in auto)
  next
    case False
    then have "is_disj b" using b by (cases b) auto
    then show ?thesis by (rule disj)
  qed
qed

lemma distribute_or_pair_is_cnf: "is_cnf a \<Longrightarrow> is_cnf b \<Longrightarrow> is_cnf (distribute_or_pair a b)"
proof (cases "\<exists>cs. a = And cs")
  case True
  assume ab: "is_cnf a" "is_cnf b"
  then obtain cs where cs: "a = And cs" "\<forall>c \<in> set cs. is_disj c" using True by (auto simp: list_all_iff)
  have "is_cnf (And (concat (map and_parts (map (\<lambda>c. distribute_or_pair c b) cs))))"
    by (rule is_cnf_And) (use cs(2) ab(2) distribute_disj_is_cnf in auto)
  then show ?thesis by (simp add: cs(1) comp_def)
next
  case False
  assume "is_cnf a" "is_cnf b"
  then show ?thesis using False by (intro distribute_disj_is_cnf) (cases a, auto)
qed

lemma distribute_or_list_is_cnf: "list_all is_cnf ds \<Longrightarrow> is_cnf (distribute_or_list ds)"
  by (induction ds rule: distribute_or_list.induct) (simp_all add: distribute_or_pair_is_cnf)

lemma distribute_is_cnf: "is_matrix f \<Longrightarrow> is_cnf (distribute f)"
proof (induction f rule: distribute.induct)
  case (1 cs)
  then show ?case using is_cnf_And [of "map distribute cs"] by (auto simp: list_all_iff comp_def)
next
  case (2 ds)
  then show ?case by (simp add: list_all_iff distribute_or_list_is_cnf)
qed auto

lemma to_cnf_is_cnf: "is_matrix f \<Longrightarrow> is_cnf (to_cnf f)"
  by (simp add: to_cnf_def distribute_is_cnf flatten_is_matrix)

section \<open>Extraction\<close>

text \<open>A disjunction contributes the literals \<open>ls\<close>, or is a tautology.\<close>

definition contributes :: "(Literal list \<Rightarrow> (bool \<times> Literal list) option) \<Rightarrow> bool \<Rightarrow> Literal list \<Rightarrow> bool" where
  "contributes f t ls \<longleftrightarrow> (\<forall>lits. f lits = Some (t, lits @ ls))"

lemma collect_part:
  "is_part f \<Longrightarrow> \<exists>t ls. contributes (collect_literals f) t ls \<and>
     (\<forall>I \<rho>. fval (I :: 'a interp) \<rho> f = (t \<or> lits_hold I \<rho> ls))"
  by (cases f rule: is_part.cases)
    (force simp: contributes_def split: Formula.splits)+

lemma collect_parts:
  "list_all is_part fs \<Longrightarrow> \<exists>t ls. contributes (collect_disjuncts fs) t ls \<and>
     (\<forall>I \<rho>. (\<exists>f \<in> set fs. fval (I :: 'a interp) \<rho> f) = (t \<or> lits_hold I \<rho> ls))"
proof (induction fs)
  case Nil
  show ?case by (intro exI [of _ False] exI [of _ "[]"]) (simp add: contributes_def)
next
  case (Cons f fs)
  obtain t ls where 1: "contributes (collect_literals f) t ls"
    "\<forall>I \<rho>. fval (I :: 'a interp) \<rho> f = (t \<or> lits_hold I \<rho> ls)"
    using collect_part [of f] Cons.prems by auto
  obtain t' ls' where 2: "contributes (collect_disjuncts fs) t' ls'"
    "\<forall>I \<rho>. (\<exists>f \<in> set fs. fval (I :: 'a interp) \<rho> f) = (t' \<or> lits_hold I \<rho> ls')"
    using Cons by auto
  show ?case
  proof (cases t)
    case True
    then show ?thesis using 1
      by (intro exI [of _ True] exI [of _ ls]) (simp add: contributes_def)
  next
    case False
    then show ?thesis using 1 2
      by (intro exI [of _ t'] exI [of _ "ls @ ls'"]) (auto simp: contributes_def)
  qed
qed

lemma collect_disj:
  "is_disj f \<Longrightarrow> \<exists>t ls. contributes (collect_literals f) t ls \<and>
     (\<forall>I \<rho>. fval (I :: 'a interp) \<rho> f = (t \<or> lits_hold I \<rho> ls))"
proof (cases "\<exists>ds. f = Or ds")
  case True
  assume "is_disj f"
  then obtain ds where f: "f = Or ds" "list_all is_part ds" using True by auto
  then show ?thesis using collect_parts [of ds] by (simp add: contributes_def)
next
  case False
  assume "is_disj f"
  then show ?thesis using False by (intro collect_part) (cases f, auto)
qed

text \<open>The clauses a run appends, with the identifiers it draws.\<close>

definition appends :: "ClauseIdGen \<times> Clause list \<Rightarrow> ClauseSource \<Rightarrow> Literal list list
    \<Rightarrow> ClauseIdGen \<times> Clause list \<Rightarrow> bool" where
  "appends st source lss st' \<longleftrightarrow>
     st' = (\<lparr>next_clause = next_clause (fst st) + of_nat (length lss)\<rparr>,
       snd st @ map (\<lambda>(k, ls). new_avatar (next_clause (fst st) + of_nat k) ls source [])
         (zip [0..<length lss] lss))"

lemma appends_none: "appends st source [] st"
  by (cases st) (simp add: appends_def)

lemma appends_one: "appends st source [ls] (push_clause ls source st)"
  by (cases st) (simp add: appends_def push_clause_def next_id_def Let_def)

lemma appends_more:
  assumes "appends st source lss st1" "appends st1 source mss st2"
  shows "appends st source (lss @ mss) st2"
proof -
  have "[0..<length lss + length mss] = [0..<length lss] @ map (\<lambda>k. length lss + k) [0..<length mss]"
    using upt_add_eq_append [of 0 "length lss" "length mss"]
    by (simp add: map_add_upt add.commute [of "length lss"])
  then show ?thesis using assms
    by (simp add: appends_def add.assoc zip_append zip_map1 split_def comp_def)
qed

lemma extract_disj:
  assumes "is_disj f"
  shows "\<exists>lss st'. extract_rec f source st = Some st' \<and> appends st source lss st' \<and>
    (\<forall>I \<rho>. fval (I :: 'a interp) \<rho> f = (\<forall>ls \<in> set lss. lits_hold I \<rho> ls))"
proof -
  obtain t ls where ls: "contributes (collect_literals f) t ls"
    "\<forall>I \<rho>. fval (I :: 'a interp) \<rho> f = (t \<or> lits_hold I \<rho> ls)"
    using collect_disj [OF assms] by blast
  have lit: "extract_literals f = Some (if t then None else Some ls)"
    using ls(1) by (simp add: extract_literals_def contributes_def)
  consider "f = FTrue" | "f = FFalse" | "f \<noteq> FTrue" "f \<noteq> FFalse" by blast
  then show ?thesis
  proof cases
    case 1
    then show ?thesis using appends_none by (intro exI [of _ "[]"]) simp
  next
    case 2
    then show ?thesis using appends_one [of st source "[]"] by (intro exI [of _ "[[]]"]) simp
  next
    case 3
    then have "extract_rec f source st = Some (if t then st else push_clause ls source st)"
      using assms lit by (cases f) simp_all
    then show ?thesis using ls(2) appends_none appends_one
      by (intro exI [of _ "if t then [] else [ls]"]) auto
  qed
qed

lemma foldM_extract_disj:
  "list_all is_disj fs \<Longrightarrow>
    \<exists>lss st'. foldM (\<lambda>c. extract_rec c source) fs st = Some st' \<and> appends st source lss st' \<and>
      (\<forall>I \<rho>. (\<forall>f \<in> set fs. fval (I :: 'a interp) \<rho> f) = (\<forall>ls \<in> set lss. lits_hold I \<rho> ls))"
proof (induction fs arbitrary: st)
  case Nil
  show ?case using appends_none by (intro exI [of _ "[]"]) simp
next
  case (Cons f fs)
  obtain lss st1 where 1: "extract_rec f source st = Some st1" "appends st source lss st1"
    "\<forall>I \<rho>. fval (I :: 'a interp) \<rho> f = (\<forall>ls \<in> set lss. lits_hold I \<rho> ls)"
    using extract_disj [of f source st] Cons.prems by auto
  obtain mss st2 where 2: "foldM (\<lambda>c. extract_rec c source) fs st1 = Some st2" "appends st1 source mss st2"
    "\<forall>I \<rho>. (\<forall>f \<in> set fs. fval (I :: 'a interp) \<rho> f) = (\<forall>ls \<in> set mss. lits_hold I \<rho> ls)"
    using Cons.IH [of st1] Cons.prems by (auto simp del: split_paired_Ex)
  show ?case using 1(1,3) 2(1,3) appends_more [OF 1(2) 2(2)]
    by (intro exI [of _ "lss @ mss"]) auto
qed

lemma extract_cnf:
  assumes "is_cnf f"
  shows "\<exists>lss st'. extract_rec f source st = Some st' \<and> appends st source lss st' \<and>
    (\<forall>I \<rho>. fval (I :: 'a interp) \<rho> f = (\<forall>ls \<in> set lss. lits_hold I \<rho> ls))"
proof (cases "\<exists>cs. f = And cs")
  case True
  then obtain cs where cs: "f = And cs" "list_all is_disj cs" using assms by auto
  then show ?thesis using foldM_extract_disj [OF cs(2)] by simp
next
  case False
  then show ?thesis by (intro extract_disj) (use assms in \<open>cases f; auto\<close>)
qed

section \<open>Simplification\<close>

lemma set_unique_literals: "set (unique_literals seen ls) = set ls - seen"
  by (induction ls arbitrary: seen) auto

lemma distinct_unique_literals: "distinct (unique_literals seen ls)"
  by (induction ls arbitrary: seen) (auto simp: set_unique_literals)

lemma length_unique_literals: "length (unique_literals seen ls) \<le> length ls"
  by (induction ls arbitrary: seen) (auto intro: le_SucI)

lemma unique_literals_distinct:
  "length (unique_literals {} ls) = length ls \<Longrightarrow> distinct ls"
  using distinct_unique_literals [of "{}" ls] set_unique_literals [of "{}" ls]
  by (metis Diff_empty card_distinct distinct_card)

lemma set_literals_remove_duplicates:
  "set (literals (remove_duplicate_literals c)) = set (literals c)"
  by (simp add: remove_duplicate_literals_def Let_def new_avatar_def set_unique_literals)

lemma distinct_remove_duplicates: "distinct (literals (remove_duplicate_literals c))"
  using unique_literals_distinct [of "literals c"]
  by (simp add: remove_duplicate_literals_def Let_def new_avatar_def distinct_unique_literals)

lemma lits_hold_set: "set ls = set ms \<Longrightarrow> lits_hold I \<rho> ls = lits_hold I \<rho> ms"
  by (simp add: lits_hold_def)

lemma simplify_keeps_value: "(\<forall>c \<in> set (simplify_clauses cs). lits_hold I \<rho> (literals c)) \<longleftrightarrow>
    (\<forall>c \<in> set cs. lits_hold I \<rho> (literals c))"
proof -
  have "lits_hold I \<rho> (literals (remove_duplicate_literals c)) = lits_hold I \<rho> (literals c)" for c
    by (rule lits_hold_set) (rule set_literals_remove_duplicates)
  then show ?thesis using tautology_valid [of _ I \<rho>] by (auto simp: simplify_clauses_def)
qed

lemma simplify_clean: "list_all (\<lambda>c. \<not> is_tautology c \<and> distinct (literals c)) (simplify_clauses cs)"
proof -
  have "is_tautology (remove_duplicate_literals c) = is_tautology c" for c
    by (simp only: is_tautology_iff set_literals_remove_duplicates)
  then show ?thesis by (auto simp: simplify_clauses_def list_all_iff distinct_remove_duplicates)
qed

section \<open>Properties\<close>

text \<open>
  On a quantifier-free formula in negation normal form the clausification by distribution
  never panics, appends clauses with consecutive fresh identifiers, and their conjunction has
  the value of the formula in every structure under every valuation.
\<close>

theorem distribution_clauses_equivalent:
  assumes "is_matrix f"
  shows "\<exists>clauses id_gen'. extract_clauses (to_cnf f) id_gen source = Some (clauses, id_gen') \<and>
    (\<forall>(I :: 'a interp) \<rho>. (\<forall>c \<in> set clauses. lits_hold I \<rho> (literals c)) \<longleftrightarrow> fval I \<rho> f) \<and>
    map clause_id clauses = map (\<lambda>k. next_clause id_gen + of_nat k) [0..<length clauses] \<and>
    next_clause id_gen' = next_clause id_gen + of_nat (length clauses)"
proof -
  obtain lss st' where ex: "extract_rec (to_cnf f) source (id_gen, []) = Some st'"
    "appends (id_gen, []) source lss st'"
    "\<forall>I \<rho>. fval (I :: 'a interp) \<rho> (to_cnf f) = (\<forall>ls \<in> set lss. lits_hold I \<rho> ls)"
    using extract_cnf [OF to_cnf_is_cnf [OF assms]] by blast
  let ?cls = "map (\<lambda>(k, ls). new_avatar (next_clause id_gen + of_nat k) ls source []) (zip [0..<length lss] lss)"
  have "extract_clauses (to_cnf f) id_gen source = Some (?cls, \<lparr>next_clause = next_clause id_gen + of_nat (length lss)\<rparr>)"
    using ex(1,2) by (simp add: extract_clauses_def appends_def)
  moreover have lss: "map literals ?cls = lss" and "map clause_id ?cls = map (\<lambda>k. next_clause id_gen + of_nat k) [0..<length lss]"
    by (auto simp: new_avatar_def split_def intro!: nth_equalityI)
  moreover have "(\<forall>c \<in> set ?cls. lits_hold I \<rho> (literals c)) \<longleftrightarrow> fval I \<rho> f" for I :: "'a interp" and \<rho>
  proof -
    have img: "(\<forall>c \<in> set xs. P (g c)) \<longleftrightarrow> (\<forall>y \<in> set (map g xs). P y)" for xs :: "Clause list" and g P
      by simp
    have "(\<forall>c \<in> set ?cls. lits_hold I \<rho> (literals c)) \<longleftrightarrow> (\<forall>ls \<in> set (map literals ?cls). lits_hold I \<rho> ls)"
      by (rule img)
    also have "\<dots> \<longleftrightarrow> (\<forall>ls \<in> set lss. lits_hold I \<rho> ls)" by (simp only: lss)
    finally show ?thesis using ex(3) to_cnf_fval [of I \<rho> f] by metis
  qed
  ultimately show ?thesis by (intro exI [of _ ?cls] exI [of _ "\<lparr>next_clause = next_clause id_gen + of_nat (length lss)\<rparr>"]) simp
qed

theorem distribution_clauses_equivalent_witness:
  "\<exists>clauses id_gen'. extract_clauses (to_cnf (Or [Atom (Pred 1 []), And [Atom (Pred 2 []), Neg (Atom (Pred 3 []))]]))
      new_gen (Inference ''cnf'' [])  = Some (clauses, id_gen') \<and>
    (\<forall>(I :: nat interp) \<rho>. (\<forall>c \<in> set clauses. lits_hold I \<rho> (literals c)) \<longleftrightarrow>
      fval I \<rho> (Or [Atom (Pred 1 []), And [Atom (Pred 2 []), Neg (Atom (Pred 3 []))]])) \<and>
    map clause_id clauses = map (\<lambda>k. next_clause new_gen + of_nat k) [0..<length clauses] \<and>
    next_clause id_gen' = next_clause new_gen + of_nat (length clauses)"
  by (rule distribution_clauses_equivalent) simp

text \<open>
  Simplification keeps the meaning of a clause set, and what it keeps has no tautology and
  no clause with a repeated literal.
\<close>

theorem simplify_clauses_correct:
  "((\<forall>c \<in> set (simplify_clauses cs). lits_hold I \<rho> (literals c)) \<longleftrightarrow>
      (\<forall>c \<in> set cs. lits_hold I \<rho> (literals c))) \<and>
   list_all (\<lambda>c. \<not> is_tautology c \<and> distinct (literals c)) (simplify_clauses cs)"
  by (rule conjI [OF simplify_keeps_value simplify_clean])

theorem simplify_clauses_correct_witness:
  "\<forall>(I :: nat interp) \<rho>. ((\<forall>c \<in> set (simplify_clauses [new_clause 0 [lit_pos (Pred 1 []), lit_pos (Pred 1 [])] (Inference ''cnf'' []),
          new_clause 1 [lit_pos (Pred 1 []), lit_neg (Pred 1 [])] (Inference ''cnf'' [])]). lits_hold I \<rho> (literals c)) \<longleftrightarrow>
      (\<forall>c \<in> set [new_clause 0 [lit_pos (Pred 1 []), lit_pos (Pred 1 [])] (Inference ''cnf'' []),
          new_clause 1 [lit_pos (Pred 1 []), lit_neg (Pred 1 [])] (Inference ''cnf'' [])]. lits_hold I \<rho> (literals c))) \<and>
   list_all (\<lambda>c. \<not> is_tautology c \<and> distinct (literals c))
     (simplify_clauses [new_clause 0 [lit_pos (Pred 1 []), lit_pos (Pred 1 [])] (Inference ''cnf'' []),
          new_clause 1 [lit_pos (Pred 1 []), lit_neg (Pred 1 [])] (Inference ''cnf'' [])])"
  by (intro allI) (rule simplify_clauses_correct)

end
