(* ===== verification/Freshness.thy ===== *)
theory Freshness
  imports Semantics Symbols
begin

text \<open>
  Symbols that occur in a piece of syntax, structures that agree on them, and the interface of
  a supply of fresh symbols. Transformations that introduce symbols (Skolemization, definitional
  clause forms) keep satisfiability: \<open>conservative\<close> below.
\<close>

section \<open>Symbols of terms and formulas\<close>

fun tsyms :: "Term \<Rightarrow> SymbolId set" where
  "tsyms (Var v) = {}"
| "tsyms (App f args) = insert f (\<Union>a \<in> set args. tsyms a)"

fun asyms :: "Atom \<Rightarrow> SymbolId set" where
  "asyms (Pred p args) = insert p (\<Union>a \<in> set args. tsyms a)"
| "asyms (Eq l r) = tsyms l \<union> tsyms r"

fun fsyms :: "Formula \<Rightarrow> SymbolId set" where
  "fsyms (Atom a) = asyms a"
| "fsyms (Neg f) = fsyms f"
| "fsyms (And fs) = (\<Union>f \<in> set fs. fsyms f)"
| "fsyms (Or fs) = (\<Union>f \<in> set fs. fsyms f)"
| "fsyms (Implies a b) = fsyms a \<union> fsyms b"
| "fsyms (Iff a b) = fsyms a \<union> fsyms b"
| "fsyms (Forall v f) = fsyms f"
| "fsyms (Exists v f) = fsyms f"
| "fsyms FTrue = {}"
| "fsyms FFalse = {}"

lemma fsyms_mk [simp]:
  "fsyms (mk_and fs) = (\<Union>f \<in> set fs. fsyms f)" "fsyms (mk_or fs) = (\<Union>f \<in> set fs. fsyms f)"
  by (cases fs; auto simp: mk_and_def mk_or_def)+

section \<open>Structures that agree on a set of symbols\<close>

definition agree :: "SymbolId set \<Rightarrow> 'a interp \<Rightarrow> 'a interp \<Rightarrow> bool" where
  "agree K I J \<longleftrightarrow> (\<forall>f \<in> K. ifun I f = ifun J f \<and> ipred I f = ipred J f)"

lemma agree_refl [simp]: "agree K I I"
  by (simp add: agree_def)

lemma agree_sym: "agree K I J \<Longrightarrow> agree K J I"
  by (simp add: agree_def)

lemma agree_trans: "agree K I J \<Longrightarrow> agree K J L \<Longrightarrow> agree K I L"
  by (simp add: agree_def)

lemma agree_mono: "agree K I J \<Longrightarrow> L \<subseteq> K \<Longrightarrow> agree L I J"
  by (auto simp: agree_def)

lemma tval_agree: "agree K I J \<Longrightarrow> tsyms t \<subseteq> K \<Longrightarrow> tval I \<rho> t = tval J \<rho> t"
proof (induction t)
  case (App f args)
  then have "map (tval I \<rho>) args = map (tval J \<rho>) args" by auto
  moreover have "ifun I f = ifun J f" using App.prems by (auto simp: agree_def)
  ultimately show ?case by (simp only: tval.simps)
qed simp

lemma aval_agree: "agree K I J \<Longrightarrow> asyms a \<subseteq> K \<Longrightarrow> aval I \<rho> a = aval J \<rho> a"
proof (cases a)
  case (Pred p args)
  assume *: "agree K I J" "asyms a \<subseteq> K"
  then have "map (tval I \<rho>) args = map (tval J \<rho>) args"
    using Pred by (auto intro!: tval_agree)
  moreover have "ipred I p = ipred J p" using * Pred by (auto simp: agree_def)
  ultimately show ?thesis by (simp only: Pred aval.simps)
next
  case (Eq l r)
  assume "agree K I J" "asyms a \<subseteq> K"
  then show ?thesis using Eq tval_agree [of K I J] by simp
qed

lemma fval_agree: "agree K I J \<Longrightarrow> fsyms f \<subseteq> K \<Longrightarrow> fval I \<rho> f = fval J \<rho> f"
proof (induction f arbitrary: \<rho>)
  case (Atom a)
  then show ?case using aval_agree by simp
next
  case (And fs)
  then have "fval I \<rho> f = fval J \<rho> f" if "f \<in> set fs" for f using that by auto
  then show ?case by simp
next
  case (Or fs)
  then have "fval I \<rho> f = fval J \<rho> f" if "f \<in> set fs" for f using that by auto
  then show ?case by simp
qed auto

section \<open>A supply of fresh symbols\<close>

text \<open>
  \<open>draw\<close> returns a symbol that is not \<open>known\<close> yet and makes it known; \<open>left s n\<close> says that the
  state is well formed and has at least \<open>n\<close> symbols left.
\<close>

locale symbol_supply =
  fixes draw :: "'s \<Rightarrow> ('i \<times> 's) option"
    and known :: "'s \<Rightarrow> 'i set"
    and left :: "'s \<Rightarrow> nat \<Rightarrow> bool"
  assumes draw_returns: "left s (Suc n) \<Longrightarrow> \<exists>i s'. draw s = Some (i, s')"
    and draw_new: "left s (Suc n) \<Longrightarrow> draw s = Some (i, s') \<Longrightarrow> i \<notin> known s"
    and draw_known: "left s (Suc n) \<Longrightarrow> draw s = Some (i, s') \<Longrightarrow> known s' = insert i (known s)"
    and draw_left: "left s (Suc n) \<Longrightarrow> draw s = Some (i, s') \<Longrightarrow> left s' n"
begin

lemma draw_one:
  assumes "left s (Suc n)"
  obtains i s' where "draw s = Some (i, s')" "i \<notin> known s" "known s' = insert i (known s)" "left s' n"
  using draw_returns [OF assms] draw_new [OF assms] draw_known [OF assms] draw_left [OF assms] by blast

end

text \<open>The supply that \<open>SymbolTable::fresh_symbol\<close> provides, for every base name.\<close>

definition known_symbols :: "SymbolTable \<Rightarrow> SymbolId set" where
  "known_symbols st = {i. unat i < length (names st)}"

definition symbols_left :: "SymbolTable \<Rightarrow> nat \<Rightarrow> bool" where
  "symbols_left st n \<longleftrightarrow> table_ok st \<and> length (names st) + n \<le> 2 ^ 32"

lemma symbols_left_mono: "symbols_left st n \<Longrightarrow> m \<le> n \<Longrightarrow> symbols_left st m"
  by (simp add: symbols_left_def)

lemma fresh_symbol_draws:
  assumes "symbols_left st (Suc n)" "fresh_symbol base st = Some (i, st')"
  shows "i \<notin> known_symbols st \<and> known_symbols st' = insert i (known_symbols st) \<and> symbols_left st' n"
proof -
  have ok: "table_ok st" "length (names st) < 2 ^ 32" using assms(1) by (simp_all add: symbols_left_def)
  then obtain m where m: "table_ok st'" "i = of_nat (length (names st))"
    "names st' = names st @ [fresh_name (effective_prefix base) m]"
    using fresh_symbol_spec [OF ok assms(2)] by blast
  then have i: "unat i = length (names st)" using ok(2) by (simp add: unat_of_nat_u32)
  have "unat j = unat i \<longleftrightarrow> j = i" for j by (auto intro: unsigned_word_eqI [where 'a = nat])
  then have "known_symbols st' = insert i (known_symbols st)"
    unfolding known_symbols_def m(3) i by (simp add: less_Suc_eq set_eq_iff disj_commute)
  moreover have "i \<notin> known_symbols st" by (simp add: known_symbols_def i)
  moreover have "symbols_left st' n" using m(1,3) assms(1) by (simp add: symbols_left_def)
  ultimately show ?thesis by blast
qed

interpretation fresh: symbol_supply "fresh_symbol base" known_symbols symbols_left
  for base
  using fresh_symbol_result fresh_symbol_draws by unfold_locales (metis prod.collapse, blast+)

section \<open>Conservative transformations\<close>

text \<open>
  The formulas \<open>gs\<close> replace the formulas \<open>fs\<close> in the presence of the definitions \<open>D\<close>, with the
  symbols known before and after: where the definitions hold, each new formula implies the old
  one; and every structure can be changed at unknown symbols only so that the definitions hold
  everywhere and each old formula implies the new one.
\<close>

definition defined_by :: "'a interp \<Rightarrow> Formula set \<Rightarrow> bool" where
  "defined_by I D \<longleftrightarrow> (\<forall>d \<in> D. \<forall>\<rho>. fval I \<rho> d)"

lemma defined_by_simps [simp]:
  "defined_by I {}" "defined_by I (D \<union> E) \<longleftrightarrow> defined_by I D \<and> defined_by I E"
  "defined_by I (insert d D) \<longleftrightarrow> (\<forall>\<rho>. fval I \<rho> d) \<and> defined_by I D"
  by (auto simp: defined_by_def)

lemma defined_by_agree: "agree K I J \<Longrightarrow> (\<Union>d \<in> D. fsyms d) \<subseteq> K \<Longrightarrow> defined_by I D = defined_by J D"
  using fval_agree [of K I J] by (auto simp: defined_by_def UN_subset_iff)

definition implied_by :: "'a interp \<Rightarrow> 'a interp \<Rightarrow> Formula list \<Rightarrow> Formula list \<Rightarrow> bool" where
  "implied_by I J fs gs \<longleftrightarrow> (\<forall>\<rho>. list_all2 (\<lambda>f g. fval I \<rho> f \<longrightarrow> fval J \<rho> g) fs gs)"

definition conservative :: "'a itself \<Rightarrow> SymbolId set \<Rightarrow> SymbolId set \<Rightarrow> Formula set \<Rightarrow> Formula list
    \<Rightarrow> Formula list \<Rightarrow> bool" where
  "conservative TY K K' D fs gs \<longleftrightarrow> K \<subseteq> K' \<and> (\<forall>g \<in> set gs \<union> D. fsyms g \<subseteq> K') \<and>
     (\<forall>I :: 'a interp. \<forall>\<rho>. (\<forall>d \<in> D. fval I \<rho> d) \<longrightarrow> list_all2 (\<lambda>f g. fval I \<rho> g \<longrightarrow> fval I \<rho> f) fs gs) \<and>
     (\<forall>I :: 'a interp. \<exists>I'. agree K I I' \<and> defined_by I' D \<and> implied_by I I' fs gs)"

lemma conservativeI:
  assumes "K \<subseteq> K'" "\<And>g. g \<in> set gs \<union> D \<Longrightarrow> fsyms g \<subseteq> K'"
    and "\<And>(I :: 'a interp) \<rho>. \<forall>d \<in> D. fval I \<rho> d \<Longrightarrow> list_all2 (\<lambda>f g. fval I \<rho> g \<longrightarrow> fval I \<rho> f) fs gs"
    and "\<And>I :: 'a interp. \<exists>I'. agree K I I' \<and> defined_by I' D \<and> implied_by I I' fs gs"
  shows "conservative (TY :: 'a itself) K K' D fs gs"
  using assms unfolding conservative_def by blast

lemma conservative_extends:
  "conservative (TY :: 'a itself) K K' D fs gs \<Longrightarrow>
     \<exists>I'. agree K (I :: 'a interp) I' \<and> defined_by I' D \<and> implied_by I I' fs gs"
  unfolding conservative_def by blast

lemma conservative_grows: "conservative TY K K' D fs gs \<Longrightarrow> K \<subseteq> K'"
  by (simp add: conservative_def)

lemma conservative_syms: "conservative TY K K' D fs gs \<Longrightarrow> g \<in> set gs \<union> D \<Longrightarrow> fsyms g \<subseteq> K'"
  unfolding conservative_def by blast

lemma conservative_nil: "conservative TY K K {} [] []"
  by (auto simp: conservative_def implied_by_def intro: agree_refl)

lemma conservative_same: "fsyms f \<subseteq> K \<Longrightarrow> conservative TY K K {} [f] [f]"
  by (auto simp: conservative_def implied_by_def intro: agree_refl)

lemma conservative_cons:
  fixes TY :: "'a itself"
  assumes f: "conservative TY K K1 D [f] [g]" and fs: "conservative TY K1 K2 E fs gs"
    and old: "\<And>h. h \<in> set fs \<Longrightarrow> fsyms h \<subseteq> K"
  shows "conservative TY K K2 (D \<union> E) (f # fs) (g # gs)"
proof (rule conservativeI)
  show "K \<subseteq> K2" using f fs by (auto simp: conservative_def)
  show "fsyms h \<subseteq> K2" if "h \<in> set (g # gs) \<union> (D \<union> E)" for h
    using that conservative_syms [OF f, of h] conservative_syms [OF fs, of h] conservative_grows [OF fs]
    by (cases "h \<in> set [g] \<union> D") auto
  show "list_all2 (\<lambda>f g. fval I \<rho> g \<longrightarrow> fval I \<rho> f) (f # fs) (g # gs)"
    if "\<forall>d \<in> D \<union> E. fval I \<rho> d" for I :: "'a interp" and \<rho>
    using f fs that by (simp add: conservative_def)
  fix I :: "'a interp"
  obtain I1 where I1: "agree K I I1" "defined_by I1 D" "implied_by I I1 [f] [g]"
    using conservative_extends [OF f, of I] by blast
  obtain I2 where I2: "agree K1 I1 I2" "defined_by I2 E" "implied_by I1 I2 fs gs"
    using conservative_extends [OF fs, of I1] by blast
  have sub: "K \<subseteq> K1" "fsyms g \<subseteq> K1" "(\<Union>d \<in> D. fsyms d) \<subseteq> K1"
    using f by (auto simp: conservative_def)
  have "agree K I I2" by (rule agree_trans [OF I1(1) agree_mono [OF I2(1) sub(1)]])
  moreover have "defined_by I2 (D \<union> E)" using I1(2) I2(2) defined_by_agree [OF I2(1) sub(3)] by simp
  moreover have "fval I \<rho> h = fval I1 \<rho> h" if "h \<in> set fs" for h \<rho>
    using fval_agree [OF I1(1) old [OF that]] .
  then have "implied_by I I2 (f # fs) (g # gs)"
    using I1(3) I2(3) fval_agree [OF I2(1) sub(2)]
    by (auto simp: implied_by_def list_all2_conv_all_nth nth_Cons split: nat.split)
  ultimately show "\<exists>I'. agree K I I' \<and> defined_by I' (D \<union> E) \<and> implied_by I I' (f # fs) (g # gs)"
    by blast
qed

lemma conservative_trans:
  fixes TY :: "'a itself"
  assumes f: "conservative TY K K1 D [f] [g]" and g: "conservative TY K1 K2 E [g] [h]"
  shows "conservative TY K K2 (D \<union> E) [f] [h]"
proof (rule conservativeI)
  show "K \<subseteq> K2" using f g by (auto simp: conservative_def)
  show "fsyms h' \<subseteq> K2" if "h' \<in> set [h] \<union> (D \<union> E)" for h'
    using that conservative_syms [OF f, of h'] conservative_syms [OF g, of h'] conservative_grows [OF g]
    by (cases "h' \<in> D") auto
  show "list_all2 (\<lambda>f g. fval I \<rho> g \<longrightarrow> fval I \<rho> f) [f] [h]"
    if "\<forall>d \<in> D \<union> E. fval I \<rho> d" for I :: "'a interp" and \<rho>
    using f g that by (simp add: conservative_def)
  fix I :: "'a interp"
  obtain I1 where I1: "agree K I I1" "defined_by I1 D" "implied_by I I1 [f] [g]"
    using conservative_extends [OF f, of I] by blast
  obtain I2 where I2: "agree K1 I1 I2" "defined_by I2 E" "implied_by I1 I2 [g] [h]"
    using conservative_extends [OF g, of I1] by blast
  have sub: "K \<subseteq> K1" "(\<Union>d \<in> D. fsyms d) \<subseteq> K1" using f by (auto simp: conservative_def)
  have "agree K I I2" by (rule agree_trans [OF I1(1) agree_mono [OF I2(1) sub(1)]])
  moreover have "defined_by I2 (D \<union> E)" using I1(2) I2(2) defined_by_agree [OF I2(1) sub(2)] by simp
  moreover have "implied_by I I2 [f] [h]" using I1(3) I2(3) by (simp add: implied_by_def)
  ultimately show "\<exists>I'. agree K I I' \<and> defined_by I' (D \<union> E) \<and> implied_by I I' [f] [h]" by blast
qed

text \<open>Positive contexts.\<close>

lemma conservative_positive:
  fixes TY :: "'a itself"
  assumes c: "conservative TY K K' D fs gs" and syms: "fsyms h' \<subseteq> (\<Union>g \<in> set gs. fsyms g)"
    and mono: "\<And>(I :: 'a interp) J. implied_by I J fs gs \<Longrightarrow> \<forall>\<rho>. fval I \<rho> h \<longrightarrow> fval J \<rho> h'"
    and conv: "\<And>(I :: 'a interp) \<rho>. list_all2 (\<lambda>f g. fval I \<rho> g \<longrightarrow> fval I \<rho> f) fs gs \<Longrightarrow>
      fval I \<rho> h' \<longrightarrow> fval I \<rho> h"
  shows "conservative TY K K' D [h] [h']"
proof (rule conservativeI)
  show "K \<subseteq> K'" using c by (simp add: conservative_def)
  show "fsyms g \<subseteq> K'" if "g \<in> set [h'] \<union> D" for g
    using that syms c by (auto simp: conservative_def)
  show "list_all2 (\<lambda>f g. fval I \<rho> g \<longrightarrow> fval I \<rho> f) [h] [h']"
    if "\<forall>d \<in> D. fval I \<rho> d" for I :: "'a interp" and \<rho>
    using conv [of I \<rho>] c that by (simp add: conservative_def)
  fix I :: "'a interp"
  obtain I' where "agree K I I'" "defined_by I' D" "implied_by I I' fs gs"
    using conservative_extends [OF c] by blast
  then show "\<exists>I'. agree K I I' \<and> defined_by I' D \<and> implied_by I I' [h] [h']"
    using mono [of I I'] by (auto simp: implied_by_def)
qed

lemma conservative_And: "conservative TY K K' D fs gs \<Longrightarrow> conservative TY K K' D [And fs] [mk_and gs]"
  by (erule conservative_positive) (fastforce simp: implied_by_def list_all2_conv_all_nth in_set_conv_nth)+

lemma conservative_Or: "conservative TY K K' D fs gs \<Longrightarrow> conservative TY K K' D [Or fs] [mk_or gs]"
  by (erule conservative_positive) (fastforce simp: implied_by_def list_all2_conv_all_nth in_set_conv_nth)+

text \<open>Under a quantifier there must be no definitions: they are assumed for one valuation.\<close>

lemma conservative_Forall:
  fixes TY :: "'a itself"
  assumes c: "conservative TY K K' {} [f] [g]"
  shows "conservative TY K K' {} [Forall v f] [Forall v g]"
proof (rule conservativeI)
  show "K \<subseteq> K'" and "\<And>h. h \<in> set [Forall v g] \<union> {} \<Longrightarrow> fsyms h \<subseteq> K'"
    using c by (auto simp: conservative_def)
  show "list_all2 (\<lambda>f g. fval I \<rho> g \<longrightarrow> fval I \<rho> f) [Forall v f] [Forall v g]" for I :: "'a interp" and \<rho>
    using c by (simp add: conservative_def)
  fix I :: "'a interp"
  show "\<exists>I'. agree K I I' \<and> defined_by I' {} \<and> implied_by I I' [Forall v f] [Forall v g]"
    using conservative_extends [OF c, of I] by (auto simp: implied_by_def)
qed

text \<open>A result may be replaced by an equivalent one, or take its definitions into itself.\<close>

lemma conservative_cong:
  assumes "conservative TY K K' D [f] [g]" "fsyms h \<subseteq> K'" "\<And>(I :: 'a interp) \<rho>. fval I \<rho> h = fval I \<rho> g"
  shows "conservative (TY :: 'a itself) K K' D [f] [h]"
  using assms by (simp add: conservative_def implied_by_def)

lemma conservative_absorb:
  fixes TY :: "'a itself"
  assumes c: "conservative TY K K' D [f] [g]" and syms: "fsyms h \<subseteq> K'"
    and h: "\<And>(I :: 'a interp) \<rho>. fval I \<rho> h \<longleftrightarrow> (\<forall>d \<in> D. fval I \<rho> d) \<and> fval I \<rho> g"
  shows "conservative TY K K' {} [f] [h]"
proof (rule conservativeI)
  show "K \<subseteq> K'" by (rule conservative_grows [OF c])
  show "fsyms k \<subseteq> K'" if "k \<in> set [h] \<union> {}" for k using that syms by simp
  show "list_all2 (\<lambda>f g. fval I \<rho> g \<longrightarrow> fval I \<rho> f) [f] [h]" for I :: "'a interp" and \<rho>
    using c h [of I \<rho>] by (simp add: conservative_def)
  fix I :: "'a interp"
  obtain I' where "agree K I I'" "defined_by I' D" "implied_by I I' [f] [g]"
    using conservative_extends [OF c, of I] by blast
  then show "\<exists>I'. agree K I I' \<and> defined_by I' {} \<and> implied_by I I' [f] [h]"
    using h [of I'] by (intro exI [of _ I']) (simp add: implied_by_def defined_by_def)
qed

section \<open>Equivalence modulo definitions\<close>

text \<open>
  The stronger relation of a pass that replaces subformulas anywhere: where the definitions
  hold everywhere the formulas are equivalent, and every structure can be changed at unknown
  symbols only so that they hold.
\<close>

definition equates :: "'a itself \<Rightarrow> SymbolId set \<Rightarrow> SymbolId set \<Rightarrow> Formula set \<Rightarrow> Formula list
    \<Rightarrow> Formula list \<Rightarrow> bool" where
  "equates TY K K' D fs gs \<longleftrightarrow> K \<subseteq> K' \<and> (\<forall>g \<in> set gs \<union> D. fsyms g \<subseteq> K') \<and>
     (\<forall>I :: 'a interp. defined_by I D \<longrightarrow> (\<forall>\<rho>. list_all2 (\<lambda>f g. fval I \<rho> g = fval I \<rho> f) fs gs)) \<and>
     (\<forall>I :: 'a interp. \<exists>I'. agree K I I' \<and> defined_by I' D)"

lemma equatesI:
  assumes "K \<subseteq> K'" "\<And>g. g \<in> set gs \<union> D \<Longrightarrow> fsyms g \<subseteq> K'"
    and "\<And>(I :: 'a interp) \<rho>. defined_by I D \<Longrightarrow> list_all2 (\<lambda>f g. fval I \<rho> g = fval I \<rho> f) fs gs"
    and "\<And>I :: 'a interp. \<exists>I'. agree K I I' \<and> defined_by I' D"
  shows "equates (TY :: 'a itself) K K' D fs gs"
  using assms unfolding equates_def by blast

lemma equates_syms: "equates TY K K' D fs gs \<Longrightarrow> g \<in> set gs \<union> D \<Longrightarrow> fsyms g \<subseteq> K'"
  unfolding equates_def by blast

lemma equates_grows: "equates TY K K' D fs gs \<Longrightarrow> K \<subseteq> K'"
  by (simp add: equates_def)

lemma equates_expands:
  fixes TY :: "'a itself"
  assumes f: "equates TY K K1 D fs gs" and g: "equates TY K1 K2 E hs ks"
  shows "\<exists>I'. agree K (I :: 'a interp) I' \<and> defined_by I' (D \<union> E)"
proof -
  obtain I1 where I1: "agree K I I1" "defined_by I1 D" using f unfolding equates_def by blast
  obtain I2 where I2: "agree K1 I1 I2" "defined_by I2 E" using g unfolding equates_def by blast
  have sub: "K \<subseteq> K1" "(\<Union>d \<in> D. fsyms d) \<subseteq> K1" using f by (auto simp: equates_def)
  have "agree K I I2" by (rule agree_trans [OF I1(1) agree_mono [OF I2(1) sub(1)]])
  moreover have "defined_by I2 (D \<union> E)" using I1(2) I2(2) defined_by_agree [OF I2(1) sub(2)] by simp
  ultimately show ?thesis by blast
qed

lemma equates_cons:
  fixes TY :: "'a itself"
  assumes f: "equates TY K K1 D [f] [g]" and fs: "equates TY K1 K2 E fs gs"
    and old: "\<And>h. h \<in> set fs \<Longrightarrow> fsyms h \<subseteq> K"
  shows "equates TY K K2 (D \<union> E) (f # fs) (g # gs)"
proof (rule equatesI)
  show "K \<subseteq> K2" using f fs by (auto simp: equates_def)
  show "fsyms h \<subseteq> K2" if "h \<in> set (g # gs) \<union> (D \<union> E)" for h
    using that equates_syms [OF f, of h] equates_syms [OF fs, of h] equates_grows [OF fs]
    by (cases "h \<in> set [g] \<union> D") auto
  show "list_all2 (\<lambda>f g. fval I \<rho> g = fval I \<rho> f) (f # fs) (g # gs)"
    if "defined_by I (D \<union> E)" for I :: "'a interp" and \<rho>
    using f fs that by (simp add: equates_def)
qed (rule equates_expands [OF f fs])

lemma equates_trans:
  fixes TY :: "'a itself"
  assumes f: "equates TY K K1 D [f] [g]" and g: "equates TY K1 K2 E [g] [h]"
  shows "equates TY K K2 (D \<union> E) [f] [h]"
proof (rule equatesI)
  show "K \<subseteq> K2" using f g by (auto simp: equates_def)
  show "fsyms h' \<subseteq> K2" if "h' \<in> set [h] \<union> (D \<union> E)" for h'
    using that equates_syms [OF f, of h'] equates_syms [OF g, of h'] equates_grows [OF g]
    by (cases "h' \<in> D") auto
  show "list_all2 (\<lambda>f g. fval I \<rho> g = fval I \<rho> f) [f] [h]" if "defined_by I (D \<union> E)" for I :: "'a interp" and \<rho>
    using f g that by (simp add: equates_def)
qed (rule equates_expands [OF f g])

lemma equates_nil: "equates TY K K {} [] []"
  by (auto simp: equates_def intro: agree_refl)

lemma equates_same: "fsyms f \<subseteq> K \<Longrightarrow> equates TY K K {} [f] [f]"
  by (auto simp: equates_def intro: agree_refl)

text \<open>Every context keeps equivalence.\<close>

lemma equates_context:
  fixes TY :: "'a itself"
  assumes c: "equates TY K K' D fs gs" and syms: "fsyms h' \<subseteq> (\<Union>g \<in> set gs. fsyms g)"
    and ctx: "\<And>I :: 'a interp. (\<And>\<rho>. list_all2 (\<lambda>f g. fval I \<rho> g = fval I \<rho> f) fs gs) \<Longrightarrow> \<forall>\<rho>. fval I \<rho> h' = fval I \<rho> h"
  shows "equates TY K K' D [h] [h']"
proof (rule equatesI)
  show "K \<subseteq> K'" by (rule equates_grows [OF c])
  show "fsyms g \<subseteq> K'" if "g \<in> set [h'] \<union> D" for g
    using that syms equates_syms [OF c] by fastforce
  show "list_all2 (\<lambda>f g. fval I \<rho> g = fval I \<rho> f) [h] [h']" if "defined_by I D" for I :: "'a interp" and \<rho>
    using ctx [of I] c that by (simp add: equates_def)
  show "\<exists>I'. agree K I I' \<and> defined_by I' D" for I :: "'a interp" using c unfolding equates_def by blast
qed

section \<open>Passes over formulas that draw symbols\<close>

text \<open>
  A pass threads a state \<open>s\<close> that knows symbols and has symbols left; \<open>new s s'\<close> are the
  definitions that were added between two states, \<open>ext s s'\<close> says that the second comes from
  the first, and \<open>rel\<close> relates the formulas before and after (\<open>conservative\<close> or \<open>equates\<close>). A
  call on the formulas \<open>fs\<close> delivers the formulas \<open>gs\<close>, which satisfy \<open>Q\<close>.
\<close>

type_synonym pass_rel = "SymbolId set \<Rightarrow> SymbolId set \<Rightarrow> Formula set \<Rightarrow> Formula list \<Rightarrow> Formula list \<Rightarrow> bool"

definition delivers :: "pass_rel \<Rightarrow> ('s \<Rightarrow> SymbolId set) \<Rightarrow> ('s \<Rightarrow> nat \<Rightarrow> bool) \<Rightarrow>
    ('s \<Rightarrow> 's \<Rightarrow> Formula set) \<Rightarrow> ('s \<Rightarrow> 's \<Rightarrow> bool) \<Rightarrow> (Formula \<Rightarrow> bool) \<Rightarrow>
    Formula list \<Rightarrow> 's \<Rightarrow> nat \<Rightarrow> Formula list \<Rightarrow> 's \<Rightarrow> bool" where
  "delivers rel known left new ext Q fs s n gs s' \<longleftrightarrow> left s' n \<and> ext s s' \<and> (\<forall>g \<in> set gs. Q g) \<and>
     rel (known s) (known s') (new s s') fs gs"

lemma deliversI:
  "left s' n \<Longrightarrow> ext s s' \<Longrightarrow> (\<And>g. g \<in> set gs \<Longrightarrow> Q g) \<Longrightarrow>
     rel (known s) (known s') (new s s') fs gs \<Longrightarrow> delivers rel known left new ext Q fs s n gs s'"
  by (simp add: delivers_def)

locale symbol_pass =
  fixes rel :: pass_rel
    and known :: "'s \<Rightarrow> SymbolId set"
    and left :: "'s \<Rightarrow> nat \<Rightarrow> bool"
    and new :: "'s \<Rightarrow> 's \<Rightarrow> Formula set"
    and ext :: "'s \<Rightarrow> 's \<Rightarrow> bool"
  assumes ext_refl: "ext s s"
    and ext_trans: "ext s s1 \<Longrightarrow> ext s1 s2 \<Longrightarrow> ext s s2"
    and new_refl: "new s s = {}"
    and new_trans: "ext s s1 \<Longrightarrow> ext s1 s2 \<Longrightarrow> new s s2 = new s s1 \<union> new s1 s2"
    and rel_nil: "rel K K {} [] []"
    and rel_same: "fsyms f \<subseteq> K \<Longrightarrow> rel K K {} [f] [f]"
    and rel_grows: "rel K K' D fs gs \<Longrightarrow> K \<subseteq> K'"
    and rel_cons: "rel K K1 D [f] [g] \<Longrightarrow> rel K1 K2 E fs gs \<Longrightarrow> (\<And>h. h \<in> set fs \<Longrightarrow> fsyms h \<subseteq> K) \<Longrightarrow>
      rel K K2 (D \<union> E) (f # fs) (g # gs)"
    and rel_trans: "rel K K1 D [f] [g] \<Longrightarrow> rel K1 K2 E [g] [h] \<Longrightarrow> rel K K2 (D \<union> E) [f] [h]"
begin

lemma deliver_none: "left s n \<Longrightarrow> delivers rel known left new ext Q [] s n [] s"
  by (simp add: delivers_def ext_refl new_refl rel_nil)

lemma deliver_same:
  "left s n \<Longrightarrow> fsyms f \<subseteq> known s \<Longrightarrow> Q f \<Longrightarrow> delivers rel known left new ext Q [f] s n [f] s"
  by (simp add: delivers_def ext_refl new_refl rel_same)

lemma deliver_grows: "delivers rel known left new ext Q fs s n gs s' \<Longrightarrow> known s \<subseteq> known s'"
  by (auto simp: delivers_def dest: rel_grows)

lemma deliver_cons:
  assumes f: "delivers rel known left new ext Q [f] s m [g] s1"
    and fs: "delivers rel known left new ext Q fs s1 n gs s2"
    and old: "\<And>h. h \<in> set fs \<Longrightarrow> fsyms h \<subseteq> known s"
  shows "delivers rel known left new ext Q (f # fs) s n (g # gs) s2"
proof (rule deliversI)
  have ext: "ext s s1" "ext s1 s2" using f fs by (simp_all add: delivers_def)
  show "ext s s2" by (rule ext_trans [OF ext])
  show "left s2 n" using fs by (simp add: delivers_def)
  show "Q h" if "h \<in> set (g # gs)" for h using that f fs by (auto simp: delivers_def)
  show "rel (known s) (known s2) (new s s2) (f # fs) (g # gs)"
    unfolding new_trans [OF ext]
    by (rule rel_cons [of _ "known s1"]) (use f fs old in \<open>simp_all add: delivers_def\<close>)
qed

lemma deliver_then:
  assumes f: "delivers rel known left new ext P [f] s m [g] s1"
    and g: "delivers rel known left new ext Q [g] s1 n [h] s2"
  shows "delivers rel known left new ext Q [f] s n [h] s2"
proof (rule deliversI)
  have ext: "ext s s1" "ext s1 s2" using f g by (simp_all add: delivers_def)
  show "ext s s2" by (rule ext_trans [OF ext])
  show "left s2 n" and "\<And>h'. h' \<in> set [h] \<Longrightarrow> Q h'" using g by (simp_all add: delivers_def)
  show "rel (known s) (known s2) (new s s2) [f] [h]"
    unfolding new_trans [OF ext]
    by (rule rel_trans [of _ "known s1" _ _ g]) (use f g in \<open>simp_all add: delivers_def\<close>)
qed

text \<open>The loop over the members of a connective.\<close>

lemma deliver_list:
  assumes "\<And>c s n. c \<in> set cs \<Longrightarrow> fsyms c \<subseteq> known s \<Longrightarrow> left s (cost c + n) \<Longrightarrow>
      \<exists>g s'. call c s = Some (g, s') \<and> delivers rel known left new ext Q [c] s n [g] s'"
  shows "(\<And>c. c \<in> set cs \<Longrightarrow> fsyms c \<subseteq> known s) \<Longrightarrow> left s (sum_list (map cost cs) + n) \<Longrightarrow>
    \<exists>gs s'. mapM_st call cs s = Some (gs, s') \<and> delivers rel known left new ext Q cs s n gs s'"
  using assms
proof (induction cs arbitrary: s)
  case Nil
  then show ?case using deliver_none by auto
next
  case (Cons c cs)
  have "left s (cost c + (sum_list (map cost cs) + n))" using Cons.prems(2) by (simp add: add.assoc)
  then obtain g s1 where 1: "call c s = Some (g, s1)"
    "delivers rel known left new ext Q [c] s (sum_list (map cost cs) + n) [g] s1"
    using Cons.prems(3) [of c s "sum_list (map cost cs) + n"] Cons.prems(1) [of c] by auto
  have "fsyms d \<subseteq> known s1" if "d \<in> set cs" for d
    using Cons.prems(1) [of d] that deliver_grows [OF 1(2)] by (metis list.set_intros(2) subset_trans)
  moreover have "left s1 (sum_list (map cost cs) + n)" using 1(2) by (simp add: delivers_def)
  ultimately obtain gs s2 where 2: "mapM_st call cs s1 = Some (gs, s2)"
    "delivers rel known left new ext Q cs s1 n gs s2"
    using Cons.IH [of s1] Cons.prems(3) by (metis list.set_intros(2))
  have "delivers rel known left new ext Q (c # cs) s n (g # gs) s2"
    by (rule deliver_cons [OF 1(2) 2(2)]) (use Cons.prems(1) in simp)
  then show ?case using 1(1) 2(1) by simp
qed

end

text \<open>Connectives around what a conservative pass delivers.\<close>

lemma deliver_cong:
  fixes TY :: "'a itself"
  assumes "delivers (conservative TY) known left new ext P [f] s n [g] s'" "fsyms h \<subseteq> fsyms g" "Q h"
    and "\<And>(I :: 'a interp) \<rho>. fval I \<rho> h = fval I \<rho> g"
  shows "delivers (conservative TY) known left new ext Q [f] s n [h] s'"
proof -
  have c: "conservative TY (known s) (known s') (new s s') [f] [g]" using assms(1) by (simp add: delivers_def)
  then have "fsyms h \<subseteq> known s'" using conservative_syms [OF c, of g] assms(2) by simp
  then show ?thesis using assms(1,3,4) conservative_cong [OF c] by (simp add: delivers_def)
qed

lemma deliver_And:
  "delivers (conservative TY) known left new ext P fs s n gs s' \<Longrightarrow> Q (mk_and gs) \<Longrightarrow>
     delivers (conservative TY) known left new ext Q [And fs] s n [mk_and gs] s'"
  by (simp add: delivers_def conservative_And)

lemma deliver_Or:
  "delivers (conservative TY) known left new ext P fs s n gs s' \<Longrightarrow> Q (mk_or gs) \<Longrightarrow>
     delivers (conservative TY) known left new ext Q [Or fs] s n [mk_or gs] s'"
  by (simp add: delivers_def conservative_Or)

text \<open>Around what an equivalence pass delivers.\<close>

lemma deliver_context:
  fixes TY :: "'a itself"
  assumes "delivers (equates TY) known left new ext P fs s n gs s'" "fsyms h' \<subseteq> (\<Union>g \<in> set gs. fsyms g)" "Q h'"
    and "\<And>I :: 'a interp. (\<And>\<rho>. list_all2 (\<lambda>f g. fval I \<rho> g = fval I \<rho> f) fs gs) \<Longrightarrow> \<forall>\<rho>. fval I \<rho> h' = fval I \<rho> h"
  shows "delivers (equates TY) known left new ext Q [h] s n [h'] s'"
  using assms equates_context [of TY "known s" "known s'" "new s s'" fs gs h' h] by (simp add: delivers_def)

end
