(* ===== verification/Skolem.thy ===== *)
theory Skolem
  imports Nnf Subst Freshness "HOL-Library.Char_ord"
begin

text \<open>
  Skolemization, \<open>crates/mrs-cnf/src/skolem.rs\<close>, and that it keeps satisfiability: every
  structure of the input can be extended, at the fresh symbols only, to one of the result.
\<close>

section \<open>The code\<close>

text \<open>Names are strings of 8-bit characters here; TPTP names are ASCII.\<close>

definition is_ascii_alphanumeric :: "char \<Rightarrow> bool" where
  "is_ascii_alphanumeric c \<longleftrightarrow>
     (CHR ''0'' \<le> c \<and> c \<le> CHR ''9'') \<or> (CHR ''A'' \<le> c \<and> c \<le> CHR ''Z'') \<or> (CHR ''a'' \<le> c \<and> c \<le> CHR ''z'')"

definition sanitize :: "string \<Rightarrow> string" where
  "sanitize prefix = map (\<lambda>c. if is_ascii_alphanumeric c \<or> c = CHR ''_'' then c else CHR ''_'') prefix"

definition fresh_skolem :: "string \<Rightarrow> SymbolTable \<Rightarrow> (SymbolId \<times> SymbolTable) option" where
  "fresh_skolem prefix st = fresh_symbol (''sk_'' @ sanitize prefix) st"

text \<open>The universal variables in scope that occur in the body, each once, in scope order.\<close>

fun filtered_vars :: "VarId set \<Rightarrow> VarId set \<Rightarrow> VarId list \<Rightarrow> VarId list" where
  "filtered_vars body_fvs seen [] = []"
| "filtered_vars body_fvs seen (u # us) =
     (if u \<in> body_fvs \<and> u \<notin> seen then u # filtered_vars body_fvs (insert u seen) us
      else filtered_vars body_fvs seen us)"

definition skolem_term :: "SymbolId \<Rightarrow> VarId list \<Rightarrow> Term" where
  "skolem_term sk us = (if us = [] then constant_term sk else App sk (map Var us))"

text \<open>
  \<open>SkolemCtx::skolemize\<close>. Its stack \<open>universal_vars\<close> is back to its old value when a call
  returns, so it is an argument here.
\<close>

lemma fnodes_rename_var [simp]: "fnodes (rename_var f old new) = fnodes f"
  by (induction f) (auto intro!: arg_cong [where f = sum_list])

lemma fnodes_apply_formula_rec:
  "fnodes (fst (apply_formula_rec s f nv)) = fnodes f"
  "map fnodes (fst (apply_formulas_rec s fs nv)) = map fnodes fs"
  by (induction s f nv and s fs nv rule: apply_formula_rec_apply_formulas_rec.induct)
    (auto split: prod.splits)

lemma fnodes_apply_formula [simp]: "fnodes (apply_formula s f) = fnodes f"
  by (simp add: apply_formula_def fnodes_apply_formula_rec)

lemma fnodes_member: "c \<in> set cs \<Longrightarrow> fnodes c < Suc (sum_list (map fnodes cs))"
  by (auto simp: less_Suc_eq_le intro: sum_list_member_le)

function skolemize_rec :: "string \<Rightarrow> VarId list \<Rightarrow> Formula \<Rightarrow> SymbolTable \<Rightarrow> (Formula \<times> SymbolTable) option" where
  "skolemize_rec prefix us f symbols =
     (case f of
        Forall v body \<Rightarrow> do {
          (result, symbols) \<leftarrow> skolemize_rec prefix (us @ [v]) body symbols;
          Some (Forall v result, symbols) }
      | Exists v body \<Rightarrow> do {
          (skolem_sym, symbols) \<leftarrow> fresh_skolem prefix symbols;
          skolemize_rec prefix us
            (apply_formula (singleton v (skolem_term skolem_sym
               (filtered_vars (formula_free_vars body) {} us))) body) symbols }
      | Atom a \<Rightarrow> Some (Atom a, symbols)
      | Neg inner \<Rightarrow> do {
          (result, symbols) \<leftarrow> skolemize_rec prefix us inner symbols;
          Some (Neg result, symbols) }
      | And cs \<Rightarrow> do {
          (results, symbols) \<leftarrow> mapM_st (\<lambda>c symbols. skolemize_rec prefix us c symbols) cs symbols;
          Some (mk_and results, symbols) }
      | Or ds \<Rightarrow> do {
          (results, symbols) \<leftarrow> mapM_st (\<lambda>d symbols. skolemize_rec prefix us d symbols) ds symbols;
          Some (mk_or results, symbols) }
      | Implies a b \<Rightarrow> do {
          (a', symbols) \<leftarrow> skolemize_rec prefix us a symbols;
          (b', symbols) \<leftarrow> skolemize_rec prefix us b symbols;
          Some (Implies a' b', symbols) }
      | Iff a b \<Rightarrow> do {
          (a', symbols) \<leftarrow> skolemize_rec prefix us a symbols;
          (b', symbols) \<leftarrow> skolemize_rec prefix us b symbols;
          Some (Iff a' b', symbols) }
      | FTrue \<Rightarrow> Some (FTrue, symbols)
      | FFalse \<Rightarrow> Some (FFalse, symbols))"
  by pat_completeness auto
termination
  by (relation "measure (\<lambda>(p, us, f, st). fnodes f)") (auto simp: fnodes_member)

declare skolemize_rec.simps [simp del]

definition skolemize :: "Formula \<Rightarrow> SymbolTable \<Rightarrow> string \<Rightarrow> (Formula \<times> SymbolTable) option" where
  "skolemize f symbols prefix = skolemize_rec prefix [] f symbols"

section \<open>Substitution without capture\<close>

text \<open>
  \<open>occurs_within\<close>: the variable occurs within the nesting limit only. \<open>scopes_ok U f\<close>: no
  quantifier of \<open>f\<close> binds a variable that is already in scope.
\<close>

fun occurs_within :: "VarId \<Rightarrow> nat \<Rightarrow> Term \<Rightarrow> bool" where
  "occurs_within w d (Var v) = (v = w \<longrightarrow> d \<le> 500)"
| "occurs_within w d (App f args) = (\<forall>a \<in> set args. occurs_within w (Suc d) a)"

fun near :: "VarId \<Rightarrow> Formula \<Rightarrow> bool" where
  "near w (Atom a) = (\<forall>t \<in> set (atom_terms a). occurs_within w 0 t)"
| "near w (Neg f) = near w f"
| "near w (And fs) = (\<forall>f \<in> set fs. near w f)"
| "near w (Or fs) = (\<forall>f \<in> set fs. near w f)"
| "near w (Implies a b) = (near w a \<and> near w b)"
| "near w (Iff a b) = (near w a \<and> near w b)"
| "near w (Forall v f) = (v = w \<or> near w f)"
| "near w (Exists v f) = (v = w \<or> near w f)"
| "near w _ = True"

fun scopes_ok :: "VarId set \<Rightarrow> Formula \<Rightarrow> bool" where
  "scopes_ok U (Neg f) = scopes_ok U f"
| "scopes_ok U (And fs) = (\<forall>f \<in> set fs. scopes_ok U f)"
| "scopes_ok U (Or fs) = (\<forall>f \<in> set fs. scopes_ok U f)"
| "scopes_ok U (Implies a b) = (scopes_ok U a \<and> scopes_ok U b)"
| "scopes_ok U (Iff a b) = (scopes_ok U a \<and> scopes_ok U b)"
| "scopes_ok U (Forall v f) = (v \<notin> U \<and> scopes_ok (insert v U) f)"
| "scopes_ok U (Exists v f) = (v \<notin> U \<and> scopes_ok (insert v U) f)"
| "scopes_ok U _ = True"

text \<open>Every existential variable occurs within the nesting limit.\<close>

fun shallow :: "Formula \<Rightarrow> bool" where
  "shallow (Neg f) = shallow f"
| "shallow (And fs) = (\<forall>f \<in> set fs. shallow f)"
| "shallow (Or fs) = (\<forall>f \<in> set fs. shallow f)"
| "shallow (Implies a b) = (shallow a \<and> shallow b)"
| "shallow (Iff a b) = (shallow a \<and> shallow b)"
| "shallow (Forall v f) = shallow f"
| "shallow (Exists v f) = (near v f \<and> shallow f)"
| "shallow _ = True"

fun isubst :: "VarId \<Rightarrow> Term \<Rightarrow> Formula \<Rightarrow> Formula" where
  "isubst y t (Atom a) = Atom (inst_atom (Var(y := t)) a)"
| "isubst y t (Neg f) = Neg (isubst y t f)"
| "isubst y t (And fs) = And (map (isubst y t) fs)"
| "isubst y t (Or fs) = Or (map (isubst y t) fs)"
| "isubst y t (Implies a b) = Implies (isubst y t a) (isubst y t b)"
| "isubst y t (Iff a b) = Iff (isubst y t a) (isubst y t b)"
| "isubst y t (Forall v f) = Forall v (if v = y then f else isubst y t f)"
| "isubst y t (Exists v f) = Exists v (if v = y then f else isubst y t f)"
| "isubst y t FTrue = FTrue"
| "isubst y t FFalse = FFalse"

lemma scopes_ok_mono: "scopes_ok U f \<Longrightarrow> W \<subseteq> U \<Longrightarrow> scopes_ok W f"
proof (induction f arbitrary: U W)
  case (Forall v f)
  then show ?case using Forall.IH [of "insert v U" "insert v W"] by auto
next
  case (Exists v f)
  then show ?case using Exists.IH [of "insert v U" "insert v W"] by auto
qed auto

lemma lookup_singleton [simp]: "lookup (singleton y t) w = (if w = y then Some t else None)"
  by (simp add: singleton_def lookup_def bind_var_to_def new_subst_def)

lemma bindings_singleton [simp]: "bindings (singleton y t) = fmupd y t fmempty"
  by (simp add: singleton_def bind_var_to_def new_subst_def)

lemma captures_singleton [simp]: "captures_var (singleton y t) v \<longleftrightarrow> v \<in> vars t"
  by (auto simp: captures_var_def contains_var_eq fmlookup_ran'_iff split: if_splits)

lemma flat_singleton: "y \<notin> vars t \<Longrightarrow> flat (singleton y t)"
  by (auto simp: flat_def unbound_in_def)

lemma as_fun_singleton [simp]: "as_fun (singleton y t) = Var(y := t)"
  by (auto simp: as_fun_def fun_eq_iff)

lemma levels_singleton: "levels_ok (singleton y t) d u = occurs_within y d u"
  by (induction u arbitrary: d) auto

lemma covered_singleton: "covered (singleton y t) f = near y f"
  by (induction f) (auto simp: levels_singleton)

text \<open>Below quantifiers that capture nothing, \<open>apply_formula\<close> is plain replacement.\<close>

lemma apply_atom_singleton:
  "y \<notin> vars t \<Longrightarrow> near y (Atom a) \<Longrightarrow> apply_atom (singleton y t) a = inst_atom (Var(y := t)) a"
  using apply_atom_flat [OF flat_singleton, of y t a] by (cases a) (auto simp: levels_singleton)

lemma apply_formula_rec_isubst:
  "s = singleton y t \<Longrightarrow> y \<notin> vars t \<Longrightarrow> near y f \<Longrightarrow> scopes_ok (vars t) f \<Longrightarrow>
     apply_formula_rec s f nv = (isubst y t f, nv)"
  "s = singleton y t \<Longrightarrow> y \<notin> vars t \<Longrightarrow> \<forall>f \<in> set fs. near y f \<and> scopes_ok (vars t) f \<Longrightarrow>
     apply_formulas_rec s fs nv = (map (isubst y t) fs, nv)"
proof (induction s f nv and s fs nv rule: apply_formula_rec_apply_formulas_rec.induct)
  case (1 s a nv)
  then show ?case using apply_atom_singleton by simp
next
  case (7 s v body nv)
  have "scopes_ok (vars t) body" using 7(6) by (auto intro: scopes_ok_mono)
  then show ?case using 7 by (cases "v = y") auto
next
  case (8 s v body nv)
  have "scopes_ok (vars t) body" using 8(6) by (auto intro: scopes_ok_mono)
  then show ?case using 8 by (cases "v = y") auto
qed (auto simp: Let_def)

lemma apply_formula_isubst:
  "y \<notin> vars t \<Longrightarrow> near y f \<Longrightarrow> scopes_ok (vars t) f \<Longrightarrow> apply_formula (singleton y t) f = isubst y t f"
  by (simp add: apply_formula_def apply_formula_rec_isubst)

lemma fval_isubst:
  "y \<notin> vars t \<Longrightarrow> scopes_ok (vars t) f \<Longrightarrow> fval I \<rho> (isubst y t f) = fval I (\<rho>(y := tval I \<rho> t)) f"
proof (induction f arbitrary: \<rho>)
  case (Atom a)
  have "(\<lambda>v. tval I \<rho> ((Var(y := t)) v)) = \<rho>(y := tval I \<rho> t)" by auto
  then show ?case by (simp add: aval_inst del: fun_upd_apply)
next
  case (Forall v f)
  have f: "scopes_ok (vars t) f" "v \<notin> vars t" using Forall.prems(2) by (auto intro: scopes_ok_mono)
  have "fval I (\<rho>(v := x)) (isubst y t f) = fval I (\<rho>(y := tval I \<rho> t, v := x)) f" if "v \<noteq> y" for x
  proof -
    have "tval I (\<rho>(v := x)) t = tval I \<rho> t" by (rule tval_cong) (use f(2) in auto)
    then show ?thesis using Forall.IH [OF Forall.prems(1) f(1)] that by (simp add: fun_upd_twist del: fun_upd_apply)
  qed
  then show ?case by (auto simp del: fun_upd_apply)
next
  case (Exists v f)
  have f: "scopes_ok (vars t) f" "v \<notin> vars t" using Exists.prems(2) by (auto intro: scopes_ok_mono)
  have "fval I (\<rho>(v := x)) (isubst y t f) = fval I (\<rho>(y := tval I \<rho> t, v := x)) f" if "v \<noteq> y" for x
  proof -
    have "tval I (\<rho>(v := x)) t = tval I \<rho> t" by (rule tval_cong) (use f(2) in auto)
    then show ?thesis using Exists.IH [OF Exists.prems(1) f(1)] that by (simp add: fun_upd_twist del: fun_upd_apply)
  qed
  then show ?case by (auto simp del: fun_upd_apply)
qed simp_all

lemma avars_inst_atom: "avars (inst_atom \<theta> a) = (\<Union>v \<in> avars a. vars (\<theta> v))"
  by (cases a) (auto simp: vars_inst)

lemma fvars_isubst: "fvars (isubst y t f) \<subseteq> fvars f - {y} \<union> vars t"
  by (induction f) (auto simp: avars_inst_atom split: if_splits)

lemma allvars_isubst: "allvars (isubst y t f) \<subseteq> allvars f \<union> vars t"
  by (induction f) (auto simp: avars_inst_atom split: if_splits)

lemma tsyms_inst: "tsyms (inst (Var(y := t)) u) \<subseteq> tsyms u \<union> tsyms t"
  by (induction u) auto

lemma asyms_inst: "asyms (inst_atom (Var(y := t)) a) \<subseteq> asyms a \<union> tsyms t"
  using tsyms_inst [of y t] by (cases a) auto

lemma fsyms_isubst: "fsyms (isubst y t f) \<subseteq> fsyms f \<union> tsyms t"
proof (induction f)
  case (Atom a)
  then show ?case using asyms_inst by simp
qed auto

text \<open>How many Skolem symbols a formula in negation normal form needs.\<close>

fun skolems :: "Formula \<Rightarrow> nat" where
  "skolems (Neg f) = skolems f"
| "skolems (And fs) = sum_list (map skolems fs)"
| "skolems (Or fs) = sum_list (map skolems fs)"
| "skolems (Implies a b) = skolems a + skolems b"
| "skolems (Iff a b) = skolems a + skolems b"
| "skolems (Forall v f) = skolems f"
| "skolems (Exists v f) = Suc (skolems f)"
| "skolems _ = 0"

lemma skolems_isubst [simp]: "skolems (isubst y t f) = skolems f"
  by (induction f) (auto intro!: arg_cong [where f = sum_list])

lemma is_nnf_isubst: "is_nnf f \<Longrightarrow> is_nnf (isubst y t f)"
proof (induction f)
  case (Neg f)
  then show ?case by (cases f) auto
qed (auto simp: list_all_iff)

lemma scopes_ok_isubst: "scopes_ok U f \<Longrightarrow> scopes_ok U (isubst y t f)"
  by (induction f arbitrary: U) auto

lemma occurs_within_absent: "w \<notin> vars t \<Longrightarrow> occurs_within w d t"
  by (induction t arbitrary: d) auto

lemma occurs_within_inst: "w \<notin> vars t \<Longrightarrow> occurs_within w d u \<Longrightarrow> occurs_within w d (inst (Var(y := t)) u)"
  by (induction u arbitrary: d) (auto simp: occurs_within_absent)

lemma near_isubst: "w \<notin> vars t \<Longrightarrow> near w f \<Longrightarrow> near w (isubst y t f)"
proof (induction f)
  case (Atom a)
  then show ?case by (cases a) (auto simp: occurs_within_inst)
qed auto

lemma shallow_isubst: "scopes_ok (vars t) f \<Longrightarrow> shallow f \<Longrightarrow> shallow (isubst y t f)"
proof (induction f)
  case (Forall v f)
  then have "scopes_ok (vars t) f" by (auto intro: scopes_ok_mono)
  then show ?case using Forall by auto
next
  case (Exists v f)
  then have "scopes_ok (vars t) f" by (auto intro: scopes_ok_mono)
  then show ?case using Exists near_isubst by auto
qed auto

section \<open>One existential quantifier\<close>

lemma set_filtered_vars: "set (filtered_vars A seen us) = (set us \<inter> A) - seen"
  by (induction us arbitrary: seen) auto

lemma distinct_filtered_vars: "distinct (filtered_vars A seen us)"
  by (induction us arbitrary: seen) (auto simp: set_filtered_vars)

lemma vars_skolem_term [simp]: "vars (skolem_term sk us) = set us"
  by (auto simp: skolem_term_def constant_term_def)

lemma tsyms_skolem_term [simp]: "tsyms (skolem_term sk us) = {sk}"
  by (auto simp: skolem_term_def constant_term_def)

lemma tval_skolem_term: "tval I \<rho> (skolem_term sk us) = ifun I sk (map \<rho> us)"
  by (simp add: skolem_term_def constant_term_def comp_def)

lemma map_of_zip_map: "w \<in> set us \<Longrightarrow> map_of (zip us (map \<rho> us)) w = Some (\<rho> w)"
  by (induction us) auto

lemma skolem_step:
  fixes TY :: "'a itself"
  assumes new: "sk \<notin> K" and syms: "fsyms body \<subseteq> K" and v: "v \<notin> set us"
    and vars: "fvars body \<subseteq> insert v (set us)" and sc: "scopes_ok (set us) body"
  shows "conservative TY K (insert sk K) {} [Exists v body] [isubst v (skolem_term sk us) body]"
proof (rule conservativeI)
  show "K \<subseteq> insert sk K" by auto
  show "fsyms g \<subseteq> insert sk K" if "g \<in> set [isubst v (skolem_term sk us) body] \<union> {}" for g
    using that fsyms_isubst [of v "skolem_term sk us" body] syms by auto
  have val: "fval I \<rho> (isubst v (skolem_term sk us) body) = fval I (\<rho>(v := ifun I sk (map \<rho> us))) body"
    for I :: "'a interp" and \<rho>
    using fval_isubst [of v "skolem_term sk us" body I \<rho>] v sc by (simp add: tval_skolem_term)
  show "list_all2 (\<lambda>f g. fval I \<rho> g \<longrightarrow> fval I \<rho> f) [Exists v body] [isubst v (skolem_term sk us) body]"
    for I :: "'a interp" and \<rho>
    using val by auto
  fix I :: "'a interp"
  define env where "env xs w = the (map_of (zip us xs) w)" for xs :: "'a list" and w
  define choice where "choice xs = (SOME a. fval I ((env xs)(v := a)) body)" for xs
  let ?I = "I\<lparr>ifun := (ifun I)(sk := choice)\<rparr>"
  have agree: "agree K I ?I" using new by (auto simp: agree_def)
  have "fval ?I \<rho> (isubst v (skolem_term sk us) body)" if ex: "fval I \<rho> (Exists v body)" for \<rho>
  proof -
    have "((env (map \<rho> us))(v := a)) w = (\<rho>(v := a)) w" if "w \<in> fvars body" for a w
      using that vars map_of_zip_map [of w us \<rho>] by (auto simp: env_def)
    then have same: "fval I ((env (map \<rho> us))(v := a)) body = fval I (\<rho>(v := a)) body" for a
      by (rule fval_cong)
    obtain a where "fval I (\<rho>(v := a)) body" using ex by auto
    then have "fval I (\<rho>(v := choice (map \<rho> us))) body"
      unfolding choice_def same [symmetric] by (rule someI)
    then have "fval ?I (\<rho>(v := choice (map \<rho> us))) body" using fval_agree [OF agree syms] by simp
    then show ?thesis by (simp add: val)
  qed
  then show "\<exists>I'. agree K I I' \<and> defined_by I' {} \<and>
      implied_by I I' [Exists v body] [isubst v (skolem_term sk us) body]"
    using agree by (intro exI [of _ ?I]) (auto simp: implied_by_def)
qed

section \<open>The whole formula\<close>

fun no_exists :: "Formula \<Rightarrow> bool" where
  "no_exists (Neg f) = no_exists f"
| "no_exists (And fs) = (\<forall>f \<in> set fs. no_exists f)"
| "no_exists (Or fs) = (\<forall>f \<in> set fs. no_exists f)"
| "no_exists (Implies a b) = (no_exists a \<and> no_exists b)"
| "no_exists (Iff a b) = (no_exists a \<and> no_exists b)"
| "no_exists (Forall v f) = no_exists f"
| "no_exists (Exists v f) = False"
| "no_exists _ = True"

lemma no_exists_mk [simp]:
  "no_exists (mk_and fs) = (\<forall>f \<in> set fs. no_exists f)" "no_exists (mk_or fs) = (\<forall>f \<in> set fs. no_exists f)"
  by (cases fs; auto simp: mk_and_def mk_or_def)+

definition sk_ready :: "VarId list \<Rightarrow> Formula \<Rightarrow> bool" where
  "sk_ready us f \<longleftrightarrow> is_nnf f \<and> scopes_ok (set us) f \<and> fvars f \<subseteq> set us \<and> shallow f"

text \<open>A call introduces symbols and no definitions.\<close>

interpretation skolem: symbol_pass "conservative TY" known_symbols symbols_left "\<lambda>_ _. {}" "\<lambda>_ _. True"
  for TY
  by unfold_locales (simp_all add: conservative_nil conservative_same conservative_grows
    conservative_cons conservative_trans)

definition skolem_form :: "VarId list \<Rightarrow> Formula \<Rightarrow> bool" where
  "skolem_form us g \<longleftrightarrow> fvars g \<subseteq> set us \<and> is_nnf g \<and> no_exists g"

abbreviation skolem_done :: "'a itself \<Rightarrow> VarId list \<Rightarrow> Formula list \<Rightarrow> SymbolTable \<Rightarrow> nat \<Rightarrow> Formula list \<Rightarrow> SymbolTable \<Rightarrow> bool" where
  "skolem_done TY us \<equiv> delivers (conservative TY) known_symbols symbols_left (\<lambda>_ _. {}) (\<lambda>_ _. True) (skolem_form us)"

lemma skolemize_rec_correct:
  "sk_ready us f \<Longrightarrow> fsyms f \<subseteq> known_symbols st \<Longrightarrow> symbols_left st (skolems f + n) \<Longrightarrow>
     \<exists>g st'. skolemize_rec prefix us f st = Some (g, st') \<and> skolem_done TY us [f] st n [g] st'"
proof (induction "fnodes f" arbitrary: us f st n rule: less_induct)
  case less
  have stay: ?case if "skolemize_rec prefix us f st = Some (f, st)" "no_exists f"
    using that less.prems skolem.deliver_same [of st n f "skolem_form us" TY] symbols_left_mono [of st "skolems f + n" n]
    by (simp add: sk_ready_def skolem_form_def)
  have list: "\<exists>gs st'. mapM_st (skolemize_rec prefix us) cs st = Some (gs, st') \<and> skolem_done TY us cs st n gs st'"
    if "f = And cs \<or> f = Or cs" for cs
  proof (rule skolem.deliver_list [where cost = skolems])
    fix c st n assume c: "c \<in> set cs" "fsyms c \<subseteq> known_symbols st" "symbols_left st (skolems c + n)"
    have "sk_ready us c" using less.prems(1) that c(1) UN_subset_iff [of fvars "set cs"]
      by (elim disjE) (simp_all add: sk_ready_def list_all_iff)
    moreover have "fnodes c < fnodes f" using that fnodes_member [OF c(1)] by auto
    ultimately show "\<exists>g st'. skolemize_rec prefix us c st = Some (g, st') \<and> skolem_done TY us [c] st n [g] st'"
      using less.hyps c(2,3) by blast
  next
    have "(\<Union>c \<in> set cs. fsyms c) \<subseteq> known_symbols st" using less.prems(2) that by (elim disjE) simp_all
    then show "fsyms c \<subseteq> known_symbols st" if "c \<in> set cs" for c using that by blast
    show "symbols_left st (sum_list (map skolems cs) + n)" using less.prems(3) that by auto
  qed
  show ?case
  proof (cases f)
    case (And cs)
    then obtain gs st' where "mapM_st (skolemize_rec prefix us) cs st = Some (gs, st')"
      "skolem_done TY us cs st n gs st'" using list by blast
    moreover have "skolem_form us (mk_and gs)"
      using calculation(2) by (auto simp: delivers_def skolem_form_def list_all_iff)
    ultimately show ?thesis using And deliver_And
      by (auto simp: skolemize_rec.simps [of _ _ "And cs"])
  next
    case (Or cs)
    then obtain gs st' where "mapM_st (skolemize_rec prefix us) cs st = Some (gs, st')"
      "skolem_done TY us cs st n gs st'" using list by blast
    moreover have "skolem_form us (mk_or gs)"
      using calculation(2) by (auto simp: delivers_def skolem_form_def list_all_iff)
    ultimately show ?thesis using Or deliver_Or
      by (auto simp: skolemize_rec.simps [of _ _ "Or cs"])
  next
    case (Forall v body)
    have "sk_ready (us @ [v]) body" using less.prems(1) Forall by (auto simp: sk_ready_def)
    then obtain g st' where "skolemize_rec prefix (us @ [v]) body st = Some (g, st')"
      "skolem_done TY (us @ [v]) [body] st n [g] st'"
      using less.hyps [of body "us @ [v]" st n] less.prems(2,3) Forall
      by (auto simp: symbols_left_def)
    then show ?thesis using Forall
      by (auto simp: skolemize_rec.simps [of _ _ "Forall v body"] delivers_def skolem_form_def
        intro!: conservative_Forall)
  next
    case (Exists v body)
    let ?us = "filtered_vars (formula_free_vars body) {} us"
    have ready: "is_nnf body" "scopes_ok (insert v (set us)) body" "v \<notin> set us"
      "fvars body \<subseteq> insert v (set us)" "near v body" "shallow body"
      using less.prems(1) Exists by (auto simp: sk_ready_def)
    have us: "set ?us = set us \<inter> fvars body" by (simp add: set_filtered_vars formula_free_vars_eq)
    have "symbols_left st (Suc (skolems body + n))" using less.prems(3) Exists by simp
    then obtain sk st1 where sk: "fresh_skolem prefix st = Some (sk, st1)" "sk \<notin> known_symbols st"
      "known_symbols st1 = insert sk (known_symbols st)" "symbols_left st1 (skolems body + n)"
      unfolding fresh_skolem_def by (rule fresh.draw_one)
    let ?t = "skolem_term sk ?us"
    let ?body = "isubst v ?t body"
    have sc: "scopes_ok (set ?us) body" "scopes_ok (set us) body"
      using ready(2) us by (auto intro: scopes_ok_mono)
    have body: "apply_formula (singleton v ?t) body = ?body"
      using ready(3,5) sc(1) us by (intro apply_formula_isubst) auto
    have step: "conservative TY (known_symbols st) (known_symbols st1) {} [f] [?body]"
      unfolding Exists sk(3)
      by (rule skolem_step) (use sk(2) less.prems(2) Exists ready sc us in auto)
    have "sk_ready us ?body"
      using ready sc us fvars_isubst [of v ?t body]
      by (auto simp: sk_ready_def is_nnf_isubst scopes_ok_isubst shallow_isubst)
    moreover have "fsyms ?body \<subseteq> known_symbols st1" using step by (simp add: conservative_def)
    moreover have "fnodes ?body < fnodes f" using body [symmetric] Exists by simp
    ultimately obtain g st' where g: "skolemize_rec prefix us ?body st1 = Some (g, st')"
      "skolem_done TY us [?body] st1 n [g] st'"
      using less.hyps [of ?body us st1 n] sk(4) by auto
    then have "skolem_done TY us [f] st n [g] st'"
      using conservative_trans [OF step, where E = "{}"] by (auto simp: delivers_def)
    moreover have "skolemize_rec prefix us f st = Some (g, st')"
      using sk(1) body g(1) by (simp add: skolemize_rec.simps [of _ _ "Exists v body"] Exists)
    ultimately show ?thesis by blast
  next
    case (Neg h)
    then obtain a where "h = Atom a" using less.prems(1) by (cases h) (auto simp: sk_ready_def)
    then show ?thesis using Neg
      by (intro stay) (simp_all add: skolemize_rec.simps [of _ _ "Neg _"] skolemize_rec.simps [of _ _ "Atom _"])
  next
    case (Implies a b)
    then show ?thesis using less.prems(1) by (simp add: sk_ready_def)
  next
    case (Iff a b)
    then show ?thesis using less.prems(1) by (simp add: sk_ready_def)
  next
    case (Atom a)
    then show ?thesis by (intro stay) (simp_all add: skolemize_rec.simps [of _ _ "Atom _"])
  next
    case FTrue
    then show ?thesis by (intro stay) (simp_all add: skolemize_rec.simps [of _ _ FTrue])
  next
    case FFalse
    then show ?thesis by (intro stay) (simp_all add: skolemize_rec.simps [of _ _ FFalse])
  qed
qed

section \<open>Placed formulas\<close>

text \<open>
  \<open>placed U f\<close>: in the scope of the variables \<open>U\<close>, every variable of \<open>f\<close> is bound, none is
  bound twice on a path, and all occur within the nesting limit. The condition is closed under
  the passes before Skolemization.
\<close>

fun placed :: "VarId set \<Rightarrow> Formula \<Rightarrow> bool" where
  "placed U (Atom a) = (avars a \<subseteq> U \<and> (\<forall>w \<in> U. near w (Atom a)))"
| "placed U (Neg f) = placed U f"
| "placed U (And fs) = (\<forall>f \<in> set fs. placed U f)"
| "placed U (Or fs) = (\<forall>f \<in> set fs. placed U f)"
| "placed U (Implies a b) = (placed U a \<and> placed U b)"
| "placed U (Iff a b) = (placed U a \<and> placed U b)"
| "placed U (Forall v f) = (v \<notin> U \<and> placed (insert v U) f)"
| "placed U (Exists v f) = (v \<notin> U \<and> placed (insert v U) f)"
| "placed U _ = True"

lemma placed_mk [simp]:
  "placed U (mk_and fs) = (\<forall>f \<in> set fs. placed U f)" "placed U (mk_or fs) = (\<forall>f \<in> set fs. placed U f)"
  by (cases fs; auto simp: mk_and_def mk_or_def)+

lemma placed_fvars: "placed U f \<Longrightarrow> fvars f \<subseteq> U"
proof (induction f arbitrary: U)
  case (Forall v f)
  then show ?case using Forall.IH [of "insert v U"] by auto
next
  case (Exists v f)
  then show ?case using Exists.IH [of "insert v U"] by auto
qed (auto simp: UN_subset_iff)

lemma placed_scopes: "placed U f \<Longrightarrow> scopes_ok U f"
  by (induction f arbitrary: U) auto

lemma placed_near: "placed U f \<Longrightarrow> w \<in> U \<Longrightarrow> near w f"
  by (induction f arbitrary: U) auto

lemma placed_shallow: "placed U f \<Longrightarrow> shallow f"
  by (induction f arbitrary: U) (auto intro: placed_near)

lemma placed_nnf: "placed U f \<Longrightarrow> placed U (plain_nnf f n)"
  by (induction f n arbitrary: U rule: plain_nnf.induct) auto

lemma placed_shrink: "placed U f \<Longrightarrow> fvars f \<subseteq> W \<Longrightarrow> W \<subseteq> U \<Longrightarrow> placed W f"
proof (induction f arbitrary: U W)
  case (Forall v f)
  then have "placed (insert v W) f" using Forall.IH [of "insert v U" "insert v W"] by auto
  then show ?case using Forall.prems by auto
next
  case (Exists v f)
  then have "placed (insert v W) f" using Exists.IH [of "insert v U" "insert v W"] by auto
  then show ?case using Exists.prems by auto
qed (auto simp: UN_subset_iff)

lemma placed_foldr_Forall: "placed U (foldr Forall us f) \<longleftrightarrow> distinct us \<and> set us \<inter> U = {} \<and> placed (set us \<union> U) f"
  by (induction us arbitrary: U) auto

lemma placed_ready: "placed (set us) f \<Longrightarrow> is_nnf f \<Longrightarrow> sk_ready us f"
  by (simp add: sk_ready_def placed_scopes placed_fvars placed_shallow)

section \<open>Properties\<close>

text \<open>
  C12. Skolemization returns on every closed formula in negation normal form in which no quantifier
  binds a variable of an enclosing quantifier (\<open>scopes_ok\<close>) and no variable lies deeper in a term than
  the limit of 500 on the application of substitutions (\<open>shallow\<close>), when its symbols are in the
  table and the table has room for the Skolem symbols. The result is in negation normal form, has no
  existential quantifier and implies the original formula in every structure, and satisfiability is
  kept: every structure can be changed at fresh symbols only so that the original formula implies the
  result. Beyond the limit this fails, as the error property on deep existentials shows.
\<close>

theorem skolemize_conservative:
  assumes "is_nnf f" "fvars f = {}" "scopes_ok {} f" "shallow f"
    and "fsyms f \<subseteq> known_symbols symbols" "symbols_left symbols (skolems f)"
  shows "\<exists>g symbols'. skolemize f symbols prefix = Some (g, symbols') \<and> is_nnf g \<and> no_exists g \<and>
    fvars g = {} \<and> fsyms g \<subseteq> known_symbols symbols' \<and>
    (\<forall>(I :: 'a interp) \<rho>. fval I \<rho> g \<longrightarrow> fval I \<rho> f) \<and>
    (\<forall>I :: 'a interp. \<exists>I'. agree (known_symbols symbols) I I' \<and> (\<forall>\<rho>. fval I \<rho> f \<longrightarrow> fval I' \<rho> g))"
proof -
  have "sk_ready [] f" using assms(1-4) by (simp add: sk_ready_def)
  from skolemize_rec_correct [OF this assms(5), of 0 prefix "TYPE('a)"] assms(6) obtain g st' where
    g: "skolemize_rec prefix [] f symbols = Some (g, st')" "skolem_done TYPE('a) [] [f] symbols 0 [g] st'"
    by auto
  then have c: "conservative TYPE('a) (known_symbols symbols) (known_symbols st') {} [f] [g]"
    and "is_nnf g" "no_exists g" "fvars g = {}"
    by (auto simp: delivers_def skolem_form_def)
  moreover have "\<exists>I'. agree (known_symbols symbols) I I' \<and> (\<forall>\<rho>. fval I \<rho> f \<longrightarrow> fval I' \<rho> g)"
    for I :: "'a interp"
    using conservative_extends [OF c, of I] by (simp add: implied_by_def)
  ultimately show ?thesis using g(1) by (auto simp: skolemize_def conservative_def)
qed

theorem skolemize_conservative_witness:
  "\<exists>g symbols'. skolemize (Forall 0 (Exists 1 (Atom (Pred 0 [Var 0, Var 1]))))
      (snd (intern ''p'' new_table)) ''ax'' = Some (g, symbols') \<and> is_nnf g \<and> no_exists g \<and>
    fvars g = {} \<and> fsyms g \<subseteq> known_symbols symbols' \<and>
    (\<forall>(I :: nat interp) \<rho>. fval I \<rho> g \<longrightarrow> fval I \<rho> (Forall 0 (Exists 1 (Atom (Pred 0 [Var 0, Var 1]))))) \<and>
    (\<forall>I :: nat interp. \<exists>I'. agree (known_symbols (snd (intern ''p'' new_table))) I I' \<and>
       (\<forall>\<rho>. fval I \<rho> (Forall 0 (Exists 1 (Atom (Pred 0 [Var 0, Var 1])))) \<longrightarrow> fval I' \<rho> g))"
proof (rule skolemize_conservative)
  have "table_ok (snd (intern ''p'' new_table))"
    by (rule intern_table_ok [OF new_table_ok]) (simp_all add: new_table_def intern_def)
  then show "symbols_left (snd (intern ''p'' new_table)) (skolems (Forall 0 (Exists 1 (Atom (Pred 0 [Var 0, Var 1])))))"
    by (simp add: symbols_left_def intern_def new_table_def)
qed (simp_all add: known_symbols_def intern_def new_table_def)

text \<open>
  C29. Below the nesting limit of the substitution the existential variable is left in place
  when its quantifier is dropped: the result of Skolemizing \<open>exists X0. p(f(...f(X0)...))\<close> with
  more than 500 \<open>f\<close> is the atom with \<open>X0\<close> free, which clausal form reads as universally
  quantified. The universal closure does not follow from the input.
\<close>

theorem deep_existential_becomes_universal:
  assumes "500 < n" "symbols_left symbols 1" "f \<noteq> p"
  defines "a \<equiv> Atom (Pred p [((\<lambda>t. App f [t]) ^^ n) (Var 0)])"
  shows "\<exists>symbols'. skolemize (Exists 0 a) symbols prefix = Some (a, symbols') \<and>
    (\<exists>I :: nat interp. (\<forall>\<rho>. fval I \<rho> (Exists 0 a)) \<and> (\<exists>\<rho>. \<not> fval I \<rho> a))"
proof -
  have "symbols_left symbols (Suc 0)" using assms(2) by simp
  then obtain sk st' where sk: "fresh_skolem prefix symbols = Some (sk, st')"
    unfolding fresh_skolem_def by (rule fresh.draw_one)
  have "apply_formula (singleton 0 (skolem_term sk [])) a = a"
    using apply_term_opt_deep [of 0 n "singleton 0 (skolem_term sk [])" f 0] assms(1)
    by (simp add: a_def apply_formula_def apply_term_def)
  then have "skolemize (Exists 0 a) symbols prefix = Some (a, st')"
    using sk by (simp add: skolemize_def skolemize_rec.simps [of _ _ "Exists _ _"] a_def
      skolemize_rec.simps [of _ _ "Atom _"])
  moreover have "tval \<lparr>ifun = \<lambda>g xs. hd xs, ipred = \<lambda>q xs. hd xs = 0\<rparr> \<rho> (((\<lambda>t. App f [t]) ^^ k) (Var 0)) = \<rho> 0"
    for \<rho> :: "VarId \<Rightarrow> nat" and k
    by (induction k) simp_all
  then have "(\<forall>\<rho>. fval \<lparr>ifun = \<lambda>g xs. hd xs, ipred = \<lambda>q xs. hd xs = (0 :: nat)\<rparr> \<rho> (Exists 0 a)) \<and>
      \<not> fval \<lparr>ifun = \<lambda>g xs. hd xs, ipred = \<lambda>q xs. hd xs = (0 :: nat)\<rparr> (\<lambda>_. 1) a"
    by (simp add: a_def)
  ultimately show ?thesis by blast
qed

theorem deep_existential_becomes_universal_witness:
  "\<exists>symbols'. skolemize (Exists 0 (Atom (Pred 1 [((\<lambda>t. App 2 [t]) ^^ 501) (Var 0)]))) new_table ''ax''
     = Some (Atom (Pred 1 [((\<lambda>t. App 2 [t]) ^^ 501) (Var 0)]), symbols') \<and>
   (\<exists>I :: nat interp. (\<forall>\<rho>. fval I \<rho> (Exists 0 (Atom (Pred 1 [((\<lambda>t. App 2 [t]) ^^ 501) (Var 0)])))) \<and>
      (\<exists>\<rho>. \<not> fval I \<rho> (Atom (Pred 1 [((\<lambda>t. App 2 [t]) ^^ 501) (Var 0)]))))"
  by (rule deep_existential_becomes_universal)
    (simp_all add: symbols_left_def new_table_ok, simp add: new_table_def)

end
