(* ===== verification/Definitional.thy ===== *)
theory Definitional
  imports Cnf Skolem
begin

text \<open>
  Definitional clause form, \<open>crates/mrs-cnf/src/definitional.rs\<close>: estimates of clause counts,
  the renaming of complex equivalences, and the naming of conjunctions below disjunctions.
\<close>

section \<open>Polarity and definitions\<close>

datatype Polarity = Positive | Negative | Both

fun invert :: "Polarity \<Rightarrow> Polarity" where
  "invert Positive = Negative"
| "invert Negative = Positive"
| "invert Both = Both"

record IntroducedDefinition =
  def_head :: Atom
  def_rhs :: Formula
  def_polarity :: Polarity

definition DEFAULT_RENAMING_THRESHOLD :: nat where
  "DEFAULT_RENAMING_THRESHOLD = 8"

section \<open>Clause counts\<close>

text \<open>Saturating arithmetic of a 64-bit \<open>usize\<close>.\<close>

definition usize_max :: nat where
  "usize_max = 2 ^ 64 - 1"

definition sat_add :: "nat \<Rightarrow> nat \<Rightarrow> nat" where
  "sat_add a b = min (a + b) usize_max"

definition sat_mul :: "nat \<Rightarrow> nat \<Rightarrow> nat" where
  "sat_mul a b = min (a * b) usize_max"

fun estimate_clause_count :: "Formula \<Rightarrow> nat"
and estimate_neg_clause_count :: "Formula \<Rightarrow> nat" where
  "estimate_clause_count (And cs) = foldl sat_add 0 (map estimate_clause_count cs)"
| "estimate_clause_count (Or ds) = foldl sat_mul 1 (map estimate_clause_count ds)"
| "estimate_clause_count (Atom a) = 1"
| "estimate_clause_count FTrue = 1"
| "estimate_clause_count FFalse = 1"
| "estimate_clause_count (Neg inner) = estimate_neg_clause_count inner"
| "estimate_clause_count (Implies a b) =
     sat_mul (estimate_neg_clause_count a) (estimate_clause_count b)"
| "estimate_clause_count (Iff a b) =
     (let c1 = sat_mul (estimate_neg_clause_count a) (estimate_clause_count b);
          c2 = sat_mul (estimate_clause_count a) (estimate_neg_clause_count b)
      in sat_add c1 c2)"
| "estimate_clause_count (Forall v body) = estimate_clause_count body"
| "estimate_clause_count (Exists v body) = estimate_clause_count body"
| "estimate_neg_clause_count (And cs) = foldl sat_mul 1 (map estimate_neg_clause_count cs)"
| "estimate_neg_clause_count (Or ds) = foldl sat_add 0 (map estimate_neg_clause_count ds)"
| "estimate_neg_clause_count (Atom a) = 1"
| "estimate_neg_clause_count FTrue = 1"
| "estimate_neg_clause_count FFalse = 1"
| "estimate_neg_clause_count (Neg inner) = estimate_clause_count inner"
| "estimate_neg_clause_count (Implies a b) =
     sat_add (estimate_clause_count a) (estimate_neg_clause_count b)"
| "estimate_neg_clause_count (Iff a b) =
     (let c1 = sat_mul (estimate_clause_count a) (estimate_clause_count b);
          c2 = sat_mul (estimate_neg_clause_count a) (estimate_neg_clause_count b)
      in sat_add c1 c2)"
| "estimate_neg_clause_count (Forall v body) = estimate_neg_clause_count body"
| "estimate_neg_clause_count (Exists v body) = estimate_neg_clause_count body"

definition estimate_clause_count_or :: "Formula list \<Rightarrow> nat" where
  "estimate_clause_count_or disjuncts = foldl sat_mul 1 (map estimate_clause_count disjuncts)"

definition definition_clauses_formula :: "Atom \<Rightarrow> Formula \<Rightarrow> Polarity \<Rightarrow> Formula" where
  "definition_clauses_formula head rhs polarity =
     (case polarity of
        Positive \<Rightarrow> mk_or [Neg (Atom head), rhs]
      | Negative \<Rightarrow> mk_or [Neg rhs, Atom head]
      | Both \<Rightarrow> Iff (Atom head) rhs)"

definition is_literal_formula :: "Formula \<Rightarrow> bool" where
  "is_literal_formula f = (case f of
      Atom a \<Rightarrow> True | FTrue \<Rightarrow> True | FFalse \<Rightarrow> True
    | Neg inner \<Rightarrow> (case inner of Atom a \<Rightarrow> True | _ \<Rightarrow> False)
    | _ \<Rightarrow> False)"

fun has_iff :: "Formula \<Rightarrow> bool" where
  "has_iff (Iff a b) = True"
| "has_iff (Neg inner) = has_iff inner"
| "has_iff (Forall v inner) = has_iff inner"
| "has_iff (Exists v inner) = has_iff inner"
| "has_iff (And parts) = list_ex has_iff parts"
| "has_iff (Or parts) = list_ex has_iff parts"
| "has_iff (Implies a b) = (has_iff a \<or> has_iff b)"
| "has_iff _ = False"

fun has_quantifiers :: "Formula \<Rightarrow> bool" where
  "has_quantifiers (Forall v f) = True"
| "has_quantifiers (Exists v f) = True"
| "has_quantifiers (Neg inner) = has_quantifiers inner"
| "has_quantifiers (And parts) = list_ex has_quantifiers parts"
| "has_quantifiers (Or parts) = list_ex has_quantifiers parts"
| "has_quantifiers (Implies a b) = (has_quantifiers a \<or> has_quantifiers b)"
| "has_quantifiers (Iff a b) = (has_quantifiers a \<or> has_quantifiers b)"
| "has_quantifiers _ = False"

definition needs_biconditional_naming :: "Formula \<Rightarrow> Formula \<Rightarrow> nat \<Rightarrow> bool" where
  "needs_biconditional_naming f other threshold =
     (if is_literal_formula f then False
      else if has_iff f \<or> has_quantifiers f \<or> \<not> is_literal_formula other then True
      else estimate_clause_count (Iff f other) > threshold)"

section \<open>Renaming complex equivalences\<close>

text \<open>The state of the pass: the symbol table and the definitions introduced so far.\<close>

type_synonym bicond_state = "SymbolTable \<times> IntroducedDefinition list"

definition introduce_definition :: "string \<Rightarrow> Formula \<Rightarrow> Polarity \<Rightarrow> bicond_state
    \<Rightarrow> (Formula \<times> bicond_state) option" where
  "introduce_definition prefix f polarity = (\<lambda>(symbols, definitions). do {
     let free_vars = sorted_list_of_set (formula_free_vars f);
     (sym, symbols) \<leftarrow> fresh_symbol (''def_'' @ sanitize prefix) symbols;
     let def_atom = Pred sym (map Var free_vars);
     Some (Atom def_atom,
       (symbols, definitions @ [\<lparr>def_head = def_atom, def_rhs = f, def_polarity = polarity\<rparr>])) })"

fun traverse :: "string \<Rightarrow> nat \<Rightarrow> Formula \<Rightarrow> bicond_state \<Rightarrow> (Formula \<times> bicond_state) option" where
  "traverse prefix threshold (Atom a) st = Some (Atom a, st)"
| "traverse prefix threshold FTrue st = Some (FTrue, st)"
| "traverse prefix threshold FFalse st = Some (FFalse, st)"
| "traverse prefix threshold (Neg inner) st = do {
     (inner', st) \<leftarrow> traverse prefix threshold inner st; Some (Neg inner', st) }"
| "traverse prefix threshold (And cs) st = do {
     (cs', st) \<leftarrow> mapM_st (\<lambda>c st. traverse prefix threshold c st) cs st; Some (And cs', st) }"
| "traverse prefix threshold (Or ds) st = do {
     (ds', st) \<leftarrow> mapM_st (\<lambda>d st. traverse prefix threshold d st) ds st; Some (Or ds', st) }"
| "traverse prefix threshold (Implies a b) st = do {
     (a', st) \<leftarrow> traverse prefix threshold a st;
     (b', st) \<leftarrow> traverse prefix threshold b st;
     Some (Implies a' b', st) }"
| "traverse prefix threshold (Forall v body) st = do {
     (body', st) \<leftarrow> traverse prefix threshold body st; Some (Forall v body', st) }"
| "traverse prefix threshold (Exists v body) st = do {
     (body', st) \<leftarrow> traverse prefix threshold body st; Some (Exists v body', st) }"
| "traverse prefix threshold (Iff a b) st = do {
     (a_renamed, st) \<leftarrow> traverse prefix threshold a st;
     (b_renamed, st) \<leftarrow> traverse prefix threshold b st;
     let a_needs = needs_biconditional_naming a_renamed b_renamed threshold;
     let b_needs = needs_biconditional_naming b_renamed a_renamed threshold;
     (a_final, st) \<leftarrow> (if a_needs then introduce_definition prefix a_renamed Both st else Some (a_renamed, st));
     (b_final, st) \<leftarrow> (if b_needs then introduce_definition prefix b_renamed Both st else Some (b_renamed, st));
     Some (Iff a_final b_final, st) }"

definition rename_complex_equivalences :: "Formula \<Rightarrow> SymbolTable \<Rightarrow> string \<Rightarrow> nat
    \<Rightarrow> (Formula \<times> IntroducedDefinition list \<times> SymbolTable) option" where
  "rename_complex_equivalences f symbols prefix threshold = do {
     (renamed, (symbols, definitions)) \<leftarrow> traverse prefix threshold f (symbols, []);
     Some (renamed, definitions, symbols) }"

section \<open>Naming conjunctions below disjunctions\<close>

fun flatten_conjuncts :: "Formula \<Rightarrow> Formula list" where
  "flatten_conjuncts (And cs) = concat (map flatten_conjuncts cs)"
| "flatten_conjuncts f = [f]"

text \<open>The variables of a quantifier-free formula in negation normal form.\<close>

fun matrix_vars :: "Formula \<Rightarrow> VarId set" where
  "matrix_vars (Atom a) = atom_free_vars a"
| "matrix_vars (Neg inner) = matrix_vars inner"
| "matrix_vars (And cs) = (\<Union>c \<in> set cs. matrix_vars c)"
| "matrix_vars (Or ds) = (\<Union>d \<in> set ds. matrix_vars d)"
| "matrix_vars _ = {}"

type_synonym def_state = "SymbolTable \<times> (Atom \<times> Formula list) list"

definition introduce_name :: "string \<Rightarrow> Formula list \<Rightarrow> def_state \<Rightarrow> (Formula \<times> def_state) option" where
  "introduce_name prefix conjuncts = (\<lambda>(symbols, definitions). do {
     let flat = concat (map flatten_conjuncts conjuncts);
     let sorted_vars = sorted_list_of_set (\<Union>c \<in> set flat. matrix_vars c);
     (sym, symbols) \<leftarrow> fresh_symbol (''def_'' @ sanitize prefix) symbols;
     let def_atom = Pred sym (map Var sorted_vars);
     Some (Atom def_atom, (symbols, definitions @ [(def_atom, flat)])) })"

definition is_and :: "Formula \<Rightarrow> bool" where
  "is_and f = (case f of And cs \<Rightarrow> True | _ \<Rightarrow> False)"

definition name_child :: "string \<Rightarrow> Formula \<Rightarrow> def_state \<Rightarrow> (Formula \<times> def_state) option" where
  "name_child prefix d st = (case d of And cj \<Rightarrow> introduce_name prefix cj st | _ \<Rightarrow> Some (d, st))"

fun name_and_under_or :: "string \<Rightarrow> nat \<Rightarrow> Formula \<Rightarrow> def_state \<Rightarrow> (Formula \<times> def_state) option" where
  "name_and_under_or prefix threshold (And cs) st = do {
     (children, st) \<leftarrow> mapM_st (\<lambda>c st. name_and_under_or prefix threshold c st) cs st;
     Some (And children, st) }"
| "name_and_under_or prefix threshold (Or ds) st = do {
     (children, st) \<leftarrow> mapM_st (\<lambda>d st. name_and_under_or prefix threshold d st) ds st;
     if \<not> list_ex is_and children then Some (Or children, st)
     else if threshold > 1 \<and> estimate_clause_count_or children \<le> threshold then Some (Or children, st)
     else do {
       (named, st) \<leftarrow> mapM_st (name_child prefix) children st;
       Some (Or named, st) } }"
| "name_and_under_or prefix threshold f st = Some (f, st)"

definition definition_conjuncts :: "Atom \<times> Formula list \<Rightarrow> Formula list" where
  "definition_conjuncts = (\<lambda>(def_atom, conjuncts).
     concat (map (\<lambda>cj. and_parts (to_cnf (mk_or [Neg (Atom def_atom), cj]))) conjuncts))"

definition to_cnf_definitional_with_defs_thresh :: "Formula \<Rightarrow> SymbolTable \<Rightarrow> string \<Rightarrow> nat
    \<Rightarrow> (Formula \<times> (Atom \<times> Formula list) list \<times> SymbolTable) option" where
  "to_cnf_definitional_with_defs_thresh f symbols prefix threshold = do {
     (renamed, (symbols, definitions)) \<leftarrow> name_and_under_or prefix threshold f (symbols, []);
     let all_conjuncts = concat (map definition_conjuncts definitions) @ and_parts (to_cnf renamed);
     let result = (if length all_conjuncts = 1 then hd all_conjuncts else And all_conjuncts);
     Some (result, definitions, symbols) }"

definition to_cnf_definitional_with_defs :: "Formula \<Rightarrow> SymbolTable \<Rightarrow> string
    \<Rightarrow> (Formula \<times> (Atom \<times> Formula list) list \<times> SymbolTable) option" where
  "to_cnf_definitional_with_defs f symbols prefix =
     to_cnf_definitional_with_defs_thresh f symbols prefix 1"

definition to_cnf_definitional :: "Formula \<Rightarrow> SymbolTable \<Rightarrow> string \<Rightarrow> (Formula \<times> SymbolTable) option" where
  "to_cnf_definitional f symbols prefix = do {
     (result, definitions, symbols) \<leftarrow> to_cnf_definitional_with_defs f symbols prefix;
     Some (result, symbols) }"

section \<open>The estimate is exact\<close>

text \<open>The number of clauses without saturation.\<close>

fun clause_count :: "Formula \<Rightarrow> nat" where
  "clause_count (And cs) = sum_list (map clause_count cs)"
| "clause_count (Or ds) = prod_list (map clause_count ds)"
| "clause_count f = 1"

lemma foldl_sat_add: "foldl sat_add (min a usize_max) (map (\<lambda>x. min (g x) usize_max) xs) =
    min (a + sum_list (map g xs)) usize_max"
proof (induction xs arbitrary: a)
  case (Cons x xs)
  have "sat_add (min a usize_max) (min (g x) usize_max) = min (a + g x) usize_max"
    by (simp add: sat_add_def)
  then show ?case using Cons [of "a + g x"] by (simp add: add.assoc)
qed simp

lemma min_mult_cap: "(m :: nat) \<le> a \<Longrightarrow> 0 < b \<Longrightarrow> 0 < m \<Longrightarrow> min (min a m * min b m) m = min (a * b) m"
proof -
  assume h: "m \<le> a" "0 < b" "0 < m"
  have "m * 1 \<le> m * min b m" using h by (intro mult_le_mono2) simp
  moreover have "m * 1 \<le> a * b" using h by (intro mult_le_mono) simp_all
  ultimately have "min (m * min b m) m = m" "min (a * b) m = m" by (simp_all only: min_absorb2 mult_1_right)
  then show ?thesis using h(1) by (simp add: min_absorb2)
qed

lemma sat_mul_min: "sat_mul (min a usize_max) (min b usize_max) = min (a * b) usize_max"
proof -
  have pos: "0 < usize_max" by (simp add: usize_max_def)
  consider "a = 0 \<or> b = 0" | "usize_max \<le> a" "0 < b" | "usize_max \<le> b" "0 < a" | "a < usize_max" "b < usize_max"
    by linarith
  then show ?thesis
  proof cases
    case 1
    then show ?thesis by (auto simp: sat_mul_def)
  next
    case 2
    then show ?thesis using min_mult_cap [OF 2 pos] by (simp add: sat_mul_def)
  next
    case 3
    then show ?thesis using min_mult_cap [OF 3 pos] by (simp add: sat_mul_def mult.commute)
  next
    case 4
    then show ?thesis by (simp add: sat_mul_def)
  qed
qed

lemma foldl_sat_mul: "foldl sat_mul (min a usize_max) (map (\<lambda>x. min (g x) usize_max) xs) =
    min (a * prod_list (map g xs)) usize_max"
proof (induction xs arbitrary: a)
  case (Cons x xs)
  then show ?case using Cons [of "a * g x"] by (simp add: sat_mul_min mult.assoc)
qed simp

lemma estimate_is_matrix: "is_matrix f \<Longrightarrow> estimate_clause_count f = min (clause_count f) usize_max"
proof (induction f)
  case (Neg f)
  then obtain a where "f = Atom a" by (cases f) auto
  then show ?case by (simp add: usize_max_def)
next
  case (And fs)
  then show ?case using foldl_sat_add [of 0 clause_count fs] by (simp add: list_all_iff cong: map_cong)
next
  case (Or fs)
  then show ?case using foldl_sat_mul [of 1 clause_count fs]
    by (simp add: list_all_iff min_def usize_max_def cong: map_cong)
qed (simp_all add: usize_max_def)

lemma length_concat_parts: "length (concat (map g xs)) = sum_list (map (\<lambda>x. length (g x)) xs)"
  by (simp add: length_concat comp_def)

lemma length_and_parts_disj: "is_disj f \<Longrightarrow> length (and_parts f) = 1"
  by (cases f) (auto simp: and_parts_def)

lemma length_pair_disj:
  assumes "is_disj a" "is_cnf b"
  shows "length (and_parts (distribute_or_pair a b)) = length (and_parts b)"
proof (cases "\<exists>cs. b = And cs")
  case True
  then obtain cs where cs: "b = And cs" "\<forall>c \<in> set cs. is_disj c" using assms(2) by (auto simp: list_all_iff)
  have "length (and_parts (distribute_or_pair a c)) = 1" if "c \<in> set cs" for c
    using distribute_or_pair_disj(1) [OF assms(1)] cs(2) that by (simp add: and_parts_def)
  then show ?thesis unfolding cs(1) distribute_or_pair_disj(2) [OF assms(1)]
    by (simp add: and_parts_def [of "And _"] length_concat_parts comp_def sum_list_triv cong: map_cong)
next
  case False
  then have "is_disj b" using assms(2) by (cases b) auto
  then show ?thesis using distribute_or_pair_disj(1) [OF assms(1)] by (simp add: length_and_parts_disj and_parts_def [of "Or _"])
qed

lemma length_pair:
  assumes "is_cnf a" "is_cnf b"
  shows "length (and_parts (distribute_or_pair a b)) = length (and_parts a) * length (and_parts b)"
proof (cases "\<exists>cs. a = And cs")
  case True
  then obtain cs where cs: "a = And cs" "\<forall>c \<in> set cs. is_disj c" using assms(1) by (auto simp: list_all_iff)
  then show ?thesis using length_pair_disj [OF _ assms(2)]
    by (simp add: cs(1) and_parts_def [of "And _"] length_concat_parts comp_def sum_list_triv cong: map_cong)
next
  case False
  then have "is_disj a" using assms(1) by (cases a) auto
  then show ?thesis using length_pair_disj assms(2) by (simp add: length_and_parts_disj)
qed

lemma length_list:
  "list_all is_cnf ds \<Longrightarrow> length (and_parts (distribute_or_list ds)) = prod_list (map (\<lambda>d. length (and_parts d)) ds)"
  by (induction ds rule: distribute_or_list.induct)
    (simp_all add: and_parts_def [of FFalse] length_pair distribute_or_list_is_cnf)

lemma length_distribute: "is_matrix f \<Longrightarrow> length (and_parts (distribute f)) = clause_count f"
proof (induction f)
  case (And fs)
  then show ?case
    by (simp add: list_all_iff and_parts_def [of "And _"] length_concat_parts comp_def cong: map_cong)
next
  case (Or fs)
  then have "list_all is_cnf (map distribute fs)" using distribute_is_cnf by (simp add: list_all_iff)
  then show ?case using length_list [of "map distribute fs"] Or
    by (simp add: list_all_iff comp_def cong: map_cong)
qed (simp_all add: and_parts_def)

lemma sum_and_parts: "sum_list (map clause_count (and_parts f)) = clause_count f"
  by (cases f) (auto simp: and_parts_def)

lemma prod_or_parts: "prod_list (map clause_count (or_parts f)) = clause_count f"
  by (cases f) (auto simp: or_parts_def)

lemma sum_concat: "sum_list (map g (concat xss)) = sum_list (map (\<lambda>xs. sum_list (map g xs)) xss)"
  by (induction xss) simp_all

lemma prod_concat: "prod_list (map g (concat xss)) = prod_list (map (\<lambda>xs. prod_list (map g xs)) xss)"
  by (induction xss) simp_all

lemma clause_count_flatten: "clause_count (flatten_connectives f) = clause_count f"
proof (induction f)
  case (And fs)
  then show ?case by (simp add: sum_concat comp_def sum_and_parts cong: map_cong)
next
  case (Or fs)
  then show ?case by (simp add: prod_concat comp_def prod_or_parts cong: map_cong)
qed simp_all

lemma estimate_exact:
  "is_matrix f \<Longrightarrow> estimate_clause_count f = min (length (and_parts (to_cnf f))) usize_max"
  by (simp add: estimate_is_matrix to_cnf_def length_distribute flatten_is_matrix clause_count_flatten)

section \<open>Fresh predicates for subformulas\<close>

text \<open>
  A fresh predicate applied to variables that include the free ones of \<open>f\<close> can be given the
  value of \<open>f\<close> everywhere.
\<close>

lemma define_predicate:
  fixes I :: "'a interp"
  assumes "q \<notin> K" "fvars f \<subseteq> set us"
  shows "\<exists>I'. agree K I I' \<and> (\<forall>\<rho>. aval I' \<rho> (Pred q (map Var us)) = fval I \<rho> f)"
proof -
  define env where "env xs w = the (map_of (zip us xs) w)" for xs :: "'a list" and w
  let ?I = "I\<lparr>ipred := (ipred I)(q := \<lambda>xs. fval I (env xs) f)\<rparr>"
  have "agree K I ?I" using assms(1) by (auto simp: agree_def)
  moreover have "fval I (env (map \<rho> us)) f = fval I \<rho> f" for \<rho>
  proof (rule fval_cong)
    fix w assume "w \<in> fvars f"
    then have "w \<in> set us" using assms(2) by blast
    then show "env (map \<rho> us) w = \<rho> w" by (simp add: env_def map_of_zip_map)
  qed
  then have "aval ?I \<rho> (Pred q (map Var us)) = fval I \<rho> f" for \<rho> by (simp add: comp_def)
  ultimately show ?thesis by blast
qed

definition definition_formulas :: "Atom \<times> Formula list \<Rightarrow> Formula set" where
  "definition_formulas = (\<lambda>(a, cs). (\<lambda>c. mk_or [Neg (Atom a), c]) ` set cs)"

lemma name_step:
  fixes TY :: "'a itself"
  assumes new: "q \<notin> K" and syms: "fsyms f \<subseteq> K" and vars: "fvars f \<subseteq> set us"
    and parts: "\<And>(I :: 'a interp) \<rho>. (\<forall>c \<in> set parts. fval I \<rho> c) = fval I \<rho> f" "\<And>c. c \<in> set parts \<Longrightarrow> fsyms c \<subseteq> fsyms f"
  defines "a \<equiv> Pred q (map Var us)"
  shows "conservative TY K (insert q K) (definition_formulas (a, parts)) [f] [Atom a]"
proof (rule conservativeI)
  show "K \<subseteq> insert q K" by auto
  show "fsyms g \<subseteq> insert q K" if "g \<in> set [Atom a] \<union> definition_formulas (a, parts)" for g
    using that parts(2) syms by (fastforce simp: definition_formulas_def a_def)
  show "list_all2 (\<lambda>f g. fval I \<rho> g \<longrightarrow> fval I \<rho> f) [f] [Atom a]"
    if "\<forall>d \<in> definition_formulas (a, parts). fval I \<rho> d" for I :: "'a interp" and \<rho>
    using that parts(1) [of I \<rho>] by (auto simp: definition_formulas_def)
  fix I :: "'a interp"
  obtain I' where I': "agree K I I'" "\<And>\<rho>. aval I' \<rho> a = fval I \<rho> f"
    using define_predicate [OF new vars, of I] by (auto simp: a_def)
  have "fval I \<rho> f = fval I' \<rho> f" for \<rho> by (rule fval_agree [OF I'(1) syms])
  then have "defined_by I' (definition_formulas (a, parts))"
    using I'(2) parts(1) [of I'] by (auto simp: defined_by_def definition_formulas_def)
  moreover have "implied_by I I' [f] [Atom a]" using I'(2) by (simp add: implied_by_def)
  ultimately show "\<exists>I'. agree K I I' \<and> defined_by I' (definition_formulas (a, parts)) \<and> implied_by I I' [f] [Atom a]"
    using I'(1) by blast
qed

section \<open>Naming is conservative\<close>

lemma flatten_conjuncts_fval: "(\<forall>c \<in> set (flatten_conjuncts f). fval I \<rho> c) = fval I \<rho> f"
  by (induction f rule: flatten_conjuncts.induct) auto

lemma flatten_conjuncts_props:
  "(\<Union>c \<in> set (flatten_conjuncts f). fsyms c) = fsyms f"
  "(\<Union>c \<in> set (flatten_conjuncts f). fvars c) = fvars f"
  "is_matrix f \<Longrightarrow> c \<in> set (flatten_conjuncts f) \<Longrightarrow> is_matrix c"
  by (induction f rule: flatten_conjuncts.induct) (auto simp: list_all_iff)

lemma matrix_vars_eq: "is_matrix f \<Longrightarrow> matrix_vars f = fvars f"
proof (induction f)
  case (Neg f)
  then show ?case by (cases f) (auto simp: atom_free_vars_eq)
qed (auto simp: list_all_iff atom_free_vars_eq)

definition definition_ok :: "Atom \<times> Formula list \<Rightarrow> bool" where
  "definition_ok d \<longleftrightarrow> (\<exists>p ts. fst d = Pred p ts) \<and> list_all is_matrix (snd d)"

definition naming_new :: "def_state \<Rightarrow> def_state \<Rightarrow> Formula set" where
  "naming_new s s' = (\<Union>d \<in> set (drop (length (snd s)) (snd s')). definition_formulas d)"

definition naming_ext :: "def_state \<Rightarrow> def_state \<Rightarrow> bool" where
  "naming_ext s s' \<longleftrightarrow> (\<exists>new. snd s' = snd s @ new \<and> list_all definition_ok new)"

interpretation naming: symbol_pass "conservative TY" "\<lambda>s. known_symbols (fst s)" "\<lambda>s. symbols_left (fst s)" naming_new naming_ext
  for TY
proof
  show "naming_ext s s" and "naming_new s s = {}" for s by (simp_all add: naming_ext_def naming_new_def)
  show "naming_ext s s2" and "naming_new s s2 = naming_new s s1 \<union> naming_new s1 s2"
    if "naming_ext s s1" "naming_ext s1 s2" for s s1 s2
    using that by (auto simp: naming_ext_def naming_new_def)
qed (simp_all add: conservative_nil conservative_same conservative_grows conservative_cons conservative_trans)

abbreviation named :: "'a itself \<Rightarrow> Formula list \<Rightarrow> def_state \<Rightarrow> nat \<Rightarrow> Formula list \<Rightarrow> def_state \<Rightarrow> bool" where
  "named TY \<equiv> delivers (conservative TY) (\<lambda>s. known_symbols (fst s)) (\<lambda>s. symbols_left (fst s)) naming_new naming_ext is_matrix"

lemma introduce_name_correct:
  fixes TY :: "'a itself"
  assumes "is_matrix (And cs)" "fsyms (And cs) \<subseteq> known_symbols (fst s)" "symbols_left (fst s) (Suc n)"
  shows "\<exists>g s'. introduce_name prefix cs s = Some (g, s') \<and> named TY [And cs] s n [g] s'"
proof -
  obtain sy defs where s: "s = (sy, defs)" by fastforce
  obtain q sy' where q: "fresh_symbol (''def_'' @ sanitize prefix) sy = Some (q, sy')"
    "q \<notin> known_symbols sy" "known_symbols sy' = insert q (known_symbols sy)" "symbols_left sy' n"
    using assms(3) s fresh.draw_one [of sy n] by (metis fst_conv)
  let ?flat = "flatten_conjuncts (And cs)"
  let ?us = "sorted_list_of_set (\<Union>c \<in> set ?flat. matrix_vars c)"
  let ?a = "Pred q (map Var ?us)"
  have mat: "\<forall>c \<in> set ?flat. is_matrix c" using flatten_conjuncts_props(3) [OF assms(1)] by blast
  then have "(\<Union>c \<in> set ?flat. matrix_vars c) = (\<Union>c \<in> set ?flat. fvars c)" using matrix_vars_eq by auto
  then have us: "(\<Union>c \<in> set ?flat. matrix_vars c) = fvars (And cs)" by (simp only: flatten_conjuncts_props(2))
  have call: "introduce_name prefix cs s = Some (Atom ?a, (sy', defs @ [(?a, ?flat)]))"
    using q(1) by (simp add: s introduce_name_def)
  have "conservative TY (known_symbols sy) (insert q (known_symbols sy)) (definition_formulas (?a, ?flat)) [And cs] [Atom ?a]"
  proof (rule name_step)
    show "q \<notin> known_symbols sy" by (rule q(2))
    show "fsyms (And cs) \<subseteq> known_symbols sy" using assms(2) s by simp
    show "fvars (And cs) \<subseteq> set ?us" unfolding us by simp
    show "(\<forall>c \<in> set ?flat. fval I \<rho> c) = fval I \<rho> (And cs)" for I :: "'a interp" and \<rho>
      by (rule flatten_conjuncts_fval)
    show "fsyms c \<subseteq> fsyms (And cs)" if "c \<in> set ?flat" for c
      using that flatten_conjuncts_props(1) [of "And cs"] by blast
  qed
  then have "named TY [And cs] s n [Atom ?a] (sy', defs @ [(?a, ?flat)])"
    using q(3,4) mat
    by (intro deliversI) (auto simp: s naming_ext_def naming_new_def definition_ok_def list_all_iff
      simp del: flatten_conjuncts.simps)
  then show ?thesis using call by blast
qed

lemma name_child_correct:
  assumes "is_matrix d" "fsyms d \<subseteq> known_symbols (fst s)" "symbols_left (fst s) (1 + n)"
  shows "\<exists>g s'. name_child prefix d s = Some (g, s') \<and> named TY [d] s n [g] s'"
proof (cases "\<exists>cs. d = And cs")
  case True
  then obtain cs where "d = And cs" by blast
  then show ?thesis using introduce_name_correct [of cs s n prefix TY] assms by (simp add: name_child_def)
next
  case False
  have "symbols_left (fst s) n" by (rule symbols_left_mono [OF assms(3)]) simp
  then have "named TY [d] s n [d] s" using assms(1,2) by (intro naming.deliver_same)
  moreover have "name_child prefix d s = Some (d, s)" using False by (cases d) (auto simp: name_child_def)
  ultimately show ?thesis by blast
qed

text \<open>How many names a formula needs at most.\<close>

fun names_needed :: "Formula \<Rightarrow> nat" where
  "names_needed (And cs) = sum_list (map names_needed cs)"
| "names_needed (Or ds) = sum_list (map names_needed ds) + length ds"
| "names_needed f = 0"

lemma name_and_under_or_correct:
  fixes TY :: "'a itself"
  shows "is_matrix f \<Longrightarrow> fsyms f \<subseteq> known_symbols (fst s) \<Longrightarrow> symbols_left (fst s) (names_needed f + n) \<Longrightarrow>
     \<exists>g s'. name_and_under_or prefix threshold f s = Some (g, s') \<and> named TY [f] s n [g] s'"
proof (induction f arbitrary: s n)
  case (And cs)
  have "\<exists>gs s'. mapM_st (name_and_under_or prefix threshold) cs s = Some (gs, s') \<and> named TY cs s n gs s'"
    by (rule naming.deliver_list [where cost = names_needed])
      (use And in \<open>auto simp: list_all_iff UN_subset_iff\<close>)
  then obtain gs s' where 1: "mapM_st (name_and_under_or prefix threshold) cs s = Some (gs, s')"
    "named TY cs s n gs s'" by blast
  have mat: "\<forall>g \<in> set gs. is_matrix g" using 1(2) by (simp add: delivers_def)
  have "named TY [And cs] s n [And gs] s'"
    by (rule deliver_cong [OF deliver_And [OF 1(2), of "\<lambda>_. True"]])
      (use mat in \<open>auto simp: list_all_iff\<close>)
  then show ?case using 1(1) by simp
next
  case (Or ds)
  have "\<exists>gs s'. mapM_st (name_and_under_or prefix threshold) ds s = Some (gs, s') \<and> named TY ds s (length ds + n) gs s'"
    by (rule naming.deliver_list [where cost = names_needed])
      (use Or in \<open>auto simp: list_all_iff UN_subset_iff add.assoc\<close>)
  then obtain gs s1 where 1: "mapM_st (name_and_under_or prefix threshold) ds s = Some (gs, s1)"
    "named TY ds s (length ds + n) gs s1" by blast
  have mat: "\<forall>g \<in> set gs. is_matrix g" and left: "symbols_left (fst s1) (length ds + n)"
    using 1(2) by (simp_all add: delivers_def)
  have or1: "named TY [Or ds] s (length ds + n) [Or gs] s1"
    by (rule deliver_cong [OF deliver_Or [OF 1(2), of "\<lambda>_. True"]])
      (use mat in \<open>auto simp: list_all_iff\<close>)
  then have or2: "named TY [Or ds] s n [Or gs] s1"
    using symbols_left_mono [OF left, of n] by (simp add: delivers_def)
  have syms: "fsyms (Or gs) \<subseteq> known_symbols (fst s1)"
    using or1 conservative_syms by (fastforce simp: delivers_def)
  have len: "length gs = length ds" by (rule mapM_st_length [OF 1(1)])
  have "\<exists>hs s2. mapM_st (name_child prefix) gs s1 = Some (hs, s2) \<and> named TY gs s1 n hs s2"
  proof (rule naming.deliver_list [where cost = "\<lambda>_. 1"])
    show "\<exists>g s'. name_child prefix c s = Some (g, s') \<and> named TY [c] s n [g] s'"
      if "c \<in> set gs" "fsyms c \<subseteq> known_symbols (fst s)" "symbols_left (fst s) (1 + n)" for c s n
      using name_child_correct [of c s n prefix TY] mat that by blast
    show "fsyms c \<subseteq> known_symbols (fst s1)" if "c \<in> set gs" for c using syms that by (auto simp: UN_subset_iff)
    show "symbols_left (fst s1) (sum_list (map (\<lambda>_. 1) gs) + n)" using left len by (simp add: sum_list_triv)
  qed
  then obtain hs s2 where 2: "mapM_st (name_child prefix) gs s1 = Some (hs, s2)" "named TY gs s1 n hs s2" by blast
  have "\<forall>g \<in> set hs. is_matrix g" using 2(2) by (simp add: delivers_def)
  then have "named TY [Or gs] s1 n [Or hs] s2"
    by (intro deliver_cong [OF deliver_Or [OF 2(2), of "\<lambda>_. True"]]) (auto simp: list_all_iff)
  then have "named TY [Or ds] s n [Or hs] s2" by (rule naming.deliver_then [OF or1])
  then show ?case using 1(1) 2(1) or2 by (auto simp del: split_paired_Ex)
qed (simp_all add: naming.deliver_same del: split_paired_Ex)

section \<open>The definitional clause form\<close>

lemma and_parts_syms: "(\<Union>g \<in> set (and_parts f). fsyms g) = fsyms f"
  by (cases f) (auto simp: and_parts_def)

lemma or_parts_syms: "(\<Union>g \<in> set (or_parts f). fsyms g) = fsyms f"
  by (cases f) (auto simp: or_parts_def)

lemma fsyms_And_concat: "fsyms (And (concat (map (\<lambda>c. and_parts (g c)) cs))) = (\<Union>c \<in> set cs. fsyms (g c))"
  using and_parts_syms by fastforce

lemma fsyms_Or_concat: "fsyms (Or (concat (map (\<lambda>c. or_parts (g c)) cs))) = (\<Union>c \<in> set cs. fsyms (g c))"
  using or_parts_syms by fastforce

lemma distribute_or_pair_And: "\<nexists>cs. a = And cs \<Longrightarrow>
    distribute_or_pair a (And cs) = And (concat (map (\<lambda>c. and_parts (distribute_or_pair a c)) cs))"
  by (cases a) auto

lemma distribute_or_pair_other:
  "\<nexists>cs. a = And cs \<Longrightarrow> \<nexists>cs. b = And cs \<Longrightarrow> distribute_or_pair a b = Or (or_parts a @ or_parts b)"
  by (cases a; cases b) auto

lemma fsyms_pair_other: "\<nexists>cs. a = And cs \<Longrightarrow> fsyms (distribute_or_pair a b) \<subseteq> fsyms a \<union> fsyms b"
proof (induction b)
  case (And cs)
  then show ?case unfolding distribute_or_pair_And [OF And.prems] fsyms_And_concat by auto
qed (use or_parts_syms in \<open>auto simp: distribute_or_pair_other\<close>)

lemma fsyms_pair: "fsyms (distribute_or_pair a b) \<subseteq> fsyms a \<union> fsyms b"
proof (induction a)
  case (And cs)
  then show ?case unfolding distribute_or_pair.simps(1) fsyms_And_concat by auto
qed (rule fsyms_pair_other, simp)+

lemma fsyms_list: "fsyms (distribute_or_list ds) \<subseteq> (\<Union>d \<in> set ds. fsyms d)"
proof (induction ds rule: distribute_or_list.induct)
  case (3 d e ds)
  then show ?case using fsyms_pair [of d "distribute_or_list (e # ds)"] by auto
qed auto

lemma fsyms_distribute: "fsyms (distribute f) \<subseteq> fsyms f"
proof (induction f rule: distribute.induct)
  case (1 cs)
  then show ?case unfolding distribute.simps(1) fsyms_And_concat by auto
next
  case (2 ds)
  then show ?case using fsyms_list [of "map distribute ds"] by fastforce
qed auto

lemma fsyms_flatten: "fsyms (flatten_connectives f) = fsyms f"
proof (induction f)
  case (And cs)
  then show ?case unfolding flatten_connectives.simps fsyms_And_concat by simp
next
  case (Or ds)
  then show ?case unfolding flatten_connectives.simps fsyms_Or_concat by simp
qed auto

lemma fsyms_to_cnf: "fsyms (to_cnf f) \<subseteq> fsyms f"
  using fsyms_distribute [of "flatten_connectives f"] by (simp add: to_cnf_def fsyms_flatten)

text \<open>The conjuncts that state one definition are its formulas in clause form.\<close>

lemma definition_conjuncts_fval:
  "(\<forall>c \<in> set (definition_conjuncts d). fval I \<rho> c) = (\<forall>f \<in> definition_formulas d. fval I \<rho> f)"
proof (cases d)
  case (Pair a cs)
  have "(\<forall>c \<in> set (definition_conjuncts d). fval I \<rho> c) =
      (\<forall>c \<in> set cs. fval I \<rho> (to_cnf (mk_or [Neg (Atom a), c])))"
    by (simp add: definition_conjuncts_def Pair)
  then show ?thesis by (simp add: to_cnf_fval definition_formulas_def Pair)
qed

lemma definition_conjuncts_syms:
  assumes "c \<in> set (definition_conjuncts d)" "\<And>f. f \<in> definition_formulas d \<Longrightarrow> fsyms f \<subseteq> K"
  shows "fsyms c \<subseteq> K"
proof -
  obtain a cs e where d: "d = (a, cs)" "e \<in> set cs" "c \<in> set (and_parts (to_cnf (mk_or [Neg (Atom a), e])))"
    using assms(1) by (cases d) (auto simp: definition_conjuncts_def)
  then have "fsyms c \<subseteq> fsyms (to_cnf (mk_or [Neg (Atom a), e]))" using and_parts_syms by blast
  also have "\<dots> \<subseteq> fsyms (mk_or [Neg (Atom a), e])" by (rule fsyms_to_cnf)
  also have "\<dots> \<subseteq> K" by (rule assms(2)) (use d in \<open>simp add: definition_formulas_def\<close>)
  finally show ?thesis .
qed

lemma definition_conjuncts_cnf:
  assumes "definition_ok d" "c \<in> set (definition_conjuncts d)"
  shows "is_disj c"
proof -
  obtain a cs e where d: "d = (a, cs)" "e \<in> set cs" "c \<in> set (and_parts (to_cnf (mk_or [Neg (Atom a), e])))"
    using assms(2) by (cases d) (auto simp: definition_conjuncts_def)
  have "is_matrix (mk_or [Neg (Atom a), e])"
    using assms(1) d by (auto simp: definition_ok_def list_all_iff mk_or_def)
  then show ?thesis using is_cnf_and_parts [OF to_cnf_is_cnf d(3)] by blast
qed

lemma wrap_fval: "fval I \<rho> (if length cs = 1 then hd cs else And cs) = (\<forall>c \<in> set cs. fval I \<rho> c)"
  using fval_mk_and [of I \<rho> cs] by (simp add: mk_and_def)

lemma wrap_cnf: "list_all is_disj cs \<Longrightarrow> is_cnf (if length cs = 1 then hd cs else And cs)"
  by (cases cs) (auto intro: is_disj_not_And)

lemma wrap_syms: "(\<And>c. c \<in> set cs \<Longrightarrow> fsyms c \<subseteq> K) \<Longrightarrow> fsyms (if length cs = 1 then hd cs else And cs) \<subseteq> K"
  by (cases cs) auto

lemma definitional_correct:
  fixes TY :: "'a itself"
  assumes f: "is_matrix f" "fsyms f \<subseteq> known_symbols symbols" "symbols_left symbols (names_needed f + n)"
  shows "\<exists>result definitions symbols'.
    to_cnf_definitional_with_defs_thresh f symbols prefix threshold = Some (result, definitions, symbols') \<and>
    is_cnf result \<and> list_all definition_ok definitions \<and> symbols_left symbols' n \<and>
    conservative TY (known_symbols symbols) (known_symbols symbols') {} [f] [result]"
proof -
  obtain g sy defs where g: "name_and_under_or prefix threshold f (symbols, []) = Some (g, (sy, defs))"
    "named TY [f] (symbols, []) n [g] (sy, defs)"
    using name_and_under_or_correct [of f "(symbols, [])" n prefix threshold TY] f by auto
  let ?D = "\<Union>d \<in> set defs. definition_formulas d"
  have ok: "list_all definition_ok defs" "is_matrix g" "symbols_left sy n"
    and c: "conservative TY (known_symbols symbols) (known_symbols sy) ?D [f] [g]"
    using g(2) by (auto simp: delivers_def naming_ext_def naming_new_def)
  let ?cs = "concat (map definition_conjuncts defs) @ and_parts (to_cnf g)"
  let ?h = "if length ?cs = 1 then hd ?cs else And ?cs"
  have disj: "list_all is_disj ?cs"
    using ok definition_conjuncts_cnf is_cnf_and_parts [OF to_cnf_is_cnf [OF ok(2)]]
    by (auto simp: list_all_iff)
  then have cnf: "is_cnf ?h" by (rule wrap_cnf)
  have "fsyms c \<subseteq> known_symbols sy" if mem: "c \<in> set ?cs" for c
  proof (cases "c \<in> set (and_parts (to_cnf g))")
    case True
    then have "fsyms c \<subseteq> fsyms g" using and_parts_syms fsyms_to_cnf by blast
    then show ?thesis using conservative_syms [OF c, of g] by simp
  next
    case False
    then obtain d where d: "d \<in> set defs" "c \<in> set (definition_conjuncts d)" using mem by auto
    show ?thesis
      by (rule definition_conjuncts_syms [OF d(2)]) (use conservative_syms [OF c] d(1) in auto)
  qed
  then have "fsyms ?h \<subseteq> known_symbols sy" by (rule wrap_syms)
  moreover have "fval I \<rho> ?h \<longleftrightarrow> (\<forall>d \<in> ?D. fval I \<rho> d) \<and> fval I \<rho> g" for I :: "'a interp" and \<rho>
  proof -
    have "fval I \<rho> ?h \<longleftrightarrow> (\<forall>d \<in> set defs. \<forall>c \<in> set (definition_conjuncts d). fval I \<rho> c) \<and>
        (\<forall>c \<in> set (and_parts (to_cnf g)). fval I \<rho> c)"
      unfolding wrap_fval by (simp add: ball_Un del: and_parts_fval)
    then show ?thesis by (simp add: definition_conjuncts_fval to_cnf_fval)
  qed
  ultimately have "conservative TY (known_symbols symbols) (known_symbols sy) {} [f] [?h]"
    by (intro conservative_absorb [OF c])
  then show ?thesis using g(1) cnf ok
    by (simp add: to_cnf_definitional_with_defs_thresh_def Let_def)
qed

text \<open>
  On quantifier-free formulas in negation normal form the estimate that guides renaming is
  the number of clauses that distribution produces, capped at the largest \<open>usize\<close>.
\<close>

theorem estimate_counts_clauses:
  assumes "is_matrix f"
  shows "estimate_clause_count f = min (length (and_parts (to_cnf f))) usize_max"
  by (rule estimate_exact [OF assms])

theorem estimate_counts_clauses_witness:
  "estimate_clause_count (Or [And [Atom (Pred 0 []), Atom (Pred 1 [])], And [Atom (Pred 2 []), Neg (Atom (Pred 3 []))]]) =
   min (length (and_parts (to_cnf
     (Or [And [Atom (Pred 0 []), Atom (Pred 1 [])], And [Atom (Pred 2 []), Neg (Atom (Pred 3 []))]])))) usize_max"
  by (rule estimate_counts_clauses) simp

text \<open>
  C13. The definitional clause form of a quantifier-free formula returns whenever enough symbols
  are left. Its result is in conjunctive normal form, implies the input in every structure, and
  is satisfiable whenever the input is: every structure can be changed at the fresh predicates
  only so that the input implies the result everywhere.
\<close>

theorem definitional_cnf_conservative:
  assumes "is_matrix f" "fsyms f \<subseteq> known_symbols symbols" "symbols_left symbols (names_needed f)"
  shows "\<exists>result definitions symbols'.
    to_cnf_definitional_with_defs_thresh f symbols prefix threshold = Some (result, definitions, symbols') \<and>
    is_cnf result \<and> fsyms result \<subseteq> known_symbols symbols' \<and>
    (\<forall>(I :: 'a interp) \<rho>. fval I \<rho> result \<longrightarrow> fval I \<rho> f) \<and>
    (\<forall>I :: 'a interp. \<exists>I'. agree (known_symbols symbols) I I' \<and> (\<forall>\<rho>. fval I \<rho> f \<longrightarrow> fval I' \<rho> result))"
proof -
  obtain result definitions symbols' where
    g: "to_cnf_definitional_with_defs_thresh f symbols prefix threshold = Some (result, definitions, symbols')"
    "is_cnf result" and
    c: "conservative TYPE('a) (known_symbols symbols) (known_symbols symbols') {} [f] [result]"
    using definitional_correct [of f symbols 0 prefix threshold "TYPE('a)"] assms by auto
  moreover have "\<exists>I'. agree (known_symbols symbols) I I' \<and> (\<forall>\<rho>. fval I \<rho> f \<longrightarrow> fval I' \<rho> result)"
    for I :: "'a interp"
    using conservative_extends [OF c, of I] by (simp add: implied_by_def)
  ultimately show ?thesis by (auto simp: conservative_def)
qed

definition three_symbols :: SymbolTable where
  "three_symbols = snd (intern ''r'' (snd (intern ''q'' (snd (intern ''p'' new_table)))))"

lemma three_symbols_many: "symbols_left three_symbols 100"
proof -
  have "table_ok three_symbols"
    unfolding three_symbols_def
    by (intro intern_table_ok new_table_ok) (simp_all add: new_table_def intern_def)
  then show ?thesis by (simp add: symbols_left_def three_symbols_def new_table_def intern_def)
qed

lemma three_symbols_known: "unat i < 3 \<Longrightarrow> i \<in> known_symbols three_symbols"
  by (simp add: known_symbols_def three_symbols_def new_table_def intern_def)

theorem definitional_cnf_conservative_witness:
  "\<exists>result definitions symbols'.
    to_cnf_definitional_with_defs_thresh (Or [Atom (Pred 0 []), And [Atom (Pred 1 [Var 0]), Atom (Pred 2 [])]])
      three_symbols ''ax'' 1 = Some (result, definitions, symbols') \<and>
    is_cnf result \<and> fsyms result \<subseteq> known_symbols symbols' \<and>
    (\<forall>(I :: nat interp) \<rho>. fval I \<rho> result \<longrightarrow>
       fval I \<rho> (Or [Atom (Pred 0 []), And [Atom (Pred 1 [Var 0]), Atom (Pred 2 [])]])) \<and>
    (\<forall>I :: nat interp. \<exists>I'. agree (known_symbols three_symbols) I I' \<and>
       (\<forall>\<rho>. fval I \<rho> (Or [Atom (Pred 0 []), And [Atom (Pred 1 [Var 0]), Atom (Pred 2 [])]]) \<longrightarrow> fval I' \<rho> result))"
  by (rule definitional_cnf_conservative)
    (auto simp: three_symbols_known intro: symbols_left_mono [OF three_symbols_many])

section \<open>Renaming equivalences is an equivalence modulo definitions\<close>

definition equivalence_of :: "IntroducedDefinition \<Rightarrow> Formula" where
  "equivalence_of d = definition_clauses_formula (def_head d) (def_rhs d) (def_polarity d)"

definition bicond_new :: "bicond_state \<Rightarrow> bicond_state \<Rightarrow> Formula set" where
  "bicond_new s s' = equivalence_of ` set (drop (length (snd s)) (snd s'))"

text \<open>
  What is known of a new definition. If the pass is \<open>strict\<close>, that is, its input is placed, so
  is the right-hand side.
\<close>

definition bicond_ok :: "bool \<Rightarrow> IntroducedDefinition \<Rightarrow> bool" where
  "bicond_ok strict d \<longleftrightarrow> def_polarity d = Both \<and>
     (\<exists>q. def_head d = Pred q (map Var (sorted_list_of_set (fvars (def_rhs d))))) \<and>
     (strict \<longrightarrow> placed (fvars (def_rhs d)) (def_rhs d))"

definition bicond_ext :: "bool \<Rightarrow> bicond_state \<Rightarrow> bicond_state \<Rightarrow> bool" where
  "bicond_ext strict s s' \<longleftrightarrow> (\<exists>new. snd s' = snd s @ new \<and> list_all (bicond_ok strict) new)"

interpretation bicond: symbol_pass "equates TY" "\<lambda>s. known_symbols (fst s)" "\<lambda>s. symbols_left (fst s)" bicond_new "bicond_ext strict"
  for TY strict
proof
  show "bicond_ext strict s s" and "bicond_new s s = {}" for s by (simp_all add: bicond_ext_def bicond_new_def)
  show "bicond_ext strict s s2" and "bicond_new s s2 = bicond_new s s1 \<union> bicond_new s1 s2"
    if "bicond_ext strict s s1" "bicond_ext strict s1 s2" for s s1 s2
    using that by (auto simp: bicond_ext_def bicond_new_def)
qed (simp_all add: equates_nil equates_same equates_grows equates_cons equates_trans)

abbreviation renames :: "'a itself \<Rightarrow> bool \<Rightarrow> VarId set \<Rightarrow> Formula list \<Rightarrow> bicond_state \<Rightarrow> nat \<Rightarrow> Formula list \<Rightarrow> bicond_state \<Rightarrow> bool" where
  "renames TY strict U \<equiv> delivers (equates TY) (\<lambda>s. known_symbols (fst s)) (\<lambda>s. symbols_left (fst s)) bicond_new
     (bicond_ext strict) (\<lambda>g. strict \<longrightarrow> placed U g)"

lemma rename_step:
  fixes TY :: "'a itself"
  assumes new: "q \<notin> K" and syms: "fsyms f \<subseteq> K" and vars: "fvars f \<subseteq> set us"
  defines "a \<equiv> Atom (Pred q (map Var us))"
  shows "equates TY K (insert q K) {Iff a f} [f] [a]"
proof (rule equatesI)
  show "K \<subseteq> insert q K" by auto
  show "fsyms g \<subseteq> insert q K" if "g \<in> set [a] \<union> {Iff a f}" for g
    using that syms by (auto simp: a_def)
  show "list_all2 (\<lambda>f g. fval I \<rho> g = fval I \<rho> f) [f] [a]" if "defined_by I {Iff a f}" for I :: "'a interp" and \<rho>
    using that by simp
  fix I :: "'a interp"
  obtain I' where I': "agree K I I'" "\<And>\<rho>. fval I' \<rho> a = fval I \<rho> f"
    using define_predicate [OF new vars, of I] by (auto simp: a_def)
  have "fval I \<rho> f = fval I' \<rho> f" for \<rho> by (rule fval_agree [OF I'(1) syms])
  then show "\<exists>I'. agree K I I' \<and> defined_by I' {Iff a f}" using I' by (intro exI [of _ I']) simp
qed

lemma introduce_definition_correct:
  fixes TY :: "'a itself"
  assumes "fsyms f \<subseteq> known_symbols (fst s)" "symbols_left (fst s) (Suc n)" "strict \<longrightarrow> placed U f"
  shows "\<exists>g s'. introduce_definition prefix f Both s = Some (g, s') \<and> renames TY strict U [f] s n [g] s'"
proof -
  obtain sy defs where s: "s = (sy, defs)" by fastforce
  obtain q sy' where q: "fresh_symbol (''def_'' @ sanitize prefix) sy = Some (q, sy')"
    "q \<notin> known_symbols sy" "known_symbols sy' = insert q (known_symbols sy)" "symbols_left sy' n"
    using assms(2) s fresh.draw_one [of sy n] by (metis fst_conv)
  let ?us = "sorted_list_of_set (formula_free_vars f)"
  let ?a = "Pred q (map Var ?us)"
  have "equates TY (known_symbols sy) (insert q (known_symbols sy)) {Iff (Atom ?a) f} [f] [Atom ?a]"
    by (rule rename_step) (use q(2) assms(1) s in \<open>simp_all add: formula_free_vars_eq\<close>)
  moreover have "introduce_definition prefix f Both s =
      Some (Atom ?a, (sy', defs @ [\<lparr>def_head = ?a, def_rhs = f, def_polarity = Both\<rparr>]))"
    using q(1) by (simp add: s introduce_definition_def Let_def)
  moreover have "strict \<longrightarrow> placed U (Atom ?a)" "strict \<longrightarrow> placed (fvars f) f"
    using assms(3) placed_fvars [of U f] placed_shrink [of U f "fvars f"] by (auto simp: formula_free_vars_eq)
  ultimately show ?thesis
    using q(3,4) by (auto simp: s delivers_def bicond_ext_def bicond_new_def equivalence_of_def
      definition_clauses_formula_def bicond_ok_def formula_free_vars_eq)
qed

text \<open>How many definitions a formula needs at most.\<close>

fun definitions_needed :: "Formula \<Rightarrow> nat" where
  "definitions_needed (Neg f) = definitions_needed f"
| "definitions_needed (And fs) = sum_list (map definitions_needed fs)"
| "definitions_needed (Or fs) = sum_list (map definitions_needed fs)"
| "definitions_needed (Implies a b) = definitions_needed a + definitions_needed b"
| "definitions_needed (Iff a b) = definitions_needed a + definitions_needed b + 2"
| "definitions_needed (Forall v f) = definitions_needed f"
| "definitions_needed (Exists v f) = definitions_needed f"
| "definitions_needed _ = 0"

lemma maybe_define_correct:
  assumes "fsyms f \<subseteq> known_symbols (fst s)" "symbols_left (fst s) (Suc n)" "strict \<longrightarrow> placed U f"
  shows "\<exists>g s'. (if c then introduce_definition prefix f Both s else Some (f, s)) = Some (g, s') \<and>
    renames TY strict U [f] s n [g] s'"
proof (cases c)
  case True
  then show ?thesis using introduce_definition_correct [OF assms, of prefix TY] by simp
next
  case False
  then show ?thesis using symbols_left_mono [OF assms(2), of n] assms(1,3)
    by (auto intro: bicond.deliver_same simp del: split_paired_Ex)
qed

lemma renames_then_two:
  assumes "\<exists>g s1. x = Some (g, s1) \<and> renames TY strict U [f] s m [g] s1"
    and "\<And>g s1. x = Some (g, s1) \<Longrightarrow> renames TY strict U [f] s m [g] s1 \<Longrightarrow>
      \<exists>h s2. y g s1 = Some (h, s2) \<and> renames TY strict U [f'] s1 n [h] s2"
    and "fsyms f' \<subseteq> known_symbols (fst s)"
  shows "\<exists>g s1 h s2. x = Some (g, s1) \<and> y g s1 = Some (h, s2) \<and> renames TY strict U [f, f'] s n [g, h] s2"
proof -
  obtain g s1 where 1: "x = Some (g, s1)" "renames TY strict U [f] s m [g] s1" using assms(1) by blast
  obtain h s2 where 2: "y g s1 = Some (h, s2)" "renames TY strict U [f'] s1 n [h] s2" using assms(2) [OF 1] by blast
  have "renames TY strict U [f, f'] s n [g, h] s2"
    by (rule bicond.deliver_cons [OF 1(2) 2(2)]) (use assms(3) in simp)
  then show ?thesis using 1(1) 2(1) by blast
qed

lemma traverse_correct:
  fixes TY :: "'a itself"
  shows "fsyms f \<subseteq> known_symbols (fst s) \<Longrightarrow> symbols_left (fst s) (definitions_needed f + n) \<Longrightarrow>
     strict \<longrightarrow> placed U f \<Longrightarrow> \<exists>g s'. traverse prefix threshold f s = Some (g, s') \<and> renames TY strict U [f] s n [g] s'"
proof (induction f arbitrary: s n U)
  case (Neg f)
  obtain g s' where 1: "traverse prefix threshold f s = Some (g, s')" "renames TY strict U [f] s n [g] s'"
    using Neg.IH [of s n U] Neg.prems by auto
  have "renames TY strict U [Neg f] s n [Neg g] s'"
    by (rule deliver_context [OF 1(2)]) (use 1(2) in \<open>simp_all add: delivers_def\<close>)
  then show ?case using 1(1) by simp
next
  case (Forall v f)
  obtain g s' where 1: "traverse prefix threshold f s = Some (g, s')" "renames TY strict (insert v U) [f] s n [g] s'"
    using Forall.IH [of s n "insert v U"] Forall.prems by auto
  have "renames TY strict U [Forall v f] s n [Forall v g] s'"
    by (rule deliver_context [OF 1(2)]) (use 1(2) Forall.prems(3) in \<open>simp_all add: delivers_def\<close>)
  then show ?case using 1(1) by simp
next
  case (Exists v f)
  obtain g s' where 1: "traverse prefix threshold f s = Some (g, s')" "renames TY strict (insert v U) [f] s n [g] s'"
    using Exists.IH [of s n "insert v U"] Exists.prems by auto
  have "renames TY strict U [Exists v f] s n [Exists v g] s'"
    by (rule deliver_context [OF 1(2)]) (use 1(2) Exists.prems(3) in \<open>simp_all add: delivers_def\<close>)
  then show ?case using 1(1) by simp
next
  case (And fs)
  have "\<exists>gs s'. mapM_st (traverse prefix threshold) fs s = Some (gs, s') \<and> renames TY strict U fs s n gs s'"
    by (rule bicond.deliver_list [where cost = definitions_needed])
      (use And in \<open>auto simp: UN_subset_iff\<close>)
  then obtain gs s' where 1: "mapM_st (traverse prefix threshold) fs s = Some (gs, s')" "renames TY strict U fs s n gs s'"
    by blast
  have "renames TY strict U [And fs] s n [And gs] s'"
    by (rule deliver_context [OF 1(2)]) (use 1(2) in \<open>auto simp: delivers_def list_all2_conv_all_nth all_set_conv_all_nth\<close>)
  then show ?case using 1(1) by simp
next
  case (Or fs)
  have "\<exists>gs s'. mapM_st (traverse prefix threshold) fs s = Some (gs, s') \<and> renames TY strict U fs s n gs s'"
    by (rule bicond.deliver_list [where cost = definitions_needed])
      (use Or in \<open>auto simp: UN_subset_iff\<close>)
  then obtain gs s' where 1: "mapM_st (traverse prefix threshold) fs s = Some (gs, s')" "renames TY strict U fs s n gs s'"
    by blast
  have "renames TY strict U [Or fs] s n [Or gs] s'"
    by (rule deliver_context [OF 1(2)]) (use 1(2) in \<open>auto simp: delivers_def list_all2_conv_all_nth Bex_set_list_ex list_ex_length\<close>)
  then show ?case using 1(1) by simp
next
  case (Implies a b)
  have "\<exists>a' s1 b' s2. traverse prefix threshold a s = Some (a', s1) \<and>
      traverse prefix threshold b s1 = Some (b', s2) \<and> renames TY strict U [a, b] s n [a', b'] s2"
    by (rule renames_then_two [where m = "definitions_needed b + n"])
      (use Implies in \<open>auto simp: add.assoc delivers_def dest: equates_grows simp del: split_paired_Ex\<close>)
  then obtain a' s1 b' s2 where 1: "traverse prefix threshold a s = Some (a', s1)"
    "traverse prefix threshold b s1 = Some (b', s2)" "renames TY strict U [a, b] s n [a', b'] s2" by blast
  have "renames TY strict U [Implies a b] s n [Implies a' b'] s2"
    by (rule deliver_context [OF 1(3)]) (use 1(3) in \<open>auto simp: delivers_def\<close>)
  then show ?case using 1(1,2) by simp
next
  case (Iff a b)
  have "\<exists>a1 s1 b1 s2. traverse prefix threshold a s = Some (a1, s1) \<and>
      traverse prefix threshold b s1 = Some (b1, s2) \<and> renames TY strict U [a, b] s (2 + n) [a1, b1] s2"
    by (rule renames_then_two [where m = "definitions_needed b + (2 + n)"])
      (use Iff in \<open>auto simp: add.assoc delivers_def dest: equates_grows simp del: split_paired_Ex\<close>)
  then obtain a1 s1 b1 s2 where 1: "traverse prefix threshold a s = Some (a1, s1)"
    "traverse prefix threshold b s1 = Some (b1, s2)" "renames TY strict U [a, b] s (2 + n) [a1, b1] s2" by blast
  have iff1: "renames TY strict U [Iff a b] s (2 + n) [Iff a1 b1] s2"
    by (rule deliver_context [OF 1(3)]) (use 1(3) in \<open>auto simp: delivers_def\<close>)
  have syms: "fsyms a1 \<subseteq> known_symbols (fst s2)" "fsyms b1 \<subseteq> known_symbols (fst s2)"
    and left: "symbols_left (fst s2) (2 + n)" and pl: "strict \<longrightarrow> placed U a1" "strict \<longrightarrow> placed U b1"
    using 1(3) equates_syms by (fastforce simp: delivers_def)+
  let ?a = "if needs_biconditional_naming a1 b1 threshold then introduce_definition prefix a1 Both s2 else Some (a1, s2)"
  let ?b = "\<lambda>s. if needs_biconditional_naming b1 a1 threshold then introduce_definition prefix b1 Both s else Some (b1, s)"
  have "\<exists>a2 s3 b2 s4. ?a = Some (a2, s3) \<and> ?b s3 = Some (b2, s4) \<and> renames TY strict U [a1, b1] s2 n [a2, b2] s4"
  proof (rule renames_then_two [where m = "Suc n"])
    show "\<exists>g s1. ?a = Some (g, s1) \<and> renames TY strict U [a1] s2 (Suc n) [g] s1"
      by (rule maybe_define_correct [OF syms(1)]) (use left pl in simp_all)
    show "\<exists>h s4. ?b s3 = Some (h, s4) \<and> renames TY strict U [b1] s3 n [h] s4" if "renames TY strict U [a1] s2 (Suc n) [g] s3" for g s3
      by (rule maybe_define_correct) (use that syms(2) pl(2) in \<open>auto simp: delivers_def dest: equates_grows\<close>)
  qed (rule syms(2))
  then obtain a2 s3 b2 s4 where 2: "?a = Some (a2, s3)" "?b s3 = Some (b2, s4)"
    "renames TY strict U [a1, b1] s2 n [a2, b2] s4" by blast
  have "renames TY strict U [Iff a1 b1] s2 n [Iff a2 b2] s4"
    by (rule deliver_context [OF 2(3)]) (use 2(3) in \<open>auto simp: delivers_def\<close>)
  then have "renames TY strict U [Iff a b] s n [Iff a2 b2] s4" by (rule bicond.deliver_then [OF iff1])
  moreover have "traverse prefix threshold (Iff a b) s = Some (Iff a2 b2, s4)"
    using 1(1,2) 2(1,2) by (simp add: Let_def)
  ultimately show ?case by blast
qed (simp_all add: bicond.deliver_same del: split_paired_Ex)

text \<open>
  Renaming complex equivalences returns whenever enough symbols are left. In every structure
  in which the introduced definitions hold the result is equivalent to the input, and every
  structure can be changed at the fresh predicates only so that the definitions hold.
\<close>

theorem rename_complex_equivalences_correct:
  assumes "fsyms f \<subseteq> known_symbols symbols" "symbols_left symbols (definitions_needed f)"
  shows "\<exists>renamed definitions symbols'.
    rename_complex_equivalences f symbols prefix threshold = Some (renamed, definitions, symbols') \<and>
    (\<forall>I :: 'a interp. defined_by I (equivalence_of ` set definitions) \<longrightarrow> (\<forall>\<rho>. fval I \<rho> renamed = fval I \<rho> f)) \<and>
    (\<forall>I :: 'a interp. \<exists>I'. agree (known_symbols symbols) I I' \<and>
       defined_by I' (equivalence_of ` set definitions))"
proof -
  obtain g sy defs where g: "traverse prefix threshold f (symbols, []) = Some (g, (sy, defs))"
    "renames TYPE('a) False {} [f] (symbols, []) 0 [g] (sy, defs)"
    using traverse_correct [of f "(symbols, [])" 0 False "{}" prefix threshold "TYPE('a)"] assms by auto
  then have "equates TYPE('a) (known_symbols symbols) (known_symbols sy) (equivalence_of ` set defs) [f] [g]"
    by (auto simp: delivers_def bicond_new_def)
  then show ?thesis using g(1) by (auto simp: rename_complex_equivalences_def equates_def)
qed

theorem rename_complex_equivalences_correct_witness:
  "\<exists>renamed definitions symbols'.
    rename_complex_equivalences (Iff (Atom (Pred 0 [])) (Forall 0 (Atom (Pred 1 [Var 0, Var 1])))) three_symbols ''ax'' 8
      = Some (renamed, definitions, symbols') \<and>
    (\<forall>I :: nat interp. defined_by I (equivalence_of ` set definitions) \<longrightarrow>
       (\<forall>\<rho>. fval I \<rho> renamed = fval I \<rho> (Iff (Atom (Pred 0 [])) (Forall 0 (Atom (Pred 1 [Var 0, Var 1])))))) \<and>
    (\<forall>I :: nat interp. \<exists>I'. agree (known_symbols three_symbols) I I' \<and>
       defined_by I' (equivalence_of ` set definitions))"
  by (rule rename_complex_equivalences_correct)
    (auto simp: three_symbols_known intro: symbols_left_mono [OF three_symbols_many])

end
