(* ===== verification/Miniscope.thy ===== *)
theory Miniscope
  imports Nnf
begin

text \<open>
  Miniscoping, \<open>crates/mrs-cnf/src/miniscope.rs\<close>: quantifiers are pushed towards the atoms that
  use their variable.
\<close>

section \<open>The code\<close>

definition has_free_var :: "Formula \<Rightarrow> VarId \<Rightarrow> bool" where
  "has_free_var f v = (v \<in> formula_free_vars f)"

definition push_forall :: "VarId \<Rightarrow> Formula \<Rightarrow> Formula" where
  "push_forall v body =
     (if \<not> has_free_var body v then body
      else case body of
        And cs \<Rightarrow> mk_and (map (\<lambda>c. if has_free_var c v then Forall v c else c) cs)
      | Or ds \<Rightarrow>
          let (with_x, without_x) = partition (\<lambda>d. has_free_var d v) ds
          in if without_x = [] then Forall v (mk_or with_x)
             else mk_or (without_x @ (if with_x \<noteq> [] then [Forall v (mk_or with_x)] else []))
      | other \<Rightarrow> Forall v other)"

definition push_exists :: "VarId \<Rightarrow> Formula \<Rightarrow> Formula" where
  "push_exists v body =
     (if \<not> has_free_var body v then body
      else case body of
        Or ds \<Rightarrow> mk_or (map (\<lambda>d. if has_free_var d v then Exists v d else d) ds)
      | And cs \<Rightarrow>
          let (with_x, without_x) = partition (\<lambda>c. has_free_var c v) cs
          in if without_x = [] then Exists v (mk_and with_x)
             else mk_and (without_x @ (if with_x \<noteq> [] then [Exists v (mk_and with_x)] else []))
      | other \<Rightarrow> Exists v other)"

fun miniscope :: "Formula \<Rightarrow> Formula" where
  "miniscope (Forall v body) = push_forall v (miniscope body)"
| "miniscope (Exists v body) = push_exists v (miniscope body)"
| "miniscope (And cs) = mk_and (map miniscope cs)"
| "miniscope (Or ds) = mk_or (map miniscope ds)"
| "miniscope (Neg inner) = Neg (miniscope inner)"
| "miniscope f = f"

section \<open>Pushing one quantifier\<close>

lemma has_free_var_eq: "has_free_var f v \<longleftrightarrow> v \<in> fvars f"
  by (simp add: has_free_var_def formula_free_vars_eq)

lemma fval_if_forall:
  "fval I \<rho> (if has_free_var c v then Forall v c else c) = (\<forall>x. fval I (\<rho>(v := x)) c)"
  by (simp add: has_free_var_eq fval_upd_irrelevant)

lemma fval_if_exists:
  "fval I \<rho> (if has_free_var c v then Exists v c else c) = (\<exists>x. fval I (\<rho>(v := x)) c)"
  by (simp add: has_free_var_eq fval_upd_irrelevant)

text \<open>The members of a list that do not use the variable can be taken out of its scope.\<close>

lemma split_disjuncts:
  "(\<forall>x. \<exists>d \<in> set ds. fval I (\<rho>(v := x)) d) \<longleftrightarrow>
     (\<exists>d \<in> set ds. \<not> has_free_var d v \<and> fval I \<rho> d) \<or>
     (\<forall>x. \<exists>d \<in> set ds. has_free_var d v \<and> fval I (\<rho>(v := x)) d)"
proof -
  have "fval I (\<rho>(v := x)) d = fval I \<rho> d" if "\<not> has_free_var d v" for d x
    using that by (simp add: has_free_var_eq fval_upd_irrelevant)
  then show ?thesis by metis
qed

lemma split_conjuncts:
  "(\<exists>x. \<forall>c \<in> set cs. fval I (\<rho>(v := x)) c) \<longleftrightarrow>
     (\<forall>c \<in> set cs. \<not> has_free_var c v \<longrightarrow> fval I \<rho> c) \<and>
     (\<exists>x. \<forall>c \<in> set cs. has_free_var c v \<longrightarrow> fval I (\<rho>(v := x)) c)"
proof -
  have "fval I (\<rho>(v := x)) d = fval I \<rho> d" if "\<not> has_free_var d v" for d x
    using that by (simp add: has_free_var_eq fval_upd_irrelevant)
  then show ?thesis by metis
qed

text \<open>The result on a disjunction under \<open>\<forall>\<close>; dually on a conjunction under \<open>\<exists>\<close>.\<close>

lemma push_forall_Or:
  assumes "has_free_var (Or ds) v"
  shows "fval I \<rho> (push_forall v (Or ds)) \<longleftrightarrow>
     (\<exists>d \<in> set ds. \<not> has_free_var d v \<and> fval I \<rho> d) \<or>
     (\<forall>x. \<exists>d \<in> set ds. has_free_var d v \<and> fval I (\<rho>(v := x)) d)"
proof (cases "\<forall>d \<in> set ds. has_free_var d v")
  case True
  then have "filter (Not \<circ> (\<lambda>d. has_free_var d v)) ds = []" "filter (\<lambda>d. has_free_var d v) ds = ds"
    by (simp_all add: filter_empty_conv)
  then have "push_forall v (Or ds) = Forall v (mk_or ds)" using assms by (simp add: push_forall_def)
  then show ?thesis using True by auto
next
  case False
  then have "filter (Not \<circ> (\<lambda>d. has_free_var d v)) ds \<noteq> []" by (auto simp: filter_empty_conv)
  moreover have "filter (\<lambda>d. has_free_var d v) ds \<noteq> []"
    using assms by (auto simp: has_free_var_eq filter_empty_conv)
  ultimately have "push_forall v (Or ds) =
      mk_or (filter (Not \<circ> (\<lambda>d. has_free_var d v)) ds @ [Forall v (mk_or (filter (\<lambda>d. has_free_var d v) ds))])"
    using assms by (simp add: push_forall_def)
  then show ?thesis by (simp add: bex_Un conj_commute) blast
qed

lemma push_exists_And:
  assumes "has_free_var (And cs) v"
  shows "fval I \<rho> (push_exists v (And cs)) \<longleftrightarrow>
     (\<forall>c \<in> set cs. \<not> has_free_var c v \<longrightarrow> fval I \<rho> c) \<and>
     (\<exists>x. \<forall>c \<in> set cs. has_free_var c v \<longrightarrow> fval I (\<rho>(v := x)) c)"
proof (cases "\<forall>c \<in> set cs. has_free_var c v")
  case True
  then have "filter (Not \<circ> (\<lambda>c. has_free_var c v)) cs = []" "filter (\<lambda>c. has_free_var c v) cs = cs"
    by (simp_all add: filter_empty_conv)
  then have "push_exists v (And cs) = Exists v (mk_and cs)" using assms by (simp add: push_exists_def)
  then show ?thesis using True by auto
next
  case False
  then have "filter (Not \<circ> (\<lambda>c. has_free_var c v)) cs \<noteq> []" by (auto simp: filter_empty_conv)
  moreover have "filter (\<lambda>c. has_free_var c v) cs \<noteq> []"
    using assms by (auto simp: has_free_var_eq filter_empty_conv)
  ultimately have "push_exists v (And cs) =
      mk_and (filter (Not \<circ> (\<lambda>c. has_free_var c v)) cs @ [Exists v (mk_and (filter (\<lambda>c. has_free_var c v) cs))])"
    using assms by (simp add: push_exists_def)
  then show ?thesis by (simp add: ball_Un) blast
qed

lemma push_forall_fval: "fval I \<rho> (push_forall v f) = (\<forall>x. fval I (\<rho>(v := x)) f)"
proof (cases "has_free_var f v")
  case False
  then show ?thesis by (simp add: push_forall_def has_free_var_eq fval_upd_irrelevant)
next
  case free: True
  consider ds where "f = Or ds" | cs where "f = And cs" | "push_forall v f = Forall v f"
    using free by (cases f) (simp_all add: push_forall_def)
  then show ?thesis
  proof cases
    case 1
    then show ?thesis using push_forall_Or [of ds v I \<rho>] split_disjuncts [of ds I \<rho> v] free by simp
  next
    case 2
    then have "fval I \<rho> (push_forall v f) = (\<forall>c \<in> set cs. \<forall>x. fval I (\<rho>(v := x)) c)"
      using free by (simp add: push_forall_def fval_if_forall del: fval.simps if_image_distrib)
    then show ?thesis using 2 by auto
  qed simp
qed

lemma push_exists_fval: "fval I \<rho> (push_exists v f) = (\<exists>x. fval I (\<rho>(v := x)) f)"
proof (cases "has_free_var f v")
  case False
  then show ?thesis by (simp add: push_exists_def has_free_var_eq fval_upd_irrelevant)
next
  case free: True
  consider cs where "f = And cs" | ds where "f = Or ds" | "push_exists v f = Exists v f"
    using free by (cases f) (simp_all add: push_exists_def)
  then show ?thesis
  proof cases
    case 1
    then show ?thesis using push_exists_And [of cs v I \<rho>] split_conjuncts [of cs I \<rho> v] free by simp
  next
    case 2
    then have "fval I \<rho> (push_exists v f) = (\<exists>d \<in> set ds. \<exists>x. fval I (\<rho>(v := x)) d)"
      using free by (simp add: push_exists_def fval_if_exists del: fval.simps if_image_distrib)
    then show ?thesis using 2 by auto
  qed simp
qed

lemma push_forall_fvars: "fvars (push_forall v f) = fvars f - {v}"
  by (cases f) (auto simp: push_forall_def has_free_var_eq filter_empty_conv split: if_splits)

lemma push_exists_fvars: "fvars (push_exists v f) = fvars f - {v}"
  by (cases f) (auto simp: push_exists_def has_free_var_eq filter_empty_conv split: if_splits)

lemma push_forall_is_nnf: "is_nnf f \<Longrightarrow> is_nnf (push_forall v f)"
  by (cases f) (auto simp: push_forall_def list_all_iff)

lemma push_exists_is_nnf: "is_nnf f \<Longrightarrow> is_nnf (push_exists v f)"
  by (cases f) (auto simp: push_exists_def list_all_iff)

lemmas push_fvars = push_forall_fvars push_exists_fvars
lemmas push_is_nnf = push_forall_is_nnf push_exists_is_nnf

lemma miniscope_fval: "fval I \<rho> (miniscope f) = fval I \<rho> f"
  by (induction f arbitrary: \<rho>) (simp_all add: push_forall_fval push_exists_fval)

lemma miniscope_fvars: "fvars (miniscope f) = fvars f"
  by (induction f) (simp_all add: push_fvars)

lemma miniscope_is_nnf: "is_nnf f \<Longrightarrow> is_nnf (miniscope f)"
proof (induction f)
  case (Neg f)
  then show ?case by (cases f) simp_all
qed (auto simp: push_is_nnf list_all_iff)

text \<open>
  Miniscoping keeps the value of every formula in every structure, its free variables and
  its negation normal form.
\<close>

theorem miniscope_correct:
  "fval I \<rho> (miniscope f) = fval I \<rho> f \<and> formula_free_vars (miniscope f) = formula_free_vars f \<and>
   (is_nnf f \<longrightarrow> is_nnf (miniscope f))"
  by (simp add: miniscope_fval miniscope_fvars miniscope_is_nnf formula_free_vars_eq)

theorem miniscope_correct_witness:
  "is_nnf (miniscope (Forall 0 (Or [Atom (Pred 0 [Var 0]), Neg (Atom (Pred 1 [Var 1]))])))"
  by (rule miniscope_correct [THEN conjunct2, THEN conjunct2, rule_format]) simp

end
