(* ===== verification/Clausify.thy ===== *)
theory Clausify
  imports Definitional Miniscope
begin

text \<open>
  The clausification pipeline with its provenance, \<open>crates/mrs-cnf/src/lib.rs\<close>: renaming of
  equivalences, negation normal form, Skolemization, (definitional) clause form, extraction of
  clauses, citations, simplification.
\<close>

section \<open>Helpers of the pipeline\<close>

fun collect_pred_symbols :: "Formula \<Rightarrow> SymbolId set \<Rightarrow> SymbolId set" where
  "collect_pred_symbols (Atom a) out = (case a of Pred s _ \<Rightarrow> insert s out | Eq _ _ \<Rightarrow> out)"
| "collect_pred_symbols FTrue out = out"
| "collect_pred_symbols FFalse out = out"
| "collect_pred_symbols (Neg inner) out = collect_pred_symbols inner out"
| "collect_pred_symbols (And cs) out = fold collect_pred_symbols cs out"
| "collect_pred_symbols (Or cs) out = fold collect_pred_symbols cs out"
| "collect_pred_symbols (Implies a b) out = collect_pred_symbols b (collect_pred_symbols a out)"
| "collect_pred_symbols (Iff a b) out = collect_pred_symbols b (collect_pred_symbols a out)"
| "collect_pred_symbols (Forall v body) out = collect_pred_symbols body out"
| "collect_pred_symbols (Exists v body) out = collect_pred_symbols body out"

fun strip_forall :: "Formula \<Rightarrow> Formula" where
  "strip_forall (Forall v body) = strip_forall body"
| "strip_forall (And cs) = mk_and (map strip_forall cs)"
| "strip_forall (Or ds) = mk_or (map strip_forall ds)"
| "strip_forall (Neg inner) = Neg (strip_forall inner)"
| "strip_forall other = other"

fun contains_and :: "Formula \<Rightarrow> bool" where
  "contains_and (And cs) = True"
| "contains_and (Or ds) = list_ex contains_and ds"
| "contains_and f = False"

fun has_and_under_or :: "Formula \<Rightarrow> bool" where
  "has_and_under_or (Or ds) = list_ex contains_and ds"
| "has_and_under_or (And cs) = list_ex has_and_under_or cs"
| "has_and_under_or f = False"

text \<open>The variables sorted, and folded from the last to the first around the formula.\<close>

definition universal_closure :: "VarId set \<Rightarrow> Formula \<Rightarrow> Formula" where
  "universal_closure vs f = foldr Forall (sorted_list_of_set vs) f"

text \<open>An equation as the head of a definition is \<open>unreachable!()\<close>.\<close>

definition head_symbol :: "Atom \<Rightarrow> SymbolId option" where
  "head_symbol a = (case a of Pred s _ \<Rightarrow> Some s | Eq _ _ \<Rightarrow> None)"

section \<open>Provenance of renamed equivalences\<close>

type_synonym id_table = "(SymbolId, ClauseId) fmap"

definition assign_definition_ids :: "IntroducedDefinition list \<Rightarrow> ClauseIdGen
    \<Rightarrow> (ClauseId list \<times> id_table \<times> ClauseIdGen) option" where
  "assign_definition_ids defs id_gen = foldM (\<lambda>def (def_ids, by_symbol, id_gen). do {
     def_sym \<leftarrow> head_symbol (def_head def);
     let (def_id, id_gen) = next_id id_gen;
     Some (def_ids @ [def_id], fmupd def_sym def_id by_symbol, id_gen) }) defs ([], fmempty, id_gen)"

definition introduced_step :: "ClauseId \<Rightarrow> id_table \<Rightarrow> IntroducedDefinition \<Rightarrow> Clause option" where
  "introduced_step leaf_id by_symbol def = do {
     def_sym \<leftarrow> head_symbol (def_head def);
     def_id \<leftarrow> fmlookup by_symbol def_sym;
     let closed_biconditional =
       universal_closure (formula_free_vars (def_rhs def)) (Iff (Atom (def_head def)) (def_rhs def));
     let referenced = collect_pred_symbols (def_rhs def) {};
     let dependency_symbols = sorted_list_of_set
       (Set.filter (\<lambda>s. s \<noteq> def_sym \<and> fmlookup by_symbol s \<noteq> None) referenced);
     Some (new_formula_step def_id closed_biconditional
       (Introduced def_sym (leaf_id # List.map_filter (fmlookup by_symbol) dependency_symbols))) }"

definition renaming_steps :: "ClauseId \<Rightarrow> Formula \<Rightarrow> IntroducedDefinition list \<Rightarrow> ClauseIdGen
    \<Rightarrow> (Clause list \<times> id_table \<times> ClauseId \<times> ClauseIdGen) option" where
  "renaming_steps leaf_id preprocessed bicond_defs id_gen =
     (if bicond_defs = [] then Some ([], fmempty, leaf_id, id_gen)
      else do {
        (def_ids, by_symbol, id_gen) \<leftarrow> assign_definition_ids bicond_defs id_gen;
        steps \<leftarrow> those (map (introduced_step leaf_id by_symbol) bicond_defs);
        let (renamed_id, id_gen) = next_id id_gen;
        Some (steps @ [new_formula_step renamed_id preprocessed
            (Inference ''definition_renaming'' (leaf_id # def_ids))],
          by_symbol, renamed_id, id_gen) })"

section \<open>Clauses of the renamed equivalences\<close>

text \<open>What the loop over the renamed equivalences reads and writes.\<close>

record ClausifyState =
  cl_symbols :: SymbolTable
  cl_gen :: ClauseIdGen
  cl_provenance :: "Clause list"
  cl_sources :: "(SymbolId, ClauseId) fmap"
  cl_definitions :: "(Atom \<times> Formula list) list"
  cl_clauses :: "Clause list"

definition record_sources :: "(Atom \<times> Formula list) list \<Rightarrow> ClauseId \<Rightarrow> (SymbolId, ClauseId) fmap
    \<Rightarrow> (SymbolId, ClauseId) fmap option" where
  "record_sources definitions source_id = foldM (\<lambda>(def_atom, _) sources. do {
     def_sym \<leftarrow> head_symbol def_atom;
     Some (fmupd def_sym source_id sources) }) definitions"

definition clausify_definition :: "string \<Rightarrow> id_table \<Rightarrow> nat \<times> IntroducedDefinition \<Rightarrow> ClausifyState
    \<Rightarrow> ClausifyState option" where
  "clausify_definition name by_symbol = (\<lambda>(i, def) st. do {
     def_sym \<leftarrow> head_symbol (def_head def);
     def_id \<leftarrow> fmlookup by_symbol def_sym;
     let formula_to_clausify = definition_clauses_formula (def_head def) (def_rhs def) (def_polarity def);
     let closed_formula = universal_closure (formula_free_vars formula_to_clausify) formula_to_clausify;
     let def_nnf = to_nnf closed_formula;
     let (def_nnf_id, id_gen) = next_id (cl_gen st);
     let nnf_step = new_formula_step def_nnf_id def_nnf (Inference ''fof_nnf_transformation'' [def_id]);
     let prefix = name @ ''_iff_def_'' @ show_nat i;
     (def_skolem, symbols) \<leftarrow> skolemize def_nnf (cl_symbols st) prefix;
     let (def_skolem_id, id_gen) = next_id id_gen;
     let skolem_step = new_formula_step def_skolem_id def_skolem (Inference ''skolemisation'' [def_nnf_id]);
     let def_stripped = strip_forall def_skolem;
     (def_cnf, inner_defs, symbols) \<leftarrow>
       (if has_and_under_or def_stripped
        then to_cnf_definitional_with_defs_thresh def_stripped symbols prefix DEFAULT_RENAMING_THRESHOLD
        else Some (to_cnf def_stripped, [], symbols));
     sources \<leftarrow> record_sources inner_defs def_skolem_id (cl_sources st);
     (clauses, id_gen) \<leftarrow>
       extract_clauses def_cnf id_gen (Inference ''cnf_transformation'' [def_skolem_id]);
     Some \<lparr>cl_symbols = symbols, cl_gen = id_gen, cl_provenance = cl_provenance st @ [nnf_step, skolem_step],
       cl_sources = sources, cl_definitions = cl_definitions st @ inner_defs,
       cl_clauses = cl_clauses st @ clauses\<rparr> })"

section \<open>Provenance of definitional clause form\<close>

definition assign_tseitin_ids :: "(Atom \<times> Formula list) list \<Rightarrow> ClauseIdGen \<Rightarrow> (id_table \<times> ClauseIdGen) option" where
  "assign_tseitin_ids definitions id_gen = foldM (\<lambda>(def_atom, _) (by_symbol, id_gen). do {
     def_sym \<leftarrow> head_symbol def_atom;
     Some (case fmlookup by_symbol def_sym of
         Some _ \<Rightarrow> (by_symbol, id_gen)
       | None \<Rightarrow> let (def_id, id_gen) = next_id id_gen in (fmupd def_sym def_id by_symbol, id_gen)) })
     definitions (fmempty, id_gen)"

text \<open>
  The dependencies of a definition are listed in the iteration order of a hash set, which the
  program does not fix: the argument \<open>order\<close>.
\<close>

type_synonym dep_table = "(SymbolId, SymbolId list) fmap"

definition tseitin_step :: "(SymbolId set \<Rightarrow> SymbolId list) \<Rightarrow> id_table \<Rightarrow> (SymbolId, ClauseId) fmap
    \<Rightarrow> Atom \<times> Formula list \<Rightarrow> dep_table \<Rightarrow> (Clause \<times> dep_table) option" where
  "tseitin_step order by_symbol sources = (\<lambda>(def_atom, conjuncts) def_deps. do {
     def_sym \<leftarrow> head_symbol def_atom;
     def_id \<leftarrow> fmlookup by_symbol def_sym;
     let referenced = fold collect_pred_symbols conjuncts {};
     let deps = List.filter (\<lambda>s. s \<noteq> def_sym \<and> fmlookup by_symbol s \<noteq> None) (order referenced);
     let def_deps = (if deps = [] then def_deps else fmupd def_sym deps def_deps);
     let rhs = (if length conjuncts = 1 then hd conjuncts else mk_and conjuncts);
     let biconditional = Iff (Atom def_atom) rhs;
     let closed_biconditional = universal_closure (formula_free_vars biconditional) biconditional;
     source_id \<leftarrow> fmlookup sources def_sym;
     let def_parents = source_id # (case fmlookup def_deps def_sym of
         None \<Rightarrow> [] | Some deps \<Rightarrow> List.map_filter (fmlookup by_symbol) deps);
     Some (new_formula_step def_id closed_biconditional (Introduced def_sym def_parents), def_deps) })"

section \<open>Citations of definitions by clauses\<close>

text \<open>
  The worklist of one clause. The vector \<open>frontier\<close> is a stack whose top is its last element;
  symbols are 32-bit numbers, so only finitely many can still be unseen.
\<close>

function cite_loop :: "id_table \<Rightarrow> dep_table \<Rightarrow> SymbolId set \<Rightarrow> ClauseId list \<Rightarrow> SymbolId list \<Rightarrow> ClauseId list" where
  "cite_loop by_symbol def_deps seen extra frontier =
     (if frontier = [] then extra
      else let sy = last frontier; rest = butlast frontier in
        if sy \<in> seen then cite_loop by_symbol def_deps seen extra rest
        else cite_loop by_symbol def_deps (insert sy seen)
          (case fmlookup by_symbol sy of
             Some def_id \<Rightarrow> if def_id \<in> set extra then extra else extra @ [def_id]
           | None \<Rightarrow> extra)
          (case fmlookup def_deps sy of Some deps \<Rightarrow> rest @ deps | None \<Rightarrow> rest))"
  by pat_completeness auto
termination
proof (relation "measures [\<lambda>(_, _, seen, _, _). card (UNIV - seen), \<lambda>(_, _, _, _, frontier). length frontier]")
  show "wf (measures [\<lambda>(_ :: id_table, _ :: dep_table, seen, _ :: ClauseId list, _ :: SymbolId list). card (UNIV - seen),
      \<lambda>(_, _, _, _, frontier). length frontier])"
    by simp
next
  fix frontier rest :: "SymbolId list" and sy seen
  assume *: "sy \<notin> (seen :: SymbolId set)"
  have "UNIV - insert sy seen \<subset> UNIV - seen" using * by blast
  then show "((b, d, insert sy seen, x, y), b, d, seen, z, frontier)
      \<in> measures [\<lambda>(_, _, seen, _, _). card (UNIV - seen), \<lambda>(_, _, _, _, frontier). length frontier]" for b :: id_table and d :: dep_table and x y z
    by (simp add: psubset_card_mono)
qed simp_all

declare cite_loop.simps [simp del]

definition cited_symbols :: "id_table \<Rightarrow> Clause \<Rightarrow> SymbolId list" where
  "cited_symbols by_symbol c = List.map_filter (\<lambda>l. case atom l of
     Pred s _ \<Rightarrow> if fmlookup by_symbol s \<noteq> None then Some s else None | Eq _ _ \<Rightarrow> None) (literals c)"

definition cite_definitions :: "id_table \<Rightarrow> dep_table \<Rightarrow> Clause \<Rightarrow> Clause" where
  "cite_definitions by_symbol def_deps c =
     (let extra = cite_loop by_symbol def_deps {} [] (cited_symbols by_symbol c)
      in case clause_source c of
           Inference rule parents \<Rightarrow>
             c\<lparr>clause_source := Inference rule (fold (\<lambda>p ps. if p \<in> set ps then ps else ps @ [p]) extra parents)\<rparr>
         | _ \<Rightarrow> c)"

section \<open>The pipeline\<close>

definition clausify_with_provenance :: "(SymbolId set \<Rightarrow> SymbolId list) \<Rightarrow> Formula \<Rightarrow> SymbolTable \<Rightarrow> ClauseIdGen
    \<Rightarrow> string \<Rightarrow> ClauseSource \<Rightarrow> ClauseId option
    \<Rightarrow> (Clause list \<times> Clause list \<times> SymbolTable \<times> ClauseIdGen) option" where
  "clausify_with_provenance order f symbols id_gen name leaf_source leaf_id_override = do {
     let (leaf_id, id_gen) = (case leaf_id_override of Some i \<Rightarrow> (i, id_gen) | None \<Rightarrow> next_id id_gen);
     let leaf_step = new_formula_step leaf_id f leaf_source;
     (preprocessed, bicond_defs, symbols) \<leftarrow>
       rename_complex_equivalences f symbols (name @ ''_iff'') DEFAULT_RENAMING_THRESHOLD;
     (renaming, bicond_ids, nnf_parent_id, id_gen) \<leftarrow> renaming_steps leaf_id preprocessed bicond_defs id_gen;
     let nnf_formula = to_nnf preprocessed;
     let (nnf_id, id_gen) = next_id id_gen;
     let nnf_step = new_formula_step nnf_id nnf_formula (Inference ''fof_nnf_transformation'' [nnf_parent_id]);
     (skolem_formula, symbols) \<leftarrow> skolemize nnf_formula symbols name;
     let (skolem_id, id_gen) = next_id id_gen;
     let skolem_step = new_formula_step skolem_id skolem_formula (Inference ''skolemisation'' [nnf_id]);
     let stripped = strip_forall skolem_formula;
     (cnf_formula, definitions, symbols) \<leftarrow>
       (if has_and_under_or stripped then to_cnf_definitional_with_defs stripped symbols name
        else Some (to_cnf stripped, [], symbols));
     sources \<leftarrow> record_sources definitions skolem_id fmempty;
     st \<leftarrow> foldM (clausify_definition name bicond_ids) (enumerate 0 bicond_defs)
       \<lparr>cl_symbols = symbols, cl_gen = id_gen, cl_provenance = leaf_step # renaming,
        cl_sources = sources, cl_definitions = definitions, cl_clauses = []\<rparr>;
     (def_ids, id_gen) \<leftarrow> assign_tseitin_ids (cl_definitions st) (cl_gen st);
     (def_provenance, def_deps) \<leftarrow> mapM_st (tseitin_step order def_ids (cl_sources st)) (cl_definitions st) fmempty;
     (clauses, id_gen) \<leftarrow> extract_clauses cnf_formula id_gen (Inference ''cnf_transformation'' [skolem_id]);
     let clauses = clauses @ cl_clauses st;
     let clauses = (if def_ids = fmempty then clauses else map (cite_definitions def_ids def_deps) clauses);
     let clauses = simplify_clauses clauses;
     Some (cl_provenance st @ [nnf_step, skolem_step] @ def_provenance, clauses, cl_symbols st, id_gen) }"

definition clausify :: "(SymbolId set \<Rightarrow> SymbolId list) \<Rightarrow> Formula \<Rightarrow> SymbolTable \<Rightarrow> ClauseIdGen
    \<Rightarrow> string \<Rightarrow> string \<Rightarrow> (Clause list \<times> SymbolTable \<times> ClauseIdGen) option" where
  "clausify order f symbols id_gen name role = do {
     (_, clauses, symbols, id_gen) \<leftarrow>
       clausify_with_provenance order f symbols id_gen name (Input name role) None;
     Some (clauses, symbols, id_gen) }"

end
