(* ===== verification/Pipeline.thy ===== *)
theory Pipeline
  imports Clausify
begin

text \<open>
  The clausification pipeline is correct: it returns when enough symbols are left, and every
  model of its input can be changed at fresh symbols only to a model of the clauses.
\<close>

section \<open>Models of formula sets\<close>

text \<open>
  \<open>preserves_models TY K K' F G\<close>: every model of the formulas \<open>F\<close> can be changed outside the
  known symbols \<open>K\<close> to a model of \<open>G\<close>, whose symbols are in \<open>K'\<close>.
\<close>

definition preserves_models :: "'a itself \<Rightarrow> SymbolId set \<Rightarrow> SymbolId set \<Rightarrow> Formula set \<Rightarrow> Formula set \<Rightarrow> bool" where
  "preserves_models TY K K' F G \<longleftrightarrow> K \<subseteq> K' \<and> (\<Union>g \<in> G. fsyms g) \<subseteq> K' \<and>
     (\<forall>I :: 'a interp. defined_by I F \<longrightarrow> (\<exists>I'. agree K I I' \<and> defined_by I' G))"

lemma preserves_models_imp:
  assumes "\<And>I :: 'a interp. defined_by I F \<Longrightarrow> defined_by I G" "(\<Union>g \<in> G. fsyms g) \<subseteq> K"
  shows "preserves_models (TY :: 'a itself) K K F G"
  using assms agree_refl unfolding preserves_models_def by blast

lemma preserves_models_trans:
  assumes "preserves_models TY K K1 F G" "preserves_models TY K1 K2 G H"
  shows "preserves_models TY K K2 F H"
  using assms unfolding preserves_models_def by (meson agree_mono agree_trans subset_trans)

lemma preserves_models_frame:
  fixes TY :: "'a itself"
  assumes "preserves_models TY K K' F G" "(\<Union>h \<in> H. fsyms h) \<subseteq> K"
  shows "preserves_models TY K K' (F \<union> H) (G \<union> H)"
  unfolding preserves_models_def
proof (intro conjI allI impI)
  have K: "K \<subseteq> K'" and G: "(\<Union>g \<in> G. fsyms g) \<subseteq> K'" using assms(1) by (simp_all add: preserves_models_def)
  show "K \<subseteq> K'" by (rule K)
  show "(\<Union>g \<in> G \<union> H. fsyms g) \<subseteq> K'" using K G assms(2) by blast
  fix I :: "'a interp" assume I: "defined_by I (F \<union> H)"
  then obtain I' where I': "agree K I I'" "defined_by I' G"
    using assms(1) unfolding preserves_models_def by auto
  then show "\<exists>I'. agree K I I' \<and> defined_by I' (G \<union> H)"
    using I defined_by_agree [OF I'(1) assms(2)] by auto
qed

lemma preserves_models_conservative:
  fixes TY :: "'a itself"
  assumes "conservative TY K K' D [f] [g]"
  shows "preserves_models TY K K' {f} {g}"
  unfolding preserves_models_def
proof (intro conjI allI impI)
  show "K \<subseteq> K'" "(\<Union>g \<in> {g}. fsyms g) \<subseteq> K'" using assms by (simp_all add: conservative_def)
  show "\<exists>I'. agree K I I' \<and> defined_by I' {g}" if "defined_by I {f}" for I :: "'a interp"
    using conservative_extends [OF assms, of I] that by (auto simp: implied_by_def)
qed

lemma preserves_models_equates:
  fixes TY :: "'a itself"
  assumes "equates TY K K' D [f] [g]" "fsyms f \<subseteq> K"
  shows "preserves_models TY K K' {f} (insert g D)"
  unfolding preserves_models_def
proof (intro conjI allI impI)
  show "K \<subseteq> K'" "(\<Union>g \<in> insert g D. fsyms g) \<subseteq> K'" using assms by (auto simp: equates_def)
  fix I :: "'a interp" assume I: "defined_by I {f}"
  obtain I' where I': "agree K I I'" "defined_by I' D" using assms(1) unfolding equates_def by blast
  have "fval I' \<rho> f" for \<rho> using I fval_agree [OF I'(1) assms(2), of \<rho>] by simp
  then have "defined_by I' (insert g D)" using assms(1) I'(2) by (simp add: equates_def)
  then show "\<exists>I'. agree K I I' \<and> defined_by I' (insert g D)" using I'(1) by blast
qed

section \<open>How many symbols a formula needs\<close>

text \<open>
  An upper bound of the existential quantifiers and of the disjuncts in both negation normal
  forms of a formula.
\<close>

fun weight :: "Formula \<Rightarrow> nat" where
  "weight (Neg f) = weight f"
| "weight (And fs) = length fs + sum_list (map weight fs)"
| "weight (Or fs) = length fs + sum_list (map weight fs)"
| "weight (Implies a b) = 2 + weight a + weight b"
| "weight (Iff a b) = 4 + 2 * (weight a + weight b)"
| "weight (Forall v f) = 1 + weight f"
| "weight (Exists v f) = 1 + weight f"
| "weight _ = 0"

fun definitions_weight :: "Formula \<Rightarrow> nat" where
  "definitions_weight (Neg f) = definitions_weight f"
| "definitions_weight (And fs) = sum_list (map definitions_weight fs)"
| "definitions_weight (Or fs) = sum_list (map definitions_weight fs)"
| "definitions_weight (Implies a b) = definitions_weight a + definitions_weight b"
| "definitions_weight (Iff a b) =
     definitions_weight a + definitions_weight b + (4 + 2 * weight a) + (4 + 2 * weight b)"
| "definitions_weight (Forall v f) = definitions_weight f"
| "definitions_weight (Exists v f) = definitions_weight f"
| "definitions_weight _ = 0"

definition symbols_needed :: "Formula \<Rightarrow> nat" where
  "symbols_needed f = definitions_needed f + weight f + definitions_weight f"

text \<open>The disjuncts of a formula.\<close>

fun or_width :: "Formula \<Rightarrow> nat" where
  "or_width (Neg f) = or_width f"
| "or_width (And fs) = sum_list (map or_width fs)"
| "or_width (Or fs) = length fs + sum_list (map or_width fs)"
| "or_width (Implies a b) = or_width a + or_width b"
| "or_width (Iff a b) = or_width a + or_width b"
| "or_width (Forall v f) = or_width f"
| "or_width (Exists v f) = or_width f"
| "or_width _ = 0"

lemma or_width_mk:
  "or_width (mk_and fs) = sum_list (map or_width fs)" "or_width (mk_or fs) \<le> length fs + sum_list (map or_width fs)"
  by (cases fs; simp add: mk_and_def mk_or_def)+

lemma skolems_mk:
  "skolems (mk_and fs) = sum_list (map skolems fs)" "skolems (mk_or fs) = sum_list (map skolems fs)"
  by (cases fs; simp add: mk_and_def mk_or_def)+

lemma sum_list_add_le:
  fixes f g h :: "'b \<Rightarrow> nat"
  shows "(\<And>x. x \<in> set xs \<Longrightarrow> f x + g x \<le> h x) \<Longrightarrow> sum_list (map f xs) + sum_list (map g xs) \<le> sum_list (map h xs)"
  by (induction xs) (fastforce simp: algebra_simps intro: add_mono)+

lemma weight_nnf: "skolems (plain_nnf f n) + or_width (plain_nnf f n) \<le> weight f"
proof (induction f n rule: plain_nnf.induct)
  case (5 fs n)
  have "sum_list (map skolems (map (\<lambda>f. plain_nnf f n) fs)) + sum_list (map or_width (map (\<lambda>f. plain_nnf f n) fs))
      \<le> sum_list (map weight fs)"
    unfolding map_map comp_def by (rule sum_list_add_le) (use 5 in simp)
  then show ?case using or_width_mk(2) [of "map (\<lambda>f. plain_nnf f n) fs"]
    by (cases n) (simp_all add: or_width_mk(1) skolems_mk)
next
  case (6 fs n)
  have "sum_list (map skolems (map (\<lambda>f. plain_nnf f n) fs)) + sum_list (map or_width (map (\<lambda>f. plain_nnf f n) fs))
      \<le> sum_list (map weight fs)"
    unfolding map_map comp_def by (rule sum_list_add_le) (use 6 in simp)
  then show ?case using or_width_mk(2) [of "map (\<lambda>f. plain_nnf f n) fs"]
    by (cases n) (simp_all add: or_width_mk(1) skolems_mk)
next
  case (7 a b n)
  then show ?case by (cases n) (simp_all add: mk_and_def mk_or_def)
next
  case (8 a b n)
  then show ?case by (cases n) (simp_all add: mk_and_def mk_or_def)
next
  case (9 v f n)
  then show ?case by (cases n) simp_all
next
  case (10 v f n)
  then show ?case by (cases n) simp_all
qed simp_all

text \<open>Skolemization adds no disjuncts, and dropping quantifiers neither.\<close>

lemma or_width_rename_var [simp]: "or_width (rename_var f old new) = or_width f"
  by (induction f) (auto intro!: arg_cong [where f = sum_list])

lemma or_width_apply_formula_rec:
  "or_width (fst (apply_formula_rec s f nv)) = or_width f"
  "map or_width (fst (apply_formulas_rec s fs nv)) = map or_width fs"
proof (induction s f nv and s fs nv rule: apply_formula_rec_apply_formulas_rec.induct)
  case (4 s fs nv)
  then have "length (fst (apply_formulas_rec s fs nv)) = length fs" using map_eq_imp_length_eq by blast
  then show ?case using 4 by (auto split: prod.splits)
qed (auto split: prod.splits)

lemma or_width_apply_formula: "or_width (apply_formula s f) = or_width f"
  by (simp add: apply_formula_def or_width_apply_formula_rec)

lemma or_width_list:
  "mapM_st call cs st = Some (gs, st') \<Longrightarrow>
     (\<And>c st g st'. c \<in> set cs \<Longrightarrow> call c st = Some (g, st') \<Longrightarrow> or_width g \<le> or_width c) \<Longrightarrow>
     sum_list (map or_width gs) \<le> sum_list (map or_width cs)"
proof (induction cs arbitrary: st gs)
  case (Cons c cs)
  obtain g st1 gs' where 1: "call c st = Some (g, st1)" "mapM_st call cs st1 = Some (gs', st')" "gs = g # gs'"
    using Cons.prems(1) by (auto simp: bind_eq_Some_conv)
  have "or_width g \<le> or_width c" using Cons.prems(2) 1(1) by auto
  moreover have "sum_list (map or_width gs') \<le> sum_list (map or_width cs)"
    using Cons.IH [OF 1(2)] Cons.prems(2) by auto
  ultimately show ?case using 1(3) by simp
qed auto

lemma or_width_skolemize_rec: "skolemize_rec prefix us f st = Some (g, st') \<Longrightarrow> or_width g \<le> or_width f"
proof (induction "fnodes f" arbitrary: f us st g st' rule: less_induct)
  case less
  have list: "sum_list (map or_width gs) \<le> sum_list (map or_width cs)"
    if "mapM_st (skolemize_rec prefix us) cs st = Some (gs, st')" "f = And cs \<or> f = Or cs" for cs gs
  proof (rule or_width_list [OF that(1)])
    fix c st g st' assume c: "c \<in> set cs" "skolemize_rec prefix us c st = Some (g, st')"
    have "fnodes c < fnodes f" using that(2) fnodes_member [OF c(1)] by auto
    then show "or_width g \<le> or_width c" using less.hyps c(2) by blast
  qed
  show ?case
  proof (cases f)
    case (And cs)
    then obtain gs where "mapM_st (skolemize_rec prefix us) cs st = Some (gs, st')" "g = mk_and gs"
      using less.prems by (auto simp: skolemize_rec.simps [of _ _ "And cs"] bind_eq_Some_conv)
    then show ?thesis using list And by (simp add: or_width_mk)
  next
    case (Or cs)
    then obtain gs where gs: "mapM_st (skolemize_rec prefix us) cs st = Some (gs, st')" "g = mk_or gs"
      using less.prems by (auto simp: skolemize_rec.simps [of _ _ "Or cs"] bind_eq_Some_conv)
    then show ?thesis using list Or or_width_mk(2) [of gs] mapM_st_length [OF gs(1)] by fastforce
  next
    case (Exists v body)
    then obtain s st1 where "skolemize_rec prefix us (apply_formula s body) st1 = Some (g, st')"
      using less.prems by (auto simp: skolemize_rec.simps [of _ _ "Exists v body"] bind_eq_Some_conv)
    then show ?thesis using less.hyps [of "apply_formula s body"] Exists by (simp add: or_width_apply_formula)
  next
    case (Forall v body)
    then show ?thesis using less.prems less.hyps [of body]
      by (auto simp: skolemize_rec.simps [of _ _ "Forall v body"] bind_eq_Some_conv)
  next
    case (Neg h)
    then show ?thesis using less.prems less.hyps [of h]
      by (auto simp: skolemize_rec.simps [of _ _ "Neg h"] bind_eq_Some_conv)
  next
    case (Implies a b)
    then show ?thesis using less.prems less.hyps [of a] less.hyps [of b]
      by (auto simp: skolemize_rec.simps [of _ _ "Implies a b"] bind_eq_Some_conv intro!: add_mono)
  next
    case (Iff a b)
    then show ?thesis using less.prems less.hyps [of a] less.hyps [of b]
      by (auto simp: skolemize_rec.simps [of _ _ "Iff a b"] bind_eq_Some_conv intro!: add_mono)
  qed (use less.prems in \<open>simp_all add: skolemize_rec.simps [of _ _ "Atom _"]
      skolemize_rec.simps [of _ _ FTrue] skolemize_rec.simps [of _ _ FFalse]\<close>)
qed

lemma names_needed_mk:
  "names_needed (mk_and fs) = sum_list (map names_needed fs)"
  "names_needed (mk_or fs) \<le> length fs + sum_list (map names_needed fs)"
  by (cases fs; simp add: mk_and_def mk_or_def)+

lemma names_needed_strip: "names_needed (strip_forall f) \<le> or_width f"
proof (induction f)
  case (And fs)
  have "sum_list (map (\<lambda>f. names_needed (strip_forall f)) fs) \<le> sum_list (map or_width fs)"
    by (rule sum_list_mono) (use And in simp)
  then show ?case by (simp add: names_needed_mk comp_def)
next
  case (Or fs)
  have "sum_list (map (\<lambda>f. names_needed (strip_forall f)) fs) \<le> sum_list (map or_width fs)"
    by (rule sum_list_mono) (use Or in simp)
  then show ?case using names_needed_mk(2) [of "map strip_forall fs"] by (simp add: comp_def)
qed auto

section \<open>Dropping universal quantifiers\<close>

lemma is_matrix_mk:
  "is_matrix (mk_and fs) = list_all is_matrix fs" "is_matrix (mk_or fs) = list_all is_matrix fs"
  by (cases fs; auto simp: mk_and_def mk_or_def)+

lemma strip_is_matrix: "is_nnf f \<Longrightarrow> no_exists f \<Longrightarrow> is_matrix (strip_forall f)"
proof (induction f)
  case (Neg f)
  then show ?case by (cases f) auto
qed (auto simp: is_matrix_mk list_all_iff)

lemma strip_fsyms: "fsyms (strip_forall f) = fsyms f"
  by (induction f) auto

lemma strip_implied: "is_nnf f \<Longrightarrow> fval I \<rho> f \<Longrightarrow> fval I \<rho> (strip_forall f)"
proof (induction f arbitrary: \<rho>)
  case (Neg f)
  then show ?case by (cases f) auto
next
  case (Forall v f)
  then have "fval I (\<rho>(v := \<rho> v)) f" by (simp del: fun_upd_triv)
  then show ?case using Forall by simp
qed (auto simp: list_all_iff)

section \<open>The definitions of the renaming pass\<close>

definition definition_cost :: "IntroducedDefinition \<Rightarrow> nat" where
  "definition_cost d = 4 + 2 * weight (def_rhs d)"

definition definition_costs :: "IntroducedDefinition list \<Rightarrow> nat" where
  "definition_costs ds = sum_list (map definition_cost ds)"

text \<open>\<open>grows_by s s' k\<close>: the pass has added definitions whose costs sum up to at most \<open>k\<close>.\<close>

definition grows_by :: "bicond_state \<Rightarrow> bicond_state \<Rightarrow> nat \<Rightarrow> bool" where
  "grows_by s s' k \<longleftrightarrow> (\<exists>new. snd s' = snd s @ new \<and> definition_costs new \<le> k)"

lemma grows_by_refl: "grows_by s s k"
  by (simp add: grows_by_def definition_costs_def)

lemma grows_by_trans: "grows_by s s1 k \<Longrightarrow> grows_by s1 s2 m \<Longrightarrow> grows_by s s2 (k + m)"
  unfolding grows_by_def definition_costs_def by (auto simp: add_mono)

lemma grows_by_mono: "grows_by s s' k \<Longrightarrow> k \<le> m \<Longrightarrow> grows_by s s' m"
  unfolding grows_by_def by (meson le_trans)

lemma introduce_definition_grows:
  "introduce_definition prefix f pol s = Some (g, s') \<Longrightarrow> weight g = 0 \<and> grows_by s s' (4 + 2 * weight f)"
  by (cases s) (auto simp: introduce_definition_def Let_def bind_eq_Some_conv grows_by_def
    definition_costs_def definition_cost_def)

lemma maybe_define_grows:
  "(if c then introduce_definition prefix f Both s else Some (f, s)) = Some (g, s') \<Longrightarrow>
     weight g \<le> weight f \<and> grows_by s s' (4 + 2 * weight f)"
  using introduce_definition_grows [of prefix f Both s g s'] grows_by_refl by (auto split: if_splits)

lemma traverse_list_weight:
  "mapM_st call cs s = Some (gs, s') \<Longrightarrow>
     (\<And>c s g s'. c \<in> set cs \<Longrightarrow> call c s = Some (g, s') \<Longrightarrow> weight g \<le> weight c \<and> grows_by s s' (definitions_weight c)) \<Longrightarrow>
     length gs = length cs \<and> sum_list (map weight gs) \<le> sum_list (map weight cs) \<and>
     grows_by s s' (sum_list (map definitions_weight cs))"
proof (induction cs arbitrary: s gs)
  case (Cons c cs)
  obtain g s1 gs' where 1: "call c s = Some (g, s1)" "mapM_st call cs s1 = Some (gs', s')" "gs = g # gs'"
    using Cons.prems(1) by (auto simp: bind_eq_Some_conv)
  have "weight g \<le> weight c" "grows_by s s1 (definitions_weight c)" using Cons.prems(2) 1(1) by auto
  moreover have "length gs' = length cs \<and> sum_list (map weight gs') \<le> sum_list (map weight cs) \<and>
      grows_by s1 s' (sum_list (map definitions_weight cs))"
    using Cons.IH [OF 1(2)] Cons.prems(2) by auto
  ultimately show ?case using 1(3) grows_by_trans by auto
qed (auto intro: grows_by_refl)

lemma traverse_weight:
  "traverse prefix threshold f s = Some (g, s') \<Longrightarrow> weight g \<le> weight f \<and> grows_by s s' (definitions_weight f)"
proof (induction f arbitrary: s g s')
  case (And cs)
  then obtain gs where gs: "mapM_st (traverse prefix threshold) cs s = Some (gs, s')" "g = And gs"
    by (auto simp: bind_eq_Some_conv)
  then show ?case using traverse_list_weight [OF gs(1) And.IH] by simp
next
  case (Or cs)
  then obtain gs where gs: "mapM_st (traverse prefix threshold) cs s = Some (gs, s')" "g = Or gs"
    by (auto simp: bind_eq_Some_conv)
  then show ?case using traverse_list_weight [OF gs(1) Or.IH] by simp
next
  case (Implies a b)
  obtain a' s1 b' where 1: "traverse prefix threshold a s = Some (a', s1)"
    "traverse prefix threshold b s1 = Some (b', s')" "g = Implies a' b'"
    using Implies.prems by (auto simp: bind_eq_Some_conv)
  then show ?case using Implies.IH(1) [OF 1(1)] Implies.IH(2) [OF 1(2)] grows_by_trans by fastforce
next
  case (Iff a b)
  obtain a1 s1 b1 s2 a2 s3 b2 where 1: "traverse prefix threshold a s = Some (a1, s1)"
    "traverse prefix threshold b s1 = Some (b1, s2)"
    "(if needs_biconditional_naming a1 b1 threshold then introduce_definition prefix a1 Both s2 else Some (a1, s2)) = Some (a2, s3)"
    "(if needs_biconditional_naming b1 a1 threshold then introduce_definition prefix b1 Both s3 else Some (b1, s3)) = Some (b2, s')"
    "g = Iff a2 b2"
    using Iff.prems by (auto simp: bind_eq_Some_conv Let_def)
  have w: "weight a1 \<le> weight a" "weight b1 \<le> weight b" "weight a2 \<le> weight a1" "weight b2 \<le> weight b1"
    using Iff.IH(1) [OF 1(1)] Iff.IH(2) [OF 1(2)] maybe_define_grows [OF 1(3)] maybe_define_grows [OF 1(4)] by simp_all
  have "grows_by s s' (definitions_weight a + definitions_weight b + (4 + 2 * weight a1) + (4 + 2 * weight b1))"
    using Iff.IH(1) [OF 1(1)] Iff.IH(2) [OF 1(2)] maybe_define_grows [OF 1(3)] maybe_define_grows [OF 1(4)]
    by (blast intro: grows_by_trans)
  then have "grows_by s s' (definitions_weight (Iff a b))"
    by (rule grows_by_mono) (use w in simp)
  then show ?case using w 1(5) by simp
qed (auto simp: bind_eq_Some_conv intro: grows_by_refl)

section \<open>The stages\<close>

text \<open>Renaming of equivalences.\<close>

lemma rename_stage:
  fixes TY :: "'a itself"
  assumes "placed {} f" "fsyms f \<subseteq> known_symbols symbols" "symbols_left symbols (symbols_needed f)"
  shows "\<exists>g defs symbols'. rename_complex_equivalences f symbols prefix threshold = Some (g, defs, symbols') \<and>
    placed {} g \<and> list_all (bicond_ok True) defs \<and> symbols_left symbols' (weight g + definition_costs defs) \<and>
    equates TY (known_symbols symbols) (known_symbols symbols') (equivalence_of ` set defs) [f] [g]"
proof -
  have "symbols_left symbols (definitions_needed f + (weight f + definitions_weight f))"
    using assms(3) by (simp add: symbols_needed_def add.assoc)
  then obtain g sy defs where g: "traverse prefix threshold f (symbols, []) = Some (g, (sy, defs))"
    "renames TY True {} [f] (symbols, []) (weight f + definitions_weight f) [g] (sy, defs)"
    using traverse_correct [of f "(symbols, [])" "weight f + definitions_weight f" True "{}" prefix threshold TY] assms(1,2) by auto
  have w: "weight g \<le> weight f" "definition_costs defs \<le> definitions_weight f"
    using traverse_weight [OF g(1)] by (auto simp: grows_by_def)
  have left: "symbols_left sy (weight f + definitions_weight f)"
    and "list_all (bicond_ok True) defs" "placed {} g"
    and "equates TY (known_symbols symbols) (known_symbols sy) (equivalence_of ` set defs) [f] [g]"
    using g(2) by (auto simp: delivers_def bicond_ext_def bicond_new_def)
  moreover have "symbols_left sy (weight g + definition_costs defs)"
    by (rule symbols_left_mono [OF left]) (rule add_mono [OF w])
  ultimately show ?thesis using g(1) by (auto simp: rename_complex_equivalences_def)
qed

text \<open>Negation normal form, Skolemization and dropping quantifiers.\<close>

lemma plain_nnf_fsyms: "fsyms (plain_nnf f n) = fsyms f"
  by (induction f n rule: plain_nnf.induct) auto

lemma skolem_stage:
  fixes TY :: "'a itself"
  assumes "placed {} f" "fsyms f \<subseteq> known_symbols symbols"
    and "symbols_left symbols (skolems (to_nnf f) + n)"
  shows "\<exists>g symbols'. skolemize (to_nnf f) symbols prefix = Some (g, symbols') \<and>
    is_matrix (strip_forall g) \<and> names_needed (strip_forall g) \<le> or_width (to_nnf f) \<and> symbols_left symbols' n \<and>
    preserves_models TY (known_symbols symbols) (known_symbols symbols') {f} {strip_forall g}"
proof -
  have syms: "fsyms (to_nnf f) \<subseteq> fsyms f" by (simp add: to_nnf_plain plain_nnf_fsyms)
  have nnf: "is_nnf (to_nnf f)" "placed {} (to_nnf f)"
    using assms(1) by (simp_all add: to_nnf_plain plain_nnf_is_nnf placed_nnf)
  then have "sk_ready [] (to_nnf f)" by (intro placed_ready) simp_all
  from skolemize_rec_correct [OF this, of symbols n prefix TY] obtain g st' where
    g: "skolemize (to_nnf f) symbols prefix = Some (g, st')" "skolem_done TY [] [to_nnf f] symbols n [g] st'"
    using assms(2,3) syms by (auto simp: skolemize_def)
  have c: "conservative TY (known_symbols symbols) (known_symbols st') {} [to_nnf f] [g]"
    and form: "is_nnf g" "no_exists g" and left: "symbols_left st' n"
    using g(2) by (auto simp: delivers_def skolem_form_def)
  have "preserves_models TY (known_symbols symbols) (known_symbols symbols) {f} {to_nnf f}"
    by (rule preserves_models_imp) (use assms(2) syms in \<open>auto simp: to_nnf_plain plain_nnf_fval\<close>)
  moreover have "preserves_models TY (known_symbols st') (known_symbols st') {g} {strip_forall g}"
    by (rule preserves_models_imp)
      (use strip_implied [OF form(1)] conservative_syms [OF c, of g] in \<open>auto simp: strip_fsyms\<close>)
  ultimately have "preserves_models TY (known_symbols symbols) (known_symbols st') {f} {strip_forall g}"
    using preserves_models_conservative [OF c] preserves_models_trans by blast
  moreover have "names_needed (strip_forall g) \<le> or_width (to_nnf f)"
    using names_needed_strip [of g] or_width_skolemize_rec [of prefix "[]" "to_nnf f" symbols g st'] g(1)
    by (simp add: skolemize_def)
  ultimately show ?thesis using g(1) form left strip_is_matrix by blast
qed

text \<open>Clause form, by distribution or definitional.\<close>

definition clause_form :: "Formula \<Rightarrow> SymbolTable \<Rightarrow> string \<Rightarrow> nat
    \<Rightarrow> (Formula \<times> (Atom \<times> Formula list) list \<times> SymbolTable) option" where
  "clause_form f symbols prefix threshold =
     (if has_and_under_or f then to_cnf_definitional_with_defs_thresh f symbols prefix threshold
      else Some (to_cnf f, [], symbols))"

lemma clause_form_1:
  "(if has_and_under_or f then to_cnf_definitional_with_defs f symbols prefix else Some (to_cnf f, [], symbols)) =
     clause_form f symbols prefix 1"
  by (simp add: clause_form_def to_cnf_definitional_with_defs_def)

lemma cnf_stage:
  fixes TY :: "'a itself"
  assumes "is_matrix f" "fsyms f \<subseteq> known_symbols symbols" "symbols_left symbols (names_needed f + n)"
  shows "\<exists>g defs symbols'. clause_form f symbols prefix threshold = Some (g, defs, symbols') \<and>
    is_cnf g \<and> list_all definition_ok defs \<and> symbols_left symbols' n \<and>
    preserves_models TY (known_symbols symbols) (known_symbols symbols') {f} {g}"
proof (cases "has_and_under_or f")
  case True
  then show ?thesis
    using definitional_correct [OF assms, of prefix threshold TY] preserves_models_conservative
    by (auto simp: clause_form_def simp del: split_paired_Ex) blast
next
  case False
  have "symbols_left symbols n" by (rule symbols_left_mono [OF assms(3)]) simp
  moreover have "preserves_models TY (known_symbols symbols) (known_symbols symbols) {f} {to_cnf f}"
    by (rule preserves_models_imp) (use assms(2) fsyms_to_cnf in \<open>auto simp: to_cnf_fval\<close>)
  ultimately show ?thesis using False to_cnf_is_cnf [OF assms(1)] by (auto simp: clause_form_def)
qed

text \<open>Extraction: the clauses say what the formula says.\<close>

definition says :: "'a itself \<Rightarrow> Clause list \<Rightarrow> Formula set \<Rightarrow> bool" where
  "says TY cs F \<longleftrightarrow> (\<forall>(I :: 'a interp) \<rho>. (\<forall>c \<in> set cs. lits_hold I \<rho> (literals c)) \<longleftrightarrow> (\<forall>f \<in> F. fval I \<rho> f))"

lemma says_append: "says TY cs F \<Longrightarrow> says TY ds G \<Longrightarrow> says TY (cs @ ds) (F \<union> G)"
  unfolding says_def by (simp add: ball_Un)

lemma extract_stage:
  fixes TY :: "'a itself"
  assumes "is_cnf f"
  shows "\<exists>cs id_gen'. extract_clauses f id_gen source = Some (cs, id_gen') \<and> says TY cs {f} \<and>
    (\<forall>c \<in> set cs. clause_source c = source)"
proof -
  obtain lss st' where ex: "extract_rec f source (id_gen, []) = Some st'"
    "appends (id_gen, []) source lss st'"
    "\<forall>I \<rho>. fval (I :: 'a interp) \<rho> f = (\<forall>ls \<in> set lss. lits_hold I \<rho> ls)"
    using extract_cnf [OF assms] by blast
  let ?cs = "map (\<lambda>(k, ls). new_avatar (next_clause id_gen + of_nat k) ls source []) (zip [0..<length lss] lss)"
  have lits: "map literals ?cs = lss"
    by (auto simp: new_avatar_def split_def intro!: nth_equalityI)
  have "says TY ?cs {f}"
    unfolding says_def
  proof (intro allI)
    fix I :: "'a interp" and \<rho>
    have "(\<forall>c \<in> set ?cs. lits_hold I \<rho> (literals c)) \<longleftrightarrow> (\<forall>ls \<in> set (map literals ?cs). lits_hold I \<rho> ls)"
      unfolding set_map by blast
    then show "(\<forall>c \<in> set ?cs. lits_hold I \<rho> (literals c)) \<longleftrightarrow> (\<forall>f \<in> {f}. fval I \<rho> f)"
      unfolding lits using ex(3) by simp
  qed
  then show ?thesis using ex(1,2) by (auto simp: extract_clauses_def appends_def new_avatar_def)
qed

section \<open>The loop over the renamed equivalences\<close>

lemma closure_nnf: "plain_nnf (universal_closure vs f) False = universal_closure vs (plain_nnf f False)"
proof -
  have "plain_nnf (foldr Forall us f) False = foldr Forall us (plain_nnf f False)" for us
    by (induction us) simp_all
  then show ?thesis by (simp add: universal_closure_def)
qed

lemma closure_same:
  "skolems (universal_closure vs f) = skolems f" "or_width (universal_closure vs f) = or_width f"
  "fsyms (universal_closure vs f) = fsyms f"
proof -
  have "skolems (foldr Forall us f) = skolems f \<and> or_width (foldr Forall us f) = or_width f \<and>
      fsyms (foldr Forall us f) = fsyms f" for us
    by (induction us) simp_all
  then show "skolems (universal_closure vs f) = skolems f" "or_width (universal_closure vs f) = or_width f"
    "fsyms (universal_closure vs f) = fsyms f"
    by (simp_all add: universal_closure_def)
qed

lemma closure_holds: "(\<And>\<rho>. fval I \<rho> f) \<Longrightarrow> fval I \<rho> (universal_closure vs f)"
proof -
  assume f: "\<And>\<rho>. fval I \<rho> f"
  have "fval I \<rho> (foldr Forall us f)" for us by (induction us arbitrary: \<rho>) (simp_all add: f)
  then show ?thesis by (simp add: universal_closure_def)
qed

lemma closed_definition:
  assumes "bicond_ok True d"
  defines "e \<equiv> definition_clauses_formula (def_head d) (def_rhs d) (def_polarity d)"
  defines "h \<equiv> universal_closure (formula_free_vars e) e"
  shows "placed {} h" "skolems (to_nnf h) + or_width (to_nnf h) \<le> definition_cost d"
    "fsyms h = fsyms (equivalence_of d)"
proof -
  obtain q where d: "def_polarity d = Both" "def_head d = Pred q (map Var (sorted_list_of_set (fvars (def_rhs d))))"
    "placed (fvars (def_rhs d)) (def_rhs d)"
    using assms(1) by (auto simp: bicond_ok_def)
  have e: "e = Iff (Atom (def_head d)) (def_rhs d)" "e = equivalence_of d"
    using d(1) by (simp_all add: e_def definition_clauses_formula_def equivalence_of_def)
  have "placed (fvars (def_rhs d)) e" using d(3) by (simp add: e(1) d(2))
  moreover have "formula_free_vars e = fvars (def_rhs d)" by (simp add: formula_free_vars_eq e(1) d(2))
  ultimately show "placed {} h" by (simp add: h_def universal_closure_def placed_foldr_Forall)
  have "skolems (plain_nnf e False) + or_width (plain_nnf e False) \<le> weight e" by (rule weight_nnf)
  then show "skolems (to_nnf h) + or_width (to_nnf h) \<le> definition_cost d"
    by (simp add: h_def to_nnf_plain closure_nnf closure_same e(1) definition_cost_def)
  show "fsyms h = fsyms (equivalence_of d)" by (simp add: h_def closure_same flip: e(2))
qed

definition sources_cover :: "(SymbolId, ClauseId) fmap \<Rightarrow> (Atom \<times> Formula list) list \<Rightarrow> bool" where
  "sources_cover sources defs \<longleftrightarrow>
     (\<forall>d \<in> set defs. \<exists>s i. head_symbol (fst d) = Some s \<and> fmlookup sources s = Some i)"

lemma record_sources_correct:
  "list_all definition_ok defs \<Longrightarrow> \<exists>sources'. record_sources defs source_id sources = Some sources' \<and>
     (\<forall>ds. sources_cover sources ds \<longrightarrow> sources_cover sources' ds) \<and> sources_cover sources' defs"
proof (induction defs arbitrary: sources)
  case Nil
  then show ?case by (simp add: record_sources_def sources_cover_def)
next
  case (Cons d defs)
  obtain s args cs where d: "d = (Pred s args, cs)" using Cons.prems by (cases d) (auto simp: definition_ok_def)
  obtain sources' where 1: "record_sources defs source_id (fmupd s source_id sources) = Some sources'"
    "\<And>ds. sources_cover (fmupd s source_id sources) ds \<Longrightarrow> sources_cover sources' ds" "sources_cover sources' defs"
    using Cons by auto
  have "record_sources (d # defs) source_id sources = Some sources'"
    using 1(1) by (simp add: record_sources_def d head_symbol_def)
  moreover have "sources_cover sources' ds" if "sources_cover sources ds" for ds
    by (rule 1(2)) (use that in \<open>auto simp: sources_cover_def\<close>)
  moreover have "sources_cover sources' [d]"
    by (rule 1(2)) (simp add: sources_cover_def d head_symbol_def)
  ultimately show ?case using 1(3) by (auto simp: sources_cover_def)
qed

definition state_ok :: "ClausifyState \<Rightarrow> bool" where
  "state_ok st \<longleftrightarrow> list_all definition_ok (cl_definitions st) \<and> sources_cover (cl_sources st) (cl_definitions st)"

text \<open>What the loop over the definitions \<open>defs\<close> delivers.\<close>

definition definitions_done :: "'a itself \<Rightarrow> IntroducedDefinition list \<Rightarrow> ClausifyState \<Rightarrow> nat \<Rightarrow> ClausifyState \<Rightarrow> bool" where
  "definitions_done TY defs st n st' \<longleftrightarrow> state_ok st' \<and> symbols_left (cl_symbols st') n \<and>
     (\<exists>new F. cl_clauses st' = cl_clauses st @ new \<and> says TY new F \<and>
        preserves_models TY (known_symbols (cl_symbols st)) (known_symbols (cl_symbols st')) (equivalence_of ` set defs) F)"

lemma definition_stage:
  fixes TY :: "'a itself"
  assumes d: "bicond_ok True d" "fsyms (equivalence_of d) \<subseteq> known_symbols (cl_symbols st)"
    and id: "\<exists>s i. head_symbol (def_head d) = Some s \<and> fmlookup tab s = Some i"
    and st: "state_ok st" "symbols_left (cl_symbols st) (definition_cost d + n)"
  shows "\<exists>st'. clausify_definition name tab (i, d) st = Some st' \<and> definitions_done TY [d] st n st'"
proof -
  let ?e = "definition_clauses_formula (def_head d) (def_rhs d) (def_polarity d)"
  let ?h = "universal_closure (formula_free_vars ?e) ?e"
  let ?K = "known_symbols (cl_symbols st)"
  let ?p = "name @ ''_iff_def_'' @ show_nat i"
  obtain s k where s: "head_symbol (def_head d) = Some s" "fmlookup tab s = Some k" using id by blast
  have "symbols_left (cl_symbols st) (skolems (to_nnf ?h) + (or_width (to_nnf ?h) + n))"
    by (rule symbols_left_mono [OF st(2)]) (use closed_definition(2) [OF d(1)] in simp)
  then obtain g sy1 where 1: "skolemize (to_nnf ?h) (cl_symbols st) ?p = Some (g, sy1)" "is_matrix (strip_forall g)"
    "names_needed (strip_forall g) \<le> or_width (to_nnf ?h)" "symbols_left sy1 (or_width (to_nnf ?h) + n)"
    "preserves_models TY ?K (known_symbols sy1) {?h} {strip_forall g}"
    using skolem_stage [of ?h "cl_symbols st" "or_width (to_nnf ?h) + n" ?p TY]
      closed_definition(1,3) [OF d(1)] d(2) by auto
  have "symbols_left sy1 (names_needed (strip_forall g) + n)" "fsyms (strip_forall g) \<subseteq> known_symbols sy1"
    using symbols_left_mono [OF 1(4)] 1(3,5) by (simp_all add: preserves_models_def)
  then obtain f inner sy2 where 2: "clause_form (strip_forall g) sy1 ?p DEFAULT_RENAMING_THRESHOLD = Some (f, inner, sy2)"
    "is_cnf f" "list_all definition_ok inner" "symbols_left sy2 n"
    "preserves_models TY (known_symbols sy1) (known_symbols sy2) {strip_forall g} {f}"
    using cnf_stage [OF 1(2), of sy1 n ?p DEFAULT_RENAMING_THRESHOLD TY] by auto
  obtain nid gen1 where n1: "next_id (cl_gen st) = (nid, gen1)" by (cases "next_id (cl_gen st)")
  obtain sid gen2 where n2: "next_id gen1 = (sid, gen2)" by (cases "next_id gen1")
  obtain sources where 3: "record_sources inner sid (cl_sources st) = Some sources"
    "\<And>ds. sources_cover (cl_sources st) ds \<Longrightarrow> sources_cover sources ds" "sources_cover sources inner"
    using record_sources_correct [OF 2(3)] by metis
  obtain cs gen3 where 4: "extract_clauses f gen2 (Inference ''cnf_transformation'' [sid]) = Some (cs, gen3)" "says TY cs {f}"
    using extract_stage [OF 2(2), of gen2 _ TY] by blast
  have "preserves_models TY ?K ?K {equivalence_of d} {?h}"
    using closed_definition(3) [OF d(1)] d(2)
    by (intro preserves_models_imp) (auto intro: closure_holds simp: equivalence_of_def)
  then have "preserves_models TY ?K (known_symbols sy2) (equivalence_of ` set [d]) {f}"
    using 1(5) 2(5) preserves_models_trans by simp blast
  moreover have "sources_cover sources (cl_definitions st @ inner)"
    using 3(2,3) st(1) by (auto simp: sources_cover_def state_ok_def)
  ultimately have "definitions_done TY [d] st n \<lparr>cl_symbols = sy2, cl_gen = gen3,
      cl_provenance = cl_provenance st @ [new_formula_step nid (to_nnf ?h) (Inference ''fof_nnf_transformation'' [k]),
        new_formula_step sid g (Inference ''skolemisation'' [nid])],
      cl_sources = sources, cl_definitions = cl_definitions st @ inner, cl_clauses = cl_clauses st @ cs\<rparr>"
    using 2(3,4) 4(2) st(1) by (auto simp: definitions_done_def state_ok_def)
  moreover have "clausify_definition name tab (i, d) st = Some \<lparr>cl_symbols = sy2, cl_gen = gen3,
      cl_provenance = cl_provenance st @ [new_formula_step nid (to_nnf ?h) (Inference ''fof_nnf_transformation'' [k]),
        new_formula_step sid g (Inference ''skolemisation'' [nid])],
      cl_sources = sources, cl_definitions = cl_definitions st @ inner, cl_clauses = cl_clauses st @ cs\<rparr>"
    using s 1(1) 2(1) 3(1) 4(1)
    by (simp add: clausify_definition_def n1 n2 Let_def flip: clause_form_def)
  ultimately show ?thesis by blast
qed

lemma definitions_loop:
  fixes TY :: "'a itself"
  assumes "list_all (bicond_ok True) defs"
    and "(\<Union>d \<in> set defs. fsyms (equivalence_of d)) \<subseteq> known_symbols (cl_symbols st)"
    and "\<forall>d \<in> set defs. \<exists>s i. head_symbol (def_head d) = Some s \<and> fmlookup tab s = Some i"
    and "state_ok st" "symbols_left (cl_symbols st) (definition_costs defs + n)"
  shows "\<exists>st'. foldM (clausify_definition name tab) (enumerate k defs) st = Some st' \<and> definitions_done TY defs st n st'"
  using assms
proof (induction defs arbitrary: k st)
  case Nil
  have "says TY [] {}" by (simp add: says_def)
  moreover have "preserves_models TY K K {} {}" for K by (rule preserves_models_imp) simp_all
  ultimately show ?case using Nil by (auto simp: definitions_done_def definition_costs_def)
next
  case (Cons d defs)
  let ?E = "equivalence_of ` set defs"
  have "symbols_left (cl_symbols st) (definition_cost d + (definition_costs defs + n))"
    using Cons.prems(5) by (simp add: definition_costs_def add.assoc)
  then obtain st1 where 1: "clausify_definition name tab (k, d) st = Some st1"
    "definitions_done TY [d] st (definition_costs defs + n) st1"
    using definition_stage [of d st tab "definition_costs defs + n" name k TY] Cons.prems(1-4) by auto
  obtain new1 F1 where d1: "state_ok st1" "symbols_left (cl_symbols st1) (definition_costs defs + n)"
    "cl_clauses st1 = cl_clauses st @ new1" "says TY new1 F1"
    "preserves_models TY (known_symbols (cl_symbols st)) (known_symbols (cl_symbols st1)) {equivalence_of d} F1"
    using 1(2) by (auto simp: definitions_done_def)
  have K: "known_symbols (cl_symbols st) \<subseteq> known_symbols (cl_symbols st1)"
    using d1(5) by (simp add: preserves_models_def)
  then have "(\<Union>d \<in> set defs. fsyms (equivalence_of d)) \<subseteq> known_symbols (cl_symbols st1)"
    using Cons.prems(2) by auto
  then obtain st2 where 2: "foldM (clausify_definition name tab) (enumerate (Suc k) defs) st1 = Some st2"
    "definitions_done TY defs st1 n st2"
    using Cons.IH [of st1 "Suc k"] Cons.prems(1,3) d1(1,2) by auto
  obtain new2 F2 where d2: "state_ok st2" "symbols_left (cl_symbols st2) n"
    "cl_clauses st2 = cl_clauses st1 @ new2" "says TY new2 F2"
    "preserves_models TY (known_symbols (cl_symbols st1)) (known_symbols (cl_symbols st2)) ?E F2"
    using 2(2) by (auto simp: definitions_done_def)
  have "preserves_models TY (known_symbols (cl_symbols st)) (known_symbols (cl_symbols st1)) ({equivalence_of d} \<union> ?E) (F1 \<union> ?E)"
    by (rule preserves_models_frame [OF d1(5)]) (use Cons.prems(2) in simp)
  moreover have "preserves_models TY (known_symbols (cl_symbols st1)) (known_symbols (cl_symbols st2)) (?E \<union> F1) (F2 \<union> F1)"
    by (rule preserves_models_frame [OF d2(5)]) (use d1(5) in \<open>simp add: preserves_models_def\<close>)
  ultimately have "preserves_models TY (known_symbols (cl_symbols st)) (known_symbols (cl_symbols st2))
      (equivalence_of ` set (d # defs)) (F1 \<union> F2)"
    by (metis Un_commute Un_insert_left image_insert list.simps(15) preserves_models_trans sup_bot_left)
  moreover have "says TY (new1 @ new2) (F1 \<union> F2)" by (rule says_append [OF d1(4) d2(4)])
  ultimately show ?case using 1(1) 2(1) d1(3) d2(1,2,3)
    by (auto simp: definitions_done_def intro!: exI [of _ "new1 @ new2"])
qed

section \<open>Provenance never panics\<close>

definition ids_cover :: "id_table \<Rightarrow> Atom list \<Rightarrow> bool" where
  "ids_cover tab heads \<longleftrightarrow> (\<forall>a \<in> set heads. \<exists>s i. head_symbol a = Some s \<and> fmlookup tab s = Some i)"

lemma ids_cover_upd: "ids_cover tab heads \<Longrightarrow> ids_cover (fmupd s i tab) heads"
  by (auto simp: ids_cover_def)

lemma assign_definition_ids_loop:
  "list_all (bicond_ok strict) defs \<Longrightarrow> \<exists>r. foldM (\<lambda>def (def_ids, by_symbol, id_gen). do {
       def_sym \<leftarrow> head_symbol (def_head def);
       let (def_id, id_gen) = next_id id_gen;
       Some (def_ids @ [def_id], fmupd def_sym def_id by_symbol, id_gen) }) defs (xs, tab, gen) = Some r \<and>
     (\<forall>heads. ids_cover tab heads \<longrightarrow> ids_cover (fst (snd r)) (heads @ map def_head defs))"
proof (induction defs arbitrary: xs tab gen)
  case (Cons d defs)
  obtain q us where d: "def_head d = Pred q us" using Cons.prems by (auto simp: bicond_ok_def)
  obtain i gen' where n: "next_id gen = (i, gen')" by (cases "next_id gen")
  have "ids_cover (fmupd q i tab) (heads @ [def_head d])" if "ids_cover tab heads" for heads
    using that by (auto simp: ids_cover_def d head_symbol_def)
  then show ?case using Cons.IH [of "xs @ [i]" "fmupd q i tab" gen'] Cons.prems
    by (fastforce simp: d head_symbol_def n)
qed simp

lemma those_map: "(\<And>x. x \<in> set xs \<Longrightarrow> \<exists>y. f x = Some y) \<Longrightarrow> \<exists>ys. those (map f xs) = Some ys"
  by (induction xs) (auto split: option.split)

lemma renaming_steps_return:
  assumes "list_all (bicond_ok strict) defs"
  shows "\<exists>steps tab pid gen'. renaming_steps leaf_id g defs gen = Some (steps, tab, pid, gen') \<and>
    ids_cover tab (map def_head defs)"
proof (cases "defs = []")
  case True
  then show ?thesis by (simp add: renaming_steps_def ids_cover_def)
next
  case False
  obtain xs tab gen1 where 1: "assign_definition_ids defs gen = Some (xs, tab, gen1)" "ids_cover tab (map def_head defs)"
    using assign_definition_ids_loop [OF assms, of "[]" fmempty gen]
    by (auto simp: assign_definition_ids_def ids_cover_def [of fmempty] dest: spec [of _ "[]"])
  have "\<exists>y. introduced_step leaf_id tab d = Some y" if "d \<in> set defs" for d
    using 1(2) that by (auto simp: ids_cover_def introduced_step_def)
  then obtain steps where "those (map (introduced_step leaf_id tab) defs) = Some steps"
    using those_map by metis
  then show ?thesis using False 1 by (simp add: renaming_steps_def split_def Let_def)
qed

lemma assign_tseitin_ids_loop:
  "list_all definition_ok defs \<Longrightarrow> \<exists>r. foldM (\<lambda>(def_atom, _) (by_symbol, id_gen). do {
       def_sym \<leftarrow> head_symbol def_atom;
       Some (case fmlookup by_symbol def_sym of
           Some _ \<Rightarrow> (by_symbol, id_gen)
         | None \<Rightarrow> let (def_id, id_gen) = next_id id_gen in (fmupd def_sym def_id by_symbol, id_gen)) })
       defs (tab, gen) = Some r \<and>
     (\<forall>heads. ids_cover tab heads \<longrightarrow> ids_cover (fst r) (heads @ map fst defs))"
proof (induction defs arbitrary: tab gen)
  case (Cons d defs)
  obtain q us cs where d: "d = (Pred q us, cs)" using Cons.prems by (cases d) (auto simp: definition_ok_def)
  obtain i gen' where n: "next_id gen = (i, gen')" by (cases "next_id gen")
  show ?case
  proof (cases "fmlookup tab q")
    case None
    have "ids_cover (fmupd q i tab) (heads @ [Pred q us])" if "ids_cover tab heads" for heads
      using that by (auto simp: ids_cover_def head_symbol_def)
    then show ?thesis using Cons.IH [of "fmupd q i tab" gen'] Cons.prems None
      by (fastforce simp: d head_symbol_def n)
  next
    case (Some j)
    then have "ids_cover tab (heads @ [Pred q us])" if "ids_cover tab heads" for heads
      using that by (auto simp: ids_cover_def head_symbol_def)
    then show ?thesis using Cons.IH [of tab gen] Cons.prems Some
      by (fastforce simp: d head_symbol_def)
  qed
qed simp

lemma assign_tseitin_ids_return:
  assumes "list_all definition_ok defs"
  shows "\<exists>tab gen'. assign_tseitin_ids defs gen = Some (tab, gen') \<and> ids_cover tab (map fst defs)"
  using assign_tseitin_ids_loop [OF assms, of fmempty gen]
  by (auto simp: assign_tseitin_ids_def ids_cover_def [of fmempty] dest: spec [of _ "[]"])

lemma tseitin_steps_return:
  "ids_cover tab (map fst defs) \<Longrightarrow> sources_cover sources defs \<Longrightarrow>
     \<exists>r. mapM_st (tseitin_step order tab sources) defs deps = Some r"
proof (induction defs arbitrary: deps)
  case (Cons d defs)
  obtain a cs where d: "d = (a, cs)" by fastforce
  obtain s i j where "head_symbol a = Some s" "fmlookup tab s = Some i" "fmlookup sources s = Some j"
    using Cons.prems by (auto simp: ids_cover_def sources_cover_def d)
  then obtain x deps1 where 1: "tseitin_step order tab sources d deps = Some (x, deps1)"
    by (simp add: tseitin_step_def d Let_def)
  obtain ys deps2 where "mapM_st (tseitin_step order tab sources) defs deps1 = Some (ys, deps2)"
    using Cons by (fastforce simp: ids_cover_def sources_cover_def)
  then show ?case using 1 by simp
qed simp

section \<open>The pipeline\<close>

lemma literals_cite_definitions [simp]: "literals (cite_definitions tab deps c) = literals c"
  by (simp add: cite_definitions_def Let_def split: ClauseSource.split)

lemma says_cite: "says TY cs F \<Longrightarrow> says TY (map (cite_definitions tab deps) cs) F"
  by (simp add: says_def)

lemma says_simplify: "says TY cs F \<Longrightarrow> says TY (simplify_clauses cs) F"
  unfolding says_def simplify_keeps_value .

lemma clausify_with_provenance_correct:
  fixes TY :: "'a itself"
  assumes "placed {} f" "fsyms f \<subseteq> known_symbols symbols" "symbols_left symbols (symbols_needed f)"
  shows "\<exists>prov clauses symbols' id_gen' F.
    clausify_with_provenance order f symbols id_gen name leaf_source override = Some (prov, clauses, symbols', id_gen') \<and>
    says TY clauses F \<and> preserves_models TY (known_symbols symbols) (known_symbols symbols') {f} F \<and>
    list_all (\<lambda>c. \<not> is_tautology c \<and> distinct (literals c)) clauses"
proof -
  obtain g defs sy1 where 1: "rename_complex_equivalences f symbols (name @ ''_iff'') DEFAULT_RENAMING_THRESHOLD = Some (g, defs, sy1)"
    "placed {} g" "list_all (bicond_ok True) defs" "symbols_left sy1 (weight g + definition_costs defs)"
    "equates TY (known_symbols symbols) (known_symbols sy1) (equivalence_of ` set defs) [f] [g]"
    using rename_stage [OF assms, of "name @ ''_iff''" DEFAULT_RENAMING_THRESHOLD TY] by auto
  let ?D = "equivalence_of ` set defs"
  have p1: "preserves_models TY (known_symbols symbols) (known_symbols sy1) {f} ({g} \<union> ?D)"
    using preserves_models_equates [OF 1(5) assms(2)] by simp
  have symsg: "fsyms g \<subseteq> known_symbols sy1" using p1 by (simp add: preserves_models_def)
  have symsD: "(\<Union>h \<in> ?D. fsyms h) \<subseteq> known_symbols sy1" using p1 by (simp add: preserves_models_def)
  have "symbols_left sy1 (skolems (to_nnf g) + (or_width (to_nnf g) + definition_costs defs))"
    by (rule symbols_left_mono [OF 1(4)]) (use weight_nnf [of g False] in \<open>simp add: to_nnf_plain\<close>)
  then obtain h sy2 where 2: "skolemize (to_nnf g) sy1 name = Some (h, sy2)" "is_matrix (strip_forall h)"
    "names_needed (strip_forall h) \<le> or_width (to_nnf g)" "symbols_left sy2 (or_width (to_nnf g) + definition_costs defs)"
    "preserves_models TY (known_symbols sy1) (known_symbols sy2) {g} {strip_forall h}"
    using skolem_stage [of g sy1 "or_width (to_nnf g) + definition_costs defs" name TY] 1(2) symsg by auto
  have "symbols_left sy2 (names_needed (strip_forall h) + definition_costs defs)"
    "fsyms (strip_forall h) \<subseteq> known_symbols sy2"
    using symbols_left_mono [OF 2(4)] 2(3,5) by (simp_all add: preserves_models_def)
  then obtain c inner sy3 where 3: "clause_form (strip_forall h) sy2 name 1 = Some (c, inner, sy3)"
    "is_cnf c" "list_all definition_ok inner" "symbols_left sy3 (definition_costs defs + 0)"
    "preserves_models TY (known_symbols sy2) (known_symbols sy3) {strip_forall h} {c}"
    using cnf_stage [OF 2(2), of sy2 "definition_costs defs" name 1 TY] by auto
  have p3: "preserves_models TY (known_symbols sy1) (known_symbols sy3) {g} {c}"
    by (rule preserves_models_trans [OF 2(5) 3(5)])
  obtain leaf gen1 where n1: "(case override of Some i \<Rightarrow> (i, id_gen) | None \<Rightarrow> next_id id_gen) = (leaf, gen1)"
    by fastforce
  obtain steps tab pid gen2 where 4: "renaming_steps leaf g defs gen1 = Some (steps, tab, pid, gen2)"
    "ids_cover tab (map def_head defs)"
    using renaming_steps_return [OF 1(3)] by metis
  obtain nnf_id gen3 where n2: "next_id gen2 = (nnf_id, gen3)" by (cases "next_id gen2")
  obtain sk_id gen4 where n3: "next_id gen3 = (sk_id, gen4)" by (cases "next_id gen3")
  obtain sources where 5: "record_sources inner sk_id fmempty = Some sources" "sources_cover sources inner"
    using record_sources_correct [OF 3(3)] by metis
  let ?st = "\<lparr>cl_symbols = sy3, cl_gen = gen4, cl_provenance = new_formula_step leaf f leaf_source # steps,
    cl_sources = sources, cl_definitions = inner, cl_clauses = []\<rparr>"
  have "(\<Union>d \<in> set defs. fsyms (equivalence_of d)) \<subseteq> known_symbols sy3"
    using symsD p3 by (auto simp: preserves_models_def)
  then obtain st where 6: "foldM (clausify_definition name tab) (enumerate 0 defs) ?st = Some st"
    "definitions_done TY defs ?st 0 st"
    using definitions_loop [of defs ?st tab 0 name 0 TY] 1(3) 3(3,4) 4(2) 5(2)
    by (auto simp: state_ok_def ids_cover_def)
  obtain F where F: "state_ok st" "says TY (cl_clauses st) F"
    "preserves_models TY (known_symbols sy3) (known_symbols (cl_symbols st)) ?D F"
    using 6(2) by (auto simp: definitions_done_def)
  obtain tab2 gen5 where 7: "assign_tseitin_ids (cl_definitions st) (cl_gen st) = Some (tab2, gen5)"
    "ids_cover tab2 (map fst (cl_definitions st))"
    using assign_tseitin_ids_return F(1) unfolding state_ok_def by metis
  obtain dprov deps where 8: "mapM_st (tseitin_step order tab2 (cl_sources st)) (cl_definitions st) fmempty = Some (dprov, deps)"
    using tseitin_steps_return [OF 7(2)] F(1) unfolding state_ok_def by (metis prod.collapse)
  obtain cs gen6 where 9: "extract_clauses c gen5 (Inference ''cnf_transformation'' [sk_id]) = Some (cs, gen6)" "says TY cs {c}"
    using extract_stage [OF 3(2), of gen5 _ TY] by blast
  let ?out = "simplify_clauses (if tab2 = fmempty then cs @ cl_clauses st
    else map (cite_definitions tab2 deps) (cs @ cl_clauses st))"
  have "clausify_with_provenance order f symbols id_gen name leaf_source override = Some (cl_provenance st @
      [new_formula_step nnf_id (to_nnf g) (Inference ''fof_nnf_transformation'' [pid]),
       new_formula_step sk_id h (Inference ''skolemisation'' [nnf_id])] @ dprov, ?out, cl_symbols st, gen6)"
    using 1(1) 2(1) 3(1) 4(1) 5(1) 6(1) 7(1) 8 9(1)
    by (simp add: clausify_with_provenance_def n1 n2 n3 Let_def clause_form_1)
  moreover have "says TY ?out ({c} \<union> F)"
    using says_append [OF 9(2) F(2)] says_cite [OF says_append [OF 9(2) F(2)]] by (auto intro: says_simplify)
  moreover have "preserves_models TY (known_symbols symbols) (known_symbols (cl_symbols st)) {f} ({c} \<union> F)"
  proof -
    have "preserves_models TY (known_symbols sy1) (known_symbols sy3) ({g} \<union> ?D) ({c} \<union> ?D)"
      by (rule preserves_models_frame [OF p3 symsD])
    moreover have "preserves_models TY (known_symbols sy3) (known_symbols (cl_symbols st)) (?D \<union> {c}) (F \<union> {c})"
      by (rule preserves_models_frame [OF F(3)]) (use p3 in \<open>simp add: preserves_models_def\<close>)
    ultimately show ?thesis using p1 by (metis Un_commute preserves_models_trans)
  qed
  moreover have "list_all (\<lambda>c. \<not> is_tautology c \<and> distinct (literals c)) ?out"
    by (rule simplify_clean)
  ultimately show ?thesis by blast
qed

text \<open>
  C1. Clausification always returns when enough symbols are left, for every closed formula whose
  variables are bound once on each path and occur within the substitution limit. Every model of
  the formula can be changed at fresh symbols only to a model of the clauses, so a refutation of
  the clauses refutes the formula; no clause is a tautology or repeats a literal.
\<close>

theorem clausify_keeps_satisfiability:
  assumes "placed {} f" "fsyms f \<subseteq> known_symbols symbols" "symbols_left symbols (symbols_needed f)"
  shows "\<exists>clauses symbols' id_gen'. clausify order f symbols id_gen name role = Some (clauses, symbols', id_gen') \<and>
    (\<forall>I :: 'a interp. (\<forall>\<rho>. fval I \<rho> f) \<longrightarrow> (\<exists>I'. agree (known_symbols symbols) I I' \<and>
       (\<forall>\<rho>. \<forall>c \<in> set clauses. lits_hold I' \<rho> (literals c)))) \<and>
    list_all (\<lambda>c. \<not> is_tautology c \<and> distinct (literals c)) clauses"
proof -
  obtain prov clauses symbols' id_gen' F where
    1: "clausify_with_provenance order f symbols id_gen name (Input name role) None = Some (prov, clauses, symbols', id_gen')"
    "says TYPE('a) clauses F" "preserves_models TYPE('a) (known_symbols symbols) (known_symbols symbols') {f} F"
    "list_all (\<lambda>c. \<not> is_tautology c \<and> distinct (literals c)) clauses"
    using clausify_with_provenance_correct [OF assms, of order id_gen name "Input name role" None "TYPE('a)"] by auto
  have "\<exists>I'. agree (known_symbols symbols) I I' \<and> (\<forall>\<rho>. \<forall>c \<in> set clauses. lits_hold I' \<rho> (literals c))"
    if "\<forall>\<rho>. fval I \<rho> f" for I :: "'a interp"
  proof -
    have "defined_by I {f}" using that by simp
    then obtain I' where I': "agree (known_symbols symbols) I I'" "defined_by I' F"
      using 1(3) unfolding preserves_models_def by blast
    moreover have "\<forall>\<rho>. \<forall>c \<in> set clauses. lits_hold I' \<rho> (literals c)"
      using 1(2) I'(2) by (simp add: says_def defined_by_def)
    ultimately show ?thesis by blast
  qed
  then show ?thesis using 1(1,4) by (simp add: clausify_def)
qed

theorem clausify_keeps_satisfiability_witness:
  "\<exists>clauses symbols' id_gen'. clausify sorted_list_of_set
      (Forall 0 (Iff (Atom (Pred 0 [Var 0])) (Exists 1 (Atom (Pred 1 [Var 0, Var 1])))))
      three_symbols new_gen ''ax'' ''axiom'' = Some (clauses, symbols', id_gen') \<and>
    (\<forall>I :: nat interp. (\<forall>\<rho>. fval I \<rho> (Forall 0 (Iff (Atom (Pred 0 [Var 0])) (Exists 1 (Atom (Pred 1 [Var 0, Var 1])))))) \<longrightarrow>
       (\<exists>I'. agree (known_symbols three_symbols) I I' \<and>
         (\<forall>\<rho>. \<forall>c \<in> set clauses. lits_hold I' \<rho> (literals c)))) \<and>
    list_all (\<lambda>c. \<not> is_tautology c \<and> distinct (literals c)) clauses"
  by (rule clausify_keeps_satisfiability)
    (auto simp: three_symbols_known symbols_needed_def intro: symbols_left_mono [OF three_symbols_many])

section \<open>Citations\<close>

definition depends :: "dep_table \<Rightarrow> (SymbolId \<times> SymbolId) set" where
  "depends def_deps = {(s, t). \<exists>ds. fmlookup def_deps s = Some ds \<and> t \<in> set ds}"

definition ids_of :: "id_table \<Rightarrow> SymbolId set \<Rightarrow> ClauseId set" where
  "ids_of tab S = {i. \<exists>s \<in> S. fmlookup tab s = Some i}"

lemma ids_of_insert: "ids_of tab (insert s S) =
    (case fmlookup tab s of Some i \<Rightarrow> insert i (ids_of tab S) | None \<Rightarrow> ids_of tab S)"
  by (auto simp: ids_of_def split: option.split)

lemma reach_closed:
  assumes "R `` S \<subseteq> S"
  shows "R\<^sup>* `` S = S"
proof -
  have "y \<in> S" if "(x, y) \<in> R\<^sup>*" "x \<in> S" for x y
    using that by (induction rule: rtrancl_induct) (use assms in blast)+
  then show ?thesis by blast
qed

lemma cite_loop_reaches:
  "set extra = ids_of tab seen \<Longrightarrow> distinct extra \<Longrightarrow> depends deps `` seen \<subseteq> seen \<union> set frontier \<Longrightarrow>
     set (cite_loop tab deps seen extra frontier) = ids_of tab ((depends deps)\<^sup>* `` (seen \<union> set frontier)) \<and>
     distinct (cite_loop tab deps seen extra frontier)"
proof (induction tab deps seen extra frontier rule: cite_loop.induct)
  case (1 tab deps seen extra frontier)
  let ?R = "depends deps"
  show ?case
  proof (cases "frontier = []")
    case True
    then show ?thesis using 1(3-5) reach_closed [of ?R seen] by (simp add: cite_loop.simps [of tab deps seen extra "[]"])
  next
    case False
    define sy rest where "sy = last frontier" and "rest = butlast frontier"
    have fr: "set frontier = insert sy (set rest)"
      using False append_butlast_last_id [of frontier] by (metis rest_def sy_def list.set(2) rotate1.simps(2) set_rotate1)
    show ?thesis
    proof (cases "sy \<in> seen")
      case True
      then have "cite_loop tab deps seen extra frontier = cite_loop tab deps seen extra rest"
        using False by (simp add: cite_loop.simps [of tab deps seen extra frontier] Let_def sy_def rest_def)
      moreover have "seen \<union> set frontier = seen \<union> set rest" unfolding fr using True by auto
      ultimately show ?thesis
        using 1(1) [OF False sy_def rest_def True 1(3,4)] 1(5) by simp
    next
      case new: False
      let ?extra = "case fmlookup tab sy of Some i \<Rightarrow> if i \<in> set extra then extra else extra @ [i] | None \<Rightarrow> extra"
      let ?frontier = "case fmlookup deps sy of Some ds \<Rightarrow> rest @ ds | None \<Rightarrow> rest"
      have "cite_loop tab deps seen extra frontier = cite_loop tab deps (insert sy seen) ?extra ?frontier"
        using False new unfolding sy_def rest_def by (simp add: cite_loop.simps [of tab deps seen extra frontier] Let_def)
      moreover have "set ?extra = ids_of tab (insert sy seen)" "distinct ?extra"
        using 1(3,4) by (auto simp: ids_of_insert split: option.split)
      moreover have next_fr: "set ?frontier = set rest \<union> ?R `` {sy}"
        by (auto simp: depends_def split: option.split)
      moreover have "?R `` insert sy seen \<subseteq> insert sy seen \<union> set ?frontier" using 1(5) fr next_fr by blast
      moreover have "?R\<^sup>* `` (insert sy seen \<union> set ?frontier) = ?R\<^sup>* `` (seen \<union> set frontier)"
        unfolding next_fr fr by (auto intro: converse_rtrancl_into_rtrancl)
      ultimately show ?thesis
        using 1(2) [OF False sy_def rest_def new] by simp
    qed
  qed
qed

lemma add_missing: "set (fold (\<lambda>p ps. if p \<in> set ps then ps else ps @ [p]) xs ys) = set ys \<union> set xs"
  by (induction xs arbitrary: ys) auto

text \<open>
  A clause of the clausification ends up citing, beside its own parents, exactly the
  introductions of the definitional predicates that its literals reach through the definitions
  of definitions, and the worklist that finds them terminates.
\<close>

theorem citations_are_transitive:
  "clause_source c = Inference rule parents \<Longrightarrow>
   \<exists>parents'. clause_source (cite_definitions tab deps c) = Inference rule parents' \<and>
     set parents' = set parents \<union> {i. \<exists>s t. s \<in> set (cited_symbols tab c) \<and>
       (s, t) \<in> {(s, t). \<exists>ds. fmlookup deps s = Some ds \<and> t \<in> set ds}\<^sup>* \<and> fmlookup tab t = Some i} \<and>
     literals (cite_definitions tab deps c) = literals c"
  using cite_loop_reaches [of "[]" tab "{}" deps "cited_symbols tab c"]
  by (auto simp: cite_definitions_def Let_def add_missing ids_of_def depends_def)

theorem citations_are_transitive_witness:
  "\<exists>parents'. clause_source (cite_definitions (fmupd 4 11 (fmupd 5 12 fmempty)) (fmupd 4 [5] fmempty)
        (new_clause 7 [lit_pos (Pred 4 [])] (Inference ''cnf_transformation'' [3]))) = Inference ''cnf_transformation'' parents' \<and>
     set parents' = set [3] \<union> {i. \<exists>s t. s \<in> set (cited_symbols (fmupd 4 11 (fmupd 5 12 fmempty))
         (new_clause 7 [lit_pos (Pred 4 [])] (Inference ''cnf_transformation'' [3]))) \<and>
       (s, t) \<in> {(s, t). \<exists>ds. fmlookup (fmupd 4 [5] fmempty) s = Some ds \<and> t \<in> set ds}\<^sup>* \<and>
       fmlookup (fmupd 4 11 (fmupd 5 12 fmempty)) t = Some i} \<and>
     literals (cite_definitions (fmupd 4 11 (fmupd 5 12 fmempty)) (fmupd 4 [5] fmempty)
        (new_clause 7 [lit_pos (Pred 4 [])] (Inference ''cnf_transformation'' [3]))) =
     literals (new_clause 7 [lit_pos (Pred 4 [])] (Inference ''cnf_transformation'' [3]))"
  by (rule citations_are_transitive) (simp add: new_clause_def)

end
