(* ===== verification/Destructive.thy ===== *)
theory Destructive
  imports Factoring
begin

text \<open>
  Destructive equality resolution, \<open>destructive_equality_resolve\<close> of
  \<open>crates/mrs-calculus/src/equality.rs\<close>: the loop that drops trivial disequations and replaces a
  variable by the other side of its disequation.
\<close>

definition der_subst :: "Term \<Rightarrow> Term \<Rightarrow> Substitution option" where
  "der_subst s t = (case s of
     Var x \<Rightarrow> if \<not> contains_var t x then Some (bind_var_to x t new_subst)
       else (case t of Var y \<Rightarrow> if \<not> contains_var s y then Some (bind_var_to y s new_subst) else None
         | App g us \<Rightarrow> None)
   | App f ts \<Rightarrow> (case t of
       Var x \<Rightarrow> if \<not> contains_var s x then Some (bind_var_to x s new_subst) else None
     | App g us \<Rightarrow> None))"

text \<open>The literals after the step at one literal, if there is one.\<close>

definition der_step :: "Literal list \<Rightarrow> nat \<times> Literal \<Rightarrow> Literal list option" where
  "der_step ls = (\<lambda>(i, lit).
     if positive lit then None
     else case atom lit of
       Pred p ts \<Rightarrow> None
     | Eq s t \<Rightarrow>
         if s = t then Some (rest {i} ls)
         else (case der_subst s t of
             Some sigma \<Rightarrow> Some (map (apply_literal sigma) (rest {i} ls))
           | None \<Rightarrow> None))"

fun first_some :: "('a \<Rightarrow> 'b option) \<Rightarrow> 'a list \<Rightarrow> 'b option" where
  "first_some f [] = None"
| "first_some f (x # xs) = (case f x of Some y \<Rightarrow> Some y | None \<Rightarrow> first_some f xs)"

lemma first_some_SomeD: "first_some f xs = Some y \<Longrightarrow> \<exists>x \<in> set xs. f x = Some y"
  by (induction xs) (auto split: option.splits)

lemma first_some_None: "first_some f xs = None \<Longrightarrow> x \<in> set xs \<Longrightarrow> f x = None"
  by (induction xs) (auto split: option.splits)

lemma length_rest: "i < length xs \<Longrightarrow> length (rest {i} xs) < length xs"
proof -
  assume i: "i < length xs"
  have "(i, xs ! i) \<in> set (enumerate 0 xs)" using i by (simp add: in_set_enumerate_eq)
  then have "length (filter (\<lambda>p. fst p \<notin> {i}) (enumerate 0 xs)) < length (enumerate 0 xs)"
    by (intro length_filter_less) auto
  then show ?thesis by (simp add: rest_def)
qed

lemma der_step_shrinks:
  assumes "first_some (der_step ls) (enumerate 0 ls) = Some ls'"
  shows "length ls' < length ls"
proof -
  obtain i lit where "(i, lit) \<in> set (enumerate 0 ls)" "der_step ls (i, lit) = Some ls'"
    using first_some_SomeD [OF assms] by auto
  then show ?thesis using length_rest [of i ls]
    by (auto simp: der_step_def in_set_enumerate_eq split: if_splits Atom.splits option.splits)
qed

function der_loop :: "Clause \<Rightarrow> ClauseIdGen \<Rightarrow> Clause list \<Rightarrow> Clause \<times> Clause list \<times> ClauseIdGen" where
  "der_loop current gen steps =
     (case first_some (der_step (literals current)) (enumerate 0 (literals current)) of
        None \<Rightarrow> (current, steps, gen)
      | Some lits \<Rightarrow>
          let (cid, gen) = next_id gen;
              nxt = new_avatar cid lits (Inference ''equality_resolution'' [clause_id current]) (avatar current)
          in der_loop nxt gen (steps @ [nxt]))"
  by pat_completeness auto

termination
  by (relation "measure (\<lambda>(c, g, s). length (literals c))") (auto simp: new_avatar_def dest: der_step_shrinks)

declare der_loop.simps [simp del]

definition destructive_equality_resolve :: "Clause \<Rightarrow> ClauseIdGen \<Rightarrow> (Clause \<times> Clause list) option \<times> ClauseIdGen" where
  "destructive_equality_resolve c gen =
     (let (current, steps, gen) = der_loop c gen []
      in (if steps = [] then None else Some (current, steps), gen))"

section \<open>Each step keeps the meaning\<close>

definition lit_depth :: "Literal \<Rightarrow> nat" where
  "lit_depth l = (case atom l of
     Pred p ts \<Rightarrow> fold max (map depth ts) 0
   | Eq s t \<Rightarrow> max (depth s) (depth t))"

lemma fold_max_ge: "x \<in> set xs \<or> x \<le> m \<Longrightarrow> x \<le> fold max xs (m :: nat)"
proof (induction xs arbitrary: m)
  case (Cons a xs)
  have "x \<le> fold max xs (max a m)" using Cons.prems by (intro Cons.IH) (auto simp: le_max_iff_disj)
  then show ?case by simp
qed simp

lemma fold_max_le: "(\<And>x. x \<in> set xs \<Longrightarrow> x \<le> n) \<Longrightarrow> m \<le> n \<Longrightarrow> fold max xs (m :: nat) \<le> n"
  by (induction xs arbitrary: m) auto

lemma lit_depth_le_iff: "lit_depth l \<le> n \<longleftrightarrow> (case atom l of
     Pred p ts \<Rightarrow> \<forall>t \<in> set ts. depth t \<le> n | Eq s t \<Rightarrow> depth s \<le> n \<and> depth t \<le> n)"
proof -
  have "fold max (map depth ts) 0 \<le> n \<longleftrightarrow> (\<forall>t \<in> set ts. depth t \<le> n)" for ts
  proof
    assume "fold max (map depth ts) 0 \<le> n"
    moreover have "depth t \<le> fold max (map depth ts) 0" if "t \<in> set ts" for t
      using that by (intro fold_max_ge) simp
    ultimately show "\<forall>t \<in> set ts. depth t \<le> n" using le_trans by blast
  qed (auto intro!: fold_max_le)
  then show ?thesis by (simp add: lit_depth_def split: Atom.split)
qed

lemma depth_inst: "(\<And>v. v \<in> vars t \<Longrightarrow> depth (\<theta> v) \<le> k) \<Longrightarrow> depth (inst \<theta> t) \<le> depth t + k"
proof (induction t)
  case (App f ts)
  show ?case
  proof (cases "ts = []")
    case False
    have "depth (inst \<theta> t) \<le> Max (set (map depth ts)) + k" if "t \<in> set ts" for t
    proof -
      have "depth (inst \<theta> t) \<le> depth t + k" using App that by auto
      also have "depth t \<le> Max (set (map depth ts))" using that by simp
      finally show ?thesis by simp
    qed
    then have "Max (set (map depth (map (inst \<theta>) ts))) \<le> Max (set (map depth ts)) + k"
      using False by (subst Max_le_iff) auto
    then show ?thesis using False by (simp del: set_map)
  qed simp
qed simp

lemma der_subst_cases:
  assumes "der_subst s t = Some sigma"
  obtains x u where "sigma = bind_var_to x u new_subst" "x \<notin> vars u" "s = Var x \<and> t = u \<or> t = Var x \<and> s = u"
  using assms by (auto simp: der_subst_def contains_var_eq split: Term.splits if_splits)

lemma apply_literal_shallow:
  assumes "x \<notin> vars u" "lit_depth l \<le> 500"
  shows "apply_literal (bind_var_to x u new_subst) l = inst_lit (Var(x := u)) l"
proof -
  let ?s = "bind_var_to x u new_subst"
  have asf: "as_fun ?s = Var(x := u)" by (auto simp: as_fun_def)
  have flat: "flat ?s" using assms(1) by (auto simp: flat_def unbound_in_def)
  have "apply_atom ?s (atom l) = inst_atom (as_fun ?s) (atom l)"
    using assms(2) by (intro apply_atom_flat [OF flat] levels_ok_depth) (auto simp: lit_depth_le_iff split: Atom.splits)
  then show ?thesis by (simp add: apply_literal_def inst_lit_def asf)
qed

lemma lit_depth_inst:
  assumes "depth u \<le> k" "lit_depth l \<le> n"
  shows "lit_depth (inst_lit (Var(x := u)) l) \<le> n + k"
proof -
  have "depth (inst (Var(x := u)) t) \<le> n + k" if "depth t \<le> n" for t
    using depth_inst [of t "Var(x := u)" k] assms(1) that by fastforce
  then show ?thesis using assms(2) by (auto simp: lit_depth_le_iff inst_lit_def split: Atom.splits)
qed

text \<open>The depth may double at each step, so a clause of \<open>n\<close> literals needs room for \<open>n\<close> doublings.\<close>

definition shallow :: "Literal list \<Rightarrow> bool" where
  "shallow ls \<longleftrightarrow> (\<forall>l \<in> set ls. lit_depth l * 2 ^ length ls \<le> 500)"

lemma shallow_depth: "shallow ls \<Longrightarrow> l \<in> set ls \<Longrightarrow> lit_depth l \<le> 500"
proof -
  assume "shallow ls" "l \<in> set ls"
  then have "lit_depth l * 2 ^ length ls \<le> 500" by (simp add: shallow_def)
  moreover have "lit_depth l * 1 \<le> lit_depth l * 2 ^ length ls" by (rule mult_le_mono2) simp
  ultimately show ?thesis by linarith
qed

lemma valid_rest_iff:
  assumes "i < length ls" "\<And>\<rho>. \<not> lval I \<rho> (ls ! i)"
  shows "lits_valid I (rest {i} ls) \<longleftrightarrow> lits_valid I ls"
proof -
  have "lits_hold I \<rho> (rest {i} ls) \<longleftrightarrow> lits_hold I \<rho> ls" for \<rho>
  proof
    assume "lits_hold I \<rho> ls"
    then show "lits_hold I \<rho> (rest {i} ls)"
      by (rule lits_hold_rest [where skip = "{i}"]) (use assms(2) in auto)
  qed (auto simp: lits_hold_def set_rest)
  then show ?thesis by (simp add: lits_valid_def)
qed

lemma der_step_keeps:
  assumes step: "der_step ls (i, lit) = Some ls'" and i: "(i, lit) \<in> set (enumerate 0 ls)" and sh: "shallow ls"
  shows "(\<forall>I :: 'a interp. lits_valid I ls' \<longleftrightarrow> lits_valid I ls) \<and> shallow ls'"
proof -
  have il: "i < length ls" "lit = ls ! i" using i by (auto simp: in_set_enumerate_eq)
  have "length ls' < length ls"
    using step length_rest [OF il(1)] by (auto simp: der_step_def split: if_splits Atom.splits option.splits)
  then have pow: "2 * 2 ^ length ls' \<le> (2 :: nat) ^ length ls"
    by (metis Suc_leI one_le_numeral power_Suc power_increasing)
  from step obtain s t where st: "\<not> positive lit" "atom lit = Eq s t"
    by (auto simp: der_step_def split: if_splits Atom.splits)
  consider "s = t" "ls' = rest {i} ls"
    | sigma where "der_subst s t = Some sigma" "ls' = map (apply_literal sigma) (rest {i} ls)"
    using step st by (auto simp: der_step_def split: if_splits option.splits)
  then show ?thesis
  proof cases
    case 1
    have "\<not> lval I \<rho> (ls ! i)" for I :: "'a interp" and \<rho> using st 1 il(2) by (simp add: lval_def)
    then have "lits_valid I ls' \<longleftrightarrow> lits_valid I ls" for I :: "'a interp"
      using valid_rest_iff [OF il(1)] 1(2) by blast
    moreover have "shallow ls'" unfolding shallow_def
    proof
      fix l assume "l \<in> set ls'"
      then have "l \<in> set ls" by (auto simp: 1(2) set_rest)
      then have "lit_depth l * 2 ^ length ls \<le> 500" using sh by (simp add: shallow_def)
      moreover have "lit_depth l * 2 ^ length ls' \<le> lit_depth l * 2 ^ length ls" using pow by (intro mult_le_mono2) linarith
      ultimately show "lit_depth l * 2 ^ length ls' \<le> 500" by (rule le_trans [rotated])
    qed
    ultimately show ?thesis by blast
  next
    case (2 sigma)
    from 2(1) obtain x u where xu: "sigma = bind_var_to x u new_subst" "x \<notin> vars u"
      "s = Var x \<and> t = u \<or> t = Var x \<and> s = u" by (rule der_subst_cases)
    let ?\<theta> = "Var(x := u)"
    have sub: "l \<in> set ls" if "l \<in> set (rest {i} ls)" for l using that by (auto simp: set_rest)
    have ls': "ls' = map (inst_lit ?\<theta>) (rest {i} ls)"
      using apply_literal_shallow [OF xu(2)] shallow_depth [OF sh sub] by (simp add: 2(2) xu(1))
    have lit: "\<not> lval I \<rho> (ls ! i) \<longleftrightarrow> \<rho> x = tval I \<rho> u" for I :: "'a interp" and \<rho>
      using st xu(3) il(2) by (auto simp: lval_def)
    have "lits_valid I ls' \<longleftrightarrow> lits_valid I ls" for I :: "'a interp"
    proof
      assume v: "lits_valid I ls'"
      have "lits_hold I \<rho> ls" for \<rho>
      proof (cases "\<rho> x = tval I \<rho> u")
        case True
        then have "(\<lambda>v. tval I \<rho> (?\<theta> v)) = \<rho>" by auto
        then have "lits_hold I \<rho> (rest {i} ls)" using v by (simp add: lits_valid_def ls' lits_hold_inst del: fun_upd_apply) metis
        then show ?thesis using sub by (auto simp: lits_hold_def)
      next
        case False
        then have "lval I \<rho> (ls ! i)" using lit by blast
        then show ?thesis using il(1) nth_mem unfolding lits_hold_def by blast
      qed
      then show "lits_valid I ls" by (simp add: lits_valid_def)
    next
      assume v: "lits_valid I ls"
      have "lits_valid I ([] @ map (inst_lit ?\<theta>) (rest {i} ls))"
      proof (rule instance_without [OF v])
        fix \<rho>
        have "tval I (\<lambda>v. tval I \<rho> (?\<theta> v)) u = tval I \<rho> u" using xu(2) by (intro tval_cong) auto
        then show "lval I (\<lambda>v. tval I \<rho> (?\<theta> v)) (ls ! i) \<Longrightarrow> lits_hold I (\<lambda>v. tval I \<rho> (?\<theta> v)) (rest {i} ls) \<or> lits_hold I \<rho> []"
          using lit [of I "\<lambda>v. tval I \<rho> (?\<theta> v)"] by simp
      qed
      then show "lits_valid I ls'" by (simp add: ls')
    qed
    moreover have "shallow ls'" unfolding shallow_def
    proof
      fix l assume "l \<in> set ls'"
      then obtain l0 where l0: "l0 \<in> set ls" "l = inst_lit ?\<theta> l0" using sub by (auto simp: ls')
      let ?n = "lit_depth l0" and ?k = "lit_depth lit"
      have "depth u \<le> ?k" using st(2) xu(3) by (auto simp: lit_depth_def)
      then have "lit_depth l \<le> ?n + ?k" using lit_depth_inst l0(2) by blast
      then have "lit_depth l * 2 ^ length ls' \<le> (?n + ?k) * 2 ^ length ls'" by (rule mult_le_mono1)
      also have "\<dots> \<le> max ?n ?k * (2 * 2 ^ length ls')" by (simp add: max_def distrib_right)
      also have "\<dots> \<le> max ?n ?k * 2 ^ length ls" using pow by (rule mult_le_mono2)
      also have "\<dots> \<le> 500" using sh l0(1) il by (auto simp: shallow_def max_def)
      finally show "lit_depth l * 2 ^ length ls' \<le> 500" .
    qed
    ultimately show ?thesis by blast
  qed
qed

lemma der_loop_keeps:
  assumes "der_loop c g steps = (d, steps', g')" "shallow (literals c)"
  shows "(\<forall>I :: 'a interp. lits_valid I (literals d) \<longleftrightarrow> lits_valid I (literals c)) \<and>
    (\<exists>new. steps' = steps @ new \<and> (if new = [] then d = c else d = last new) \<and>
      (\<forall>e \<in> set new. \<forall>I :: 'a interp. lits_valid I (literals e) \<longleftrightarrow> lits_valid I (literals c)))"
  using assms
proof (induction c g steps rule: der_loop.induct)
  case (1 c g steps)
  show ?case
  proof (cases "first_some (der_step (literals c)) (enumerate 0 (literals c))")
    case None
    then show ?thesis using 1(2) by (simp add: der_loop.simps [of c])
  next
    case (Some lits)
    then obtain i lit where il: "(i, lit) \<in> set (enumerate 0 (literals c))" "der_step (literals c) (i, lit) = Some lits"
      using first_some_SomeD by fastforce
    define nxt where "nxt = new_avatar (fst (next_id g)) lits (Inference ''equality_resolution'' [clause_id c]) (avatar c)"
    have lits: "literals nxt = lits" by (simp add: nxt_def new_avatar_def)
    have keep: "(\<forall>I :: 'a interp. lits_valid I lits \<longleftrightarrow> lits_valid I (literals c)) \<and> shallow lits"
      using der_step_keeps [OF il(2,1) 1(3)] .
    have run: "der_loop nxt (snd (next_id g)) (steps @ [nxt]) = (d, steps', g')"
      using 1(2) Some by (simp add: der_loop.simps [of c] nxt_def split_def Let_def)
    have IH: "(\<forall>I :: 'a interp. lits_valid I (literals d) \<longleftrightarrow> lits_valid I lits) \<and>
      (\<exists>new. steps' = (steps @ [nxt]) @ new \<and> (if new = [] then d = nxt else d = last new) \<and>
        (\<forall>e \<in> set new. \<forall>I :: 'a interp. lits_valid I (literals e) \<longleftrightarrow> lits_valid I lits))"
      using 1(1) [OF Some refl prod.collapse nxt_def run] keep lits by simp
    then obtain new where new: "steps' = (steps @ [nxt]) @ new" "if new = [] then d = nxt else d = last new"
      "\<forall>e \<in> set new. \<forall>I :: 'a interp. lits_valid I (literals e) \<longleftrightarrow> lits_valid I lits" by blast
    have "steps' = steps @ (nxt # new)" "if nxt # new = [] then d = c else d = last (nxt # new)"
      "\<forall>e \<in> set (nxt # new). \<forall>I :: 'a interp. lits_valid I (literals e) \<longleftrightarrow> lits_valid I (literals c)"
      using new keep lits by (simp_all split: if_splits)
    then show ?thesis using IH keep by blast
  qed
qed

lemma der_loop_stuck: "der_loop c g steps = (d, steps', g') \<Longrightarrow>
    first_some (der_step (literals d)) (enumerate 0 (literals d)) = None"
proof (induction c g steps rule: der_loop.induct)
  case (1 c g steps)
  show ?case
  proof (cases "first_some (der_step (literals c)) (enumerate 0 (literals c))")
    case (Some lits)
    then show ?thesis using 1(1) [OF Some refl prod.collapse refl] 1(2)
      by (simp add: der_loop.simps [of c] split_def Let_def)
  qed (use 1(2) in \<open>simp add: der_loop.simps [of c]\<close>)
qed

text \<open>
  C20. Destructive equality resolution always terminates. On clauses whose terms are shallow enough
  for the depth limit of substitution, its result and every intermediate clause have the same
  models as the input, and no step applies to the result any more.
\<close>

theorem destructive_equality_resolve_equivalent:
  assumes "destructive_equality_resolve c g = (Some (d, steps), g')"
    and "\<forall>l \<in> set (literals c). lit_depth l * 2 ^ length (literals c) \<le> 500"
  shows "d = last steps \<and> steps \<noteq> [] \<and>
    (\<forall>e \<in> set steps. \<forall>I :: 'a interp. lits_valid I (literals e) \<longleftrightarrow> lits_valid I (literals c)) \<and>
    (\<forall>il \<in> set (enumerate 0 (literals d)). der_step (literals d) il = None)"
proof -
  have run: "der_loop c g [] = (d, steps, g')" "steps \<noteq> []"
    using assms(1) by (auto simp: destructive_equality_resolve_def split: prod.splits if_splits)
  have "(\<exists>new. steps = [] @ new \<and> (if new = [] then d = c else d = last new) \<and>
      (\<forall>e \<in> set new. \<forall>I :: 'a interp. lits_valid I (literals e) \<longleftrightarrow> lits_valid I (literals c)))"
    using der_loop_keeps [OF run(1)] assms(2) unfolding shallow_def by blast
  then have "d = last steps" "\<forall>e \<in> set steps. \<forall>I :: 'a interp. lits_valid I (literals e) \<longleftrightarrow> lits_valid I (literals c)"
    using run(2) by auto
  moreover have "\<forall>il \<in> set (enumerate 0 (literals d)). der_step (literals d) il = None"
    using first_some_None [OF der_loop_stuck [OF run(1)]] by blast
  ultimately show ?thesis using run(2) by (intro conjI)
qed

text \<open>The clause \<open>X0 \<noteq> f(X1) \<or> p(X0)\<close>.\<close>

definition der_example :: Clause where
  "der_example = new_clause 0 [\<lparr>positive = False, atom = Eq (Var 0) (App 4 [Var 1])\<rparr>,
     \<lparr>positive = True, atom = Pred 1 [Var 0]\<rparr>] (Input ''ex'' ''axiom'')"

lemma der_example_run:
  "\<exists>d g'. destructive_equality_resolve der_example new_gen = (Some (d, [d]), g')"
proof -
  let ?l = "\<lparr>positive = True, atom = Pred 1 [Var 0]\<rparr>"
  have one: "der_step (literals der_example) (0, literals der_example ! 0)
      = Some [inst_lit (Var(0 := App 4 [Var 1])) ?l]"
    using apply_literal_shallow [of 0 "App 4 [Var 1]" ?l]
    by (simp add: der_step_def der_example_def new_clause_def der_subst_def contains_var_eq rest_def lit_depth_def)
  then have first: "first_some (der_step (literals der_example)) (enumerate 0 (literals der_example))
      = Some [inst_lit (Var(0 := App 4 [Var 1])) ?l]"
    by (simp add: der_example_def new_clause_def)
  define nxt where "nxt = new_avatar (fst (next_id new_gen)) [inst_lit (Var(0 := App 4 [Var 1])) ?l]
    (Inference ''equality_resolution'' [clause_id der_example]) (avatar der_example)"
  have "first_some (der_step (literals nxt)) (enumerate 0 (literals nxt)) = None"
    by (simp add: nxt_def new_avatar_def der_step_def inst_lit_def)
  then have "der_loop nxt (snd (next_id new_gen)) [nxt] = (nxt, [nxt], snd (next_id new_gen))"
    by (simp add: der_loop.simps [of nxt])
  then have "der_loop der_example new_gen [] = (nxt, [nxt], snd (next_id new_gen))"
    by (subst der_loop.simps) (simp only: first option.case Let_def split_def append_Nil flip: nxt_def)
  then show ?thesis by (simp add: destructive_equality_resolve_def)
qed

theorem destructive_equality_resolve_equivalent_witness:
  "\<exists>d g'. destructive_equality_resolve der_example new_gen = (Some (d, [d]), g') \<and>
    (\<forall>I :: int interp. lits_valid I (literals d) \<longleftrightarrow> lits_valid I (literals der_example))"
proof -
  obtain d g' where run: "destructive_equality_resolve der_example new_gen = (Some (d, [d]), g')"
    using der_example_run by blast
  have "\<forall>l \<in> set (literals der_example). lit_depth l * 2 ^ length (literals der_example) \<le> 500"
    by (simp add: der_example_def new_clause_def lit_depth_def)
  from destructive_equality_resolve_equivalent [OF run this, where 'a = int] show ?thesis using run by auto
qed

end
