(* ===== verification/Alpha.thy ===== *)
theory Alpha
  imports Subst "HOL-Library.Multiset"
begin

text \<open>
  Alpha-equivalence of formulas, \<open>crates/mrs-core/src/alpha.rs\<close>. The two maps give the
  binding depth of each bound variable; the code undoes its update of the maps and of the
  depth after each quantifier, so a call sees the values it is given here.
\<close>

type_synonym binding_depths = "VarId \<Rightarrow> u32 option"

fun term_eq :: "Term \<Rightarrow> Term \<Rightarrow> binding_depths \<Rightarrow> binding_depths \<Rightarrow> bool" where
  "term_eq (Var v1) (Var v2) left right =
     (case (left v1, right v2) of
        (Some d1, Some d2) \<Rightarrow> d1 = d2
      | (None, None) \<Rightarrow> v1 = v2
      | _ \<Rightarrow> False)"
| "term_eq (App s1 args1) (App s2 args2) left right =
     (s1 = s2 \<and> length args1 = length args2 \<and>
      list_all (\<lambda>(x, y). term_eq x y left right) (zip args1 args2))"
| "term_eq _ _ left right = False"

fun atom_eq :: "Atom \<Rightarrow> Atom \<Rightarrow> binding_depths \<Rightarrow> binding_depths \<Rightarrow> bool" where
  "atom_eq (Pred s1 args1) (Pred s2 args2) left right =
     (s1 = s2 \<and> length args1 = length args2 \<and>
      list_all (\<lambda>(x, y). term_eq x y left right) (zip args1 args2))"
| "atom_eq (Eq l1 r1) (Eq l2 r2) left right =
     ((term_eq l1 l2 left right \<and> term_eq r1 r2 left right) \<or>
      (term_eq l1 r2 left right \<and> term_eq r1 l2 left right))"
| "atom_eq _ _ left right = False"

text \<open>
  \<open>formulas_eq\<close> is the greedy loop over conjuncts or disjuncts: each formula on the left
  takes the first unused formula on the right that it equals; the third list holds the
  formulas not used yet, in order.
\<close>

function (sequential)
  formula_eq :: "Formula \<Rightarrow> Formula \<Rightarrow> binding_depths \<Rightarrow> binding_depths \<Rightarrow> u32 \<Rightarrow> bool"
and formulas_eq :: "Formula list \<Rightarrow> Formula list \<Rightarrow> binding_depths \<Rightarrow> binding_depths \<Rightarrow> u32 \<Rightarrow> bool"
where
  "formula_eq FTrue b left right dep = (b = FTrue)"
| "formula_eq FFalse b left right dep = (b = FFalse)"
| "formula_eq (Atom x) b left right dep =
     (case b of Atom y \<Rightarrow> atom_eq x y left right | _ \<Rightarrow> False)"
| "formula_eq (Neg x) b left right dep =
     (case b of Neg y \<Rightarrow> formula_eq x y left right dep | _ \<Rightarrow> False)"
| "formula_eq (And xs) b left right dep =
     (case b of And ys \<Rightarrow> length xs = length ys \<and> formulas_eq xs ys left right dep | _ \<Rightarrow> False)"
| "formula_eq (Or xs) b left right dep =
     (case b of Or ys \<Rightarrow> length xs = length ys \<and> formulas_eq xs ys left right dep | _ \<Rightarrow> False)"
| "formula_eq (Iff a1 b1) b left right dep =
     (case b of
        Iff a2 b2 \<Rightarrow>
          (formula_eq a1 a2 left right dep \<and> formula_eq b1 b2 left right dep) \<or>
          (formula_eq a1 b2 left right dep \<and> formula_eq b1 a2 left right dep)
      | _ \<Rightarrow> False)"
| "formula_eq (Implies a1 b1) b left right dep =
     (case b of
        Implies a2 b2 \<Rightarrow> formula_eq a1 a2 left right dep \<and> formula_eq b1 b2 left right dep
      | _ \<Rightarrow> False)"
| "formula_eq (Forall v1 body1) b left right dep =
     (case b of
        Forall v2 body2 \<Rightarrow>
          formula_eq body1 body2 (left(v1 \<mapsto> dep)) (right(v2 \<mapsto> dep)) (dep + 1)
      | _ \<Rightarrow> False)"
| "formula_eq (Exists v1 body1) b left right dep =
     (case b of
        Exists v2 body2 \<Rightarrow>
          formula_eq body1 body2 (left(v1 \<mapsto> dep)) (right(v2 \<mapsto> dep)) (dep + 1)
      | _ \<Rightarrow> False)"
| "formulas_eq [] unused left right dep = True"
| "formulas_eq (x # xs) unused left right dep =
     (case List.extract (\<lambda>y. formula_eq x y left right dep) unused of
        None \<Rightarrow> False
      | Some (before, y, after) \<Rightarrow> formulas_eq xs (before @ after) left right dep)"
  by pat_completeness auto
termination
  by (relation "measure (\<lambda>x. case x of Inl (a, _) \<Rightarrow> size a | Inr (xs, _) \<Rightarrow> size_list size xs)") auto

definition alpha_equiv :: "Formula \<Rightarrow> Formula \<Rightarrow> bool" where
  "alpha_equiv a b = formula_eq a b Map.empty Map.empty 0"

definition alpha_equiv_term :: "Term \<Rightarrow> Term \<Rightarrow> bool" where
  "alpha_equiv_term a b = term_eq a b Map.empty Map.empty"

subsection \<open>Soundness\<close>

text \<open>
  The two valuations agree on variables that correspond: those with the same binding depth,
  and free variables with the same name.
\<close>

definition corresponds :: "(VarId \<Rightarrow> 'a) \<Rightarrow> (VarId \<Rightarrow> 'a) \<Rightarrow> binding_depths \<Rightarrow> binding_depths \<Rightarrow> bool" where
  "corresponds \<rho> \<sigma> left right \<longleftrightarrow>
     (\<forall>v w d. left v = Some d \<longrightarrow> right w = Some d \<longrightarrow> \<rho> v = \<sigma> w) \<and>
     (\<forall>v. left v = None \<longrightarrow> right v = None \<longrightarrow> \<rho> v = \<sigma> v)"

definition shallower :: "binding_depths \<Rightarrow> u32 \<Rightarrow> bool" where
  "shallower m d \<longleftrightarrow> (\<forall>v e. m v = Some e \<longrightarrow> e < d)"

lemma term_eq_value:
  "term_eq s t left right \<Longrightarrow> corresponds \<rho> \<sigma> left right \<Longrightarrow> tval I \<rho> s = tval I \<sigma> t"
proof (induction s t left right rule: term_eq.induct)
  case (1 v1 v2 left right)
  then show ?case by (auto simp: corresponds_def split: option.splits)
next
  case (2 s1 args1 s2 args2 left right)
  have "tval I \<rho> x = tval I \<sigma> y" if "(x, y) \<in> set (zip args1 args2)" for x y
    using 2(1) [OF that refl] 2(2,3) that by (auto simp: list_all_iff)
  then have "map (tval I \<rho>) args1 = map (tval I \<sigma>) args2"
    using 2(2) by (auto simp: list_eq_iff_nth_eq set_zip)
  then show ?case using 2(2) by (simp only: term_eq.simps tval.simps)
qed auto

lemma terms_eq_value:
  assumes "length ss = length ts" "list_all (\<lambda>(x, y). term_eq x y left right) (zip ss ts)"
    "corresponds \<rho> \<sigma> left right"
  shows "map (tval I \<rho>) ss = map (tval I \<sigma>) ts"
  using assms by (auto simp: list_eq_iff_nth_eq list_all_length intro: term_eq_value)

lemma atom_eq_value:
  "atom_eq a b left right \<Longrightarrow> corresponds \<rho> \<sigma> left right \<Longrightarrow> aval I \<rho> a = aval I \<sigma> b"
proof (induction a b left right rule: atom_eq.induct)
  case (1 s1 args1 s2 args2 left right)
  then have "map (tval I \<rho>) args1 = map (tval I \<sigma>) args2" by (auto intro: terms_eq_value)
  then show ?case using 1(1) by (simp only: atom_eq.simps aval.simps)
next
  case (2 l1 r1 l2 r2 left right)
  then show ?case using term_eq_value [OF _ 2(2), of _ _ I]
    by (simp only: atom_eq.simps aval.simps) metis
qed auto

lemma corresponds_bind:
  assumes "corresponds \<rho> \<sigma> left right" "shallower left d" "shallower right d"
  shows "corresponds (\<rho>(v := x)) (\<sigma>(w := x)) (left(v \<mapsto> d)) (right(w \<mapsto> d))"
  using assms by (auto simp: corresponds_def shallower_def)

lemma shallower_bind:
  assumes "shallower m d" "unat d + 1 < 2 ^ 32"
  shows "shallower (m(v \<mapsto> d)) (d + 1)"
proof -
  have "unat (d + 1) = Suc (unat d)" by (rule unat_suc_u32 [where n = 0]) (use assms(2) in simp)
  then show ?thesis using assms(1) by (auto simp: shallower_def word_less_nat_alt less_Suc_eq)
qed

definition matches :: "(Formula \<Rightarrow> bool) \<Rightarrow> (Formula \<Rightarrow> bool) \<Rightarrow> Formula list \<Rightarrow> Formula list \<Rightarrow> bool" where
  "matches P Q xs ys \<longleftrightarrow> (\<exists>zs. list_all2 (\<lambda>x z. P x = Q z) xs zs \<and> mset zs \<subseteq># mset ys)"

lemma matches_all_any:
  assumes "matches P Q xs ys" "length xs = length ys"
  shows "(\<forall>x \<in> set xs. P x) = (\<forall>y \<in> set ys. Q y)" "(\<exists>x \<in> set xs. P x) = (\<exists>y \<in> set ys. Q y)"
proof -
  obtain zs where zs: "list_all2 (\<lambda>x z. P x = Q z) xs zs" "mset zs \<subseteq># mset ys"
    using assms(1) by (auto simp: matches_def)
  then have "size (mset zs) = size (mset ys)" using assms(2) by (simp add: list_all2_lengthD)
  then have "mset zs = mset ys" using zs(2) by (metis mset_subset_size order_less_irrefl subset_mset.le_imp_less_or_eq)
  then have "set zs = set ys" by (rule mset_eq_setD)
  then show "(\<forall>x \<in> set xs. P x) = (\<forall>y \<in> set ys. Q y)" "(\<exists>x \<in> set xs. P x) = (\<exists>y \<in> set ys. Q y)"
    using list_all2_ball_iff [OF zs(1)] list_all2_bex_iff [OF zs(1)] by simp_all
qed

text \<open>The fresh depth of each quantifier stays below \<open>2 ^ 32\<close>.\<close>

lemma formula_eq_value:
  "formula_eq a b left right dep \<Longrightarrow> corresponds \<rho> \<sigma> left right \<Longrightarrow> shallower left dep \<Longrightarrow>
     shallower right dep \<Longrightarrow> unat dep + quants a < 2 ^ 32 \<Longrightarrow> fval I \<rho> a = fval I \<sigma> b"
  "formulas_eq xs ys left right dep \<Longrightarrow> corresponds \<rho> \<sigma> left right \<Longrightarrow> shallower left dep \<Longrightarrow>
     shallower right dep \<Longrightarrow> unat dep + sum_list (map quants xs) < 2 ^ 32 \<Longrightarrow>
     matches (fval I \<rho>) (fval I \<sigma>) xs ys"
proof (induction a b left right dep and xs ys left right dep arbitrary: \<rho> \<sigma> and \<rho> \<sigma>
    rule: formula_eq_formulas_eq.induct)
  case (3 x b left right dep)
  then obtain y where "b = Atom y" "atom_eq x y left right" by (auto split: Formula.splits)
  then show ?case using atom_eq_value [OF _ 3(2)] by simp
next
  case (5 xs b left right dep)
  then obtain ys where ys: "b = And ys" "length xs = length ys" "matches (fval I \<rho>) (fval I \<sigma>) xs ys"
    by (auto split: Formula.splits)
  then show ?case by (simp add: matches_all_any(1))
next
  case (6 xs b left right dep)
  then obtain ys where ys: "b = Or ys" "length xs = length ys" "matches (fval I \<rho>) (fval I \<sigma>) xs ys"
    by (auto split: Formula.splits)
  then show ?case by (simp add: matches_all_any(2))
next
  case (7 a1 b1 b left right dep)
  then obtain a2 b2 where b: "b = Iff a2 b2" by (auto split: Formula.splits)
  have "unat dep + quants a1 < 2 ^ 32" "unat dep + quants b1 < 2 ^ 32" using 7(9) by simp_all
  then show ?case using 7 b by simp metis
next
  case (8 a1 b1 b left right dep)
  then obtain a2 b2 where b: "b = Implies a2 b2" by (auto split: Formula.splits)
  have "unat dep + quants a1 < 2 ^ 32" "unat dep + quants b1 < 2 ^ 32" using 8(7) by simp_all
  then show ?case using 8 b by simp
next
  case (9 v1 body1 b left right dep)
  then obtain v2 body2 where b: "b = Forall v2 body2" by (auto split: Formula.splits)
  have dep: "unat dep + 1 < 2 ^ 32" "unat (dep + 1) + quants body1 < 2 ^ 32"
    using 9(6) unat_suc_u32 [of dep "quants body1"] by simp_all
  have "fval I (\<rho>(v1 := x)) body1 = fval I (\<sigma>(v2 := x)) body2" for x
    using 9(2) b
    by (intro 9(1) [OF b _ corresponds_bind [OF 9(3-5)] shallower_bind [OF 9(4) dep(1)]
        shallower_bind [OF 9(5) dep(1)] dep(2)]) (simp del: fun_upd_apply)
  then show ?case using b by simp
next
  case (10 v1 body1 b left right dep)
  then obtain v2 body2 where b: "b = Exists v2 body2" by (auto split: Formula.splits)
  have dep: "unat dep + 1 < 2 ^ 32" "unat (dep + 1) + quants body1 < 2 ^ 32"
    using 10(6) unat_suc_u32 [of dep "quants body1"] by simp_all
  have "fval I (\<rho>(v1 := x)) body1 = fval I (\<sigma>(v2 := x)) body2" for x
    using 10(2) b
    by (intro 10(1) [OF b _ corresponds_bind [OF 10(3-5)] shallower_bind [OF 10(4) dep(1)]
        shallower_bind [OF 10(5) dep(1)] dep(2)]) (simp del: fun_upd_apply)
  then show ?case using b by simp
next
  case (11 unused left right dep)
  then show ?case by (simp add: matches_def)
next
  case (12 x xs unused left right dep)
  then obtain before y after where ex:
    "List.extract (\<lambda>y. formula_eq x y left right dep) unused = Some (before, y, after)"
    and rest: "formulas_eq xs (before @ after) left right dep"
    by (auto split: option.splits)
  have un: "unused = before @ y # after" "formula_eq x y left right dep"
    using ex by (auto simp: extract_Some_iff)
  have fit: "unat dep + quants x < 2 ^ 32" "unat dep + sum_list (map quants xs) < 2 ^ 32"
    using 12(7) by simp_all
  have "fval I \<rho> x = fval I \<sigma> y" using 12(1) un(2) 12(4-6) fit(1) by blast
  moreover obtain zs where "list_all2 (\<lambda>x z. fval I \<rho> x = fval I \<sigma> z) xs zs"
    "mset zs \<subseteq># mset (before @ after)"
    using 12(2) [OF ex refl refl rest 12(4-6) fit(2)] by (auto simp: matches_def)
  ultimately show ?case unfolding matches_def un(1)
    by (intro exI [of _ "y # zs"]) simp
qed (auto split: Formula.splits)

lemma corresponds_empty [simp]: "corresponds \<rho> \<rho> Map.empty Map.empty"
  by (simp add: corresponds_def)

lemma shallower_empty [simp]: "shallower Map.empty d"
  by (simp add: shallower_def)

subsection \<open>Properties\<close>

text \<open>
  The alpha-equivalence test is sound: two formulas it accepts have the same value in
  every structure under every valuation, although the greedy matching also accepts reordered
  conjuncts, disjuncts and sides of an equivalence or equation. The first formula may have
  fewer than \<open>2 ^ 32\<close> quantifiers.
\<close>

theorem alpha_equiv_sound:
  assumes "alpha_equiv a b" "quants a < 2 ^ 32"
  shows "fval I \<rho> a = fval I \<rho> b"
  using assms unfolding alpha_equiv_def
  by (intro formula_eq_value(1) [of a b Map.empty Map.empty 0]) simp_all

lemma reordered_example:
  "alpha_equiv (Forall 0 (And [Atom (Pred 1 [Var 0]), Atom (Eq (Var 0) (Var 7))]))
               (Forall 3 (And [Atom (Eq (Var 7) (Var 3)), Atom (Pred 1 [Var 3])]))"
  by (simp add: alpha_equiv_def extract_Some_iff List.extract_def)

theorem alpha_equiv_sound_witness:
  "\<forall>I \<rho>. fval I \<rho> (Forall 0 (And [Atom (Pred 1 [Var 0]), Atom (Eq (Var 0) (Var 7))]))
     = fval I \<rho> (Forall 3 (And [Atom (Eq (Var 7) (Var 3)), Atom (Pred 1 [Var 3])]))"
  by (intro allI alpha_equiv_sound [OF reordered_example]) simp

end
