(* ===== verification/Spec2Isabelle.thy ===== *)
theory Spec2Isabelle
  imports LitIndex LitSelect DemodCache Fvi STree EqFactor SupSound Subsumption LpoExact AcMatch Superposition Pipeline Destructive Matching Alpha BankOps Clauses IdSubst Interning Robinson TermBank Unification Witness Subst Symbols
begin

text \<open>
  A verification development for the first-order theorem prover \<open>mrs\<close>, over the Rust sources of the
  crates \<open>mrs-core\<close>, \<open>mrs-unify\<close>, \<open>mrs-cnf\<close>, \<open>mrs-calculus\<close> and \<open>mrs-index\<close> under \<open>src/crates\<close>: the
  data the prover computes with, the transformation of formulas to clauses, the inference and
  simplification rules, and the indexes that find their partners. A saturation loop (not modelled) feeds the clauses of the pipeline to the
  rules; what the rules derive is sound when each of them is, which is what the main theorems show.

  \<^bold>\<open>How the program is modelled.\<close>
  \<^item> \<open>Prelude\<close>: a \<open>u32\<close> is a 32-bit word, a \<open>u64\<close> a 64-bit word (\<open>+\<close> wraps, as in a release build), a
    \<open>usize\<close> a natural number, saturating where the source saturates; \<open>Vec\<close> and slices are lists,
    \<open>HashMap\<close> a finite map, \<open>HashSet\<close> a set. A function that changes something behind \<open>&mut\<close> returns the
    changed value.
  \<^item> \<open>Result\<close> is a sum with the error on the left. A panic, a failed \<open>expect\<close> or an index out of range is
    the value \<open>None\<close> of an option around the result, and so is a loop that does not end
    (\<open>partial_function (option)\<close>): a theorem that says \<open>= Some ...\<close> therefore says that the code
    returns without a panic. No fuel is used.
  \<^item> A deadline is a list of booleans, one for each look at the clock, the empty list when no deadline
    was given. Theorems about functions with deadlines hold for every such list. Budgets (steps of
    the path ordering, matches below associative symbols) are numbers in the state, as in the code.
  \<^item> An early \<open>return\<close> in nested loops is \<open>try_each\<close> with the state on the left; \<open>Inference.finish\<close> merges
    the two ways out.

  \<^bold>\<open>Data (\<open>mrs-core\<close>).\<close> \<open>Terms\<close> (\<open>term.rs\<close>), \<open>Symbols\<close> (\<open>symbol.rs\<close>), \<open>Formulas\<close> (\<open>formula.rs\<close> and the
  literals of \<open>clause.rs\<close>), \<open>Subst\<close> (\<open>subst.rs\<close>), \<open>Alpha\<close> (\<open>alpha.rs\<close>), \<open>Clauses\<close> (\<open>clause.rs\<close>),
  \<open>Witness\<close> (\<open>witness.rs\<close>) and \<open>TermBank\<close> (\<open>term_bank.rs\<close>) hold the definitions, in the order of the
  files, with the constructors and field names of the source; SHA-256 is a parameter. \<open>Semantics\<close> has
  no counterpart in the source: it gives terms, formulas and clauses their meaning in a first-order
  structure and is what correctness is measured against.
  \<^item> \<open>Interner\<close> states the contract of an interning table as a locale; \<open>Symbols\<close> and \<open>Interning\<close>
    interpret it for the symbol table and for the bank. While fewer than \<open>2 ^ 32\<close> keys are stored,
    identifiers and keys correspond one to one.
  \<^item> \<open>BankOps\<close>, \<open>IdSubst\<close>: each operation on identifiers is the operation on the terms they denote
    (\<open>to_legacy\<close>), and applying a triangular substitution gives its closure when the bindings are
    acyclic. \<open>BankTotal\<close>: a bank that overflows its 32-bit identifiers still answers; \<open>maps_as\<close> says
    that an operation always returns and is right while the bank is \<open>intact\<close>.
  \<^item> \<open>Subst\<close> shows capture-avoidance within the limits of \<open>apply_term\<close> (depth 500, chains of 1000
    variables) and what happens beyond them.

  \<^bold>\<open>Unification and matching (\<open>mrs-unify\<close>).\<close> \<open>Unify\<close> holds \<open>robinson.rs\<close>, \<open>Matching\<close> \<open>matching.rs\<close>,
  \<open>AcSubset\<close> \<open>ac_subset.rs\<close>. \<open>Unification\<close> decides unifiability on identifiers with no bound on the
  input. \<open>Robinson\<close>, on owned terms with at most 1000 variables: two terms have a unifier if and only if
  the call returns an acyclic substitution; terms nested more than 500 deep can make it return a cyclic
  one, as a counterexample shows. \<open>AcUnify\<close> and \<open>AcMatch\<close> show that the variants modulo associativity and
  commutativity return, and are sound on terms that apply every associative symbol to exactly two
  arguments; a lemma shows that unification is not sound for other arities.

  \<^bold>\<open>From formulas to clauses (\<open>mrs-cnf\<close>).\<close> \<open>Nnf\<close> (\<open>nnf.rs\<close>), \<open>Miniscope\<close>, \<open>Skolem\<close>, \<open>Cnf\<close> (\<open>cnf.rs\<close>,
  \<open>flatten.rs\<close>, \<open>simplify.rs\<close>), \<open>Definitional\<close> and \<open>Clausify\<close> (\<open>lib.rs\<close>). \<open>Freshness\<close> states the contract
  of a supply of fresh symbols (\<open>symbol_supply\<close>) and of a pass that draws from it while it keeps
  satisfiability (\<open>symbol_pass\<close>), interpreted for the symbol table, for Skolemization, for the naming
  of subformulas and for the renaming of equivalences. \<open>Pipeline\<close> composes the stages: clausification
  returns, and every model of the formula extends, at fresh symbols only, to a model of the clauses. The
  formula must be closed, bind no variable twice on a path and have its variables within nesting
  depth 500, and the symbol table must have room for the new names; \<open>Skolem\<close> shows what goes wrong below
  that depth.

  \<^bold>\<open>Rules (\<open>mrs-calculus\<close>).\<close> \<open>Rename\<close> (\<open>rename.rs\<close>), \<open>Inference\<close> (the loops that the rules share and the
  invariant of a rule: the conclusions so far follow from the premises, cite them and carry
  consecutive identifiers), \<open>Resolution\<close>, \<open>Factoring\<close> (with equality resolution), \<open>EqFactor\<close>,
  \<open>Destructive\<close>, \<open>Superposition\<close> with its soundness in \<open>SupSound\<close>, \<open>Subsumption\<close>. \<open>Ordering\<close> and \<open>Lpo\<close> hold
  \<open>ordering.rs\<close>; \<open>LpoExact\<close> shows that the memoised path ordering with a step budget gives the answer of
  the plain recursive definition unless the budget runs out. Each rule returns for every bank, clock,
  ordering and budget, and while the bank has at most \<open>2 ^ 32\<close> nodes its conclusions hold in every
  structure in which the premises hold; conclusions of the steps modulo declared symbols hold where these
  are associative and commutative, provided that the premises apply the associative symbols to exactly
  two arguments (in resolution also that no predicate is declared). \<open>Subsumption\<close>: the tests on owned
  clauses are sound; on clauses without equations the first is exact, as an inclusion of sets with a
  bound on the length. \<open>Clauses\<close> shows that identifiers are unique along the line of a generator, from
  fork to fork, until the 64-bit counter wraps.
  \<open>Demod\<close> holds \<open>demodulation.rs\<close> on identifiers (the rules are found in the tree of \<open>STree\<close>), and
  \<open>DemodSound\<close> shows that the rewritten clause is equivalent to the old one wherever the units that it
  cites are valid, also when the rewriting is cut off by its limit of 100 passes or by the clock.
  \<open>DemodCache\<close> shows that its memo of irreducible terms changes nothing. \<open>LitSelect\<close>
  (\<open>literal_selection.rs\<close>): what each strategy selects, and that the restriction to maximal literals is
  exact for the Knuth-Bendix ordering.

  \<^bold>\<open>Indexes (\<open>mrs-index\<close>).\<close> \<open>Cells\<close> (\<open>dtree.rs\<close>: terms as sequences of cells, an ordered map),
  \<open>CellMatch\<close> (matching and unification of sequences) and \<open>STree\<close> (\<open>stree.rs\<close>, the tree on identifiers):
  the tree with compressed edges implements a set of pairs of a term and a value, retrieval of
  generalisations is exact and retrieval of unification candidates complete, for symbols of fewer than
  256 arguments. \<open>Fvi\<close> (\<open>fvi.rs\<close>): feature vectors are a sound filter for multiset subsumption, the tree
  over them implements a multiset from which a removal takes one pair with the given value, and a locale
  with the contract of its four queries shows that pruning loses nothing. \<open>LitIndex\<close>
  (\<open>literal_index.rs\<close>) puts them together: its operations on literals refine operations on sets of
  postings, its invariant says that the postings and vectors are those of the stored clauses and is kept
  by every operation, and the queries for inference partners miss none.

  \<^bold>\<open>Not modelled.\<close>
  \<^item> The owned path ordering keys its memo by the addresses of its arguments; what a freed and reused
    address finds there is not a function of the terms. The owned superposition and equality
    factoring call it. The prover itself runs the versions on identifiers.
  \<^item> Of the indexes the discrimination trees without compressed edges; demodulation on owned terms,
    subsumption on identifiers, and the goal-directed preprocessing.
  \<^item> The search (\<open>mrs-search\<close>): the saturation loop with its heuristics, threads, clocks and the SAT
    solver CaDiCaL, and the special procedures for decidable fragments.
  \<^item> The parser (combinators of the package \<open>winnow\<close>), output, proof elaboration and the proof checkers
    \<open>mrs-proof-kernel\<close> and \<open>mrs-proover\<close>, which read proofs as text and drive external programs; the command
    line and the tools.
\<close>

end
